(* ===== verification/Prelude.thy ===== *)
theory Prelude
  imports Main "HOL-Library.Word"
begin

text \<open>
  Shared vocabulary of the CharDB development: results of fallible code, the SQL statements
  the stores issue (on tables as lists of rows), JavaScript's safe integers and decimal
  printing, byte strings, and the generic lemmas the component theories rest on.

  Conventions.
  \<^item> A JavaScript number that the source treats as an integer is an \<open>int\<close>. A fraction, a NaN
    or an infinity fails \<open>Number.isSafeInteger\<close> in the same branch as an integer beyond
    \<open>2 ^ 53 - 1\<close>, so \<open>safe_integer\<close> covers the branch.
  \<^item> A JavaScript string is a \<open>string\<close>; its characters are UTF-16 code units below 256.
  \<^item> A throwing function returns \<open>'e + 'a\<close>, with \<open>Inl\<close> for the exception. A function that runs
    inside \<open>transactionSync\<close> returns the new tables only under \<open>Inr\<close>: an exception rolls back.
  \<^item> An SQL table is the list of its rows in rowid order.
\<close>

named_theorems result_simps \<open>when a result is a value, and which\<close>
named_theorems table_simps \<open>rows of a table after a statement\<close>

section \<open>Results\<close>

fun rbind :: "'e + 'a \<Rightarrow> ('a \<Rightarrow> 'e + 'b) \<Rightarrow> 'e + 'b" where
  "rbind (Inl e) k = Inl e"
| "rbind (Inr x) k = k x"

definition ensure :: "bool \<Rightarrow> 'e \<Rightarrow> 'e + unit" where
  "ensure c e = (if c then Inr () else Inl e)"

text \<open>A loop whose body may throw, threading a state.\<close>

primrec rfold :: "('a \<Rightarrow> 's \<Rightarrow> 'e + 's) \<Rightarrow> 'a list \<Rightarrow> 's \<Rightarrow> 'e + 's" where
  "rfold f [] s = Inr s"
| "rfold f (x # xs) s = rbind (f x s) (rfold f xs)"

text \<open>\<open>array.map(f)\<close> with a throwing \<open>f\<close>.\<close>

primrec rmap :: "('a \<Rightarrow> 'e + 'b) \<Rightarrow> 'a list \<Rightarrow> 'e + 'b list" where
  "rmap f [] = Inr []"
| "rmap f (x # xs) = rbind (f x) (\<lambda>y. rbind (rmap f xs) (\<lambda>ys. Inr (y # ys)))"

fun result_ok :: "'e + 'a \<Rightarrow> bool" where
  "result_ok (Inl e) = False"
| "result_ok (Inr x) = True"

lemma rbind_eq_Inr [result_simps]: "rbind r k = Inr y \<longleftrightarrow> (\<exists>x. r = Inr x \<and> k x = Inr y)"
  by (cases r) auto

lemma rbind_eq_Inl: "rbind r k = Inl e \<longleftrightarrow> r = Inl e \<or> (\<exists>x. r = Inr x \<and> k x = Inl e)"
  by (cases r) auto

lemma rbind_assoc: "rbind (rbind r f) g = rbind r (\<lambda>x. rbind (f x) g)"
  by (cases r) simp_all

lemma rbind_cong [fundef_cong]:
  "r = r' \<Longrightarrow> (\<And>x. r' = Inr x \<Longrightarrow> k x = k' x) \<Longrightarrow> rbind r k = rbind r' k'"
  by (cases r') auto

lemma ensure_eq_Inr [result_simps]: "ensure c e = Inr u \<longleftrightarrow> c"
  by (simp add: ensure_def)

lemma ensure_eq_Inl [result_simps]: "ensure c e = Inl e' \<longleftrightarrow> \<not> c \<and> e' = e"
  by (auto simp: ensure_def)

lemma ensure_True [simp]: "ensure True e = Inr ()"
  by (simp add: ensure_def)

lemma ensure_False [simp]: "ensure False e = Inl e"
  by (simp add: ensure_def)

lemma result_ok_iff: "result_ok r \<longleftrightarrow> (\<exists>x. r = Inr x)"
  by (cases r) auto

lemma rmap_eq_Inr:
  "rmap f xs = Inr ys \<Longrightarrow> length ys = length xs \<and> (\<forall>i < length xs. f (xs ! i) = Inr (ys ! i))"
proof (induction xs arbitrary: ys)
  case Nil
  then show ?case by simp
next
  case (Cons x xs)
  then obtain y zs where y: "f x = Inr y" and zs: "rmap f xs = Inr zs" and ys: "ys = y # zs"
    by (auto simp: result_simps)
  show ?case using Cons.IH [OF zs] y ys by (auto simp: less_Suc_eq_0_disj)
qed

lemma rmap_Inr_map: "(\<And>x. x \<in> set xs \<Longrightarrow> f x = Inr (g x)) \<Longrightarrow> rmap f xs = Inr (map g xs)"
  by (induction xs) auto

lemma rfold_invariant:
  assumes "rfold f xs s = Inr s'" and "P s"
    and "\<And>x t t'. x \<in> set xs \<Longrightarrow> P t \<Longrightarrow> f x t = Inr t' \<Longrightarrow> P t'"
  shows "P s'"
  using assms
proof (induction xs arbitrary: s)
  case Nil
  then show ?case by simp
next
  case (Cons x xs)
  then obtain t where t: "f x s = Inr t" and rest: "rfold f xs t = Inr s'"
    by (auto simp: result_simps)
  have "P t" using Cons.prems(2,3) t by auto
  then show ?case using Cons.IH [OF rest] Cons.prems(3) by auto
qed

lemma rfold_each_ok:
  "rfold f xs s = Inr s' \<Longrightarrow> x \<in> set xs \<Longrightarrow> \<exists>t t'. f x t = Inr t'"
  by (induction xs arbitrary: s) (auto simp: result_simps)

lemma find_append1:
  "List.find p (xs @ [x]) = (case List.find p xs of Some y \<Rightarrow> Some y | None \<Rightarrow> if p x then Some x else None)"
  by (induction xs) auto

lemma sort_key_Nil: "sort_key f xs = [] \<longleftrightarrow> xs = []"
  by (metis length_0_conv length_sort)

section \<open>SQL statements on tables\<close>

text \<open>
  \<open>UPDATE t SET f WHERE p\<close>, \<open>DELETE FROM t WHERE p\<close>, \<open>SELECT ... WHERE p\<close> (in rowid order, at
  most one row for \<open>sql_one\<close>), and the number of rows \<open>changes()\<close> reports for the first two.
\<close>

definition sql_update :: "('r \<Rightarrow> bool) \<Rightarrow> ('r \<Rightarrow> 'r) \<Rightarrow> 'r list \<Rightarrow> 'r list" where
  "sql_update p f t = map (\<lambda>r. if p r then f r else r) t"

definition sql_delete :: "('r \<Rightarrow> bool) \<Rightarrow> 'r list \<Rightarrow> 'r list" where
  "sql_delete p t = filter (\<lambda>r. \<not> p r) t"

definition sql_changes :: "('r \<Rightarrow> bool) \<Rightarrow> 'r list \<Rightarrow> nat" where
  "sql_changes p t = length (filter p t)"

definition sql_one :: "('r \<Rightarrow> bool) \<Rightarrow> 'r list \<Rightarrow> 'r option" where
  "sql_one p t = List.find p t"

lemma sql_one_SomeD: "sql_one p t = Some r \<Longrightarrow> r \<in> set t \<and> p r"
  by (auto simp: sql_one_def find_Some_iff)

lemma sql_one_None_iff: "sql_one p t = None \<longleftrightarrow> (\<forall>r \<in> set t. \<not> p r)"
  by (auto simp: sql_one_def find_None_iff)

lemma set_sql_delete [table_simps]: "set (sql_delete p t) = {r \<in> set t. \<not> p r}"
  by (auto simp: sql_delete_def)

lemma set_sql_update [table_simps]:
  "set (sql_update p f t) = {r \<in> set t. \<not> p r} \<union> f ` {r \<in> set t. p r}"
  by (auto simp: sql_update_def)

lemma sql_update_id [simp]: "(\<And>r. r \<in> set t \<Longrightarrow> \<not> p r) \<Longrightarrow> sql_update p f t = t"
  by (induction t) (auto simp: sql_update_def)

lemma length_sql_update [simp]: "length (sql_update p f t) = length t"
  by (simp add: sql_update_def)

lemma distinct_keys_sql_update:
  "distinct (map key t) \<Longrightarrow> (\<And>r. p r \<Longrightarrow> key (f r) = key r) \<Longrightarrow> distinct (map key (sql_update p f t))"
proof -
  assume d: "distinct (map key t)" and k: "\<And>r. p r \<Longrightarrow> key (f r) = key r"
  have "map key (sql_update p f t) = map key t"
    using k by (simp add: sql_update_def)
  with d show ?thesis by simp
qed

lemma distinct_keys_sql_delete:
  "distinct (map key t) \<Longrightarrow> distinct (map key (sql_delete p t))"
  by (induction t) (auto simp: sql_delete_def)

lemma unique_key_row:
  "distinct (map key t) \<Longrightarrow> r \<in> set t \<Longrightarrow> s \<in> set t \<Longrightarrow> key r = key s \<Longrightarrow> r = s"
  by (auto simp: distinct_map dest: inj_onD)

lemma unique_key_rows_le_1:
  assumes "distinct (map key t)"
  shows "length (filter (\<lambda>r. key r = k) t) \<le> 1"
  using assms by (induction t) (auto simp: filter_empty_conv image_iff)

text \<open>
  With a unique key, \<open>SELECT\<close> by the key finds the row after it was updated, and finds any other
  row as it was.
\<close>

lemma sql_one_update_same:
  assumes "distinct (map key t)" and "sql_one (\<lambda>r. key r = k) t = Some r0"
    and "p r0" and "\<And>r. key (f r) = key r"
  shows "sql_one (\<lambda>r. key r = k) (sql_update p f t) = Some (f r0)"
  using assms(2,3)
proof (induction t)
  case Nil
  then show ?case by (simp add: sql_one_def)
next
  case (Cons a t)
  then show ?case using assms(4) by (auto simp: sql_one_def sql_update_def split: if_splits)
qed

lemma sql_one_update_other:
  assumes "\<And>r. key (f r) = key r" and "\<And>r. p r \<Longrightarrow> key r \<noteq> k"
  shows "sql_one (\<lambda>r. key r = k) (sql_update p f t) = sql_one (\<lambda>r. key r = k) t"
  using assms by (induction t) (auto simp: sql_one_def sql_update_def)

lemma sql_one_append_new:
  "sql_one (\<lambda>r. key r = k) t = None \<Longrightarrow> key r = k \<Longrightarrow> sql_one (\<lambda>r. key r = k) (t @ [r]) = Some r"
  by (induction t) (auto simp: sql_one_def split: if_splits)

lemma sql_one_append_old:
  "sql_one p t = Some r \<Longrightarrow> sql_one p (t @ u) = Some r"
  by (induction t) (auto simp: sql_one_def split: if_splits)

lemma sql_one_append_other:
  "\<not> p r \<Longrightarrow> sql_one p (t @ [r]) = sql_one p t"
  by (induction t) (auto simp: sql_one_def)

lemma sql_one_unique:
  assumes "distinct (map key t)" and "r \<in> set t"
  shows "sql_one (\<lambda>s. key s = key r) t = Some r"
  using assms by (induction t) (auto simp: sql_one_def image_iff)

section \<open>Numbers, decimals and bytes\<close>

definition safe_integer :: "int \<Rightarrow> bool" where
  "safe_integer n \<longleftrightarrow> \<bar>n\<bar> \<le> 9007199254740991"

text \<open>\<open>String(n)\<close> for an integer.\<close>

fun decimal_nat :: "nat \<Rightarrow> string" where
  "decimal_nat n = (if n < 10 then [char_of (48 + n)] else decimal_nat (n div 10) @ [char_of (48 + n mod 10)])"

declare decimal_nat.simps [simp del]

definition decimal :: "int \<Rightarrow> string" where
  "decimal n = (if n < 0 then CHR ''-'' # decimal_nat (nat (- n)) else decimal_nat (nat n))"

text \<open>Reading digits in a base up to 16.\<close>

definition digit_value :: "char \<Rightarrow> nat option" where
  "digit_value c = (let n = (of_char c :: nat) in
     if 48 \<le> n \<and> n \<le> 57 then Some (n - 48)
     else if 97 \<le> n \<and> n \<le> 102 then Some (n - 87)
     else if 65 \<le> n \<and> n \<le> 70 then Some (n - 55) else None)"

fun digits_value :: "nat \<Rightarrow> string \<Rightarrow> nat \<Rightarrow> nat option" where
  "digits_value base [] v = Some v"
| "digits_value base (c # cs) v = (case digit_value c of
     Some d \<Rightarrow> if d < base then digits_value base cs (v * base + d) else None | None \<Rightarrow> None)"

definition is_digit :: "char \<Rightarrow> bool" where
  "is_digit c \<longleftrightarrow> 48 \<le> (of_char c :: nat) \<and> (of_char c :: nat) \<le> 57"

lemma digits_value_append:
  "digits_value base (xs @ ys) v = (case digits_value base xs v of None \<Rightarrow> None | Some w \<Rightarrow> digits_value base ys w)"
  by (induction xs arbitrary: v) (auto split: option.splits)

lemma digit_value_char: "d < 10 \<Longrightarrow> digit_value (char_of (48 + d)) = Some d" for d :: nat
  by (simp add: digit_value_def)

lemma is_digit_char: "d < 10 \<Longrightarrow> is_digit (char_of (48 + d))" for d :: nat
  by (simp add: is_digit_def)

lemma decimal_nat_value: "digits_value 10 (decimal_nat n) 0 = Some n"
proof (induction n rule: decimal_nat.induct)
  case (1 n)
  show ?case
  proof (cases "n < 10")
    case True
    then show ?thesis by (subst decimal_nat.simps) (simp add: digit_value_char)
  next
    case False
    then show ?thesis using 1 by (subst decimal_nat.simps) (simp add: digits_value_append digit_value_char)
  qed
qed

lemma decimal_nat_digits: "decimal_nat n \<noteq> [] \<and> (\<forall>c \<in> set (decimal_nat n). is_digit c)"
proof (induction n rule: decimal_nat.induct)
  case (1 n)
  show ?case
  proof (cases "n < 10")
    case True
    then show ?thesis by (subst decimal_nat.simps, subst (2) decimal_nat.simps) (simp add: is_digit_char)
  next
    case False
    then show ?thesis using 1 by (subst decimal_nat.simps, subst (2) decimal_nat.simps) (auto simp: is_digit_char)
  qed
qed

text \<open>\<open>TextEncoder.encode\<close> on code units below 256, and on a whole string.\<close>

definition utf8_char :: "char \<Rightarrow> nat list" where
  "utf8_char c = (let n = of_char c in if n < 128 then [n] else [192 + n div 64, 128 + n mod 64])"

definition utf8 :: "string \<Rightarrow> nat list" where
  "utf8 s = concat (map utf8_char s)"

definition byte_list :: "nat list \<Rightarrow> bool" where
  "byte_list bs \<longleftrightarrow> (\<forall>b \<in> set bs. b < 256)"

lemma utf8_char_bytes: "b \<in> set (utf8_char c) \<Longrightarrow> b < 256"
proof -
  assume b: "b \<in> set (utf8_char c)"
  have "(of_char c :: nat) < 256" by simp
  then have "(of_char c :: nat) div 64 < 4" and "(of_char c :: nat) mod 64 < 64" by (auto simp: less_mult_imp_div_less)
  then show ?thesis using b by (auto simp: utf8_char_def Let_def split: if_splits)
qed

lemma byte_list_utf8 [simp]: "byte_list (utf8 s)"
  by (auto simp: byte_list_def utf8_def dest: utf8_char_bytes)

lemma utf8_char_cases:
  "utf8_char c = [n] \<Longrightarrow> n < 128"
  by (auto simp: utf8_char_def Let_def split: if_splits)

lemma utf8_char_inj_prefix:
  "utf8_char c @ xs = utf8_char d @ ys \<Longrightarrow> c = d \<and> xs = ys"
proof -
  assume eq: "utf8_char c @ xs = utf8_char d @ ys"
  let ?m = "of_char c :: nat" and ?n = "of_char d :: nat"
  have same: "?m = ?n" if "?m div 64 = ?n div 64" "?m mod 64 = ?n mod 64"
    using that by (metis mod_mult_div_eq)
  have "?m < 256" and "?n < 256" by simp_all
  then show ?thesis
    using eq same by (auto simp: utf8_char_def Let_def split: if_splits)
qed

lemma utf8_char_not_Nil [simp]: "utf8_char c \<noteq> []"
  by (simp add: utf8_char_def Let_def)

lemma utf8_inj: "utf8 s = utf8 t \<Longrightarrow> s = t"
proof (induction s arbitrary: t)
  case Nil
  then show ?case by (cases t) (auto simp: utf8_def)
next
  case (Cons c s)
  then obtain d u where t: "t = d # u"
    by (cases t) (auto simp: utf8_def)
  with Cons.prems have "utf8_char c @ utf8 s = utf8_char d @ utf8 u"
    by (simp add: utf8_def)
  then have "c = d" and "utf8 s = utf8 u" by (auto dest: utf8_char_inj_prefix)
  with Cons.IH t show ?case by simp
qed

section \<open>Sorted tables\<close>

text \<open>\<open>ORDER BY key LIMIT n\<close> is \<open>take n (sort_key key rows)\<close>.\<close>

lemma set_take_sort_key: "r \<in> set (take n (sort_key f t)) \<Longrightarrow> r \<in> set t"
  using set_take_subset [of n "sort_key f t"] by auto

end
