(* ===== verification/Errors.thy ===== *)
theory Errors
  imports Prelude
begin

text \<open>
  The locked error surface of \<^verbatim>\<open>src/src/errors.ts\<close>: the codes, their retry polarity, the
  documentation URL, and the encoding that carries a CharDB failure through Workers RPC (which
  keeps only the message text) and back.

  The store models report a failure as \<open>js_error\<close>: the class of the thrown value and, for a
  \<open>CdbError\<close>, its code. The source says that programs key on the code and never on the message
  text, so messages and hints appear only where the RPC encoding is modelled.
\<close>

section \<open>Codes\<close>

datatype (plugins only: code) cdb_code =
    CDB_STALE_EPOCH
  | CDB_CROSS_PARTITION
  | CDB_CROSS_PARTITION_BATCH
  | CDB_INTERACTIVE_TXN_UNSUPPORTED
  | CDB_NONLOCAL_UNIQUE
  | CDB_NONLOCAL_FK
  | CDB_AMBIGUOUS_COLOCATION
  | CDB_POLICY_UNKNOWN_ROOT
  | CDB_PARTITION_CONTRACT_CHANGED
  | CDB_SCATTER_NOT_INDEX
  | CDB_MUT_ID_COLLISION
  | CDB_UNIQUE_VIOLATION
  | CDB_MUTATION_OUTCOME_UNKNOWN
  | CDB_OPLOG_PRESSURE
  | CDB_AUTH_PROFILE_INCOMPATIBLE
  | CDB_RESERVED_TABLE_NAME
  | CDB_NO_INTENT_FOR_RAW_SQL
  | CDB_TXN_ABORTED_EVICTION
  | CDB_SHARDS_CHANGED
  | CDB_RATE_LIMITED
  | CDB_CALLER_DENIED
  | CDB_UNSUPPORTED_FEATURE
  | CDB_SHARD_UNAVAILABLE
  | CDB_CATALOG_UNAVAILABLE
  | CDB_FORBIDDEN
  | CDB_GSI_STRICT_REQUIRES_2PC
  | CDB_VECTORIZE_INDEX_MISSING
  | CDB_VECTORIZE_DIM_MISMATCH
  | CDB_STREAM_ABORTED
  | CDB_DISTINCT_CAP_EXCEEDED
  | CDB_INVARIANT
  | CDB_RESHARD_PHASE_MISMATCH
  | CDB_REF_NOT_FOUND
  | CDB_DT_NOT_IMPLEMENTED
  | CDB_DT_ABORTED
  | CDB_AUTH_NOT_BOUND
  | CDB_AUTH_CROSS_PARTITION_TX
  | CDB_AUTH_GSI_MISS
  | CDB_NOT_CDB_TABLE
  | CDB_INVALID_ARGS
  | CDB_INVALID_TENANT
  | CDB_INVALID_SELF
  | CDB_INVALID_COLUMN
  | CDB_INVALID_PARTITION
  | CDB_AMBIGUOUS_TENANT
  | CDB_MISSING_TENANT_FK
  | CDB_POLICY_CONFLICT
  | CDB_FORBIDDEN_COLUMN
  | CDB_TENANT_OVERRIDE
  | CDB_SELF_OVERRIDE

definition CDB_ERROR_CODES :: "cdb_code list" where
  "CDB_ERROR_CODES = [
     CDB_STALE_EPOCH, CDB_CROSS_PARTITION, CDB_CROSS_PARTITION_BATCH,
     CDB_INTERACTIVE_TXN_UNSUPPORTED, CDB_NONLOCAL_UNIQUE, CDB_NONLOCAL_FK,
     CDB_AMBIGUOUS_COLOCATION, CDB_POLICY_UNKNOWN_ROOT, CDB_PARTITION_CONTRACT_CHANGED,
     CDB_SCATTER_NOT_INDEX, CDB_MUT_ID_COLLISION, CDB_UNIQUE_VIOLATION,
     CDB_MUTATION_OUTCOME_UNKNOWN, CDB_OPLOG_PRESSURE, CDB_AUTH_PROFILE_INCOMPATIBLE,
     CDB_RESERVED_TABLE_NAME, CDB_NO_INTENT_FOR_RAW_SQL, CDB_TXN_ABORTED_EVICTION,
     CDB_SHARDS_CHANGED, CDB_RATE_LIMITED, CDB_CALLER_DENIED,
     CDB_UNSUPPORTED_FEATURE, CDB_SHARD_UNAVAILABLE, CDB_CATALOG_UNAVAILABLE,
     CDB_FORBIDDEN, CDB_GSI_STRICT_REQUIRES_2PC, CDB_VECTORIZE_INDEX_MISSING,
     CDB_VECTORIZE_DIM_MISMATCH, CDB_STREAM_ABORTED, CDB_DISTINCT_CAP_EXCEEDED,
     CDB_INVARIANT, CDB_RESHARD_PHASE_MISMATCH, CDB_REF_NOT_FOUND,
     CDB_DT_NOT_IMPLEMENTED, CDB_DT_ABORTED, CDB_AUTH_NOT_BOUND,
     CDB_AUTH_CROSS_PARTITION_TX, CDB_AUTH_GSI_MISS, CDB_NOT_CDB_TABLE,
     CDB_INVALID_ARGS, CDB_INVALID_TENANT, CDB_INVALID_SELF,
     CDB_INVALID_COLUMN, CDB_INVALID_PARTITION, CDB_AMBIGUOUS_TENANT,
     CDB_MISSING_TENANT_FK, CDB_POLICY_CONFLICT, CDB_FORBIDDEN_COLUMN,
     CDB_TENANT_OVERRIDE, CDB_SELF_OVERRIDE]"

primrec code_name :: "cdb_code \<Rightarrow> string" where
    "code_name CDB_STALE_EPOCH = ''CDB_STALE_EPOCH''"
  | "code_name CDB_CROSS_PARTITION = ''CDB_CROSS_PARTITION''"
  | "code_name CDB_CROSS_PARTITION_BATCH = ''CDB_CROSS_PARTITION_BATCH''"
  | "code_name CDB_INTERACTIVE_TXN_UNSUPPORTED = ''CDB_INTERACTIVE_TXN_UNSUPPORTED''"
  | "code_name CDB_NONLOCAL_UNIQUE = ''CDB_NONLOCAL_UNIQUE''"
  | "code_name CDB_NONLOCAL_FK = ''CDB_NONLOCAL_FK''"
  | "code_name CDB_AMBIGUOUS_COLOCATION = ''CDB_AMBIGUOUS_COLOCATION''"
  | "code_name CDB_POLICY_UNKNOWN_ROOT = ''CDB_POLICY_UNKNOWN_ROOT''"
  | "code_name CDB_PARTITION_CONTRACT_CHANGED = ''CDB_PARTITION_CONTRACT_CHANGED''"
  | "code_name CDB_SCATTER_NOT_INDEX = ''CDB_SCATTER_NOT_INDEX''"
  | "code_name CDB_MUT_ID_COLLISION = ''CDB_MUT_ID_COLLISION''"
  | "code_name CDB_UNIQUE_VIOLATION = ''CDB_UNIQUE_VIOLATION''"
  | "code_name CDB_MUTATION_OUTCOME_UNKNOWN = ''CDB_MUTATION_OUTCOME_UNKNOWN''"
  | "code_name CDB_OPLOG_PRESSURE = ''CDB_OPLOG_PRESSURE''"
  | "code_name CDB_AUTH_PROFILE_INCOMPATIBLE = ''CDB_AUTH_PROFILE_INCOMPATIBLE''"
  | "code_name CDB_RESERVED_TABLE_NAME = ''CDB_RESERVED_TABLE_NAME''"
  | "code_name CDB_NO_INTENT_FOR_RAW_SQL = ''CDB_NO_INTENT_FOR_RAW_SQL''"
  | "code_name CDB_TXN_ABORTED_EVICTION = ''CDB_TXN_ABORTED_EVICTION''"
  | "code_name CDB_SHARDS_CHANGED = ''CDB_SHARDS_CHANGED''"
  | "code_name CDB_RATE_LIMITED = ''CDB_RATE_LIMITED''"
  | "code_name CDB_CALLER_DENIED = ''CDB_CALLER_DENIED''"
  | "code_name CDB_UNSUPPORTED_FEATURE = ''CDB_UNSUPPORTED_FEATURE''"
  | "code_name CDB_SHARD_UNAVAILABLE = ''CDB_SHARD_UNAVAILABLE''"
  | "code_name CDB_CATALOG_UNAVAILABLE = ''CDB_CATALOG_UNAVAILABLE''"
  | "code_name CDB_FORBIDDEN = ''CDB_FORBIDDEN''"
  | "code_name CDB_GSI_STRICT_REQUIRES_2PC = ''CDB_GSI_STRICT_REQUIRES_2PC''"
  | "code_name CDB_VECTORIZE_INDEX_MISSING = ''CDB_VECTORIZE_INDEX_MISSING''"
  | "code_name CDB_VECTORIZE_DIM_MISMATCH = ''CDB_VECTORIZE_DIM_MISMATCH''"
  | "code_name CDB_STREAM_ABORTED = ''CDB_STREAM_ABORTED''"
  | "code_name CDB_DISTINCT_CAP_EXCEEDED = ''CDB_DISTINCT_CAP_EXCEEDED''"
  | "code_name CDB_INVARIANT = ''CDB_INVARIANT''"
  | "code_name CDB_RESHARD_PHASE_MISMATCH = ''CDB_RESHARD_PHASE_MISMATCH''"
  | "code_name CDB_REF_NOT_FOUND = ''CDB_REF_NOT_FOUND''"
  | "code_name CDB_DT_NOT_IMPLEMENTED = ''CDB_DT_NOT_IMPLEMENTED''"
  | "code_name CDB_DT_ABORTED = ''CDB_DT_ABORTED''"
  | "code_name CDB_AUTH_NOT_BOUND = ''CDB_AUTH_NOT_BOUND''"
  | "code_name CDB_AUTH_CROSS_PARTITION_TX = ''CDB_AUTH_CROSS_PARTITION_TX''"
  | "code_name CDB_AUTH_GSI_MISS = ''CDB_AUTH_GSI_MISS''"
  | "code_name CDB_NOT_CDB_TABLE = ''CDB_NOT_CDB_TABLE''"
  | "code_name CDB_INVALID_ARGS = ''CDB_INVALID_ARGS''"
  | "code_name CDB_INVALID_TENANT = ''CDB_INVALID_TENANT''"
  | "code_name CDB_INVALID_SELF = ''CDB_INVALID_SELF''"
  | "code_name CDB_INVALID_COLUMN = ''CDB_INVALID_COLUMN''"
  | "code_name CDB_INVALID_PARTITION = ''CDB_INVALID_PARTITION''"
  | "code_name CDB_AMBIGUOUS_TENANT = ''CDB_AMBIGUOUS_TENANT''"
  | "code_name CDB_MISSING_TENANT_FK = ''CDB_MISSING_TENANT_FK''"
  | "code_name CDB_POLICY_CONFLICT = ''CDB_POLICY_CONFLICT''"
  | "code_name CDB_FORBIDDEN_COLUMN = ''CDB_FORBIDDEN_COLUMN''"
  | "code_name CDB_TENANT_OVERRIDE = ''CDB_TENANT_OVERRIDE''"
  | "code_name CDB_SELF_OVERRIDE = ''CDB_SELF_OVERRIDE''"

definition RETRYABLE_CODES :: "cdb_code list" where
  "RETRYABLE_CODES = [CDB_STALE_EPOCH, CDB_TXN_ABORTED_EVICTION, CDB_RATE_LIMITED,
     CDB_SHARD_UNAVAILABLE, CDB_CATALOG_UNAVAILABLE, CDB_STREAM_ABORTED]"
definition isRetryable :: "cdb_code \<Rightarrow> bool" where
  "isRetryable c \<longleftrightarrow> c \<in> set RETRYABLE_CODES"

text \<open>\<open>isCdbErrorCode\<close> narrows a string; the model returns the code the string names.\<close>

definition isCdbErrorCode :: "string \<Rightarrow> cdb_code option" where
  "isCdbErrorCode s = List.find (\<lambda>c. code_name c = s) CDB_ERROR_CODES"

definition to_lower_char :: "char \<Rightarrow> char" where
  "to_lower_char c = (let n = (of_char c :: nat) in if 65 \<le> n \<and> n \<le> 90 then char_of (n + 32) else c)"

definition docsUrlFor :: "cdb_code \<Rightarrow> string" where
  "docsUrlFor c = ''https://chardb.dev/errors'' @ ''/'' @ map to_lower_char (code_name c)"

section \<open>Failures of the store models\<close>

datatype js_error =
    Cdb cdb_code
  | RangeError
  | TypeError
  | JsError
  | SqliteError \<comment> \<open>a constraint failure raised by SQLite itself\<close>

type_synonym 'a res = "js_error + 'a"

section \<open>The error class and its passage through Workers RPC\<close>

record CdbError =
  err_code :: cdb_code
  err_message :: string
  err_retryable :: bool
  err_correlationId :: "string option"
  err_docs :: string
  err_retryAfterMs :: "int option"
  err_hint :: "string option"

record CdbErrorInit =
  init_code :: cdb_code
  init_message :: "string option"
  init_correlationId :: "string option"
  init_retryAfterMs :: "int option"
  init_hint :: "string option"

definition new_CdbError :: "CdbErrorInit \<Rightarrow> CdbError" where
  "new_CdbError init =
     \<lparr> err_code = init_code init,
       err_message = (case init_message init of Some m \<Rightarrow> m | None \<Rightarrow> code_name (init_code init)),
       err_retryable = isRetryable (init_code init),
       err_correlationId = init_correlationId init,
       err_docs = docsUrlFor (init_code init),
       err_retryAfterMs = init_retryAfterMs init,
       err_hint = init_hint init \<rparr>"

text \<open>A thrown value: a \<open>CdbError\<close>, another \<open>Error\<close> with its message, or a value of no error class.\<close>

datatype thrown = ThrownCdb CdbError | ThrownError string | ThrownOther

definition throwCdbRpcError :: "thrown \<Rightarrow> thrown" where
  "throwCdbRpcError t = (case t of
       ThrownCdb e \<Rightarrow> ThrownError (code_name (err_code e) @ '': '' @ err_message e)
     | _ \<Rightarrow> t)"

text \<open>
  The pattern of \<open>rehydrateCdbRpcError\<close> is \<open>^(CDB_[A-Z_]+):\s*([\s\S]*)$\<close>. The class \<open>[A-Z_]\<close>
  does not contain the colon, so the greedy run is the longest one; \<open>\s*\<close> takes every leading
  white-space code unit, since the last group matches anything.
\<close>

definition code_char :: "char \<Rightarrow> bool" where
  "code_char c \<longleftrightarrow> (let n = (of_char c :: nat) in 65 \<le> n \<and> n \<le> 90) \<or> c = CHR ''_''"

definition space_char :: "char \<Rightarrow> bool" where
  "space_char c \<longleftrightarrow> (let n = (of_char c :: nat) in 9 \<le> n \<and> n \<le> 13 \<or> n = 32 \<or> n = 160)"

definition match_rpc_message :: "string \<Rightarrow> (string \<times> string) option" where
  "match_rpc_message s =
     (if take 4 s = ''CDB_''
      then (let run = takeWhile code_char (drop 4 s); rest = dropWhile code_char (drop 4 s) in
        if run = [] then None
        else (case rest of
            c # body \<Rightarrow> if c = CHR '':'' then Some (''CDB_'' @ run, dropWhile space_char body) else None
          | [] \<Rightarrow> None))
      else None)"

definition rehydrateCdbRpcError :: "thrown \<Rightarrow> thrown" where
  "rehydrateCdbRpcError t = (case t of
       ThrownError m \<Rightarrow> (case match_rpc_message m of
           None \<Rightarrow> t
         | Some (name, body) \<Rightarrow> (case isCdbErrorCode name of
               None \<Rightarrow> t
             | Some c \<Rightarrow> ThrownCdb (new_CdbError
                 \<lparr> init_code = c, init_message = Some (if body = [] then name else body),
                   init_correlationId = None, init_retryAfterMs = None, init_hint = None \<rparr>)))
     | _ \<Rightarrow> t)"

section \<open>Lemmas\<close>

lemma all_codes: "c \<in> set CDB_ERROR_CODES"
  by (cases c) (simp_all add: CDB_ERROR_CODES_def)

lemma distinct_code_names: "distinct (map code_name CDB_ERROR_CODES)"
  by code_simp

lemma code_name_inj: "code_name c = code_name d \<Longrightarrow> c = d"
  using distinct_code_names all_codes [of c] all_codes [of d]
  by (auto simp: distinct_map dest: inj_onD)

lemma isCdbErrorCode_name [simp]: "isCdbErrorCode (code_name c) = Some c"
proof -
  obtain d where d: "List.find (\<lambda>x. code_name x = code_name c) CDB_ERROR_CODES = Some d"
    using all_codes [of c] by (cases "List.find (\<lambda>x. code_name x = code_name c) CDB_ERROR_CODES")
      (auto simp: find_None_iff)
  then have "code_name d = code_name c" by (auto simp: find_Some_iff)
  then have "d = c" by (rule code_name_inj)
  with d show ?thesis by (simp add: isCdbErrorCode_def)
qed

lemma code_name_shape:
  assumes "c \<noteq> CDB_GSI_STRICT_REQUIRES_2PC"
  shows "take 4 (code_name c) = ''CDB_'' \<and> drop 4 (code_name c) \<noteq> [] \<and> list_all code_char (drop 4 (code_name c))"
proof -
  have "list_all (\<lambda>c. c = CDB_GSI_STRICT_REQUIRES_2PC \<or> take 4 (code_name c) = ''CDB_'' \<and> drop 4 (code_name c) \<noteq> [] \<and>
      list_all code_char (drop 4 (code_name c))) CDB_ERROR_CODES"
    by code_simp
  then show ?thesis using all_codes [of c] assms by (auto simp: list_all_iff)
qed

lemma match_rpc_message_encoded:
  assumes "c \<noteq> CDB_GSI_STRICT_REQUIRES_2PC"
  shows "match_rpc_message (code_name c @ '': '' @ m) = Some (code_name c, dropWhile space_char m)"
proof -
  obtain run where name: "code_name c = ''CDB_'' @ run" and ne: "run \<noteq> []" and run: "list_all code_char run"
    using code_name_shape [OF assms] by (metis append_take_drop_id)
  have colon: "\<not> code_char (CHR '':'')" by code_simp
  have tw: "takeWhile code_char (run @ '': '' @ m) = run"
    using run colon by (subst takeWhile_append2) (auto simp: list_all_iff)
  have dw: "dropWhile code_char (run @ '': '' @ m) = '': '' @ m"
    using run colon by (subst dropWhile_append2) (auto simp: list_all_iff)
  have "space_char (CHR '' '')" by code_simp
  then show ?thesis using name ne tw dw by (simp add: match_rpc_message_def Let_def)
qed

text \<open>
  A CharDB failure survives Workers RPC: encoding it into a plain error message and
  rehydrating it gives back a \<open>CdbError\<close> with the same code, the same retry polarity and
  documentation URL as the constructor gives that code, and the message without its leading
  white space (the code's name when nothing is left). This holds for every code but
  \<open>CDB_GSI_STRICT_REQUIRES_2PC\<close>.
\<close>

theorem rpc_error_roundtrip:
  assumes "err_code e \<noteq> CDB_GSI_STRICT_REQUIRES_2PC"
  shows "\<exists>e'. rehydrateCdbRpcError (throwCdbRpcError (ThrownCdb e)) = ThrownCdb e' \<and>
     err_code e' = err_code e \<and> err_retryable e' = isRetryable (err_code e) \<and>
     err_docs e' = docsUrlFor (err_code e) \<and>
     err_message e' = (let m = dropWhile space_char (err_message e) in
       if m = [] then code_name (err_code e) else m)"
  using match_rpc_message_encoded [OF assms, of "err_message e"]
  by (simp add: throwCdbRpcError_def rehydrateCdbRpcError_def new_CdbError_def Let_def)

theorem rpc_error_roundtrip_witness:
  "\<exists>e'. rehydrateCdbRpcError (throwCdbRpcError (ThrownCdb
      (new_CdbError \<lparr> init_code = CDB_STALE_EPOCH, init_message = Some ''moved'', init_correlationId = None,
        init_retryAfterMs = None, init_hint = None \<rparr>))) = ThrownCdb e' \<and>
     err_code e' = CDB_STALE_EPOCH \<and> err_retryable e' \<and> err_message e' = ''moved''"
proof -
  let ?e = "new_CdbError \<lparr> init_code = CDB_STALE_EPOCH, init_message = Some ''moved'', init_correlationId = None,
        init_retryAfterMs = None, init_hint = None \<rparr>"
  have c: "err_code ?e = CDB_STALE_EPOCH" and m: "err_message ?e = ''moved''"
    by (simp_all add: new_CdbError_def)
  have r: "isRetryable CDB_STALE_EPOCH" by code_simp
  have d: "dropWhile space_char ''moved'' = ''moved''" by code_simp
  have "err_code ?e \<noteq> CDB_GSI_STRICT_REQUIRES_2PC" using c by simp
  from rpc_error_roundtrip [OF this] show ?thesis using c m r d by (auto simp: Let_def)
qed

text \<open>
  C40. The exception to the round trip: the pattern accepts only upper-case letters and
  underscores, and one locked code has a digit in its name. A failure with that code is not
  rehydrated, whatever its message: the caller is left with the plain error.
\<close>

theorem rpc_error_2pc_lost:
  assumes "err_code e = CDB_GSI_STRICT_REQUIRES_2PC"
  shows "rehydrateCdbRpcError (throwCdbRpcError (ThrownCdb e)) =
     ThrownError (''CDB_GSI_STRICT_REQUIRES_2PC: '' @ err_message e)"
proof -
  have cs: "list_all code_char ''GSI_STRICT_REQUIRES_''" and d: "\<not> code_char (CHR ''2'')"
    by code_simp+
  then have "dropWhile code_char (''GSI_STRICT_REQUIRES_'' @ ''2PC: '' @ err_message e)
      = ''2PC: '' @ err_message e"
    by (subst dropWhile_append2) (auto simp: list_all_iff)
  then have "match_rpc_message (''CDB_GSI_STRICT_REQUIRES_2PC: '' @ err_message e) = None"
    by (simp add: match_rpc_message_def Let_def)
  then show ?thesis
    using assms by (simp add: throwCdbRpcError_def rehydrateCdbRpcError_def)
qed

theorem rpc_error_2pc_lost_witness:
  "rehydrateCdbRpcError (throwCdbRpcError (ThrownCdb
      (new_CdbError \<lparr> init_code = CDB_GSI_STRICT_REQUIRES_2PC, init_message = Some ''x'', init_correlationId = None,
        init_retryAfterMs = None, init_hint = None \<rparr>))) = ThrownError ''CDB_GSI_STRICT_REQUIRES_2PC: x''"
  by (subst rpc_error_2pc_lost) (simp_all add: new_CdbError_def)

end
