(* ===== verification/Store.thy ===== *)
theory Store
  imports Errors
begin

text \<open>
  What the durable stores share: inserts and updates under a table's PRIMARY KEY and CHECK
  constraints (SQLite raises on a violation, and the enclosing transaction rolls back), the
  identifier patterns, and the contract of a table of permanent records with a life cycle, as a
  locale that each such store interprets.
\<close>

section \<open>Constrained statements\<close>

definition sql_insert :: "('r \<Rightarrow> 'k) \<Rightarrow> ('r \<Rightarrow> bool) \<Rightarrow> 'r \<Rightarrow> 'r list \<Rightarrow> 'r list res" where
  "sql_insert key check r t =
     (if (\<exists>s \<in> set t. key s = key r) \<or> \<not> check r then Inl SqliteError else Inr (t @ [r]))"

definition sql_update_checked :: "('r \<Rightarrow> bool) \<Rightarrow> ('r \<Rightarrow> bool) \<Rightarrow> ('r \<Rightarrow> 'r) \<Rightarrow> 'r list \<Rightarrow> 'r list res" where
  "sql_update_checked check p f t =
     (if \<exists>r \<in> set t. p r \<and> \<not> check (f r) then Inl SqliteError else Inr (sql_update p f t))"

lemma sql_insert_Inr [result_simps]:
  "sql_insert key check r t = Inr t' \<longleftrightarrow> (\<forall>s \<in> set t. key s \<noteq> key r) \<and> check r \<and> t' = t @ [r]"
  by (auto simp: sql_insert_def)

lemma sql_update_checked_Inr [result_simps]:
  "sql_update_checked check p f t = Inr t' \<longleftrightarrow>
     (\<forall>r \<in> set t. p r \<longrightarrow> check (f r)) \<and> t' = sql_update p f t"
  by (auto simp: sql_update_checked_def)

section \<open>Identifier patterns\<close>

definition alnum_char :: "char \<Rightarrow> bool" where
  "alnum_char c \<longleftrightarrow> (let n = (of_char c :: nat) in
     48 \<le> n \<and> n \<le> 57 \<or> 65 \<le> n \<and> n \<le> 90 \<or> 97 \<le> n \<and> n \<le> 122)"

text \<open>The pattern \<open>/^[A-Za-z0-9][A-Za-z0-9._:-]{0,127}$/\<close> of migration and shard identifiers.\<close>

definition opaque_id :: "string \<Rightarrow> bool" where
  "opaque_id s \<longleftrightarrow> (case s of [] \<Rightarrow> False | c # cs \<Rightarrow>
     alnum_char c \<and> length cs \<le> 127 \<and> list_all (\<lambda>x. alnum_char x \<or> x \<in> set ''._:-'') cs)"

text \<open>The pattern \<open>/^[a-f0-9]{64}$/\<close> of a SHA-256 digest.\<close>

definition hex_digest :: "string \<Rightarrow> bool" where
  "hex_digest s \<longleftrightarrow> length s = 64 \<and> list_all (\<lambda>c. c \<in> set ''0123456789abcdef'') s"

section \<open>Tables of permanent records\<close>

text \<open>
  Several stores keep one row per operation for ever: a row's identity never changes and its
  status only moves forward. \<open>step\<close> is one successful call of any operation of the store.
\<close>

locale lifecycle_store =
  fixes ident :: "'r \<Rightarrow> 'i"
    and rank :: "'r \<Rightarrow> nat"
    and inv :: "'r list \<Rightarrow> bool"
    and step :: "'r list \<Rightarrow> 'r list \<Rightarrow> bool"
  assumes inv_empty: "inv []"
    and step_inv: "inv t \<Longrightarrow> step t t' \<Longrightarrow> inv t'"
    and step_row: "inv t \<Longrightarrow> step t t' \<Longrightarrow> r \<in> set t \<Longrightarrow>
      \<exists>r' \<in> set t'. ident r' = ident r \<and> rank r \<le> rank r'"
begin

lemma steps_inv: "step\<^sup>*\<^sup>* t t' \<Longrightarrow> inv t \<Longrightarrow> inv t'"
  by (induction rule: rtranclp_induct) (auto intro: step_inv)

lemma steps_row:
  "step\<^sup>*\<^sup>* t t' \<Longrightarrow> inv t \<Longrightarrow> r \<in> set t \<Longrightarrow> \<exists>r' \<in> set t'. ident r' = ident r \<and> rank r \<le> rank r'"
proof (induction rule: rtranclp_induct)
  case base
  then show ?case by blast
next
  case (step u w)
  then obtain s where s: "s \<in> set u" "ident s = ident r" "rank r \<le> rank s" by blast
  have "inv u" using step.hyps(1) step.prems(1) by (rule steps_inv)
  from step_row [OF this step.hyps(2) s(1)] s(2,3) show ?case by fastforce
qed

lemma reachable_inv: "step\<^sup>*\<^sup>* [] t \<Longrightarrow> inv t"
  using steps_inv inv_empty by blast

end

text \<open>
  A store whose terminal records are retry tombstones: once final, a row is never written or deleted
  again. \<open>final_store\<close> says only that; \<open>tombstone_store\<close> adds that no row is ever deleted.
\<close>

locale final_store =
  fixes table_inv :: "'r list \<Rightarrow> bool" and table_step :: "'r list \<Rightarrow> 'r list \<Rightarrow> bool" and final :: "'r \<Rightarrow> bool"
  assumes keeps_inv: "table_inv t \<Longrightarrow> table_step t t' \<Longrightarrow> table_inv t'"
    and keeps_final: "table_inv t \<Longrightarrow> table_step t t' \<Longrightarrow> r \<in> set t \<Longrightarrow> final r \<Longrightarrow> r \<in> set t'"
begin

lemma history_inv: "table_step\<^sup>*\<^sup>* t t' \<Longrightarrow> table_inv t \<Longrightarrow> table_inv t'"
  by (induction rule: rtranclp_induct) (auto intro: keeps_inv)

lemma steps_final: "table_step\<^sup>*\<^sup>* t t' \<Longrightarrow> table_inv t \<Longrightarrow> r \<in> set t \<Longrightarrow> final r \<Longrightarrow> r \<in> set t'"
  by (induction rule: rtranclp_induct) (auto intro: keeps_final history_inv)

end

locale tombstone_store = lifecycle_store ident rank inv step
  for ident :: "'r \<Rightarrow> 'i" and rank :: "'r \<Rightarrow> nat" and inv :: "'r list \<Rightarrow> bool" and step :: "'r list \<Rightarrow> 'r list \<Rightarrow> bool" +
  fixes final :: "'r \<Rightarrow> bool"
  assumes step_final: "inv t \<Longrightarrow> step t t' \<Longrightarrow> r \<in> set t \<Longrightarrow> final r \<Longrightarrow> r \<in> set t'"

sublocale tombstone_store \<subseteq> final_store inv step final
  by unfold_locales (fact step_inv, fact step_final)

text \<open>Rows of a table after an insert or a key-preserving update of the row with one key.\<close>

lemma row_after_update:
  assumes "r \<in> set t"
  shows "(if p r then f r else r) \<in> set (sql_update p f t)"
  using assms by (auto simp: sql_update_def)

end
