(* ===== verification/Xxhash64.thy ===== *)
theory Xxhash64
  imports Prelude
begin

text \<open>
  The partition-key hash of \<^verbatim>\<open>src/src/hash/xxhash64.ts\<close>. The source computes on unbounded
  \<open>BigInt\<close>s and masks with \<open>u64\<close>; the model does the same on \<open>int\<close>. A second definition computes
  on \<open>64 word\<close>, where arithmetic wraps by itself, and the main lemma says that both agree, so no
  mask of the source is missing or in the wrong place.
\<close>

unbundle bit_operations_syntax

section \<open>The source's definitions\<close>

definition PRIME64_1 :: int where "PRIME64_1 = 0x9e3779b185ebca87"
definition PRIME64_2 :: int where "PRIME64_2 = 0xc2b2ae3d27d4eb4f"
definition PRIME64_3 :: int where "PRIME64_3 = 0x165667b19e3779f9"
definition PRIME64_4 :: int where "PRIME64_4 = 0x85ebca77c2b2ae63"
definition PRIME64_5 :: int where "PRIME64_5 = 0x27d4eb2f165667c5"
definition MASK64 :: int where "MASK64 = 0xffffffffffffffff"

definition u64 :: "int \<Rightarrow> int" where
  "u64 n = n AND MASK64"

definition rotl64 :: "int \<Rightarrow> nat \<Rightarrow> int" where
  "rotl64 n r = u64 (push_bit r n OR drop_bit (64 - r) n)"

definition round64 :: "int \<Rightarrow> int \<Rightarrow> int" where
  "round64 acc lane =
     (let a = u64 (acc + u64 (lane * PRIME64_2));
          a = rotl64 a 31
      in u64 (a * PRIME64_1))"

definition mergeRound :: "int \<Rightarrow> int \<Rightarrow> int" where
  "mergeRound acc val =
     (let v = round64 0 val;
          a = acc XOR v;
          a = u64 (a * PRIME64_1)
      in u64 (a + PRIME64_4))"

text \<open>Little-endian reads of a \<open>DataView\<close>; every call of the source is in range.\<close>

definition readLE :: "nat \<Rightarrow> nat list \<Rightarrow> nat \<Rightarrow> int" where
  "readLE n view off = foldr (\<lambda>b acc. int b + 256 * acc) (take n (drop off view)) 0"

definition readLE64 :: "nat list \<Rightarrow> nat \<Rightarrow> int" where "readLE64 = readLE 8"
definition readLE32 :: "nat list \<Rightarrow> nat \<Rightarrow> int" where "readLE32 = readLE 4"
definition readLE8 :: "nat list \<Rightarrow> nat \<Rightarrow> int" where "readLE8 = readLE 1"

text \<open>The loop \<open>for (; off <= limit; off += 32)\<close> over the four lanes.\<close>

type_synonym lanes = "int \<times> int \<times> int \<times> int"

function stripes :: "nat list \<Rightarrow> nat \<Rightarrow> nat \<Rightarrow> lanes \<Rightarrow> nat \<times> lanes" where
  "stripes view limit off (v1, v2, v3, v4) =
     (if off \<le> limit
      then stripes view limit (off + 32)
        (round64 v1 (readLE64 view off), round64 v2 (readLE64 view (off + 8)),
         round64 v3 (readLE64 view (off + 16)), round64 v4 (readLE64 view (off + 24)))
      else (off, v1, v2, v3, v4))"
  by pat_completeness auto
termination by (relation "measure (\<lambda>(view, limit, off, v). Suc limit - off)") auto

declare stripes.simps [simp del]

text \<open>The loop \<open>while (off + 8 <= len)\<close>, the \<open>if\<close> for four bytes and the loop over the rest.\<close>

function tail8 :: "nat list \<Rightarrow> nat \<Rightarrow> int \<Rightarrow> nat \<times> int" where
  "tail8 view off h64 =
     (if off + 8 \<le> length view
      then (let k1 = round64 0 (readLE64 view off)
            in tail8 view (off + 8) (u64 (rotl64 (h64 XOR k1) 27 * PRIME64_1 + PRIME64_4)))
      else (off, h64))"
  by pat_completeness auto
termination by (relation "measure (\<lambda>(view, off, h). length view - off)") auto

declare tail8.simps [simp del]

definition tail4 :: "nat list \<Rightarrow> nat \<times> int \<Rightarrow> nat \<times> int" where
  "tail4 view = (\<lambda>(off, h64).
     if off + 4 \<le> length view
     then (off + 4, u64 (rotl64 (h64 XOR u64 (readLE32 view off * PRIME64_1)) 23 * PRIME64_2 + PRIME64_3))
     else (off, h64))"

function tail1 :: "nat list \<Rightarrow> nat \<Rightarrow> int \<Rightarrow> int" where
  "tail1 view off h64 =
     (if off < length view
      then tail1 view (off + 1) (u64 (rotl64 (h64 XOR u64 (readLE8 view off * PRIME64_5)) 11 * PRIME64_1))
      else h64)"
  by pat_completeness auto
termination by (relation "measure (\<lambda>(view, off, h). length view - off)") auto

declare tail1.simps [simp del]

definition avalanche :: "int \<Rightarrow> int" where
  "avalanche h64 =
     (let h64 = h64 XOR drop_bit 33 h64;
          h64 = u64 (h64 * PRIME64_2);
          h64 = h64 XOR drop_bit 29 h64;
          h64 = u64 (h64 * PRIME64_3)
      in h64 XOR drop_bit 32 h64)"

definition xxh_start :: "nat list \<Rightarrow> int \<Rightarrow> nat \<times> int" where
  "xxh_start input seed =
     (let len = length input in
      if 32 \<le> len
      then (let (off, v1, v2, v3, v4) = stripes input (len - 32) 0
                  (u64 (seed + PRIME64_1 + PRIME64_2), u64 (seed + PRIME64_2), u64 (seed + 0), u64 (seed - PRIME64_1));
                h64 = u64 (rotl64 v1 1 + rotl64 v2 7 + rotl64 v3 12 + rotl64 v4 18)
            in (off, mergeRound (mergeRound (mergeRound (mergeRound h64 v1) v2) v3) v4))
      else (0, u64 (seed + PRIME64_5)))"

definition xxhash64 :: "nat list \<Rightarrow> int \<Rightarrow> int" where
  "xxhash64 input seed =
     (let (off, h64) = xxh_start input seed;
          h64 = u64 (h64 + int (length input));
          (off, h64) = tail8 input off h64;
          (off, h64) = tail4 input (off, h64);
          h64 = tail1 input off h64
      in avalanche h64)"

section \<open>Reference on 64-bit words\<close>

type_synonym w64 = "64 word"

definition ref_round :: "w64 \<Rightarrow> w64 \<Rightarrow> w64" where
  "ref_round acc lane = word_rotl 31 (acc + lane * word_of_int PRIME64_2) * word_of_int PRIME64_1"

definition ref_merge :: "w64 \<Rightarrow> w64 \<Rightarrow> w64" where
  "ref_merge acc val = (acc XOR ref_round 0 val) * word_of_int PRIME64_1 + word_of_int PRIME64_4"

definition ref_read :: "nat \<Rightarrow> nat list \<Rightarrow> nat \<Rightarrow> w64" where
  "ref_read n view off = foldr (\<lambda>b acc. of_nat b + 256 * acc) (take n (drop off view)) 0"

function ref_stripes :: "nat list \<Rightarrow> nat \<Rightarrow> nat \<Rightarrow> w64 \<times> w64 \<times> w64 \<times> w64 \<Rightarrow> nat \<times> w64 \<times> w64 \<times> w64 \<times> w64" where
  "ref_stripes view limit off (v1, v2, v3, v4) =
     (if off \<le> limit
      then ref_stripes view limit (off + 32)
        (ref_round v1 (ref_read 8 view off), ref_round v2 (ref_read 8 view (off + 8)),
         ref_round v3 (ref_read 8 view (off + 16)), ref_round v4 (ref_read 8 view (off + 24)))
      else (off, v1, v2, v3, v4))"
  by pat_completeness auto
termination by (relation "measure (\<lambda>(view, limit, off, v). Suc limit - off)") auto

declare ref_stripes.simps [simp del]

function ref_tail8 :: "nat list \<Rightarrow> nat \<Rightarrow> w64 \<Rightarrow> nat \<times> w64" where
  "ref_tail8 view off h =
     (if off + 8 \<le> length view
      then ref_tail8 view (off + 8)
        (word_rotl 27 (h XOR ref_round 0 (ref_read 8 view off)) * word_of_int PRIME64_1 + word_of_int PRIME64_4)
      else (off, h))"
  by pat_completeness auto
termination by (relation "measure (\<lambda>(view, off, h). length view - off)") auto

declare ref_tail8.simps [simp del]

definition ref_tail4 :: "nat list \<Rightarrow> nat \<times> w64 \<Rightarrow> nat \<times> w64" where
  "ref_tail4 view = (\<lambda>(off, h).
     if off + 4 \<le> length view
     then (off + 4, word_rotl 23 (h XOR ref_read 4 view off * word_of_int PRIME64_1) * word_of_int PRIME64_2
             + word_of_int PRIME64_3)
     else (off, h))"

function ref_tail1 :: "nat list \<Rightarrow> nat \<Rightarrow> w64 \<Rightarrow> w64" where
  "ref_tail1 view off h =
     (if off < length view
      then ref_tail1 view (off + 1)
        (word_rotl 11 (h XOR ref_read 1 view off * word_of_int PRIME64_5) * word_of_int PRIME64_1)
      else h)"
  by pat_completeness auto
termination by (relation "measure (\<lambda>(view, off, h). length view - off)") auto

declare ref_tail1.simps [simp del]

definition ref_avalanche :: "w64 \<Rightarrow> w64" where
  "ref_avalanche h =
     (let h = (h XOR drop_bit 33 h) * word_of_int PRIME64_2;
          h = (h XOR drop_bit 29 h) * word_of_int PRIME64_3
      in h XOR drop_bit 32 h)"

definition ref_start :: "nat list \<Rightarrow> w64 \<Rightarrow> nat \<times> w64" where
  "ref_start input seed =
     (if 32 \<le> length input
      then (let (off, v1, v2, v3, v4) = ref_stripes input (length input - 32) 0
                  (seed + word_of_int PRIME64_1 + word_of_int PRIME64_2, seed + word_of_int PRIME64_2, seed,
                   seed - word_of_int PRIME64_1);
                h = word_rotl 1 v1 + word_rotl 7 v2 + word_rotl 12 v3 + word_rotl 18 v4
            in (off, ref_merge (ref_merge (ref_merge (ref_merge h v1) v2) v3) v4))
      else (0, seed + word_of_int PRIME64_5))"

definition xxhash64_ref :: "nat list \<Rightarrow> w64 \<Rightarrow> w64" where
  "xxhash64_ref input seed =
     (let (off, h) = ref_start input seed;
          (off, h) = ref_tail8 input off (h + of_nat (length input));
          (off, h) = ref_tail4 input (off, h)
      in ref_avalanche (ref_tail1 input off h))"

section \<open>The masked integers are the words\<close>

text \<open>\<open>u64_word n w\<close>: the \<open>BigInt\<close> \<open>n\<close> is in range and is the value of the word \<open>w\<close>.\<close>

definition u64_word :: "int \<Rightarrow> w64 \<Rightarrow> bool" where
  "u64_word n w \<longleftrightarrow> n = uint w"

lemma u64_take_bit: "u64 n = take_bit 64 n"
proof -
  have "MASK64 = mask 64" by (simp add: MASK64_def mask_eq_exp_minus_1)
  then show ?thesis by (simp add: u64_def take_bit_eq_mask)
qed

lemma u64_uint: "u64 n = uint (word_of_int n :: w64)"
  by (simp add: u64_take_bit uint_word_of_int_eq)

lemma u64_wordI: "word_of_int n = w \<Longrightarrow> u64_word (u64 n) w"
  by (simp add: u64_word_def u64_uint)

lemma u64_wordD: "u64_word n w \<Longrightarrow> word_of_int n = w"
  by (simp add: u64_word_def)

lemma u64_word_xor: "u64_word a v \<Longrightarrow> u64_word b w \<Longrightarrow> u64_word (a XOR b) (v XOR w)"
  by (simp add: u64_word_def uint_xor)

lemma u64_word_drop: "u64_word a v \<Longrightarrow> u64_word (drop_bit n a) (drop_bit n v)"
proof -
  have "take_bit 64 (uint v) = uint v" by (metis u64_take_bit u64_uint word_of_int_uint)
  then show "u64_word a v \<Longrightarrow> u64_word (drop_bit n a) (drop_bit n v)"
    by (simp add: u64_word_def unsigned_drop_bit_eq)
qed

lemma bit_rotl64:
  assumes "n = uint (w :: w64)" and "r < 64"
  shows "bit (rotl64 n r) i \<longleftrightarrow> i < 64 \<and> (if r \<le> i then bit w (i - r) else bit w (64 - r + i))"
  using assms
  by (auto simp: rotl64_def u64_take_bit bit_simps bit_uint_iff not_le dest: bit_imp_le_length)

lemma rotl_index:
  fixes r i :: nat
  assumes "r < 64" and "i < 64"
  shows "(i + (64 - r mod 64)) mod 64 = (if r \<le> i then i - r else 64 - r + i)"
proof (cases "r \<le> i")
  case True
  then have "i + (64 - r mod 64) = (i - r) + 64" using assms by simp
  then have "(i + (64 - r mod 64)) mod 64 = (i - r) mod 64" by (metis mod_add_self2)
  then show ?thesis using True assms by simp
next
  case False
  then have "i + (64 - r mod 64) = 64 - r + i" and "64 - r + i < 64" using assms by auto
  then show ?thesis using False by simp
qed

lemma u64_word_rotl:
  assumes "u64_word n w" and "r < 64"
  shows "u64_word (rotl64 n r) (word_rotl r w)"
proof -
  have n: "n = uint w" using assms(1) by (simp add: u64_word_def)
  have "bit (rotl64 n r) i = bit (uint (word_rotl r w)) i" for i
  proof (cases "i < 64")
    case True
    have "bit (uint (word_rotl r w)) i \<longleftrightarrow> bit w ((i + (64 - r mod 64)) mod 64)"
      using True by (simp add: bit_uint_iff bit_word_rotl_iff)
    then show ?thesis
      unfolding rotl_index [OF assms(2) True] using True by (simp add: bit_rotl64 [OF n assms(2)])
  next
    case False
    then show ?thesis
      by (simp add: bit_rotl64 [OF n assms(2)] bit_uint_iff)
  qed
  then show ?thesis unfolding u64_word_def by (simp add: bit_eq_iff)
qed

lemma u64_word_round:
  assumes "u64_word a v" and "word_of_int l = w"
  shows "u64_word (round64 a l) (ref_round v w)"
proof -
  have "u64_word (u64 (a + u64 (l * PRIME64_2))) (v + w * word_of_int PRIME64_2)"
    using assms by (intro u64_wordI) (auto simp: u64_uint dest: u64_wordD)
  then have "u64_word (rotl64 (u64 (a + u64 (l * PRIME64_2))) 31) (word_rotl 31 (v + w * word_of_int PRIME64_2))"
    by (rule u64_word_rotl) simp
  from u64_wordD [OF this] show ?thesis
    by (auto simp: round64_def ref_round_def Let_def intro!: u64_wordI)
qed

lemma u64_word_0 [simp]: "u64_word 0 0"
  by (simp add: u64_word_def)

lemma u64_word_merge:
  assumes "u64_word a v" and "u64_word l w"
  shows "u64_word (mergeRound a l) (ref_merge v w)"
proof -
  have "u64_word (a XOR round64 0 l) (v XOR ref_round 0 w)"
    using assms by (intro u64_word_xor u64_word_round) (auto dest: u64_wordD)
  from u64_wordD [OF this] show ?thesis
    by (auto simp: mergeRound_def ref_merge_def Let_def u64_uint u64_word_def)
qed

lemma readLE_word: "word_of_int (readLE n view off) = ref_read n view off"
proof -
  have "word_of_int (foldr (\<lambda>b acc. int b + 256 * acc) bs 0) = (foldr (\<lambda>b acc. of_nat b + 256 * acc) bs 0 :: w64)" for bs
    by (induction bs) auto
  then show ?thesis by (simp add: readLE_def ref_read_def)
qed

lemmas read_words = readLE64_def readLE32_def readLE8_def readLE_word

section \<open>The loops agree\<close>

definition lanes_word :: "lanes \<Rightarrow> w64 \<times> w64 \<times> w64 \<times> w64 \<Rightarrow> bool" where
  "lanes_word v w = (case v of (v1, v2, v3, v4) \<Rightarrow> case w of (w1, w2, w3, w4) \<Rightarrow>
     u64_word v1 w1 \<and> u64_word v2 w2 \<and> u64_word v3 w3 \<and> u64_word v4 w4)"

lemma stripes_word:
  "lanes_word v w \<Longrightarrow> fst (stripes view limit off v) = fst (ref_stripes view limit off w) \<and>
     lanes_word (snd (stripes view limit off v)) (snd (ref_stripes view limit off w))"
proof (induction view limit off v arbitrary: w rule: stripes.induct)
  case (1 view limit off v1 v2 v3 v4)
  obtain w1 w2 w3 w4 where w: "w = (w1, w2, w3, w4)" by (cases w)
  let ?v = "(round64 v1 (readLE64 view off), round64 v2 (readLE64 view (off + 8)),
         round64 v3 (readLE64 view (off + 16)), round64 v4 (readLE64 view (off + 24)))"
  let ?w = "(ref_round w1 (ref_read 8 view off), ref_round w2 (ref_read 8 view (off + 8)),
         ref_round w3 (ref_read 8 view (off + 16)), ref_round w4 (ref_read 8 view (off + 24)))"
  have step: "lanes_word ?v ?w"
    using "1.prems" w by (auto simp: lanes_word_def read_words intro!: u64_word_round)
  show ?case
  proof (cases "off \<le> limit")
    case True
    with "1.IH" [OF True step] show ?thesis
      by (simp add: w stripes.simps [of view limit off] ref_stripes.simps [of view limit off])
  next
    case False
    with "1.prems" w show ?thesis
      by (simp add: stripes.simps [of view limit off] ref_stripes.simps [of view limit off])
  qed
qed

lemma u64_word_step8:
  assumes "u64_word h w"
  shows "u64_word (u64 (rotl64 (h XOR round64 0 (readLE64 view off)) 27 * PRIME64_1 + PRIME64_4))
    (word_rotl 27 (w XOR ref_round 0 (ref_read 8 view off)) * word_of_int PRIME64_1 + word_of_int PRIME64_4)"
proof -
  have "u64_word (h XOR round64 0 (readLE64 view off)) (w XOR ref_round 0 (ref_read 8 view off))"
    using assms by (intro u64_word_xor u64_word_round) (auto simp: read_words)
  then have "u64_word (rotl64 (h XOR round64 0 (readLE64 view off)) 27)
      (word_rotl 27 (w XOR ref_round 0 (ref_read 8 view off)))"
    by (rule u64_word_rotl) simp
  from u64_wordD [OF this] show ?thesis by (auto intro!: u64_wordI)
qed

lemma tail8_word:
  "u64_word h w \<Longrightarrow> fst (tail8 view off h) = fst (ref_tail8 view off w) \<and>
     u64_word (snd (tail8 view off h)) (snd (ref_tail8 view off w))"
proof (induction view off h arbitrary: w rule: tail8.induct)
  case (1 view off h)
  show ?case
  proof (cases "off + 8 \<le> length view")
    case True
    from "1.IH" [OF True refl u64_word_step8 [OF "1.prems"]] True show ?thesis
      by (simp add: tail8.simps [of view off] ref_tail8.simps [of view off] Let_def)
  next
    case False
    with "1.prems" show ?thesis
      by (simp add: tail8.simps [of view off] ref_tail8.simps [of view off])
  qed
qed

lemma u64_word_mask_xor_rotl:
  assumes "u64_word h w" and "r < 64" and "word_of_int x = y"
  shows "word_of_int (rotl64 (h XOR u64 x) r) = word_rotl r (w XOR y)"
proof -
  have "u64_word (h XOR u64 x) (w XOR y)"
    using assms by (intro u64_word_xor u64_wordI)
  from u64_wordD [OF u64_word_rotl [OF this assms(2)]] show ?thesis .
qed

lemma tail4_word:
  "u64_word h w \<Longrightarrow> fst (tail4 view (off, h)) = fst (ref_tail4 view (off, w)) \<and>
     u64_word (snd (tail4 view (off, h))) (snd (ref_tail4 view (off, w)))"
  by (auto simp: tail4_def ref_tail4_def u64_word_mask_xor_rotl read_words intro!: u64_wordI)

lemma tail1_word: "u64_word h w \<Longrightarrow> u64_word (tail1 view off h) (ref_tail1 view off w)"
proof (induction view off h arbitrary: w rule: tail1.induct)
  case (1 view off h)
  have "u64_word (u64 (rotl64 (h XOR u64 (readLE8 view off * PRIME64_5)) 11 * PRIME64_1))
     (word_rotl 11 (w XOR ref_read 1 view off * word_of_int PRIME64_5) * word_of_int PRIME64_1)"
    using "1.prems" by (intro u64_wordI) (simp add: u64_word_mask_xor_rotl read_words)
  with "1" show ?case
    by (auto simp: tail1.simps [of view off] ref_tail1.simps [of view off])
qed

lemma u64_word_shift_mult:
  assumes "u64_word h w"
  shows "u64_word (u64 ((h XOR drop_bit n h) * p)) ((w XOR drop_bit n w) * word_of_int p)"
  using u64_wordD [OF u64_word_xor [OF assms u64_word_drop [OF assms]]]
  by (auto intro!: u64_wordI)

lemma avalanche_word: "u64_word h w \<Longrightarrow> u64_word (avalanche h) (ref_avalanche w)"
  unfolding avalanche_def ref_avalanche_def Let_def
  by (intro u64_word_xor u64_word_drop u64_word_shift_mult)

lemma start_word:
  "fst (xxh_start input seed) = fst (ref_start input (word_of_int seed)) \<and>
   u64_word (snd (xxh_start input seed)) (snd (ref_start input (word_of_int seed)))"
proof (cases "32 \<le> length input")
  case True
  let ?v = "(u64 (seed + PRIME64_1 + PRIME64_2), u64 (seed + PRIME64_2), u64 (seed + 0), u64 (seed - PRIME64_1))"
  let ?s = "word_of_int seed :: w64"
  let ?w = "(?s + word_of_int PRIME64_1 + word_of_int PRIME64_2, ?s + word_of_int PRIME64_2, ?s, ?s - word_of_int PRIME64_1)"
  have "lanes_word ?v ?w" by (auto simp: lanes_word_def intro!: u64_wordI)
  from stripes_word [OF this, of input "length input - 32" 0]
  obtain off v1 v2 v3 v4 w1 w2 w3 w4 where
    s: "stripes input (length input - 32) 0 ?v = (off, v1, v2, v3, v4)"
    and r: "ref_stripes input (length input - 32) 0 ?w = (off, w1, w2, w3, w4)"
    and l: "lanes_word (v1, v2, v3, v4) (w1, w2, w3, w4)"
    by (metis prod.collapse)
  have w: "u64_word v1 w1" "u64_word v2 w2" "u64_word v3 w3" "u64_word v4 w4"
    using l by (auto simp: lanes_word_def)
  have "u64_word (u64 (rotl64 v1 1 + rotl64 v2 7 + rotl64 v3 12 + rotl64 v4 18))
      (word_rotl 1 w1 + word_rotl 7 w2 + word_rotl 12 w3 + word_rotl 18 w4)"
    using w by (intro u64_wordI) (simp add: u64_wordD [OF u64_word_rotl])
  then show ?thesis
    using True s r w by (auto simp: xxh_start_def ref_start_def Let_def intro!: u64_word_merge)
next
  case False
  then show ?thesis by (auto simp: xxh_start_def ref_start_def intro!: u64_wordI)
qed

text \<open>
  C39. The \<open>BigInt\<close> code with its explicit masks computes the 64-bit hash: on every byte string
  and every seed its value is the value of the word computation, in which no mask is needed.
\<close>

theorem xxhash64_word: "xxhash64 input seed = uint (xxhash64_ref input (word_of_int seed))"
proof -
  obtain off h where c: "xxh_start input seed = (off, h)" by fastforce
  with start_word [of input seed] obtain w where r: "ref_start input (word_of_int seed) = (off, w)"
    and h: "u64_word h w" by (metis fst_conv prod.collapse snd_conv)
  have "u64_word (u64 (h + int (length input))) (w + of_nat (length input))"
    using u64_wordD [OF h] by (intro u64_wordI) simp
  from tail8_word [OF this, of input off] obtain off2 h2 w2 where
    c2: "tail8 input off (u64 (h + int (length input))) = (off2, h2)"
    and r2: "ref_tail8 input off (w + of_nat (length input)) = (off2, w2)" and h2: "u64_word h2 w2"
    by (metis prod.collapse)
  from tail4_word [OF h2, of input off2] obtain off3 h3 w3 where
    c3: "tail4 input (off2, h2) = (off3, h3)" and r3: "ref_tail4 input (off2, w2) = (off3, w3)"
    and h3: "u64_word h3 w3" by (metis prod.collapse)
  from avalanche_word [OF tail1_word [OF h3, of input off3]] show ?thesis
    by (simp add: xxhash64_def xxhash64_ref_def c r c2 r2 c3 r3 u64_word_def)
qed

lemma xxhash64_range: "0 \<le> xxhash64 input seed \<and> xxhash64 input seed < 2 ^ 64"
  unfolding xxhash64_word using uint_lt2p [of "xxhash64_ref input (word_of_int seed)"] by simp

end
