(* ===== verification/Vshard.thy ===== *)
theory Vshard
  imports Errors Xxhash64
begin

text \<open>
  The router of \<^verbatim>\<open>src/src/vshard.ts\<close> and the range filter of \<^verbatim>\<open>src/src/reshard/range.ts\<close>: the
  canonical encoding of a partition key, the virtual shard of a key, and the table of vshard
  ranges with its constructor, its binary search and its split. The invariant of a table is
  \<open>valid_map\<close>: the ranges tile the vshard namespace in order. The locale \<open>partition_router\<close> is
  what the Catalog relies on; the table of the source is interpreted as one.
\<close>

section \<open>Partition keys\<close>

definition VSHARD_COUNT :: int where "VSHARD_COUNT = 16384"
definition XXHASH64_SEED :: int where "XXHASH64_SEED = 0"
definition SEP :: nat where "SEP = 31"

datatype key_scalar = KString string | KNumber int | KBigint int | KBytes "nat list" | KUnsupported

definition scalar_bytes :: "key_scalar \<Rightarrow> nat list res" where
  "scalar_bytes c = (case c of
       KBytes bs \<Rightarrow> Inr bs
     | KString s \<Rightarrow> Inr (utf8 s)
     | KNumber n \<Rightarrow> Inr (utf8 (decimal n))
     | KBigint n \<Rightarrow> Inr (utf8 (decimal n))
     | KUnsupported \<Rightarrow> Inl TypeError)"

text \<open>The loop over the columns collects the parts; the flag says whether \<open>i > 0\<close>.\<close>

fun concat_parts :: "bool \<Rightarrow> key_scalar list \<Rightarrow> nat list list res" where
  "concat_parts later [] = Inr []"
| "concat_parts later (c # cols) =
     rbind (scalar_bytes c) (\<lambda>p. rbind (concat_parts True cols) (\<lambda>ps.
       Inr ((if later then [[SEP]] else []) @ p # ps)))"

definition canonicalConcat :: "key_scalar list \<Rightarrow> nat list res" where
  "canonicalConcat cols = rbind (concat_parts False cols) (\<lambda>parts. Inr (concat parts))"

definition vshardOf :: "key_scalar list \<Rightarrow> int res" where
  "vshardOf cols = rbind (canonicalConcat cols) (\<lambda>bytes. Inr (xxhash64 bytes XXHASH64_SEED mod VSHARD_COUNT))"

section \<open>The range table\<close>

record VshardRange =
  lo :: int
  hi :: int
  shardId :: string

type_synonym VshardMap = "VshardRange list"

definition insertSorted :: "VshardRange \<Rightarrow> VshardMap \<Rightarrow> VshardMap res" where
  "insertSorted r ranges =
     (if lo r < 0 \<or> VSHARD_COUNT \<le> hi r \<or> hi r < lo r then Inl RangeError
      else Inr (takeWhile (\<lambda>x. lo x < lo r) ranges @ r # dropWhile (\<lambda>x. lo x < lo r) ranges))"

fun gap_free :: "VshardMap \<Rightarrow> bool" where
  "gap_free (prev # cur # rest) = (lo cur = hi prev + 1 \<and> gap_free (cur # rest))"
| "gap_free _ = True"

definition assertContiguous :: "VshardMap \<Rightarrow> unit res" where
  "assertContiguous ranges =
     (if ranges = [] then Inl RangeError
      else if lo (hd ranges) \<noteq> 0 then Inl RangeError
      else if \<not> gap_free ranges then Inl RangeError
      else if hi (last ranges) \<noteq> VSHARD_COUNT - 1 then Inl RangeError
      else Inr ())"

definition new_VshardMap :: "VshardRange list \<Rightarrow> VshardMap res" where
  "new_VshardMap initial =
     rbind (rfold insertSorted initial []) (\<lambda>ranges. rbind (assertContiguous ranges) (\<lambda>_. Inr ranges))"

definition initial_ranges :: "VshardRange list" where
  "initial_ranges = [\<lparr> lo = 0, hi = VSHARD_COUNT - 1, shardId = ''ShardDO_0'' \<rparr>]"

definition range_at :: "VshardMap \<Rightarrow> int \<Rightarrow> VshardRange option" where
  "range_at ranges i = (if 0 \<le> i \<and> i < int (length ranges) then Some (ranges ! nat i) else None)"

text \<open>
  The binary search. Reading a property of a missing range would be a \<open>TypeError\<close>; the theorems
  below show that the search never reads out of range on a valid table.
\<close>

function search :: "VshardMap \<Rightarrow> int \<Rightarrow> int \<Rightarrow> int \<Rightarrow> string res" where
  "search ranges v l h =
     (if l \<le> h
      then (let mid = (l + h) div 2 in
        case range_at ranges mid of
          None \<Rightarrow> Inl TypeError
        | Some r \<Rightarrow>
            if v < lo r then search ranges v l (mid - 1)
            else if hi r < v then search ranges v (mid + 1) h
            else Inr (shardId r))
      else Inl RangeError)"
  by pat_completeness auto
termination by (relation "measure (\<lambda>(ranges, v, l, h). nat (h - l + 1))") auto

declare search.simps [simp del]

definition routeVshard :: "VshardMap \<Rightarrow> int \<Rightarrow> string res" where
  "routeVshard ranges v =
     (if v < 0 \<or> VSHARD_COUNT \<le> v then Inl RangeError
      else search ranges v 0 (int (length ranges) - 1))"

fun findIndex :: "('a \<Rightarrow> bool) \<Rightarrow> 'a list \<Rightarrow> nat option" where
  "findIndex p [] = None"
| "findIndex p (x # xs) = (if p x then Some 0 else map_option Suc (findIndex p xs))"

definition split_map :: "VshardMap \<Rightarrow> int \<Rightarrow> int \<Rightarrow> string \<Rightarrow> VshardMap res" where
  "split_map ranges l h toShard =
     (case findIndex (\<lambda>r. lo r \<le> l \<and> h \<le> hi r) ranges of
        None \<Rightarrow> Inl RangeError
      | Some idx \<Rightarrow>
          (let target = ranges ! idx in
           if shardId target = toShard then Inl RangeError
           else new_VshardMap
             (take idx ranges
              @ (if lo target < l then [\<lparr> lo = lo target, hi = l - 1, shardId = shardId target \<rparr>] else [])
              @ [\<lparr> lo = l, hi = h, shardId = toShard \<rparr>]
              @ (if h < hi target then [\<lparr> lo = h + 1, hi = hi target, shardId = shardId target \<rparr>] else [])
              @ drop (Suc idx) ranges)))"

section \<open>Rows of a range (\<open>reshard/range.ts\<close>)\<close>

text \<open>A partition value: absent, a string, a number or a bigint, or another value with its \<open>String(value)\<close>.\<close>

datatype partition_value = PNull | PUndefined | PString string | PNumber int | PBigint int | POther string

definition rowVshard :: "partition_value \<Rightarrow> int res" where
  "rowVshard pv = (case pv of
       PNull \<Rightarrow> vshardOf [KString []]
     | PUndefined \<Rightarrow> vshardOf [KString []]
     | PString s \<Rightarrow> vshardOf [KString s]
     | PNumber n \<Rightarrow> vshardOf [KString (decimal n)]
     | PBigint n \<Rightarrow> vshardOf [KString (decimal n)]
     | POther s \<Rightarrow> vshardOf [KString s])"

definition inRange :: "partition_value \<Rightarrow> int \<times> int \<Rightarrow> bool res" where
  "inRange pv rg = rbind (rowVshard pv) (\<lambda>v. Inr (fst rg \<le> v \<and> v \<le> snd rg))"

text \<open>A row is a partial map from column names; an absent column reads as \<open>undefined\<close>.\<close>

definition filterRowsInRange ::
    "(string \<rightharpoonup> partition_value) list \<Rightarrow> string \<Rightarrow> int \<times> int \<Rightarrow> (string \<rightharpoonup> partition_value) list res" where
  "filterRowsInRange rows partitionColumn rg =
     rbind (rmap (\<lambda>r. inRange (case r partitionColumn of None \<Rightarrow> PUndefined | Some v \<Rightarrow> v) rg) rows)
       (\<lambda>keep. Inr (map fst (filter snd (zip rows keep))))"

section \<open>Lemmas: partition keys\<close>

lemma vshardOf_range: "vshardOf cols = Inr v \<Longrightarrow> 0 \<le> v \<and> v < VSHARD_COUNT"
  by (auto simp: vshardOf_def VSHARD_COUNT_def result_simps)

lemma concat_parts_ok: "KUnsupported \<notin> set cols \<Longrightarrow> \<exists>ps. concat_parts later cols = Inr ps"
proof (induction cols arbitrary: later)
  case Nil
  then show ?case by simp
next
  case (Cons c cols)
  then obtain ps where "concat_parts True cols = Inr ps" by fastforce
  with Cons.prems show ?case by (cases c) (auto simp: scalar_bytes_def)
qed

lemma vshardOf_ok: "KUnsupported \<notin> set cols \<Longrightarrow> \<exists>v. vshardOf cols = Inr v"
  using concat_parts_ok [of cols False] by (auto simp: vshardOf_def canonicalConcat_def)

lemma rowVshard_ok: "\<exists>v. rowVshard pv = Inr v \<and> 0 \<le> v \<and> v < VSHARD_COUNT"
proof -
  have "\<exists>v. vshardOf [KString s] = Inr v \<and> 0 \<le> v \<and> v < VSHARD_COUNT" for s
    using vshardOf_ok [of "[KString s]"] vshardOf_range by auto
  then show ?thesis by (cases pv) (auto simp: rowVshard_def)
qed

text \<open>
  The text columns of a composite key, and the encoding of a key of text columns: every column
  after the first is preceded by one separator byte.
\<close>

lemma concat_map_concat_pairs: "concat (concat (map (\<lambda>t. [[x], f t]) ss)) = concat (map (\<lambda>t. x # f t) ss)"
  by (induction ss) auto

lemma canonicalConcat_strings:
  "canonicalConcat (map KString (s # ss)) = Inr (utf8 s @ concat (map (\<lambda>t. SEP # utf8 t) ss))"
proof -
  have "concat_parts True (map KString ss) = Inr (concat (map (\<lambda>t. [[SEP], utf8 t]) ss))" for ss
    by (induction ss) (auto simp: scalar_bytes_def)
  then show ?thesis
    by (simp add: canonicalConcat_def scalar_bytes_def concat_map_concat_pairs)
qed

definition sep_free :: "string \<Rightarrow> bool" where
  "sep_free s \<longleftrightarrow> SEP \<notin> set (utf8 s)"

lemma sep_split_unique:
  assumes "SEP \<notin> set a" and "SEP \<notin> set b" and "a @ xs = b @ ys"
    and "xs = [] \<or> hd xs = SEP" and "ys = [] \<or> hd ys = SEP"
  shows "a = b \<and> xs = ys"
  using assms
proof (induction a arbitrary: b)
  case Nil
  then show ?case by (cases b) auto
next
  case (Cons x a)
  show ?case
  proof (cases b)
    case Nil
    with Cons.prems show ?thesis by (cases ys) auto
  next
    case (Cons y c)
    with Cons.prems Cons.IH [of c] show ?thesis by auto
  qed
qed

lemma sep_blocks_hd: "concat (map (\<lambda>t. SEP # utf8 t) ss) = [] \<or> hd (concat (map (\<lambda>t. SEP # utf8 t) ss)) = SEP"
  by (cases ss) auto

lemma sep_blocks_inj:
  assumes "\<forall>t \<in> set ss. sep_free t" and "\<forall>t \<in> set ts. sep_free t"
    and "concat (map (\<lambda>t. SEP # utf8 t) ss) = concat (map (\<lambda>t. SEP # utf8 t) ts)"
  shows "ss = ts"
  using assms
proof (induction ss arbitrary: ts)
  case Nil
  then show ?case by (cases ts) auto
next
  case (Cons s ss)
  then obtain t us where ts: "ts = t # us" by (cases ts) auto
  have "utf8 s @ concat (map (\<lambda>t. SEP # utf8 t) ss) = utf8 t @ concat (map (\<lambda>t. SEP # utf8 t) us)"
    using Cons.prems(3) ts by simp
  moreover have "SEP \<notin> set (utf8 s)" and "SEP \<notin> set (utf8 t)"
    using Cons.prems(1,2) ts by (simp_all add: sep_free_def)
  ultimately have eq: "utf8 s = utf8 t \<and> concat (map (\<lambda>t. SEP # utf8 t) ss) = concat (map (\<lambda>t. SEP # utf8 t) us)"
    by (intro sep_split_unique sep_blocks_hd)
  have "ss = us" using Cons.prems(1,2) eq ts by (intro Cons.IH) simp_all
  with eq ts show ?case by (simp add: utf8_inj)
qed

text \<open>
  The composite encoding keeps text keys apart: two nonempty tuples of text columns, none of
  which contains the separator byte, have the same canonical bytes only when they are the same
  tuple. So two such partition keys share a vshard only through a collision of the hash.
\<close>

theorem canonicalConcat_inj:
  assumes "\<forall>t \<in> set (s # ss). sep_free t" and "\<forall>t \<in> set (t0 # ts). sep_free t"
    and "canonicalConcat (map KString (s # ss)) = canonicalConcat (map KString (t0 # ts))"
  shows "s # ss = t0 # ts"
proof -
  have "utf8 s @ concat (map (\<lambda>t. SEP # utf8 t) ss) = utf8 t0 @ concat (map (\<lambda>t. SEP # utf8 t) ts)"
    using assms(3) unfolding canonicalConcat_strings by simp
  then have "utf8 s = utf8 t0 \<and> concat (map (\<lambda>t. SEP # utf8 t) ss) = concat (map (\<lambda>t. SEP # utf8 t) ts)"
    using assms(1,2) by (intro sep_split_unique sep_blocks_hd) (auto simp: sep_free_def)
  then show ?thesis
    using assms(1,2) sep_blocks_inj [of ss ts] by (auto dest: utf8_inj)
qed

theorem canonicalConcat_inj_witness:
  "canonicalConcat (map KString [''ab'', ''c'']) \<noteq> canonicalConcat (map KString [''a'', ''bc''])"
proof
  assume eq: "canonicalConcat (map KString [''ab'', ''c'']) = canonicalConcat (map KString [''a'', ''bc''])"
  have f: "\<forall>t \<in> set [''ab'', ''c'']. sep_free t" "\<forall>t \<in> set [''a'', ''bc'']. sep_free t"
    by code_simp+
  from canonicalConcat_inj [OF f(1) f(2) eq] show False by simp
qed

section \<open>Lemmas: the table\<close>

text \<open>\<open>tiles a rs b\<close>: the ranges are nonempty, in order, and fill \<open>a\<close> up to, but not including, \<open>b\<close>.\<close>

fun tiles :: "int \<Rightarrow> VshardMap \<Rightarrow> int \<Rightarrow> bool" where
  "tiles a [] b = (a = b)"
| "tiles a (r # rs) b = (lo r = a \<and> lo r \<le> hi r \<and> tiles (hi r + 1) rs b)"

definition valid_map :: "VshardMap \<Rightarrow> bool" where
  "valid_map ranges \<longleftrightarrow> tiles 0 ranges VSHARD_COUNT"

definition covers :: "VshardRange \<Rightarrow> int \<Rightarrow> bool" where
  "covers r v \<longleftrightarrow> lo r \<le> v \<and> v \<le> hi r"

lemma tiles_append: "tiles a (rs @ ss) c \<longleftrightarrow> (\<exists>b. tiles a rs b \<and> tiles b ss c)"
  by (induction rs arbitrary: a) auto

lemma tiles_le: "tiles a rs b \<Longrightarrow> a \<le> b"
  by (induction rs arbitrary: a) (simp, fastforce)

lemma tiles_bounds:
  assumes "tiles a rs b" and "r \<in> set rs"
  shows "a \<le> lo r \<and> lo r \<le> hi r \<and> hi r < b"
proof -
  obtain xs ys where "rs = xs @ r # ys" using assms(2) by (auto simp: in_set_conv_decomp)
  with assms(1) show ?thesis by (auto simp: tiles_append dest!: tiles_le)
qed

lemma tiles_covered: "tiles a rs b \<Longrightarrow> a \<le> v \<Longrightarrow> v < b \<Longrightarrow> \<exists>k < length rs. covers (rs ! k) v"
proof (induction rs arbitrary: a)
  case Nil
  then show ?case by simp
next
  case (Cons x rs)
  show ?case
  proof (cases "v \<le> hi x")
    case True
    with Cons.prems show ?thesis by (intro exI [of _ 0]) (auto simp: covers_def)
  next
    case False
    with Cons.prems Cons.IH [of "hi x + 1"] obtain k where "k < length rs" "covers (rs ! k) v" by auto
    then show ?thesis by (intro exI [of _ "Suc k"]) auto
  qed
qed

lemma tiles_sorted:
  assumes "tiles a rs b" and "i < j" and "j < length rs"
  shows "hi (rs ! i) < lo (rs ! j)"
proof -
  have "rs = take j rs @ rs ! j # drop (Suc j) rs" using assms(3) by (rule id_take_nth_drop)
  then obtain c where "tiles a (take j rs) c" and "lo (rs ! j) = c"
    using assms(1) by (metis tiles.simps(2) tiles_append)
  moreover have "rs ! i \<in> set (take j rs)"
    using assms(2,3) by (metis in_set_conv_nth length_take min.absorb4 nth_take)
  ultimately show ?thesis using tiles_bounds by fastforce
qed

lemma tiles_unique:
  assumes "tiles a rs b" and "i < length rs" and "j < length rs" and "covers (rs ! i) v" and "covers (rs ! j) v"
  shows "i = j"
proof (rule ccontr)
  assume "i \<noteq> j"
  then consider "i < j" | "j < i" by linarith
  then show False
    using tiles_sorted [OF assms(1)] assms(2-5) by cases (force simp: covers_def)+
qed

subsection \<open>The constructor\<close>

lemma gap_free_tiles:
  assumes "rs \<noteq> []" and "gap_free rs" and "\<forall>r \<in> set rs. lo r \<le> hi r"
  shows "tiles (lo (hd rs)) rs (hi (last rs) + 1)"
  using assms by (induction rs rule: gap_free.induct) auto

lemma tiles_gap_free: "tiles a rs b \<Longrightarrow> rs \<noteq> [] \<Longrightarrow> gap_free rs \<and> lo (hd rs) = a \<and> hi (last rs) = b - 1"
  by (induction rs arbitrary: a rule: gap_free.induct) auto

lemma VSHARD_COUNT_pos [simp]: "0 < VSHARD_COUNT" "VSHARD_COUNT \<noteq> 0"
  by (simp_all add: VSHARD_COUNT_def)

lemma insertSorted_ok:
  "insertSorted r rs = Inr rs' \<Longrightarrow> lo r \<le> hi r \<and> set rs' = insert r (set rs)"
  by (auto simp: insertSorted_def split: if_splits dest: set_takeWhileD set_dropWhileD)
    (metis in_set_conv_decomp takeWhile_dropWhile_id Un_iff set_append)

lemma insertSorted_last:
  assumes "0 \<le> lo r" and "lo r \<le> hi r" and "hi r < VSHARD_COUNT" and "\<forall>x \<in> set rs. lo x < lo r"
  shows "insertSorted r rs = Inr (rs @ [r])"
  using assms by (auto simp: insertSorted_def)

lemma rfold_insertSorted_tiles:
  "tiles 0 done a \<Longrightarrow> tiles a rs VSHARD_COUNT \<Longrightarrow> rfold insertSorted rs done = Inr (done @ rs)"
proof (induction rs arbitrary: "done" a)
  case Nil
  then show ?case by simp
next
  case (Cons r rs)
  have "hi r < VSHARD_COUNT" and "0 \<le> lo r" and "lo r = a" and "lo r \<le> hi r"
    using Cons.prems tiles_bounds [OF Cons.prems(2), of r] tiles_le [OF Cons.prems(1)] by auto
  moreover have "\<forall>x \<in> set done. lo x < lo r"
    using tiles_bounds [OF Cons.prems(1)] \<open>lo r = a\<close> by fastforce
  ultimately have ins: "insertSorted r done = Inr (done @ [r])" by (intro insertSorted_last)
  have "tiles 0 (done @ [r]) (hi r + 1)" and "tiles (hi r + 1) rs VSHARD_COUNT"
    using Cons.prems by (auto simp: tiles_append)
  from Cons.IH [OF this] ins show ?case by simp
qed

lemma new_VshardMap_valid:
  assumes "new_VshardMap initial = Inr rs"
  shows "valid_map rs"
proof -
  have f: "rfold insertSorted initial [] = Inr rs" and c: "assertContiguous rs = Inr ()"
    using assms by (auto simp: new_VshardMap_def result_simps)
  have "\<forall>r \<in> set rs. lo r \<le> hi r"
    using rfold_invariant [OF f, of "\<lambda>t. \<forall>r \<in> set t. lo r \<le> hi r"] insertSorted_ok by fastforce
  then show ?thesis
    using c gap_free_tiles [of rs] by (auto simp: assertContiguous_def valid_map_def split: if_splits)
qed

lemma new_VshardMap_id:
  assumes "valid_map rs"
  shows "new_VshardMap rs = Inr rs"
proof -
  have "rs \<noteq> []" using assms by (auto simp: valid_map_def)
  then have "assertContiguous rs = Inr ()"
    using assms tiles_gap_free [of 0 rs VSHARD_COUNT] by (simp add: assertContiguous_def valid_map_def)
  moreover have "rfold insertSorted rs [] = Inr rs"
    using rfold_insertSorted_tiles [of "[]" 0 rs] assms by (simp add: valid_map_def)
  ultimately show ?thesis by (simp add: new_VshardMap_def)
qed

subsection \<open>The search\<close>

lemma search_finds:
  assumes "tiles a rs b" and "k < length rs" and "covers (rs ! k) v"
    and "0 \<le> l" and "l \<le> int k" and "int k \<le> h" and "h < int (length rs)"
  shows "search rs v l h = Inr (shardId (rs ! k))"
  using assms(4-7)
proof (induction "nat (h - l + 1)" arbitrary: l h rule: less_induct)
  case less
  define mid where "mid = (l + h) div 2"
  have mid: "l \<le> mid" "mid \<le> h" using less.prems by (auto simp: mid_def)
  define m where "m = nat mid"
  have m: "mid = int m" "m < length rs" using mid less.prems by (auto simp: m_def)
  have at: "range_at rs mid = Some (rs ! m)" using m by (simp add: range_at_def)
  have unfold: "search rs v l h = (if v < lo (rs ! m) then search rs v l (mid - 1)
      else if hi (rs ! m) < v then search rs v (mid + 1) h else Inr (shardId (rs ! m)))"
    using less.prems at by (subst search.simps) (simp add: Let_def mid_def [symmetric])
  consider "m = k" | "m < k" | "k < m" by linarith
  then show ?case
  proof cases
    case 1
    then show ?thesis using assms(3) by (simp add: unfold covers_def)
  next
    case 2
    then have "hi (rs ! m) < v" using tiles_sorted [OF assms(1) 2 assms(2)] assms(3) by (simp add: covers_def)
    moreover have "lo (rs ! m) \<le> hi (rs ! m)" using tiles_bounds [OF assms(1)] m by simp
    moreover have "search rs v (mid + 1) h = Inr (shardId (rs ! k))"
      using less.prems 2 m mid by (intro less.hyps) auto
    ultimately show ?thesis by (simp add: unfold)
  next
    case 3
    then have "v < lo (rs ! m)" using tiles_sorted [OF assms(1) 3 m(2)] assms(3) by (simp add: covers_def)
    moreover have "search rs v l (mid - 1) = Inr (shardId (rs ! k))"
      using less.prems 3 m mid by (intro less.hyps) auto
    ultimately show ?thesis by (simp add: unfold)
  qed
qed

lemma routeVshard_covers:
  assumes "valid_map rs" and "k < length rs" and "covers (rs ! k) v"
  shows "routeVshard rs v = Inr (shardId (rs ! k))"
proof -
  have t: "tiles 0 rs VSHARD_COUNT" using assms(1) by (simp add: valid_map_def)
  have "0 \<le> v" and "v < VSHARD_COUNT"
    using tiles_bounds [OF t, of "rs ! k"] assms(2,3) by (auto simp: covers_def)
  then show ?thesis
    using search_finds [OF t assms(2,3), of 0 "int (length rs) - 1"] assms(2) by (simp add: routeVshard_def)
qed

lemma routeVshard_iff:
  assumes "valid_map rs" and "0 \<le> v" and "v < VSHARD_COUNT"
  shows "routeVshard rs v = Inr s \<longleftrightarrow> (\<exists>r \<in> set rs. covers r v \<and> shardId r = s)"
proof -
  obtain k where k: "k < length rs" "covers (rs ! k) v"
    using tiles_covered [of 0 rs VSHARD_COUNT v] assms by (auto simp: valid_map_def)
  have "routeVshard rs v = Inr (shardId (rs ! k))" by (rule routeVshard_covers [OF assms(1) k])
  moreover have "r = rs ! k" if "r \<in> set rs" "covers r v" for r
    using that k tiles_unique [of 0 rs VSHARD_COUNT] assms(1) by (metis in_set_conv_nth valid_map_def)
  ultimately show ?thesis using k by auto
qed

text \<open>
  On a valid table the binary search is the lookup of the owning range: a vshard of the
  namespace has exactly one range, the search returns its shard and never fails; outside the
  namespace it is a \<open>RangeError\<close>.
\<close>

theorem routeVshard_owner:
  assumes "valid_map rs"
  shows "if 0 \<le> v \<and> v < VSHARD_COUNT
     then \<exists>!k. k < length rs \<and> covers (rs ! k) v \<and> routeVshard rs v = Inr (shardId (rs ! k))
     else routeVshard rs v = Inl RangeError"
proof (cases "0 \<le> v \<and> v < VSHARD_COUNT")
  case True
  then obtain k where k: "k < length rs" "covers (rs ! k) v"
    using tiles_covered [of 0 rs VSHARD_COUNT v] assms by (auto simp: valid_map_def)
  have "\<exists>!k. k < length rs \<and> covers (rs ! k) v \<and> routeVshard rs v = Inr (shardId (rs ! k))"
  proof (rule ex1I [of _ k])
    show "k < length rs \<and> covers (rs ! k) v \<and> routeVshard rs v = Inr (shardId (rs ! k))"
      using k routeVshard_covers [OF assms k] by simp
    show "j = k" if "j < length rs \<and> covers (rs ! j) v \<and> routeVshard rs v = Inr (shardId (rs ! j))" for j
      using that k tiles_unique [of 0 rs VSHARD_COUNT j k v] assms by (simp add: valid_map_def)
  qed
  with True show ?thesis by simp
next
  case False
  then show ?thesis by (auto simp: routeVshard_def)
qed

definition two_ranges :: VshardMap where
  "two_ranges = [\<lparr> lo = 0, hi = 8191, shardId = ''a'' \<rparr>, \<lparr> lo = 8192, hi = 16383, shardId = ''b'' \<rparr>]"

lemma two_ranges_valid: "valid_map two_ranges"
  by code_simp

theorem routeVshard_owner_witness:
  "\<exists>!k. k < length two_ranges \<and> covers (two_ranges ! k) 9000 \<and>
     routeVshard two_ranges 9000 = Inr (shardId (two_ranges ! k))"
  using routeVshard_owner [OF two_ranges_valid, of 9000] by (simp add: VSHARD_COUNT_def)

subsection \<open>The split\<close>

lemma findIndex_Some:
  "findIndex p xs = Some i \<Longrightarrow> i < length xs \<and> p (xs ! i)"
  by (induction xs arbitrary: i) (auto split: if_splits)

lemma findIndex_ex: "x \<in> set xs \<Longrightarrow> p x \<Longrightarrow> \<exists>i. findIndex p xs = Some i"
  by (induction xs) auto

lemma split_pieces_tiles:
  assumes "tiles 0 (xs @ t # ys) VSHARD_COUNT" and "lo t \<le> l" and "l \<le> h" and "h \<le> hi t"
  shows "tiles 0 (xs
      @ (if lo t < l then [\<lparr> lo = lo t, hi = l - 1, shardId = s \<rparr>] else [])
      @ [\<lparr> lo = l, hi = h, shardId = n \<rparr>]
      @ (if h < hi t then [\<lparr> lo = h + 1, hi = hi t, shardId = s \<rparr>] else [])
      @ ys) VSHARD_COUNT"
  using assms by (auto simp: tiles_append)

lemma split_map_cases:
  assumes "valid_map rs" and "split_map rs l h n = Inr rs'"
  obtains xs t ys where "rs = xs @ t # ys" and "lo t \<le> l" and "l \<le> h" and "h \<le> hi t" and "shardId t \<noteq> n"
    and "rs' = xs
      @ (if lo t < l then [\<lparr> lo = lo t, hi = l - 1, shardId = shardId t \<rparr>] else [])
      @ [\<lparr> lo = l, hi = h, shardId = n \<rparr>]
      @ (if h < hi t then [\<lparr> lo = h + 1, hi = hi t, shardId = shardId t \<rparr>] else [])
      @ ys"
proof -
  obtain i where i: "findIndex (\<lambda>r. lo r \<le> l \<and> h \<le> hi r) rs = Some i"
    using assms(2) by (auto simp: split_map_def split: option.splits)
  let ?t = "rs ! i"
  let ?next = "take i rs
      @ (if lo ?t < l then [\<lparr> lo = lo ?t, hi = l - 1, shardId = shardId ?t \<rparr>] else [])
      @ [\<lparr> lo = l, hi = h, shardId = n \<rparr>]
      @ (if h < hi ?t then [\<lparr> lo = h + 1, hi = hi ?t, shardId = shardId ?t \<rparr>] else [])
      @ drop (Suc i) rs"
  have lt: "i < length rs" "lo ?t \<le> l" "h \<le> hi ?t" using findIndex_Some [OF i] by auto
  have new: "new_VshardMap ?next = Inr rs'" and ne: "shardId ?t \<noteq> n"
    using assms(2) i by (auto simp: split_map_def Let_def split: if_splits)
  have rs: "rs = take i rs @ ?t # drop (Suc i) rs" using lt(1) by (rule id_take_nth_drop)
  have "rfold insertSorted ?next [] = Inr rs'"
    using new by (auto simp: new_VshardMap_def result_simps)
  from rfold_each_ok [OF this, of "\<lparr> lo = l, hi = h, shardId = n \<rparr>"]
  have lh: "l \<le> h" by (auto dest!: insertSorted_ok)
  have "valid_map ?next"
    using split_pieces_tiles [of "take i rs" ?t "drop (Suc i) rs" l h "shardId ?t" n] assms(1) rs lt lh
    by (simp add: valid_map_def)
  then have "rs' = ?next" using new by (simp add: new_VshardMap_id)
  then show ?thesis using that [OF rs] lt lh ne by simp
qed

lemma split_map_valid: "valid_map rs \<Longrightarrow> split_map rs l h n = Inr rs' \<Longrightarrow> valid_map rs'"
  by (auto simp: split_map_def Let_def split: option.splits if_splits intro: new_VshardMap_valid)

lemma split_map_route:
  assumes "valid_map rs" and "split_map rs l h n = Inr rs'" and "0 \<le> v" and "v < VSHARD_COUNT"
  shows "routeVshard rs' v = (if l \<le> v \<and> v \<le> h then Inr n else routeVshard rs v)"
proof -
  have valid': "valid_map rs'" using assms(1,2) by (rule split_map_valid)
  obtain xs t ys where d: "rs = xs @ t # ys" "lo t \<le> l" "l \<le> h" "h \<le> hi t" "shardId t \<noteq> n"
    and rs': "rs' = xs
      @ (if lo t < l then [\<lparr> lo = lo t, hi = l - 1, shardId = shardId t \<rparr>] else [])
      @ [\<lparr> lo = l, hi = h, shardId = n \<rparr>]
      @ (if h < hi t then [\<lparr> lo = h + 1, hi = hi t, shardId = shardId t \<rparr>] else [])
      @ ys"
    using assms(1,2) by (rule split_map_cases)
  show ?thesis
  proof (cases "l \<le> v \<and> v \<le> h")
    case True
    have "\<exists>r \<in> set rs'. covers r v \<and> shardId r = n"
      using True rs' by (intro bexI [of _ "\<lparr> lo = l, hi = h, shardId = n \<rparr>"]) (auto simp: covers_def)
    then show ?thesis using True routeVshard_iff [OF valid' assms(3,4)] by auto
  next
    case False
    obtain k where k: "k < length rs" "covers (rs ! k) v"
      using tiles_covered [of 0 rs VSHARD_COUNT v] assms by (auto simp: valid_map_def)
    let ?s = "shardId (rs ! k)"
    have "rs ! k = t \<or> rs ! k \<in> set xs \<union> set ys" using d(1) k(1) nth_mem [OF k(1)] by auto
    then have "\<exists>r \<in> set rs'. covers r v \<and> shardId r = ?s"
      using k(2) False by (auto simp: rs' covers_def)
    then show ?thesis
      using False routeVshard_iff [OF valid' assms(3,4)] routeVshard_covers [OF assms(1) k] by auto
  qed
qed

lemma split_map_ok:
  assumes "valid_map rs" and "r \<in> set rs" and "lo r \<le> l" and "l \<le> h" and "h \<le> hi r" and "shardId r \<noteq> n"
  shows "\<exists>rs'. split_map rs l h n = Inr rs'"
proof -
  obtain i where i: "findIndex (\<lambda>r. lo r \<le> l \<and> h \<le> hi r) rs = Some i"
    using findIndex_ex [of r rs "\<lambda>r. lo r \<le> l \<and> h \<le> hi r"] assms(2,3,5) by auto
  have lt: "i < length rs" "lo (rs ! i) \<le> l" "h \<le> hi (rs ! i)" using findIndex_Some [OF i] by auto
  have "covers (rs ! i) l" and "covers r l" using lt assms by (auto simp: covers_def)
  then have r: "rs ! i = r"
    using assms(1,2) lt(1) tiles_unique [of 0 rs VSHARD_COUNT i _ l] by (metis in_set_conv_nth valid_map_def)
  have rs: "rs = take i rs @ rs ! i # drop (Suc i) rs" using lt(1) by (rule id_take_nth_drop)
  have "valid_map (take i rs
      @ (if lo r < l then [\<lparr> lo = lo r, hi = l - 1, shardId = shardId r \<rparr>] else [])
      @ [\<lparr> lo = l, hi = h, shardId = n \<rparr>]
      @ (if h < hi r then [\<lparr> lo = h + 1, hi = hi r, shardId = shardId r \<rparr>] else [])
      @ drop (Suc i) rs)"
    using split_pieces_tiles [of "take i rs" r "drop (Suc i) rs" l h "shardId r" n] assms rs r
    by (simp add: valid_map_def)
  then show ?thesis using i r assms(6) by (simp add: split_map_def Let_def new_VshardMap_id)
qed

text \<open>
  A split moves exactly the requested sub-range: from a valid table it produces a valid
  table in which every vshard of \<open>[l, h]\<close> is routed to the new shard and every other vshard where
  it was routed before. It succeeds exactly when \<open>[l, h]\<close> is a nonempty part of one range that
  another shard owns.
\<close>

theorem split_moves_exactly:
  assumes "valid_map rs"
  shows "((\<exists>rs'. split_map rs l h n = Inr rs') \<longleftrightarrow>
      (\<exists>r \<in> set rs. lo r \<le> l \<and> l \<le> h \<and> h \<le> hi r \<and> shardId r \<noteq> n)) \<and>
    (\<forall>rs'. split_map rs l h n = Inr rs' \<longrightarrow> valid_map rs' \<and>
      (\<forall>v. 0 \<le> v \<and> v < VSHARD_COUNT \<longrightarrow>
        routeVshard rs' v = (if l \<le> v \<and> v \<le> h then Inr n else routeVshard rs v)))"
proof (intro conjI)
  show "(\<exists>rs'. split_map rs l h n = Inr rs') \<longleftrightarrow>
      (\<exists>r \<in> set rs. lo r \<le> l \<and> l \<le> h \<and> h \<le> hi r \<and> shardId r \<noteq> n)"
  proof
    assume "\<exists>rs'. split_map rs l h n = Inr rs'"
    then obtain rs' where "split_map rs l h n = Inr rs'" by blast
    then show "\<exists>r \<in> set rs. lo r \<le> l \<and> l \<le> h \<and> h \<le> hi r \<and> shardId r \<noteq> n"
      by (rule split_map_cases [OF assms]) auto
  next
    assume "\<exists>r \<in> set rs. lo r \<le> l \<and> l \<le> h \<and> h \<le> hi r \<and> shardId r \<noteq> n"
    then show "\<exists>rs'. split_map rs l h n = Inr rs'" using split_map_ok [OF assms] by blast
  qed
  show "\<forall>rs'. split_map rs l h n = Inr rs' \<longrightarrow> valid_map rs' \<and>
      (\<forall>v. 0 \<le> v \<and> v < VSHARD_COUNT \<longrightarrow>
        routeVshard rs' v = (if l \<le> v \<and> v \<le> h then Inr n else routeVshard rs v))"
    using assms split_map_valid split_map_route by blast
qed

theorem split_moves_exactly_witness:
  "\<exists>rs'. split_map two_ranges 100 200 ''c'' = Inr rs' \<and> valid_map rs' \<and>
     routeVshard rs' 150 = Inr ''c'' \<and> routeVshard rs' 99 = Inr ''a''"
proof -
  have a: "routeVshard two_ranges 99 = Inr ''a''"
    using routeVshard_iff [OF two_ranges_valid, of 99 "''a''"]
    by (simp add: two_ranges_def covers_def VSHARD_COUNT_def)
  have "\<exists>r \<in> set two_ranges. lo r \<le> 100 \<and> (100 :: int) \<le> 200 \<and> 200 \<le> hi r \<and> shardId r \<noteq> ''c''"
    by (simp add: two_ranges_def)
  then obtain rs' where rs': "split_map two_ranges 100 200 ''c'' = Inr rs'"
    using split_moves_exactly [OF two_ranges_valid, of 100 200 "''c''"] by blast
  then have "valid_map rs' \<and> (\<forall>v. 0 \<le> v \<and> v < VSHARD_COUNT \<longrightarrow>
      routeVshard rs' v = (if 100 \<le> v \<and> v \<le> 200 then Inr ''c'' else routeVshard two_ranges v))"
    using split_moves_exactly [OF two_ranges_valid, of 100 200 "''c''"] by blast
  then show ?thesis using a rs' by (auto simp: VSHARD_COUNT_def)
qed

section \<open>The router as an interface\<close>

text \<open>
  What a client of the table relies on: an invariant, a total route on the namespace, and a split
  that keeps the invariant and changes the route exactly on its range.
\<close>

locale partition_router =
  fixes inv :: "'m \<Rightarrow> bool"
    and route :: "'m \<Rightarrow> int \<Rightarrow> string res"
    and split_to :: "'m \<Rightarrow> int \<Rightarrow> int \<Rightarrow> string \<Rightarrow> 'm res"
  assumes route_total: "inv m \<Longrightarrow> 0 \<le> v \<Longrightarrow> v < VSHARD_COUNT \<Longrightarrow> \<exists>s. route m v = Inr s"
    and split_inv: "inv m \<Longrightarrow> split_to m l h n = Inr m' \<Longrightarrow> inv m'"
    and split_route: "inv m \<Longrightarrow> split_to m l h n = Inr m' \<Longrightarrow> 0 \<le> v \<Longrightarrow> v < VSHARD_COUNT \<Longrightarrow>
      route m' v = (if l \<le> v \<and> v \<le> h then Inr n else route m v)"

text \<open>A history of splits, and the shard the last split that covers \<open>v\<close> moved it to.\<close>

type_synonym move = "int \<times> int \<times> string"

definition run_moves :: "('m \<Rightarrow> int \<Rightarrow> int \<Rightarrow> string \<Rightarrow> 'm res) \<Rightarrow> move list \<Rightarrow> 'm \<Rightarrow> 'm res" where
  "run_moves f moves m = rfold (\<lambda>(l, h, n) m. f m l h n) moves m"

definition owner_after :: "move list \<Rightarrow> int \<Rightarrow> string option" where
  "owner_after moves v = map_option (\<lambda>(l, h, n). n) (List.find (\<lambda>(l, h, n). l \<le> v \<and> v \<le> h) (rev moves))"

lemma owner_after_Cons:
  "owner_after ((l, h, n) # moves) v =
     (case owner_after moves v of Some s \<Rightarrow> Some s | None \<Rightarrow> if l \<le> v \<and> v \<le> h then Some n else None)"
  by (auto simp: owner_after_def find_append1 split: option.splits)

context partition_router
begin

lemma run_moves_owner:
  "inv m \<Longrightarrow> run_moves split_to moves m = Inr m' \<Longrightarrow> inv m' \<and>
     (\<forall>v. 0 \<le> v \<and> v < VSHARD_COUNT \<longrightarrow>
       route m' v = (case owner_after moves v of Some s \<Rightarrow> Inr s | None \<Rightarrow> route m v))"
proof (induction moves arbitrary: m)
  case Nil
  then show ?case by (simp add: run_moves_def owner_after_def)
next
  case (Cons mv moves)
  obtain l h n where mv: "mv = (l, h, n)" by (cases mv)
  from Cons.prems mv obtain m1 where s: "split_to m l h n = Inr m1" and r: "run_moves split_to moves m1 = Inr m'"
    by (auto simp: run_moves_def result_simps)
  from Cons.IH [OF split_inv [OF Cons.prems(1) s] r] show ?case
    using split_route [OF Cons.prems(1) s] by (auto simp: mv owner_after_Cons split: option.splits)
qed

end

interpretation vm: partition_router valid_map routeVshard split_map
proof unfold_locales
  show "\<exists>s. routeVshard m v = Inr s" if "valid_map m" "0 \<le> v" "v < VSHARD_COUNT" for m v
    using tiles_covered [of 0 m VSHARD_COUNT v] routeVshard_covers [of m] that by (auto simp: valid_map_def)
qed (auto intro: split_map_valid simp: split_map_route)

text \<open>
  C24. Routing after any history of splits from the initial one-shard table: the table is valid,
  and a vshard is owned by the target of the last split that covered it, or by the first shard.
\<close>

theorem split_history_owner:
  assumes "new_VshardMap initial_ranges = Inr m0" and "run_moves split_map moves m0 = Inr m"
    and "0 \<le> v" and "v < VSHARD_COUNT"
  shows "valid_map m \<and> routeVshard m v = Inr (case owner_after moves v of Some s \<Rightarrow> s | None \<Rightarrow> ''ShardDO_0'')"
proof -
  have valid: "valid_map initial_ranges" by (simp add: valid_map_def initial_ranges_def)
  then have m0: "m0 = initial_ranges" using assms(1) by (simp add: new_VshardMap_id)
  have "routeVshard m0 v = Inr ''ShardDO_0''"
    using routeVshard_iff [OF valid assms(3,4), of "''ShardDO_0''"] assms(3,4) m0
    by (simp add: initial_ranges_def covers_def)
  then show ?thesis
    using vm.run_moves_owner [OF _ assms(2)] valid m0 assms(3,4) by (auto split: option.splits)
qed

theorem split_history_owner_witness:
  "\<exists>m0 m. new_VshardMap initial_ranges = Inr m0 \<and>
     run_moves split_map [(0, 100, ''b''), (50, 60, ''c'')] m0 = Inr m \<and>
     routeVshard m 55 = Inr ''c'' \<and> routeVshard m 70 = Inr ''b'' \<and> routeVshard m 500 = Inr ''ShardDO_0''"
proof -
  define m where "m = [\<lparr> lo = 0, hi = 49, shardId = ''b'' \<rparr>, \<lparr> lo = 50, hi = 60, shardId = ''c'' \<rparr>,
    \<lparr> lo = 61, hi = 100, shardId = ''b'' \<rparr>, \<lparr> lo = 101, hi = 16383, shardId = ''ShardDO_0'' \<rparr>]"
  have m0: "new_VshardMap initial_ranges = Inr initial_ranges" by code_simp
  have run: "run_moves split_map [(0, 100, ''b''), (50, 60, ''c'')] initial_ranges = Inr m"
    unfolding m_def by code_simp
  have "owner_after [(0, 100, ''b''), (50, 60, ''c'')] 55 = Some ''c''"
    "owner_after [(0, 100, ''b''), (50, 60, ''c'')] 70 = Some ''b''"
    "owner_after [(0, 100, ''b''), (50, 60, ''c'')] 500 = None"
    by code_simp+
  then show ?thesis
    using m0 run split_history_owner [OF m0 run, of 55] split_history_owner [OF m0 run, of 70]
      split_history_owner [OF m0 run, of 500] by (auto simp: VSHARD_COUNT_def)
qed

text \<open>
  The range filter of the bulk copy keeps a row exactly when the vshard of its partition
  value lies in the range; it never fails, and it keeps the order of the rows.
\<close>

theorem filterRowsInRange_spec:
  "filterRowsInRange rows col (l, h) = Inr (filter (\<lambda>r.
     \<exists>v. rowVshard (case r col of None \<Rightarrow> PUndefined | Some x \<Rightarrow> x) = Inr v \<and> l \<le> v \<and> v \<le> h) rows)"
proof -
  let ?pv = "\<lambda>r. case r col of None \<Rightarrow> PUndefined | Some x \<Rightarrow> x"
  let ?keep = "\<lambda>r. \<exists>v. rowVshard (?pv r) = Inr v \<and> l \<le> v \<and> v \<le> h"
  have "inRange (?pv r) (l, h) = Inr (?keep r)" for r
    using rowVshard_ok [of "?pv r"] by (auto simp: inRange_def)
  then have "rmap (\<lambda>r. inRange (?pv r) (l, h)) rows = Inr (map ?keep rows)" by (intro rmap_Inr_map)
  moreover have "map fst (filter snd (zip rows (map ?keep rows))) = filter ?keep rows"
    by (induction rows) auto
  ultimately show ?thesis by (simp add: filterRowsInRange_def)
qed

end
