(* ===== verification/Catalog_Routing.thy ===== *)
theory Catalog_Routing
  imports Store Vshard "HOL-Library.Char_ord" "HOL-Library.List_Lexorder"
begin

text \<open>
  The Catalog's routing store, \<^verbatim>\<open>src/src/server/do/catalog-routing-store.ts\<close>: the durable range
  table, the routing epoch, the cutover guards, and the in-memory cache of the table. The cache is
  not part of the transaction: an exception rolls the tables back and leaves the cache as it is, so
  every operation returns its result beside the state. The hooks of \<open>cutover\<close> act on the rest \<open>'x\<close>
  of the Catalog's storage, in the same transaction.
\<close>

section \<open>State\<close>

record catalog_routing =
  catalog_ranges :: "VshardRange list"
  schema_epoch :: "int option"
  catalog_meta :: "(string \<times> string) list"
  cachedMap :: "VshardMap option"

text \<open>Sequencing with a state that survives exceptions.\<close>

definition sbind :: "('s \<Rightarrow> 'a res \<times> 's) \<Rightarrow> ('a \<Rightarrow> 's \<Rightarrow> 'b res \<times> 's) \<Rightarrow> 's \<Rightarrow> 'b res \<times> 's" where
  "sbind m k s = (case m s of (Inl e, s') \<Rightarrow> (Inl e, s') | (Inr x, s') \<Rightarrow> k x s')"

definition slift :: "'a res \<Rightarrow> 's \<Rightarrow> 'a res \<times> 's" where
  "slift r s = (r, s)"

definition initial_routing :: catalog_routing where
  "initial_routing = \<lparr> catalog_ranges = initial_ranges, schema_epoch = Some 1, catalog_meta = [], cachedMap = None \<rparr>"

section \<open>Operations\<close>

definition catalog_map :: "catalog_routing \<Rightarrow> VshardMap res \<times> catalog_routing" where
  "catalog_map c = (case cachedMap c of
       Some m \<Rightarrow> (Inr m, c)
     | None \<Rightarrow> (case new_VshardMap (sort_key lo (catalog_ranges c)) of
           Inl e \<Rightarrow> (Inl e, c)
         | Inr m \<Rightarrow> (Inr m, c\<lparr>cachedMap := Some m\<rparr>)))"

definition readSchemaEpoch :: "catalog_routing \<Rightarrow> int" where
  "readSchemaEpoch c = (case schema_epoch c of Some e \<Rightarrow> e | None \<Rightarrow> 0)"

definition route :: "int \<Rightarrow> catalog_routing \<Rightarrow> (string \<times> int) res \<times> catalog_routing" where
  "route v = sbind catalog_map (\<lambda>m. sbind (slift (routeVshard m v)) (\<lambda>s c. (Inr (s, readSchemaEpoch c), c)))"

definition listRanges :: "catalog_routing \<Rightarrow> VshardRange list res \<times> catalog_routing" where
  "listRanges = catalog_map"

definition listShardIds :: "catalog_routing \<Rightarrow> string list" where
  "listShardIds c = sort (remdups (map shardId (catalog_ranges c)))"

definition listShardIdsPage :: "string option \<Rightarrow> int \<Rightarrow> catalog_routing \<Rightarrow> string list res" where
  "listShardIdsPage afterExclusive limit c =
     rbind (ensure (safe_integer limit \<and> 1 \<le> limit \<and> limit \<le> 64) (Cdb CDB_INVALID_ARGS)) (\<lambda>_.
     Inr (take (nat limit) (sort (remdups (filter
       (\<lambda>s. case afterExclusive of None \<Rightarrow> True | Some a \<Rightarrow> a < s) (map shardId (catalog_ranges c)))))))"

definition ownsRange :: "int \<Rightarrow> int \<Rightarrow> string \<Rightarrow> catalog_routing \<Rightarrow> bool res \<times> catalog_routing" where
  "ownsRange l h s = sbind catalog_map (\<lambda>m c. (Inr (\<exists>r \<in> set m. lo r \<le> l \<and> h \<le> hi r \<and> shardId r = s), c))"

definition replaceMap :: "VshardMap \<Rightarrow> catalog_routing \<Rightarrow> catalog_routing res" where
  "replaceMap next c =
     rbind (rfold (\<lambda>r t. sql_insert lo (\<lambda>_. True) r t) next []) (\<lambda>t. Inr (c\<lparr>catalog_ranges := t\<rparr>))"

definition bump_epoch :: "catalog_routing \<Rightarrow> catalog_routing" where
  "bump_epoch c = c\<lparr>schema_epoch := map_option (\<lambda>e. e + 1) (schema_epoch c)\<rparr>"

record CatalogCutoverRequest =
  req_migId :: string
  req_lo :: int
  req_hi :: int
  req_fromShard :: string
  req_toShard :: string

record CatalogCutoverResult =
  applied :: bool
  newEpoch :: int

text \<open>\<open>transactionSync\<close>: an exception restores the tables; the cache is a field of the object.\<close>

definition transactionSync ::
    "(catalog_routing \<times> 'x \<Rightarrow> 'a res \<times> catalog_routing \<times> 'x) \<Rightarrow> catalog_routing \<times> 'x \<Rightarrow> 'a res \<times> catalog_routing \<times> 'x" where
  "transactionSync body s = (case body s of
       (Inl e, s') \<Rightarrow> (Inl e, (fst s)\<lparr>cachedMap := cachedMap (fst s')\<rparr>, snd s)
     | (Inr a, s') \<Rightarrow> (Inr a, s'))"

definition on_routing :: "(catalog_routing \<Rightarrow> 'a res \<times> catalog_routing) \<Rightarrow> catalog_routing \<times> 'x \<Rightarrow> 'a res \<times> catalog_routing \<times> 'x" where
  "on_routing f s = (let (r, c) = f (fst s) in (r, c, snd s))"

definition on_tables :: "(catalog_routing \<Rightarrow> catalog_routing res) \<Rightarrow> catalog_routing \<times> 'x \<Rightarrow> unit res \<times> catalog_routing \<times> 'x" where
  "on_tables f s = (case f (fst s) of Inl e \<Rightarrow> (Inl e, s) | Inr c \<Rightarrow> (Inr (), c, snd s))"

definition on_rest :: "('x \<Rightarrow> 'x res) \<Rightarrow> catalog_routing \<times> 'x \<Rightarrow> unit res \<times> catalog_routing \<times> 'x" where
  "on_rest f s = (case f (snd s) of Inl e \<Rightarrow> (Inl e, s) | Inr x \<Rightarrow> (Inr (), fst s, x))"

definition cutover_key :: "string \<Rightarrow> string" where
  "cutover_key migId = ''cutover:'' @ migId"

text \<open>
  The result carries the new map when it is to be published: \<open>cachedMap\<close> is assigned only after the
  transaction has committed.
\<close>

definition cutover_body :: "CatalogCutoverRequest \<Rightarrow> (int \<Rightarrow> 'x \<Rightarrow> 'x res) \<Rightarrow> (int \<Rightarrow> bool \<Rightarrow> 'x \<Rightarrow> 'x res) \<Rightarrow>
    catalog_routing \<times> 'x \<Rightarrow> (CatalogCutoverResult \<times> VshardMap option) res \<times> catalog_routing \<times> 'x" where
  "cutover_body args before after s0 =
     (let currentEpoch = readSchemaEpoch (fst s0) in
      sbind (on_rest (before currentEpoch)) (\<lambda>_ s.
        if sql_one (\<lambda>kv. fst kv = cutover_key (req_migId args)) (catalog_meta (fst s)) \<noteq> None
        then sbind (on_rest (after currentEpoch False)) (\<lambda>_ s.
               (Inr (\<lparr> applied = False, newEpoch = currentEpoch \<rparr>, None), s)) s
        else
          sbind (on_routing catalog_map) (\<lambda>current.
          sbind (slift (routeVshard current (req_lo args))) (\<lambda>sl.
          sbind (slift (if sl \<noteq> req_fromShard args then Inl (Cdb CDB_STALE_EPOCH) else Inr ())) (\<lambda>_.
          sbind (slift (routeVshard current (req_hi args))) (\<lambda>sh.
          sbind (slift (if sh \<noteq> req_fromShard args then Inl (Cdb CDB_STALE_EPOCH) else Inr ())) (\<lambda>_.
          sbind (slift (split_map current (req_lo args) (req_hi args) (req_toShard args))) (\<lambda>next.
          sbind (on_tables (replaceMap next)) (\<lambda>_.
          sbind (on_tables (\<lambda>c. Inr (bump_epoch c))) (\<lambda>_.
          sbind (on_tables (\<lambda>c. rbind (sql_insert fst (\<lambda>_. True) (cutover_key (req_migId args), req_fromShard args) (catalog_meta c))
            (\<lambda>t. Inr (c\<lparr>catalog_meta := t\<rparr>)))) (\<lambda>_ s.
          let epoch' = readSchemaEpoch (fst s) in
          sbind (on_rest (after epoch' True)) (\<lambda>_ s.
            (Inr (\<lparr> applied = True, newEpoch = epoch' \<rparr>, Some next), s)) s))))))))) s) s0)"

definition publish :: "VshardMap option \<Rightarrow> catalog_routing \<times> 'x \<Rightarrow> catalog_routing \<times> 'x" where
  "publish next s = (case next of None \<Rightarrow> s | Some m \<Rightarrow> ((fst s)\<lparr>cachedMap := Some m\<rparr>, snd s))"

definition cutover :: "CatalogCutoverRequest \<Rightarrow> (int \<Rightarrow> 'x \<Rightarrow> 'x res) \<Rightarrow> (int \<Rightarrow> bool \<Rightarrow> 'x \<Rightarrow> 'x res) \<Rightarrow>
    catalog_routing \<times> 'x \<Rightarrow> CatalogCutoverResult res \<times> catalog_routing \<times> 'x" where
  "cutover args before after =
     sbind (transactionSync (cutover_body args before after)) (\<lambda>(result, next) s. (Inr result, publish next s))"

text \<open>\<open>splitRange\<close>: the new map is computed before the transaction opens.\<close>

definition splitRange :: "int \<Rightarrow> int \<Rightarrow> string \<Rightarrow> ('x \<Rightarrow> 'x res) \<Rightarrow> catalog_routing \<times> 'x \<Rightarrow> unit res \<times> catalog_routing \<times> 'x" where
  "splitRange l h toShard before =
     sbind (on_routing catalog_map) (\<lambda>m.
     sbind (slift (split_map m l h toShard)) (\<lambda>next.
     sbind (transactionSync (sbind (on_rest before) (\<lambda>_.
       sbind (on_tables (replaceMap next)) (\<lambda>_. on_tables (\<lambda>c. Inr (bump_epoch c)))))) (\<lambda>_ s.
     (Inr (), publish (Some next) s))))"

section \<open>The invariant\<close>

text \<open>The table tiles the namespace, and a cached map is the table.\<close>

definition routing_inv :: "catalog_routing \<Rightarrow> bool" where
  "routing_inv c \<longleftrightarrow> valid_map (catalog_ranges c) \<and> schema_epoch c \<noteq> None \<and>
     (case cachedMap c of None \<Rightarrow> True | Some m \<Rightarrow> m = catalog_ranges c)"

lemma routing_inv_initial: "routing_inv initial_routing"
  by (simp add: routing_inv_def initial_routing_def initial_ranges_def valid_map_def)

lemma tiles_sorted_lo: "tiles a rs b \<Longrightarrow> sorted (map lo rs)"
proof (induction rs arbitrary: a)
  case Nil
  then show ?case by simp
next
  case (Cons r rs)
  then show ?case using tiles_bounds [of "hi r + 1" rs b] by fastforce
qed

lemma sort_key_valid: "valid_map rs \<Longrightarrow> sort_key lo rs = rs"
  using tiles_sorted_lo by (auto simp: valid_map_def sorted_sort_id sort_key_id_if_sorted)

lemma catalog_map_inv:
  assumes "routing_inv c"
  obtains c' where "catalog_map c = (Inr (catalog_ranges c), c')" and "routing_inv c'"
    and "c' = c\<lparr>cachedMap := Some (catalog_ranges c)\<rparr>"
proof (cases "cachedMap c")
  case None
  then show ?thesis using assms that
    by (auto simp: catalog_map_def routing_inv_def sort_key_valid new_VshardMap_id)
next
  case (Some m)
  then have "c = c\<lparr>cachedMap := Some (catalog_ranges c)\<rparr>" using assms by (simp add: routing_inv_def)
  then show ?thesis using Some assms that [of c] by (simp add: catalog_map_def routing_inv_def)
qed

lemma rfold_insert_valid:
  "tiles 0 done a \<Longrightarrow> tiles a rs b \<Longrightarrow> rfold (\<lambda>r t. sql_insert lo (\<lambda>_. True) r t) rs done = Inr (done @ rs)"
proof (induction rs arbitrary: "done" a)
  case Nil
  then show ?case by simp
next
  case (Cons r rs)
  have "\<forall>s \<in> set done. lo s \<noteq> lo r"
    using tiles_bounds [OF Cons.prems(1)] Cons.prems(2) by fastforce
  then have "sql_insert lo (\<lambda>_. True) r done = Inr (done @ [r])" by (auto simp: sql_insert_def)
  moreover have "tiles 0 (done @ [r]) (hi r + 1)" and "tiles (hi r + 1) rs b"
    using Cons.prems by (auto simp: tiles_append)
  ultimately show ?case using Cons.IH by simp
qed

lemma replaceMap_valid: "valid_map m \<Longrightarrow> replaceMap m c = Inr (c\<lparr>catalog_ranges := m\<rparr>)"
  using rfold_insert_valid [of "[]" 0 m VSHARD_COUNT] by (simp add: replaceMap_def valid_map_def)

lemmas sequencing = sbind_def slift_def on_rest_def on_tables_def on_routing_def transactionSync_def publish_def Let_def

text \<open>The tables are those of \<open>c\<close>; only the cache may have been filled.\<close>

definition same_tables :: "catalog_routing \<Rightarrow> catalog_routing \<Rightarrow> bool" where
  "same_tables c c' \<longleftrightarrow> catalog_ranges c' = catalog_ranges c \<and> schema_epoch c' = schema_epoch c \<and>
     catalog_meta c' = catalog_meta c"

definition cut_over :: "catalog_routing \<Rightarrow> CatalogCutoverRequest \<Rightarrow> bool" where
  "cut_over c args \<longleftrightarrow> (\<exists>kv \<in> set (catalog_meta c). fst kv = cutover_key (req_migId args))"

lemma guard_iff:
  "sql_one (\<lambda>kv. fst kv = cutover_key (req_migId args)) (catalog_meta c) \<noteq> None \<longleftrightarrow> cut_over c args"
  unfolding sql_one_None_iff cut_over_def by blast

lemma cutover_guarded:
  assumes "cut_over c args"
  shows "cutover args before after (c, x) =
    (case rbind (before (readSchemaEpoch c) x) (after (readSchemaEpoch c) False) of
       Inl e \<Rightarrow> (Inl e, c, x)
     | Inr x' \<Rightarrow> (Inr \<lparr> applied = False, newEpoch = readSchemaEpoch c \<rparr>, c, x'))"
proof -
  have g: "sql_one (\<lambda>kv. fst kv = cutover_key (req_migId args)) (catalog_meta c) \<noteq> None"
    using assms by (simp only: guard_iff)
  show ?thesis
  proof (cases "before (readSchemaEpoch c) x")
    case (Inl e)
    then show ?thesis by (simp add: cutover_def cutover_body_def sequencing)
  next
    case (Inr x1)
    then show ?thesis using g
      by (cases "after (readSchemaEpoch c) False x1") (simp_all add: cutover_def cutover_body_def sequencing)
  qed
qed

definition cutover_next :: "catalog_routing \<Rightarrow> CatalogCutoverRequest \<Rightarrow> VshardMap res" where
  "cutover_next c args =
     rbind (routeVshard (catalog_ranges c) (req_lo args)) (\<lambda>sl.
     rbind (ensure (sl = req_fromShard args) (Cdb CDB_STALE_EPOCH)) (\<lambda>_.
     rbind (routeVshard (catalog_ranges c) (req_hi args)) (\<lambda>sh.
     rbind (ensure (sh = req_fromShard args) (Cdb CDB_STALE_EPOCH)) (\<lambda>_.
     split_map (catalog_ranges c) (req_lo args) (req_hi args) (req_toShard args)))))"

definition cut_state :: "catalog_routing \<Rightarrow> CatalogCutoverRequest \<Rightarrow> VshardMap \<Rightarrow> catalog_routing" where
  "cut_state c args m = c\<lparr>catalog_ranges := m, schema_epoch := Some (readSchemaEpoch c + 1),
     catalog_meta := catalog_meta c @ [(cutover_key (req_migId args), req_fromShard args)], cachedMap := Some m\<rparr>"

lemma cutover_next_valid: "routing_inv c \<Longrightarrow> cutover_next c args = Inr m \<Longrightarrow> valid_map m"
  by (auto simp: cutover_next_def result_simps routing_inv_def intro: split_map_valid)

lemma sbind_slift: "sbind (slift r) k s = (case r of Inl e \<Rightarrow> (Inl e, s) | Inr a \<Rightarrow> k a s)"
  by (cases r) (simp_all add: sbind_def slift_def)

lemma sbind_on_rest_ok: "f x = Inr x' \<Longrightarrow> sbind (on_rest f) k (c, x) = k () (c, x')"
  by (simp add: sbind_def on_rest_def)

lemma sbind_on_routing_ok: "f c = (Inr a, c') \<Longrightarrow> sbind (on_routing f) k (c, x) = k a (c', x)"
  by (simp add: sbind_def on_routing_def)

lemma cutover_unguarded:
  assumes "routing_inv c" and "\<not> cut_over c args"
  shows "\<exists>c0. same_tables c c0 \<and> routing_inv c0 \<and> cutover args before after (c, x) =
    (case before (readSchemaEpoch c) x of
       Inl e \<Rightarrow> (Inl e, c0, x)
     | Inr x1 \<Rightarrow> (case cutover_next c args of
           Inl e \<Rightarrow> (Inl e, c0, x)
         | Inr m \<Rightarrow> (case after (readSchemaEpoch c + 1) True x1 of
               Inl e \<Rightarrow> (Inl e, c0, x)
             | Inr x' \<Rightarrow> (Inr \<lparr> applied = True, newEpoch = readSchemaEpoch c + 1 \<rparr>, cut_state c args m, x'))))"
proof (cases "before (readSchemaEpoch c) x")
  case (Inl e)
  then show ?thesis using assms(1)
    by (intro exI [of _ c]) (simp add: cutover_def cutover_body_def sequencing same_tables_def)
next
  case (Inr x1)
  have g: "sql_one (\<lambda>kv. fst kv = cutover_key (req_migId args)) (catalog_meta c) = None"
    using assms(2) guard_iff by blast
  obtain c1 where c1: "catalog_map c = (Inr (catalog_ranges c), c1)" "routing_inv c1"
    "c1 = c\<lparr>cachedMap := Some (catalog_ranges c)\<rparr>"
    using assms(1) by (rule catalog_map_inv)
  have ins: "sql_insert fst (\<lambda>_. True) (cutover_key (req_migId args), req_fromShard args) (catalog_meta c) =
      Inr (catalog_meta c @ [(cutover_key (req_migId args), req_fromShard args)])"
    using assms(2) by (auto simp: sql_insert_def cut_over_def)
  obtain e where ep: "schema_epoch c = Some e"
    using assms(1) by (auto simp: routing_inv_def)
  have err: "same_tables c c1 \<and> routing_inv c1" using c1 by (simp add: same_tables_def)
  have body: "cutover_body args before after (c, x) = (case cutover_next c args of
      Inl e \<Rightarrow> (Inl e, c1, x1)
    | Inr m \<Rightarrow> sbind (on_tables (replaceMap m)) (\<lambda>_.
          sbind (on_tables (\<lambda>c. Inr (bump_epoch c))) (\<lambda>_.
          sbind (on_tables (\<lambda>c. rbind (sql_insert fst (\<lambda>_. True) (cutover_key (req_migId args), req_fromShard args) (catalog_meta c))
            (\<lambda>t. Inr (c\<lparr>catalog_meta := t\<rparr>)))) (\<lambda>_ s.
          sbind (on_rest (after (readSchemaEpoch (fst s)) True)) (\<lambda>_ s'.
            (Inr (\<lparr> applied = True, newEpoch = readSchemaEpoch (fst s) \<rparr>, Some m), s')) s))) (c1, x1))"
    using Inr g c1(1)
    by (cases "routeVshard (catalog_ranges c) (req_lo args)"; cases "routeVshard (catalog_ranges c) (req_hi args)";
        cases "split_map (catalog_ranges c) (req_lo args) (req_hi args) (req_toShard args)";
        simp add: cutover_body_def cutover_next_def sbind_slift Let_def sbind_on_rest_ok sbind_on_routing_ok ensure_def)
  show ?thesis
  proof (cases "cutover_next c args")
    case (Inl e)
    then show ?thesis using \<open>before _ x = Inr x1\<close> c1(3) err
      by (intro exI [of _ c1]) (simp add: cutover_def body sbind_def transactionSync_def)
  next
    case (Inr m)
    have m: "replaceMap m c1 = Inr (c1\<lparr>catalog_ranges := m\<rparr>)"
      using cutover_next_valid [OF assms(1) Inr] by (rule replaceMap_valid)
    show ?thesis
      using Inr \<open>before _ x = Inr x1\<close> c1(3) err m ins ep
      by (intro exI [of _ c1])
        (cases "after (readSchemaEpoch c + 1) True x1";
         simp add: cutover_def body sequencing bump_epoch_def readSchemaEpoch_def cut_state_def)
  qed
qed

section \<open>Properties\<close>

lemma cut_state_inv: "routing_inv c \<Longrightarrow> cutover_next c args = Inr m \<Longrightarrow> routing_inv (cut_state c args m)"
  using cutover_next_valid by (simp add: routing_inv_def cut_state_def)

text \<open>The three outcomes of a cutover.\<close>

lemma cutover_cases:
  assumes "routing_inv c" and "cutover args before after (c, x) = (r, c', x')"
  obtains e where "r = Inl e" and "same_tables c c'" and "routing_inv c'" and "x' = x"
  | "r = Inr \<lparr> applied = False, newEpoch = readSchemaEpoch c \<rparr>" and "cut_over c args" and "c' = c"
    and "rbind (before (readSchemaEpoch c) x) (after (readSchemaEpoch c) False) = Inr x'"
  | m x1 where "r = Inr \<lparr> applied = True, newEpoch = readSchemaEpoch c + 1 \<rparr>" and "\<not> cut_over c args"
    and "cutover_next c args = Inr m" and "c' = cut_state c args m"
    and "before (readSchemaEpoch c) x = Inr x1" and "after (readSchemaEpoch c + 1) True x1 = Inr x'"
proof (cases "cut_over c args")
  case True
  show ?thesis
  proof (cases "rbind (before (readSchemaEpoch c) x) (after (readSchemaEpoch c) False)")
    case (Inl e)
    then have "r = Inl e \<and> c' = c \<and> x' = x"
      using assms(2) cutover_guarded [OF True, of before after x] by simp
    then show ?thesis using that(1) assms(1) by (simp add: same_tables_def)
  next
    case (Inr y)
    then have "cutover args before after (c, x) = (Inr \<lparr> applied = False, newEpoch = readSchemaEpoch c \<rparr>, c, y)"
      using cutover_guarded [OF True, of before after x] by simp
    then have out: "r = Inr \<lparr> applied = False, newEpoch = readSchemaEpoch c \<rparr> \<and> c' = c \<and> x' = y"
      using assms(2) by (metis prod.inject)
    show ?thesis
      by (rule that(2)) (use out True Inr in \<open>blast+\<close>)
  qed
next
  case False
  obtain c0 where c0: "same_tables c c0" "routing_inv c0" "cutover args before after (c, x) =
    (case before (readSchemaEpoch c) x of
       Inl e \<Rightarrow> (Inl e, c0, x)
     | Inr x1 \<Rightarrow> (case cutover_next c args of
           Inl e \<Rightarrow> (Inl e, c0, x)
         | Inr m \<Rightarrow> (case after (readSchemaEpoch c + 1) True x1 of
               Inl e \<Rightarrow> (Inl e, c0, x)
             | Inr x' \<Rightarrow> (Inr \<lparr> applied = True, newEpoch = readSchemaEpoch c + 1 \<rparr>, cut_state c args m, x'))))"
    using cutover_unguarded [OF assms(1) False, of before after x] by (elim exE conjE)
  note outcome = that
  have failed: ?thesis if "cutover args before after (c, x) = (Inl e, c0, x)" for e
  proof -
    have "r = Inl e \<and> c' = c0 \<and> x' = x" using that assms(2) by (metis prod.inject)
    then show ?thesis using outcome(1) c0(1,2) by blast
  qed
  show ?thesis
  proof (cases "before (readSchemaEpoch c) x")
    case (Inl e)
    then show ?thesis using failed [of e] c0(3) by simp
  next
    case b: (Inr x1)
    show ?thesis
    proof (cases "cutover_next c args")
      case (Inl e)
      then show ?thesis using failed [of e] c0(3) b by simp
    next
      case m: (Inr m)
      show ?thesis
      proof (cases "after (readSchemaEpoch c + 1) True x1")
        case (Inl e)
        then show ?thesis using failed [of e] c0(3) b m by simp
      next
        case (Inr y)
        then have "cutover args before after (c, x) =
          (Inr \<lparr> applied = True, newEpoch = readSchemaEpoch c + 1 \<rparr>, cut_state c args m, y)"
          using c0(3) b m by simp
        then have out: "r = Inr \<lparr> applied = True, newEpoch = readSchemaEpoch c + 1 \<rparr> \<and> c' = cut_state c args m \<and> x' = y"
          using assms(2) by (metis prod.inject)
        show ?thesis by (rule outcome(3)) (use out False b m Inr in \<open>blast+\<close>)
      qed
    qed
  qed
qed

lemma cutover_next_route:
  assumes "routing_inv c" and "cutover_next c args = Inr m" and "0 \<le> v" and "v < VSHARD_COUNT"
  shows "routeVshard m v = (if req_lo args \<le> v \<and> v \<le> req_hi args then Inr (req_toShard args)
    else routeVshard (catalog_ranges c) v)"
  using assms by (auto simp: cutover_next_def result_simps routing_inv_def vm.split_route)

text \<open>
  C23. The Catalog cutover is atomic. Whatever the hooks do to the rest of the storage, a call ends
  in one of three ways, and the store is consistent (a valid table, a coherent cache) after each:
  it fails and no table has changed; it finds its guard and changes neither routing nor epoch; or
  it moves exactly the requested range to the new shard, advances the routing epoch by one and
  records the guard.
\<close>

theorem cutover_atomic:
  assumes "routing_inv c" and "cutover args before after (c, x) = (r, c', x')"
  shows "routing_inv c' \<and> (case r of
      Inl e \<Rightarrow> same_tables c c' \<and> x' = x
    | Inr res \<Rightarrow>
        if applied res
        then newEpoch res = readSchemaEpoch c + 1 \<and> readSchemaEpoch c' = newEpoch res \<and> cut_over c' args \<and>
          (\<forall>v. 0 \<le> v \<and> v < VSHARD_COUNT \<longrightarrow> routeVshard (catalog_ranges c') v =
            (if req_lo args \<le> v \<and> v \<le> req_hi args then Inr (req_toShard args) else routeVshard (catalog_ranges c) v))
        else cut_over c args \<and> newEpoch res = readSchemaEpoch c \<and> same_tables c c')"
  using assms
proof (cases rule: cutover_cases)
  case (3 m x1)
  then show ?thesis
    using cut_state_inv [OF assms(1) 3(3)] cutover_next_route [OF assms(1) 3(3)]
    by (simp add: cut_state_def readSchemaEpoch_def cut_over_def)
qed (use assms(1) in \<open>simp_all add: same_tables_def\<close>)

definition demo_cutover :: CatalogCutoverRequest where
  "demo_cutover = \<lparr> req_migId = ''m1'', req_lo = 0, req_hi = 99, req_fromShard = ''ShardDO_0'', req_toShard = ''s1'' \<rparr>"

definition demo_cut :: catalog_routing where
  "demo_cut = \<lparr> catalog_ranges = [\<lparr> lo = 0, hi = 99, shardId = ''s1'' \<rparr>, \<lparr> lo = 100, hi = 16383, shardId = ''ShardDO_0'' \<rparr>],
     schema_epoch = Some 2, catalog_meta = [(''cutover:m1'', ''ShardDO_0'')],
     cachedMap = Some [\<lparr> lo = 0, hi = 99, shardId = ''s1'' \<rparr>, \<lparr> lo = 100, hi = 16383, shardId = ''ShardDO_0'' \<rparr>] \<rparr>"

lemma demo_cutover_run:
  "cutover demo_cutover (\<lambda>_. Inr) (\<lambda>_ _. Inr) (initial_routing, ()) =
     (Inr \<lparr> applied = True, newEpoch = 2 \<rparr>, demo_cut, ())"
  by code_simp

theorem cutover_atomic_witness:
  "routing_inv demo_cut \<and> routeVshard (catalog_ranges demo_cut) 50 = Inr ''s1''"
  using cutover_atomic [OF routing_inv_initial demo_cutover_run]
  by (simp add: demo_cutover_def VSHARD_COUNT_def)

text \<open>
  A cutover happens at most once per migration: once applied, any later call with the same
  migration id, whatever its other arguments and whatever happened in between to the rest of the
  storage, changes neither the table nor the epoch. If the hooks accept it, it reports
  \<open>applied = False\<close> with the current epoch.
\<close>

theorem cutover_once:
  assumes "routing_inv c" and "cutover args before after (c, x) = (Inr res, c', x')"
    and "req_migId args' = req_migId args"
  shows "cutover args' before' after' (c', y) =
    (case rbind (before' (readSchemaEpoch c') y) (after' (readSchemaEpoch c') False) of
       Inl e \<Rightarrow> (Inl e, c', y)
     | Inr y' \<Rightarrow> (Inr \<lparr> applied = False, newEpoch = readSchemaEpoch c' \<rparr>, c', y'))"
proof -
  from assms(1,2) have "cut_over c' args"
    by (cases rule: cutover_cases) (auto simp: cut_state_def cut_over_def)
  then have "cut_over c' args'" using assms(3) by (simp add: cut_over_def)
  then show ?thesis by (rule cutover_guarded)
qed

theorem cutover_once_witness:
  "cutover demo_cutover (\<lambda>_. Inr) (\<lambda>_ _. Inr) (demo_cut, ()) =
     (Inr \<lparr> applied = False, newEpoch = 2 \<rparr>, demo_cut, ())"
  using cutover_once [OF routing_inv_initial demo_cutover_run, of demo_cutover "\<lambda>_. Inr" "\<lambda>_ _. Inr" "()"]
  by (simp add: readSchemaEpoch_def demo_cut_def)

text \<open>Reading: under the invariant a route is total, and reads neither change the tables nor fail.\<close>

lemma route_inv:
  assumes "routing_inv c" and "0 \<le> v" and "v < VSHARD_COUNT"
  shows "\<exists>s c'. route v c = (Inr (s, readSchemaEpoch c), c') \<and> routeVshard (catalog_ranges c) v = Inr s \<and>
     same_tables c c' \<and> routing_inv c'"
proof -
  obtain c1 where c1: "catalog_map c = (Inr (catalog_ranges c), c1)" "routing_inv c1"
    "c1 = c\<lparr>cachedMap := Some (catalog_ranges c)\<rparr>"
    using assms(1) by (rule catalog_map_inv)
  obtain s where s: "routeVshard (catalog_ranges c) v = Inr s"
    using vm.route_total [OF _ assms(2,3)] assms(1) by (auto simp: routing_inv_def)
  have "readSchemaEpoch c1 = readSchemaEpoch c" using c1(3) by (simp add: readSchemaEpoch_def)
  then show ?thesis using c1 s
    by (intro exI [of _ s] exI [of _ c1]) (simp add: route_def sbind_def slift_def same_tables_def)
qed

lemma ownsRange_inv:
  assumes "routing_inv c"
  shows "\<exists>c'. ownsRange l h s c = (Inr (\<exists>r \<in> set (catalog_ranges c). lo r \<le> l \<and> h \<le> hi r \<and> shardId r = s), c') \<and>
     same_tables c c' \<and> routing_inv c'"
proof -
  obtain c1 where "catalog_map c = (Inr (catalog_ranges c), c1)" "routing_inv c1"
    "c1 = c\<lparr>cachedMap := Some (catalog_ranges c)\<rparr>"
    using assms by (rule catalog_map_inv)
  then show ?thesis by (intro exI [of _ c1]) (simp add: ownsRange_def sbind_def same_tables_def)
qed

subsection \<open>Splits outside a migration, and pages of shard ids\<close>

lemma splitRange_inv:
  assumes "routing_inv c" and "splitRange l h n before (c, x) = (r, c', x')"
  shows "routing_inv c' \<and> (case r of Inl e \<Rightarrow> same_tables c c' \<and> x' = x
    | Inr _ \<Rightarrow> readSchemaEpoch c' = readSchemaEpoch c + 1 \<and> split_map (catalog_ranges c) l h n = Inr (catalog_ranges c'))"
proof -
  obtain c1 where c1: "catalog_map c = (Inr (catalog_ranges c), c1)" "routing_inv c1"
    "c1 = c\<lparr>cachedMap := Some (catalog_ranges c)\<rparr>"
    using assms(1) by (rule catalog_map_inv)
  obtain e where ep: "schema_epoch c = Some e" using assms(1) by (auto simp: routing_inv_def)
  show ?thesis
  proof (cases "split_map (catalog_ranges c) l h n")
    case (Inl e)
    then show ?thesis using assms(2) c1
      by (auto simp: splitRange_def sbind_slift sbind_on_routing_ok same_tables_def)
  next
    case (Inr m)
    then have v: "valid_map m" using assms(1) by (auto simp: routing_inv_def intro: split_map_valid)
    show ?thesis
    proof (cases "before x")
      case (Inl e)
      then show ?thesis using assms(2) c1 Inr
        by (auto simp: splitRange_def sbind_slift sbind_on_routing_ok sequencing same_tables_def routing_inv_def)
    next
      case (Inr x1)
      then show ?thesis using assms(2) c1 \<open>split_map _ l h n = Inr m\<close> v ep replaceMap_valid [OF v, of c1]
        by (auto simp: splitRange_def sbind_slift sbind_on_routing_ok sequencing bump_epoch_def routing_inv_def
            readSchemaEpoch_def)
    qed
  qed
qed

lemma sort_remdups_filter:
  "sort (remdups (filter P xs)) = filter P (sort (remdups xs))" for xs :: "'a::linorder list"
  by (simp add: remdups_filter filter_sort)

lemma filter_sorted_after:
  fixes xs :: "'a::linorder list"
  assumes "sorted xs" and "distinct xs" and "n < length xs"
  shows "filter (\<lambda>y. xs ! n < y) xs = drop (Suc n) xs"
proof -
  have "xs = take (Suc n) xs @ drop (Suc n) xs" by simp
  moreover have "filter (\<lambda>y. xs ! n < y) (take (Suc n) xs) = []"
    using sorted_nth_mono [OF assms(1)] assms(3)
    by (auto simp: filter_empty_conv in_set_conv_nth not_less less_Suc_eq_le)
  moreover have "filter (\<lambda>y. xs ! n < y) (drop (Suc n) xs) = drop (Suc n) xs"
  proof (rule filter_True, rule ballI)
    fix y assume "y \<in> set (drop (Suc n) xs)"
    then obtain k where "k < length xs - Suc n" "y = xs ! (Suc n + k)" by (auto simp: in_set_conv_nth)
    then have "xs ! n \<le> y" "xs ! n \<noteq> y"
      using assms sorted_nth_mono [of xs n "Suc n + k"] nth_eq_iff_index_eq [of xs n "Suc n + k"] by auto
    then show "xs ! n < y" by simp
  qed
  ultimately show ?thesis by (metis append_Nil filter_append)
qed

text \<open>
  Paging through the shards: the page after a shard id of the listing is the next slice of
  the listing, so walking the pages by the last id of each meets every shard once, in order.
\<close>

theorem shard_pages_slice:
  assumes "1 \<le> limit" and "limit \<le> 64" and "n < length (listShardIds c)"
  shows "listShardIdsPage None limit c = Inr (take (nat limit) (listShardIds c)) \<and>
    listShardIdsPage (Some (listShardIds c ! n)) limit c = Inr (take (nat limit) (drop (Suc n) (listShardIds c)))"
proof -
  have "safe_integer limit" using assms(1,2) by (simp add: safe_integer_def)
  moreover have "sort (remdups (filter (\<lambda>s. listShardIds c ! n < s) (map shardId (catalog_ranges c)))) =
      drop (Suc n) (listShardIds c)"
    unfolding sort_remdups_filter listShardIds_def [symmetric]
    using assms(3) by (intro filter_sorted_after) (simp_all add: listShardIds_def)
  ultimately show ?thesis using assms(1,2) by (simp add: listShardIdsPage_def listShardIds_def)
qed

theorem shard_pages_slice_witness:
  "listShardIdsPage (Some ''ShardDO_0'') 1 demo_cut = Inr [''s1'']"
proof -
  have l: "listShardIds demo_cut = [''ShardDO_0'', ''s1'']" by code_simp
  have "listShardIdsPage (Some (listShardIds demo_cut ! 0)) 1 demo_cut =
      Inr (take (nat 1) (drop (Suc 0) (listShardIds demo_cut)))"
    by (rule shard_pages_slice [of 1 0 demo_cut, THEN conjunct2]) (simp_all add: l)
  then show ?thesis by (simp add: l)
qed

end
