(* ===== verification/Topology_Operations.thy ===== *)
theory Topology_Operations
  imports Store Vshard
begin

text \<open>
  The Catalog's topology lease, \<^verbatim>\<open>src/src/server/do/catalog-topology-operation-store.ts\<close>: one row per
  topology change ever begun, of which at most one is active; completed and aborted rows stay as
  retry tombstones. The table is the one a fresh Catalog creates, with its CHECK constraints and its
  partial unique index; the \<open>ALTER TABLE\<close> of an older table only adds columns.
\<close>

section \<open>Data\<close>

datatype CatalogTopologyOperationStatus = Op_active | Op_completed | Op_aborted

definition CATALOG_TOPOLOGY_OPERATION_HISTORY_LIMIT :: int where
  "CATALOG_TOPOLOGY_OPERATION_HISTORY_LIMIT = VSHARD_COUNT"

record CatalogTopologyOperationIdentity =
  op_migrationId :: string
  op_sourceShard :: string
  op_destinationShard :: string
  op_rangeLo :: int
  op_rangeHi :: int
  op_startEpoch :: int
  op_schemaVersion :: int
  op_schemaEpoch :: int
  op_schemaDigest :: string
  op_recoveryGeneration :: int

record CatalogTopologyOperation = CatalogTopologyOperationIdentity +
  op_status :: CatalogTopologyOperationStatus
  op_completedEpoch :: "int option"
  op_createdAt :: int
  op_updatedAt :: int

type_synonym operations = "CatalogTopologyOperation list"

definition operation_check :: "CatalogTopologyOperation \<Rightarrow> bool" where
  "operation_check r \<longleftrightarrow> 0 < op_startEpoch r \<and> 0 \<le> op_schemaVersion r \<and> 0 < op_schemaEpoch r \<and>
     0 \<le> op_recoveryGeneration r \<and> 0 \<le> op_createdAt r \<and> op_createdAt r \<le> op_updatedAt r \<and>
     0 \<le> op_rangeLo r \<and> op_rangeLo r \<le> op_rangeHi r \<and> op_rangeHi r < VSHARD_COUNT \<and>
     (case op_completedEpoch r of
        Some e \<Rightarrow> op_status r = Op_completed \<and> op_startEpoch r < e
      | None \<Rightarrow> op_status r = Op_active \<or> op_status r = Op_aborted)"

text \<open>The partial unique index \<open>catalog_topology_operations_one_active\<close>.\<close>

definition one_active :: "operations \<Rightarrow> bool" where
  "one_active t \<longleftrightarrow> length (filter (\<lambda>r. op_status r = Op_active) t) \<le> 1"

definition operation_insert :: "CatalogTopologyOperation \<Rightarrow> operations \<Rightarrow> operations res" where
  "operation_insert r t =
     rbind (sql_insert op_migrationId operation_check r t) (\<lambda>t'. rbind (ensure (one_active t') SqliteError) (\<lambda>_. Inr t'))"

definition operation_update :: "(CatalogTopologyOperation \<Rightarrow> bool) \<Rightarrow> (CatalogTopologyOperation \<Rightarrow> CatalogTopologyOperation) \<Rightarrow>
    operations \<Rightarrow> operations res" where
  "operation_update p f t =
     rbind (sql_update_checked operation_check p f t) (\<lambda>t'. rbind (ensure (one_active t') SqliteError) (\<lambda>_. Inr t'))"

section \<open>Operations\<close>

definition op_assertIdentity :: "CatalogTopologyOperationIdentity \<Rightarrow> unit res" where
  "op_assertIdentity i = ensure
     (opaque_id (op_migrationId i) \<and> opaque_id (op_sourceShard i) \<and> opaque_id (op_destinationShard i) \<and>
      op_sourceShard i \<noteq> op_destinationShard i \<and>
      safe_integer (op_rangeLo i) \<and> safe_integer (op_rangeHi i) \<and> 0 \<le> op_rangeLo i \<and>
      op_rangeLo i \<le> op_rangeHi i \<and> op_rangeHi i < VSHARD_COUNT \<and>
      safe_integer (op_startEpoch i) \<and> 1 \<le> op_startEpoch i \<and>
      safe_integer (op_schemaVersion i) \<and> 0 \<le> op_schemaVersion i \<and>
      safe_integer (op_schemaEpoch i) \<and> 1 \<le> op_schemaEpoch i \<and> hex_digest (op_schemaDigest i) \<and>
      safe_integer (op_recoveryGeneration i) \<and> 0 \<le> op_recoveryGeneration i) (Cdb CDB_INVALID_ARGS)"

definition operation_identity :: "CatalogTopologyOperation \<Rightarrow> CatalogTopologyOperationIdentity" where
  "operation_identity r = CatalogTopologyOperationIdentity.truncate r"

definition sameIdentity :: "CatalogTopologyOperation \<Rightarrow> CatalogTopologyOperationIdentity \<Rightarrow> bool" where
  "sameIdentity stored requested \<longleftrightarrow>
     op_migrationId stored = op_migrationId requested \<and> op_sourceShard stored = op_sourceShard requested \<and>
     op_destinationShard stored = op_destinationShard requested \<and> op_rangeLo stored = op_rangeLo requested \<and>
     op_rangeHi stored = op_rangeHi requested \<and> op_startEpoch stored = op_startEpoch requested \<and>
     op_schemaVersion stored = op_schemaVersion requested \<and> op_schemaEpoch stored = op_schemaEpoch requested \<and>
     op_schemaDigest stored = op_schemaDigest requested \<and>
     op_recoveryGeneration stored = op_recoveryGeneration requested"

definition op_read :: "string \<Rightarrow> operations \<Rightarrow> CatalogTopologyOperation option" where
  "op_read m t = sql_one (\<lambda>r. op_migrationId r = m) t"

definition op_active :: "operations \<Rightarrow> CatalogTopologyOperation option" where
  "op_active t = sql_one (\<lambda>r. op_status r = Op_active) t"

definition op_assertExact :: "CatalogTopologyOperation \<Rightarrow> CatalogTopologyOperationIdentity \<Rightarrow> unit res" where
  "op_assertExact r i = ensure (sameIdentity r i) (Cdb CDB_STALE_EPOCH)"

definition op_timestamp :: "int \<Rightarrow> unit res" where
  "op_timestamp now = ensure (safe_integer now \<and> 0 \<le> now) (Cdb CDB_INVALID_ARGS)"

definition op_readExact :: "CatalogTopologyOperationIdentity \<Rightarrow> operations \<Rightarrow> CatalogTopologyOperation res" where
  "op_readExact i t =
     rbind (op_assertIdentity i) (\<lambda>_.
     case op_read (op_migrationId i) t of
       None \<Rightarrow> Inl (Cdb CDB_STALE_EPOCH)
     | Some r \<Rightarrow> rbind (op_assertExact r i) (\<lambda>_. Inr r))"

definition new_operation :: "CatalogTopologyOperationIdentity \<Rightarrow> int \<Rightarrow> CatalogTopologyOperation" where
  "new_operation i now = CatalogTopologyOperationIdentity.extend i
     \<lparr> op_status = Op_active, op_completedEpoch = None, op_createdAt = now, op_updatedAt = now \<rparr>"

definition op_begin :: "CatalogTopologyOperationIdentity \<Rightarrow> int \<Rightarrow> operations \<Rightarrow>
    (CatalogTopologyOperation \<times> operations) res" where
  "op_begin i now t =
     rbind (op_assertIdentity i) (\<lambda>_.
     rbind (op_timestamp now) (\<lambda>_.
     case op_read (op_migrationId i) t of
       Some existing \<Rightarrow> rbind (op_assertExact existing i) (\<lambda>_. Inr (existing, t))
     | None \<Rightarrow>
         rbind (ensure (int (length t) < CATALOG_TOPOLOGY_OPERATION_HISTORY_LIMIT) (Cdb CDB_RATE_LIMITED)) (\<lambda>_.
         rbind (ensure (op_active t = None) (Cdb CDB_STALE_EPOCH)) (\<lambda>_.
         rbind (operation_insert (new_operation i now) t) (\<lambda>t'.
         case op_read (op_migrationId i) t' of
           None \<Rightarrow> Inl (Cdb CDB_INVARIANT)
         | Some r \<Rightarrow> Inr (r, t'))))))"

definition op_assertActive :: "CatalogTopologyOperationIdentity \<Rightarrow> operations \<Rightarrow> CatalogTopologyOperation res" where
  "op_assertActive i t =
     rbind (op_readExact i t) (\<lambda>r. rbind (ensure (op_status r = Op_active) (Cdb CDB_STALE_EPOCH)) (\<lambda>_. Inr r))"

definition op_complete :: "CatalogTopologyOperationIdentity \<Rightarrow> int \<Rightarrow> int \<Rightarrow> operations \<Rightarrow>
    (CatalogTopologyOperation \<times> operations) res" where
  "op_complete i completedEpoch now t =
     rbind (ensure (safe_integer completedEpoch \<and> op_startEpoch i < completedEpoch) (Cdb CDB_INVALID_ARGS)) (\<lambda>_.
     rbind (op_timestamp now) (\<lambda>_.
     rbind (op_readExact i t) (\<lambda>r.
     case op_status r of
       Op_completed \<Rightarrow>
         rbind (ensure (op_completedEpoch r = Some completedEpoch) (Cdb CDB_STALE_EPOCH)) (\<lambda>_. Inr (r, t))
     | Op_aborted \<Rightarrow> Inl (Cdb CDB_STALE_EPOCH)
     | Op_active \<Rightarrow>
         rbind (operation_update (\<lambda>s. op_migrationId s = op_migrationId i \<and> op_status s = Op_active)
           (\<lambda>s. s\<lparr>op_status := Op_completed, op_completedEpoch := Some completedEpoch, op_updatedAt := now\<rparr>) t) (\<lambda>t'.
         rbind (op_readExact i t') (\<lambda>r'. Inr (r', t'))))))"

definition op_abort :: "CatalogTopologyOperationIdentity \<Rightarrow> int \<Rightarrow> operations \<Rightarrow>
    (CatalogTopologyOperation \<times> operations) res" where
  "op_abort i now t =
     rbind (op_timestamp now) (\<lambda>_.
     rbind (op_readExact i t) (\<lambda>r.
     case op_status r of
       Op_aborted \<Rightarrow> Inr (r, t)
     | Op_completed \<Rightarrow> Inl (Cdb CDB_STALE_EPOCH)
     | Op_active \<Rightarrow>
         rbind (operation_update (\<lambda>s. op_migrationId s = op_migrationId i \<and> op_status s = Op_active)
           (\<lambda>s. s\<lparr>op_status := Op_aborted, op_updatedAt := now\<rparr>) t) (\<lambda>t'.
         rbind (op_readExact i t') (\<lambda>r'. Inr (r', t')))))"

definition op_assertNoActive :: "operations \<Rightarrow> unit res" where
  "op_assertNoActive t = ensure (op_active t = None) (Cdb CDB_STALE_EPOCH)"

inductive operation_step :: "operations \<Rightarrow> operations \<Rightarrow> bool" where
  step_begin: "op_begin i now t = Inr (r, t') \<Longrightarrow> operation_step t t'"
| step_complete: "op_complete i e now t = Inr (r, t') \<Longrightarrow> operation_step t t'"
| step_abort: "op_abort i now t = Inr (r, t') \<Longrightarrow> operation_step t t'"

inductive_cases operation_stepE: "operation_step t t'"

section \<open>The invariant\<close>

definition operation_final :: "CatalogTopologyOperation \<Rightarrow> bool" where
  "operation_final r \<longleftrightarrow> op_status r \<noteq> Op_active"

definition operation_rank :: "CatalogTopologyOperation \<Rightarrow> nat" where
  "operation_rank r = (if operation_final r then 1 else 0)"

definition operations_inv :: "operations \<Rightarrow> bool" where
  "operations_inv t \<longleftrightarrow> distinct (map op_migrationId t) \<and> (\<forall>r \<in> set t. operation_check r) \<and> one_active t \<and>
     int (length t) \<le> CATALOG_TOPOLOGY_OPERATION_HISTORY_LIMIT"

lemma sameIdentity_iff: "sameIdentity r i \<longleftrightarrow> operation_identity r = i"
  by (cases i) (auto simp: sameIdentity_def operation_identity_def CatalogTopologyOperationIdentity.defs)

lemma new_operation_simps [simp]:
  "op_migrationId (new_operation i now) = op_migrationId i" "op_status (new_operation i now) = Op_active"
  "operation_identity (new_operation i now) = i"
  by (simp_all add: new_operation_def operation_identity_def CatalogTopologyOperationIdentity.defs)

lemma new_operation_check:
  "op_assertIdentity i = Inr u \<Longrightarrow> 0 \<le> now \<Longrightarrow> operation_check (new_operation i now)"
  by (auto simp: op_assertIdentity_def operation_check_def new_operation_def result_simps
      CatalogTopologyOperationIdentity.defs)

lemma operation_id_eq: "operation_identity r = i \<Longrightarrow> op_migrationId r = op_migrationId i"
  by (auto simp: operation_identity_def CatalogTopologyOperationIdentity.defs)

lemma op_readExact_Inr:
  assumes "distinct (map op_migrationId t)"
  shows "op_readExact i t = Inr r \<longleftrightarrow> op_assertIdentity i = Inr () \<and> r \<in> set t \<and> operation_identity r = i"
proof -
  have "op_read (op_migrationId i) t = Some r" if "r \<in> set t" "operation_identity r = i"
    using sql_one_unique [OF assms that(1)] operation_id_eq [OF that(2)] by (simp add: op_read_def)
  then show ?thesis
    by (auto simp: op_readExact_def op_assertExact_def sameIdentity_iff result_simps op_read_def split: option.splits
        dest: sql_one_SomeD)
qed

lemma one_active_unique:
  "one_active t \<Longrightarrow> distinct t \<Longrightarrow> r \<in> set t \<Longrightarrow> s \<in> set t \<Longrightarrow> op_status r = Op_active \<Longrightarrow> op_status s = Op_active \<Longrightarrow> r = s"
  unfolding one_active_def
  by (metis (mono_tags, lifting) distinct_filter distinct_card card_le_Suc0_iff_eq List.finite_set mem_Collect_eq set_filter One_nat_def)

lemma one_active_insert: "op_active t = None \<Longrightarrow> one_active (t @ [r])"
  by (auto simp: one_active_def op_active_def sql_one_None_iff filter_empty_conv)

text \<open>A first \<open>begin\<close> appends the active row; a retry returns the stored row.\<close>

lemma op_begin_Inr:
  assumes "distinct (map op_migrationId t)"
  shows "op_begin i now t = Inr (r, t') \<longleftrightarrow> op_assertIdentity i = Inr () \<and> safe_integer now \<and> 0 \<le> now \<and>
    (r \<in> set t \<and> operation_identity r = i \<and> t' = t \<or>
     (\<forall>s \<in> set t. op_migrationId s \<noteq> op_migrationId i) \<and> int (length t) < CATALOG_TOPOLOGY_OPERATION_HISTORY_LIMIT \<and>
     (\<forall>s \<in> set t. op_status s \<noteq> Op_active) \<and> r = new_operation i now \<and> t' = t @ [r])"
proof (cases "op_read (op_migrationId i) t")
  case None
  then have free: "\<forall>s \<in> set t. op_migrationId s \<noteq> op_migrationId i" by (simp add: op_read_def sql_one_None_iff)
  then have rd: "op_read (op_migrationId i) (t @ [new_operation i now]) = Some (new_operation i now)"
    using None by (auto simp: op_read_def intro: sql_one_append_new)
  have "\<forall>s \<in> set t. operation_identity s \<noteq> i" using free operation_id_eq by blast
  moreover have act: "op_active t = None \<longleftrightarrow> (\<forall>s \<in> set t. op_status s \<noteq> Op_active)"
    by (simp add: op_active_def sql_one_None_iff)
  moreover have "operation_insert (new_operation i now) t = Inr (t @ [new_operation i now])"
    if "op_assertIdentity i = Inr ()" "0 \<le> now" "op_active t = None"
    using free one_active_insert [OF that(3)] new_operation_check [OF that(1,2)]
    by (simp add: operation_insert_def sql_insert_def)
  ultimately show ?thesis using None free rd
    by (cases "op_assertIdentity i"; cases "op_active t = None"; cases "0 \<le> now")
      (auto simp: op_begin_def op_timestamp_def rbind_eq_Inr ensure_eq_Inr)
next
  case (Some s)
  then have s: "s \<in> set t" "op_migrationId s = op_migrationId i" by (auto simp: op_read_def dest: sql_one_SomeD)
  have iff: "r \<in> set t \<and> operation_identity r = i \<and> t' = t \<longleftrightarrow> r = s \<and> operation_identity s = i \<and> t' = t"
    using unique_key_row [OF assms _ s(1)] s operation_id_eq by metis
  have taken: "\<not> (\<forall>s \<in> set t. op_migrationId s \<noteq> op_migrationId i)" using s by blast
  show ?thesis unfolding iff using Some taken
    by (auto simp: op_begin_def op_timestamp_def op_assertExact_def sameIdentity_iff rbind_eq_Inr ensure_eq_Inr)
qed

text \<open>The transition out of \<open>active\<close> that \<open>complete\<close> and \<open>abort\<close> share.\<close>

abbreviation active_row :: "CatalogTopologyOperationIdentity \<Rightarrow> CatalogTopologyOperation \<Rightarrow> bool" where
  "active_row i s \<equiv> op_migrationId s = op_migrationId i \<and> op_status s = Op_active"

lemma one_active_update:
  "(\<And>s. op_status (f s) \<noteq> Op_active) \<Longrightarrow> one_active t \<Longrightarrow> one_active (sql_update p f t)"
proof -
  assume f: "\<And>s. op_status (f s) \<noteq> Op_active" and one: "one_active t"
  have "length (filter (\<lambda>r. op_status r = Op_active) (sql_update p f t)) \<le> length (filter (\<lambda>r. op_status r = Op_active) t)"
    by (induction t) (auto simp: sql_update_def f)
  then show ?thesis using one by (simp add: one_active_def)
qed

lemma operation_update_inv:
  assumes "operations_inv t" and "\<And>s. operation_identity (f s) = operation_identity s" and "\<And>s. op_status (f s) \<noteq> Op_active"
    and "\<And>s. s \<in> set t \<Longrightarrow> p s \<Longrightarrow> operation_check (f s)"
  shows "operations_inv (sql_update p f t)"
proof -
  have "op_migrationId (f s) = op_migrationId s" for s
    using operation_id_eq [OF assms(2)] by (simp add: operation_identity_def CatalogTopologyOperationIdentity.defs)
  then have "distinct (map op_migrationId (sql_update p f t))"
    using assms(1) by (intro distinct_keys_sql_update) (auto simp: operations_inv_def)
  then show ?thesis
    using assms one_active_update [OF assms(3)] by (auto simp: operations_inv_def table_simps)
qed

lemma operation_transition:
  assumes "operations_inv t" and "r0 \<in> set t" and "operation_identity r0 = i" and "op_status r0 = Op_active"
    and "op_assertIdentity i = Inr ()"
    and "\<And>s. operation_identity (f s) = operation_identity s" and "\<And>s. op_status (f s) \<noteq> Op_active"
  shows "rbind (operation_update (active_row i) f t) (\<lambda>t'. rbind (op_readExact i t') (\<lambda>r'. Inr (r', t'))) =
    (if operation_check (f r0) then Inr (f r0, sql_update (active_row i) f t) else Inl SqliteError)"
    and "operation_check (f r0) \<Longrightarrow> operations_inv (sql_update (active_row i) f t)"
proof -
  have d: "distinct (map op_migrationId t)" using assms(1) by (simp add: operations_inv_def)
  have row0: "op_migrationId r0 = op_migrationId i" using assms(3) by (rule operation_id_eq)
  have only: "s = r0" if "s \<in> set t" "active_row i s" for s
    using unique_key_row [OF d that(1) assms(2)] that(2) row0 by simp
  show inv: "operations_inv (sql_update (active_row i) f t)" if "operation_check (f r0)"
    using assms(1,6,7) that only by (intro operation_update_inv) blast+
  have upd: "operation_update (active_row i) f t =
    (if operation_check (f r0) then Inr (sql_update (active_row i) f t) else Inl SqliteError)"
  proof (cases "operation_check (f r0)")
    case True
    then have "\<not> (\<exists>s \<in> set t. active_row i s \<and> \<not> operation_check (f s))" using only by blast
    then show ?thesis using True inv
      by (simp add: operation_update_def sql_update_checked_def operations_inv_def)
  next
    case False
    then have "\<exists>s \<in> set t. active_row i s \<and> \<not> operation_check (f s)" using assms(2,4) row0 by blast
    then show ?thesis using False by (simp add: operation_update_def sql_update_checked_def)
  qed
  have "f r0 \<in> set (sql_update (active_row i) f t)"
    using row_after_update [OF assms(2), of "active_row i" f] assms(4) row0 by simp
  then have "op_readExact i (sql_update (active_row i) f t) = Inr (f r0)" if "operation_check (f r0)"
    using inv [OF that] assms(3,5,6) by (simp add: op_readExact_Inr operations_inv_def)
  then show "rbind (operation_update (active_row i) f t) (\<lambda>t'. rbind (op_readExact i t') (\<lambda>r'. Inr (r', t'))) =
    (if operation_check (f r0) then Inr (f r0, sql_update (active_row i) f t) else Inl SqliteError)"
    unfolding upd by simp
qed

lemma op_complete_active:
  assumes "operations_inv t" and "r0 \<in> set t" and "operation_identity r0 = i" and "op_status r0 = Op_active"
    and "op_assertIdentity i = Inr ()" and "safe_integer e" and "op_startEpoch i < e" and "safe_integer now" and "0 \<le> now"
  shows "op_complete i e now t =
    (let f = \<lambda>s. s\<lparr>op_status := Op_completed, op_completedEpoch := Some e, op_updatedAt := now\<rparr> in
     if op_createdAt r0 \<le> now then Inr (f r0, sql_update (active_row i) f t) else Inl SqliteError)"
proof -
  have d: "distinct (map op_migrationId t)" using assms(1) by (simp add: operations_inv_def)
  have ok: "operation_check r0" using assms(1,2) by (simp add: operations_inv_def)
  have start: "op_startEpoch r0 = op_startEpoch i" using assms(3)
    by (auto simp: operation_identity_def CatalogTopologyOperationIdentity.defs)
  have "op_readExact i t = Inr r0" using d assms(2,3,5) by (simp add: op_readExact_Inr)
  then show ?thesis
    using assms(4,6-) ok start
      operation_transition(1) [OF assms(1-5), of "\<lambda>s. s\<lparr>op_status := Op_completed, op_completedEpoch := Some e, op_updatedAt := now\<rparr>"]
    by (simp add: op_complete_def op_timestamp_def operation_check_def Let_def operation_identity_def CatalogTopologyOperationIdentity.defs)
qed

lemma op_abort_active:
  assumes "operations_inv t" and "r0 \<in> set t" and "operation_identity r0 = i" and "op_status r0 = Op_active"
    and "op_assertIdentity i = Inr ()" and "safe_integer now" and "0 \<le> now"
  shows "op_abort i now t =
    (let f = \<lambda>s. s\<lparr>op_status := Op_aborted, op_updatedAt := now\<rparr> in
     if op_createdAt r0 \<le> now then Inr (f r0, sql_update (active_row i) f t) else Inl SqliteError)"
proof -
  have d: "distinct (map op_migrationId t)" using assms(1) by (simp add: operations_inv_def)
  have ok: "operation_check r0" using assms(1,2) by (simp add: operations_inv_def)
  have "op_readExact i t = Inr r0" using d assms(2,3,5) by (simp add: op_readExact_Inr)
  then show ?thesis
    using assms(4,6-) ok
      operation_transition(1) [OF assms(1-5), of "\<lambda>s. s\<lparr>op_status := Op_aborted, op_updatedAt := now\<rparr>"]
    by (simp add: op_abort_def op_timestamp_def operation_check_def Let_def operation_identity_def
        CatalogTopologyOperationIdentity.defs split: option.splits)
qed

text \<open>The successful calls, as changes of the table.\<close>

lemma op_complete_cases:
  assumes "operations_inv t" and "op_complete i e now t = Inr (r, t')"
  obtains "t' = t" and "r \<in> set t" and "operation_identity r = i" and "op_status r = Op_completed" and "op_completedEpoch r = Some e"
  | r0 where "r0 \<in> set t" and "operation_identity r0 = i" and "op_status r0 = Op_active" and "op_assertIdentity i = Inr ()"
    and "r = r0\<lparr>op_status := Op_completed, op_completedEpoch := Some e, op_updatedAt := now\<rparr>"
    and "t' = sql_update (active_row i) (\<lambda>s. s\<lparr>op_status := Op_completed, op_completedEpoch := Some e, op_updatedAt := now\<rparr>) t"
    and "operation_check r"
proof -
  have d: "distinct (map op_migrationId t)" using assms(1) by (simp add: operations_inv_def)
  have pre: "safe_integer e" "op_startEpoch i < e" "safe_integer now" "0 \<le> now"
    using assms(2) by (auto simp: op_complete_def op_timestamp_def rbind_eq_Inr ensure_eq_Inr)
  from assms(2) obtain r0 where "op_readExact i t = Inr r0" by (auto simp: op_complete_def rbind_eq_Inr)
  then have r0: "op_assertIdentity i = Inr ()" "r0 \<in> set t" "operation_identity r0 = i" using op_readExact_Inr [OF d] by auto
  have ok: "operation_check r0" using assms(1) r0(2) by (simp add: operations_inv_def)
  show ?thesis
  proof (cases "op_status r0")
    case Op_active
    then have "op_createdAt r0 \<le> now" and
      "r = r0\<lparr>op_status := Op_completed, op_completedEpoch := Some e, op_updatedAt := now\<rparr>"
      "t' = sql_update (active_row i) (\<lambda>s. s\<lparr>op_status := Op_completed, op_completedEpoch := Some e, op_updatedAt := now\<rparr>) t"
      using op_complete_active [OF assms(1) r0(2,3) Op_active r0(1) pre] assms(2) by (auto simp: Let_def split: if_splits)
    moreover have "op_startEpoch r0 = op_startEpoch i" using r0(3)
      by (auto simp: operation_identity_def CatalogTopologyOperationIdentity.defs)
    ultimately show ?thesis using that(2) [OF r0(2,3) Op_active r0(1)] ok pre(2) by (simp add: operation_check_def)
  qed (use assms(2) \<open>op_readExact i t = Inr r0\<close> r0 that(1) in
      \<open>auto simp: op_complete_def rbind_eq_Inr ensure_eq_Inr\<close>)
qed

lemma op_abort_cases:
  assumes "operations_inv t" and "op_abort i now t = Inr (r, t')"
  obtains "t' = t" and "r \<in> set t" and "operation_identity r = i" and "op_status r = Op_aborted"
  | r0 where "r0 \<in> set t" and "operation_identity r0 = i" and "op_status r0 = Op_active" and "op_assertIdentity i = Inr ()"
    and "r = r0\<lparr>op_status := Op_aborted, op_updatedAt := now\<rparr>"
    and "t' = sql_update (active_row i) (\<lambda>s. s\<lparr>op_status := Op_aborted, op_updatedAt := now\<rparr>) t"
    and "operation_check r"
proof -
  have d: "distinct (map op_migrationId t)" using assms(1) by (simp add: operations_inv_def)
  have pre: "safe_integer now" "0 \<le> now"
    using assms(2) by (auto simp: op_abort_def op_timestamp_def rbind_eq_Inr ensure_eq_Inr)
  from assms(2) obtain r0 where "op_readExact i t = Inr r0" by (auto simp: op_abort_def rbind_eq_Inr)
  then have r0: "op_assertIdentity i = Inr ()" "r0 \<in> set t" "operation_identity r0 = i" using op_readExact_Inr [OF d] by auto
  have ok: "operation_check r0" using assms(1) r0(2) by (simp add: operations_inv_def)
  show ?thesis
  proof (cases "op_status r0")
    case Op_active
    then have "op_createdAt r0 \<le> now" and "r = r0\<lparr>op_status := Op_aborted, op_updatedAt := now\<rparr>"
      "t' = sql_update (active_row i) (\<lambda>s. s\<lparr>op_status := Op_aborted, op_updatedAt := now\<rparr>) t"
      using op_abort_active [OF assms(1) r0(2,3) Op_active r0(1) pre] assms(2) by (auto simp: Let_def split: if_splits)
    then show ?thesis using that(2) [OF r0(2,3) Op_active r0(1)] ok Op_active
      by (simp add: operation_check_def split: option.splits)
  qed (use assms(2) \<open>op_readExact i t = Inr r0\<close> r0 that(1) in
      \<open>auto simp: op_abort_def rbind_eq_Inr ensure_eq_Inr\<close>)
qed

section \<open>The store's contract\<close>

text \<open>A step leaves the table, appends the one active row, or finishes the active row.\<close>

lemma operation_step_cases:
  assumes "operations_inv t" and "operation_step t t'"
  obtains "t' = t"
  | i now where "t' = t @ [new_operation i now]" and "operations_inv t'"
  | i f where "t' = sql_update (active_row i) f t" and "\<And>s. operation_identity (f s) = operation_identity s"
    and "\<And>s. operation_final (f s)" and "operations_inv t'"
  using assms(2)
proof (cases rule: operation_step.cases)
  case (step_begin i now r)
  have d: "distinct (map op_migrationId t)" using assms(1) by (simp add: operations_inv_def)
  show ?thesis
  proof (cases "t' = t")
    case False
    then have "t' = t @ [new_operation i now] \<and> operations_inv t'"
      using step_begin assms(1) new_operation_check [of i "()" now] one_active_insert [of t "new_operation i now"]
      by (auto simp: op_begin_Inr [OF d] operations_inv_def op_active_def sql_one_None_iff image_iff)
    then show ?thesis using that(2) by blast
  qed (rule that(1))
next
  case (step_complete i e now r)
  from assms(1) step_complete show ?thesis
  proof (cases rule: op_complete_cases)
    case (2 r0)
    then show ?thesis using operation_transition(2) [OF assms(1) 2(1-4), of
        "\<lambda>s. s\<lparr>op_status := Op_completed, op_completedEpoch := Some e, op_updatedAt := now\<rparr>"]
      by (intro that(3) [OF 2(6)])
        (simp_all add: operation_identity_def CatalogTopologyOperationIdentity.defs operation_final_def)
  qed (use that(1) in blast)
next
  case (step_abort i now r)
  from assms(1) step_abort show ?thesis
  proof (cases rule: op_abort_cases)
    case (2 r0)
    then show ?thesis using operation_transition(2) [OF assms(1) 2(1-4), of "\<lambda>s. s\<lparr>op_status := Op_aborted, op_updatedAt := now\<rparr>"]
      by (intro that(3) [OF 2(6)])
        (simp_all add: operation_identity_def CatalogTopologyOperationIdentity.defs operation_final_def)
  qed (use that(1) in blast)
qed

interpretation topology: tombstone_store operation_identity operation_rank operations_inv operation_step operation_final
proof
  show "operations_inv []"
    by (simp add: operations_inv_def one_active_def CATALOG_TOPOLOGY_OPERATION_HISTORY_LIMIT_def VSHARD_COUNT_def)
next
  fix t t' r assume inv: "operations_inv t" and step: "operation_step t t'"
  show "operations_inv t'" using inv step by (cases rule: operation_step_cases) (use inv in auto)
  assume r: "r \<in> set t"
  show "\<exists>r' \<in> set t'. operation_identity r' = operation_identity r \<and> operation_rank r \<le> operation_rank r'"
    using inv step
  proof (cases rule: operation_step_cases)
    case (3 i f)
    show ?thesis using row_after_update [OF r, of "active_row i" f] 3(1-3)
      by (intro bexI [of _ "if active_row i r then f r else r"]) (simp_all add: operation_rank_def)
  qed (use r in auto)
  show "operation_final r \<Longrightarrow> r \<in> set t'"
    using inv step
  proof (cases rule: operation_step_cases)
    case (3 i f)
    assume "operation_final r"
    then show ?thesis using row_after_update [OF r, of "active_row i" f] 3(1) by (auto simp: operation_final_def)
  qed (use r in auto)
qed

text \<open>A finished operation as later calls see it.\<close>

lemma final_calls:
  assumes "operations_inv t" and "r \<in> set t" and "operation_identity r = i" and "op_assertIdentity i = Inr ()"
    and "safe_integer now" and "0 \<le> now"
  shows "op_begin i now t = Inr (r, t)"
    and "op_status r = Op_completed \<Longrightarrow> op_abort i now t = Inl (Cdb CDB_STALE_EPOCH)"
    and "op_status r = Op_aborted \<Longrightarrow> op_abort i now t = Inr (r, t)"
    and "op_status r = Op_completed \<Longrightarrow> safe_integer e \<Longrightarrow> op_startEpoch i < e \<Longrightarrow>
      op_complete i e now t = (if op_completedEpoch r = Some e then Inr (r, t) else Inl (Cdb CDB_STALE_EPOCH))"
    and "op_status r = Op_aborted \<Longrightarrow> safe_integer e \<Longrightarrow> op_startEpoch i < e \<Longrightarrow>
      op_complete i e now t = Inl (Cdb CDB_STALE_EPOCH)"
proof -
  have d: "distinct (map op_migrationId t)" using assms(1) by (simp add: operations_inv_def)
  have rd: "op_readExact i t = Inr r" using d assms(2-4) by (simp add: op_readExact_Inr)
  show "op_begin i now t = Inr (r, t)" using assms d by (simp add: op_begin_Inr)
  show "op_status r = Op_completed \<Longrightarrow> op_abort i now t = Inl (Cdb CDB_STALE_EPOCH)"
    and "op_status r = Op_aborted \<Longrightarrow> op_abort i now t = Inr (r, t)"
    and "op_status r = Op_completed \<Longrightarrow> safe_integer e \<Longrightarrow> op_startEpoch i < e \<Longrightarrow>
      op_complete i e now t = (if op_completedEpoch r = Some e then Inr (r, t) else Inl (Cdb CDB_STALE_EPOCH))"
    and "op_status r = Op_aborted \<Longrightarrow> safe_integer e \<Longrightarrow> op_startEpoch i < e \<Longrightarrow>
      op_complete i e now t = Inl (Cdb CDB_STALE_EPOCH)"
    using rd assms(5,6) by (simp_all add: op_abort_def op_complete_def op_timestamp_def ensure_def)
qed

section \<open>Properties\<close>

text \<open>
  Over any history of begins, completions and aborts from an empty Catalog: migration ids stay
  unique, at most one operation is active, the history never exceeds its ceiling, every recorded
  operation keeps its identity for ever, and a completed or aborted record is never written again.
\<close>

theorem topology_history:
  assumes "operation_step\<^sup>*\<^sup>* [] t" and "operation_step\<^sup>*\<^sup>* t t'"
  shows "operations_inv t' \<and>
    (\<forall>r \<in> set t. \<exists>r' \<in> set t'. operation_identity r' = operation_identity r) \<and>
    (\<forall>r \<in> set t. operation_final r \<longrightarrow> r \<in> set t')"
proof -
  have inv: "operations_inv t" using assms(1) by (rule topology.reachable_inv)
  show ?thesis
    using topology.steps_inv [OF assms(2) inv] topology.steps_row [OF assms(2) inv]
      topology.steps_final [OF assms(2) inv] by blast
qed

text \<open>
  Completing and aborting exclude each other for ever: once \<open>complete\<close> has returned for an
  identity, in every later state \<open>abort\<close> is refused as stale, \<open>complete\<close> with the same epoch returns
  the same record and with another epoch is refused, and \<open>begin\<close> returns the completed record
  instead of opening the lease again. None of these calls changes the table.
\<close>

theorem topology_completion_permanent:
  assumes "operations_inv t" and "op_complete i e now t = Inr (r, t1)" and "operation_step\<^sup>*\<^sup>* t1 t2"
    and "safe_integer later" and "0 \<le> later"
  shows "op_abort i later t2 = Inl (Cdb CDB_STALE_EPOCH) \<and> op_begin i later t2 = Inr (r, t2) \<and>
    (\<forall>e'. safe_integer e' \<and> op_startEpoch i < e' \<longrightarrow>
      op_complete i e' later t2 = (if e' = e then Inr (r, t2) else Inl (Cdb CDB_STALE_EPOCH)))"
proof -
  have step: "operation_step t t1" using assms(2) by (rule step_complete)
  have inv1: "operations_inv t1" using assms(1) step by (rule topology.step_inv)
  have ok: "op_assertIdentity i = Inr ()" using assms(2) by (auto simp: op_complete_def op_readExact_def rbind_eq_Inr)
  have row: "r \<in> set t1 \<and> operation_identity r = i \<and> op_status r = Op_completed \<and> op_completedEpoch r = Some e"
    using assms(1,2)
  proof (cases rule: op_complete_cases)
    case (2 r0)
    then have "r \<in> set t1" using row_after_update [OF 2(1), of "active_row i"] operation_id_eq [OF 2(2)] by (simp split: if_splits)
    then show ?thesis using 2 by (simp add: operation_identity_def CatalogTopologyOperationIdentity.defs)
  qed auto
  then have r2: "r \<in> set t2" using topology.steps_final [OF assms(3) inv1] by (simp add: operation_final_def)
  note calls = final_calls [OF topology.steps_inv [OF assms(3) inv1] r2 _ ok assms(4,5)]
  show ?thesis using row calls(1,2,4) by simp
qed

text \<open>
  The lease excludes: while an operation is active, \<open>begin\<close> under a migration id not in the
  history is refused (as stale, or as rate limited once the history is full).
\<close>

theorem topology_lease_exclusive:
  assumes "r \<in> set t" and "op_status r = Op_active" and "\<forall>s \<in> set t. op_migrationId s \<noteq> op_migrationId j"
    and "op_assertIdentity j = Inr ()" and "safe_integer now" and "0 \<le> now"
  shows "op_begin j now t =
    Inl (Cdb (if int (length t) < CATALOG_TOPOLOGY_OPERATION_HISTORY_LIMIT then CDB_STALE_EPOCH else CDB_RATE_LIMITED))"
proof -
  have "op_read (op_migrationId j) t = None" using assms(3) by (simp add: op_read_def sql_one_None_iff)
  moreover have "op_active t \<noteq> None" using assms(1,2) unfolding op_active_def sql_one_None_iff by blast
  ultimately show ?thesis using assms(4-) by (auto simp: op_begin_def op_timestamp_def ensure_def)
qed

subsection \<open>Witnesses\<close>

text \<open>One operation that begins at time 10, and one that never began.\<close>

definition sample_operation :: CatalogTopologyOperationIdentity where
  "sample_operation = \<lparr> op_migrationId = ''m1'', op_sourceShard = ''a'', op_destinationShard = ''b'', op_rangeLo = 0,
     op_rangeHi = 7, op_startEpoch = 1, op_schemaVersion = 0, op_schemaEpoch = 1, op_schemaDigest = replicate 64 (CHR ''a''),
     op_recoveryGeneration = 0 \<rparr>"

definition other_operation :: CatalogTopologyOperationIdentity where
  "other_operation = sample_operation\<lparr>op_migrationId := ''m2''\<rparr>"

definition completed_sample :: CatalogTopologyOperation where
  "completed_sample = (new_operation sample_operation 10)\<lparr>op_status := Op_completed, op_completedEpoch := Some 2, op_updatedAt := 20\<rparr>"

lemma sample_ok: "op_assertIdentity sample_operation = Inr ()" "op_assertIdentity other_operation = Inr ()"
  by (simp_all add: op_assertIdentity_def sample_operation_def other_operation_def opaque_id_def alnum_char_def
      hex_digest_def list_all_iff safe_integer_def VSHARD_COUNT_def)

lemma sample_begin: "op_begin sample_operation 10 [] = Inr (new_operation sample_operation 10, [new_operation sample_operation 10])"
  using sample_ok(1)
  by (simp add: op_begin_Inr safe_integer_def CATALOG_TOPOLOGY_OPERATION_HISTORY_LIMIT_def VSHARD_COUNT_def)

lemma sample_inv: "operations_inv [new_operation sample_operation 10]"
  using topology.step_inv [OF topology.inv_empty step_begin [OF sample_begin]] .

lemma sample_complete:
  "op_complete sample_operation 2 20 [new_operation sample_operation 10] = Inr (completed_sample, [completed_sample])"
  using op_complete_active [OF sample_inv _ _ _ sample_ok(1), of "new_operation sample_operation 10" 2 20]
  by (simp add: sample_operation_def completed_sample_def safe_integer_def new_operation_def sql_update_def
      operation_identity_def CatalogTopologyOperationIdentity.defs)

theorem topology_history_witness:
  "operations_inv [completed_sample] \<and> completed_sample \<in> set [completed_sample]"
  using topology_history [of "[]" "[completed_sample]"] step_begin [OF sample_begin] step_complete [OF sample_complete]
  by (auto intro: converse_rtranclp_into_rtranclp)

theorem topology_completion_permanent_witness:
  "op_abort sample_operation 30 [completed_sample] = Inl (Cdb CDB_STALE_EPOCH) \<and>
   op_begin sample_operation 30 [completed_sample] = Inr (completed_sample, [completed_sample])"
  using topology_completion_permanent [OF sample_inv sample_complete, of "[completed_sample]" 30]
  by (simp add: safe_integer_def)

theorem topology_lease_exclusive_witness:
  "op_begin other_operation 20 [new_operation sample_operation 10] = Inl (Cdb CDB_STALE_EPOCH)"
  using topology_lease_exclusive [OF _ _ _ sample_ok(2), of "new_operation sample_operation 10" "[new_operation sample_operation 10]" 20]
  by (simp add: other_operation_def sample_operation_def new_operation_def safe_integer_def
      CATALOG_TOPOLOGY_OPERATION_HISTORY_LIMIT_def VSHARD_COUNT_def CatalogTopologyOperationIdentity.defs)

end
