(* ===== verification/Organization_Deletion.thy ===== *)
theory Organization_Deletion
  imports Store Vshard "HOL-Library.Char_ord" "HOL-Library.List_Lexorder"
begin

text \<open>
  The Catalog's organization-deletion ledger, \<^verbatim>\<open>src/src/server/do/catalog-organization-deletion-store.ts\<close>:
  a permanent tombstone per deleted organization, with retryable cleanup work per shard. No statement
  deletes from \<open>catalog_organization_deletions\<close>, so the rowid of a row is its position plus one.
  The sums \<open>nowMs + delay\<close> are exact (they stay below \<open>2 ^ 53\<close> for any clock before the year 287000).
\<close>

section \<open>Data\<close>

datatype deletion_status = Del_pending | Del_complete

record CatalogOrganizationDeletion =
  del_organizationId :: string
  del_vshard :: int
  del_status :: deletion_status
  del_attempts :: int
  del_nextAttemptAt :: int
  del_createdAt :: int
  del_completedAt :: "int option"
  del_lastError :: "string option"

record StoredDeletionShard =
  sh_organizationId :: string
  sh_shardId :: string
  sh_status :: deletion_status
  sh_attempts :: int
  sh_nextAttemptAt :: int
  sh_createdAt :: int
  sh_completedAt :: "int option"
  sh_lastError :: "string option"

text \<open>The projection of a shard row joined with its deletion.\<close>

record CatalogOrganizationDeletionShard = StoredDeletionShard +
  sh_vshard :: int

record deletion_tables =
  deletions :: "CatalogOrganizationDeletion list"
  deletion_shards :: "StoredDeletionShard list"

definition CATALOG_ORGANIZATION_DELETION_BATCH_SIZE :: int where "CATALOG_ORGANIZATION_DELETION_BATCH_SIZE = 16"
definition CATALOG_ORGANIZATION_DELETION_SHARD_BATCH_SIZE :: int where "CATALOG_ORGANIZATION_DELETION_SHARD_BATCH_SIZE = 32"
definition CATALOG_ORGANIZATION_DELETION_RETRY_INITIAL_MS :: int where "CATALOG_ORGANIZATION_DELETION_RETRY_INITIAL_MS = 1000"
definition CATALOG_ORGANIZATION_DELETION_RETRY_MAX_MS :: int where "CATALOG_ORGANIZATION_DELETION_RETRY_MAX_MS = 60000"

definition status_check :: "deletion_status \<Rightarrow> int \<Rightarrow> int \<Rightarrow> int \<Rightarrow> int option \<Rightarrow> bool" where
  "status_check status attempts next created completed \<longleftrightarrow> 0 \<le> attempts \<and> 0 \<le> next \<and> 0 \<le> created \<and>
     (status = Del_pending \<and> completed = None \<or> status = Del_complete \<and> completed \<noteq> None)"

definition deletion_check :: "CatalogOrganizationDeletion \<Rightarrow> bool" where
  "deletion_check r \<longleftrightarrow> 0 \<le> del_vshard r \<and> del_vshard r < 16384 \<and>
     status_check (del_status r) (del_attempts r) (del_nextAttemptAt r) (del_createdAt r) (del_completedAt r)"

definition shard_check :: "StoredDeletionShard \<Rightarrow> bool" where
  "shard_check r \<longleftrightarrow> status_check (sh_status r) (sh_attempts r) (sh_nextAttemptAt r) (sh_createdAt r) (sh_completedAt r)"

definition shard_key :: "StoredDeletionShard \<Rightarrow> string \<times> string" where
  "shard_key r = (sh_organizationId r, sh_shardId r)"

text \<open>\<open>INSERT OR IGNORE\<close>.\<close>

definition sql_insert_ignore :: "('r \<Rightarrow> 'k) \<Rightarrow> ('r \<Rightarrow> bool) \<Rightarrow> 'r \<Rightarrow> 'r list \<Rightarrow> 'r list" where
  "sql_insert_ignore key check r t = (if (\<exists>s \<in> set t. key s = key r) \<or> \<not> check r then t else t @ [r])"

section \<open>Reads\<close>

abbreviation del_invalid :: js_error where "del_invalid \<equiv> Cdb CDB_INVALID_ARGS"

definition bounded_id :: "string \<Rightarrow> unit res" where
  "bounded_id s = ensure (s \<noteq> [] \<and> length (utf8 s) \<le> 256) del_invalid"

definition safeTime :: "int \<Rightarrow> unit res" where
  "safeTime t = ensure (safe_integer t \<and> 0 \<le> t) del_invalid"

definition del_read :: "string \<Rightarrow> deletion_tables \<Rightarrow> CatalogOrganizationDeletion option res" where
  "del_read org s = rbind (bounded_id org) (\<lambda>_. Inr (sql_one (\<lambda>r. del_organizationId r = org) (deletions s)))"

definition del_require :: "string \<Rightarrow> deletion_tables \<Rightarrow> CatalogOrganizationDeletion res" where
  "del_require org s = rbind (del_read org s) (\<lambda>r. case r of None \<Rightarrow> Inl del_invalid | Some r \<Rightarrow> Inr r)"

definition isDeleted :: "string \<Rightarrow> deletion_tables \<Rightarrow> bool res" where
  "isDeleted org s = rbind (bounded_id org) (\<lambda>_. Inr (sql_one (\<lambda>r. del_organizationId r = org) (deletions s) \<noteq> None))"

text \<open>The inner join of a shard row with its deletion.\<close>

definition join_shard :: "deletion_tables \<Rightarrow> StoredDeletionShard \<Rightarrow> CatalogOrganizationDeletionShard option" where
  "join_shard s r = map_option
     (\<lambda>d. StoredDeletionShard.extend r \<lparr> sh_vshard = del_vshard d \<rparr>)
     (sql_one (\<lambda>d. del_organizationId d = sh_organizationId r) (deletions s))"

definition requireShard :: "string \<Rightarrow> string \<Rightarrow> deletion_tables \<Rightarrow> CatalogOrganizationDeletionShard res" where
  "requireShard org shard s =
     (case sql_one (\<lambda>r. shard_key r = (org, shard) \<and> join_shard s r \<noteq> None) (deletion_shards s) of
        None \<Rightarrow> Inl del_invalid
      | Some r \<Rightarrow> (case join_shard s r of None \<Rightarrow> Inl del_invalid | Some j \<Rightarrow> Inr j))"

definition shards :: "string \<Rightarrow> deletion_tables \<Rightarrow> CatalogOrganizationDeletionShard list res" where
  "shards org s = rbind (bounded_id org) (\<lambda>_. Inr (sort_key sh_shardId
     (List.map_filter (join_shard s) (filter (\<lambda>r. sh_organizationId r = org) (deletion_shards s)))))"

text \<open>The deletions without an inventory, and the open shard work: what the two queues draw from.\<close>

definition uninventoried :: "deletion_tables \<Rightarrow> CatalogOrganizationDeletion list" where
  "uninventoried s = filter (\<lambda>d. del_status d = Del_pending \<and>
     \<not> (\<exists>r \<in> set (deletion_shards s). sh_organizationId r = del_organizationId d)) (deletions s)"

definition open_shards :: "deletion_tables \<Rightarrow> StoredDeletionShard list" where
  "open_shards s = filter (\<lambda>r. sh_status r = Del_pending \<and>
     (\<exists>d \<in> set (deletions s). del_organizationId d = sh_organizationId r \<and> del_status d = Del_pending)) (deletion_shards s)"

definition due :: "int \<Rightarrow> int \<Rightarrow> deletion_tables \<Rightarrow> CatalogOrganizationDeletion list res" where
  "due now limit s =
     rbind (safeTime now) (\<lambda>_.
     rbind (ensure (safe_integer limit \<and> 1 \<le> limit \<and> limit \<le> CATALOG_ORGANIZATION_DELETION_BATCH_SIZE) del_invalid) (\<lambda>_.
     Inr (take (nat limit) (sort_key del_nextAttemptAt (sort_key del_organizationId
       (filter (\<lambda>d. del_nextAttemptAt d \<le> now) (uninventoried s)))))))"

definition dueShards :: "int \<Rightarrow> int \<Rightarrow> deletion_tables \<Rightarrow> CatalogOrganizationDeletionShard list res" where
  "dueShards now limit s =
     rbind (safeTime now) (\<lambda>_.
     rbind (ensure (safe_integer limit \<and> 1 \<le> limit \<and> limit \<le> CATALOG_ORGANIZATION_DELETION_SHARD_BATCH_SIZE) del_invalid) (\<lambda>_.
     Inr (take (nat limit) (sort_key sh_nextAttemptAt (sort_key sh_shardId (sort_key sh_organizationId
       (List.map_filter (join_shard s) (filter (\<lambda>r. sh_nextAttemptAt r \<le> now) (open_shards s)))))))))"

definition nextPendingAt :: "deletion_tables \<Rightarrow> int option" where
  "nextPendingAt s =
     (case map del_nextAttemptAt (uninventoried s) @ map sh_nextAttemptAt (open_shards s) of
        [] \<Rightarrow> None | t # ts \<Rightarrow> Some (fold min ts t))"

section \<open>Writes\<close>

definition new_deletion :: "string \<Rightarrow> int \<Rightarrow> int \<Rightarrow> CatalogOrganizationDeletion" where
  "new_deletion org v now = \<lparr> del_organizationId = org, del_vshard = v, del_status = Del_pending, del_attempts = 0,
     del_nextAttemptAt = now, del_createdAt = now, del_completedAt = None, del_lastError = None \<rparr>"

definition del_record :: "string \<Rightarrow> int \<Rightarrow> int \<Rightarrow> deletion_tables \<Rightarrow> (CatalogOrganizationDeletion \<times> deletion_tables) res" where
  "del_record org v now s =
     rbind (bounded_id org) (\<lambda>_.
     rbind (safeTime now) (\<lambda>_.
     rbind (ensure (safe_integer v \<and> 0 \<le> v \<and> v < 16384) del_invalid) (\<lambda>_.
     let s' = s\<lparr>deletions := sql_insert_ignore del_organizationId deletion_check (new_deletion org v now) (deletions s)\<rparr> in
     rbind (del_require org s') (\<lambda>r. Inr (r, s')))))"

definition new_shard :: "string \<Rightarrow> string \<Rightarrow> int \<Rightarrow> StoredDeletionShard" where
  "new_shard org shard now = \<lparr> sh_organizationId = org, sh_shardId = shard, sh_status = Del_pending, sh_attempts = 0,
     sh_nextAttemptAt = now, sh_createdAt = now, sh_completedAt = None, sh_lastError = None \<rparr>"

definition recordShards :: "string \<Rightarrow> string list \<Rightarrow> int \<Rightarrow> deletion_tables \<Rightarrow>
    (CatalogOrganizationDeletionShard list \<times> deletion_tables) res" where
  "recordShards org shardIds now s =
     rbind (bounded_id org) (\<lambda>_.
     rbind (safeTime now) (\<lambda>_.
     rbind (rmap bounded_id shardIds) (\<lambda>_.
     let uniqueShardIds = sort (remdups shardIds) in
     rbind (ensure (uniqueShardIds \<noteq> []) del_invalid) (\<lambda>_.
     rbind (del_require org s) (\<lambda>deletion.
     let s' = (if del_status deletion = Del_complete then s
               else s\<lparr>deletion_shards := fold (\<lambda>shard. sql_insert_ignore shard_key shard_check (new_shard org shard now))
                      uniqueShardIds (deletion_shards s)\<rparr>) in
     rbind (shards org s') (\<lambda>rows. Inr (rows, s')))))))"

definition pending_deletion :: "string \<Rightarrow> CatalogOrganizationDeletion \<Rightarrow> bool" where
  "pending_deletion org r \<longleftrightarrow> del_organizationId r = org \<and> del_status r = Del_pending"

definition pending_shard :: "string \<Rightarrow> string \<Rightarrow> StoredDeletionShard \<Rightarrow> bool" where
  "pending_shard org shard r \<longleftrightarrow> shard_key r = (org, shard) \<and> sh_status r = Del_pending"

definition update_deletion :: "string \<Rightarrow> (CatalogOrganizationDeletion \<Rightarrow> CatalogOrganizationDeletion) \<Rightarrow> deletion_tables \<Rightarrow>
    deletion_tables res" where
  "update_deletion org f s = rbind (sql_update_checked deletion_check (pending_deletion org) f (deletions s)) (\<lambda>t.
     Inr (s\<lparr>deletions := t\<rparr>))"

definition update_shard :: "string \<Rightarrow> string \<Rightarrow> (StoredDeletionShard \<Rightarrow> StoredDeletionShard) \<Rightarrow> deletion_tables \<Rightarrow>
    deletion_tables res" where
  "update_shard org shard f s = rbind (sql_update_checked shard_check (pending_shard org shard) f (deletion_shards s)) (\<lambda>t.
     Inr (s\<lparr>deletion_shards := t\<rparr>))"

definition complete_row :: "int \<Rightarrow> CatalogOrganizationDeletion \<Rightarrow> CatalogOrganizationDeletion" where
  "complete_row now r = r\<lparr>del_status := Del_complete, del_completedAt := Some now, del_nextAttemptAt := now, del_lastError := None\<rparr>"

definition del_complete :: "string \<Rightarrow> int \<Rightarrow> deletion_tables \<Rightarrow> (CatalogOrganizationDeletion \<times> deletion_tables) res" where
  "del_complete org now s =
     rbind (bounded_id org) (\<lambda>_.
     rbind (safeTime now) (\<lambda>_.
     rbind (del_require org s) (\<lambda>current.
     if del_status current = Del_complete then Inr (current, s)
     else rbind (update_deletion org (complete_row now) s) (\<lambda>s'.
          rbind (del_require org s') (\<lambda>r. Inr (r, s'))))))"

definition completeShard :: "string \<Rightarrow> string \<Rightarrow> int \<Rightarrow> deletion_tables \<Rightarrow>
    (CatalogOrganizationDeletionShard \<times> deletion_tables) res" where
  "completeShard org shard now s =
     rbind (bounded_id org) (\<lambda>_.
     rbind (bounded_id shard) (\<lambda>_.
     rbind (safeTime now) (\<lambda>_.
     rbind (requireShard org shard s) (\<lambda>_.
     rbind (update_shard org shard (\<lambda>r. r\<lparr>sh_status := Del_complete, sh_completedAt := Some now,
       sh_nextAttemptAt := now, sh_lastError := None\<rparr>) s) (\<lambda>s1.
     let remaining = sql_one (\<lambda>r. sh_organizationId r = org \<and> sh_status r = Del_pending) (deletion_shards s1) in
     rbind (if remaining = None then rbind (del_complete org now s1) (\<lambda>(_, s2). Inr s2) else Inr s1) (\<lambda>s2.
     rbind (requireShard org shard s2) (\<lambda>r. Inr (r, s2))))))))"

definition retry_attempts :: "int \<Rightarrow> int" where
  "retry_attempts a = min (a + 1) 31"

definition retry_delay :: "int \<Rightarrow> int" where
  "retry_delay attempts = min CATALOG_ORGANIZATION_DELETION_RETRY_MAX_MS
     (CATALOG_ORGANIZATION_DELETION_RETRY_INITIAL_MS * 2 ^ nat (min (attempts - 1) 16))"

definition deferShard :: "string \<Rightarrow> string \<Rightarrow> int \<Rightarrow> string option \<Rightarrow> deletion_tables \<Rightarrow>
    (CatalogOrganizationDeletionShard \<times> deletion_tables) res" where
  "deferShard org shard now err s =
     rbind (bounded_id org) (\<lambda>_.
     rbind (bounded_id shard) (\<lambda>_.
     rbind (safeTime now) (\<lambda>_.
     rbind (requireShard org shard s) (\<lambda>current.
     if sh_status current = Del_complete then Inr (current, s)
     else
       let attempts = retry_attempts (sh_attempts current) in
       rbind (update_shard org shard (\<lambda>r. r\<lparr>sh_attempts := attempts, sh_nextAttemptAt := now + retry_delay attempts,
         sh_lastError := map_option (take 512) err\<rparr>) s) (\<lambda>s'.
       rbind (requireShard org shard s') (\<lambda>r. Inr (r, s')))))))"

definition del_defer :: "string \<Rightarrow> int \<Rightarrow> string option \<Rightarrow> deletion_tables \<Rightarrow>
    (CatalogOrganizationDeletion \<times> deletion_tables) res" where
  "del_defer org now err s =
     rbind (bounded_id org) (\<lambda>_.
     rbind (safeTime now) (\<lambda>_.
     rbind (del_require org s) (\<lambda>current.
     if del_status current = Del_complete then Inr (current, s)
     else
       let attempts = retry_attempts (del_attempts current) in
       rbind (update_deletion org (\<lambda>r. r\<lparr>del_attempts := attempts, del_nextAttemptAt := now + retry_delay attempts,
         del_lastError := map_option (take 512) err\<rparr>) s) (\<lambda>s'.
       rbind (del_require org s') (\<lambda>r. Inr (r, s'))))))"

definition deferUntil :: "string \<Rightarrow> int \<Rightarrow> int \<Rightarrow> deletion_tables \<Rightarrow> (CatalogOrganizationDeletion \<times> deletion_tables) res" where
  "deferUntil org now deadline s =
     rbind (bounded_id org) (\<lambda>_.
     rbind (safeTime now) (\<lambda>_.
     rbind (safeTime deadline) (\<lambda>_.
     rbind (ensure (now < deadline) del_invalid) (\<lambda>_.
     rbind (del_require org s) (\<lambda>current.
     if del_status current = Del_complete then Inr (current, s)
     else rbind (update_deletion org (\<lambda>r. r\<lparr>del_nextAttemptAt := deadline, del_lastError := None\<rparr>) s) (\<lambda>s'.
          rbind (del_require org s') (\<lambda>r. Inr (r, s'))))))))"

inductive deletion_step :: "deletion_tables \<Rightarrow> deletion_tables \<Rightarrow> bool" where
  step_record: "del_record org v now s = Inr (r, s') \<Longrightarrow> deletion_step s s'"
| step_recordShards: "recordShards org ids now s = Inr (rs, s') \<Longrightarrow> deletion_step s s'"
| step_completeShard: "completeShard org shard now s = Inr (j, s') \<Longrightarrow> deletion_step s s'"
| step_deferShard: "deferShard org shard now err s = Inr (j, s') \<Longrightarrow> deletion_step s s'"
| step_defer: "del_defer org now err s = Inr (r, s') \<Longrightarrow> deletion_step s s'"
| step_deferUntil: "deferUntil org now deadline s = Inr (r, s') \<Longrightarrow> deletion_step s s'"
| step_complete: "del_complete org now s = Inr (r, s') \<Longrightarrow> deletion_step s s'"

section \<open>The ledger\<close>

definition deletion_identity :: "CatalogOrganizationDeletion \<Rightarrow> string \<times> int \<times> int" where
  "deletion_identity d = (del_organizationId d, del_vshard d, del_createdAt d)"

definition deletion_done :: "CatalogOrganizationDeletion \<Rightarrow> bool" where
  "deletion_done d \<longleftrightarrow> del_status d = Del_complete"

definition deletion_rank :: "CatalogOrganizationDeletion \<Rightarrow> nat" where
  "deletion_rank d = (if deletion_done d then 1 else 0)"

definition ledger_inv :: "CatalogOrganizationDeletion list \<Rightarrow> bool" where
  "ledger_inv ds \<longleftrightarrow> distinct (map del_organizationId ds) \<and> (\<forall>d \<in> set ds. deletion_check d)"

definition ledger_step :: "CatalogOrganizationDeletion list \<Rightarrow> CatalogOrganizationDeletion list \<Rightarrow> bool" where
  "ledger_step ds ds' \<longleftrightarrow> (\<exists>s s'. deletion_step s s' \<and> deletions s = ds \<and> deletions s' = ds')"

text \<open>What a call does to the ledger: nothing, one new pending row, or an update of one pending row.\<close>

inductive ledger_change :: "CatalogOrganizationDeletion list \<Rightarrow> CatalogOrganizationDeletion list \<Rightarrow> bool" where
  ledger_same: "ledger_change ds ds"
| ledger_insert: "ledger_change ds (sql_insert_ignore del_organizationId deletion_check n ds)"
| ledger_update: "(\<And>d. deletion_identity (f d) = deletion_identity d) \<Longrightarrow>
    (\<And>d. d \<in> set ds \<Longrightarrow> pending_deletion org d \<Longrightarrow> deletion_check (f d)) \<Longrightarrow>
    ledger_change ds (sql_update (pending_deletion org) f ds)"

lemma ledger_change_write:
  assumes "update_deletion org f s = Inr s'" and "\<And>d. deletion_identity (f d) = deletion_identity d"
  shows "ledger_change (deletions s) (deletions s')"
  using assms by (auto simp: update_deletion_def result_simps intro!: ledger_update)

lemma update_shard_deletions: "update_shard org shard f s = Inr s' \<Longrightarrow> deletions s' = deletions s"
  by (auto simp: update_shard_def result_simps)

lemma ledger_change_guarded:
  assumes "s' = s \<or> update_deletion org f s = Inr s'" and "\<And>d. deletion_identity (f d) = deletion_identity d"
  shows "ledger_change (deletions s) (deletions s')"
  using assms ledger_same ledger_change_write by metis

lemma del_complete_change:
  assumes "del_complete org now s = Inr (r, s')"
  shows "ledger_change (deletions s) (deletions s')"
proof -
  have "s' = s \<or> update_deletion org (complete_row now) s = Inr s'"
    using assms by (auto simp: del_complete_def rbind_eq_Inr split: if_splits)
  then show ?thesis by (rule ledger_change_guarded) (simp add: complete_row_def deletion_identity_def)
qed

lemma deletion_step_change:
  assumes "deletion_step s s'"
  shows "ledger_change (deletions s) (deletions s')"
  using assms
proof cases
  case (step_record org v now r)
  then show ?thesis by (auto simp: del_record_def rbind_eq_Inr Let_def intro: ledger_insert)
next
  case (step_recordShards org ids now rs)
  then show ?thesis by (auto simp: recordShards_def rbind_eq_Inr Let_def intro: ledger_same split: if_splits)
next
  case (step_completeShard org shard now j)
  then obtain s1 where s1: "deletions s1 = deletions s" and
    "(if sql_one (\<lambda>r. sh_organizationId r = org \<and> sh_status r = Del_pending) (deletion_shards s1) = None
      then rbind (del_complete org now s1) (\<lambda>(_, s2). Inr s2) else Inr s1) = Inr s'"
    by (auto simp: completeShard_def rbind_eq_Inr Let_def dest: update_shard_deletions)
  then show ?thesis using del_complete_change [of org now s1 _ s'] ledger_same [of "deletions s"]
    by (auto simp: rbind_eq_Inr split: if_splits)
next
  case (step_deferShard org shard now err j)
  then have "deletions s' = deletions s"
    by (auto simp: deferShard_def rbind_eq_Inr Let_def dest!: update_shard_deletions split: if_splits)
  then show ?thesis by (simp add: ledger_same)
next
  case (step_defer org now err r)
  then have "s' = s \<or> (\<exists>a. update_deletion org (\<lambda>r. r\<lparr>del_attempts := retry_attempts a,
      del_nextAttemptAt := now + retry_delay (retry_attempts a), del_lastError := map_option (take 512) err\<rparr>) s = Inr s')"
    by (auto simp: del_defer_def rbind_eq_Inr Let_def split: if_splits)
  then show ?thesis by (elim disjE exE) (auto intro!: ledger_same elim!: ledger_change_write simp: deletion_identity_def)
next
  case (step_deferUntil org now deadline r)
  then have "s' = s \<or> update_deletion org (\<lambda>r. r\<lparr>del_nextAttemptAt := deadline, del_lastError := None\<rparr>) s = Inr s'"
    by (auto simp: deferUntil_def rbind_eq_Inr split: if_splits)
  then show ?thesis by (rule ledger_change_guarded) (simp add: deletion_identity_def)
next
  case (step_complete org now r)
  then show ?thesis by (rule del_complete_change)
qed

lemma ledger_change_inv:
  assumes "ledger_change ds ds'" and "ledger_inv ds"
  shows "ledger_inv ds'"
  using assms(1)
proof cases
  case ledger_same
  then show ?thesis using assms(2) by simp
next
  case (ledger_insert n)
  then show ?thesis using assms(2) by (auto simp: ledger_inv_def sql_insert_ignore_def image_iff)
next
  case (ledger_update f org)
  then have "distinct (map del_organizationId ds')"
    using assms(2) by (auto simp: ledger_inv_def deletion_identity_def intro!: distinct_keys_sql_update)
  then show ?thesis using ledger_update assms(2) by (auto simp: ledger_inv_def table_simps)
qed

lemma ledger_change_row:
  assumes "ledger_change ds ds'" and "d \<in> set ds"
  shows "\<exists>d' \<in> set ds'. deletion_identity d' = deletion_identity d \<and> (deletion_done d \<longrightarrow> d' = d)"
  using assms(1)
proof cases
  case (ledger_update f org)
  then show ?thesis using row_after_update [OF assms(2), of "pending_deletion org" f]
    by (intro bexI [of _ "if pending_deletion org d then f d else d"])
      (auto simp: deletion_done_def pending_deletion_def)
qed (use assms(2) in \<open>auto simp: sql_insert_ignore_def\<close>)

interpretation ledger: tombstone_store deletion_identity deletion_rank ledger_inv ledger_step deletion_done
proof
  show "ledger_inv []" by (simp add: ledger_inv_def)
next
  fix ds ds' d assume inv: "ledger_inv ds" and "ledger_step ds ds'"
  then have ch: "ledger_change ds ds'" using deletion_step_change by (auto simp: ledger_step_def)
  show "ledger_inv ds'" using ch inv by (rule ledger_change_inv)
  assume d: "d \<in> set ds"
  obtain d' where d': "d' \<in> set ds'" "deletion_identity d' = deletion_identity d" "deletion_done d \<longrightarrow> d' = d"
    using ledger_change_row [OF ch d] by blast
  show "\<exists>d' \<in> set ds'. deletion_identity d' = deletion_identity d \<and> deletion_rank d \<le> deletion_rank d'"
    using d' by (intro bexI [of _ d']) (auto simp: deletion_rank_def)
  show "deletion_done d \<Longrightarrow> d \<in> set ds'" using d' by auto
qed

lemma deletion_steps_ledger: "deletion_step\<^sup>*\<^sup>* s s' \<Longrightarrow> ledger_step\<^sup>*\<^sup>* (deletions s) (deletions s')"
proof (induction rule: rtranclp_induct)
  case (step t u)
  then have "ledger_step (deletions t) (deletions u)" unfolding ledger_step_def by blast
  then show ?case using step.IH by (rule rtranclp.rtrancl_into_rtrancl [rotated])
qed simp

section \<open>Queues and the alarm\<close>

lemma fold_min_le: "fold min ts t \<le> now \<longleftrightarrow> (\<exists>x \<in> set (t # ts). x \<le> now)" for t now :: int
  by (induction ts arbitrary: t) (auto simp: min_le_iff_disj)

lemma nextPendingAt_due:
  "(\<exists>t. nextPendingAt s = Some t \<and> t \<le> now) \<longleftrightarrow>
     (\<exists>d \<in> set (uninventoried s). del_nextAttemptAt d \<le> now) \<or> (\<exists>r \<in> set (open_shards s). sh_nextAttemptAt r \<le> now)"
proof -
  have "set (map del_nextAttemptAt (uninventoried s) @ map sh_nextAttemptAt (open_shards s)) =
    del_nextAttemptAt ` set (uninventoried s) \<union> sh_nextAttemptAt ` set (open_shards s)" by auto
  then show ?thesis
    by (cases "map del_nextAttemptAt (uninventoried s) @ map sh_nextAttemptAt (open_shards s)")
      (simp_all only: nextPendingAt_def list.case option.inject fold_min_le, auto simp: fold_min_le)
qed

lemma sort_key_empty: "sort_key f xs = [] \<longleftrightarrow> xs = []"
  by (metis length_sort length_0_conv)

lemma open_shard_joins:
  assumes "r \<in> set (open_shards s)"
  shows "\<exists>j. join_shard s r = Some j"
proof -
  have "sql_one (\<lambda>d. del_organizationId d = sh_organizationId r) (deletions s) \<noteq> None"
    using assms unfolding sql_one_None_iff open_shards_def by auto
  then show ?thesis by (auto simp: join_shard_def)
qed

lemma map_filter_empty: "List.map_filter f xs = [] \<longleftrightarrow> (\<forall>x \<in> set xs. f x = None)"
  by (induction xs) (auto simp: map_filter_simps split: option.splits)

lemma due_empty:
  assumes "safe_integer now" and "0 \<le> now"
  shows "due now CATALOG_ORGANIZATION_DELETION_BATCH_SIZE s = Inr [] \<longleftrightarrow> (\<forall>d \<in> set (uninventoried s). now < del_nextAttemptAt d)"
  using assms
  by (auto simp: due_def safeTime_def sort_key_empty CATALOG_ORGANIZATION_DELETION_BATCH_SIZE_def safe_integer_def
      filter_empty_conv not_le)

lemma dueShards_empty:
  assumes "safe_integer now" and "0 \<le> now"
  shows "dueShards now CATALOG_ORGANIZATION_DELETION_SHARD_BATCH_SIZE s = Inr [] \<longleftrightarrow>
    (\<forall>r \<in> set (open_shards s). now < sh_nextAttemptAt r)"
proof -
  have "List.map_filter (join_shard s) (filter (\<lambda>r. sh_nextAttemptAt r \<le> now) (open_shards s)) = [] \<longleftrightarrow>
    (\<forall>r \<in> set (open_shards s). now < sh_nextAttemptAt r)"
    unfolding map_filter_empty using open_shard_joins by (fastforce simp: not_le)
  then show ?thesis using assms
    by (simp add: dueShards_def safeTime_def sort_key_empty CATALOG_ORGANIZATION_DELETION_SHARD_BATCH_SIZE_def safe_integer_def)
qed

section \<open>Cleanup of the shards\<close>

definition shard_row_ok :: "CatalogOrganizationDeletion list \<Rightarrow> StoredDeletionShard \<Rightarrow> bool" where
  "shard_row_ok ds r \<longleftrightarrow> shard_check r \<and> bounded_id (sh_organizationId r) = Inr () \<and> bounded_id (sh_shardId r) = Inr () \<and>
     (\<exists>d \<in> set ds. del_organizationId d = sh_organizationId r)"

definition deletion_inv :: "deletion_tables \<Rightarrow> bool" where
  "deletion_inv s \<longleftrightarrow> ledger_inv (deletions s) \<and> distinct (map shard_key (deletion_shards s)) \<and>
     (\<forall>r \<in> set (deletion_shards s). shard_row_ok (deletions s) r)"

lemma join_shard_inv:
  assumes "deletion_inv s" and "r \<in> set (deletion_shards s)"
  obtains j where "join_shard s r = Some j" and "StoredDeletionShard.truncate j = r"
proof -
  have "sql_one (\<lambda>d. del_organizationId d = sh_organizationId r) (deletions s) \<noteq> None"
    using assms unfolding sql_one_None_iff deletion_inv_def shard_row_ok_def by auto
  then show ?thesis using that by (auto simp: join_shard_def StoredDeletionShard.defs)
qed

lemma requireShard_inv:
  assumes "deletion_inv s" and "r \<in> set (deletion_shards s)" and "shard_key r = (org, shard)"
  obtains j where "requireShard org shard s = Inr j" and "StoredDeletionShard.truncate j = r"
proof -
  obtain j where j: "join_shard s r = Some j" "StoredDeletionShard.truncate j = r"
    using assms(1,2) by (rule join_shard_inv)
  have "sql_one (\<lambda>q. shard_key q = (org, shard)) (deletion_shards s) = Some r"
    using assms sql_one_unique [of shard_key "deletion_shards s" r] by (simp add: deletion_inv_def)
  moreover have "sql_one (\<lambda>q. shard_key q = (org, shard) \<and> join_shard s q \<noteq> None) (deletion_shards s) =
      sql_one (\<lambda>q. shard_key q = (org, shard)) (deletion_shards s)"
    unfolding sql_one_def using join_shard_inv [OF assms(1)] by (intro find_cong) auto
  ultimately show ?thesis using j that by (simp add: requireShard_def)
qed

lemma del_require_inv:
  assumes "ledger_inv (deletions s)" and "d \<in> set (deletions s)" and "del_organizationId d = org" and "bounded_id org = Inr ()"
  shows "del_require org s = Inr d"
  using sql_one_unique [of del_organizationId "deletions s" d] assms by (simp add: del_require_def del_read_def ledger_inv_def)

definition complete_ledger :: "string \<Rightarrow> int \<Rightarrow> deletion_tables \<Rightarrow> deletion_tables" where
  "complete_ledger org now s = s\<lparr>deletions := sql_update (pending_deletion org) (complete_row now) (deletions s)\<rparr>"

lemma complete_row_simps [simp]:
  "del_organizationId (complete_row now d) = del_organizationId d" "del_status (complete_row now d) = Del_complete"
  "deletion_done (complete_row now d)" "deletion_identity (complete_row now d) = deletion_identity d"
  by (simp_all add: complete_row_def deletion_done_def deletion_identity_def)

lemma complete_row_check: "deletion_check d \<Longrightarrow> 0 \<le> now \<Longrightarrow> deletion_check (complete_row now d)"
  by (auto simp: deletion_check_def status_check_def complete_row_def)

lemma complete_ledger_change:
  assumes "ledger_inv (deletions s)" and "0 \<le> now"
  shows "ledger_change (deletions s) (deletions (complete_ledger org now s))"
  unfolding complete_ledger_def using assms by (auto simp: ledger_inv_def complete_row_check intro!: ledger_update)

lemma del_complete_run:
  assumes "ledger_inv (deletions s)" and "d \<in> set (deletions s)" and "del_organizationId d = org" and "bounded_id org = Inr ()"
    and "safe_integer now" and "0 \<le> now"
  shows "\<exists>d'. del_complete org now s = Inr (d', complete_ledger org now s)"
proof (cases "del_status d")
  case Del_pending
  have upd: "update_deletion org (complete_row now) s = Inr (complete_ledger org now s)"
    using assms(1,6) by (auto simp: update_deletion_def sql_update_checked_def complete_ledger_def ledger_inv_def complete_row_check)
  have inv: "ledger_inv (deletions (complete_ledger org now s))"
    using complete_ledger_change [OF assms(1,6)] assms(1) by (rule ledger_change_inv)
  have "complete_row now d \<in> set (deletions (complete_ledger org now s))"
    using row_after_update [OF assms(2), of "pending_deletion org" "complete_row now"] Del_pending assms(3)
    by (simp add: complete_ledger_def pending_deletion_def)
  then have "del_require org (complete_ledger org now s) = Inr (complete_row now d)"
    using del_require_inv [OF inv] assms(3,4) by simp
  then show ?thesis using upd Del_pending del_require_inv [OF assms(1-4)] assms(4-)
    by (simp add: del_complete_def safeTime_def)
next
  case Del_complete
  have "\<not> pending_deletion org d'" if "d' \<in> set (deletions s)" for d'
  proof
    assume pd: "pending_deletion org d'"
    have "d' = d" using assms(1-3) that pd
      by (intro unique_key_row [of del_organizationId "deletions s"]) (simp_all add: ledger_inv_def pending_deletion_def)
    then show False using pd Del_complete by (simp add: pending_deletion_def)
  qed
  then have "complete_ledger org now s = s" by (simp add: complete_ledger_def)
  then show ?thesis using Del_complete del_require_inv [OF assms(1-4)] assms(4-)
    by (simp add: del_complete_def safeTime_def)
qed

subsection \<open>Every operation keeps the invariant\<close>

definition shards_ok :: "CatalogOrganizationDeletion list \<Rightarrow> StoredDeletionShard list \<Rightarrow> bool" where
  "shards_ok ds rs \<longleftrightarrow> distinct (map shard_key rs) \<and> (\<forall>r \<in> set rs. shard_row_ok ds r)"

lemma deletion_inv_iff: "deletion_inv s \<longleftrightarrow> ledger_inv (deletions s) \<and> shards_ok (deletions s) (deletion_shards s)"
  by (simp add: deletion_inv_def shards_ok_def)

lemma shards_ok_ledger:
  assumes "ledger_change ds ds'" and "shards_ok ds rs"
  shows "shards_ok ds' rs"
proof -
  have "shard_row_ok ds' r" if ok: "shard_row_ok ds r" for r
  proof -
    from ok obtain d where d: "d \<in> set ds" "del_organizationId d = sh_organizationId r" by (auto simp: shard_row_ok_def)
    from ledger_change_row [OF assms(1) d(1)] obtain d' where "d' \<in> set ds'" "deletion_identity d' = deletion_identity d"
      by blast
    then have "\<exists>d' \<in> set ds'. del_organizationId d' = sh_organizationId r" using d(2) by (auto simp: deletion_identity_def)
    then show ?thesis using ok by (simp add: shard_row_ok_def)
  qed
  then show ?thesis using assms(2) by (simp add: shards_ok_def)
qed

lemma shards_ok_insert:
  assumes "shards_ok ds rs" and "shard_row_ok ds r"
  shows "shards_ok ds (sql_insert_ignore shard_key shard_check r rs)"
  using assms by (auto simp: shards_ok_def sql_insert_ignore_def image_iff)

lemma shards_ok_fold:
  assumes "shards_ok ds rs" and "\<And>x. x \<in> set xs \<Longrightarrow> shard_row_ok ds (f x)"
  shows "shards_ok ds (fold (\<lambda>x. sql_insert_ignore shard_key shard_check (f x)) xs rs)"
  using assms by (induction xs arbitrary: rs) (auto intro: shards_ok_insert)

lemma shards_ok_update:
  assumes "shards_ok ds (deletion_shards s)" and "update_shard org shard f s = Inr s'" and "\<And>r. shard_key (f r) = shard_key r"
  shows "shards_ok ds (deletion_shards s')"
proof -
  have s': "deletion_shards s' = sql_update (pending_shard org shard) f (deletion_shards s)"
    "\<forall>r \<in> set (deletion_shards s). pending_shard org shard r \<longrightarrow> shard_check (f r)"
    using assms(2) by (auto simp: update_shard_def result_simps)
  have "shard_row_ok ds (f r)" if "shard_row_ok ds r" "shard_check (f r)" for r
    using that assms(3) [of r] by (auto simp: shard_row_ok_def shard_key_def)
  then show ?thesis using assms(1,3) s'(2)
    by (auto simp: shards_ok_def s'(1) table_simps intro: distinct_keys_sql_update)
qed

lemma del_complete_shards: "del_complete org now s = Inr (r, s') \<Longrightarrow> deletion_shards s' = deletion_shards s"
  by (auto simp: del_complete_def update_deletion_def rbind_eq_Inr split: if_splits)

text \<open>The shard table after a call, before the ledger changes.\<close>

lemma deletion_step_shards:
  assumes "deletion_step s s'" and "shards_ok (deletions s) (deletion_shards s)"
  shows "shards_ok (deletions s) (deletion_shards s')"
  using assms(1)
proof cases
  case (step_recordShards org ids now rs)
  have new: "shard_row_ok (deletions s) (new_shard org shard now)"
    if pre: "bounded_id org = Inr ()" "safeTime now = Inr ()" "rmap bounded_id ids = Inr us" "del_require org s = Inr d" "shard \<in> set ids"
    for shard us d
  proof -
    obtain i where "i < length ids" "shard = ids ! i" using pre(5) by (auto simp: in_set_conv_nth)
    then have "bounded_id shard = Inr ()" using rmap_eq_Inr [OF pre(3)] by simp
    moreover have "\<exists>d \<in> set (deletions s). del_organizationId d = org"
      using pre(4) by (auto simp: del_require_def del_read_def result_simps split: option.splits dest: sql_one_SomeD)
    ultimately show ?thesis using pre(1,2)
      by (simp add: shard_row_ok_def new_shard_def shard_check_def status_check_def safeTime_def result_simps)
  qed
  show ?thesis using step_recordShards assms(2) new
    by (auto simp: recordShards_def rbind_eq_Inr ensure_eq_Inr Let_def split: if_splits intro!: shards_ok_fold)
next
  case (step_completeShard org shard now j)
  then obtain s1 where s1: "update_shard org shard (\<lambda>r. r\<lparr>sh_status := Del_complete, sh_completedAt := Some now,
       sh_nextAttemptAt := now, sh_lastError := None\<rparr>) s = Inr s1" and
    "(if sql_one (\<lambda>r. sh_organizationId r = org \<and> sh_status r = Del_pending) (deletion_shards s1) = None
      then rbind (del_complete org now s1) (\<lambda>(_, s2). Inr s2) else Inr s1) = Inr s'"
    by (auto simp: completeShard_def rbind_eq_Inr Let_def)
  then have "deletion_shards s' = deletion_shards s1"
    by (auto simp: rbind_eq_Inr split: if_splits dest: del_complete_shards)
  then show ?thesis using shards_ok_update [OF assms(2) s1] by (simp add: shard_key_def)
next
  case (step_deferShard org shard now err j)
  then have "s' = s \<or> (\<exists>a. update_shard org shard (\<lambda>r. r\<lparr>sh_attempts := retry_attempts a,
      sh_nextAttemptAt := now + retry_delay (retry_attempts a), sh_lastError := map_option (take 512) err\<rparr>) s = Inr s')"
    by (auto simp: deferShard_def rbind_eq_Inr Let_def split: if_splits)
  then show ?thesis using assms(2) shards_ok_update [OF assms(2)] by (elim disjE exE) (auto simp: shard_key_def)
qed (use assms(2) in \<open>auto simp: del_record_def del_defer_def deferUntil_def del_complete_def update_deletion_def
      rbind_eq_Inr Let_def split: if_splits\<close>)

lemma deletion_step_inv: "deletion_inv s \<Longrightarrow> deletion_step s s' \<Longrightarrow> deletion_inv s'"
  unfolding deletion_inv_iff
  using deletion_step_change [of s s'] deletion_step_shards [of s s'] ledger_change_inv shards_ok_ledger by blast

lemma deletion_steps_inv: "deletion_step\<^sup>*\<^sup>* s s' \<Longrightarrow> deletion_inv s \<Longrightarrow> deletion_inv s'"
  by (induction rule: rtranclp_induct) (auto intro: deletion_step_inv)

subsection \<open>Completing the last shard completes the deletion\<close>

definition finish_shard :: "string \<Rightarrow> string \<Rightarrow> int \<Rightarrow> deletion_tables \<Rightarrow> deletion_tables" where
  "finish_shard org shard now s = s\<lparr>deletion_shards := sql_update (pending_shard org shard)
     (\<lambda>r. r\<lparr>sh_status := Del_complete, sh_completedAt := Some now, sh_nextAttemptAt := now, sh_lastError := None\<rparr>) (deletion_shards s)\<rparr>"

definition open_for :: "string \<Rightarrow> deletion_tables \<Rightarrow> string set" where
  "open_for org s = sh_shardId ` {r \<in> set (deletion_shards s). sh_organizationId r = org \<and> sh_status r = Del_pending}"

definition has_shard :: "string \<Rightarrow> string \<Rightarrow> deletion_tables \<Rightarrow> bool" where
  "has_shard org shard s \<longleftrightarrow> (org, shard) \<in> shard_key ` set (deletion_shards s)"

lemma open_rows_update:
  assumes "\<And>r. sh_status (f r) = Del_complete"
  shows "sh_shardId ` {r \<in> set (sql_update (pending_shard org shard) f rs). sh_organizationId r = org \<and> sh_status r = Del_pending} =
    sh_shardId ` {r \<in> set rs. sh_organizationId r = org \<and> sh_status r = Del_pending} - {shard}" (is "?L rs = ?R rs - _")
proof -
  have "x \<in> ?L rs \<longleftrightarrow> x \<in> ?R rs \<and> x \<noteq> shard" for x
    by (induction rs) (auto simp: sql_update_def pending_shard_def shard_key_def assms)
  then show ?thesis by blast
qed

lemma open_for_finish: "open_for org (finish_shard org shard now s) = open_for org s - {shard}"
  by (simp add: open_for_def finish_shard_def open_rows_update)

lemma has_shard_finish: "has_shard org x (finish_shard org' shard now s) \<longleftrightarrow> has_shard org x s"
proof -
  have "map shard_key (deletion_shards (finish_shard org' shard now s)) = map shard_key (deletion_shards s)"
    by (simp add: finish_shard_def sql_update_def shard_key_def)
  then have "shard_key ` set (deletion_shards (finish_shard org' shard now s)) = shard_key ` set (deletion_shards s)"
    by (metis set_map)
  then show ?thesis by (simp add: has_shard_def)
qed

lemma completeShard_run:
  assumes "deletion_inv s" and "has_shard org shard s" and "safe_integer now" and "0 \<le> now"
  defines "s1 \<equiv> finish_shard org shard now s"
  defines "s2 \<equiv> if open_for org s1 = {} then complete_ledger org now s1 else s1"
  obtains j where "completeShard org shard now s = Inr (j, s2)" and "sh_status j = Del_complete"
proof -
  let ?F = "\<lambda>r. r\<lparr>sh_status := Del_complete, sh_completedAt := Some now, sh_nextAttemptAt := now, sh_lastError := None\<rparr>"
  obtain r0 where r0: "r0 \<in> set (deletion_shards s)" "shard_key r0 = (org, shard)" using assms(2) by (auto simp: has_shard_def)
  have "shard_row_ok (deletions s) r0" using assms(1) r0(1) by (simp add: deletion_inv_def)
  then obtain d where ids: "bounded_id org = Inr ()" "bounded_id shard = Inr ()" and d: "d \<in> set (deletions s)" "del_organizationId d = org"
    using r0(2) by (auto simp: shard_row_ok_def shard_key_def)
  have ledger: "ledger_inv (deletions s)" using assms(1) by (simp add: deletion_inv_iff)
  have upd: "update_shard org shard ?F s = Inr s1"
    using assms(1,4)
    by (auto simp: update_shard_def s1_def finish_shard_def sql_update_checked_def deletion_inv_def shard_row_ok_def
        shard_check_def status_check_def)
  have ds: "deletions s1 = deletions s" using upd by (rule update_shard_deletions)
  have inv1: "deletion_inv s1"
    using shards_ok_update [OF _ upd] assms(1) by (simp add: deletion_inv_iff ds shard_key_def)
  have rem: "sql_one (\<lambda>r. sh_organizationId r = org \<and> sh_status r = Del_pending) (deletion_shards s1) = None \<longleftrightarrow> open_for org s1 = {}"
    by (auto simp: sql_one_None_iff open_for_def)
  have com: "\<exists>d'. del_complete org now s1 = Inr (d', complete_ledger org now s1)"
    using d ids ledger assms(3,4) by (intro del_complete_run [of _ d]) (simp_all add: ds)
  have inv2: "deletion_inv s2"
    using deletion_step_inv [OF inv1 step_complete] com inv1 by (auto simp: s2_def)
  define r1 where "r1 = (if pending_shard org shard r0 then ?F r0 else r0)"
  have r1: "r1 \<in> set (deletion_shards s2)" "shard_key r1 = (org, shard)" "sh_status r1 = Del_complete"
  proof -
    show "r1 \<in> set (deletion_shards s2)"
      using row_after_update [OF r0(1), of "pending_shard org shard" ?F]
      by (simp add: s2_def s1_def r1_def finish_shard_def complete_ledger_def split: if_splits)
    show "shard_key r1 = (org, shard)" using r0(2) by (simp add: r1_def shard_key_def)
    show "sh_status r1 = Del_complete" using r0(2) by (cases "sh_status r0") (simp_all add: r1_def pending_shard_def)
  qed
  obtain j where j: "requireShard org shard s2 = Inr j" "StoredDeletionShard.truncate j = r1"
    using inv2 r1(1,2) by (rule requireShard_inv)
  obtain j0 where j0: "requireShard org shard s = Inr j0" using assms(1) r0 by (rule requireShard_inv)
  have body: "rbind (if open_for org s1 = {} then rbind (del_complete org now s1) (\<lambda>(_, s2). Inr s2) else Inr s1) k = k s2" for k
    using com by (auto simp: s2_def)
  have "completeShard org shard now s = Inr (j, s2)"
    using ids assms(3,4) by (simp add: completeShard_def safeTime_def j0 upd Let_def rem body j(1))
  moreover have "sh_status j = Del_complete" using j(2) r1(3) by (auto simp: StoredDeletionShard.defs)
  ultimately show ?thesis by (rule that)
qed

definition complete_each :: "string \<Rightarrow> int \<Rightarrow> string list \<Rightarrow> deletion_tables \<Rightarrow> deletion_tables res" where
  "complete_each org now = rfold (\<lambda>shard s. rbind (completeShard org shard now s) (\<lambda>(_, s'). Inr s'))"

lemma complete_ledger_simps [simp]:
  "deletion_shards (complete_ledger org now s) = deletion_shards s"
  "open_for org' (complete_ledger org now s) = open_for org' s" "has_shard org' x (complete_ledger org now s) = has_shard org' x s"
  by (simp_all add: complete_ledger_def open_for_def has_shard_def)

lemma complete_ledger_done:
  assumes "d \<in> set (deletions (complete_ledger org now s))" and "del_organizationId d = org"
  shows "deletion_done d"
proof -
  have "\<not> pending_deletion org d \<or> deletion_done d" using assms(1) by (auto simp: complete_ledger_def set_sql_update)
  then show ?thesis using assms(2) by (cases "del_status d") (simp_all add: pending_deletion_def deletion_done_def)
qed

section \<open>Properties\<close>

text \<open>
  A deleted organization stays deleted: over any history of the store, every ledger row keeps its
  organization, vshard and creation time, a completed row is never written again, and \<open>isDeleted\<close>
  never goes back to false.
\<close>

theorem deletion_permanent:
  assumes "deletion_step\<^sup>*\<^sup>* \<lparr> deletions = [], deletion_shards = [] \<rparr> s" and "deletion_step\<^sup>*\<^sup>* s s'"
  shows "deletion_inv s' \<and> (\<forall>d \<in> set (deletions s). \<exists>d' \<in> set (deletions s'). deletion_identity d' = deletion_identity d) \<and>
    (\<forall>d \<in> set (deletions s). deletion_done d \<longrightarrow> d \<in> set (deletions s')) \<and>
    (\<forall>org. isDeleted org s = Inr True \<longrightarrow> isDeleted org s' = Inr True)"
proof -
  have inv: "deletion_inv s"
    using deletion_steps_inv [OF assms(1)] by (simp add: deletion_inv_def ledger_inv_def)
  have led: "ledger_inv (deletions s)" using inv by (simp add: deletion_inv_iff)
  note steps = deletion_steps_ledger [OF assms(2)]
  have row: "\<exists>d' \<in> set (deletions s'). deletion_identity d' = deletion_identity d" if "d \<in> set (deletions s)" for d
    using ledger.steps_row [OF steps led that] by blast
  have "isDeleted org s' = Inr True" if del: "isDeleted org s = Inr True" for org
  proof -
    obtain d where d: "d \<in> set (deletions s)" "del_organizationId d = org" and b: "bounded_id org = Inr ()"
      using del by (auto simp: isDeleted_def rbind_eq_Inr dest: sql_one_SomeD)
    then obtain d' where "d' \<in> set (deletions s')" "del_organizationId d' = org"
      using row [OF d(1)] by (auto simp: deletion_identity_def)
    then have "sql_one (\<lambda>r. del_organizationId r = org) (deletions s') \<noteq> None" unfolding sql_one_None_iff by blast
    then show ?thesis using b by (simp add: isDeleted_def)
  qed
  then show ?thesis
    using deletion_steps_inv [OF assms(2) inv] row ledger.steps_final [OF steps led] by blast
qed

text \<open>
  The alarm is exact: the time \<open>nextPendingAt\<close> reports has come if and only if one of the two due
  queues has something to do at that time, so an alarm set to it never misses work and never wakes for none.
\<close>

theorem deletion_alarm_exact:
  assumes "safe_integer now" and "0 \<le> now"
  shows "(\<exists>t. nextPendingAt s = Some t \<and> t \<le> now) \<longleftrightarrow>
    due now CATALOG_ORGANIZATION_DELETION_BATCH_SIZE s \<noteq> Inr [] \<or>
    dueShards now CATALOG_ORGANIZATION_DELETION_SHARD_BATCH_SIZE s \<noteq> Inr []"
  unfolding nextPendingAt_due due_empty [OF assms] dueShards_empty [OF assms] by (auto simp: not_less)

text \<open>
  Cleanup terminates in completion: completing the recorded shards of an organization one after
  another, in any order and with repetitions, succeeds and leaves its deletion complete.
\<close>

theorem deletion_cleanup_completes:
  assumes "deletion_inv s" and "\<forall>x \<in> set ids. has_shard org x s" and "ids \<noteq> []" and "open_for org s \<subseteq> set ids"
    and "safe_integer now" and "0 \<le> now"
  shows "\<exists>s'. complete_each org now ids s = Inr s' \<and> deletion_inv s' \<and>
    (\<forall>d \<in> set (deletions s'). del_organizationId d = org \<longrightarrow> deletion_done d)"
  using assms(1-4)
proof (induction ids arbitrary: s)
  case (Cons x xs)
  let ?s1 = "finish_shard org x now s"
  let ?s2 = "if open_for org ?s1 = {} then complete_ledger org now ?s1 else ?s1"
  obtain j where j: "completeShard org x now s = Inr (j, ?s2)"
    using completeShard_run [OF Cons.prems(1) _ assms(5,6), of org x] Cons.prems(2) by auto
  have inv: "deletion_inv ?s2" using Cons.prems(1) step_completeShard [OF j] by (rule deletion_step_inv)
  have op: "open_for org ?s2 = open_for org s - {x}" and has: "has_shard org y ?s2 \<longleftrightarrow> has_shard org y s" for y
    by (simp_all add: open_for_finish has_shard_finish)
  show ?case
  proof (cases "xs = []")
    case True
    then have "open_for org ?s1 = {}" using Cons.prems(4) by (auto simp: open_for_finish)
    then have "?s2 = complete_ledger org now ?s1" by simp
    then show ?thesis using True j inv complete_ledger_done [of _ org now ?s1]
      by (intro exI [of _ ?s2]) (simp add: complete_each_def)
  next
    case False
    have "\<forall>y \<in> set xs. has_shard org y ?s2" using Cons.prems(2) unfolding has by simp
    moreover have "open_for org ?s2 \<subseteq> set xs" using Cons.prems(4) unfolding op by auto
    ultimately show ?thesis using Cons.IH [OF inv _ False] unfolding complete_each_def by (simp only: rfold.simps j rbind.simps prod.case)
  qed
qed simp

lemma retry_delay_bounds:
  assumes "0 \<le> a"
  shows "1000 \<le> retry_delay (retry_attempts a)" and "retry_delay a' \<le> 60000"
    and "1 \<le> a \<Longrightarrow> retry_delay a \<le> retry_delay (retry_attempts a)"
proof -
  have one: "(1 :: int) \<le> 2 ^ k" for k by simp
  show "1000 \<le> retry_delay (retry_attempts a)" and "retry_delay a' \<le> 60000"
    using one [of "nat (min (retry_attempts a - 1) 16)"]
    by (simp_all add: retry_delay_def CATALOG_ORGANIZATION_DELETION_RETRY_MAX_MS_def CATALOG_ORGANIZATION_DELETION_RETRY_INITIAL_MS_def)
  show "retry_delay a \<le> retry_delay (retry_attempts a)" if "1 \<le> a"
  proof -
    have "nat (min (a - 1) 16) \<le> nat (min (retry_attempts a - 1) 16)" by (auto simp: retry_attempts_def min_def)
    then have "(2 :: int) ^ nat (min (a - 1) 16) \<le> 2 ^ nat (min (retry_attempts a - 1) 16)" by (intro power_increasing) auto
    then show ?thesis by (simp add: retry_delay_def CATALOG_ORGANIZATION_DELETION_RETRY_INITIAL_MS_def min.coboundedI2)
  qed
qed

text \<open>
  Retries back off: deferring a pending deletion succeeds, counts the attempt (up to 31), and sets the
  next attempt between one second and one minute ahead, never sooner than the previous delay.
\<close>

theorem deletion_backoff:
  assumes "ledger_inv (deletions s)" and "d \<in> set (deletions s)" and "del_organizationId d = org" and "del_status d = Del_pending"
    and "bounded_id org = Inr ()" and "safe_integer now" and "0 \<le> now"
  shows "\<exists>d' s'. del_defer org now err s = Inr (d', s') \<and> d' \<in> set (deletions s') \<and> del_status d' = Del_pending \<and>
    del_attempts d' = min (del_attempts d + 1) 31 \<and>
    now + 1000 \<le> del_nextAttemptAt d' \<and> del_nextAttemptAt d' \<le> now + 60000 \<and>
    (1 \<le> del_attempts d \<longrightarrow> now + retry_delay (del_attempts d) \<le> del_nextAttemptAt d')"
proof -
  let ?a = "retry_attempts (del_attempts d)"
  let ?f = "\<lambda>r. r\<lparr>del_attempts := ?a, del_nextAttemptAt := now + retry_delay ?a, del_lastError := map_option (take 512) err\<rparr>"
  let ?s = "s\<lparr>deletions := sql_update (pending_deletion org) ?f (deletions s)\<rparr>"
  have att: "0 \<le> del_attempts d" using assms(1,2) by (auto simp: ledger_inv_def deletion_check_def status_check_def)
  note delay = retry_delay_bounds [OF att]
  have "deletion_check (?f r)" if "deletion_check r" for r
    using that att assms(7) delay(1) by (auto simp: deletion_check_def status_check_def retry_attempts_def)
  then have ok: "\<And>r. r \<in> set (deletions s) \<Longrightarrow> deletion_check (?f r)" using assms(1) by (simp add: ledger_inv_def)
  then have upd: "update_deletion org ?f s = Inr ?s" by (auto simp: update_deletion_def sql_update_checked_def)
  have ch: "ledger_change (deletions s) (deletions ?s)" using upd by (rule ledger_change_write) (simp add: deletion_identity_def)
  have row: "?f d \<in> set (deletions ?s)"
    using row_after_update [OF assms(2), of "pending_deletion org" ?f] assms(3,4) by (simp add: pending_deletion_def)
  then have "del_require org ?s = Inr (?f d)"
    using del_require_inv [OF ledger_change_inv [OF ch assms(1)]] assms(3,5) by simp
  then have "del_defer org now err s = Inr (?f d, ?s)"
    using del_require_inv [OF assms(1-3,5)] assms(4-) upd by (simp add: del_defer_def safeTime_def Let_def)
  then show ?thesis using row assms(4) delay
    by (intro exI [of _ "?f d"] exI [of _ ?s]) (simp add: retry_attempts_def)
qed

subsection \<open>Witnesses\<close>

definition sample_tables :: deletion_tables where
  "sample_tables = \<lparr> deletions = [new_deletion ''org'' 5 100],
     deletion_shards = [new_shard ''org'' ''a'' 100, new_shard ''org'' ''b'' 100] \<rparr>"

lemma sample_record:
  "del_record ''org'' 5 100 \<lparr> deletions = [], deletion_shards = [] \<rparr> =
     Inr (new_deletion ''org'' 5 100, \<lparr> deletions = [new_deletion ''org'' 5 100], deletion_shards = [] \<rparr>)"
  by code_simp

lemma sample_tables_inv: "deletion_inv sample_tables"
  by code_simp

theorem deletion_permanent_witness: "isDeleted ''org'' \<lparr> deletions = [new_deletion ''org'' 5 100], deletion_shards = [] \<rparr> = Inr True"
proof -
  let ?s = "\<lparr> deletions = [new_deletion ''org'' 5 100], deletion_shards = [] \<rparr>"
  have "isDeleted ''org'' ?s = Inr True" by code_simp
  then show ?thesis
    using deletion_permanent [of ?s ?s] step_record [OF sample_record] by blast
qed

theorem deletion_alarm_exact_witness:
  "\<not> (due 150 CATALOG_ORGANIZATION_DELETION_BATCH_SIZE sample_tables = Inr [] \<and>
   dueShards 150 CATALOG_ORGANIZATION_DELETION_SHARD_BATCH_SIZE sample_tables = Inr [])"
proof -
  have "nextPendingAt sample_tables = Some 100" by code_simp
  then show ?thesis using deletion_alarm_exact [of 150 sample_tables] by (simp add: safe_integer_def)
qed

theorem deletion_cleanup_completes_witness:
  "\<exists>s'. complete_each ''org'' 200 [''b'', ''a''] sample_tables = Inr s' \<and> deletion_inv s' \<and>
    (\<forall>d \<in> set (deletions s'). del_organizationId d = ''org'' \<longrightarrow> deletion_done d)"
proof -
  have "\<forall>x \<in> set [''b'', ''a'']. has_shard ''org'' x sample_tables" by code_simp
  moreover have "open_for ''org'' sample_tables \<subseteq> set [''b'', ''a'']" by code_simp
  ultimately show ?thesis
    using deletion_cleanup_completes [OF sample_tables_inv, of "[''b'', ''a'']" "''org''" 200] by (simp add: safe_integer_def)
qed

theorem deletion_backoff_witness:
  "\<exists>d' s'. del_defer ''org'' 200 None sample_tables = Inr (d', s') \<and> del_attempts d' = 1 \<and> 1200 \<le> del_nextAttemptAt d'"
proof -
  have "ledger_inv (deletions sample_tables)" using sample_tables_inv by (simp add: deletion_inv_iff)
  moreover have "bounded_id ''org'' = Inr ()" by code_simp
  ultimately show ?thesis
    using deletion_backoff [of sample_tables "new_deletion ''org'' 5 100" "''org''" 200 None]
    by (auto simp: sample_tables_def new_deletion_def safe_integer_def)
qed

end
