(* ===== verification/Deletion_Barrier.thy ===== *)
theory Deletion_Barrier
  imports Organization_Deletion
begin

text \<open>
  The organization-deletion barrier, \<^verbatim>\<open>src/src/server/do/catalog-organization-deletion-barrier-store.ts\<close>, and
  the guarded recording of deletions by \<open>mutateAuth\<close> of \<^verbatim>\<open>src/src/server/do/catalog.ts\<close>. While a range
  moves, an active barrier refuses new deletions in it and can be released only once the older ones
  are complete.
\<close>

section \<open>Data\<close>

datatype barrier_status = Bar_active | Bar_released | Bar_aborted

definition CATALOG_ORGANIZATION_DELETION_BARRIER_HISTORY_LIMIT :: int where
  "CATALOG_ORGANIZATION_DELETION_BARRIER_HISTORY_LIMIT = VSHARD_COUNT"

record CatalogOrganizationDeletionBarrierIdentity =
  bar_migrationId :: string
  bar_rangeLo :: int
  bar_rangeHi :: int

record CatalogOrganizationDeletionBarrier = CatalogOrganizationDeletionBarrierIdentity +
  bar_watermark :: int
  bar_status :: barrier_status
  bar_createdAt :: int
  bar_finishedAt :: "int option"

record CatalogOrganizationDeletionBarrierStatus =
  barrier :: CatalogOrganizationDeletionBarrier
  olderDeletionsComplete :: bool

type_synonym barriers = "CatalogOrganizationDeletionBarrier list"
type_synonym ledger = "CatalogOrganizationDeletion list"

definition barrier_check :: "CatalogOrganizationDeletionBarrier \<Rightarrow> bool" where
  "barrier_check b \<longleftrightarrow> 0 \<le> bar_rangeLo b \<and> bar_rangeLo b < 16384 \<and> bar_rangeLo b \<le> bar_rangeHi b \<and> bar_rangeHi b < 16384 \<and>
     0 \<le> bar_watermark b \<and> 0 \<le> bar_createdAt b \<and> (bar_status b = Bar_active \<longleftrightarrow> bar_finishedAt b = None)"

definition one_active_barrier :: "barriers \<Rightarrow> bool" where
  "one_active_barrier t \<longleftrightarrow> length (filter (\<lambda>b. bar_status b = Bar_active) t) \<le> 1"

section \<open>Operations\<close>

abbreviation bar_invalid :: js_error where "bar_invalid \<equiv> Cdb CDB_INVALID_ARGS"
abbreviation bar_mismatch :: js_error where "bar_mismatch \<equiv> Cdb CDB_RESHARD_PHASE_MISMATCH"
abbreviation bar_stale :: js_error where "bar_stale \<equiv> Cdb CDB_STALE_EPOCH"

definition safeStored :: "int \<Rightarrow> int res" where
  "safeStored v = rbind (ensure (safe_integer v \<and> 0 \<le> v) bar_mismatch) (\<lambda>_. Inr v)"

definition bar_assertIdentity :: "CatalogOrganizationDeletionBarrierIdentity \<Rightarrow> unit res" where
  "bar_assertIdentity i =
     rbind (ensure (opaque_id (bar_migrationId i)) bar_invalid) (\<lambda>_.
     ensure (safe_integer (bar_rangeLo i) \<and> safe_integer (bar_rangeHi i) \<and> 0 \<le> bar_rangeLo i \<and>
       bar_rangeLo i \<le> bar_rangeHi i \<and> bar_rangeHi i < VSHARD_COUNT) bar_invalid)"

definition bar_project :: "CatalogOrganizationDeletionBarrier \<Rightarrow> CatalogOrganizationDeletionBarrier res" where
  "bar_project b =
     rbind (safeStored (bar_rangeLo b)) (\<lambda>_.
     rbind (safeStored (bar_rangeHi b)) (\<lambda>_.
     rbind (safeStored (bar_watermark b)) (\<lambda>_.
     rbind (safeStored (bar_createdAt b)) (\<lambda>_.
     rbind (case bar_finishedAt b of None \<Rightarrow> Inr () | Some t \<Rightarrow> rbind (safeStored t) (\<lambda>_. Inr ())) (\<lambda>_. Inr b)))))"

definition bar_read :: "string \<Rightarrow> barriers \<Rightarrow> CatalogOrganizationDeletionBarrier option res" where
  "bar_read m t =
     rbind (ensure (opaque_id m) bar_invalid) (\<lambda>_.
     case sql_one (\<lambda>b. bar_migrationId b = m) t of
       None \<Rightarrow> Inr None | Some b \<Rightarrow> rbind (bar_project b) (\<lambda>b. Inr (Some b)))"

definition bar_active :: "barriers \<Rightarrow> CatalogOrganizationDeletionBarrier option res" where
  "bar_active t = (case sql_one (\<lambda>b. bar_status b = Bar_active) t of
     None \<Rightarrow> Inr None | Some b \<Rightarrow> rbind (bar_project b) (\<lambda>b. Inr (Some b)))"

definition bar_require :: "string \<Rightarrow> barriers \<Rightarrow> CatalogOrganizationDeletionBarrier res" where
  "bar_require m t = rbind (bar_read m t) (\<lambda>b. case b of None \<Rightarrow> Inl bar_stale | Some b \<Rightarrow> Inr b)"

definition bar_assertExact :: "CatalogOrganizationDeletionBarrier \<Rightarrow> CatalogOrganizationDeletionBarrierIdentity \<Rightarrow> unit res" where
  "bar_assertExact b i = ensure (bar_rangeLo b = bar_rangeLo i \<and> bar_rangeHi b = bar_rangeHi i) bar_stale"

text \<open>The rows with \<open>rowid <= watermark\<close> are the first \<open>watermark\<close> rows of the ledger.\<close>

definition in_barrier :: "CatalogOrganizationDeletionBarrier \<Rightarrow> CatalogOrganizationDeletion \<Rightarrow> bool" where
  "in_barrier b d \<longleftrightarrow> bar_rangeLo b \<le> del_vshard d \<and> del_vshard d \<le> bar_rangeHi b"

definition hasOlderPending :: "CatalogOrganizationDeletionBarrier \<Rightarrow> ledger \<Rightarrow> bool" where
  "hasOlderPending b ds \<longleftrightarrow> list_ex (\<lambda>d. in_barrier b d \<and> del_status d = Del_pending) (take (nat (bar_watermark b)) ds)"

definition new_barrier :: "CatalogOrganizationDeletionBarrierIdentity \<Rightarrow> int \<Rightarrow> int \<Rightarrow> CatalogOrganizationDeletionBarrier" where
  "new_barrier i watermark now = CatalogOrganizationDeletionBarrierIdentity.extend i
     \<lparr> bar_watermark = watermark, bar_status = Bar_active, bar_createdAt = now, bar_finishedAt = None \<rparr>"

definition bar_begin :: "CatalogOrganizationDeletionBarrierIdentity \<Rightarrow> int \<Rightarrow> ledger \<Rightarrow> barriers \<Rightarrow>
    (CatalogOrganizationDeletionBarrier \<times> barriers) res" where
  "bar_begin i now ds t =
     rbind (bar_assertIdentity i) (\<lambda>_.
     rbind (safeTime now) (\<lambda>_.
     rbind (bar_read (bar_migrationId i) t) (\<lambda>existing.
     case existing of
       Some b \<Rightarrow> rbind (bar_assertExact b i) (\<lambda>_. Inr (b, t))
     | None \<Rightarrow>
         rbind (safeStored (int (length t))) (\<lambda>count.
         rbind (ensure (count < CATALOG_ORGANIZATION_DELETION_BARRIER_HISTORY_LIMIT) (Cdb CDB_RATE_LIMITED)) (\<lambda>_.
         rbind (bar_active t) (\<lambda>active.
         rbind (ensure (active = None) bar_stale) (\<lambda>_.
         rbind (safeStored (int (length ds))) (\<lambda>watermark.
         rbind (sql_insert bar_migrationId barrier_check (new_barrier i watermark now) t) (\<lambda>t'.
         rbind (ensure (one_active_barrier t') SqliteError) (\<lambda>_.
         rbind (bar_require (bar_migrationId i) t') (\<lambda>b. Inr (b, t'))))))))))))"

definition bar_status_of :: "CatalogOrganizationDeletionBarrierIdentity \<Rightarrow> ledger \<Rightarrow> barriers \<Rightarrow>
    CatalogOrganizationDeletionBarrierStatus res" where
  "bar_status_of i ds t =
     rbind (bar_assertIdentity i) (\<lambda>_.
     rbind (bar_require (bar_migrationId i) t) (\<lambda>b.
     rbind (bar_assertExact b i) (\<lambda>_.
     Inr \<lparr> barrier = b, olderDeletionsComplete = (\<not> hasOlderPending b ds) \<rparr>)))"

definition covering :: "int \<Rightarrow> barriers \<Rightarrow> barriers" where
  "covering v t = take 2 (sort_key bar_migrationId
     (filter (\<lambda>b. bar_status b = Bar_active \<and> bar_rangeLo b \<le> v \<and> v \<le> bar_rangeHi b) t))"

definition assertDeletionAllowed :: "int \<Rightarrow> barriers \<Rightarrow> unit res" where
  "assertDeletionAllowed v t =
     rbind (ensure (safe_integer v \<and> 0 \<le> v \<and> v < VSHARD_COUNT) bar_invalid) (\<lambda>_.
     rbind (ensure (length (covering v t) \<le> 1) bar_mismatch) (\<lambda>_.
     ensure (length (covering v t) \<noteq> 1) bar_stale))"

definition bar_finish :: "string \<Rightarrow> barrier_status \<Rightarrow> int \<Rightarrow> barriers \<Rightarrow> barriers res" where
  "bar_finish m st now t =
     (let p = (\<lambda>b. bar_migrationId b = m \<and> bar_status b = Bar_active) in
      rbind (sql_update_checked barrier_check p (\<lambda>b. b\<lparr>bar_status := st, bar_finishedAt := Some now\<rparr>) t) (\<lambda>t'.
      rbind (ensure (sql_changes p t = 1) bar_stale) (\<lambda>_. Inr t')))"

definition bar_release :: "CatalogOrganizationDeletionBarrierIdentity \<Rightarrow> int \<Rightarrow> ledger \<Rightarrow> barriers \<Rightarrow>
    (CatalogOrganizationDeletionBarrier \<times> barriers) res" where
  "bar_release i now ds t =
     rbind (bar_assertIdentity i) (\<lambda>_.
     rbind (safeTime now) (\<lambda>_.
     rbind (bar_require (bar_migrationId i) t) (\<lambda>b.
     rbind (bar_assertExact b i) (\<lambda>_.
     if bar_status b = Bar_released then Inr (b, t)
     else if bar_status b = Bar_aborted then Inl bar_stale
     else if hasOlderPending b ds then Inl bar_mismatch
     else rbind (bar_finish (bar_migrationId i) Bar_released now t) (\<lambda>t'.
          rbind (bar_require (bar_migrationId i) t') (\<lambda>b'. Inr (b', t')))))))"

definition bar_abort :: "CatalogOrganizationDeletionBarrierIdentity \<Rightarrow> int \<Rightarrow> barriers \<Rightarrow>
    (CatalogOrganizationDeletionBarrier \<times> barriers) res" where
  "bar_abort i now t =
     rbind (bar_assertIdentity i) (\<lambda>_.
     rbind (safeTime now) (\<lambda>_.
     rbind (bar_require (bar_migrationId i) t) (\<lambda>b.
     rbind (bar_assertExact b i) (\<lambda>_.
     if bar_status b = Bar_aborted then Inr (b, t)
     else if bar_status b = Bar_released then Inl bar_stale
     else rbind (bar_finish (bar_migrationId i) Bar_aborted now t) (\<lambda>t'.
          rbind (bar_require (bar_migrationId i) t') (\<lambda>b'. Inr (b', t')))))))"

text \<open>
  One turn of the loop of \<open>mutateAuth\<close> over the organizations an auth mutation deleted. \<open>owner\<close> is the
  routing lookup \<open>organizationDeletionTarget\<close>.
\<close>

definition record_deleted_organization :: "(int \<Rightarrow> string res) \<Rightarrow> bool \<Rightarrow> int \<Rightarrow> string \<Rightarrow> barriers \<times> deletion_tables \<Rightarrow>
    (barriers \<times> deletion_tables) res" where
  "record_deleted_organization owner hasOrganizationCleanupResources now org st =
     rbind (vshardOf [KString org]) (\<lambda>v.
     rbind (assertDeletionAllowed v (fst st)) (\<lambda>_.
     rbind (del_record org v now (snd st)) (\<lambda>(_, s1).
     if hasOrganizationCleanupResources
     then rbind (owner v) (\<lambda>target. rbind (recordShards org [target] now s1) (\<lambda>(_, s2). Inr (fst st, s2)))
     else rbind (del_complete org now s1) (\<lambda>(_, s2). Inr (fst st, s2)))))"

inductive barrier_step :: "ledger \<Rightarrow> barriers \<Rightarrow> barriers \<Rightarrow> bool" for ds where
  step_bar_begin: "bar_begin i now ds t = Inr (b, t') \<Longrightarrow> barrier_step ds t t'"
| step_bar_release: "bar_release i now ds t = Inr (b, t') \<Longrightarrow> barrier_step ds t t'"
| step_bar_abort: "bar_abort i now t = Inr (b, t') \<Longrightarrow> barrier_step ds t t'"

text \<open>
  The steps of the two tables together: a barrier call, a guarded recording, or any call on the
  ledger that records no new organization.
\<close>

inductive fenced_step :: "barriers \<times> deletion_tables \<Rightarrow> barriers \<times> deletion_tables \<Rightarrow> bool" where
  fenced_barrier: "barrier_step (deletions s) t t' \<Longrightarrow> fenced_step (t, s) (t', s)"
| fenced_record: "record_deleted_organization owner res now org st = Inr st' \<Longrightarrow> fenced_step st st'"
| fenced_ledger: "deletion_step s s' \<Longrightarrow> length (deletions s') = length (deletions s) \<Longrightarrow> fenced_step (t, s) (t, s')"

section \<open>The invariant of the barriers\<close>

definition barrier_row_ok :: "CatalogOrganizationDeletionBarrier \<Rightarrow> bool" where
  "barrier_row_ok b \<longleftrightarrow> barrier_check b \<and> opaque_id (bar_migrationId b) \<and> safe_integer (bar_watermark b) \<and>
     safe_integer (bar_createdAt b) \<and> (case bar_finishedAt b of None \<Rightarrow> True | Some t \<Rightarrow> safe_integer t \<and> 0 \<le> t)"

definition barriers_inv :: "barriers \<Rightarrow> bool" where
  "barriers_inv t \<longleftrightarrow> distinct (map bar_migrationId t) \<and> (\<forall>b \<in> set t. barrier_row_ok b) \<and> one_active_barrier t"

definition barrier_final :: "CatalogOrganizationDeletionBarrier \<Rightarrow> bool" where
  "barrier_final b \<longleftrightarrow> bar_status b \<noteq> Bar_active"

definition barrier_rank :: "CatalogOrganizationDeletionBarrier \<Rightarrow> nat" where
  "barrier_rank b = (if barrier_final b then 1 else 0)"

definition barrier_identity :: "CatalogOrganizationDeletionBarrier \<Rightarrow> CatalogOrganizationDeletionBarrierIdentity \<times> int \<times> int" where
  "barrier_identity b = (CatalogOrganizationDeletionBarrierIdentity.truncate b, bar_watermark b, bar_createdAt b)"

lemma bar_project_ok: "barrier_row_ok b \<Longrightarrow> bar_project b = Inr b"
  by (auto simp: bar_project_def barrier_row_ok_def barrier_check_def safeStored_def safe_integer_def split: option.splits)

lemma bar_read_inv:
  assumes "barriers_inv t" and "opaque_id m"
  shows "bar_read m t = Inr (sql_one (\<lambda>b. bar_migrationId b = m) t)"
  using assms bar_project_ok
  by (auto simp: bar_read_def barriers_inv_def split: option.splits dest: sql_one_SomeD)

lemma bar_require_inv:
  assumes "barriers_inv t" and "opaque_id m"
  shows "bar_require m t = Inr b \<longleftrightarrow> b \<in> set t \<and> bar_migrationId b = m"
proof -
  have "sql_one (\<lambda>b. bar_migrationId b = m) t = Some b" if "b \<in> set t" "bar_migrationId b = m"
    using sql_one_unique [of bar_migrationId t b] assms(1) that by (simp add: barriers_inv_def)
  then show ?thesis
    by (auto simp: bar_require_def bar_read_inv [OF assms] split: option.splits dest: sql_one_SomeD)
qed

lemma bar_assertIdentity_Inr:
  "bar_assertIdentity i = Inr u \<longleftrightarrow> opaque_id (bar_migrationId i) \<and> safe_integer (bar_rangeLo i) \<and> safe_integer (bar_rangeHi i) \<and>
     0 \<le> bar_rangeLo i \<and> bar_rangeLo i \<le> bar_rangeHi i \<and> bar_rangeHi i < VSHARD_COUNT"
  by (auto simp: bar_assertIdentity_def result_simps)

lemma new_barrier_simps [simp]:
  "bar_migrationId (new_barrier i w now) = bar_migrationId i" "bar_status (new_barrier i w now) = Bar_active"
  "bar_watermark (new_barrier i w now) = w" "bar_rangeLo (new_barrier i w now) = bar_rangeLo i"
  "bar_rangeHi (new_barrier i w now) = bar_rangeHi i"
  by (simp_all add: new_barrier_def CatalogOrganizationDeletionBarrierIdentity.defs)

lemma new_barrier_ok:
  "bar_assertIdentity i = Inr () \<Longrightarrow> safe_integer w \<Longrightarrow> 0 \<le> w \<Longrightarrow> safe_integer now \<Longrightarrow> 0 \<le> now \<Longrightarrow> barrier_row_ok (new_barrier i w now)"
  by (auto simp: barrier_row_ok_def barrier_check_def bar_assertIdentity_Inr new_barrier_def VSHARD_COUNT_def
      CatalogOrganizationDeletionBarrierIdentity.defs)

abbreviation finish_row :: "barrier_status \<Rightarrow> int \<Rightarrow> CatalogOrganizationDeletionBarrier \<Rightarrow> CatalogOrganizationDeletionBarrier" where
  "finish_row st now b \<equiv> b\<lparr>bar_status := st, bar_finishedAt := Some now\<rparr>"

abbreviation active_barrier :: "string \<Rightarrow> CatalogOrganizationDeletionBarrier \<Rightarrow> bool" where
  "active_barrier m b \<equiv> bar_migrationId b = m \<and> bar_status b = Bar_active"

text \<open>The successful calls as changes of the table.\<close>

lemma bar_begin_cases:
  assumes "barriers_inv t" and "bar_begin i now ds t = Inr (b, t')"
  obtains "t' = t" and "b \<in> set t" and "bar_migrationId b = bar_migrationId i"
  | "t' = t @ [new_barrier i (int (length ds)) now]" and "\<forall>c \<in> set t. bar_status c \<noteq> Bar_active"
    and "\<forall>c \<in> set t. bar_migrationId c \<noteq> bar_migrationId i" and "barrier_row_ok (new_barrier i (int (length ds)) now)"
    and "b \<in> set t'" and "bar_migrationId b = bar_migrationId i"
proof -
  have i: "bar_assertIdentity i = Inr ()" and now: "safe_integer now" "0 \<le> now"
    using assms(2) by (auto simp: bar_begin_def safeTime_def rbind_eq_Inr ensure_eq_Inr)
  then have m: "opaque_id (bar_migrationId i)" by (simp add: bar_assertIdentity_Inr)
  show ?thesis
  proof (cases "sql_one (\<lambda>b. bar_migrationId b = bar_migrationId i) t")
    case None
    then have free: "\<forall>c \<in> set t. bar_migrationId c \<noteq> bar_migrationId i" by (simp add: sql_one_None_iff)
    have act: "bar_active t = Inr (sql_one (\<lambda>b. bar_status b = Bar_active) t)"
      using assms(1) bar_project_ok by (auto simp: bar_active_def barriers_inv_def split: option.splits dest: sql_one_SomeD)
    let ?n = "new_barrier i (int (length ds)) now"
    from assms(2) None i now have out: "sql_one (\<lambda>b. bar_status b = Bar_active) t = None"
      "safe_integer (int (length ds))" "t' = t @ [?n]" "bar_require (bar_migrationId i) t' = Inr b" "one_active_barrier t'"
      by (auto simp: bar_begin_def bar_read_inv [OF assms(1) m] act safeTime_def safeStored_def rbind_eq_Inr ensure_eq_Inr
          sql_insert_Inr)
    have ok: "barrier_row_ok ?n" using i out(2) now by (intro new_barrier_ok) auto
    have inv: "barriers_inv t'" using assms(1) out(3,5) ok free by (auto simp: barriers_inv_def image_iff)
    then have "b \<in> set t' \<and> bar_migrationId b = bar_migrationId i" using out(4) m by (simp add: bar_require_inv)
    then show ?thesis using that(2) out(1,3) free ok by (auto simp: sql_one_None_iff)
  next
    case (Some c)
    then have "t' = t \<and> b = c"
      using assms(2) i now by (auto simp: bar_begin_def bar_read_inv [OF assms(1) m] safeTime_def rbind_eq_Inr)
    then show ?thesis using that(1) sql_one_SomeD [OF Some] by simp
  qed
qed

lemma bar_finish_Inr:
  "bar_finish m st now t = Inr t' \<Longrightarrow> t' = sql_update (active_barrier m) (finish_row st now) t \<and>
     (\<forall>c \<in> set t. active_barrier m c \<longrightarrow> barrier_check (finish_row st now c))"
  by (auto simp: bar_finish_def Let_def result_simps)

lemma bar_release_cases:
  assumes "barriers_inv t" and "bar_release i now ds t = Inr (b, t')"
  obtains "t' = t" and "b \<in> set t" and "bar_migrationId b = bar_migrationId i" and "bar_status b = Bar_released"
  | b0 where "b0 \<in> set t" and "bar_migrationId b0 = bar_migrationId i" and "bar_status b0 = Bar_active"
    and "bar_rangeLo b0 = bar_rangeLo i" and "bar_rangeHi b0 = bar_rangeHi i" and "\<not> hasOlderPending b0 ds"
    and "bar_finish (bar_migrationId i) Bar_released now t = Inr t'" and "safe_integer now" and "0 \<le> now"
proof -
  have pre: "opaque_id (bar_migrationId i)" "safe_integer now" "0 \<le> now"
    using assms(2) by (auto simp: bar_release_def safeTime_def bar_assertIdentity_def rbind_eq_Inr ensure_eq_Inr)
  obtain b0 where b0: "bar_require (bar_migrationId i) t = Inr b0" using assms(2) by (auto simp: bar_release_def rbind_eq_Inr)
  then have row: "b0 \<in> set t" "bar_migrationId b0 = bar_migrationId i" using bar_require_inv [OF assms(1) pre(1)] by auto
  show ?thesis
  proof (cases "bar_status b0")
    case Bar_active
    then show ?thesis using assms(2) b0 pre that(2) [OF row]
      by (auto simp: bar_release_def bar_assertExact_def rbind_eq_Inr ensure_eq_Inr split: if_splits)
  qed (use assms(2) b0 row that(1) in \<open>auto simp: bar_release_def rbind_eq_Inr\<close>)
qed

lemma bar_abort_cases:
  assumes "barriers_inv t" and "bar_abort i now t = Inr (b, t')"
  obtains "t' = t"
  | "bar_finish (bar_migrationId i) Bar_aborted now t = Inr t'" and "safe_integer now" and "0 \<le> now"
proof -
  have pre: "safe_integer now" "0 \<le> now"
    using assms(2) by (auto simp: bar_abort_def safeTime_def rbind_eq_Inr ensure_eq_Inr)
  then show ?thesis using assms(2) that by (auto simp: bar_abort_def rbind_eq_Inr split: if_splits)
qed

lemma one_active_barrier_update:
  "st \<noteq> Bar_active \<Longrightarrow> one_active_barrier t \<Longrightarrow> one_active_barrier (sql_update p (finish_row st now) t)"
proof -
  assume st: "st \<noteq> Bar_active" and one: "one_active_barrier t"
  have "length (filter (\<lambda>b. bar_status b = Bar_active) (sql_update p (finish_row st now) t)) \<le>
    length (filter (\<lambda>b. bar_status b = Bar_active) t)"
    by (induction t) (auto simp: sql_update_def st)
  then show ?thesis using one by (simp add: one_active_barrier_def)
qed

lemma bar_finish_inv:
  assumes "barriers_inv t" and "bar_finish m st now t = Inr t'" and "st \<noteq> Bar_active" and "safe_integer now" and "0 \<le> now"
  shows "barriers_inv t'"
proof -
  have t': "t' = sql_update (active_barrier m) (finish_row st now) t"
    and chk: "\<forall>c \<in> set t. active_barrier m c \<longrightarrow> barrier_check (finish_row st now c)"
    using bar_finish_Inr [OF assms(2)] by auto
  have "distinct (map bar_migrationId t')" unfolding t'
    using assms(1) by (intro distinct_keys_sql_update) (auto simp: barriers_inv_def)
  moreover have "barrier_row_ok c" if "c \<in> set t'" for c
    using that assms(1,4,5) chk unfolding t' by (auto simp: set_sql_update barriers_inv_def barrier_row_ok_def)
  ultimately show ?thesis
    using assms(1,3) one_active_barrier_update by (auto simp: barriers_inv_def t')
qed

lemma barrier_step_cases:
  assumes "barriers_inv t" and "barrier_step ds t t'"
  obtains "t' = t"
  | i now where "t' = t @ [new_barrier i (int (length ds)) now]" and "barriers_inv t'"
  | m st now where "t' = sql_update (active_barrier m) (finish_row st now) t" and "st \<noteq> Bar_active" and "barriers_inv t'"
  using assms(2)
proof (cases rule: barrier_step.cases)
  case (step_bar_begin i now b)
  from assms(1) step_bar_begin show ?thesis
  proof (cases rule: bar_begin_cases)
    case 2
    then have "barriers_inv t'" using assms(1) by (auto simp: barriers_inv_def image_iff one_active_barrier_def filter_empty_conv)
    then show ?thesis using that(2) 2(1) by blast
  qed (use that(1) in blast)
next
  case (step_bar_release i now b)
  from assms(1) step_bar_release show ?thesis
  proof (cases rule: bar_release_cases)
    case (2 b0)
    then show ?thesis using bar_finish_inv [OF assms(1) 2(7)] bar_finish_Inr [OF 2(7)]
      by (intro that(3) [where m = "bar_migrationId i" and st = Bar_released and now = now]) auto
  qed (use that(1) in blast)
next
  case (step_bar_abort i now b)
  from assms(1) step_bar_abort show ?thesis
  proof (cases rule: bar_abort_cases)
    case 2
    then show ?thesis using bar_finish_inv [OF assms(1) 2(1)] bar_finish_Inr [OF 2(1)]
      by (intro that(3) [where m = "bar_migrationId i" and st = Bar_aborted and now = now]) auto
  qed (use that(1) in blast)
qed

definition any_barrier_step :: "barriers \<Rightarrow> barriers \<Rightarrow> bool" where
  "any_barrier_step t t' \<longleftrightarrow> (\<exists>ds. barrier_step ds t t')"

interpretation barriers: tombstone_store barrier_identity barrier_rank barriers_inv any_barrier_step barrier_final
proof
  show "barriers_inv []" by (simp add: barriers_inv_def one_active_barrier_def)
next
  fix t t' b assume inv: "barriers_inv t" and "any_barrier_step t t'"
  then obtain ds where step: "barrier_step ds t t'" by (auto simp: any_barrier_step_def)
  show "barriers_inv t'" using inv step by (cases rule: barrier_step_cases) (use inv in auto)
  assume b: "b \<in> set t"
  show "\<exists>b' \<in> set t'. barrier_identity b' = barrier_identity b \<and> barrier_rank b \<le> barrier_rank b'"
    using inv step
  proof (cases rule: barrier_step_cases)
    case (3 m st now)
    show ?thesis using row_after_update [OF b, of "active_barrier m" "finish_row st now"] 3(1,2)
      by (intro bexI [of _ "if active_barrier m b then finish_row st now b else b"])
        (auto simp: barrier_rank_def barrier_final_def barrier_identity_def CatalogOrganizationDeletionBarrierIdentity.defs)
  qed (use b in auto)
  show "barrier_final b \<Longrightarrow> b \<in> set t'"
    using inv step
  proof (cases rule: barrier_step_cases)
    case (3 m st now)
    assume "barrier_final b"
    then show ?thesis using row_after_update [OF b, of "active_barrier m" "finish_row st now"] 3(1)
      by (auto simp: barrier_final_def)
  qed (use b in auto)
qed

section \<open>The fence\<close>

lemma covering_empty:
  "covering v t = [] \<longleftrightarrow> (\<forall>b \<in> set t. bar_status b = Bar_active \<longrightarrow> \<not> (bar_rangeLo b \<le> v \<and> v \<le> bar_rangeHi b))"
  by (auto simp: covering_def sort_key_empty filter_empty_conv)

lemma assertDeletionAllowed_Inr:
  "assertDeletionAllowed v t = Inr () \<longleftrightarrow> safe_integer v \<and> 0 \<le> v \<and> v < VSHARD_COUNT \<and> covering v t = []"
  by (auto simp: assertDeletionAllowed_def result_simps le_Suc_eq)

text \<open>No ledger row after an active barrier's watermark lies in its range.\<close>

definition fenced_inv :: "barriers \<times> deletion_tables \<Rightarrow> bool" where
  "fenced_inv st \<longleftrightarrow> barriers_inv (fst st) \<and> ledger_inv (deletions (snd st)) \<and>
     (\<forall>b \<in> set (fst st). bar_status b = Bar_active \<longrightarrow>
        (\<forall>v \<in> set (drop (nat (bar_watermark b)) (map del_vshard (deletions (snd st)))). \<not> (bar_rangeLo b \<le> v \<and> v \<le> bar_rangeHi b)))"

lemma ledger_change_vshards:
  assumes "ledger_change ds ds'"
  shows "map del_vshard ds' = map del_vshard ds \<or> (\<exists>n. ds' = ds @ [n])"
  using assms
proof cases
  case (ledger_update f org)
  then show ?thesis by (auto simp: sql_update_def deletion_identity_def)
qed (auto simp: sql_insert_ignore_def)

lemma fenced_inv_same:
  "fenced_inv (t, s) \<Longrightarrow> ledger_inv (deletions s') \<Longrightarrow> map del_vshard (deletions s') = map del_vshard (deletions s) \<Longrightarrow>
     fenced_inv (t, s')"
  by (simp add: fenced_inv_def)

lemma fenced_inv_append:
  assumes "fenced_inv (t, s)" and "ledger_inv (deletions s')" and "deletions s' = deletions s @ [n]" and "covering (del_vshard n) t = []"
  shows "fenced_inv (t, s')"
  using assms by (auto simp: fenced_inv_def covering_empty drop_Cons' split: if_splits)

lemma deletion_step_keeps_fence:
  assumes "fenced_inv (t, s)" and "deletion_step s s'" and "length (deletions s') = length (deletions s)"
  shows "fenced_inv (t, s')"
proof -
  have ch: "ledger_change (deletions s) (deletions s')" using assms(2) by (rule deletion_step_change)
  have "map del_vshard (deletions s') = map del_vshard (deletions s)"
    using ledger_change_vshards [OF ch] assms(3) by auto
  then show ?thesis using assms(1) ledger_change_inv [OF ch] fenced_inv_same by (auto simp: fenced_inv_def)
qed

lemma recordShards_ledger: "recordShards org ids now s = Inr (rs, s') \<Longrightarrow> deletions s' = deletions s"
  by (auto simp: recordShards_def rbind_eq_Inr Let_def split: if_splits)

lemma del_complete_length: "del_complete org now s = Inr (r, s') \<Longrightarrow> length (deletions s') = length (deletions s)"
  by (auto simp: del_complete_def update_deletion_def result_simps split: if_splits)

lemma record_keeps_fence:
  assumes "fenced_inv (t, s)" and "record_deleted_organization owner res now org (t, s) = Inr st'"
  shows "fenced_inv st'"
proof -
  from assms(2) obtain v r s1 s2 where v: "assertDeletionAllowed v t = Inr ()" and s1: "del_record org v now s = Inr (r, s1)"
    and st': "st' = (t, s2)"
    and s2: "(\<exists>ids rs. recordShards org ids now s1 = Inr (rs, s2)) \<or> (\<exists>d. del_complete org now s1 = Inr (d, s2))"
    by (auto simp: record_deleted_organization_def rbind_eq_Inr split: if_splits) blast+
  obtain n where n: "deletions s1 = sql_insert_ignore del_organizationId deletion_check n (deletions s)" "del_vshard n = v"
    using s1 by (auto simp: del_record_def rbind_eq_Inr Let_def new_deletion_def)
  have inv1: "ledger_inv (deletions s1)"
    using ledger_change_inv [OF deletion_step_change [OF step_record [OF s1]]] assms(1) by (simp add: fenced_inv_def)
  have f1: "fenced_inv (t, s1)"
  proof (cases "deletions s1 = deletions s")
    case True
    then show ?thesis using fenced_inv_same [OF assms(1) inv1] by simp
  next
    case False
    then have "deletions s1 = deletions s @ [n]" using n(1) by (auto simp: sql_insert_ignore_def split: if_splits)
    then show ?thesis using fenced_inv_append [OF assms(1) inv1] n(2) v by (simp add: assertDeletionAllowed_Inr)
  qed
  from s2 show ?thesis unfolding st'
  proof (elim disjE exE)
    fix ids rs assume h: "recordShards org ids now s1 = Inr (rs, s2)"
    show "fenced_inv (t, s2)"
      by (rule deletion_step_keeps_fence [OF f1 step_recordShards [OF h]]) (simp add: recordShards_ledger [OF h])
  next
    fix d assume h: "del_complete org now s1 = Inr (d, s2)"
    show "fenced_inv (t, s2)"
      by (rule deletion_step_keeps_fence [OF f1 step_complete [OF h] del_complete_length [OF h]])
  qed
qed

lemma barrier_step_keeps_fence:
  assumes "fenced_inv (t, s)" and "barrier_step (deletions s) t t'"
  shows "fenced_inv (t', s)"
proof -
  have "barriers_inv t" using assms(1) by (simp add: fenced_inv_def)
  from this assms(2) show ?thesis
  proof (cases rule: barrier_step_cases)
    case (3 m st now)
    then show ?thesis using assms(1) by (auto simp: fenced_inv_def set_sql_update)
  qed (use assms(1) in \<open>auto simp: fenced_inv_def\<close>)
qed

lemma fenced_steps_inv: "fenced_step\<^sup>*\<^sup>* st st' \<Longrightarrow> fenced_inv st \<Longrightarrow> fenced_inv st'"
proof (induction rule: rtranclp_induct)
  case (step u w)
  from step.hyps(2) step.IH [OF step.prems] show ?case
  proof cases
    case (fenced_record owner res now org)
    then show ?thesis using record_keeps_fence [of "fst u" "snd u"] step.IH [OF step.prems] by simp
  qed (auto intro: barrier_step_keeps_fence deletion_step_keeps_fence)
qed simp

lemma fenced_inv_release:
  assumes "fenced_inv (t, s)" and "b \<in> set t" and "bar_status b = Bar_active" and "\<not> hasOlderPending b (deletions s)"
    and "d \<in> set (deletions s)" and "in_barrier b d"
  shows "deletion_done d"
proof -
  let ?w = "nat (bar_watermark b)"
  have "d \<in> set (take ?w (deletions s)) \<or> d \<in> set (drop ?w (deletions s))"
    using assms(5) by (metis Un_iff append_take_drop_id set_append)
  moreover have "d \<notin> set (drop ?w (deletions s))"
    using assms(1,2,3,6) by (auto simp: fenced_inv_def in_barrier_def drop_map)
  ultimately have "\<not> (in_barrier b d \<and> del_status d = Del_pending)"
    using assms(4) by (auto simp: hasOlderPending_def list_ex_iff)
  then show ?thesis using assms(6) by (cases "del_status d") (auto simp: deletion_done_def)
qed

section \<open>Properties\<close>

text \<open>
  Releasing a barrier proves quiescence: in every state the Catalog can reach by barrier calls,
  guarded recordings and ledger maintenance, an active barrier that \<open>release\<close> accepts leaves no
  organization of its range with an unfinished deletion, recorded before or after the barrier began.
\<close>

theorem barrier_release_quiesced:
  assumes "fenced_step\<^sup>*\<^sup>* ([], \<lparr> deletions = [], deletion_shards = [] \<rparr>) (t, s)"
    and "b0 \<in> set t" and "bar_migrationId b0 = bar_migrationId i" and "bar_status b0 = Bar_active"
    and "bar_release i now (deletions s) t = Inr (b, t')"
  shows "\<forall>d \<in> set (deletions s). bar_rangeLo i \<le> del_vshard d \<and> del_vshard d \<le> bar_rangeHi i \<longrightarrow> del_status d = Del_complete"
proof -
  have inv: "fenced_inv (t, s)"
    using fenced_steps_inv [OF assms(1)] barriers.inv_empty ledger.inv_empty by (simp add: fenced_inv_def)
  then have binv: "barriers_inv t" by (simp add: fenced_inv_def)
  have only: "c = b0" if "c \<in> set t" "bar_migrationId c = bar_migrationId i" for c
    using unique_key_row [of bar_migrationId t c b0] binv that assms(2,3) by (simp add: barriers_inv_def)
  from binv assms(5) show ?thesis
  proof (cases rule: bar_release_cases)
    case 1
    then show ?thesis using only assms(4) by auto
  next
    case (2 c)
    have "deletion_done d" if "d \<in> set (deletions s)" "bar_rangeLo i \<le> del_vshard d" "del_vshard d \<le> bar_rangeHi i" for d
      by (rule fenced_inv_release [OF inv 2(1,3,6) that(1)]) (use that 2(4,5) in \<open>simp add: in_barrier_def\<close>)
    then show ?thesis by (simp add: deletion_done_def)
  qed
qed

text \<open>
  The fence is exact: with the table as the store keeps it, a deletion at a valid vshard is refused as stale
  while an active barrier covers the vshard and admitted otherwise.
\<close>

theorem deletion_fence_exact:
  assumes "barriers_inv t" and "0 \<le> v" and "v < VSHARD_COUNT"
  shows "assertDeletionAllowed v t =
    (if \<exists>b \<in> set t. bar_status b = Bar_active \<and> bar_rangeLo b \<le> v \<and> v \<le> bar_rangeHi b then Inl (Cdb CDB_STALE_EPOCH) else Inr ())"
proof -
  let ?rows = "filter (\<lambda>b. bar_status b = Bar_active \<and> bar_rangeLo b \<le> v \<and> v \<le> bar_rangeHi b) t"
  have "?rows = filter (\<lambda>b. bar_rangeLo b \<le> v \<and> v \<le> bar_rangeHi b) (filter (\<lambda>b. bar_status b = Bar_active) t)"
    by (simp add: conj_commute conj_left_commute)
  then have "length ?rows \<le> 1"
    using assms(1) length_filter_le [of "\<lambda>b. bar_rangeLo b \<le> v \<and> v \<le> bar_rangeHi b" "filter (\<lambda>b. bar_status b = Bar_active) t"]
    by (simp add: barriers_inv_def one_active_barrier_def)
  then have len: "length (covering v t) = length ?rows" by (simp add: covering_def)
  have v: "safe_integer v" using assms(2,3) by (simp add: safe_integer_def VSHARD_COUNT_def)
  show ?thesis
  proof (cases "?rows = []")
    case True
    then have "\<not> (\<exists>b \<in> set t. bar_status b = Bar_active \<and> bar_rangeLo b \<le> v \<and> v \<le> bar_rangeHi b)"
      by (auto simp: filter_empty_conv)
    then show ?thesis using True len v assms(2,3) by (simp add: assertDeletionAllowed_def)
  next
    case False
    then have "\<exists>b \<in> set t. bar_status b = Bar_active \<and> bar_rangeLo b \<le> v \<and> v \<le> bar_rangeHi b"
      by (auto simp: filter_empty_conv)
    moreover have "length (covering v t) = 1" using False \<open>length ?rows \<le> 1\<close> len by (cases ?rows) auto
    ultimately show ?thesis using v assms(2,3) by (simp add: assertDeletionAllowed_def)
  qed
qed

text \<open>
  Barriers over any history: at most one is active, migration ids are unique, every barrier keeps its
  range, watermark and creation time, and a released or aborted barrier is never written again.
\<close>

theorem barrier_history:
  assumes "any_barrier_step\<^sup>*\<^sup>* [] t" and "any_barrier_step\<^sup>*\<^sup>* t t'"
  shows "barriers_inv t' \<and> (\<forall>b \<in> set t. \<exists>b' \<in> set t'. barrier_identity b' = barrier_identity b) \<and>
    (\<forall>b \<in> set t. barrier_final b \<longrightarrow> b \<in> set t')"
proof -
  have inv: "barriers_inv t" using assms(1) by (rule barriers.reachable_inv)
  show ?thesis
    using barriers.steps_inv [OF assms(2) inv] barriers.steps_row [OF assms(2) inv] barriers.steps_final [OF assms(2) inv]
    by blast
qed

subsection \<open>Witnesses\<close>

text \<open>An organization without cleanup resources is deleted at time 5, then a barrier on all vshards begins and is released.\<close>

definition sample_ledger :: deletion_tables where
  "sample_ledger = \<lparr> deletions = [complete_row 5 (new_deletion ''o'' 8538 5)], deletion_shards = [] \<rparr>"

definition sample_barrier :: CatalogOrganizationDeletionBarrierIdentity where
  "sample_barrier = \<lparr> bar_migrationId = ''m1'', bar_rangeLo = 0, bar_rangeHi = 16383 \<rparr>"

abbreviation begun_barrier :: CatalogOrganizationDeletionBarrier where "begun_barrier \<equiv> new_barrier sample_barrier 1 10"

lemma sample_deleted:
  "record_deleted_organization (\<lambda>_. Inr ''a'') False 5 ''o'' ([], \<lparr> deletions = [], deletion_shards = [] \<rparr>) = Inr ([], sample_ledger)"
  by code_simp

lemma sample_barrier_begin: "bar_begin sample_barrier 10 (deletions sample_ledger) [] = Inr (begun_barrier, [begun_barrier])"
  by (simp add: bar_begin_def bar_assertIdentity_def sample_barrier_def sample_ledger_def opaque_id_def alnum_char_def safe_integer_def
      VSHARD_COUNT_def safeTime_def bar_read_def sql_one_def safeStored_def CATALOG_ORGANIZATION_DELETION_BARRIER_HISTORY_LIMIT_def
      bar_active_def sql_insert_def barrier_check_def new_barrier_def one_active_barrier_def bar_require_def bar_project_def
      CatalogOrganizationDeletionBarrierIdentity.defs)

lemma sample_barrier_release:
  "bar_release sample_barrier 20 (deletions sample_ledger) [begun_barrier] =
     Inr (finish_row Bar_released 20 begun_barrier, [finish_row Bar_released 20 begun_barrier])"
  by (simp add: bar_release_def bar_assertIdentity_def sample_barrier_def sample_ledger_def opaque_id_def alnum_char_def safe_integer_def
      VSHARD_COUNT_def safeTime_def bar_read_def sql_one_def safeStored_def bar_assertExact_def hasOlderPending_def bar_finish_def
      sql_update_checked_def sql_update_def sql_changes_def barrier_check_def new_barrier_def bar_require_def bar_project_def
      CatalogOrganizationDeletionBarrierIdentity.defs)

theorem barrier_release_quiesced_witness:
  "list_all (\<lambda>d. 0 \<le> del_vshard d \<and> del_vshard d \<le> 16383 \<longrightarrow> del_status d = Del_complete) (deletions sample_ledger)"
proof -
  have "fenced_step ([], \<lparr> deletions = [], deletion_shards = [] \<rparr>) ([], sample_ledger)"
    using sample_deleted by (rule fenced_record)
  moreover have "fenced_step ([], sample_ledger) ([begun_barrier], sample_ledger)"
    using step_bar_begin [OF sample_barrier_begin] by (rule fenced_barrier)
  ultimately have "fenced_step\<^sup>*\<^sup>* ([], \<lparr> deletions = [], deletion_shards = [] \<rparr>) ([begun_barrier], sample_ledger)" by simp
  from barrier_release_quiesced [OF this, of begun_barrier sample_barrier 20] sample_barrier_release
  show ?thesis by (simp add: sample_barrier_def list_all_iff)
qed

lemma sample_barrier_step: "any_barrier_step [] [begun_barrier]"
  unfolding any_barrier_step_def using step_bar_begin [OF sample_barrier_begin] by blast

theorem deletion_fence_exact_witness: "assertDeletionAllowed 3 [begun_barrier] = Inl (Cdb CDB_STALE_EPOCH)"
proof -
  have "barriers_inv [begun_barrier]" using sample_barrier_step barriers.step_inv barriers.inv_empty by blast
  from deletion_fence_exact [OF this, of 3] show ?thesis by (simp add: VSHARD_COUNT_def sample_barrier_def)
qed

theorem barrier_history_witness: "barriers_inv [finish_row Bar_released 20 begun_barrier]"
proof -
  have "any_barrier_step [begun_barrier] [finish_row Bar_released 20 begun_barrier]"
    unfolding any_barrier_step_def using step_bar_release [OF sample_barrier_release] by blast
  then show ?thesis using sample_barrier_step barrier_history [of "[begun_barrier]"] by blast
qed

end
