(* ===== verification/Recovery_Admission.thy ===== *)
theory Recovery_Admission
  imports Store
begin

text \<open>
  The recovery admission gate of \<^verbatim>\<open>src/src/server/do/recovery-admission.ts\<close>: every durable object keeps the
  recovery generation it last saw and whether a recovery operation blocks it. The table holds at most
  the row \<open>singleton = 1\<close>, so the state is an option.
\<close>

section \<open>Data\<close>

datatype admission_state = Adm_open | Adm_blocked | Adm_released

record RecoveryAdmissionState =
  adm_generation :: int
  adm_operationId :: "string option"
  adm_state :: admission_state

record RecoveryAdmissionClock =
  clock_generation :: int
  clock_activeOperationId :: "string option"
  clock_activeDigest :: "string option"

type_synonym admission = "RecoveryAdmissionState option"

text \<open>The pattern \<open>RECOVERY_OPERATION_ID\<close>: a version 4 UUID in lower case.\<close>

definition hex_char :: "char \<Rightarrow> bool" where
  "hex_char c \<longleftrightarrow> c \<in> set ''0123456789abcdef''"

definition RECOVERY_OPERATION_ID :: "string \<Rightarrow> bool" where
  "RECOVERY_OPERATION_ID s \<longleftrightarrow> length s = 36 \<and> (\<forall>i \<in> set [0..<36].
     if i \<in> {8, 13, 18, 23} then s ! i = CHR ''-''
     else if i = 14 then s ! i = CHR ''4''
     else if i = 19 then s ! i \<in> set ''89ab''
     else hex_char (s ! i))"

text \<open>The test \<open>id !== null && !RECOVERY_OPERATION_ID.test(id)\<close>.\<close>

definition malformed_operation :: "string option \<Rightarrow> bool" where
  "malformed_operation i = (case i of None \<Rightarrow> False | Some op \<Rightarrow> \<not> RECOVERY_OPERATION_ID op)"

section \<open>Operations\<close>

definition initial_admission :: admission where
  "initial_admission = Some \<lparr> adm_generation = 0, adm_operationId = None, adm_state = Adm_open \<rparr>"

abbreviation adm_invalid :: js_error where "adm_invalid \<equiv> Cdb CDB_INVARIANT"

definition adm_read :: "admission \<Rightarrow> RecoveryAdmissionState res" where
  "adm_read a = (case a of
       None \<Rightarrow> Inl adm_invalid
     | Some row \<Rightarrow>
         rbind (ensure (\<not> (malformed_operation (adm_operationId row) \<or>
             adm_state row = Adm_open \<and> adm_operationId row \<noteq> None \<or>
             adm_state row \<noteq> Adm_open \<and> adm_operationId row = None)) adm_invalid) (\<lambda>_.
         rbind (ensure (safe_integer (adm_generation row) \<and> 0 \<le> adm_generation row) adm_invalid) (\<lambda>_. Inr row)))"

text \<open>\<open>UPDATE ... WHERE singleton = 1\<close>, with the CHECK on the generation.\<close>

definition adm_write :: "RecoveryAdmissionState \<Rightarrow> admission \<Rightarrow> admission res" where
  "adm_write v a = (case a of
       None \<Rightarrow> Inl adm_invalid
     | Some _ \<Rightarrow> if 0 \<le> adm_generation v then Inr (Some v) else Inl SqliteError)"

definition reconcile :: "RecoveryAdmissionClock \<Rightarrow> admission \<Rightarrow> (RecoveryAdmissionState \<times> admission) res" where
  "reconcile clock a =
     rbind (ensure (safe_integer (clock_generation clock) \<and> 0 \<le> clock_generation clock) adm_invalid) (\<lambda>_.
     rbind (ensure (\<not> ((clock_activeOperationId clock = None) \<noteq> (clock_activeDigest clock = None) \<or>
         malformed_operation (clock_activeOperationId clock))) adm_invalid) (\<lambda>_.
     rbind (adm_read a) (\<lambda>local.
     if clock_generation clock < adm_generation local then Inl adm_invalid
     else if adm_generation local < clock_generation clock then
       (let next = (case clock_activeOperationId clock of
            Some op \<Rightarrow> \<lparr> adm_generation = clock_generation clock, adm_operationId = Some op, adm_state = Adm_blocked \<rparr>
          | None \<Rightarrow> \<lparr> adm_generation = clock_generation clock, adm_operationId = None, adm_state = Adm_open \<rparr>) in
        rbind (adm_write next a) (\<lambda>a'. Inr (next, a')))
     else (case clock_activeOperationId clock of
         None \<Rightarrow>
           (let next = \<lparr> adm_generation = adm_generation local, adm_operationId = None, adm_state = Adm_open \<rparr> in
            if adm_state local \<noteq> Adm_open then rbind (adm_write next a) (\<lambda>a'. Inr (next, a')) else Inr (next, a))
       | Some op \<Rightarrow> if adm_operationId local \<noteq> Some op then Inl adm_invalid else Inr (local, a)))))"

definition arm :: "string \<Rightarrow> int \<Rightarrow> admission \<Rightarrow> (RecoveryAdmissionState \<times> admission) res" where
  "arm operationId nextGeneration a =
     rbind (ensure (RECOVERY_OPERATION_ID operationId \<and> safe_integer nextGeneration \<and> 1 \<le> nextGeneration) (Cdb CDB_INVALID_ARGS)) (\<lambda>_.
     rbind (adm_read a) (\<lambda>local.
     if nextGeneration < adm_generation local then Inl adm_invalid
     else if nextGeneration = adm_generation local then
       if adm_operationId local \<noteq> Some operationId then Inl adm_invalid
       else if adm_state local = Adm_released then Inl (Cdb CDB_STALE_EPOCH)
       else Inr (local, a)
     else
       (let next = \<lparr> adm_generation = nextGeneration, adm_operationId = Some operationId, adm_state = Adm_blocked \<rparr> in
        rbind (adm_write next a) (\<lambda>a'. Inr (next, a')))))"

definition adm_release :: "string \<Rightarrow> int \<Rightarrow> admission \<Rightarrow> (RecoveryAdmissionState \<times> admission) res" where
  "adm_release operationId expectedGeneration a =
     rbind (adm_read a) (\<lambda>local.
     if adm_generation local \<noteq> expectedGeneration \<or> adm_operationId local \<noteq> Some operationId then Inl (Cdb CDB_STALE_EPOCH)
     else if adm_state local = Adm_released then Inr (local, a)
     else if adm_state local \<noteq> Adm_blocked then Inl adm_invalid
     else (let next = local\<lparr>adm_state := Adm_released\<rparr> in rbind (adm_write next a) (\<lambda>a'. Inr (next, a'))))"

definition assertRequest :: "int \<Rightarrow> admission \<Rightarrow> unit res" where
  "assertRequest expectedGeneration a =
     rbind (adm_read a) (\<lambda>local.
     ensure (\<not> (\<not> safe_integer expectedGeneration \<or> expectedGeneration < 0 \<or> adm_state local = Adm_blocked \<or>
       adm_generation local \<noteq> expectedGeneration)) (Cdb CDB_STALE_EPOCH))"

definition blocksBackgroundWork :: "admission \<Rightarrow> bool res" where
  "blocksBackgroundWork a = rbind (adm_read a) (\<lambda>local. Inr (adm_state local = Adm_blocked))"

inductive admission_step :: "admission \<Rightarrow> admission \<Rightarrow> bool" where
  step_reconcile: "reconcile clock a = Inr (v, a') \<Longrightarrow> admission_step a a'"
| step_arm: "arm op g a = Inr (v, a') \<Longrightarrow> admission_step a a'"
| step_adm_release: "adm_release op g a = Inr (v, a') \<Longrightarrow> admission_step a a'"

section \<open>The invariant\<close>

definition admission_ok :: "RecoveryAdmissionState \<Rightarrow> bool" where
  "admission_ok r \<longleftrightarrow> safe_integer (adm_generation r) \<and> 0 \<le> adm_generation r \<and>
     (case adm_operationId r of None \<Rightarrow> adm_state r = Adm_open | Some op \<Rightarrow> adm_state r \<noteq> Adm_open \<and> RECOVERY_OPERATION_ID op)"

definition admission_inv :: "admission \<Rightarrow> bool" where
  "admission_inv a \<longleftrightarrow> (case a of None \<Rightarrow> False | Some r \<Rightarrow> admission_ok r)"

lemma adm_read_Inr: "adm_read a = Inr r \<longleftrightarrow> a = Some r \<and> admission_ok r"
  by (auto simp: adm_read_def admission_ok_def malformed_operation_def result_simps split: option.splits)

lemma adm_read_inv: "admission_inv a \<Longrightarrow> \<exists>r. a = Some r \<and> adm_read a = Inr r"
  by (auto simp: admission_inv_def adm_read_Inr split: option.splits)

text \<open>
  The order the gate moves in: the generation first; inside one generation from blocked to released
  to open, with the operation fixed until the gate opens.
\<close>

definition state_rank :: "admission_state \<Rightarrow> nat" where
  "state_rank s = (case s of Adm_blocked \<Rightarrow> 0 | Adm_released \<Rightarrow> 1 | Adm_open \<Rightarrow> 2)"

definition advances :: "RecoveryAdmissionState \<Rightarrow> RecoveryAdmissionState \<Rightarrow> bool" where
  "advances r r' \<longleftrightarrow> adm_generation r < adm_generation r' \<or>
     adm_generation r = adm_generation r' \<and> state_rank (adm_state r) \<le> state_rank (adm_state r') \<and>
     (adm_operationId r' = adm_operationId r \<or> adm_state r' = Adm_open)"

lemma advances_refl [simp]: "advances r r"
  by (simp add: advances_def)

lemma advances_trans:
  assumes "admission_ok r''" and "advances r r'" and "advances r' r''"
  shows "advances r r''"
  using assms by (auto simp: advances_def admission_ok_def state_rank_def split: admission_state.splits option.splits)

lemma admission_step_advances:
  assumes "admission_step (Some r) a'"
  shows "\<exists>r'. a' = Some r' \<and> admission_ok r' \<and> advances r r'"
  using assms
proof cases
  case (step_reconcile clock v)
  then show ?thesis
    by (auto simp: reconcile_def malformed_operation_def adm_read_Inr adm_write_def result_simps Let_def advances_def admission_ok_def state_rank_def
        split: if_splits option.splits admission_state.splits)
next
  case (step_arm op g v)
  then show ?thesis
    by (auto simp: arm_def adm_read_Inr adm_write_def result_simps Let_def advances_def admission_ok_def split: if_splits)
next
  case (step_adm_release op g v)
  then show ?thesis
    by (auto simp: adm_release_def adm_read_Inr adm_write_def result_simps Let_def advances_def admission_ok_def state_rank_def
        split: if_splits option.splits)
qed

lemma admission_steps_advance:
  assumes "admission_step\<^sup>*\<^sup>* a a'" and "a = Some r" and "admission_ok r"
  shows "\<exists>r'. a' = Some r' \<and> admission_ok r' \<and> advances r r'"
  using assms
proof (induction rule: rtranclp_induct)
  case (step b c)
  then obtain r1 where r1: "b = Some r1" "admission_ok r1" "advances r r1" by blast
  then show ?case using admission_step_advances [of r1 c] step.hyps(2) advances_trans by blast
qed auto

lemma initial_admission_ok: "\<exists>r. initial_admission = Some r \<and> admission_ok r"
  by (simp add: initial_admission_def admission_ok_def safe_integer_def)

section \<open>Properties\<close>

text \<open>
  The gate only moves forward: over any history its generation never falls; inside a generation it goes from
  blocked to released to open and never back, and the operation that blocks a generation is never
  replaced by another one at that generation.
\<close>

theorem admission_monotone:
  assumes "admission_step\<^sup>*\<^sup>* initial_admission (Some r)" and "admission_step\<^sup>*\<^sup>* (Some r) a'"
  shows "\<exists>r'. a' = Some r' \<and> adm_read a' = Inr r' \<and>
    (adm_generation r < adm_generation r' \<or>
     adm_generation r = adm_generation r' \<and> state_rank (adm_state r) \<le> state_rank (adm_state r') \<and>
     (adm_operationId r' = adm_operationId r \<or> adm_state r' = Adm_open))"
proof -
  obtain r0 where "initial_admission = Some r0" "admission_ok r0" using initial_admission_ok by blast
  then have "admission_ok r" using admission_steps_advance [OF assms(1)] by blast
  then obtain r' where "a' = Some r'" "admission_ok r'" "advances r r'"
    using admission_steps_advance [OF assms(2)] by blast
  then show ?thesis by (auto simp: adm_read_Inr advances_def)
qed

text \<open>
  Arming fences the past: once an operation has armed generation \<open>g\<close>, requests carrying an older
  generation are refused as stale in every later state, and so is every request while the gate is
  blocked.
\<close>

theorem arm_fences_older_requests:
  assumes "arm op g a = Inr (v, a1)" and "admission_step\<^sup>*\<^sup>* a1 a2" and "g' < g"
  shows "assertRequest g' a2 = Inl (Cdb CDB_STALE_EPOCH) \<and>
    (blocksBackgroundWork a2 = Inr True \<longrightarrow> (\<forall>n. assertRequest n a2 = Inl (Cdb CDB_STALE_EPOCH)))"
proof -
  have "\<exists>r. a1 = Some r \<and> admission_ok r \<and> adm_generation r = g"
    using assms(1) by (auto simp: arm_def adm_read_Inr adm_write_def result_simps Let_def admission_ok_def split: if_splits)
  then obtain r where r: "a1 = Some r" "admission_ok r" "adm_generation r = g" by blast
  obtain r' where r': "a2 = Some r'" "admission_ok r'" "advances r r'"
    using admission_steps_advance [OF assms(2) r(1,2)] by blast
  then have "adm_read a2 = Inr r'" "g \<le> adm_generation r'" using r(3) by (auto simp: adm_read_Inr advances_def)
  then show ?thesis using assms(3) by (auto simp: assertRequest_def blocksBackgroundWork_def ensure_def)
qed

text \<open>
  After arm, release and reconcile the gate admits exactly one generation: a request passes if and only if
  the gate is not blocked and the request carries its generation.
\<close>

theorem assertRequest_exact:
  assumes "admission_step\<^sup>*\<^sup>* initial_admission a"
  shows "\<exists>r. a = Some r \<and> (\<forall>g. assertRequest g a = Inr () \<longleftrightarrow> adm_state r \<noteq> Adm_blocked \<and> g = adm_generation r) \<and>
    (\<forall>g. assertRequest g a \<noteq> Inr () \<longrightarrow> assertRequest g a = Inl (Cdb CDB_STALE_EPOCH))"
proof -
  obtain r0 where "initial_admission = Some r0" "admission_ok r0" using initial_admission_ok by blast
  then obtain r where r: "a = Some r" "admission_ok r" using admission_steps_advance [OF assms] by blast
  then have "adm_read a = Inr r" by (simp add: adm_read_Inr)
  then show ?thesis using r by (auto simp: assertRequest_def ensure_def admission_ok_def)
qed

subsection \<open>Witnesses\<close>

definition sample_op :: string where "sample_op = ''00000000-0000-4000-8000-000000000000''"

definition armed_gate :: RecoveryAdmissionState where
  "armed_gate = \<lparr> adm_generation = 1, adm_operationId = Some sample_op, adm_state = Adm_blocked \<rparr>"

lemma sample_arm: "arm sample_op 1 initial_admission = Inr (armed_gate, Some armed_gate)"
  by code_simp

lemma sample_release: "adm_release sample_op 1 (Some armed_gate) =
    Inr (armed_gate\<lparr>adm_state := Adm_released\<rparr>, Some (armed_gate\<lparr>adm_state := Adm_released\<rparr>))"
  by code_simp

theorem admission_monotone_witness:
  "adm_read (Some (armed_gate\<lparr>adm_state := Adm_released\<rparr>)) = Inr (armed_gate\<lparr>adm_state := Adm_released\<rparr>)"
  using admission_monotone [OF r_into_rtranclp [of admission_step] r_into_rtranclp [of admission_step],
      OF step_arm [OF sample_arm] step_adm_release [OF sample_release]]
  by blast

theorem arm_fences_older_requests_witness: "assertRequest 0 (Some (armed_gate\<lparr>adm_state := Adm_released\<rparr>)) = Inl (Cdb CDB_STALE_EPOCH)"
  using arm_fences_older_requests [OF sample_arm r_into_rtranclp [of admission_step, OF step_adm_release [OF sample_release]], of 0]
  by simp

theorem assertRequest_exact_witness: "assertRequest 1 (Some armed_gate) = Inl (Cdb CDB_STALE_EPOCH)"
  using assertRequest_exact [OF r_into_rtranclp [of admission_step, OF step_arm [OF sample_arm]]]
  by (auto simp: armed_gate_def)

end
