(* ===== verification/Catalog_Topology.thy ===== *)
theory Catalog_Topology
  imports Catalog_Routing Topology_Operations Deletion_Barrier Recovery_Admission
begin

text \<open>
  The topology methods of the Catalog, \<^verbatim>\<open>src/src/server/do/catalog.ts\<close>: how the routing store, the topology
  lease, the deletion barriers and the recovery gate are composed into the begin, cut over, complete
  and abort of a range movement. A call takes the clock reading \<open>now\<close> it makes; the schema state and
  the version of the deployed journal are fields that other parts of the Catalog may set to anything.
\<close>

section \<open>State\<close>

record CatalogSchemaState =
  schema_active :: bool
  activeVersion :: int
  activeEpoch :: int
  activeDigest :: string

record catalog_rest =
  cat_operations :: operations
  cat_barriers :: barriers
  cat_deletions :: deletion_tables
  cat_admission :: admission
  cat_schema :: CatalogSchemaState
  cat_journalVersion :: int

type_synonym catalog = "catalog_routing \<times> catalog_rest"

record CatalogTopologyOperationRequest =
  top_migId :: string
  top_sourceShard :: string
  top_destinationShard :: string
  top_rangeLo :: int
  top_rangeHi :: int
  top_startEpoch :: int
  top_recoveryGeneration :: int

record CatalogDerivedTopologyOperationRequest =
  der_migId :: string
  der_destinationShard :: string
  der_rangeLo :: int
  der_rangeHi :: int
  der_recoveryGeneration :: int

record CatalogOrganizationDeletionBarrierRequest =
  bar_migId :: string
  bar_reqLo :: int
  bar_reqHi :: int
  bar_recoveryGeneration :: int

abbreviation topology_stale :: js_error where "topology_stale \<equiv> Cdb CDB_STALE_EPOCH"

section \<open>Calls on the stores\<close>

definition cat_reads :: "(catalog_rest \<Rightarrow> 'a res) \<Rightarrow> catalog \<Rightarrow> 'a res \<times> catalog" where
  "cat_reads f s = (f (snd s), s)"

definition with_rest :: "(catalog_rest \<Rightarrow> catalog \<Rightarrow> 'a) \<Rightarrow> catalog \<Rightarrow> 'a" where
  "with_rest f s = f (snd s) s"

definition on_store :: "(catalog_rest \<Rightarrow> ('a \<times> catalog_rest) res) \<Rightarrow> catalog \<Rightarrow> 'a res \<times> catalog" where
  "on_store f s = (case f (snd s) of Inl e \<Rightarrow> (Inl e, s) | Inr (a, x) \<Rightarrow> (Inr a, fst s, x))"

definition assertRecovery :: "int \<Rightarrow> catalog \<Rightarrow> unit res \<times> catalog" where
  "assertRecovery g = cat_reads (\<lambda>x. assertRequest g (cat_admission x))"

definition on_operations :: "(operations \<Rightarrow> ('a \<times> operations) res) \<Rightarrow> catalog_rest \<Rightarrow> ('a \<times> catalog_rest) res" where
  "on_operations f x = rbind (f (cat_operations x)) (\<lambda>(a, t). Inr (a, x\<lparr>cat_operations := t\<rparr>))"

definition on_barriers :: "(ledger \<Rightarrow> barriers \<Rightarrow> ('a \<times> barriers) res) \<Rightarrow> catalog_rest \<Rightarrow> ('a \<times> catalog_rest) res" where
  "on_barriers f x = rbind (f (deletions (cat_deletions x)) (cat_barriers x)) (\<lambda>(a, t). Inr (a, x\<lparr>cat_barriers := t\<rparr>))"

text \<open>
  The comparison of a range with the current routing that \<open>begin\<close>, \<open>complete\<close>, \<open>abort\<close> and the routing
  status make: both ends route to the shard at the epoch, and one stored range of the shard covers it.
  The result carries the epoch that was read.
\<close>

definition owned_at :: "int \<Rightarrow> int \<Rightarrow> string \<Rightarrow> int \<Rightarrow> catalog \<Rightarrow> (bool \<times> int) res \<times> catalog" where
  "owned_at l h shard epoch =
     sbind (on_routing (route l)) (\<lambda>start.
     sbind (on_routing (route h)) (\<lambda>end'.
     if snd start \<noteq> epoch \<or> snd end' \<noteq> epoch \<or> fst start \<noteq> shard \<or> fst end' \<noteq> shard
     then slift (Inr (False, snd start))
     else sbind (on_routing (ownsRange l h shard)) (\<lambda>owns. slift (Inr (owns, snd start)))))"

definition topologyIdentity :: "CatalogTopologyOperationRequest \<Rightarrow> int \<Rightarrow> int \<Rightarrow> string \<Rightarrow> CatalogTopologyOperationIdentity" where
  "topologyIdentity args schemaVersion schemaEpoch schemaDigest =
     \<lparr> op_migrationId = top_migId args, op_sourceShard = top_sourceShard args, op_destinationShard = top_destinationShard args,
       op_rangeLo = top_rangeLo args, op_rangeHi = top_rangeHi args, op_startEpoch = top_startEpoch args,
       op_schemaVersion = schemaVersion, op_schemaEpoch = schemaEpoch, op_schemaDigest = schemaDigest,
       op_recoveryGeneration = top_recoveryGeneration args \<rparr>"

definition deletionBarrierIdentity :: "string \<Rightarrow> int \<Rightarrow> int \<Rightarrow> CatalogOrganizationDeletionBarrierIdentity" where
  "deletionBarrierIdentity migId l h = \<lparr> bar_migrationId = migId, bar_rangeLo = l, bar_rangeHi = h \<rparr>"

definition schema_matches :: "CatalogSchemaState \<Rightarrow> CatalogTopologyOperation \<Rightarrow> bool" where
  "schema_matches sc r \<longleftrightarrow> activeVersion sc = op_schemaVersion r \<and> activeEpoch sc = op_schemaEpoch r \<and>
     activeDigest sc = op_schemaDigest r"

section \<open>Methods\<close>

definition assertDerivedTopologyOperationRequest :: "CatalogDerivedTopologyOperationRequest \<Rightarrow> unit res" where
  "assertDerivedTopologyOperationRequest args = ensure
     (opaque_id (der_migId args) \<and> opaque_id (der_destinationShard args) \<and>
      safe_integer (der_rangeLo args) \<and> safe_integer (der_rangeHi args) \<and> 0 \<le> der_rangeLo args \<and>
      der_rangeLo args \<le> der_rangeHi args \<and> der_rangeHi args < VSHARD_COUNT) (Cdb CDB_INVALID_ARGS)"

definition store_begin :: "CatalogTopologyOperationIdentity \<Rightarrow> int \<Rightarrow> catalog \<Rightarrow> CatalogTopologyOperation res \<times> catalog" where
  "store_begin i now = on_store (on_operations (op_begin i now))"

definition beginDerivedTopologyOperation ::
    "CatalogDerivedTopologyOperationRequest \<Rightarrow> int \<Rightarrow> catalog \<Rightarrow> CatalogTopologyOperation res \<times> catalog" where
  "beginDerivedTopologyOperation args now =
     sbind (slift (assertDerivedTopologyOperationRequest args)) (\<lambda>_.
     transactionSync (
       sbind (assertRecovery (der_recoveryGeneration args)) (\<lambda>_.
       with_rest (\<lambda>x.
       let sc = cat_schema x in
       case op_read (der_migId args) (cat_operations x) of
         Some existing \<Rightarrow>
           if \<not> schema_active sc \<or> \<not> schema_matches sc existing then slift (Inl topology_stale)
           else store_begin ((operation_identity existing)\<lparr>op_destinationShard := der_destinationShard args,
                  op_rangeLo := der_rangeLo args, op_rangeHi := der_rangeHi args,
                  op_recoveryGeneration := der_recoveryGeneration args\<rparr>) now
       | None \<Rightarrow>
           if \<not> schema_active sc \<or> activeVersion sc \<noteq> cat_journalVersion x then slift (Inl topology_stale)
           else
             sbind (on_routing (route (der_rangeLo args))) (\<lambda>start.
             sbind (on_routing (route (der_rangeHi args))) (\<lambda>end'.
             if fst start \<noteq> fst end' \<or> snd start \<noteq> snd end' then slift (Inl topology_stale)
             else
               sbind (on_routing (ownsRange (der_rangeLo args) (der_rangeHi args) (fst start))) (\<lambda>owns.
               if \<not> owns then slift (Inl topology_stale)
               else if der_destinationShard args = fst start then slift (Inl (Cdb CDB_INVALID_ARGS))
               else store_begin
                 \<lparr> op_migrationId = der_migId args, op_sourceShard = fst start, op_destinationShard = der_destinationShard args,
                   op_rangeLo = der_rangeLo args, op_rangeHi = der_rangeHi args, op_startEpoch = snd start,
                   op_schemaVersion = activeVersion sc, op_schemaEpoch = activeEpoch sc, op_schemaDigest = activeDigest sc,
                   op_recoveryGeneration = der_recoveryGeneration args \<rparr> now)))))))"

definition beginTopologyOperation ::
    "CatalogTopologyOperationRequest \<Rightarrow> int \<Rightarrow> catalog \<Rightarrow> CatalogTopologyOperation res \<times> catalog" where
  "beginTopologyOperation args now =
     transactionSync (
       sbind (assertRecovery (top_recoveryGeneration args)) (\<lambda>_.
       with_rest (\<lambda>x.
       let sc = cat_schema x in
       case op_read (top_migId args) (cat_operations x) of
         Some existing \<Rightarrow>
           if \<not> schema_active sc \<or> \<not> schema_matches sc existing then slift (Inl topology_stale)
           else store_begin (topologyIdentity args (op_schemaVersion existing) (op_schemaEpoch existing)
                  (op_schemaDigest existing)) now
       | None \<Rightarrow>
           if \<not> schema_active sc \<or> activeVersion sc \<noteq> cat_journalVersion x then slift (Inl topology_stale)
           else
             sbind (owned_at (top_rangeLo args) (top_rangeHi args) (top_sourceShard args) (top_startEpoch args)) (\<lambda>own.
             if \<not> fst own then slift (Inl topology_stale)
             else store_begin (topologyIdentity args (activeVersion sc) (activeEpoch sc) (activeDigest sc)) now))))"

definition topologyOperation :: "string \<Rightarrow> int \<Rightarrow> catalog \<Rightarrow> CatalogTopologyOperation option res \<times> catalog" where
  "topologyOperation migrationId recoveryGeneration =
     sbind (assertRecovery recoveryGeneration) (\<lambda>_. cat_reads (\<lambda>x. Inr (op_read migrationId (cat_operations x))))"

datatype routing_owner = Owner_source | Owner_destination

definition topologyRoutingStatus :: "CatalogTopologyOperationRequest \<Rightarrow> catalog \<Rightarrow>
    (routing_owner \<times> int \<times> CatalogTopologyOperationStatus) res \<times> catalog" where
  "topologyRoutingStatus args =
     sbind (assertRecovery (top_recoveryGeneration args)) (\<lambda>_.
     with_rest (\<lambda>x.
     case op_read (top_migId args) (cat_operations x) of
       None \<Rightarrow> slift (Inl topology_stale)
     | Some operation \<Rightarrow>
         if op_sourceShard operation \<noteq> top_sourceShard args \<or> op_destinationShard operation \<noteq> top_destinationShard args \<or>
            op_rangeLo operation \<noteq> top_rangeLo args \<or> op_rangeHi operation \<noteq> top_rangeHi args \<or>
            op_startEpoch operation \<noteq> top_startEpoch args \<or> op_recoveryGeneration operation \<noteq> top_recoveryGeneration args
         then slift (Inl topology_stale)
         else
           sbind (owned_at (top_rangeLo args) (top_rangeHi args) (top_sourceShard args) (top_startEpoch args)) (\<lambda>source.
           sbind (owned_at (top_rangeLo args) (top_rangeHi args) (top_destinationShard args) (top_startEpoch args + 1)) (\<lambda>destination.
           if fst source = fst destination then slift (Inl topology_stale)
           else if op_status operation = Op_aborted \<and> \<not> fst source \<or> op_status operation = Op_completed \<and> \<not> fst destination
           then slift (Inl topology_stale)
           else slift (Inr (if fst source then Owner_source else Owner_destination, snd source, op_status operation))))))"

text \<open>The transaction of \<open>beginOrganizationDeletionBarrier\<close>; the flag says whether older deletions are complete.\<close>

definition beginOrganizationDeletionBarrier :: "CatalogOrganizationDeletionBarrierRequest \<Rightarrow> int \<Rightarrow> catalog \<Rightarrow>
    (CatalogOrganizationDeletionBarrier \<times> bool) res \<times> catalog" where
  "beginOrganizationDeletionBarrier args now =
     transactionSync (
       sbind (assertRecovery (bar_recoveryGeneration args)) (\<lambda>_.
       with_rest (\<lambda>x.
       let i = deletionBarrierIdentity (bar_migId args) (bar_reqLo args) (bar_reqHi args) in
       case op_read (bar_migId args) (cat_operations x) of
         None \<Rightarrow> slift (Inl topology_stale)
       | Some topology \<Rightarrow>
           if op_status topology \<noteq> Op_active \<or> op_rangeLo topology \<noteq> bar_reqLo args \<or> op_rangeHi topology \<noteq> bar_reqHi args
           then slift (Inl topology_stale)
           else
             sbind (on_store (on_barriers (bar_begin i now))) (\<lambda>b.
             cat_reads (\<lambda>x. rbind (bar_status_of i (deletions (cat_deletions x)) (cat_barriers x)) (\<lambda>st.
               Inr (b, olderDeletionsComplete st)))))))"

definition organizationDeletionBarrierStatus :: "CatalogOrganizationDeletionBarrierRequest \<Rightarrow> catalog \<Rightarrow>
    CatalogOrganizationDeletionBarrierStatus res \<times> catalog" where
  "organizationDeletionBarrierStatus args =
     sbind (assertRecovery (bar_recoveryGeneration args)) (\<lambda>_. cat_reads (\<lambda>x.
       bar_status_of (deletionBarrierIdentity (bar_migId args) (bar_reqLo args) (bar_reqHi args))
         (deletions (cat_deletions x)) (cat_barriers x)))"

definition completeTopologyOperation ::
    "CatalogTopologyOperationRequest \<Rightarrow> int \<Rightarrow> catalog \<Rightarrow> CatalogTopologyOperation res \<times> catalog" where
  "completeTopologyOperation args now =
     transactionSync (
       sbind (assertRecovery (top_recoveryGeneration args)) (\<lambda>_.
       with_rest (\<lambda>x.
       case op_read (top_migId args) (cat_operations x) of
         None \<Rightarrow> slift (Inl topology_stale)
       | Some stored \<Rightarrow>
           let i = topologyIdentity args (op_schemaVersion stored) (op_schemaEpoch stored) (op_schemaDigest stored) in
           sbind (store_begin i now) (\<lambda>exact.
           case op_status exact of
             Op_completed \<Rightarrow> slift (Inr exact)
           | Op_aborted \<Rightarrow> slift (Inl topology_stale)
           | Op_active \<Rightarrow>
               sbind (owned_at (top_rangeLo args) (top_rangeHi args) (top_destinationShard args) (top_startEpoch args + 1)) (\<lambda>own.
               if \<not> fst own then slift (Inl topology_stale)
               else on_store (on_operations (op_complete i (snd own) now)))))))"

definition abort_barrier :: "CatalogTopologyOperationRequest \<Rightarrow> int \<Rightarrow> catalog_rest \<Rightarrow> catalog_rest res" where
  "abort_barrier args now x =
     rbind (bar_read (top_migId args) (cat_barriers x)) (\<lambda>b. case b of
       None \<Rightarrow> Inr x
     | Some _ \<Rightarrow> rbind (on_barriers (\<lambda>_. bar_abort
         (deletionBarrierIdentity (top_migId args) (top_rangeLo args) (top_rangeHi args)) now) x) (\<lambda>(_, x'). Inr x'))"

definition abortTopologyOperation ::
    "CatalogTopologyOperationRequest \<Rightarrow> int \<Rightarrow> catalog \<Rightarrow> CatalogTopologyOperation res \<times> catalog" where
  "abortTopologyOperation args now =
     transactionSync (
       sbind (assertRecovery (top_recoveryGeneration args)) (\<lambda>_.
       with_rest (\<lambda>x.
       case op_read (top_migId args) (cat_operations x) of
         None \<Rightarrow> slift (Inl topology_stale)
       | Some stored \<Rightarrow>
           let i = topologyIdentity args (op_schemaVersion stored) (op_schemaEpoch stored) (op_schemaDigest stored) in
           sbind (store_begin i now) (\<lambda>exact.
           case op_status exact of
             Op_aborted \<Rightarrow> slift (Inr exact)
           | Op_completed \<Rightarrow> slift (Inl topology_stale)
           | Op_active \<Rightarrow>
               sbind (owned_at (top_rangeLo args) (top_rangeHi args) (top_sourceShard args) (top_startEpoch args)) (\<lambda>own.
               if \<not> fst own then slift (Inl topology_stale)
               else
                 sbind (on_store (on_operations (op_abort i now))) (\<lambda>operation.
                 sbind (on_rest (abort_barrier args now)) (\<lambda>_. slift (Inr operation))))))))"

text \<open>The hooks of \<open>cutover\<close>. \<open>sc\<close> is the schema state read before the transaction.\<close>

definition cutover_before :: "CatalogCutoverRequest \<Rightarrow> int option \<Rightarrow> int \<Rightarrow> CatalogSchemaState \<Rightarrow> int \<Rightarrow> int \<Rightarrow>
    catalog_rest \<Rightarrow> catalog_rest res" where
  "cutover_before args startEpoch recoveryGeneration sc now currentEpoch x =
     rbind (assertRequest recoveryGeneration (cat_admission x)) (\<lambda>_.
     case op_read (req_migId args) (cat_operations x) of
       None \<Rightarrow> Inl topology_stale
     | Some existing \<Rightarrow>
         (let start = (case startEpoch of Some e \<Rightarrow> e | None \<Rightarrow> op_startEpoch existing);
              i = topologyIdentity \<lparr> top_migId = req_migId args, top_sourceShard = req_fromShard args,
                    top_destinationShard = req_toShard args, top_rangeLo = req_lo args, top_rangeHi = req_hi args,
                    top_startEpoch = start, top_recoveryGeneration = recoveryGeneration \<rparr>
                  (op_schemaVersion existing) (op_schemaEpoch existing) (op_schemaDigest existing) in
          rbind (op_begin i now (cat_operations x)) (\<lambda>(exact, t).
          if op_status exact = Op_aborted then Inl topology_stale
          else if op_status exact = Op_active \<and> (\<not> schema_matches sc exact \<or>
              currentEpoch \<noteq> op_startEpoch exact \<and> currentEpoch \<noteq> op_startEpoch exact + 1)
          then Inl topology_stale
          else Inr (x\<lparr>cat_operations := t\<rparr>))))"

definition cutover_after :: "CatalogCutoverRequest \<Rightarrow> int \<Rightarrow> int \<Rightarrow> bool \<Rightarrow> catalog_rest \<Rightarrow> catalog_rest res" where
  "cutover_after args now newEpoch' applied' x =
     rbind (bar_read (req_migId args) (cat_barriers x)) (\<lambda>b. case b of
       None \<Rightarrow> Inr x
     | Some _ \<Rightarrow> rbind (on_barriers (bar_release (deletionBarrierIdentity (req_migId args) (req_lo args) (req_hi args)) now) x)
         (\<lambda>(_, x'). Inr x'))"

definition catalog_cutover :: "CatalogCutoverRequest \<Rightarrow> int option \<Rightarrow> int \<Rightarrow> int \<Rightarrow> catalog \<Rightarrow>
    CatalogCutoverResult res \<times> catalog" where
  "catalog_cutover args startEpoch recoveryGeneration now =
     sbind (assertRecovery recoveryGeneration) (\<lambda>_ s.
     let sc = cat_schema (snd s);
         stored = op_read (req_migId args) (cat_operations (snd s)) in
     if \<not> schema_active sc \<or>
        (case stored of None \<Rightarrow> activeVersion sc \<noteq> cat_journalVersion (snd s) | Some r \<Rightarrow> \<not> schema_matches sc r)
     then (Inl topology_stale, s)
     else cutover args (cutover_before args startEpoch recoveryGeneration sc now) (cutover_after args now) s)"

section \<open>The Catalog as a transition system\<close>

text \<open>
  Any call, successful or not; a recorded or cleaned organization deletion; a move of the recovery
  gate; and any change of schema state or journal.
\<close>

inductive catalog_step :: "catalog \<Rightarrow> catalog \<Rightarrow> bool" where
  cat_begin_derived: "beginDerivedTopologyOperation a1 now s = (r1, s') \<Longrightarrow> catalog_step s s'"
| cat_begin: "beginTopologyOperation a2 now s = (r2, s') \<Longrightarrow> catalog_step s s'"
| cat_barrier: "beginOrganizationDeletionBarrier a3 now s = (r3, s') \<Longrightarrow> catalog_step s s'"
| cat_complete: "completeTopologyOperation a2 now s = (r2, s') \<Longrightarrow> catalog_step s s'"
| cat_abort: "abortTopologyOperation a2 now s = (r2, s') \<Longrightarrow> catalog_step s s'"
| cat_cutover: "catalog_cutover a4 e g now s = (r4, s') \<Longrightarrow> catalog_step s s'"
| cat_record: "record_deleted_organization owner res now org (cat_barriers x, cat_deletions x) = Inr (t, d) \<Longrightarrow>
    catalog_step (c, x) (c, x\<lparr>cat_barriers := t, cat_deletions := d\<rparr>)"
| cat_cleanup: "deletion_step (cat_deletions x) d \<Longrightarrow> length (deletions d) = length (deletions (cat_deletions x)) \<Longrightarrow>
    catalog_step (c, x) (c, x\<lparr>cat_deletions := d\<rparr>)"
| cat_admission_step: "admission_step (cat_admission x) a \<Longrightarrow> catalog_step (c, x) (c, x\<lparr>cat_admission := a\<rparr>)"
| cat_environment: "catalog_step (c, x) (c, x\<lparr>cat_schema := sc, cat_journalVersion := v\<rparr>)"

section \<open>Calls that leave the routing tables\<close>

definition quiet :: "(catalog \<Rightarrow> 'a res \<times> catalog) \<Rightarrow> bool" where
  "quiet prog \<longleftrightarrow> (\<forall>c x r c' x'. routing_inv c \<longrightarrow> prog (c, x) = (r, c', x') \<longrightarrow> same_tables c c' \<and> routing_inv c')"

named_theorems quiet_intros \<open>composing calls that leave the routing tables\<close>

lemma quietD: "quiet prog \<Longrightarrow> routing_inv c \<Longrightarrow> prog (c, x) = (r, c', x') \<Longrightarrow> same_tables c c' \<and> routing_inv c'"
  unfolding quiet_def by blast

lemma same_tables_refl [simp]: "same_tables c c"
  by (simp add: same_tables_def)

lemma same_tables_trans: "same_tables a b \<Longrightarrow> same_tables b c \<Longrightarrow> same_tables a c"
  by (simp add: same_tables_def)

lemma quiet_sbind [quiet_intros]:
  assumes "quiet m" and "\<And>a. quiet (k a)"
  shows "quiet (sbind m k)"
  unfolding quiet_def
proof (intro allI impI)
  fix c x r c' x' assume inv: "routing_inv c" and run: "sbind m k (c, x) = (r, c', x')"
  obtain q c1 x1 where m: "m (c, x) = (q, c1, x1)" by (metis prod.exhaust)
  have m': "same_tables c c1 \<and> routing_inv c1" using quietD [OF assms(1) inv m] .
  show "same_tables c c' \<and> routing_inv c'"
  proof (cases q)
    case (Inl e)
    then show ?thesis using run m m' by (simp add: sbind_def)
  next
    case (Inr a)
    then have "k a (c1, x1) = (r, c', x')" using run m by (simp add: sbind_def)
    then show ?thesis using quietD [OF assms(2)] m' same_tables_trans by blast
  qed
qed

lemma quiet_slift [quiet_intros]: "quiet (slift r)"
  by (simp add: quiet_def slift_def)

lemma quiet_cat_reads [quiet_intros]: "quiet (cat_reads f)"
  by (simp add: quiet_def cat_reads_def)

lemma quiet_assertRecovery [quiet_intros]: "quiet (assertRecovery g)"
  unfolding assertRecovery_def by (rule quiet_cat_reads)

lemma quiet_with_rest [quiet_intros]:
  assumes "\<And>x. quiet (f x)"
  shows "quiet (with_rest f)"
  unfolding quiet_def with_rest_def using quietD [OF assms] by simp

lemma quiet_on_store [quiet_intros]: "quiet (on_store f)"
  by (auto simp: quiet_def on_store_def split: sum.splits)

lemma quiet_store_begin [quiet_intros]: "quiet (store_begin i now)"
  unfolding store_begin_def by (rule quiet_on_store)

lemma quiet_on_rest [quiet_intros]: "quiet (on_rest f)"
  by (auto simp: quiet_def on_rest_def split: sum.splits)

lemma route_result:
  assumes "routing_inv c" and "route v c = (r, c')"
  shows "same_tables c c' \<and> routing_inv c' \<and>
    (\<forall>s e. r = Inr (s, e) \<longrightarrow> e = readSchemaEpoch c \<and> routeVshard (catalog_ranges c) v = Inr s)"
proof -
  obtain c1 where c1: "catalog_map c = (Inr (catalog_ranges c), c1)" "routing_inv c1"
    "c1 = c\<lparr>cachedMap := Some (catalog_ranges c)\<rparr>"
    using assms(1) by (rule catalog_map_inv)
  then show ?thesis using assms(2)
    by (cases "routeVshard (catalog_ranges c) v")
      (auto simp: route_def sbind_def slift_def same_tables_def readSchemaEpoch_def)
qed

lemma quiet_route [quiet_intros]: "quiet (on_routing (route v))"
  unfolding quiet_def on_routing_def using route_result by (auto split: prod.splits)

lemma quiet_ownsRange [quiet_intros]: "quiet (on_routing (ownsRange l h s))"
  unfolding quiet_def
proof (intro allI impI)
  fix c x r c' x' assume inv: "routing_inv c" and run: "on_routing (ownsRange l h s) (c, x) = (r, c', x')"
  obtain b c1 where "ownsRange l h s c = (b, c1)" "same_tables c c1 \<and> routing_inv c1" using ownsRange_inv [OF inv] by blast
  then show "same_tables c c' \<and> routing_inv c'" using run by (simp add: on_routing_def)
qed

lemma quiet_transactionSync [quiet_intros]:
  assumes "quiet body"
  shows "quiet (transactionSync body)"
  unfolding quiet_def
proof (intro allI impI)
  fix c x r c' x' assume inv: "routing_inv c" and run: "transactionSync body (c, x) = (r, c', x')"
  obtain q c1 x1 where b: "body (c, x) = (q, c1, x1)" by (metis prod.exhaust)
  have b': "same_tables c c1 \<and> routing_inv c1" using quietD [OF assms inv b] .
  then show "same_tables c c' \<and> routing_inv c'" using run b inv
    by (cases q) (auto simp: transactionSync_def same_tables_def routing_inv_def split: option.splits)
qed

lemma quiet_if [quiet_intros]: "quiet a \<Longrightarrow> quiet b \<Longrightarrow> quiet (if p then a else b)"
  by simp

lemma quiet_option [quiet_intros]: "quiet a \<Longrightarrow> (\<And>y. quiet (b y)) \<Longrightarrow> quiet (case z of None \<Rightarrow> a | Some y \<Rightarrow> b y)"
  by (cases z) simp_all

lemma quiet_status [quiet_intros]:
  "quiet a \<Longrightarrow> quiet b \<Longrightarrow> quiet d \<Longrightarrow> quiet (case z of Op_active \<Rightarrow> a | Op_completed \<Rightarrow> b | Op_aborted \<Rightarrow> d)"
  by (cases z) simp_all

lemma quiet_owned_at [quiet_intros]: "quiet (owned_at l h sh e)"
  unfolding owned_at_def by (intro quiet_intros)

lemma quiet_methods:
  "quiet (beginDerivedTopologyOperation a1 now)" "quiet (beginTopologyOperation a2 now)"
  "quiet (beginOrganizationDeletionBarrier a3 now)" "quiet (completeTopologyOperation a2 now)"
  "quiet (abortTopologyOperation a2 now)"
  unfolding beginDerivedTopologyOperation_def beginTopologyOperation_def beginOrganizationDeletionBarrier_def
    completeTopologyOperation_def abortTopologyOperation_def Let_def
  by (intro quiet_intros)+

section \<open>What each method does to the leases\<close>

definition owns :: "catalog_routing \<Rightarrow> int \<Rightarrow> int \<Rightarrow> string \<Rightarrow> bool" where
  "owns c l h sh \<longleftrightarrow> (\<forall>v. l \<le> v \<and> v \<le> h \<longrightarrow> routeVshard (catalog_ranges c) v = Inr sh)"

definition cut_op :: "catalog_routing \<Rightarrow> CatalogTopologyOperation \<Rightarrow> bool" where
  "cut_op c r \<longleftrightarrow> cutover_key (op_migrationId r) \<in> fst ` set (catalog_meta c)"

text \<open>
  The state of a movement, as its record says: an active one has either not been cut over and is
  owned by its source at its start epoch, or has been and is owned by its destination one epoch
  later; a completed one has been cut over, an aborted one never was.
\<close>

definition lease_ok :: "catalog_routing \<Rightarrow> CatalogTopologyOperation \<Rightarrow> bool" where
  "lease_ok c r = (case op_status r of
       Op_active \<Rightarrow> \<not> cut_op c r \<and> readSchemaEpoch c = op_startEpoch r \<and> owns c (op_rangeLo r) (op_rangeHi r) (op_sourceShard r) \<or>
         cut_op c r \<and> readSchemaEpoch c = op_startEpoch r + 1 \<and> owns c (op_rangeLo r) (op_rangeHi r) (op_destinationShard r)
     | Op_completed \<Rightarrow> cut_op c r \<and> op_completedEpoch r = Some (op_startEpoch r + 1) \<and> op_startEpoch r < readSchemaEpoch c
     | Op_aborted \<Rightarrow> \<not> cut_op c r \<and> op_startEpoch r \<le> readSchemaEpoch c)"

definition leases_ok :: "catalog_routing \<Rightarrow> operations \<Rightarrow> bool" where
  "leases_ok c t \<longleftrightarrow> (\<forall>r \<in> set t. lease_ok c r) \<and>
     fst ` set (catalog_meta c) \<subseteq> (\<lambda>r. cutover_key (op_migrationId r)) ` set t"

lemma cutover_key_inj: "cutover_key a = cutover_key b \<longleftrightarrow> a = b"
  by (simp add: cutover_key_def)

lemma owns_same: "same_tables c c' \<Longrightarrow> owns c' l h sh = owns c l h sh"
  by (simp add: owns_def same_tables_def)

lemma epoch_same: "same_tables c c' \<Longrightarrow> readSchemaEpoch c' = readSchemaEpoch c"
  by (simp add: readSchemaEpoch_def same_tables_def)

lemma cut_op_same: "same_tables c c' \<Longrightarrow> cut_op c' r = cut_op c r"
  by (simp add: cut_op_def same_tables_def)

lemma lease_ok_same: "same_tables c c' \<Longrightarrow> lease_ok c' r = lease_ok c r"
  using owns_same [of c c'] epoch_same [of c c'] cut_op_same [of c c']
  by (cases "op_status r") (simp_all add: lease_ok_def)

lemma leases_ok_same: "same_tables c c' \<Longrightarrow> leases_ok c' t = leases_ok c t"
  using lease_ok_same [of c c'] by (simp add: leases_ok_def, simp add: same_tables_def)

text \<open>A range of the table that covers \<open>[l, h]\<close> owns it.\<close>

lemma covering_range_owns:
  assumes "routing_inv c" and "r \<in> set (catalog_ranges c)" and "lo r \<le> l" and "h \<le> hi r"
  shows "owns c l h (shardId r)"
  unfolding owns_def
proof (intro allI impI)
  fix v assume v: "l \<le> v \<and> v \<le> h"
  obtain k where k: "k < length (catalog_ranges c)" "catalog_ranges c ! k = r" using assms(2) by (auto simp: in_set_conv_nth)
  then have "covers (catalog_ranges c ! k) v" using v assms(3,4) by (simp add: covers_def)
  then show "routeVshard (catalog_ranges c) v = Inr (shardId r)"
    using routeVshard_covers [OF _ k(1)] k(2) assms(1) by (simp add: routing_inv_def)
qed

lemma owned_at_result:
  assumes "routing_inv c" and "owned_at l h sh e (c, x) = (r, c', x')"
  shows "x' = x \<and> (\<forall>b ep. r = Inr (b, ep) \<longrightarrow> ep = readSchemaEpoch c \<and> (b \<longrightarrow> readSchemaEpoch c = e \<and> owns c l h sh))"
proof -
  obtain r1 c1 where r1: "route l c = (r1, c1)" by (cases "route l c")
  note c1 = route_result [OF assms(1) r1]
  then have inv1: "routing_inv c1" by blast
  obtain r2 c2 where r2: "route h c1 = (r2, c2)" by (cases "route h c1")
  note c2 = route_result [OF inv1 r2]
  then have inv2: "routing_inv c2" by blast
  have t2: "same_tables c c2" using c1 c2 same_tables_trans by blast
  obtain c3 where c3: "ownsRange l h sh c2 = (Inr (\<exists>r \<in> set (catalog_ranges c2). lo r \<le> l \<and> h \<le> hi r \<and> shardId r = sh), c3)"
    using ownsRange_inv [OF inv2] by blast
  have own: "owns c l h sh" if "\<exists>r \<in> set (catalog_ranges c2). lo r \<le> l \<and> h \<le> hi r \<and> shardId r = sh"
    using that covering_range_owns [OF inv2] owns_same [OF t2] by blast
  show ?thesis
    using assms(2) c1 c2 c3 own epoch_same
    by (cases r1; cases r2)
      (auto simp: owned_at_def sbind_def on_routing_def slift_def r1 r2 split: if_splits)
qed

lemma transactionSync_cases:
  assumes "transactionSync body (c, x) = (r, c', x')"
  obtains e where "r = Inl e" and "x' = x" | a where "r = Inr a" and "body (c, x) = (Inr a, c', x')"
  using assms by (cases "body (c, x)"; cases "fst (body (c, x))") (auto simp: transactionSync_def)

lemma sbind_Inr [result_simps]:
  "sbind m k s = (Inr a, s') \<longleftrightarrow> (\<exists>b s1. m s = (Inr b, s1) \<and> k b s1 = (Inr a, s'))"
  by (cases "m s"; cases "fst (m s)") (auto simp: sbind_def)

lemma slift_Inr [result_simps]: "slift q s = (r, s') \<longleftrightarrow> r = q \<and> s' = s"
  by (auto simp: slift_def)

lemma assertRecovery_Inr [result_simps]:
  "assertRecovery g s = (Inr u, s') \<longleftrightarrow> s' = s \<and> assertRequest g (cat_admission (snd s)) = Inr ()"
  by (auto simp: assertRecovery_def cat_reads_def)

lemma store_begin_Inr [result_simps]:
  "store_begin i now (c, x) = (Inr a, s') \<longleftrightarrow>
     (\<exists>t. op_begin i now (cat_operations x) = Inr (a, t) \<and> s' = (c, x\<lparr>cat_operations := t\<rparr>))"
  by (auto simp: store_begin_def on_store_def on_operations_def rbind_eq_Inr split: sum.splits)

lemma on_store_Inr [result_simps]:
  "on_store f (c, x) = (Inr a, s') \<longleftrightarrow> (\<exists>x'. f x = Inr (a, x') \<and> s' = (c, x'))"
  by (auto simp: on_store_def split: sum.splits)

lemma on_operations_Inr [result_simps]:
  "on_operations f x = Inr (a, x') \<longleftrightarrow> (\<exists>t. f (cat_operations x) = Inr (a, t) \<and> x' = x\<lparr>cat_operations := t\<rparr>)"
  by (auto simp: on_operations_def rbind_eq_Inr)

lemma on_rest_Inr [result_simps]: "on_rest f (c, x) = (Inr u, s') \<longleftrightarrow> (\<exists>x'. f x = Inr x' \<and> s' = (c, x'))"
  by (auto simp: on_rest_def split: sum.splits)

text \<open>
  A claim either retries a recorded operation or opens a lease on a range its source owns now, at the schema that is active now.
\<close>

definition leased_schema :: "CatalogSchemaState \<Rightarrow> CatalogTopologyOperationIdentity \<Rightarrow> bool" where
  "leased_schema sc i \<longleftrightarrow> schema_active sc \<and> op_schemaVersion i = activeVersion sc \<and> op_schemaEpoch i = activeEpoch sc \<and>
     op_schemaDigest i = activeDigest sc"

definition claims :: "catalog_routing \<Rightarrow> CatalogSchemaState \<Rightarrow> operations \<Rightarrow> operations \<Rightarrow> bool" where
  "claims c sc t t' \<longleftrightarrow> t' = t \<or> (\<exists>i now r. op_begin i now t = Inr (r, t') \<and>
     readSchemaEpoch c = op_startEpoch i \<and> owns c (op_rangeLo i) (op_rangeHi i) (op_sourceShard i) \<and> leased_schema sc i)"

lemma claimsI:
  "op_begin i now t = Inr (r, t') \<Longrightarrow> readSchemaEpoch c = op_startEpoch i \<Longrightarrow>
     owns c (op_rangeLo i) (op_rangeHi i) (op_sourceShard i) \<Longrightarrow> leased_schema sc i \<Longrightarrow> claims c sc t t'"
  unfolding claims_def by blast

lemma op_begin_existing:
  "op_read (op_migrationId i) t = Some e \<Longrightarrow> op_begin i now t = Inr (r, t') \<Longrightarrow> t' = t \<and> r = e \<and> operation_identity e = i"
  by (auto simp: op_begin_def op_assertExact_def sameIdentity_iff rbind_eq_Inr ensure_eq_Inr)

lemma topologyIdentity_simps [simp]:
  "op_migrationId (topologyIdentity args v e d) = top_migId args" "op_sourceShard (topologyIdentity args v e d) = top_sourceShard args"
  "op_destinationShard (topologyIdentity args v e d) = top_destinationShard args"
  "op_rangeLo (topologyIdentity args v e d) = top_rangeLo args" "op_rangeHi (topologyIdentity args v e d) = top_rangeHi args"
  "op_startEpoch (topologyIdentity args v e d) = top_startEpoch args"
  "op_schemaVersion (topologyIdentity args v e d) = v" "op_schemaEpoch (topologyIdentity args v e d) = e"
  "op_schemaDigest (topologyIdentity args v e d) = d"
  by (simp_all add: topologyIdentity_def)

text \<open>Peeling a successful transaction: the recovery check passes and the rest runs on the same state.\<close>

lemma recovery_then:
  assumes "sbind (assertRecovery g) (\<lambda>_. with_rest f) (c, x) = (Inr a, s')"
  shows "f x (c, x) = (Inr a, s')"
  using assms by (auto simp: sbind_Inr assertRecovery_Inr with_rest_def)

lemma owned_then:
  assumes "routing_inv c" and "sbind (owned_at l h sh e) (\<lambda>own. if \<not> fst own then slift (Inl err) else k own) (c, x) = (Inr a, s')"
  obtains c1 where "readSchemaEpoch c = e" and "owns c l h sh" and "same_tables c c1" and "routing_inv c1"
    and "k (True, e) (c1, x) = (Inr a, s')"
proof -
  from assms(2) obtain own c1 x1 where o: "owned_at l h sh e (c, x) = (Inr own, c1, x1)"
    and k: "(if \<not> fst own then slift (Inl err) else k own) (c1, x1) = (Inr a, s')"
    by (auto simp: sbind_Inr)
  have "fst own" using k by (auto simp: slift_Inr split: if_splits)
  moreover obtain b ep where own: "own = (b, ep)" by (cases own)
  ultimately have b: "b" by simp
  have "x1 = x \<and> ep = readSchemaEpoch c \<and> (b \<longrightarrow> readSchemaEpoch c = e \<and> owns c l h sh)"
    using owned_at_result [OF assms(1) o] own by simp
  moreover have "same_tables c c1 \<and> routing_inv c1" using quietD [OF quiet_owned_at assms(1) o] .
  ultimately show ?thesis using that [of c1] b k own by simp
qed

lemma begin_claims:
  assumes "routing_inv c" and "beginTopologyOperation args now (c, x) = (r, c', x')"
  shows "x' = x\<lparr>cat_operations := cat_operations x'\<rparr> \<and> claims c (cat_schema x) (cat_operations x) (cat_operations x')"
  using assms(2) unfolding beginTopologyOperation_def
proof (cases rule: transactionSync_cases)
  case (1 e)
  then show ?thesis by (simp add: claims_def)
next
  case (2 a)
  note run = recovery_then [OF 2(2)]
  show ?thesis
  proof (cases "op_read (top_migId args) (cat_operations x)")
    case None
    let ?i = "topologyIdentity args (activeVersion (cat_schema x)) (activeEpoch (cat_schema x)) (activeDigest (cat_schema x))"
    have active: "schema_active (cat_schema x)" using run None by (simp add: Let_def slift_Inr split: if_splits)
    have "sbind (owned_at (top_rangeLo args) (top_rangeHi args) (top_sourceShard args) (top_startEpoch args))
       (\<lambda>own. if \<not> fst own then slift (Inl topology_stale) else store_begin ?i now) (c, x) = (Inr a, c', x')"
      using run None by (simp add: Let_def slift_Inr split: if_splits)
    with assms(1) obtain c1 where own: "readSchemaEpoch c = top_startEpoch args"
        "owns c (top_rangeLo args) (top_rangeHi args) (top_sourceShard args)"
      and "store_begin ?i now (c1, x) = (Inr a, c', x')"
      by (rule owned_then)
    then obtain t where t: "op_begin ?i now (cat_operations x) = Inr (a, t)" "x' = x\<lparr>cat_operations := t\<rparr>"
      by (auto simp: store_begin_Inr)
    then show ?thesis using claimsI [OF t(1)] own active by (simp add: leased_schema_def)
  next
    case (Some e)
    let ?i = "topologyIdentity args (op_schemaVersion e) (op_schemaEpoch e) (op_schemaDigest e)"
    have "store_begin ?i now (c, x) = (Inr a, c', x')"
      using run Some by (simp add: Let_def slift_Inr split: if_splits)
    then obtain t where t: "op_begin ?i now (cat_operations x) = Inr (a, t)" "x' = x\<lparr>cat_operations := t\<rparr>"
      by (auto simp: store_begin_Inr)
    then show ?thesis using op_begin_existing [of ?i "cat_operations x" e now a t] Some by (simp add: claims_def)
  qed
qed

lemma begin_derived_claims:
  assumes "routing_inv c" and "beginDerivedTopologyOperation args now (c, x) = (r, c', x')"
  shows "x' = x\<lparr>cat_operations := cat_operations x'\<rparr> \<and> claims c (cat_schema x) (cat_operations x) (cat_operations x')"
proof (cases "assertDerivedTopologyOperationRequest args")
  case (Inl e)
  then show ?thesis using assms(2) by (simp add: beginDerivedTopologyOperation_def sbind_def slift_def claims_def)
next
  case (Inr u)
  from assms(2) show ?thesis unfolding beginDerivedTopologyOperation_def sbind_slift Inr sum.case
  proof (cases rule: transactionSync_cases)
    case (1 e)
    then show ?thesis by (simp add: claims_def)
  next
    case (2 a)
    note run = recovery_then [OF 2(2)]
    show ?thesis
    proof (cases "op_read (der_migId args) (cat_operations x)")
      case None
      let ?i = "\<lambda>start. \<lparr> op_migrationId = der_migId args, op_sourceShard = fst start, op_destinationShard = der_destinationShard args,
        op_rangeLo = der_rangeLo args, op_rangeHi = der_rangeHi args, op_startEpoch = snd start,
        op_schemaVersion = activeVersion (cat_schema x), op_schemaEpoch = activeEpoch (cat_schema x),
        op_schemaDigest = activeDigest (cat_schema x), op_recoveryGeneration = der_recoveryGeneration args \<rparr>"
      from None obtain start end' c1 x1 c2 x2 c3 x3 where
        r1: "on_routing (route (der_rangeLo args)) (c, x) = (Inr start, c1, x1)" and
        r2: "on_routing (route (der_rangeHi args)) (c1, x1) = (Inr end', c2, x2)" and
        r3: "on_routing (ownsRange (der_rangeLo args) (der_rangeHi args) (fst start)) (c2, x2) = (Inr True, c3, x3)" and
        b: "store_begin (?i start) now (c3, x3) = (Inr a, c', x')" and active: "schema_active (cat_schema x)"
        using run by (auto simp: Let_def sbind_Inr slift_Inr split: if_splits)
      have x: "x1 = x" "x2 = x" "x3 = x" using r1 r2 r3 by (auto simp: on_routing_def split: prod.splits)
      obtain sh ep where start: "start = (sh, ep)" by (cases start)
      have c1: "same_tables c c1 \<and> routing_inv c1 \<and> ep = readSchemaEpoch c"
        using route_result [OF assms(1), of "der_rangeLo args" "Inr start" c1] r1 start by (auto simp: on_routing_def split: prod.splits)
      then have c2: "same_tables c c2 \<and> routing_inv c2"
        using quietD [OF quiet_route _ r2] same_tables_trans by blast
      then obtain c4 where "ownsRange (der_rangeLo args) (der_rangeHi args) sh c2 =
          (Inr (\<exists>r \<in> set (catalog_ranges c2). lo r \<le> der_rangeLo args \<and> der_rangeHi args \<le> hi r \<and> shardId r = sh), c4)"
        using ownsRange_inv by blast
      then have "\<exists>r \<in> set (catalog_ranges c2). lo r \<le> der_rangeLo args \<and> der_rangeHi args \<le> hi r \<and> shardId r = sh"
        using r3 start by (simp add: on_routing_def)
      then have "owns c (der_rangeLo args) (der_rangeHi args) sh"
        using covering_range_owns [of c2] c2 owns_same by blast
      moreover obtain t where t: "op_begin (?i start) now (cat_operations x) = Inr (a, t)" "x' = x\<lparr>cat_operations := t\<rparr>"
        using b x by (auto simp: store_begin_Inr)
      ultimately show ?thesis using claimsI [OF t(1)] c1 start active by (simp add: leased_schema_def)
    next
      case (Some e)
      let ?i = "(operation_identity e)\<lparr>op_destinationShard := der_destinationShard args,
                  op_rangeLo := der_rangeLo args, op_rangeHi := der_rangeHi args, op_recoveryGeneration := der_recoveryGeneration args\<rparr>"
      have "store_begin ?i now (c, x) = (Inr a, c', x')"
        using run Some by (simp add: Let_def slift_Inr split: if_splits)
      then obtain t where t: "op_begin ?i now (cat_operations x) = Inr (a, t)" "x' = x\<lparr>cat_operations := t\<rparr>"
        by (auto simp: store_begin_Inr)
      have "op_migrationId ?i = der_migId args"
        using sql_one_SomeD [OF Some [unfolded op_read_def]] operation_id_eq [of e "operation_identity e"] by simp
      then show ?thesis using op_begin_existing [of ?i "cat_operations x" e now a t] Some t by (simp add: claims_def)
    qed
  qed
qed

lemma complete_result:
  assumes "routing_inv c" and "completeTopologyOperation args now (c, x) = (r, c', x')"
  shows "x' = x \<or> (\<exists>i q t. op_complete i (op_startEpoch i + 1) now (cat_operations x) = Inr (q, t) \<and>
    readSchemaEpoch c = op_startEpoch i + 1 \<and> x' = x\<lparr>cat_operations := t\<rparr>)"
  using assms(2) unfolding completeTopologyOperation_def
proof (cases rule: transactionSync_cases)
  case (2 a)
  note run = recovery_then [OF 2(2)]
  then obtain e where e: "op_read (top_migId args) (cat_operations x) = Some e"
    by (auto simp: slift_Inr split: option.splits)
  let ?i = "topologyIdentity args (op_schemaVersion e) (op_schemaEpoch e) (op_schemaDigest e)"
  let ?K = "\<lambda>exact. case op_status exact of Op_completed \<Rightarrow> slift (Inr exact) | Op_aborted \<Rightarrow> slift (Inl topology_stale)
    | Op_active \<Rightarrow> sbind (owned_at (top_rangeLo args) (top_rangeHi args) (top_destinationShard args) (top_startEpoch args + 1)) (\<lambda>own.
        if \<not> fst own then slift (Inl topology_stale) else on_store (on_operations (op_complete ?i (snd own) now)))"
  have "sbind (store_begin ?i now) ?K (c, x) = (Inr a, c', x')" using run e by (simp add: Let_def)
  then obtain exact t where b: "op_begin ?i now (cat_operations x) = Inr (exact, t)"
    and k: "?K exact (c, x\<lparr>cat_operations := t\<rparr>) = (Inr a, c', x')"
    by (auto simp: sbind_Inr store_begin_Inr)
  have "t = cat_operations x" using op_begin_existing [OF _ b] e by simp
  then have k': "?K exact (c, x) = (Inr a, c', x')" using k by simp
  show ?thesis
  proof (cases "op_status exact")
    case Op_active
    with k' have "sbind (owned_at (top_rangeLo args) (top_rangeHi args) (top_destinationShard args) (top_startEpoch args + 1)) (\<lambda>own.
        if \<not> fst own then slift (Inl topology_stale) else on_store (on_operations (op_complete ?i (snd own) now))) (c, x) = (Inr a, c', x')"
      by simp
    with assms(1) obtain c1 where ep: "readSchemaEpoch c = top_startEpoch args + 1"
      and "on_store (on_operations (op_complete ?i (top_startEpoch args + 1) now)) (c1, x) = (Inr a, c', x')"
      by (rule owned_then) simp
    then obtain t' where "op_complete ?i (op_startEpoch ?i + 1) now (cat_operations x) = Inr (a, t')" "x' = x\<lparr>cat_operations := t'\<rparr>"
      by (auto simp: on_store_Inr on_operations_Inr)
    then show ?thesis using ep by (intro disjI2 exI [of _ ?i] exI [of _ a] exI [of _ t']) simp
  qed (use k' in \<open>auto simp: slift_Inr\<close>)
qed simp

lemma abort_result:
  assumes "routing_inv c" and "abortTopologyOperation args now (c, x) = (r, c', x')"
  shows "x' = x \<or> (\<exists>i q t. op_abort i now (cat_operations x) = Inr (q, t) \<and>
    readSchemaEpoch c = op_startEpoch i \<and> abort_barrier args now (x\<lparr>cat_operations := t\<rparr>) = Inr x')"
  using assms(2) unfolding abortTopologyOperation_def
proof (cases rule: transactionSync_cases)
  case (2 a)
  note run = recovery_then [OF 2(2)]
  then obtain e where e: "op_read (top_migId args) (cat_operations x) = Some e"
    by (auto simp: slift_Inr split: option.splits)
  let ?i = "topologyIdentity args (op_schemaVersion e) (op_schemaEpoch e) (op_schemaDigest e)"
  let ?A = "sbind (on_store (on_operations (op_abort ?i now))) (\<lambda>operation.
                 sbind (on_rest (abort_barrier args now)) (\<lambda>_. slift (Inr operation)))"
  let ?K = "\<lambda>exact. case op_status exact of Op_aborted \<Rightarrow> slift (Inr exact) | Op_completed \<Rightarrow> slift (Inl topology_stale)
    | Op_active \<Rightarrow> sbind (owned_at (top_rangeLo args) (top_rangeHi args) (top_sourceShard args) (top_startEpoch args)) (\<lambda>own.
        if \<not> fst own then slift (Inl topology_stale) else ?A)"
  have "sbind (store_begin ?i now) ?K (c, x) = (Inr a, c', x')" using run e by (simp add: Let_def)
  then obtain exact t where b: "op_begin ?i now (cat_operations x) = Inr (exact, t)"
    and k: "?K exact (c, x\<lparr>cat_operations := t\<rparr>) = (Inr a, c', x')"
    by (auto simp: sbind_Inr store_begin_Inr)
  have "t = cat_operations x" using op_begin_existing [OF _ b] e by simp
  then have k': "?K exact (c, x) = (Inr a, c', x')" using k by simp
  show ?thesis
  proof (cases "op_status exact")
    case Op_active
    with k' have "sbind (owned_at (top_rangeLo args) (top_rangeHi args) (top_sourceShard args) (top_startEpoch args)) (\<lambda>own.
        if \<not> fst own then slift (Inl topology_stale) else ?A) (c, x) = (Inr a, c', x')"
      by simp
    with assms(1) obtain c1 where ep: "readSchemaEpoch c = top_startEpoch args" and "?A (c1, x) = (Inr a, c', x')"
      by (rule owned_then)
    then obtain q t' where "op_abort ?i now (cat_operations x) = Inr (q, t')" "abort_barrier args now (x\<lparr>cat_operations := t'\<rparr>) = Inr x'"
      by (auto simp: sbind_Inr on_store_Inr on_operations_Inr slift_Inr on_rest_Inr)
    then show ?thesis using ep by (intro disjI2 exI [of _ ?i] exI [of _ q] exI [of _ t']) simp
  qed (use k' in \<open>auto simp: slift_Inr\<close>)
qed simp

lemma barrier_result:
  assumes "beginOrganizationDeletionBarrier args now (c, x) = (r, c', x')"
  shows "x' = x \<or> (\<exists>t. barrier_step (deletions (cat_deletions x)) (cat_barriers x) t \<and> x' = x\<lparr>cat_barriers := t\<rparr>)"
  using assms unfolding beginOrganizationDeletionBarrier_def
proof (cases rule: transactionSync_cases)
  case (2 a)
  note run = recovery_then [OF 2(2)]
  then obtain i b t where "bar_begin i now (deletions (cat_deletions x)) (cat_barriers x) = Inr (b, t)" "x' = x\<lparr>cat_barriers := t\<rparr>"
    by (auto simp: Let_def slift_Inr sbind_Inr on_store_Inr on_barriers_def rbind_eq_Inr cat_reads_def split: option.splits if_splits)
  then show ?thesis using step_bar_begin by blast
qed simp

section \<open>The invariant\<close>

definition catalog_inv :: "catalog \<Rightarrow> bool" where
  "catalog_inv s \<longleftrightarrow> routing_inv (fst s) \<and> operations_inv (cat_operations (snd s)) \<and>
     leases_ok (fst s) (cat_operations (snd s)) \<and> fenced_inv (cat_barriers (snd s), cat_deletions (snd s))"

lemma claims_inv:
  assumes "operations_inv t" and "leases_ok c t" and "claims c sc t t'"
  shows "operations_inv t' \<and> leases_ok c t'"
proof (cases "t' = t")
  case False
  then obtain i now r where b: "op_begin i now t = Inr (r, t')" and ep: "readSchemaEpoch c = op_startEpoch i"
    and own: "owns c (op_rangeLo i) (op_rangeHi i) (op_sourceShard i)"
    using assms(3) by (auto simp: claims_def)
  have d: "distinct (map op_migrationId t)" using assms(1) by (simp add: operations_inv_def)
  have t': "t' = t @ [new_operation i now]" and fresh: "\<forall>s \<in> set t. op_migrationId s \<noteq> op_migrationId i"
    using b False by (auto simp: op_begin_Inr [OF d])
  have "\<not> cut_op c (new_operation i now)"
  proof
    assume "cut_op c (new_operation i now)"
    then have "cutover_key (op_migrationId i) \<in> (\<lambda>r. cutover_key (op_migrationId r)) ` set t"
      using assms(2) by (auto simp: cut_op_def leases_ok_def)
    then show False using fresh by (auto simp: cutover_key_inj)
  qed
  then have "lease_ok c (new_operation i now)"
    using ep own by (simp add: lease_ok_def new_operation_def CatalogTopologyOperationIdentity.defs)
  then have "leases_ok c t'" using assms(2) by (auto simp: leases_ok_def t')
  then show ?thesis using topology.step_inv [OF assms(1) step_begin [OF b]] by simp
qed (use assms in simp)

lemma lease_cut_iff:
  assumes "lease_ok c r" and "op_status r = Op_active"
  shows "cut_op c r \<longleftrightarrow> readSchemaEpoch c = op_startEpoch r + 1" and "\<not> cut_op c r \<longleftrightarrow> readSchemaEpoch c = op_startEpoch r"
  using assms by (auto simp: lease_ok_def)

lemma update_leases:
  assumes "leases_ok c t" and "r0 \<in> set t" and "\<And>s. op_migrationId (f s) = op_migrationId s"
    and "\<And>s. s \<in> set t \<Longrightarrow> p s \<Longrightarrow> lease_ok c (f s)"
  shows "leases_ok c (sql_update p f t)"
proof -
  have "map (\<lambda>r. cutover_key (op_migrationId r)) (sql_update p f t) = map (\<lambda>r. cutover_key (op_migrationId r)) t"
    using assms(3) by (simp add: sql_update_def)
  then have "(\<lambda>r. cutover_key (op_migrationId r)) ` set (sql_update p f t) = (\<lambda>r. cutover_key (op_migrationId r)) ` set t"
    by (metis set_map)
  then show ?thesis using assms(1,4) by (auto simp: leases_ok_def set_sql_update)
qed

lemma active_row_unique:
  assumes "operations_inv t" and "r0 \<in> set t" and "operation_identity r0 = i" and "s \<in> set t" and "active_row i s"
  shows "s = r0"
  using unique_key_row [of op_migrationId t s r0] assms operation_id_eq [OF assms(3)] by (simp add: operations_inv_def)

lemma complete_inv:
  assumes "operations_inv t" and "leases_ok c t" and "op_complete i (op_startEpoch i + 1) now t = Inr (q, t')"
    and "readSchemaEpoch c = op_startEpoch i + 1"
  shows "operations_inv t' \<and> leases_ok c t'"
proof -
  have "operations_inv t'" using topology.step_inv [OF assms(1) operation_step.step_complete [OF assms(3)]] .
  moreover from assms(1,3) have "leases_ok c t'"
  proof (cases rule: op_complete_cases)
    case (2 r0)
    have start: "op_startEpoch r0 = op_startEpoch i" using 2(2)
      by (auto simp: operation_identity_def CatalogTopologyOperationIdentity.defs)
    have "lease_ok c r0" using assms(2) 2(1) by (simp add: leases_ok_def)
    then have "cut_op c r0" using lease_cut_iff(1) 2(3) assms(4) start by simp
    then have "lease_ok c q" using 2(5) start assms(4) by (simp add: lease_ok_def cut_op_def)
    then have "lease_ok c (s\<lparr>op_status := Op_completed, op_completedEpoch := Some (op_startEpoch i + 1), op_updatedAt := now\<rparr>)" if "s \<in> set t" "active_row i s" for s
      using active_row_unique [OF assms(1) 2(1,2) that] 2(5) by simp
    then show ?thesis unfolding 2(6) using assms(2) 2(1) by (intro update_leases) simp_all
  qed (use assms(2) in simp)
  ultimately show ?thesis by simp
qed

lemma abort_inv:
  assumes "operations_inv t" and "leases_ok c t" and "op_abort i now t = Inr (q, t')" and "readSchemaEpoch c = op_startEpoch i"
  shows "operations_inv t' \<and> leases_ok c t'"
proof -
  have "operations_inv t'" using topology.step_inv [OF assms(1) step_abort [OF assms(3)]] .
  moreover from assms(1,3) have "leases_ok c t'"
  proof (cases rule: op_abort_cases)
    case (2 r0)
    have start: "op_startEpoch r0 = op_startEpoch i" using 2(2)
      by (auto simp: operation_identity_def CatalogTopologyOperationIdentity.defs)
    have "lease_ok c r0" using assms(2) 2(1) by (simp add: leases_ok_def)
    then have "\<not> cut_op c r0" using lease_cut_iff(2) 2(3) assms(4) start by simp
    then have "lease_ok c q" using 2(5) start assms(4) by (simp add: lease_ok_def cut_op_def)
    then have "lease_ok c (s\<lparr>op_status := Op_aborted, op_updatedAt := now\<rparr>)" if "s \<in> set t" "active_row i s" for s
      using active_row_unique [OF assms(1) 2(1,2) that] 2(5) by simp
    then show ?thesis unfolding 2(6) using assms(2) 2(1) by (intro update_leases) simp_all
  qed (use assms(2) in simp)
  ultimately show ?thesis by simp
qed

subsection \<open>Cutover\<close>

lemma abort_barrier_result:
  assumes "abort_barrier args now x = Inr x'" and "fenced_inv (cat_barriers x, cat_deletions x)"
  shows "cat_operations x' = cat_operations x \<and> fenced_inv (cat_barriers x', cat_deletions x')"
proof -
  have "x' = x \<or> (\<exists>i b t. bar_abort i now (cat_barriers x) = Inr (b, t) \<and> x' = x\<lparr>cat_barriers := t\<rparr>)"
    using assms(1) by (auto simp: abort_barrier_def on_barriers_def rbind_eq_Inr split: option.splits)
  then show ?thesis using assms(2) barrier_step_keeps_fence [OF assms(2) step_bar_abort] by auto
qed

lemma cutover_after_result:
  assumes "cutover_after args now e a x = Inr x'" and "fenced_inv (cat_barriers x, cat_deletions x)"
  shows "cat_operations x' = cat_operations x \<and> fenced_inv (cat_barriers x', cat_deletions x')"
proof -
  have "x' = x \<or> (\<exists>i b t. bar_release i now (deletions (cat_deletions x)) (cat_barriers x) = Inr (b, t) \<and> x' = x\<lparr>cat_barriers := t\<rparr>)"
    using assms(1) by (auto simp: cutover_after_def on_barriers_def rbind_eq_Inr split: option.splits)
  then show ?thesis using assms(2) barrier_step_keeps_fence [OF assms(2) step_bar_release] by auto
qed

lemma cutover_before_result:
  assumes "cutover_before args se g sc now ep x = Inr x1"
  obtains r where "x1 = x" and "r \<in> set (cat_operations x)" and "op_migrationId r = req_migId args" and "op_status r \<noteq> Op_aborted"
    and "op_sourceShard r = req_fromShard args" and "op_destinationShard r = req_toShard args"
    and "op_rangeLo r = req_lo args" and "op_rangeHi r = req_hi args"
proof -
  from assms obtain e where e: "op_read (req_migId args) (cat_operations x) = Some e"
    by (auto simp: cutover_before_def rbind_eq_Inr split: option.splits)
  let ?s = "case se of Some e' \<Rightarrow> e' | None \<Rightarrow> op_startEpoch e"
  let ?i = "topologyIdentity \<lparr> top_migId = req_migId args, top_sourceShard = req_fromShard args,
                    top_destinationShard = req_toShard args, top_rangeLo = req_lo args, top_rangeHi = req_hi args,
                    top_startEpoch = ?s, top_recoveryGeneration = g \<rparr> (op_schemaVersion e) (op_schemaEpoch e) (op_schemaDigest e)"
  from assms e obtain exact t where b: "op_begin ?i now (cat_operations x) = Inr (exact, t)"
    and st: "op_status exact \<noteq> Op_aborted" and x1: "x1 = x\<lparr>cat_operations := t\<rparr>"
    by (auto simp: cutover_before_def rbind_eq_Inr Let_def split: if_splits)
  have same: "t = cat_operations x" "exact = e" "operation_identity e = ?i" using op_begin_existing [OF _ b] e by simp_all
  have "e \<in> set (cat_operations x)" "op_migrationId e = req_migId args" using e by (auto simp: op_read_def dest: sql_one_SomeD)
  moreover have "op_sourceShard e = req_fromShard args" "op_destinationShard e = req_toShard args" "op_rangeLo e = req_lo args" "op_rangeHi e = req_hi args"
    using same(3) by (auto simp: operation_identity_def topologyIdentity_def CatalogTopologyOperationIdentity.defs)
  ultimately show ?thesis using that [of e] x1 same st by simp
qed

text \<open>An applied cutover moves exactly the active operation to its second state.\<close>

lemma cut_state_leases:
  assumes "routing_inv c" and "operations_inv t" and "leases_ok c t" and "cutover_next c args = Inr m"
    and "r \<in> set t" and "op_migrationId r = req_migId args" and "op_status r \<noteq> Op_aborted" and "\<not> cut_over c args"
    and "op_destinationShard r = req_toShard args" and "op_rangeLo r = req_lo args" and "op_rangeHi r = req_hi args"
  shows "leases_ok (cut_state c args m) t"
proof -
  let ?c = "cut_state c args m"
  have ep: "readSchemaEpoch ?c = readSchemaEpoch c + 1" by (simp add: cut_state_def readSchemaEpoch_def)
  have cut: "cut_op ?c q \<longleftrightarrow> cut_op c q \<or> op_migrationId q = req_migId args" for q
    by (auto simp: cut_op_def cut_state_def cutover_key_inj)
  have not: "\<not> cut_op c r" using assms(6,8) by (auto simp: cut_op_def cut_over_def)
  have "lease_ok c r" using assms(3,5) by (simp add: leases_ok_def)
  then have act: "op_status r = Op_active" and start: "readSchemaEpoch c = op_startEpoch r"
    using not assms(7) by (cases "op_status r"; auto simp: lease_ok_def)+
  have bounds: "0 \<le> op_rangeLo r" "op_rangeHi r < VSHARD_COUNT" using assms(2,5) by (auto simp: operations_inv_def operation_check_def)
  have "owns ?c (op_rangeLo r) (op_rangeHi r) (op_destinationShard r)"
    using cutover_next_route [OF assms(1,4)] bounds assms(9-11) by (auto simp: owns_def cut_state_def)
  then have lease_r: "lease_ok ?c r" using act start ep cut [of r] assms(6) by (simp add: lease_ok_def)
  have dist: "distinct t" using assms(2) by (auto simp: operations_inv_def distinct_map)
  have lease: "lease_ok ?c q" if "q \<in> set t" for q
  proof (cases "q = r")
    case False
    have id: "op_migrationId q \<noteq> req_migId args"
      using unique_key_row [of op_migrationId t q r] assms(2,5,6) that False by (auto simp: operations_inv_def)
    have "op_status q \<noteq> Op_active"
      using one_active_unique [OF _ dist that assms(5)] assms(2) act False by (auto simp: operations_inv_def)
    moreover have "lease_ok c q" using assms(3) that by (simp add: leases_ok_def)
    ultimately show ?thesis using ep cut [of q] id by (cases "op_status q") (auto simp: lease_ok_def)
  qed (use lease_r in simp)
  have "fst ` set (catalog_meta ?c) \<subseteq> (\<lambda>r. cutover_key (op_migrationId r)) ` set t"
    using assms(3) imageI [OF assms(5), of "\<lambda>r. cutover_key (op_migrationId r)"] unfolding assms(6)
    by (simp add: leases_ok_def cut_state_def)
  then show ?thesis using lease by (simp add: leases_ok_def)
qed

text \<open>A Catalog cutover: refused, repeated, or applied.\<close>

lemma catalog_cutover_cases:
  assumes "routing_inv c" and "catalog_cutover args se g now (c, x) = (q, c', x')"
  obtains e where "q = Inl e" and "same_tables c c'" and "routing_inv c'" and "x' = x"
  | r res where "q = Inr res" and "\<not> applied res" and "cut_over c args" and "c' = c"
    and "r \<in> set (cat_operations x)" and "op_migrationId r = req_migId args" and "op_status r \<noteq> Op_aborted"
    and "cutover_after args now (readSchemaEpoch c) False x = Inr x'"
  | r res m where "q = Inr res" and "applied res" and "\<not> cut_over c args" and "cutover_next c args = Inr m" and "c' = cut_state c args m"
    and "r \<in> set (cat_operations x)" and "op_migrationId r = req_migId args" and "op_status r \<noteq> Op_aborted"
    and "op_destinationShard r = req_toShard args" and "op_rangeLo r = req_lo args" and "op_rangeHi r = req_hi args"
    and "cutover_after args now (readSchemaEpoch c + 1) True x = Inr x'"
proof (cases "assertRequest g (cat_admission x)")
  case (Inl e)
  then show ?thesis using assms that(1) [of e]
    by (simp add: catalog_cutover_def sbind_def assertRecovery_def cat_reads_def)
next
  case (Inr u)
  let ?sc = "cat_schema x" and ?stored = "op_read (req_migId args) (cat_operations x)"
  let ?bad = "\<not> schema_active ?sc \<or> (case ?stored of None \<Rightarrow> activeVersion ?sc \<noteq> cat_journalVersion x | Some r \<Rightarrow> \<not> schema_matches ?sc r)"
  have run: "(if ?bad then (Inl topology_stale, (c, x))
      else cutover args (cutover_before args se g ?sc now) (cutover_after args now) (c, x)) = (q, c', x')"
    using assms(2) unfolding catalog_cutover_def sbind_def assertRecovery_def cat_reads_def Let_def
    by (simp only: snd_conv prod.case sum.case Inr)
  show ?thesis
  proof (cases ?bad)
    case True
    then have "(Inl topology_stale, (c, x)) = (q, c', x')" using run by (simp only: if_True)
    then show ?thesis using that(1) [of topology_stale] assms(1) by auto
  next
    case False
    then have "cutover args (cutover_before args se g ?sc now) (cutover_after args now) (c, x) = (q, c', x')"
      using run by (simp only: if_False)
    with assms(1) show ?thesis
    proof (cases rule: cutover_cases)
      case (1 e)
      then show ?thesis by (rule that(1))
    next
      case 2
      then obtain x1 where b: "cutover_before args se g ?sc now (readSchemaEpoch c) x = Inr x1"
        and a: "cutover_after args now (readSchemaEpoch c) False x1 = Inr x'" by (auto simp: rbind_eq_Inr)
      from b show ?thesis by (rule cutover_before_result) (rule that(2) [OF 2(1) _ 2(2,3)], use a in simp_all)
    next
      case (3 m x1)
      from 3(5) show ?thesis by (rule cutover_before_result) (rule that(3) [OF 3(1) _ 3(2,3,4)], use 3(6) in simp_all)
    qed
  qed
qed

lemma catalog_cutover_inv:
  assumes "catalog_inv (c, x)" and "catalog_cutover args se g now (c, x) = (q, c', x')"
  shows "catalog_inv (c', x') \<and> cat_operations x' = cat_operations x"
proof -
  have inv: "routing_inv c" "operations_inv (cat_operations x)" "leases_ok c (cat_operations x)" "fenced_inv (cat_barriers x, cat_deletions x)"
    using assms(1) by (simp_all add: catalog_inv_def)
  from inv(1) assms(2) show ?thesis
  proof (cases rule: catalog_cutover_cases)
    case (1 e)
    then show ?thesis using inv by (simp add: catalog_inv_def leases_ok_same)
  next
    case (2 r res)
    then show ?thesis using inv cutover_after_result [OF 2(8) inv(4)] by (simp add: catalog_inv_def)
  next
    case (3 r res m)
    then show ?thesis
      using inv cutover_after_result [OF 3(12) inv(4)] cut_state_inv [OF inv(1) 3(4)]
        cut_state_leases [OF inv(1-3) 3(4,6-8,3,9-11)]
      by (simp add: catalog_inv_def)
  qed
qed

subsection \<open>Every step\<close>

text \<open>What a step does to the records and the guards, beside keeping the invariant.\<close>

definition advances_records :: "catalog \<Rightarrow> catalog \<Rightarrow> bool" where
  "advances_records s s' \<longleftrightarrow> operation_step\<^sup>*\<^sup>* (cat_operations (snd s)) (cat_operations (snd s')) \<and>
     set (catalog_meta (fst s)) \<subseteq> set (catalog_meta (fst s'))"

lemma advances_quiet:
  "same_tables c c' \<Longrightarrow> operation_step\<^sup>*\<^sup>* (cat_operations x) (cat_operations x') \<Longrightarrow> advances_records (c, x) (c', x')"
  by (simp add: advances_records_def same_tables_def)

lemma claims_steps: "claims c sc t t' \<Longrightarrow> operation_step\<^sup>*\<^sup>* t t'"
  by (auto simp: claims_def intro: step_begin)

lemma catalog_step_inv:
  assumes "catalog_step s s'" and "catalog_inv s"
  shows "catalog_inv s' \<and> advances_records s s'"
proof -
  obtain c x where s: "s = (c, x)" by (cases s)
  obtain c' x' where s': "s' = (c', x')" by (cases s')
  have inv: "routing_inv c" "operations_inv (cat_operations x)" "leases_ok c (cat_operations x)" "fenced_inv (cat_barriers x, cat_deletions x)"
    using assms(2) by (simp_all add: catalog_inv_def s)
  have claimed: "catalog_inv (c', x') \<and> advances_records (c, x) (c', x')"
    if "same_tables c c' \<and> routing_inv c'"
      and "x' = x\<lparr>cat_operations := cat_operations x'\<rparr> \<and> claims c (cat_schema x) (cat_operations x) (cat_operations x')"
  proof -
    have "cat_barriers x' = cat_barriers x" "cat_deletions x' = cat_deletions x"
      using that(2) by (metis catalog_rest.select_convs(2,3) catalog_rest.surjective catalog_rest.update_convs(1))+
    moreover have "operations_inv (cat_operations x') \<and> leases_ok c' (cat_operations x')"
      using claims_inv [OF inv(2,3)] that leases_ok_same [of c c'] by blast
    moreover have "advances_records (c, x) (c', x')" using that by (blast intro: advances_quiet claims_steps)
    ultimately show ?thesis using that(1) inv(4) by (simp add: catalog_inv_def)
  qed
  note quietly = quietD [OF _ inv(1)]
  have "catalog_inv (c', x') \<and> advances_records (c, x) (c', x')" using assms(1) [unfolded s s']
  proof cases
    case (cat_begin_derived a1 now r1)
    then show ?thesis using claimed quietly [OF quiet_methods(1)] begin_derived_claims [OF inv(1)] by blast
  next
    case (cat_begin a2 now r2)
    then show ?thesis using claimed quietly [OF quiet_methods(2)] begin_claims [OF inv(1)] by blast
  next
    case (cat_barrier a3 now r3)
    have same: "same_tables c c' \<and> routing_inv c'" using quietly [OF quiet_methods(3) cat_barrier] .
    from barrier_result [OF cat_barrier] have "cat_operations x' = cat_operations x \<and> fenced_inv (cat_barriers x', cat_deletions x')"
      using barrier_step_keeps_fence [OF inv(4)] inv(4) by auto
    then show ?thesis using same inv by (simp add: catalog_inv_def leases_ok_same [of c c'] advances_quiet)
  next
    case (cat_complete a2 now r2)
    have same: "same_tables c c' \<and> routing_inv c'" using quietly [OF quiet_methods(4) cat_complete] .
    from complete_result [OF inv(1) cat_complete] show ?thesis
    proof (elim disjE exE conjE)
      assume "x' = x"
      then show ?thesis using same inv by (simp add: catalog_inv_def leases_ok_same [of c c'] advances_quiet)
    next
      fix i q t assume h: "op_complete i (op_startEpoch i + 1) now (cat_operations x) = Inr (q, t)"
        "readSchemaEpoch c = op_startEpoch i + 1" "x' = x\<lparr>cat_operations := t\<rparr>"
      show ?thesis using same inv h(3) complete_inv [OF inv(2,3) h(1,2)] r_into_rtranclp [of operation_step, OF operation_step.step_complete [OF h(1)]]
        by (simp add: catalog_inv_def leases_ok_same [of c c'] advances_quiet)
    qed
  next
    case (cat_abort a2 now r2)
    have same: "same_tables c c' \<and> routing_inv c'" using quietly [OF quiet_methods(5) cat_abort] .
    from abort_result [OF inv(1) cat_abort] show ?thesis
    proof (elim disjE exE conjE)
      assume "x' = x"
      then show ?thesis using same inv by (simp add: catalog_inv_def leases_ok_same [of c c'] advances_quiet)
    next
      fix i q t assume h: "op_abort i now (cat_operations x) = Inr (q, t)"
        "readSchemaEpoch c = op_startEpoch i" "abort_barrier a2 now (x\<lparr>cat_operations := t\<rparr>) = Inr x'"
      have "cat_operations x' = t \<and> fenced_inv (cat_barriers x', cat_deletions x')"
        using abort_barrier_result [OF h(3)] inv(4) by simp
      then show ?thesis using same inv abort_inv [OF inv(2,3) h(1,2)] r_into_rtranclp [of operation_step, OF operation_step.step_abort [OF h(1)]]
        by (simp add: catalog_inv_def leases_ok_same [of c c'] advances_quiet)
    qed
  next
    case (cat_cutover a4 e g now r4)
    have "catalog_inv (c', x') \<and> cat_operations x' = cat_operations x"
      using catalog_cutover_inv [OF _ cat_cutover] assms(2) s by simp
    moreover from inv(1) cat_cutover have "set (catalog_meta c) \<subseteq> set (catalog_meta c')"
      by (cases rule: catalog_cutover_cases) (auto simp: same_tables_def cut_state_def)
    ultimately show ?thesis by (simp add: advances_records_def)
  next
    case (cat_record owner res now org t d)
    then show ?thesis using record_keeps_fence [OF inv(4)] inv by (auto simp: catalog_inv_def advances_records_def)
  next
    case (cat_cleanup d)
    then show ?thesis using deletion_step_keeps_fence [OF inv(4)] inv by (auto simp: catalog_inv_def advances_records_def)
  qed (use inv in \<open>auto simp: catalog_inv_def advances_records_def\<close>)
  then show ?thesis by (simp add: s s')
qed

lemma catalog_steps_inv:
  "catalog_step\<^sup>*\<^sup>* s s' \<Longrightarrow> catalog_inv s \<Longrightarrow> catalog_inv s' \<and> advances_records s s'"
proof (induction rule: rtranclp_induct)
  case base
  then show ?case by (simp add: advances_records_def)
next
  case (step u w)
  then have "catalog_inv u" "advances_records s u" by auto
  moreover have "catalog_inv w" "advances_records u w" using catalog_step_inv [OF step.hyps(2)] \<open>catalog_inv u\<close> by auto
  ultimately show ?case by (auto simp: advances_records_def)
qed

definition initial_catalog :: "CatalogSchemaState \<Rightarrow> int \<Rightarrow> catalog" where
  "initial_catalog sc v = (initial_routing, \<lparr> cat_operations = [], cat_barriers = [],
     cat_deletions = \<lparr> deletions = [], deletion_shards = [] \<rparr>, cat_admission = initial_admission,
     cat_schema = sc, cat_journalVersion = v \<rparr>)"

lemma initial_catalog_inv: "catalog_inv (initial_catalog sc v)"
  using routing_inv_initial topology.inv_empty barriers.inv_empty ledger.inv_empty
  by (simp add: catalog_inv_def initial_catalog_def leases_ok_def initial_routing_def fenced_inv_def)

section \<open>Properties\<close>

text \<open>
  C4. Every range movement is in one of its states. In every state the Catalog reaches from its
  creation by any calls, failed ones included: the routing table is valid; at most one operation is
  active; an active operation is owned by its source at the epoch it started in and has not been
  cut over, or it has been cut over and is owned by its destination one epoch later; a completed operation
  has been cut over; an aborted operation never was; and every cutover guard belongs to a recorded operation.
\<close>

theorem catalog_topology_safe:
  assumes "catalog_step\<^sup>*\<^sup>* (initial_catalog sc v) (c, x)"
  shows "routing_inv c \<and> operations_inv (cat_operations x) \<and> (\<forall>r \<in> set (cat_operations x). lease_ok c r) \<and>
    fst ` set (catalog_meta c) \<subseteq> (\<lambda>r. cutover_key (op_migrationId r)) ` set (cat_operations x)"
  using catalog_steps_inv [OF assms initial_catalog_inv] by (simp add: catalog_inv_def leases_ok_def)

lemma abort_records:
  assumes "catalog_inv s" and "abortTopologyOperation args now s = (Inr r, s')"
  shows "\<exists>q \<in> set (cat_operations (snd s')). op_migrationId q = top_migId args \<and> op_status q = Op_aborted"
proof -
  obtain c x where s: "s = (c, x)" by (cases s)
  obtain c' x' where s': "s' = (c', x')" by (cases s')
  from assms(2) [unfolded s s' abortTopologyOperation_def] show ?thesis
  proof (cases rule: transactionSync_cases)
    case (2 a)
    note run = recovery_then [OF 2(2)]
    then obtain e where e: "op_read (top_migId args) (cat_operations x) = Some e"
      by (auto simp: slift_Inr split: option.splits)
    let ?i = "topologyIdentity args (op_schemaVersion e) (op_schemaEpoch e) (op_schemaDigest e)"
    from run e obtain exact t where b: "op_begin ?i now (cat_operations x) = Inr (exact, t)"
      and k: "(case op_status exact of Op_aborted \<Rightarrow> slift (Inr exact) | Op_completed \<Rightarrow> slift (Inl topology_stale)
        | Op_active \<Rightarrow> sbind (owned_at (top_rangeLo args) (top_rangeHi args) (top_sourceShard args) (top_startEpoch args)) (\<lambda>own.
            if \<not> fst own then slift (Inl topology_stale)
            else sbind (on_store (on_operations (op_abort ?i now))) (\<lambda>operation.
                 sbind (on_rest (abort_barrier args now)) (\<lambda>_. slift (Inr operation))))) (c, x\<lparr>cat_operations := t\<rparr>) = (Inr a, c', x')"
      by (auto simp: Let_def sbind_Inr store_begin_Inr)
    have same: "t = cat_operations x" "exact = e" using op_begin_existing [OF _ b] e by simp_all
    have row: "e \<in> set (cat_operations x)" "op_migrationId e = top_migId args" using e by (auto simp: op_read_def dest: sql_one_SomeD)
    show ?thesis
    proof (cases "op_status exact")
      case Op_active
      with k obtain c1 x1 q t' where "owned_at (top_rangeLo args) (top_rangeHi args) (top_sourceShard args) (top_startEpoch args)
          (c, x\<lparr>cat_operations := t\<rparr>) = (Inr c1, x1)" and
        ab: "op_abort ?i now (cat_operations (snd x1)) = Inr (q, t')" and
        bar: "abort_barrier args now ((snd x1)\<lparr>cat_operations := t'\<rparr>) = Inr x'"
        by (auto simp: sbind_Inr on_store_Inr on_operations_Inr slift_Inr on_rest_Inr split: if_splits)
      then have x1: "snd x1 = x" using owned_at_result [of c] assms(1) same by (cases x1) (auto simp: catalog_inv_def s)
      have t': "cat_operations x' = t'"
        using abort_barrier_result [OF bar] assms(1) x1 by (simp add: catalog_inv_def s)
      have inv: "operations_inv (cat_operations x)" using assms(1) by (simp add: catalog_inv_def s)
      from inv ab [unfolded x1] have "q \<in> set t' \<and> op_migrationId q = top_migId args \<and> op_status q = Op_aborted"
      proof (cases rule: op_abort_cases)
        case 1
        then show ?thesis using operation_id_eq [OF 1(3)] by simp
      next
        case (2 r0)
        then show ?thesis using row_after_update [OF 2(1), of "active_row ?i"] operation_id_eq [OF 2(2)] by (simp split: if_splits)
      qed
      then show ?thesis using t' by (auto simp: s')
    qed (use k row same in \<open>auto simp: slift_Inr s'\<close>)
  qed simp
qed

text \<open>
  C22. Abort and cutover exclude each other for ever: after an abort that returned, every later cutover under the
  same migration id is refused; after a cutover that returned, every later abort of it is refused.
\<close>

theorem abort_excludes_cutover:
  assumes "catalog_step\<^sup>*\<^sup>* (initial_catalog sc v) s"
  shows "(\<forall>args now r s1 s2 cut se g now' q s3. abortTopologyOperation args now s = (Inr r, s1) \<and> catalog_step\<^sup>*\<^sup>* s1 s2 \<and>
      req_migId cut = top_migId args \<and> catalog_cutover cut se g now' s2 = (q, s3) \<longrightarrow> (\<exists>e. q = Inl e)) \<and>
    (\<forall>args now r s1 s2 cut se g now' q s3. catalog_cutover cut se g now' s = (Inr q, s1) \<and> catalog_step\<^sup>*\<^sup>* s1 s2 \<and>
      req_migId cut = top_migId args \<and> abortTopologyOperation args now s2 = (r, s3) \<longrightarrow> (\<exists>e. r = Inl e))"
proof -
  have inv: "catalog_inv s" using catalog_steps_inv [OF assms initial_catalog_inv] by blast
  have one: "\<exists>e. q = Inl e" if ab: "abortTopologyOperation args now s = (Inr r, s1)" and st: "catalog_step\<^sup>*\<^sup>* s1 s2"
    and id: "req_migId cut = top_migId args" and cut: "catalog_cutover cut se g now' s2 = (q, s3)"
    for args now r s1 s2 cut se g now' q s3
  proof -
    have inv1: "catalog_inv s1" using catalog_step_inv [OF cat_abort [OF ab] inv] by blast
    obtain p where p: "p \<in> set (cat_operations (snd s1))" "op_migrationId p = top_migId args" "op_status p = Op_aborted"
      using abort_records [OF inv ab] by blast
    have inv2: "catalog_inv s2" "operation_step\<^sup>*\<^sup>* (cat_operations (snd s1)) (cat_operations (snd s2))"
      using catalog_steps_inv [OF st inv1] by (auto simp: advances_records_def)
    have p2: "p \<in> set (cat_operations (snd s2))"
      using topology.steps_final [OF inv2(2) _ p(1)] inv1 p(3) by (simp add: catalog_inv_def operation_final_def)
    have same: "p' = p" if "p' \<in> set (cat_operations (snd s2))" "op_migrationId p' = req_migId cut" for p'
      using unique_key_row [of op_migrationId "cat_operations (snd s2)" p' p] inv2(1) that p2 p(2) id
      by (simp add: catalog_inv_def operations_inv_def)
    have "routing_inv (fst s2)" using inv2(1) by (simp add: catalog_inv_def)
    moreover have "catalog_cutover cut se g now' (fst s2, snd s2) = (q, fst s3, snd s3)" using cut by simp
    ultimately show ?thesis by (cases rule: catalog_cutover_cases) (use same p(3) in auto)
  qed
  have two: "\<exists>e. r = Inl e" if cut: "catalog_cutover cut se g now' s = (Inr q, s1)" and st: "catalog_step\<^sup>*\<^sup>* s1 s2"
    and id: "req_migId cut = top_migId args" and ab: "abortTopologyOperation args now s2 = (r, s3)"
    for args now r s1 s2 cut se g now' q s3
  proof (cases r)
    case (Inr a)
    have inv1: "catalog_inv s1" using catalog_step_inv [OF cat_cutover [OF cut] inv] by blast
    have ri: "routing_inv (fst s)" using inv by (simp add: catalog_inv_def)
    have "catalog_cutover cut se g now' (fst s, snd s) = (Inr q, fst s1, snd s1)" using cut by simp
    with ri have "cut_over (fst s1) cut" by (cases rule: catalog_cutover_cases) (auto simp: cut_state_def cut_over_def)
    moreover have "catalog_step\<^sup>*\<^sup>* s1 s3" using st cat_abort [OF ab] by simp
    then have inv3: "catalog_inv s3" "set (catalog_meta (fst s1)) \<subseteq> set (catalog_meta (fst s3))"
      using catalog_steps_inv [OF _ inv1] by (auto simp: advances_records_def)
    ultimately have key: "cutover_key (top_migId args) \<in> fst ` set (catalog_meta (fst s3))" using id by (force simp: cut_over_def)
    have "catalog_inv s2" using catalog_steps_inv [OF st inv1] by blast
    then obtain p where p: "p \<in> set (cat_operations (snd s3))" "op_migrationId p = top_migId args" "op_status p = Op_aborted"
      using abort_records ab Inr by blast
    then have "\<not> cut_op (fst s3) p" using inv3(1) by (auto simp: catalog_inv_def leases_ok_def lease_ok_def)
    then show ?thesis using key p(2) by (simp add: cut_op_def)
  qed simp
  show ?thesis by (intro conjI allI impI; elim conjE) ((rule one; assumption), (rule two; assumption))
qed

subsection \<open>Witnesses\<close>

definition demo_schema :: CatalogSchemaState where
  "demo_schema = \<lparr> schema_active = True, activeVersion = 0, activeEpoch = 1, activeDigest = replicate 64 (CHR ''a'') \<rparr>"

definition demo_begin :: CatalogDerivedTopologyOperationRequest where
  "demo_begin = \<lparr> der_migId = ''m1'', der_destinationShard = ''s1'', der_rangeLo = 0, der_rangeHi = 99, der_recoveryGeneration = 0 \<rparr>"

definition demo_request :: CatalogTopologyOperationRequest where
  "demo_request = \<lparr> top_migId = ''m1'', top_sourceShard = ''ShardDO_0'', top_destinationShard = ''s1'', top_rangeLo = 0,
     top_rangeHi = 99, top_startEpoch = 1, top_recoveryGeneration = 0 \<rparr>"

text \<open>The Catalog after a claim, and after the claim was aborted.\<close>

definition claimed :: catalog where
  "claimed = snd (beginDerivedTopologyOperation demo_begin 10 (initial_catalog demo_schema 0))"

definition claim_aborted :: catalog where
  "claim_aborted = snd (abortTopologyOperation demo_request 20 claimed)"

lemma claimed_reached: "catalog_step\<^sup>*\<^sup>* (initial_catalog demo_schema 0) claimed"
  unfolding claimed_def by (intro r_into_rtranclp cat_begin_derived [OF prod.collapse [symmetric]])

lemma claimed_recorded: "map op_migrationId (cat_operations (snd claimed)) = [''m1'']"
  by code_simp

lemma claim_abort_returns: "\<exists>r. abortTopologyOperation demo_request 20 claimed = (Inr r, claim_aborted)"
proof -
  have "\<not> isl (fst (abortTopologyOperation demo_request 20 claimed))" by code_simp
  then obtain r where "fst (abortTopologyOperation demo_request 20 claimed) = Inr r" by (cases "fst (abortTopologyOperation demo_request 20 claimed)") auto
  then show ?thesis unfolding claim_aborted_def by (metis prod.collapse)
qed

theorem catalog_topology_safe_witness:
  "cat_operations (snd claimed) \<noteq> [] \<and> list_all (lease_ok (fst claimed)) (cat_operations (snd claimed))"
  unfolding list_all_iff using catalog_topology_safe [of demo_schema 0 "fst claimed" "snd claimed"] claimed_reached claimed_recorded by auto

theorem abort_excludes_cutover_witness: "\<exists>e. fst (catalog_cutover demo_cutover None 0 30 claim_aborted) = Inl e"
proof -
  obtain r where r: "abortTopologyOperation demo_request 20 claimed = (Inr r, claim_aborted)" using claim_abort_returns by blast
  have "req_migId demo_cutover = top_migId demo_request" by (simp add: demo_cutover_def demo_request_def)
  with abort_excludes_cutover [OF claimed_reached] r show ?thesis by (metis prod.collapse rtranclp.rtrancl_refl)
qed

end
