(* ===== verification/Routing_Fence.thy ===== *)
theory Routing_Fence
  imports Store Vshard
begin

text \<open>
  The durable source-side routing fence of \<^verbatim>\<open>src/src/server/do/cdb-routing-fence-store.ts\<close>: while a
  vshard range moves from one shard to another, the fence decides which mutations the source
  still admits, and a cleaned fence stays as a tombstone. The table's CHECK constraints are part
  of the model (\<open>fence_check\<close>); each operation is the whole method, with its transaction.
\<close>

section \<open>Data\<close>

datatype fence_status = Prepared | Active | Cleaned | Superseded

record CdbRoutingFenceIdentity =
  migrationId :: string
  rangeLo :: int
  rangeHi :: int
  sourceGeneration :: int
  destinationGeneration :: int
  recoveryGeneration :: int

record CdbRoutingFence = CdbRoutingFenceIdentity +
  status :: fence_status
  preparedAt :: int
  activatedAt :: "int option"
  cleanedAt :: "int option"
  supersededAt :: "int option"

type_synonym fences = "CdbRoutingFence list"

definition fence_identity :: "CdbRoutingFence \<Rightarrow> CdbRoutingFenceIdentity" where
  "fence_identity f = \<lparr> migrationId = migrationId f, rangeLo = rangeLo f, rangeHi = rangeHi f,
     sourceGeneration = sourceGeneration f, destinationGeneration = destinationGeneration f,
     recoveryGeneration = recoveryGeneration f \<rparr>"

definition CDB_ROUTING_FENCE_MAX_ROWS :: nat where "CDB_ROUTING_FENCE_MAX_ROWS = 16384"

text \<open>
  The CHECK constraints. A comparison with NULL is NULL, and a CHECK fails only when it is false;
  the timestamps are compared only where both are present.
\<close>

definition not_before :: "int option \<Rightarrow> int option \<Rightarrow> bool" where
  "not_before later earlier = (case (later, earlier) of (Some l, Some e) \<Rightarrow> e \<le> l | _ \<Rightarrow> True)"

definition fence_check :: "CdbRoutingFence \<Rightarrow> bool" where
  "fence_check f \<longleftrightarrow>
     0 \<le> rangeLo f \<and> rangeLo f < 16384 \<and> rangeLo f \<le> rangeHi f \<and> rangeHi f < 16384 \<and>
     1 \<le> sourceGeneration f \<and> destinationGeneration f = sourceGeneration f + 1 \<and>
     0 \<le> recoveryGeneration f \<and> 0 \<le> preparedAt f \<and>
     not_before (activatedAt f) (Some (preparedAt f)) \<and>
     not_before (cleanedAt f) (activatedAt f) \<and> not_before (supersededAt f) (cleanedAt f) \<and>
     (case status f of
        Prepared \<Rightarrow> activatedAt f = None \<and> cleanedAt f = None \<and> supersededAt f = None
      | Active \<Rightarrow> activatedAt f \<noteq> None \<and> cleanedAt f = None \<and> supersededAt f = None
      | Cleaned \<Rightarrow> activatedAt f \<noteq> None \<and> cleanedAt f \<noteq> None \<and> supersededAt f = None
      | Superseded \<Rightarrow> activatedAt f \<noteq> None \<and> cleanedAt f \<noteq> None \<and> supersededAt f \<noteq> None)"

section \<open>Guards\<close>

definition staleFence :: js_error where "staleFence = Cdb CDB_STALE_EPOCH"
definition corruptFence :: js_error where "corruptFence = Cdb CDB_INVARIANT"

definition fence_assertVshard :: "int \<Rightarrow> unit res" where
  "fence_assertVshard v = ensure (safe_integer v \<and> 0 \<le> v \<and> v < VSHARD_COUNT) (Cdb CDB_INVALID_ARGS)"

definition assertGeneration :: "int \<Rightarrow> unit res" where
  "assertGeneration g = ensure (safe_integer g \<and> 1 \<le> g) (Cdb CDB_INVALID_ARGS)"

definition assertRecoveryGeneration :: "int \<Rightarrow> unit res" where
  "assertRecoveryGeneration g = ensure (safe_integer g \<and> 0 \<le> g) (Cdb CDB_INVALID_ARGS)"

definition fence_assertTimestamp :: "int \<Rightarrow> unit res" where
  "fence_assertTimestamp t = ensure (safe_integer t \<and> 0 \<le> t) (Cdb CDB_INVALID_ARGS)"

definition fence_assertIdentity :: "CdbRoutingFenceIdentity \<Rightarrow> unit res" where
  "fence_assertIdentity i =
     rbind (ensure (opaque_id (migrationId i)) (Cdb CDB_INVALID_ARGS)) (\<lambda>_.
     rbind (fence_assertVshard (rangeLo i)) (\<lambda>_.
     rbind (fence_assertVshard (rangeHi i)) (\<lambda>_.
     rbind (ensure (rangeLo i \<le> rangeHi i) (Cdb CDB_INVALID_ARGS)) (\<lambda>_.
     rbind (assertGeneration (sourceGeneration i)) (\<lambda>_.
     rbind (assertGeneration (destinationGeneration i)) (\<lambda>_.
     rbind (assertRecoveryGeneration (recoveryGeneration i)) (\<lambda>_.
     ensure (destinationGeneration i = sourceGeneration i + 1) (Cdb CDB_INVALID_ARGS))))))))"

definition assertSameIdentity :: "CdbRoutingFence \<Rightarrow> CdbRoutingFenceIdentity \<Rightarrow> unit res" where
  "assertSameIdentity stored i = ensure (fence_identity stored = i) staleFence"

definition parseFence :: "CdbRoutingFence \<Rightarrow> CdbRoutingFence res" where
  "parseFence row = rbind (ensure
     (opaque_id (migrationId row) \<and> safe_integer (rangeLo row) \<and> safe_integer (rangeHi row) \<and>
      0 \<le> rangeLo row \<and> rangeLo row \<le> rangeHi row \<and> rangeHi row < VSHARD_COUNT \<and>
      safe_integer (sourceGeneration row) \<and> 1 \<le> sourceGeneration row \<and>
      destinationGeneration row = sourceGeneration row + 1 \<and>
      safe_integer (recoveryGeneration row) \<and> 0 \<le> recoveryGeneration row) corruptFence) (\<lambda>_. Inr row)"

section \<open>Reads\<close>

definition byMigrationId :: "string \<Rightarrow> fences \<Rightarrow> CdbRoutingFence option res" where
  "byMigrationId m t = (case sql_one (\<lambda>r. migrationId r = m) t of
     None \<Rightarrow> Inr None | Some row \<Rightarrow> rbind (parseFence row) (\<lambda>f. Inr (Some f)))"

definition required :: "string \<Rightarrow> fences \<Rightarrow> CdbRoutingFence res" where
  "required m t = rbind (byMigrationId m t) (\<lambda>f. case f of None \<Rightarrow> Inl staleFence | Some f \<Rightarrow> Inr f)"

text \<open>\<open>ORDER BY range_lo, range_hi, source_generation\<close>: three stable sorts, the last key first.\<close>

definition overlapping :: "int \<Rightarrow> int \<Rightarrow> fences \<Rightarrow> fences res" where
  "overlapping l h t = rmap parseFence (sort_key rangeLo (sort_key rangeHi (sort_key sourceGeneration
     (filter (\<lambda>r. status r \<noteq> Superseded \<and> rangeLo r \<le> h \<and> l \<le> rangeHi r) t))))"

definition latest_two :: "(CdbRoutingFence \<Rightarrow> bool) \<Rightarrow> fences \<Rightarrow> fences" where
  "latest_two p t = take 2 (sort_key (\<lambda>r. - sourceGeneration r) (filter p t))"

definition activeSourceFence :: "int \<Rightarrow> fences \<Rightarrow> CdbRoutingFence option res" where
  "activeSourceFence v t =
     rbind (fence_assertVshard v) (\<lambda>_.
     let rows = latest_two (\<lambda>r. rangeLo r \<le> v \<and> v \<le> rangeHi r \<and> (status r = Active \<or> status r = Cleaned)) t in
     rbind (ensure (length rows \<le> 1) corruptFence) (\<lambda>_.
     case rows of [] \<Rightarrow> Inr None | row # _ \<Rightarrow> rbind (parseFence row) (\<lambda>f. Inr (Some f))))"

definition assertMutationAdmission :: "int \<Rightarrow> int \<Rightarrow> fences \<Rightarrow> unit res" where
  "assertMutationAdmission schemaEpoch v t =
     rbind (assertGeneration schemaEpoch) (\<lambda>_.
     rbind (fence_assertVshard v) (\<lambda>_.
     let rows = latest_two (\<lambda>r. rangeLo r \<le> v \<and> v \<le> rangeHi r \<and> status r \<noteq> Superseded) t in
     rbind (ensure (length rows \<le> 1) corruptFence) (\<lambda>_.
     case rows of [] \<Rightarrow> Inr ()
     | row # _ \<Rightarrow> rbind (parseFence row) (\<lambda>fence.
         if status fence = Prepared \<and> schemaEpoch = sourceGeneration fence then Inr ()
         else Inl (Cdb CDB_STALE_EPOCH)))))"

definition assertDestinationActivationAllowed :: "int \<Rightarrow> int \<Rightarrow> int \<Rightarrow> fences \<Rightarrow> unit res" where
  "assertDestinationActivationAllowed l h generation t =
     rbind (fence_assertVshard l) (\<lambda>_.
     rbind (fence_assertVshard h) (\<lambda>_.
     rbind (assertGeneration generation) (\<lambda>_.
     rbind (overlapping l h t) (\<lambda>overlaps. ensure (overlaps = []) staleFence))))"

section \<open>Transitions\<close>

definition supersede_prior :: "CdbRoutingFenceIdentity \<Rightarrow> int \<Rightarrow> fences \<Rightarrow> fences \<Rightarrow> fences res" where
  "supersede_prior i nowMs overlaps t =
     (case overlaps of
        [] \<Rightarrow> Inr t
      | [prior] \<Rightarrow>
          if status prior \<noteq> Cleaned \<or> rangeLo prior \<noteq> rangeLo i \<or> rangeHi prior \<noteq> rangeHi i \<or>
             sourceGeneration i \<le> destinationGeneration prior
          then Inl staleFence
          else (let p = (\<lambda>r. migrationId r = migrationId prior \<and> status r = Cleaned) in
            rbind (sql_update_checked fence_check p (\<lambda>r. r\<lparr>status := Superseded, supersededAt := Some nowMs\<rparr>) t) (\<lambda>t'.
            rbind (ensure (sql_changes p t = 1) staleFence) (\<lambda>_. Inr t')))
      | _ \<Rightarrow> Inl staleFence)"

definition new_fence :: "CdbRoutingFenceIdentity \<Rightarrow> int \<Rightarrow> CdbRoutingFence" where
  "new_fence i nowMs = \<lparr> migrationId = migrationId i, rangeLo = rangeLo i, rangeHi = rangeHi i,
     sourceGeneration = sourceGeneration i, destinationGeneration = destinationGeneration i,
     recoveryGeneration = recoveryGeneration i, status = Prepared, preparedAt = nowMs,
     activatedAt = None, cleanedAt = None, supersededAt = None \<rparr>"

definition prepare :: "CdbRoutingFenceIdentity \<Rightarrow> int \<Rightarrow> fences \<Rightarrow> (CdbRoutingFence \<times> fences) res" where
  "prepare i nowMs t =
     rbind (fence_assertIdentity i) (\<lambda>_.
     rbind (fence_assertTimestamp nowMs) (\<lambda>_.
     rbind (byMigrationId (migrationId i) t) (\<lambda>existing.
     case existing of
       Some f \<Rightarrow> rbind (assertSameIdentity f i) (\<lambda>_. Inr (f, t))
     | None \<Rightarrow>
         rbind (ensure (length t < CDB_ROUTING_FENCE_MAX_ROWS) (Cdb CDB_RATE_LIMITED)) (\<lambda>_.
         rbind (overlapping (rangeLo i) (rangeHi i) t) (\<lambda>overlaps.
         rbind (supersede_prior i nowMs overlaps t) (\<lambda>t1.
         rbind (sql_insert migrationId fence_check (new_fence i nowMs) t1) (\<lambda>t2.
         rbind (required (migrationId i) t2) (\<lambda>f. Inr (f, t2)))))))))"

text \<open>
  \<open>onActivated\<close> runs in the same transaction on the other tables \<open>'x\<close> of the shard, and only when
  the fence changes.
\<close>

definition activate :: "CdbRoutingFenceIdentity \<Rightarrow> int \<Rightarrow> ('x \<Rightarrow> 'x res) \<Rightarrow> fences \<times> 'x \<Rightarrow>
    (CdbRoutingFence \<times> fences \<times> 'x) res" where
  "activate i nowMs onActivated s =
     (let t = fst s; p = (\<lambda>r. migrationId r = migrationId i \<and> status r = Prepared) in
     rbind (fence_assertIdentity i) (\<lambda>_.
     rbind (fence_assertTimestamp nowMs) (\<lambda>_.
     rbind (required (migrationId i) t) (\<lambda>current.
     rbind (assertSameIdentity current i) (\<lambda>_.
     rbind (if status current = Prepared
            then rbind (sql_update_checked fence_check p
                   (\<lambda>r. r\<lparr>status := Active, activatedAt := Some (max nowMs (preparedAt current))\<rparr>) t) (\<lambda>t'.
                 rbind (ensure (sql_changes p t = 1) staleFence) (\<lambda>_.
                 rbind (onActivated (snd s)) (\<lambda>x'. Inr (t', x'))))
            else Inr s) (\<lambda>s'.
     rbind (required (migrationId i) (fst s')) (\<lambda>f. Inr (f, s'))))))))"

definition cleanup :: "CdbRoutingFenceIdentity \<Rightarrow> int \<Rightarrow> fences \<Rightarrow> (CdbRoutingFence \<times> fences) res" where
  "cleanup i nowMs t =
     (let p = (\<lambda>r. migrationId r = migrationId i \<and> status r = Active) in
     rbind (fence_assertIdentity i) (\<lambda>_.
     rbind (fence_assertTimestamp nowMs) (\<lambda>_.
     rbind (required (migrationId i) t) (\<lambda>current.
     rbind (assertSameIdentity current i) (\<lambda>_.
     rbind (if status current = Cleaned \<or> status current = Superseded then Inr t
            else case activatedAt current of
                None \<Rightarrow> Inl (Cdb CDB_RESHARD_PHASE_MISMATCH)
              | Some activated \<Rightarrow>
                  if status current \<noteq> Active then Inl (Cdb CDB_RESHARD_PHASE_MISMATCH)
                  else rbind (sql_update_checked fence_check p
                         (\<lambda>r. r\<lparr>status := Cleaned, cleanedAt := Some (max nowMs activated)\<rparr>) t) (\<lambda>t'.
                       rbind (ensure (sql_changes p t = 1) staleFence) (\<lambda>_. Inr t'))) (\<lambda>t'.
     rbind (required (migrationId i) t') (\<lambda>f. Inr (f, t'))))))))"

definition cancelBeforeCutover ::
    "CdbRoutingFenceIdentity \<Rightarrow> int \<Rightarrow> fences \<Rightarrow> (CdbRoutingFence option \<times> fences) res" where
  "cancelBeforeCutover i nowMs t =
     (let p = (\<lambda>r. migrationId r = migrationId i \<and> (status r = Prepared \<or> status r = Active)) in
     rbind (fence_assertIdentity i) (\<lambda>_.
     rbind (fence_assertTimestamp nowMs) (\<lambda>_.
     rbind (rbind (byMigrationId (migrationId i) t) (\<lambda>current. case current of
         None \<Rightarrow> Inr t
       | Some current \<Rightarrow>
           rbind (assertSameIdentity current i) (\<lambda>_.
           if status current = Superseded then Inr t
           else if status current = Cleaned then Inl (Cdb CDB_RESHARD_PHASE_MISMATCH)
           else
             (let activated = max (case activatedAt current of Some a \<Rightarrow> a | None \<Rightarrow> nowMs) (preparedAt current);
                  cleaned = max nowMs activated in
              rbind (sql_update_checked fence_check p
                (\<lambda>r. r\<lparr>status := Superseded, activatedAt := Some activated, cleanedAt := Some cleaned,
                       supersededAt := Some cleaned\<rparr>) t) (\<lambda>t'.
              rbind (ensure (sql_changes p t = 1) staleFence) (\<lambda>_. Inr t')))))) (\<lambda>t'.
     rbind (byMigrationId (migrationId i) t') (\<lambda>f. Inr (f, t'))))))"

section \<open>The store as a step relation\<close>

text \<open>
  One successful call; the table after it. Of the callback of \<open>activate\<close> only its success matters
  to this table, so it acts on the unit type here.
\<close>

inductive fence_step :: "fences \<Rightarrow> fences \<Rightarrow> bool" where
  step_prepare: "prepare i now t = Inr (f, t') \<Longrightarrow> fence_step t t'"
| step_activate: "activate i now cb (t, ()) = Inr (f, t', ()) \<Longrightarrow> fence_step t t'"
| step_cleanup: "cleanup i now t = Inr (f, t') \<Longrightarrow> fence_step t t'"
| step_cancel: "cancelBeforeCutover i now t = Inr (g, t') \<Longrightarrow> fence_step t t'"

inductive_cases fence_stepE: "fence_step t t'"

section \<open>The invariant\<close>

definition live :: "CdbRoutingFence \<Rightarrow> bool" where
  "live f \<longleftrightarrow> status f \<noteq> Superseded"

definition fence_row_ok :: "CdbRoutingFence \<Rightarrow> bool" where
  "fence_row_ok r \<longleftrightarrow> fence_check r \<and> opaque_id (migrationId r) \<and> safe_integer (rangeLo r) \<and>
     safe_integer (rangeHi r) \<and> safe_integer (sourceGeneration r) \<and> safe_integer (recoveryGeneration r)"

definition apart :: "CdbRoutingFence \<Rightarrow> CdbRoutingFence \<Rightarrow> bool" where
  "apart f g \<longleftrightarrow> rangeHi f < rangeLo g \<or> rangeHi g < rangeLo f"

definition fence_inv :: "fences \<Rightarrow> bool" where
  "fence_inv t \<longleftrightarrow> distinct (map migrationId t) \<and> (\<forall>r \<in> set t. fence_row_ok r) \<and>
     (\<forall>f \<in> set t. \<forall>g \<in> set t. live f \<and> live g \<and> migrationId f \<noteq> migrationId g \<longrightarrow> apart f g)"

lemma fence_inv_row: "fence_inv t \<Longrightarrow> r \<in> set t \<Longrightarrow> fence_row_ok r"
  by (simp add: fence_inv_def)

lemma fence_inv_unique:
  "fence_inv t \<Longrightarrow> f \<in> set t \<Longrightarrow> g \<in> set t \<Longrightarrow> migrationId f = migrationId g \<Longrightarrow> f = g"
  by (auto simp: fence_inv_def intro: unique_key_row)

lemma fence_inv_apart:
  "fence_inv t \<Longrightarrow> f \<in> set t \<Longrightarrow> g \<in> set t \<Longrightarrow> live f \<Longrightarrow> live g \<Longrightarrow> f \<noteq> g \<Longrightarrow> apart f g"
  using fence_inv_unique [of t f g] by (auto simp: fence_inv_def)

lemma parseFence_Inr: "fence_row_ok r \<Longrightarrow> parseFence r = Inr r"
  by (auto simp: parseFence_def fence_row_ok_def fence_check_def VSHARD_COUNT_def)

lemma byMigrationId_inv:
  "fence_inv t \<Longrightarrow> byMigrationId m t = Inr (sql_one (\<lambda>r. migrationId r = m) t)"
  by (auto simp: byMigrationId_def parseFence_Inr fence_inv_row split: option.splits dest: sql_one_SomeD)

lemma required_inv: "fence_inv t \<Longrightarrow> required m t = Inr f \<longleftrightarrow> f \<in> set t \<and> migrationId f = m"
  using fence_inv_unique
  by (auto simp: required_def byMigrationId_inv sql_one_None_iff split: option.splits dest!: sql_one_SomeD)

lemma required_of_row: "fence_inv t \<Longrightarrow> f \<in> set t \<Longrightarrow> required (migrationId f) t = Inr f"
  by (simp add: required_inv)

lemma rmap_parseFence: "(\<And>r. r \<in> set rs \<Longrightarrow> fence_row_ok r) \<Longrightarrow> rmap parseFence rs = Inr rs"
  using rmap_Inr_map [of rs parseFence id] parseFence_Inr by simp

lemma overlapping_inv:
  assumes "fence_inv t"
  shows "\<exists>os. overlapping l h t = Inr os \<and> set os = {r \<in> set t. live r \<and> rangeLo r \<le> h \<and> l \<le> rangeHi r}"
  unfolding overlapping_def
  by (subst rmap_parseFence) (auto simp: live_def fence_inv_row [OF assms])

text \<open>An update of rows that keeps each identity and does not revive a superseded row keeps the invariant.\<close>

lemma fence_identity_fields:
  "fence_identity f = fence_identity g \<longleftrightarrow> migrationId f = migrationId g \<and> rangeLo f = rangeLo g \<and>
     rangeHi f = rangeHi g \<and> sourceGeneration f = sourceGeneration g \<and>
     destinationGeneration f = destinationGeneration g \<and> recoveryGeneration f = recoveryGeneration g"
  by (auto simp: fence_identity_def)

lemma fence_inv_update:
  assumes "fence_inv t"
    and "\<And>r. fence_identity (f r) = fence_identity r"
    and "\<And>r. r \<in> set t \<Longrightarrow> p r \<Longrightarrow> fence_check (f r) \<and> (live (f r) \<longrightarrow> live r)"
  shows "fence_inv (sql_update p f t)"
proof -
  note same = assms(2) [unfolded fence_identity_fields]
  have "distinct (map migrationId (sql_update p f t))"
    using assms(1) same by (intro distinct_keys_sql_update) (auto simp: fence_inv_def)
  moreover have "\<forall>r \<in> set (sql_update p f t). fence_row_ok r"
    using assms(1,3) same by (auto simp: fence_inv_def table_simps fence_row_ok_def)
  moreover have "apart a b"
    if ab: "a \<in> set (sql_update p f t)" "b \<in> set (sql_update p f t)" "live a" "live b" "migrationId a \<noteq> migrationId b"
    for a b
  proof -
    have "\<exists>r \<in> set t. live r \<and> fence_identity r = fence_identity c"
      if "c \<in> set (sql_update p f t)" "live c" for c
      using that assms(2,3) by (fastforce simp: table_simps)
    then obtain r s where "r \<in> set t" "live r" "fence_identity r = fence_identity a"
      "s \<in> set t" "live s" "fence_identity s = fence_identity b"
      using ab by meson
    then have "apart r s" using assms(1) ab(5) by (auto simp: fence_inv_def fence_identity_fields)
    then show ?thesis
      using \<open>fence_identity r = fence_identity a\<close> \<open>fence_identity s = fence_identity b\<close>
      by (simp add: fence_identity_fields apart_def)
  qed
  ultimately show ?thesis by (auto simp: fence_inv_def)
qed

lemma fence_inv_insert:
  assumes "fence_inv t" and "fence_row_ok n" and "\<forall>s \<in> set t. migrationId s \<noteq> migrationId n"
    and "\<And>g. g \<in> set t \<Longrightarrow> live g \<Longrightarrow> apart n g"
  shows "fence_inv (t @ [n])"
  using assms by (auto simp: fence_inv_def apart_def image_iff)

subsection \<open>Every operation keeps it\<close>

lemma fence_assertIdentity_Inr:
  "fence_assertIdentity i = Inr u \<longleftrightarrow> opaque_id (migrationId i) \<and> safe_integer (rangeLo i) \<and> safe_integer (rangeHi i) \<and>
     0 \<le> rangeLo i \<and> rangeLo i \<le> rangeHi i \<and> rangeHi i < VSHARD_COUNT \<and>
     safe_integer (sourceGeneration i) \<and> 1 \<le> sourceGeneration i \<and>
     safe_integer (destinationGeneration i) \<and> destinationGeneration i = sourceGeneration i + 1 \<and>
     safe_integer (recoveryGeneration i) \<and> 0 \<le> recoveryGeneration i"
  by (auto simp: fence_assertIdentity_def fence_assertVshard_def assertGeneration_def assertRecoveryGeneration_def
      result_simps)

lemmas fence_guards = fence_assertIdentity_Inr fence_assertTimestamp_def assertSameIdentity_def result_simps

lemma new_fence_ok:
  "fence_assertIdentity i = Inr u \<Longrightarrow> 0 \<le> now \<Longrightarrow> fence_row_ok (new_fence i now)"
  by (auto simp: fence_assertIdentity_Inr fence_row_ok_def fence_check_def new_fence_def not_before_def VSHARD_COUNT_def)

lemma new_fence_simps [simp]:
  "migrationId (new_fence i now) = migrationId i" "rangeLo (new_fence i now) = rangeLo i"
  "rangeHi (new_fence i now) = rangeHi i" "status (new_fence i now) = Prepared"
  "sourceGeneration (new_fence i now) = sourceGeneration i" "fence_identity (new_fence i now) = i"
  by (simp_all add: new_fence_def fence_identity_def)

lemma supersede_update_inv:
  assumes "fence_inv t" and "\<forall>r \<in> set t. p r \<longrightarrow> fence_check (r\<lparr>status := Superseded, supersededAt := x\<rparr>)"
  shows "fence_inv (sql_update p (\<lambda>r. r\<lparr>status := Superseded, supersededAt := x\<rparr>) t)"
  using assms by (intro fence_inv_update) (auto simp: fence_identity_def live_def)

text \<open>The two successful shapes of a first \<open>prepare\<close>: nothing overlaps, or one cleaned tombstone is superseded.\<close>

lemma supersede_prior_cases:
  assumes "supersede_prior i now os t = Inr t1"
  obtains "os = []" and "t1 = t"
  | prior where "os = [prior]" and "status prior = Cleaned" and "rangeLo prior = rangeLo i" and "rangeHi prior = rangeHi i"
    and "destinationGeneration prior < sourceGeneration i"
    and "t1 = sql_update (\<lambda>r. migrationId r = migrationId prior \<and> status r = Cleaned)
      (\<lambda>r. r\<lparr>status := Superseded, supersededAt := Some now\<rparr>) t"
    and "\<forall>r \<in> set t. migrationId r = migrationId prior \<and> status r = Cleaned \<longrightarrow>
      fence_check (r\<lparr>status := Superseded, supersededAt := Some now\<rparr>)"
  using assms
  by (auto simp: supersede_prior_def Let_def result_simps split: list.splits if_splits)

lemma prepare_cases:
  assumes "fence_inv t" and "prepare i now t = Inr (f, t')"
  obtains "f \<in> set t" and "fence_identity f = i" and "t' = t"
  | os t1 where "fence_assertIdentity i = Inr ()" and "0 \<le> now"
    and "\<forall>r \<in> set t. migrationId r \<noteq> migrationId i"
    and "set os = {r \<in> set t. live r \<and> rangeLo r \<le> rangeHi i \<and> rangeLo i \<le> rangeHi r}"
    and "supersede_prior i now os t = Inr t1" and "\<forall>s \<in> set t1. migrationId s \<noteq> migrationId i"
    and "t' = t1 @ [new_fence i now]" and "required (migrationId i) t' = Inr f" and "length t < CDB_ROUTING_FENCE_MAX_ROWS"
proof -
  obtain os where os: "overlapping (rangeLo i) (rangeHi i) t = Inr os"
    "set os = {r \<in> set t. live r \<and> rangeLo r \<le> rangeHi i \<and> rangeLo i \<le> rangeHi r}"
    using overlapping_inv [OF assms(1)] by blast
  show ?thesis
  proof (cases "sql_one (\<lambda>r. migrationId r = migrationId i) t")
    case None
    then have "\<forall>r \<in> set t. migrationId r \<noteq> migrationId i" by (simp add: sql_one_None_iff)
    moreover have "fence_assertIdentity i = Inr ()"
      using assms(2) by (auto simp: prepare_def rbind_eq_Inr)
    ultimately show ?thesis using that(2) [of os] assms os None
      by (auto simp: prepare_def byMigrationId_inv fence_assertTimestamp_def result_simps)
  next
    case (Some g)
    then have "rbind (assertSameIdentity g i) (\<lambda>_. Inr (g, t)) = Inr (f, t')"
      using assms by (auto simp: prepare_def byMigrationId_inv rbind_eq_Inr)
    then have "f = g" and "t' = t" and "fence_identity g = i"
      by (auto simp: assertSameIdentity_def result_simps)
    then show ?thesis using that(1) sql_one_SomeD [OF Some] by simp
  qed
qed

lemma prepare_inv:
  assumes "fence_inv t" and "prepare i now t = Inr (f, t')"
  shows "fence_inv t'"
  using assms
proof (cases rule: prepare_cases)
  case 1
  then show ?thesis using assms(1) by simp
next
  case (2 os t1)
  have ok: "fence_row_ok (new_fence i now)" using 2(1,2) by (rule new_fence_ok)
  from 2(5) have "fence_inv t1 \<and> (\<forall>g \<in> set t1. live g \<longrightarrow> apart (new_fence i now) g)"
  proof (cases rule: supersede_prior_cases)
    case 1
    then show ?thesis using assms(1) 2(4) by (auto simp: apart_def not_less [symmetric])
  next
    case (2 prior)
    have prior: "prior \<in> set t" and others: "\<And>g. g \<in> set t \<Longrightarrow> live g \<Longrightarrow> g \<noteq> prior \<Longrightarrow>
        \<not> (rangeLo g \<le> rangeHi i \<and> rangeLo i \<le> rangeHi g)"
      using \<open>set os = _\<close> 2(1) by auto
    have "fence_inv t1" unfolding 2(6) using assms(1) 2(7) by (rule supersede_update_inv)
    moreover have "apart (new_fence i now) g" if "g \<in> set t1" "live g" for g
    proof -
      have "g \<in> {r \<in> set t. \<not> (migrationId r = migrationId prior \<and> status r = Cleaned)}"
        using that 2(6) by (auto simp: set_sql_update live_def)
      then have "g \<in> set t" and "g \<noteq> prior" using 2(2) by auto
      then show ?thesis using others [of g] that(2) by (auto simp: apart_def)
    qed
    ultimately show ?thesis by blast
  qed
  then show ?thesis using ok 2(6,7) by (auto intro: fence_inv_insert)
qed

text \<open>
  The other operations read the fence of the given identity and, unless it is already there,
  update that one row.
\<close>

lemma activate_cases:
  assumes "fence_inv t" and "activate i now cb (t, x) = Inr (f, t', x')"
  obtains cur where "cur \<in> set t" and "fence_identity cur = i" and "status cur \<noteq> Prepared" and "t' = t" and "x' = x"
  | cur where "cur \<in> set t" and "fence_identity cur = i" and "status cur = Prepared" and "cb x = Inr x'"
    and "t' = sql_update (\<lambda>r. migrationId r = migrationId i \<and> status r = Prepared)
      (\<lambda>r. r\<lparr>status := Active, activatedAt := Some (max now (preparedAt cur))\<rparr>) t"
    and "\<forall>r \<in> set t. migrationId r = migrationId i \<and> status r = Prepared \<longrightarrow>
      fence_check (r\<lparr>status := Active, activatedAt := Some (max now (preparedAt cur))\<rparr>)"
proof -
  obtain cur where cur: "cur \<in> set t" "fence_identity cur = i"
    and upd: "(if status cur = Prepared
            then rbind (sql_update_checked fence_check (\<lambda>r. migrationId r = migrationId i \<and> status r = Prepared)
                   (\<lambda>r. r\<lparr>status := Active, activatedAt := Some (max now (preparedAt cur))\<rparr>) t) (\<lambda>t'.
                 rbind (ensure (sql_changes (\<lambda>r. migrationId r = migrationId i \<and> status r = Prepared) t = 1) staleFence) (\<lambda>_.
                 rbind (cb x) (\<lambda>x'. Inr (t', x'))))
            else Inr (t, x)) = Inr (t', x')"
    using assms
    by (auto simp only: activate_def Let_def assertSameIdentity_def required_inv rbind_eq_Inr ensure_eq_Inr fst_conv snd_conv
        sum.inject prod.inject)
  show ?thesis
  proof (cases "status cur = Prepared")
    case True
    then show ?thesis using that(2) [OF cur True] upd by (simp add: result_simps)
  next
    case False
    then show ?thesis using that(1) [OF cur False] upd by simp
  qed
qed

lemma cleanup_cases:
  assumes "fence_inv t" and "cleanup i now t = Inr (f, t')"
  obtains cur where "cur \<in> set t" and "fence_identity cur = i" and "status cur \<in> {Cleaned, Superseded}" and "t' = t"
  | cur a where "cur \<in> set t" and "fence_identity cur = i" and "status cur = Active" and "activatedAt cur = Some a"
    and "t' = sql_update (\<lambda>r. migrationId r = migrationId i \<and> status r = Active)
      (\<lambda>r. r\<lparr>status := Cleaned, cleanedAt := Some (max now a)\<rparr>) t"
    and "\<forall>r \<in> set t. migrationId r = migrationId i \<and> status r = Active \<longrightarrow>
      fence_check (r\<lparr>status := Cleaned, cleanedAt := Some (max now a)\<rparr>)"
  using assms
  by (auto simp: cleanup_def Let_def assertSameIdentity_def required_inv result_simps split: if_splits option.splits)

lemma cancel_cases:
  assumes "fence_inv t" and "cancelBeforeCutover i now t = Inr (g, t')"
  obtains "t' = t" and "\<forall>r \<in> set t. migrationId r = migrationId i \<longrightarrow> status r = Superseded"
  | a c where "t' = sql_update (\<lambda>r. migrationId r = migrationId i \<and> (status r = Prepared \<or> status r = Active))
      (\<lambda>r. r\<lparr>status := Superseded, activatedAt := Some a, cleanedAt := Some c, supersededAt := Some c\<rparr>) t"
    and "\<forall>r \<in> set t. migrationId r = migrationId i \<and> (status r = Prepared \<or> status r = Active) \<longrightarrow>
      fence_check (r\<lparr>status := Superseded, activatedAt := Some a, cleanedAt := Some c, supersededAt := Some c\<rparr>)"
proof (cases "sql_one (\<lambda>r. migrationId r = migrationId i) t")
  case None
  then have "\<forall>r \<in> set t. migrationId r \<noteq> migrationId i" by (simp add: sql_one_None_iff)
  moreover have "t' = t" using assms None
    by (auto simp: cancelBeforeCutover_def Let_def byMigrationId_inv result_simps)
  ultimately show ?thesis using that(1) by blast
next
  case (Some cur)
  note cur = sql_one_SomeD [OF Some]
  have only: "r = cur" if "r \<in> set t" "migrationId r = migrationId i" for r
    using fence_inv_unique [OF assms(1)] cur that by auto
  show ?thesis
  proof (cases "status cur = Superseded")
    case True
    then have "t' = t" using assms Some
      by (auto simp: cancelBeforeCutover_def Let_def byMigrationId_inv result_simps)
    then show ?thesis using that(1) True only by blast
  next
    case False
    then show ?thesis using that(2) assms Some
      by (auto simp: cancelBeforeCutover_def Let_def byMigrationId_inv rbind_eq_Inr sql_update_checked_Inr split: if_splits)
  qed
qed

lemma activate_inv:
  assumes "fence_inv t" and "activate i now cb (t, x) = Inr (f, t', x')"
  shows "fence_inv t'"
  using assms
  by (rule activate_cases) (use assms(1) in \<open>auto intro!: fence_inv_update simp: fence_identity_def live_def\<close>)

lemma cleanup_inv:
  assumes "fence_inv t" and "cleanup i now t = Inr (f, t')"
  shows "fence_inv t'"
  using assms
  by (rule cleanup_cases) (use assms(1) in \<open>auto intro!: fence_inv_update simp: fence_identity_def live_def\<close>)

lemma cancel_inv:
  assumes "fence_inv t" and "cancelBeforeCutover i now t = Inr (g, t')"
  shows "fence_inv t'"
  using assms
  by (rule cancel_cases) (use assms(1) in \<open>auto intro!: fence_inv_update simp: fence_identity_def live_def\<close>)

lemma fence_step_inv: "fence_inv t \<Longrightarrow> fence_step t t' \<Longrightarrow> fence_inv t'"
  by (auto elim!: fence_stepE intro: prepare_inv activate_inv cleanup_inv cancel_inv)

subsection \<open>Rows only move forward\<close>

definition fence_rank :: "CdbRoutingFence \<Rightarrow> nat" where
  "fence_rank f = (case status f of Prepared \<Rightarrow> 0 | Active \<Rightarrow> 1 | Cleaned \<Rightarrow> 2 | Superseded \<Rightarrow> 3)"

lemma fence_row_update:
  assumes "r \<in> set t" and "fence_identity (f r) = fence_identity r" and "p r \<Longrightarrow> fence_rank r \<le> fence_rank (f r)"
  shows "\<exists>r' \<in> set (sql_update p f t). fence_identity r' = fence_identity r \<and> fence_rank r \<le> fence_rank r'"
  using row_after_update [OF assms(1), of p f] assms(2,3) by (metis order_refl)

lemma prepare_row:
  assumes "fence_inv t" and "prepare i now t = Inr (f, t')" and "r \<in> set t"
  shows "\<exists>r' \<in> set t'. fence_identity r' = fence_identity r \<and> fence_rank r \<le> fence_rank r'"
  using assms(1,2)
proof (cases rule: prepare_cases)
  case 1
  then show ?thesis using assms(3) by blast
next
  case (2 os t1)
  from 2(5) have "\<exists>r' \<in> set t1. fence_identity r' = fence_identity r \<and> fence_rank r \<le> fence_rank r'"
  proof (cases rule: supersede_prior_cases)
    case 1
    then show ?thesis using assms(3) by blast
  next
    case (2 prior)
    show ?thesis unfolding 2(6)
      using assms(3) by (rule fence_row_update) (auto simp: fence_identity_def fence_rank_def)
  qed
  then show ?thesis using 2(7) by auto
qed

lemma fence_step_row:
  assumes "fence_inv t" and "fence_step t t'" and "r \<in> set t"
  shows "\<exists>r' \<in> set t'. fence_identity r' = fence_identity r \<and> fence_rank r \<le> fence_rank r'"
  using assms(2)
proof (cases rule: fence_step.cases)
  case (step_prepare i now f)
  then show ?thesis using prepare_row assms by blast
next
  case (step_activate i now cb f)
  with assms(1) show ?thesis
  proof (cases rule: activate_cases)
    case 1
    then show ?thesis using assms(3) by blast
  next
    case 2
    show ?thesis unfolding 2(5)
      using assms(3) by (rule fence_row_update) (auto simp: fence_identity_def fence_rank_def)
  qed
next
  case (step_cleanup i now f)
  with assms(1) show ?thesis
  proof (cases rule: cleanup_cases)
    case 1
    then show ?thesis using assms(3) by blast
  next
    case 2
    show ?thesis unfolding 2(5)
      using assms(3) by (rule fence_row_update) (auto simp: fence_identity_def fence_rank_def)
  qed
next
  case (step_cancel i now g)
  with assms(1) show ?thesis
  proof (cases rule: cancel_cases)
    case 1
    then show ?thesis using assms(3) by blast
  next
    case 2
    show ?thesis unfolding 2(1)
      using assms(3) by (rule fence_row_update) (auto simp: fence_identity_def fence_rank_def)
  qed
qed

interpretation fences: lifecycle_store fence_identity fence_rank fence_inv fence_step
proof unfold_locales
  show "fence_inv []" by (simp add: fence_inv_def)
qed (auto intro: fence_step_inv fence_step_row)

section \<open>Properties\<close>

definition fence_covers :: "CdbRoutingFence \<Rightarrow> int \<Rightarrow> bool" where
  "fence_covers f v \<longleftrightarrow> rangeLo f \<le> v \<and> v \<le> rangeHi f"

lemma live_cover_unique:
  assumes "fence_inv t" and "f \<in> set t" and "g \<in> set t" and "live f" and "live g"
    and "fence_covers f v" and "fence_covers g v"
  shows "f = g"
  using fence_inv_apart [OF assms(1-5)] assms(6,7) by (auto simp: apart_def fence_covers_def)

lemma filter_unique_row:
  assumes "distinct t" and "f \<in> set t" and "\<And>g. g \<in> set t \<Longrightarrow> P g \<longleftrightarrow> g = f"
  shows "filter P t = [f]"
  using assms
proof (induction t)
  case Nil
  then show ?case by simp
next
  case (Cons a t)
  show ?case
  proof (cases "a = f")
    case True
    with Cons.prems have "filter P t = []" by (auto simp: filter_empty_conv)
    with True Cons.prems(3) [of a] show ?thesis by simp
  next
    case False
    with Cons.prems Cons.IH show ?thesis by auto
  qed
qed

lemma fence_inv_distinct: "fence_inv t \<Longrightarrow> distinct t"
  by (auto simp: fence_inv_def distinct_map)

lemma live_rows_at:
  assumes "fence_inv t" and "f \<in> set t" and "live f" and "fence_covers f v"
  shows "filter (\<lambda>r. rangeLo r \<le> v \<and> v \<le> rangeHi r \<and> status r \<noteq> Superseded) t = [f]"
  using live_cover_unique [OF assms(1)] assms fence_inv_distinct [OF assms(1)]
  by (intro filter_unique_row) (auto simp: live_def fence_covers_def)

lemma admission_eq:
  assumes inv: "fence_inv t" and "safe_integer e" and "1 \<le> e" and "0 \<le> v" and "v < VSHARD_COUNT"
  shows "assertMutationAdmission e v t =
     (if \<forall>f \<in> set t. live f \<and> fence_covers f v \<longrightarrow> status f = Prepared \<and> sourceGeneration f = e
      then Inr () else Inl (Cdb CDB_STALE_EPOCH))"
proof -
  have sv: "safe_integer v" using assms(4,5) by (simp add: safe_integer_def VSHARD_COUNT_def)
  let ?rows = "filter (\<lambda>r. rangeLo r \<le> v \<and> v \<le> rangeHi r \<and> status r \<noteq> Superseded) t"
  show ?thesis
  proof (cases "\<exists>f \<in> set t. live f \<and> fence_covers f v")
    case True
    then obtain f where f: "f \<in> set t" "live f" "fence_covers f v" by blast
    have rows: "?rows = [f]" using inv f by (rule live_rows_at)
    have "(\<forall>g \<in> set t. live g \<and> fence_covers g v \<longrightarrow> status g = Prepared \<and> sourceGeneration g = e) \<longleftrightarrow>
        status f = Prepared \<and> e = sourceGeneration f"
      using f live_cover_unique [OF inv] by blast
    then show ?thesis
      using rows assms sv parseFence_Inr [OF fence_inv_row [OF inv f(1)]]
      by (simp add: assertMutationAdmission_def assertGeneration_def fence_assertVshard_def latest_two_def)
  next
    case False
    then have "?rows = []" by (auto simp: filter_empty_conv live_def fence_covers_def)
    then show ?thesis
      using False assms sv
      by (auto simp: assertMutationAdmission_def assertGeneration_def fence_assertVshard_def latest_two_def)
  qed
qed

text \<open>
  Admission of mutations. In every table the store can reach, a mutation routed with
  generation \<open>e\<close> is admitted for vshard \<open>v\<close> exactly when no live fence covers \<open>v\<close>, or the one
  that does is still only prepared and \<open>e\<close> is its source generation; otherwise it fails with the
  retryable \<open>CDB_STALE_EPOCH\<close>. The branch for several overlapping fences is never taken.
\<close>

theorem mutation_admission:
  assumes "fence_step\<^sup>*\<^sup>* [] t" and "safe_integer e" and "1 \<le> e" and "0 \<le> v" and "v < VSHARD_COUNT"
  shows "assertMutationAdmission e v t =
     (if \<forall>f \<in> set t. live f \<and> fence_covers f v \<longrightarrow> status f = Prepared \<and> sourceGeneration f = e
      then Inr () else Inl (Cdb CDB_STALE_EPOCH))"
  using fences.reachable_inv [OF assms(1)] assms(2-5) by (rule admission_eq)

definition demo_identity :: CdbRoutingFenceIdentity where
  "demo_identity = \<lparr> migrationId = ''m1'', rangeLo = 10, rangeHi = 20, sourceGeneration = 3,
     destinationGeneration = 4, recoveryGeneration = 0 \<rparr>"

definition demo_prepared :: CdbRoutingFence where
  "demo_prepared = new_fence demo_identity 100"

definition demo_active :: CdbRoutingFence where
  "demo_active = demo_prepared\<lparr>status := Active, activatedAt := Some 110\<rparr>"

definition demo_cleaned :: CdbRoutingFence where
  "demo_cleaned = demo_active\<lparr>status := Cleaned, cleanedAt := Some 120\<rparr>"

lemmas demo_defs = demo_identity_def demo_prepared_def demo_active_def demo_cleaned_def

lemma demo_run1: "prepare demo_identity 100 [] = Inr (demo_prepared, [demo_prepared])"
  by code_simp

lemma demo_run2: "activate demo_identity 110 Inr ([demo_prepared], ()) = Inr (demo_active, [demo_active], ())"
  by code_simp

lemma demo_run3: "cleanup demo_identity 120 [demo_active] = Inr (demo_cleaned, [demo_cleaned])"
  by code_simp

lemma demo_reachable:
  "fence_step\<^sup>*\<^sup>* [] [demo_prepared]" "fence_step\<^sup>*\<^sup>* [demo_prepared] [demo_active]" "fence_step\<^sup>*\<^sup>* [] [demo_cleaned]"
proof -
  have s: "fence_step [] [demo_prepared]" "fence_step [demo_prepared] [demo_active]" "fence_step [demo_active] [demo_cleaned]"
    using demo_run1 demo_run2 demo_run3 by (auto intro: fence_step.intros)
  show "fence_step\<^sup>*\<^sup>* [] [demo_prepared]" "fence_step\<^sup>*\<^sup>* [demo_prepared] [demo_active]" "fence_step\<^sup>*\<^sup>* [] [demo_cleaned]"
    using s by (auto intro: rtranclp.rtrancl_into_rtrancl converse_rtranclp_into_rtranclp)
qed

theorem mutation_admission_witness:
  "assertMutationAdmission 3 15 [demo_prepared] = Inr () \<and>
   assertMutationAdmission 3 15 [demo_cleaned] = Inl (Cdb CDB_STALE_EPOCH)"
proof
  show "assertMutationAdmission 3 15 [demo_prepared] = Inr ()"
    by (subst mutation_admission [OF demo_reachable(1)])
      (simp_all add: safe_integer_def VSHARD_COUNT_def fence_covers_def live_def demo_defs)
  show "assertMutationAdmission 3 15 [demo_cleaned] = Inl (Cdb CDB_STALE_EPOCH)"
    by (subst mutation_admission [OF demo_reachable(3)])
      (simp_all add: safe_integer_def VSHARD_COUNT_def fence_covers_def live_def demo_defs new_fence_def)
qed

text \<open>
  C30. Fence history is permanent: whatever sequence of prepare, activate, cleanup and cancel calls
  follows, a fence that was ever stored is still there with the same immutable identity, and its
  status has only moved forward (prepared, active, cleaned, superseded).
\<close>

theorem fence_history:
  assumes "fence_step\<^sup>*\<^sup>* [] t" and "fence_step\<^sup>*\<^sup>* t t'" and "f \<in> set t"
  shows "\<exists>f' \<in> set t'. fence_identity f' = fence_identity f \<and> fence_rank f \<le> fence_rank f'"
  using fences.steps_row [OF assms(2) fences.reachable_inv [OF assms(1)] assms(3)] .

theorem fence_history_witness:
  "\<exists>f' \<in> set [demo_active]. fence_identity f' = fence_identity demo_prepared \<and>
     fence_rank demo_prepared \<le> fence_rank f'"
  by (rule fence_history [OF demo_reachable(1,2)]) simp

text \<open>The only step that touches a cleaned tombstone is a newer \<open>prepare\<close> of the same range.\<close>

lemma cleaned_row_step:
  assumes "fence_inv t" and "fence_step t t'" and "f \<in> set t" and "status f = Cleaned"
  shows "f \<in> set t' \<or> (\<exists>g \<in> set t'. status g = Prepared \<and> rangeLo g = rangeLo f \<and> rangeHi g = rangeHi f \<and>
     destinationGeneration f < sourceGeneration g)"
  using assms(2)
proof (cases rule: fence_step.cases)
  case (step_prepare i now n)
  with assms(1) show ?thesis
  proof (cases rule: prepare_cases)
    case 1
    then show ?thesis using assms(3) by simp
  next
    case (2 os t1)
    from 2(5) show ?thesis
    proof (cases rule: supersede_prior_cases)
      case 1
      then show ?thesis using assms(3) 2(7) by simp
    next
      case (2 prior)
      show ?thesis
      proof (cases "f = prior")
        case True
        then show ?thesis using \<open>t' = t1 @ _\<close> 2(3-5) by (intro disjI2 bexI [of _ "new_fence i now"]) auto
      next
        case False
        have "prior \<in> set t" using \<open>set os = _\<close> 2(1) by auto
        then have "migrationId f \<noteq> migrationId prior" using False fence_inv_unique assms(1,3) by blast
        then have "f \<in> set t1" unfolding 2(6) set_sql_update using assms(3) by auto
        then show ?thesis using \<open>t' = t1 @ _\<close> by simp
      qed
    qed
  qed
next
  case (step_activate i now cb n)
  with assms(1) show ?thesis
    by (rule activate_cases) (use assms(3,4) in \<open>auto simp: set_sql_update\<close>)
next
  case (step_cleanup i now n)
  with assms(1) show ?thesis
    by (rule cleanup_cases) (use assms(3,4) in \<open>auto simp: set_sql_update\<close>)
next
  case (step_cancel i now n)
  with assms(1) show ?thesis
    by (rule cancel_cases) (use assms(3,4) in \<open>auto simp: set_sql_update\<close>)
qed

text \<open>
  A cleaned fence is a tombstone: after any further call, whatever the source still admits for
  a vshard of the moved range carries a generation newer than the one the range moved to. So a
  gateway with an old routing generation never recreates rows on the source after cleanup.
\<close>

theorem cleaned_fence_blocks_old_generations:
  assumes "fence_step\<^sup>*\<^sup>* [] t" and "f \<in> set t" and "status f = Cleaned" and "fence_step t t'"
    and "fence_covers f v" and "assertMutationAdmission e v t' = Inr ()"
  shows "destinationGeneration f < e"
proof -
  have inv: "fence_inv t" using assms(1) by (rule fences.reachable_inv)
  have reach: "fence_step\<^sup>*\<^sup>* [] t'" using assms(1,4) by (rule rtranclp.rtrancl_into_rtrancl)
  have v: "safe_integer e" "1 \<le> e" "0 \<le> v" "v < VSHARD_COUNT"
    using assms(6) by (auto simp: assertMutationAdmission_def assertGeneration_def fence_assertVshard_def result_simps)
  have adm: "\<forall>g \<in> set t'. live g \<and> fence_covers g v \<longrightarrow> status g = Prepared \<and> sourceGeneration g = e"
    using assms(6) admission_eq [OF fences.reachable_inv [OF reach] v] by (auto split: if_splits)
  from cleaned_row_step [OF inv assms(4,2,3)] show ?thesis
    using adm assms(3,5) by (fastforce simp: live_def fence_covers_def)
qed

definition demo_identity2 :: CdbRoutingFenceIdentity where
  "demo_identity2 = demo_identity\<lparr>migrationId := ''m2'', sourceGeneration := 5, destinationGeneration := 6\<rparr>"

definition demo_superseded :: CdbRoutingFence where
  "demo_superseded = demo_cleaned\<lparr>status := Superseded, supersededAt := Some 130\<rparr>"

lemma demo_run4:
  "prepare demo_identity2 130 [demo_cleaned] =
     Inr (new_fence demo_identity2 130, [demo_superseded, new_fence demo_identity2 130])"
  by code_simp

theorem cleaned_fence_blocks_old_generations_witness:
  "assertMutationAdmission 5 15 [demo_superseded, new_fence demo_identity2 130] = Inr () \<and>
   destinationGeneration demo_cleaned < 5"
proof
  show adm: "assertMutationAdmission 5 15 [demo_superseded, new_fence demo_identity2 130] = Inr ()"
    by code_simp
  have step: "fence_step [demo_cleaned] [demo_superseded, new_fence demo_identity2 130]"
    using demo_run4 by (rule step_prepare)
  show "destinationGeneration demo_cleaned < 5"
    by (rule cleaned_fence_blocks_old_generations [OF demo_reachable(3) _ _ step _ adm])
      (simp_all add: demo_defs new_fence_def fence_covers_def)
qed

text \<open>
  Retries are idempotent: a successful \<open>prepare\<close> leaves the fence of that identity, and a
  repetition of the call, at any valid later or earlier time, returns that fence and changes nothing.
\<close>

theorem prepare_idempotent:
  assumes "fence_step\<^sup>*\<^sup>* [] t" and "prepare i now t = Inr (f, t')"
    and "safe_integer now'" and "0 \<le> now'"
  shows "fence_identity f = i \<and> f \<in> set t' \<and> prepare i now' t' = Inr (f, t')"
proof -
  have inv: "fence_inv t" using assms(1) by (rule fences.reachable_inv)
  have inv': "fence_inv t'" using inv assms(2) by (rule prepare_inv)
  have valid: "fence_assertIdentity i = Inr ()"
    using assms(2) by (auto simp: prepare_def rbind_eq_Inr)
  from inv assms(2) have f: "fence_identity f = i \<and> f \<in> set t'"
  proof (cases rule: prepare_cases)
    case 1
    then show ?thesis by simp
  next
    case (2 os t1)
    have "f \<in> set t'" and "migrationId f = migrationId i"
      using 2(8) inv' by (simp_all add: required_inv)
    moreover have "new_fence i now \<in> set t'" using 2(7) by simp
    ultimately have "f = new_fence i now" using fence_inv_unique [OF inv'] by simp
    then show ?thesis using \<open>f \<in> set t'\<close> by simp
  qed
  then have "migrationId i = migrationId f" by (auto simp: fence_identity_def)
  then have "sql_one (\<lambda>r. migrationId r = migrationId i) t' = Some f"
    using f inv' sql_one_unique [of migrationId t' f] by (auto simp: fence_inv_def)
  then show ?thesis
    using f valid assms(3,4) inv'
    by (simp add: prepare_def byMigrationId_inv fence_assertTimestamp_def assertSameIdentity_def)
qed

theorem prepare_idempotent_witness:
  "prepare demo_identity 50 [demo_prepared] = Inr (demo_prepared, [demo_prepared])"
  using prepare_idempotent [OF _ demo_run1, of 50] by (simp add: safe_integer_def)

text \<open>
  The one transition that does not clamp its timestamp: when the clock reads earlier than the
  moment the tombstone was cleaned, a \<open>prepare\<close> that may supersede it fails with SQLite's own
  constraint error (\<open>superseded_at >= cleaned_at\<close>) instead of a CharDB error. The other transitions
  take the maximum of the clock and the earlier timestamp.
\<close>

theorem prepare_clock_regression:
  assumes "fence_step\<^sup>*\<^sup>* [] [f]" and "status f = Cleaned" and "cleanedAt f = Some c" and "now < c"
    and "fence_assertIdentity i = Inr ()" and "safe_integer now" and "0 \<le> now"
    and "migrationId i \<noteq> migrationId f" and "rangeLo i = rangeLo f" and "rangeHi i = rangeHi f"
    and "destinationGeneration f < sourceGeneration i"
  shows "prepare i now [f] = Inl SqliteError"
proof -
  have inv: "fence_inv [f]" using assms(1) by (rule fences.reachable_inv)
  have row: "fence_row_ok f" using inv by (simp add: fence_inv_def)
  have "overlapping (rangeLo i) (rangeHi i) [f] = Inr [f]"
    using assms(2,9,10) row parseFence_Inr [OF row]
    by (simp add: overlapping_def fence_row_ok_def fence_check_def)
  moreover have "\<not> fence_check (f\<lparr>status := Superseded, supersededAt := Some now\<rparr>)"
    using assms(3,4) by (simp add: fence_check_def not_before_def)
  ultimately show ?thesis
    using assms inv
    by (simp add: prepare_def byMigrationId_inv sql_one_def fence_assertTimestamp_def CDB_ROUTING_FENCE_MAX_ROWS_def
        supersede_prior_def sql_update_checked_def)
qed

theorem prepare_clock_regression_witness: "prepare demo_identity2 115 [demo_cleaned] = Inl SqliteError"
proof -
  have v: "fence_assertIdentity demo_identity2 = Inr ()" by code_simp
  show ?thesis
    by (rule prepare_clock_regression [OF demo_reachable(3) _ _ _ v, of 120])
      (simp_all add: demo_defs demo_identity2_def new_fence_def safe_integer_def)
qed

end
