(* ===== verification/Intervals.thy ===== *)
theory Intervals
  imports Errors "HOL-Library.Char_ord" "HOL-Library.List_Lexorder"
begin

text \<open>
  Intervals for live-query invalidation, \<^verbatim>\<open>src/src/intervals.ts\<close>: keys as tuples of scalars, endpoints,
  interval sets and the map from index to subscriptions. A comparison of scalars of different types
  throws; a number is an integer (a key column holds SQLite values, and the sign of \<open>a - b\<close> is all
  that is used).
\<close>

section \<open>Data\<close>

datatype IntervalScalar = IString string | INumber int | IBigint int | IBytes "nat list"

type_synonym IntervalKey = "IntervalScalar list"

datatype Endpoint = NEG_INF | POS_INF | Bound IntervalKey bool

record Interval =
  iv_lo :: Endpoint
  iv_hi :: Endpoint

datatype side = Lo | Hi

section \<open>Comparisons\<close>

definition sign_of :: "'a::linorder \<Rightarrow> 'a \<Rightarrow> int" where
  "sign_of a b = (if a < b then - 1 else if b < a then 1 else 0)"

fun cmp_bytes :: "nat list \<Rightarrow> nat list \<Rightarrow> int" where
  "cmp_bytes (a # as) (b # bs) = (if a \<noteq> b then int a - int b else cmp_bytes as bs)"
| "cmp_bytes as bs = int (length as) - int (length bs)"

fun cmpScalar :: "IntervalScalar \<Rightarrow> IntervalScalar \<Rightarrow> int res" where
  "cmpScalar (IString a) (IString b) = Inr (sign_of a b)"
| "cmpScalar (INumber a) (INumber b) = Inr (a - b)"
| "cmpScalar (IBigint a) (IBigint b) = Inr (sign_of a b)"
| "cmpScalar (IBytes a) (IBytes b) = Inr (cmp_bytes a b)"
| "cmpScalar _ _ = Inl TypeError"

fun cmpKey :: "IntervalKey \<Rightarrow> IntervalKey \<Rightarrow> int res" where
  "cmpKey (a # as) (b # bs) = rbind (cmpScalar a b) (\<lambda>c. if c \<noteq> 0 then Inr c else cmpKey as bs)"
| "cmpKey as bs = Inr (int (length as) - int (length bs))"

fun cmpEndpoint :: "Endpoint \<Rightarrow> Endpoint \<Rightarrow> side \<Rightarrow> int res" where
  "cmpEndpoint NEG_INF b s = Inr (if b = NEG_INF then 0 else - 1)"
| "cmpEndpoint a NEG_INF s = Inr 1"
| "cmpEndpoint POS_INF b s = Inr (if b = POS_INF then 0 else 1)"
| "cmpEndpoint a POS_INF s = Inr (- 1)"
| "cmpEndpoint (Bound v i) (Bound w j) s = rbind (cmpKey v w) (\<lambda>c.
     if c \<noteq> 0 then Inr c
     else if i = j then Inr 0
     else if s = Lo then Inr (if i then - 1 else 1)
     else Inr (if i then 1 else - 1))"

definition iv_point :: "IntervalKey \<Rightarrow> Interval" where
  "iv_point v = \<lparr> iv_lo = Bound v True, iv_hi = Bound v True \<rparr>"

definition closedRange :: "IntervalKey \<Rightarrow> IntervalKey \<Rightarrow> Interval" where
  "closedRange l h = \<lparr> iv_lo = Bound l True, iv_hi = Bound h True \<rparr>"

definition prefixRange :: "IntervalKey \<Rightarrow> IntervalKey \<Rightarrow> Interval" where
  "prefixRange p supremum = \<lparr> iv_lo = Bound p True, iv_hi = Bound supremum False \<rparr>"

definition FULL :: Interval where
  "FULL = \<lparr> iv_lo = NEG_INF, iv_hi = POS_INF \<rparr>"

fun leLoHi :: "Endpoint \<Rightarrow> Endpoint \<Rightarrow> bool res" where
  "leLoHi NEG_INF h = Inr True"
| "leLoHi l POS_INF = Inr True"
| "leLoHi POS_INF h = Inr False"
| "leLoHi l NEG_INF = Inr False"
| "leLoHi (Bound v i) (Bound w j) = rbind (cmpKey v w) (\<lambda>c. Inr (if c \<noteq> 0 then c < 0 else i \<and> j))"

definition overlaps :: "Interval \<Rightarrow> Interval \<Rightarrow> bool res" where
  "overlaps a b = rbind (leLoHi (iv_lo a) (iv_hi b)) (\<lambda>x. if \<not> x then Inr False else leLoHi (iv_lo b) (iv_hi a))"

definition iv_contains :: "Interval \<Rightarrow> IntervalKey \<Rightarrow> bool res" where
  "iv_contains iv key =
     rbind (cmpEndpoint (iv_lo iv) (Bound key True) Lo) (\<lambda>c.
     if \<not> c \<le> 0 then Inr False else rbind (cmpEndpoint (Bound key True) (iv_hi iv) Hi) (\<lambda>d. Inr (d \<le> 0)))"

section \<open>Interval sets\<close>

type_synonym IntervalSet = "Interval list"

definition set_add :: "Interval \<Rightarrow> IntervalSet \<Rightarrow> IntervalSet" where
  "set_add iv s = s @ [iv]"

primrec set_contains :: "IntervalSet \<Rightarrow> IntervalKey \<Rightarrow> bool res" where
  "set_contains [] key = Inr False"
| "set_contains (iv # s) key = rbind (iv_contains iv key) (\<lambda>b. if b then Inr True else set_contains s key)"

primrec any_overlap :: "Interval \<Rightarrow> IntervalSet \<Rightarrow> bool res" where
  "any_overlap a [] = Inr False"
| "any_overlap a (b # bs) = rbind (overlaps a b) (\<lambda>x. if x then Inr True else any_overlap a bs)"

primrec set_intersects :: "IntervalSet \<Rightarrow> IntervalSet \<Rightarrow> bool res" where
  "set_intersects [] other = Inr False"
| "set_intersects (a # as) other = rbind (any_overlap a other) (\<lambda>x. if x then Inr True else set_intersects as other)"

definition set_full :: IntervalSet where
  "set_full = set_add FULL []"

definition set_of :: "Interval list \<Rightarrow> IntervalSet" where
  "set_of ivs = fold set_add ivs []"

section \<open>The map from indexes to subscriptions\<close>

text \<open>\<open>byKey\<close>: a JavaScript \<open>Map\<close> as the list of its entries in insertion order.\<close>

type_synonym 'sub IntervalMap = "(string \<times> ('sub \<times> IntervalSet) list) list"

definition map_key :: "string \<Rightarrow> string \<Rightarrow> string" where
  "map_key table indexName = table @ CHR 0x00 # indexName"

definition register :: "'sub \<Rightarrow> string \<Rightarrow> string \<Rightarrow> IntervalSet \<Rightarrow> 'sub IntervalMap \<Rightarrow> 'sub IntervalMap" where
  "register sub table indexName s m =
     (let k = map_key table indexName in
      case map_of m k of
        None \<Rightarrow> m @ [(k, [(sub, s)])]
      | Some _ \<Rightarrow> map (\<lambda>(k', arr). (k', if k' = k then arr @ [(sub, s)] else arr)) m)"

definition unregister :: "'sub \<Rightarrow> 'sub IntervalMap \<Rightarrow> 'sub IntervalMap" where
  "unregister sub m = filter (\<lambda>(k, arr). arr \<noteq> []) (map (\<lambda>(k, arr). (k, filter (\<lambda>e. fst e \<noteq> sub) arr)) m)"

primrec hits :: "IntervalKey \<Rightarrow> ('sub \<times> IntervalSet) list \<Rightarrow> 'sub list res" where
  "hits key [] = Inr []"
| "hits key (e # es) = rbind (set_contains (snd e) key) (\<lambda>b. rbind (hits key es) (\<lambda>hs. Inr (if b then fst e # hs else hs)))"

definition iv_match :: "string \<Rightarrow> string \<Rightarrow> IntervalKey \<Rightarrow> 'sub IntervalMap \<Rightarrow> 'sub list res" where
  "iv_match table indexName key m = (case map_of m (map_key table indexName) of None \<Rightarrow> Inr [] | Some arr \<Rightarrow> hits key arr)"

definition map_size :: "'sub IntervalMap \<Rightarrow> nat" where
  "map_size m = sum_list (map (length \<circ> snd) m)"

section \<open>One order for all keys\<close>

text \<open>
  The comparisons that do not throw agree with one linear order: scalars of different types are
  ordered by type, keys lexicographically.
\<close>

fun scalar_rank :: "IntervalScalar \<Rightarrow> nat" where
  "scalar_rank (IString _) = 0" | "scalar_rank (INumber _) = 1" | "scalar_rank (IBigint _) = 2" | "scalar_rank (IBytes _) = 3"

fun scalar_lt :: "IntervalScalar \<Rightarrow> IntervalScalar \<Rightarrow> bool" where
  "scalar_lt (IString a) (IString b) = (a < b)"
| "scalar_lt (INumber a) (INumber b) = (a < b)"
| "scalar_lt (IBigint a) (IBigint b) = (a < b)"
| "scalar_lt (IBytes a) (IBytes b) = (a < b)"
| "scalar_lt a b = (scalar_rank a < scalar_rank b)"

instantiation IntervalScalar :: linorder
begin

definition less_IntervalScalar :: "IntervalScalar \<Rightarrow> IntervalScalar \<Rightarrow> bool" where
  "less_IntervalScalar = scalar_lt"

definition less_eq_IntervalScalar :: "IntervalScalar \<Rightarrow> IntervalScalar \<Rightarrow> bool" where
  "less_eq_IntervalScalar a b \<longleftrightarrow> a = b \<or> scalar_lt a b"

instance
proof
  fix a b c :: IntervalScalar
  have irrefl: "\<not> scalar_lt a a" for a by (cases a) auto
  have trans: "scalar_lt a b \<Longrightarrow> scalar_lt b c \<Longrightarrow> scalar_lt a c" for a b c
    by (cases a; cases b; cases c) auto
  show "a \<le> a" by (simp add: less_eq_IntervalScalar_def)
  show "a < b \<longleftrightarrow> a \<le> b \<and> \<not> b \<le> a"
    using irrefl trans unfolding less_IntervalScalar_def less_eq_IntervalScalar_def by blast
  show "a \<le> b \<Longrightarrow> b \<le> c \<Longrightarrow> a \<le> c"
    using trans unfolding less_eq_IntervalScalar_def by blast
  show "a \<le> b \<Longrightarrow> b \<le> a \<Longrightarrow> a = b"
    using irrefl trans unfolding less_eq_IntervalScalar_def by blast
  show "a \<le> b \<or> b \<le> a"
    unfolding less_eq_IntervalScalar_def by (cases a; cases b) auto
qed

end

definition agrees :: "int \<Rightarrow> 'a::linorder \<Rightarrow> 'a \<Rightarrow> bool" where
  "agrees c a b \<longleftrightarrow> (c < 0 \<longleftrightarrow> a < b) \<and> (c = 0 \<longleftrightarrow> a = b) \<and> (0 < c \<longleftrightarrow> b < a)"

lemma agrees_sign: "agrees (sign_of a b) a b"
  by (auto simp: agrees_def sign_of_def)

lemma Nil_less_list: "[] < xs \<longleftrightarrow> xs \<noteq> []" for xs :: "'a::linorder list"
  by (cases xs) auto

lemma agrees_bytes: "agrees (cmp_bytes a b) a b"
  by (induction a b rule: cmp_bytes.induct) (auto simp: agrees_def Nil_less_list)

lemma agrees_scalars [simp]:
  "agrees c (IString x) (IString y) = agrees c x y" "agrees c (INumber m) (INumber n) = agrees c m n"
  "agrees c (IBigint m) (IBigint n) = agrees c m n" "agrees c (IBytes u) (IBytes v) = agrees c u v"
  by (simp_all add: agrees_def less_IntervalScalar_def)

lemma cmpScalar_agrees: "cmpScalar a b = Inr c \<Longrightarrow> agrees c a b"
proof (cases a; cases b)
  fix m n assume "cmpScalar a b = Inr c" "a = INumber m" "b = INumber n"
  then show ?thesis by (auto simp: agrees_def less_IntervalScalar_def)
qed (use agrees_sign agrees_bytes in auto)

lemma cmpKey_agrees: "cmpKey a b = Inr c \<Longrightarrow> agrees c a b"
proof (induction a b arbitrary: c rule: cmpKey.induct)
  case (1 a as b bs)
  then obtain d where d: "cmpScalar a b = Inr d" by (auto simp: rbind_eq_Inr)
  then have ab: "agrees d a b" by (rule cmpScalar_agrees)
  show ?case
  proof (cases "d = 0")
    case True
    then show ?thesis using 1 d ab by (auto simp: agrees_def)
  next
    case False
    then have "c = d" using 1 d by simp
    then show ?thesis using ab False by (auto simp: agrees_def)
  qed
qed (auto simp: agrees_def Nil_less_list)

section \<open>Membership\<close>

fun above_lo :: "Endpoint \<Rightarrow> IntervalKey \<Rightarrow> bool" where
  "above_lo NEG_INF k = True" | "above_lo POS_INF k = False" | "above_lo (Bound v i) k = (v < k \<or> i \<and> v = k)"

fun below_hi :: "Endpoint \<Rightarrow> IntervalKey \<Rightarrow> bool" where
  "below_hi NEG_INF k = False" | "below_hi POS_INF k = True" | "below_hi (Bound v i) k = (k < v \<or> i \<and> v = k)"

definition mem :: "Interval \<Rightarrow> IntervalKey \<Rightarrow> bool" where
  "mem iv k \<longleftrightarrow> above_lo (iv_lo iv) k \<and> below_hi (iv_hi iv) k"

lemma cmp_lo_mem: "cmpEndpoint e (Bound k True) Lo = Inr c \<Longrightarrow> c \<le> 0 \<longleftrightarrow> above_lo e k"
  by (cases e) (auto simp: rbind_eq_Inr agrees_def dest: cmpKey_agrees split: if_splits)

lemma cmp_hi_mem: "cmpEndpoint (Bound k True) e Hi = Inr c \<Longrightarrow> c \<le> 0 \<longleftrightarrow> below_hi e k"
  by (cases e) (auto simp: rbind_eq_Inr agrees_def dest!: cmpKey_agrees split: if_splits)

lemma iv_contains_mem: "iv_contains iv k = Inr b \<Longrightarrow> b \<longleftrightarrow> mem iv k"
  by (auto simp: iv_contains_def mem_def rbind_eq_Inr dest: cmp_lo_mem cmp_hi_mem split: if_splits)

lemma set_contains_mem: "set_contains s k = Inr b \<Longrightarrow> b \<longleftrightarrow> (\<exists>iv \<in> set s. mem iv k)"
  by (induction s) (auto simp: rbind_eq_Inr dest: iv_contains_mem split: if_splits)

lemma leLoHi_mem: "leLoHi l h = Inr x \<Longrightarrow> above_lo l k \<Longrightarrow> below_hi h k \<Longrightarrow> x"
  by (cases l; cases h) (auto simp: rbind_eq_Inr agrees_def dest!: cmpKey_agrees)

lemma overlaps_mem: "overlaps a b = Inr x \<Longrightarrow> mem a k \<Longrightarrow> mem b k \<Longrightarrow> x"
  by (auto simp: overlaps_def mem_def rbind_eq_Inr dest: leLoHi_mem split: if_splits)

lemma any_overlap_mem: "any_overlap a bs = Inr x \<Longrightarrow> mem a k \<Longrightarrow> \<exists>b \<in> set bs. mem b k \<Longrightarrow> x"
  by (induction bs) (auto simp: rbind_eq_Inr dest: overlaps_mem split: if_splits)

lemma set_intersects_mem:
  "set_intersects as bs = Inr x \<Longrightarrow> \<exists>a \<in> set as. mem a k \<Longrightarrow> \<exists>b \<in> set bs. mem b k \<Longrightarrow> x"
  by (induction as) (auto simp: rbind_eq_Inr dest: any_overlap_mem split: if_splits)

section \<open>Subscriptions over a history\<close>

text \<open>
  What the shard asks of the map: entries come out in registration order under their own key, and
  dropping a subscription removes its entries under every key and no other.
\<close>

locale subscription_index =
  fixes inv :: "'m \<Rightarrow> bool" and empty :: 'm
    and lookup :: "'m \<Rightarrow> 'k \<Rightarrow> ('s \<times> 'e) list"
    and reg :: "'s \<Rightarrow> 'k \<Rightarrow> 'e \<Rightarrow> 'm \<Rightarrow> 'm"
    and unreg :: "'s \<Rightarrow> 'm \<Rightarrow> 'm"
  assumes inv_empty: "inv empty" and lookup_empty: "lookup empty k = []"
    and inv_reg: "inv m \<Longrightarrow> inv (reg s k e m)" and inv_unreg: "inv m \<Longrightarrow> inv (unreg s m)"
    and lookup_reg: "inv m \<Longrightarrow> lookup (reg s k e m) k' = lookup m k' @ (if k' = k then [(s, e)] else [])"
    and lookup_unreg: "inv m \<Longrightarrow> lookup (unreg s m) k = filter (\<lambda>x. fst x \<noteq> s) (lookup m k)"
begin

text \<open>An operation is a registration \<open>Inl (s, k, e)\<close> or the removal \<open>Inr s\<close>.\<close>

definition apply_op :: "'s \<times> 'k \<times> 'e + 's \<Rightarrow> 'm \<Rightarrow> 'm" where
  "apply_op op m = (case op of Inl (s, k, e) \<Rightarrow> reg s k e m | Inr s \<Rightarrow> unreg s m)"

definition track :: "'k \<Rightarrow> 's \<times> 'k \<times> 'e + 's \<Rightarrow> ('s \<times> 'e) list \<Rightarrow> ('s \<times> 'e) list" where
  "track k op l = (case op of Inl (s, k', e) \<Rightarrow> (if k' = k then l @ [(s, e)] else l) | Inr s \<Rightarrow> filter (\<lambda>x. fst x \<noteq> s) l)"

lemma history_from: "inv m \<Longrightarrow> inv (fold apply_op ops m) \<and> lookup (fold apply_op ops m) k = fold (track k) ops (lookup m k)"
proof (induction ops arbitrary: m)
  case (Cons op ops)
  have "inv (apply_op op m)" and "lookup (apply_op op m) k = track k op (lookup m k)"
    using Cons.prems inv_reg inv_unreg lookup_reg lookup_unreg
    by (auto simp: apply_op_def track_def split: sum.splits)
  then show ?case using Cons.IH by simp
qed simp

lemma history: "lookup (fold apply_op ops empty) k = fold (track k) ops []"
  using history_from [OF inv_empty] lookup_empty by simp

end

definition map_lookup :: "'sub IntervalMap \<Rightarrow> string \<Rightarrow> ('sub \<times> IntervalSet) list" where
  "map_lookup m k = (case map_of m k of None \<Rightarrow> [] | Some arr \<Rightarrow> arr)"

definition map_inv :: "'sub IntervalMap \<Rightarrow> bool" where
  "map_inv m \<longleftrightarrow> distinct (map fst m)"

definition register_at :: "'sub \<Rightarrow> string \<Rightarrow> IntervalSet \<Rightarrow> 'sub IntervalMap \<Rightarrow> 'sub IntervalMap" where
  "register_at sub k s m = (case map_of m k of
        None \<Rightarrow> m @ [(k, [(sub, s)])]
      | Some _ \<Rightarrow> map (\<lambda>(k', arr). (k', if k' = k then arr @ [(sub, s)] else arr)) m)"

lemma register_register_at: "register sub table indexName s m = register_at sub (map_key table indexName) s m"
  by (simp add: register_def register_at_def Let_def)

lemma map_of_update:
  "map_of (map (\<lambda>(k', arr). (k', if k' = k then f arr else arr)) m) q =
     (if q = k then map_option f (map_of m q) else map_of m q)"
  by (induction m) auto

lemma map_of_prune_None:
  "q \<notin> fst ` set m \<Longrightarrow> map_of (filter P (map (\<lambda>(k, arr). (k, f arr)) m)) q = None"
  by (induction m) auto

lemma map_of_prune:
  "distinct (map fst m) \<Longrightarrow> map_lookup (filter (\<lambda>(k, arr). arr \<noteq> []) (map (\<lambda>(k, arr). (k, f arr)) m)) q =
     (case map_of m q of None \<Rightarrow> [] | Some arr \<Rightarrow> f arr)"
proof (induction m)
  case (Cons e m)
  then show ?case by (cases e) (auto simp: map_lookup_def map_of_prune_None)
qed (simp add: map_lookup_def)

interpretation interval_index: subscription_index map_inv "[]" map_lookup register_at unregister
proof
  show "map_inv []" by (simp add: map_inv_def)
  show "map_lookup [] k = []" for k :: string by (simp add: map_lookup_def)
next
  fix m :: "'sub IntervalMap" and s k e k'
  assume m: "map_inv m"
  have keys: "map fst (map (\<lambda>(k', arr). (k', if k' = k then arr @ [(s, e)] else arr)) m) = map fst m"
    by (induction m) auto
  show "map_inv (register_at s k e m)"
  proof (cases "map_of m k")
    case None
    then have "k \<notin> fst ` set m" by (simp add: map_of_eq_None_iff)
    then show ?thesis using m None by (simp add: map_inv_def register_at_def)
  next
    case (Some arr)
    then show ?thesis using m by (simp add: map_inv_def register_at_def keys del: map_map)
  qed
  show "map_lookup (register_at s k e m) k' = map_lookup m k' @ (if k' = k then [(s, e)] else [])"
  proof (cases "map_of m k")
    case None
    then show ?thesis
      by (auto simp: map_lookup_def register_at_def map_add_def split: option.splits)
  next
    case (Some arr)
    then show ?thesis
      by (auto simp: map_lookup_def register_at_def map_of_update [where f = "\<lambda>arr. arr @ [(s, e)]"] split: option.splits)
  qed
next
  fix m :: "'sub IntervalMap" and s k
  assume m: "map_inv m"
  have sub: "map fst (filter P (map (\<lambda>(k, arr). (k, f arr)) m)) = map fst (filter (\<lambda>(k, arr). P (k, f arr)) m)" for P f
    by (induction m) auto
  show "map_inv (unregister s m)"
    using m unfolding map_inv_def unregister_def sub by (induction m) auto
  show "map_lookup (unregister s m) k = filter (\<lambda>x. fst x \<noteq> s) (map_lookup m k)"
    using m unfolding map_inv_def unregister_def
    by (simp only: map_of_prune) (simp add: map_lookup_def split: option.splits)
qed

datatype 'sub map_op = Register 'sub string string IntervalSet | Unregister 'sub

primrec run_op :: "'sub map_op \<Rightarrow> 'sub IntervalMap \<Rightarrow> 'sub IntervalMap" where
  "run_op (Register sub table indexName s) m = register sub table indexName s m"
| "run_op (Unregister sub) m = unregister sub m"

text \<open>The registrations under one index that are in force after a history, oldest first.\<close>

primrec in_force :: "string \<Rightarrow> string \<Rightarrow> 'sub map_op \<Rightarrow> ('sub \<times> IntervalSet) list \<Rightarrow> ('sub \<times> IntervalSet) list" where
  "in_force t i (Register sub table indexName s) l = (if table = t \<and> indexName = i then l @ [(sub, s)] else l)"
| "in_force t i (Unregister sub) l = filter (\<lambda>e. fst e \<noteq> sub) l"

definition op_table :: "'sub map_op \<Rightarrow> string" where
  "op_table op = (case op of Register sub table indexName s \<Rightarrow> table | Unregister sub \<Rightarrow> [])"

lemma map_key_inj:
  assumes "CHR 0x00 \<notin> set t" and "CHR 0x00 \<notin> set t'"
  shows "map_key t i = map_key t' i' \<longleftrightarrow> t = t' \<and> i = i'"
proof -
  have "t = t' \<and> i = i'" if "t @ CHR 0x00 # i = t' @ CHR 0x00 # i'"
    using that assms
  proof (induction t arbitrary: t')
    case Nil
    then show ?case by (cases t') auto
  next
    case (Cons c t)
    then show ?case by (cases t') auto
  qed
  then show ?thesis by (auto simp: map_key_def)
qed

definition to_op :: "'sub map_op \<Rightarrow> 'sub \<times> string \<times> IntervalSet + 'sub" where
  "to_op op = (case op of Register sub table indexName s \<Rightarrow> Inl (sub, map_key table indexName, s) | Unregister sub \<Rightarrow> Inr sub)"

lemma run_op_apply: "run_op op = interval_index.apply_op (to_op op)"
  by (cases op) (auto simp: to_op_def interval_index.apply_op_def register_register_at)

lemma in_force_track:
  assumes "CHR 0x00 \<notin> set t" and "CHR 0x00 \<notin> set (op_table op)"
  shows "in_force t i op = interval_index.track (map_key t i) (to_op op)"
  using assms by (cases op) (auto simp: to_op_def interval_index.track_def op_table_def map_key_inj)

lemma lookup_history:
  assumes "CHR 0x00 \<notin> set t" and "\<forall>op \<in> set ops. CHR 0x00 \<notin> set (op_table op)"
  shows "map_lookup (fold run_op ops []) (map_key t i) = fold (in_force t i) ops []"
proof -
  have "fold run_op ops m = fold interval_index.apply_op (map to_op ops) m" for m
    by (induction ops arbitrary: m) (auto simp: run_op_apply)
  moreover have "fold (in_force t i) ops l = fold (interval_index.track (map_key t i)) (map to_op ops) l" for l
    using assms(2) by (induction ops arbitrary: l) (auto simp: in_force_track [OF assms(1)])
  ultimately show ?thesis using interval_index.history by metis
qed

lemma hits_mem: "hits key es = Inr hs \<Longrightarrow> hs = map fst (filter (\<lambda>e. \<exists>iv \<in> set (snd e). mem iv key) es)"
proof (induction es arbitrary: hs)
  case (Cons e es)
  then obtain b hs' where b: "set_contains (snd e) key = Inr b" and "hits key es = Inr hs'" and "hs = (if b then fst e # hs' else hs')"
    by (auto simp: rbind_eq_Inr)
  then show ?case using Cons.IH set_contains_mem [OF b] by simp
qed simp

section \<open>Properties\<close>

text \<open>
  C38. A committed write wakes the right subscriptions: after any history of registrations and removals (with
  table names free of the separator character), a match that does not throw returns, in registration
  order, exactly the subscriptions in force for the index whose interval set contains the key.
\<close>

theorem interval_match_history:
  assumes "CHR 0x00 \<notin> set t" and "\<forall>op \<in> set ops. CHR 0x00 \<notin> set (op_table op)"
    and "iv_match t i key (fold run_op ops []) = Inr woken"
  shows "woken = map fst (filter (\<lambda>e. \<exists>iv \<in> set (snd e). mem iv key) (fold (in_force t i) ops []))"
proof -
  have "hits key (map_lookup (fold run_op ops []) (map_key t i)) = Inr woken"
    using assms(3) by (simp add: iv_match_def map_lookup_def split: option.splits)
  then show ?thesis using hits_mem unfolding lookup_history [OF assms(1,2)] by blast
qed

text \<open>
  Intersection never misses: two interval sets that share a key are reported as intersecting,
  unless a comparison throws. The comparisons that decide it agree with one linear order of keys.
\<close>

theorem set_intersects_complete:
  assumes "set_intersects as bs = Inr x" and "a \<in> set as" and "b \<in> set bs" and "mem a key" and "mem b key"
  shows "x"
  using set_intersects_mem [OF assms(1)] assms(2-) by blast

text \<open>
  The decisions are those of a linear order: whenever two keys can be compared, the sign of the result is
  their position in the lexicographic order of keys, and a set contains a key exactly when the key lies
  between the endpoints of one of its intervals.
\<close>

theorem cmpKey_order:
  "(cmpKey a b = Inr c \<longrightarrow> (c < 0 \<longleftrightarrow> a < b) \<and> (c = 0 \<longleftrightarrow> a = b) \<and> (0 < c \<longleftrightarrow> b < a)) \<and>
   (set_contains s key = Inr found \<longrightarrow> (found \<longleftrightarrow> (\<exists>iv \<in> set s. mem iv key)))"
  using cmpKey_agrees [of a b c] set_contains_mem by (auto simp: agrees_def)

subsection \<open>Witnesses\<close>

definition sample_ops :: "nat map_op list" where
  "sample_ops = [Register 1 ''t'' ''i'' [closedRange [INumber 3] [INumber 7]], Register 2 ''t'' ''i'' [iv_point [INumber 9]],
     Register 3 ''t'' ''i'' [FULL], Unregister 3, Register 4 ''t'' ''j'' [FULL]]"

theorem interval_match_history_witness:
  "[1] = map fst (filter (\<lambda>e. \<exists>iv \<in> set (snd e). mem iv [INumber 5]) (fold (in_force ''t'' ''i'') sample_ops []))"
proof -
  have "iv_match ''t'' ''i'' [INumber 5] (fold run_op sample_ops []) = Inr [1]" by code_simp
  moreover have "\<forall>op \<in> set sample_ops. CHR 0x00 \<notin> set (op_table op)" by code_simp
  ultimately show ?thesis using interval_match_history [of "''t''" sample_ops "''i''" "[INumber 5]"] by simp
qed

theorem set_intersects_complete_witness:
  "set_intersects [closedRange [INumber 3] [INumber 7]] [prefixRange [INumber 7] [INumber 8]] = Inr True"
proof -
  obtain x where x: "set_intersects [closedRange [INumber 3] [INumber 7]] [prefixRange [INumber 7] [INumber 8]] = Inr x"
    by (simp add: closedRange_def prefixRange_def overlaps_def)
  have "x"
    by (rule set_intersects_complete [OF x, of "closedRange [INumber 3] [INumber 7]" "prefixRange [INumber 7] [INumber 8]" "[INumber 7]"])
      (simp_all add: mem_def closedRange_def prefixRange_def less_IntervalScalar_def)
  then show ?thesis using x by simp
qed

theorem cmpKey_order_witness: "[IString ''a'', INumber 2] < [IString ''a'', INumber 10]"
proof -
  have "cmpKey [IString ''a'', INumber 2] [IString ''a'', INumber 10] = Inr (- 8)" by code_simp
  then show ?thesis using cmpKey_order [of "[IString ''a'', INumber 2]" "[IString ''a'', INumber 10]" "- 8"] by simp
qed

end
