(* ===== verification/Base64.thy ===== *)
theory Base64
  imports Errors
begin

text \<open>
  The platform's \<open>btoa\<close> and \<open>atob\<close>, which the wire formats of intervals and of captured mutation outcomes use: base64
  of byte strings with the forgiving decoder, which skips ASCII white space and accepts a missing padding.
\<close>

section \<open>Encoding and decoding\<close>

definition b64_alphabet :: string where
  "b64_alphabet = ''ABCDEFGHIJKLMNOPQRSTUVWXYZabcdefghijklmnopqrstuvwxyz0123456789+/''"

definition b64_char :: "nat \<Rightarrow> char" where
  "b64_char n = b64_alphabet ! n"

definition b64_value :: "char \<Rightarrow> nat option" where
  "b64_value c = map_of (zip b64_alphabet [0..<64]) c"

definition ascii_space :: string where
  "ascii_space = [CHR 0x09, CHR 0x0A, CHR 0x0C, CHR 0x0D, CHR 0x20]"

fun btoa :: "nat list \<Rightarrow> string" where
  "btoa [] = []"
| "btoa [a] = [b64_char (a div 4), b64_char (a mod 4 * 16), CHR ''='', CHR ''='']"
| "btoa [a, b] = [b64_char (a div 4), b64_char (a mod 4 * 16 + b div 16), b64_char (b mod 16 * 4), CHR ''='']"
| "btoa (a # b # c # rest) =
     b64_char (a div 4) # b64_char (a mod 4 * 16 + b div 16) # b64_char (b mod 16 * 4 + c div 64) # b64_char (c mod 64) # btoa rest"

definition strip_padding :: "string \<Rightarrow> string" where
  "strip_padding s =
     (if length s mod 4 \<noteq> 0 \<or> s = [] \<or> last s \<noteq> CHR ''='' then s
      else (let t = butlast s in if t \<noteq> [] \<and> last t = CHR ''='' then butlast t else t))"

fun b64_groups :: "nat list \<Rightarrow> nat list" where
  "b64_groups (p # q # r # t # rest) = (p * 4 + q div 16) # (q mod 16 * 16 + r div 4) # (r mod 4 * 64 + t) # b64_groups rest"
| "b64_groups [p, q, r] = [p * 4 + q div 16, q mod 16 * 16 + r div 4]"
| "b64_groups [p, q] = [p * 4 + q div 16]"
| "b64_groups _ = []"

definition atob :: "string \<Rightarrow> nat list res" where
  "atob s0 =
     (let s = strip_padding (filter (\<lambda>c. c \<notin> set ascii_space) s0) in
      if length s mod 4 = 1 \<or> \<not> list_all (\<lambda>c. b64_value c \<noteq> None) s then Inl JsError
      else Inr (b64_groups (List.map_filter b64_value s)))"

section \<open>Round trip\<close>

fun sextets :: "nat list \<Rightarrow> nat list" where
  "sextets [] = []"
| "sextets [a] = [a div 4, a mod 4 * 16]"
| "sextets [a, b] = [a div 4, a mod 4 * 16 + b div 16, b mod 16 * 4]"
| "sextets (a # b # c # rest) = a div 4 # (a mod 4 * 16 + b div 16) # (b mod 16 * 4 + c div 64) # c mod 64 # sextets rest"

fun padding :: "nat list \<Rightarrow> string" where
  "padding [] = []" | "padding [a] = ''==''" | "padding [a, b] = ''=''" | "padding (a # b # c # rest) = padding rest"

lemma btoa_sextets: "btoa bs = map b64_char (sextets bs) @ padding bs"
  by (induction bs rule: btoa.induct) simp_all

lemma sextet_bounds:
  assumes "(a :: nat) < 256" and "b < 256"
  shows "a div 4 < 64" and "a mod 4 * 16 + b div 16 < 64" and "a mod 16 * 4 + b div 64 < 64" and "a mod 4 * 16 < 64"
    and "a mod 16 * 4 < 64"
  using assms less_mult_imp_div_less [of a 64 4] less_mult_imp_div_less [of b 16 16] less_mult_imp_div_less [of b 4 64]
    mod_less_divisor [of 4 a] mod_less_divisor [of 16 a] by auto

lemma sextets_small: "byte_list bs \<Longrightarrow> list_all (\<lambda>n. n < 64) (sextets bs)"
proof (induction bs rule: sextets.induct)
  case (4 a b c rest)
  have "a < 256" "b < 256" "c < 256" using 4(2) by (auto simp: byte_list_def)
  then show ?case using 4 sextet_bounds(1,2) [of a b] sextet_bounds(3) [of b c] by (simp add: byte_list_def)
next
  case (3 a b)
  then show ?case using sextet_bounds(1,2) [of a b] sextet_bounds(5) [of b a] by (simp add: byte_list_def)
next
  case (2 a)
  then show ?case using sextet_bounds(1,4) [of a a] by (simp add: byte_list_def)
qed simp

lemma sextets_range: "byte_list bs \<Longrightarrow> n \<in> set (sextets bs) \<Longrightarrow> n < 64"
  using sextets_small by (simp add: list_all_iff)

lemma join_sextets:
  assumes "(b :: nat) < 256" and "c < 256"
  shows "a div 4 * 4 + (a mod 4 * 16 + b div 16) div 16 = (a :: nat)"
    and "(a mod 4 * 16 + b div 16) mod 16 * 16 + (b mod 16 * 4 + c div 64) div 4 = b"
    and "(b mod 16 * 4 + c div 64) mod 4 * 64 + c mod 64 = c"
proof -
  have "b div 16 < 16" and "c div 64 < 4"
    using assms less_mult_imp_div_less [of b 16 16] less_mult_imp_div_less [of c 4 64] by simp_all
  then show "a div 4 * 4 + (a mod 4 * 16 + b div 16) div 16 = a"
    and "(a mod 4 * 16 + b div 16) mod 16 * 16 + (b mod 16 * 4 + c div 64) div 4 = b"
    and "(b mod 16 * 4 + c div 64) mod 4 * 64 + c mod 64 = c"
    by (simp_all add: div_mult_mod_eq mod_add_eq [symmetric])
qed

lemma groups_sextets: "byte_list bs \<Longrightarrow> b64_groups (sextets bs) = bs"
proof (induction bs rule: sextets.induct)
  case (4 a b c rest)
  have "b < 256" "c < 256" using 4(2) by (auto simp: byte_list_def)
  then show ?case using 4 join_sextets(1,2) [of b c a] join_sextets(3) [of b c] by (simp add: byte_list_def)
next
  case (3 a b)
  then have "b < 256" by (auto simp: byte_list_def)
  then show ?case using join_sextets(1,2) [of b 0 a] by simp
next
  case (2 a)
  show ?case using join_sextets(1) [of 0 0 a] by simp
qed simp

lemma b64_alphabet_facts:
  "length b64_alphabet = 64" "distinct b64_alphabet" "CHR ''='' \<notin> set b64_alphabet" "set b64_alphabet \<inter> set ascii_space = {}"
  by (simp_all add: b64_alphabet_def ascii_space_def)

lemma b64_chars:
  assumes "n < 64"
  shows "b64_value (b64_char n) = Some n" and "b64_char n \<noteq> CHR ''=''" and "b64_char n \<notin> set ascii_space"
proof -
  have mem: "b64_char n \<in> set b64_alphabet" using assms b64_alphabet_facts(1) by (simp add: b64_char_def)
  show "b64_value (b64_char n) = Some n"
    using map_of_zip_nth [of b64_alphabet "[0..<64]" n] assms b64_alphabet_facts(1,2) by (simp add: b64_value_def b64_char_def)
  show "b64_char n \<noteq> CHR ''=''" using mem b64_alphabet_facts(3) by auto
  show "b64_char n \<notin> set ascii_space" using mem b64_alphabet_facts(4) by auto
qed

lemma padding_cases: "padding bs \<in> {[], ''='', ''==''}"
  by (induction bs rule: padding.induct) simp_all

lemma padding_length: "(length (sextets bs) + length (padding bs)) mod 4 = 0"
  by (induction bs rule: padding.induct) simp_all

lemma sextets_Nil: "sextets bs = [] \<longleftrightarrow> bs = []"
  by (cases bs rule: sextets.cases) simp_all

lemma strip_padding_btoa:
  assumes "byte_list bs"
  shows "strip_padding (btoa bs) = map b64_char (sextets bs)"
proof (cases "bs = []")
  case False
  let ?X = "map b64_char (sextets bs)"
  have ne: "?X \<noteq> []" using False sextets_Nil by simp
  have "last (sextets bs) < 64" using sextets_range [OF assms] ne by simp
  then have lastX: "last ?X \<noteq> CHR ''=''" using ne b64_chars(2) by (simp add: last_map)
  have len: "length (btoa bs) mod 4 = 0" using padding_length [of bs] by (simp add: btoa_sextets)
  from padding_cases [of bs] consider "padding bs = []" | "padding bs = ''=''" | "padding bs = ''==''" by auto
  then show ?thesis
  proof cases
    case 1
    then show ?thesis using lastX len by (simp add: strip_padding_def btoa_sextets)
  next
    case 2
    then have s: "btoa bs = ?X @ ''=''" by (simp add: btoa_sextets)
    show ?thesis unfolding strip_padding_def using len lastX ne by (simp add: s butlast_append)
  next
    case 3
    then have s: "btoa bs = (?X @ ''='') @ ''=''" by (simp add: btoa_sextets)
    show ?thesis unfolding strip_padding_def using len ne by (simp add: s butlast_append)
  qed
qed (simp add: strip_padding_def)

lemma atob_btoa:
  assumes "byte_list bs"
  shows "atob (btoa bs) = Inr bs"
proof -
  let ?X = "map b64_char (sextets bs)"
  have small: "\<And>n. n \<in> set (sextets bs) \<Longrightarrow> n < 64" using sextets_range [OF assms] .
  have "CHR ''='' \<notin> set ascii_space" by (simp add: ascii_space_def)
  then have "\<forall>c \<in> set (padding bs). c \<notin> set ascii_space" using padding_cases [of bs] by auto
  then have keep: "filter (\<lambda>c. c \<notin> set ascii_space) (btoa bs) = btoa bs"
    using small b64_chars(3) by (auto simp: filter_id_conv btoa_sextets)
  have "List.map_filter b64_value (map b64_char ns) = ns" if "\<forall>n \<in> set ns. n < 64" for ns
    using that by (induction ns) (auto simp: map_filter_simps b64_chars(1))
  then have vals: "List.map_filter b64_value ?X = sextets bs" using small by blast
  have all: "list_all (\<lambda>c. b64_value c \<noteq> None) ?X" using small b64_chars(1) by (auto simp: list_all_iff)
  have "length (sextets bs) mod 4 \<noteq> 1"
    using padding_length [of bs] padding_cases [of bs] by auto presburger+
  then show ?thesis
    using keep vals all by (simp add: atob_def strip_padding_btoa [OF assms] groups_sextets [OF assms])
qed

end
