(* ===== verification/Intervals_Wire.thy ===== *)
theory Intervals_Wire
  imports Intervals Base64
begin

text \<open>
  Intervals on the wire, \<^verbatim>\<open>src/src/intervals_wire.ts\<close>: the encoding of scalars into JSON with tagged strings,
  and the check that declared intervals cover the observed ones. \<open>BigInt\<close> is the platform's, by
  the string grammar of integer literals.
  \<open>Array.prototype.sort\<close> is a stable insertion sort that passes on what the comparator throws.
\<close>

section \<open>BigInt literals\<close>

definition parse_digits :: "nat \<Rightarrow> string \<Rightarrow> int res" where
  "parse_digits base s = (if s = [] then Inl JsError
     else case digits_value base s 0 of None \<Rightarrow> Inl JsError | Some n \<Rightarrow> Inr (int n))"

definition js_space :: "char \<Rightarrow> bool" where
  "js_space c \<longleftrightarrow> (of_char c :: nat) \<in> {9, 10, 11, 12, 13, 32, 160}"

definition js_trim :: "string \<Rightarrow> string" where
  "js_trim s = rev (dropWhile js_space (rev (dropWhile js_space s)))"

definition BigInt :: "string \<Rightarrow> int res" where
  "BigInt s0 = (let s = js_trim s0 in
     if s = [] then Inr 0
     else if take 2 s \<in> {''0x'', ''0X''} then parse_digits 16 (drop 2 s)
     else if take 2 s \<in> {''0o'', ''0O''} then parse_digits 8 (drop 2 s)
     else if take 2 s \<in> {''0b'', ''0B''} then parse_digits 2 (drop 2 s)
     else if hd s = CHR ''-'' then rbind (parse_digits 10 (tl s)) (\<lambda>n. Inr (- n))
     else if hd s = CHR ''+'' then parse_digits 10 (tl s)
     else parse_digits 10 s)"

section \<open>The wire\<close>

text \<open>The JSON a scalar can be: a string, a number, or something else.\<close>

datatype wire_scalar = JString string | JNumber int | JOther

datatype WireEndpoint = W_neg_inf | W_pos_inf | W_value "wire_scalar list" bool

datatype WireInterval = W_full | W_range WireEndpoint WireEndpoint

definition bin_tag :: string where "bin_tag = CHR 0x00 # ''bin:''"
definition bi_tag :: string where "bi_tag = CHR 0x00 # ''bi:''"

fun scalarToJson :: "IntervalScalar \<Rightarrow> wire_scalar" where
  "scalarToJson (IBytes bs) = JString (bin_tag @ btoa bs)"
| "scalarToJson (IBigint n) = JString (bi_tag @ decimal n)"
| "scalarToJson (IString s) = JString s"
| "scalarToJson (INumber n) = JNumber n"

fun jsonToScalar :: "wire_scalar \<Rightarrow> IntervalScalar res" where
  "jsonToScalar (JString j) =
     (if take 5 j = bin_tag then rbind (atob (drop 5 j)) (\<lambda>bs. Inr (IBytes bs))
      else if take 4 j = bi_tag then rbind (BigInt (drop 4 j)) (\<lambda>n. Inr (IBigint n))
      else Inr (IString j))"
| "jsonToScalar (JNumber n) = Inr (INumber n)"
| "jsonToScalar JOther = Inl TypeError"

fun endpointToWire :: "Endpoint \<Rightarrow> WireEndpoint" where
  "endpointToWire NEG_INF = W_neg_inf"
| "endpointToWire POS_INF = W_pos_inf"
| "endpointToWire (Bound v i) = W_value (map scalarToJson v) i"

fun endpointFromWire :: "WireEndpoint \<Rightarrow> Endpoint res" where
  "endpointFromWire W_neg_inf = Inr NEG_INF"
| "endpointFromWire W_pos_inf = Inr POS_INF"
| "endpointFromWire (W_value v i) = rbind (rmap jsonToScalar v) (\<lambda>k. Inr (Bound k i))"

definition intervalToWire :: "Interval \<Rightarrow> WireInterval" where
  "intervalToWire iv = (if iv_lo iv = NEG_INF \<and> iv_hi iv = POS_INF then W_full
     else W_range (endpointToWire (iv_lo iv)) (endpointToWire (iv_hi iv)))"

fun intervalFromWire :: "WireInterval \<Rightarrow> Interval res" where
  "intervalFromWire W_full = Inr FULL"
| "intervalFromWire (W_range l h) =
     rbind (endpointFromWire l) (\<lambda>l'. rbind (endpointFromWire h) (\<lambda>h'. Inr \<lparr> iv_lo = l', iv_hi = h' \<rparr>))"

definition intervalSetToWire :: "IntervalSet \<Rightarrow> WireInterval list" where
  "intervalSetToWire s = map intervalToWire s"

definition intervalSetFromWire :: "WireInterval list \<Rightarrow> IntervalSet res" where
  "intervalSetFromWire arr = rfold (\<lambda>iv s. rbind (intervalFromWire iv) (\<lambda>i. Inr (set_add i s))) arr []"

section \<open>Coverage\<close>

definition intervalCovers :: "Interval \<Rightarrow> Interval \<Rightarrow> bool res" where
  "intervalCovers declared observed =
     rbind (cmpEndpoint (iv_lo declared) (iv_lo observed) Lo) (\<lambda>c.
     if \<not> c \<le> 0 then Inr False
     else rbind (cmpEndpoint (iv_hi declared) (iv_hi observed) Hi) (\<lambda>d. Inr (0 \<le> d)))"

fun touch :: "Endpoint \<Rightarrow> Endpoint \<Rightarrow> bool res" where
  "touch POS_INF r = Inr True"
| "touch l NEG_INF = Inr True"
| "touch NEG_INF r = Inr False"
| "touch l POS_INF = Inr False"
| "touch (Bound v i) (Bound w j) = rbind (cmpKey v w) (\<lambda>c. Inr (if c \<noteq> 0 then 0 < c else i \<or> j))"

definition intervalsTouchOrOverlap :: "Interval \<Rightarrow> Interval \<Rightarrow> bool res" where
  "intervalsTouchOrOverlap left right = touch (iv_hi left) (iv_lo right)"

primrec insert_by_lo :: "Interval \<Rightarrow> Interval list \<Rightarrow> Interval list res" where
  "insert_by_lo x [] = Inr [x]"
| "insert_by_lo x (y # ys) = rbind (cmpEndpoint (iv_lo y) (iv_lo x) Lo) (\<lambda>c.
     if c \<le> 0 then rbind (insert_by_lo x ys) (\<lambda>r. Inr (y # r)) else Inr (x # y # ys))"

definition sort_by_lo :: "Interval list \<Rightarrow> Interval list res" where
  "sort_by_lo ivs = rfold insert_by_lo ivs []"

definition merge_one :: "Interval \<Rightarrow> Interval list \<Rightarrow> Interval list res" where
  "merge_one iv merged =
     (if merged = [] then Inr [iv]
      else
        let previous = last merged in
        rbind (intervalsTouchOrOverlap previous iv) (\<lambda>t.
        if \<not> t then Inr (merged @ [iv])
        else rbind (cmpEndpoint (iv_hi iv) (iv_hi previous) Hi) (\<lambda>c.
          Inr (if 0 < c then butlast merged @ [\<lparr> iv_lo = iv_lo previous, iv_hi = iv_hi iv \<rparr>] else merged))))"

definition mergedIntervals :: "Interval list \<Rightarrow> Interval list res" where
  "mergedIntervals ivs = rbind (sort_by_lo ivs) (\<lambda>sorted'. rfold merge_one sorted' [])"

primrec some_covers :: "Interval \<Rightarrow> Interval list \<Rightarrow> bool res" where
  "some_covers actual [] = Inr False"
| "some_covers actual (iv # ivs) = rbind (intervalCovers iv actual) (\<lambda>b. if b then Inr True else some_covers actual ivs)"

primrec every_covered :: "Interval list \<Rightarrow> WireInterval list \<Rightarrow> bool res" where
  "every_covered declared [] = Inr True"
| "every_covered declared (w # ws) = rbind (intervalFromWire w) (\<lambda>actual.
     rbind (some_covers actual declared) (\<lambda>b. if b then every_covered declared ws else Inr False))"

text \<open>\<open>observed\<close> is \<open>None\<close> for the string \<open>"full"\<close>. A throw inside the \<open>try\<close> is the answer \<open>false\<close>.\<close>

definition wireIntervalsCover :: "WireInterval list \<Rightarrow> WireInterval list option \<Rightarrow> bool" where
  "wireIntervalsCover declared observed =
     (if list_ex (\<lambda>w. w = W_full) declared then True
      else case observed of
          None \<Rightarrow> False
        | Some obs \<Rightarrow>
            (case rbind (rbind (rmap intervalFromWire declared) mergedIntervals) (\<lambda>ds. every_covered ds obs) of
               Inl e \<Rightarrow> False | Inr b \<Rightarrow> b))"

section \<open>Coverage is sound\<close>

lemma cmp_bounds:
  assumes "cmpEndpoint (Bound v i) (Bound w j) s = Inr c"
  shows "c \<le> 0 \<longleftrightarrow> v < w \<or> v = w \<and> (i = j \<or> (s = Lo \<longleftrightarrow> i))"
    and "0 \<le> c \<longleftrightarrow> w < v \<or> v = w \<and> (i = j \<or> (s = Lo \<longleftrightarrow> j))"
proof -
  obtain d where d: "cmpKey v w = Inr d" using assms by (auto simp: rbind_eq_Inr)
  note order = cmpKey_agrees [OF d, unfolded agrees_def]
  show "c \<le> 0 \<longleftrightarrow> v < w \<or> v = w \<and> (i = j \<or> (s = Lo \<longleftrightarrow> i))"
    and "0 \<le> c \<longleftrightarrow> w < v \<or> v = w \<and> (i = j \<or> (s = Lo \<longleftrightarrow> j))"
    using assms d order by (cases "d = 0"; cases i; cases j; cases s; auto)+
qed

lemma cmp_lo_weaker:
  assumes "cmpEndpoint a b Lo = Inr c" and "c \<le> 0" and "above_lo b k"
  shows "above_lo a k"
proof (cases a; cases b)
  fix v i w j assume ab: "a = Bound v i" "b = Bound w j"
  then have "v < w \<or> v = w \<and> (i = j \<or> i)" using cmp_bounds(1) [of v i w j Lo c] assms(1,2) by simp
  then show ?thesis using assms(3) ab by auto
qed (use assms in auto)

lemma cmp_hi_weaker:
  assumes "cmpEndpoint a b Hi = Inr c" and "0 \<le> c" and "below_hi b k"
  shows "below_hi a k"
proof (cases a; cases b)
  fix v i w j assume ab: "a = Bound v i" "b = Bound w j"
  then have "w < v \<or> v = w \<and> (i = j \<or> \<not> j)" using cmp_bounds(2) [of v i w j Hi c] assms(1,2) by simp
  then show ?thesis using assms(3) ab by auto
qed (use assms in auto)

lemma intervalCovers_mem: "intervalCovers d ob = Inr True \<Longrightarrow> mem ob k \<Longrightarrow> mem d k"
  by (auto simp: intervalCovers_def mem_def rbind_eq_Inr dest: cmp_lo_weaker cmp_hi_weaker split: if_splits)

text \<open>Between an upper bound and a lower bound that touch there is no gap.\<close>

lemma touch_no_gap: "touch h l = Inr True \<Longrightarrow> \<not> below_hi h k \<Longrightarrow> above_lo l k"
  by (cases h; cases l) (auto simp: rbind_eq_Inr agrees_def dest!: cmpKey_agrees split: if_splits)

lemma set_insert_by_lo: "insert_by_lo x ys = Inr zs \<Longrightarrow> set zs = insert x (set ys)"
  by (induction ys arbitrary: zs) (auto simp: rbind_eq_Inr split: if_splits)

lemma set_sort_by_lo_from: "rfold insert_by_lo xs ys = Inr zs \<Longrightarrow> set zs = set xs \<union> set ys"
  by (induction xs arbitrary: ys) (auto simp: rbind_eq_Inr dest: set_insert_by_lo)

definition union :: "Interval list \<Rightarrow> IntervalKey \<Rightarrow> bool" where
  "union ivs k \<longleftrightarrow> (\<exists>iv \<in> set ivs. mem iv k)"

lemma union_append: "union (xs @ ys) k \<longleftrightarrow> union xs k \<or> union ys k"
  by (auto simp: union_def)

lemma merge_one_union:
  assumes "merge_one iv merged = Inr out" and "union out k"
  shows "union merged k \<or> mem iv k"
proof (cases "merged = []")
  case True
  then show ?thesis using assms by (auto simp: merge_one_def union_def)
next
  case False
  let ?p = "last merged" and ?n = "\<lparr> iv_lo = iv_lo (last merged), iv_hi = iv_hi iv \<rparr>"
  have split: "merged = butlast merged @ [?p]" using False by simp
  from assms(1) False consider "out = merged @ [iv]" | "out = merged"
    | "intervalsTouchOrOverlap ?p iv = Inr True" "out = butlast merged @ [?n]"
    by (auto simp: merge_one_def Let_def rbind_eq_Inr split: if_splits)
  then show ?thesis
  proof cases
    case 3
    have "mem ?p k \<or> mem iv k" if "mem ?n k"
      using that touch_no_gap [of "iv_hi ?p" "iv_lo iv" k] 3(1) by (auto simp: mem_def intervalsTouchOrOverlap_def)
    then show ?thesis using assms(2) 3(2) split by (metis (no_types, lifting) union_append union_def empty_iff empty_set insert_iff list.simps(15))
  qed (use assms(2) in \<open>auto simp: union_def\<close>)
qed

lemma merged_union: "rfold merge_one xs merged = Inr out \<Longrightarrow> union out k \<Longrightarrow> union merged k \<or> union xs k"
proof (induction xs arbitrary: merged)
  case (Cons x xs)
  then obtain m where m: "merge_one x merged = Inr m" and "rfold merge_one xs m = Inr out" by (auto simp: rbind_eq_Inr)
  then have "union m k \<or> union xs k" using Cons by blast
  then show ?case using merge_one_union [OF m] by (auto simp: union_def)
qed simp

lemma mergedIntervals_union: "mergedIntervals ivs = Inr out \<Longrightarrow> union out k \<Longrightarrow> union ivs k"
  using merged_union [of _ "[]" out k] set_sort_by_lo_from [of ivs "[]"]
  by (fastforce simp: mergedIntervals_def sort_by_lo_def rbind_eq_Inr union_def)

lemma some_covers_union: "some_covers ob ds = Inr True \<Longrightarrow> mem ob k \<Longrightarrow> union ds k"
  by (induction ds) (auto simp: rbind_eq_Inr union_def dest: intervalCovers_mem split: if_splits)

lemma every_covered_each:
  "every_covered ds ws = Inr True \<Longrightarrow> w \<in> set ws \<Longrightarrow> intervalFromWire w = Inr ob \<Longrightarrow> mem ob k \<Longrightarrow> union ds k"
  by (induction ws) (auto simp: rbind_eq_Inr dest: some_covers_union split: if_splits)

section \<open>Round trips\<close>

lemma parse_decimal: "parse_digits 10 (decimal_nat n) = Inr (int n)"
  using decimal_nat_value [of n] decimal_nat_digits [of n] by (simp add: parse_digits_def)

lemma trim_id:
  assumes "\<forall>c \<in> set s. \<not> js_space c"
  shows "js_trim s = s"
proof -
  have drop: "dropWhile js_space t = t" if "\<forall>c \<in> set t. \<not> js_space c" for t using that by (cases t) auto
  have "dropWhile js_space s = s" and "dropWhile js_space (rev s) = rev s" using assms by (auto intro!: drop)
  then show ?thesis by (simp add: js_trim_def)
qed

lemma digit_facts: "is_digit c \<Longrightarrow> \<not> js_space c \<and> c \<notin> set ''xXoObB-+''"
  by (auto simp: is_digit_def js_space_def)

lemma no_prefix: "(\<forall>c \<in> set s. c \<notin> set ''xXoObB'') \<Longrightarrow> take 2 s \<notin> {''0x'', ''0X'', ''0o'', ''0O'', ''0b'', ''0B''}"
proof -
  assume h: "\<forall>c \<in> set s. c \<notin> set ''xXoObB''"
  have "c \<in> set s" if "take 2 s = [d, c]" for c d using that by (metis in_set_takeD list.set_intros(1) list.set_intros(2))
  then show ?thesis using h by fastforce
qed

lemma BigInt_decimal: "BigInt (decimal n) = Inr n"
proof (cases "n < 0")
  case False
  let ?s = "decimal_nat (nat n)"
  note d = decimal_nat_digits [of "nat n"]
  have trim: "js_trim ?s = ?s" using d digit_facts by (intro trim_id) blast
  have "take 2 ?s \<notin> {''0x'', ''0X'', ''0o'', ''0O'', ''0b'', ''0B''}" using d digit_facts by (intro no_prefix) auto
  moreover have "hd ?s \<notin> set ''-+''" using d digit_facts [of "hd ?s"] by auto
  ultimately show ?thesis using False d trim parse_decimal [of "nat n"] by (simp add: BigInt_def decimal_def)
next
  case True
  let ?s = "decimal_nat (nat (- n))"
  note d = decimal_nat_digits [of "nat (- n)"]
  have "\<not> js_space (CHR ''-'')" by (simp add: js_space_def)
  then have trim: "js_trim (CHR ''-'' # ?s) = CHR ''-'' # ?s" using d digit_facts by (intro trim_id) auto
  then show ?thesis using True d parse_decimal [of "nat (- n)"] by (simp add: BigInt_def decimal_def)
qed

text \<open>A scalar the tags cannot be confused with.\<close>

fun plain_scalar :: "IntervalScalar \<Rightarrow> bool" where
  "plain_scalar (IString s) \<longleftrightarrow> take 5 s \<noteq> bin_tag \<and> take 4 s \<noteq> bi_tag"
| "plain_scalar (IBytes bs) \<longleftrightarrow> byte_list bs"
| "plain_scalar _ \<longleftrightarrow> True"

fun plain_endpoint :: "Endpoint \<Rightarrow> bool" where
  "plain_endpoint (Bound v i) \<longleftrightarrow> list_all plain_scalar v"
| "plain_endpoint _ \<longleftrightarrow> True"

definition plain_interval :: "Interval \<Rightarrow> bool" where
  "plain_interval iv \<longleftrightarrow> plain_endpoint (iv_lo iv) \<and> plain_endpoint (iv_hi iv)"

lemma scalar_roundtrip: "plain_scalar s \<Longrightarrow> jsonToScalar (scalarToJson s) = Inr s"
proof (cases s)
  case (IBigint n)
  have "take 5 (bi_tag @ decimal n) \<noteq> bin_tag" by (simp add: bi_tag_def bin_tag_def)
  then show ?thesis using IBigint by (simp add: BigInt_decimal bi_tag_def)
next
  case (IBytes bs)
  then show "plain_scalar s \<Longrightarrow> ?thesis" by (simp add: atob_btoa bin_tag_def)
qed auto

lemma endpoint_roundtrip: "plain_endpoint e \<Longrightarrow> endpointFromWire (endpointToWire e) = Inr e"
proof (cases e)
  case (Bound v i)
  have "rmap jsonToScalar (map scalarToJson v) = Inr v" if "list_all plain_scalar v"
    using that by (induction v) (auto simp: scalar_roundtrip)
  then show "plain_endpoint e \<Longrightarrow> ?thesis" using Bound by simp
qed auto

lemma interval_roundtrip: "plain_interval iv \<Longrightarrow> intervalFromWire (intervalToWire iv) = Inr iv"
  by (auto simp: intervalToWire_def plain_interval_def endpoint_roundtrip FULL_def)

section \<open>Properties\<close>

text \<open>
  The coverage check is sound: if the declared intervals are accepted as covering the observed ones, every
  key of an observed interval lies in some declared interval. A comparison or decoding that throws is never
  accepted.
\<close>

theorem wireIntervalsCover_sound:
  assumes "wireIntervalsCover declared (Some obs)" and "w \<in> set obs" and "intervalFromWire w = Inr ob" and "mem ob key"
  shows "\<exists>d \<in> set declared. \<exists>iv. intervalFromWire d = Inr iv \<and> mem iv key"
proof (cases "W_full \<in> set declared")
  case True
  have "mem FULL key" by (simp add: mem_def FULL_def)
  then show ?thesis using True by (intro bexI [of _ W_full] exI [of _ FULL]) auto
next
  case False
  then have "\<not> list_ex (\<lambda>w. w = W_full) declared" by (auto simp: list_ex_iff)
  then obtain ivs ds where ivs: "rmap intervalFromWire declared = Inr ivs" and ds: "mergedIntervals ivs = Inr ds"
    and ok: "every_covered ds obs = Inr True"
    using assms(1) by (auto simp: wireIntervalsCover_def rbind_eq_Inr split: sum.splits)
  have "union ds key" using every_covered_each [OF ok assms(2-4)] .
  then have "union ivs key" using mergedIntervals_union [OF ds] by blast
  then obtain j where "j < length ivs" "mem (ivs ! j) key" by (auto simp: union_def in_set_conv_nth)
  then show ?thesis using rmap_eq_Inr [OF ivs] by (metis nth_mem)
qed

text \<open>
  Round trip: an interval set whose byte scalars are bytes and whose string scalars do not start with one of the
  two tags is decoded from its wire form unchanged, big integers and byte strings included.
\<close>

theorem intervalSet_wire_roundtrip:
  assumes "list_all plain_interval s"
  shows "intervalSetFromWire (intervalSetToWire s) = Inr s"
proof -
  have "rfold (\<lambda>iv s. rbind (intervalFromWire iv) (\<lambda>i. Inr (set_add i s))) (map intervalToWire s) acc = Inr (acc @ s)" for acc
    using assms by (induction s arbitrary: acc) (auto simp: interval_roundtrip set_add_def)
  then show ?thesis by (simp add: intervalSetFromWire_def intervalSetToWire_def)
qed

text \<open>
  The tags are not escaped: a string scalar that starts with the big-integer tag and continues with a decimal
  comes back from the wire as a big integer, so the decoded key is not the encoded one and no longer
  compares with strings.
\<close>

theorem interval_tag_collision:
  "jsonToScalar (scalarToJson (IString (bi_tag @ decimal n))) = Inr (IBigint n) \<and>
   cmpScalar (IBigint n) (IString s) = Inl TypeError"
  using scalar_roundtrip [of "IBigint n"] by simp

subsection \<open>Witnesses\<close>

definition declared_sample :: "WireInterval list" where
  "declared_sample = [W_range (W_value [JNumber 5] True) (W_value [JNumber 9] True),
     W_range (W_value [JNumber 0] True) (W_value [JNumber 5] False)]"

definition observed_sample :: "WireInterval list" where
  "observed_sample = [W_range (W_value [JNumber 1] True) (W_value [JNumber 8] True)]"

theorem wireIntervalsCover_sound_witness:
  "\<exists>d \<in> set declared_sample. \<exists>iv. intervalFromWire d = Inr iv \<and> mem iv [INumber 4]"
proof -
  have "wireIntervalsCover declared_sample (Some observed_sample)" by code_simp
  then show ?thesis
    by (rule wireIntervalsCover_sound [of _ _ "hd observed_sample" "closedRange [INumber 1] [INumber 8]"])
      (simp_all add: observed_sample_def closedRange_def mem_def less_IntervalScalar_def)
qed

theorem intervalSet_wire_roundtrip_witness:
  "intervalSetFromWire (intervalSetToWire [iv_point [IBytes [1, 2, 255], IBigint (- 12)], FULL]) =
     Inr [iv_point [IBytes [1, 2, 255], IBigint (- 12)], FULL]"
  by (rule intervalSet_wire_roundtrip) (simp add: plain_interval_def iv_point_def FULL_def byte_list_def)

end
