(* ===== verification/Start_Intent.thy ===== *)
theory Start_Intent
  imports Store Vshard
begin

text \<open>
  The durable start intents of \<^verbatim>\<open>src/src/server/do/resharder-start-intent-store.ts\<close>: before the resharder awaits
  the catalog it records which split it is about to start, and an abort that arrives in that window
  leaves a cancellation tombstone in the same table.
\<close>

section \<open>Data\<close>

record ResharderStartIdentity =
  sid_migId :: string
  sid_srcShard :: string
  sid_dstShard :: string
  sid_rangeLo :: int
  sid_rangeHi :: int
  sid_epochAtStart :: int
  sid_recoveryGeneration :: int
  sid_tablesJson :: string

datatype start_state = Starting | Abort_requested

record ResharderStartIntent =
  int_migId :: string
  int_state :: start_state
  int_identity :: "ResharderStartIdentity option"

record StoredStartIntent =
  st_mig_id :: string
  st_state :: start_state
  st_src_shard :: "string option"
  st_dst_shard :: "string option"
  st_range_lo :: "int option"
  st_range_hi :: "int option"
  st_epoch_at_start :: "int option"
  st_recovery_generation :: "int option"
  st_tables_json :: "string option"
  st_created_at :: int
  st_updated_at :: int

type_synonym start_intents = "StoredStartIntent list"

definition all_null :: "StoredStartIntent \<Rightarrow> bool" where
  "all_null r \<longleftrightarrow> st_src_shard r = None \<and> st_dst_shard r = None \<and> st_range_lo r = None \<and> st_range_hi r = None \<and>
     st_epoch_at_start r = None \<and> st_recovery_generation r = None \<and> st_tables_json r = None"

definition all_present :: "StoredStartIntent \<Rightarrow> bool" where
  "all_present r \<longleftrightarrow> st_src_shard r \<noteq> None \<and> st_dst_shard r \<noteq> None \<and> st_range_lo r \<noteq> None \<and> st_range_hi r \<noteq> None \<and>
     st_epoch_at_start r \<noteq> None \<and> st_recovery_generation r \<noteq> None \<and> st_tables_json r \<noteq> None"

text \<open>The CHECK constraints of \<open>migration_start_intent\<close>.\<close>

definition RESHARDER_START_INTENT_DDL :: "StoredStartIntent \<Rightarrow> bool" where
  "RESHARDER_START_INTENT_DDL r \<longleftrightarrow>
     (case st_recovery_generation r of None \<Rightarrow> True | Some g \<Rightarrow> 0 \<le> g) \<and>
     0 \<le> st_created_at r \<and> st_created_at r \<le> st_updated_at r \<and> (all_null r \<or> all_present r)"

text \<open>The pattern \<open>/^[A-Za-z0-9][A-Za-z0-9_-]{0,127}$/\<close>.\<close>

definition MIGRATION_ID :: "string \<Rightarrow> bool" where
  "MIGRATION_ID s \<longleftrightarrow> (case s of [] \<Rightarrow> False | c # cs \<Rightarrow>
     alnum_char c \<and> length cs \<le> 127 \<and> list_all (\<lambda>x. alnum_char x \<or> x \<in> set ''_-'') cs)"

abbreviation start_mismatch :: js_error where "start_mismatch \<equiv> Cdb CDB_RESHARD_PHASE_MISMATCH"

section \<open>Operations\<close>

definition assertMigrationId :: "string \<Rightarrow> unit res" where
  "assertMigrationId migId = ensure (MIGRATION_ID migId) (Cdb CDB_INVALID_ARGS)"

definition sameStartIdentity :: "ResharderStartIdentity \<Rightarrow> ResharderStartIdentity \<Rightarrow> bool" where
  "sameStartIdentity left right \<longleftrightarrow>
     sid_migId left = sid_migId right \<and>
     sid_srcShard left = sid_srcShard right \<and>
     sid_dstShard left = sid_dstShard right \<and>
     sid_rangeLo left = sid_rangeLo right \<and>
     sid_rangeHi left = sid_rangeHi right \<and>
     sid_epochAtStart left = sid_epochAtStart right \<and>
     sid_recoveryGeneration left = sid_recoveryGeneration right \<and>
     sid_tablesJson left = sid_tablesJson right"

definition start_project :: "StoredStartIntent \<Rightarrow> ResharderStartIntent res" where
  "start_project row =
     rbind (ensure (all_null row \<or> all_present row) start_mismatch) (\<lambda>_.
     Inr \<lparr> int_migId = st_mig_id row, int_state = st_state row,
           int_identity = (if all_null row then None else Some
             \<lparr> sid_migId = st_mig_id row, sid_srcShard = the (st_src_shard row), sid_dstShard = the (st_dst_shard row),
               sid_rangeLo = the (st_range_lo row), sid_rangeHi = the (st_range_hi row),
               sid_epochAtStart = the (st_epoch_at_start row),
               sid_recoveryGeneration = the (st_recovery_generation row),
               sid_tablesJson = the (st_tables_json row) \<rparr>) \<rparr>)"

definition start_read :: "string \<Rightarrow> start_intents \<Rightarrow> ResharderStartIntent option res" where
  "start_read migId t =
     rbind (assertMigrationId migId) (\<lambda>_.
     case sql_one (\<lambda>r. st_mig_id r = migId) t of
       None \<Rightarrow> Inr None
     | Some row \<Rightarrow> rbind (start_project row) (\<lambda>v. Inr (Some v)))"

definition start_required :: "string \<Rightarrow> start_intents \<Rightarrow> ResharderStartIntent res" where
  "start_required migId t =
     rbind (start_read migId t) (\<lambda>intent. case intent of None \<Rightarrow> Inl start_mismatch | Some v \<Rightarrow> Inr v)"

definition assertCapacity :: "start_intents \<Rightarrow> unit res" where
  "assertCapacity t =
     rbind (ensure (safe_integer (int (length t)) \<and> 0 \<le> int (length t)) (Cdb CDB_INVARIANT)) (\<lambda>_.
     ensure (int (length t) < VSHARD_COUNT) (Cdb CDB_RATE_LIMITED))"

definition requireExact :: "ResharderStartIdentity \<Rightarrow> start_intents \<Rightarrow> ResharderStartIntent res" where
  "requireExact identity t =
     rbind (start_required (sid_migId identity) t) (\<lambda>intent.
     case int_identity intent of
       None \<Rightarrow> Inl start_mismatch
     | Some i \<Rightarrow> if sameStartIdentity i identity then Inr intent else Inl start_mismatch)"

definition starting_row :: "ResharderStartIdentity \<Rightarrow> int \<Rightarrow> StoredStartIntent" where
  "starting_row identity nowMs =
     \<lparr> st_mig_id = sid_migId identity, st_state = Starting, st_src_shard = Some (sid_srcShard identity),
       st_dst_shard = Some (sid_dstShard identity), st_range_lo = Some (sid_rangeLo identity),
       st_range_hi = Some (sid_rangeHi identity), st_epoch_at_start = Some (sid_epochAtStart identity),
       st_recovery_generation = Some (sid_recoveryGeneration identity),
       st_tables_json = Some (sid_tablesJson identity), st_created_at = nowMs, st_updated_at = nowMs \<rparr>"

definition start_begin :: "ResharderStartIdentity \<Rightarrow> int \<Rightarrow> start_intents \<Rightarrow> (ResharderStartIntent \<times> start_intents) res" where
  "start_begin identity nowMs t =
     rbind (assertMigrationId (sid_migId identity)) (\<lambda>_.
     rbind (ensure (safe_integer nowMs \<and> 0 \<le> nowMs) (Cdb CDB_INVALID_ARGS)) (\<lambda>_.
     rbind (start_read (sid_migId identity) t) (\<lambda>existing. case existing of
       Some v \<Rightarrow>
         (case int_identity v of
            Some i \<Rightarrow>
              if \<not> sameStartIdentity i identity then Inl start_mismatch
              else if int_state v = Abort_requested then Inl (Cdb CDB_STALE_EPOCH)
              else Inr (v, t)
          | None \<Rightarrow> if int_state v = Abort_requested then Inl (Cdb CDB_STALE_EPOCH) else Inl start_mismatch)
     | None \<Rightarrow>
         rbind (assertCapacity t) (\<lambda>_.
         rbind (sql_insert st_mig_id RESHARDER_START_INTENT_DDL (starting_row identity nowMs) t) (\<lambda>t'.
         rbind (requireExact identity t') (\<lambda>v. Inr (v, t')))))))"

definition canceled_row :: "string \<Rightarrow> int \<Rightarrow> StoredStartIntent" where
  "canceled_row migId nowMs =
     \<lparr> st_mig_id = migId, st_state = Abort_requested, st_src_shard = None, st_dst_shard = None, st_range_lo = None,
       st_range_hi = None, st_epoch_at_start = None, st_recovery_generation = None, st_tables_json = None,
       st_created_at = nowMs, st_updated_at = nowMs \<rparr>"

definition requestAbort :: "string \<Rightarrow> int \<Rightarrow> start_intents \<Rightarrow> (ResharderStartIntent \<times> start_intents) res" where
  "requestAbort migId nowMs t =
     rbind (assertMigrationId migId) (\<lambda>_.
     rbind (ensure (safe_integer nowMs \<and> 0 \<le> nowMs) (Cdb CDB_INVALID_ARGS)) (\<lambda>_.
     rbind (start_read migId t) (\<lambda>existing.
     rbind (case existing of
         None \<Rightarrow> rbind (assertCapacity t) (\<lambda>_. sql_insert st_mig_id RESHARDER_START_INTENT_DDL (canceled_row migId nowMs) t)
       | Some v \<Rightarrow> if int_state v = Starting
           then sql_update_checked RESHARDER_START_INTENT_DDL (\<lambda>r. st_mig_id r = migId \<and> st_state r = Starting)
             (\<lambda>r. r\<lparr>st_state := Abort_requested, st_updated_at := nowMs\<rparr>) t
           else Inr t) (\<lambda>t'.
     rbind (start_required migId t') (\<lambda>v. Inr (v, t'))))))"

definition clearStarted :: "ResharderStartIdentity \<Rightarrow> start_intents \<Rightarrow> start_intents res" where
  "clearStarted identity t =
     rbind (requireExact identity t) (\<lambda>intent.
     if int_state intent \<noteq> Starting then Inl (Cdb CDB_STALE_EPOCH)
     else (let p = (\<lambda>r. st_mig_id r = sid_migId identity \<and> st_state r = Starting) in
       rbind (ensure (sql_changes p t = 1) start_mismatch) (\<lambda>_. Inr (sql_delete p t))))"

inductive start_step :: "start_intents \<Rightarrow> start_intents \<Rightarrow> bool" where
  step_start_begin: "start_begin identity now t = Inr (v, t') \<Longrightarrow> start_step t t'"
| step_requestAbort: "requestAbort migId now t = Inr (v, t') \<Longrightarrow> start_step t t'"
| step_clearStarted: "clearStarted identity t = Inr t' \<Longrightarrow> start_step t t'"

section \<open>Tables of intents\<close>

definition start_inv :: "start_intents \<Rightarrow> bool" where
  "start_inv t \<longleftrightarrow> distinct (map st_mig_id t) \<and> (\<forall>r \<in> set t. RESHARDER_START_INTENT_DDL r) \<and> int (length t) \<le> VSHARD_COUNT"

definition canceled :: "StoredStartIntent \<Rightarrow> bool" where
  "canceled r \<longleftrightarrow> st_state r = Abort_requested"

lemma sameStartIdentity_eq: "sameStartIdentity i j \<longleftrightarrow> i = j"
  by (cases i; cases j) (simp add: sameStartIdentity_def)

lemma start_project_ok:
  "RESHARDER_START_INTENT_DDL r \<Longrightarrow> \<exists>v. start_project r = Inr v \<and> int_migId v = st_mig_id r \<and> int_state v = st_state r \<and>
     (case int_identity v of None \<Rightarrow> all_null r | Some i \<Rightarrow> sid_migId i = st_mig_id r)"
  by (auto simp: start_project_def RESHARDER_START_INTENT_DDL_def)

lemma start_project_starting_row [simp]:
  "start_project (starting_row identity now) =
     Inr \<lparr> int_migId = sid_migId identity, int_state = Starting, int_identity = Some identity \<rparr>"
  by (cases identity) (simp add: start_project_def starting_row_def all_null_def all_present_def)

lemma start_read_row:
  assumes "start_inv t" and "r \<in> set t" and "MIGRATION_ID (st_mig_id r)"
  shows "start_read (st_mig_id r) t = rbind (start_project r) (\<lambda>v. Inr (Some v))"
  using assms sql_one_unique [of st_mig_id t r] by (simp add: start_read_def start_inv_def assertMigrationId_def)

lemma start_read_Some:
  assumes "start_read m t = Inr (Some v)"
  obtains r where "r \<in> set t" "st_mig_id r = m" "start_project r = Inr v" "MIGRATION_ID m"
  using assms that
  by (auto simp: start_read_def assertMigrationId_def result_simps split: option.splits dest!: sql_one_SomeD)

lemma start_read_None: "start_read m t = Inr None \<longleftrightarrow> MIGRATION_ID m \<and> (\<forall>r \<in> set t. st_mig_id r \<noteq> m)"
proof -
  have "start_read m t = Inr None \<longleftrightarrow> MIGRATION_ID m \<and> sql_one (\<lambda>r. st_mig_id r = m) t = None"
    by (auto simp: start_read_def assertMigrationId_def result_simps split: option.splits)
  then show ?thesis by (simp add: sql_one_None_iff)
qed

lemma start_inv_insert:
  "start_inv t \<Longrightarrow> \<forall>s \<in> set t. st_mig_id s \<noteq> st_mig_id r \<Longrightarrow> RESHARDER_START_INTENT_DDL r \<Longrightarrow>
     int (length t) < VSHARD_COUNT \<Longrightarrow> start_inv (t @ [r])"
  by (auto simp: start_inv_def)

text \<open>What a successful call does to the table.\<close>

lemma start_begin_cases:
  assumes "start_begin identity now t = Inr (v, t')"
  shows "MIGRATION_ID (sid_migId identity) \<and> v = \<lparr> int_migId = sid_migId identity, int_state = Starting, int_identity = Some identity \<rparr> \<and>
    (t' = t \<and> start_read (sid_migId identity) t = Inr (Some v) \<or>
     int (length t) < VSHARD_COUNT \<and> (\<forall>r \<in> set t. st_mig_id r \<noteq> sid_migId identity) \<and>
       RESHARDER_START_INTENT_DDL (starting_row identity now) \<and> t' = t @ [starting_row identity now])"
proof (cases "start_read (sid_migId identity) t")
  case (Inl e)
  then show ?thesis using assms by (auto simp: start_begin_def result_simps)
next
  case (Inr existing)
  show ?thesis
  proof (cases existing)
    case None
    then have fresh: "MIGRATION_ID (sid_migId identity)" "\<forall>r \<in> set t. st_mig_id r \<noteq> sid_migId identity"
      using Inr start_read_None by auto
    have t': "int (length t) < VSHARD_COUNT" "RESHARDER_START_INTENT_DDL (starting_row identity now)"
      "t' = t @ [starting_row identity now]" and v: "requireExact identity t' = Inr v"
      using assms Inr None by (auto simp: start_begin_def assertCapacity_def result_simps)
    have "sql_one (\<lambda>r. st_mig_id r = sid_migId identity) t' = Some (starting_row identity now)"
      unfolding t'(3) using fresh(2) by (intro sql_one_append_new) (auto simp: sql_one_None_iff starting_row_def)
    then show ?thesis using v fresh t'
      by (simp add: requireExact_def start_required_def start_read_def assertMigrationId_def sameStartIdentity_eq)
  next
    case (Some w)
    then have w: "start_read (sid_migId identity) t = Inr (Some w)" using Inr by simp
    then obtain r where r: "st_mig_id r = sid_migId identity" "start_project r = Inr w" "MIGRATION_ID (sid_migId identity)"
      by (rule start_read_Some)
    have "int_identity w = Some identity" "int_state w = Starting" "v = w" "t' = t"
      using assms w by (auto simp: start_begin_def result_simps sameStartIdentity_eq split: option.splits if_splits intro: start_state.exhaust)
    moreover have "int_migId w = sid_migId identity" using r(1,2) by (auto simp: start_project_def result_simps)
    ultimately show ?thesis using r(3) w by simp
  qed
qed

lemma requestAbort_cases:
  assumes "requestAbort m now t = Inr (v, t')"
  shows "MIGRATION_ID m \<and> start_required m t' = Inr v \<and>
    (t' = t \<and> (\<exists>w. start_read m t = Inr (Some w) \<and> int_state w = Abort_requested) \<or>
     int (length t) < VSHARD_COUNT \<and> (\<forall>r \<in> set t. st_mig_id r \<noteq> m) \<and>
       RESHARDER_START_INTENT_DDL (canceled_row m now) \<and> t' = t @ [canceled_row m now] \<or>
     sql_update_checked RESHARDER_START_INTENT_DDL (\<lambda>r. st_mig_id r = m \<and> st_state r = Starting)
       (\<lambda>r. r\<lparr>st_state := Abort_requested, st_updated_at := now\<rparr>) t = Inr t' \<and>
       (\<exists>w. start_read m t = Inr (Some w) \<and> int_state w = Starting))"
proof -
  have state: "s = Abort_requested" if "s \<noteq> Starting" for s using that by (cases s) auto
  obtain existing where e: "start_read m t = Inr existing"
    using assms by (auto simp: requestAbort_def result_simps)
  have m: "MIGRATION_ID m" and v: "start_required m t' = Inr v"
    using assms by (auto simp: requestAbort_def assertMigrationId_def result_simps)
  show ?thesis
  proof (cases existing)
    case None
    then have fresh: "\<forall>r \<in> set t. st_mig_id r \<noteq> m" using e start_read_None by blast
    have "int (length t) < VSHARD_COUNT" "RESHARDER_START_INTENT_DDL (canceled_row m now)" "t' = t @ [canceled_row m now]"
      using assms e None by (auto simp: requestAbort_def assertCapacity_def result_simps)
    then show ?thesis using m v fresh by blast
  next
    case (Some w)
    then show ?thesis using assms e m v state by (auto simp: requestAbort_def rbind_eq_Inr split: if_splits)
  qed
qed

lemma clearStarted_cases:
  assumes "clearStarted identity t = Inr t'"
  shows "t' = sql_delete (\<lambda>r. st_mig_id r = sid_migId identity \<and> st_state r = Starting) t"
  using assms by (auto simp: clearStarted_def Let_def result_simps split: if_splits)

lemma start_step_inv:
  assumes inv: "start_inv t" and step: "start_step t t'"
  shows "start_inv t'"
  using step
proof cases
  case (step_start_begin identity now v)
  have "st_mig_id (starting_row identity now) = sid_migId identity" by (simp add: starting_row_def)
  then show ?thesis using start_begin_cases [OF step_start_begin] inv start_inv_insert by metis
next
  case (step_requestAbort m now v)
  have upd: "start_inv (sql_update (\<lambda>r. st_mig_id r = m \<and> st_state r = Starting)
      (\<lambda>r. r\<lparr>st_state := Abort_requested, st_updated_at := now\<rparr>) t)"
    if "sql_update_checked RESHARDER_START_INTENT_DDL (\<lambda>r. st_mig_id r = m \<and> st_state r = Starting)
      (\<lambda>r. r\<lparr>st_state := Abort_requested, st_updated_at := now\<rparr>) t = Inr t'"
    using that inv by (auto simp: start_inv_def result_simps table_simps intro!: distinct_keys_sql_update)
  have "st_mig_id (canceled_row m now) = m" by (simp add: canceled_row_def)
  then have ins: "start_inv (t @ [canceled_row m now])"
    if "\<forall>r \<in> set t. st_mig_id r \<noteq> m" "RESHARDER_START_INTENT_DDL (canceled_row m now)" "int (length t) < VSHARD_COUNT"
    using start_inv_insert [OF inv] that by simp
  consider "t' = t" | "t' = t @ [canceled_row m now]" "start_inv (t @ [canceled_row m now])" | "start_inv t'"
    using requestAbort_cases [OF step_requestAbort] upd ins by (auto simp: result_simps)
  then show ?thesis using inv by cases auto
next
  case (step_clearStarted identity)
  have "length (sql_delete p t) \<le> length t" for p by (simp add: sql_delete_def)
  then have "int (length t') \<le> int (length t)" by (simp add: clearStarted_cases [OF step_clearStarted])
  then show ?thesis using inv clearStarted_cases [OF step_clearStarted]
    by (simp add: start_inv_def table_simps distinct_keys_sql_delete)
qed

interpretation start_intents: final_store start_inv start_step canceled
proof
  fix t t' assume inv: "start_inv t" and step: "start_step t t'"
  show "start_inv t'" using inv step by (rule start_step_inv)
  fix r assume r: "r \<in> set t" "canceled r"
  show "r \<in> set t'" using step
  proof cases
    case (step_start_begin identity now v)
    from start_begin_cases [OF this] r show ?thesis by auto
  next
    case (step_requestAbort m now v)
    from requestAbort_cases [OF this] r show ?thesis by (auto simp: result_simps table_simps canceled_def)
  next
    case (step_clearStarted identity)
    from clearStarted_cases [OF this] r show ?thesis by (auto simp: table_simps canceled_def)
  qed
qed

lemma start_inv_empty: "start_inv []"
  by (simp add: start_inv_def VSHARD_COUNT_def)

lemma reachable_start_inv: "start_step\<^sup>*\<^sup>* [] t \<Longrightarrow> start_inv t"
  using start_intents.history_inv start_inv_empty by blast

text \<open>The row an abort leaves behind.\<close>

lemma requestAbort_row:
  assumes inv: "start_inv t" and ab: "requestAbort m now t = Inr (v, t')"
  shows "\<exists>r \<in> set t'. st_mig_id r = m \<and> canceled r \<and> start_project r = Inr v \<and> MIGRATION_ID m"
proof -
  have inv': "start_inv t'" using inv ab by (blast intro: start_step_inv step_requestAbort)
  have m: "MIGRATION_ID m" and v: "start_required m t' = Inr v" using requestAbort_cases [OF ab] by auto
  have "\<exists>r \<in> set t'. st_mig_id r = m \<and> canceled r"
  proof -
    consider "t' = t" "\<exists>w. start_read m t = Inr (Some w) \<and> int_state w = Abort_requested"
      | "t' = t @ [canceled_row m now]"
      | "t' = sql_update (\<lambda>r. st_mig_id r = m \<and> st_state r = Starting) (\<lambda>r. r\<lparr>st_state := Abort_requested, st_updated_at := now\<rparr>) t"
        "\<exists>w. start_read m t = Inr (Some w) \<and> int_state w = Starting"
      using requestAbort_cases [OF ab] by (auto simp: result_simps)
    then show ?thesis
    proof cases
      case 1
      then show ?thesis by (auto simp: start_project_def result_simps canceled_def elim!: start_read_Some)
    next
      case 2
      then show ?thesis by (simp add: canceled_row_def canceled_def)
    next
      case 3
      then obtain w where "start_read m t = Inr (Some w)" "int_state w = Starting" by blast
      then obtain r where "r \<in> set t" "st_mig_id r = m" "st_state r = Starting"
        by (auto simp: start_project_def result_simps elim!: start_read_Some)
      then have "r\<lparr>st_state := Abort_requested, st_updated_at := now\<rparr> \<in> set t'" using 3(1) by (auto simp: table_simps)
      then show ?thesis using \<open>st_mig_id r = m\<close> by (intro bexI) (auto simp: canceled_def)
    qed
  qed
  then obtain r where r: "r \<in> set t'" "st_mig_id r = m" "canceled r" by blast
  moreover have "start_project r = Inr v"
    using v start_read_row [OF inv' r(1)] r(2) m by (auto simp: start_required_def result_simps)
  ultimately show ?thesis using m by blast
qed

lemma start_required_row:
  assumes "start_inv t" and "r \<in> set t" and "MIGRATION_ID (st_mig_id r)"
  shows "start_required (st_mig_id r) t = start_project r"
  by (cases "start_project r") (simp_all add: start_required_def start_read_row [OF assms])

lemma requireExact_row:
  assumes "start_inv t" and "r \<in> set t" and "MIGRATION_ID (st_mig_id r)" and "start_project r = Inr v" and "sid_migId i = st_mig_id r"
  shows "requireExact i t = (if int_identity v = Some i then Inr v else Inl start_mismatch)"
  using start_required_row [OF assms(1-3)] assms(4,5)
  by (auto simp: requireExact_def sameStartIdentity_eq split: option.splits)

section \<open>Properties\<close>

text \<open>
  A cancellation is permanent: once an abort of a migration was recorded, whether it came before or after
  the start, then after any further calls the same intent is read back, every \<open>begin\<close> of that migration is
  refused (as stale, or as a mismatch when it names another split) without touching the table, no
  \<open>clearStarted\<close> succeeds, and a repeated abort changes nothing.
\<close>

theorem start_abort_permanent:
  assumes "start_step\<^sup>*\<^sup>* [] t" and "requestAbort m now t = Inr (v, t1)" and "start_step\<^sup>*\<^sup>* t1 t2"
  shows "start_read m t2 = Inr (Some v) \<and> int_state v = Abort_requested \<and>
    (\<forall>i n. sid_migId i = m \<and> safe_integer n \<and> 0 \<le> n \<longrightarrow>
       start_begin i n t2 = Inl (if int_identity v = None \<or> int_identity v = Some i then Cdb CDB_STALE_EPOCH else start_mismatch)) \<and>
    (\<forall>i. sid_migId i = m \<longrightarrow> \<not> result_ok (clearStarted i t2)) \<and>
    (\<forall>n. safe_integer n \<and> 0 \<le> n \<longrightarrow> requestAbort m n t2 = Inr (v, t2))"
proof -
  have inv: "start_inv t" using assms(1) by (rule reachable_start_inv)
  then have inv1: "start_inv t1" using assms(2) by (blast intro: start_step_inv step_requestAbort)
  obtain r where r: "r \<in> set t1" "st_mig_id r = m" "canceled r" "start_project r = Inr v" "MIGRATION_ID m"
    using requestAbort_row [OF inv assms(2)] by blast
  have inv2: "start_inv t2" using assms(3) inv1 by (rule start_intents.history_inv)
  have r2: "r \<in> set t2" using assms(3) inv1 r(1,3) by (rule start_intents.steps_final)
  have read: "start_read m t2 = Inr (Some v)" using start_read_row [OF inv2 r2] r(2,4,5) by simp
  have state: "int_state v = Abort_requested" using r(3,4) by (auto simp: start_project_def result_simps canceled_def)
  have "start_begin i n t2 = Inl (if int_identity v = None \<or> int_identity v = Some i then Cdb CDB_STALE_EPOCH else start_mismatch)"
    if "sid_migId i = m" "safe_integer n" "0 \<le> n" for i n
    using that read state r(5) by (auto simp: start_begin_def assertMigrationId_def sameStartIdentity_eq split: option.splits)
  moreover have "\<not> result_ok (clearStarted i t2)" if "sid_migId i = m" for i
    using requireExact_row [OF inv2 r2, of v i] that r(2,4,5) state by (simp add: clearStarted_def)
  moreover have "requestAbort m n t2 = Inr (v, t2)" if "safe_integer n" "0 \<le> n" for n
    using that read state r(5) by (simp add: requestAbort_def start_required_def assertMigrationId_def)
  ultimately show ?thesis using read state by blast
qed

text \<open>
  A start binds its migration: a successful \<open>begin\<close> reports and stores the state \<open>starting\<close> with exactly the
  identity it was given; a retry returns the same intent and changes nothing, every other identity of that
  migration is refused by \<open>begin\<close> and \<open>clearStarted\<close> alike, and clearing the bound identity removes the intent,
  and nothing else, from the table.
\<close>

theorem begin_binds:
  assumes "start_step\<^sup>*\<^sup>* [] t" and "start_begin i now t = Inr (v, t1)"
  shows "v = \<lparr> int_migId = sid_migId i, int_state = Starting, int_identity = Some i \<rparr> \<and>
    start_read (sid_migId i) t1 = Inr (Some v) \<and>
    (\<forall>n. safe_integer n \<and> 0 \<le> n \<longrightarrow> start_begin i n t1 = Inr (v, t1)) \<and>
    (\<forall>j n. sid_migId j = sid_migId i \<and> j \<noteq> i \<longrightarrow>
       (safe_integer n \<and> 0 \<le> n \<longrightarrow> start_begin j n t1 = Inl start_mismatch) \<and> clearStarted j t1 = Inl start_mismatch) \<and>
    clearStarted i t1 = Inr (filter (\<lambda>r. st_mig_id r \<noteq> sid_migId i) t1)"
proof -
  have inv: "start_inv t" using assms(1) by (rule reachable_start_inv)
  then have inv1: "start_inv t1" using assms(2) by (blast intro: start_step_inv step_start_begin)
  note outcome = start_begin_cases [OF assms(2)]
  have m: "MIGRATION_ID (sid_migId i)" and v: "v = \<lparr> int_migId = sid_migId i, int_state = Starting, int_identity = Some i \<rparr>"
    using outcome by auto
  have row: "\<exists>r \<in> set t1. st_mig_id r = sid_migId i \<and> start_project r = Inr v"
    using outcome by (auto elim!: start_read_Some) (simp_all add: starting_row_def)
  then obtain r where r: "r \<in> set t1" "st_mig_id r = sid_migId i" "start_project r = Inr v" by blast
  have read: "start_read (sid_migId i) t1 = Inr (Some v)" using start_read_row [OF inv1 r(1)] r(2,3) m by simp
  have exact: "requireExact j t1 = (if j = i then Inr v else Inl start_mismatch)" if "sid_migId j = sid_migId i" for j
    using requireExact_row [OF inv1 r(1) _ r(3), of j] that r(2) m v by simp
  have "st_state r = Starting" using r(3) v by (auto simp: start_project_def result_simps)
  then have one: "(st_mig_id s = sid_migId i \<and> st_state s = Starting) = (st_mig_id s = sid_migId i)" if "s \<in> set t1" for s
    using unique_key_row [of st_mig_id t1 s r] that r inv1 by (auto simp: start_inv_def)
  have filters: "filter (\<lambda>s. st_mig_id s = sid_migId i \<and> st_state s = Starting) t1 = filter (\<lambda>s. st_mig_id s = sid_migId i) t1"
    "filter (\<lambda>s. st_mig_id s = sid_migId i \<longrightarrow> st_state s \<noteq> Starting) t1 = filter (\<lambda>s. st_mig_id s \<noteq> sid_migId i) t1"
    using one by (auto intro: filter_cong)
  have "length (filter (\<lambda>s. st_mig_id s = sid_migId i) t1) = 1"
    using unique_key_rows_le_1 [of st_mig_id t1 "sid_migId i"] inv1 r(1,2)
    by (auto simp: start_inv_def le_Suc_eq filter_empty_conv)
  then have "clearStarted i t1 = Inr (filter (\<lambda>s. st_mig_id s \<noteq> sid_migId i) t1)"
    using exact [of i] v by (simp add: clearStarted_def Let_def sql_changes_def sql_delete_def filters)
  moreover have "start_begin j n t1 = (if j = i then Inr (v, t1) else Inl start_mismatch)"
    if "sid_migId j = sid_migId i" "safe_integer n" "0 \<le> n" for j n
    using that read v m by (simp add: start_begin_def assertMigrationId_def sameStartIdentity_eq)
  ultimately show ?thesis using v read exact by (auto simp: clearStarted_def)
qed

subsection \<open>Witnesses\<close>

definition sample_start :: ResharderStartIdentity where
  "sample_start = \<lparr> sid_migId = ''mig-1'', sid_srcShard = ''s0'', sid_dstShard = ''s1'', sid_rangeLo = 0, sid_rangeHi = 9,
     sid_epochAtStart = 3, sid_recoveryGeneration = 0, sid_tablesJson = ''[]'' \<rparr>"

definition sample_intent :: ResharderStartIntent where
  "sample_intent = \<lparr> int_migId = ''mig-1'', int_state = Starting, int_identity = Some sample_start \<rparr>"

lemma sample_start_begin: "start_begin sample_start 5 [] = Inr (sample_intent, [starting_row sample_start 5])"
  by code_simp

lemma sample_start_abort: "requestAbort ''mig-1'' 6 [starting_row sample_start 5] =
    Inr (sample_intent\<lparr>int_state := Abort_requested\<rparr>,
      [(starting_row sample_start 5)\<lparr>st_state := Abort_requested, st_updated_at := 6\<rparr>])"
  by code_simp

theorem start_abort_permanent_witness:
  "start_begin sample_start 7 [(starting_row sample_start 5)\<lparr>st_state := Abort_requested, st_updated_at := 6\<rparr>] = Inl (Cdb CDB_STALE_EPOCH)"
  using start_abort_permanent [OF r_into_rtranclp [of start_step, OF step_start_begin [OF sample_start_begin]] sample_start_abort rtranclp.rtrancl_refl]
  by (simp add: sample_start_def sample_intent_def safe_integer_def)

theorem begin_binds_witness: "clearStarted sample_start [starting_row sample_start 5] = Inr []"
  using begin_binds [OF rtranclp.rtrancl_refl sample_start_begin] by (simp add: sample_start_def starting_row_def)

end
