(* ===== verification/Json.thy ===== *)
theory Json
  imports Errors "HOL-Library.Char_ord" "HOL-Library.List_Lexorder"
begin

text \<open>
  JSON values as the sources use them: \<open>JSON.stringify\<close> and \<open>JSON.parse\<close> of JavaScript, and the canonical
  form of \<^verbatim>\<open>src/src/util/canonical.ts\<close> and \<^verbatim>\<open>src/src/oplog/wrapper.ts\<close> on which request hashes rest.

  Numbers are safe integers; a text with a fraction, an exponent, a negative zero or an integer that is not safe
  denotes a value outside the model and is not parsed. An object is the list of its properties in JavaScript's
  own-key order: array indices ascending, then the other keys in the order they were added.
\<close>

section \<open>Values and property order\<close>

datatype json =
    JNull
  | JBool bool
  | JNum int
  | JStr string
  | JArr "json list"
  | JObj "(string \<times> json) list"

type_synonym props = "(string \<times> json) list"

text \<open>A key that is a canonical array index, \<open>0\<close> to \<open>2 ^ 32 - 2\<close>.\<close>

definition array_index :: "string \<Rightarrow> nat option" where
  "array_index k = (if k = [] \<or> \<not> list_all is_digit k \<or> (hd k = CHR ''0'' \<and> length k \<noteq> 1) then None
     else case digits_value 10 k 0 of None \<Rightarrow> None | Some n \<Rightarrow> if n < 4294967295 then Some n else None)"

text \<open>\<open>o[k] = v\<close>: overwrite in place, or add at the place the own-key order gives the key.\<close>

fun insert_index :: "nat \<Rightarrow> string \<times> 'a \<Rightarrow> (string \<times> 'a) list \<Rightarrow> (string \<times> 'a) list" where
  "insert_index n kv [] = [kv]"
| "insert_index n kv ((k, v) # ps) = (case array_index k of
     Some m \<Rightarrow> if m < n then (k, v) # insert_index n kv ps else kv # (k, v) # ps
   | None \<Rightarrow> kv # (k, v) # ps)"

definition obj_set :: "string \<Rightarrow> 'a \<Rightarrow> (string \<times> 'a) list \<Rightarrow> (string \<times> 'a) list" where
  "obj_set k v ps =
     (if k \<in> fst ` set ps then map (\<lambda>(k', v'). (k', if k' = k then v else v')) ps
      else case array_index k of None \<Rightarrow> ps @ [(k, v)] | Some n \<Rightarrow> insert_index n (k, v) ps)"

text \<open>The object a sequence of assignments builds from \<open>{}\<close>.\<close>

definition build_obj :: "(string \<times> 'a) list \<Rightarrow> (string \<times> 'a) list" where
  "build_obj kvs = fold (\<lambda>(k, v). obj_set k v) kvs []"

text \<open>A property list in own-key order.\<close>

definition key_before :: "string \<Rightarrow> string \<Rightarrow> bool" where
  "key_before k l = (case array_index l of
     None \<Rightarrow> True
   | Some n \<Rightarrow> (case array_index k of None \<Rightarrow> False | Some m \<Rightarrow> m < n))"

definition js_ordered :: "(string \<times> 'a) list \<Rightarrow> bool" where
  "js_ordered ps \<longleftrightarrow> distinct (map fst ps) \<and> sorted_wrt key_before (map fst ps)"

fun json_ok :: "json \<Rightarrow> bool" where
  "json_ok (JNum n) = safe_integer n"
| "json_ok (JArr vs) = list_all json_ok vs"
| "json_ok (JObj ps) = (js_ordered ps \<and> list_all (\<lambda>(k, v). json_ok v) ps)"
| "json_ok _ = True"

section \<open>Printing\<close>

definition hex_char_of :: "nat \<Rightarrow> char" where
  "hex_char_of n = ''0123456789abcdef'' ! n"

definition escape_char :: "char \<Rightarrow> string" where
  "escape_char c = (let n = (of_char c :: nat) in
     if n = 34 then [CHR 0x5C, CHR 0x22]
     else if n = 92 then [CHR 0x5C, CHR 0x5C]
     else if n = 8 then [CHR 0x5C, CHR ''b'']
     else if n = 9 then [CHR 0x5C, CHR ''t'']
     else if n = 10 then [CHR 0x5C, CHR ''n'']
     else if n = 12 then [CHR 0x5C, CHR ''f'']
     else if n = 13 then [CHR 0x5C, CHR ''r'']
     else if n < 32 then [CHR 0x5C, CHR ''u'', CHR ''0'', CHR ''0'', hex_char_of (n div 16), hex_char_of (n mod 16)]
     else [c])"

definition quote :: "string \<Rightarrow> string" where
  "quote s = CHR 0x22 # concat (map escape_char s) @ [CHR 0x22]"

fun stringify :: "json \<Rightarrow> string"
  and stringify_elements :: "json list \<Rightarrow> string"
  and stringify_members :: "(string \<times> json) list \<Rightarrow> string" where
  "stringify JNull = ''null''"
| "stringify (JBool b) = (if b then ''true'' else ''false'')"
| "stringify (JNum n) = decimal n"
| "stringify (JStr s) = quote s"
| "stringify (JArr vs) = CHR ''['' # stringify_elements vs @ '']''"
| "stringify (JObj ps) = CHR ''{'' # stringify_members ps @ ''}''"
| "stringify_elements [] = []"
| "stringify_elements (v # vs) = stringify v @ (if vs = [] then [] else CHR '','' # stringify_elements vs)"
| "stringify_members [] = []"
| "stringify_members ((k, v) # ps) =
     quote k @ CHR '':'' # stringify v @ (if ps = [] then [] else CHR '','' # stringify_members ps)"

section \<open>Parsing\<close>

definition json_space :: "char \<Rightarrow> bool" where
  "json_space c \<longleftrightarrow> (of_char c :: nat) \<in> {9, 10, 13, 32}"

definition skip_ws :: "string \<Rightarrow> string" where
  "skip_ws s = dropWhile json_space s"

definition unescape :: "char \<Rightarrow> char option" where
  "unescape c = map_of [(CHR 0x22, CHR 0x22), (CHR 0x5C, CHR 0x5C), (CHR ''/'', CHR ''/''), (CHR ''b'', CHR 0x08),
     (CHR ''f'', CHR 0x0C), (CHR ''n'', CHR 0x0A), (CHR ''r'', CHR 0x0D), (CHR ''t'', CHR 0x09)] c"

fun parse_string :: "string \<Rightarrow> (string \<times> string) option" where
  "parse_string [] = None"
| "parse_string (c # cs) =
     (if c = CHR 0x22 then Some ([], cs)
      else if c = CHR 0x5C then
        (case cs of
           [] \<Rightarrow> None
         | e # ds \<Rightarrow>
             if e = CHR ''u'' then
               (case digits_value 16 (take 4 ds) 0 of
                  None \<Rightarrow> None
                | Some n \<Rightarrow> if length ds < 4 \<or> 256 \<le> n then None
                    else map_option (\<lambda>(x, r). (char_of n # x, r)) (parse_string (drop 4 ds)))
             else (case unescape e of
                  None \<Rightarrow> None
                | Some d \<Rightarrow> map_option (\<lambda>(x, r). (d # x, r)) (parse_string ds)))
      else if (of_char c :: nat) < 32 then None
      else map_option (\<lambda>(x, r). (c # x, r)) (parse_string cs))"

definition parse_number :: "string \<Rightarrow> (json \<times> string) option" where
  "parse_number s =
     (let neg = (s \<noteq> [] \<and> hd s = CHR ''-''); t = (if neg then tl s else s);
          ds = takeWhile is_digit t; r = dropWhile is_digit t in
      if ds = [] \<or> (hd ds = CHR ''0'' \<and> length ds \<noteq> 1) \<or> (r \<noteq> [] \<and> hd r \<in> set ''.eE'') then None
      else case digits_value 10 ds 0 of
          None \<Rightarrow> None
        | Some n \<Rightarrow> if neg \<and> n = 0 \<or> \<not> safe_integer (int n) then None
            else Some (JNum (if neg then - int n else int n), r))"

definition parse_literal :: "string \<Rightarrow> (json \<times> string) option" where
  "parse_literal s =
     (if take 4 s = ''null'' then Some (JNull, drop 4 s)
      else if take 4 s = ''true'' then Some (JBool True, drop 4 s)
      else if take 5 s = ''false'' then Some (JBool False, drop 5 s)
      else None)"

text \<open>The first argument bounds the nesting of calls; \<open>JSON_parse\<close> supplies enough for every text.\<close>

fun parse_value :: "nat \<Rightarrow> string \<Rightarrow> (json \<times> string) option"
  and parse_elements :: "nat \<Rightarrow> string \<Rightarrow> (json list \<times> string) option"
  and parse_members :: "nat \<Rightarrow> string \<Rightarrow> ((string \<times> json) list \<times> string) option" where
  "parse_value 0 s = None"
| "parse_value (Suc n) s = (case skip_ws s of
     [] \<Rightarrow> None
   | c # cs \<Rightarrow>
       if c = CHR 0x22 then map_option (\<lambda>(x, r). (JStr x, r)) (parse_string cs)
       else if c = CHR ''['' then
         (case skip_ws cs of
            [] \<Rightarrow> None
          | d # ds \<Rightarrow> if d = CHR '']'' then Some (JArr [], ds)
              else map_option (\<lambda>(vs, r). (JArr vs, r)) (parse_elements n (d # ds)))
       else if c = CHR ''{'' then
         (case skip_ws cs of
            [] \<Rightarrow> None
          | d # ds \<Rightarrow> if d = CHR ''}'' then Some (JObj [], ds)
              else map_option (\<lambda>(ps, r). (JObj (build_obj ps), r)) (parse_members n (d # ds)))
       else if c = CHR ''-'' \<or> is_digit c then parse_number (c # cs)
       else parse_literal (c # cs))"
| "parse_elements 0 s = None"
| "parse_elements (Suc n) s = (case parse_value n s of
     None \<Rightarrow> None
   | Some (v, r) \<Rightarrow> (case skip_ws r of
       [] \<Rightarrow> None
     | c # cs \<Rightarrow>
         if c = CHR '','' then map_option (\<lambda>(vs, r'). (v # vs, r')) (parse_elements n cs)
         else if c = CHR '']'' then Some ([v], cs) else None))"
| "parse_members 0 s = None"
| "parse_members (Suc n) s = (case skip_ws s of
     [] \<Rightarrow> None
   | q # qs \<Rightarrow>
       if q \<noteq> CHR 0x22 then None
       else (case parse_string qs of
         None \<Rightarrow> None
       | Some (k, r0) \<Rightarrow> (case skip_ws r0 of
           [] \<Rightarrow> None
         | d # ds \<Rightarrow>
             if d \<noteq> CHR '':'' then None
             else (case parse_value n ds of
               None \<Rightarrow> None
             | Some (v, r) \<Rightarrow> (case skip_ws r of
                 [] \<Rightarrow> None
               | c # cs \<Rightarrow>
                   if c = CHR '','' then map_option (\<lambda>(ps, r'). ((k, v) # ps, r')) (parse_members n cs)
                   else if c = CHR ''}'' then Some ([(k, v)], cs) else None)))))"

definition JSON_parse :: "string \<Rightarrow> json res" where
  "JSON_parse s = (case parse_value (2 * length s + 1) s of
     None \<Rightarrow> Inl JsError
   | Some (v, r) \<Rightarrow> if skip_ws r = [] then Inr v else Inl JsError)"

section \<open>Canonical form\<close>

text \<open>\<open>Object.keys(value).sort()\<close>, then one assignment per key in that order.\<close>

fun canonicalize :: "json \<Rightarrow> json" where
  "canonicalize (JArr vs) = JArr (map canonicalize vs)"
| "canonicalize (JObj ps) =
     JObj (build_obj (map (\<lambda>k. (k, the (map_of (map (\<lambda>(k', v). (k', canonicalize v)) ps) k))) (sort (map fst ps))))"
| "canonicalize v = v"

definition canonicalRequest :: "string \<Rightarrow> json \<Rightarrow> string" where
  "canonicalRequest ref args = stringify (JObj [(''ref'', JStr ref), (''args'', canonicalize args)])"

section \<open>Printing then parsing\<close>

lemma hex_digit_value: "d < 16 \<Longrightarrow> digit_value (hex_char_of d) = Some d"
proof -
  have "list_all (\<lambda>d. digit_value (hex_char_of d) = Some d) [0..<16]"
    by (simp add: upt_rec hex_char_of_def digit_value_def)
  then show "d < 16 \<Longrightarrow> digit_value (hex_char_of d) = Some d" by (auto simp: list_all_iff)
qed

lemma escape_hex:
  assumes "n < 32"
  shows "digits_value 16 [CHR ''0'', CHR ''0'', hex_char_of (n div 16), hex_char_of (n mod 16)] 0 = Some n"
proof -
  have "digit_value (CHR ''0'') = Some 0" by (simp add: digit_value_def)
  moreover have "n div 16 < 16" "n mod 16 < 16" using assms by auto
  ultimately show ?thesis using mod_mult_div_eq [of n 16] by (simp add: hex_digit_value mult.commute add.commute)
qed

lemma char_by_code: "(of_char c :: nat) = of_char d \<Longrightarrow> c = d"
  by (metis char_of_char)

lemma parse_string_escape:
  "parse_string (escape_char c @ rest) = map_option (\<lambda>(x, r). (c # x, r)) (parse_string rest)"
proof -
  let ?n = "of_char c :: nat"
  consider "c \<in> {CHR 0x22, CHR 0x5C, CHR 0x08, CHR 0x09, CHR 0x0A, CHR 0x0C, CHR 0x0D}"
    | "?n < 32" "?n \<notin> {8, 9, 10, 12, 13}" | "32 \<le> ?n" "?n \<notin> {34, 92}"
    using char_by_code [of c "CHR 0x22"] char_by_code [of c "CHR 0x5C"] char_by_code [of c "CHR 0x08"] char_by_code [of c "CHR 0x09"]
      char_by_code [of c "CHR 0x0A"] char_by_code [of c "CHR 0x0C"] char_by_code [of c "CHR 0x0D"] by fastforce
  then show ?thesis
  proof cases
    case 1
    then show ?thesis by (elim insertE) (simp_all add: escape_char_def unescape_def)
  next
    case 2
    then show ?thesis using escape_hex [of ?n] by (simp add: escape_char_def Let_def)
  next
    case 3
    then have "c \<noteq> CHR 0x22" "c \<noteq> CHR 0x5C" by auto
    then show ?thesis using 3 by (simp add: escape_char_def Let_def)
  qed
qed

lemma parse_string_quote: "parse_string (concat (map escape_char s) @ CHR 0x22 # rest) = Some (s, rest)"
  by (induction s) (simp_all add: parse_string_escape)

lemma decimal_nat_no_zero: "hd (decimal_nat n) = CHR ''0'' \<Longrightarrow> n = 0"
proof (induction n rule: decimal_nat.induct)
  case (1 n)
  show ?case
  proof (cases "n < 10")
    case True
    then have "hd (decimal_nat n) = char_of (48 + n)" by (subst decimal_nat.simps) simp
    then have "of_char (char_of (48 + n) :: char) = (of_char (CHR ''0'') :: nat)" using 1(2) by simp
    then show ?thesis using True by simp
  next
    case False
    have "hd (decimal_nat n) = hd (decimal_nat (n div 10))"
      using False decimal_nat_digits [of "n div 10"] by (subst decimal_nat.simps) simp
    then have "n div 10 = 0" using 1 False by simp
    then show ?thesis using False by simp
  qed
qed

definition stops :: "string \<Rightarrow> bool" where
  "stops r \<longleftrightarrow> r = [] \<or> hd r \<in> set '',]}''"

lemma stops_Cons: "stops (c # r) \<longleftrightarrow> c \<in> set '',]}''"
  by (simp add: stops_def)

lemma digits_then_stop:
  assumes "\<forall>c \<in> set ds. is_digit c" and "stops r"
  shows "takeWhile is_digit (ds @ r) = ds" and "dropWhile is_digit (ds @ r) = r"
proof -
  have "takeWhile is_digit r = [] \<and> dropWhile is_digit r = r"
    using assms(2) by (cases r) (auto simp: stops_def is_digit_def)
  then show "takeWhile is_digit (ds @ r) = ds" and "dropWhile is_digit (ds @ r) = r"
    using assms(1) by (simp_all add: takeWhile_append2 dropWhile_append2)
qed

lemma parse_number_decimal:
  assumes "safe_integer n" and "stops r"
  shows "parse_number (decimal n @ r) = Some (JNum n, r)"
proof -
  let ?m = "nat \<bar>n\<bar>"
  obtain d ds where dd: "decimal_nat ?m = d # ds" using decimal_nat_digits [of ?m] by (cases "decimal_nat ?m") auto
  have digits: "\<forall>c \<in> set (d # ds). is_digit c" using decimal_nat_digits [of ?m] dd by simp
  have dec: "decimal n = (if n < 0 then CHR ''-'' # d # ds else d # ds)"
    using dd by (auto simp: decimal_def abs_if)
  have "ds = []" if "d = CHR ''0''"
  proof -
    have m0: "?m = 0" using decimal_nat_no_zero [of ?m] dd that by simp
    have "decimal_nat 0 = [CHR ''0'']" by code_simp
    then show ?thesis using dd unfolding m0 by simp
  qed
  moreover have "d \<noteq> CHR ''-''" using digits by (auto simp: is_digit_def)
  moreover have "r = [] \<or> hd r \<notin> set ''.eE''" using assms(2) by (auto simp: stops_def)
  moreover have "digits_value 10 (d # ds) 0 = Some ?m" using decimal_nat_value [of ?m] dd by simp
  moreover have "safe_integer (int ?m)" using assms(1) by (simp add: safe_integer_def)
  moreover note digits_then_stop [OF digits assms(2)]
  ultimately have "parse_number (d # ds @ r) = Some (JNum (int ?m), r)"
    "0 < ?m \<Longrightarrow> parse_number (CHR ''-'' # d # ds @ r) = Some (JNum (- int ?m), r)"
    by (simp_all add: parse_number_def Let_def del: digits_value.simps takeWhile.simps dropWhile.simps dropWhile_eq_Nil_conv)
  then show ?thesis using dec by (cases "n < 0") auto
qed

text \<open>Assigning the properties of an object in its own order rebuilds it.\<close>

lemma insert_index_end:
  "(\<forall>k \<in> fst ` set ps. \<exists>m. array_index k = Some m \<and> m < n) \<Longrightarrow> insert_index n kv ps = ps @ [kv]"
  by (induction n kv ps rule: insert_index.induct) auto

lemma obj_set_end:
  assumes "js_ordered (ps @ [(k, v)])"
  shows "obj_set k v ps = ps @ [(k, v)]"
proof -
  have fresh: "k \<notin> fst ` set ps" and sorted: "\<forall>l \<in> fst ` set ps. key_before l k"
    using assms by (auto simp: js_ordered_def sorted_wrt_append)
  show ?thesis
  proof (cases "array_index k")
    case None
    then show ?thesis using fresh by (simp add: obj_set_def)
  next
    case (Some n)
    then have "\<forall>l \<in> fst ` set ps. \<exists>m. array_index l = Some m \<and> m < n"
      using sorted by (auto simp: key_before_def split: option.splits)
    then show ?thesis using fresh Some by (simp add: obj_set_def insert_index_end)
  qed
qed

lemma build_obj_ordered: "js_ordered ps \<Longrightarrow> build_obj ps = ps"
proof (induction ps rule: rev_induct)
  case Nil
  then show ?case by (simp add: build_obj_def)
next
  case (snoc kv ps)
  have "js_ordered ps" using snoc.prems by (auto simp: js_ordered_def sorted_wrt_append)
  then show ?case using snoc obj_set_end [of ps "fst kv" "snd kv"] by (simp add: build_obj_def case_prod_beta)
qed

text \<open>The first character of a printed value.\<close>

lemma decimal_first: "\<exists>c cs. decimal n = c # cs \<and> (c = CHR ''-'' \<or> is_digit c)"
  using decimal_nat_digits [of "nat n"] by (cases "decimal_nat (nat n)") (auto simp: decimal_def)

definition starter :: "char \<Rightarrow> bool" where
  "starter c \<longleftrightarrow> c \<in> set ''ntf-[{'' \<or> c = CHR 0x22 \<or> is_digit c"

lemma stringify_first: "\<exists>c cs. stringify v = c # cs \<and> starter c"
  using decimal_first [of "case v of JNum n \<Rightarrow> n | _ \<Rightarrow> 0"] by (cases v) (auto simp: starter_def quote_def)

lemma starter_facts: "starter c \<Longrightarrow> \<not> json_space c \<and> c \<noteq> CHR '']'' \<and> c \<noteq> CHR ''}''"
  by (auto simp: starter_def json_space_def is_digit_def)

lemma skip_ws_Cons [simp]: "\<not> json_space c \<Longrightarrow> skip_ws (c # cs) = c # cs"
  by (simp add: skip_ws_def)

lemma punctuation_not_space [simp]:
  "\<not> json_space (CHR '','')" "\<not> json_space (CHR '']'')" "\<not> json_space (CHR ''}'')" "\<not> json_space (CHR '':'')"
  "\<not> json_space (CHR ''['')" "\<not> json_space (CHR ''{'')" "\<not> json_space (CHR 0x22)" "\<not> json_space (CHR ''n'')"
  "\<not> json_space (CHR ''t'')" "\<not> json_space (CHR ''f'')"
  by (simp_all add: json_space_def)

lemma skip_ws_stringify: "skip_ws (stringify v @ r) = stringify v @ r"
  using stringify_first [of v] starter_facts by (auto simp: skip_ws_def)

lemma parse_number_value: "safe_integer n \<Longrightarrow> stops r \<Longrightarrow> parse_value (Suc m) (decimal n @ r) = Some (JNum n, r)"
proof -
  assume n: "safe_integer n" "stops r"
  obtain c cs where c: "decimal n = c # cs" "c = CHR ''-'' \<or> is_digit c" using decimal_first by blast
  have "skip_ws (decimal n @ r) = decimal n @ r" using skip_ws_stringify [of "JNum n"] by simp
  moreover have "c \<noteq> CHR 0x22" "c \<noteq> CHR ''[''" "c \<noteq> CHR ''{''" using c(2) by (auto simp: is_digit_def)
  ultimately show ?thesis using parse_number_decimal [OF n] c by simp
qed

lemma parse_printed:
  "json_ok v \<Longrightarrow> stops r \<Longrightarrow> 2 * length (stringify v) < n \<Longrightarrow> parse_value n (stringify v @ r) = Some (v, r)"
  "list_all json_ok vs \<Longrightarrow> vs \<noteq> [] \<Longrightarrow> 2 * length (stringify_elements vs) + 1 < n \<Longrightarrow>
     parse_elements n (stringify_elements vs @ CHR '']'' # r) = Some (vs, r)"
  "list_all (\<lambda>(k, v). json_ok v) ps \<Longrightarrow> ps \<noteq> [] \<Longrightarrow> 2 * length (stringify_members ps) + 1 < n \<Longrightarrow>
     parse_members n (stringify_members ps @ CHR ''}'' # r) = Some (ps, r)"
proof (induction v and vs and ps arbitrary: n r and n r and n r rule: stringify_stringify_elements_stringify_members.induct)
  case 1
  then show ?case by (cases n) (simp_all add: parse_literal_def is_digit_def)
next
  case (2 b)
  then show ?case by (cases n) (auto simp: parse_literal_def is_digit_def)
next
  case (3 k)
  then show ?case using parse_number_value by (cases n) auto
next
  case (4 s)
  then show ?case by (cases n) (simp_all add: quote_def parse_string_quote)
next
  case (5 vs)
  then obtain m where n: "n = Suc m" by (cases n) auto
  show ?case
  proof (cases vs)
    case Nil
    then show ?thesis using n by simp
  next
    case (Cons v us)
    obtain c cs where c: "stringify v = c # cs" "starter c" using stringify_first by blast
    have parsed: "parse_elements m (stringify_elements vs @ CHR '']'' # r) = Some (vs, r)"
      using 5 n Cons by simp
    obtain t where "stringify_elements vs = c # t" using Cons c by simp
    then show ?thesis using parsed starter_facts [OF c(2)] n by simp
  qed
next
  case (6 ps)
  then obtain m where n: "n = Suc m" by (cases n) auto
  show ?case
  proof (cases ps)
    case Nil
    then show ?thesis using n by (simp add: build_obj_def)
  next
    case (Cons kv us)
    have parsed: "parse_members m (stringify_members ps @ CHR ''}'' # r) = Some (ps, r)"
      using 6 n Cons by simp
    obtain t where t: "stringify_members ps = CHR 0x22 # t" using Cons by (cases kv) (simp add: quote_def)
    have "build_obj ps = ps" using 6 by (intro build_obj_ordered) simp
    then show ?thesis using parsed n t by simp
  qed
next
  case 7
  then show ?case by simp
next
  case (8 v vs)
  then obtain m where n: "n = Suc m" by (cases n) auto
  let ?tail = "(if vs = [] then [] else CHR '','' # stringify_elements vs) @ CHR '']'' # r"
  have "stops ?tail" by (simp add: stops_def)
  then have "parse_value m (stringify v @ ?tail) = Some (v, ?tail)" using 8 n by (auto split: if_splits)
  moreover have "vs \<noteq> [] \<Longrightarrow> parse_elements m (stringify_elements vs @ CHR '']'' # r) = Some (vs, r)"
    using 8 n by auto
  ultimately show ?case using n by auto
next
  case 9
  then show ?case by simp
next
  case (10 k v ps)
  then obtain m where n: "n = Suc m" by (cases n) auto
  let ?tail = "(if ps = [] then [] else CHR '','' # stringify_members ps) @ CHR ''}'' # r"
  have "stops ?tail" by (simp add: stops_def)
  then have "parse_value m (stringify v @ ?tail) = Some (v, ?tail)" using 10 n by (auto split: if_splits)
  moreover have "ps \<noteq> [] \<Longrightarrow> parse_members m (stringify_members ps @ CHR ''}'' # r) = Some (ps, r)"
    using 10 n by auto
  moreover have "quote k @ CHR '':'' # u = CHR 0x22 # concat (map escape_char k) @ CHR 0x22 # CHR '':'' # u" for u
    by (simp add: quote_def)
  ultimately show ?case using n by (auto simp: parse_string_quote)
qed

lemma parse_stringify: "json_ok v \<Longrightarrow> JSON_parse (stringify v) = Inr v"
  using parse_printed(1) [of v "[]" "2 * length (stringify v) + 1"]
  by (simp add: JSON_parse_def stops_def skip_ws_def)

lemma stringify_inj: "json_ok v \<Longrightarrow> json_ok w \<Longrightarrow> stringify v = stringify w \<Longrightarrow> v = w"
  using parse_stringify by (metis Inr_inject)

section \<open>The parser's bound is enough\<close>

lemma skip_ws_length: "length (skip_ws s) \<le> length s"
  by (simp add: skip_ws_def length_dropWhile_le)

lemma skip_ws_tail: "skip_ws s = c # cs \<Longrightarrow> length cs < length s"
  using skip_ws_length [of s] by simp

lemma parse_string_consumes: "parse_string s = Some (x, r) \<Longrightarrow> length r < length s"
proof (induction s arbitrary: x r rule: parse_string.induct)
  case 1
  then show ?case by simp
next
  case (2 c cs)
  then show ?case by (fastforce split: if_splits list.splits option.splits)
qed

lemma parse_number_consumes: "parse_number s = Some (v, r) \<Longrightarrow> length r < length s"
proof -
  assume p: "parse_number s = Some (v, r)"
  define t where "t = (if s \<noteq> [] \<and> hd s = CHR ''-'' then tl s else s)"
  have r: "r = dropWhile is_digit t" and ds: "takeWhile is_digit t \<noteq> []"
    using p by (auto simp: parse_number_def Let_def t_def split: if_splits option.splits)
  have "length t \<le> length s" by (simp add: t_def)
  moreover have "length (takeWhile is_digit t) + length (dropWhile is_digit t) = length t"
    by (metis length_append takeWhile_dropWhile_id)
  moreover have "0 < length (takeWhile is_digit t)" using ds by simp
  ultimately show ?thesis unfolding r by linarith
qed

lemma parse_literal_consumes: "parse_literal s = Some (v, r) \<Longrightarrow> length r < length s"
  by (cases s) (auto simp: parse_literal_def split: if_splits)

lemma parse_consumes:
  "parse_value n s = Some (v, r) \<Longrightarrow> length r < length s"
  "parse_elements n s = Some (vs, r) \<Longrightarrow> length r < length s"
  "parse_members n s = Some (ps, r) \<Longrightarrow> length r < length s"
proof (induction n s and n s and n s arbitrary: v r and vs r and ps r rule: parse_value_parse_elements_parse_members.induct)
  case (2 n s)
  then show ?case
    by (auto split: list.splits if_splits
        dest!: skip_ws_tail parse_string_consumes parse_number_consumes parse_literal_consumes) (fastforce)+
next
  case (4 n s)
  then show ?case by (fastforce split: option.splits list.splits if_splits dest!: skip_ws_tail)
next
  case (6 n s)
  then show ?case
    by (fastforce split: option.splits list.splits if_splits dest!: skip_ws_tail parse_string_consumes)
qed simp_all

lemma skip_ws_le: "skip_ws s = cs \<Longrightarrow> length cs \<le> length s"
  using skip_ws_length by blast

lemma parse_fuel:
  "2 * length s < n \<Longrightarrow> parse_value (n + k) s = parse_value n s"
  "2 * length s + 1 < n \<Longrightarrow> parse_elements (n + k) s = parse_elements n s"
  "2 * length s + 1 < n \<Longrightarrow> parse_members (n + k) s = parse_members n s"
proof (induction n s and n s and n s arbitrary: k and k and k rule: parse_value_parse_elements_parse_members.induct)
  case (2 n s)
  show ?case
  proof (cases "skip_ws s")
    case (Cons c cs)
    have inner: "parse_elements (n + k) (skip_ws cs) = parse_elements n (skip_ws cs)"
      if "skip_ws cs = d # ds" "c = CHR ''[''" "d \<noteq> CHR '']''" for d ds
      using 2 that Cons skip_ws_le [OF Cons] skip_ws_length [of cs] by simp
    have members: "parse_members (n + k) (skip_ws cs) = parse_members n (skip_ws cs)"
      if "skip_ws cs = d # ds" "c = CHR ''{''" "d \<noteq> CHR ''}''" for d ds
      using 2 that Cons skip_ws_le [OF Cons] skip_ws_length [of cs] by simp
    show ?thesis using Cons inner members by (auto split: list.splits)
  qed simp
next
  case (4 n s)
  have v: "parse_value (n + k) s = parse_value n s" using 4 by simp
  show ?case
  proof (cases "parse_value n s")
    case (Some p)
    then obtain x r where p: "parse_value n s = Some (x, r)" by (cases p) auto
    have "parse_elements (n + k) cs = parse_elements n cs" if "skip_ws r = c # cs" "c = CHR '',''" for c cs
      using 4 p that parse_consumes(1) [OF p] skip_ws_tail [OF that(1)] by simp
    then show ?thesis using v p by (auto split: list.splits)
  qed (simp add: v)
next
  case (6 n s)
  show ?case
  proof (cases "\<exists>q qs key r0 d ds. skip_ws s = q # qs \<and> q = CHR 0x22 \<and> parse_string qs = Some (key, r0) \<and> skip_ws r0 = d # ds \<and> d = CHR '':''")
    case False
    then show ?thesis by (auto split: list.splits option.splits)
  next
    case True
    then obtain qs key r0 ds where pre: "skip_ws s = CHR 0x22 # qs" "parse_string qs = Some (key, r0)" "skip_ws r0 = CHR '':'' # ds" by blast
    have len: "length ds < length s"
      using skip_ws_tail [OF pre(1)] parse_string_consumes [OF pre(2)] skip_ws_tail [OF pre(3)] by simp
    have v: "parse_value (n + k) ds = parse_value n ds" using 6 pre len by simp
    show ?thesis
    proof (cases "parse_value n ds")
      case (Some p)
      then obtain x r where p: "parse_value n ds = Some (x, r)" by (cases p) auto
      have "parse_members (n + k) cs = parse_members n cs" if "skip_ws r = c # cs" "c = CHR '',''" for c cs
        using 6 pre p that len parse_consumes(1) [OF p] skip_ws_tail [OF that(1)] by simp
      then show ?thesis using v p pre by (auto split: list.splits)
    qed (simp add: v pre)
  qed
qed simp_all

text \<open>A larger bound never changes what \<open>JSON_parse\<close> returns: running out of it is not a third outcome.\<close>

lemma JSON_parse_fuel:
  assumes "2 * length s < n"
  shows "JSON_parse s = (case parse_value n s of None \<Rightarrow> Inl JsError | Some (v, r) \<Rightarrow> if skip_ws r = [] then Inr v else Inl JsError)"
  using parse_fuel(1) [of s "2 * length s + 1" "n - (2 * length s + 1)"] assms by (simp add: JSON_parse_def)

section \<open>Canonical form\<close>

lemma insert_index_set: "set (insert_index n kv ps) = insert kv (set ps)"
  by (induction n kv ps rule: insert_index.induct) (auto split: option.splits)

lemma insert_index_keys: "fst kv \<notin> fst ` set ps \<Longrightarrow> distinct (map fst ps) \<Longrightarrow> distinct (map fst (insert_index n kv ps))"
  by (induction n kv ps rule: insert_index.induct) (auto simp: insert_index_set split: option.splits)

lemma decimal_of_digits:
  "k \<noteq> [] \<Longrightarrow> list_all is_digit k \<Longrightarrow> hd k = CHR ''0'' \<longrightarrow> length k = 1 \<Longrightarrow> digits_value 10 k 0 = Some n \<Longrightarrow> k = decimal_nat n"
proof (induction k arbitrary: n rule: rev_induct)
  case Nil
  then show ?case by simp
next
  case (snoc c ks)
  let ?d = "of_char c - 48 :: nat"
  have digit: "is_digit c" using snoc.prems(2) by simp
  then have d: "digit_value c = Some ?d" "?d < 10" "c = char_of (48 + ?d)"
    by (auto simp: is_digit_def digit_value_def)
  show ?case
  proof (cases "ks = []")
    case True
    then have "n = ?d" using snoc.prems(4) d(1,2) by simp
    then show ?thesis using True d by (subst decimal_nat.simps) simp
  next
    case False
    obtain v where v: "digits_value 10 ks 0 = Some v" "n = v * 10 + ?d"
      using snoc.prems(4) d by (auto simp: digits_value_append split: option.splits)
    have hd: "hd ks \<noteq> CHR ''0''" using snoc.prems(3) False by auto
    then have ks: "ks = decimal_nat v" using snoc.IH [OF False _ _ v(1)] snoc.prems(2) by simp
    have "decimal_nat 0 = [CHR ''0'']" by code_simp
    then have "v \<noteq> 0" using hd unfolding ks by (metis list.sel(1))
    then have "decimal_nat n = decimal_nat v @ [char_of (48 + ?d)]"
      using v(2) d(2) by (subst decimal_nat.simps) simp
    then show ?thesis using ks d(3) by simp
  qed
qed

lemma array_index_inj: "array_index k = Some n \<Longrightarrow> array_index l = Some n \<Longrightarrow> k = l"
  using decimal_of_digits by (auto simp: array_index_def split: if_splits option.splits)

lemma insert_index_sorted:
  assumes "array_index (fst kv) = Some n" and "fst kv \<notin> fst ` set ps" and "sorted_wrt key_before (map fst ps)"
  shows "sorted_wrt key_before (map fst (insert_index n kv ps))"
  using assms
proof (induction n kv ps rule: insert_index.induct)
  case (1 n kv)
  then show ?case by simp
next
  case (2 n kv k v ps)
  have later: "array_index l = Some m' \<Longrightarrow> array_index k = Some m \<Longrightarrow> m < m'" if "l \<in> fst ` set ps" for l m m'
    using 2(4) that by (auto simp: key_before_def split: option.splits)
  have noindex: "array_index l = None" if "l \<in> fst ` set ps" "array_index k = None" for l
    using 2(4) that by (auto simp: key_before_def split: option.splits)
  show ?case
  proof (cases "array_index k")
    case None
    then show ?thesis using 2(2,4) noindex by (auto simp: key_before_def)
  next
    case (Some m)
    show ?thesis
    proof (cases "m < n")
      case True
      have "sorted_wrt key_before (map fst (insert_index n kv ps))" using 2 Some True by simp
      moreover have "key_before k l" if "l \<in> fst ` set (insert_index n kv ps)" for l
        using that Some True 2(2,4) by (auto simp: insert_index_set key_before_def)
      ultimately show ?thesis using Some True by simp
    next
      case False
      have "m \<noteq> n" using array_index_inj [OF Some, of "fst kv"] 2(2,3) by auto
      then have "n < m" using False by simp
      then have "key_before (fst kv) l" if "l \<in> insert k (fst ` set ps)" for l
        using that Some 2(2) later [of l _ m] by (auto simp: key_before_def split: option.splits) (metis fst_conv image_eqI less_trans)
      then show ?thesis using Some False 2(4) by simp
    qed
  qed
qed

lemma obj_set_fresh:
  assumes "js_ordered ps" and "k \<notin> fst ` set ps"
  shows "js_ordered (obj_set k v ps) \<and> set (obj_set k v ps) = insert (k, v) (set ps)"
proof (cases "array_index k")
  case None
  then have "key_before l k" for l by (simp add: key_before_def)
  then show ?thesis using assms None by (auto simp: obj_set_def js_ordered_def sorted_wrt_append)
next
  case (Some n)
  then show ?thesis using assms insert_index_sorted [of "(k, v)" n ps] insert_index_keys [of "(k, v)" ps n]
    by (simp add: obj_set_def js_ordered_def insert_index_set)
qed

lemma build_obj_spec:
  "distinct (map fst kvs) \<Longrightarrow> js_ordered (build_obj kvs) \<and> set (build_obj kvs) = set kvs"
proof (induction kvs rule: rev_induct)
  case Nil
  then show ?case by (simp add: build_obj_def js_ordered_def)
next
  case (snoc kv kvs)
  then show ?case using obj_set_fresh [of "build_obj kvs" "fst kv" "snd kv"]
    by (auto simp: build_obj_def case_prod_beta)
qed

definition canonical_members :: "(string \<times> json) list \<Rightarrow> (string \<times> json) list" where
  "canonical_members ps = map (\<lambda>k. (k, the (map_of (map (\<lambda>(k', v). (k', canonicalize v)) ps) k))) (sort (map fst ps))"

lemma canonicalize_obj: "canonicalize (JObj ps) = JObj (build_obj (canonical_members ps))"
  by (simp add: canonical_members_def)

lemma canonical_members_spec:
  assumes "distinct (map fst ps)"
  shows "map fst (canonical_members ps) = sort (map fst ps)"
    and "set (canonical_members ps) = (\<lambda>(k, v). (k, canonicalize v)) ` set ps"
proof -
  show "map fst (canonical_members ps) = sort (map fst ps)"
    by (simp add: canonical_members_def comp_def)
  have "the (map_of (map (\<lambda>(k', v). (k', canonicalize v)) ps) k) = canonicalize v" if "(k, v) \<in> set ps" for k v
    using map_of_is_SomeI [OF assms that] by (simp add: map_of_map)
  then show "set (canonical_members ps) = (\<lambda>(k, v). (k, canonicalize v)) ` set ps"
    by (force simp: canonical_members_def image_iff)
qed

lemma canonical_obj_spec:
  assumes "js_ordered ps"
  shows "js_ordered (build_obj (canonical_members ps))"
    and "set (build_obj (canonical_members ps)) = (\<lambda>(k, v). (k, canonicalize v)) ` set ps"
proof -
  have d: "distinct (map fst ps)" using assms by (simp add: js_ordered_def)
  then have "distinct (map fst (canonical_members ps))" by (simp add: canonical_members_spec)
  then show "js_ordered (build_obj (canonical_members ps))"
    and "set (build_obj (canonical_members ps)) = (\<lambda>(k, v). (k, canonicalize v)) ` set ps"
    using build_obj_spec [of "canonical_members ps"] canonical_members_spec(2) [OF d] by simp_all
qed

lemma canonicalize_ok: "json_ok v \<Longrightarrow> json_ok (canonicalize v)"
proof (induction v)
  case (JArr vs)
  then show ?case by (auto simp: list_all_iff)
next
  case (JObj ps)
  have ordered: "js_ordered ps" using JObj.prems by simp
  have "json_ok (canonicalize v)" if "(k, v) \<in> set ps" for k v
    using JObj.IH [OF that, of v] JObj.prems that by (auto simp: list_all_iff)
  then show ?case using canonical_obj_spec [OF ordered] unfolding canonicalize_obj
    by (auto simp: list_all_iff)
qed simp_all

text \<open>Two values that differ only in the order of object properties, at any depth.\<close>

inductive same_json :: "json \<Rightarrow> json \<Rightarrow> bool" where
  same_null: "same_json JNull JNull"
| same_bool: "same_json (JBool b) (JBool b)"
| same_num: "same_json (JNum n) (JNum n)"
| same_str: "same_json (JStr s) (JStr s)"
| same_arr: "list_all2 same_json vs ws \<Longrightarrow> same_json (JArr vs) (JArr ws)"
| same_obj: "fst ` set ps = fst ` set qs \<Longrightarrow>
    (\<And>k v w. (k, v) \<in> set ps \<Longrightarrow> (k, w) \<in> set qs \<Longrightarrow> same_json v w) \<Longrightarrow> same_json (JObj ps) (JObj qs)"

inductive_cases same_arrE: "same_json (JArr vs) (JArr ws)"
inductive_cases same_objE: "same_json (JObj ps) (JObj qs)"

lemma same_json_canonical:
  "same_json v w \<Longrightarrow> json_ok v \<Longrightarrow> json_ok w \<Longrightarrow> canonicalize v = canonicalize w"
proof (induction rule: same_json.induct)
  case (same_arr vs ws)
  then have "list_all2 (\<lambda>v w. canonicalize v = canonicalize w) vs ws"
    by (auto simp: list_all2_conv_all_nth list_all_length)
  then have "map canonicalize vs = map canonicalize ws"
    by (simp add: list_all2_conv_all_nth list_eq_iff_nth_eq)
  then show ?case by simp
next
  case (same_obj ps qs)
  have d: "distinct (map fst ps)" "distinct (map fst qs)" using same_obj.prems by (simp_all add: js_ordered_def)
  have keys: "sort (map fst ps) = sort (map fst qs)"
    using d same_obj.hyps(1) by (intro sorted_distinct_set_unique) auto
  have "the (map_of (map (\<lambda>(k', v). (k', canonicalize v)) ps) k) = the (map_of (map (\<lambda>(k', v). (k', canonicalize v)) qs) k)"
    if k: "k \<in> fst ` set ps" for k
  proof -
    obtain v where v: "(k, v) \<in> set ps" using k by auto
    have "k \<in> fst ` set qs" using k unfolding same_obj.hyps(1) .
    then obtain w where w: "(k, w) \<in> set qs" by auto
    have "json_ok v" "json_ok w" using same_obj.prems v w by (auto simp: list_all_iff)
    then have "canonicalize v = canonicalize w" by (rule same_obj.IH [OF v w])
    then show ?thesis using map_of_is_SomeI [OF d(1) v] map_of_is_SomeI [OF d(2) w] by (simp add: map_of_map)
  qed
  then have "canonical_members ps = canonical_members qs"
    unfolding canonical_members_def keys [symmetric] by (intro map_cong) auto
  then show ?case by (simp only: canonicalize_obj)
qed simp_all

lemma canonical_same_json:
  "json_ok v \<Longrightarrow> json_ok w \<Longrightarrow> canonicalize v = canonicalize w \<Longrightarrow> same_json v w"
proof (induction v arbitrary: w)
  case (JArr vs)
  obtain ws where w: "w = JArr ws" using JArr.prems(3) by (cases w) auto
  then have "map canonicalize vs = map canonicalize ws" using JArr.prems by simp
  then have "list_all2 same_json vs ws"
    using JArr w by (auto simp: list_all2_conv_all_nth list_all_length list_eq_iff_nth_eq)
  then show ?case using w by (auto intro: same_json.intros)
next
  case (JObj ps)
  obtain qs where w: "w = JObj qs" using JObj.prems(3) by (cases w) auto
  have o: "js_ordered ps" "js_ordered qs" using JObj.prems w by simp_all
  have "build_obj (canonical_members ps) = build_obj (canonical_members qs)"
    using JObj.prems(3) w by (simp only: canonicalize_obj json.inject)
  then have sets: "(\<lambda>(k, v). (k, canonicalize v)) ` set ps = (\<lambda>(k, v). (k, canonicalize v)) ` set qs"
    using canonical_obj_spec(2) [OF o(1)] canonical_obj_spec(2) [OF o(2)] by simp
  then have "fst ` (\<lambda>(k, v). (k, canonicalize v)) ` set ps = fst ` (\<lambda>(k, v). (k, canonicalize v)) ` set qs" by simp
  then have keys: "fst ` set ps = fst ` set qs" by (simp add: image_image case_prod_beta)
  have "same_json v u" if v: "(k, v) \<in> set ps" and u: "(k, u) \<in> set qs" for k v u
  proof -
    have "(k, canonicalize v) \<in> (\<lambda>(k, v). (k, canonicalize v)) ` set ps" by (rule image_eqI [OF _ v]) simp
    then have "(k, canonicalize v) \<in> (\<lambda>(k, v). (k, canonicalize v)) ` set qs" unfolding sets .
    then obtain u' where u': "(k, u') \<in> set qs" "canonicalize v = canonicalize u'" by auto
    have "u' = u" using u u'(1) o(2) unfolding js_ordered_def by (metis eq_key_imp_eq_value)
    moreover have "json_ok v" "json_ok u" using JObj.prems(1,2) v u w by (auto simp: list_all_iff)
    ultimately show ?thesis using JObj.IH [OF v, of v u] u'(2) by simp
  qed
  then show ?case using keys w by (auto intro: same_json.intros)
next
  case JNull
  then show ?case by (cases w) (auto intro: same_json.intros)
next
  case (JBool b)
  then show ?case by (cases w) (auto intro: same_json.intros)
next
  case (JNum n)
  then show ?case by (cases w) (auto intro: same_json.intros)
next
  case (JStr s)
  then show ?case by (cases w) (auto intro: same_json.intros)
qed

lemma request_ok: "json_ok a \<Longrightarrow> json_ok (JObj [(''ref'', JStr r), (''args'', canonicalize a)])"
proof -
  have "array_index ''ref'' = None" "array_index ''args'' = None" by (simp_all add: array_index_def is_digit_def)
  then show "json_ok a \<Longrightarrow> ?thesis" by (simp add: js_ordered_def key_before_def canonicalize_ok)
qed

section \<open>Properties\<close>

text \<open>
  Parsing inverts printing: \<open>JSON.parse\<close> of the text \<open>JSON.stringify\<close> prints for a value returns that value,
  with every object's properties in the same order.
\<close>

theorem json_roundtrip:
  assumes "json_ok v"
  shows "JSON_parse (stringify v) = Inr v"
  using assms by (rule parse_stringify)

text \<open>
  The text hashed for deduplication identifies the request: two requests have the same canonical text exactly
  when they call the same mutation with arguments that are equal up to the order of object properties.
\<close>

theorem canonicalRequest_exact:
  assumes "json_ok a" and "json_ok b"
  shows "canonicalRequest r a = canonicalRequest r' b \<longleftrightarrow> r = r' \<and> same_json a b"
proof -
  have "canonicalRequest r a = canonicalRequest r' b \<longleftrightarrow>
      JObj [(''ref'', JStr r), (''args'', canonicalize a)] = JObj [(''ref'', JStr r'), (''args'', canonicalize b)]"
    unfolding canonicalRequest_def using stringify_inj [OF request_ok [OF assms(1)] request_ok [OF assms(2)]] by auto
  then show ?thesis using same_json_canonical [OF _ assms] canonical_same_json [OF assms] by auto
qed

subsection \<open>Witnesses\<close>

definition sample_json :: json where
  "sample_json = JObj [(''7'', JNull), (''b'', JArr [JNum (-12), JBool True]), (''a'', JStr [CHR 0x22, CHR 0x01])]"

definition sample_json_reordered :: json where
  "sample_json_reordered = JObj [(''7'', JNull), (''a'', JStr [CHR 0x22, CHR 0x01]), (''b'', JArr [JNum (-12), JBool True])]"

lemma sample_json_ok: "json_ok sample_json" "json_ok sample_json_reordered"
  by (simp_all add: sample_json_def sample_json_reordered_def js_ordered_def key_before_def array_index_def is_digit_def
      digit_value_def safe_integer_def)

theorem json_roundtrip_witness: "JSON_parse (stringify sample_json) = Inr sample_json"
  using json_roundtrip [OF sample_json_ok(1)] .

theorem canonicalRequest_exact_witness:
  "canonicalRequest ''m'' sample_json = canonicalRequest ''m'' sample_json_reordered"
proof -
  have "same_json sample_json sample_json_reordered"
    unfolding sample_json_def sample_json_reordered_def by (intro same_json.intros) (auto intro!: same_json.intros)
  then show ?thesis using canonicalRequest_exact [OF sample_json_ok, of "''m''" "''m''"] by simp
qed

end
