(* ===== verification/Oplog.thy ===== *)
theory Oplog
  imports Json Store Vshard
begin

unbundle bit_operations_syntax

text \<open>
  The mutation log wrapper of \<^verbatim>\<open>src/src/oplog/wrapper.ts\<close>, with the replay envelope of \<^verbatim>\<open>src/src/oplog/envelope.ts\<close>, the
  table of \<^verbatim>\<open>src/src/oplog/schema.ts\<close> and the hashing helpers of \<^verbatim>\<open>src/src/util/canonical.ts\<close>.

  The domain database that the user's closure reads and writes is a value of an arbitrary type \<open>'db\<close>; the closure is
  an argument and may throw. SHA-256 comes from a package and is an argument. The caller holds a transaction, so the
  new tables exist only under \<open>Inr\<close>.
\<close>

section \<open>Bytes\<close>

text \<open>\<open>TextDecoder.decode\<close> on the encodings of code units below 256; other byte sequences denote characters outside the model.\<close>

fun utf8_decode :: "nat list \<Rightarrow> string option" where
  "utf8_decode [] = Some []"
| "utf8_decode (b # bs) =
     (if b < 128 then map_option (\<lambda>s. char_of b # s) (utf8_decode bs)
      else if b = 194 \<or> b = 195 then
        (case bs of
           [] \<Rightarrow> None
         | d # ds \<Rightarrow> if 128 \<le> d \<and> d < 192 then map_option (\<lambda>s. char_of ((b - 192) * 64 + (d - 128)) # s) (utf8_decode ds) else None)
      else None)"

definition bytesToHex :: "nat list \<Rightarrow> string" where
  "bytesToHex b = concat (map (\<lambda>v. [hex_char_of (v div 16), hex_char_of (v mod 16)]) b)"

definition sha256Hex :: "(nat list \<Rightarrow> nat list) \<Rightarrow> string \<Rightarrow> string" where
  "sha256Hex sha256 input = bytesToHex (sha256 (utf8 input))"

definition stableHashHex :: "(nat list \<Rightarrow> nat list) \<Rightarrow> json \<Rightarrow> string" where
  "stableHashHex sha256 v = bytesToHex (sha256 (utf8 (stringify (canonicalize v))))"

definition bytesEq :: "nat list \<Rightarrow> nat list \<Rightarrow> bool" where
  "bytesEq a b \<longleftrightarrow> length a = length b \<and> fold (\<lambda>(x, y) acc. acc OR (x XOR y)) (zip a b) 0 = 0"

text \<open>\<open>Number.parseInt(pair, 16)\<close> of two hexadecimal digits; the wrapper applies it only to the output of \<open>bytesToHex\<close>.\<close>

fun hex_pairs :: "string \<Rightarrow> nat list" where
  "hex_pairs (c # d # cs) = (case digits_value 16 [c, d] 0 of Some n \<Rightarrow> n | None \<Rightarrow> 0) # hex_pairs cs"
| "hex_pairs _ = []"

definition hexToBytes :: "string \<Rightarrow> nat list res" where
  "hexToBytes hex = (if length hex mod 2 \<noteq> 0 then Inl JsError else Inr (hex_pairs hex))"

section \<open>Envelopes and outcomes\<close>

record ok_outcome =
  out_result :: json
  out_rowsAffected :: int
  out_lastInsertRowid :: "int option option" \<comment> \<open>undefined, null or a number\<close>
  out_returning :: "json list option"
  out_warnings :: "string list option"

datatype MutationOutcome =
    Outcome_ok ok_outcome "(string \<times> string) list option"
  | Outcome_error cdb_code string "(string \<times> string) list option"

fun touchedKeys :: "MutationOutcome \<Rightarrow> (string \<times> string) list option" where
  "touchedKeys (Outcome_ok ok ks) = ks"
| "touchedKeys (Outcome_error c m ks) = ks"

definition optional :: "string \<Rightarrow> ('a \<Rightarrow> json) \<Rightarrow> 'a option \<Rightarrow> (string \<times> json) list" where
  "optional k f x = (case x of None \<Rightarrow> [] | Some y \<Rightarrow> [(k, f y)])"

text \<open>\<open>MutationReplayEnvelope\<close> is the JSON object the wrapper builds; \<open>rawJsonResult\<close> returns a JSON result unchanged.\<close>

fun mutation_envelope :: "string \<Rightarrow> MutationOutcome \<Rightarrow> json" where
  "mutation_envelope cookie (Outcome_ok ok ks) = JObj (
     [(''v'', JNum 1), (''status'', JStr ''ok''), (''rowsAffected'', JNum (out_rowsAffected ok)), (''result'', out_result ok)] @
     optional ''lastInsertRowid'' (\<lambda>r. case r of None \<Rightarrow> JNull | Some n \<Rightarrow> JNum n) (out_lastInsertRowid ok) @
     optional ''returning'' JArr (out_returning ok) @
     [(''cookie'', JStr cookie)] @
     optional ''warnings'' (\<lambda>ws. JArr (map JStr ws)) (out_warnings ok))"
| "mutation_envelope cookie (Outcome_error c msg ks) = JObj
     [(''v'', JNum 1), (''status'', JStr ''user_error''), (''rowsAffected'', JNum 0), (''errorCode'', JStr (code_name c)),
      (''errorMessage'', JStr msg), (''cookie'', JStr cookie)]"

definition encodeEnvelope :: "json \<Rightarrow> string" where
  "encodeEnvelope env = stringify env"

text \<open>A property read \<open>v.k\<close>: null has no properties, every other value that lacks the property gives undefined.\<close>

definition decodeEnvelope :: "string \<Rightarrow> json res" where
  "decodeEnvelope s = rbind (JSON_parse s) (\<lambda>v. case v of
     JObj ps \<Rightarrow> if map_of ps ''v'' = Some (JNum 1) then Inr v else Inl TypeError
   | _ \<Rightarrow> Inl TypeError)"

definition touched_json :: "(string \<times> string) list option \<Rightarrow> string" where
  "touched_json ks = stringify (JArr (map (\<lambda>(t, pk). JObj [(''table'', JStr t), (''pk'', JStr pk)])
     (case ks of None \<Rightarrow> [] | Some xs \<Rightarrow> xs)))"

section \<open>The table\<close>

record op_log_row =
  ev_event_id :: int
  ev_principal_id :: string
  ev_mut_id :: string
  ev_payload_hash :: "nat list"
  ev_payload_enc :: "nat list"
  ev_committed_at :: int
  ev_schema_epoch :: int
  ev_touched_keys :: string
  ev_byte_size :: int
  ev_placement_vshard :: "int option"

text \<open>\<open>log_sequence\<close> is the AUTOINCREMENT counter.\<close>

record op_log =
  log_rows :: "op_log_row list"
  log_sequence :: int

definition OP_LOG_DDL :: "op_log_row \<Rightarrow> bool" where
  "OP_LOG_DDL r \<longleftrightarrow> (case ev_placement_vshard r of None \<Rightarrow> True | Some v \<Rightarrow> 0 \<le> v \<and> v < 16384)"

definition op_key :: "op_log_row \<Rightarrow> string \<times> string" where
  "op_key r = (ev_principal_id r, ev_mut_id r)"

text \<open>\<open>INSERT OR IGNORE\<close> and the count \<open>changes()\<close> reports: a row that violates a constraint is skipped.\<close>

definition insert_or_ignore :: "op_log_row \<Rightarrow> op_log \<Rightarrow> nat \<times> op_log" where
  "insert_or_ignore r l =
     (if (\<exists>s \<in> set (log_rows l). op_key s = op_key r) \<or> \<not> OP_LOG_DDL r then (0, l)
      else (1, l\<lparr>log_rows := log_rows l @ [r\<lparr>ev_event_id := log_sequence l + 1\<rparr>], log_sequence := log_sequence l + 1\<rparr>))"

section \<open>The wrapper\<close>

record PayloadCodec =
  encrypt :: "nat list \<Rightarrow> nat list"
  decrypt :: "nat list \<Rightarrow> nat list"

definition IDENTITY_CODEC :: PayloadCodec where
  "IDENTITY_CODEC = \<lparr> encrypt = (\<lambda>b. b), decrypt = (\<lambda>b. b) \<rparr>"

record RunWrappedMutationArgs =
  arg_principalId :: string
  arg_mutId :: string
  arg_canonicalRequest :: string
  arg_schemaEpoch :: int
  arg_placementVshard :: "int option"
  arg_nowMs :: int
  arg_cookie :: string

record RunWrappedMutationResult =
  ran :: bool
  envelope :: json

definition arg_key :: "RunWrappedMutationArgs \<Rightarrow> string \<times> string" where
  "arg_key a = (arg_principalId a, arg_mutId a)"

definition pending_row :: "RunWrappedMutationArgs \<Rightarrow> nat list \<Rightarrow> op_log_row" where
  "pending_row a hash = \<lparr> ev_event_id = 0, ev_principal_id = arg_principalId a, ev_mut_id = arg_mutId a, ev_payload_hash = hash,
     ev_payload_enc = [], ev_committed_at = arg_nowMs a, ev_schema_epoch = arg_schemaEpoch a, ev_touched_keys = ''[]'',
     ev_byte_size = 0, ev_placement_vshard = arg_placementVshard a \<rparr>"

definition replay_envelope :: "PayloadCodec \<Rightarrow> nat list \<Rightarrow> json res" where
  "replay_envelope codec payload = (case utf8_decode (decrypt codec payload) of None \<Rightarrow> Inl JsError | Some s \<Rightarrow> decodeEnvelope s)"

definition finalize_row :: "nat list \<Rightarrow> string \<Rightarrow> op_log_row \<Rightarrow> op_log_row" where
  "finalize_row enc touched r = r\<lparr>ev_payload_enc := enc, ev_touched_keys := touched, ev_byte_size := int (length enc)\<rparr>"

definition runWrappedMutation ::
    "PayloadCodec \<Rightarrow> (nat list \<Rightarrow> nat list) \<Rightarrow> RunWrappedMutationArgs \<Rightarrow> ('db \<Rightarrow> (MutationOutcome \<times> 'db) res) \<Rightarrow>
     op_log \<times> 'db \<Rightarrow> (RunWrappedMutationResult \<times> op_log \<times> 'db) res" where
  "runWrappedMutation codec sha256 args run s =
     (let (l, db) = s in
      rbind (hexToBytes (sha256Hex sha256 (arg_canonicalRequest args))) (\<lambda>incomingHashBytes.
      let (changes, l1) = insert_or_ignore (pending_row args incomingHashBytes) l in
      if changes = 0 then
        (case sql_one (\<lambda>r. op_key r = arg_key args) (log_rows l1) of
           None \<Rightarrow> Inl (Cdb CDB_MUT_ID_COLLISION)
         | Some row \<Rightarrow>
             if \<not> bytesEq (ev_payload_hash row) incomingHashBytes then Inl (Cdb CDB_MUT_ID_COLLISION)
             else if length (ev_payload_enc row) = 0 then Inl (Cdb CDB_TXN_ABORTED_EVICTION)
             else rbind (replay_envelope codec (ev_payload_enc row)) (\<lambda>env. Inr (\<lparr> ran = False, envelope = env \<rparr>, l1, db)))
      else
        rbind (run db) (\<lambda>(outcome, db').
        let env = mutation_envelope (arg_cookie args) outcome;
            enc = encrypt codec (utf8 (encodeEnvelope env));
            touched = touched_json (touchedKeys outcome) in
        Inr (\<lparr> ran = True, envelope = env \<rparr>,
          l1\<lparr>log_rows := sql_update (\<lambda>r. op_key r = arg_key args) (finalize_row enc touched) (log_rows l1)\<rparr>, db'))))"

section \<open>Encodings\<close>

lemma utf8_decode_char: "utf8_decode (utf8_char c @ bs) = map_option (\<lambda>s. c # s) (utf8_decode bs)"
proof -
  let ?n = "of_char c :: nat"
  have n: "?n < 256" by simp
  show ?thesis
  proof (cases "?n < 128")
    case True
    then show ?thesis by (simp add: utf8_char_def)
  next
    case False
    have "2 \<le> ?n div 64" using div_le_mono [of 128 ?n 64] False by simp
    moreover have "?n div 64 < 4" using n by (simp add: div_less_iff_less_mult)
    ultimately have "?n div 64 = 2 \<or> ?n div 64 = 3" by linarith
    moreover have "?n = ?n div 64 * 64 + ?n mod 64" by simp
    ultimately show ?thesis using False by (auto simp: utf8_char_def Let_def)
  qed
qed

lemma utf8_roundtrip: "utf8_decode (utf8 s) = Some s"
  by (induction s) (simp_all add: utf8_def utf8_decode_char)

lemma hex_pairs_bytes: "byte_list b \<Longrightarrow> hex_pairs (bytesToHex b) = b"
proof (induction b)
  case Nil
  then show ?case by (simp add: bytesToHex_def)
next
  case (Cons v b)
  then have "v < 256" "byte_list b" by (auto simp: byte_list_def)
  then have "v div 16 < 16" by auto
  then have "digits_value 16 [hex_char_of (v div 16), hex_char_of (v mod 16)] 0 = Some v"
    by (simp add: hex_digit_value mult.commute [of _ 16])
  then show ?case using Cons \<open>byte_list b\<close> by (simp add: bytesToHex_def)
qed

lemma hex_roundtrip: "byte_list b \<Longrightarrow> hexToBytes (bytesToHex b) = Inr b"
proof -
  have "length (bytesToHex b) = 2 * length b" by (induction b) (simp_all add: bytesToHex_def)
  then show "byte_list b \<Longrightarrow> ?thesis" by (simp add: hexToBytes_def hex_pairs_bytes)
qed

lemma xor_zero_iff: "a XOR b = 0 \<longleftrightarrow> a = b" for a b :: nat
proof
  assume "a XOR b = 0"
  then have "(a XOR b) XOR b = b" by simp
  then show "a = b" by (simp add: xor.assoc)
qed simp

lemma bytesEq_iff: "bytesEq a b \<longleftrightarrow> a = b"
proof -
  have acc: "fold (\<lambda>(x, y) acc. acc OR (x XOR y)) ps n = 0 \<longleftrightarrow> n = 0 \<and> (\<forall>(x, y) \<in> set ps. x = y)" for ps and n :: nat
  proof (induction ps arbitrary: n)
    case (Cons xy ps)
    then show ?case by (cases xy) (simp add: or_eq_0_iff xor_zero_iff conj_ac)
  qed simp
  show ?thesis
    unfolding bytesEq_def acc using list_all2_iff [of "(=)" a b] by (simp add: list.rel_eq)
qed

definition outcome_ok :: "MutationOutcome \<Rightarrow> bool" where
  "outcome_ok o1 = (case o1 of
     Outcome_ok ok _ \<Rightarrow> json_ok (out_result ok) \<and> safe_integer (out_rowsAffected ok) \<and>
       (case out_lastInsertRowid ok of Some (Some n) \<Rightarrow> safe_integer n | _ \<Rightarrow> True) \<and>
       (case out_returning ok of Some vs \<Rightarrow> list_all json_ok vs | None \<Rightarrow> True)
   | Outcome_error _ _ _ \<Rightarrow> True)"

lemma js_ordered_plain:
  "distinct (map fst ps) \<Longrightarrow> (\<forall>k \<in> fst ` set ps. array_index k = None) \<Longrightarrow> js_ordered ps"
  unfolding js_ordered_def by (induction ps) (auto simp: key_before_def)

definition plain_keys :: "string set" where
  "plain_keys = {''v'', ''status'', ''rowsAffected'', ''result'', ''lastInsertRowid'', ''returning'', ''cookie'', ''warnings'',
     ''errorCode'', ''errorMessage''}"

lemma plain_keys_index: "\<forall>k \<in> plain_keys. array_index k = None"
  by (simp add: plain_keys_def array_index_def is_digit_def)

lemma envelope_members:
  assumes "mutation_envelope cookie o1 = JObj ps"
  shows "distinct (map fst ps)" and "fst ` set ps \<subseteq> plain_keys"
proof -
  show "distinct (map fst ps)" using assms by (cases o1) (auto simp: optional_def split: option.splits)
  show "fst ` set ps \<subseteq> plain_keys" using assms by (cases o1) (auto simp: optional_def plain_keys_def split: option.splits)
qed

lemma envelope_ok: "outcome_ok o1 \<Longrightarrow> json_ok (mutation_envelope cookie o1)"
proof -
  assume ok: "outcome_ok o1"
  obtain ps where ps: "mutation_envelope cookie o1 = JObj ps" by (cases o1) auto
  have "\<forall>k \<in> fst ` set ps. array_index k = None"
    using envelope_members(2) [OF ps] plain_keys_index by (meson subsetD)
  then have "js_ordered ps" using envelope_members(1) [OF ps] by (intro js_ordered_plain)
  moreover have "\<forall>(k, v) \<in> set ps. json_ok v"
    using ps ok by (cases o1) (auto simp: optional_def outcome_ok_def safe_integer_def list_all_iff split: option.splits)
  ultimately show ?thesis using ps by (simp add: list_all_iff)
qed

lemma decode_encode_envelope: "outcome_ok o1 \<Longrightarrow> decodeEnvelope (encodeEnvelope (mutation_envelope cookie o1)) = Inr (mutation_envelope cookie o1)"
proof -
  assume "outcome_ok o1"
  then have "JSON_parse (encodeEnvelope (mutation_envelope cookie o1)) = Inr (mutation_envelope cookie o1)"
    unfolding encodeEnvelope_def by (intro parse_stringify envelope_ok)
  then show ?thesis by (cases o1) (simp_all add: decodeEnvelope_def)
qed

section \<open>Stored replies\<close>

text \<open>
  What the wrapper relies on from a codec: decryption inverts encryption, and a payload never encrypts to no bytes,
  which would read as a mutation still in flight.
\<close>

locale payload_codec =
  fixes codec :: PayloadCodec
  assumes decrypt_encrypt: "decrypt codec (encrypt codec b) = b"
    and encrypt_nonempty: "b \<noteq> [] \<Longrightarrow> encrypt codec b \<noteq> []"
begin

definition stored_reply :: "json \<Rightarrow> nat list" where
  "stored_reply env = encrypt codec (utf8 (encodeEnvelope env))"

lemma stored_reply_nonempty: "stored_reply (mutation_envelope cookie o1) \<noteq> []"
proof -
  have "utf8 (encodeEnvelope (mutation_envelope cookie o1)) \<noteq> []"
    by (cases o1) (simp_all add: encodeEnvelope_def utf8_def)
  then show ?thesis unfolding stored_reply_def by (rule encrypt_nonempty)
qed

lemma replay_stored: "outcome_ok o1 \<Longrightarrow> replay_envelope codec (stored_reply (mutation_envelope cookie o1)) = Inr (mutation_envelope cookie o1)"
  by (simp add: replay_envelope_def stored_reply_def decrypt_encrypt utf8_roundtrip decode_encode_envelope)

end

interpretation identity: payload_codec IDENTITY_CODEC
  by unfold_locales (simp_all add: IDENTITY_CODEC_def)

section \<open>What a call does\<close>

definition request_hash :: "(nat list \<Rightarrow> nat list) \<Rightarrow> RunWrappedMutationArgs \<Rightarrow> nat list" where
  "request_hash sha256 args = sha256 (utf8 (arg_canonicalRequest args))"

definition placement_ok :: "RunWrappedMutationArgs \<Rightarrow> bool" where
  "placement_ok args \<longleftrightarrow> (case arg_placementVshard args of None \<Rightarrow> True | Some v \<Rightarrow> 0 \<le> v \<and> v < 16384)"

definition logged :: "op_log \<Rightarrow> string \<times> string \<Rightarrow> op_log_row option" where
  "logged l k = sql_one (\<lambda>r. op_key r = k) (log_rows l)"

text \<open>The log after a closure ran: one final row more.\<close>

definition committed_row :: "PayloadCodec \<Rightarrow> (nat list \<Rightarrow> nat list) \<Rightarrow> RunWrappedMutationArgs \<Rightarrow> MutationOutcome \<Rightarrow> int \<Rightarrow> op_log_row" where
  "committed_row codec sha256 args o1 n =
     finalize_row (encrypt codec (utf8 (encodeEnvelope (mutation_envelope (arg_cookie args) o1)))) (touched_json (touchedKeys o1))
       ((pending_row args (request_hash sha256 args))\<lparr>ev_event_id := n\<rparr>)"

definition commit_log :: "PayloadCodec \<Rightarrow> (nat list \<Rightarrow> nat list) \<Rightarrow> RunWrappedMutationArgs \<Rightarrow> MutationOutcome \<Rightarrow> op_log \<Rightarrow> op_log" where
  "commit_log codec sha256 args o1 l =
     \<lparr> log_rows = log_rows l @ [committed_row codec sha256 args o1 (log_sequence l + 1)], log_sequence = log_sequence l + 1 \<rparr>"

lemma committed_row_simps [simp]:
  "op_key (committed_row codec sha256 args o1 n) = arg_key args"
  "ev_event_id (committed_row codec sha256 args o1 n) = n"
  "ev_payload_hash (committed_row codec sha256 args o1 n) = request_hash sha256 args"
  "ev_payload_enc (committed_row codec sha256 args o1 n) = encrypt codec (utf8 (encodeEnvelope (mutation_envelope (arg_cookie args) o1)))"
  "ev_committed_at (committed_row codec sha256 args o1 n) = arg_nowMs args"
  by (simp_all add: committed_row_def finalize_row_def pending_row_def op_key_def arg_key_def)

lemma pending_row_check: "OP_LOG_DDL (pending_row args h) \<longleftrightarrow> placement_ok args"
  by (simp add: OP_LOG_DDL_def pending_row_def placement_ok_def)

lemma pending_row_key: "op_key (pending_row args h) = arg_key args"
  by (simp add: op_key_def pending_row_def arg_key_def)

lemma logged_None: "logged l k = None \<longleftrightarrow> (\<forall>r \<in> set (log_rows l). op_key r \<noteq> k)"
  by (simp add: logged_def sql_one_None_iff)

lemma runWrappedMutation_eq:
  assumes "byte_list (request_hash sha256 args)"
  shows "runWrappedMutation codec sha256 args run (l, db) =
    (case logged l (arg_key args) of
       Some row \<Rightarrow>
         if ev_payload_hash row \<noteq> request_hash sha256 args then Inl (Cdb CDB_MUT_ID_COLLISION)
         else if ev_payload_enc row = [] then Inl (Cdb CDB_TXN_ABORTED_EVICTION)
         else rbind (replay_envelope codec (ev_payload_enc row)) (\<lambda>env. Inr (\<lparr> ran = False, envelope = env \<rparr>, l, db))
     | None \<Rightarrow>
         if \<not> placement_ok args then Inl (Cdb CDB_MUT_ID_COLLISION)
         else rbind (run db) (\<lambda>(o1, db'). Inr (\<lparr> ran = True, envelope = mutation_envelope (arg_cookie args) o1 \<rparr>,
           commit_log codec sha256 args o1 l, db')))"
proof -
  have hash: "hexToBytes (sha256Hex sha256 (arg_canonicalRequest args)) = Inr (request_hash sha256 args)"
    using hex_roundtrip [OF assms] by (simp add: sha256Hex_def request_hash_def)
  show ?thesis
  proof (cases "logged l (arg_key args)")
    case None
    then have fresh: "\<forall>r \<in> set (log_rows l). op_key r \<noteq> arg_key args" by (simp add: logged_None)
    then have update: "sql_update (\<lambda>r. op_key r = arg_key args) f (log_rows l @ [x]) = log_rows l @ [f x]" if "op_key x = arg_key args" for f x
      using that by (auto simp: sql_update_def intro!: map_idI)
    have key: "op_key ((pending_row args h)\<lparr>ev_event_id := n\<rparr>) = arg_key args" for h n
      by (simp add: op_key_def pending_row_def arg_key_def)
    show ?thesis using None fresh hash
      by (auto simp: runWrappedMutation_def insert_or_ignore_def pending_row_check pending_row_key logged_def Let_def
          update [OF key] commit_log_def committed_row_def intro!: arg_cong2 [of _ _ _ _ rbind])
  next
    case (Some row)
    then have "\<exists>r \<in> set (log_rows l). op_key r = arg_key args" by (auto simp: logged_def dest: sql_one_SomeD)
    then show ?thesis using Some hash
      by (simp add: runWrappedMutation_def insert_or_ignore_def pending_row_key logged_def Let_def bytesEq_iff)
  qed
qed

section \<open>The invariant of the log\<close>

definition oplog_inv :: "op_log \<Rightarrow> bool" where
  "oplog_inv l \<longleftrightarrow> distinct (map op_key (log_rows l)) \<and> distinct (map ev_event_id (log_rows l)) \<and> 0 \<le> log_sequence l \<and>
     (\<forall>r \<in> set (log_rows l). 1 \<le> ev_event_id r \<and> ev_event_id r \<le> log_sequence l \<and> ev_payload_enc r \<noteq> [])"

definition empty_log :: op_log where
  "empty_log = \<lparr> log_rows = [], log_sequence = 0 \<rparr>"

lemma oplog_inv_empty: "oplog_inv empty_log"
  by (simp add: oplog_inv_def empty_log_def)

context payload_codec
begin

lemma commit_log_inv:
  assumes "oplog_inv l" and "logged l (arg_key args) = None"
  shows "oplog_inv (commit_log codec sha256 args o1 l)"
proof -
  have "encrypt codec (utf8 (encodeEnvelope (mutation_envelope (arg_cookie args) o1))) \<noteq> []"
    using stored_reply_nonempty by (simp add: stored_reply_def)
  then show ?thesis using assms by (fastforce simp: oplog_inv_def commit_log_def logged_None)
qed

lemma run_inv:
  assumes "byte_list (request_hash sha256 args)" and "oplog_inv l" and "runWrappedMutation codec sha256 args run (l, db) = Inr (r, l', db')"
  shows "oplog_inv l'"
  using assms commit_log_inv by (auto simp: runWrappedMutation_eq result_simps split: option.splits if_splits prod.splits)

lemma run_keeps_row:
  assumes "byte_list (request_hash sha256 args)" and "runWrappedMutation codec sha256 args run (l, db) = Inr (r, l', db')" and "row \<in> set (log_rows l)"
  shows "row \<in> set (log_rows l')"
  using assms by (auto simp: runWrappedMutation_eq commit_log_def result_simps split: option.splits if_splits prod.splits)

text \<open>Replaying a committed row, and a different request under its key.\<close>

lemma replay_committed:
  assumes "byte_list (request_hash sha256 args')" and "oplog_inv l" and "committed_row codec sha256 args o1 n \<in> set (log_rows l)"
    and "arg_key args' = arg_key args" and "outcome_ok o1"
  shows "runWrappedMutation codec sha256 args' run (l, db) =
    (if request_hash sha256 args' = request_hash sha256 args
     then Inr (\<lparr> ran = False, envelope = mutation_envelope (arg_cookie args) o1 \<rparr>, l, db)
     else Inl (Cdb CDB_MUT_ID_COLLISION))"
proof -
  have "logged l (arg_key args') = Some (committed_row codec sha256 args o1 n)"
    using sql_one_unique [of op_key "log_rows l", OF _ assms(3)] assms(2,4) by (simp add: logged_def oplog_inv_def)
  then show ?thesis
    using stored_reply_nonempty replay_stored [OF assms(5)] by (simp add: runWrappedMutation_eq [OF assms(1)] stored_reply_def)
qed

end

end
