(* ===== verification/Oplog_Retention.thy ===== *)
theory Oplog_Retention
  imports Oplog
begin

text \<open>
  The bounded cleanup of the mutation log, \<^verbatim>\<open>src/src/server/do/cdb-oplog-retention-store.ts\<close>, and what the log and its
  cleanup together promise: within the retention window a mutation's closure runs at most once.
\<close>

section \<open>Operations\<close>

definition CDB_OPLOG_RETENTION_MS :: int where "CDB_OPLOG_RETENTION_MS = 24 * 60 * 60 * 1000"
definition CDB_OPLOG_RETENTION_BATCH :: nat where "CDB_OPLOG_RETENTION_BATCH = 128"

record CdbOpLogRetentionResult =
  deleted :: int
  blockedBySplit :: bool
  nextAt :: "int option"

datatype split_role = Role_source | Role_dest | Role_other

text \<open>The columns of \<open>_chardb_split_state\<close> that the modelled operations read.\<close>

record split_state_row =
  ss_mig_id :: string
  ss_range_lo :: int
  ss_range_hi :: int
  ss_role :: split_role
  ss_capture :: int
  ss_abort_started :: int
  ss_destination_generation :: "int option"
  ss_destination_serving :: int
  ss_drained :: int

definition hasActiveSplit :: "split_state_row list \<Rightarrow> bool" where
  "hasActiveSplit ss = (sql_one (\<lambda>r. ss_drained r = 0 \<and> ss_role r \<in> {Role_source, Role_dest}) ss \<noteq> None)"

definition retention_assertTimestamp :: "int \<Rightarrow> unit res" where
  "retention_assertTimestamp v = ensure (safe_integer v \<and> 0 \<le> v) (Cdb CDB_INVALID_ARGS)"

definition assertEventId :: "int \<Rightarrow> unit res" where
  "assertEventId v = ensure (safe_integer v \<and> 1 \<le> v) (Cdb CDB_INVARIANT)"

text \<open>\<open>ORDER BY committed_at, event_id\<close>.\<close>

definition by_age :: "op_log_row list \<Rightarrow> op_log_row list" where
  "by_age rows = sort_key ev_committed_at (sort_key ev_event_id rows)"

definition delete_expired :: "int \<Rightarrow> op_log_row \<Rightarrow> op_log_row list \<Rightarrow> op_log_row list res" where
  "delete_expired cutoff row rows =
     (let p = (\<lambda>r. ev_event_id r = ev_event_id row \<and> ev_committed_at r \<le> cutoff) in
      rbind (assertEventId (ev_event_id row)) (\<lambda>_.
      rbind (ensure (sql_changes p rows = 1) (Cdb CDB_INVARIANT)) (\<lambda>_. Inr (sql_delete p rows))))"

definition maintain :: "int \<Rightarrow> split_state_row list \<Rightarrow> op_log \<Rightarrow> (CdbOpLogRetentionResult \<times> op_log) res" where
  "maintain nowMs ss l =
     rbind (retention_assertTimestamp nowMs) (\<lambda>_.
     if hasActiveSplit ss then Inr (\<lparr> deleted = 0, blockedBySplit = True, nextAt = None \<rparr>, l)
     else
       (let cutoff = nowMs - CDB_OPLOG_RETENTION_MS;
            expired = take (CDB_OPLOG_RETENTION_BATCH + 1) (by_age (filter (\<lambda>r. ev_committed_at r \<le> cutoff) (log_rows l))) in
        rbind (rfold (delete_expired cutoff) (take CDB_OPLOG_RETENTION_BATCH expired) (log_rows l)) (\<lambda>rows.
        let n = int (min (length expired) CDB_OPLOG_RETENTION_BATCH); l' = l\<lparr>log_rows := rows\<rparr> in
        if CDB_OPLOG_RETENTION_BATCH < length expired then Inr (\<lparr> deleted = n, blockedBySplit = False, nextAt = Some (nowMs + 1) \<rparr>, l')
        else (case by_age rows of
            [] \<Rightarrow> Inr (\<lparr> deleted = n, blockedBySplit = False, nextAt = None \<rparr>, l')
          | oldest # _ \<Rightarrow>
              rbind (retention_assertTimestamp (ev_committed_at oldest)) (\<lambda>_.
              Inr (\<lparr> deleted = n, blockedBySplit = False,
                nextAt = Some (max (nowMs + 1) (ev_committed_at oldest + CDB_OPLOG_RETENTION_MS)) \<rparr>, l'))))))"

section \<open>What a cleanup removes\<close>

lemma set_by_age [simp]: "set (by_age rows) = set rows"
  by (simp add: by_age_def)

lemma length_by_age [simp]: "length (by_age rows) = length rows"
  by (simp add: by_age_def)

lemma distinct_by_age: "distinct rows \<Longrightarrow> distinct (by_age rows)"
  by (simp add: by_age_def distinct_sort)

lemma by_age_sorted: "sorted (map ev_committed_at (by_age rows))"
  by (simp add: by_age_def)

lemma nth_not_in_take: "distinct xs \<Longrightarrow> n < length xs \<Longrightarrow> xs ! n \<in> set xs - set (take n xs)"
  by (auto simp: in_set_conv_nth nth_eq_iff_index_eq)

lemma delete_expired_Inr:
  assumes "distinct (map ev_event_id rows)" and "row \<in> set rows" and "ev_committed_at row \<le> cutoff" and "assertEventId (ev_event_id row) = Inr ()"
  shows "delete_expired cutoff row rows = Inr (filter (\<lambda>r. r \<noteq> row) rows)"
proof -
  have same: "ev_event_id r = ev_event_id row \<and> ev_committed_at r \<le> cutoff \<longleftrightarrow> r = row" if "r \<in> set rows" for r
    using that assms(1-3) unique_key_row [of ev_event_id rows r row] by auto
  then have "filter (\<lambda>r. ev_event_id r = ev_event_id row \<and> ev_committed_at r \<le> cutoff) rows = filter (\<lambda>r. r = row) rows"
    and "filter (\<lambda>r. \<not> (ev_event_id r = ev_event_id row \<and> ev_committed_at r \<le> cutoff)) rows = filter (\<lambda>r. r \<noteq> row) rows"
    by (auto intro!: filter_cong)
  moreover have "length (filter (\<lambda>r. r = row) rows) = 1"
    using assms(1,2) by (induction rows) (auto simp: filter_empty_conv)
  ultimately show ?thesis
    using assms(4) by (simp add: delete_expired_def Let_def sql_changes_def sql_delete_def ensure_def)
qed

lemma delete_all_expired:
  assumes "distinct (map ev_event_id rows)" and "distinct es" and "set es \<subseteq> set rows" and "\<forall>e \<in> set es. ev_committed_at e \<le> cutoff"
    and "\<forall>e \<in> set es. assertEventId (ev_event_id e) = Inr ()"
  shows "rfold (delete_expired cutoff) es rows = Inr (filter (\<lambda>r. r \<notin> set es) rows)"
  using assms
proof (induction es arbitrary: rows)
  case Nil
  then show ?case by simp
next
  case (Cons e es)
  let ?rows = "filter (\<lambda>r. r \<noteq> e) rows"
  have "distinct (map ev_event_id ?rows)" using Cons.prems(1) by (simp add: distinct_map_filter)
  moreover have "set es \<subseteq> set ?rows" using Cons.prems(2,3) by auto
  ultimately have "rfold (delete_expired cutoff) es ?rows = Inr (filter (\<lambda>r. r \<notin> set es) ?rows)"
    using Cons.IH Cons.prems by simp
  then show ?case using delete_expired_Inr [of rows e cutoff] Cons.prems by (auto intro: filter_cong)
qed

text \<open>Whatever it returns, a cleanup deletes only rows that are older than the window, and adds none.\<close>

lemma delete_expired_set:
  "delete_expired cutoff row rows = Inr rows' \<Longrightarrow>
     set rows' \<subseteq> set rows \<and> (\<forall>r \<in> set rows. cutoff < ev_committed_at r \<longrightarrow> r \<in> set rows') \<and>
     (distinct (map f rows) \<longrightarrow> distinct (map f rows'))"
  by (auto simp: delete_expired_def Let_def result_simps table_simps distinct_keys_sql_delete)

lemma delete_many_set:
  "rfold (delete_expired cutoff) es rows = Inr rows' \<Longrightarrow>
     set rows' \<subseteq> set rows \<and> (\<forall>r \<in> set rows. cutoff < ev_committed_at r \<longrightarrow> r \<in> set rows') \<and>
     (distinct (map f rows) \<longrightarrow> distinct (map f rows'))"
proof (induction es arbitrary: rows)
  case Nil
  then show ?case by simp
next
  case (Cons e es)
  then obtain mid where "delete_expired cutoff e rows = Inr mid" "rfold (delete_expired cutoff) es mid = Inr rows'"
    by (auto simp: result_simps)
  then show ?case using delete_expired_set [of cutoff e rows mid f] Cons.IH by blast
qed

lemma maintain_rows:
  assumes "maintain now ss l = Inr (res, l')"
  shows "set (log_rows l') \<subseteq> set (log_rows l)" and "log_sequence l' = log_sequence l"
    and "\<forall>r \<in> set (log_rows l). now - CDB_OPLOG_RETENTION_MS < ev_committed_at r \<longrightarrow> r \<in> set (log_rows l')"
    and "distinct (map f (log_rows l)) \<Longrightarrow> distinct (map f (log_rows l'))"
proof -
  have "l' = l \<or> (\<exists>es rows. rfold (delete_expired (now - CDB_OPLOG_RETENTION_MS)) es (log_rows l) = Inr rows \<and> l' = l\<lparr>log_rows := rows\<rparr>)"
  proof (cases "hasActiveSplit ss")
    case True
    then show ?thesis using assms by (auto simp: maintain_def result_simps)
  next
    case False
    let ?es = "take CDB_OPLOG_RETENTION_BATCH (take (CDB_OPLOG_RETENTION_BATCH + 1)
      (by_age (filter (\<lambda>r. ev_committed_at r \<le> now - CDB_OPLOG_RETENTION_MS) (log_rows l))))"
    obtain rows where rows: "rfold (delete_expired (now - CDB_OPLOG_RETENTION_MS)) ?es (log_rows l) = Inr rows"
      using assms False by (simp add: maintain_def Let_def rbind_eq_Inr del: take_take) blast
    have "l' = l\<lparr>log_rows := rows\<rparr>"
      using assms False rows by (simp add: maintain_def Let_def rbind_eq_Inr del: take_take split: if_splits list.splits)
    then show ?thesis using rows by blast
  qed
  then have "set (log_rows l') \<subseteq> set (log_rows l) \<and> log_sequence l' = log_sequence l \<and>
     (\<forall>r \<in> set (log_rows l). now - CDB_OPLOG_RETENTION_MS < ev_committed_at r \<longrightarrow> r \<in> set (log_rows l')) \<and>
     (distinct (map f (log_rows l)) \<longrightarrow> distinct (map f (log_rows l')))" for f :: "op_log_row \<Rightarrow> 'b"
    using delete_many_set by fastforce
  then show "set (log_rows l') \<subseteq> set (log_rows l)" and "log_sequence l' = log_sequence l"
    and "\<forall>r \<in> set (log_rows l). now - CDB_OPLOG_RETENTION_MS < ev_committed_at r \<longrightarrow> r \<in> set (log_rows l')"
    and "distinct (map f (log_rows l)) \<Longrightarrow> distinct (map f (log_rows l'))" by blast+
qed

lemma maintain_inv: "oplog_inv l \<Longrightarrow> maintain now ss l = Inr (res, l') \<Longrightarrow> oplog_inv l'"
  using maintain_rows(1,2) [of now ss l res l'] maintain_rows(4) [of now ss l res l' op_key] maintain_rows(4) [of now ss l res l' ev_event_id]
  by (auto simp: oplog_inv_def)

section \<open>Histories\<close>

text \<open>
  One step of a shard: a mutation with any request and any closure whose outcomes are JSON, a cleanup before
  \<open>deadline\<close>, or any other change of the domain tables. Calls that throw leave no trace.
\<close>

inductive shard_step :: "PayloadCodec \<Rightarrow> (nat list \<Rightarrow> nat list) \<Rightarrow> int \<Rightarrow> op_log \<times> 'db \<Rightarrow> op_log \<times> 'db \<Rightarrow> bool"
  for codec :: PayloadCodec and sha256 :: "nat list \<Rightarrow> nat list" and deadline :: int where
  step_mutation: "runWrappedMutation codec sha256 args run s = Inr (r, s') \<Longrightarrow> shard_step codec sha256 deadline s s'"
| step_maintain: "maintain now ss l = Inr (res, l') \<Longrightarrow> now < deadline \<Longrightarrow> shard_step codec sha256 deadline (l, db) (l', db)"
| step_domain: "shard_step codec sha256 deadline (l, db) (l, db')"

context payload_codec
begin

lemma shard_step_inv:
  assumes "shard_step codec sha256 d s s'" and "\<And>b. byte_list (sha256 b)" and "oplog_inv (fst s)"
  shows "oplog_inv (fst s')"
  using assms(1)
proof cases
  case (step_mutation args run r)
  have "byte_list (request_hash sha256 args)" using assms(2) by (simp add: request_hash_def)
  then show ?thesis using run_inv [of sha256 args "fst s" run "snd s" r "fst s'" "snd s'"] step_mutation assms(3) by simp
qed (use assms(3) maintain_inv in auto)

lemma shard_step_row:
  assumes "shard_step codec sha256 d s s'" and "\<And>b. byte_list (sha256 b)"
    and "row \<in> set (log_rows (fst s))" and "d \<le> ev_committed_at row + CDB_OPLOG_RETENTION_MS"
  shows "row \<in> set (log_rows (fst s'))"
  using assms(1)
proof cases
  case (step_mutation args run r)
  have "byte_list (request_hash sha256 args)" using assms(2) by (simp add: request_hash_def)
  then show ?thesis using run_keeps_row [of sha256 args run "fst s" "snd s" r "fst s'" "snd s'"] step_mutation assms(3) by simp
next
  case (step_maintain now ss l res l' db)
  then show ?thesis using maintain_rows(3) [OF step_maintain(3)] assms(3,4) by force
qed (use assms(3) in auto)

lemma shard_steps:
  assumes "(shard_step codec sha256 d)\<^sup>*\<^sup>* s s'" and "\<And>b. byte_list (sha256 b)" and "oplog_inv (fst s)"
  shows "oplog_inv (fst s')"
    and "row \<in> set (log_rows (fst s)) \<Longrightarrow> d \<le> ev_committed_at row + CDB_OPLOG_RETENTION_MS \<Longrightarrow> row \<in> set (log_rows (fst s'))"
  using assms by (induction rule: rtranclp_induct) (auto dest: shard_step_inv shard_step_row)

end

section \<open>Properties\<close>

text \<open>
  C21. At most once: after a call whose closure ran, and after any sequence of other mutations, changes of the domain
  tables and cleanups made within the retention window of that call, a call with the same principal and mutation id never
  runs its closure. With the same request it returns the recorded reply and changes nothing; with a request of
  another hash it fails as a collision.
\<close>

theorem mutation_at_most_once:
  assumes "\<And>b. byte_list (sha256 b)"
    and "(shard_step IDENTITY_CODEC sha256 d0)\<^sup>*\<^sup>* (empty_log, db0) (l, db)"
    and "runWrappedMutation IDENTITY_CODEC sha256 args run (l, db) = Inr (r, s1)" and "ran r"
    and "\<And>db o1 db'. run db = Inr (o1, db') \<Longrightarrow> outcome_ok o1"
    and "(shard_step IDENTITY_CODEC sha256 d)\<^sup>*\<^sup>* s1 s2" and "d \<le> arg_nowMs args + CDB_OPLOG_RETENTION_MS"
    and "arg_key args' = arg_key args"
  shows "runWrappedMutation IDENTITY_CODEC sha256 args' run' s2 =
    (if sha256 (utf8 (arg_canonicalRequest args')) = sha256 (utf8 (arg_canonicalRequest args))
     then Inr (\<lparr> ran = False, envelope = envelope r \<rparr>, s2) else Inl (Cdb CDB_MUT_ID_COLLISION))"
proof -
  have bytes: "byte_list (request_hash sha256 a)" for a using assms(1) by (simp add: request_hash_def)
  have inv: "oplog_inv l" using identity.shard_steps(1) [OF assms(2,1)] oplog_inv_empty by simp
  obtain o1 db' where o1: "run db = Inr (o1, db')" "s1 = (commit_log IDENTITY_CODEC sha256 args o1 l, db')"
      "envelope r = mutation_envelope (arg_cookie args) o1" "logged l (arg_key args) = None"
    using assms(3,4) by (auto simp: runWrappedMutation_eq [OF bytes] result_simps split: option.splits if_splits)
  have inv1: "oplog_inv (fst s1)" using identity.commit_log_inv [OF inv o1(4)] o1(2) by simp
  have "committed_row IDENTITY_CODEC sha256 args o1 (log_sequence l + 1) \<in> set (log_rows (fst s1))"
    using o1(2) by (simp add: commit_log_def)
  then have row: "committed_row IDENTITY_CODEC sha256 args o1 (log_sequence l + 1) \<in> set (log_rows (fst s2))"
    using identity.shard_steps(2) [OF assms(6,1) inv1] assms(7) by simp
  have inv2: "oplog_inv (fst s2)" using identity.shard_steps(1) [OF assms(6,1) inv1] .
  show ?thesis
    using identity.replay_committed [OF bytes inv2 row assms(8) assms(5) [OF o1(1)], of run' "snd s2"] o1(3)
    by (simp add: request_hash_def)
qed

text \<open>
  The first call of a key runs its closure exactly once on the current tables: its exception is the call's exception
  and leaves nothing behind; otherwise the closure's tables are kept, one finished row is logged, and the reply is the
  outcome's envelope. No reachable log holds an unfinished row, so the in-flight error is never raised.
\<close>

theorem mutation_first_run:
  assumes "\<And>b. byte_list (sha256 b)"
    and "(shard_step IDENTITY_CODEC sha256 d0)\<^sup>*\<^sup>* (empty_log, db0) (l, db)" and "placement_ok args"
  shows "(logged l (arg_key args) = None \<longrightarrow>
      runWrappedMutation IDENTITY_CODEC sha256 args run (l, db) = rbind (run db) (\<lambda>(o1, db').
        Inr (\<lparr> ran = True, envelope = mutation_envelope (arg_cookie args) o1 \<rparr>, commit_log IDENTITY_CODEC sha256 args o1 l, db'))) \<and>
    (logged l (arg_key args) \<noteq> None \<longrightarrow> runWrappedMutation IDENTITY_CODEC sha256 args run (l, db) \<noteq> Inl (Cdb CDB_TXN_ABORTED_EVICTION))"
proof -
  have bytes: "byte_list (request_hash sha256 a)" for a using assms(1) by (simp add: request_hash_def)
  have inv: "oplog_inv l" using identity.shard_steps(1) [OF assms(2,1)] oplog_inv_empty by simp
  have finished: "ev_payload_enc r \<noteq> []" if "logged l (arg_key args) = Some r" for r
    using that inv by (auto simp: logged_def oplog_inv_def dest: sql_one_SomeD)
  have "replay_envelope IDENTITY_CODEC b \<noteq> Inl (Cdb c)" for b c
    by (auto simp: replay_envelope_def decodeEnvelope_def JSON_parse_def rbind_eq_Inl split: option.splits json.splits if_splits)
  then show ?thesis
    using assms(3) finished by (auto simp: runWrappedMutation_eq [OF bytes] rbind_eq_Inl split: option.splits)
qed

text \<open>
  Cleanup is exact and bounded: without an active split it removes the oldest rows whose 24 hours have passed, at
  most 128 of them, and no other row, and asks to be called again at the moment the next row expires (in the next
  millisecond when expired rows are left, never when the log is empty).
\<close>

theorem retention_exact:
  assumes "oplog_inv l" and "safe_integer (log_sequence l)" and "safe_integer now" and "0 \<le> now" and "\<not> hasActiveSplit ss"
    and "\<forall>r \<in> set (log_rows l). safe_integer (ev_committed_at r) \<and> 0 \<le> ev_committed_at r"
  defines "victims \<equiv> take CDB_OPLOG_RETENTION_BATCH (by_age (filter (\<lambda>r. ev_committed_at r \<le> now - CDB_OPLOG_RETENTION_MS) (log_rows l)))"
  shows "\<exists>res l'. maintain now ss l = Inr (res, l') \<and> deleted res = int (length victims) \<and> \<not> blockedBySplit res \<and>
    log_rows l' = filter (\<lambda>r. r \<notin> set victims) (log_rows l) \<and>
    nextAt res = (if log_rows l' = [] then None
      else if \<exists>r \<in> set (log_rows l'). ev_committed_at r \<le> now - CDB_OPLOG_RETENTION_MS then Some (now + 1)
      else Some (Min (ev_committed_at ` set (log_rows l')) + CDB_OPLOG_RETENTION_MS))"
proof -
  let ?cutoff = "now - CDB_OPLOG_RETENTION_MS" and ?left = "filter (\<lambda>r. r \<notin> set victims) (log_rows l)"
  let ?old = "by_age (filter (\<lambda>r. ev_committed_at r \<le> ?cutoff) (log_rows l))"
  have ids: "distinct (map ev_event_id (log_rows l))" using assms(1) by (simp add: oplog_inv_def)
  then have dist: "distinct ?old" by (auto simp: distinct_map intro!: distinct_by_age)
  have old: "set ?old = {r \<in> set (log_rows l). ev_committed_at r \<le> ?cutoff}" by auto
  have vict: "set victims \<subseteq> set ?old" unfolding victims_def by (rule set_take_subset)
  have event: "assertEventId (ev_event_id r) = Inr ()" if "r \<in> set (log_rows l)" for r
    using that assms(1,2) by (fastforce simp: oplog_inv_def assertEventId_def ensure_def safe_integer_def)
  have removed: "rfold (delete_expired ?cutoff) victims (log_rows l) = Inr ?left"
    using vict old dist event by (intro delete_all_expired [OF ids]) (auto simp: victims_def distinct_take)
  have taken: "take CDB_OPLOG_RETENTION_BATCH (take (CDB_OPLOG_RETENTION_BATCH + 1) ?old) = victims" by (simp add: victims_def)
  have more: "CDB_OPLOG_RETENTION_BATCH < length (take (CDB_OPLOG_RETENTION_BATCH + 1) ?old) \<longleftrightarrow> CDB_OPLOG_RETENTION_BATCH < length ?old"
    by auto
  have count: "int (min (length (take (CDB_OPLOG_RETENTION_BATCH + 1) ?old)) CDB_OPLOG_RETENTION_BATCH) = int (length victims)"
    by (simp add: victims_def)
  have expired_left: "(\<exists>r \<in> set ?left. ev_committed_at r \<le> ?cutoff) \<longleftrightarrow> CDB_OPLOG_RETENTION_BATCH < length ?old"
  proof
    assume "CDB_OPLOG_RETENTION_BATCH < length ?old"
    then have "?old ! CDB_OPLOG_RETENTION_BATCH \<in> set ?old - set victims"
      using nth_not_in_take [OF dist] by (simp add: victims_def)
    then show "\<exists>r \<in> set ?left. ev_committed_at r \<le> ?cutoff" using old by auto
  next
    assume "\<exists>r \<in> set ?left. ev_committed_at r \<le> ?cutoff"
    then have "set victims \<noteq> set ?old" using old by auto
    then show "CDB_OPLOG_RETENTION_BATCH < length ?old" unfolding victims_def by (metis not_le_imp_less take_all)
  qed
  have head: "oldest \<in> set ?left \<and> ev_committed_at oldest = Min (ev_committed_at ` set ?left)" if "by_age ?left = oldest # rest" for oldest rest
  proof -
    have all: "set (oldest # rest) = set ?left" using set_by_age [of ?left] that by simp
    have "\<forall>r \<in> set rest. ev_committed_at oldest \<le> ev_committed_at r" using by_age_sorted [of ?left] that by auto
    then have "Min (ev_committed_at ` set ?left) = ev_committed_at oldest" using all by (intro Min_eqI) auto
    then show ?thesis using all by auto
  qed
  have run: "maintain now ss l =
    (let l' = l\<lparr>log_rows := ?left\<rparr>; n = int (length victims) in
     if CDB_OPLOG_RETENTION_BATCH < length ?old then Inr (\<lparr> deleted = n, blockedBySplit = False, nextAt = Some (now + 1) \<rparr>, l')
     else case by_age ?left of
         [] \<Rightarrow> Inr (\<lparr> deleted = n, blockedBySplit = False, nextAt = None \<rparr>, l')
       | oldest # _ \<Rightarrow> rbind (retention_assertTimestamp (ev_committed_at oldest)) (\<lambda>_.
           Inr (\<lparr> deleted = n, blockedBySplit = False, nextAt = Some (max (now + 1) (ev_committed_at oldest + CDB_OPLOG_RETENTION_MS)) \<rparr>, l')))"
    using assms(3-5) removed unfolding maintain_def Let_def taken more count by (simp add: retention_assertTimestamp_def)
  show ?thesis
  proof (cases "CDB_OPLOG_RETENTION_BATCH < length ?old")
    case True
    then have "?left \<noteq> []" using expired_left by (cases ?left) auto
    then show ?thesis using True run expired_left by (intro exI conjI) (auto simp: Let_def)
  next
    case False
    show ?thesis
    proof (cases "by_age ?left")
      case Nil
      then have "?left = []" using length_by_age [of ?left] by simp
      then show ?thesis using run False Nil by (intro exI conjI) (auto simp: Let_def)
    next
      case (Cons oldest rest)
      note first = head [OF Cons]
      then have "?left \<noteq> []" by (cases ?left) auto
      moreover have fresh: "?cutoff < ev_committed_at oldest" using first expired_left False by (meson not_less)
      moreover have "retention_assertTimestamp (ev_committed_at oldest) = Inr ()"
        using first assms(6) by (auto simp: retention_assertTimestamp_def ensure_def)
      moreover have "max (now + 1) (ev_committed_at oldest + CDB_OPLOG_RETENTION_MS) = ev_committed_at oldest + CDB_OPLOG_RETENTION_MS"
        using fresh by simp
      ultimately show ?thesis using run False Cons first expired_left by (intro exI conjI) (auto simp: Let_def)
    qed
  qed
qed

subsection \<open>Witnesses\<close>

definition sample_sha :: "nat list \<Rightarrow> nat list" where
  "sample_sha b = [length b mod 256]"

definition sample_args :: RunWrappedMutationArgs where
  "sample_args = \<lparr> arg_principalId = ''u'', arg_mutId = ''m'', arg_canonicalRequest = ''{}'', arg_schemaEpoch = 1,
     arg_placementVshard = None, arg_nowMs = 5, arg_cookie = ''c'' \<rparr>"

definition sample_outcome :: MutationOutcome where
  "sample_outcome = Outcome_ok \<lparr> out_result = JNull, out_rowsAffected = 1, out_lastInsertRowid = None, out_returning = None,
     out_warnings = None \<rparr> None"

definition sample_run :: "nat \<Rightarrow> (MutationOutcome \<times> nat) res" where
  "sample_run n = Inr (sample_outcome, Suc n)"

lemma sample_sha_bytes: "byte_list (sample_sha b)"
  by (simp add: sample_sha_def byte_list_def)

lemma sample_first:
  "runWrappedMutation IDENTITY_CODEC sample_sha sample_args sample_run (empty_log, 0) =
     Inr (\<lparr> ran = True, envelope = mutation_envelope ''c'' sample_outcome \<rparr>,
       commit_log IDENTITY_CODEC sample_sha sample_args sample_outcome empty_log, 1)"
proof -
  have "byte_list (request_hash sample_sha sample_args)" by (simp add: request_hash_def sample_sha_bytes)
  then show ?thesis
    by (simp add: runWrappedMutation_eq logged_def empty_log_def sql_one_def placement_ok_def sample_args_def sample_run_def)
qed

theorem mutation_at_most_once_witness:
  "runWrappedMutation IDENTITY_CODEC sample_sha sample_args sample_run (commit_log IDENTITY_CODEC sample_sha sample_args sample_outcome empty_log, 1) =
     Inr (\<lparr> ran = False, envelope = mutation_envelope ''c'' sample_outcome \<rparr>,
       commit_log IDENTITY_CODEC sample_sha sample_args sample_outcome empty_log, 1)"
  using mutation_at_most_once [OF sample_sha_bytes rtranclp.rtrancl_refl sample_first _ _ rtranclp.rtrancl_refl,
      of "5 + CDB_OPLOG_RETENTION_MS" sample_args sample_run]
  by (simp add: sample_run_def sample_outcome_def outcome_ok_def safe_integer_def sample_args_def)

theorem mutation_first_run_witness:
  "runWrappedMutation IDENTITY_CODEC sample_sha sample_args (\<lambda>n :: nat. Inl TypeError) (empty_log, 0) = Inl TypeError"
  using mutation_first_run [OF sample_sha_bytes rtranclp.rtrancl_refl, where args = sample_args and run = "\<lambda>n :: nat. Inl TypeError" and db = 0]
  by (simp add: placement_ok_def sample_args_def logged_def empty_log_def sql_one_def)

theorem retention_exact_witness:
  "\<exists>res l'. maintain (5 + CDB_OPLOG_RETENTION_MS) [] (commit_log IDENTITY_CODEC sample_sha sample_args sample_outcome empty_log) = Inr (res, l') \<and>
     deleted res = 1 \<and> nextAt res = None"
proof -
  let ?l = "commit_log IDENTITY_CODEC sample_sha sample_args sample_outcome empty_log"
  have rows: "log_rows ?l = [committed_row IDENTITY_CODEC sample_sha sample_args sample_outcome 1]" "log_sequence ?l = 1"
    by (simp_all add: commit_log_def empty_log_def)
  have "oplog_inv ?l" using identity.commit_log_inv [OF oplog_inv_empty] by (simp add: logged_def empty_log_def sql_one_def)
  moreover have old: "filter (\<lambda>r. ev_committed_at r \<le> 5 + CDB_OPLOG_RETENTION_MS - CDB_OPLOG_RETENTION_MS) (log_rows ?l) = log_rows ?l"
    by (simp add: rows) (simp add: sample_args_def)
  moreover have "take CDB_OPLOG_RETENTION_BATCH (by_age (log_rows ?l)) = log_rows ?l"
    by (simp add: rows by_age_def CDB_OPLOG_RETENTION_BATCH_def)
  moreover have "safe_integer (log_sequence ?l)" "safe_integer (5 + CDB_OPLOG_RETENTION_MS)" "0 \<le> 5 + CDB_OPLOG_RETENTION_MS" "\<not> hasActiveSplit []"
    by (simp_all add: rows safe_integer_def CDB_OPLOG_RETENTION_MS_def hasActiveSplit_def sql_one_def)
  moreover have "\<forall>r \<in> set (log_rows ?l). safe_integer (ev_committed_at r) \<and> 0 \<le> ev_committed_at r"
    by (simp add: rows) (simp add: sample_args_def safe_integer_def)
  ultimately obtain res l' where res: "maintain (5 + CDB_OPLOG_RETENTION_MS) [] ?l = Inr (res, l')" "deleted res = int (length (log_rows ?l))"
      "log_rows l' = filter (\<lambda>r. r \<notin> set (log_rows ?l)) (log_rows ?l)" "nextAt res = (if log_rows l' = [] then None
      else if \<exists>r \<in> set (log_rows l'). ev_committed_at r \<le> 5 + CDB_OPLOG_RETENTION_MS - CDB_OPLOG_RETENTION_MS then Some (5 + CDB_OPLOG_RETENTION_MS + 1)
      else Some (Min (ev_committed_at ` set (log_rows l')) + CDB_OPLOG_RETENTION_MS))"
    using retention_exact [of ?l "5 + CDB_OPLOG_RETENTION_MS" "[]"] by metis
  have "log_rows l' = []" using res(3) by simp
  then show ?thesis using res(1,2,4) by (simp add: rows)
qed

end
