(* ===== verification/Json_Limits.thy ===== *)
theory Json_Limits
  imports Json
begin

text \<open>
  The size and structure limits of \<^verbatim>\<open>src/src/server/result_limits.ts\<close>: one explicit-stack walk measures the
  UTF-8 size of a value's JSON text without building it, enforces the member and nesting limits, and can copy the
  value as it goes.

  The value is a \<open>json\<close> tree, the type \<open>RawJson\<close> the callers pass. A tree has no cycles, no symbol keys, no
  accessors and no holes (the strings in it hold characters below 256), so the walk's set of ancestors and its exit frames never matter and are left out. The
  copy is filled in through the closure a frame carries; in the model a frame carries the path the closure writes.
\<close>

section \<open>Limits\<close>

definition CDB_ARGUMENT_MAX_BYTES :: int where "CDB_ARGUMENT_MAX_BYTES = 512 * 1024"
definition CDB_ARGUMENT_MAX_MEMBERS :: int where "CDB_ARGUMENT_MAX_MEMBERS = 4096"
definition CDB_ARGUMENT_MAX_DEPTH :: int where "CDB_ARGUMENT_MAX_DEPTH = 99"
definition CDB_RESULT_MAX_BYTES :: int where "CDB_RESULT_MAX_BYTES = 512 * 1024"

record json_structure =
  maxAggregateMembers :: int
  maxDepth :: int

section \<open>The walk\<close>

datatype path_step = At_index nat | At_key string

type_synonym json_path = "path_step list"

text \<open>Writing one slot of the copy: the root, an element of an owned array, a property of an owned object.\<close>

fun put :: "json_path \<Rightarrow> json \<Rightarrow> json option \<Rightarrow> json option" where
  "put [] x r = Some x"
| "put (At_index i # p) x (Some (JArr vs)) =
     (case put p x (if i < length vs then Some (vs ! i) else None) of
        None \<Rightarrow> None
      | Some y \<Rightarrow> if i < length vs then Some (JArr (vs[i := y])) else if i = length vs then Some (JArr (vs @ [y])) else None)"
| "put (At_key k # p) x (Some (JObj ps)) =
     (case put p x (map_of ps k) of None \<Rightarrow> None | Some y \<Rightarrow> Some (JObj (obj_set k y ps)))"
| "put _ x r = None"

record frame =
  fr_value :: json
  fr_depth :: int
  fr_path :: json_path

record walk =
  wk_bytes :: int
  wk_members :: int
  wk_ownedRoot :: "json option"

definition add_bytes :: "int \<Rightarrow> cdb_code \<Rightarrow> int \<Rightarrow> walk \<Rightarrow> walk res" where
  "add_bytes maxBytes code amount w =
     (let bytes = wk_bytes w + amount in
      if maxBytes < bytes then Inl (Cdb code) else Inr (w\<lparr>wk_bytes := bytes\<rparr>))"

text \<open>
  The loop of \<open>addString\<close> over the UTF-16 code units of any JavaScript string, with the surrogate pair that takes two turns' units in one. Past the
  end \<open>charCodeAt\<close> is \<open>NaN\<close>, which no comparison accepts. A string of the value tree holds one unit for each of its characters.
\<close>

type_synonym code_units = "16 word list"

fun addUnits :: "int \<Rightarrow> cdb_code \<Rightarrow> code_units \<Rightarrow> walk \<Rightarrow> walk res" where
  "addUnits maxBytes error [] w = Inr w"
| "addUnits maxBytes error (u # units) w =
     (let code = unat u in
      if code = 34 \<or> code = 92 \<or> code = 8 \<or> code = 9 \<or> code = 10 \<or> code = 12 \<or> code = 13 then
        rbind (add_bytes maxBytes error 2 w) (\<lambda>w. addUnits maxBytes error units w)
      else if code \<le> 31 then rbind (add_bytes maxBytes error 6 w) (\<lambda>w. addUnits maxBytes error units w)
      else if code \<le> 127 then rbind (add_bytes maxBytes error 1 w) (\<lambda>w. addUnits maxBytes error units w)
      else if code \<le> 2047 then rbind (add_bytes maxBytes error 2 w) (\<lambda>w. addUnits maxBytes error units w)
      else if 55296 \<le> code \<and> code \<le> 56319 then
        (case units of
           [] \<Rightarrow> rbind (add_bytes maxBytes error 6 w) (\<lambda>w. addUnits maxBytes error units w)
         | v # later \<Rightarrow>
             if 56320 \<le> unat v \<and> unat v \<le> 57343 then rbind (add_bytes maxBytes error 4 w) (\<lambda>w. addUnits maxBytes error later w)
             else rbind (add_bytes maxBytes error 6 w) (\<lambda>w. addUnits maxBytes error units w))
      else if 56320 \<le> code \<and> code \<le> 57343 then rbind (add_bytes maxBytes error 6 w) (\<lambda>w. addUnits maxBytes error units w)
      else rbind (add_bytes maxBytes error 3 w) (\<lambda>w. addUnits maxBytes error units w))"

definition addString :: "int \<Rightarrow> cdb_code \<Rightarrow> code_units \<Rightarrow> walk \<Rightarrow> walk res" where
  "addString maxBytes error units w = rbind (add_bytes maxBytes error 2 w) (\<lambda>w. addUnits maxBytes error units w)"

definition utf16 :: "string \<Rightarrow> code_units" where
  "utf16 s = map (\<lambda>c. word_of_nat (of_char c)) s"

definition assign :: "bool \<Rightarrow> json_path \<Rightarrow> json \<Rightarrow> walk \<Rightarrow> walk" where
  "assign copy p x w = (if copy then w\<lparr>wk_ownedRoot := put p x (wk_ownedRoot w)\<rparr> else w)"

definition within_depth :: "json_structure option \<Rightarrow> int \<Rightarrow> bool" where
  "within_depth structure depth = (case structure of None \<Rightarrow> True | Some st \<Rightarrow> depth \<le> maxDepth st)"

definition add_members :: "cdb_code \<Rightarrow> json_structure option \<Rightarrow> int \<Rightarrow> walk \<Rightarrow> walk res" where
  "add_members code structure n w =
     (let members = wk_members w + n in
      if (case structure of None \<Rightarrow> False | Some st \<Rightarrow> maxAggregateMembers st < members) then Inl (Cdb code)
      else Inr (w\<lparr>wk_members := members\<rparr>))"

fun add_keys :: "int \<Rightarrow> cdb_code \<Rightarrow> bool \<Rightarrow> string list \<Rightarrow> walk \<Rightarrow> walk res" where
  "add_keys maxBytes code later [] w = Inr w"
| "add_keys maxBytes code later (k # ks) w =
     rbind (if later then add_bytes maxBytes code 1 w else Inr w) (\<lambda>w.
     rbind (addString maxBytes code (utf16 k) w) (\<lambda>w.
     rbind (add_bytes maxBytes code 1 w) (\<lambda>w. add_keys maxBytes code True ks w)))"

definition element_frames :: "json_path \<Rightarrow> int \<Rightarrow> json list \<Rightarrow> frame list" where
  "element_frames p depth vs =
     map (\<lambda>(i, v). \<lparr> fr_value = v, fr_depth = depth, fr_path = p @ [At_index i] \<rparr>) (List.enumerate 0 vs)"

definition member_frames :: "json_path \<Rightarrow> int \<Rightarrow> (string \<times> json) list \<Rightarrow> frame list" where
  "member_frames p depth ps = map (\<lambda>(k, v). \<lparr> fr_value = v, fr_depth = depth, fr_path = p @ [At_key k] \<rparr>) ps"

text \<open>One turn of the loop: the popped frame, and the frames it pushes.\<close>

definition visit :: "int \<Rightarrow> cdb_code \<Rightarrow> json_structure option \<Rightarrow> bool \<Rightarrow> frame \<Rightarrow> walk \<Rightarrow> (frame list \<times> walk) res" where
  "visit maxBytes code structure copy f w =
     (let p = fr_path f; depth = fr_depth f + 1; done = (\<lambda>r. rbind r (\<lambda>w. Inr ([], assign copy p (fr_value f) w))) in
      case fr_value f of
        JNull \<Rightarrow> done (add_bytes maxBytes code 4 w)
      | JStr s \<Rightarrow> done (addString maxBytes code (utf16 s) w)
      | JNum n \<Rightarrow> done (add_bytes maxBytes code (int (length (stringify (JNum n)))) w)
      | JBool b \<Rightarrow> done (add_bytes maxBytes code (if b then 4 else 5) w)
      | JArr vs \<Rightarrow>
          rbind (ensure (within_depth structure depth) (Cdb code)) (\<lambda>_.
          rbind (add_members code structure (int (length vs)) w) (\<lambda>w.
          rbind (add_bytes maxBytes code (2 + max 0 (int (length vs) - 1)) (assign copy p (JArr []) w)) (\<lambda>w.
          Inr (element_frames p depth vs, w))))
      | JObj ps \<Rightarrow>
          rbind (ensure (within_depth structure depth) (Cdb code)) (\<lambda>_.
          rbind (add_members code structure (int (length ps)) w) (\<lambda>w.
          rbind (add_bytes maxBytes code 2 (assign copy p (JObj []) w)) (\<lambda>w.
          rbind (add_keys maxBytes code False (map fst ps) w) (\<lambda>w.
          Inr (member_frames p depth ps, w))))))"

definition frames_size :: "frame list \<Rightarrow> nat" where
  "frames_size fs = sum_list (map (\<lambda>f. Suc (size (fr_value f))) fs)"

lemma frames_size_simps [simp]:
  "frames_size [] = 0"
  "frames_size (f # fs) = Suc (size (fr_value f)) + frames_size fs"
  "frames_size (fs @ gs) = frames_size fs + frames_size gs"
  by (simp_all add: frames_size_def)

lemma element_frames_size: "frames_size (element_frames p d vs) \<le> size (JArr vs)"
proof -
  have "frames_size (map (\<lambda>(i, v). \<lparr> fr_value = v, fr_depth = d, fr_path = p @ [At_index i] \<rparr>) (List.enumerate n vs)) \<le> size_list size vs" for n
    by (induction vs arbitrary: n) auto
  then show ?thesis by (simp add: element_frames_def le_Suc_eq)
qed

lemma member_frames_size: "frames_size (member_frames p d ps) \<le> size (JObj ps)"
proof -
  have "frames_size (member_frames p d ps) \<le> size_list (size_prod (\<lambda>x. 0) size) ps"
    by (induction ps) (auto simp: member_frames_def)
  then show ?thesis by simp
qed

lemma visit_pushes_smaller:
  "visit maxBytes code structure copy f w = Inr (fs, w') \<Longrightarrow> frames_size fs \<le> size (fr_value f)"
  using element_frames_size member_frames_size
  by (auto simp: visit_def Let_def result_simps split: json.splits)

function walk_loop :: "int \<Rightarrow> cdb_code \<Rightarrow> json_structure option \<Rightarrow> bool \<Rightarrow> frame list \<Rightarrow> walk \<Rightarrow> walk res" where
  "walk_loop maxBytes code structure copy [] w = Inr w"
| "walk_loop maxBytes code structure copy (f # stack) w =
     rbind (visit maxBytes code structure copy f w) (\<lambda>(pushed, w').
     walk_loop maxBytes code structure copy (pushed @ stack) w')"
  by pat_completeness auto

termination
  by (relation "measure (\<lambda>(_, _, _, _, fs, _). frames_size fs)") (auto dest: visit_pushes_smaller)

definition inspectCdbJsonByteLimit ::
    "json \<Rightarrow> int \<Rightarrow> cdb_code \<Rightarrow> json_structure option \<Rightarrow> bool \<Rightarrow> json option res" where
  "inspectCdbJsonByteLimit v maxBytes code structure copy =
     rbind (walk_loop maxBytes code structure copy [\<lparr> fr_value = v, fr_depth = 0, fr_path = [] \<rparr>]
       \<lparr> wk_bytes = 0, wk_members = 0, wk_ownedRoot = None \<rparr>) (\<lambda>w. Inr (wk_ownedRoot w))"

section \<open>Entry points\<close>

definition assertCdbJsonByteLimit :: "json \<Rightarrow> int \<Rightarrow> cdb_code \<Rightarrow> json_structure option \<Rightarrow> unit res" where
  "assertCdbJsonByteLimit v maxBytes code structure =
     rbind (inspectCdbJsonByteLimit v maxBytes code structure False) (\<lambda>_. Inr ())"

definition snapshotCdbJsonByteLimit :: "json \<Rightarrow> int \<Rightarrow> cdb_code \<Rightarrow> json_structure option \<Rightarrow> json option res" where
  "snapshotCdbJsonByteLimit v maxBytes code structure = inspectCdbJsonByteLimit v maxBytes code structure True"

definition assertCdbResultByteLimit :: "json \<Rightarrow> unit res" where
  "assertCdbResultByteLimit v = assertCdbJsonByteLimit v CDB_RESULT_MAX_BYTES CDB_INVARIANT None"

definition snapshotCdbResultByteLimit :: "json \<Rightarrow> json option res" where
  "snapshotCdbResultByteLimit v = snapshotCdbJsonByteLimit v CDB_RESULT_MAX_BYTES CDB_INVARIANT None"

definition argument_structure :: json_structure where
  "argument_structure = \<lparr> maxAggregateMembers = CDB_ARGUMENT_MAX_MEMBERS, maxDepth = CDB_ARGUMENT_MAX_DEPTH \<rparr>"

definition assertCdbMutationArgsByteLimit :: "json \<Rightarrow> unit res" where
  "assertCdbMutationArgsByteLimit v = assertCdbJsonByteLimit v CDB_ARGUMENT_MAX_BYTES CDB_INVALID_ARGS (Some argument_structure)"

definition snapshotCdbMutationArgs :: "json \<Rightarrow> json option res" where
  "snapshotCdbMutationArgs v = snapshotCdbJsonByteLimit v CDB_ARGUMENT_MAX_BYTES CDB_INVALID_ARGS (Some argument_structure)"

definition assertCdbQueryArgsByteLimit :: "json \<Rightarrow> unit res" where
  "assertCdbQueryArgsByteLimit v = assertCdbJsonByteLimit v CDB_ARGUMENT_MAX_BYTES CDB_INVALID_ARGS (Some argument_structure)"

definition snapshotCdbQueryArgs :: "json \<Rightarrow> json option res" where
  "snapshotCdbQueryArgs v = snapshotCdbJsonByteLimit v CDB_ARGUMENT_MAX_BYTES CDB_INVALID_ARGS (Some argument_structure)"

section \<open>What the walk measures\<close>

definition json_bytes :: "json \<Rightarrow> int" where
  "json_bytes v = int (length (utf8 (stringify v)))"

fun json_members :: "json \<Rightarrow> int" where
  "json_members (JArr vs) = int (length vs) + sum_list (map json_members vs)"
| "json_members (JObj ps) = int (length ps) + sum_list (map (\<lambda>(k, v). json_members v) ps)"
| "json_members _ = 0"

fun json_depth :: "json \<Rightarrow> int" where
  "json_depth (JArr vs) = 1 + foldr max (map json_depth vs) 0"
| "json_depth (JObj ps) = 1 + foldr max (map (\<lambda>(k, v). json_depth v) ps) 0"
| "json_depth _ = 0"

text \<open>
  The text \<open>JSON.stringify\<close> gives for any JavaScript string, as code points: a pair of surrogates is one code point, a lone surrogate and a
  control character are escaped (ECMAScript's \<open>QuoteJSONString\<close>); and the bytes of a code point in UTF-8.
\<close>

fun code_points :: "code_units \<Rightarrow> nat list" where
  "code_points [] = []"
| "code_points [u] = [unat u]"
| "code_points (u # v # us) =
     (if 55296 \<le> unat u \<and> unat u \<le> 56319 \<and> 56320 \<le> unat v \<and> unat v \<le> 57343
      then (65536 + (unat u - 55296) * 1024 + (unat v - 56320)) # code_points us else unat u # code_points (v # us))"

definition hex_point :: "nat \<Rightarrow> nat" where
  "hex_point n = of_char (hex_char_of (n mod 16))"

definition quote_point :: "nat \<Rightarrow> nat list" where
  "quote_point n =
     (if n = 34 \<or> n = 92 then [92, n] else if n = 8 then [92, 98] else if n = 9 then [92, 116] else if n = 10 then [92, 110]
      else if n = 12 then [92, 102] else if n = 13 then [92, 114]
      else if n < 32 \<or> 55296 \<le> n \<and> n \<le> 57343
      then [92, 117, hex_point (n div 4096), hex_point (n div 256), hex_point (n div 16), hex_point n] else [n])"

definition utf8_point :: "nat \<Rightarrow> nat list" where
  "utf8_point n =
     (if n < 128 then [n] else if n < 2048 then [192 + n div 64, 128 + n mod 64]
      else if n < 65536 then [224 + n div 4096, 128 + n div 64 mod 64, 128 + n mod 64]
      else [240 + n div 262144, 128 + n div 4096 mod 64, 128 + n div 64 mod 64, 128 + n mod 64])"

definition quoted_units :: "code_units \<Rightarrow> nat list" where
  "quoted_units us = 34 # concat (map quote_point (code_points us)) @ [34]"

definition utf8_points :: "nat list \<Rightarrow> nat list" where
  "utf8_points ps = concat (map utf8_point ps)"

text \<open>The bytes of a character below 256.\<close>

definition char_bytes :: "char \<Rightarrow> int" where
  "char_bytes c = (let code = (of_char c :: nat) in
     if code \<in> {34, 92, 8, 9, 10, 12, 13} then 2 else if code \<le> 31 then 6 else if code \<le> 127 then 1 else 2)"

definition string_bytes :: "string \<Rightarrow> int" where
  "string_bytes s = 2 + sum_list (map char_bytes s)"

definition keys_bytes :: "string list \<Rightarrow> int" where
  "keys_bytes ks = sum_list (map (\<lambda>k. string_bytes k + 1) ks)"

definition commas :: "'a list \<Rightarrow> int" where
  "commas xs = max 0 (int (length xs) - 1)"

lemma utf8_append [simp]: "utf8 (xs @ ys) = utf8 xs @ utf8 ys"
  by (simp add: utf8_def)

lemma utf8_Cons: "utf8 (c # cs) = utf8_char c @ utf8 cs"
  by (simp add: utf8_def)

lemma utf8_ascii: "(\<forall>c \<in> set s. (of_char c :: nat) < 128) \<Longrightarrow> length (utf8 s) = length s"
  by (induction s) (auto simp: utf8_def utf8_char_def Let_def)

lemma hex_char_ascii: "n < 16 \<Longrightarrow> (of_char (hex_char_of n) :: nat) < 128"
proof -
  have "list_all (\<lambda>n. (of_char (hex_char_of n) :: nat) < 128) [0..<16]"
    by (simp add: upt_rec hex_char_of_def)
  then show "n < 16 \<Longrightarrow> ?thesis" by (auto simp: list_all_iff)
qed

lemma escape_bytes: "int (length (utf8 (escape_char c))) = char_bytes c"
proof -
  let ?n = "of_char c :: nat"
  have "?n < 256" by simp
  consider "?n \<in> {34, 92, 8, 9, 10, 12, 13}" | "?n < 32" "?n \<notin> {8, 9, 10, 12, 13}" | "32 \<le> ?n" "?n \<notin> {34, 92}" by fastforce
  then show ?thesis
  proof cases
    case 1
    then show ?thesis by (elim insertE) (simp_all add: escape_char_def char_bytes_def utf8_def utf8_char_def Let_def)
  next
    case 2
    have "length (utf8 (escape_char c)) = 6"
      using 2 hex_char_ascii [of "?n div 16"] hex_char_ascii [of "?n mod 16"]
      by (subst utf8_ascii) (auto simp: escape_char_def Let_def)
    then show ?thesis using 2 by (auto simp: char_bytes_def)
  next
    case 3
    moreover have "?n \<le> 2047" using \<open>?n < 256\<close> by linarith
    ultimately show ?thesis by (auto simp: escape_char_def char_bytes_def utf8_def utf8_char_def Let_def)
  qed
qed

lemma quote_bytes: "int (length (utf8 (quote s))) = string_bytes s"
proof -
  have "int (length (utf8 (concat (map escape_char s)))) = sum_list (map char_bytes s)"
    by (induction s) (auto simp: escape_bytes utf8_def [of "[]"])
  then show ?thesis by (simp add: quote_def string_bytes_def utf8_Cons utf8_char_def utf8_def [of "[]"])
qed

lemma json_bytes_simps [simp]:
  "json_bytes JNull = 4" "json_bytes (JBool b) = (if b then 4 else 5)" "json_bytes (JStr s) = string_bytes s"
  by (simp_all add: json_bytes_def quote_bytes) (simp_all add: utf8_def utf8_char_def)

lemma decimal_ascii: "c \<in> set (decimal n) \<Longrightarrow> (of_char c :: nat) < 128"
  using decimal_nat_digits [of "nat n"] decimal_nat_digits [of "nat (- n)"]
  by (fastforce simp: decimal_def is_digit_def split: if_splits)

lemma json_bytes_num [simp]: "json_bytes (JNum n) = int (length (decimal n))"
  using decimal_ascii by (simp add: json_bytes_def utf8_ascii)

lemma elements_bytes: "int (length (utf8 (stringify_elements vs))) = commas vs + sum_list (map json_bytes vs)"
  by (induction vs) (auto simp: json_bytes_def commas_def utf8_def [of "[]"] utf8_Cons utf8_char_def)

lemma members_bytes:
  "int (length (utf8 (stringify_members ps))) = commas ps + keys_bytes (map fst ps) + sum_list (map (\<lambda>(k, v). json_bytes v) ps)"
proof (induction ps)
  case Nil
  then show ?case by (simp add: commas_def keys_bytes_def utf8_def)
next
  case (Cons kv ps)
  then show ?case using quote_bytes [of "fst kv"]
    by (cases kv) (auto simp: json_bytes_def commas_def keys_bytes_def utf8_Cons utf8_char_def utf8_def [of "[]"])
qed

lemma json_bytes_arr: "json_bytes (JArr vs) = 2 + commas vs + sum_list (map json_bytes vs)"
  using elements_bytes [of vs] by (simp add: json_bytes_def utf8_Cons utf8_char_def utf8_def [of "[]"])

lemma json_bytes_obj:
  "json_bytes (JObj ps) = 2 + commas ps + keys_bytes (map fst ps) + sum_list (map (\<lambda>(k, v). json_bytes v) ps)"
  using members_bytes [of ps] by (simp add: json_bytes_def utf8_Cons utf8_char_def utf8_def [of "[]"])

section \<open>The copy\<close>

lemma obj_set_lookup: "map_of (obj_set k y ps) k = Some y"
proof (cases "k \<in> fst ` set ps")
  case True
  then show ?thesis by (induction ps) (auto simp: obj_set_def)
next
  case False
  have "map_of (insert_index n (k, y) ps) k = Some y" for n
    using False by (induction n "(k, y)" ps rule: insert_index.induct) (auto split: option.splits)
  moreover have "map_of ps k = None" using False by (simp add: map_of_eq_None_iff)
  ultimately show ?thesis using False by (auto simp: obj_set_def map_add_def split: option.splits)
qed

lemma obj_set_keys: "k \<in> fst ` set (obj_set k y ps)"
  using obj_set_lookup [of k y ps] by (force dest: map_of_SomeD)

lemma obj_set_twice: "obj_set k z (obj_set k y ps) = obj_set k z ps"
proof (cases "k \<in> fst ` set ps")
  case True
  then show ?thesis using obj_set_keys [of k y ps] by (auto simp: obj_set_def)
next
  case False
  have same: "map (\<lambda>(k', v'). (k', if k' = k then z else v')) qs = qs" if "k \<notin> fst ` set qs" for qs
    using that by (intro map_idI) (auto simp: image_iff)
  have ins: "map (\<lambda>(k', v'). (k', if k' = k then z else v')) (insert_index n (k, y) ps) = insert_index n (k, z) ps" for n
    using False by (induction n "(k, y)" ps rule: insert_index.induct) (auto simp: same split: option.splits)
  show ?thesis using False obj_set_keys [of k y ps] ins same [OF False] by (auto simp: obj_set_def split: option.splits)
qed

lemma put_None_iff: "put p x r = None \<Longrightarrow> put p y r = None"
  by (induction p x r arbitrary: y rule: put.induct) (auto split: option.splits if_splits)

lemma put_append:
  "put (p @ q) x (put p y r) = (case put q x (Some y) of None \<Rightarrow> None | Some z \<Rightarrow> put p z r)"
proof (induction p y r rule: put.induct)
  case (1 y r)
  then show ?case by (cases "put q x (Some y)") auto
next
  case (2 i p y vs)
  let ?slot = "if i < length vs then Some (vs ! i) else None"
  show ?case
  proof (cases "put p y ?slot")
    case None
    then have "put p z ?slot = None" for z by (rule put_None_iff)
    then show ?thesis using None by (auto split: option.splits)
  next
    case (Some y')
    then show ?thesis using 2 by (auto split: option.splits)
  qed
next
  case (3 k p y ps)
  show ?case
  proof (cases "put p y (map_of ps k)")
    case None
    then have "put p z (map_of ps k) = None" for z by (rule put_None_iff)
    then show ?thesis using None by (auto split: option.splits)
  next
    case (Some y')
    then show ?thesis using 3 by (auto simp: obj_set_lookup obj_set_twice split: option.splits)
  qed
qed (auto split: option.splits)

definition put_frame :: "frame \<Rightarrow> json option \<Rightarrow> json option" where
  "put_frame f = put (fr_path f) (fr_value f)"

lemma put_elements_from:
  "fold put_frame (map (\<lambda>(i, v). \<lparr> fr_value = v, fr_depth = d, fr_path = p @ [At_index i] \<rparr>) (List.enumerate (length us) vs))
     (put p (JArr us) r) = put p (JArr (us @ vs)) r"
proof (induction vs arbitrary: us)
  case Nil
  then show ?case by simp
next
  case (Cons v vs)
  have "put (p @ [At_index (length us)]) v (put p (JArr us) r) = put p (JArr (us @ [v])) r"
    by (simp add: put_append)
  then show ?case using Cons.IH [of "us @ [v]"] by (simp add: put_frame_def)
qed

lemma put_elements: "fold put_frame (element_frames p d vs) (put p (JArr []) r) = put p (JArr vs) r"
  using put_elements_from [of d p "[]" vs r] by (simp add: element_frames_def)

lemma put_members:
  "fold put_frame (member_frames p d ps) (put p (JObj qs) r) = put p (JObj (fold (\<lambda>(k, v). obj_set k v) ps qs)) r"
proof (induction ps arbitrary: qs)
  case Nil
  then show ?case by (simp add: member_frames_def)
next
  case (Cons kv ps)
  have "put (p @ [At_key (fst kv)]) (snd kv) (put p (JObj qs) r) = put p (JObj (obj_set (fst kv) (snd kv) qs)) r"
    by (simp add: put_append)
  then show ?case using Cons.IH [of "obj_set (fst kv) (snd kv) qs"]
    by (simp add: member_frames_def put_frame_def case_prod_beta)
qed

section \<open>The loop\<close>

lemma add_bytes_eq:
  "add_bytes m e a w = (if wk_bytes w + a \<le> m then Inr (w\<lparr>wk_bytes := wk_bytes w + a\<rparr>) else Inl (Cdb e))"
  by (simp add: add_bytes_def Let_def not_le)

lemma char_bytes_pos: "0 \<le> char_bytes c"
  by (simp add: char_bytes_def Let_def)

lemma sum_list_nonneg_map: "(\<And>x. x \<in> set xs \<Longrightarrow> 0 \<le> f x) \<Longrightarrow> 0 \<le> sum_list (map f xs)" for f :: "'a \<Rightarrow> int"
  by (induction xs) auto

lemma string_bytes_pos: "0 \<le> string_bytes s"
  using sum_list_nonneg_map [of s char_bytes] char_bytes_pos by (simp add: string_bytes_def)

lemma keys_bytes_pos: "0 \<le> keys_bytes ks"
  unfolding keys_bytes_def by (rule sum_list_nonneg_map) (simp add: string_bytes_pos)

lemma json_bytes_pos: "0 \<le> json_bytes v"
  by (simp add: json_bytes_def)

lemma json_members_pos: "0 \<le> json_members v"
  by (induction v) (auto intro!: add_nonneg_nonneg sum_list_nonneg_map)

text \<open>What the loop over the code units adds.\<close>

definition units_bytes :: "code_units \<Rightarrow> int" where
  "units_bytes us = int (length (utf8_points (concat (map quote_point (code_points us)))))"

definition point_bytes :: "nat \<Rightarrow> int" where
  "point_bytes n = int (length (utf8_points (quote_point n)))"

lemma utf8_points_append [simp]: "utf8_points (ps @ qs) = utf8_points ps @ utf8_points qs"
  by (simp add: utf8_points_def)

lemma hex_point_ascii: "hex_point n < 128"
  using hex_char_ascii [of "n mod 16"] by (simp add: hex_point_def)

lemma point_bytes_eq:
  "point_bytes n =
    (if n \<in> {34, 92, 8, 9, 10, 12, 13} then 2 else if n \<le> 31 then 6 else if n \<le> 127 then 1 else if n \<le> 2047 then 2
     else if 55296 \<le> n \<and> n \<le> 57343 then 6 else if n \<le> 65535 then 3 else 4)"
  using hex_point_ascii by (auto simp: point_bytes_def quote_point_def utf8_points_def utf8_point_def)

lemma units_bytes_simps:
  "units_bytes [] = 0"
  "units_bytes [u] = point_bytes (unat u)"
  "units_bytes (u # v # us) =
    (if 55296 \<le> unat u \<and> unat u \<le> 56319 \<and> 56320 \<le> unat v \<and> unat v \<le> 57343 then 4 + units_bytes us
     else point_bytes (unat u) + units_bytes (v # us))"
proof -
  have "point_bytes (65536 + n) = 4" for n by (simp add: point_bytes_eq)
  from this [of "(unat u - 55296) * 1024 + (unat v - 56320)"]
  show "units_bytes (u # v # us) =
    (if 55296 \<le> unat u \<and> unat u \<le> 56319 \<and> 56320 \<le> unat v \<and> unat v \<le> 57343 then 4 + units_bytes us
     else point_bytes (unat u) + units_bytes (v # us))"
    by (auto simp: units_bytes_def point_bytes_def add.assoc)
qed (simp_all add: units_bytes_def point_bytes_def utf8_points_def)

lemma units_bytes_pos: "0 \<le> units_bytes us"
  by (simp add: units_bytes_def)

lemma units_bytes_unpaired:
  assumes "\<not> (55296 \<le> unat u \<and> unat u \<le> 56319)"
  shows "units_bytes (u # us) = point_bytes (unat u) + units_bytes us"
  using assms by (cases us) (auto simp: units_bytes_simps)

lemma add_then:
  assumes "\<And>w. wk_bytes w \<le> m \<Longrightarrow> f w = (if wk_bytes w + k \<le> m then Inr (w\<lparr>wk_bytes := wk_bytes w + k\<rparr>) else Inl (Cdb e))" and "0 \<le> k"
  shows "rbind (add_bytes m e n w) f = (if wk_bytes w + (n + k) \<le> m then Inr (w\<lparr>wk_bytes := wk_bytes w + (n + k)\<rparr>) else Inl (Cdb e))"
  using assms by (auto simp: add_bytes_eq add.assoc)

lemmas addUnits_turn = addUnits.simps(2)

declare addUnits.simps(2) [simp del]

lemma addUnits_unpaired:
  assumes "\<not> (55296 \<le> unat u \<and> unat u \<le> 56319 \<and> (\<exists>v vs. us = v # vs \<and> 56320 \<le> unat v \<and> unat v \<le> 57343))"
  shows "addUnits m e (u # us) w = rbind (add_bytes m e (point_bytes (unat u)) w) (\<lambda>w. addUnits m e us w)"
proof -
  have "unat u < 65536" using unsigned_less [of u, where ?'a = nat] by simp
  then consider "unat u \<in> {34, 92, 8, 9, 10, 12, 13}" | "unat u \<notin> {34, 92, 8, 9, 10, 12, 13}" "unat u \<le> 31"
    | "unat u \<notin> {34, 92, 8, 9, 10, 12, 13}" "31 < unat u" "unat u \<le> 127" | "127 < unat u" "unat u \<le> 2047"
    | "55296 \<le> unat u" "unat u \<le> 56319" | "56320 \<le> unat u" "unat u \<le> 57343"
    | "2047 < unat u" "unat u < 55296" | "57343 < unat u" "unat u \<le> 65535" by linarith
  then show ?thesis
  proof cases
    case 5
    then have "point_bytes (unat u) = 6" by (simp add: point_bytes_eq)
    then show ?thesis using 5 assms by (subst addUnits_turn) (auto simp: Let_def split: list.splits)
  qed (subst addUnits_turn, simp add: point_bytes_eq Let_def)+
qed

lemma addUnits_eq:
  assumes "wk_bytes w \<le> m"
  shows "addUnits m e us w = (if wk_bytes w + units_bytes us \<le> m then Inr (w\<lparr>wk_bytes := wk_bytes w + units_bytes us\<rparr>) else Inl (Cdb e))"
  using assms
proof (induction us arbitrary: w rule: code_points.induct)
  case 1
  then show ?case by (simp add: units_bytes_simps)
next
  case (2 u)
  have "addUnits m e [u] w = rbind (add_bytes m e (point_bytes (unat u)) w) (\<lambda>w. addUnits m e [] w)" by (rule addUnits_unpaired) simp
  then show ?case by (simp add: units_bytes_simps add_bytes_eq)
next
  case (3 u v us)
  show ?case
  proof (cases "55296 \<le> unat u \<and> unat u \<le> 56319 \<and> 56320 \<le> unat v \<and> unat v \<le> 57343")
    case True
    then have "addUnits m e (u # v # us) w = rbind (add_bytes m e 4 w) (\<lambda>w. addUnits m e us w)" by (subst addUnits_turn) (simp add: Let_def)
    also have "\<dots> = (if wk_bytes w + (4 + units_bytes us) \<le> m then Inr (w\<lparr>wk_bytes := wk_bytes w + (4 + units_bytes us)\<rparr>) else Inl (Cdb e))"
      by (rule add_then) (use 3(1) [OF True] units_bytes_pos in auto)
    finally show ?thesis using True by (simp add: units_bytes_simps)
  next
    case False
    have "addUnits m e (u # v # us) w = rbind (add_bytes m e (point_bytes (unat u)) w) (\<lambda>w. addUnits m e (v # us) w)"
      by (rule addUnits_unpaired) (use False in auto)
    also have "\<dots> = (if wk_bytes w + (point_bytes (unat u) + units_bytes (v # us)) \<le> m
        then Inr (w\<lparr>wk_bytes := wk_bytes w + (point_bytes (unat u) + units_bytes (v # us))\<rparr>) else Inl (Cdb e))"
      by (rule add_then) (use 3(2) [OF False] units_bytes_pos in auto)
    moreover have "units_bytes (u # v # us) = point_bytes (unat u) + units_bytes (v # us)" unfolding units_bytes_simps(3) if_not_P [OF False] ..
    ultimately show ?thesis by simp
  qed
qed

lemma quoted_bytes: "int (length (utf8_points (quoted_units us))) = 2 + units_bytes us"
  by (simp add: quoted_units_def units_bytes_def utf8_points_def utf8_point_def)

lemma addString_units:
  "addString m e us w =
    (if wk_bytes w + int (length (utf8_points (quoted_units us))) \<le> m
     then Inr (w\<lparr>wk_bytes := wk_bytes w + int (length (utf8_points (quoted_units us)))\<rparr>) else Inl (Cdb e))"
  unfolding addString_def quoted_bytes by (rule add_then [OF addUnits_eq units_bytes_pos])

text \<open>On the strings of the value tree this is the text and the encoding of the model.\<close>

lemma char_small: "256 \<le> k \<Longrightarrow> (of_char c :: nat) < k" "256 \<le> k \<Longrightarrow> \<not> k \<le> (of_char c :: nat)"
proof -
  have "(of_char c :: nat) < 256" by simp
  then show "256 \<le> k \<Longrightarrow> (of_char c :: nat) < k" "256 \<le> k \<Longrightarrow> \<not> k \<le> (of_char c :: nat)" by linarith+
qed

lemma points_of_chars: "code_points (utf16 s) = map of_char s"
proof -
  have small: "unat (word_of_nat (of_char c) :: 16 word) = (of_char c :: nat)" for c
  proof -
    have "(of_char c :: nat) < 65536" by (rule less_trans [of _ 256]) simp_all
    then show ?thesis by (simp add: unat_of_nat)
  qed
  show ?thesis
  proof (induction "utf16 s" arbitrary: s rule: code_points.induct)
    case 1
    then show ?case by (simp add: utf16_def)
  next
    case (2 u)
    then obtain c where "s = [c]" by (auto simp: utf16_def)
    then show ?case by (simp add: utf16_def small)
  next
    case (3 u v us)
    obtain c t where s: "s = c # t" "u = word_of_nat (of_char c)" "v # us = utf16 t" using 3(3) by (cases s) (auto simp: utf16_def)
    have "unat u = of_char c" using s(2) small by simp
    moreover from this have "\<not> 55296 \<le> unat u" by (simp add: char_small)
    moreover have "utf16 s = u # v # us" using 3(3) by simp
    moreover have "code_points (v # us) = map of_char t" using 3(2) [of t] \<open>\<not> 55296 \<le> unat u\<close> s(3) by simp
    ultimately show ?case using s(1) by simp
  qed
qed

lemma quote_point_char: "quote_point (of_char c) = map of_char (escape_char c)"
  by (simp add: quote_point_def escape_char_def hex_point_def hex_char_of_def Let_def char_small)

lemma utf8_points_chars: "utf8_points (map of_char s) = utf8 s"
proof (induction s)
  case (Cons c s)
  have "utf8_point (of_char c) = utf8_char c" by (simp add: utf8_point_def utf8_char_def Let_def char_small)
  then show ?case using Cons by (simp add: utf8_points_def utf8_Cons)
qed (simp add: utf8_points_def utf8_def)

lemma quoted_chars: "utf8_points (quoted_units (utf16 s)) = utf8 (quote s)"
proof -
  have "concat (map quote_point (map of_char s)) = map of_char (concat (map escape_char s))"
    by (induction s) (simp_all add: quote_point_char)
  then have "quoted_units (utf16 s) = map of_char (quote s)" by (simp add: quoted_units_def points_of_chars quote_def)
  then show ?thesis by (simp only: utf8_points_chars)
qed

lemma addString_eq:
  "addString m e (utf16 s) w = (if wk_bytes w + string_bytes s \<le> m then Inr (w\<lparr>wk_bytes := wk_bytes w + string_bytes s\<rparr>) else Inl (Cdb e))"
  unfolding addString_units quoted_chars quote_bytes ..

lemma add_keys_eq:
  assumes "wk_bytes w \<le> m"
  shows "add_keys m e later ks w =
    (let n = wk_bytes w + keys_bytes ks + (if later then int (length ks) else commas ks) in
     if n \<le> m then Inr (w\<lparr>wk_bytes := n\<rparr>) else Inl (Cdb e))"
  using assms
proof (induction m e later ks w rule: add_keys.induct)
  case (1 m e later w)
  then show ?case by (simp add: keys_bytes_def commas_def)
next
  case (2 m e later k ks w)
  have pos: "0 \<le> keys_bytes ks" "0 \<le> string_bytes k" by (simp_all add: keys_bytes_pos string_bytes_pos)
  have step: "keys_bytes (k # ks) = string_bytes k + 1 + keys_bytes ks" "commas (k # ks) = int (length ks)"
    by (simp_all add: keys_bytes_def commas_def)
  define b where "b = wk_bytes w + (if later then 1 else 0)"
  have start: "(if later then add_bytes m e 1 w else Inr w) = (if b \<le> m then Inr (w\<lparr>wk_bytes := b\<rparr>) else Inl (Cdb e))"
    using 2(2) by (auto simp: b_def add_bytes_eq)
  show ?case
  proof (cases "b + string_bytes k + 1 \<le> m")
    case True
    let ?w = "w\<lparr>wk_bytes := b + string_bytes k + 1\<rparr>"
    have "add_keys m e later (k # ks) w = add_keys m e True ks ?w"
      using True start pos by (auto simp: addString_eq add_bytes_eq)
    moreover have "add_keys m e True ks ?w =
        (let n = wk_bytes ?w + keys_bytes ks + int (length ks) in if n \<le> m then Inr (?w\<lparr>wk_bytes := n\<rparr>) else Inl (Cdb e))"
      using 2(1) [of "w\<lparr>wk_bytes := b\<rparr>" "w\<lparr>wk_bytes := b + string_bytes k\<rparr>" ?w] True start pos
      by (auto simp: addString_eq add_bytes_eq)
    ultimately show ?thesis by (simp add: step b_def Let_def add_ac)
  next
    case False
    have "add_keys m e later (k # ks) w = Inl (Cdb e)"
      using False start pos by (auto simp: addString_eq add_bytes_eq)
    then show ?thesis using False pos by (auto simp: step b_def Let_def)
  qed
qed

text \<open>What one node costs, without its children.\<close>

fun node_bytes :: "json \<Rightarrow> int" where
  "node_bytes (JArr vs) = 2 + commas vs"
| "node_bytes (JObj ps) = 2 + commas ps + keys_bytes (map fst ps)"
| "node_bytes v = json_bytes v"

fun node_members :: "json \<Rightarrow> int" where
  "node_members (JArr vs) = int (length vs)"
| "node_members (JObj ps) = int (length ps)"
| "node_members v = 0"

fun shell :: "json \<Rightarrow> json" where
  "shell (JArr vs) = JArr []"
| "shell (JObj ps) = JObj []"
| "shell v = v"

fun is_container :: "json \<Rightarrow> bool" where
  "is_container (JArr vs) = True"
| "is_container (JObj ps) = True"
| "is_container v = False"

fun children :: "json_path \<Rightarrow> int \<Rightarrow> json \<Rightarrow> frame list" where
  "children p d (JArr vs) = element_frames p d vs"
| "children p d (JObj ps) = member_frames p d ps"
| "children p d v = []"

definition members_within :: "json_structure option \<Rightarrow> int \<Rightarrow> bool" where
  "members_within structure n = (case structure of None \<Rightarrow> True | Some st \<Rightarrow> n \<le> maxAggregateMembers st)"

lemma add_members_eq:
  "add_members e st n w =
     (if members_within st (wk_members w + n) then Inr (w\<lparr>wk_members := wk_members w + n\<rparr>) else Inl (Cdb e))"
  by (auto simp: add_members_def members_within_def Let_def split: option.splits)

definition charged :: "bool \<Rightarrow> frame \<Rightarrow> walk \<Rightarrow> walk" where
  "charged copy f w = \<lparr> wk_bytes = wk_bytes w + node_bytes (fr_value f), wk_members = wk_members w + node_members (fr_value f),
     wk_ownedRoot = (if copy then put (fr_path f) (shell (fr_value f)) (wk_ownedRoot w) else wk_ownedRoot w) \<rparr>"

lemma visit_eq:
  assumes "wk_bytes w \<le> m" and "members_within st (wk_members w)"
  shows "visit m e st copy f w =
    (if wk_bytes w + node_bytes (fr_value f) \<le> m \<and> members_within st (wk_members w + node_members (fr_value f)) \<and>
        (is_container (fr_value f) \<longrightarrow> within_depth st (fr_depth f + 1))
     then Inr (children (fr_path f) (fr_depth f + 1) (fr_value f), charged copy f w) else Inl (Cdb e))"
proof (cases "fr_value f")
  case (JObj ps)
  have pos: "0 \<le> keys_bytes (map fst ps)" "0 \<le> commas ps" by (simp_all add: keys_bytes_pos commas_def)
  have same: "commas (map fst ps) = commas ps" by (simp add: commas_def)
  show ?thesis using JObj assms pos
    by (cases w) (auto simp: visit_def Let_def add_members_eq add_bytes_eq add_keys_eq assign_def charged_def same ensure_def)
next
  case (JArr vs)
  then show ?thesis using assms
    by (cases w) (auto simp: visit_def Let_def add_members_eq add_bytes_eq assign_def charged_def commas_def ensure_def)
next
  case (JStr str)
  then show ?thesis using assms by (cases w) (auto simp: visit_def Let_def addString_eq assign_def charged_def)
qed (use assms in \<open>cases w; auto simp: visit_def Let_def add_bytes_eq assign_def charged_def\<close>)+

definition frames_bytes :: "frame list \<Rightarrow> int" where
  "frames_bytes fs = sum_list (map (\<lambda>f. json_bytes (fr_value f)) fs)"

definition frames_members :: "frame list \<Rightarrow> int" where
  "frames_members fs = sum_list (map (\<lambda>f. json_members (fr_value f)) fs)"

definition depth_ok :: "json_structure option \<Rightarrow> frame \<Rightarrow> bool" where
  "depth_ok st f \<longleftrightarrow> (is_container (fr_value f) \<longrightarrow> within_depth st (fr_depth f + json_depth (fr_value f)))"

lemma frames_sums:
  "frames_bytes [] = 0" "frames_bytes (f # fs) = json_bytes (fr_value f) + frames_bytes fs"
  "frames_bytes (fs @ gs) = frames_bytes fs + frames_bytes gs"
  "frames_members [] = 0" "frames_members (f # fs) = json_members (fr_value f) + frames_members fs"
  "frames_members (fs @ gs) = frames_members fs + frames_members gs"
  by (simp_all add: frames_bytes_def frames_members_def)

lemma frames_pos: "0 \<le> frames_bytes fs" "0 \<le> frames_members fs"
  by (simp_all add: frames_bytes_def frames_members_def sum_list_nonneg_map json_bytes_pos json_members_pos)

lemma element_values: "map fr_value (element_frames p d vs) = vs"
  by (simp add: element_frames_def comp_def case_prod_beta')

lemma member_values: "map fr_value (member_frames p d ps) = map snd ps"
  by (simp add: member_frames_def comp_def case_prod_beta')

lemma children_depth: "g \<in> set (children p d v) \<Longrightarrow> fr_depth g = d"
  by (cases v) (auto simp: element_frames_def member_frames_def)

lemma children_values:
  "map fr_value (children p d v) = (case v of JArr vs \<Rightarrow> vs | JObj ps \<Rightarrow> map snd ps | _ \<Rightarrow> [])"
  by (cases v) (simp_all add: element_values member_values)

lemma children_sums:
  "json_bytes v = node_bytes v + frames_bytes (children p d v)"
  "json_members v = node_members v + frames_members (children p d v)"
proof -
  have b: "frames_bytes fs = sum_list (map json_bytes (map fr_value fs))" and m: "frames_members fs = sum_list (map json_members (map fr_value fs))" for fs
    by (simp_all add: frames_bytes_def frames_members_def comp_def)
  show "json_bytes v = node_bytes v + frames_bytes (children p d v)"
    unfolding b children_values by (cases v) (simp_all add: json_bytes_arr json_bytes_obj comp_def case_prod_beta')
  show "json_members v = node_members v + frames_members (children p d v)"
    unfolding m children_values by (cases v) (simp_all add: comp_def case_prod_beta')
qed

lemma foldr_max_le: "foldr max xs 0 \<le> m \<longleftrightarrow> 0 \<le> m \<and> (\<forall>x \<in> set xs. x \<le> m)" for m :: int
  by (induction xs) auto

lemma json_depth_pos: "0 \<le> json_depth v" "is_container v \<or> json_depth v = 0"
proof -
  have "0 \<le> foldr max xs 0" for xs :: "int list" by (induction xs) auto
  then show "0 \<le> json_depth v" by (cases v) (simp_all add: add_nonneg_nonneg)
  show "is_container v \<or> json_depth v = 0" by (cases v) simp_all
qed

lemma json_depth_le:
  "is_container v \<Longrightarrow> json_depth v \<le> m \<longleftrightarrow> 1 \<le> m \<and> (\<forall>c \<in> set (case v of JArr vs \<Rightarrow> vs | JObj ps \<Rightarrow> map snd ps | _ \<Rightarrow> []). json_depth c \<le> m - 1)"
  using foldr_max_le [of "map json_depth (case v of JArr vs \<Rightarrow> vs | JObj ps \<Rightarrow> map snd ps | _ \<Rightarrow> [])" "m - 1"]
  by (cases v) (auto simp: comp_def case_prod_beta')

lemma depth_ok_children:
  "depth_ok st f \<longleftrightarrow> (is_container (fr_value f) \<longrightarrow> within_depth st (fr_depth f + 1)) \<and>
     (\<forall>g \<in> set (children (fr_path f) (fr_depth f + 1) (fr_value f)). depth_ok st g)"
proof (cases st)
  case None
  then show ?thesis by (simp add: depth_ok_def within_depth_def)
next
  case (Some s)
  let ?v = "fr_value f" and ?cs = "children (fr_path f) (fr_depth f + 1) (fr_value f)"
  have vals: "(\<forall>g \<in> set ?cs. P (fr_value g)) \<longleftrightarrow> (\<forall>c \<in> set (case ?v of JArr vs \<Rightarrow> vs | JObj ps \<Rightarrow> map snd ps | _ \<Rightarrow> []). P c)" for P
    unfolding children_values [of "fr_path f" "fr_depth f + 1", symmetric] by simp
  show ?thesis
  proof (cases "is_container ?v")
    case False
    then have "?cs = []" by (cases ?v) simp_all
    then show ?thesis using False by (simp add: depth_ok_def)
  next
    case True
    have "depth_ok st f \<longleftrightarrow> json_depth ?v \<le> maxDepth s - fr_depth f" using True Some by (auto simp: depth_ok_def within_depth_def)
    also have "\<dots> \<longleftrightarrow> fr_depth f + 1 \<le> maxDepth s \<and> (\<forall>g \<in> set ?cs. json_depth (fr_value g) \<le> maxDepth s - fr_depth f - 1)"
      unfolding json_depth_le [OF True] vals [of "\<lambda>c. json_depth c \<le> maxDepth s - fr_depth f - 1"] by auto
    also have "\<dots> \<longleftrightarrow> fr_depth f + 1 \<le> maxDepth s \<and> (\<forall>g \<in> set ?cs. depth_ok st g)"
      using Some children_depth json_depth_pos(2) by (fastforce simp: depth_ok_def within_depth_def)
    finally show ?thesis using True Some by (simp add: within_depth_def)
  qed
qed

lemma put_children: "json_ok v \<Longrightarrow> fold put_frame (children p d v) (put p (shell v) r) = put p v r"
proof (cases v)
  case (JObj ps)
  assume "json_ok v"
  then have "build_obj ps = ps" using JObj by (intro build_obj_ordered) simp
  then show ?thesis using JObj put_members [of p d ps "[]" r] by (simp add: build_obj_def)
qed (simp_all add: put_elements)

lemma children_ok: "json_ok v \<Longrightarrow> g \<in> set (children p d v) \<Longrightarrow> json_ok (fr_value g)"
proof -
  assume ok: "json_ok v" and g: "g \<in> set (children p d v)"
  have "fr_value g \<in> set (case v of JArr vs \<Rightarrow> vs | JObj ps \<Rightarrow> map snd ps | _ \<Rightarrow> [])"
    using g unfolding children_values [of p d v, symmetric] by simp
  then show ?thesis using ok by (cases v) (auto simp: list_all_iff)
qed

lemma members_within_mono: "members_within st (a + b) \<Longrightarrow> 0 \<le> b \<Longrightarrow> members_within st a"
  by (auto simp: members_within_def split: option.splits)

lemma walk_loop_eq:
  assumes "wk_bytes w \<le> m" and "members_within st (wk_members w)" and "\<forall>f \<in> set fs. json_ok (fr_value f)"
  shows "walk_loop m e st copy fs w =
    (if wk_bytes w + frames_bytes fs \<le> m \<and> members_within st (wk_members w + frames_members fs) \<and> (\<forall>f \<in> set fs. depth_ok st f)
     then Inr \<lparr> wk_bytes = wk_bytes w + frames_bytes fs, wk_members = wk_members w + frames_members fs,
       wk_ownedRoot = (if copy then fold put_frame fs (wk_ownedRoot w) else wk_ownedRoot w) \<rparr>
     else Inl (Cdb e))"
  using assms
proof (induction m e st copy fs w rule: walk_loop.induct)
  case (1 m e st copy w)
  then show ?case by (cases w) (simp add: frames_sums)
next
  case (2 m e st copy f stack w)
  let ?v = "fr_value f" and ?cs = "children (fr_path f) (fr_depth f + 1) (fr_value f)"
  have sums: "json_bytes ?v = node_bytes ?v + frames_bytes ?cs" "json_members ?v = node_members ?v + frames_members ?cs"
    by (rule children_sums)+
  note pos = frames_pos [of ?cs] frames_pos [of stack]
  show ?case
  proof (cases "wk_bytes w + node_bytes ?v \<le> m \<and> members_within st (wk_members w + node_members ?v) \<and>
      (is_container ?v \<longrightarrow> within_depth st (fr_depth f + 1))")
    case False
    have "\<not> (wk_bytes w + frames_bytes (f # stack) \<le> m \<and> members_within st (wk_members w + frames_members (f # stack)) \<and>
        (\<forall>g \<in> set (f # stack). depth_ok st g))"
      using False sums pos depth_ok_children [of st f]
        members_within_mono [of st "wk_members w + node_members ?v" "frames_members ?cs + frames_members stack"]
      by (auto simp: frames_sums add.assoc)
    then show ?thesis using visit_eq [OF 2(2,3), of e copy f] False by (auto simp: frames_sums)
  next
    case True
    have visit: "visit m e st copy f w = Inr (?cs, charged copy f w)" using visit_eq [OF 2(2,3)] True by simp
    have rest: "walk_loop m e st copy (f # stack) w = walk_loop m e st copy (?cs @ stack) (charged copy f w)"
      using visit by simp
    have all_ok: "\<forall>g \<in> set (?cs @ stack). json_ok (fr_value g)" using 2(4) children_ok [of ?v] by auto
    have "put_frame f r = fold put_frame ?cs (put (fr_path f) (shell ?v) r)" for r
      using put_children [of ?v] 2(4) by (simp add: put_frame_def)
    then have root: "fold put_frame (?cs @ stack) (put (fr_path f) (shell ?v) r) = fold put_frame (f # stack) r" for r by simp
    have depths: "(\<forall>g \<in> set (?cs @ stack). depth_ok st g) \<longleftrightarrow> (\<forall>g \<in> set (f # stack). depth_ok st g)"
      using depth_ok_children [of st f] True by auto
    have ih: "walk_loop m e st copy (?cs @ stack) (charged copy f w) =
      (if wk_bytes (charged copy f w) + frames_bytes (?cs @ stack) \<le> m \<and>
          members_within st (wk_members (charged copy f w) + frames_members (?cs @ stack)) \<and> (\<forall>g \<in> set (?cs @ stack). depth_ok st g)
       then Inr \<lparr> wk_bytes = wk_bytes (charged copy f w) + frames_bytes (?cs @ stack),
         wk_members = wk_members (charged copy f w) + frames_members (?cs @ stack),
         wk_ownedRoot = (if copy then fold put_frame (?cs @ stack) (wk_ownedRoot (charged copy f w)) else wk_ownedRoot (charged copy f w)) \<rparr>
       else Inl (Cdb e))"
      using 2(1) [OF visit] True all_ok by (simp add: charged_def)
    show ?thesis unfolding rest ih depths using root sums by (simp add: charged_def frames_sums add.assoc del: fold_append)
  qed
qed

lemma inspect_eq:
  assumes "json_ok v" and "0 \<le> m" and "members_within st 0"
  shows "inspectCdbJsonByteLimit v m e st copy =
    (if json_bytes v \<le> m \<and> members_within st (json_members v) \<and> (is_container v \<longrightarrow> within_depth st (json_depth v))
     then Inr (if copy then Some v else None) else Inl (Cdb e))"
  using walk_loop_eq [of "\<lparr> wk_bytes = 0, wk_members = 0, wk_ownedRoot = None \<rparr>" m st
      "[\<lparr> fr_value = v, fr_depth = 0, fr_path = [] \<rparr>]" e copy] assms
  by (simp add: inspectCdbJsonByteLimit_def frames_sums depth_ok_def put_frame_def)

section \<open>Properties\<close>

text \<open>
  C31. The size check is exact: copying with a limit of \<open>m\<close> bytes and a structure limit returns the value itself, with
  every property in place, exactly when the UTF-8 encoding of its \<open>JSON.stringify\<close> text has at most \<open>m\<close> bytes, its
  arrays and objects have at most the allowed number of members in total and nest no deeper than allowed; in every
  other case it fails with the caller's error code. The check without a copy accepts the same values. What a string adds is exact for every
  sequence of UTF-16 code units: the UTF-8 bytes of its quoted text, four for a pair of surrogates, six for a lone one (which is escaped),
  three for another unit above 2047. The value trees of the model hold strings of characters below 256, so the first part is about those.
\<close>

theorem json_limit_exact:
  assumes "json_ok v" and "0 \<le> m" and "0 \<le> maxAggregateMembers st" and "0 \<le> maxDepth st"
  shows "snapshotCdbJsonByteLimit v m e (Some st) =
      (if int (length (utf8 (stringify v))) \<le> m \<and> json_members v \<le> maxAggregateMembers st \<and> json_depth v \<le> maxDepth st
       then Inr (Some v) else Inl (Cdb e)) \<and>
    assertCdbJsonByteLimit v m e (Some st) = rbind (snapshotCdbJsonByteLimit v m e (Some st)) (\<lambda>_. Inr ()) \<and>
    addString m e us w = (if wk_bytes w + int (length (utf8_points (quoted_units us))) \<le> m
      then Inr (w\<lparr>wk_bytes := wk_bytes w + int (length (utf8_points (quoted_units us)))\<rparr>) else Inl (Cdb e))"
proof -
  have "members_within (Some st) 0" using assms(3) by (simp add: members_within_def)
  note eq = inspect_eq [OF assms(1,2) this, of e]
  have "(is_container v \<longrightarrow> within_depth (Some st) (json_depth v)) \<longleftrightarrow> json_depth v \<le> maxDepth st"
    using json_depth_pos(2) [of v] assms(4) by (auto simp: within_depth_def)
  then show ?thesis
    unfolding snapshotCdbJsonByteLimit_def assertCdbJsonByteLimit_def eq addString_units
    by (auto simp: members_within_def json_bytes_def)
qed

subsection \<open>Witness\<close>

text \<open>A value of forty bytes, and a string of a letter, a pair of surrogates, the euro sign and a lone surrogate.\<close>

definition sample_units :: code_units where
  "sample_units = [97, 0xD83D, 0xDE00, 0x20AC, 0xD800]"

theorem json_limit_exact_witness:
  "snapshotCdbMutationArgs sample_json = Inr (Some sample_json) \<and>
   snapshotCdbJsonByteLimit sample_json 10 CDB_INVALID_ARGS (Some argument_structure) = Inl (Cdb CDB_INVALID_ARGS) \<and>
   addString 16 CDB_INVALID_ARGS sample_units \<lparr> wk_bytes = 0, wk_members = 0, wk_ownedRoot = None \<rparr> =
     Inr \<lparr> wk_bytes = 16, wk_members = 0, wk_ownedRoot = None \<rparr>"
proof -
  have size: "json_members sample_json = 5" "json_depth sample_json = 2" by (simp_all add: sample_json_def)
  have bytes: "int (length (utf8 (stringify sample_json))) = 40" by code_simp
  have units: "int (length (utf8_points (quoted_units sample_units))) = 16"
    by (simp add: sample_units_def quoted_units_def utf8_points_def utf8_point_def quote_point_def hex_point_def hex_char_of_def)
  show ?thesis
    using json_limit_exact [OF sample_json_ok(1), of CDB_ARGUMENT_MAX_BYTES argument_structure CDB_INVALID_ARGS]
      json_limit_exact [OF sample_json_ok(1), of 10 argument_structure CDB_INVALID_ARGS]
      json_limit_exact [OF sample_json_ok(1), of 16 argument_structure CDB_INVALID_ARGS sample_units
        "\<lparr> wk_bytes = 0, wk_members = 0, wk_ownedRoot = None \<rparr>"] size bytes units
    by (simp add: snapshotCdbMutationArgs_def argument_structure_def CDB_ARGUMENT_MAX_BYTES_def CDB_ARGUMENT_MAX_MEMBERS_def
        CDB_ARGUMENT_MAX_DEPTH_def)
qed

end
