(* ===== verification/Atomic_Mutation.thy ===== *)
theory Atomic_Mutation
  imports Oplog_Retention Json_Limits
begin

text \<open>
  One atomic mutation, \<^verbatim>\<open>src/src/server/atomic-mutation.ts\<close>: the user's handler runs against the wrapped database
  inside the transaction that also writes the op-log row, with a limit on the number of write statements and of
  written rows. The writes pass through \<open>writeExecutionMethod\<close> of \<^verbatim>\<open>src/src/server/cdb-db-proxy.ts\<close>.

  The domain tables are a value of type \<open>'db\<close>. A handler is the tree of what it does: it reads, it runs a write
  statement and sees its exception or its success, it opens a nested transaction, it calls into the extended context,
  it returns or throws. It may catch any exception and go on, so exceptions are data that the continuation inspects.
\<close>

section \<open>The connection\<close>

text \<open>The tables with SQLite's counters \<open>changes()\<close> and \<open>total_changes()\<close>. A rollback does not reset the counters.\<close>

record 'db connection =
  conn_db :: 'db
  conn_changes :: nat
  conn_total :: nat

text \<open>What one statement adds: the rows it changed itself, and these together with the rows its triggers changed.\<close>

type_synonym row_counts = "nat \<times> nat"

definition counted :: "row_counts \<Rightarrow> 'db \<Rightarrow> 'db connection \<Rightarrow> 'db connection" where
  "counted n db c = c\<lparr>conn_db := db, conn_changes := fst n, conn_total := conn_total c + snd n\<rparr>"

section \<open>The write volume\<close>

definition CDB_MUTATION_MAX_WRITE_OPERATIONS :: int where "CDB_MUTATION_MAX_WRITE_OPERATIONS = 256"
definition CDB_MUTATION_MAX_ROWS_WRITTEN :: int where "CDB_MUTATION_MAX_ROWS_WRITTEN = 4096"

text \<open>The variables that the closures of \<open>mutationWriteVolume\<close> share; \<open>touchedTables\<close> is a set in insertion order.\<close>

record write_volume =
  vol_operations :: int
  vol_rows :: int
  violation :: "js_error option"
  totalChangesBeforeWrite :: "int option"
  vol_touched :: "string list"

definition new_volume :: write_volume where
  "new_volume = \<lparr> vol_operations = 0, vol_rows = 0, violation = None, totalChangesBeforeWrite = None, vol_touched = [] \<rparr>"

definition assertWithinLimits :: "write_volume \<Rightarrow> unit res" where
  "assertWithinLimits v = (case violation v of Some e \<Rightarrow> Inl e | None \<Rightarrow> Inr ())"

text \<open>\<open>violation ??= ...\<close> followed by the throw of the violation.\<close>

definition violate :: "write_volume \<Rightarrow> 'a res \<times> write_volume" where
  "violate v = (let e = (case violation v of Some e \<Rightarrow> e | None \<Rightarrow> Cdb CDB_INVARIANT) in (Inl e, v\<lparr>violation := Some e\<rparr>))"

definition readTotalChanges :: "nat \<Rightarrow> write_volume \<Rightarrow> int res \<times> write_volume" where
  "readTotalChanges rawTotal v = (if \<not> safe_integer (int rawTotal) then violate v else (Inr (int rawTotal), v))"

definition beforeWrite :: "nat \<Rightarrow> write_volume \<Rightarrow> unit res \<times> write_volume" where
  "beforeWrite rawTotal v =
     (case assertWithinLimits v of
        Inl e \<Rightarrow> (Inl e, v)
      | Inr _ \<Rightarrow>
          if CDB_MUTATION_MAX_WRITE_OPERATIONS \<le> vol_operations v \<or> totalChangesBeforeWrite v \<noteq> None then violate v
          else (case readTotalChanges rawTotal v of
              (Inl e, v1) \<Rightarrow> (Inl e, v1)
            | (Inr t, v1) \<Rightarrow> (Inr (), v1\<lparr>totalChangesBeforeWrite := Some t\<rparr>)))"

definition writeFailed :: "write_volume \<Rightarrow> write_volume" where
  "writeFailed v = v\<lparr>totalChangesBeforeWrite := None\<rparr>"

definition set_insert :: "'a \<Rightarrow> 'a list \<Rightarrow> 'a list" where
  "set_insert x xs = (if x \<in> set xs then xs else xs @ [x])"

definition record_write :: "string \<Rightarrow> nat \<Rightarrow> write_volume \<Rightarrow> unit res \<times> write_volume" where
  "record_write tableName rawTotal v =
     (let v0 = v\<lparr>vol_touched := set_insert tableName (vol_touched v), vol_operations := vol_operations v + 1\<rparr>;
          before = totalChangesBeforeWrite v in
      case readTotalChanges rawTotal v0 of
        (Inl e, v1) \<Rightarrow> (Inl e, v1)
      | (Inr after, v1) \<Rightarrow>
          (let v2 = v1\<lparr>totalChangesBeforeWrite := None\<rparr> in
           case before of
             None \<Rightarrow> violate v2
           | Some b \<Rightarrow>
               if after < b then violate v2
               else (let v3 = v2\<lparr>vol_rows := vol_rows v2 + (after - b)\<rparr> in
                 if CDB_MUTATION_MAX_ROWS_WRITTEN < vol_rows v3 then violate v3
                 else (assertWithinLimits v3, v3))))"

section \<open>Handlers\<close>

text \<open>
  \<open>isThenable\<close> looks for a property \<open>then\<close> along the prototype chain of an object, at most a hundred objects deep.
  A value is a JSON value (which has no function properties) or another object, given by the descriptors its chain has.
\<close>

datatype then_property = Then_function | Then_other_value | Then_accessor

datatype js_value = Js_json json | Js_object "then_property option list"

fun then_on_chain :: "nat \<Rightarrow> then_property option list \<Rightarrow> bool" where
  "then_on_chain depth [] = False"
| "then_on_chain depth (d # ds) =
     (if 100 \<le> depth then False
      else case d of Some p \<Rightarrow> p \<noteq> Then_other_value | None \<Rightarrow> then_on_chain (depth + 1) ds)"

definition isThenable :: "js_value \<Rightarrow> bool" where
  "isThenable v = (case v of Js_json _ \<Rightarrow> False | Js_object chain \<Rightarrow> then_on_chain 0 chain)"

datatype 'db mutation_handler =
    Done "js_value res"
  | Read "'db \<Rightarrow> 'db mutation_handler"
  | Write string "'db \<Rightarrow> (row_counts \<times> 'db) res" "unit res \<Rightarrow> 'db mutation_handler"
  | Context "'db \<Rightarrow> row_counts \<times> 'db" "'db mutation_handler"
  | Nested "'db mutation_handler" "js_value res \<Rightarrow> 'db mutation_handler"

type_synonym 'db handler_state = "write_volume \<times> 'db connection"

definition assertMutationTransactionActive :: "bool \<Rightarrow> unit res" where
  "assertMutationTransactionActive active = ensure active (Cdb CDB_INVARIANT)"

text \<open>
  The method \<open>run\<close> of a write builder. The statement returns how many rows it changed, without and with its triggers; a statement
  that fails changes nothing. An exception of \<open>record\<close> comes after the statement took effect.
\<close>

definition write_run :: "bool \<Rightarrow> string \<Rightarrow> ('db \<Rightarrow> (row_counts \<times> 'db) res) \<Rightarrow> 'db handler_state \<Rightarrow> unit res \<times> 'db handler_state" where
  "write_run active tableName stmt s =
     (let (v, c) = s in
      case assertMutationTransactionActive active of
        Inl e \<Rightarrow> (Inl e, s)
      | Inr _ \<Rightarrow>
          (case beforeWrite (conn_total c) v of
             (Inl e, v1) \<Rightarrow> (Inl e, v1, c)
           | (Inr _, v1) \<Rightarrow>
               (case stmt (conn_db c) of
                  Inl e \<Rightarrow> (Inl e, writeFailed v1, c)
                | Inr (n, db') \<Rightarrow>
                    (let c' = counted n db' c; (r, v2) = record_write tableName (conn_total c') v1 in (r, v2, c')))))"

text \<open>A nested transaction that throws restores the tables.\<close>

definition after_nested :: "'a res \<Rightarrow> 'db \<Rightarrow> 'db connection \<Rightarrow> 'db connection" where
  "after_nested r db c = (case r of Inl _ \<Rightarrow> c\<lparr>conn_db := db\<rparr> | Inr _ \<Rightarrow> c)"

primrec run_handler :: "'db mutation_handler \<Rightarrow> 'db handler_state \<Rightarrow> js_value res \<times> 'db handler_state" where
  "run_handler (Done r) = (\<lambda>s. (r, s))"
| "run_handler (Read k) = (\<lambda>s. run_handler (k (conn_db (snd s))) s)"
| "run_handler (Write tableName stmt k) = (\<lambda>s. let (r, s') = write_run True tableName stmt s in run_handler (k r) s')"
| "run_handler (Context f k) = (\<lambda>s. let (n, db') = f (conn_db (snd s)) in run_handler k (fst s, counted n db' (snd s)))"
| "run_handler (Nested h k) = (\<lambda>s.
     let (r, v, c) = run_handler h s;
         c' = after_nested r (conn_db (snd s)) c in
     run_handler (k r) (v, c'))"

section \<open>The transaction\<close>

text \<open>
  An \<open>AsyncFunction\<close> is refused before anything runs, so its body is not part of the model. The hooks act on the
  tables of the shard other than the op-log, which the outcome hook may read; the extended context is what \<open>Context\<close> steps of the handler call.
\<close>

datatype 'f js_function = Sync_function 'f | Async_function

record CdbDbPlacement =
  pl_authority :: string
  pl_partitionKey :: string

record 'db ExecuteAtomicMutationInput =
  in_principalId :: string
  in_mutId :: string
  in_ref :: string
  in_args :: json
  in_schemaEpoch :: int
  in_handler :: "'db mutation_handler js_function"
  in_placement :: "CdbDbPlacement option"
  in_cookie :: string
  in_nowMs :: int
  in_beforeRun :: "('db \<Rightarrow> 'db res) option"
  in_onOutcome :: "(bool \<times> op_log \<Rightarrow> 'db \<Rightarrow> (js_value \<times> 'db) res) js_function option"
  in_onWriteSet :: "(string list \<Rightarrow> 'db \<Rightarrow> (js_value \<times> 'db) res) js_function option"

record AtomicMutationResult =
  am_cookie :: json
  am_ran :: bool
  am_result :: json
  am_rowsAffected :: json
  am_touchedTables :: "string list"

definition asyncError :: js_error where
  "asyncError = Cdb CDB_INTERACTIVE_TXN_UNSUPPORTED"

definition assertSynchronousHandler :: "'f js_function \<Rightarrow> unit res" where
  "assertSynchronousHandler f = (case f of Async_function \<Rightarrow> Inl asyncError | Sync_function _ \<Rightarrow> Inr ())"

definition assertSynchronousHook :: "'f js_function option \<Rightarrow> unit res" where
  "assertSynchronousHook h = (case h of Some f \<Rightarrow> assertSynchronousHandler f | None \<Rightarrow> Inr ())"

text \<open>\<open>hook?.(x)\<close> and the test of what it returns. (The body of a refused function is never reached.)\<close>

definition call_hook :: "('x \<Rightarrow> 'db \<Rightarrow> (js_value \<times> 'db) res) js_function option \<Rightarrow> 'x \<Rightarrow> 'db \<Rightarrow> 'db res" where
  "call_hook h x db = (case h of
       Some (Sync_function f) \<Rightarrow> rbind (f x db) (\<lambda>(v, db'). if isThenable v then Inl asyncError else Inr db')
     | _ \<Rightarrow> Inr db)"

definition snapshot_result :: "js_value \<Rightarrow> json res" where
  "snapshot_result v = (case v of
       Js_json j \<Rightarrow> rbind (snapshotCdbResultByteLimit j) (\<lambda>owned. Inr (case owned of Some j' \<Rightarrow> j' | None \<Rightarrow> JNull))
     | Js_object _ \<Rightarrow> Inl (Cdb CDB_INVARIANT))"

text \<open>The closure \<open>run\<close>: when it starts, the last statement of the connection was the insertion of the op-log row.\<close>

definition mutation_run :: "'db mutation_handler \<Rightarrow> 'db handler_state \<Rightarrow> (MutationOutcome \<times> 'db handler_state) res" where
  "mutation_run handler s =
     (let (r, v, c) = run_handler handler (fst s, counted (1, 1) (conn_db (snd s)) (snd s)) in
      rbind r (\<lambda>value.
      if isThenable value then Inl asyncError
      else rbind (assertWithinLimits v) (\<lambda>_.
        rbind (snapshot_result value) (\<lambda>j.
        Inr (Outcome_ok \<lparr> out_result = j, out_rowsAffected = int (conn_changes c), out_lastInsertRowid = None,
               out_returning = None, out_warnings = None \<rparr> None, v, c)))))"

definition wrapped_args :: "'db ExecuteAtomicMutationInput \<Rightarrow> int option \<Rightarrow> RunWrappedMutationArgs" where
  "wrapped_args i placementVshard = \<lparr> arg_principalId = in_principalId i, arg_mutId = in_mutId i,
     arg_canonicalRequest = canonicalRequest (in_ref i) (in_args i), arg_schemaEpoch = in_schemaEpoch i,
     arg_placementVshard = placementVshard, arg_nowMs = in_nowMs i, arg_cookie = in_cookie i \<rparr>"

definition placement_vshard :: "CdbDbPlacement option \<Rightarrow> int option res" where
  "placement_vshard p = (case p of None \<Rightarrow> Inr None
     | Some pl \<Rightarrow> rbind (vshardOf [KString (pl_partitionKey pl)]) (\<lambda>v. Inr (Some v)))"

text \<open>A property of the envelope; \<open>envelope.result ?? null\<close>.\<close>

definition json_get :: "json \<Rightarrow> string \<Rightarrow> json option" where
  "json_get v k = (case v of JObj ps \<Rightarrow> map_of ps k | _ \<Rightarrow> None)"

definition reply_ok :: "json \<Rightarrow> bool" where
  "reply_ok env \<longleftrightarrow> json_get env ''status'' = Some (JStr ''ok'')"

definition reply_result :: "json \<Rightarrow> json" where
  "reply_result env = (case json_get env ''result'' of Some v \<Rightarrow> v | None \<Rightarrow> JNull)"

text \<open>\<open>beforeRun?.(sql)\<close>, and what follows the wrapper inside the transaction.\<close>

definition admitted :: "'db ExecuteAtomicMutationInput \<Rightarrow> 'db \<Rightarrow> 'db res" where
  "admitted i db = (case in_beforeRun i of None \<Rightarrow> Inr db | Some f \<Rightarrow> f db)"

definition finish_mutation :: "'db ExecuteAtomicMutationInput \<Rightarrow> RunWrappedMutationResult \<Rightarrow> string list \<Rightarrow> op_log \<Rightarrow> 'db \<Rightarrow>
    (string list \<times> 'db) res" where
  "finish_mutation i wrapped touchedTables l db =
     rbind (if reply_ok (envelope wrapped) then assertCdbResultByteLimit (reply_result (envelope wrapped)) else Inr ()) (\<lambda>_.
     rbind (call_hook (in_onOutcome i) (ran wrapped, l) db) (\<lambda>db1.
     if ran wrapped \<and> reply_ok (envelope wrapped) \<and> touchedTables \<noteq> []
     then (let sortedTables = sort touchedTables in
       rbind (call_hook (in_onWriteSet i) sortedTables db1) (\<lambda>db2. Inr (sortedTables, db2)))
     else Inr ([], db1)))"

definition mutation_transaction :: "(nat list \<Rightarrow> nat list) \<Rightarrow> 'db ExecuteAtomicMutationInput \<Rightarrow> 'db mutation_handler \<Rightarrow> nat \<Rightarrow>
    op_log \<times> 'db \<Rightarrow> (RunWrappedMutationResult \<times> string list \<times> op_log \<times> 'db) res" where
  "mutation_transaction sha256 i handler totalChanges s =
     rbind (admitted i (snd s)) (\<lambda>db.
     rbind (placement_vshard (in_placement i)) (\<lambda>placementVshard.
     rbind (runWrappedMutation IDENTITY_CODEC sha256 (wrapped_args i placementVshard) (mutation_run handler)
         (fst s, new_volume, \<lparr> conn_db = db, conn_changes = 0, conn_total = totalChanges \<rparr>)) (\<lambda>(wrapped, l, v, c).
     rbind (finish_mutation i wrapped (vol_touched v) l (conn_db c)) (\<lambda>(tables, db'). Inr (wrapped, tables, l, db')))))"

text \<open>
  The code of a stored error reply was written from a \<open>CdbErrorCode\<close>; a string that is none gives an error without a
  CharDB code. The test for a transaction that committed without an outcome never holds.
\<close>

definition reply_error :: "json \<Rightarrow> js_error" where
  "reply_error env = (case json_get env ''errorCode'' of
       None \<Rightarrow> Cdb CDB_FORBIDDEN
     | Some v \<Rightarrow> (case v of
         JStr s \<Rightarrow> (case isCdbErrorCode s of Some code \<Rightarrow> Cdb code | None \<Rightarrow> JsError)
       | JNull \<Rightarrow> Cdb CDB_FORBIDDEN
       | _ \<Rightarrow> JsError))"

definition atomic_reply :: "RunWrappedMutationResult \<Rightarrow> string list \<Rightarrow> AtomicMutationResult res" where
  "atomic_reply wrapped tables =
     (let env = envelope wrapped in
      if \<not> reply_ok env then Inl (reply_error env)
      else Inr \<lparr> am_cookie = (case json_get env ''cookie'' of Some v \<Rightarrow> v | None \<Rightarrow> JNull), am_ran = ran wrapped, am_result = reply_result env,
        am_rowsAffected = (case json_get env ''rowsAffected'' of Some v \<Rightarrow> v | None \<Rightarrow> JNull), am_touchedTables = tables \<rparr>)"

definition executeAtomicMutation :: "(nat list \<Rightarrow> nat list) \<Rightarrow> 'db ExecuteAtomicMutationInput \<Rightarrow> nat \<Rightarrow> op_log \<times> 'db \<Rightarrow>
    AtomicMutationResult res \<times> op_log \<times> 'db" where
  "executeAtomicMutation sha256 i totalChanges s =
     (case in_handler i of
        Async_function \<Rightarrow> (Inl asyncError, s)
      | Sync_function handler \<Rightarrow>
          (case rbind (assertSynchronousHook (in_onWriteSet i)) (\<lambda>_.
              rbind (assertSynchronousHook (in_onOutcome i)) (\<lambda>_. mutation_transaction sha256 i handler totalChanges s)) of
             Inl e \<Rightarrow> (Inl e, s)
           | Inr (wrapped, tables, s') \<Rightarrow> (atomic_reply wrapped tables, s')))"

section \<open>The statements a handler runs\<close>

text \<open>
  The writes a run attempts, in order, each with the number of rows it changed when its statement completed (\<open>None\<close>
  when it was refused or failed). Statements of a nested transaction that was rolled back are among them.
\<close>

type_synonym write_trace = "(string \<times> nat option) list"

definition statement_rows :: "('db \<Rightarrow> (row_counts \<times> 'db) res) \<Rightarrow> 'db handler_state \<Rightarrow> nat option" where
  "statement_rows stmt s = (if \<not> result_ok (fst (beforeWrite (conn_total (snd s)) (fst s))) then None
     else case stmt (conn_db (snd s)) of Inl _ \<Rightarrow> None | Inr (n, _) \<Rightarrow> Some (snd n))"

primrec write_trace :: "'db mutation_handler \<Rightarrow> 'db handler_state \<Rightarrow> write_trace" where
  "write_trace (Done r) = (\<lambda>s. [])"
| "write_trace (Read k) = (\<lambda>s. write_trace (k (conn_db (snd s))) s)"
| "write_trace (Write tableName stmt k) = (\<lambda>s. let (r, s') = write_run True tableName stmt s in
     (tableName, statement_rows stmt s) # write_trace (k r) s')"
| "write_trace (Context f k) = (\<lambda>s. let (n, db') = f (conn_db (snd s)) in write_trace k (fst s, counted n db' (snd s)))"
| "write_trace (Nested h k) = (\<lambda>s.
     let (r, v, c) = run_handler h s;
         c' = after_nested r (conn_db (snd s)) c in
     write_trace h s @ write_trace (k r) (v, c'))"

definition completed :: "write_trace \<Rightarrow> (string \<times> nat) list" where
  "completed tr = List.map_filter (\<lambda>(t, n). map_option (Pair t) n) tr"

definition rows_written :: "write_trace \<Rightarrow> int" where
  "rows_written tr = int (sum_list (map snd (completed tr)))"

lemma completed_simps [simp]:
  "completed [] = []"
  "completed ((t, Some n) # tr) = (t, n) # completed tr"
  "completed ((t, None) # tr) = completed tr"
  "completed (tr @ tr') = completed tr @ completed tr'"
  by (simp_all add: completed_def map_filter_def)

lemma rows_written_simps [simp]:
  "rows_written [] = 0"
  "rows_written ((t, Some n) # tr) = int n + rows_written tr"
  "rows_written ((t, None) # tr) = rows_written tr"
  "rows_written (tr @ tr') = rows_written tr + rows_written tr'"
  by (simp_all add: rows_written_def)

lemma rows_written_nonneg [simp]: "0 \<le> rows_written tr"
  by (simp add: rows_written_def)

lemma length_completed: "length (completed tr) \<le> length tr"
  by (simp add: completed_def map_filter_def)

section \<open>Accounting\<close>

definition volume_inv :: "write_volume \<Rightarrow> bool" where
  "volume_inv v \<longleftrightarrow> distinct (vol_touched v) \<and> (violation v = None \<longrightarrow> totalChangesBeforeWrite v = None \<and>
     vol_operations v \<le> CDB_MUTATION_MAX_WRITE_OPERATIONS \<and> vol_rows v \<le> CDB_MUTATION_MAX_ROWS_WRITTEN)"

text \<open>
  A trace stays within the limits, counted on top of what was used before, when every write is attempted with an
  operation left and the rows sum up to at most the limit.
\<close>

definition within :: "int \<Rightarrow> int \<Rightarrow> write_trace \<Rightarrow> bool" where
  "within ops rows tr \<longleftrightarrow> (\<forall>k < length tr. ops + int (length (completed (take k tr))) < CDB_MUTATION_MAX_WRITE_OPERATIONS) \<and>
     rows + rows_written tr \<le> CDB_MUTATION_MAX_ROWS_WRITTEN"

lemma within_append:
  "within ops rows (tr @ tr') \<longleftrightarrow> within ops rows tr \<and> within (ops + int (length (completed tr))) (rows + rows_written tr) tr'"
proof -
  have "k < length (tr @ tr') \<longleftrightarrow> k < length tr \<or> (\<exists>j < length tr'. k = length tr + j)" for k
    by (cases "k < length tr") (auto simp: not_less dest!: le_Suc_ex)
  then have split: "(\<forall>k < length (tr @ tr'). P k) \<longleftrightarrow> (\<forall>k < length tr. P k) \<and> (\<forall>k < length tr'. P (length tr + k))" for P
    by (simp only: ) blast
  let ?n = "\<lambda>tr. int (length (completed tr))"
  have "?n (take (length tr + k) (tr @ tr')) = ?n tr + ?n (take k tr')" and "k < length tr \<Longrightarrow> take k (tr @ tr') = take k tr" for k by simp_all
  moreover have "rows + rows_written tr \<le> m" if "rows + rows_written (tr @ tr') \<le> m" for m
    using rows_written_nonneg [of tr'] that by (simp del: rows_written_nonneg)
  ultimately show ?thesis unfolding within_def split by (auto simp add: add.assoc)
qed

text \<open>How the volume and the total-change counter may develop over a trace; such developments compose.\<close>

definition accounted :: "write_volume \<Rightarrow> nat \<Rightarrow> write_trace \<Rightarrow> write_volume \<Rightarrow> nat \<Rightarrow> bool" where
  "accounted v t tr v' t' \<longleftrightarrow> t \<le> t' \<and> (volume_inv v \<longrightarrow> volume_inv v' \<and>
     vol_operations v' = vol_operations v + int (length (completed tr)) \<and>
     set (vol_touched v') = set (vol_touched v) \<union> fst ` set (completed tr) \<and>
     (violation v' = None \<longrightarrow> violation v = None \<and> vol_rows v' = vol_rows v + rows_written tr \<and> within (vol_operations v) (vol_rows v) tr) \<and>
     (violation v = None \<and> safe_integer (int t') \<and> within (vol_operations v) (vol_rows v) tr \<longrightarrow> violation v' = None))"

lemma safe_integer_le: "safe_integer (int t') \<Longrightarrow> t \<le> t' \<Longrightarrow> safe_integer (int t)"
  by (simp add: safe_integer_def)

lemma accounted_weaken: "t \<le> t' \<Longrightarrow> accounted v t [] v t'"
  by (auto simp: accounted_def within_def volume_inv_def)

lemma accounted_trans:
  assumes "accounted v t tr v1 t1" and "accounted v1 t1 tr' v' t'"
  shows "accounted v t (tr @ tr') v' t'"
  unfolding accounted_def
proof (intro conjI impI; (elim conjE)?)
  show "t \<le> t'" using assms by (simp add: accounted_def)
next
  assume inv: "volume_inv v"
  note first = assms(1) [unfolded accounted_def, THEN conjunct2, rule_format, OF inv]
  then have inv1: "volume_inv v1" by blast
  note second = assms(2) [unfolded accounted_def, THEN conjunct2, rule_format, OF inv1]
  show "volume_inv v'" using second by blast
  have ops: "vol_operations v1 = vol_operations v + int (length (completed tr))"
    "set (vol_touched v1) = set (vol_touched v) \<union> fst ` set (completed tr)" using first by blast+
  moreover have "vol_operations v' = vol_operations v1 + int (length (completed tr'))"
    "set (vol_touched v') = set (vol_touched v1) \<union> fst ` set (completed tr')" using second by blast+
  ultimately show "vol_operations v' = vol_operations v + int (length (completed (tr @ tr')))"
    "set (vol_touched v') = set (vol_touched v) \<union> fst ` set (completed (tr @ tr'))" by (simp_all add: image_Un Un_assoc)
  show "violation v = None" "vol_rows v' = vol_rows v + rows_written (tr @ tr')"
      "within (vol_operations v) (vol_rows v) (tr @ tr')" if ok: "violation v' = None"
  proof -
    have 2: "violation v1 = None" "vol_rows v' = vol_rows v1 + rows_written tr'" "within (vol_operations v1) (vol_rows v1) tr'"
      using second ok by blast+
    have 1: "violation v = None" "vol_rows v1 = vol_rows v + rows_written tr" "within (vol_operations v) (vol_rows v) tr"
      using first 2(1) by blast+
    show "violation v = None" by (rule 1(1))
    show "vol_rows v' = vol_rows v + rows_written (tr @ tr')" using 1(2) 2(2) by simp
    show "within (vol_operations v) (vol_rows v) (tr @ tr')" using 1(2,3) 2(3) ops(1) by (simp add: within_append)
  qed
  show "violation v' = None" if "violation v = None" "safe_integer (int t')" "within (vol_operations v) (vol_rows v) (tr @ tr')"
  proof -
    have "safe_integer (int t1)" using that(2) assms(2) safe_integer_le by (auto simp: accounted_def)
    then have v1: "violation v1 = None" using first that(1,3) unfolding within_append by blast
    then have "vol_rows v1 = vol_rows v + rows_written tr" using first by blast
    then have "within (vol_operations v1) (vol_rows v1) tr'" using that(3) ops(1) by (simp add: within_append)
    then show ?thesis using v1 second that(2) by blast
  qed
qed

lemma set_insert_simps [simp]: "set (set_insert x xs) = insert x (set xs)" "distinct (set_insert x xs) = distinct xs"
  by (auto simp: set_insert_def)

lemmas volume_defs = beforeWrite_def record_write_def readTotalChanges_def violate_def assertWithinLimits_def writeFailed_def

lemma write_run_accounted:
  assumes "write_run True tableName stmt (v, c) = (r, v', c')"
  shows "accounted v (conn_total c) [(tableName, statement_rows stmt (v, c))] v' (conn_total c')"
proof (cases "result_ok (fst (beforeWrite (conn_total c) v))")
  case False
  then have "c' = c" "v' = snd (beforeWrite (conn_total c) v)"
    using assms by (auto simp: write_run_def assertMutationTransactionActive_def split: prod.splits sum.splits)
  then show ?thesis using False
    by (auto simp: accounted_def within_def statement_rows_def volume_inv_def volume_defs Let_def split: option.splits if_splits)
next
  case True
  then have b: "violation v = None" "vol_operations v < CDB_MUTATION_MAX_WRITE_OPERATIONS" "safe_integer (int (conn_total c))"
      "beforeWrite (conn_total c) v = (Inr (), v\<lparr>totalChangesBeforeWrite := Some (int (conn_total c))\<rparr>)"
    by (auto simp: volume_defs Let_def split: option.splits if_splits)
  show ?thesis
  proof (cases "stmt (conn_db c)")
    case (Inl e)
    then show ?thesis using assms b
      by (auto simp: write_run_def assertMutationTransactionActive_def accounted_def within_def statement_rows_def volume_inv_def volume_defs)
  next
    case (Inr p)
    obtain n db' where p: "p = (n, db')" by fastforce
    show ?thesis using assms b Inr p
      by (auto simp: write_run_def assertMutationTransactionActive_def accounted_def within_def statement_rows_def volume_inv_def
          record_write_def readTotalChanges_def violate_def assertWithinLimits_def counted_def Let_def split: if_splits prod.splits)
  qed
qed

theorem run_handler_accounted:
  "run_handler h (v, c) = (r, v', c') \<Longrightarrow> accounted v (conn_total c) (write_trace h (v, c)) v' (conn_total c')"
proof (induction h arbitrary: v c r v' c')
  case (Done r)
  then show ?case by (simp add: accounted_weaken)
next
  case (Read k)
  then show ?case by simp
next
  case (Write tableName stmt k)
  obtain r1 v1 c1 where w: "write_run True tableName stmt (v, c) = (r1, v1, c1)" by (metis prod_cases3)
  have "run_handler (k r1) (v1, c1) = (r, v', c')" using Write.prems w by simp
  then have "accounted v1 (conn_total c1) (write_trace (k r1) (v1, c1)) v' (conn_total c')" by (rule Write.IH [OF rangeI])
  from accounted_trans [OF write_run_accounted [OF w] this] show ?case using w by simp
next
  case (Context f h)
  obtain n db' where f: "f (conn_db c) = (n, db')" by fastforce
  have "run_handler h (v, counted n db' c) = (r, v', c')" using Context.prems f by simp
  from accounted_trans [OF accounted_weaken [of "conn_total c" "conn_total (counted n db' c)"] Context.IH [OF this]] show ?case
    using f by (simp add: counted_def)
next
  case (Nested h k)
  obtain r1 v1 c1 where h: "run_handler h (v, c) = (r1, v1, c1)" by (metis prod_cases3)
  let ?c = "after_nested r1 (conn_db c) c1"
  have "run_handler (k r1) (v1, ?c) = (r, v', c')" using Nested.prems h by simp
  then have "accounted v1 (conn_total ?c) (write_trace (k r1) (v1, ?c)) v' (conn_total c')" by (rule Nested.IH(2) [OF rangeI])
  moreover have "conn_total ?c = conn_total c1" by (simp add: after_nested_def split: sum.split)
  ultimately show ?case using accounted_trans [OF Nested.IH(1) [OF h]] h by simp
qed

section \<open>One call\<close>

definition starting :: "nat \<Rightarrow> 'db \<Rightarrow> 'db handler_state" where
  "starting t db = (new_volume, \<lparr> conn_db = db, conn_changes = 1, conn_total = t + 1 \<rparr>)"

definition result_outcome :: "json \<Rightarrow> nat \<Rightarrow> MutationOutcome" where
  "result_outcome j n = Outcome_ok \<lparr> out_result = j, out_rowsAffected = int n, out_lastInsertRowid = None, out_returning = None,
     out_warnings = None \<rparr> None"

text \<open>The results of a handler are JSON, and its counts are exact JavaScript integers.\<close>

definition handler_json :: "'db mutation_handler \<Rightarrow> bool" where
  "handler_json h \<longleftrightarrow> (\<forall>t db j v c. run_handler h (starting t db) = (Inr (Js_json j), v, c) \<longrightarrow> json_ok j \<and> safe_integer (int (conn_changes c)))"

lemma volume_inv_new: "volume_inv new_volume"
  by (simp add: volume_inv_def new_volume_def CDB_MUTATION_MAX_WRITE_OPERATIONS_def CDB_MUTATION_MAX_ROWS_WRITTEN_def)

lemma mutation_run_eq:
  "mutation_run h (new_volume, \<lparr> conn_db = db, conn_changes = 0, conn_total = t \<rparr>) =
    (let (r, v, c) = run_handler h (starting t db) in
     rbind r (\<lambda>value. if isThenable value then Inl asyncError else rbind (assertWithinLimits v) (\<lambda>_.
       rbind (snapshot_result value) (\<lambda>j. Inr (result_outcome j (conn_changes c), v, c)))))"
  unfolding mutation_run_def starting_def counted_def result_outcome_def by simp

lemma mutation_run_Inr:
  assumes "mutation_run h (new_volume, \<lparr> conn_db = db, conn_changes = 0, conn_total = t \<rparr>) = Inr (o1, v, c)" and "handler_json h"
  obtains j where "run_handler h (starting t db) = (Inr (Js_json j), v, c)" "violation v = None" "o1 = result_outcome j (conn_changes c)"
    "outcome_ok o1" "assertCdbResultByteLimit j = Inr ()"
proof -
  obtain ret j where run: "run_handler h (starting t db) = (Inr ret, v, c)" and lim: "assertWithinLimits v = Inr ()"
      and snap: "snapshot_result ret = Inr j" and o1: "o1 = result_outcome j (conn_changes c)"
    using assms(1) by (auto simp: mutation_run_eq result_simps split: prod.splits if_splits)
  obtain j0 where ret: "ret = Js_json j0" using snap by (cases ret) (auto simp: snapshot_result_def)
  have ok: "json_ok j0" "safe_integer (int (conn_changes c))" using assms(2) run ret by (auto simp: handler_json_def)
  have eq: "inspectCdbJsonByteLimit j0 CDB_RESULT_MAX_BYTES e None copy =
      (if json_bytes j0 \<le> CDB_RESULT_MAX_BYTES then Inr (if copy then Some j0 else None) else Inl (Cdb e))" for e copy
    using inspect_eq [OF ok(1), of CDB_RESULT_MAX_BYTES None] by (simp add: CDB_RESULT_MAX_BYTES_def members_within_def within_depth_def)
  have "j = j0 \<and> json_bytes j0 \<le> CDB_RESULT_MAX_BYTES"
    using snap ret by (auto simp: snapshot_result_def snapshotCdbResultByteLimit_def snapshotCdbJsonByteLimit_def eq result_simps
        split: if_splits)
  then have "j = j0" "assertCdbResultByteLimit j = Inr ()"
    by (simp_all add: assertCdbResultByteLimit_def assertCdbJsonByteLimit_def eq)
  moreover have "violation v = None" using lim by (simp add: assertWithinLimits_def split: option.splits)
  moreover have "outcome_ok o1" using o1 ok \<open>j = j0\<close> by (simp add: outcome_ok_def result_outcome_def)
  ultimately show thesis using that run ret o1 by simp
qed

lemma reply_simps [simp]:
  "reply_ok (mutation_envelope cookie (result_outcome j n))"
  "reply_result (mutation_envelope cookie (result_outcome j n)) = j"
  "atomic_reply \<lparr> ran = b, envelope = mutation_envelope cookie (result_outcome j n) \<rparr> tables =
     Inr \<lparr> am_cookie = JStr cookie, am_ran = b, am_result = j, am_rowsAffected = JNum (int n), am_touchedTables = tables \<rparr>"
  by (simp_all add: atomic_reply_def reply_ok_def reply_result_def result_outcome_def json_get_def optional_def)

text \<open>Every stored reply is that of a mutation that succeeded.\<close>

definition replies_ok :: "(nat list \<Rightarrow> nat list) \<Rightarrow> op_log \<Rightarrow> bool" where
  "replies_ok sha256 l \<longleftrightarrow> (\<forall>row \<in> set (log_rows l). \<exists>args j m n. row = committed_row IDENTITY_CODEC sha256 args (result_outcome j m) n \<and>
     outcome_ok (result_outcome j m) \<and> assertCdbResultByteLimit j = Inr ())"

text \<open>What the hooks make of the tables that the handler, or nothing, has left.\<close>

definition after_hooks :: "'db ExecuteAtomicMutationInput \<Rightarrow> bool \<Rightarrow> string list \<Rightarrow> op_log \<Rightarrow> 'db \<Rightarrow> 'db res" where
  "after_hooks i b tables l db = rbind (call_hook (in_onOutcome i) (b, l) db) (\<lambda>db1.
     if b \<and> tables \<noteq> [] then call_hook (in_onWriteSet i) tables db1 else Inr db1)"

definition input_key :: "'db ExecuteAtomicMutationInput \<Rightarrow> string \<times> string" where
  "input_key i = (in_principalId i, in_mutId i)"

lemma wrapped_args_simps [simp]:
  "arg_key (wrapped_args i pv) = input_key i" "arg_nowMs (wrapped_args i pv) = in_nowMs i" "arg_cookie (wrapped_args i pv) = in_cookie i"
  "request_hash sha256 (wrapped_args i pv) = sha256 (utf8 (canonicalRequest (in_ref i) (in_args i)))"
  by (simp_all add: wrapped_args_def arg_key_def input_key_def request_hash_def)

lemma placement_vshard_ok: "placement_vshard p = Inr pv \<Longrightarrow> placement_ok (wrapped_args i pv)"
  using vshardOf_range by (force simp: placement_vshard_def placement_ok_def wrapped_args_def VSHARD_COUNT_def result_simps split: option.splits)

lemma finish_replayed:
  "finish_mutation i \<lparr> ran = False, envelope = mutation_envelope cookie (result_outcome j m) \<rparr> touched l db = Inr (tables, db') \<Longrightarrow>
     tables = [] \<and> after_hooks i False [] l db = Inr db'"
  by (auto simp: finish_mutation_def after_hooks_def result_simps)

lemma sort_eq_Nil: "sort xs = [] \<longleftrightarrow> xs = []"
  by (metis length_0_conv length_sort)

lemma finish_handled:
  assumes "finish_mutation i \<lparr> ran = True, envelope = mutation_envelope cookie (result_outcome j m) \<rparr> touched l db = Inr (tables, db')"
  shows "tables = sort touched" "after_hooks i True tables l db = Inr db'"
  using assms by (auto simp: finish_mutation_def after_hooks_def Let_def sort_eq_Nil result_simps split: if_splits)

text \<open>What a call that commits has done: it replayed a stored reply, or it ran the handler.\<close>

lemma transaction_cases:
  assumes "mutation_transaction sha256 i h t (l, db) = Inr (w, tables, l', db')" and "\<And>b. byte_list (sha256 b)"
    and "oplog_inv l" and "replies_ok sha256 l" and "handler_json h"
  obtains (replayed) args j m n where "committed_row IDENTITY_CODEC sha256 args (result_outcome j m) n \<in> set (log_rows l)"
      "w = \<lparr> ran = False, envelope = mutation_envelope (arg_cookie args) (result_outcome j m) \<rparr>" "tables = []" "l' = l"
      "arg_key args = input_key i" "rbind (admitted i db) (after_hooks i False [] l) = Inr db'"
  | (handled) db0 pv j v c where "admitted i db = Inr db0" "placement_vshard (in_placement i) = Inr pv" "logged l (input_key i) = None"
      "run_handler h (starting t db0) = (Inr (Js_json j), v, c)" "violation v = None"
      "w = \<lparr> ran = True, envelope = mutation_envelope (in_cookie i) (result_outcome j (conn_changes c)) \<rparr>"
      "tables = sort (vol_touched v)" "outcome_ok (result_outcome j (conn_changes c))" "assertCdbResultByteLimit j = Inr ()"
      "l' = commit_log IDENTITY_CODEC sha256 (wrapped_args i pv) (result_outcome j (conn_changes c)) l"
      "after_hooks i True tables l' (conn_db c) = Inr db'"
proof -
  let ?s = "\<lambda>db. (l, new_volume, \<lparr> conn_db = db, conn_changes = 0, conn_total = t \<rparr>)"
  have bytes: "byte_list (request_hash sha256 a)" for a using assms(2) by (simp add: request_hash_def)
  obtain db0 pv v c where adm: "admitted i db = Inr db0" and pv: "placement_vshard (in_placement i) = Inr pv"
      and w: "runWrappedMutation IDENTITY_CODEC sha256 (wrapped_args i pv) (mutation_run h) (?s db0) = Inr (w, l', v, c)"
      and fin: "finish_mutation i w (vol_touched v) l' (conn_db c) = Inr (tables, db')"
    using assms(1) by (auto simp: mutation_transaction_def result_simps)
  show thesis
  proof (cases "logged l (input_key i)")
    case (Some row)
    then have "row \<in> set (log_rows l)" by (auto simp: logged_def dest: sql_one_SomeD)
    then obtain args j m n where row: "row = committed_row IDENTITY_CODEC sha256 args (result_outcome j m) n" "outcome_ok (result_outcome j m)"
        "row \<in> set (log_rows l)"
      using assms(4) unfolding replies_ok_def by meson
    have "op_key row = input_key i" using Some by (auto simp: logged_def dest: sql_one_SomeD)
    then have "arg_key (wrapped_args i pv) = arg_key args" using row(1) by simp
    note replay = identity.replay_committed [OF bytes assms(3) row(3) [unfolded row(1)] this row(2)]
    have "w = \<lparr> ran = False, envelope = mutation_envelope (arg_cookie args) (result_outcome j m) \<rparr>" "l' = l" "conn_db c = db0"
      using w by (auto simp add: replay split: if_splits)
    then show thesis using replayed row(1,3) finish_replayed fin adm \<open>op_key row = input_key i\<close> by fastforce
  next
    case None
    then obtain o1 where run: "mutation_run h (new_volume, \<lparr> conn_db = db0, conn_changes = 0, conn_total = t \<rparr>) = Inr (o1, v, c)"
        "w = \<lparr> ran = True, envelope = mutation_envelope (in_cookie i) o1 \<rparr>"
        "l' = commit_log IDENTITY_CODEC sha256 (wrapped_args i pv) o1 l"
      using w placement_vshard_ok [OF pv, of i] by (auto simp: runWrappedMutation_eq [OF bytes] result_simps)
    obtain j where j: "run_handler h (starting t db0) = (Inr (Js_json j), v, c)" "violation v = None" "o1 = result_outcome j (conn_changes c)"
        "outcome_ok o1" "assertCdbResultByteLimit j = Inr ()"
      using mutation_run_Inr [OF run(1) assms(5)] .
    have "tables = sort (vol_touched v)" "after_hooks i True tables l' (conn_db c) = Inr db'"
      using finish_handled [OF fin [unfolded run(2) j(3)]] .
    then show thesis using handled [OF adm pv None j(1,2)] run(2,3) j(3-5) by blast
  qed
qed

section \<open>Histories\<close>

definition well_behaved :: "'db ExecuteAtomicMutationInput \<Rightarrow> bool" where
  "well_behaved i \<longleftrightarrow> (\<forall>h. in_handler i = Sync_function h \<longrightarrow> handler_json h)"

inductive atomic_step :: "(nat list \<Rightarrow> nat list) \<Rightarrow> int \<Rightarrow> op_log \<times> 'db \<Rightarrow> op_log \<times> 'db \<Rightarrow> bool"
  for sha256 :: "nat list \<Rightarrow> nat list" and deadline :: int where
  step_execute: "executeAtomicMutation sha256 i t s = (r, s') \<Longrightarrow> well_behaved i \<Longrightarrow> atomic_step sha256 deadline s s'"
| step_retention: "maintain now ss l = Inr (res, l') \<Longrightarrow> now < deadline \<Longrightarrow> atomic_step sha256 deadline (l, db) (l', db)"
| step_tables: "atomic_step sha256 deadline (l, db) (l, db')"

lemma execute_cases:
  assumes "executeAtomicMutation sha256 i t (l, db) = (r, l', db')" and "well_behaved i" and "\<And>b. byte_list (sha256 b)"
    and "oplog_inv l" and "replies_ok sha256 l"
  obtains (failed) e where "r = Inl e" "l' = l" "db' = db"
  | (replied) args j m n where "committed_row IDENTITY_CODEC sha256 args (result_outcome j m) n \<in> set (log_rows l)"
      "r = Inr \<lparr> am_cookie = JStr (arg_cookie args), am_ran = False, am_result = j, am_rowsAffected = JNum (int m), am_touchedTables = [] \<rparr>"
      "l' = l" "arg_key args = input_key i" "rbind (admitted i db) (after_hooks i False [] l) = Inr db'"
  | (executed) h db0 pv j v c where "in_handler i = Sync_function h" "admitted i db = Inr db0" "placement_vshard (in_placement i) = Inr pv"
      "logged l (input_key i) = None" "run_handler h (starting t db0) = (Inr (Js_json j), v, c)" "violation v = None"
      "r = Inr \<lparr> am_cookie = JStr (in_cookie i), am_ran = True, am_result = j, am_rowsAffected = JNum (int (conn_changes c)),
         am_touchedTables = sort (vol_touched v) \<rparr>"
      "outcome_ok (result_outcome j (conn_changes c))" "assertCdbResultByteLimit j = Inr ()"
      "l' = commit_log IDENTITY_CODEC sha256 (wrapped_args i pv) (result_outcome j (conn_changes c)) l"
      "after_hooks i True (sort (vol_touched v)) l' (conn_db c) = Inr db'"
proof -
  consider (no) e where "r = Inl e" "(l', db') = (l, db)"
    | (yes) h w tables where "in_handler i = Sync_function h" "mutation_transaction sha256 i h t (l, db) = Inr (w, tables, l', db')"
        "r = atomic_reply w tables"
    using assms(1) by (auto simp: executeAtomicMutation_def result_simps split: js_function.splits sum.splits)
  then show thesis
  proof cases
    case no
    then show thesis using failed by simp
  next
    case yes
    have "handler_json h" using assms(2) yes(1) by (simp add: well_behaved_def)
    from yes(2) assms(3-5) this show thesis
    proof (cases rule: transaction_cases)
      case (replayed args j m n)
      then show thesis using replied yes(3) by simp
    next
      case (handled db0 pv j v c)
      then show thesis using executed [OF yes(1) handled(1-5)] yes(3) by auto
    qed
  qed
qed

text \<open>On the log, a call is a step of the wrapper: the histories of \<open>shard_step\<close> cover those of \<open>atomic_step\<close>.\<close>

lemma atomic_step_log:
  assumes "atomic_step sha256 d s s'" and "\<And>b. byte_list (sha256 b)" and "oplog_inv (fst s)" and "replies_ok sha256 (fst s)"
  shows "replies_ok sha256 (fst s') \<and> shard_step IDENTITY_CODEC sha256 d (fst s, ()) (fst s', ())"
  using assms(1)
proof cases
  case (step_execute i t r)
  obtain l db l' db' where s: "s = (l, db)" "s' = (l', db')" by fastforce
  from step_execute(1) [unfolded s] step_execute(2) assms(2) assms(3,4) [unfolded s fst_conv] show ?thesis
  proof (cases rule: execute_cases)
    case (executed h db0 pv j v c)
    let ?o = "result_outcome j (conn_changes c)" and ?a = "wrapped_args i pv"
    have "runWrappedMutation IDENTITY_CODEC sha256 ?a (\<lambda>_. Inr (?o, ())) (l, ()) =
        Inr (\<lparr> ran = True, envelope = mutation_envelope (in_cookie i) ?o \<rparr>, l', ())"
      using assms(2) executed(3,4,10) placement_vshard_ok [of _ pv i]
      by (subst runWrappedMutation_eq) (auto simp: request_hash_def)
    then have "shard_step IDENTITY_CODEC sha256 d (l, ()) (l', ())" by (rule shard_step.step_mutation)
    moreover have "replies_ok sha256 l'"
      using assms(4) executed(8,9,10) s(1) unfolding replies_ok_def commit_log_def by auto
    ultimately show ?thesis using s by simp
  qed (use assms(4) s shard_step.step_domain in auto)
next
  case (step_retention now ss l res l' db)
  then show ?thesis using assms(4) maintain_rows(1) [OF step_retention(3)] shard_step.step_maintain [OF step_retention(3,4)]
    by (auto simp: replies_ok_def)
next
  case (step_tables l db db')
  then show ?thesis using assms(4) shard_step.step_domain by simp
qed

lemma atomic_steps_log:
  assumes "(atomic_step sha256 d)\<^sup>*\<^sup>* s s'" and "\<And>b. byte_list (sha256 b)" and "oplog_inv (fst s)" and "replies_ok sha256 (fst s)"
  shows "replies_ok sha256 (fst s') \<and> (shard_step IDENTITY_CODEC sha256 d)\<^sup>*\<^sup>* (fst s, ()) (fst s', ())"
  using assms(1)
proof (induction rule: rtranclp_induct)
  case base
  then show ?case using assms(4) by simp
next
  case (step s1 s2)
  have "oplog_inv (fst s1)" using identity.shard_steps(1) [of sha256 d "(fst s, ())" "(fst s1, ())"] step.IH assms(2,3) by simp
  then show ?case using atomic_step_log [OF step.hyps(2) assms(2)] step.IH by (meson rtranclp.rtrancl_into_rtrancl)
qed

lemma atomic_reachable:
  assumes "(atomic_step sha256 d)\<^sup>*\<^sup>* (empty_log, db0) (l, db)" and "\<And>b. byte_list (sha256 b)"
  shows "oplog_inv l" "replies_ok sha256 l"
proof -
  have log: "replies_ok sha256 l \<and> (shard_step IDENTITY_CODEC sha256 d)\<^sup>*\<^sup>* (empty_log, ()) (l, ())"
    using atomic_steps_log [OF assms] oplog_inv_empty by (simp add: replies_ok_def empty_log_def)
  then show "replies_ok sha256 l" by simp
  show "oplog_inv l" using identity.shard_steps(1) [of sha256 d "(empty_log, ())" "(l, ())"] log assms(2) oplog_inv_empty by simp
qed

section \<open>Properties\<close>

lemma synchronous_hook: "h \<noteq> Some Async_function \<Longrightarrow> assertSynchronousHook h = Inr ()"
  by (auto simp: assertSynchronousHook_def assertSynchronousHandler_def split: option.splits js_function.splits)

lemma run_trace:
  assumes "run_handler h (starting t db) = (r, v, c)"
  shows "accounted new_volume (t + 1) (write_trace h (starting t db)) v (conn_total c)"
  using run_handler_accounted [of h "fst (starting t db)" "snd (starting t db)"] assms by (simp add: starting_def)

text \<open>
  C20. A mutation is all or nothing. In every reachable state a call that throws leaves the op-log and the tables as they
  were. A call that returns and reports that it ran found no earlier run of its key, was admitted, and its handler
  returned the reported result with at most 256 write statements and 4096 written rows; the tables kept are the ones the
  handler and the hooks made, the log has the reply, and the reported tables are those of the completed
  writes, sorted and without duplicates. A call that returns without running changes the log in nothing.
\<close>

theorem atomic_mutation_outcome:
  assumes "\<And>b. byte_list (sha256 b)" and "(atomic_step sha256 d)\<^sup>*\<^sup>* (empty_log, d0) (l, db)" and "well_behaved i"
    and "executeAtomicMutation sha256 i t (l, db) = (r, l', db')"
  shows "case r of
      Inl e \<Rightarrow> l' = l \<and> db' = db
    | Inr res \<Rightarrow>
        if am_ran res
        then \<exists>h db0 j v c. in_handler i = Sync_function h \<and> admitted i db = Inr db0 \<and> logged l (input_key i) = None \<and>
          run_handler h (starting t db0) = (Inr (Js_json j), v, c) \<and> am_result res = j \<and>
          int (length (completed (write_trace h (starting t db0)))) \<le> CDB_MUTATION_MAX_WRITE_OPERATIONS \<and>
          rows_written (write_trace h (starting t db0)) \<le> CDB_MUTATION_MAX_ROWS_WRITTEN \<and>
          after_hooks i True (am_touchedTables res) l' (conn_db c) = Inr db' \<and> logged l' (input_key i) \<noteq> None \<and>
          sorted (am_touchedTables res) \<and> distinct (am_touchedTables res) \<and>
          set (am_touchedTables res) = fst ` set (completed (write_trace h (starting t db0)))
        else l' = l \<and> logged l (input_key i) \<noteq> None \<and> am_touchedTables res = []"
  using assms(4,3,1) atomic_reachable [OF assms(2,1)]
proof (cases rule: execute_cases)
  case (executed h db0 pv j v c)
  let ?tr = "write_trace h (starting t db0)"
  have acc: "volume_inv v" "set (vol_touched v) = fst ` set (completed ?tr)" "vol_operations v = int (length (completed ?tr))"
      "vol_rows v = rows_written ?tr"
    using run_trace [OF executed(5)] executed(6) volume_inv_new by (simp_all add: accounted_def new_volume_def)
  have "logged l' (input_key i) \<noteq> None" using executed(10) by (auto simp: logged_None commit_log_def)
  moreover have "distinct (vol_touched v)" "vol_operations v \<le> CDB_MUTATION_MAX_WRITE_OPERATIONS" "vol_rows v \<le> CDB_MUTATION_MAX_ROWS_WRITTEN"
    using acc(1) executed(6) by (simp_all add: volume_inv_def)
  ultimately show ?thesis using executed acc(2-4) by simp
next
  case (replied args j m n)
  then show ?thesis by (force simp: logged_None)
qed simp

text \<open>
  C37. The write limits cannot be evaded. Whatever exceptions a handler catches, the closure fails when a write was
  attempted after 256 completed ones or more than 4096 rows were written; otherwise the limits have no
  effect on its outcome.
\<close>

theorem write_limits_enforced:
  assumes "run_handler h (starting t db) = (r, v, c)" and "safe_integer (int (conn_total c))"
  shows "if within 0 0 (write_trace h (starting t db))
    then mutation_run h (new_volume, \<lparr> conn_db = db, conn_changes = 0, conn_total = t \<rparr>) =
      rbind r (\<lambda>ret. if isThenable ret then Inl asyncError
        else rbind (snapshot_result ret) (\<lambda>j. Inr (result_outcome j (conn_changes c), v, c)))
    else \<exists>e. mutation_run h (new_volume, \<lparr> conn_db = db, conn_changes = 0, conn_total = t \<rparr>) = Inl e"
proof -
  have "violation v = None \<longleftrightarrow> within 0 0 (write_trace h (starting t db))"
    using run_trace [OF assms(1)] assms(2) volume_inv_new by (auto simp: accounted_def new_volume_def)
  then show ?thesis
    using assms(1) by (cases r) (auto simp: mutation_run_eq assertWithinLimits_def)
qed

text \<open>
  Retries are answered, not repeated. After a call that ran and returned, and any further calls, cleanups before
  the reply's 24 hours have passed and changes of the tables, a call with the same principal, mutation id and
  canonical request returns the same cookie, result and row count without running its handler; it changes neither the log nor,
  apart from its own admission and outcome hooks, the tables.
\<close>

theorem atomic_mutation_retry:
  assumes "\<And>b. byte_list (sha256 b)" and "(atomic_step sha256 d0)\<^sup>*\<^sup>* (empty_log, db00) (l, db)" and "well_behaved i"
    and "executeAtomicMutation sha256 i t (l, db) = (Inr res, s1)" and "am_ran res"
    and "(atomic_step sha256 d)\<^sup>*\<^sup>* s1 (l2, db2)" and "d \<le> in_nowMs i + CDB_OPLOG_RETENTION_MS"
    and "input_key i' = input_key i" and "canonicalRequest (in_ref i') (in_args i') = canonicalRequest (in_ref i) (in_args i)"
    and "in_handler i' = Sync_function h'" and "in_onWriteSet i' \<noteq> Some Async_function" and "in_onOutcome i' \<noteq> Some Async_function"
    and "rbind (admitted i' db2) (after_hooks i' False [] l2) = Inr db3"
  shows "executeAtomicMutation sha256 i' t' (l2, db2) = (Inr (res\<lparr>am_ran := False, am_touchedTables := []\<rparr>), l2, db3)"
proof -
  have bytes: "byte_list (request_hash sha256 a)" for a using assms(1) by (simp add: request_hash_def)
  obtain l1 db1 where s1: "s1 = (l1, db1)" by fastforce
  note reach = atomic_reachable [OF assms(2,1)]
  from assms(4) [unfolded s1] assms(3,1) reach obtain pv j m tables where run: "logged l (input_key i) = None"
      "res = \<lparr> am_cookie = JStr (in_cookie i), am_ran = True, am_result = j, am_rowsAffected = JNum (int m), am_touchedTables = tables \<rparr>"
      "outcome_ok (result_outcome j m)" "assertCdbResultByteLimit j = Inr ()"
      "l1 = commit_log IDENTITY_CODEC sha256 (wrapped_args i pv) (result_outcome j m) l"
    by (cases rule: execute_cases) (use assms(5) in auto)
  let ?row = "committed_row IDENTITY_CODEC sha256 (wrapped_args i pv) (result_outcome j m) (log_sequence l + 1)"
  have inv1: "oplog_inv l1" using identity.commit_log_inv [OF reach(1)] run(1,5) by simp
  have "replies_ok sha256 l1" using reach(2) run(3-5) unfolding replies_ok_def commit_log_def by auto
  then have steps: "(shard_step IDENTITY_CODEC sha256 d)\<^sup>*\<^sup>* (l1, ()) (l2, ())"
    using atomic_steps_log [OF assms(6) [unfolded s1] assms(1)] inv1 by simp
  have inv2: "oplog_inv l2" using identity.shard_steps(1) [OF steps assms(1)] inv1 by simp
  have "?row \<in> set (log_rows l1)" using run(5) by (simp add: commit_log_def)
  then have row: "?row \<in> set (log_rows l2)" using identity.shard_steps(2) [OF steps assms(1)] inv1 assms(7) by simp
  have key: "arg_key (wrapped_args i' pv') = arg_key (wrapped_args i pv)" for pv' using assms(8) by simp
  obtain db' where adm: "admitted i' db2 = Inr db'" "after_hooks i' False [] l2 db' = Inr db3"
    using assms(13) by (auto simp: result_simps)
  obtain pv' where pv': "placement_vshard (in_placement i') = Inr pv'"
    using that by (cases "in_placement i'") (simp_all add: placement_vshard_def vshardOf_def canonicalConcat_def scalar_bytes_def)
  have fin: "finish_mutation i' \<lparr> ran = False, envelope = mutation_envelope cookie (result_outcome j m) \<rparr> touched l2 db' = Inr ([], db3)"
    for cookie m touched using adm(2) run(4) by (auto simp: finish_mutation_def after_hooks_def result_simps)
  show ?thesis using adm(1) pv' fin assms(9-12) run(2)
    by (simp add: executeAtomicMutation_def mutation_transaction_def synchronous_hook
        identity.replay_committed [OF bytes inv2 row key run(3)])
qed

text \<open>
  A mutation that writes nothing reports one affected row: \<open>changes()\<close> is then that of the insertion
  of its own op-log row.
\<close>

theorem readonly_mutation_rows:
  assumes "\<And>b. byte_list (sha256 b)" and "(atomic_step sha256 d)\<^sup>*\<^sup>* (empty_log, d0) (l, db)" and "json_ok j"
    and "in_handler i = Sync_function (Done (Inr (Js_json j)))"
    and "executeAtomicMutation sha256 i t (l, db) = (Inr res, l', db')" and "am_ran res"
  shows "am_rowsAffected res = JNum 1 \<and> am_touchedTables res = []"
proof -
  have "well_behaved i" using assms(3,4) by (simp add: well_behaved_def handler_json_def starting_def safe_integer_def)
  from assms(5) this assms(1) atomic_reachable [OF assms(2,1)] show ?thesis
    by (cases rule: execute_cases) (use assms(4,6) in \<open>auto simp: starting_def new_volume_def\<close>)
qed

subsection \<open>Witnesses\<close>

definition sample_write :: "nat mutation_handler" where
  "sample_write = Write ''t'' (\<lambda>n. Inr ((2, 3), n + 7)) (\<lambda>r. Write ''s'' (\<lambda>n. Inl SqliteError) (\<lambda>r. Done (Inr (Js_json (JBool True)))))"

definition sample_input :: "nat mutation_handler \<Rightarrow> nat ExecuteAtomicMutationInput" where
  "sample_input h = \<lparr> in_principalId = ''u'', in_mutId = ''m'', in_ref = ''r'', in_args = JNull, in_schemaEpoch = 1,
     in_handler = Sync_function h, in_placement = None, in_cookie = ''c'', in_nowMs = 5, in_beforeRun = None, in_onOutcome = None,
     in_onWriteSet = None \<rparr>"

lemma sample_well_behaved: "well_behaved (sample_input sample_write)"
proof -
  have "j = JBool True \<and> conn_changes c \<le> 2" if "run_handler sample_write (starting t db) = (Inr (Js_json j), v, c)" for t db j v c
    using that by (auto simp: sample_write_def starting_def write_run_def assertMutationTransactionActive_def counted_def
        split: prod.splits sum.splits)
  then have "handler_json sample_write" unfolding handler_json_def safe_integer_def by fastforce
  then show ?thesis by (simp add: well_behaved_def sample_input_def)
qed

definition sample_reply :: AtomicMutationResult where
  "sample_reply = \<lparr> am_cookie = JStr ''c'', am_ran = True, am_result = JBool True, am_rowsAffected = JNum 2, am_touchedTables = [''t''] \<rparr>"

lemma sample_executed: "fst (executeAtomicMutation sample_sha (sample_input sample_write) 0 (empty_log, 0)) = Inr sample_reply"
  by code_simp

lemma sample_execution:
  obtains l' db' where "executeAtomicMutation sample_sha (sample_input sample_write) 0 (empty_log, 0) = (Inr sample_reply, l', db')"
  using sample_executed by (metis prod.collapse)

theorem atomic_mutation_outcome_witness:
  "\<exists>l' db'. executeAtomicMutation sample_sha (sample_input sample_write) 0 (empty_log, 0) = (Inr sample_reply, l', db') \<and>
     logged l' (''u'', ''m'') \<noteq> None"
proof -
  obtain l' db' where run: "executeAtomicMutation sample_sha (sample_input sample_write) 0 (empty_log, 0) = (Inr sample_reply, l', db')"
    by (rule sample_execution)
  show ?thesis using atomic_mutation_outcome [OF sample_sha_bytes rtranclp.rtrancl_refl sample_well_behaved run] run
    by (auto simp: sample_reply_def input_key_def sample_input_def)
qed

text \<open>A handler that writes too many rows and catches the exception.\<close>

theorem write_limits_enforced_witness:
  "\<exists>e. mutation_run (Write ''t'' (\<lambda>n. Inr ((5000, 5000), n)) (\<lambda>r. Done (Inr (Js_json JNull))))
     (new_volume, \<lparr> conn_db = 0 :: nat, conn_changes = 0, conn_total = 0 \<rparr>) = Inl e"
proof -
  let ?h = "Write ''t'' (\<lambda>n. Inr ((5000, 5000), n)) (\<lambda>r. Done (Inr (Js_json JNull))) :: nat mutation_handler"
  obtain r v c where run: "run_handler ?h (starting 0 0) = (r, v, c)" by (metis prod_cases3)
  have "conn_total c = 5001" "write_trace ?h (starting 0 0) = [(''t'', Some 5000)]"
    using run by (simp_all add: starting_def write_run_def assertMutationTransactionActive_def counted_def new_volume_def volume_defs
        statement_rows_def CDB_MUTATION_MAX_WRITE_OPERATIONS_def safe_integer_def split: prod.splits) auto
  then show ?thesis using write_limits_enforced [OF run]
    by (simp add: within_def CDB_MUTATION_MAX_ROWS_WRITTEN_def CDB_MUTATION_MAX_WRITE_OPERATIONS_def safe_integer_def)
qed

theorem atomic_mutation_retry_witness:
  "\<exists>l' db'. executeAtomicMutation sample_sha (sample_input sample_write) 0 (empty_log, 0) = (Inr sample_reply, l', db') \<and>
     executeAtomicMutation sample_sha (sample_input (Done (Inl TypeError))) 9 (l', db') =
       (Inr (sample_reply\<lparr>am_ran := False, am_touchedTables := []\<rparr>), l', db')"
proof -
  obtain l' db' where run: "executeAtomicMutation sample_sha (sample_input sample_write) 0 (empty_log, 0) = (Inr sample_reply, l', db')"
    by (rule sample_execution)
  show ?thesis
    using run atomic_mutation_retry [OF sample_sha_bytes rtranclp.rtrancl_refl sample_well_behaved run _ rtranclp.rtrancl_refl,
        of "5 + CDB_OPLOG_RETENTION_MS" "sample_input (Done (Inl TypeError))" "Done (Inl TypeError)" db' 9]
    by (simp add: sample_reply_def sample_input_def input_key_def admitted_def after_hooks_def call_hook_def)
qed

theorem readonly_mutation_rows_witness:
  "\<exists>res s. executeAtomicMutation sample_sha (sample_input (Done (Inr (Js_json JNull)))) 0 (empty_log, 0) = (Inr res, s) \<and> am_rowsAffected res = JNum 1"
proof -
  let ?i = "sample_input (Done (Inr (Js_json JNull)))"
  have "\<exists>res. fst (executeAtomicMutation sample_sha ?i 0 (empty_log, 0)) = Inr res \<and> am_ran res"
    by (rule exI [of _ "\<lparr> am_cookie = JStr ''c'', am_ran = True, am_result = JNull, am_rowsAffected = JNum 1, am_touchedTables = [] \<rparr>"]) code_simp
  then obtain res l' db' where run: "executeAtomicMutation sample_sha ?i 0 (empty_log, 0) = (Inr res, l', db')" "am_ran res"
    by (metis prod.collapse)
  have "am_rowsAffected res = JNum 1"
    using readonly_mutation_rows [OF sample_sha_bytes rtranclp.rtrancl_refl _ _ run, of JNull] by (simp add: sample_input_def)
  then show ?thesis using run(1) by blast
qed

end
