(* ===== verification/Split_Oplog.thy ===== *)
theory Split_Oplog
  imports Oplog_Retention Base64
begin

text \<open>
  The transfer of mutation outcomes during a range movement, \<^verbatim>\<open>src/src/server/do/cdb-split-oplog-store.ts\<close>. The source
  captures the op-log row of every mutation in the moving range (and, page by page, the rows it already retained); the
  Resharder reads batches, the destination applies them to its own op-log, and acknowledged entries are pruned. A retry
  that arrives at the destination after the cutover then finds the outcome of the run on the source.

  Every function runs inside the caller's transaction. The columns that older releases lack and
  \<open>initializeSplitOpLogAccounting\<close> adds are present in the model. The timestamp columns (\<open>updated_at\<close>, \<open>ts\<close>) are written
  and never read; they are left out.
\<close>

section \<open>Tables\<close>

definition CDB_SPLIT_OPLOG_MAX_ROWS :: int where "CDB_SPLIT_OPLOG_MAX_ROWS = 4096"
definition CDB_SPLIT_OPLOG_MAX_BYTES :: int where "CDB_SPLIT_OPLOG_MAX_BYTES = 64 * 1024 * 1024"
definition CDB_SPLIT_OPLOG_MAX_ROW_BYTES :: int where "CDB_SPLIT_OPLOG_MAX_ROW_BYTES = 1 * 1024 * 1024"
definition CDB_SPLIT_OPLOG_MAX_BATCH_ROWS :: int where "CDB_SPLIT_OPLOG_MAX_BATCH_ROWS = 64"
definition CDB_SPLIT_OPLOG_MAX_BATCH_BYTES :: int where "CDB_SPLIT_OPLOG_MAX_BATCH_BYTES = 4 * 1024 * 1024"

record split_oplog_row =
  so_lsn :: int
  so_mig_id :: string
  so_oplog_row :: "nat list"

record split_oplog_key =
  sk_mig_id :: string
  sk_principal_id :: string
  sk_mut_id :: string
  sk_lsn :: int

record split_oplog_accounting =
  sa_mig_id :: string
  sa_acked_lsn :: int
  sa_retained_rows :: int
  sa_retained_bytes :: int
  sa_seed_after_event_id :: int
  sa_seed_max_event_id :: int
  sa_seed_done :: int

record split_oplog_cursor =
  sc_mig_id :: string
  sc_range_lo :: int
  sc_range_hi :: int
  sc_applied_lsn :: int
  sc_applied_rows :: int

record split_oplog_applied =
  sp_mig_id :: string
  sp_principal_id :: string
  sp_mut_id :: string
  sp_inserted :: int

text \<open>The tables of one shard; \<open>split_sequence\<close> is the AUTOINCREMENT counter of \<open>_chardb_split_oplog\<close>.\<close>

record split_tables =
  split_state :: "split_state_row list"
  split_oplog :: "split_oplog_row list"
  split_sequence :: int
  split_keys :: "split_oplog_key list"
  split_accounting :: "split_oplog_accounting list"
  split_cursors :: "split_oplog_cursor list"
  split_applied :: "split_oplog_applied list"

definition split_key :: "split_oplog_key \<Rightarrow> string \<times> string \<times> string" where
  "split_key r = (sk_mig_id r, sk_principal_id r, sk_mut_id r)"

definition split_key_check :: "split_oplog_key list \<Rightarrow> split_oplog_key \<Rightarrow> bool" where
  "split_key_check t r \<longleftrightarrow> 0 < sk_lsn r \<and> (\<forall>s \<in> set t. sk_lsn s \<noteq> sk_lsn r)"

definition accounting_check :: "split_oplog_accounting \<Rightarrow> bool" where
  "accounting_check a \<longleftrightarrow> 0 \<le> sa_acked_lsn a \<and> 0 \<le> sa_retained_rows a \<and> 0 \<le> sa_retained_bytes a \<and>
     0 \<le> sa_seed_after_event_id a \<and> 0 \<le> sa_seed_max_event_id a \<and> sa_seed_done a \<in> {0, 1}"

definition cursor_check :: "split_oplog_cursor \<Rightarrow> bool" where
  "cursor_check r \<longleftrightarrow> 0 \<le> sc_range_lo r \<and> sc_range_lo r < 16384 \<and> sc_range_lo r \<le> sc_range_hi r \<and> sc_range_hi r < 16384 \<and>
     0 \<le> sc_applied_lsn r \<and> 0 \<le> sc_applied_rows r"

definition applied_key :: "split_oplog_applied \<Rightarrow> string \<times> string \<times> string" where
  "applied_key r = (sp_mig_id r, sp_principal_id r, sp_mut_id r)"

definition applied_check :: "split_oplog_applied \<Rightarrow> bool" where
  "applied_check r \<longleftrightarrow> sp_inserted r \<in> {0, 1}"

section \<open>Errors and guards\<close>

definition split_invalid :: js_error where "split_invalid = Cdb CDB_INVALID_ARGS"
definition split_invariant :: js_error where "split_invariant = Cdb CDB_INVARIANT"
definition split_collision :: js_error where "split_collision = Cdb CDB_MUT_ID_COLLISION"
definition splitBacklog :: js_error where "splitBacklog = Cdb CDB_RATE_LIMITED"
definition splitPhase :: js_error where "splitPhase = Cdb CDB_RESHARD_PHASE_MISMATCH"

definition split_assertVshard :: "int \<Rightarrow> unit res" where
  "split_assertVshard v = ensure (safe_integer v \<and> 0 \<le> v \<and> v < VSHARD_COUNT) split_invalid"

definition split_assertRange :: "int \<Rightarrow> int \<Rightarrow> unit res" where
  "split_assertRange l h = rbind (split_assertVshard l) (\<lambda>_. rbind (split_assertVshard h) (\<lambda>_. ensure (l \<le> h) split_invalid))"

definition assertCursor :: "int \<Rightarrow> unit res" where
  "assertCursor v = ensure (safe_integer v \<and> 0 \<le> v) split_invalid"

section \<open>Captured rows\<close>

record captured_row =
  cr_vshard :: int
  cr_principalId :: string
  cr_mutId :: string
  cr_payloadHash :: "nat list"
  cr_payloadEnc :: "nat list"
  cr_committedAt :: int
  cr_schemaEpoch :: int
  cr_touchedKeys :: string
  cr_byteSize :: int

text \<open>\<open>String.fromCharCode\<close> of the bytes, in chunks, then \<open>btoa\<close>.\<close>

definition bytesToBase64 :: "nat list \<Rightarrow> string" where
  "bytesToBase64 b = btoa b"

definition base64ToBytes :: "string \<Rightarrow> nat list res" where
  "base64ToBytes v = (case atob v of Inl _ \<Rightarrow> Inl split_invariant | Inr b \<Rightarrow> Inr b)"

definition captured_json :: "op_log_row \<Rightarrow> int \<Rightarrow> json" where
  "captured_json row vshard = JObj [(''v'', JNum 1), (''vshard'', JNum vshard), (''principalId'', JStr (ev_principal_id row)),
     (''mutId'', JStr (ev_mut_id row)), (''payloadHash'', JStr (bytesToBase64 (ev_payload_hash row))),
     (''payloadEnc'', JStr (bytesToBase64 (ev_payload_enc row))), (''committedAt'', JNum (ev_committed_at row)),
     (''schemaEpoch'', JNum (ev_schema_epoch row)), (''touchedKeys'', JStr (ev_touched_keys row)), (''byteSize'', JNum (ev_byte_size row))]"

definition encodeCapturedRow :: "op_log_row \<Rightarrow> int \<Rightarrow> nat list res" where
  "encodeCapturedRow row vshard =
     rbind (ensure (length (ev_payload_hash row) = 32 \<and> 1 \<le> length (ev_payload_enc row) \<and>
         safe_integer (ev_committed_at row) \<and> 0 \<le> ev_committed_at row \<and> safe_integer (ev_schema_epoch row) \<and> 1 \<le> ev_schema_epoch row \<and>
         safe_integer (ev_byte_size row) \<and> ev_byte_size row = int (length (ev_payload_enc row)) \<and> ev_placement_vshard row = Some vshard)
       split_invariant) (\<lambda>_. Inr (utf8 (stringify (captured_json row vshard))))"

text \<open>Reading typed fields of the parsed object: \<open>typeof v === "string"\<close>, \<open>Number.isSafeInteger(v)\<close>.\<close>

definition string_field :: "(string \<times> json) list \<Rightarrow> string \<Rightarrow> string option" where
  "string_field ps k = (case map_of ps k of Some (JStr s) \<Rightarrow> Some s | _ \<Rightarrow> None)"

definition integer_field :: "(string \<times> json) list \<Rightarrow> string \<Rightarrow> int option" where
  "integer_field ps k = (case map_of ps k of Some (JNum n) \<Rightarrow> if safe_integer n then Some n else None | _ \<Rightarrow> None)"

definition expected_keys :: "string list" where
  "expected_keys = [''byteSize'', ''committedAt'', ''mutId'', ''payloadEnc'', ''payloadHash'', ''principalId'', ''schemaEpoch'',
     ''touchedKeys'', ''v'', ''vshard'']"

text \<open>
  The source decodes with a \<open>TextDecoder\<close> that replaces malformed UTF-8, and parses what it gets; here malformed UTF-8 is refused,
  with the error the source has for text that is not JSON. The two agree on every row a source captured, which is well-formed
  UTF-8 (\<open>decode_encode\<close> below); on other bytes the source may accept a row with replacement characters in its strings.
\<close>

definition decodeCapturedRow :: "nat list \<Rightarrow> captured_row res" where
  "decodeCapturedRow bytes =
     (case utf8_decode bytes of
        None \<Rightarrow> Inl split_invariant
      | Some text \<Rightarrow>
          (case JSON_parse text of
             Inr (JObj ps) \<Rightarrow>
               rbind (ensure (sort (map fst ps) = sort expected_keys) split_invariant) (\<lambda>_.
               case (integer_field ps ''v'', string_field ps ''principalId'', string_field ps ''mutId'', string_field ps ''payloadHash'',
                   string_field ps ''payloadEnc'', integer_field ps ''committedAt'', integer_field ps ''schemaEpoch'',
                   string_field ps ''touchedKeys'', integer_field ps ''byteSize'', integer_field ps ''vshard'') of
                 (Some v, Some principalId, Some mutId, Some hash64, Some enc64, Some committedAt, Some schemaEpoch, Some touched,
                   Some byteSize, Some vshard) \<Rightarrow>
                   rbind (ensure (v = 1 \<and> 0 \<le> committedAt \<and> 1 \<le> schemaEpoch \<and> 1 \<le> byteSize) split_invariant) (\<lambda>_.
                   rbind (split_assertVshard vshard) (\<lambda>_.
                   rbind (base64ToBytes hash64) (\<lambda>payloadHash.
                   rbind (base64ToBytes enc64) (\<lambda>payloadEnc.
                   rbind (ensure (length payloadHash = 32 \<and> int (length payloadEnc) = byteSize) split_invariant) (\<lambda>_.
                   Inr \<lparr> cr_vshard = vshard, cr_principalId = principalId, cr_mutId = mutId, cr_payloadHash = payloadHash,
                     cr_payloadEnc = payloadEnc, cr_committedAt = committedAt, cr_schemaEpoch = schemaEpoch,
                     cr_touchedKeys = touched, cr_byteSize = byteSize \<rparr>)))))
               | _ \<Rightarrow> Inl split_invariant)
           | _ \<Rightarrow> Inl split_invariant))"

definition sameOpLogRow :: "op_log_row \<Rightarrow> captured_row \<Rightarrow> bool" where
  "sameOpLogRow stored incoming \<longleftrightarrow> ev_principal_id stored = cr_principalId incoming \<and> ev_mut_id stored = cr_mutId incoming \<and>
     bytesEq (ev_payload_hash stored) (cr_payloadHash incoming) \<and> bytesEq (ev_payload_enc stored) (cr_payloadEnc incoming) \<and>
     ev_committed_at stored = cr_committedAt incoming \<and> ev_schema_epoch stored = cr_schemaEpoch incoming \<and>
     ev_touched_keys stored = cr_touchedKeys incoming \<and> ev_byte_size stored = cr_byteSize incoming \<and>
     ev_placement_vshard stored = Some (cr_vshard incoming)"

section \<open>The source\<close>

record SplitOpLogEntry =
  en_lsn :: int
  en_oplogRow :: "nat list"

record SplitOpLogBatch =
  ba_entries :: "SplitOpLogEntry list"
  ba_lastLsn :: int
  ba_done :: bool

record SplitOpLogApplyResult =
  ap_applied :: int
  ap_replayed :: int
  ap_lastLsn :: int

record SplitOpLogAckResult =
  ak_pruned :: int
  ak_prunedBytes :: int
  ak_ackedLsn :: int

definition accounting_ok :: "split_oplog_accounting \<Rightarrow> bool" where
  "accounting_ok a \<longleftrightarrow> safe_integer (sa_acked_lsn a) \<and> safe_integer (sa_retained_rows a) \<and> safe_integer (sa_retained_bytes a) \<and>
     safe_integer (sa_seed_after_event_id a) \<and> safe_integer (sa_seed_max_event_id a) \<and> 0 \<le> sa_acked_lsn a \<and> 0 \<le> sa_retained_rows a \<and>
     0 \<le> sa_retained_bytes a \<and> 0 \<le> sa_seed_after_event_id a \<and> sa_seed_after_event_id a \<le> sa_seed_max_event_id a \<and>
     sa_seed_done a \<in> {0, 1} \<and> sa_retained_rows a \<le> CDB_SPLIT_OPLOG_MAX_ROWS \<and> sa_retained_bytes a \<le> CDB_SPLIT_OPLOG_MAX_BYTES"

definition requiredSourceAccounting :: "string \<Rightarrow> split_tables \<Rightarrow> split_oplog_accounting res" where
  "requiredSourceAccounting migId s = (case sql_one (\<lambda>a. sa_mig_id a = migId) (split_accounting s) of
       None \<Rightarrow> Inl split_invariant
     | Some a \<Rightarrow> if accounting_ok a then Inr a else Inl split_invariant)"

definition new_accounting :: "string \<Rightarrow> int \<Rightarrow> split_oplog_accounting" where
  "new_accounting migId maxEventId = \<lparr> sa_mig_id = migId, sa_acked_lsn = 0, sa_retained_rows = 0, sa_retained_bytes = 0,
     sa_seed_after_event_id = 0, sa_seed_max_event_id = maxEventId, sa_seed_done = (if maxEventId = 0 then 1 else 0) \<rparr>"

text \<open>\<open>INSERT OR IGNORE\<close> into the accounting table.\<close>

definition accounting_insert_or_ignore :: "split_oplog_accounting \<Rightarrow> split_tables \<Rightarrow> split_tables" where
  "accounting_insert_or_ignore a s = (case sql_insert sa_mig_id accounting_check a (split_accounting s) of
       Inl _ \<Rightarrow> s | Inr t \<Rightarrow> s\<lparr>split_accounting := t\<rparr>)"

definition ensureSourceAccounting :: "string \<Rightarrow> split_tables \<Rightarrow> split_tables" where
  "ensureSourceAccounting migId s = accounting_insert_or_ignore (new_accounting migId 0) s"

definition retain :: "int \<Rightarrow> split_oplog_accounting \<Rightarrow> split_oplog_accounting" where
  "retain n a = a\<lparr>sa_retained_rows := sa_retained_rows a + 1, sa_retained_bytes := sa_retained_bytes a + n\<rparr>"

definition captureEncodedForMigration :: "string \<Rightarrow> string \<Rightarrow> string \<Rightarrow> nat list \<Rightarrow> split_tables \<Rightarrow> (int \<times> split_tables) res" where
  "captureEncodedForMigration migId principalId mutId encoded s =
     (let n = int (length encoded) in
      case sql_one (\<lambda>k. split_key k = (migId, principalId, mutId)) (split_keys s) of
        Some prior \<Rightarrow>
          (case sql_one (\<lambda>r. so_mig_id r = migId \<and> so_lsn r = sk_lsn prior) (split_oplog s) of
             None \<Rightarrow> Inl split_collision
           | Some captured \<Rightarrow> if \<not> bytesEq (so_oplog_row captured) encoded then Inl split_collision else Inr (0, s))
      | None \<Rightarrow>
          rbind (requiredSourceAccounting migId s) (\<lambda>_.
          let p = (\<lambda>a. sa_mig_id a = migId \<and> sa_retained_rows a < CDB_SPLIT_OPLOG_MAX_ROWS \<and>
                sa_retained_bytes a \<le> CDB_SPLIT_OPLOG_MAX_BYTES - n) in
          rbind (sql_update_checked accounting_check p (retain n) (split_accounting s)) (\<lambda>accounting.
          rbind (ensure (sql_changes p (split_accounting s) = 1) splitBacklog) (\<lambda>_.
          let lsn = split_sequence s + 1 in
          rbind (ensure (safe_integer lsn \<and> 1 \<le> lsn) split_invariant) (\<lambda>_.
          rbind (sql_insert split_key (split_key_check (split_keys s))
              \<lparr> sk_mig_id = migId, sk_principal_id = principalId, sk_mut_id = mutId, sk_lsn = lsn \<rparr> (split_keys s)) (\<lambda>keys.
          Inr (1, s\<lparr>split_accounting := accounting, split_sequence := lsn,
            split_oplog := split_oplog s @ [\<lparr> so_lsn = lsn, so_mig_id = migId, so_oplog_row = encoded \<rparr>], split_keys := keys\<rparr>)))))))"

definition capturing :: "int \<Rightarrow> split_tables \<Rightarrow> split_state_row list" where
  "capturing vshard s = take 2 (sort_key ss_mig_id (filter (\<lambda>r. ss_role r = Role_source \<and> ss_capture r = 1 \<and> ss_drained r = 0 \<and>
     ss_range_lo r \<le> vshard \<and> vshard \<le> ss_range_hi r) (split_state s)))"

definition captureSplitOpLogOutcome :: "string \<Rightarrow> string \<Rightarrow> int \<Rightarrow> op_log \<Rightarrow> split_tables \<Rightarrow> (int \<times> split_tables) res" where
  "captureSplitOpLogOutcome principalId mutId vshard l s =
     rbind (split_assertVshard vshard) (\<lambda>_.
     let splits = capturing vshard s in
     rbind (ensure (length splits \<le> 1) split_invariant) (\<lambda>_.
     case splits of
       [] \<Rightarrow> Inr (0, s)
     | split # _ \<Rightarrow>
         (case sql_one (\<lambda>r. op_key r = (principalId, mutId)) (log_rows l) of
            None \<Rightarrow> Inl split_invariant
          | Some row \<Rightarrow>
              rbind (encodeCapturedRow row vshard) (\<lambda>encoded.
              rbind (ensure (int (length encoded) \<le> CDB_SPLIT_OPLOG_MAX_ROW_BYTES) splitBacklog) (\<lambda>_.
              captureEncodedForMigration (ss_mig_id split) principalId mutId encoded (ensureSourceAccounting (ss_mig_id split) s))))))"

definition in_placement_range :: "int \<Rightarrow> int \<Rightarrow> op_log_row \<Rightarrow> bool" where
  "in_placement_range l h r = (case ev_placement_vshard r of None \<Rightarrow> False | Some v \<Rightarrow> l \<le> v \<and> v \<le> h)"

definition seedSplitOpLogRange :: "string \<Rightarrow> int \<Rightarrow> int \<Rightarrow> op_log \<Rightarrow> split_tables \<Rightarrow> (int \<times> split_tables) res" where
  "seedSplitOpLogRange migId l h log s =
     rbind (split_assertRange l h) (\<lambda>_.
     if sql_one (\<lambda>a. sa_mig_id a = migId) (split_accounting s) \<noteq> None then Inr (0, s)
     else (let ids = map ev_event_id (filter (in_placement_range l h) (log_rows log));
               maxEventId = (if ids = [] then 0 else Max (set ids)) in
       rbind (ensure (safe_integer maxEventId \<and> 0 \<le> maxEventId) split_invariant) (\<lambda>_.
       Inr (0, accounting_insert_or_ignore (new_accounting migId maxEventId) s))))"

text \<open>The loop of \<open>seedSplitOpLogPage\<close>: it carries the count, the cursor and the retained bytes, and may break.\<close>

fun seed_rows :: "string \<Rightarrow> op_log_row list \<Rightarrow> int \<Rightarrow> int \<Rightarrow> int \<Rightarrow> split_tables \<Rightarrow> (int \<times> int \<times> split_tables) res" where
  "seed_rows migId [] captured afterEventId retainedBytes s = Inr (captured, afterEventId, s)"
| "seed_rows migId (row # rows) captured afterEventId retainedBytes s =
     (case ev_placement_vshard row of
        None \<Rightarrow> Inl split_invalid
      | Some vshard \<Rightarrow>
          rbind (split_assertVshard vshard) (\<lambda>_.
          rbind (ensure (safe_integer (ev_event_id row) \<and> afterEventId < ev_event_id row) split_invariant) (\<lambda>_.
          rbind (encodeCapturedRow row vshard) (\<lambda>encoded.
          rbind (ensure (int (length encoded) \<le> CDB_SPLIT_OPLOG_MAX_ROW_BYTES) splitBacklog) (\<lambda>_.
          if CDB_SPLIT_OPLOG_MAX_BYTES < retainedBytes + int (length encoded) then Inr (captured, afterEventId, s)
          else rbind (captureEncodedForMigration migId (ev_principal_id row) (ev_mut_id row) encoded s) (\<lambda>(n, s1).
            seed_rows migId rows (captured + n) (ev_event_id row) (retainedBytes + int (length encoded)) s1))))))"

definition seed_page_rows :: "split_state_row \<Rightarrow> split_oplog_accounting \<Rightarrow> int \<Rightarrow> op_log \<Rightarrow> op_log_row list" where
  "seed_page_rows state accounting availableRows l =
     take (nat (min CDB_SPLIT_OPLOG_MAX_BATCH_ROWS availableRows)) (sort_key ev_event_id
       (filter (\<lambda>r. in_placement_range (ss_range_lo state) (ss_range_hi state) r \<and> sa_seed_after_event_id accounting < ev_event_id r \<and>
          ev_event_id r \<le> sa_seed_max_event_id accounting) (log_rows l)))"

definition advance_seed :: "string \<Rightarrow> split_oplog_accounting \<Rightarrow> int \<Rightarrow> bool \<Rightarrow> split_tables \<Rightarrow> split_tables res" where
  "advance_seed migId accounting afterEventId finished s =
     (let p = (\<lambda>a. sa_mig_id a = migId \<and> sa_seed_after_event_id a = sa_seed_after_event_id accounting \<and> sa_seed_done a = 0) in
      rbind (sql_update_checked accounting_check p
          (\<lambda>a. a\<lparr>sa_seed_after_event_id := afterEventId, sa_seed_done := (if finished then 1 else 0)\<rparr>) (split_accounting s)) (\<lambda>t.
      rbind (ensure (sql_changes p (split_accounting s) = 1) split_invariant) (\<lambda>_. Inr (s\<lparr>split_accounting := t\<rparr>))))"

definition seedSplitOpLogPage :: "string \<Rightarrow> op_log \<Rightarrow> split_tables \<Rightarrow> (int \<times> split_tables) res" where
  "seedSplitOpLogPage migId l s =
     rbind (requiredSourceAccounting migId s) (\<lambda>accounting.
     if sa_seed_done accounting = 1 then Inr (0, s)
     else (case sql_one (\<lambda>r. ss_mig_id r = migId \<and> ss_role r = Role_source \<and> ss_drained r = 0) (split_state s) of
         None \<Rightarrow> Inl split_invariant
       | Some state \<Rightarrow>
           rbind (split_assertRange (ss_range_lo state) (ss_range_hi state)) (\<lambda>_.
           let availableRows = CDB_SPLIT_OPLOG_MAX_ROWS - sa_retained_rows accounting in
           if availableRows < 1 then Inr (0, s)
           else (let rows = seed_page_rows state accounting availableRows l in
             rbind (seed_rows migId rows 0 (sa_seed_after_event_id accounting) (sa_retained_bytes accounting) s) (\<lambda>(captured, afterEventId, s1).
             rbind (advance_seed migId accounting afterEventId (sa_seed_max_event_id accounting \<le> afterEventId \<or> rows = []) s1) (\<lambda>s2.
             Inr (captured, s2)))))))"

definition row_bytes :: "split_oplog_row \<Rightarrow> int" where
  "row_bytes r = int (length (so_oplog_row r))"

definition ackSplitOpLog :: "string \<Rightarrow> int \<Rightarrow> split_tables \<Rightarrow> (SplitOpLogAckResult \<times> split_tables) res" where
  "ackSplitOpLog migId throughLsn s =
     rbind (assertCursor throughLsn) (\<lambda>_.
     rbind (requiredSourceAccounting migId s) (\<lambda>accounting.
     rbind (ensure (sa_acked_lsn accounting \<le> throughLsn) split_invalid) (\<lambda>_.
     if throughLsn = sa_acked_lsn accounting then Inr (\<lparr> ak_pruned = 0, ak_prunedBytes = 0, ak_ackedLsn = throughLsn \<rparr>, s)
     else
       rbind (ensure (sql_one (\<lambda>r. so_mig_id r = migId \<and> so_lsn r = throughLsn) (split_oplog s) \<noteq> None) split_invalid) (\<lambda>_.
       let rows = take (nat (CDB_SPLIT_OPLOG_MAX_ROWS + 1)) (sort_key so_lsn
             (filter (\<lambda>r. so_mig_id r = migId \<and> sa_acked_lsn accounting < so_lsn r \<and> so_lsn r \<le> throughLsn) (split_oplog s)));
           n = int (length rows); bytes = sum_list (map row_bytes rows);
           old = (\<lambda>r. so_mig_id r = migId \<and> so_lsn r \<le> throughLsn);
           p = (\<lambda>a. sa_mig_id a = migId \<and> sa_acked_lsn a = sa_acked_lsn accounting \<and> n \<le> sa_retained_rows a \<and> bytes \<le> sa_retained_bytes a) in
       rbind (ensure (1 \<le> n \<and> n \<le> CDB_SPLIT_OPLOG_MAX_ROWS) split_invariant) (\<lambda>_.
       rbind (ensure (\<forall>r \<in> set rows. safe_integer (row_bytes r) \<and> 1 \<le> row_bytes r) split_invariant) (\<lambda>_.
       rbind (ensure (safe_integer bytes \<and> n \<le> sa_retained_rows accounting \<and> bytes \<le> sa_retained_bytes accounting) split_invariant) (\<lambda>_.
       rbind (ensure (int (sql_changes old (split_oplog s)) = n) split_invariant) (\<lambda>_.
       rbind (sql_update_checked accounting_check p (\<lambda>a. a\<lparr>sa_acked_lsn := throughLsn, sa_retained_rows := sa_retained_rows a - n,
           sa_retained_bytes := sa_retained_bytes a - bytes\<rparr>) (split_accounting s)) (\<lambda>t.
       rbind (ensure (sql_changes p (split_accounting s) = 1) split_invariant) (\<lambda>_.
       Inr (\<lparr> ak_pruned = n, ak_prunedBytes = bytes, ak_ackedLsn = throughLsn \<rparr>,
         s\<lparr>split_keys := sql_delete (\<lambda>k. sk_mig_id k = migId \<and> sk_lsn k \<le> throughLsn) (split_keys s),
           split_oplog := sql_delete old (split_oplog s), split_accounting := t\<rparr>)))))))))))"

text \<open>The loop of \<open>readSplitOpLogBatch\<close>: it stops at the limit, or before the first further row that exceeds the bytes.\<close>

fun batch_rows :: "int \<Rightarrow> split_oplog_row list \<Rightarrow> SplitOpLogEntry list \<Rightarrow> int \<Rightarrow> SplitOpLogEntry list res" where
  "batch_rows limit [] entries bytes = Inr entries"
| "batch_rows limit (row # rows) entries bytes =
     (if limit \<le> int (length entries) then Inr entries
      else
        rbind (assertCursor (so_lsn row)) (\<lambda>_.
        rbind (ensure (1 \<le> row_bytes row \<and> row_bytes row \<le> CDB_SPLIT_OPLOG_MAX_ROW_BYTES) split_invariant) (\<lambda>_.
        if entries \<noteq> [] \<and> CDB_SPLIT_OPLOG_MAX_BATCH_BYTES < bytes + row_bytes row then Inr entries
        else batch_rows limit rows (entries @ [\<lparr> en_lsn = so_lsn row, en_oplogRow = so_oplog_row row \<rparr>]) (bytes + row_bytes row))))"

definition last_lsn :: "SplitOpLogEntry list \<Rightarrow> int \<Rightarrow> int" where
  "last_lsn entries afterLsn = (if entries = [] then afterLsn else en_lsn (last entries))"

definition readSplitOpLogBatch :: "string \<Rightarrow> int \<Rightarrow> int \<Rightarrow> op_log \<Rightarrow> split_tables \<Rightarrow> (SplitOpLogBatch \<times> split_tables) res" where
  "readSplitOpLogBatch migId afterLsn limit l s =
     rbind (assertCursor afterLsn) (\<lambda>_.
     rbind (ensure (safe_integer limit \<and> 1 \<le> limit \<and> limit \<le> CDB_SPLIT_OPLOG_MAX_BATCH_ROWS) split_invalid) (\<lambda>_.
     rbind (seedSplitOpLogPage migId l s) (\<lambda>(_, s1).
     let rows = take (nat (limit + 1)) (sort_key so_lsn (filter (\<lambda>r. so_mig_id r = migId \<and> afterLsn < so_lsn r) (split_oplog s1))) in
     rbind (batch_rows limit rows [] 0) (\<lambda>entries.
     let lastLsn = last_lsn entries afterLsn;
         remains = sql_one (\<lambda>r. so_mig_id r = migId \<and> lastLsn < so_lsn r) (split_oplog s1) in
     rbind (requiredSourceAccounting migId s1) (\<lambda>accounting.
     Inr (\<lparr> ba_entries = entries, ba_lastLsn = lastLsn, ba_done = (remains = None \<and> sa_seed_done accounting = 1) \<rparr>, s1))))))"

definition finalizeSplitOpLogSource :: "string \<Rightarrow> split_tables \<Rightarrow> split_tables" where
  "finalizeSplitOpLogSource migId s = s\<lparr>split_keys := sql_delete (\<lambda>k. sk_mig_id k = migId) (split_keys s),
     split_oplog := sql_delete (\<lambda>r. so_mig_id r = migId) (split_oplog s),
     split_accounting := sql_delete (\<lambda>a. sa_mig_id a = migId) (split_accounting s)\<rparr>"

text \<open>The recovery of the accounting when an isolate starts: count the retained rows of the active split again.\<close>

fun recount_rows :: "int \<Rightarrow> split_oplog_row list \<Rightarrow> int \<Rightarrow> int res" where
  "recount_rows ackedLsn [] bytes = Inr bytes"
| "recount_rows ackedLsn (row # rows) bytes =
     rbind (assertCursor (so_lsn row)) (\<lambda>_.
     rbind (ensure (ackedLsn < so_lsn row) split_invariant) (\<lambda>_.
     rbind (ensure (safe_integer (row_bytes row) \<and> 1 \<le> row_bytes row \<and> row_bytes row \<le> CDB_SPLIT_OPLOG_MAX_ROW_BYTES) split_invariant) (\<lambda>_.
     rbind (ensure (safe_integer (bytes + row_bytes row) \<and> bytes + row_bytes row \<le> CDB_SPLIT_OPLOG_MAX_BYTES) splitPhase) (\<lambda>_.
     recount_rows ackedLsn rows (bytes + row_bytes row)))))"

definition recount :: "string \<Rightarrow> split_tables \<Rightarrow> split_tables res" where
  "recount migId s =
     (let prior = sql_one (\<lambda>a. sa_mig_id a = migId) (split_accounting s);
          ackedLsn = (case prior of None \<Rightarrow> 0 | Some a \<Rightarrow> sa_acked_lsn a);
          rows = take (nat (CDB_SPLIT_OPLOG_MAX_ROWS + 1)) (sort_key so_lsn (filter (\<lambda>r. so_mig_id r = migId) (split_oplog s))) in
      rbind (assertCursor ackedLsn) (\<lambda>_.
      rbind (ensure (int (length rows) \<le> CDB_SPLIT_OPLOG_MAX_ROWS) splitPhase) (\<lambda>_.
      rbind (recount_rows ackedLsn rows 0) (\<lambda>bytes.
      case prior of
        None \<Rightarrow> rbind (sql_insert sa_mig_id accounting_check ((new_accounting migId 0)\<lparr>sa_retained_rows := int (length rows), sa_retained_bytes := bytes\<rparr>)
            (split_accounting s)) (\<lambda>t. Inr (s\<lparr>split_accounting := t\<rparr>))
      | Some _ \<Rightarrow> rbind (sql_update_checked accounting_check (\<lambda>a. sa_mig_id a = migId)
            (\<lambda>a. a\<lparr>sa_retained_rows := int (length rows), sa_retained_bytes := bytes\<rparr>) (split_accounting s)) (\<lambda>t. Inr (s\<lparr>split_accounting := t\<rparr>))))))"

definition initializeSplitOpLogAccounting :: "split_tables \<Rightarrow> split_tables res" where
  "initializeSplitOpLogAccounting s =
     (let active = take 2 (sort_key ss_mig_id (filter (\<lambda>r. ss_role r = Role_source \<and> ss_drained r = 0) (split_state s))) in
      rbind (ensure (length active \<le> 1) splitPhase) (\<lambda>_.
      rfold (\<lambda>state s. recount (ss_mig_id state) s) active s))"

section \<open>The destination\<close>

definition requiredCursor :: "string \<Rightarrow> split_tables \<Rightarrow> split_oplog_cursor res" where
  "requiredCursor migId s = (case sql_one (\<lambda>r. sc_mig_id r = migId) (split_cursors s) of
       None \<Rightarrow> Inl split_invariant
     | Some r \<Rightarrow> rbind (split_assertRange (sc_range_lo r) (sc_range_hi r)) (\<lambda>_. rbind (assertCursor (sc_applied_lsn r)) (\<lambda>_. Inr r)))"

definition beginSplitOpLogDestination :: "string \<Rightarrow> int \<Rightarrow> int \<Rightarrow> split_tables \<Rightarrow> split_tables res" where
  "beginSplitOpLogDestination migId l h s =
     rbind (split_assertRange l h) (\<lambda>_.
     let s1 = (case sql_insert sc_mig_id cursor_check
             \<lparr> sc_mig_id = migId, sc_range_lo = l, sc_range_hi = h, sc_applied_lsn = 0, sc_applied_rows = 0 \<rparr> (split_cursors s) of
           Inl _ \<Rightarrow> s | Inr t \<Rightarrow> s\<lparr>split_cursors := t\<rparr>) in
     rbind (requiredCursor migId s1) (\<lambda>cursor.
     rbind (ensure (sc_range_lo cursor = l \<and> sc_range_hi cursor = h) split_invariant) (\<lambda>_. Inr s1)))"

text \<open>The validation of a batch: strictly increasing LSNs, sizes within the limits, every row decodes into the range.\<close>

fun decode_entries :: "int \<Rightarrow> int \<Rightarrow> SplitOpLogEntry list \<Rightarrow> int \<Rightarrow> int \<Rightarrow> (int \<times> captured_row) list res" where
  "decode_entries l h [] previousLsn encodedBytes = Inr []"
| "decode_entries l h (e # es) previousLsn encodedBytes =
     rbind (assertCursor (en_lsn e)) (\<lambda>_.
     rbind (ensure (previousLsn < en_lsn e) split_invalid) (\<lambda>_.
     let n = int (length (en_oplogRow e)) in
     rbind (ensure (1 \<le> n \<and> n \<le> CDB_SPLIT_OPLOG_MAX_ROW_BYTES \<and> encodedBytes + n \<le> CDB_SPLIT_OPLOG_MAX_BATCH_BYTES) split_invalid) (\<lambda>_.
     rbind (decodeCapturedRow (en_oplogRow e)) (\<lambda>row.
     rbind (ensure (l \<le> cr_vshard row \<and> cr_vshard row \<le> h) split_invariant) (\<lambda>_.
     rbind (decode_entries l h es (en_lsn e) (encodedBytes + n)) (\<lambda>rest. Inr ((en_lsn e, row) # rest)))))))"

definition reconstructed :: "captured_row \<Rightarrow> op_log_row" where
  "reconstructed row = \<lparr> ev_event_id = 0, ev_principal_id = cr_principalId row, ev_mut_id = cr_mutId row, ev_payload_hash = cr_payloadHash row,
     ev_payload_enc = cr_payloadEnc row, ev_committed_at = cr_committedAt row, ev_schema_epoch = cr_schemaEpoch row,
     ev_touched_keys = cr_touchedKeys row, ev_byte_size = cr_byteSize row, ev_placement_vshard = Some (cr_vshard row) \<rparr>"

text \<open>One entry: 1 when its row was inserted, 0 when the identical row was already there.\<close>

definition apply_entry :: "string \<Rightarrow> captured_row \<Rightarrow> op_log \<times> split_tables \<Rightarrow> (int \<times> op_log \<times> split_tables) res" where
  "apply_entry migId row x =
     (let (l, s) = x; key = (cr_principalId row, cr_mutId row);
          priorApply = sql_one (\<lambda>a. applied_key a = (migId, key)) (split_applied s);
          (changes, l1) = insert_or_ignore (reconstructed row) l;
          inserted = (if changes = 1 then 1 else 0) in
      rbind (ensure (\<not> (priorApply \<noteq> None \<and> inserted = 1)) split_invariant) (\<lambda>_.
      rbind (if inserted = 1 then Inr ()
         else (case sql_one (\<lambda>r. op_key r = key) (log_rows l1) of
             None \<Rightarrow> Inl split_collision
           | Some existing \<Rightarrow> ensure (sameOpLogRow existing row) split_collision)) (\<lambda>_.
      case priorApply of
        None \<Rightarrow> rbind (sql_insert applied_key applied_check
            \<lparr> sp_mig_id = migId, sp_principal_id = cr_principalId row, sp_mut_id = cr_mutId row, sp_inserted = inserted \<rparr> (split_applied s))
            (\<lambda>t. Inr (inserted, l1, s\<lparr>split_applied := t\<rparr>))
      | Some a \<Rightarrow> rbind (ensure (sp_inserted a \<in> {0, 1}) split_invariant) (\<lambda>_. Inr (inserted, l1, s)))))"

fun apply_entries :: "string \<Rightarrow> (int \<times> captured_row) list \<Rightarrow> int \<Rightarrow> int \<Rightarrow> op_log \<times> split_tables \<Rightarrow> (int \<times> int \<times> op_log \<times> split_tables) res" where
  "apply_entries migId [] applied replayed x = Inr (applied, replayed, x)"
| "apply_entries migId ((lsn, row) # rest) applied replayed x =
     rbind (apply_entry migId row x) (\<lambda>(inserted, x1). apply_entries migId rest (applied + inserted) (replayed + (1 - inserted)) x1)"

definition advance_cursor :: "string \<Rightarrow> split_oplog_cursor \<Rightarrow> int \<Rightarrow> int \<Rightarrow> split_tables \<Rightarrow> split_tables res" where
  "advance_cursor migId cursor lastLsn applied s =
     (let p = (\<lambda>r. sc_mig_id r = migId \<and> sc_applied_lsn r = sc_applied_lsn cursor) in
      if sc_applied_lsn cursor < lastLsn
      then rbind (sql_update_checked cursor_check p (\<lambda>r. r\<lparr>sc_applied_lsn := lastLsn, sc_applied_rows := sc_applied_rows r + applied\<rparr>)
             (split_cursors s)) (\<lambda>t.
           rbind (ensure (sql_changes p (split_cursors s) = 1) split_invariant) (\<lambda>_. Inr (s\<lparr>split_cursors := t\<rparr>)))
      else Inr s)"

definition applySplitOpLogBatch :: "string \<Rightarrow> int \<Rightarrow> int \<Rightarrow> SplitOpLogEntry list \<Rightarrow> op_log \<times> split_tables \<Rightarrow>
    (SplitOpLogApplyResult \<times> op_log \<times> split_tables) res" where
  "applySplitOpLogBatch migId l h entries x =
     rbind (split_assertRange l h) (\<lambda>_.
     rbind (ensure (int (length entries) \<le> CDB_SPLIT_OPLOG_MAX_BATCH_ROWS) split_invalid) (\<lambda>_.
     rbind (requiredCursor migId (snd x)) (\<lambda>cursor.
     rbind (ensure (sc_range_lo cursor = l \<and> sc_range_hi cursor = h) split_invariant) (\<lambda>_.
     rbind (decode_entries l h entries 0 0) (\<lambda>decoded.
     rbind (ensure (decoded = [] \<or> fst (last decoded) \<le> sc_applied_lsn cursor \<or> sc_applied_lsn cursor < fst (hd decoded)) split_invariant) (\<lambda>_.
     rbind (apply_entries migId decoded 0 0 x) (\<lambda>(applied, replayed, l1, s1).
     let lastLsn = (if decoded = [] then sc_applied_lsn cursor else fst (last decoded)) in
     rbind (advance_cursor migId cursor lastLsn applied s1) (\<lambda>s2.
     Inr (\<lparr> ap_applied = applied, ap_replayed = replayed, ap_lastLsn = lastLsn \<rparr>, l1, s2)))))))))"

definition finalizeSplitOpLogDestination :: "string \<Rightarrow> bool \<Rightarrow> op_log \<times> split_tables \<Rightarrow> op_log \<times> split_tables" where
  "finalizeSplitOpLogDestination migId abort x =
     (let (l, s) = x;
          l1 = (if abort then l\<lparr>log_rows := sql_delete (\<lambda>r. \<exists>a \<in> set (split_applied s). sp_mig_id a = migId \<and> sp_inserted a = 1 \<and>
                 (sp_principal_id a, sp_mut_id a) = op_key r) (log_rows l)\<rparr> else l) in
      (l1, s\<lparr>split_applied := sql_delete (\<lambda>a. sp_mig_id a = migId) (split_applied s),
        split_cursors := sql_delete (\<lambda>r. sc_mig_id r = migId) (split_cursors s)\<rparr>))"

section \<open>The encoding of a row\<close>

definition captured_of :: "op_log_row \<Rightarrow> int \<Rightarrow> captured_row" where
  "captured_of row vshard = \<lparr> cr_vshard = vshard, cr_principalId = ev_principal_id row, cr_mutId = ev_mut_id row,
     cr_payloadHash = ev_payload_hash row, cr_payloadEnc = ev_payload_enc row, cr_committedAt = ev_committed_at row,
     cr_schemaEpoch = ev_schema_epoch row, cr_touchedKeys = ev_touched_keys row, cr_byteSize = ev_byte_size row \<rparr>"

definition byte_row :: "op_log_row \<Rightarrow> bool" where
  "byte_row row \<longleftrightarrow> byte_list (ev_payload_hash row) \<and> byte_list (ev_payload_enc row)"

lemma captured_keys: "sort (map fst (case captured_json row v of JObj ps \<Rightarrow> ps | _ \<Rightarrow> [])) = sort expected_keys"
  unfolding captured_json_def expected_keys_def by simp

lemma captured_json_ok:
  assumes "safe_integer v" and "safe_integer (ev_committed_at row)" and "safe_integer (ev_schema_epoch row)" and "safe_integer (ev_byte_size row)"
  shows "json_ok (captured_json row v)"
proof -
  have "list_all (\<lambda>k. array_index k = None) expected_keys" by code_simp
  then have "js_ordered (case captured_json row v of JObj ps \<Rightarrow> ps | _ \<Rightarrow> [])"
    by (intro js_ordered_plain) (auto simp: captured_json_def expected_keys_def)
  then show ?thesis using assms by (simp add: captured_json_def safe_integer_def)
qed

lemma encode_eq_Inr:
  "encodeCapturedRow row v = Inr b \<longleftrightarrow> length (ev_payload_hash row) = 32 \<and> 1 \<le> length (ev_payload_enc row) \<and>
     safe_integer (ev_committed_at row) \<and> 0 \<le> ev_committed_at row \<and> safe_integer (ev_schema_epoch row) \<and> 1 \<le> ev_schema_epoch row \<and>
     safe_integer (ev_byte_size row) \<and> ev_byte_size row = int (length (ev_payload_enc row)) \<and> ev_placement_vshard row = Some v \<and>
     b = utf8 (stringify (captured_json row v))"
  by (auto simp: encodeCapturedRow_def result_simps)

lemma decode_encode:
  assumes "encodeCapturedRow row v = Inr b" and "byte_row row" and "0 \<le> v" and "v < VSHARD_COUNT"
  shows "decodeCapturedRow b = Inr (captured_of row v)"
proof -
  note row = assms(1) [unfolded encode_eq_Inr]
  have v: "safe_integer v" using assms(3,4) by (simp add: safe_integer_def VSHARD_COUNT_def)
  have one: "safe_integer 1" by (simp add: safe_integer_def)
  obtain ps where ps: "captured_json row v = JObj ps" by (simp add: captured_json_def)
  have parse: "JSON_parse (stringify (captured_json row v)) = Inr (captured_json row v)"
    using row v by (intro parse_stringify captured_json_ok) auto
  have keys: "sort (map fst ps) = sort expected_keys" using captured_keys [of row v] ps by simp
  have fields: "ps = [(''v'', JNum 1), (''vshard'', JNum v), (''principalId'', JStr (ev_principal_id row)),
     (''mutId'', JStr (ev_mut_id row)), (''payloadHash'', JStr (bytesToBase64 (ev_payload_hash row))),
     (''payloadEnc'', JStr (bytesToBase64 (ev_payload_enc row))), (''committedAt'', JNum (ev_committed_at row)),
     (''schemaEpoch'', JNum (ev_schema_epoch row)), (''touchedKeys'', JStr (ev_touched_keys row)), (''byteSize'', JNum (ev_byte_size row))]"
    using ps by (simp add: captured_json_def)
  have "string_field ps ''principalId'' = Some (ev_principal_id row)" "string_field ps ''mutId'' = Some (ev_mut_id row)"
    "string_field ps ''payloadHash'' = Some (btoa (ev_payload_hash row))" "string_field ps ''payloadEnc'' = Some (btoa (ev_payload_enc row))"
    "string_field ps ''touchedKeys'' = Some (ev_touched_keys row)" "integer_field ps ''v'' = Some 1" "integer_field ps ''vshard'' = Some v"
    "integer_field ps ''committedAt'' = Some (ev_committed_at row)" "integer_field ps ''schemaEpoch'' = Some (ev_schema_epoch row)"
    "integer_field ps ''byteSize'' = Some (ev_byte_size row)"
    using row v one unfolding fields by (auto simp: string_field_def integer_field_def bytesToBase64_def)
  moreover have "base64ToBytes (btoa (ev_payload_hash row)) = Inr (ev_payload_hash row)" "base64ToBytes (btoa (ev_payload_enc row)) = Inr (ev_payload_enc row)"
    using assms(2) by (simp_all add: base64ToBytes_def atob_btoa byte_row_def)
  ultimately show ?thesis
    using row v assms(3,4) keys parse ps
    by (simp add: decodeCapturedRow_def utf8_roundtrip split_assertVshard_def captured_of_def)
qed

section \<open>Applying\<close>

definition carries :: "captured_row \<Rightarrow> op_log_row \<Rightarrow> bool" where
  "carries row r \<longleftrightarrow> r\<lparr>ev_event_id := 0\<rparr> = reconstructed row"

lemma sameOpLogRow_iff: "sameOpLogRow r row \<longleftrightarrow> carries row r"
  by (cases r) (auto simp: sameOpLogRow_def carries_def reconstructed_def bytesEq_iff)

definition captured_key :: "captured_row \<Rightarrow> string \<times> string" where
  "captured_key row = (cr_principalId row, cr_mutId row)"

lemma carries_simps:
  assumes "carries row r"
  shows "op_key r = captured_key row" "ev_payload_hash r = cr_payloadHash row" "ev_payload_enc r = cr_payloadEnc row"
    "ev_committed_at r = cr_committedAt row"
  using assms by (cases r, simp add: carries_def reconstructed_def op_key_def captured_key_def)+

text \<open>The rows that a call adds, and the migration's ledger of them.\<close>

definition ledger_of :: "string \<Rightarrow> split_tables \<Rightarrow> (string \<times> string) set" where
  "ledger_of migId s = {(sp_principal_id a, sp_mut_id a) | a. a \<in> set (split_applied s) \<and> sp_mig_id a = migId \<and> sp_inserted a = 1}"

text \<open>
  What one applied entry, and then any number of them, do to the log and the tables: rows are only added, every added row
  is in the ledger of the migration, and everything else stays.
\<close>

definition applies :: "string \<Rightarrow> op_log \<times> split_tables \<Rightarrow> op_log \<times> split_tables \<Rightarrow> bool" where
  "applies migId x y \<longleftrightarrow> (\<exists>new. log_rows (fst y) = log_rows (fst x) @ new \<and>
     ledger_of migId (snd y) = ledger_of migId (snd x) \<union> op_key ` set new) \<and> (oplog_inv (fst x) \<longrightarrow> oplog_inv (fst y)) \<and>
     (\<exists>t. split_applied (snd y) = split_applied (snd x) @ t \<and> (\<forall>a \<in> set t. sp_mig_id a = migId))"

lemma ledger_of_append:
  "ledger_of migId (s\<lparr>split_applied := split_applied s @ [a]\<rparr>) =
    ledger_of migId s \<union> (if sp_mig_id a = migId \<and> sp_inserted a = 1 then {(sp_principal_id a, sp_mut_id a)} else {})"
  by (auto simp: ledger_of_def)

lemma applies_refl: "applies migId x x"
  by (auto simp: applies_def intro: exI [of _ "[]"])

lemma applies_trans: "applies migId x y \<Longrightarrow> applies migId y z \<Longrightarrow> applies migId x z"
  unfolding applies_def by (elim conjE exE) (intro conjI, (rule exI)?, auto)

lemma applies_cursors: "applies migId x (l, s) \<Longrightarrow> applies migId x (l, s\<lparr>split_cursors := t\<rparr>)"
  by (simp add: applies_def ledger_of_def)

lemma decode_Inr:
  assumes "decodeCapturedRow b = Inr row"
  shows "cr_payloadEnc row \<noteq> []" and "0 \<le> cr_vshard row" and "cr_vshard row < VSHARD_COUNT"
  using assms by (auto simp: decodeCapturedRow_def split_assertVshard_def result_simps split: option.splits sum.splits json.splits prod.splits)

lemma insert_reconstructed:
  assumes "cr_payloadEnc row \<noteq> []" and "0 \<le> cr_vshard row" and "cr_vshard row < VSHARD_COUNT" and "insert_or_ignore (reconstructed row) l = (n, l')"
  shows "n = 0 \<and> l' = l \<and> logged l (captured_key row) \<noteq> None \<or>
    n = 1 \<and> logged l (captured_key row) = None \<and> log_rows l' = log_rows l @ [(reconstructed row)\<lparr>ev_event_id := log_sequence l + 1\<rparr>] \<and>
    (oplog_inv l \<longrightarrow> oplog_inv l')"
proof -
  have key: "op_key (reconstructed row) = captured_key row" "op_key ((reconstructed row)\<lparr>ev_event_id := m\<rparr>) = captured_key row" for m
    by (simp_all add: op_key_def reconstructed_def captured_key_def)
  have check: "OP_LOG_DDL (reconstructed row)" using assms(2,3) by (simp add: OP_LOG_DDL_def reconstructed_def VSHARD_COUNT_def)
  have enc: "ev_payload_enc (reconstructed row) \<noteq> []" using assms(1) by (simp add: reconstructed_def)
  show ?thesis
  proof (cases "logged l (captured_key row)")
    case None
    then have l': "n = 1" "l' = l\<lparr>log_rows := log_rows l @ [(reconstructed row)\<lparr>ev_event_id := log_sequence l + 1\<rparr>], log_sequence := log_sequence l + 1\<rparr>"
      using assms(4) check key(1) by (auto simp: insert_or_ignore_def logged_None)
    then show ?thesis using None key(2) enc by (fastforce simp: oplog_inv_def logged_None)
  next
    case (Some r)
    then have "\<exists>s \<in> set (log_rows l). op_key s = op_key (reconstructed row)" using key(1) by (auto simp: logged_def dest: sql_one_SomeD)
    then show ?thesis using assms(4) Some by (auto simp: insert_or_ignore_def)
  qed
qed

lemma apply_entry_applies:
  assumes "apply_entry migId row (l, s) = Inr (n, l', s')" and "cr_payloadEnc row \<noteq> []" and "0 \<le> cr_vshard row" and "cr_vshard row < VSHARD_COUNT"
  shows "applies migId (l, s) (l', s')" and "\<exists>r \<in> set (log_rows l'). carries row r" and "n = (if logged l (captured_key row) = None then 1 else 0)"
proof -
  obtain m l1 where ins: "insert_or_ignore (reconstructed row) l = (m, l1)" by fastforce
  note cases = insert_reconstructed [OF assms(2-4) ins]
  have l': "l' = l1" using assms(1) ins by (auto simp: apply_entry_def result_simps Let_def split: option.splits)
  show n: "n = (if logged l (captured_key row) = None then 1 else 0)"
    using assms(1) ins cases by (auto simp: apply_entry_def result_simps Let_def split: option.splits)
  show "\<exists>r \<in> set (log_rows l'). carries row r"
  proof (cases "m = 1")
    case True
    then have "(reconstructed row)\<lparr>ev_event_id := log_sequence l + 1\<rparr> \<in> set (log_rows l')" using cases l' by simp
    then show ?thesis by (rule rev_bexI) (simp add: carries_def reconstructed_def)
  next
    case False
    then obtain r where "sql_one (\<lambda>r. op_key r = captured_key row) (log_rows l1) = Some r" "sameOpLogRow r row"
      using assms(1) ins cases by (auto simp: apply_entry_def captured_key_def result_simps Let_def split: option.splits if_splits)
    then show ?thesis using l' by (auto simp: sameOpLogRow_iff dest: sql_one_SomeD)
  qed
  have s': "(s' = s \<and> n = 0) \<or> s' = s\<lparr>split_applied := split_applied s @ [\<lparr> sp_mig_id = migId, sp_principal_id = cr_principalId row,
      sp_mut_id = cr_mutId row, sp_inserted = n \<rparr>]\<rparr>"
    using assms(1) ins by (auto simp: apply_entry_def result_simps Let_def split: option.splits if_splits)
  have key: "op_key ((reconstructed row)\<lparr>ev_event_id := k\<rparr>) = (cr_principalId row, cr_mutId row)" for k
    by (simp add: reconstructed_def op_key_def)
  show "applies migId (l, s) (l', s')"
  proof (cases "logged l (captured_key row)")
    case None
    then have "n = 1" "log_rows l' = log_rows l @ [(reconstructed row)\<lparr>ev_event_id := log_sequence l + 1\<rparr>]" "oplog_inv l \<longrightarrow> oplog_inv l'"
      using cases l' n by auto
    moreover have "ledger_of migId s' = ledger_of migId s \<union> {(cr_principalId row, cr_mutId row)}"
      using s' \<open>n = 1\<close> by (auto simp: ledger_of_append)
    ultimately show ?thesis using s' key by (auto simp: applies_def)
  next
    case (Some r)
    then have "n = 0" "l' = l" using cases l' n by auto
    moreover have "ledger_of migId s' = ledger_of migId s" using s' \<open>n = 0\<close> by (auto simp: ledger_of_append)
    ultimately show ?thesis using s' by (auto simp: applies_def)
  qed
qed

definition applied_before :: "string \<Rightarrow> captured_row \<Rightarrow> split_tables \<Rightarrow> bool" where
  "applied_before migId row s \<longleftrightarrow> (case sql_one (\<lambda>a. applied_key a = (migId, captured_key row)) (split_applied s) of
     None \<Rightarrow> False | Some a \<Rightarrow> sp_inserted a \<in> {0, 1})"

lemma apply_entry_before:
  assumes "apply_entry migId row (l, s) = Inr (n, l', s')"
  shows "applied_before migId row s'"
proof -
  obtain m l1 where ins: "insert_or_ignore (reconstructed row) l = (m, l1)" by fastforce
  let ?p = "\<lambda>a. applied_key a = (migId, captured_key row)"
  show ?thesis
  proof (cases "sql_one ?p (split_applied s)")
    case None
    let ?a = "\<lparr> sp_mig_id = migId, sp_principal_id = cr_principalId row, sp_mut_id = cr_mutId row, sp_inserted = n \<rparr>"
    have "applied_key ?a = (migId, captured_key row)" by (simp add: applied_key_def captured_key_def)
    moreover have "split_applied s' = split_applied s @ [?a]" "n \<in> {0, 1}"
      using assms ins None by (auto simp: apply_entry_def captured_key_def result_simps Let_def split: if_splits)
    ultimately show ?thesis using sql_one_append_new [OF None, of ?a] by (simp add: applied_before_def)
  next
    case (Some a)
    then have "s' = s" "sp_inserted a \<in> {0, 1}"
      using assms ins by (auto simp: apply_entry_def captured_key_def result_simps Let_def split: if_splits)
    then show ?thesis using Some by (simp add: applied_before_def)
  qed
qed

lemma applies_keeps:
  assumes "applies migId x y"
  shows "r \<in> set (log_rows (fst x)) \<Longrightarrow> r \<in> set (log_rows (fst y))" and "applied_before migId' row (snd x) \<Longrightarrow> applied_before migId' row (snd y)"
  using assms by (auto simp: applies_def applied_before_def sql_one_append_old split: option.splits)

text \<open>Decoded entries that pass the guards.\<close>

definition sound_row :: "captured_row \<Rightarrow> bool" where
  "sound_row row \<longleftrightarrow> cr_payloadEnc row \<noteq> [] \<and> 0 \<le> cr_vshard row \<and> cr_vshard row < VSHARD_COUNT"

definition transferred :: "string \<Rightarrow> captured_row \<Rightarrow> op_log \<times> split_tables \<Rightarrow> bool" where
  "transferred migId row x \<longleftrightarrow> (\<exists>r \<in> set (log_rows (fst x)). carries row r) \<and> applied_before migId row (snd x)"

lemma apply_entries_applies:
  assumes "apply_entries migId ds a b x = Inr (a', b', y)" and "\<forall>d \<in> set ds. sound_row (snd d)"
  shows "applies migId x y" and "\<forall>d \<in> set ds. transferred migId (snd d) y" and "a' + b' = a + b + int (length ds)"
proof -
  have "applies migId x y \<and> (\<forall>d \<in> set ds. transferred migId (snd d) y) \<and> a' + b' = a + b + int (length ds)"
    using assms
  proof (induction ds arbitrary: a b x)
    case Nil
    then show ?case by (simp add: applies_refl)
  next
    case (Cons d ds)
    obtain lsn row where d: "d = (lsn, row)" by fastforce
    obtain l s where x: "x = (l, s)" by fastforce
    obtain n l1 s1 where one: "apply_entry migId row (l, s) = Inr (n, l1, s1)"
        and rest: "apply_entries migId ds (a + n) (b + (1 - n)) (l1, s1) = Inr (a', b', y)"
      using Cons.prems(1) d x by (auto simp: result_simps)
    have sound: "cr_payloadEnc row \<noteq> []" "0 \<le> cr_vshard row" "cr_vshard row < VSHARD_COUNT"
      using Cons.prems(2) d by (simp_all add: sound_row_def)
    note first = apply_entry_applies [OF one sound] apply_entry_before [OF one]
    have ih: "applies migId (l1, s1) y" "\<forall>d \<in> set ds. transferred migId (snd d) y" "a' + b' = a + n + (b + (1 - n)) + int (length ds)"
      using Cons.IH [OF rest] Cons.prems(2) by simp_all
    have "transferred migId row y"
      using first(2,4) applies_keeps [OF ih(1)] unfolding transferred_def by auto
    then show ?case using applies_trans [OF first(1) ih(1)] ih d x by simp
  qed
  then show "applies migId x y" "\<forall>d \<in> set ds. transferred migId (snd d) y" "a' + b' = a + b + int (length ds)" by blast+
qed

definition decodes :: "int \<Rightarrow> int \<Rightarrow> SplitOpLogEntry \<Rightarrow> int \<times> captured_row \<Rightarrow> bool" where
  "decodes l h e d \<longleftrightarrow> fst d = en_lsn e \<and> decodeCapturedRow (en_oplogRow e) = Inr (snd d) \<and> l \<le> cr_vshard (snd d) \<and> cr_vshard (snd d) \<le> h"

lemma decode_entries_Inr: "decode_entries l h es p b = Inr ds \<Longrightarrow> list_all2 (decodes l h) es ds"
  by (induction es arbitrary: p b ds) (auto simp: result_simps decodes_def Let_def)

lemma decodes_sound: "list_all2 (decodes l h) es ds \<Longrightarrow> d \<in> set ds \<Longrightarrow> sound_row (snd d)"
  by (auto simp: list_all2_conv_all_nth in_set_conv_nth decodes_def sound_row_def dest: decode_Inr)

lemma advance_cursor_Inr: "advance_cursor migId cursor lastLsn applied s = Inr s' \<Longrightarrow> \<exists>t. s' = s\<lparr>split_cursors := t\<rparr>"
  by (auto simp: advance_cursor_def result_simps Let_def split: if_splits intro: exI [of _ "split_cursors s"])

lemma applyBatch_cases:
  assumes "applySplitOpLogBatch migId l h es x = Inr (res, y)"
  obtains ds cursor x1 where "decode_entries l h es 0 0 = Inr ds" "requiredCursor migId (snd x) = Inr cursor"
    "apply_entries migId ds 0 0 x = Inr (ap_applied res, ap_replayed res, x1)" "applies migId x y"
    "fst y = fst x1" "split_applied (snd y) = split_applied (snd x1)" "\<forall>d \<in> set ds. transferred migId (snd d) y" "list_all2 (decodes l h) es ds"
    "ap_lastLsn res = (if ds = [] then sc_applied_lsn cursor else fst (last ds))"
proof -
  obtain ds cursor l1 s1 where run: "decode_entries l h es 0 0 = Inr ds" "requiredCursor migId (snd x) = Inr cursor"
      "apply_entries migId ds 0 0 x = Inr (ap_applied res, ap_replayed res, l1, s1)"
      "ap_lastLsn res = (if ds = [] then sc_applied_lsn cursor else fst (last ds))" "\<exists>t. y = (l1, s1\<lparr>split_cursors := t\<rparr>)"
    using assms advance_cursor_Inr by (fastforce simp: applySplitOpLogBatch_def result_simps Let_def)
  note sound = decodes_sound [OF decode_entries_Inr [OF run(1)]]
  have all: "applies migId x (l1, s1)" "\<forall>d \<in> set ds. transferred migId (snd d) (l1, s1)"
    using apply_entries_applies(1,2) [OF run(3)] sound by auto
  show thesis
    using that [OF run(1-3)] applies_cursors [OF all(1)] all(2) run(4,5) decode_entries_Inr [OF run(1)]
    by (auto simp: transferred_def applied_before_def)
qed

section \<open>Properties of the destination\<close>

lemma list_all2_member: "list_all2 P xs ys \<Longrightarrow> x \<in> set xs \<Longrightarrow> \<exists>y \<in> set ys. P x y"
  by (induction rule: list_all2_induct) auto

lemma logged_row: "oplog_inv l \<Longrightarrow> r \<in> set (log_rows l) \<Longrightarrow> logged l (op_key r) = Some r"
  unfolding logged_def oplog_inv_def by (intro sql_one_unique) simp_all

text \<open>
  C28. Outcomes survive the move. When the source encodes the op-log row of a mutation in a batch and the destination
  applies the batch, then the destination answers every later call under that mutation's key exactly as the
  source would: with the recorded reply for the same request, with the collision error for another one; it never runs the
  closure. Its log stays consistent.
\<close>

theorem transfer_preserves_replies:
  assumes "oplog_inv ls" and "row \<in> set (log_rows ls)" and "byte_row row" and "encodeCapturedRow row v = Inr b" and "0 \<le> v" and "v < VSHARD_COUNT"
    and "oplog_inv ld" and "\<lparr> en_lsn = lsn, en_oplogRow = b \<rparr> \<in> set entries"
    and "applySplitOpLogBatch migId rl rh entries (ld, s) = Inr (res, ld', s')"
    and "\<And>b. byte_list (sha256 b)" and "arg_key args = op_key row"
  shows "oplog_inv ld' \<and> runWrappedMutation codec sha256 args run (ld', db) =
    rbind (runWrappedMutation codec sha256 args run' (ls, db')) (\<lambda>(r, _). Inr (r, ld', db))"
proof -
  have bytes: "byte_list (request_hash sha256 a)" for a using assms(10) by (simp add: request_hash_def)
  from assms(9) obtain ds where ds: "applies migId (ld, s) (ld', s')" "\<forall>d \<in> set ds. transferred migId (snd d) (ld', s')" "list_all2 (decodes rl rh) entries ds"
    by (rule applyBatch_cases)
  have inv: "oplog_inv ld'" using ds(1) assms(7) by (simp add: applies_def)
  obtain d where "d \<in> set ds" "decodes rl rh \<lparr> en_lsn = lsn, en_oplogRow = b \<rparr> d"
    using list_all2_member [OF ds(3) assms(8)] by blast
  then have "transferred migId (captured_of row v) (ld', s')"
    using ds(2) decode_encode [OF assms(4,3,5,6)] by (auto simp: decodes_def)
  then obtain r where r: "r \<in> set (log_rows ld')" "carries (captured_of row v) r" by (auto simp: transferred_def)
  have same: "op_key r = op_key row" "ev_payload_hash r = ev_payload_hash row" "ev_payload_enc r = ev_payload_enc row"
    using carries_simps [OF r(2)] by (simp_all add: captured_of_def captured_key_def op_key_def)
  have "logged ld' (arg_key args) = Some r" "logged ls (arg_key args) = Some row"
    using logged_row [OF inv r(1)] logged_row [OF assms(1,2)] same(1) assms(11) by simp_all
  then show ?thesis using inv same(2,3)
    by (auto simp: runWrappedMutation_eq [OF bytes] intro: arg_cong2 [of _ _ _ _ rbind]) (cases "replay_envelope codec (ev_payload_enc row)"; simp)
qed

text \<open>
  Aborting undoes the transfer: after any batches applied for a migration that had applied none before, the
  abort leaves exactly the op-log rows that were there, keeps the ledgers of other migrations, and removes
  the migration's own ledger and cursor.
\<close>

theorem abort_undoes_transfer:
  assumes "oplog_inv l" and "\<forall>a \<in> set (split_applied s). sp_mig_id a \<noteq> migId"
    and "rfold (\<lambda>es x. rbind (applySplitOpLogBatch migId rl rh es x) (\<lambda>(_, y). Inr y)) batches (l, s) = Inr x"
    and "finalizeSplitOpLogDestination migId True x = (l', s')"
  shows "log_rows l' = log_rows l \<and> split_applied s' = split_applied s \<and> (\<forall>r \<in> set (split_cursors s'). sc_mig_id r \<noteq> migId)"
proof -
  have "applies migId (l, s) x"
    using assms(3)
    by (rule rfold_invariant) (auto simp: applies_refl result_simps intro: applies_trans elim: applyBatch_cases)
  then obtain new t where x: "log_rows (fst x) = log_rows l @ new" "ledger_of migId (snd x) = ledger_of migId s \<union> op_key ` set new"
      "oplog_inv (fst x)" "split_applied (snd x) = split_applied s @ t" "\<forall>a \<in> set t. sp_mig_id a = migId"
    using assms(1) by (auto simp: applies_def)
  have led: "ledger_of migId (snd x) = op_key ` set new" using x(2) assms(2) by (auto simp: ledger_of_def)
  have dead: "(\<exists>a \<in> set (split_applied (snd x)). sp_mig_id a = migId \<and> sp_inserted a = 1 \<and> (sp_principal_id a, sp_mut_id a) = op_key r) \<longleftrightarrow>
      op_key r \<in> op_key ` set new" for r
    unfolding led [symmetric] ledger_of_def mem_Collect_eq by metis
  have "op_key r \<notin> op_key ` set new" if "r \<in> set (log_rows l)" for r
    using x(1,3) that by (fastforce simp: oplog_inv_def)
  then have "sql_delete (\<lambda>r. op_key r \<in> op_key ` set new) (log_rows (fst x)) = log_rows l"
    unfolding x(1) sql_delete_def by (simp add: filter_id_conv)
  moreover have "sql_delete (\<lambda>a. sp_mig_id a = migId) (split_applied (snd x)) = split_applied s"
    unfolding x(4) sql_delete_def using assms(2) x(5) by (simp add: filter_id_conv)
  moreover have "finalizeSplitOpLogDestination migId True x = ((fst x)\<lparr>log_rows := sql_delete (\<lambda>r. op_key r \<in> op_key ` set new) (log_rows (fst x))\<rparr>,
      (snd x)\<lparr>split_applied := sql_delete (\<lambda>a. sp_mig_id a = migId) (split_applied (snd x)),
        split_cursors := sql_delete (\<lambda>r. sc_mig_id r = migId) (split_cursors (snd x))\<rparr>)"
    unfolding finalizeSplitOpLogDestination_def Let_def case_prod_beta dead by simp
  ultimately show ?thesis using assms(4) by (auto simp: table_simps)
qed

lemma apply_transferred:
  assumes "transferred migId row (l, s)" and "oplog_inv l" and "sound_row row"
  shows "apply_entry migId row (l, s) = Inr (0, l, s)"
proof -
  obtain r where r: "r \<in> set (log_rows l)" "carries row r" using assms(1) by (auto simp: transferred_def)
  then have one: "logged l (captured_key row) = Some r" using logged_row [OF assms(2) r(1)] carries_simps(1) [OF r(2)] by simp
  obtain n l1 where ins: "insert_or_ignore (reconstructed row) l = (n, l1)" by fastforce
  have ign: "n = 0" "l1 = l" using insert_reconstructed [OF _ _ _ ins] assms(3) one by (auto simp: sound_row_def)
  obtain a where "sql_one (\<lambda>a. applied_key a = (migId, captured_key row)) (split_applied s) = Some a" "sp_inserted a \<in> {0, 1}"
    using assms(1) by (auto simp: transferred_def applied_before_def split: option.splits)
  then show ?thesis using one r(2) ins ign
    by (simp add: apply_entry_def captured_key_def logged_def sameOpLogRow_iff)
qed

lemma apply_entries_transferred:
  assumes "\<forall>d \<in> set ds. transferred migId (snd d) (l, s) \<and> sound_row (snd d)" and "oplog_inv l"
  shows "apply_entries migId ds a b (l, s) = Inr (a, b + int (length ds), l, s)"
  using assms(1)
proof (induction ds arbitrary: b)
  case (Cons d ds)
  obtain lsn row where d: "d = (lsn, row)" by fastforce
  have "apply_entry migId row (l, s) = Inr (0, l, s)" using Cons.prems d assms(2) by (intro apply_transferred) auto
  then show ?case using Cons d by (simp add: algebra_simps)
qed simp

lemma sql_one_updated: "sql_one q t = Some r \<Longrightarrow> p r \<Longrightarrow> (\<And>r. q (f r) = q r) \<Longrightarrow> sql_one q (sql_update p f t) = Some (f r)"
  by (induction t) (auto simp: sql_one_def sql_update_def split: if_splits)

lemma decode_entries_last: "decode_entries l h es p b = Inr ds \<Longrightarrow> ds \<noteq> [] \<Longrightarrow> assertCursor (fst (last ds)) = Inr ()"
  by (induction es arbitrary: p b ds) (auto simp: result_simps Let_def assertCursor_def)

lemma apply_entries_cursors: "apply_entries migId ds a b x = Inr (a', b', y) \<Longrightarrow> split_cursors (snd y) = split_cursors (snd x)"
proof (induction ds arbitrary: a b x)
  case (Cons d ds)
  obtain lsn row l s where d: "d = (lsn, row)" "x = (l, s)" by fastforce
  obtain n x1 where one: "apply_entry migId row (l, s) = Inr (n, x1)" "apply_entries migId ds (a + n) (b + (1 - n)) x1 = Inr (a', b', y)"
    using Cons.prems d by (auto simp: result_simps)
  have "split_cursors (snd x1) = split_cursors s"
    using one(1) by (auto simp: apply_entry_def result_simps Let_def split: option.splits prod.splits if_splits)
  then show ?case using Cons.IH [OF one(2)] d by simp
qed simp

text \<open>
  Applying is idempotent: repeating a batch that the destination has applied, as a Resharder does after a lost
  reply, inserts nothing, counts every entry as replayed, reports the same cursor and changes no table.
\<close>

theorem reapply_idempotent:
  assumes "oplog_inv l" and "applySplitOpLogBatch migId rl rh entries (l, s) = Inr (res, y)"
  shows "applySplitOpLogBatch migId rl rh entries y = Inr (\<lparr> ap_applied = 0, ap_replayed = int (length entries), ap_lastLsn = ap_lastLsn res \<rparr>, y)"
proof -
  obtain l' s' where y: "y = (l', s')" by fastforce
  obtain ds cursor s1 where run: "split_assertRange rl rh = Inr ()" "int (length entries) \<le> CDB_SPLIT_OPLOG_MAX_BATCH_ROWS"
      "requiredCursor migId s = Inr cursor" "sc_range_lo cursor = rl" "sc_range_hi cursor = rh" "decode_entries rl rh entries 0 0 = Inr ds"
      "apply_entries migId ds 0 0 (l, s) = Inr (ap_applied res, ap_replayed res, l', s1)"
      "ap_lastLsn res = (if ds = [] then sc_applied_lsn cursor else fst (last ds))"
      "advance_cursor migId cursor (ap_lastLsn res) (ap_applied res) s1 = Inr s'"
    using assms(2) y by (auto simp: applySplitOpLogBatch_def result_simps Let_def)
  have dec: "list_all2 (decodes rl rh) entries ds" by (rule decode_entries_Inr [OF run(6)])
  have sound: "\<forall>d \<in> set ds. sound_row (snd d)" using decodes_sound [OF dec] by blast
  have app: "applies migId (l, s) (l', s1)" "\<forall>d \<in> set ds. transferred migId (snd d) (l', s1)"
    using apply_entries_applies(1,2) [OF run(7) sound] by auto
  obtain t where t: "s' = s1\<lparr>split_cursors := t\<rparr>" using advance_cursor_Inr [OF run(9)] by blast
  have inv: "oplog_inv l'" using app(1) assms(1) by (simp add: applies_def)
  have again: "apply_entries migId ds 0 0 (l', s') = Inr (0, int (length ds), l', s')"
    using apply_entries_transferred [of ds migId l' s' 0 0] app(2) sound inv t by (auto simp: transferred_def applied_before_def)
  have cursors: "split_cursors s1 = split_cursors s" using apply_entries_cursors [OF run(7)] by simp
  have here: "sql_one (\<lambda>r. sc_mig_id r = migId) (split_cursors s) = Some cursor" and old: "assertCursor (sc_applied_lsn cursor) = Inr ()"
    using run(3) by (auto simp: requiredCursor_def result_simps split: option.splits)
  obtain cursor' where cursor': "requiredCursor migId s' = Inr cursor'" "sc_range_lo cursor' = rl" "sc_range_hi cursor' = rh"
      "sc_applied_lsn cursor' = max (sc_applied_lsn cursor) (ap_lastLsn res)"
  proof (cases "sc_applied_lsn cursor < ap_lastLsn res")
    case True
    then have "ds \<noteq> []" using run(8) by auto
    then have new: "assertCursor (ap_lastLsn res) = Inr ()" using decode_entries_last [OF run(6)] run(8) by simp
    let ?p = "\<lambda>r. sc_mig_id r = migId \<and> sc_applied_lsn r = sc_applied_lsn cursor"
    let ?f = "\<lambda>r. r\<lparr>sc_applied_lsn := ap_lastLsn res, sc_applied_rows := sc_applied_rows r + ap_applied res\<rparr>"
    have "split_cursors s' = sql_update ?p ?f (split_cursors s)"
      using run(9) True cursors by (auto simp: advance_cursor_def result_simps Let_def)
    moreover have "?p cursor" using sql_one_SomeD [OF here] by simp
    ultimately have "sql_one (\<lambda>r. sc_mig_id r = migId) (split_cursors s') = Some (?f cursor)"
      using sql_one_updated [OF here, of ?p ?f] by simp
    then show thesis using that [of "?f cursor"] run(1,4,5) new True by (simp add: requiredCursor_def)
  next
    case False
    then have "s' = s1" using run(9) by (simp add: advance_cursor_def)
    then show thesis using that [of cursor] run(3-5) False here old cursors run(1) by (simp add: requiredCursor_def)
  qed
  have guard: "ds = [] \<or> fst (last ds) \<le> sc_applied_lsn cursor'" and top: "\<not> sc_applied_lsn cursor' < (if ds = [] then sc_applied_lsn cursor' else fst (last ds))"
    and same: "(if ds = [] then sc_applied_lsn cursor' else fst (last ds)) = ap_lastLsn res"
    using run(8) cursor'(4) by (simp_all split: if_splits)
  have len: "length ds = length entries" using dec by (simp add: list_all2_lengthD)
  show ?thesis
    unfolding y applySplitOpLogBatch_def using run(1,2,6) cursor' again guard top same len
    by (auto simp: Let_def advance_cursor_def)
qed

subsection \<open>Witnesses\<close>

definition sample_log_row :: op_log_row where
  "sample_log_row = \<lparr> ev_event_id = 1, ev_principal_id = ''u'', ev_mut_id = ''m'', ev_payload_hash = replicate 32 7, ev_payload_enc = [1, 2],
     ev_committed_at = 5, ev_schema_epoch = 1, ev_touched_keys = ''[]'', ev_byte_size = 2, ev_placement_vshard = Some 3 \<rparr>"

definition sample_log :: op_log where
  "sample_log = \<lparr> log_rows = [sample_log_row], log_sequence = 1 \<rparr>"

definition sample_bytes :: "nat list" where
  "sample_bytes = utf8 (stringify (captured_json sample_log_row 3))"

definition empty_split :: split_tables where
  "empty_split = \<lparr> split_state = [], split_oplog = [], split_sequence = 0, split_keys = [], split_accounting = [], split_cursors = [], split_applied = [] \<rparr>"

definition sample_dest :: split_tables where
  "sample_dest = empty_split\<lparr>split_cursors := [\<lparr> sc_mig_id = ''g'', sc_range_lo = 0, sc_range_hi = 9, sc_applied_lsn = 0, sc_applied_rows = 0 \<rparr>]\<rparr>"

definition sample_batch :: "SplitOpLogEntry list" where
  "sample_batch = [\<lparr> en_lsn = 1, en_oplogRow = sample_bytes \<rparr>]"

lemma sample_size: "1 \<le> length sample_bytes \<and> length sample_bytes \<le> 1000"
  by code_simp

lemma sample_row_facts: "byte_row sample_log_row" "encodeCapturedRow sample_log_row 3 = Inr sample_bytes"
  by (simp_all add: byte_row_def byte_list_def sample_log_row_def encodeCapturedRow_def sample_bytes_def safe_integer_def)

lemma sample_decode: "decodeCapturedRow sample_bytes = Inr (captured_of sample_log_row 3)"
  by (rule decode_encode [OF sample_row_facts(2,1)]) (simp_all add: VSHARD_COUNT_def)

lemma sample_decoded: "decode_entries 0 9 sample_batch 0 0 = Inr [(1, captured_of sample_log_row 3)]"
  using sample_size sample_decode
  by (simp add: sample_batch_def assertCursor_def safe_integer_def Let_def CDB_SPLIT_OPLOG_MAX_ROW_BYTES_def CDB_SPLIT_OPLOG_MAX_BATCH_BYTES_def
      captured_of_def)

definition sample_res :: SplitOpLogApplyResult where
  "sample_res = \<lparr> ap_applied = 1, ap_replayed = 0, ap_lastLsn = 1 \<rparr>"

lemma sample_apply: "\<exists>s'. applySplitOpLogBatch ''g'' 0 9 sample_batch (empty_log, sample_dest) = Inr (sample_res, sample_log, s')"
proof -
  have "requiredCursor ''g'' sample_dest = Inr \<lparr> sc_mig_id = ''g'', sc_range_lo = 0, sc_range_hi = 9, sc_applied_lsn = 0, sc_applied_rows = 0 \<rparr>"
    by (simp add: requiredCursor_def sample_dest_def sql_one_def split_assertRange_def split_assertVshard_def assertCursor_def safe_integer_def VSHARD_COUNT_def)
  moreover have "insert_or_ignore (reconstructed (captured_of sample_log_row 3)) empty_log = (1, sample_log)"
    by (simp add: insert_or_ignore_def empty_log_def OP_LOG_DDL_def reconstructed_def captured_of_def sample_log_row_def sample_log_def)
  moreover have "split_assertRange 0 9 = Inr ()" by (simp add: split_assertRange_def split_assertVshard_def safe_integer_def VSHARD_COUNT_def)
  ultimately show ?thesis
    by (simp add: applySplitOpLogBatch_def sample_decoded apply_entry_def sample_dest_def empty_split_def sql_one_def sql_insert_def applied_check_def
        advance_cursor_def sql_update_checked_def cursor_check_def sql_changes_def sql_update_def sample_res_def Let_def
        CDB_SPLIT_OPLOG_MAX_BATCH_ROWS_def) (simp add: sample_batch_def)
qed

lemma sample_log_inv: "oplog_inv sample_log"
  by (simp add: oplog_inv_def sample_log_def sample_log_row_def)

theorem transfer_preserves_replies_witness:
  "\<exists>s'. applySplitOpLogBatch ''g'' 0 9 sample_batch (empty_log, sample_dest) = Inr (sample_res, sample_log, s') \<and>
     runWrappedMutation IDENTITY_CODEC sample_sha (sample_args\<lparr>arg_principalId := ''u'', arg_mutId := ''m''\<rparr>) sample_run (sample_log, 4) =
     rbind (runWrappedMutation IDENTITY_CODEC sample_sha (sample_args\<lparr>arg_principalId := ''u'', arg_mutId := ''m''\<rparr>) sample_run (sample_log, 0))
       (\<lambda>(r, _). Inr (r, sample_log, 4))"
proof -
  obtain s' where run: "applySplitOpLogBatch ''g'' 0 9 sample_batch (empty_log, sample_dest) = Inr (sample_res, sample_log, s')"
    using sample_apply by blast
  have "sample_log_row \<in> set (log_rows sample_log)" by (simp add: sample_log_def)
  moreover have "\<lparr> en_lsn = 1, en_oplogRow = sample_bytes \<rparr> \<in> set sample_batch" by (simp add: sample_batch_def)
  moreover have "arg_key (sample_args\<lparr>arg_principalId := ''u'', arg_mutId := ''m''\<rparr>) = op_key sample_log_row"
    by (simp add: arg_key_def op_key_def sample_log_row_def)
  moreover have "(3::int) < VSHARD_COUNT" by (simp add: VSHARD_COUNT_def)
  ultimately have "runWrappedMutation IDENTITY_CODEC sample_sha (sample_args\<lparr>arg_principalId := ''u'', arg_mutId := ''m''\<rparr>) sample_run (sample_log, 4) =
     rbind (runWrappedMutation IDENTITY_CODEC sample_sha (sample_args\<lparr>arg_principalId := ''u'', arg_mutId := ''m''\<rparr>) sample_run (sample_log, 0))
       (\<lambda>(r, _). Inr (r, sample_log, 4))"
    using transfer_preserves_replies [where ?sha256.0 = sample_sha and codec = IDENTITY_CODEC and run = sample_run and db = 4 and run' = sample_run and db' = 0 and args = "sample_args\<lparr>arg_principalId := ''u'', arg_mutId := ''m''\<rparr>", OF sample_log_inv _ sample_row_facts _ _ oplog_inv_empty _ run sample_sha_bytes] by simp
  then show ?thesis using run by blast
qed

theorem abort_undoes_transfer_witness:
  "\<exists>x. applySplitOpLogBatch ''g'' 0 9 sample_batch (empty_log, sample_dest) = Inr (sample_res, x) \<and>
     log_rows (fst (finalizeSplitOpLogDestination ''g'' True x)) = []"
proof -
  obtain s' where run: "applySplitOpLogBatch ''g'' 0 9 sample_batch (empty_log, sample_dest) = Inr (sample_res, sample_log, s')"
    using sample_apply by blast
  have "rfold (\<lambda>es x. rbind (applySplitOpLogBatch ''g'' 0 9 es x) (\<lambda>(_, y). Inr y)) [sample_batch] (empty_log, sample_dest) = Inr (sample_log, s')"
    using run by simp
  from abort_undoes_transfer [OF oplog_inv_empty _ this, of "fst (finalizeSplitOpLogDestination ''g'' True (sample_log, s'))"
      "snd (finalizeSplitOpLogDestination ''g'' True (sample_log, s'))"] run
  show ?thesis by (simp add: sample_dest_def empty_split_def empty_log_def)
qed

theorem reapply_idempotent_witness:
  "\<exists>y. applySplitOpLogBatch ''g'' 0 9 sample_batch (empty_log, sample_dest) = Inr (sample_res, y) \<and>
     applySplitOpLogBatch ''g'' 0 9 sample_batch y = Inr (\<lparr> ap_applied = 0, ap_replayed = 1, ap_lastLsn = 1 \<rparr>, y)"
proof -
  obtain s' where run: "applySplitOpLogBatch ''g'' 0 9 sample_batch (empty_log, sample_dest) = Inr (sample_res, sample_log, s')"
    using sample_apply by blast
  show ?thesis using run reapply_idempotent [OF oplog_inv_empty run] by (simp add: sample_res_def sample_batch_def)
qed

end
