(* ===== verification/Split_Oplog_Source.thy ===== *)
theory Split_Oplog_Source
  imports Split_Oplog
begin

text \<open>
  The source side of the transfer of mutation outcomes: the durable accounting of captured entries agrees with the
  entries in every reachable state, so that capturing stays within its limits, a restart recovers the same numbers,
  acknowledgements prune exactly what the destination has, and batches deliver the entries in order without gaps.
\<close>

section \<open>The invariant\<close>

definition of_migration :: "string \<Rightarrow> split_tables \<Rightarrow> split_oplog_row list" where
  "of_migration migId s = filter (\<lambda>r. so_mig_id r = migId) (split_oplog s)"

definition accounts_for :: "split_tables \<Rightarrow> split_oplog_accounting \<Rightarrow> bool" where
  "accounts_for s a \<longleftrightarrow> sa_retained_rows a = int (length (of_migration (sa_mig_id a) s)) \<and>
     sa_retained_bytes a = sum_list (map row_bytes (of_migration (sa_mig_id a) s)) \<and>
     (\<forall>r \<in> set (of_migration (sa_mig_id a) s). sa_acked_lsn a < so_lsn r) \<and> sa_acked_lsn a \<le> split_sequence s \<and> accounting_ok a"

definition rows_inv :: "split_tables \<Rightarrow> bool" where
  "rows_inv s \<longleftrightarrow> sorted_wrt (<) (map so_lsn (split_oplog s)) \<and> 0 \<le> split_sequence s \<and> safe_integer (split_sequence s) \<and>
     (\<forall>r \<in> set (split_oplog s). 1 \<le> so_lsn r \<and> so_lsn r \<le> split_sequence s \<and> 1 \<le> row_bytes r \<and> row_bytes r \<le> CDB_SPLIT_OPLOG_MAX_ROW_BYTES)"

definition keys_inv :: "split_tables \<Rightarrow> bool" where
  "keys_inv s \<longleftrightarrow> distinct (map split_key (split_keys s)) \<and> distinct (map sk_lsn (split_keys s)) \<and>
     (\<lambda>k. (sk_mig_id k, sk_lsn k)) ` set (split_keys s) = (\<lambda>r. (so_mig_id r, so_lsn r)) ` set (split_oplog s)"

definition accounting_inv :: "split_tables \<Rightarrow> bool" where
  "accounting_inv s \<longleftrightarrow> distinct (map sa_mig_id (split_accounting s)) \<and> (\<forall>a \<in> set (split_accounting s). accounts_for s a) \<and>
     so_mig_id ` set (split_oplog s) \<subseteq> sa_mig_id ` set (split_accounting s)"

definition source_inv :: "split_tables \<Rightarrow> bool" where
  "source_inv s \<longleftrightarrow> rows_inv s \<and> keys_inv s \<and> accounting_inv s"

lemma source_inv_empty: "source_inv empty_split"
  by (simp add: source_inv_def rows_inv_def keys_inv_def accounting_inv_def empty_split_def safe_integer_def)

lemmas source_defs = source_inv_def rows_inv_def keys_inv_def accounting_inv_def accounts_for_def of_migration_def

text \<open>The invariant does not read the other tables.\<close>

lemma source_inv_other:
  "source_inv (s\<lparr>split_state := a\<rparr>) \<longleftrightarrow> source_inv s"
  "source_inv (s\<lparr>split_cursors := b, split_applied := c\<rparr>) \<longleftrightarrow> source_inv s"
  by (simp_all add: source_defs)

lemma accounting_unique:
  "source_inv s \<Longrightarrow> a \<in> set (split_accounting s) \<Longrightarrow> sql_one (\<lambda>x. sa_mig_id x = sa_mig_id a) (split_accounting s) = Some a"
  unfolding source_inv_def accounting_inv_def by (intro sql_one_unique) simp_all

lemma required_Inr:
  "requiredSourceAccounting migId s = Inr a \<longleftrightarrow> sql_one (\<lambda>x. sa_mig_id x = migId) (split_accounting s) = Some a \<and> accounting_ok a"
  by (auto simp: requiredSourceAccounting_def split: option.splits)

lemma required_ok:
  assumes "source_inv s" and "sql_one (\<lambda>x. sa_mig_id x = migId) (split_accounting s) = Some a"
  shows "requiredSourceAccounting migId s = Inr a" and "a \<in> set (split_accounting s)" and "sa_mig_id a = migId" and "accounts_for s a"
  using assms sql_one_SomeD [OF assms(2)] by (auto simp: required_Inr source_defs)

lemma new_accounting_ok: "safe_integer n \<Longrightarrow> 0 \<le> n \<Longrightarrow> accounting_ok (new_accounting m n)"
  by (auto simp: accounting_ok_def new_accounting_def safe_integer_def CDB_SPLIT_OPLOG_MAX_ROWS_def CDB_SPLIT_OPLOG_MAX_BYTES_def)

lemma insert_accounting_inv:
  assumes "source_inv s" and "safe_integer n" and "0 \<le> n"
  shows "source_inv (accounting_insert_or_ignore (new_accounting m n) s)"
proof (cases "\<exists>a \<in> set (split_accounting s). sa_mig_id a = m")
  case True
  then show ?thesis using assms(1) by (auto simp: accounting_insert_or_ignore_def sql_insert_def new_accounting_def)
next
  case False
  have chk: "accounting_check (new_accounting m n)" using assms(3) by (simp add: accounting_check_def new_accounting_def)
  have "of_migration m s = []" using False assms(1) by (fastforce simp: source_defs filter_empty_conv)
  then have "accounts_for s (new_accounting m n)"
    using assms new_accounting_ok [OF assms(2,3), of m] by (simp add: accounts_for_def new_accounting_def source_defs)
  then show ?thesis using False chk assms(1)
    by (auto simp: accounting_insert_or_ignore_def sql_insert_def source_inv_def rows_inv_def keys_inv_def accounting_inv_def
        accounts_for_def of_migration_def new_accounting_def)
qed

section \<open>Capturing\<close>

text \<open>An entry appended with a fresh LSN, a fresh key and its accounting.\<close>

definition appended :: "string \<Rightarrow> string \<times> string \<Rightarrow> nat list \<Rightarrow> split_tables \<Rightarrow> split_tables" where
  "appended m k e s = s\<lparr>split_accounting := sql_update (\<lambda>a. sa_mig_id a = m) (retain (int (length e))) (split_accounting s),
     split_sequence := split_sequence s + 1,
     split_oplog := split_oplog s @ [\<lparr> so_lsn = split_sequence s + 1, so_mig_id = m, so_oplog_row = e \<rparr>],
     split_keys := split_keys s @ [\<lparr> sk_mig_id = m, sk_principal_id = fst k, sk_mut_id = snd k, sk_lsn = split_sequence s + 1 \<rparr>]\<rparr>"

lemma single_row: "sql_changes p t = 1 \<Longrightarrow> \<exists>r \<in> set t. p r"
  by (cases "filter p t") (auto simp: sql_changes_def filter_eq_Cons_iff)

lemma capture_encoded_cases:
  assumes "source_inv s" and "captureEncodedForMigration m pr mu e s = Inr (n, s')"
  obtains (again) key r where "n = 0" "s' = s" "key \<in> set (split_keys s)" "split_key key = (m, pr, mu)" "r \<in> set (split_oplog s)"
      "so_mig_id r = m" "so_lsn r = sk_lsn key" "so_oplog_row r = e"
  | (fresh) a where "n = 1" "s' = appended m (pr, mu) e s" "\<forall>k \<in> set (split_keys s). split_key k \<noteq> (m, pr, mu)"
      "a \<in> set (split_accounting s)" "sa_mig_id a = m" "sa_retained_rows a < CDB_SPLIT_OPLOG_MAX_ROWS"
      "sa_retained_bytes a + int (length e) \<le> CDB_SPLIT_OPLOG_MAX_BYTES" "safe_integer (split_sequence s + 1)"
proof (cases "sql_one (\<lambda>k. split_key k = (m, pr, mu)) (split_keys s)")
  case (Some key)
  then obtain r where r: "sql_one (\<lambda>r. so_mig_id r = m \<and> so_lsn r = sk_lsn key) (split_oplog s) = Some r" "so_oplog_row r = e" "n = 0" "s' = s"
    using assms(2) by (auto simp: captureEncodedForMigration_def bytesEq_iff Let_def split: option.splits if_splits)
  show thesis using again [OF r(3,4)] sql_one_SomeD [OF Some] sql_one_SomeD [OF r(1)] r(2) by auto
next
  case None
  let ?p = "\<lambda>a. sa_mig_id a = m \<and> sa_retained_rows a < CDB_SPLIT_OPLOG_MAX_ROWS \<and> sa_retained_bytes a \<le> CDB_SPLIT_OPLOG_MAX_BYTES - int (length e)"
  have run: "sql_changes ?p (split_accounting s) = 1" "safe_integer (split_sequence s + 1)" "n = 1"
      "s' = s\<lparr>split_accounting := sql_update ?p (retain (int (length e))) (split_accounting s), split_sequence := split_sequence s + 1,
        split_oplog := split_oplog s @ [\<lparr> so_lsn = split_sequence s + 1, so_mig_id = m, so_oplog_row = e \<rparr>],
        split_keys := split_keys s @ [\<lparr> sk_mig_id = m, sk_principal_id = pr, sk_mut_id = mu, sk_lsn = split_sequence s + 1 \<rparr>]\<rparr>"
    using assms(2) None by (auto simp: captureEncodedForMigration_def Let_def result_simps)
  obtain a where a: "a \<in> set (split_accounting s)" "?p a" using single_row [OF run(1)] by blast
  have "?p x \<longleftrightarrow> sa_mig_id x = m" if "x \<in> set (split_accounting s)" for x
    using a that assms(1) unique_key_row [of sa_mig_id "split_accounting s" x a] by (auto simp: source_inv_def accounting_inv_def)
  then have "sql_update ?p f (split_accounting s) = sql_update (\<lambda>a. sa_mig_id a = m) f (split_accounting s)" for f
    by (auto simp: sql_update_def)
  then have "s' = appended m (pr, mu) e s" using run(4) by (simp add: appended_def)
  then show thesis using fresh [of a] run(2,3) a None by (auto simp: sql_one_None_iff)
qed

lemma appended_inv:
  assumes "source_inv s" and "a \<in> set (split_accounting s)" and "sa_mig_id a = m" and "sa_retained_rows a < CDB_SPLIT_OPLOG_MAX_ROWS"
    and "sa_retained_bytes a + int (length e) \<le> CDB_SPLIT_OPLOG_MAX_BYTES" and "safe_integer (split_sequence s + 1)"
    and "\<forall>k \<in> set (split_keys s). split_key k \<noteq> (m, k1, k2)" and "e \<noteq> []" and "int (length e) \<le> CDB_SPLIT_OPLOG_MAX_ROW_BYTES"
  shows "source_inv (appended m (k1, k2) e s)"
proof -
  let ?s = "appended m (k1, k2) e s"
  have rows: "rows_inv s" and keys: "keys_inv s" and acc: "accounting_inv s" using assms(1) by (simp_all add: source_inv_def)
  have below: "\<forall>r \<in> set (split_oplog s). so_lsn r < split_sequence s + 1" using rows by (auto simp: rows_inv_def)
  have "\<forall>k \<in> set (split_keys s). sk_lsn k < split_sequence s + 1"
  proof
    fix k assume "k \<in> set (split_keys s)"
    then have "(sk_mig_id k, sk_lsn k) \<in> (\<lambda>r. (so_mig_id r, so_lsn r)) ` set (split_oplog s)" using keys by (auto simp: keys_inv_def)
    then show "sk_lsn k < split_sequence s + 1" using below by auto
  qed
  then have "keys_inv ?s" using keys assms(7) by (fastforce simp: keys_inv_def appended_def split_key_def)
  moreover have "rows_inv ?s"
    using rows below assms(6,8,9) by (auto simp: rows_inv_def appended_def sorted_wrt_append row_bytes_def Suc_le_eq)
  moreover have "accounting_inv ?s"
  proof -
    have migs: "map sa_mig_id (split_accounting ?s) = map sa_mig_id (split_accounting s)"
      by (auto simp: appended_def sql_update_def retain_def)
    have split: "of_migration m' ?s = of_migration m' s @ (if m' = m then [\<lparr> so_lsn = split_sequence s + 1, so_mig_id = m, so_oplog_row = e \<rparr>] else [])" for m'
      by (simp add: of_migration_def appended_def)
    have "accounts_for ?s b" if b: "b \<in> set (split_accounting ?s)" for b
    proof (cases "sa_mig_id b = m")
      case True
      then obtain b0 where b0: "b0 \<in> set (split_accounting s)" "sa_mig_id b0 = m" "b = retain (int (length e)) b0"
        using b by (auto simp: appended_def set_sql_update)
      then have "b0 = a" using acc assms(2,3) unique_key_row [of sa_mig_id "split_accounting s" b0 a] by (simp add: accounting_inv_def)
      then have "accounts_for s a" and b_eq: "b = retain (int (length e)) a" using acc assms(2) b0(3) by (auto simp: accounting_inv_def)
      then show ?thesis using assms(3-5) below
        unfolding accounts_for_def split by (auto simp: retain_def row_bytes_def accounting_ok_def appended_def safe_integer_def
            CDB_SPLIT_OPLOG_MAX_ROWS_def CDB_SPLIT_OPLOG_MAX_BYTES_def)
    next
      case False
      then have "b \<in> set (split_accounting s)" using b by (auto simp: appended_def set_sql_update retain_def)
      then have "accounts_for s b" using acc by (simp add: accounting_inv_def)
      then show ?thesis using False unfolding accounts_for_def split by (simp add: appended_def)
    qed
    moreover have "so_mig_id ` set (split_oplog ?s) \<subseteq> sa_mig_id ` set (split_accounting ?s)"
      using acc assms(2,3) migs [THEN arg_cong, of set] by (auto simp: accounting_inv_def appended_def)
    ultimately show ?thesis using migs acc by (simp add: accounting_inv_def)
  qed
  ultimately show ?thesis by (simp add: source_inv_def)
qed

lemma encoded_nonempty: "encodeCapturedRow row v = Inr b \<Longrightarrow> b \<noteq> []"
  by (auto simp: encode_eq_Inr captured_json_def utf8_def)

lemma capture_encoded_inv:
  assumes "source_inv s" and "captureEncodedForMigration m pr mu e s = Inr (n, s')" and "e \<noteq> []" and "int (length e) \<le> CDB_SPLIT_OPLOG_MAX_ROW_BYTES"
  shows "source_inv s'"
  using assms(1,2)
proof (cases rule: capture_encoded_cases)
  case again
  then show ?thesis using assms(1) by simp
next
  case (fresh a)
  then show ?thesis using appended_inv [OF assms(1) fresh(4-8) fresh(3) assms(3,4)] by simp
qed

lemma capture_outcome_inv:
  assumes "source_inv s" and "captureSplitOpLogOutcome pr mu v l s = Inr (n, s')"
  shows "source_inv s'"
proof (cases "capturing v s")
  case Nil
  then show ?thesis using assms by (auto simp: captureSplitOpLogOutcome_def result_simps Let_def)
next
  case (Cons split rest)
  then obtain row e where "encodeCapturedRow row v = Inr e" "int (length e) \<le> CDB_SPLIT_OPLOG_MAX_ROW_BYTES"
      "captureEncodedForMigration (ss_mig_id split) pr mu e (ensureSourceAccounting (ss_mig_id split) s) = Inr (n, s')"
    using assms(2) by (auto simp: captureSplitOpLogOutcome_def result_simps Let_def split: option.splits)
  moreover have "source_inv (ensureSourceAccounting (ss_mig_id split) s)"
    unfolding ensureSourceAccounting_def using assms(1) by (intro insert_accounting_inv) (simp_all add: safe_integer_def)
  ultimately show ?thesis using capture_encoded_inv encoded_nonempty by blast
qed

section \<open>Seeding\<close>

lemma update_accounting_inv:
  assumes "source_inv s" and "\<And>a. a \<in> set (split_accounting s) \<Longrightarrow> p a \<Longrightarrow> sa_mig_id (f a) = sa_mig_id a \<and> accounts_for s (f a)"
  shows "source_inv (s\<lparr>split_accounting := sql_update p f (split_accounting s)\<rparr>)"
proof -
  have migs: "map sa_mig_id (sql_update p f (split_accounting s)) = map sa_mig_id (split_accounting s)"
    using assms(2) by (auto simp: sql_update_def)
  have acc: "accounting_inv s" using assms(1) by (simp add: source_inv_def)
  have "accounts_for s b" if "b \<in> set (sql_update p f (split_accounting s))" for b
    using that acc assms(2) by (auto simp: set_sql_update accounting_inv_def)
  then have "accounts_for (s\<lparr>split_accounting := t\<rparr>) b" if "b \<in> set (sql_update p f (split_accounting s))" for b t
    using that by (simp add: accounts_for_def of_migration_def)
  moreover have "so_mig_id ` set (split_oplog s) \<subseteq> sa_mig_id ` set (sql_update p f (split_accounting s))"
    using acc migs [THEN arg_cong, of set] by (simp add: accounting_inv_def)
  ultimately show ?thesis using assms(1) migs
    by (simp add: source_inv_def rows_inv_def keys_inv_def accounting_inv_def)
qed

text \<open>Capturing leaves the seed cursors alone.\<close>

definition seeds :: "split_tables \<Rightarrow> (string \<times> int \<times> int) list" where
  "seeds s = map (\<lambda>a. (sa_mig_id a, sa_seed_after_event_id a, sa_seed_max_event_id a)) (split_accounting s)"

lemma capture_encoded_seeds:
  "source_inv s \<Longrightarrow> captureEncodedForMigration m pr mu e s = Inr (n, s') \<Longrightarrow> seeds s' = seeds s"
  by (erule (1) capture_encoded_cases) (auto simp: seeds_def appended_def sql_update_def retain_def)

lemma seed_rows_inv:
  assumes "seed_rows m rows c after b s = Inr (c', after', s')" and "source_inv s" and "\<forall>r \<in> set rows. ev_event_id r \<le> mx" and "after \<le> mx"
  shows "source_inv s'" and "seeds s' = seeds s" and "after \<le> after'" and "after' \<le> mx"
proof -
  have "source_inv s' \<and> seeds s' = seeds s \<and> after \<le> after' \<and> after' \<le> mx"
    using assms
  proof (induction rows arbitrary: c after b s)
    case Nil
    then show ?case by simp
  next
    case (Cons row rows)
    then obtain v e where e: "encodeCapturedRow row v = Inr e" "int (length e) \<le> CDB_SPLIT_OPLOG_MAX_ROW_BYTES" "after < ev_event_id row"
        "(if CDB_SPLIT_OPLOG_MAX_BYTES < b + int (length e) then Inr (c, after, s)
          else rbind (captureEncodedForMigration m (ev_principal_id row) (ev_mut_id row) e s)
            (\<lambda>(n, s1). seed_rows m rows (c + n) (ev_event_id row) (b + int (length e)) s1)) = Inr (c', after', s')"
      by (auto simp: result_simps split: option.splits)
    show ?case
    proof (cases "CDB_SPLIT_OPLOG_MAX_BYTES < b + int (length e)")
      case True
      then show ?thesis using Cons.prems e(4) by simp
    next
      case False
      then obtain n s1 where one: "captureEncodedForMigration m (ev_principal_id row) (ev_mut_id row) e s = Inr (n, s1)"
          "seed_rows m rows (c + n) (ev_event_id row) (b + int (length e)) s1 = Inr (c', after', s')"
        using e(4) by (auto simp: result_simps)
      have "source_inv s1" using capture_encoded_inv [OF Cons.prems(2) one(1) encoded_nonempty [OF e(1)] e(2)] .
      then show ?thesis using Cons.IH [OF one(2)] capture_encoded_seeds [OF Cons.prems(2) one(1)] Cons.prems(3) e(3) by simp
    qed
  qed
  then show "source_inv s'" "seeds s' = seeds s" "after \<le> after'" "after' \<le> mx" by blast+
qed

lemma seed_page_rows_bound: "\<forall>r \<in> set (seed_page_rows state a k l). ev_event_id r \<le> sa_seed_max_event_id a"
  by (auto simp: seed_page_rows_def dest: in_set_takeD)

lemma seed_page_inv:
  assumes "source_inv s" and "seedSplitOpLogPage m l s = Inr (n, s')"
  shows "source_inv s'"
proof -
  obtain accounting where acc: "requiredSourceAccounting m s = Inr accounting" using assms(2) by (auto simp: seedSplitOpLogPage_def result_simps)
  note a = required_ok [OF assms(1)] acc [unfolded required_Inr]
  show ?thesis
  proof (cases "s' = s")
    case True
    then show ?thesis using assms(1) by simp
  next
    case False
    then obtain rows c after' s1 d where page: "seed_rows m rows 0 (sa_seed_after_event_id accounting) (sa_retained_bytes accounting) s = Inr (c, after', s1)"
        "\<forall>r \<in> set rows. ev_event_id r \<le> sa_seed_max_event_id accounting" "advance_seed m accounting after' d s1 = Inr s'"
      using assms(2) acc seed_page_rows_bound by (auto simp: seedSplitOpLogPage_def result_simps Let_def split: option.splits if_splits)
    let ?p = "\<lambda>a. sa_mig_id a = m \<and> sa_seed_after_event_id a = sa_seed_after_event_id accounting \<and> sa_seed_done a = 0"
    have s': "s' = s1\<lparr>split_accounting := sql_update ?p (\<lambda>a. a\<lparr>sa_seed_after_event_id := after', sa_seed_done := (if d then 1 else 0)\<rparr>)
        (split_accounting s1)\<rparr>"
      using page(3) by (auto simp: advance_seed_def result_simps Let_def)
    have ok: "0 \<le> sa_seed_after_event_id accounting" "sa_seed_after_event_id accounting \<le> sa_seed_max_event_id accounting"
      using a(5) by (simp_all add: accounting_ok_def)
    note loop = seed_rows_inv [OF page(1) assms(1) page(2) ok(2)]
    have "accounts_for s1 (x\<lparr>sa_seed_after_event_id := after', sa_seed_done := d\<rparr>)" if "x \<in> set (split_accounting s1)" "sa_mig_id x = m" "d \<in> {0, 1}" for x d
    proof -
      have "(m, sa_seed_after_event_id x, sa_seed_max_event_id x) \<in> set (seeds s1)" using that by (force simp: seeds_def)
      then obtain y where "y \<in> set (split_accounting s)" "sa_mig_id y = m" "sa_seed_max_event_id y = sa_seed_max_event_id x"
        unfolding loop(2) by (auto simp: seeds_def)
      moreover have "accounting \<in> set (split_accounting s)" "sa_mig_id accounting = m" using a(2,3,5) by blast+
      ultimately have "sa_seed_max_event_id x = sa_seed_max_event_id accounting"
        using assms(1) unique_key_row [of sa_mig_id "split_accounting s" y accounting] by (auto simp: source_inv_def accounting_inv_def)
      moreover have "accounts_for s1 x" using loop(1) that(1) by (simp add: source_inv_def accounting_inv_def)
      ultimately show ?thesis using loop(3,4) ok that(3) by (auto simp: accounts_for_def accounting_ok_def safe_integer_def)
    qed
    then show ?thesis unfolding s' by (intro update_accounting_inv loop(1)) auto
  qed
qed

section \<open>Acknowledging\<close>

lemma in_order: "rows_inv s \<Longrightarrow> sort_key so_lsn (filter p (split_oplog s)) = filter p (split_oplog s)"
proof -
  assume "rows_inv s"
  then have "sorted_wrt (<) (map so_lsn (filter p (split_oplog s)))"
    by (simp add: rows_inv_def sorted_wrt_map sorted_wrt_filter)
  then show ?thesis by (intro sort_key_id_if_sorted strict_sorted_imp_sorted)
qed

definition acked_rows :: "string \<Rightarrow> int \<Rightarrow> split_tables \<Rightarrow> split_oplog_row list" where
  "acked_rows m t s = filter (\<lambda>r. so_mig_id r = m \<and> so_lsn r \<le> t) (split_oplog s)"

definition pruned :: "string \<Rightarrow> int \<Rightarrow> split_tables \<Rightarrow> split_tables" where
  "pruned m t s = s\<lparr>split_keys := sql_delete (\<lambda>k. sk_mig_id k = m \<and> sk_lsn k \<le> t) (split_keys s),
     split_oplog := sql_delete (\<lambda>r. so_mig_id r = m \<and> so_lsn r \<le> t) (split_oplog s),
     split_accounting := sql_update (\<lambda>a. sa_mig_id a = m) (\<lambda>a. a\<lparr>sa_acked_lsn := t,
       sa_retained_rows := sa_retained_rows a - int (length (acked_rows m t s)),
       sa_retained_bytes := sa_retained_bytes a - sum_list (map row_bytes (acked_rows m t s))\<rparr>) (split_accounting s)\<rparr>"

lemma filter_split_sum: "sum_list (map f (filter p xs)) + sum_list (map f (filter (\<lambda>x. \<not> p x) xs)) = (sum_list (map f xs) :: int)"
  by (induction xs) auto

lemma of_migration_pruned:
  "of_migration m' (pruned m t s) = (if m' = m then filter (\<lambda>r. t < so_lsn r) (of_migration m s) else of_migration m' s)"
  by (auto simp: of_migration_def pruned_def sql_delete_def conj_commute intro!: filter_cong)

lemma acked_split:
  "int (length (acked_rows m t s)) + int (length (filter (\<lambda>r. t < so_lsn r) (of_migration m s))) = int (length (of_migration m s))"
  "sum_list (map row_bytes (acked_rows m t s)) + sum_list (map row_bytes (filter (\<lambda>r. t < so_lsn r) (of_migration m s))) =
     sum_list (map row_bytes (of_migration m s))"
proof -
  have rows: "acked_rows m t s = filter (\<lambda>r. so_lsn r \<le> t) (of_migration m s)"
    by (auto simp: acked_rows_def of_migration_def conj_commute intro!: filter_cong)
  show "sum_list (map row_bytes (acked_rows m t s)) + sum_list (map row_bytes (filter (\<lambda>r. t < so_lsn r) (of_migration m s))) =
     sum_list (map row_bytes (of_migration m s))"
    unfolding rows using filter_split_sum [of row_bytes "\<lambda>r. so_lsn r \<le> t" "of_migration m s"] by (simp add: not_le)
  show "int (length (acked_rows m t s)) + int (length (filter (\<lambda>r. t < so_lsn r) (of_migration m s))) = int (length (of_migration m s))"
    unfolding rows using sum_length_filter_compl [of "\<lambda>r. so_lsn r \<le> t" "of_migration m s"] by (simp add: not_le)
qed

lemma bytes_nonneg: "0 \<le> sum_list (map row_bytes rs)"
  by (rule sum_list_nonneg) (auto simp: row_bytes_def)

lemma pruned_inv:
  assumes "source_inv s" and "r0 \<in> set (split_oplog s)" and "so_mig_id r0 = m" and "so_lsn r0 = t"
  shows "source_inv (pruned m t s)"
proof -
  have rows: "rows_inv s" and keys: "keys_inv s" and acc: "accounting_inv s" using assms(1) by (simp_all add: source_inv_def)
  have t: "0 \<le> t" "t \<le> split_sequence s" using rows assms(2,4) by (auto simp: rows_inv_def)
  have "rows_inv (pruned m t s)"
    using rows by (auto simp: rows_inv_def pruned_def sql_delete_def sorted_wrt_map sorted_wrt_filter)
  moreover have "keys_inv (pruned m t s)"
  proof -
    have eq: "(\<lambda>k. (sk_mig_id k, sk_lsn k)) ` set (split_keys s) = (\<lambda>r. (so_mig_id r, so_lsn r)) ` set (split_oplog s)"
      using keys by (simp add: keys_inv_def)
    have "(\<lambda>k. (sk_mig_id k, sk_lsn k)) ` {k \<in> set (split_keys s). \<not> (sk_mig_id k = m \<and> sk_lsn k \<le> t)} =
        {x \<in> (\<lambda>k. (sk_mig_id k, sk_lsn k)) ` set (split_keys s). \<not> (fst x = m \<and> snd x \<le> t)}" by force
    also have "\<dots> = (\<lambda>r. (so_mig_id r, so_lsn r)) ` {r \<in> set (split_oplog s). \<not> (so_mig_id r = m \<and> so_lsn r \<le> t)}" unfolding eq by force
    finally show ?thesis using keys by (simp add: keys_inv_def pruned_def set_sql_delete distinct_keys_sql_delete)
  qed
  moreover have "accounting_inv (pruned m t s)"
  proof -
    let ?f = "\<lambda>a. a\<lparr>sa_acked_lsn := t, sa_retained_rows := sa_retained_rows a - int (length (acked_rows m t s)),
       sa_retained_bytes := sa_retained_bytes a - sum_list (map row_bytes (acked_rows m t s))\<rparr>"
    have migs: "map sa_mig_id (split_accounting (pruned m t s)) = map sa_mig_id (split_accounting s)" by (simp add: pruned_def sql_update_def)
    have "accounts_for (pruned m t s) b" if b: "b \<in> set (split_accounting (pruned m t s))" for b
    proof (cases "sa_mig_id b = m")
      case True
      then obtain a where a: "a \<in> set (split_accounting s)" "sa_mig_id a = m" "b = ?f a" using b by (auto simp: pruned_def set_sql_update)
      then have "accounts_for s a" using acc by (simp add: accounting_inv_def)
      then show ?thesis using a(2,3) t acked_split [of m t s] bytes_nonneg [of "filter (\<lambda>r. t < so_lsn r) (of_migration m s)"]
          bytes_nonneg [of "acked_rows m t s"] rows
        unfolding accounts_for_def of_migration_pruned
        by (auto simp: accounting_ok_def safe_integer_def pruned_def rows_inv_def)
    next
      case False
      then have "b \<in> set (split_accounting s)" using b by (auto simp: pruned_def set_sql_update)
      then have "accounts_for s b" using acc by (simp add: accounting_inv_def)
      then show ?thesis using False unfolding accounts_for_def of_migration_pruned by (simp add: pruned_def)
    qed
    moreover have "so_mig_id ` set (split_oplog (pruned m t s)) \<subseteq> sa_mig_id ` set (split_accounting (pruned m t s))"
      using acc migs [THEN arg_cong, of set] by (auto simp: accounting_inv_def pruned_def set_sql_delete)
    ultimately show ?thesis using migs acc by (simp add: accounting_inv_def)
  qed
  ultimately show ?thesis by (simp add: source_inv_def)
qed

lemma changes_key:
  assumes "distinct (map key t)" and "a \<in> set t" and "\<And>x. x \<in> set t \<Longrightarrow> p x \<longleftrightarrow> key x = key a"
  shows "sql_changes p t = 1"
proof -
  have "filter p t = filter (\<lambda>x. key x = key a) t" using assms(3) by (intro filter_cong) auto
  moreover have "length (filter (\<lambda>x. key x = key a) t) \<le> 1" by (rule unique_key_rows_le_1 [OF assms(1)])
  moreover have "a \<in> set (filter (\<lambda>x. key x = key a) t)" using assms(2) by simp
  ultimately show ?thesis by (cases "filter (\<lambda>x. key x = key a) t") (auto simp: sql_changes_def)
qed

lemma sql_update_cong: "(\<And>x. x \<in> set t \<Longrightarrow> p x = q x) \<Longrightarrow> sql_update p f t = sql_update q f t"
  by (auto simp: sql_update_def)

lemma ack_retained:
  assumes "source_inv s" and "r0 \<in> set (split_oplog s)" and "so_mig_id r0 = m" and "so_lsn r0 = t"
  shows "ackSplitOpLog m t s = Inr (\<lparr> ak_pruned = int (length (acked_rows m t s)),
    ak_prunedBytes = sum_list (map row_bytes (acked_rows m t s)), ak_ackedLsn = t \<rparr>, pruned m t s)"
proof -
  have rows: "rows_inv s" and acc: "accounting_inv s" using assms(1) by (simp_all add: source_inv_def)
  obtain a where a: "a \<in> set (split_accounting s)" "sa_mig_id a = m" using acc assms(2,3) by (force simp: accounting_inv_def)
  then have one: "sql_one (\<lambda>x. sa_mig_id x = m) (split_accounting s) = Some a" using accounting_unique [OF assms(1)] by blast
  note acct = required_ok [OF assms(1) one]
  have fits: "sa_retained_rows a = int (length (of_migration m s))" "sa_retained_bytes a = sum_list (map row_bytes (of_migration m s))"
      "\<forall>r \<in> set (of_migration m s). sa_acked_lsn a < so_lsn r" "accounting_ok a" using acct(3,4) by (simp_all add: accounts_for_def)
  have r0: "r0 \<in> set (of_migration m s)" "r0 \<in> set (acked_rows m t s)" using assms(2-4) by (simp_all add: of_migration_def acked_rows_def)
  have lt: "sa_acked_lsn a < t" using fits(3) r0(1) assms(4) by blast
  have safe_t: "safe_integer t" "0 \<le> t" using rows assms(2,4) by (auto simp: rows_inv_def safe_integer_def)
  note split = acked_split [of m t s] bytes_nonneg [of "filter (\<lambda>r. t < so_lsn r) (of_migration m s)"] bytes_nonneg [of "acked_rows m t s"]
  let ?n = "int (length (acked_rows m t s))" and ?b = "sum_list (map row_bytes (acked_rows m t s))"
  have sizes: "1 \<le> ?n" "?n \<le> sa_retained_rows a" "?b \<le> sa_retained_bytes a" "?n \<le> CDB_SPLIT_OPLOG_MAX_ROWS" "safe_integer ?b" "0 \<le> ?b"
    using r0(2) split fits by (auto simp: accounting_ok_def safe_integer_def Suc_le_eq dest: length_pos_if_in_set)
  have "filter (\<lambda>r. so_mig_id r = m \<and> sa_acked_lsn a < so_lsn r \<and> so_lsn r \<le> t) (split_oplog s) = acked_rows m t s"
    unfolding acked_rows_def using fits(3) by (intro filter_cong) (auto simp: of_migration_def)
  then have read: "take (nat (CDB_SPLIT_OPLOG_MAX_ROWS + 1)) (sort_key so_lsn
      (filter (\<lambda>r. so_mig_id r = m \<and> sa_acked_lsn a < so_lsn r \<and> so_lsn r \<le> t) (split_oplog s))) = acked_rows m t s"
    using in_order [OF rows, of "\<lambda>r. so_mig_id r = m \<and> sa_acked_lsn a < so_lsn r \<and> so_lsn r \<le> t"] sizes(4) by simp
  have small: "\<forall>r \<in> set (acked_rows m t s). safe_integer (row_bytes r) \<and> 1 \<le> row_bytes r"
    using rows by (auto simp: rows_inv_def acked_rows_def safe_integer_def CDB_SPLIT_OPLOG_MAX_ROW_BYTES_def)
  let ?p = "\<lambda>x. sa_mig_id x = m \<and> sa_acked_lsn x = sa_acked_lsn a \<and> ?n \<le> sa_retained_rows x \<and> ?b \<le> sa_retained_bytes x"
  have p: "?p x \<longleftrightarrow> sa_mig_id x = m" if "x \<in> set (split_accounting s)" for x
    using that a acc sizes unique_key_row [of sa_mig_id "split_accounting s" x a] by (auto simp: accounting_inv_def)
  have "sql_changes ?p (split_accounting s) = 1"
    using changes_key [of sa_mig_id "split_accounting s" a ?p] acc a p by (simp add: accounting_inv_def)
  moreover have "sql_update ?p f (split_accounting s) = sql_update (\<lambda>x. sa_mig_id x = m) f (split_accounting s)" for f
    using p by (rule sql_update_cong)
  moreover have "accounting_check (x\<lparr>sa_acked_lsn := t, sa_retained_rows := sa_retained_rows x - ?n, sa_retained_bytes := sa_retained_bytes x - ?b\<rparr>)"
    if "x \<in> set (split_accounting s)" "?p x" for x
    using that acc safe_t by (auto simp: accounting_check_def accounting_inv_def accounts_for_def accounting_ok_def)
  moreover have "sql_one (\<lambda>r. so_mig_id r = m \<and> so_lsn r = t) (split_oplog s) \<noteq> None" using assms(2-4) by (auto simp: sql_one_None_iff)
  moreover have "int (sql_changes (\<lambda>r. so_mig_id r = m \<and> so_lsn r \<le> t) (split_oplog s)) = ?n" by (simp add: sql_changes_def acked_rows_def)
  ultimately show ?thesis
    using acct(1) lt safe_t sizes small
    by (simp add: ackSplitOpLog_def assertCursor_def read Let_def pruned_def sql_update_checked_def)
qed

lemma ack_inv:
  assumes "source_inv s" and "ackSplitOpLog m t s = Inr (res, s')"
  shows "source_inv s'"
proof (cases "\<exists>r \<in> set (split_oplog s). so_mig_id r = m \<and> so_lsn r = t")
  case True
  then show ?thesis using ack_retained [OF assms(1)] pruned_inv [OF assms(1)] assms(2) by auto
next
  case False
  then have "s' = s" using assms(2) by (auto simp: ackSplitOpLog_def result_simps sql_one_None_iff Let_def split: if_splits)
  then show ?thesis using assms(1) by simp
qed

section \<open>Recovery of the accounting\<close>

lemma recount_rows_sum:
  assumes "\<forall>r \<in> set rows. ackedLsn < so_lsn r \<and> safe_integer (so_lsn r) \<and> 0 \<le> so_lsn r \<and> 1 \<le> row_bytes r \<and> row_bytes r \<le> CDB_SPLIT_OPLOG_MAX_ROW_BYTES"
    and "0 \<le> b" and "b + sum_list (map row_bytes rows) \<le> CDB_SPLIT_OPLOG_MAX_BYTES"
  shows "recount_rows ackedLsn rows b = Inr (b + sum_list (map row_bytes rows))"
  using assms
proof (induction rows arbitrary: b)
  case Nil
  then show ?case by simp
next
  case (Cons r rows)
  have "b + row_bytes r \<le> CDB_SPLIT_OPLOG_MAX_BYTES" using Cons.prems(3) bytes_nonneg [of rows] by simp
  moreover have "1 \<le> row_bytes r" "row_bytes r \<le> CDB_SPLIT_OPLOG_MAX_ROW_BYTES" using Cons.prems(1) by simp_all
  ultimately have "safe_integer (row_bytes r)" "safe_integer (b + row_bytes r)" "0 \<le> b + row_bytes r"
    using Cons.prems(2) by (auto simp: safe_integer_def CDB_SPLIT_OPLOG_MAX_BYTES_def CDB_SPLIT_OPLOG_MAX_ROW_BYTES_def)
  then show ?case using Cons \<open>b + row_bytes r \<le> CDB_SPLIT_OPLOG_MAX_BYTES\<close> by (simp add: assertCursor_def)
qed

lemma recount_eq:
  assumes "source_inv s"
  shows "recount m s = Inr (ensureSourceAccounting m s)"
proof -
  have rows: "rows_inv s" using assms by (simp add: source_inv_def)
  have sorted: "sort_key so_lsn (filter (\<lambda>r. so_mig_id r = m) (split_oplog s)) = of_migration m s"
    unfolding of_migration_def by (rule in_order [OF rows])
  show ?thesis
  proof (cases "sql_one (\<lambda>a. sa_mig_id a = m) (split_accounting s)")
    case None
    then have "of_migration m s = []" using assms by (fastforce simp: source_defs sql_one_None_iff filter_empty_conv)
    moreover have "(new_accounting m 0)\<lparr>sa_retained_rows := 0, sa_retained_bytes := 0\<rparr> = new_accounting m 0" by (simp add: new_accounting_def)
    moreover have "accounting_check (new_accounting m 0)" by (simp add: accounting_check_def new_accounting_def)
    moreover have "assertCursor 0 = Inr ()" by (simp add: assertCursor_def safe_integer_def)
    moreover have "sql_insert sa_mig_id accounting_check (new_accounting m 0) (split_accounting s) = Inr (split_accounting s @ [new_accounting m 0])"
      using None \<open>accounting_check (new_accounting m 0)\<close> by (auto simp: sql_insert_def sql_one_None_iff new_accounting_def)
    ultimately show ?thesis using None sorted
      by (simp add: recount_def Let_def CDB_SPLIT_OPLOG_MAX_ROWS_def ensureSourceAccounting_def accounting_insert_or_ignore_def)
  next
    case (Some a)
    note a = required_ok [OF assms Some]
    then have fits: "sa_retained_rows a = int (length (of_migration m s))" "sa_retained_bytes a = sum_list (map row_bytes (of_migration m s))"
        "\<forall>r \<in> set (of_migration m s). sa_acked_lsn a < so_lsn r" "accounting_ok a" by (simp_all add: accounts_for_def)
    have "recount_rows (sa_acked_lsn a) (of_migration m s) 0 = Inr (0 + sum_list (map row_bytes (of_migration m s)))"
      using rows fits by (intro recount_rows_sum) (auto simp: rows_inv_def of_migration_def safe_integer_def accounting_ok_def)
    moreover have "x\<lparr>sa_retained_rows := int (length (of_migration m s)), sa_retained_bytes := sum_list (map row_bytes (of_migration m s))\<rparr> = x"
      "accounting_check x" if "x \<in> set (split_accounting s)" "sa_mig_id x = m" for x
    proof -
      have "x = a" using that a(2,3) assms unique_key_row [of sa_mig_id "split_accounting s" x a] by (simp add: source_inv_def accounting_inv_def)
      then show "x\<lparr>sa_retained_rows := int (length (of_migration m s)), sa_retained_bytes := sum_list (map row_bytes (of_migration m s))\<rparr> = x"
        "accounting_check x" using fits by (auto simp: accounting_ok_def accounting_check_def)
    qed
    moreover have bound: "int (length (of_migration m s)) \<le> CDB_SPLIT_OPLOG_MAX_ROWS" using fits by (simp add: accounting_ok_def)
    moreover have "take (nat (CDB_SPLIT_OPLOG_MAX_ROWS + 1)) (of_migration m s) = of_migration m s" using bound by (intro take_all) linarith
    moreover have "assertCursor (sa_acked_lsn a) = Inr ()" using fits(4) by (simp add: assertCursor_def accounting_ok_def)
    moreover have "ensureSourceAccounting m s = s"
      using a(2,3) by (auto simp: ensureSourceAccounting_def accounting_insert_or_ignore_def sql_insert_def new_accounting_def)
    ultimately have "recount m s = Inr (s\<lparr>split_accounting := sql_update (\<lambda>x. sa_mig_id x = m)
        (\<lambda>x. x\<lparr>sa_retained_rows := int (length (of_migration m s)), sa_retained_bytes := sum_list (map row_bytes (of_migration m s))\<rparr>)
        (split_accounting s)\<rparr>)" "split_accounting s = sql_update (\<lambda>x. sa_mig_id x = m)
        (\<lambda>x. x\<lparr>sa_retained_rows := int (length (of_migration m s)), sa_retained_bytes := sum_list (map row_bytes (of_migration m s))\<rparr>)
        (split_accounting s)" "ensureSourceAccounting m s = s"
      using Some sorted by (simp_all add: recount_def Let_def sql_update_checked_def) (simp add: sql_update_def map_idI)
    then show ?thesis by simp
  qed
qed

section \<open>Reading\<close>

definition entry_of :: "split_oplog_row \<Rightarrow> SplitOpLogEntry" where
  "entry_of r = \<lparr> en_lsn = so_lsn r, en_oplogRow = so_oplog_row r \<rparr>"

lemma batch_rows_prefix:
  assumes "batch_rows limit rows es b = Inr es'"
  shows "\<exists>k \<le> length rows. es' = es @ map entry_of (take k rows) \<and> (es = [] \<and> rows \<noteq> [] \<and> 1 \<le> limit \<longrightarrow> 1 \<le> k) \<and>
    int (length es') \<le> max limit (int (length es))"
  using assms
proof (induction rows arbitrary: es b)
  case Nil
  then show ?case by simp
next
  case (Cons r rows)
  show ?case
  proof (cases "limit \<le> int (length es) \<or> es \<noteq> [] \<and> CDB_SPLIT_OPLOG_MAX_BATCH_BYTES < b + row_bytes r")
    case True
    then have "es' = es" using Cons.prems by (auto simp: result_simps split: if_splits)
    then show ?thesis using True by (intro exI [of _ 0]) auto
  next
    case False
    then have "batch_rows limit rows (es @ [entry_of r]) (b + row_bytes r) = Inr es'"
      using Cons.prems by (auto simp: result_simps entry_of_def split: if_splits)
    from Cons.IH [OF this] False show ?thesis by (elim exE) (rule_tac x = "Suc k" in exI, auto)
  qed
qed

definition pending :: "string \<Rightarrow> int \<Rightarrow> split_tables \<Rightarrow> split_oplog_row list" where
  "pending m after s = filter (\<lambda>r. so_mig_id r = m \<and> after < so_lsn r) (split_oplog s)"

lemma read_batch:
  assumes "readSplitOpLogBatch m after limit l s = Inr (batch, s')" and "source_inv s"
  shows "source_inv s'" and "\<exists>k \<le> length (pending m after s'). ba_entries batch = map entry_of (take k (pending m after s')) \<and> int k \<le> limit \<and>
    (pending m after s' \<noteq> [] \<longrightarrow> 1 \<le> k) \<and> ba_lastLsn batch = last_lsn (ba_entries batch) after \<and>
    (ba_done batch \<longleftrightarrow> k = length (pending m after s') \<and> (\<exists>a \<in> set (split_accounting s'). sa_mig_id a = m \<and> sa_seed_done a = 1))"
proof -
  obtain n acct where run: "seedSplitOpLogPage m l s = Inr (n, s')" "1 \<le> limit"
      "batch_rows limit (take (nat (limit + 1)) (sort_key so_lsn (pending m after s'))) [] 0 = Inr (ba_entries batch)"
      "requiredSourceAccounting m s' = Inr acct" "ba_lastLsn batch = last_lsn (ba_entries batch) after"
      "ba_done batch \<longleftrightarrow> sql_one (\<lambda>r. so_mig_id r = m \<and> last_lsn (ba_entries batch) after < so_lsn r) (split_oplog s') = None \<and> sa_seed_done acct = 1"
    using assms(1) unfolding pending_def by (auto simp: readSplitOpLogBatch_def result_simps Let_def)
  show inv: "source_inv s'" using seed_page_inv [OF assms(2) run(1)] .
  then have rows: "rows_inv s'" by (simp add: source_inv_def)
  let ?P = "pending m after s'"
  have read: "batch_rows limit (take (nat (limit + 1)) ?P) [] 0 = Inr (ba_entries batch)"
    using run(3) in_order [OF rows] by (simp add: pending_def)
  obtain k0 where k0: "k0 \<le> length (take (nat (limit + 1)) ?P)" "ba_entries batch = map entry_of (take k0 (take (nat (limit + 1)) ?P))"
      "take (nat (limit + 1)) ?P \<noteq> [] \<longrightarrow> 1 \<le> k0" "int (length (ba_entries batch)) \<le> limit"
    using batch_rows_prefix [OF read] run(2) by auto
  then have k: "k0 \<le> length ?P" "ba_entries batch = map entry_of (take k0 ?P)" "?P \<noteq> [] \<longrightarrow> 1 \<le> k0" "int k0 \<le> limit"
    using run(2) by (auto simp: min_def split: if_splits)
  have strict: "sorted_wrt (\<lambda>x y. so_lsn x < so_lsn y) ?P" using rows by (simp add: rows_inv_def pending_def sorted_wrt_map sorted_wrt_filter)
  have rest: "(\<exists>r \<in> set (split_oplog s'). so_mig_id r = m \<and> last_lsn (ba_entries batch) after < so_lsn r) \<longleftrightarrow> k0 \<noteq> length ?P"
  proof (cases "k0 = 0")
    case True
    then have "?P = []" using k(3) by auto
    then show ?thesis using True k(2) by (auto simp: last_lsn_def pending_def filter_empty_conv)
  next
    case False
    then have ne: "take k0 ?P \<noteq> []" using k(1) by auto
    have lastE: "last_lsn (ba_entries batch) after = so_lsn (last (take k0 ?P))" using ne k(2) by (simp add: last_lsn_def last_map entry_of_def)
    have last_in: "last (take k0 ?P) \<in> set ?P" using ne by (meson in_set_takeD last_in_set)
    have parts: "sorted_wrt (\<lambda>x y. so_lsn x < so_lsn y) (take k0 ?P @ drop k0 ?P)" using strict by simp
    show ?thesis
    proof
      assume "\<exists>r \<in> set (split_oplog s'). so_mig_id r = m \<and> last_lsn (ba_entries batch) after < so_lsn r"
      then obtain r where r: "r \<in> set (split_oplog s')" "so_mig_id r = m" "so_lsn (last (take k0 ?P)) < so_lsn r" using lastE by auto
      then have "r \<in> set ?P" using last_in by (auto simp: pending_def)
      moreover have "so_lsn x \<le> so_lsn (last (take k0 ?P))" if "x \<in> set (take k0 ?P)" for x
        using that parts ne by (cases "take k0 ?P" rule: rev_cases) (auto simp: sorted_wrt_append)
      ultimately have "r \<notin> set (take k0 ?P)" using r(3) by force
      then show "k0 \<noteq> length ?P" using \<open>r \<in> set ?P\<close> by auto
    next
      assume "k0 \<noteq> length ?P"
      then have "drop k0 ?P \<noteq> []" using k(1) by simp
      then obtain r where r: "r \<in> set (drop k0 ?P)" by (cases "drop k0 ?P") auto
      then have "so_lsn (last (take k0 ?P)) < so_lsn r" using parts last_in_set [OF ne] unfolding sorted_wrt_append by blast
      then show "\<exists>r \<in> set (split_oplog s'). so_mig_id r = m \<and> last_lsn (ba_entries batch) after < so_lsn r"
        using in_set_dropD [OF r] lastE by (auto simp: pending_def)
    qed
  qed
  have "(\<exists>a \<in> set (split_accounting s'). sa_mig_id a = m \<and> sa_seed_done a = 1) \<longleftrightarrow> sa_seed_done acct = 1"
    using run(4) [unfolded required_Inr] accounting_unique [OF inv] sql_one_SomeD by fastforce
  then show "\<exists>k \<le> length ?P. ba_entries batch = map entry_of (take k ?P) \<and> int k \<le> limit \<and> (?P \<noteq> [] \<longrightarrow> 1 \<le> k) \<and>
      ba_lastLsn batch = last_lsn (ba_entries batch) after \<and>
      (ba_done batch \<longleftrightarrow> k = length ?P \<and> (\<exists>a \<in> set (split_accounting s'). sa_mig_id a = m \<and> sa_seed_done a = 1))"
    using k run(5,6) rest by (intro exI [of _ k0]) (auto simp: sql_one_None_iff)
qed

section \<open>Histories\<close>

text \<open>
  Every successful call of the source, with any log and any arguments, and every change that other components make to the
  split state and to the tables of the destination role.
\<close>

inductive source_step :: "split_tables \<Rightarrow> split_tables \<Rightarrow> bool" where
  step_capture: "captureSplitOpLogOutcome pr mu v l s = Inr (n, s') \<Longrightarrow> source_step s s'"
| step_seed_range: "seedSplitOpLogRange m rl rh l s = Inr (n, s') \<Longrightarrow> source_step s s'"
| step_ack: "ackSplitOpLog m t s = Inr (res, s') \<Longrightarrow> source_step s s'"
| step_read: "readSplitOpLogBatch m after limit l s = Inr (batch, s') \<Longrightarrow> source_step s s'"
| step_finalize: "source_step s (finalizeSplitOpLogSource m s)"
| step_initialize: "initializeSplitOpLogAccounting s = Inr s' \<Longrightarrow> source_step s s'"
| step_state: "source_step s (s\<lparr>split_state := ss\<rparr>)"
| step_destination: "source_step s (s\<lparr>split_cursors := cs, split_applied := as\<rparr>)"

lemma finalize_inv: "source_inv s \<Longrightarrow> source_inv (finalizeSplitOpLogSource m s)"
proof -
  assume inv: "source_inv s"
  let ?s = "finalizeSplitOpLogSource m s"
  have keys: "(\<lambda>k. (sk_mig_id k, sk_lsn k)) ` set (split_keys s) = (\<lambda>r. (so_mig_id r, so_lsn r)) ` set (split_oplog s)"
    using inv by (simp add: source_inv_def keys_inv_def)
  have "(\<lambda>k. (sk_mig_id k, sk_lsn k)) ` {k \<in> set (split_keys s). sk_mig_id k \<noteq> m} =
      {x \<in> (\<lambda>k. (sk_mig_id k, sk_lsn k)) ` set (split_keys s). fst x \<noteq> m}" by force
  also have "\<dots> = (\<lambda>r. (so_mig_id r, so_lsn r)) ` {r \<in> set (split_oplog s). so_mig_id r \<noteq> m}" unfolding keys by force
  finally have "keys_inv ?s" using inv
    by (simp add: source_inv_def keys_inv_def finalizeSplitOpLogSource_def set_sql_delete distinct_keys_sql_delete)
  moreover have "of_migration m' ?s = of_migration m' s" if "m' \<noteq> m" for m'
    using that by (auto simp: of_migration_def finalizeSplitOpLogSource_def sql_delete_def intro!: filter_cong)
  then have "accounting_inv ?s" using inv
    by (auto simp: source_inv_def accounting_inv_def accounts_for_def finalizeSplitOpLogSource_def set_sql_delete distinct_keys_sql_delete)
  moreover have "rows_inv ?s" using inv
    by (auto simp: source_inv_def rows_inv_def finalizeSplitOpLogSource_def sql_delete_def sorted_wrt_map sorted_wrt_filter)
  ultimately show ?thesis by (simp add: source_inv_def)
qed

lemma ensure_inv: "source_inv s \<Longrightarrow> source_inv (ensureSourceAccounting m s)"
  unfolding ensureSourceAccounting_def by (rule insert_accounting_inv) (simp_all add: safe_integer_def)

lemma source_step_inv: "source_step s s' \<Longrightarrow> source_inv s \<Longrightarrow> source_inv s'"
proof (induction rule: source_step.induct)
  case (step_seed_range m rl rh l s n s')
  then show ?case using insert_accounting_inv by (auto simp: seedSplitOpLogRange_def result_simps Let_def split: if_splits)
next
  case (step_initialize s s')
  then obtain sts where "rfold (\<lambda>state :: split_state_row. recount (ss_mig_id state)) sts s = Inr s'"
    unfolding initializeSplitOpLogAccounting_def Let_def rbind_eq_Inr by blast
  then show ?case using step_initialize.prems by (rule rfold_invariant) (auto simp: recount_eq ensure_inv)
qed (auto simp: source_inv_other finalize_inv intro: capture_outcome_inv ack_inv read_batch(1))

lemma source_reachable: "source_step\<^sup>*\<^sup>* empty_split s \<Longrightarrow> source_inv s"
  by (induction rule: rtranclp_induct) (auto simp: source_inv_empty source_step_inv)

section \<open>Properties\<close>

text \<open>
  C32. The source's accounting is exact in every reachable state: for each migration the recorded row and byte counts are
  those of its retained entries and within the limits, every retained entry is newer than the acknowledged one,
  LSNs increase, and the keys that detect a second capture are those of the retained entries, one each.
\<close>

theorem split_accounting_exact:
  assumes "source_step\<^sup>*\<^sup>* empty_split s" and "a \<in> set (split_accounting s)"
  defines "rows \<equiv> of_migration (sa_mig_id a) s"
  shows "sa_retained_rows a = int (length rows) \<and> sa_retained_bytes a = sum_list (map row_bytes rows) \<and>
    int (length rows) \<le> CDB_SPLIT_OPLOG_MAX_ROWS \<and> sum_list (map row_bytes rows) \<le> CDB_SPLIT_OPLOG_MAX_BYTES \<and>
    (\<forall>r \<in> set rows. sa_acked_lsn a < so_lsn r) \<and> sorted_wrt (<) (map so_lsn rows) \<and>
    so_lsn ` set rows = sk_lsn ` {k \<in> set (split_keys s). sk_mig_id k = sa_mig_id a}"
proof -
  have inv: "source_inv s" by (rule source_reachable [OF assms(1)])
  then have "accounts_for s a" using assms(2) by (simp add: source_inv_def accounting_inv_def)
  moreover have "sorted_wrt (<) (map so_lsn rows)" using inv
    by (simp add: rows_def of_migration_def source_inv_def rows_inv_def sorted_wrt_map sorted_wrt_filter)
  moreover have "so_lsn ` set rows = sk_lsn ` {k \<in> set (split_keys s). sk_mig_id k = sa_mig_id a}"
  proof -
    have eq: "(\<lambda>k. (sk_mig_id k, sk_lsn k)) ` set (split_keys s) = (\<lambda>r. (so_mig_id r, so_lsn r)) ` set (split_oplog s)"
      using inv by (simp add: source_inv_def keys_inv_def)
    have "sk_lsn ` {k \<in> set (split_keys s). sk_mig_id k = sa_mig_id a} =
        snd ` {x \<in> (\<lambda>k. (sk_mig_id k, sk_lsn k)) ` set (split_keys s). fst x = sa_mig_id a}" by force
    also have "\<dots> = so_lsn ` set rows" unfolding eq rows_def of_migration_def by force
    finally show ?thesis by simp
  qed
  ultimately show ?thesis by (auto simp: accounts_for_def accounting_ok_def rows_def)
qed

text \<open>
  Batches lose nothing: in a reachable state a read returns the oldest entries after the cursor, in LSN order, at least
  one when there is one and at most the limit; it reports the end exactly when no entry and no unseeded
  history is left.
\<close>

theorem split_read_exact:
  assumes "source_step\<^sup>*\<^sup>* empty_split s" and "readSplitOpLogBatch m after limit l s = Inr (batch, s')"
  shows "\<exists>k \<le> length (pending m after s'). ba_entries batch = map entry_of (take k (pending m after s')) \<and> int k \<le> limit \<and>
    (pending m after s' \<noteq> [] \<longrightarrow> 1 \<le> k) \<and> ba_lastLsn batch = last_lsn (ba_entries batch) after \<and>
    (ba_done batch \<longleftrightarrow> k = length (pending m after s') \<and> (\<exists>a \<in> set (split_accounting s'). sa_mig_id a = m \<and> sa_seed_done a = 1))"
  by (rule read_batch(2) [OF assms(2) source_reachable [OF assms(1)]])

text \<open>
  Acknowledging a retained entry always succeeds, removes the migration's entries up to it and their keys, reports
  their number and size, and touches no other migration and no newer entry.
\<close>

theorem split_ack_exact:
  assumes "source_step\<^sup>*\<^sup>* empty_split s" and "r0 \<in> set (split_oplog s)"
  defines "m \<equiv> so_mig_id r0" and "t \<equiv> so_lsn r0"
  shows "\<exists>s'. ackSplitOpLog m t s = Inr (\<lparr> ak_pruned = int (length (acked_rows m t s)),
      ak_prunedBytes = sum_list (map row_bytes (acked_rows m t s)), ak_ackedLsn = t \<rparr>, s') \<and>
    of_migration m s' = filter (\<lambda>r. t < so_lsn r) (of_migration m s) \<and> (\<forall>m'. m' \<noteq> m \<longrightarrow> of_migration m' s' = of_migration m' s) \<and>
    split_keys s' = filter (\<lambda>k. \<not> (sk_mig_id k = m \<and> sk_lsn k \<le> t)) (split_keys s)"
  using ack_retained [OF source_reachable [OF assms(1)] assms(2)] of_migration_pruned [of _ m t s]
  by (intro exI [of _ "pruned m t s"]) (simp add: m_def t_def pruned_def sql_delete_def)

text \<open>
  A restart changes nothing: in every reachable state with at most one active source split, rebuilding the accounting
  succeeds and recovers the numbers that were recorded (and only adds the empty record of a split that has none yet).
\<close>

theorem split_restart_recovers:
  assumes "source_step\<^sup>*\<^sup>* empty_split s" and "length (filter (\<lambda>r. ss_role r = Role_source \<and> ss_drained r = 0) (split_state s)) \<le> 1"
  shows "initializeSplitOpLogAccounting s = Inr (case filter (\<lambda>r. ss_role r = Role_source \<and> ss_drained r = 0) (split_state s) of
      [] \<Rightarrow> s | state # _ \<Rightarrow> ensureSourceAccounting (ss_mig_id state) s)"
proof -
  have inv: "source_inv s" by (rule source_reachable [OF assms(1)])
  show ?thesis
  proof (cases "filter (\<lambda>r. ss_role r = Role_source \<and> ss_drained r = 0) (split_state s)")
    case Nil
    then show ?thesis by (simp add: initializeSplitOpLogAccounting_def)
  next
    case (Cons st rest)
    then have "rest = []" using assms(2) by simp
    then show ?thesis using Cons recount_eq [OF inv] by (simp add: initializeSplitOpLogAccounting_def)
  qed
qed

text \<open>
  A mutation in a moving range is captured: when the capture hook of a placed mutation succeeds while one active source
  split covers the vshard, the split's retained entries hold the encoding of the mutation's op-log row under the
  mutation's key, and a repeated capture leaves the tables as they are.
\<close>

theorem split_capture_durable:
  assumes "source_step\<^sup>*\<^sup>* empty_split s" and "capturing v s = [split]" and "sql_one (\<lambda>r. op_key r = (pr, mu)) (log_rows l) = Some row"
    and "captureSplitOpLogOutcome pr mu v l s = Inr (n, s')"
  shows "(\<exists>e. encodeCapturedRow row v = Inr e \<and> (\<exists>r \<in> set (of_migration (ss_mig_id split) s'). so_oplog_row r = e \<and>
      (\<exists>k \<in> set (split_keys s'). split_key k = (ss_mig_id split, pr, mu) \<and> sk_lsn k = so_lsn r))) \<and>
    captureSplitOpLogOutcome pr mu v l s' = Inr (0, s')"
proof -
  let ?m = "ss_mig_id split"
  obtain e where e: "encodeCapturedRow row v = Inr e" "int (length e) \<le> CDB_SPLIT_OPLOG_MAX_ROW_BYTES" "split_assertVshard v = Inr ()"
      "captureEncodedForMigration ?m pr mu e (ensureSourceAccounting ?m s) = Inr (n, s')"
    using assms(2-4) by (auto simp: captureSplitOpLogOutcome_def result_simps Let_def)
  have inv: "source_inv (ensureSourceAccounting ?m s)" using source_reachable [OF assms(1)] by (rule ensure_inv)
  from capture_encoded_inv [OF this e(4) encoded_nonempty [OF e(1)] e(2)] have inv': "source_inv s'" .
  have state: "split_state s' = split_state s"
    using inv e(4) by (rule capture_encoded_cases)
      (auto simp: appended_def ensureSourceAccounting_def accounting_insert_or_ignore_def split: sum.splits)
  from inv e(4) have "\<exists>r k. r \<in> set (split_oplog s') \<and> so_mig_id r = ?m \<and> so_oplog_row r = e \<and>
      k \<in> set (split_keys s') \<and> split_key k = (?m, pr, mu) \<and> sk_lsn k = so_lsn r"
  proof (cases rule: capture_encoded_cases)
    case (again key r)
    then show ?thesis by (intro exI [of _ r] exI [of _ key]) simp
  next
    case (fresh a)
    let ?lsn = "split_sequence (ensureSourceAccounting ?m s) + 1"
    show ?thesis
      by (rule exI [of _ "\<lparr> so_lsn = ?lsn, so_mig_id = ?m, so_oplog_row = e \<rparr>"],
          rule exI [of _ "\<lparr> sk_mig_id = ?m, sk_principal_id = pr, sk_mut_id = mu, sk_lsn = ?lsn \<rparr>"])
        (simp add: fresh(2) appended_def split_key_def)
  qed
  then obtain r k where r: "r \<in> set (split_oplog s')" "so_mig_id r = ?m" "so_oplog_row r = e"
      "k \<in> set (split_keys s')" "split_key k = (?m, pr, mu)" "sk_lsn k = so_lsn r" by blast
  have one_key: "sql_one (\<lambda>k. split_key k = (?m, pr, mu)) (split_keys s') = Some k"
    using sql_one_unique [of split_key "split_keys s'" k] inv' r(4,5) by (simp add: source_inv_def keys_inv_def)
  have "distinct (map so_lsn (split_oplog s'))" using inv' strict_sorted_iff by (auto simp: source_inv_def rows_inv_def)
  then have "x = r" if "x \<in> set (split_oplog s')" "so_lsn x = sk_lsn k" for x
    using that r(1,6) unique_key_row by metis
  then have one_row: "sql_one (\<lambda>x. so_mig_id x = ?m \<and> so_lsn x = sk_lsn k) (split_oplog s') = Some r"
    using r(1,2,6) by (cases "sql_one (\<lambda>x. so_mig_id x = ?m \<and> so_lsn x = sk_lsn k) (split_oplog s')")
      (auto simp: sql_one_None_iff dest: sql_one_SomeD)
  have "?m \<in> sa_mig_id ` set (split_accounting s')" using inv' r(1,2) by (metis (no_types, lifting) accounting_inv_def image_eqI source_inv_def subsetD)
  then have ens: "ensureSourceAccounting ?m s' = s'"
    by (auto simp: ensureSourceAccounting_def accounting_insert_or_ignore_def sql_insert_def new_accounting_def)
  have "capturing v s' = [split]" using assms(2) state by (simp add: capturing_def)
  then have "captureSplitOpLogOutcome pr mu v l s' = Inr (0, s')"
    using assms(3) e(1-3) ens one_key one_row r(3)
    by (simp add: captureSplitOpLogOutcome_def captureEncodedForMigration_def bytesEq_iff Let_def)
  then show ?thesis using e(1) r by (auto simp: of_migration_def)
qed

subsection \<open>Witnesses\<close>

definition sample_split :: split_state_row where
  "sample_split = \<lparr> ss_mig_id = ''g'', ss_range_lo = 0, ss_range_hi = 9, ss_role = Role_source, ss_capture = 1, ss_abort_started = 0,
     ss_destination_generation = None, ss_destination_serving = 0, ss_drained = 0 \<rparr>"

definition sample_before :: split_tables where
  "sample_before = empty_split\<lparr>split_state := [sample_split]\<rparr>"

definition sample_after :: split_tables where
  "sample_after = appended ''g'' (''u'', ''m'') sample_bytes (ensureSourceAccounting ''g'' sample_before)"

lemma sample_capture: "captureSplitOpLogOutcome ''u'' ''m'' 3 sample_log sample_before = Inr (1, sample_after)"
  by code_simp

lemma sample_captured: "source_step\<^sup>*\<^sup>* empty_split sample_before" "source_step\<^sup>*\<^sup>* empty_split sample_after"
proof -
  show before: "source_step\<^sup>*\<^sup>* empty_split sample_before"
    using source_step.step_state [of empty_split "[sample_split]"] unfolding sample_before_def by (rule r_into_rtranclp)
  show "source_step\<^sup>*\<^sup>* empty_split sample_after"
    by (rule rtranclp.rtrancl_into_rtrancl [OF before source_step.step_capture [OF sample_capture]])
qed

lemma sample_tables:
  "of_migration ''g'' sample_after = [\<lparr> so_lsn = 1, so_mig_id = ''g'', so_oplog_row = sample_bytes \<rparr>]"
  "split_accounting sample_after = [retain (int (length sample_bytes)) (new_accounting ''g'' 0)]"
  "split_state sample_after = [sample_split]"
  by (simp_all add: sample_after_def appended_def of_migration_def ensureSourceAccounting_def accounting_insert_or_ignore_def sql_insert_def
      sample_before_def empty_split_def new_accounting_def accounting_check_def sql_update_def)

theorem split_accounting_exact_witness:
  "\<exists>a \<in> set (split_accounting sample_after). sa_retained_rows a = 1 \<and> sa_retained_bytes a = int (length sample_bytes)"
  using split_accounting_exact [OF sample_captured(2), of "retain (int (length sample_bytes)) (new_accounting ''g'' 0)"]
  by (simp add: sample_tables retain_def new_accounting_def row_bytes_def)

theorem split_read_exact_witness:
  "\<exists>batch s'. readSplitOpLogBatch ''g'' 0 8 sample_log sample_after = Inr (batch, s') \<and> ba_entries batch = [\<lparr> en_lsn = 1, en_oplogRow = sample_bytes \<rparr>] \<and> ba_done batch"
proof -
  have "requiredSourceAccounting ''g'' sample_after = Inr (retain (int (length sample_bytes)) (new_accounting ''g'' 0))"
    using sample_size by (simp add: requiredSourceAccounting_def sample_tables sql_one_def retain_def new_accounting_def accounting_ok_def
        safe_integer_def CDB_SPLIT_OPLOG_MAX_ROWS_def CDB_SPLIT_OPLOG_MAX_BYTES_def)
  moreover have "filter (\<lambda>r. so_mig_id r = ''g'' \<and> 0 < so_lsn r) (split_oplog sample_after) =
      [\<lparr> so_lsn = 1, so_mig_id = ''g'', so_oplog_row = sample_bytes \<rparr>]"
    by (simp add: sample_after_def appended_def ensureSourceAccounting_def accounting_insert_or_ignore_def sql_insert_def
        sample_before_def empty_split_def)
  ultimately have "\<exists>batch. readSplitOpLogBatch ''g'' 0 8 sample_log sample_after = Inr (batch, sample_after)"
    using sample_size by (simp add: readSplitOpLogBatch_def seedSplitOpLogPage_def assertCursor_def safe_integer_def row_bytes_def Let_def
        CDB_SPLIT_OPLOG_MAX_BATCH_ROWS_def CDB_SPLIT_OPLOG_MAX_ROW_BYTES_def retain_def new_accounting_def)
  then obtain batch where run: "readSplitOpLogBatch ''g'' 0 8 sample_log sample_after = Inr (batch, sample_after)" ..
  have "pending ''g'' 0 sample_after = [\<lparr> so_lsn = 1, so_mig_id = ''g'', so_oplog_row = sample_bytes \<rparr>]"
    by (simp add: pending_def sample_after_def appended_def ensureSourceAccounting_def accounting_insert_or_ignore_def sql_insert_def
        sample_before_def empty_split_def)
  then show ?thesis using split_read_exact [OF sample_captured(2) run] run
    by (auto simp: sample_tables retain_def new_accounting_def entry_of_def le_Suc_eq)
qed

theorem split_ack_exact_witness:
  "\<exists>s'. ackSplitOpLog ''g'' 1 sample_after = Inr (\<lparr> ak_pruned = 1, ak_prunedBytes = int (length sample_bytes), ak_ackedLsn = 1 \<rparr>, s') \<and>
     of_migration ''g'' s' = []"
proof -
  have row: "\<lparr> so_lsn = 1, so_mig_id = ''g'', so_oplog_row = sample_bytes \<rparr> \<in> set (split_oplog sample_after)"
    using sample_tables(1) by (auto simp: of_migration_def filter_eq_Cons_iff)
  have "acked_rows ''g'' 1 sample_after = [\<lparr> so_lsn = 1, so_mig_id = ''g'', so_oplog_row = sample_bytes \<rparr>]"
    by (simp add: acked_rows_def sample_after_def appended_def ensureSourceAccounting_def accounting_insert_or_ignore_def sql_insert_def
        sample_before_def empty_split_def)
  then show ?thesis using split_ack_exact [OF sample_captured(2) row] by (auto simp: sample_tables row_bytes_def)
qed

theorem split_restart_recovers_witness: "initializeSplitOpLogAccounting sample_after = Inr sample_after"
proof -
  have "filter (\<lambda>r. ss_role r = Role_source \<and> ss_drained r = 0) (split_state sample_after) = [sample_split]"
    by (simp add: sample_tables sample_split_def)
  moreover have "ensureSourceAccounting (ss_mig_id sample_split) sample_after = sample_after"
    by (simp add: ensureSourceAccounting_def accounting_insert_or_ignore_def sql_insert_def sample_tables sample_split_def new_accounting_def retain_def)
  ultimately show ?thesis using split_restart_recovers [OF sample_captured(2)] by simp
qed

theorem split_capture_durable_witness:
  "captureSplitOpLogOutcome ''u'' ''m'' 3 sample_log sample_before = Inr (1, sample_after) \<and>
   captureSplitOpLogOutcome ''u'' ''m'' 3 sample_log sample_after = Inr (0, sample_after)"
proof -
  have "capturing 3 sample_before = [sample_split]" by (simp add: capturing_def sample_before_def empty_split_def sample_split_def)
  moreover have "sql_one (\<lambda>r. op_key r = (''u'', ''m'')) (log_rows sample_log) = Some sample_log_row"
    by (simp add: sql_one_def sample_log_def sample_log_row_def op_key_def)
  ultimately show ?thesis using split_capture_durable [OF sample_captured(1) _ _ sample_capture] sample_capture by simp
qed

end
