(* ===== verification/Live_Store.thy ===== *)
theory Live_Store
  imports Store Oplog Json_Limits
begin

text \<open>
  Live-query registrations of one shard, \<^verbatim>\<open>src/src/server/do/cdb-live-store.ts\<close>: the tables, registration, retirement
  and the reading of a stored registration. The invalidation outbox is in \<open>Live_Outbox\<close>.

  Every function runs inside the caller's transaction, so the new tables exist only under \<open>Inr\<close>. The model has the
  columns of the current table definition. SHA-256 comes from a package and is an argument. The \<open>args\<close> and
  \<open>intervals\<close> of a request are JSON values.
\<close>

section \<open>Tables\<close>

datatype (plugins only: code) subscription_state = Sub_active | Sub_retired

record StoredSubscriptionRow =
  sb_gateway_id :: string
  sb_registration_id :: string
  sb_connection_id :: string
  sb_client_id :: string
  sb_sub_id :: int
  sb_state :: subscription_state
  sb_payload_hash :: "string option"
  sb_principal_id :: "string option"
  sb_organization_id :: "string option"
  sb_authority :: "string option"
  sb_schema_epoch :: "int option"
  sb_recovery_generation :: "int option"
  sb_vshard :: "int option"
  sb_domain_schema_epoch :: "int option"
  sb_ref :: "string option"
  sb_args_json :: "string option"
  sb_policy_digest :: "string option"
  sb_query_hash :: "string option"
  sb_tables_json :: "string option"
  sb_intervals_json :: "string option"

record live_subscription_table =
  lt_gateway_id :: string
  lt_registration_id :: string
  lt_table_name :: string

record live_subscription_vector =
  lx_gateway_id :: string
  lx_registration_id :: string
  lx_resource_id :: string

record invalidation_outbox_row =
  ob_gateway_id :: string
  ob_registration_id :: string
  ob_change_seq :: int
  ob_attempts :: int
  ob_next_attempt_at :: int
  ob_last_error :: "string option"
  ob_dead_lettered_at :: "int option"

text \<open>\<open>change_clock\<close> is the column of the singleton row of \<open>_chardb_change_clock\<close>, if the row is there.\<close>

record live_tables =
  subscriptions :: "StoredSubscriptionRow list"
  change_clock :: "int option"
  subscription_tables :: "live_subscription_table list"
  subscription_vectors :: "live_subscription_vector list"
  outbox :: "invalidation_outbox_row list"

text \<open>The tables as the DDL leaves them in a new shard.\<close>

definition CDB_LIVE_STORE_DDL :: live_tables where
  "CDB_LIVE_STORE_DDL = \<lparr> subscriptions = [], change_clock = Some 0, subscription_tables = [], subscription_vectors = [], outbox = [] \<rparr>"

type_synonym reg_key = "string \<times> string"

definition sub_key :: "StoredSubscriptionRow \<Rightarrow> reg_key" where
  "sub_key r = (sb_gateway_id r, sb_registration_id r)"

definition table_owner :: "live_subscription_table \<Rightarrow> reg_key" where
  "table_owner m = (lt_gateway_id m, lt_registration_id m)"

definition table_key :: "live_subscription_table \<Rightarrow> reg_key \<times> string" where
  "table_key m = (table_owner m, lt_table_name m)"

definition vector_owner :: "live_subscription_vector \<Rightarrow> reg_key" where
  "vector_owner m = (lx_gateway_id m, lx_registration_id m)"

definition outbox_key :: "invalidation_outbox_row \<Rightarrow> reg_key" where
  "outbox_key r = (ob_gateway_id r, ob_registration_id r)"

text \<open>The CHECK constraints. A comparison with NULL does not fail a CHECK.\<close>

definition present_when :: "('a \<Rightarrow> bool) \<Rightarrow> 'a option \<Rightarrow> bool" where
  "present_when p v = (case v of None \<Rightarrow> True | Some x \<Rightarrow> p x)"

definition all_absent :: "StoredSubscriptionRow \<Rightarrow> bool" where
  "all_absent r \<longleftrightarrow> sb_payload_hash r = None \<and> sb_principal_id r = None \<and> sb_organization_id r = None \<and> sb_schema_epoch r = None \<and>
     sb_recovery_generation r = None \<and> sb_vshard r = None \<and> sb_domain_schema_epoch r = None \<and> sb_ref r = None \<and> sb_args_json r = None \<and>
     sb_policy_digest r = None \<and> sb_query_hash r = None \<and> sb_tables_json r = None \<and> sb_intervals_json r = None"

definition all_given :: "StoredSubscriptionRow \<Rightarrow> bool" where
  "all_given r \<longleftrightarrow> sb_payload_hash r \<noteq> None \<and> sb_principal_id r \<noteq> None \<and> sb_organization_id r \<noteq> None \<and> sb_schema_epoch r \<noteq> None \<and>
     sb_recovery_generation r \<noteq> None \<and> sb_vshard r \<noteq> None \<and> sb_domain_schema_epoch r \<noteq> None \<and> sb_ref r \<noteq> None \<and> sb_args_json r \<noteq> None \<and>
     sb_policy_digest r \<noteq> None \<and> sb_query_hash r \<noteq> None \<and> sb_tables_json r \<noteq> None \<and> sb_intervals_json r \<noteq> None"

definition subscription_check :: "StoredSubscriptionRow \<Rightarrow> bool" where
  "subscription_check r \<longleftrightarrow>
     present_when (\<lambda>a. a \<in> {''organization'', ''user'', ''global''}) (sb_authority r) \<and>
     present_when (\<lambda>n. 0 < n) (sb_schema_epoch r) \<and> present_when (\<lambda>n. 0 \<le> n) (sb_recovery_generation r) \<and>
     present_when (\<lambda>n. 0 \<le> n \<and> n < 16384) (sb_vshard r) \<and> present_when (\<lambda>n. 0 < n) (sb_domain_schema_epoch r) \<and>
     (case sb_state r of Sub_retired \<Rightarrow> all_absent r | Sub_active \<Rightarrow> all_given r)"

definition vector_check :: "live_subscription_vector \<Rightarrow> bool" where
  "vector_check m \<longleftrightarrow> length (lx_resource_id m) = 68"

definition outbox_check :: "invalidation_outbox_row \<Rightarrow> bool" where
  "outbox_check r \<longleftrightarrow> 0 < ob_change_seq r \<and> 0 \<le> ob_attempts r \<and> 0 \<le> ob_next_attempt_at r"

definition has_subscription :: "reg_key \<Rightarrow> live_tables \<Rightarrow> bool" where
  "has_subscription k L \<longleftrightarrow> (\<exists>r \<in> set (subscriptions L). sub_key r = k)"

text \<open>An insert into a table whose rows belong to a registration: the FOREIGN KEY needs the registration.\<close>

definition child_insert :: "('r \<Rightarrow> reg_key) \<Rightarrow> ('r \<Rightarrow> 'k) \<Rightarrow> ('r \<Rightarrow> bool) \<Rightarrow> 'r \<Rightarrow> live_tables \<Rightarrow> 'r list \<Rightarrow> 'r list res" where
  "child_insert owner key check r L t = (if has_subscription (owner r) L then sql_insert key check r t else Inl SqliteError)"

section \<open>Limits and errors\<close>

definition INVALIDATION_BATCH_SIZE :: nat where "INVALIDATION_BATCH_SIZE = 64"
definition INVALIDATION_MAX_ATTEMPTS :: int where "INVALIDATION_MAX_ATTEMPTS = 8"
definition INVALIDATION_BASE_RETRY_MS :: int where "INVALIDATION_BASE_RETRY_MS = 1000"
definition INVALIDATION_MAX_RETRY_MS :: int where "INVALIDATION_MAX_RETRY_MS = 60000"
definition CDB_MAX_ACTIVE_LIVE_REGISTRATIONS :: nat where "CDB_MAX_ACTIVE_LIVE_REGISTRATIONS = 4096"
definition CDB_MAX_LIVE_REGISTRATION_ROWS :: nat where "CDB_MAX_LIVE_REGISTRATION_ROWS = 8192"
definition CDB_MAX_RETIRED_TOMBSTONE_BYTES :: int where "CDB_MAX_RETIRED_TOMBSTONE_BYTES = 16 * 1024 * 1024"
definition CDB_MAX_SUBSCRIPTION_IDENTITY_FIELD_BYTES :: nat where "CDB_MAX_SUBSCRIPTION_IDENTITY_FIELD_BYTES = 256"
definition CDB_MAX_INVALIDATION_OUTBOX_ROWS :: nat where "CDB_MAX_INVALIDATION_OUTBOX_ROWS = 4096"
definition CDB_MAX_INVALIDATIONS_PER_MUTATION :: nat where "CDB_MAX_INVALIDATIONS_PER_MUTATION = 4096"

definition subscriptionInvariant :: js_error where "subscriptionInvariant = Cdb CDB_INVARIANT"
definition subscriptionCapacityExceeded :: js_error where "subscriptionCapacityExceeded = Cdb CDB_RATE_LIMITED"

section \<open>Requests\<close>

record LiveSubscriptionId =
  li_gatewayId :: string
  li_registrationId :: string
  li_connectionId :: string
  li_clientId :: string
  li_subId :: int

record CdbPlacement =
  cp_authority :: string
  cp_partitionKey :: string

record CdbSubscriptionRequest =
  rq_subscription :: LiveSubscriptionId
  rq_principalId :: string
  rq_organizationId :: string
  rq_placement :: "CdbPlacement option"
  rq_schemaEpoch :: int
  rq_recoveryGeneration :: int
  rq_vshard :: int
  rq_domainSchemaEpoch :: int
  rq_ref :: string
  rq_args :: json
  rq_queryHash :: string
  rq_tables :: "string list"
  rq_intervals :: "json list"

datatype CdbSubscriptionResponse =
    Sub_ok LiveSubscriptionId int
  | Sub_absent LiveSubscriptionId js_error

definition id_key :: "LiveSubscriptionId \<Rightarrow> reg_key" where
  "id_key i = (li_gatewayId i, li_registrationId i)"

definition assertLiveSubscriptionIdentity :: "LiveSubscriptionId \<Rightarrow> unit res" where
  "assertLiveSubscriptionIdentity i =
     ensure ((\<forall>v \<in> set [li_gatewayId i, li_registrationId i, li_connectionId i, li_clientId i].
         v \<noteq> [] \<and> length (utf8 v) \<le> CDB_MAX_SUBSCRIPTION_IDENTITY_FIELD_BYTES) \<and>
       safe_integer (li_subId i) \<and> 0 \<le> li_subId i) (Cdb CDB_INVALID_ARGS)"

definition subscriptionIdentityBytes :: "LiveSubscriptionId \<Rightarrow> int" where
  "subscriptionIdentityBytes i = int (length (utf8 (li_gatewayId i)) + length (utf8 (li_registrationId i)) +
     length (utf8 (li_connectionId i)) + length (utf8 (li_clientId i)) + 8)"

definition placement_json :: "CdbPlacement \<Rightarrow> json" where
  "placement_json p = JObj [(''authority'', JStr (cp_authority p)), (''partitionKey'', JStr (cp_partitionKey p))]"

definition payload_json :: "CdbSubscriptionRequest \<Rightarrow> string \<Rightarrow> json" where
  "payload_json a policyDigest = JObj
     ([(''connectionId'', JStr (li_connectionId (rq_subscription a))), (''clientId'', JStr (li_clientId (rq_subscription a))),
       (''subId'', JNum (li_subId (rq_subscription a))), (''principalId'', JStr (rq_principalId a)),
       (''organizationId'', JStr (rq_organizationId a))] @
      (case rq_placement a of None \<Rightarrow> [] | Some p \<Rightarrow> [(''placement'', placement_json p)]) @
      [(''schemaEpoch'', JNum (rq_schemaEpoch a)), (''recoveryGeneration'', JNum (rq_recoveryGeneration a)),
       (''vshard'', JNum (rq_vshard a)), (''domainSchemaEpoch'', JNum (rq_domainSchemaEpoch a)), (''ref'', JStr (rq_ref a)),
       (''args'', rq_args a), (''policyDigest'', JStr policyDigest), (''queryHash'', JStr (rq_queryHash a)),
       (''tables'', JArr (map JStr (rq_tables a))), (''intervals'', JArr (rq_intervals a))])"

definition subscriptionPayloadHash :: "(nat list \<Rightarrow> nat list) \<Rightarrow> CdbSubscriptionRequest \<Rightarrow> string \<Rightarrow> string" where
  "subscriptionPayloadHash sha256 a policyDigest = stableHashHex sha256 (payload_json a policyDigest)"

section \<open>Counts and the clock\<close>

definition durableRowCount :: "'r list \<Rightarrow> nat res" where
  "durableRowCount rows = (if safe_integer (int (length rows)) then Inr (length rows) else Inl subscriptionInvariant)"

definition row_identity_bytes :: "StoredSubscriptionRow \<Rightarrow> int" where
  "row_identity_bytes r = int (length (utf8 (sb_gateway_id r)) + length (utf8 (sb_registration_id r)) +
     length (utf8 (sb_connection_id r)) + length (utf8 (sb_client_id r)) + 8)"

definition retiredTombstoneBytes :: "live_tables \<Rightarrow> int res" where
  "retiredTombstoneBytes L =
     (let n = sum_list (map row_identity_bytes (filter (\<lambda>r. sb_state r = Sub_retired) (subscriptions L))) in
      if safe_integer n \<and> 0 \<le> n then Inr n else Inl subscriptionInvariant)"

definition currentChangeSeq :: "live_tables \<Rightarrow> int res" where
  "currentChangeSeq L = (case change_clock L of
       None \<Rightarrow> Inl subscriptionInvariant
     | Some n \<Rightarrow> if safe_integer n \<and> 0 \<le> n then Inr n else Inl subscriptionInvariant)"

definition active_rows :: "live_tables \<Rightarrow> StoredSubscriptionRow list" where
  "active_rows L = filter (\<lambda>r. sb_state r = Sub_active) (subscriptions L)"

section \<open>Reading a registration\<close>

definition storedSubscriptionTables :: "LiveSubscriptionId \<Rightarrow> live_tables \<Rightarrow> string list" where
  "storedSubscriptionTables i L = sort (map lt_table_name (filter (\<lambda>m. table_owner m = id_key i) (subscription_tables L)))"

definition assertSubscriptionTables :: "LiveSubscriptionId \<Rightarrow> string list \<Rightarrow> live_tables \<Rightarrow> unit res" where
  "assertSubscriptionTables i expectedTables L = ensure (storedSubscriptionTables i L = expectedTables) subscriptionInvariant"

definition sameSubscriptionIdentity :: "StoredSubscriptionRow \<Rightarrow> LiveSubscriptionId \<Rightarrow> bool" where
  "sameSubscriptionIdentity r i \<longleftrightarrow> sb_gateway_id r = li_gatewayId i \<and> sb_registration_id r = li_registrationId i \<and>
     sb_connection_id r = li_connectionId i \<and> sb_client_id r = li_clientId i \<and> sb_sub_id r = li_subId i"

text \<open>\<open>ChardbRef(s)\<close> throws unless \<open>s\<close> contains a hash sign.\<close>

definition ChardbRef :: "string \<Rightarrow> string res" where
  "ChardbRef s = (if CHR 0x23 \<in> set s then Inr s else Inl JsError)"

definition parsed :: "string \<Rightarrow> json res" where
  "parsed s = (case JSON_parse s of Inl _ \<Rightarrow> Inl subscriptionInvariant | Inr v \<Rightarrow> Inr v)"

definition string_array :: "json \<Rightarrow> string list res" where
  "string_array v = (case v of
       JArr vs \<Rightarrow> rmap (\<lambda>x. case x of JStr s \<Rightarrow> Inr s | _ \<Rightarrow> Inl subscriptionInvariant) vs
     | _ \<Rightarrow> Inl subscriptionInvariant)"

definition json_array :: "json \<Rightarrow> json list res" where
  "json_array v = (case v of JArr vs \<Rightarrow> Inr vs | _ \<Rightarrow> Inl subscriptionInvariant)"

definition row_id :: "StoredSubscriptionRow \<Rightarrow> LiveSubscriptionId" where
  "row_id r = \<lparr> li_gatewayId = sb_gateway_id r, li_registrationId = sb_registration_id r, li_connectionId = sb_connection_id r,
     li_clientId = sb_client_id r, li_subId = sb_sub_id r \<rparr>"

text \<open>\<open>snapshotCdbQueryArgs\<close> returns the copy; a value is always copied.\<close>

definition query_args :: "json \<Rightarrow> json res" where
  "query_args v = rbind (snapshotCdbQueryArgs v) (\<lambda>copy. case copy of None \<Rightarrow> Inl subscriptionInvariant | Some v' \<Rightarrow> Inr v')"

definition projectStoredSubscription :: "(nat list \<Rightarrow> nat list) \<Rightarrow> StoredSubscriptionRow \<Rightarrow> bool \<Rightarrow> CdbSubscriptionRequest res" where
  "projectStoredSubscription sha256 row verifyPayloadHash =
     (case (sb_state row, sb_payload_hash row, sb_principal_id row, sb_organization_id row, sb_schema_epoch row, sb_recovery_generation row,
         sb_vshard row, sb_domain_schema_epoch row, sb_ref row, sb_args_json row, sb_policy_digest row, sb_query_hash row,
         sb_tables_json row, sb_intervals_json row) of
        (Sub_active, Some payloadHash, Some principalId, Some organizationId, Some schemaEpoch, Some recoveryGeneration, Some vshard,
         Some domainSchemaEpoch, Some ref, Some argsJson, Some policyDigest, Some queryHash, Some tablesJson, Some intervalsJson) \<Rightarrow>
          rbind (parsed argsJson) (\<lambda>parsedArgs.
          rbind (parsed tablesJson) (\<lambda>tablesValue.
          rbind (parsed intervalsJson) (\<lambda>intervalsValue.
          rbind (query_args parsedArgs) (\<lambda>args.
          rbind (ensure (safe_integer domainSchemaEpoch \<and> 1 \<le> domainSchemaEpoch) subscriptionInvariant) (\<lambda>_.
          rbind (ensure (safe_integer schemaEpoch \<and> 1 \<le> schemaEpoch) subscriptionInvariant) (\<lambda>_.
          rbind (ensure (safe_integer recoveryGeneration \<and> 0 \<le> recoveryGeneration) subscriptionInvariant) (\<lambda>_.
          rbind (ensure (safe_integer vshard \<and> 0 \<le> vshard \<and> vshard < 16384) subscriptionInvariant) (\<lambda>_.
          rbind (string_array tablesValue) (\<lambda>tables.
          rbind (json_array intervalsValue) (\<lambda>intervals.
          rbind (ChardbRef ref) (\<lambda>ref.
          let request = \<lparr> rq_subscription = row_id row, rq_principalId = principalId, rq_organizationId = organizationId,
              rq_placement = (case sb_authority row of
                  Some a \<Rightarrow> if a \<in> {''organization'', ''user'', ''global''} then Some \<lparr> cp_authority = a, cp_partitionKey = organizationId \<rparr> else None
                | None \<Rightarrow> None),
              rq_schemaEpoch = schemaEpoch, rq_recoveryGeneration = recoveryGeneration, rq_vshard = vshard,
              rq_domainSchemaEpoch = domainSchemaEpoch, rq_ref = ref, rq_args = args, rq_queryHash = queryHash, rq_tables = tables,
              rq_intervals = intervals \<rparr> in
          rbind (ensure (\<not> verifyPayloadHash \<or> payloadHash = subscriptionPayloadHash sha256 request policyDigest) subscriptionInvariant) (\<lambda>_.
          Inr request))))))))))))
      | _ \<Rightarrow> Inl subscriptionInvariant)"

definition parseStoredSubscription :: "(nat list \<Rightarrow> nat list) \<Rightarrow> StoredSubscriptionRow \<Rightarrow> CdbSubscriptionRequest res" where
  "parseStoredSubscription sha256 row = projectStoredSubscription sha256 row True"

definition parseStoredSubscriptionRouting :: "StoredSubscriptionRow \<Rightarrow> (LiveSubscriptionId \<times> string list \<times> json list) res" where
  "parseStoredSubscriptionRouting row = (case (sb_state row, sb_tables_json row, sb_intervals_json row) of
       (Sub_active, Some tablesJson, Some intervalsJson) \<Rightarrow>
         rbind (parsed tablesJson) (\<lambda>tablesValue.
         rbind (parsed intervalsJson) (\<lambda>intervalsValue.
         rbind (string_array tablesValue) (\<lambda>tables.
         rbind (json_array intervalsValue) (\<lambda>intervals. Inr (row_id row, tables, intervals)))))
     | _ \<Rightarrow> Inl subscriptionInvariant)"

section \<open>Registration\<close>

definition stored_row :: "CdbSubscriptionRequest \<Rightarrow> string \<Rightarrow> string \<Rightarrow> StoredSubscriptionRow" where
  "stored_row a policyDigest payloadHash =
     \<lparr> sb_gateway_id = li_gatewayId (rq_subscription a), sb_registration_id = li_registrationId (rq_subscription a),
       sb_connection_id = li_connectionId (rq_subscription a), sb_client_id = li_clientId (rq_subscription a),
       sb_sub_id = li_subId (rq_subscription a), sb_state = Sub_active, sb_payload_hash = Some payloadHash,
       sb_principal_id = Some (rq_principalId a), sb_organization_id = Some (rq_organizationId a),
       sb_authority = map_option cp_authority (rq_placement a), sb_schema_epoch = Some (rq_schemaEpoch a),
       sb_recovery_generation = Some (rq_recoveryGeneration a), sb_vshard = Some (rq_vshard a),
       sb_domain_schema_epoch = Some (rq_domainSchemaEpoch a), sb_ref = Some (rq_ref a),
       sb_args_json = Some (stringify (rq_args a)), sb_policy_digest = Some policyDigest, sb_query_hash = Some (rq_queryHash a),
       sb_tables_json = Some (stringify (JArr (map JStr (rq_tables a)))), sb_intervals_json = Some (stringify (JArr (rq_intervals a))) \<rparr>"

definition insert_table :: "LiveSubscriptionId \<Rightarrow> string \<Rightarrow> live_tables \<Rightarrow> live_tables res" where
  "insert_table i tableName L =
     rbind (child_insert table_owner table_key (\<lambda>_. True)
         \<lparr> lt_gateway_id = li_gatewayId i, lt_registration_id = li_registrationId i, lt_table_name = tableName \<rparr> L (subscription_tables L))
       (\<lambda>t. Inr (L\<lparr>subscription_tables := t\<rparr>))"

definition persistLiveSubscription :: "(nat list \<Rightarrow> nat list) \<Rightarrow> CdbSubscriptionRequest \<Rightarrow> string \<Rightarrow> live_tables \<Rightarrow>
    (CdbSubscriptionResponse \<times> live_tables) res" where
  "persistLiveSubscription sha256 a policyDigest L =
     (let payloadHash = subscriptionPayloadHash sha256 a policyDigest; i = rq_subscription a;
          tableNames = sort (remdups (rq_tables a));
          registered = (\<lambda>L'. rbind (currentChangeSeq L') (\<lambda>seq. Inr (Sub_ok i seq, L'))) in
      case sql_one (\<lambda>r. sub_key r = id_key i) (subscriptions L) of
        Some existing \<Rightarrow>
          rbind (ensure (sameSubscriptionIdentity existing i) subscriptionInvariant) (\<lambda>_.
          rbind (ensure (sb_state existing \<noteq> Sub_retired) subscriptionInvariant) (\<lambda>_.
          rbind (ensure (sb_payload_hash existing = Some payloadHash) subscriptionInvariant) (\<lambda>_.
          rbind (assertSubscriptionTables i tableNames L) (\<lambda>_. registered L))))
      | None \<Rightarrow>
          rbind (durableRowCount (subscriptions L)) (\<lambda>registrationRows.
          if CDB_MAX_LIVE_REGISTRATION_ROWS \<le> registrationRows then Inr (Sub_absent i subscriptionCapacityExceeded, L)
          else rbind (durableRowCount (active_rows L)) (\<lambda>activeRegistrations.
          if CDB_MAX_ACTIVE_LIVE_REGISTRATIONS \<le> activeRegistrations then Inr (Sub_absent i subscriptionCapacityExceeded, L)
          else rbind (sql_insert sub_key subscription_check (stored_row a policyDigest payloadHash) (subscriptions L)) (\<lambda>t.
          rbind (rfold (insert_table i) tableNames (L\<lparr>subscriptions := t\<rparr>)) registered))))"

text \<open>The pattern \<open>/^vr1_[a-f0-9]{64}$/\<close>.\<close>

definition vectorResourceId :: "string \<Rightarrow> string res" where
  "vectorResourceId v = (if take 4 v = ''vr1_'' \<and> hex_digest (drop 4 v) then Inr v else Inl subscriptionInvariant)"

definition bind_vector :: "CdbSubscriptionRequest \<Rightarrow> string \<Rightarrow> live_tables \<Rightarrow> live_tables res" where
  "bind_vector a canonical L =
     (case sql_one (\<lambda>m. vector_owner m = id_key (rq_subscription a)) (subscription_vectors L) of
        Some existing \<Rightarrow> if lx_resource_id existing \<noteq> canonical then Inl subscriptionInvariant else Inr L
      | None \<Rightarrow>
          rbind (child_insert vector_owner vector_owner vector_check
              \<lparr> lx_gateway_id = li_gatewayId (rq_subscription a), lx_registration_id = li_registrationId (rq_subscription a),
                lx_resource_id = canonical \<rparr> L (subscription_vectors L)) (\<lambda>t.
          Inr (L\<lparr>subscription_vectors := t\<rparr>)))"

definition persistLiveSubscriptionWithVectorDependency :: "(nat list \<Rightarrow> nat list) \<Rightarrow> CdbSubscriptionRequest \<Rightarrow> string \<Rightarrow> string \<Rightarrow>
    live_tables \<Rightarrow> (CdbSubscriptionResponse \<times> live_tables) res" where
  "persistLiveSubscriptionWithVectorDependency sha256 a policyDigest resourceId L =
     rbind (vectorResourceId resourceId) (\<lambda>canonical.
     rbind (persistLiveSubscription sha256 a policyDigest L) (\<lambda>(response, L1).
     case response of
       Sub_absent _ _ \<Rightarrow> Inr (response, L1)
     | Sub_ok _ _ \<Rightarrow> rbind (bind_vector a canonical L1) (\<lambda>L2. Inr (response, L2))))"

definition assertLiveVectorSubscriptionDependency :: "LiveSubscriptionId \<Rightarrow> string option \<Rightarrow> live_tables \<Rightarrow> unit res" where
  "assertLiveVectorSubscriptionDependency i resourceId L =
     (let rows = take 2 (sort_key lx_resource_id (filter (\<lambda>m. vector_owner m = id_key i) (subscription_vectors L))) in
      case resourceId of
        None \<Rightarrow> ensure (rows = []) subscriptionInvariant
      | Some v \<Rightarrow>
          (case rows of
             [row] \<Rightarrow> rbind (vectorResourceId v) (\<lambda>canonical. ensure (lx_resource_id row = canonical) subscriptionInvariant)
           | _ \<Rightarrow> Inl subscriptionInvariant))"

definition by_owner :: "('r \<Rightarrow> reg_key) \<Rightarrow> 'r list \<Rightarrow> 'r list" where
  "by_owner owner rows = sort_key (\<lambda>r. fst (owner r)) (sort_key (\<lambda>r. snd (owner r)) rows)"

definition subscription_of :: "reg_key \<Rightarrow> live_tables \<Rightarrow> StoredSubscriptionRow option" where
  "subscription_of k L = sql_one (\<lambda>r. sub_key r = k) (subscriptions L)"

definition active_key :: "live_tables \<Rightarrow> reg_key \<Rightarrow> bool" where
  "active_key L k \<longleftrightarrow> (\<exists>r \<in> set (subscriptions L). sub_key r = k \<and> sb_state r = Sub_active)"

definition vector_row_ok :: "string list \<Rightarrow> live_tables \<Rightarrow> live_subscription_vector \<Rightarrow> unit \<Rightarrow> unit res" where
  "vector_row_ok configured L m _ =
     rbind (vectorResourceId (lx_resource_id m)) (\<lambda>resourceId.
     rbind (ensure (active_key L (vector_owner m)) subscriptionInvariant) (\<lambda>_.
     ensure (resourceId \<in> set configured) (Cdb CDB_PARTITION_CONTRACT_CHANGED)))"

definition assertLiveVectorDependencies :: "string list \<Rightarrow> live_tables \<Rightarrow> unit res" where
  "assertLiveVectorDependencies resourceIds L =
     rbind (rmap vectorResourceId resourceIds) (\<lambda>configured.
     let rows = take (CDB_MAX_ACTIVE_LIVE_REGISTRATIONS + 1)
           (by_owner vector_owner (filter (\<lambda>m. has_subscription (vector_owner m) L) (subscription_vectors L))) in
     rbind (ensure (length rows \<le> CDB_MAX_ACTIVE_LIVE_REGISTRATIONS) subscriptionInvariant) (\<lambda>_.
     rfold (vector_row_ok configured L) rows ()))"

section \<open>Retirement\<close>

definition retired_row :: "StoredSubscriptionRow \<Rightarrow> StoredSubscriptionRow" where
  "retired_row r = r\<lparr>sb_state := Sub_retired, sb_payload_hash := None, sb_principal_id := None, sb_organization_id := None,
     sb_authority := None, sb_schema_epoch := None, sb_recovery_generation := None, sb_vshard := None, sb_domain_schema_epoch := None,
     sb_ref := None, sb_args_json := None, sb_policy_digest := None, sb_query_hash := None, sb_tables_json := None,
     sb_intervals_json := None\<rparr>"

definition tombstone :: "LiveSubscriptionId \<Rightarrow> StoredSubscriptionRow" where
  "tombstone i = \<lparr> sb_gateway_id = li_gatewayId i, sb_registration_id = li_registrationId i, sb_connection_id = li_connectionId i,
     sb_client_id = li_clientId i, sb_sub_id = li_subId i, sb_state = Sub_retired, sb_payload_hash = None, sb_principal_id = None,
     sb_organization_id = None, sb_authority = None, sb_schema_epoch = None, sb_recovery_generation = None, sb_vshard = None,
     sb_domain_schema_epoch = None, sb_ref = None, sb_args_json = None, sb_policy_digest = None, sb_query_hash = None,
     sb_tables_json = None, sb_intervals_json = None \<rparr>"

text \<open>The rows that belong to the registrations \<open>p\<close> are deleted from the three dependent tables.\<close>

definition delete_children :: "(reg_key \<Rightarrow> bool) \<Rightarrow> live_tables \<Rightarrow> live_tables" where
  "delete_children p L = L\<lparr>subscription_tables := sql_delete (\<lambda>m. p (table_owner m)) (subscription_tables L),
     subscription_vectors := sql_delete (\<lambda>m. p (vector_owner m)) (subscription_vectors L),
     outbox := sql_delete (\<lambda>r. p (outbox_key r)) (outbox L)\<rparr>"

definition retireLiveSubscription :: "LiveSubscriptionId \<Rightarrow> live_tables \<Rightarrow> live_tables res" where
  "retireLiveSubscription i L =
     (let existing = sql_one (\<lambda>r. sub_key r = id_key i) (subscriptions L) in
      rbind (ensure (\<forall>r. existing = Some r \<longrightarrow> sameSubscriptionIdentity r i) subscriptionInvariant) (\<lambda>_.
      rbind (if existing = None \<or> map_option sb_state existing = Some Sub_active
         then rbind (durableRowCount (subscriptions L)) (\<lambda>rows.
           rbind (ensure (\<not> (existing = None \<and> CDB_MAX_LIVE_REGISTRATION_ROWS \<le> rows)) subscriptionCapacityExceeded) (\<lambda>_.
           rbind (retiredTombstoneBytes L) (\<lambda>retired.
           ensure (retired + subscriptionIdentityBytes i \<le> CDB_MAX_RETIRED_TOMBSTONE_BYTES) subscriptionCapacityExceeded)))
         else Inr ()) (\<lambda>_.
      rbind (case existing of
          None \<Rightarrow> sql_insert sub_key subscription_check (tombstone i) (subscriptions L)
        | Some _ \<Rightarrow> sql_update_checked subscription_check (\<lambda>r. sub_key r = id_key i) retired_row (subscriptions L)) (\<lambda>t.
      Inr (delete_children (\<lambda>k. k = id_key i) (L\<lparr>subscriptions := t\<rparr>))))))"

text \<open>Deleting the registration deletes the rows that refer to it (ON DELETE CASCADE).\<close>

definition finalizeRetiredLiveSubscription :: "LiveSubscriptionId \<Rightarrow> live_tables \<Rightarrow> live_tables res" where
  "finalizeRetiredLiveSubscription i L =
     (case sql_one (\<lambda>r. sub_key r = id_key i) (subscriptions L) of
        None \<Rightarrow> Inr L
      | Some existing \<Rightarrow>
          rbind (ensure (sameSubscriptionIdentity existing i) subscriptionInvariant) (\<lambda>_.
          rbind (ensure (sb_state existing = Sub_retired) subscriptionInvariant) (\<lambda>_.
          let p = (\<lambda>r. sameSubscriptionIdentity r i \<and> sb_state r = Sub_retired) in
          rbind (ensure (sql_changes p (subscriptions L) = 1) subscriptionInvariant) (\<lambda>_.
          Inr (delete_children (\<lambda>k. k = id_key i) (L\<lparr>subscriptions := sql_delete p (subscriptions L)\<rparr>))))))"

definition legacy_row :: "StoredSubscriptionRow \<Rightarrow> bool" where
  "legacy_row r \<longleftrightarrow> sb_state r = Sub_active \<and> (sb_organization_id r = None \<or> sb_query_hash r = None \<or> sb_policy_digest r = None \<or>
     sb_schema_epoch r = None \<or> sb_recovery_generation r = None \<or> sb_vshard r = None \<or> sb_domain_schema_epoch r = None)"

definition retired_key :: "live_tables \<Rightarrow> reg_key \<Rightarrow> bool" where
  "retired_key L k \<longleftrightarrow> (\<exists>r \<in> set (subscriptions L). sub_key r = k \<and> sb_state r = Sub_retired)"

definition retireLegacyLiveSubscriptions :: "live_tables \<Rightarrow> live_tables" where
  "retireLegacyLiveSubscriptions L =
     (let L1 = L\<lparr>subscriptions := sql_update legacy_row retired_row (subscriptions L)\<rparr> in delete_children (retired_key L1) L1)"

text \<open>
  The upgrade of rows from before recovery generations: a row whose payload still projects gets generation 0 and its
  hash; an exception of one row is swallowed.
\<close>

definition backfill_row :: "(nat list \<Rightarrow> nat list) \<Rightarrow> StoredSubscriptionRow \<Rightarrow> StoredSubscriptionRow" where
  "backfill_row sha256 r =
     (if sb_state r = Sub_active \<and> sb_recovery_generation r = None
      then (case sb_policy_digest r of
          None \<Rightarrow> r
        | Some policyDigest \<Rightarrow>
            (case projectStoredSubscription sha256 (r\<lparr>sb_recovery_generation := Some 0\<rparr>) False of
               Inl _ \<Rightarrow> r
             | Inr request \<Rightarrow> r\<lparr>sb_recovery_generation := Some 0, sb_payload_hash := Some (subscriptionPayloadHash sha256 request policyDigest)\<rparr>))
      else r)"

definition backfillLegacyRecoveryGeneration :: "(nat list \<Rightarrow> nat list) \<Rightarrow> live_tables \<Rightarrow> live_tables" where
  "backfillLegacyRecoveryGeneration sha256 L = L\<lparr>subscriptions := map (backfill_row sha256) (subscriptions L)\<rparr>"

text \<open>A registration re-authorised after a recovery moves to the new generation.\<close>

definition promoteLiveSubscriptionRecoveryGeneration :: "(nat list \<Rightarrow> nat list) \<Rightarrow> StoredSubscriptionRow \<Rightarrow> int \<Rightarrow> live_tables \<Rightarrow> live_tables res" where
  "promoteLiveSubscriptionRecoveryGeneration sha256 row recoveryGeneration L =
     (case (sb_recovery_generation row, sb_policy_digest row) of
        (Some g, Some policyDigest) \<Rightarrow>
          rbind (ensure (g \<le> recoveryGeneration) (Cdb CDB_STALE_EPOCH)) (\<lambda>_.
          if g = recoveryGeneration then Inr L
          else rbind (parseStoredSubscription sha256 row) (\<lambda>request.
            let promoted = request\<lparr>rq_recoveryGeneration := recoveryGeneration\<rparr>;
                p = (\<lambda>r. sub_key r = sub_key row \<and> sb_state r = Sub_active \<and> sb_recovery_generation r = Some g \<and>
                      sb_payload_hash r = sb_payload_hash row \<and> sb_payload_hash row \<noteq> None) in
            rbind (sql_update_checked subscription_check p (\<lambda>r. r\<lparr>sb_recovery_generation := Some recoveryGeneration,
                sb_payload_hash := Some (subscriptionPayloadHash sha256 promoted policyDigest)\<rparr>) (subscriptions L)) (\<lambda>t.
            rbind (ensure (sql_changes p (subscriptions L) = 1) subscriptionInvariant) (\<lambda>_.
            Inr (L\<lparr>subscriptions := t\<rparr>)))))
      | _ \<Rightarrow> Inl subscriptionInvariant)"

end
