(* ===== verification/Live_Outbox.thy ===== *)
theory Live_Outbox
  imports Live_Store
begin

text \<open>
  The invalidation outbox of a shard, \<^verbatim>\<open>src/src/server/do/cdb-live-store.ts\<close>: every change that a live query may see
  advances the change clock and leaves one entry per affected registration, in the transaction of the change; delivery
  reads due entries, records failures and deletes what a gateway acknowledged (\<open>drainInvalidations\<close> of
  \<^verbatim>\<open>src/src/server/do/cdb.ts\<close>). Other transactions run between the reading and the settling of a delivery.
\<close>

section \<open>Queueing\<close>

definition outbox_entry :: "reg_key \<Rightarrow> live_tables \<Rightarrow> invalidation_outbox_row option" where
  "outbox_entry k L = sql_one (\<lambda>r. outbox_key r = k) (outbox L)"

definition missing_rows :: "reg_key list \<Rightarrow> live_tables \<Rightarrow> nat" where
  "missing_rows ks L = length (filter (\<lambda>k. outbox_entry k L = None) ks)"

definition outbox_room :: "nat \<Rightarrow> live_tables \<Rightarrow> unit res" where
  "outbox_room missing L =
     (if 0 < missing
      then rbind (durableRowCount (outbox L)) (\<lambda>existing.
        ensure (existing + missing \<le> CDB_MAX_INVALIDATION_OUTBOX_ROWS) subscriptionCapacityExceeded)
      else Inr ())"

definition tick_clock :: "live_tables \<Rightarrow> (int \<times> live_tables) res" where
  "tick_clock L = (case change_clock L of
       None \<Rightarrow> Inl subscriptionInvariant
     | Some n \<Rightarrow> (let L1 = L\<lparr>change_clock := Some (n + 1)\<rparr> in rbind (currentChangeSeq L1) (\<lambda>seq. Inr (seq, L1))))"

text \<open>\<open>ON CONFLICT DO UPDATE\<close>: the retry state starts again when the change is newer than the queued one.\<close>

definition newer_change :: "int \<Rightarrow> invalidation_outbox_row \<Rightarrow> invalidation_outbox_row" where
  "newer_change seq r = r\<lparr>ob_change_seq := max (ob_change_seq r) seq,
     ob_attempts := (if ob_change_seq r < seq then 0 else ob_attempts r),
     ob_next_attempt_at := (if ob_change_seq r < seq then 0 else ob_next_attempt_at r),
     ob_last_error := (if ob_change_seq r < seq then None else ob_last_error r),
     ob_dead_lettered_at := (if ob_change_seq r < seq then None else ob_dead_lettered_at r)\<rparr>"

definition new_entry :: "int \<Rightarrow> reg_key \<Rightarrow> invalidation_outbox_row" where
  "new_entry seq k = \<lparr> ob_gateway_id = fst k, ob_registration_id = snd k, ob_change_seq = seq, ob_attempts = 0, ob_next_attempt_at = 0,
     ob_last_error = None, ob_dead_lettered_at = None \<rparr>"

definition upsert_invalidation :: "int \<Rightarrow> reg_key \<Rightarrow> live_tables \<Rightarrow> live_tables res" where
  "upsert_invalidation seq k L =
     rbind (if outbox_entry k L = None
        then child_insert outbox_key outbox_key outbox_check (new_entry seq k) L (outbox L)
        else sql_update_checked outbox_check (\<lambda>r. outbox_key r = k) (newer_change seq) (outbox L)) (\<lambda>t.
     Inr (L\<lparr>outbox := t\<rparr>))"

definition enqueueRegistrationInvalidations :: "reg_key list \<Rightarrow> bool \<Rightarrow> live_tables \<Rightarrow> (int \<times> live_tables) res" where
  "enqueueRegistrationInvalidations ks advanceWhenEmpty L =
     (if ks = [] \<and> \<not> advanceWhenEmpty then rbind (currentChangeSeq L) (\<lambda>seq. Inr (seq, L))
      else rbind (outbox_room (missing_rows ks L) L) (\<lambda>_.
        rbind (tick_clock L) (\<lambda>(seq, L1).
        rbind (rfold (upsert_invalidation seq) ks L1) (\<lambda>L2. Inr (seq, L2)))))"

text \<open>\<open>SELECT gateway_id, registration_id ... ORDER BY gateway_id, registration_id LIMIT n + 1\<close> of the active registrations.\<close>

definition active_where :: "(StoredSubscriptionRow \<Rightarrow> bool) \<Rightarrow> live_tables \<Rightarrow> reg_key list" where
  "active_where p L = take (CDB_MAX_ACTIVE_LIVE_REGISTRATIONS + 1) (map sub_key (by_owner sub_key
     (filter (\<lambda>r. sb_state r = Sub_active \<and> p r) (subscriptions L))))"

definition within_cap :: "reg_key list \<Rightarrow> unit res" where
  "within_cap ks = ensure (length ks \<le> CDB_MAX_ACTIVE_LIVE_REGISTRATIONS) subscriptionInvariant"

definition touched_registrations :: "string list \<Rightarrow> live_tables \<Rightarrow> reg_key list" where
  "touched_registrations tables L = take (CDB_MAX_INVALIDATIONS_PER_MUTATION + 1) (by_owner (\<lambda>k. k) (remdups (map table_owner
     (filter (\<lambda>m. lt_table_name m \<in> set tables \<and> active_key L (table_owner m)) (subscription_tables L)))))"

definition enqueueInvalidations :: "string list \<Rightarrow> live_tables \<Rightarrow> (int \<times> live_tables) res" where
  "enqueueInvalidations touchedTables L =
     (let uniqueTables = remdups touchedTables; ks = (if uniqueTables = [] then [] else touched_registrations uniqueTables L) in
      rbind (ensure (length ks \<le> CDB_MAX_INVALIDATIONS_PER_MUTATION) subscriptionCapacityExceeded) (\<lambda>_.
      enqueueRegistrationInvalidations ks True L))"

definition enqueueRecoveryGenerationInvalidations :: "int \<Rightarrow> live_tables \<Rightarrow> (int \<times> live_tables) res" where
  "enqueueRecoveryGenerationInvalidations recoveryGeneration L =
     rbind (ensure (safe_integer recoveryGeneration \<and> 1 \<le> recoveryGeneration) subscriptionInvariant) (\<lambda>_.
     let ks = active_where (\<lambda>r. \<exists>g. sb_recovery_generation r = Some g \<and> g < recoveryGeneration) L in
     rbind (within_cap ks) (\<lambda>_. enqueueRegistrationInvalidations ks False L))"

definition enqueueRoutingFenceInvalidations :: "int \<Rightarrow> int \<Rightarrow> live_tables \<Rightarrow> (int \<times> live_tables) res" where
  "enqueueRoutingFenceInvalidations rangeLo rangeHi L =
     (let ks = active_where (\<lambda>r. \<exists>v. sb_vshard r = Some v \<and> rangeLo \<le> v \<and> v \<le> rangeHi) L in
      rbind (within_cap ks) (\<lambda>_. enqueueRegistrationInvalidations ks False L))"

text \<open>The functions that also report how many registrations they made dirty.\<close>

definition counted_enqueue :: "reg_key list \<Rightarrow> live_tables \<Rightarrow> (nat \<times> int \<times> live_tables) res" where
  "counted_enqueue ks L =
     rbind (within_cap ks) (\<lambda>_.
     if ks = [] then rbind (currentChangeSeq L) (\<lambda>seq. Inr (0, seq, L))
     else rbind (enqueueRegistrationInvalidations ks False L) (\<lambda>(seq, L1). Inr (length ks, seq, L1)))"

definition enqueueSchemaMigrationInvalidations :: "live_tables \<Rightarrow> (nat \<times> int \<times> live_tables) res" where
  "enqueueSchemaMigrationInvalidations L = counted_enqueue (active_where (\<lambda>_. True) L) L"

datatype (plugins only: code) auth_scope = Scope_global | Scope_tenant | Scope_principal

definition in_scope :: "auth_scope \<Rightarrow> string \<Rightarrow> StoredSubscriptionRow \<Rightarrow> bool" where
  "in_scope scope scopeId r = (case scope of
       Scope_global \<Rightarrow> True
     | Scope_tenant \<Rightarrow> sb_organization_id r = Some scopeId
     | Scope_principal \<Rightarrow> sb_principal_id r = Some scopeId)"

definition enqueueAuthScopeInvalidations :: "auth_scope \<Rightarrow> string \<Rightarrow> live_tables \<Rightarrow> (nat \<times> int \<times> live_tables) res" where
  "enqueueAuthScopeInvalidations scope scopeId L = counted_enqueue (active_where (in_scope scope scopeId) L) L"

text \<open>The vector resource's registrations, in the order in which the statement inserts them.\<close>

definition vector_registrations :: "string \<Rightarrow> live_tables \<Rightarrow> reg_key list" where
  "vector_registrations resourceId L =
     map vector_owner (filter (\<lambda>m. lx_resource_id m = resourceId \<and> active_key L (vector_owner m)) (subscription_vectors L))"

definition enqueueVectorResourceInvalidations :: "string \<Rightarrow> live_tables \<Rightarrow> (nat \<times> int \<times> live_tables) res" where
  "enqueueVectorResourceInvalidations resourceId L =
     rbind (vectorResourceId resourceId) (\<lambda>canonical.
     let ks = vector_registrations canonical L in
     rbind (within_cap ks) (\<lambda>_.
     if ks = [] then rbind (currentChangeSeq L) (\<lambda>seq. Inr (0, seq, L))
     else rbind (outbox_room (missing_rows ks L) L) (\<lambda>_.
       rbind (tick_clock L) (\<lambda>(seq, L1).
       rbind (rfold (upsert_invalidation seq) ks L1) (\<lambda>L2. Inr (length ks, seq, L2))))))"

section \<open>Delivery\<close>

record StoredInvalidationRow = invalidation_outbox_row +
  si_connection_id :: string
  si_client_id :: string
  si_sub_id :: int

definition delivery_row :: "invalidation_outbox_row \<Rightarrow> StoredSubscriptionRow \<Rightarrow> StoredInvalidationRow" where
  "delivery_row r s = invalidation_outbox_row.extend r
     \<lparr> si_connection_id = sb_connection_id s, si_client_id = sb_client_id s, si_sub_id = sb_sub_id s \<rparr>"

definition joined :: "live_tables \<Rightarrow> invalidation_outbox_row \<Rightarrow> StoredInvalidationRow option" where
  "joined L r = map_option (delivery_row r) (subscription_of (outbox_key r) L)"

definition dueInvalidations :: "int \<Rightarrow> live_tables \<Rightarrow> StoredInvalidationRow list" where
  "dueInvalidations nowMs L = take INVALIDATION_BATCH_SIZE (sort_key ob_next_attempt_at (by_owner (\<lambda>r. (ob_gateway_id r, ob_registration_id r))
     (List.map_filter (joined L) (filter (\<lambda>r. ob_next_attempt_at r \<le> nowMs) (outbox L)))))"

definition invalidationRetryDelayMs :: "int \<Rightarrow> int" where
  "invalidationRetryDelayMs attempts = min INVALIDATION_MAX_RETRY_MS (INVALIDATION_BASE_RETRY_MS * 2 ^ nat (max 0 (attempts - 1)))"

definition failed_entry :: "int \<Rightarrow> string \<Rightarrow> StoredInvalidationRow \<Rightarrow> invalidation_outbox_row \<Rightarrow> invalidation_outbox_row" where
  "failed_entry nowMs message row r =
     (let attempts = ob_attempts row + 1 in
      r\<lparr>ob_attempts := attempts, ob_next_attempt_at := nowMs + invalidationRetryDelayMs attempts, ob_last_error := Some (take 512 message),
        ob_dead_lettered_at := (case ob_dead_lettered_at row of
            Some t \<Rightarrow> Some t
          | None \<Rightarrow> if INVALIDATION_MAX_ATTEMPTS \<le> attempts then Some nowMs else None)\<rparr>)"

definition record_failure :: "int \<Rightarrow> string \<Rightarrow> StoredInvalidationRow \<Rightarrow> live_tables \<Rightarrow> live_tables res" where
  "record_failure nowMs message row L =
     rbind (sql_update_checked outbox_check
        (\<lambda>r. outbox_key r = (ob_gateway_id row, ob_registration_id row) \<and> ob_change_seq r = ob_change_seq row)
        (failed_entry nowMs message row) (outbox L)) (\<lambda>t. Inr (L\<lparr>outbox := t\<rparr>))"

definition recordInvalidationFailures :: "StoredInvalidationRow list \<Rightarrow> int \<Rightarrow> string \<Rightarrow> live_tables \<Rightarrow> live_tables res" where
  "recordInvalidationFailures rows nowMs message L = rfold (record_failure nowMs message) rows L"

datatype (plugins only: code) ack_status = Ack_accepted | Ack_stale

record GatewayInvalidationAck =
  ga_registrationId :: string
  ga_changeSeq :: int
  ga_status :: ack_status

definition acknowledge_one :: "string \<Rightarrow> GatewayInvalidationAck \<Rightarrow> live_tables \<Rightarrow> live_tables" where
  "acknowledge_one gatewayId a L = L\<lparr>outbox := sql_delete (\<lambda>r. ob_gateway_id r = gatewayId \<and>
     ob_registration_id r = ga_registrationId a \<and> ob_change_seq r = ga_changeSeq a) (outbox L)\<rparr>"

definition acknowledgeInvalidations :: "string \<Rightarrow> GatewayInvalidationAck list \<Rightarrow> live_tables \<Rightarrow> live_tables" where
  "acknowledgeInvalidations gatewayId acks L = fold (acknowledge_one gatewayId) acks L"

definition nextInvalidationAlarmAt :: "live_tables \<Rightarrow> int option" where
  "nextInvalidationAlarmAt L = (if outbox L = [] then None else Some (Min (set (map ob_next_attempt_at (outbox L)))))"

text \<open>What a gateway answered, with the fields the check reads; any other shape is \<open>None\<close>.\<close>

record GatewayInvalidationResponse =
  gr_gatewayId :: string
  gr_acknowledgements :: "GatewayInvalidationAck option list"

fun check_acks :: "(string \<times> int) list \<Rightarrow> string list \<Rightarrow> GatewayInvalidationAck option list \<Rightarrow> GatewayInvalidationAck list res" where
  "check_acks requested seen [] = Inr []"
| "check_acks requested seen (None # rest) = Inl subscriptionInvariant"
| "check_acks requested seen (Some a # rest) =
     rbind (ensure (safe_integer (ga_changeSeq a) \<and> map_of requested (ga_registrationId a) = Some (ga_changeSeq a) \<and>
         ga_registrationId a \<notin> set seen) subscriptionInvariant) (\<lambda>_.
     rbind (check_acks requested (ga_registrationId a # seen) rest) (\<lambda>acks. Inr (a # acks)))"

text \<open>\<open>new Map(entries)\<close> keeps the last value of a key.\<close>

definition validateInvalidationResponse :: "GatewayInvalidationResponse option \<Rightarrow> string \<Rightarrow> StoredInvalidationRow list \<Rightarrow>
    GatewayInvalidationAck list res" where
  "validateInvalidationResponse response gatewayId batch =
     (case response of
        None \<Rightarrow> Inl subscriptionInvariant
      | Some r \<Rightarrow>
          rbind (ensure (gr_gatewayId r = gatewayId) subscriptionInvariant) (\<lambda>_.
          check_acks (rev (map (\<lambda>row. (ob_registration_id row, ob_change_seq row)) batch)) [] (gr_acknowledgements r)))"

text \<open>
  Settling the answer of one gateway: the exception, or its answer. What it did not acknowledge counts as a failure,
  recorded by a transaction of its own. \<open>text\<close> is the message of an exception, which errors of the model do not carry.
\<close>

definition record_transaction :: "StoredInvalidationRow list \<Rightarrow> int \<Rightarrow> string \<Rightarrow> live_tables \<Rightarrow> unit res \<times> live_tables" where
  "record_transaction rows nowMs message L = (case recordInvalidationFailures rows nowMs message L of
       Inl e \<Rightarrow> (Inl e, L) | Inr L' \<Rightarrow> (Inr (), L'))"

definition settle_acknowledged :: "string \<Rightarrow> StoredInvalidationRow list \<Rightarrow> GatewayInvalidationAck list \<Rightarrow> int \<Rightarrow> live_tables \<Rightarrow>
    unit res \<times> live_tables" where
  "settle_acknowledged gatewayId batch acks nowMs L =
     (let L1 = acknowledgeInvalidations gatewayId acks L;
          omitted = filter (\<lambda>row. (ob_registration_id row, ob_change_seq row) \<notin> (\<lambda>a. (ga_registrationId a, ga_changeSeq a)) ` set acks) batch in
      if omitted \<noteq> [] then record_transaction omitted nowMs ''Gateway omitted an invalidation acknowledgement'' L1 else (Inr (), L1))"

definition settle_delivery :: "(js_error \<Rightarrow> string) \<Rightarrow> string \<Rightarrow> StoredInvalidationRow list \<Rightarrow> js_error + GatewayInvalidationResponse option \<Rightarrow> int \<Rightarrow>
    live_tables \<Rightarrow> unit res \<times> live_tables" where
  "settle_delivery text gatewayId batch answer nowMs L =
     (case rbind answer (\<lambda>response. validateInvalidationResponse response gatewayId batch) of
        Inl e \<Rightarrow> record_transaction batch nowMs (text e) L
      | Inr acks \<Rightarrow> settle_acknowledged gatewayId batch acks nowMs L)"

end
