(* ===== verification/Live_Queue.thy ===== *)
theory Live_Queue
  imports Live_Outbox
begin

text \<open>
  The invalidation outbox as a queue of changes. \<open>change_queue\<close> is its contract, over an abstract state that maps every
  registration to the newest change it has not acknowledged; the theory shows the effect of every operation of
  \<open>Live_Store\<close> and \<open>Live_Outbox\<close>, the invariant of the tables, and that the operations meet the contract.
\<close>

section \<open>The contract\<close>

datatype 'k change_event =
    Changed "'k set" int
  | Acked "('k \<times> int) set"
  | Dropped "'k set"
  | Quiet

fun apply_event :: "'k change_event \<Rightarrow> ('k \<Rightarrow> int option) \<Rightarrow> 'k \<Rightarrow> int option" where
  "apply_event (Changed K n) f = (\<lambda>k. if k \<in> K then Some n else f k)"
| "apply_event (Acked A) f = (\<lambda>k. case f k of None \<Rightarrow> None | Some n \<Rightarrow> if (k, n) \<in> A then None else Some n)"
| "apply_event (Dropped K) f = (\<lambda>k. if k \<in> K then None else f k)"
| "apply_event Quiet f = f"

fun event_clock :: "'k change_event \<Rightarrow> int \<Rightarrow> int" where
  "event_clock (Changed K n) c = n"
| "event_clock _ c = c"

text \<open>An event that takes the change \<open>n\<close> of \<open>k\<close> off the queue.\<close>

fun settles :: "'k change_event \<Rightarrow> 'k \<Rightarrow> int \<Rightarrow> bool" where
  "settles (Acked A) k n \<longleftrightarrow> (\<exists>m \<ge> n. (k, m) \<in> A)"
| "settles (Dropped K) k n \<longleftrightarrow> k \<in> K"
| "settles _ k n \<longleftrightarrow> False"

inductive runs :: "('q \<Rightarrow> 'k change_event \<Rightarrow> 'q \<Rightarrow> bool) \<Rightarrow> 'q \<Rightarrow> 'k change_event list \<Rightarrow> 'q \<Rightarrow> bool" for step where
  runs_Nil: "runs step q [] q"
| runs_snoc: "runs step q es q' \<Longrightarrow> step q' e q'' \<Longrightarrow> runs step q (es @ [e]) q''"

inductive_simps runs_Nil_iff [simp]: "runs step q [] q'"

locale change_queue =
  fixes q_inv :: "'q \<Rightarrow> bool" and q_step :: "'q \<Rightarrow> 'k change_event \<Rightarrow> 'q \<Rightarrow> bool"
    and queued :: "'q \<Rightarrow> 'k \<Rightarrow> int option" and clock :: "'q \<Rightarrow> int"
  assumes keeps_inv: "q_inv q \<Longrightarrow> q_step q e q' \<Longrightarrow> q_inv q'"
    and keeps_queued: "q_inv q \<Longrightarrow> q_step q e q' \<Longrightarrow> queued q' = apply_event e (queued q)"
    and keeps_clock: "q_inv q \<Longrightarrow> q_step q e q' \<Longrightarrow> clock q' = event_clock e (clock q) \<and> clock q \<le> clock q'"
    and fresh_change: "q_inv q \<Longrightarrow> q_step q (Changed K n) q' \<Longrightarrow> clock q < n"
    and queued_past: "q_inv q \<Longrightarrow> queued q k = Some n \<Longrightarrow> n \<le> clock q"
begin

lemma runs_inv: "runs q_step q es q' \<Longrightarrow> q_inv q \<Longrightarrow> q_inv q'"
  by (induction rule: runs.induct) (auto intro: keeps_inv)

lemma step_keeps_change:
  assumes "q_inv q" and "q_step q e q'" and "queued q k = Some m" and "n \<le> m" and "\<not> settles e k n"
  shows "\<exists>m' \<ge> n. queued q' k = Some m'"
  using assms keeps_queued [OF assms(1,2)] fresh_change [OF assms(1)] queued_past [OF assms(1,3)]
  by (cases e) fastforce+

lemma change_stays:
  assumes "runs q_step q es q'" and "q_inv q" and "queued q k = Some m" and "n \<le> m" and "\<forall>e \<in> set es. \<not> settles e k n"
  shows "\<exists>m' \<ge> n. queued q' k = Some m'"
  using assms
proof (induction arbitrary: m rule: runs.induct)
  case (runs_Nil q)
  then show ?case by blast
next
  case (runs_snoc q es q' e q'')
  then obtain m' where "n \<le> m'" "queued q' k = Some m'" by auto
  moreover have "q_inv q'" using runs_snoc.hyps(1) runs_snoc.prems(1) by (rule runs_inv)
  ultimately show ?case using runs_snoc.hyps(2) runs_snoc.prems(4) by (auto intro: step_keeps_change)
qed

text \<open>The queue is the fold of the events over the initial queue.\<close>

lemma runs_queued: "runs q_step q es q' \<Longrightarrow> q_inv q \<Longrightarrow> queued q' = fold apply_event es (queued q)"
proof (induction rule: runs.induct)
  case (runs_snoc q es q' e q'')
  then show ?case using keeps_queued [OF runs_inv [OF runs_snoc.hyps(1)]] by simp
qed simp

lemma runs_clock: "runs q_step q es q' \<Longrightarrow> q_inv q \<Longrightarrow> clock q' = fold event_clock es (clock q)"
proof (induction rule: runs.induct)
  case (runs_snoc q es q' e q'')
  then show ?case using keeps_clock [OF runs_inv [OF runs_snoc.hyps(1)]] by simp
qed simp

end

section \<open>Reading the tables\<close>

lemma subscription_of_iff:
  assumes "distinct (map sub_key (subscriptions L))"
  shows "subscription_of k L = Some r \<longleftrightarrow> r \<in> set (subscriptions L) \<and> sub_key r = k"
  using sql_one_unique [OF assms] sql_one_SomeD unfolding subscription_of_def by fastforce

lemma subscription_of_None: "subscription_of k L = None \<longleftrightarrow> \<not> has_subscription k L"
  by (auto simp: subscription_of_def sql_one_None_iff has_subscription_def)

lemma active_has: "active_key L k \<Longrightarrow> has_subscription k L"
  by (auto simp: active_key_def has_subscription_def)

lemma outbox_entry_iff:
  assumes "distinct (map outbox_key (outbox L))"
  shows "outbox_entry k L = Some r \<longleftrightarrow> r \<in> set (outbox L) \<and> outbox_key r = k"
  using sql_one_unique [OF assms] sql_one_SomeD unfolding outbox_entry_def by fastforce

lemma outbox_entry_None: "outbox_entry k L = None \<longleftrightarrow> (\<forall>r \<in> set (outbox L). outbox_key r \<noteq> k)"
  by (simp add: outbox_entry_def sql_one_None_iff)

lemma outbox_entry_cong: "outbox L = outbox L' \<Longrightarrow> outbox_entry k L = outbox_entry k L'"
  by (simp add: outbox_entry_def)

lemma outbox_key_simps [simp]:
  "outbox_key (new_entry seq k) = k"
  "outbox_key (newer_change seq r) = outbox_key r"
  "ob_change_seq (new_entry seq k) = seq"
  by (simp_all add: outbox_key_def new_entry_def newer_change_def)

lemma newer_is_new:
  assumes "ob_change_seq r < seq \<or> r = new_entry seq (outbox_key r)"
  shows "newer_change seq r = new_entry seq (outbox_key r)"
  using assms
proof
  assume "ob_change_seq r < seq"
  then show ?thesis by (cases r) (simp add: newer_change_def new_entry_def outbox_key_def)
next
  assume "r = new_entry seq (outbox_key r)"
  then have "newer_change seq r = newer_change seq (new_entry seq (outbox_key r))" by simp
  then show ?thesis by (simp add: newer_change_def new_entry_def)
qed

section \<open>Queueing a change\<close>

text \<open>The outbox while a change with number \<open>seq\<close> is queued: every entry is older, or is the entry of this change.\<close>

definition queueing :: "int \<Rightarrow> live_tables \<Rightarrow> bool" where
  "queueing seq L \<longleftrightarrow> distinct (map outbox_key (outbox L)) \<and> (\<forall>r \<in> set (outbox L). ob_change_seq r < seq \<or> r = new_entry seq (outbox_key r)) \<and>
     (\<forall>r \<in> set (outbox L). outbox_check r)"

definition same_but_outbox :: "live_tables \<Rightarrow> live_tables \<Rightarrow> bool" where
  "same_but_outbox L L' \<longleftrightarrow> L' = L\<lparr>outbox := outbox L'\<rparr>"

lemma same_but_outboxD:
  assumes "same_but_outbox L L'"
  shows "subscriptions L' = subscriptions L" "change_clock L' = change_clock L" "subscription_tables L' = subscription_tables L"
    "subscription_vectors L' = subscription_vectors L" "has_subscription k L' = has_subscription k L" "active_key L' k = active_key L k"
proof -
  from assms obtain t where "L' = L\<lparr>outbox := t\<rparr>" by (auto simp: same_but_outbox_def)
  then show "subscriptions L' = subscriptions L" "change_clock L' = change_clock L" "subscription_tables L' = subscription_tables L"
    "subscription_vectors L' = subscription_vectors L" "has_subscription k L' = has_subscription k L" "active_key L' k = active_key L k"
    by (simp_all add: has_subscription_def active_key_def)
qed

lemma same_but_outbox_trans: "same_but_outbox L M \<Longrightarrow> same_but_outbox M N \<Longrightarrow> same_but_outbox L N"
  unfolding same_but_outbox_def by (metis live_tables.unfold_congs(5) live_tables.surjective live_tables.update_convs(5))

lemma upsert_queues:
  assumes "queueing seq L" and "0 < seq" and "has_subscription k L"
  shows "\<exists>L'. upsert_invalidation seq k L = Inr L' \<and> queueing seq L' \<and> same_but_outbox L L' \<and>
    (\<forall>k'. outbox_entry k' L' = (if k' = k then Some (new_entry seq k) else outbox_entry k' L)) \<and>
    length (outbox L') = length (outbox L) + (if outbox_entry k L = None then 1 else 0)"
proof (cases "outbox_entry k L")
  case None
  let ?L' = "L\<lparr>outbox := outbox L @ [new_entry seq k]\<rparr>"
  have fresh: "\<forall>r \<in> set (outbox L). outbox_key r \<noteq> k" using None by (simp add: outbox_entry_None)
  have ok: "outbox_check (new_entry seq k)" using assms(2) by (simp add: outbox_check_def new_entry_def)
  have "upsert_invalidation seq k L = Inr ?L'"
    using None fresh ok assms(3) by (simp add: upsert_invalidation_def child_insert_def sql_insert_def)
  moreover have "queueing seq ?L'" using assms(1) fresh ok by (auto simp: queueing_def)
  moreover have "outbox_entry k' ?L' = (if k' = k then Some (new_entry seq k) else outbox_entry k' L)" for k'
    using None by (simp add: outbox_entry_def sql_one_append_new sql_one_append_other)
  ultimately show ?thesis using None by (auto simp: same_but_outbox_def)
next
  case (Some r0)
  let ?p = "\<lambda>r. outbox_key r = k"
  let ?t = "sql_update ?p (newer_change seq) (outbox L)"
  let ?L' = "L\<lparr>outbox := ?t\<rparr>"
  have d: "distinct (map outbox_key (outbox L))" using assms(1) by (simp add: queueing_def)
  have new: "newer_change seq r = new_entry seq (outbox_key r)" if "r \<in> set (outbox L)" for r
    using assms(1) that newer_is_new by (auto simp: queueing_def)
  have ok: "outbox_check (new_entry seq k)" using assms(2) by (simp add: outbox_check_def new_entry_def)
  have "upsert_invalidation seq k L = Inr ?L'"
    using Some new ok by (simp add: upsert_invalidation_def sql_update_checked_def)
  moreover have "queueing seq ?L'"
    using assms(1) new ok distinct_keys_sql_update [OF d, of ?p "newer_change seq"] by (auto simp: queueing_def table_simps)
  moreover have "outbox_entry k' ?L' = (if k' = k then Some (new_entry seq k) else outbox_entry k' L)" for k'
  proof (cases "k' = k")
    case True
    have r0: "r0 \<in> set (outbox L)" "outbox_key r0 = k" using Some d by (simp_all add: outbox_entry_iff)
    have "sql_one (\<lambda>r. outbox_key r = k) ?t = Some (newer_change seq r0)"
      by (rule sql_one_update_same [OF d]) (use Some r0 in \<open>simp_all add: outbox_entry_def\<close>)
    then show ?thesis using True new [OF r0(1)] r0(2) by (simp add: outbox_entry_def)
  next
    case False
    then have "sql_one (\<lambda>r. outbox_key r = k') ?t = sql_one (\<lambda>r. outbox_key r = k') (outbox L)"
      by (intro sql_one_update_other) auto
    then show ?thesis using False by (simp add: outbox_entry_def)
  qed
  ultimately show ?thesis using Some by (auto simp: same_but_outbox_def)
qed

lemma upserts_queue:
  assumes "queueing seq L" and "0 < seq" and "\<forall>k \<in> set ks. has_subscription k L" and "distinct ks"
  shows "\<exists>L'. rfold (upsert_invalidation seq) ks L = Inr L' \<and> queueing seq L' \<and> same_but_outbox L L' \<and>
    (\<forall>k. outbox_entry k L' = (if k \<in> set ks then Some (new_entry seq k) else outbox_entry k L)) \<and>
    length (outbox L') = length (outbox L) + missing_rows ks L"
  using assms(1,3,4)
proof (induction ks arbitrary: L)
  case Nil
  then show ?case by (simp add: same_but_outbox_def missing_rows_def)
next
  case (Cons k ks)
  obtain L1 where L1: "upsert_invalidation seq k L = Inr L1" "queueing seq L1" "same_but_outbox L L1"
      "\<forall>k'. outbox_entry k' L1 = (if k' = k then Some (new_entry seq k) else outbox_entry k' L)"
      "length (outbox L1) = length (outbox L) + (if outbox_entry k L = None then 1 else 0)"
    using upsert_queues [OF Cons.prems(1) assms(2), of k] Cons.prems(2) by auto
  have "\<forall>k' \<in> set ks. has_subscription k' L1" using Cons.prems(2) same_but_outboxD(5) [OF L1(3)] by simp
  then obtain L2 where L2: "rfold (upsert_invalidation seq) ks L1 = Inr L2" "queueing seq L2" "same_but_outbox L1 L2"
      "\<forall>k'. outbox_entry k' L2 = (if k' \<in> set ks then Some (new_entry seq k') else outbox_entry k' L1)"
      "length (outbox L2) = length (outbox L1) + missing_rows ks L1"
    using Cons.IH [OF L1(2)] Cons.prems(3) by auto
  have "outbox_entry k' L1 = outbox_entry k' L" if "k' \<in> set ks" for k' using spec [OF L1(4), of k'] Cons.prems(3) that by auto
  then have "missing_rows ks L1 = missing_rows ks L"
    unfolding missing_rows_def by (intro arg_cong [of _ _ length] filter_cong) simp_all
  then have "length (outbox L2) = length (outbox L) + missing_rows (k # ks) L"
    using L2(5) L1(5) by (simp add: missing_rows_def)
  moreover have "\<forall>k'. outbox_entry k' L2 = (if k' \<in> set (k # ks) then Some (new_entry seq k') else outbox_entry k' L)"
    using L2(4) L1(4) Cons.prems(3) by (simp del: split_paired_All)
  ultimately show ?case using L1(1) L2(1,2) same_but_outbox_trans [OF L1(3) L2(3)] by simp
qed

section \<open>The invariant of the tables\<close>

definition registry_inv :: "live_tables \<Rightarrow> bool" where
  "registry_inv L \<longleftrightarrow> distinct (map sub_key (subscriptions L)) \<and> (\<forall>r \<in> set (subscriptions L). subscription_check r) \<and>
     length (subscriptions L) \<le> CDB_MAX_LIVE_REGISTRATION_ROWS \<and> length (active_rows L) \<le> CDB_MAX_ACTIVE_LIVE_REGISTRATIONS \<and>
     sum_list (map row_identity_bytes (filter (\<lambda>r. sb_state r = Sub_retired) (subscriptions L))) \<le> CDB_MAX_RETIRED_TOMBSTONE_BYTES"

definition owned_inv :: "live_tables \<Rightarrow> bool" where
  "owned_inv L \<longleftrightarrow> distinct (map table_key (subscription_tables L)) \<and> (\<forall>m \<in> set (subscription_tables L). active_key L (table_owner m)) \<and>
     distinct (map vector_owner (subscription_vectors L)) \<and>
     (\<forall>m \<in> set (subscription_vectors L). active_key L (vector_owner m) \<and> vectorResourceId (lx_resource_id m) = Inr (lx_resource_id m))"

definition outbox_inv :: "live_tables \<Rightarrow> bool" where
  "outbox_inv L \<longleftrightarrow> distinct (map outbox_key (outbox L)) \<and> (\<forall>r \<in> set (outbox L). outbox_check r \<and> active_key L (outbox_key r)) \<and>
     (\<exists>n. change_clock L = Some n \<and> 0 \<le> n \<and> safe_integer n \<and> (\<forall>r \<in> set (outbox L). ob_change_seq r \<le> n))"

definition live_inv :: "live_tables \<Rightarrow> bool" where
  "live_inv L \<longleftrightarrow> registry_inv L \<and> owned_inv L \<and> outbox_inv L"

definition clock_of :: "live_tables \<Rightarrow> int" where
  "clock_of L = (case change_clock L of None \<Rightarrow> 0 | Some n \<Rightarrow> n)"

definition MAX_CHANGE_SEQ :: int where "MAX_CHANGE_SEQ = 9007199254740991"

lemma live_inv_DDL: "live_inv CDB_LIVE_STORE_DDL"
  by (simp add: live_inv_def registry_inv_def owned_inv_def outbox_inv_def CDB_LIVE_STORE_DDL_def active_rows_def safe_integer_def
      CDB_MAX_RETIRED_TOMBSTONE_BYTES_def)

lemma live_invD:
  assumes "live_inv L"
  shows "distinct (map sub_key (subscriptions L))" "distinct (map outbox_key (outbox L))"
    "change_clock L = Some (clock_of L)" "0 \<le> clock_of L" "clock_of L \<le> MAX_CHANGE_SEQ" "currentChangeSeq L = Inr (clock_of L)"
proof -
  from assms obtain n where n: "change_clock L = Some n" "0 \<le> n" "safe_integer n" by (auto simp: live_inv_def outbox_inv_def)
  then show "change_clock L = Some (clock_of L)" "0 \<le> clock_of L" "clock_of L \<le> MAX_CHANGE_SEQ" "currentChangeSeq L = Inr (clock_of L)"
    by (simp_all add: clock_of_def currentChangeSeq_def MAX_CHANGE_SEQ_def safe_integer_def)
  show "distinct (map sub_key (subscriptions L))" "distinct (map outbox_key (outbox L))"
    using assms by (simp_all add: live_inv_def registry_inv_def outbox_inv_def)
qed

lemma live_inv_entry:
  assumes "live_inv L" and "r \<in> set (outbox L)"
  shows "outbox_check r" "active_key L (outbox_key r)" "ob_change_seq r \<le> clock_of L"
  using assms by (auto simp: live_inv_def outbox_inv_def clock_of_def)

lemma active_keys: "active_key L k \<longleftrightarrow> k \<in> sub_key ` set (active_rows L)"
  by (auto simp: active_key_def active_rows_def)

lemma active_keys_le:
  assumes "live_inv L" and "distinct ks" and "\<forall>k \<in> set ks. active_key L k"
  shows "length ks \<le> CDB_MAX_ACTIVE_LIVE_REGISTRATIONS"
proof -
  have "length ks = card (set ks)" using assms(2) by (simp add: distinct_card)
  also have "\<dots> \<le> card (sub_key ` set (active_rows L))" using assms(3) by (intro card_mono) (auto simp: active_keys)
  also have "\<dots> \<le> length (active_rows L)" by (meson card_image_le card_length finite_set order_trans)
  also have "\<dots> \<le> CDB_MAX_ACTIVE_LIVE_REGISTRATIONS" using assms(1) by (simp add: live_inv_def registry_inv_def)
  finally show ?thesis .
qed

text \<open>In the tables a shard can reach there is always room: entries belong to active registrations.\<close>

lemma outbox_room_ok:
  assumes "live_inv L" and "distinct ks" and "\<forall>k \<in> set ks. active_key L k"
  shows "outbox_room (missing_rows ks L) L = Inr ()"
proof -
  let ?new = "filter (\<lambda>k. outbox_entry k L = None) ks"
  have "distinct (map outbox_key (outbox L) @ ?new)"
    using assms(2) live_invD(2) [OF assms(1)] by (auto simp: outbox_entry_None)
  moreover have "\<forall>k \<in> set (map outbox_key (outbox L) @ ?new). active_key L k"
    using assms(3) live_inv_entry(2) [OF assms(1)] by auto
  ultimately have "length (map outbox_key (outbox L) @ ?new) \<le> CDB_MAX_ACTIVE_LIVE_REGISTRATIONS"
    by (rule active_keys_le [OF assms(1)])
  then have "length (outbox L) + missing_rows ks L \<le> CDB_MAX_INVALIDATION_OUTBOX_ROWS"
    by (simp add: missing_rows_def CDB_MAX_ACTIVE_LIVE_REGISTRATIONS_def CDB_MAX_INVALIDATION_OUTBOX_ROWS_def)
  then show ?thesis by (simp add: outbox_room_def durableRowCount_def safe_integer_def CDB_MAX_INVALIDATION_OUTBOX_ROWS_def)
qed

lemma tick_eq:
  assumes "live_inv L"
  shows "tick_clock L = (if clock_of L < MAX_CHANGE_SEQ then Inr (clock_of L + 1, L\<lparr>change_clock := Some (clock_of L + 1)\<rparr>)
    else Inl subscriptionInvariant)"
  using live_invD(3-5) [OF assms] by (simp add: tick_clock_def currentChangeSeq_def Let_def safe_integer_def MAX_CHANGE_SEQ_def)

text \<open>The tables after a change of the registrations \<open>K\<close>.\<close>

definition changed_to :: "reg_key set \<Rightarrow> live_tables \<Rightarrow> live_tables \<Rightarrow> bool" where
  "changed_to K L L' \<longleftrightarrow> L' = L\<lparr>change_clock := Some (clock_of L + 1), outbox := outbox L'\<rparr> \<and>
     (\<forall>k. outbox_entry k L' = (if k \<in> K then Some (new_entry (clock_of L + 1) k) else outbox_entry k L))"

lemma changed_toD:
  assumes "changed_to K L L'"
  shows "subscriptions L' = subscriptions L" "change_clock L' = Some (clock_of L + 1)" "clock_of L' = clock_of L + 1"
    "subscription_tables L' = subscription_tables L" "subscription_vectors L' = subscription_vectors L" "active_key L' k = active_key L k"
    "active_rows L' = active_rows L"
proof -
  from assms obtain t where "L' = L\<lparr>change_clock := Some (clock_of L + 1), outbox := t\<rparr>" by (auto simp: changed_to_def)
  then show "subscriptions L' = subscriptions L" "change_clock L' = Some (clock_of L + 1)" "clock_of L' = clock_of L + 1"
    "subscription_tables L' = subscription_tables L" "subscription_vectors L' = subscription_vectors L" "active_key L' k = active_key L k"
    "active_rows L' = active_rows L"
    by (simp_all add: clock_of_def active_key_def active_rows_def)
qed

lemma enqueue_registrations:
  assumes "live_inv L" and "distinct ks" and "\<forall>k \<in> set ks. active_key L k" and "ks \<noteq> [] \<or> advance" and "clock_of L < MAX_CHANGE_SEQ"
  shows "\<exists>L'. enqueueRegistrationInvalidations ks advance L = Inr (clock_of L + 1, L') \<and> changed_to (set ks) L L' \<and> live_inv L'"
proof -
  let ?n = "clock_of L + 1"
  let ?L1 = "L\<lparr>change_clock := Some ?n\<rparr>"
  have entry: "outbox_entry k ?L1 = outbox_entry k L" for k by (simp add: outbox_entry_def)
  have "queueing ?n ?L1"
    using live_invD(2) [OF assms(1)] live_inv_entry [OF assms(1)] by (fastforce simp: queueing_def)
  moreover have "\<forall>k \<in> set ks. has_subscription k ?L1" using assms(3) by (auto simp: active_key_def has_subscription_def)
  moreover have "0 < ?n" using live_invD(4) [OF assms(1)] by simp
  ultimately obtain L' where L': "rfold (upsert_invalidation ?n) ks ?L1 = Inr L'" "queueing ?n L'" "same_but_outbox ?L1 L'"
      "\<forall>k. outbox_entry k L' = (if k \<in> set ks then Some (new_entry ?n k) else outbox_entry k ?L1)"
    using upserts_queue assms(2) by blast
  have run: "enqueueRegistrationInvalidations ks advance L = Inr (?n, L')"
    using assms(4,5) outbox_room_ok [OF assms(1-3)] tick_eq [OF assms(1)] L'(1)
    by (auto simp: enqueueRegistrationInvalidations_def)
  have "L' = ?L1\<lparr>outbox := outbox L'\<rparr>" using L'(3) by (simp add: same_but_outbox_def)
  then have ch: "changed_to (set ks) L L'" using L'(4) entry by (simp add: changed_to_def del: split_paired_All)
  note D = changed_toD [OF ch]
  have keep: "registry_inv L'" "owned_inv L'"
    using assms(1) by (simp_all add: live_inv_def registry_inv_def owned_inv_def D)
  have "active_key L (outbox_key r) \<and> ob_change_seq r \<le> ?n" if "r \<in> set (outbox L')" for r
  proof -
    have "outbox_entry (outbox_key r) L' = Some r" using that L'(2) by (simp add: queueing_def outbox_entry_iff)
    then have e: "Some r = (if outbox_key r \<in> set ks then Some (new_entry ?n (outbox_key r)) else outbox_entry (outbox_key r) L)"
      using spec [OF L'(4), of "outbox_key r"] unfolding entry by (rule trans [OF sym])
    show ?thesis
    proof (cases "outbox_key r \<in> set ks")
      case True
      then have "ob_change_seq r = ob_change_seq (new_entry ?n (outbox_key r))" using e by (metis option.inject)
      then show ?thesis using True assms(3) by simp
    next
      case False
      then have "r \<in> set (outbox L)" using e outbox_entry_iff [OF live_invD(2) [OF assms(1)]] by metis
      then show ?thesis using live_inv_entry(2,3) [OF assms(1)] by fastforce
    qed
  qed
  then have "outbox_inv L'"
    using L'(2) assms(5) live_invD(4) [OF assms(1)] D by (auto simp: outbox_inv_def queueing_def safe_integer_def MAX_CHANGE_SEQ_def)
  then show ?thesis using run ch keep by (auto simp: live_inv_def)
qed

lemma enqueue_registrations_quiet:
  assumes "live_inv L"
  shows "enqueueRegistrationInvalidations [] False L = Inr (clock_of L, L)"
  using live_invD(6) [OF assms] by (simp add: enqueueRegistrationInvalidations_def)

lemma enqueue_registrations_full_clock:
  assumes "live_inv L" and "distinct ks" and "\<forall>k \<in> set ks. active_key L k" and "ks \<noteq> [] \<or> advance" and "\<not> clock_of L < MAX_CHANGE_SEQ"
  shows "enqueueRegistrationInvalidations ks advance L = Inl subscriptionInvariant"
  using assms(4,5) outbox_room_ok [OF assms(1-3)] tick_eq [OF assms(1)] by (auto simp: enqueueRegistrationInvalidations_def)

section \<open>The registrations a change affects\<close>

lemma set_by_owner [simp]: "set (by_owner f xs) = set xs"
  by (simp add: by_owner_def)

lemma length_by_owner [simp]: "length (by_owner f xs) = length xs"
  by (simp add: by_owner_def)

lemma distinct_by_owner: "distinct (map f xs) \<Longrightarrow> distinct (map f (by_owner g xs))"
  by (simp add: distinct_map by_owner_def)

lemma distinct_keys_filter: "distinct (map f xs) \<Longrightarrow> distinct (map f (filter p xs))"
  by (induction xs) auto

lemma take_cap: "length xs \<le> n \<Longrightarrow> take (n + 1) xs = xs"
  by simp

lemma active_where_spec:
  assumes "live_inv L"
  shows "distinct (active_where p L)" "set (active_where p L) = {k. \<exists>r \<in> set (active_rows L). p r \<and> sub_key r = k}"
    "within_cap (active_where p L) = Inr ()" "k \<in> set (active_where p L) \<Longrightarrow> active_key L k"
proof -
  let ?rows = "filter (\<lambda>r. sb_state r = Sub_active \<and> p r) (subscriptions L)"
  let ?ks = "map sub_key (by_owner sub_key ?rows)"
  have d: "distinct ?ks" by (intro distinct_by_owner distinct_keys_filter live_invD(1) [OF assms])
  have "\<forall>k \<in> set ?ks. active_key L k" by (auto simp: active_key_def)
  then have len: "length ?ks \<le> CDB_MAX_ACTIVE_LIVE_REGISTRATIONS" by (rule active_keys_le [OF assms d])
  then have eq: "active_where p L = ?ks" unfolding active_where_def by (rule take_cap)
  show "distinct (active_where p L)" using d eq by simp
  show "set (active_where p L) = {k. \<exists>r \<in> set (active_rows L). p r \<and> sub_key r = k}" unfolding eq by (force simp: active_rows_def)
  show "within_cap (active_where p L) = Inr ()" unfolding eq using len by (simp add: within_cap_def)
  show "k \<in> set (active_where p L) \<Longrightarrow> active_key L k" unfolding eq by (auto simp: active_key_def)
qed

text \<open>The active registrations that read one of the tables.\<close>

definition readers :: "string set \<Rightarrow> live_tables \<Rightarrow> reg_key set" where
  "readers T L = {k. active_key L k \<and> (\<exists>m \<in> set (subscription_tables L). table_owner m = k \<and> lt_table_name m \<in> T)}"

lemma touched_registrations_spec:
  assumes "live_inv L"
  shows "distinct (touched_registrations ts L)" "set (touched_registrations ts L) = readers (set ts) L"
    "length (touched_registrations ts L) \<le> CDB_MAX_INVALIDATIONS_PER_MUTATION"
proof -
  let ?ks = "by_owner (\<lambda>k. k) (remdups (map table_owner (filter (\<lambda>m. lt_table_name m \<in> set ts \<and> active_key L (table_owner m)) (subscription_tables L))))"
  have d: "distinct ?ks" by (simp add: by_owner_def)
  have "\<forall>k \<in> set ?ks. active_key L k" by auto
  then have len: "length ?ks \<le> CDB_MAX_ACTIVE_LIVE_REGISTRATIONS" by (rule active_keys_le [OF assms d])
  then have len': "length ?ks \<le> CDB_MAX_INVALIDATIONS_PER_MUTATION"
    by (simp only: CDB_MAX_INVALIDATIONS_PER_MUTATION_def CDB_MAX_ACTIVE_LIVE_REGISTRATIONS_def)
  then have eq: "touched_registrations ts L = ?ks" unfolding touched_registrations_def by (rule take_cap)
  show "distinct (touched_registrations ts L)" using d eq by simp
  show "set (touched_registrations ts L) = readers (set ts) L" unfolding eq readers_def by (auto intro: rev_image_eqI)
  show "length (touched_registrations ts L) \<le> CDB_MAX_INVALIDATIONS_PER_MUTATION" unfolding eq by (rule len')
qed

lemma vector_registrations_spec:
  assumes "live_inv L"
  shows "distinct (vector_registrations v L)" "k \<in> set (vector_registrations v L) \<Longrightarrow> active_key L k"
    "within_cap (vector_registrations v L) = Inr ()"
proof -
  have "distinct (map vector_owner (subscription_vectors L))" using assms by (simp add: live_inv_def owned_inv_def)
  then show d: "distinct (vector_registrations v L)" unfolding vector_registrations_def by (rule distinct_keys_filter)
  show a: "k \<in> set (vector_registrations v L) \<Longrightarrow> active_key L k" for k by (auto simp: vector_registrations_def)
  then show "within_cap (vector_registrations v L) = Inr ()" using active_keys_le [OF assms d] by (simp add: within_cap_def)
qed

section \<open>The effect of every function that queues a change\<close>

text \<open>
  \<open>enqueued K always L r\<close>: the result \<open>r\<close> of queueing a change for the registrations \<open>K\<close>. Nothing happens when there are
  none (unless the clock advances anyway), and the only failure is a clock at its last safe value.
\<close>

definition enqueued :: "reg_key set \<Rightarrow> bool \<Rightarrow> live_tables \<Rightarrow> (int \<times> live_tables) res \<Rightarrow> bool" where
  "enqueued K always L r \<longleftrightarrow>
     (if K = {} \<and> \<not> always then r = Inr (clock_of L, L)
      else if clock_of L < MAX_CHANGE_SEQ then \<exists>L'. r = Inr (clock_of L + 1, L') \<and> changed_to K L L' \<and> live_inv L'
      else r = Inl subscriptionInvariant)"

lemma enqueued_registrations:
  assumes "live_inv L" and "distinct ks" and "\<And>k. k \<in> set ks \<Longrightarrow> active_key L k"
  shows "enqueued (set ks) always L (enqueueRegistrationInvalidations ks always L)"
  using enqueue_registrations [OF assms(1,2)] enqueue_registrations_full_clock [OF assms(1,2)] enqueue_registrations_quiet [OF assms(1)] assms(3)
  by (auto simp: enqueued_def)

lemma enqueued_mutation:
  assumes "live_inv L"
  shows "enqueued (readers (set ts) L) True L (enqueueInvalidations ts L)"
proof -
  let ?ks = "if remdups ts = [] then [] else touched_registrations (remdups ts) L"
  note S = touched_registrations_spec [OF assms, of "remdups ts"]
  have "set ?ks = readers (set ts) L" "distinct ?ks" "length ?ks \<le> CDB_MAX_INVALIDATIONS_PER_MUTATION"
    using S by (auto simp: readers_def)
  moreover from this(1) have "active_key L k" if "k \<in> set ?ks" for k using that by (auto simp: readers_def)
  ultimately show ?thesis
    using enqueued_registrations [OF assms, of ?ks True] by (simp add: enqueueInvalidations_def Let_def ensure_def)
qed

lemma enqueued_recovery:
  assumes "live_inv L" and "safe_integer g" and "1 \<le> g"
  shows "enqueued {k. \<exists>r \<in> set (active_rows L). (\<exists>h. sb_recovery_generation r = Some h \<and> h < g) \<and> sub_key r = k} False L
    (enqueueRecoveryGenerationInvalidations g L)"
proof -
  let ?ks = "active_where (\<lambda>r. \<exists>h. sb_recovery_generation r = Some h \<and> h < g) L"
  have "enqueued (set ?ks) False L (enqueueRegistrationInvalidations ?ks False L)"
    by (rule enqueued_registrations [OF assms(1) active_where_spec(1) [OF assms(1)]]) (rule active_where_spec(4) [OF assms(1)])
  then show ?thesis
    using active_where_spec(2,3) [OF assms(1)] assms(2,3) by (simp add: enqueueRecoveryGenerationInvalidations_def Let_def)
qed

lemma enqueued_fence:
  assumes "live_inv L"
  shows "enqueued {k. \<exists>r \<in> set (active_rows L). (\<exists>v. sb_vshard r = Some v \<and> l \<le> v \<and> v \<le> h) \<and> sub_key r = k} False L
    (enqueueRoutingFenceInvalidations l h L)"
proof -
  let ?ks = "active_where (\<lambda>r. \<exists>v. sb_vshard r = Some v \<and> l \<le> v \<and> v \<le> h) L"
  have "enqueued (set ?ks) False L (enqueueRegistrationInvalidations ?ks False L)"
    by (rule enqueued_registrations [OF assms(1) active_where_spec(1) [OF assms(1)]]) (rule active_where_spec(4) [OF assms(1)])
  then show ?thesis using active_where_spec(2,3) [OF assms(1)] by (simp add: enqueueRoutingFenceInvalidations_def Let_def)
qed

text \<open>A function that also reports the number of registrations.\<close>

definition with_count :: "nat \<Rightarrow> (int \<times> live_tables) res \<Rightarrow> (nat \<times> int \<times> live_tables) res" where
  "with_count n r = rbind r (\<lambda>(seq, L). Inr (n, seq, L))"

lemma with_count_Inr [result_simps]: "with_count n r = Inr (m, seq, L) \<longleftrightarrow> m = n \<and> r = Inr (seq, L)"
  by (auto simp: with_count_def result_simps)

lemma counted_eq:
  assumes "live_inv L" and "within_cap ks = Inr ()"
  shows "counted_enqueue ks L = with_count (length ks) (enqueueRegistrationInvalidations ks False L)"
  using assms enqueue_registrations_quiet [OF assms(1)] live_invD(6) [OF assms(1)] by (simp add: counted_enqueue_def with_count_def)

lemma enqueued_active:
  assumes "live_inv L"
  shows "\<exists>r. counted_enqueue (active_where p L) L = with_count (card {k. \<exists>r \<in> set (active_rows L). p r \<and> sub_key r = k}) r \<and>
    enqueued {k. \<exists>r \<in> set (active_rows L). p r \<and> sub_key r = k} False L r"
proof -
  note S = active_where_spec [OF assms, where p = p]
  have "length (active_where p L) = card (set (active_where p L))" using S(1) by (simp add: distinct_card)
  moreover have "enqueued (set (active_where p L)) False L (enqueueRegistrationInvalidations (active_where p L) False L)"
    by (rule enqueued_registrations [OF assms S(1)]) (rule S(4))
  ultimately show ?thesis using counted_eq [OF assms S(3)] S(2) by auto
qed

lemma enqueued_vector:
  assumes "live_inv L" and "enqueueVectorResourceInvalidations v L = Inr (n, seq, L')"
  shows "n = card (set (vector_registrations v L))" "enqueued (set (vector_registrations v L)) False L (Inr (seq, L'))"
proof -
  let ?ks = "vector_registrations v L"
  note S = vector_registrations_spec [OF assms(1), where v = v]
  have v: "vectorResourceId v = Inr v" using assms(2) by (auto simp: enqueueVectorResourceInvalidations_def vectorResourceId_def split: if_splits)
  have eq: "enqueueVectorResourceInvalidations v L = with_count (length ?ks) (enqueueRegistrationInvalidations ?ks False L)"
    using v S(3) live_invD(6) [OF assms(1)] enqueue_registrations_quiet [OF assms(1)]
    by (auto simp: enqueueVectorResourceInvalidations_def with_count_def enqueueRegistrationInvalidations_def rbind_assoc Let_def
        intro!: rbind_cong split: prod.splits)
  then have run: "n = length ?ks" "enqueueRegistrationInvalidations ?ks False L = Inr (seq, L')"
    using assms(2) unfolding eq with_count_Inr by simp_all
  have "enqueued (set ?ks) False L (enqueueRegistrationInvalidations ?ks False L)"
    by (rule enqueued_registrations [OF assms(1) S(1)]) (rule S(2))
  then show "n = card (set ?ks)" "enqueued (set ?ks) False L (Inr (seq, L'))" using run S(1) by (simp_all add: distinct_card)
qed

end
