(* ===== verification/Live_Registry.thy ===== *)
theory Live_Registry
  imports Live_Queue
begin

text \<open>
  Registration and retirement on the tables of \<open>Live_Store\<close>: each operation keeps the invariant of
  \<open>Live_Queue\<close>, and what it does to the queue of changes.
\<close>

section \<open>Registering\<close>

definition table_rows :: "LiveSubscriptionId \<Rightarrow> string list \<Rightarrow> live_subscription_table list" where
  "table_rows i names = map (\<lambda>n. \<lparr> lt_gateway_id = li_gatewayId i, lt_registration_id = li_registrationId i, lt_table_name = n \<rparr>) names"

lemma table_rows_simps [simp]:
  "m \<in> set (table_rows i names) \<Longrightarrow> table_owner m = id_key i"
  "map lt_table_name (table_rows i names) = names"
  "map table_key (table_rows i names) = map (\<lambda>n. (id_key i, n)) names"
  by (auto simp: table_rows_def table_owner_def table_key_def id_key_def comp_def)

lemma insert_tables_Inr:
  "rfold (insert_table i) names L = Inr L' \<longleftrightarrow>
     L' = L\<lparr>subscription_tables := subscription_tables L @ table_rows i names\<rparr> \<and> (names = [] \<or> has_subscription (id_key i) L) \<and>
     distinct names \<and> (\<forall>n \<in> set names. (id_key i, n) \<notin> table_key ` set (subscription_tables L))"
proof (induction names arbitrary: L)
  case Nil
  then show ?case by (auto simp: table_rows_def)
next
  case (Cons n names)
  let ?row = "\<lparr> lt_gateway_id = li_gatewayId i, lt_registration_id = li_registrationId i, lt_table_name = n \<rparr>"
  let ?L1 = "L\<lparr>subscription_tables := subscription_tables L @ [?row]\<rparr>"
  have key: "table_owner ?row = id_key i" "table_key ?row = (id_key i, n)" by (simp_all add: table_owner_def table_key_def id_key_def)
  have ins: "insert_table i n L = Inr M \<longleftrightarrow> has_subscription (id_key i) L \<and> (id_key i, n) \<notin> table_key ` set (subscription_tables L) \<and> M = ?L1" for M
    using key by (force simp: insert_table_def child_insert_def sql_insert_def result_simps)
  have "rfold (insert_table i) (n # names) L = Inr L' \<longleftrightarrow> has_subscription (id_key i) L \<and>
      (id_key i, n) \<notin> table_key ` set (subscription_tables L) \<and> rfold (insert_table i) names ?L1 = Inr L'"
    using ins by (auto simp: result_simps)
  moreover have "has_subscription (id_key i) ?L1 = has_subscription (id_key i) L" by (simp add: has_subscription_def)
  ultimately show ?case using key by (auto simp: Cons.IH table_rows_def)
qed

text \<open>The tables after a first registration.\<close>

definition registered_in :: "(nat list \<Rightarrow> nat list) \<Rightarrow> CdbSubscriptionRequest \<Rightarrow> string \<Rightarrow> live_tables \<Rightarrow> live_tables" where
  "registered_in sha256 a policyDigest L = L\<lparr>subscriptions := subscriptions L @ [stored_row a policyDigest (subscriptionPayloadHash sha256 a policyDigest)],
     subscription_tables := subscription_tables L @ table_rows (rq_subscription a) (sort (remdups (rq_tables a)))\<rparr>"

lemma stored_row_key [simp]: "sub_key (stored_row a d h) = id_key (rq_subscription a)" "sb_state (stored_row a d h) = Sub_active"
  by (simp_all add: sub_key_def stored_row_def id_key_def)

lemma persist_Inr:
  assumes "live_inv L" and "persistLiveSubscription sha256 a d L = Inr (response, L')"
  obtains (replayed) row where "subscription_of (id_key (rq_subscription a)) L = Some row" "sb_state row = Sub_active"
      "sameSubscriptionIdentity row (rq_subscription a)" "sb_payload_hash row = Some (subscriptionPayloadHash sha256 a d)"
      "response = Sub_ok (rq_subscription a) (clock_of L)" "L' = L"
    | (refused) "subscription_of (id_key (rq_subscription a)) L = None" "response = Sub_absent (rq_subscription a) subscriptionCapacityExceeded" "L' = L"
    | (added) "subscription_of (id_key (rq_subscription a)) L = None" "length (subscriptions L) < CDB_MAX_LIVE_REGISTRATION_ROWS"
      "length (active_rows L) < CDB_MAX_ACTIVE_LIVE_REGISTRATIONS"
      "subscription_check (stored_row a d (subscriptionPayloadHash sha256 a d))"
      "response = Sub_ok (rq_subscription a) (clock_of L)" "L' = registered_in sha256 a d L"
proof (cases "subscription_of (id_key (rq_subscription a)) L")
  case None
  have clock: "currentChangeSeq (registered_in sha256 a d L) = Inr (clock_of L)"
    using live_invD(6) [OF assms(1)] by (simp add: registered_in_def currentChangeSeq_def)
  show ?thesis
    using assms(2) None clock
    by (auto simp: persistLiveSubscription_def subscription_of_def Let_def durableRowCount_def result_simps insert_tables_Inr registered_in_def
        split: if_splits intro: that(2,3) [unfolded subscription_of_def registered_in_def])
next
  case (Some row)
  have "sb_state row = Sub_active" if "sb_state row \<noteq> Sub_retired" using that by (cases "sb_state row") auto
  then show ?thesis
    using assms(2) Some live_invD(6) [OF assms(1)]
    by (auto simp: persistLiveSubscription_def subscription_of_def Let_def result_simps intro: that(1) [unfolded subscription_of_def])
qed

lemma registered_in_inv:
  assumes "live_inv L" and "subscription_of (id_key (rq_subscription a)) L = None" and "length (subscriptions L) < CDB_MAX_LIVE_REGISTRATION_ROWS"
    and "length (active_rows L) < CDB_MAX_ACTIVE_LIVE_REGISTRATIONS" and "subscription_check (stored_row a d (subscriptionPayloadHash sha256 a d))"
  shows "live_inv (registered_in sha256 a d L)"
proof -
  let ?L' = "registered_in sha256 a d L" and ?k = "id_key (rq_subscription a)"
  have fresh: "\<forall>r \<in> set (subscriptions L). sub_key r \<noteq> ?k" using assms(2) by (auto simp: subscription_of_def sql_one_None_iff)
  then have no: "\<not> active_key L ?k" by (auto simp: active_key_def)
  have act: "active_key ?L' k \<longleftrightarrow> k = ?k \<or> active_key L k" for k by (auto simp: active_key_def registered_in_def)
  have "registry_inv ?L'"
    using assms(1,3,4,5) fresh by (auto simp: live_inv_def registry_inv_def registered_in_def active_rows_def)
  moreover have "owned_inv ?L'"
  proof -
    note I = assms(1) [unfolded live_inv_def owned_inv_def]
    have new: "(?k, n) \<notin> table_key ` set (subscription_tables L)" for n using I no by (auto simp: table_key_def)
    have "table_key ` set (subscription_tables L) \<inter> Pair ?k ` X = {}" for X
    proof (rule equals0I)
      fix y assume y: "y \<in> table_key ` set (subscription_tables L) \<inter> Pair ?k ` X"
      then obtain n where "y = (?k, n)" by blast
      then show False using new [of n] IntD1 [OF y] by simp
    qed
    moreover have "map table_key (subscription_tables ?L') = map table_key (subscription_tables L) @ map (Pair ?k) (sort (remdups (rq_tables a)))"
      by (simp add: registered_in_def)
    moreover have "distinct (map (Pair ?k) (sort (remdups (rq_tables a))))" by (simp add: distinct_map inj_on_def)
    ultimately have "distinct (map table_key (subscription_tables ?L'))" using I by simp
    moreover have "active_key ?L' (table_owner m)" if "m \<in> set (subscription_tables ?L')" for m
      using that I act by (auto simp: registered_in_def)
    moreover have "subscription_vectors ?L' = subscription_vectors L" by (simp add: registered_in_def)
    ultimately show ?thesis using I act unfolding owned_inv_def by auto
  qed
  moreover have "outbox_inv ?L'" using assms(1) act by (simp add: live_inv_def outbox_inv_def registered_in_def)
  ultimately show ?thesis by (simp add: live_inv_def)
qed

lemma persist_keeps:
  assumes "live_inv L" and "persistLiveSubscription sha256 a d L = Inr (response, L')"
  shows "live_inv L'" "outbox L' = outbox L" "change_clock L' = change_clock L" "subscription_vectors L' = subscription_vectors L"
    "active_key L k \<Longrightarrow> active_key L' k" "response = Sub_ok i seq \<Longrightarrow> active_key L' (id_key (rq_subscription a)) \<and> i = rq_subscription a \<and> seq = clock_of L"
proof -
  have "live_inv L' \<and> outbox L' = outbox L \<and> change_clock L' = change_clock L \<and> subscription_vectors L' = subscription_vectors L \<and>
    (\<forall>k. active_key L k \<longrightarrow> active_key L' k) \<and>
    (\<forall>i seq. response = Sub_ok i seq \<longrightarrow> active_key L' (id_key (rq_subscription a)) \<and> i = rq_subscription a \<and> seq = clock_of L)"
    using assms
  proof (cases rule: persist_Inr)
    case (replayed row)
    then have "active_key L (id_key (rq_subscription a))" by (auto simp: subscription_of_def active_key_def dest: sql_one_SomeD)
    then show ?thesis using replayed assms(1) by simp
  next
    case refused
    then show ?thesis using assms(1) by simp
  next
    case added
    then show ?thesis using registered_in_inv [OF assms(1) added(1-4)] by (auto simp: registered_in_def active_key_def)
  qed
  then show "live_inv L'" "outbox L' = outbox L" "change_clock L' = change_clock L" "subscription_vectors L' = subscription_vectors L"
    "active_key L k \<Longrightarrow> active_key L' k" "response = Sub_ok i seq \<Longrightarrow> active_key L' (id_key (rq_subscription a)) \<and> i = rq_subscription a \<and> seq = clock_of L"
    by blast+
qed

lemma vectorResourceId_Inr: "vectorResourceId v = Inr w \<Longrightarrow> w = v \<and> length v = 68"
proof -
  assume v: "vectorResourceId v = Inr w"
  then have "w = v" "take 4 v = ''vr1_''" "length (drop 4 v) = 64" by (auto simp: vectorResourceId_def hex_digest_def split: if_splits)
  moreover have "length (take 4 v) = 4" using calculation(2) by simp
  ultimately show ?thesis by simp
qed

lemma bind_vector_keeps:
  assumes "live_inv L" and "active_key L (id_key (rq_subscription a))" and "bind_vector a v L = Inr L'" and "vectorResourceId v = Inr v"
  shows "live_inv L' \<and> outbox L' = outbox L \<and> change_clock L' = change_clock L"
proof (cases "sql_one (\<lambda>m. vector_owner m = id_key (rq_subscription a)) (subscription_vectors L)")
  case (Some m)
  then show ?thesis using assms(1,3) by (auto simp: bind_vector_def split: if_splits)
next
  case None
  let ?m = "\<lparr> lx_gateway_id = li_gatewayId (rq_subscription a), lx_registration_id = li_registrationId (rq_subscription a), lx_resource_id = v \<rparr>"
  have o: "vector_owner ?m = id_key (rq_subscription a)" by (simp add: vector_owner_def id_key_def)
  have L': "L' = L\<lparr>subscription_vectors := subscription_vectors L @ [?m]\<rparr>"
    using assms(3) None by (auto simp: bind_vector_def child_insert_def result_simps split: if_splits)
  have act: "active_key L' k \<longleftrightarrow> active_key L k" for k by (simp add: L' active_key_def)
  have "owned_inv L'"
    using assms(1,2,4) None o unfolding owned_inv_def act
    by (auto simp: L' live_inv_def owned_inv_def sql_one_None_iff)
  moreover have "registry_inv L'" "outbox_inv L'"
    using assms(1) act by (simp_all add: L' live_inv_def registry_inv_def outbox_inv_def active_rows_def)
  ultimately show ?thesis by (simp add: live_inv_def L')
qed

lemma persist_vector_keeps:
  assumes "live_inv L" and "persistLiveSubscriptionWithVectorDependency sha256 a d v L = Inr (response, L')"
  shows "live_inv L'" "outbox L' = outbox L" "change_clock L' = change_clock L"
proof -
  obtain w r L1 where v: "vectorResourceId v = Inr w" and r: "persistLiveSubscription sha256 a d L = Inr (r, L1)"
    and rest: "(case r of Sub_absent _ _ \<Rightarrow> Inr (r, L1) | Sub_ok _ _ \<Rightarrow> rbind (bind_vector a w L1) (\<lambda>L2. Inr (r, L2))) = Inr (response, L')"
    using assms(2) unfolding persistLiveSubscriptionWithVectorDependency_def rbind_eq_Inr by fastforce
  have "r = response" using rest by (cases r) (auto simp: result_simps)
  then have L1: "persistLiveSubscription sha256 a d L = Inr (response, L1)"
    and rest: "(case response of Sub_absent _ _ \<Rightarrow> Inr L1 | Sub_ok _ _ \<Rightarrow> bind_vector a w L1) = Inr L'"
    using r rest by (cases r; auto simp: result_simps)+
  note K = persist_keeps [OF assms(1) L1]
  have w: "vectorResourceId w = Inr w" using v vectorResourceId_Inr [OF v] by simp
  have "live_inv L' \<and> outbox L' = outbox L1 \<and> change_clock L' = change_clock L1"
  proof (cases response)
    case (Sub_ok i seq)
    then show ?thesis using rest bind_vector_keeps [OF K(1) _ _ w, of a L'] K(6) [OF Sub_ok] by simp
  next
    case Sub_absent
    then show ?thesis using rest K(1) by simp
  qed
  then show "live_inv L'" "outbox L' = outbox L" "change_clock L' = change_clock L" using K(2,3) by simp_all
qed

section \<open>Retiring\<close>

lemma retired_row_simps [simp]:
  "sub_key (retired_row r) = sub_key r" "sb_state (retired_row r) = Sub_retired" "subscription_check (retired_row r)"
  "row_identity_bytes (retired_row r) = row_identity_bytes r"
  by (simp_all add: retired_row_def sub_key_def subscription_check_def all_absent_def present_when_def row_identity_bytes_def)

lemma tombstone_simps [simp]:
  "sub_key (tombstone i) = id_key i" "sb_state (tombstone i) = Sub_retired" "subscription_check (tombstone i)"
  "row_identity_bytes (tombstone i) = subscriptionIdentityBytes i"
  by (simp_all add: tombstone_def sub_key_def id_key_def subscription_check_def all_absent_def present_when_def row_identity_bytes_def
      subscriptionIdentityBytes_def)

lemma delete_children_simps [simp]:
  "subscriptions (delete_children p L) = subscriptions L" "change_clock (delete_children p L) = change_clock L"
  "active_rows (delete_children p L) = active_rows L" "active_key (delete_children p L) k = active_key L k"
  by (simp_all add: delete_children_def active_rows_def active_key_def)

lemma sql_one_delete_key:
  "sql_one (\<lambda>r. key r = k) (sql_delete (\<lambda>r. p (key r)) t) = (if p k then None else sql_one (\<lambda>r. key r = k) t)"
  by (induction t) (auto simp: sql_one_def sql_delete_def)

lemma outbox_entry_delete_children: "outbox_entry k (delete_children p L) = (if p k then None else outbox_entry k L)"
  by (simp add: outbox_entry_def delete_children_def sql_one_delete_key)

lemma delete_children_id: "(\<And>k. active_key L k \<Longrightarrow> \<not> p k) \<Longrightarrow> live_inv L \<Longrightarrow> delete_children p L = L"
proof -
  assume p: "\<And>k. active_key L k \<Longrightarrow> \<not> p k" and inv: "live_inv L"
  have "sql_delete (\<lambda>m. p (table_owner m)) (subscription_tables L) = subscription_tables L"
    "sql_delete (\<lambda>m. p (vector_owner m)) (subscription_vectors L) = subscription_vectors L"
    "sql_delete (\<lambda>r. p (outbox_key r)) (outbox L) = outbox L"
    using inv p by (auto simp: sql_delete_def live_inv_def owned_inv_def outbox_inv_def intro!: filter_True)
  then show ?thesis by (simp add: delete_children_def)
qed

text \<open>Deleting the children of registrations keeps the invariant of the children when only those registrations stop being active.\<close>

lemma delete_children_inv:
  assumes "live_inv L" and "registry_inv L1" and "\<And>k. active_key L k \<Longrightarrow> \<not> p k \<Longrightarrow> active_key L1 k"
    and "L1 = L\<lparr>subscriptions := t\<rparr>"
  shows "live_inv (delete_children p L1)"
proof -
  have "registry_inv (delete_children p L1)" using assms(2) by (simp add: registry_inv_def)
  moreover have "owned_inv (delete_children p L1)"
  proof -
    have o: "owned_inv L" using assms(1) by (simp add: live_inv_def)
    then have "distinct (map table_key (subscription_tables (delete_children p L1)))" "distinct (map vector_owner (subscription_vectors (delete_children p L1)))"
      by (simp_all add: owned_inv_def delete_children_def assms(4) distinct_keys_sql_delete)
    moreover have "active_key L1 (table_owner m)" if "m \<in> set (subscription_tables (delete_children p L1))" for m
      using that o assms(3) by (auto simp: delete_children_def assms(4) table_simps owned_inv_def)
    moreover have "active_key L1 (vector_owner m) \<and> vectorResourceId (lx_resource_id m) = Inr (lx_resource_id m)"
      if "m \<in> set (subscription_vectors (delete_children p L1))" for m
      using that o assms(3) by (auto simp: delete_children_def assms(4) table_simps owned_inv_def)
    ultimately show ?thesis by (simp add: owned_inv_def)
  qed
  moreover have "outbox_inv (delete_children p L1)"
  proof -
    have o: "outbox_inv L" using assms(1) by (simp add: live_inv_def)
    then have "distinct (map outbox_key (outbox (delete_children p L1)))"
      by (simp add: outbox_inv_def delete_children_def assms(4) distinct_keys_sql_delete)
    moreover have "outbox_check r \<and> active_key L1 (outbox_key r) \<and> ob_change_seq r \<le> clock_of L" if "r \<in> set (outbox (delete_children p L1))" for r
      using that live_inv_entry [OF assms(1)] assms(3) by (auto simp: delete_children_def assms(4) table_simps)
    moreover have "change_clock (delete_children p L1) = Some (clock_of L)" using live_invD(3) [OF assms(1)] by (simp add: assms(4))
    ultimately show ?thesis using live_invD(4,5) [OF assms(1)] by (auto simp: outbox_inv_def safe_integer_def MAX_CHANGE_SEQ_def)
  qed
  ultimately show ?thesis by (simp add: live_inv_def)
qed

lemma sum_list_sql_update:
  fixes w :: "'r \<Rightarrow> int"
  assumes "distinct (map key t)" and "sql_one (\<lambda>r. key r = k) t = Some r0"
  shows "sum_list (map w (sql_update (\<lambda>r. key r = k) f t)) = sum_list (map w t) - w r0 + w (f r0)"
  using assms
proof (induction t)
  case Nil
  then show ?case by (simp add: sql_one_def)
next
  case (Cons r t)
  show ?case
  proof (cases "key r = k")
    case True
    then have "\<forall>s \<in> set t. key s \<noteq> k" using Cons.prems(1) by (metis distinct.simps(2) image_eqI list.simps(9) set_map)
    then have "sql_update (\<lambda>r. key r = k) f t = t" by simp
    then show ?thesis using True Cons.prems(2) by (simp add: sql_one_def sql_update_def)
  next
    case False
    then show ?thesis using Cons by (simp add: sql_one_def sql_update_def)
  qed
qed

definition retired_bytes :: "live_tables \<Rightarrow> int" where
  "retired_bytes L = sum_list (map row_identity_bytes (filter (\<lambda>r. sb_state r = Sub_retired) (subscriptions L)))"

lemma retired_bytes_alt: "retired_bytes L = sum_list (map (\<lambda>r. if sb_state r = Sub_retired then row_identity_bytes r else 0) (subscriptions L))"
  by (simp add: retired_bytes_def sum_list_map_filter')

lemma same_identity_bytes: "sameSubscriptionIdentity r i \<Longrightarrow> row_identity_bytes r = subscriptionIdentityBytes i"
  by (simp add: sameSubscriptionIdentity_def row_identity_bytes_def subscriptionIdentityBytes_def)

lemma length_filter_sql_update: "(\<And>r. p (f r) \<Longrightarrow> p r) \<Longrightarrow> length (filter p (sql_update q f t)) \<le> length (filter p t)"
proof (induction t)
  case (Cons r t)
  show ?case using Cons.IH [OF Cons.prems] Cons.prems [of r] by (simp add: sql_update_def le_SucI)
qed (simp add: sql_update_def)

lemma retire_Inr:
  assumes "live_inv L" and "retireLiveSubscription i L = Inr L'"
  obtains t where "L' = delete_children (\<lambda>k. k = id_key i) (L\<lparr>subscriptions := t\<rparr>)" "registry_inv (L\<lparr>subscriptions := t\<rparr>)"
    "\<And>k. active_key L k \<Longrightarrow> k \<noteq> id_key i \<Longrightarrow> active_key (L\<lparr>subscriptions := t\<rparr>) k"
    "\<exists>r \<in> set t. sameSubscriptionIdentity r i \<and> sb_state r = Sub_retired"
proof (cases "sql_one (\<lambda>r. sub_key r = id_key i) (subscriptions L)")
  case None
  let ?t = "subscriptions L @ [tombstone i]"
  have "L' = delete_children (\<lambda>k. k = id_key i) (L\<lparr>subscriptions := ?t\<rparr>)" "length (subscriptions L) < CDB_MAX_LIVE_REGISTRATION_ROWS"
      "retired_bytes L + subscriptionIdentityBytes i \<le> CDB_MAX_RETIRED_TOMBSTONE_BYTES"
    using assms(2) None by (auto simp: retireLiveSubscription_def Let_def durableRowCount_def retiredTombstoneBytes_def retired_bytes_def result_simps
        split: if_splits)
  moreover have "registry_inv (L\<lparr>subscriptions := ?t\<rparr>)"
    using assms(1) None calculation(2,3)
    by (auto simp: live_inv_def registry_inv_def active_rows_def retired_bytes_def sql_one_None_iff)
  moreover have "sameSubscriptionIdentity (tombstone i) i" by (simp add: sameSubscriptionIdentity_def tombstone_def)
  ultimately show ?thesis by (intro that [of ?t]) (auto simp: active_key_def)
next
  case (Some r0)
  let ?t = "sql_update (\<lambda>r. sub_key r = id_key i) retired_row (subscriptions L)"
  have r0: "r0 \<in> set (subscriptions L)" "sub_key r0 = id_key i" using sql_one_SomeD [OF Some] by simp_all
  have d: "distinct (map sub_key (subscriptions L))" by (rule live_invD(1) [OF assms(1)])
  have L': "L' = delete_children (\<lambda>k. k = id_key i) (L\<lparr>subscriptions := ?t\<rparr>)" and same: "sameSubscriptionIdentity r0 i"
    and room: "sb_state r0 = Sub_active \<Longrightarrow> retired_bytes L + subscriptionIdentityBytes i \<le> CDB_MAX_RETIRED_TOMBSTONE_BYTES"
    using assms(2) Some by (auto simp: retireLiveSubscription_def Let_def retiredTombstoneBytes_def retired_bytes_def result_simps
        split: if_splits)
  have "retired_bytes (L\<lparr>subscriptions := ?t\<rparr>) = retired_bytes L + (if sb_state r0 = Sub_retired then 0 else row_identity_bytes r0)"
    using sum_list_sql_update [OF d Some, of "\<lambda>r. if sb_state r = Sub_retired then row_identity_bytes r else 0" retired_row]
    by (simp add: retired_bytes_alt)
  then have "retired_bytes (L\<lparr>subscriptions := ?t\<rparr>) \<le> CDB_MAX_RETIRED_TOMBSTONE_BYTES"
    using room same_identity_bytes [OF same] assms(1) by (cases "sb_state r0") (auto simp: live_inv_def registry_inv_def retired_bytes_def)
  moreover have "length (active_rows (L\<lparr>subscriptions := ?t\<rparr>)) \<le> length (active_rows L)"
    unfolding active_rows_def by simp (rule length_filter_sql_update, simp)
  moreover have "distinct (map sub_key ?t)" by (rule distinct_keys_sql_update [OF d]) simp
  ultimately have "registry_inv (L\<lparr>subscriptions := ?t\<rparr>)"
    using assms(1) by (auto simp: live_inv_def registry_inv_def retired_bytes_def table_simps)
  moreover have "sameSubscriptionIdentity (retired_row r0) i" using same by (simp add: sameSubscriptionIdentity_def retired_row_def)
  then have "\<exists>r \<in> set ?t. sameSubscriptionIdentity r i \<and> sb_state r = Sub_retired" using r0 by (force simp: table_simps)
  moreover have "active_key (L\<lparr>subscriptions := ?t\<rparr>) k" if "active_key L k" "k \<noteq> id_key i" for k
    using that by (auto simp: active_key_def table_simps)
  ultimately show ?thesis using L' by (intro that [of ?t])
qed

lemma retire_keeps:
  assumes "live_inv L" and "retireLiveSubscription i L = Inr L'"
  shows "live_inv L'" "change_clock L' = change_clock L" "outbox_entry k L' = (if k = id_key i then None else outbox_entry k L)"
    "\<exists>r. subscription_of (id_key i) L' = Some r \<and> sb_state r = Sub_retired \<and> sameSubscriptionIdentity r i"
proof -
  obtain t where t: "L' = delete_children (\<lambda>k. k = id_key i) (L\<lparr>subscriptions := t\<rparr>)" "registry_inv (L\<lparr>subscriptions := t\<rparr>)"
    "\<And>k. active_key L k \<Longrightarrow> k \<noteq> id_key i \<Longrightarrow> active_key (L\<lparr>subscriptions := t\<rparr>) k"
    "\<exists>r \<in> set t. sameSubscriptionIdentity r i \<and> sb_state r = Sub_retired"
    using retire_Inr [OF assms] by metis
  show inv: "live_inv L'" unfolding t(1) by (rule delete_children_inv [OF assms(1) t(2) _ refl]) (rule t(3))
  show "change_clock L' = change_clock L" by (simp add: t(1))
  show "outbox_entry k L' = (if k = id_key i then None else outbox_entry k L)"
    unfolding t(1) outbox_entry_delete_children by (simp add: outbox_entry_def)
  obtain r where r: "r \<in> set t" "sameSubscriptionIdentity r i" "sb_state r = Sub_retired" using t(4) by blast
  moreover have "sub_key r = id_key i" using r(2) by (simp add: sameSubscriptionIdentity_def sub_key_def id_key_def)
  moreover have "subscriptions L' = t" by (simp add: t(1))
  ultimately show "\<exists>r. subscription_of (id_key i) L' = Some r \<and> sb_state r = Sub_retired \<and> sameSubscriptionIdentity r i"
    using subscription_of_iff [OF live_invD(1) [OF inv]] by auto
qed

end
