(* ===== verification/Live_Delivery.thy ===== *)
theory Live_Delivery
  imports Live_Registry
begin

text \<open>
  The rest of the live store: finalisation, upgrades, promotion after a recovery, delivery. The theory ends with the step
  relation of the store, the interpretation of \<open>change_queue\<close> on it, and the properties.
\<close>

lemma sum_list_filter_le: "(\<And>x. x \<in> set xs \<Longrightarrow> (0::int) \<le> f x) \<Longrightarrow> sum_list (map f (filter p xs)) \<le> sum_list (map f xs)"
proof (induction xs)
  case (Cons x xs)
  then show ?case using Cons.prems [of x] by (cases "p x") (simp_all add: add_increasing)
qed simp

lemma retired_not_active:
  assumes "live_inv L" and "r \<in> set (subscriptions L)" and "sb_state r = Sub_retired"
  shows "\<not> active_key L (sub_key r)"
  using unique_key_row [OF live_invD(1) [OF assms(1)]] assms(2,3) by (fastforce simp: active_key_def)

lemma finalize_Inr:
  assumes "live_inv L" and "finalizeRetiredLiveSubscription i L = Inr L'"
  shows "live_inv L' \<and> change_clock L' = change_clock L \<and> outbox L' = outbox L \<and> \<not> active_key L (id_key i) \<and> subscription_of (id_key i) L' = None"
proof (cases "sql_one (\<lambda>r. sub_key r = id_key i) (subscriptions L)")
  case None
  then have "L' = L" using assms(2) by (simp add: finalizeRetiredLiveSubscription_def)
  then show ?thesis using assms(1) None by (auto simp: active_key_def sql_one_None_iff subscription_of_def)
next
  case (Some r0)
  let ?p = "\<lambda>r. sameSubscriptionIdentity r i \<and> sb_state r = Sub_retired"
  let ?L1 = "L\<lparr>subscriptions := sql_delete ?p (subscriptions L)\<rparr>"
  have r0: "r0 \<in> set (subscriptions L)" "sub_key r0 = id_key i" using sql_one_SomeD [OF Some] by simp_all
  have same: "sameSubscriptionIdentity r0 i" "sb_state r0 = Sub_retired" and L': "L' = delete_children (\<lambda>k. k = id_key i) ?L1"
    using assms(2) Some by (auto simp: finalizeRetiredLiveSubscription_def result_simps Let_def)
  have no: "\<not> active_key L (id_key i)" using retired_not_active [OF assms(1) r0(1) same(2)] r0(2) by simp
  have key: "sub_key r = id_key i" if "?p r" for r using that by (simp add: sameSubscriptionIdentity_def sub_key_def id_key_def)
  have act: "active_key ?L1 k" if "active_key L k" for k using that by (auto simp: active_key_def table_simps)
  have "active_rows ?L1 = active_rows L" by (auto simp: active_rows_def sql_delete_def intro: filter_cong)
  moreover have "retired_bytes ?L1 \<le> retired_bytes L"
  proof -
    have eq: "filter (\<lambda>r. sb_state r = Sub_retired) (sql_delete ?p (subscriptions L)) =
        filter (\<lambda>r. \<not> ?p r) (filter (\<lambda>r. sb_state r = Sub_retired) (subscriptions L))"
      unfolding sql_delete_def filter_filter by (rule filter_cong) auto
    have "sum_list (map row_identity_bytes (filter (\<lambda>r. \<not> ?p r) (filter (\<lambda>r. sb_state r = Sub_retired) (subscriptions L)))) \<le> retired_bytes L"
      unfolding retired_bytes_def by (rule sum_list_filter_le) (simp add: row_identity_bytes_def)
    then show ?thesis unfolding eq [symmetric] by (simp add: retired_bytes_def)
  qed
  moreover have "length (sql_delete ?p (subscriptions L)) \<le> length (subscriptions L)" by (simp add: sql_delete_def)
  moreover have "distinct (map sub_key (sql_delete ?p (subscriptions L)))" by (rule distinct_keys_sql_delete [OF live_invD(1) [OF assms(1)]])
  ultimately have reg: "registry_inv ?L1" using assms(1) by (auto simp: live_inv_def registry_inv_def retired_bytes_def table_simps)
  have inv: "live_inv L'" unfolding L' by (rule delete_children_inv [OF assms(1) reg _ refl]) (rule act)
  have "\<forall>r \<in> set (outbox L). outbox_key r \<noteq> id_key i" using live_inv_entry(2) [OF assms(1)] no by metis
  then have "outbox L' = outbox L" by (simp add: L' delete_children_def sql_delete_def)
  moreover have "r = r0" if "r \<in> set (subscriptions L)" "sub_key r = id_key i" for r
    using unique_key_row [OF live_invD(1) [OF assms(1)] that(1) r0(1)] that(2) r0(2) by simp
  then have "subscription_of (id_key i) L' = None"
    using same by (auto simp: subscription_of_def sql_one_None_iff L' table_simps)
  ultimately show ?thesis using inv no by (simp add: L')
qed

text \<open>On tables of the current definition the upgrade functions change nothing.\<close>

lemma active_given: "live_inv L \<Longrightarrow> r \<in> set (subscriptions L) \<Longrightarrow> sb_state r = Sub_active \<Longrightarrow> all_given r"
  by (fastforce simp: live_inv_def registry_inv_def subscription_check_def)

lemma legacy_id:
  assumes "live_inv L"
  shows "retireLegacyLiveSubscriptions L = L"
proof -
  have "\<not> legacy_row r" if "r \<in> set (subscriptions L)" for r
    using active_given [OF assms that] by (auto simp: legacy_row_def all_given_def)
  then have "sql_update legacy_row retired_row (subscriptions L) = subscriptions L" by simp
  moreover have "\<not> retired_key L k" if "active_key L k" for k using that retired_not_active [OF assms] by (auto simp: retired_key_def)
  ultimately show ?thesis using delete_children_id [OF _ assms, of "retired_key L"] by (simp add: retireLegacyLiveSubscriptions_def Let_def)
qed

lemma backfill_id:
  assumes "live_inv L"
  shows "backfillLegacyRecoveryGeneration sha256 L = L"
proof -
  have "backfill_row sha256 r = r" if "r \<in> set (subscriptions L)" for r
    using active_given [OF assms that] by (auto simp: backfill_row_def all_given_def)
  then have "map (backfill_row sha256) (subscriptions L) = subscriptions L" by (simp add: map_idI)
  then show ?thesis by (simp add: backfillLegacyRecoveryGeneration_def)
qed

lemma update_active_inv:
  assumes "live_inv L" and "\<And>r. sub_key (f r) = sub_key r \<and> sb_state (f r) = sb_state r" and "\<And>r. p r \<Longrightarrow> sb_state r = Sub_active"
    and "\<forall>r \<in> set (subscriptions L). p r \<longrightarrow> subscription_check (f r)"
  shows "live_inv (L\<lparr>subscriptions := sql_update p f (subscriptions L)\<rparr>)"
proof -
  let ?L' = "L\<lparr>subscriptions := sql_update p f (subscriptions L)\<rparr>"
  have key: "active_key M k \<longleftrightarrow> (k, Sub_active) \<in> set (map (\<lambda>r. (sub_key r, sb_state r)) (subscriptions M))" for M k
    by (auto simp: active_key_def)
  have "map (\<lambda>r. (sub_key r, sb_state r)) (sql_update p f (subscriptions L)) = map (\<lambda>r. (sub_key r, sb_state r)) (subscriptions L)"
    using assms(2) by (simp add: sql_update_def)
  then have act: "active_key ?L' k \<longleftrightarrow> active_key L k" for k unfolding key by simp
  have "filter (\<lambda>r. sb_state r = Sub_retired) (sql_update p f t) = filter (\<lambda>r. sb_state r = Sub_retired) t" for t
    using assms(2,3) by (induction t) (auto simp: sql_update_def)
  moreover have "length (filter (\<lambda>r. sb_state r = Sub_active) (sql_update p f t)) = length (filter (\<lambda>r. sb_state r = Sub_active) t)" for t
    using assms(2) by (induction t) (auto simp: sql_update_def)
  moreover have "distinct (map sub_key (sql_update p f (subscriptions L)))"
    using assms(2) by (intro distinct_keys_sql_update live_invD(1) [OF assms(1)]) simp
  ultimately have "registry_inv ?L'"
    using assms(1,4) by (auto simp: live_inv_def registry_inv_def active_rows_def table_simps)
  then show ?thesis using assms(1) act by (simp add: live_inv_def owned_inv_def outbox_inv_def)
qed

lemma promote_keeps:
  assumes "live_inv L" and "promoteLiveSubscriptionRecoveryGeneration sha256 row g L = Inr L'"
  shows "live_inv L' \<and> outbox L' = outbox L \<and> change_clock L' = change_clock L"
proof -
  consider "L' = L" | p f where "L' = L\<lparr>subscriptions := sql_update p f (subscriptions L)\<rparr>"
      "\<And>r. sub_key (f r) = sub_key r \<and> sb_state (f r) = sb_state r" "\<And>r. p r \<Longrightarrow> sb_state r = Sub_active"
      "\<forall>r \<in> set (subscriptions L). p r \<longrightarrow> subscription_check (f r)"
  proof -
    obtain h d where h: "sb_recovery_generation row = Some h" "sb_policy_digest row = Some d"
      using assms(2) by (auto simp: promoteLiveSubscriptionRecoveryGeneration_def split: option.splits)
    show thesis
    proof (cases "h = g")
      case True
      then show thesis using assms(2) h that(1) by (auto simp: promoteLiveSubscriptionRecoveryGeneration_def result_simps)
    next
      case False
      let ?p = "\<lambda>r. sub_key r = sub_key row \<and> sb_state r = Sub_active \<and> sb_recovery_generation r = Some h \<and>
          sb_payload_hash r = sb_payload_hash row \<and> sb_payload_hash row \<noteq> None"
      let ?f = "\<lambda>q r. r\<lparr>sb_recovery_generation := Some g, sb_payload_hash := Some (subscriptionPayloadHash sha256 (q\<lparr>rq_recoveryGeneration := g\<rparr>) d)\<rparr>"
      obtain q where "\<forall>r \<in> set (subscriptions L). ?p r \<longrightarrow> subscription_check (?f q r)"
          "L' = L\<lparr>subscriptions := sql_update ?p (?f q) (subscriptions L)\<rparr>"
        using assms(2) h False unfolding promoteLiveSubscriptionRecoveryGeneration_def
        by (simp add: Let_def rbind_eq_Inr ensure_eq_Inr sql_update_checked_Inr del: sql_update_id) blast
      then show thesis by (intro that(2) [of ?p "?f q"]) (simp_all add: sub_key_def)
    qed
  qed
  then show ?thesis
  proof cases
    case 1
    then show ?thesis using assms(1) by simp
  next
    case 2
    then show ?thesis using update_active_inv [OF assms(1), of f p] by simp
  qed
qed

section \<open>Delivering\<close>

definition queued :: "live_tables \<Rightarrow> reg_key \<Rightarrow> int option" where
  "queued L k = map_option ob_change_seq (outbox_entry k L)"

lemma outbox_update_inv:
  assumes "live_inv L" and "\<And>r. outbox_key (f r) = outbox_key r \<and> ob_change_seq (f r) = ob_change_seq r"
    and "\<forall>r \<in> set (outbox L). p r \<longrightarrow> outbox_check (f r)"
  shows "live_inv (L\<lparr>outbox := sql_update p f (outbox L)\<rparr>) \<and> queued (L\<lparr>outbox := sql_update p f (outbox L)\<rparr>) = queued L"
proof -
  let ?L' = "L\<lparr>outbox := sql_update p f (outbox L)\<rparr>"
  have d: "distinct (map outbox_key (sql_update p f (outbox L)))"
    using assms(2) by (intro distinct_keys_sql_update live_invD(2) [OF assms(1)]) simp
  have "active_key ?L' k = active_key L k" for k by (simp add: active_key_def)
  then have "outbox_inv ?L'"
    using d assms(2,3) assms(1) [unfolded live_inv_def outbox_inv_def] by (auto simp: outbox_inv_def table_simps)
  moreover have "registry_inv ?L'" "owned_inv ?L'"
    using assms(1) by (simp_all add: live_inv_def registry_inv_def owned_inv_def active_rows_def active_key_def)
  moreover have "map_option ob_change_seq (sql_one (\<lambda>r. outbox_key r = k) (sql_update p f t)) = map_option ob_change_seq (sql_one (\<lambda>r. outbox_key r = k) t)" for k t
    using assms(2) by (induction t) (auto simp: sql_one_def sql_update_def)
  then have "queued ?L' = queued L" by (simp add: queued_def outbox_entry_def fun_eq_iff)
  ultimately show ?thesis by (simp add: live_inv_def)
qed

lemma failed_entry_simps [simp]:
  "outbox_key (failed_entry now m row r) = outbox_key r" "ob_change_seq (failed_entry now m row r) = ob_change_seq r"
  by (simp_all add: failed_entry_def Let_def outbox_key_def)

lemma failures_keep:
  assumes "live_inv L" and "recordInvalidationFailures rows now m L = Inr L'"
  shows "live_inv L' \<and> queued L' = queued L \<and> change_clock L' = change_clock L"
  using assms(2) unfolding recordInvalidationFailures_def
proof (rule rfold_invariant)
  show "live_inv L \<and> queued L = queued L \<and> change_clock L = change_clock L" using assms(1) by simp
next
  fix row t t'
  assume t: "live_inv t \<and> queued t = queued L \<and> change_clock t = change_clock L" and run: "record_failure now m row t = Inr t'"
  let ?p = "\<lambda>r. outbox_key r = (ob_gateway_id row, ob_registration_id row) \<and> ob_change_seq r = ob_change_seq row"
  have "t' = t\<lparr>outbox := sql_update ?p (failed_entry now m row) (outbox t)\<rparr>" "\<forall>r \<in> set (outbox t). ?p r \<longrightarrow> outbox_check (failed_entry now m row r)"
    using run by (auto simp: record_failure_def result_simps)
  then show "live_inv t' \<and> queued t' = queued L \<and> change_clock t' = change_clock L"
    using t outbox_update_inv [of t "failed_entry now m row" ?p] by simp
qed

lemma outbox_delete_inv:
  assumes "live_inv L"
  shows "live_inv (L\<lparr>outbox := sql_delete p (outbox L)\<rparr>)"
proof -
  let ?L' = "L\<lparr>outbox := sql_delete p (outbox L)\<rparr>"
  have "active_key ?L' k = active_key L k" for k by (simp add: active_key_def)
  then have "outbox_inv ?L'"
    using assms by (auto simp: live_inv_def outbox_inv_def table_simps distinct_keys_sql_delete)
  moreover have "registry_inv ?L'" "owned_inv ?L'"
    using assms by (simp_all add: live_inv_def registry_inv_def owned_inv_def active_rows_def active_key_def)
  ultimately show ?thesis by (simp add: live_inv_def)
qed

definition ack_pairs :: "string \<Rightarrow> GatewayInvalidationAck list \<Rightarrow> (reg_key \<times> int) set" where
  "ack_pairs gatewayId acks = (\<lambda>a. ((gatewayId, ga_registrationId a), ga_changeSeq a)) ` set acks"

lemma acknowledge_eq:
  "acknowledgeInvalidations g acks L = L\<lparr>outbox := sql_delete (\<lambda>r. (outbox_key r, ob_change_seq r) \<in> ack_pairs g acks) (outbox L)\<rparr>"
proof (induction acks arbitrary: L)
  case Nil
  then show ?case by (simp add: acknowledgeInvalidations_def ack_pairs_def sql_delete_def)
next
  case (Cons a acks)
  have "acknowledgeInvalidations g (a # acks) L = acknowledgeInvalidations g acks (acknowledge_one g a L)" by (simp add: acknowledgeInvalidations_def)
  also have "\<dots> = L\<lparr>outbox := filter (\<lambda>r. (outbox_key r, ob_change_seq r) \<notin> ack_pairs g acks) (outbox (acknowledge_one g a L))\<rparr>"
    by (simp add: Cons.IH acknowledge_one_def sql_delete_def)
  also have "filter (\<lambda>r. (outbox_key r, ob_change_seq r) \<notin> ack_pairs g acks) (outbox (acknowledge_one g a L)) =
      filter (\<lambda>r. (outbox_key r, ob_change_seq r) \<notin> ack_pairs g (a # acks)) (outbox L)"
    unfolding acknowledge_one_def sql_delete_def by (simp add: filter_filter) (rule filter_cong, auto simp: ack_pairs_def outbox_key_def)
  finally show ?case by (simp add: sql_delete_def)
qed

lemma acknowledge_keeps:
  assumes "live_inv L"
  shows "live_inv (acknowledgeInvalidations g acks L)" "change_clock (acknowledgeInvalidations g acks L) = change_clock L"
    "queued (acknowledgeInvalidations g acks L) = apply_event (Acked (ack_pairs g acks)) (queued L)"
proof -
  let ?L' = "acknowledgeInvalidations g acks L"
  show inv: "live_inv ?L'" unfolding acknowledge_eq by (rule outbox_delete_inv [OF assms])
  show "change_clock ?L' = change_clock L" by (simp add: acknowledge_eq)
  have iff: "outbox_entry k ?L' = Some r \<longleftrightarrow> outbox_entry k L = Some r \<and> (k, ob_change_seq r) \<notin> ack_pairs g acks" for k r
    unfolding outbox_entry_iff [OF live_invD(2) [OF inv]] outbox_entry_iff [OF live_invD(2) [OF assms]]
    by (auto simp: acknowledge_eq table_simps)
  have "outbox_entry k ?L' = (case outbox_entry k L of None \<Rightarrow> None | Some r \<Rightarrow> if (k, ob_change_seq r) \<in> ack_pairs g acks then None else Some r)" for k
    using iff [of k "the (outbox_entry k ?L')"] iff [of k "the (outbox_entry k L)"]
    by (cases "outbox_entry k L"; cases "outbox_entry k ?L'") auto
  then show "queued ?L' = apply_event (Acked (ack_pairs g acks)) (queued L)"
    by (auto simp: queued_def fun_eq_iff split: option.splits)
qed

section \<open>The store as a queue of changes\<close>

text \<open>
  One successful call of any function of the store, with any arguments, and what it does to the queue. A call that
  throws leaves the tables as they were.
\<close>

definition change_of :: "reg_key set \<Rightarrow> bool \<Rightarrow> int \<Rightarrow> reg_key change_event" where
  "change_of K always n = (if K = {} \<and> \<not> always then Quiet else Changed K n)"

definition active_subset :: "(StoredSubscriptionRow \<Rightarrow> bool) \<Rightarrow> live_tables \<Rightarrow> reg_key set" where
  "active_subset p L = {k. \<exists>r \<in> set (active_rows L). p r \<and> sub_key r = k}"

inductive live_step :: "live_tables \<Rightarrow> reg_key change_event \<Rightarrow> live_tables \<Rightarrow> bool" where
  step_persist: "persistLiveSubscription sha256 a d L = Inr (response, L') \<Longrightarrow> live_step L Quiet L'"
| step_persist_vector: "persistLiveSubscriptionWithVectorDependency sha256 a d v L = Inr (response, L') \<Longrightarrow> live_step L Quiet L'"
| step_retire: "retireLiveSubscription i L = Inr L' \<Longrightarrow> live_step L (Dropped {id_key i}) L'"
| step_finalize: "finalizeRetiredLiveSubscription i L = Inr L' \<Longrightarrow> live_step L Quiet L'"
| step_legacy: "live_step L Quiet (retireLegacyLiveSubscriptions L)"
| step_backfill: "live_step L Quiet (backfillLegacyRecoveryGeneration sha256 L)"
| step_promote: "promoteLiveSubscriptionRecoveryGeneration sha256 row g L = Inr L' \<Longrightarrow> live_step L Quiet L'"
| step_mutation: "enqueueInvalidations ts L = Inr (n, L') \<Longrightarrow> live_step L (change_of (readers (set ts) L) True n) L'"
| step_recovery: "enqueueRecoveryGenerationInvalidations g L = Inr (n, L') \<Longrightarrow>
    live_step L (change_of (active_subset (\<lambda>r. \<exists>h. sb_recovery_generation r = Some h \<and> h < g) L) False n) L'"
| step_fence: "enqueueRoutingFenceInvalidations l h L = Inr (n, L') \<Longrightarrow>
    live_step L (change_of (active_subset (\<lambda>r. \<exists>v. sb_vshard r = Some v \<and> l \<le> v \<and> v \<le> h) L) False n) L'"
| step_schema: "enqueueSchemaMigrationInvalidations L = Inr (c, n, L') \<Longrightarrow> live_step L (change_of (active_subset (\<lambda>_. True) L) False n) L'"
| step_auth: "enqueueAuthScopeInvalidations scope scopeId L = Inr (c, n, L') \<Longrightarrow>
    live_step L (change_of (active_subset (in_scope scope scopeId) L) False n) L'"
| step_vector: "enqueueVectorResourceInvalidations v L = Inr (c, n, L') \<Longrightarrow>
    live_step L (change_of (set (vector_registrations v L)) False n) L'"
| step_acknowledge: "live_step L (Acked (ack_pairs g acks)) (acknowledgeInvalidations g acks L)"
| step_failures: "recordInvalidationFailures rows now m L = Inr L' \<Longrightarrow> live_step L Quiet L'"

lemma enqueued_step:
  assumes "live_inv L" and "enqueued K always L (Inr (n, L'))"
  shows "live_inv L' \<and> queued L' = apply_event (change_of K always n) (queued L) \<and> clock_of L' = event_clock (change_of K always n) (clock_of L) \<and>
    clock_of L \<le> clock_of L' \<and> (change_of K always n \<noteq> Quiet \<longrightarrow> clock_of L < n)"
proof (cases "K = {} \<and> \<not> always")
  case True
  then show ?thesis using assms by (auto simp: enqueued_def change_of_def)
next
  case False
  then have L': "n = clock_of L + 1" "changed_to K L L'" "live_inv L'"
    using assms(2) by (auto simp: enqueued_def split: if_splits)
  have "queued L' k = (if k \<in> K then Some n else queued L k)" for k
    using L'(1,2) unfolding queued_def changed_to_def by (simp del: split_paired_All)
  then show ?thesis using False L'(1,3) changed_toD(3) [OF L'(2)] by (auto simp: change_of_def)
qed

lemma counted_enqueued:
  assumes "live_inv L" and "counted_enqueue (active_where p L) L = Inr (c, n, L')"
  shows "enqueued (active_subset p L) False L (Inr (n, L'))" "c = card (active_subset p L)"
proof -
  obtain r where r: "counted_enqueue (active_where p L) L = with_count (card (active_subset p L)) r" "enqueued (active_subset p L) False L r"
    using enqueued_active [OF assms(1), of p] unfolding active_subset_def by blast
  have "r = Inr (n, L') \<and> c = card (active_subset p L)" using assms(2) unfolding r(1) with_count_Inr by simp
  then show "enqueued (active_subset p L) False L (Inr (n, L'))" "c = card (active_subset p L)" using r(2) by simp_all
qed

text \<open>What one step does, in one statement.\<close>

definition queue_step :: "live_tables \<Rightarrow> reg_key change_event \<Rightarrow> live_tables \<Rightarrow> bool" where
  "queue_step L e L' \<longleftrightarrow> live_inv L' \<and> queued L' = apply_event e (queued L) \<and> clock_of L' = event_clock e (clock_of L) \<and>
     clock_of L \<le> clock_of L' \<and> (\<forall>K n. e = Changed K n \<longrightarrow> clock_of L < n)"

lemma queue_step_quiet: "live_inv L' \<Longrightarrow> outbox L' = outbox L \<Longrightarrow> change_clock L' = change_clock L \<Longrightarrow> queue_step L Quiet L'"
  by (simp add: queue_step_def queued_def outbox_entry_def clock_of_def fun_eq_iff)

lemma queue_step_enqueued: "live_inv L \<Longrightarrow> enqueued K always L (Inr (n, L')) \<Longrightarrow> queue_step L (change_of K always n) L'"
  using enqueued_step [of L K always n L'] by (auto simp: queue_step_def change_of_def split: if_splits)

lemma live_step_queue_step:
  assumes "live_step L e L'" and "live_inv L"
  shows "queue_step L e L'"
  using assms
proof (cases rule: live_step.cases)
  case (step_retire i)
  have "queued L' = apply_event e (queued L)"
    using retire_keeps(3) [OF assms(2) step_retire(2)] step_retire(1) by (auto simp: queued_def fun_eq_iff)
  then show ?thesis using retire_keeps(1,2) [OF assms(2) step_retire(2)] step_retire(1) by (simp add: queue_step_def clock_of_def)
next
  case (step_acknowledge g acks)
  then show ?thesis using acknowledge_keeps [OF assms(2)] by (simp add: queue_step_def clock_of_def)
next
  case (step_failures rows now m)
  then show ?thesis using failures_keep [OF assms(2)] by (simp add: queue_step_def clock_of_def)
next
  case (step_mutation ts n)
  then show ?thesis using queue_step_enqueued [OF assms(2)] enqueued_mutation [OF assms(2), of ts] by simp
next
  case (step_recovery g n)
  then have "safe_integer g" "1 \<le> g" by (auto simp: enqueueRecoveryGenerationInvalidations_def result_simps)
  from enqueued_recovery [OF assms(2) this] show ?thesis
    using queue_step_enqueued [OF assms(2)] step_recovery by (simp add: active_subset_def)
next
  case (step_fence l h n)
  then show ?thesis using queue_step_enqueued [OF assms(2)] enqueued_fence [OF assms(2), of l h] by (simp add: active_subset_def)
next
  case (step_schema c n)
  then show ?thesis using queue_step_enqueued [OF assms(2)] counted_enqueued(1) [OF assms(2)]
    by (simp add: enqueueSchemaMigrationInvalidations_def)
next
  case (step_auth scope scopeId c n)
  then show ?thesis using queue_step_enqueued [OF assms(2)] counted_enqueued(1) [OF assms(2)]
    by (simp add: enqueueAuthScopeInvalidations_def)
next
  case (step_vector v c n)
  then show ?thesis using queue_step_enqueued [OF assms(2) enqueued_vector(2) [OF assms(2)]] by simp
next
  case (step_persist sha256 a d response)
  then show ?thesis using persist_keeps(1,2,3) [OF assms(2) step_persist(2)] queue_step_quiet by simp
next
  case (step_persist_vector sha256 a d v response)
  then show ?thesis using persist_vector_keeps [OF assms(2) step_persist_vector(2)] queue_step_quiet by simp
next
  case (step_finalize i)
  then show ?thesis using finalize_Inr [OF assms(2) step_finalize(2)] queue_step_quiet by simp
next
  case step_legacy
  then show ?thesis using legacy_id [OF assms(2)] assms(2) queue_step_quiet by simp
next
  case (step_backfill sha256)
  then show ?thesis using backfill_id [OF assms(2)] assms(2) queue_step_quiet by simp
next
  case (step_promote sha256 row g)
  then show ?thesis using promote_keeps [OF assms(2) step_promote(2)] queue_step_quiet by simp
qed

interpretation live_queue: change_queue live_inv live_step queued clock_of
proof
  fix q e q' K n k
  assume inv: "live_inv q"
  note step = live_step_queue_step [OF _ inv, unfolded queue_step_def]
  show "live_step q e q' \<Longrightarrow> live_inv q'" by (rule conjunct1 [OF step])
  show "live_step q e q' \<Longrightarrow> queued q' = apply_event e (queued q)" using step by blast
  show "live_step q e q' \<Longrightarrow> clock_of q' = event_clock e (clock_of q) \<and> clock_of q \<le> clock_of q'" using step by blast
  show "live_step q (Changed K n) q' \<Longrightarrow> clock_of q < n" using step by blast
  show "queued q k = Some n \<Longrightarrow> n \<le> clock_of q"
    using live_inv_entry(3) [OF inv] by (auto simp: queued_def outbox_entry_def dest: sql_one_SomeD)
qed

definition live_reachable :: "reg_key change_event list \<Rightarrow> live_tables \<Rightarrow> bool" where
  "live_reachable es L \<longleftrightarrow> runs live_step CDB_LIVE_STORE_DDL es L"

lemma reachable_live_inv: "live_reachable es L \<Longrightarrow> live_inv L"
  unfolding live_reachable_def by (rule live_queue.runs_inv [OF _ live_inv_DDL])

section \<open>Settling an answer\<close>

lemma check_acks_sound:
  "check_acks requested seen xs = Inr acks \<Longrightarrow> a \<in> set acks \<Longrightarrow> Some a \<in> set xs \<and> map_of requested (ga_registrationId a) = Some (ga_changeSeq a)"
proof (induction requested seen xs arbitrary: acks rule: check_acks.induct)
  case (3 requested seen b rest)
  then show ?case by (fastforce simp: result_simps)
qed simp_all

lemma valid_response:
  assumes "validateInvalidationResponse response g batch = Inr acks" and "a \<in> set acks"
  shows "\<exists>resp. response = Some resp \<and> Some a \<in> set (gr_acknowledgements resp)"
    "\<exists>row \<in> set batch. ob_registration_id row = ga_registrationId a \<and> ob_change_seq row = ga_changeSeq a"
proof -
  obtain resp where r: "response = Some resp"
    "check_acks (rev (map (\<lambda>row. (ob_registration_id row, ob_change_seq row)) batch)) [] (gr_acknowledgements resp) = Inr acks"
    using assms(1) by (auto simp: validateInvalidationResponse_def result_simps split: option.splits)
  note sound = check_acks_sound [OF r(2) assms(2)]
  show "\<exists>resp. response = Some resp \<and> Some a \<in> set (gr_acknowledgements resp)" using r(1) sound by blast
  have "(ga_registrationId a, ga_changeSeq a) \<in> set (rev (map (\<lambda>row. (ob_registration_id row, ob_change_seq row)) batch))"
    using sound by (blast intro: map_of_SomeD)
  then show "\<exists>row \<in> set batch. ob_registration_id row = ga_registrationId a \<and> ob_change_seq row = ga_changeSeq a" by auto
qed

lemma record_transaction_keeps:
  assumes "live_inv L" and "record_transaction rows now m L = (r, L')"
  shows "live_inv L' \<and> queued L' = queued L \<and> change_clock L' = change_clock L"
  using assms failures_keep [OF assms(1)] by (auto simp: record_transaction_def split: sum.splits)

lemma settle_queued:
  assumes "live_inv L" and "settle_delivery text g batch answer now L = (r, L')"
  obtains acks where "live_inv L'" "change_clock L' = change_clock L" "queued L' = apply_event (Acked (ack_pairs g acks)) (queued L)"
    "acks = [] \<or> rbind answer (\<lambda>response. validateInvalidationResponse response g batch) = Inr acks"
proof (cases "rbind answer (\<lambda>response. validateInvalidationResponse response g batch)")
  case (Inl e)
  then have "live_inv L' \<and> queued L' = queued L \<and> change_clock L' = change_clock L"
    using record_transaction_keeps [OF assms(1)] assms(2) by (simp add: settle_delivery_def)
  moreover have "apply_event (Acked (ack_pairs g [])) f = f" for f :: "reg_key \<Rightarrow> int option"
    by (auto simp: ack_pairs_def fun_eq_iff split: option.splits)
  ultimately show ?thesis by (intro that [of "[]"]) simp_all
next
  case (Inr acks)
  let ?L1 = "acknowledgeInvalidations g acks L"
  note A = acknowledge_keeps [OF assms(1), of g acks]
  have "live_inv L' \<and> queued L' = queued ?L1 \<and> change_clock L' = change_clock ?L1"
    using assms(2) Inr A(1) record_transaction_keeps [OF A(1)]
    by (auto simp: settle_delivery_def settle_acknowledged_def Let_def split: if_splits)
  then show ?thesis using A Inr by (intro that [of acks]) simp_all
qed

section \<open>Failed deliveries\<close>

definition row_key :: "StoredInvalidationRow \<Rightarrow> reg_key" where
  "row_key row = (ob_gateway_id row, ob_registration_id row)"

definition fail_if_sent :: "int \<Rightarrow> string \<Rightarrow> StoredInvalidationRow \<Rightarrow> invalidation_outbox_row \<Rightarrow> invalidation_outbox_row" where
  "fail_if_sent now m row r = (if outbox_key r = row_key row \<and> ob_change_seq r = ob_change_seq row then failed_entry now m row r else r)"

lemma delay_bounds: "1000 \<le> invalidationRetryDelayMs n" "invalidationRetryDelayMs n \<le> 60000"
proof -
  have "(1::int) \<le> 2 ^ nat (max 0 (n - 1))" by simp
  then show "1000 \<le> invalidationRetryDelayMs n"
    by (simp add: invalidationRetryDelayMs_def INVALIDATION_MAX_RETRY_MS_def INVALIDATION_BASE_RETRY_MS_def)
  show "invalidationRetryDelayMs n \<le> 60000"
    by (simp add: invalidationRetryDelayMs_def INVALIDATION_MAX_RETRY_MS_def)
qed

lemma failed_entry_check:
  assumes "outbox_check r" and "0 \<le> now" and "0 \<le> ob_attempts row"
  shows "outbox_check (failed_entry now m row r)"
  using assms delay_bounds(1) [of "ob_attempts row + 1"] by (simp add: outbox_check_def failed_entry_def Let_def)

lemma record_failure_map:
  assumes "\<forall>r \<in> set (outbox L). outbox_check r" and "0 \<le> now" and "0 \<le> ob_attempts row"
  shows "record_failure now m row L = Inr (L\<lparr>outbox := map (fail_if_sent now m row) (outbox L)\<rparr>)"
  using assms failed_entry_check
  by (simp add: record_failure_def sql_update_checked_def sql_update_def fail_if_sent_def row_key_def cong: if_cong)

lemma fail_if_sent_check: "outbox_check r \<Longrightarrow> 0 \<le> now \<Longrightarrow> 0 \<le> ob_attempts row \<Longrightarrow> outbox_check (fail_if_sent now m row r)"
  by (simp add: fail_if_sent_def failed_entry_check)

lemma record_failures_map:
  assumes "\<forall>r \<in> set (outbox L). outbox_check r" and "0 \<le> now" and "\<forall>row \<in> set rows. 0 \<le> ob_attempts row"
  shows "recordInvalidationFailures rows now m L = Inr (L\<lparr>outbox := map (fold (fail_if_sent now m) rows) (outbox L)\<rparr>)"
  using assms(1,3) unfolding recordInvalidationFailures_def
proof (induction rows arbitrary: L)
  case (Cons row rows)
  let ?L1 = "L\<lparr>outbox := map (fail_if_sent now m row) (outbox L)\<rparr>"
  have "record_failure now m row L = Inr ?L1" using Cons.prems assms(2) by (intro record_failure_map) simp_all
  moreover have "\<forall>r \<in> set (outbox ?L1). outbox_check r" using Cons.prems assms(2) fail_if_sent_check by simp
  ultimately show ?case using Cons.IH [of ?L1] Cons.prems(2) by (simp add: comp_def)
qed simp

lemma fail_if_sent_simps [simp]:
  "outbox_key (fail_if_sent now m row r) = outbox_key r" "ob_change_seq (fail_if_sent now m row r) = ob_change_seq r"
  by (simp_all add: fail_if_sent_def)

lemma fold_fail_simps [simp]:
  "outbox_key (fold (fail_if_sent now m) rows r) = outbox_key r" "ob_change_seq (fold (fail_if_sent now m) rows r) = ob_change_seq r"
  by (induction rows arbitrary: r) simp_all

definition retry_window :: "int \<Rightarrow> invalidation_outbox_row \<Rightarrow> bool" where
  "retry_window now r \<longleftrightarrow> now + 1000 \<le> ob_next_attempt_at r \<and> ob_next_attempt_at r \<le> now + 60000"

lemma fail_keeps_window: "retry_window now r \<Longrightarrow> retry_window now (fail_if_sent now m row r)"
  using delay_bounds [of "ob_attempts row + 1"] by (simp add: fail_if_sent_def failed_entry_def Let_def retry_window_def)

lemma fold_fail_window:
  assumes "row \<in> set rows" and "outbox_key r = row_key row" and "ob_change_seq r = ob_change_seq row"
  shows "retry_window now (fold (fail_if_sent now m) rows r)"
  using assms
proof (induction rows arbitrary: r)
  case (Cons x rows)
  have keep: "retry_window now (fold (fail_if_sent now m) rows s)" if "retry_window now s" for s
    using that fail_keeps_window by (induction rows arbitrary: s) simp_all
  show ?case
  proof (cases "x = row")
    case True
    then have "retry_window now (fail_if_sent now m x r)"
      using Cons.prems delay_bounds [of "ob_attempts row + 1"] by (simp add: fail_if_sent_def failed_entry_def Let_def retry_window_def)
    then show ?thesis using keep by simp
  next
    case False
    then show ?thesis using Cons.IH [of "fail_if_sent now m x r"] Cons.prems by simp
  qed
qed simp

lemma fold_fail_other:
  assumes "\<forall>row \<in> set rows. outbox_key r = row_key row \<longrightarrow> ob_change_seq r \<noteq> ob_change_seq row"
  shows "fold (fail_if_sent now m) rows r = r"
  using assms
proof (induction rows)
  case (Cons x rows)
  have "fail_if_sent now m x r = r" using Cons.prems by (auto simp: fail_if_sent_def)
  moreover have "fold (fail_if_sent now m) rows r = r" using Cons.prems by (intro Cons.IH) simp
  ultimately show ?case by simp
qed simp

section \<open>What is due\<close>

lemma joined_some:
  assumes "live_inv L" and "r \<in> set (outbox L)"
  shows "\<exists>s. subscription_of (outbox_key r) L = Some s \<and> joined L r = Some (delivery_row r s)"
proof -
  have "has_subscription (outbox_key r) L" using live_inv_entry(2) [OF assms] by (rule active_has)
  then show ?thesis using subscription_of_None [of "outbox_key r" L] by (cases "subscription_of (outbox_key r) L") (auto simp: joined_def)
qed

lemma due_iff:
  assumes "live_inv L"
  shows "dueInvalidations now L = [] \<longleftrightarrow> (\<forall>r \<in> set (outbox L). now < ob_next_attempt_at r)"
proof -
  let ?due = "filter (\<lambda>r. ob_next_attempt_at r \<le> now) (outbox L)"
  have "List.map_filter (joined L) ?due = [] \<longleftrightarrow> ?due = []"
    using joined_some [OF assms] by (fastforce simp: List.map_filter_def filter_empty_conv)
  moreover have "dueInvalidations now L = [] \<longleftrightarrow> List.map_filter (joined L) ?due = []"
    by (simp add: dueInvalidations_def INVALIDATION_BATCH_SIZE_def by_owner_def sort_key_Nil)
  ultimately show ?thesis by (auto simp: filter_empty_conv not_le)
qed

end
