(* ===== verification/Live_Properties.thy ===== *)
theory Live_Properties
  imports Live_Delivery
begin

text \<open>What the live store of a shard guarantees, over the states its operations reach from the empty tables.\<close>

section \<open>A run for the witnesses\<close>

definition sample_live_id :: LiveSubscriptionId where
  "sample_live_id = \<lparr> li_gatewayId = ''g'', li_registrationId = ''r'', li_connectionId = ''c'', li_clientId = ''k'', li_subId = 1 \<rparr>"

definition sample_live_request :: CdbSubscriptionRequest where
  "sample_live_request = \<lparr> rq_subscription = sample_live_id, rq_principalId = ''u'', rq_organizationId = ''o'',
     rq_placement = Some \<lparr> cp_authority = ''organization'', cp_partitionKey = ''o'' \<rparr>, rq_schemaEpoch = 1, rq_recoveryGeneration = 0,
     rq_vshard = 7, rq_domainSchemaEpoch = 1, rq_ref = ''m#q'', rq_args = JObj [], rq_queryHash = ''h'', rq_tables = [''t''],
     rq_intervals = [] \<rparr>"

definition live_sha :: "nat list \<Rightarrow> nat list" where "live_sha bs = []"

definition sample_registered :: live_tables where
  "sample_registered = registered_in live_sha sample_live_request ''p'' CDB_LIVE_STORE_DDL"

definition sample_changed :: live_tables where
  "sample_changed = sample_registered\<lparr>change_clock := Some 1, outbox := [new_entry 1 (''g'', ''r'')]\<rparr>"

definition sample_acked :: live_tables where
  "sample_acked = sample_registered\<lparr>change_clock := Some 1\<rparr>"

lemma sample_registers: "persistLiveSubscription live_sha sample_live_request ''p'' CDB_LIVE_STORE_DDL = Inr (Sub_ok sample_live_id 0, sample_registered)"
  by (simp add: persistLiveSubscription_def CDB_LIVE_STORE_DDL_def sample_registered_def registered_in_def Let_def sql_one_def durableRowCount_def
      active_rows_def safe_integer_def sql_insert_def CDB_MAX_LIVE_REGISTRATION_ROWS_def CDB_MAX_ACTIVE_LIVE_REGISTRATIONS_def
      subscription_check_def stored_row_def present_when_def all_given_def sample_live_request_def insert_table_def child_insert_def
      table_rows_def has_subscription_def sub_key_def table_owner_def id_key_def currentChangeSeq_def sample_live_id_def)

lemma sample_live_changes: "enqueueInvalidations [''t''] sample_registered = Inr (1, sample_changed)"
  by (simp add: enqueueInvalidations_def touched_registrations_def sample_registered_def registered_in_def CDB_LIVE_STORE_DDL_def Let_def
      table_rows_def sample_live_request_def sample_live_id_def active_key_def sub_key_def stored_row_def table_owner_def by_owner_def id_key_def
      CDB_MAX_INVALIDATIONS_PER_MUTATION_def enqueueRegistrationInvalidations_def outbox_room_def missing_rows_def outbox_entry_def
      sql_one_def durableRowCount_def safe_integer_def CDB_MAX_INVALIDATION_OUTBOX_ROWS_def tick_clock_def currentChangeSeq_def
      upsert_invalidation_def child_insert_def sql_insert_def has_subscription_def outbox_key_def new_entry_def outbox_check_def
      sample_changed_def ensure_def)

lemma sample_readers: "readers {''t''} sample_registered = {(''g'', ''r'')}"
  by (auto simp: readers_def active_key_def sample_registered_def registered_in_def CDB_LIVE_STORE_DDL_def table_rows_def sample_live_request_def
      sample_live_id_def table_owner_def stored_row_def sub_key_def)

lemma sample_acknowledges:
  "acknowledgeInvalidations ''g'' [\<lparr> ga_registrationId = ''r'', ga_changeSeq = 1, ga_status = Ack_accepted \<rparr>] sample_changed = sample_acked"
  by (simp add: acknowledgeInvalidations_def acknowledge_one_def sample_changed_def sample_acked_def new_entry_def sql_delete_def
      sample_registered_def registered_in_def CDB_LIVE_STORE_DDL_def)

definition sample_events :: "reg_key change_event list" where
  "sample_events = [Quiet, Changed {(''g'', ''r'')} 1]"

lemma sample_live_reachable: "live_reachable [Quiet] sample_registered" "live_reachable sample_events sample_changed"
proof -
  have "runs live_step CDB_LIVE_STORE_DDL ([] @ [Quiet]) sample_registered"
    by (rule runs_snoc [where step = live_step, OF runs_Nil step_persist [OF sample_registers]])
  then show "live_reachable [Quiet] sample_registered" by (simp add: live_reachable_def)
  moreover have "live_step sample_registered (Changed {(''g'', ''r'')} 1) sample_changed"
    using step_mutation [OF sample_live_changes] sample_readers by (simp add: change_of_def)
  ultimately show "live_reachable sample_events sample_changed"
    unfolding live_reachable_def sample_events_def using runs_snoc [of live_step _ "[Quiet]"] by fastforce
qed

section \<open>Reading a registration back\<close>

text \<open>A request the boundary of the shard accepts: values JSON can carry, arguments within the limits, safe integers.\<close>

definition storable :: "CdbSubscriptionRequest \<Rightarrow> bool" where
  "storable a \<longleftrightarrow> json_ok (rq_args a) \<and> assertCdbQueryArgsByteLimit (rq_args a) = Inr () \<and> list_all json_ok (rq_intervals a) \<and>
     safe_integer (rq_schemaEpoch a) \<and> safe_integer (rq_recoveryGeneration a) \<and> safe_integer (rq_vshard a) \<and>
     safe_integer (rq_domainSchemaEpoch a) \<and> CHR 0x23 \<in> set (rq_ref a) \<and>
     (case rq_placement a of None \<Rightarrow> True | Some p \<Rightarrow> cp_authority p \<in> {''organization'', ''user'', ''global''} \<and>
        cp_partitionKey p = rq_organizationId a)"

lemma query_args_id:
  assumes "json_ok v" and "assertCdbQueryArgsByteLimit v = Inr ()"
  shows "query_args v = Inr v"
proof -
  have m: "members_within (Some argument_structure) 0" "0 \<le> CDB_ARGUMENT_MAX_BYTES"
    by (simp_all add: members_within_def argument_structure_def CDB_ARGUMENT_MAX_MEMBERS_def CDB_ARGUMENT_MAX_BYTES_def)
  show ?thesis
    using assms(2) unfolding query_args_def snapshotCdbQueryArgs_def snapshotCdbJsonByteLimit_def assertCdbQueryArgsByteLimit_def
      assertCdbJsonByteLimit_def inspect_eq [OF assms(1) m(2,1)]
    by (simp split: if_splits)
qed

lemma rmap_map_Inr: "(\<And>x. x \<in> set xs \<Longrightarrow> f (g x) = Inr x) \<Longrightarrow> rmap f (map g xs) = Inr xs"
  by (induction xs) simp_all

lemma row_id_stored [simp]: "row_id (stored_row a d h) = rq_subscription a"
  by (simp add: row_id_def stored_row_def)

lemma parse_stored_row:
  assumes "storable a" and "subscription_check (stored_row a d h)" and "h = subscriptionPayloadHash sha256 a d"
  shows "parseStoredSubscription sha256 (stored_row a d h) = Inr a"
proof -
  note S = assms(1) [unfolded storable_def]
  have ranges: "0 < rq_schemaEpoch a" "0 \<le> rq_recoveryGeneration a" "0 \<le> rq_vshard a" "rq_vshard a < 16384" "0 < rq_domainSchemaEpoch a"
    using assms(2) by (simp_all add: subscription_check_def stored_row_def present_when_def)
  have parse: "parsed (stringify (rq_args a)) = Inr (rq_args a)" "parsed (stringify (JArr (map JStr (rq_tables a)))) = Inr (JArr (map JStr (rq_tables a)))"
    "parsed (stringify (JArr (rq_intervals a))) = Inr (JArr (rq_intervals a))"
    using S by (simp_all add: parsed_def parse_stringify list_all_iff del: stringify.simps)
  have args: "query_args (rq_args a) = Inr (rq_args a)" using S by (intro query_args_id) simp_all
  have tables: "string_array (JArr (map JStr (rq_tables a))) = Inr (rq_tables a)" by (simp add: string_array_def rmap_map_Inr)
  have placement: "(case map_option cp_authority (rq_placement a) of
      Some x \<Rightarrow> if x \<in> {''organization'', ''user'', ''global''} then Some \<lparr> cp_authority = x, cp_partitionKey = rq_organizationId a \<rparr> else None
    | None \<Rightarrow> None) = rq_placement a"
    using S by (auto split: option.splits)
  have ref: "ChardbRef (rq_ref a) = Inr (rq_ref a)" using S by (simp add: ChardbRef_def)
  have row: "sb_state (stored_row a d h) = Sub_active" "sb_payload_hash (stored_row a d h) = Some h"
    "sb_principal_id (stored_row a d h) = Some (rq_principalId a)" "sb_organization_id (stored_row a d h) = Some (rq_organizationId a)"
    "sb_authority (stored_row a d h) = map_option cp_authority (rq_placement a)" "sb_schema_epoch (stored_row a d h) = Some (rq_schemaEpoch a)"
    "sb_recovery_generation (stored_row a d h) = Some (rq_recoveryGeneration a)" "sb_vshard (stored_row a d h) = Some (rq_vshard a)"
    "sb_domain_schema_epoch (stored_row a d h) = Some (rq_domainSchemaEpoch a)" "sb_ref (stored_row a d h) = Some (rq_ref a)"
    "sb_args_json (stored_row a d h) = Some (stringify (rq_args a))" "sb_policy_digest (stored_row a d h) = Some d"
    "sb_query_hash (stored_row a d h) = Some (rq_queryHash a)"
    "sb_tables_json (stored_row a d h) = Some (stringify (JArr (map JStr (rq_tables a))))"
    "sb_intervals_json (stored_row a d h) = Some (stringify (JArr (rq_intervals a)))"
    by (simp_all add: stored_row_def del: stringify.simps)
  have ensures: "ensure (safe_integer (rq_domainSchemaEpoch a) \<and> 1 \<le> rq_domainSchemaEpoch a) subscriptionInvariant = Inr ()"
    "ensure (safe_integer (rq_schemaEpoch a) \<and> 1 \<le> rq_schemaEpoch a) subscriptionInvariant = Inr ()"
    "ensure (safe_integer (rq_recoveryGeneration a) \<and> 0 \<le> rq_recoveryGeneration a) subscriptionInvariant = Inr ()"
    "ensure (safe_integer (rq_vshard a) \<and> 0 \<le> rq_vshard a \<and> rq_vshard a < 16384) subscriptionInvariant = Inr ()"
    using S ranges by (simp_all add: ensure_def)
  have eta: "\<lparr> rq_subscription = rq_subscription a, rq_principalId = rq_principalId a, rq_organizationId = rq_organizationId a,
      rq_placement = rq_placement a, rq_schemaEpoch = rq_schemaEpoch a, rq_recoveryGeneration = rq_recoveryGeneration a,
      rq_vshard = rq_vshard a, rq_domainSchemaEpoch = rq_domainSchemaEpoch a, rq_ref = rq_ref a, rq_args = rq_args a,
      rq_queryHash = rq_queryHash a, rq_tables = rq_tables a, rq_intervals = rq_intervals a \<rparr> = a"
    by simp
  show ?thesis
    unfolding parseStoredSubscription_def projectStoredSubscription_def row prod.case option.case subscription_state.case
      parse rbind.simps args ensures tables json_array_def json.case ref row_id_stored placement Let_def eta
    by (simp add: assms(3) ensure_def)
qed

section \<open>Properties\<close>

text \<open>
  C33. The tables are well formed in every reachable state: keys are unique, every row satisfies its constraints, the
  registrations stay within their caps, every row of a dependent table belongs to an active registration, and every queued
  change number is one the clock has given.
\<close>
theorem live_tables_wf:
  assumes "live_reachable es L"
  shows "distinct (map sub_key (subscriptions L)) \<and> list_all subscription_check (subscriptions L) \<and>
    length (subscriptions L) \<le> CDB_MAX_LIVE_REGISTRATION_ROWS \<and> length (active_rows L) \<le> CDB_MAX_ACTIVE_LIVE_REGISTRATIONS \<and>
    retired_bytes L \<le> CDB_MAX_RETIRED_TOMBSTONE_BYTES \<and>
    distinct (map table_key (subscription_tables L)) \<and> list_all (\<lambda>m. active_key L (table_owner m)) (subscription_tables L) \<and>
    distinct (map vector_owner (subscription_vectors L)) \<and> list_all (\<lambda>m. active_key L (vector_owner m)) (subscription_vectors L) \<and>
    distinct (map outbox_key (outbox L)) \<and> length (outbox L) \<le> CDB_MAX_INVALIDATION_OUTBOX_ROWS \<and>
    list_all (\<lambda>r. active_key L (outbox_key r) \<and> 0 < ob_change_seq r \<and> ob_change_seq r \<le> clock_of L) (outbox L) \<and>
    change_clock L = Some (clock_of L) \<and> 0 \<le> clock_of L \<and> safe_integer (clock_of L)"
proof -
  have inv: "live_inv L" by (rule reachable_live_inv [OF assms])
  have "length (map outbox_key (outbox L)) \<le> CDB_MAX_ACTIVE_LIVE_REGISTRATIONS"
    by (rule active_keys_le [OF inv live_invD(2) [OF inv]]) (use live_inv_entry(2) [OF inv] in auto)
  then have "length (outbox L) \<le> CDB_MAX_INVALIDATION_OUTBOX_ROWS"
    by (simp add: CDB_MAX_ACTIVE_LIVE_REGISTRATIONS_def CDB_MAX_INVALIDATION_OUTBOX_ROWS_def)
  moreover have "safe_integer (clock_of L)" using live_invD(4,5) [OF inv] by (simp add: safe_integer_def MAX_CHANGE_SEQ_def)
  ultimately show ?thesis
    using inv live_invD [OF inv] live_inv_entry [OF inv]
    by (simp add: live_inv_def registry_inv_def owned_inv_def retired_bytes_def list_all_iff outbox_check_def)
qed

lemma live_tables_wf_witness: "list_all (\<lambda>r. ob_change_seq r \<le> clock_of sample_changed) (outbox sample_changed)"
  using live_tables_wf [OF sample_live_reachable(2)] by (simp add: list_all_iff)

text \<open>
  A mutation that touched the tables \<open>ts\<close> advances the clock by one and leaves, for every active registration that
  reads one of them, exactly one entry with the new number and a fresh retry state; the entries of all other registrations
  and every other table are as before. Only a clock at the last safe integer can make it fail.
\<close>
theorem enqueueInvalidations_exact:
  assumes "live_reachable es L"
  shows "if clock_of L < MAX_CHANGE_SEQ
    then \<exists>t. enqueueInvalidations ts L = Inr (clock_of L + 1, L\<lparr>change_clock := Some (clock_of L + 1), outbox := t\<rparr>) \<and>
      (\<forall>k. sql_one (\<lambda>r. outbox_key r = k) t =
        (if k \<in> readers (set ts) L then Some (new_entry (clock_of L + 1) k) else outbox_entry k L))
    else enqueueInvalidations ts L = Inl subscriptionInvariant"
proof (cases "clock_of L < MAX_CHANGE_SEQ")
  case True
  have "enqueued (readers (set ts) L) True L (enqueueInvalidations ts L)" by (rule enqueued_mutation [OF reachable_live_inv [OF assms]])
  then obtain L' where L': "enqueueInvalidations ts L = Inr (clock_of L + 1, L')" "changed_to (readers (set ts) L) L L'"
    using True by (auto simp: enqueued_def)
  let ?c = "clock_of L + 1"
  have "enqueueInvalidations ts L = Inr (?c, L\<lparr>change_clock := Some ?c, outbox := outbox L'\<rparr>)"
    using L' unfolding changed_to_def by simp
  moreover have "\<forall>k. sql_one (\<lambda>r. outbox_key r = k) (outbox L') = (if k \<in> readers (set ts) L then Some (new_entry ?c k) else outbox_entry k L)"
    using L'(2) unfolding changed_to_def outbox_entry_def [of _ L'] by blast
  ultimately show ?thesis unfolding if_P [OF True] by blast
next
  case False
  then show ?thesis using enqueued_mutation [OF reachable_live_inv [OF assms], of ts] by (simp add: enqueued_def)
qed

lemma enqueueInvalidations_exact_witness:
  "\<exists>t. enqueueInvalidations [''t''] sample_registered = Inr (1, sample_registered\<lparr>change_clock := Some 1, outbox := t\<rparr>) \<and>
     sql_one (\<lambda>r. outbox_key r = (''g'', ''r'')) t = Some (new_entry 1 (''g'', ''r''))"
proof -
  have c: "clock_of sample_registered = 0" by (simp add: clock_of_def sample_registered_def registered_in_def CDB_LIVE_STORE_DDL_def)
  then show ?thesis
    using enqueueInvalidations_exact [OF sample_live_reachable(1), of "[''t'']"] sample_readers by (auto simp: MAX_CHANGE_SEQ_def)
qed

text \<open>
  C8. No invalidation is lost. After a mutation that touched a table a registration reads, whatever calls of the store
  follow, in any order and with any arguments, the registration has an entry with that change number or a newer one until
  a gateway acknowledged a number at least that high or the registration was retired.
\<close>
theorem invalidation_never_lost:
  assumes "live_reachable es L" and "enqueueInvalidations ts L = Inr (n, L1)" and "k \<in> readers (set ts) L"
    and "runs live_step L1 es' L2" and "list_all (\<lambda>e. \<not> settles e k n) es'"
  shows "\<exists>r \<in> set (outbox L2). outbox_key r = k \<and> n \<le> ob_change_seq r"
proof -
  have inv: "live_inv L" by (rule reachable_live_inv [OF assms(1)])
  have step: "live_step L (change_of (readers (set ts) L) True n) L1" by (rule step_mutation [OF assms(2)])
  then have "live_inv L1" "queued L1 k = Some n"
    using live_queue.keeps_inv [OF inv step] live_queue.keeps_queued [OF inv step] assms(3) by (simp_all add: change_of_def)
  then obtain m where "n \<le> m" "queued L2 k = Some m"
    using live_queue.change_stays [OF assms(4), of k n n] assms(5) by (auto simp: list_all_iff)
  then show ?thesis by (auto simp: queued_def outbox_entry_def dest: sql_one_SomeD)
qed

lemma invalidation_never_lost_witness: "\<exists>r \<in> set (outbox sample_changed). outbox_key r = (''g'', ''r'') \<and> 1 \<le> ob_change_seq r"
proof -
  have "runs live_step sample_changed [] sample_changed" by simp
  then show ?thesis
    using invalidation_never_lost [OF sample_live_reachable(1) sample_live_changes, of "(''g'', ''r'')" "[]"] sample_readers by simp
qed

text \<open>
  C25. The outbox refines a queue of changes: the queued numbers of a reachable state are the fold, over the empty queue, of
  the abstract effect of the calls that led to it, and the clock is the number of the last change.
\<close>
theorem outbox_refines_queue:
  assumes "live_reachable es L"
  shows "queued L = fold apply_event es (\<lambda>_. None) \<and> clock_of L = fold event_clock es 0"
proof -
  have "queued CDB_LIVE_STORE_DDL = (\<lambda>_. None)" "clock_of CDB_LIVE_STORE_DDL = 0"
    by (auto simp: queued_def outbox_entry_def CDB_LIVE_STORE_DDL_def clock_of_def sql_one_def)
  then show ?thesis
    using live_queue.runs_queued [OF assms [unfolded live_reachable_def] live_inv_DDL]
      live_queue.runs_clock [OF assms [unfolded live_reachable_def] live_inv_DDL] by simp
qed

lemma outbox_refines_queue_witness: "queued sample_changed (''g'', ''r'') = Some 1 \<and> clock_of sample_changed = 1"
  using outbox_refines_queue [OF sample_live_reachable(2)] by (simp add: sample_events_def)

text \<open>
  A delivery removes only what it delivered. Whatever the gateway answers or throws, and whatever changes were queued
  while the answer was under way, settling it takes an entry off the queue only when its current number was sent to this
  gateway in this batch and the answer acknowledges that number; every other entry keeps its number.
\<close>
theorem delivery_removes_only_acknowledged:
  assumes "live_reachable es L" and "settle_delivery text g batch answer now L = (r, L')"
  shows "queued L' k = queued L k \<or>
    queued L' k = None \<and> fst k = g \<and> (\<exists>n resp a. queued L k = Some n \<and> answer = Inr (Some resp) \<and> Some a \<in> set (gr_acknowledgements resp) \<and>
      gr_gatewayId resp = g \<and> ga_registrationId a = snd k \<and> ga_changeSeq a = n \<and>
      (\<exists>row \<in> set batch. ob_registration_id row = snd k \<and> ob_change_seq row = n))"
proof -
  obtain acks where q: "queued L' = apply_event (Acked (ack_pairs g acks)) (queued L)"
    "acks = [] \<or> rbind answer (\<lambda>response. validateInvalidationResponse response g batch) = Inr acks"
    using settle_queued [OF reachable_live_inv [OF assms(1)] assms(2)] by metis
  show ?thesis
  proof (cases "queued L' k = queued L k")
    case False
    then obtain n where n: "queued L k = Some n" "queued L' k = None" "(k, n) \<in> ack_pairs g acks"
      using q(1) by (auto split: option.splits if_splits)
    then obtain a where a: "a \<in> set acks" "fst k = g" "snd k = ga_registrationId a" "n = ga_changeSeq a" by (auto simp: ack_pairs_def)
    then have "rbind answer (\<lambda>response. validateInvalidationResponse response g batch) = Inr acks" using q(2) by auto
    then obtain response where resp: "answer = Inr response" "validateInvalidationResponse response g batch = Inr acks"
      by (auto simp: rbind_eq_Inr)
    then obtain rs where rs: "response = Some rs" "gr_gatewayId rs = g"
      by (auto simp: validateInvalidationResponse_def result_simps split: option.splits)
    have "Some a \<in> set (gr_acknowledgements rs)" using valid_response(1) [OF resp(2) a(1)] rs(1) by simp
    moreover have "\<exists>row \<in> set batch. ob_registration_id row = snd k \<and> ob_change_seq row = n" using valid_response(2) [OF resp(2) a(1)] a by simp
    ultimately have "\<exists>n resp a. queued L k = Some n \<and> answer = Inr (Some resp) \<and> Some a \<in> set (gr_acknowledgements resp) \<and>
      gr_gatewayId resp = g \<and> ga_registrationId a = snd k \<and> ga_changeSeq a = n \<and>
      (\<exists>row \<in> set batch. ob_registration_id row = snd k \<and> ob_change_seq row = n)"
      using n(1) a rs resp(1) by (intro exI [of _ n] exI [of _ rs] exI [of _ a]) simp
    then show ?thesis using n(2) a(2) by blast
  qed simp
qed

lemma delivery_removes_only_acknowledged_witness:
  "queued (snd (settle_delivery (\<lambda>_. ''failed'') ''g'' [] (Inr None) 5 sample_changed)) (''g'', ''r'') = Some 1"
proof -
  obtain r L' where run: "settle_delivery (\<lambda>_. ''failed'') ''g'' [] (Inr None) 5 sample_changed = (r, L')" by fastforce
  have "queued sample_changed (''g'', ''r'') = Some 1" by (simp add: queued_def outbox_entry_def sample_changed_def sql_one_def new_entry_def outbox_key_def)
  then show ?thesis
    using delivery_removes_only_acknowledged [OF sample_live_reachable(2) run, of "(''g'', ''r'')"] run by auto
qed

text \<open>
  The alarm is exact: there is something due at a time if and only if that time has reached the alarm, and there is no
  alarm only when nothing is queued. So setting the alarm to \<open>nextInvalidationAlarmAt\<close> neither misses an entry nor fires early.
\<close>
theorem alarm_exact:
  assumes "live_reachable es L"
  shows "(dueInvalidations now L \<noteq> [] \<longleftrightarrow> (\<exists>t. nextInvalidationAlarmAt L = Some t \<and> t \<le> now)) \<and>
    (nextInvalidationAlarmAt L = None \<longleftrightarrow> outbox L = [])"
proof -
  have "(\<exists>r \<in> set (outbox L). ob_next_attempt_at r \<le> now) \<longleftrightarrow> (\<exists>t. nextInvalidationAlarmAt L = Some t \<and> t \<le> now)"
  proof (cases "outbox L = []")
    case False
    then have "Min (ob_next_attempt_at ` set (outbox L)) \<le> now \<longleftrightarrow> (\<exists>r \<in> set (outbox L). ob_next_attempt_at r \<le> now)"
      by (subst Min_le_iff) auto
    then show ?thesis using False by (simp add: nextInvalidationAlarmAt_def)
  qed (simp add: nextInvalidationAlarmAt_def)
  then show ?thesis
    using due_iff [OF reachable_live_inv [OF assms], of now] by (auto simp: nextInvalidationAlarmAt_def not_le)
qed

lemma alarm_exact_witness: "dueInvalidations 5 sample_changed \<noteq> []"
  using alarm_exact [OF sample_live_reachable(2), of 5]
  by (simp add: nextInvalidationAlarmAt_def sample_changed_def new_entry_def)

text \<open>
  C35. A failed delivery is always retried. When a batch of rows read earlier fails at time \<open>now\<close>, recording the failure
  succeeds on any reachable tables; every entry that still has the number that was sent is due again between one and sixty
  seconds later, and an entry a newer change has replaced is left alone, so its delivery is not delayed.
\<close>
theorem failed_batch_retried:
  assumes "live_reachable es L" and "0 \<le> now" and "list_all (\<lambda>row. 0 \<le> ob_attempts row) batch"
  shows "\<exists>L'. recordInvalidationFailures batch now m L = Inr L' \<and> queued L' = queued L \<and>
    length (outbox L') = length (outbox L) \<and>
    (\<forall>j < length (outbox L).
      if \<exists>row \<in> set batch. outbox_key (outbox L ! j) = (ob_gateway_id row, ob_registration_id row) \<and> ob_change_seq (outbox L ! j) = ob_change_seq row
      then ob_change_seq (outbox L' ! j) = ob_change_seq (outbox L ! j) \<and>
        now + 1000 \<le> ob_next_attempt_at (outbox L' ! j) \<and> ob_next_attempt_at (outbox L' ! j) \<le> now + 60000
      else outbox L' ! j = outbox L ! j)"
proof -
  have inv: "live_inv L" by (rule reachable_live_inv [OF assms(1)])
  let ?L' = "L\<lparr>outbox := map (fold (fail_if_sent now m) batch) (outbox L)\<rparr>"
  have run: "recordInvalidationFailures batch now m L = Inr ?L'"
    using live_inv_entry(1) [OF inv] assms(2,3) by (intro record_failures_map) (auto simp: list_all_iff)
  let ?sent = "\<lambda>r. \<exists>row \<in> set batch. outbox_key r = (ob_gateway_id row, ob_registration_id row) \<and> ob_change_seq r = ob_change_seq row"
  let ?f = "fold (fail_if_sent now m) batch"
  have entry: "if ?sent r then ob_change_seq (?f r) = ob_change_seq r \<and> now + 1000 \<le> ob_next_attempt_at (?f r) \<and>
      ob_next_attempt_at (?f r) \<le> now + 60000 else ?f r = r" for r
  proof (cases "?sent r")
    case True
    then show ?thesis using fold_fail_window [where now = now and m = m and r = r and rows = batch] by (auto simp: row_key_def retry_window_def)
  next
    case False
    then have "?f r = r" by (intro fold_fail_other) (auto simp: row_key_def)
    then show ?thesis by (simp only: if_not_P [OF False])
  qed
  have "outbox ?L' ! j = ?f (outbox L ! j)" if "j < length (outbox L)" for j using that by simp
  then have "\<forall>j < length (outbox L). if ?sent (outbox L ! j) then ob_change_seq (outbox ?L' ! j) = ob_change_seq (outbox L ! j) \<and>
      now + 1000 \<le> ob_next_attempt_at (outbox ?L' ! j) \<and> ob_next_attempt_at (outbox ?L' ! j) \<le> now + 60000
      else outbox ?L' ! j = outbox L ! j"
    using entry by presburger
  moreover have "queued ?L' = queued L" using failures_keep [OF inv run] by blast
  moreover have "length (outbox ?L') = length (outbox L)" by simp
  ultimately show ?thesis using run by blast
qed

definition sample_row :: StoredInvalidationRow where
  "sample_row = delivery_row (new_entry 1 (''g'', ''r'')) (stored_row sample_live_request ''p'' [])"

lemma failed_batch_retried_witness:
  "\<exists>L'. recordInvalidationFailures [sample_row] 5 ''failed'' sample_changed = Inr L' \<and> 1005 \<le> ob_next_attempt_at (outbox L' ! 0)"
proof -
  have row: "ob_attempts sample_row = 0" "ob_gateway_id sample_row = ''g''" "ob_registration_id sample_row = ''r''" "ob_change_seq sample_row = 1"
    by (simp_all add: sample_row_def delivery_row_def new_entry_def invalidation_outbox_row.defs)
  have ob: "outbox sample_changed = [new_entry 1 (''g'', ''r'')]" by (simp add: sample_changed_def)
  obtain L' where "recordInvalidationFailures [sample_row] 5 ''failed'' sample_changed = Inr L'"
      "\<forall>j < length (outbox sample_changed).
        if \<exists>row \<in> set [sample_row]. outbox_key (outbox sample_changed ! j) = (ob_gateway_id row, ob_registration_id row) \<and>
          ob_change_seq (outbox sample_changed ! j) = ob_change_seq row
        then ob_change_seq (outbox L' ! j) = ob_change_seq (outbox sample_changed ! j) \<and>
          5 + 1000 \<le> ob_next_attempt_at (outbox L' ! j) \<and> ob_next_attempt_at (outbox L' ! j) \<le> 5 + 60000
        else outbox L' ! j = outbox sample_changed ! j"
    using failed_batch_retried [OF sample_live_reachable(2), of 5 "[sample_row]" "''failed''"] row(1) by auto
  then show ?thesis using row ob by simp
qed

lemma sort_map_table_rows:
  "map lt_table_name (filter (\<lambda>m. table_owner m = id_key i) (table_rows i names)) = names"
proof -
  have "filter (\<lambda>m. table_owner m = id_key i) (table_rows i names) = table_rows i names" by simp
  then show ?thesis by simp
qed

lemma registered_tables:
  assumes "live_inv L" and "subscription_of (id_key (rq_subscription a)) L = None"
  shows "storedSubscriptionTables (rq_subscription a) (registered_in sha256 a d L) = sort (remdups (rq_tables a))"
proof -
  have "\<not> active_key L (id_key (rq_subscription a))" using assms(2) active_has subscription_of_None by blast
  then have "filter (\<lambda>m. table_owner m = id_key (rq_subscription a)) (subscription_tables L) = []"
    using assms(1) by (auto simp: live_inv_def owned_inv_def filter_empty_conv)
  then show ?thesis by (simp add: storedSubscriptionTables_def registered_in_def sort_map_table_rows sort_key_id_if_sorted del: map_map)
qed

text \<open>
  C36. A registration survives the table. After a first registration of a storable request the stored row parses back to the
  request, field by field; registering the same request again, as a retry after a lost answer does, changes nothing and
  answers with the current change number; and a different payload under the same registration is refused.
\<close>
theorem registration_roundtrip:
  assumes "live_reachable es L" and "storable a" and "subscription_of (id_key (rq_subscription a)) L = None"
    and "persistLiveSubscription sha256 a d L = Inr (Sub_ok i n, L')"
  shows "(\<exists>row. subscription_of (id_key (rq_subscription a)) L' = Some row \<and> parseStoredSubscription sha256 row = Inr a) \<and>
    i = rq_subscription a \<and> persistLiveSubscription sha256 a d L' = Inr (Sub_ok i n, L') \<and>
    (id_key (rq_subscription b) = id_key i \<and> subscriptionPayloadHash sha256 b d' \<noteq> subscriptionPayloadHash sha256 a d \<longrightarrow>
      persistLiveSubscription sha256 b d' L' = Inl subscriptionInvariant)"
proof -
  let ?k = "id_key (rq_subscription a)" and ?h = "subscriptionPayloadHash sha256 a d"
  let ?row = "stored_row a d ?h"
  have inv: "live_inv L" by (rule reachable_live_inv [OF assms(1)])
  have L': "L' = registered_in sha256 a d L" and check: "subscription_check ?row" and i: "i = rq_subscription a" and n: "n = clock_of L"
    by (cases rule: persist_Inr [OF inv assms(4)]; use assms(3) in simp)+
  have "live_inv L'" by (rule persist_keeps(1) [OF inv assms(4)])
  then have row: "subscription_of ?k L' = Some ?row"
    by (simp add: subscription_of_iff [OF live_invD(1)] L' registered_in_def)
  have seq: "currentChangeSeq L' = Inr n" using live_invD(6) [OF inv] by (simp add: L' registered_in_def currentChangeSeq_def n)
  have same: "sameSubscriptionIdentity ?row (rq_subscription a)" by (simp add: sameSubscriptionIdentity_def stored_row_def)
  have hash: "sb_payload_hash ?row = Some ?h" by (simp add: stored_row_def)
  have "persistLiveSubscription sha256 a d L' = Inr (Sub_ok i n, L')"
    using row same hash seq i registered_tables [OF inv assms(3), of sha256 d]
    by (simp add: persistLiveSubscription_def subscription_of_def Let_def ensure_def assertSubscriptionTables_def L')
  moreover have "persistLiveSubscription sha256 b d' L' = Inl subscriptionInvariant"
    if "id_key (rq_subscription b) = id_key i" "subscriptionPayloadHash sha256 b d' \<noteq> ?h"
    using row hash that i by (auto simp: persistLiveSubscription_def subscription_of_def Let_def ensure_def)
  ultimately show ?thesis using row i parse_stored_row [OF assms(2) check] by blast
qed

lemma registration_roundtrip_witness:
  "persistLiveSubscription live_sha sample_live_request ''p'' sample_registered = Inr (Sub_ok sample_live_id 0, sample_registered)"
proof -
  have empty: "live_reachable [] CDB_LIVE_STORE_DDL" by (simp add: live_reachable_def)
  have "json_ok (JObj [])" by (simp add: js_ordered_def)
  moreover have "assertCdbQueryArgsByteLimit (JObj []) = Inr ()" by code_simp
  ultimately have "storable sample_live_request" by (simp add: storable_def sample_live_request_def safe_integer_def)
  moreover have "subscription_of (id_key (rq_subscription sample_live_request)) CDB_LIVE_STORE_DDL = None"
    by (simp add: subscription_of_def CDB_LIVE_STORE_DDL_def sql_one_def)
  ultimately show ?thesis using registration_roundtrip [OF empty _ _ sample_registers] by blast
qed

lemma filter_eq_one: "distinct t \<Longrightarrow> r \<in> set t \<Longrightarrow> filter (\<lambda>s. s = r) t = [r]"
  by (induction t) (auto simp: filter_empty_conv)

lemma sql_changes_one:
  assumes "distinct (map key t)" and "r \<in> set t" and "\<And>s. s \<in> set t \<Longrightarrow> p s \<longleftrightarrow> s = r"
  shows "sql_changes p t = 1"
proof -
  have "filter p t = filter (\<lambda>s. s = r) t" using assms(3) by (rule filter_cong [OF refl])
  then show ?thesis using filter_eq_one [OF _ assms(2)] assms(1) by (simp add: sql_changes_def distinct_map)
qed

text \<open>
  Retirement is permanent until it is finalised. A retired registration has no queued change and no dependent row, no
  request can register it again, and a change of any table never makes it dirty again; finalising removes the row and
  only then can the registration be used again, and finalising again changes nothing.
\<close>
theorem retirement_is_permanent:
  assumes "live_reachable es L" and "retireLiveSubscription i L = Inr L'"
  shows "(id_key (rq_subscription a) = id_key i \<longrightarrow> persistLiveSubscription sha256 a d L' = Inl subscriptionInvariant) \<and>
    \<not> active_key L' (id_key i) \<and> queued L' (id_key i) = None \<and> id_key i \<notin> readers T L' \<and>
    (\<exists>L''. finalizeRetiredLiveSubscription i L' = Inr L'' \<and> subscription_of (id_key i) L'' = None \<and> outbox L'' = outbox L' \<and>
      finalizeRetiredLiveSubscription i L'' = Inr L'')"
proof -
  have inv: "live_inv L" by (rule reachable_live_inv [OF assms(1)])
  note R = retire_keeps [OF inv assms(2)]
  obtain r where r: "subscription_of (id_key i) L' = Some r" "sb_state r = Sub_retired" "sameSubscriptionIdentity r i" using R(4) by blast
  have in_table: "r \<in> set (subscriptions L')" "sub_key r = id_key i" using r(1) subscription_of_iff [OF live_invD(1) [OF R(1)]] by simp_all
  have no: "\<not> active_key L' (id_key i)" using retired_not_active [OF R(1) in_table(1) r(2)] in_table(2) by simp
  have "persistLiveSubscription sha256 a d L' = Inl subscriptionInvariant" if "id_key (rq_subscription a) = id_key i"
    using r that by (auto simp: persistLiveSubscription_def subscription_of_def Let_def ensure_def)
  moreover have "queued L' (id_key i) = None" using R(3) by (simp add: queued_def)
  moreover have "id_key i \<notin> readers T L'" using no by (simp add: readers_def)
  moreover obtain L'' where L'': "finalizeRetiredLiveSubscription i L' = Inr L''"
  proof -
    let ?p = "\<lambda>s. sameSubscriptionIdentity s i \<and> sb_state s = Sub_retired"
    have "s = r" if "s \<in> set (subscriptions L')" "?p s" for s
      using unique_key_row [OF live_invD(1) [OF R(1)] that(1) in_table(1)] that(2) in_table(2)
      by (simp add: sameSubscriptionIdentity_def sub_key_def id_key_def)
    then have "sql_changes ?p (subscriptions L') = 1"
      using r(2,3) by (intro sql_changes_one [OF live_invD(1) [OF R(1)] in_table(1)]) blast
    then show thesis using r that by (simp add: finalizeRetiredLiveSubscription_def subscription_of_def ensure_def)
  qed
  moreover from finalize_Inr [OF R(1) this]
  have "subscription_of (id_key i) L'' = None" "outbox L'' = outbox L'" by simp_all
  moreover from this(1) have "finalizeRetiredLiveSubscription i L'' = Inr L''"
    by (simp add: finalizeRetiredLiveSubscription_def subscription_of_def)
  ultimately show ?thesis using no by blast
qed

lemma sample_retires: "\<exists>L'. retireLiveSubscription sample_live_id sample_changed = Inr L'"
  by (simp add: retireLiveSubscription_def sample_changed_def sample_registered_def registered_in_def CDB_LIVE_STORE_DDL_def Let_def sql_one_def
      sameSubscriptionIdentity_def stored_row_def sub_key_def id_key_def sample_live_id_def sample_live_request_def durableRowCount_def
      retiredTombstoneBytes_def safe_integer_def subscriptionIdentityBytes_def CDB_MAX_RETIRED_TOMBSTONE_BYTES_def ensure_def
      sql_update_checked_def result_simps utf8_Cons utf8_char_def utf8_ascii)

lemma retirement_is_permanent_witness:
  "\<exists>L'. retireLiveSubscription sample_live_id sample_changed = Inr L' \<and> queued L' (''g'', ''r'') = None \<and>
     persistLiveSubscription live_sha sample_live_request ''p'' L' = Inl subscriptionInvariant"
proof -
  obtain L' where L': "retireLiveSubscription sample_live_id sample_changed = Inr L'" using sample_retires by blast
  have k: "id_key (rq_subscription sample_live_request) = id_key sample_live_id" "id_key sample_live_id = (''g'', ''r'')"
    by (simp_all add: sample_live_request_def id_key_def sample_live_id_def)
  show ?thesis using retirement_is_permanent [OF sample_live_reachable(2) L', where a = sample_live_request] L' k by auto
qed

end
