(* ===== verification/Auth_Invalidation.thy ===== *)
theory Auth_Invalidation
  imports Live_Properties
begin

text \<open>
  The projection of authentication epochs onto the live queries of a shard,
  \<^verbatim>\<open>src/src/server/do/cdb-auth-invalidation-store.ts\<close>: a newer epoch of a scope makes every active registration in the
  scope dirty; a replayed or older epoch is answered from the stored row. Like the functions of \<open>Live_Store\<close>, \<open>auth_apply\<close>
  runs inside the caller's transaction.
\<close>

section \<open>Data\<close>

definition CDB_AUTH_INVALIDATION_SCOPE_LIMIT :: nat where "CDB_AUTH_INVALIDATION_SCOPE_LIMIT = 8193"
definition SCOPE_ID_MAX_BYTES :: nat where "SCOPE_ID_MAX_BYTES = 256"

record auth_epoch_row =
  ae_scope :: auth_scope
  ae_scope_id :: string
  ae_epoch :: int
  ae_change_seq :: int
  ae_registrations :: nat
  ae_updated_at :: int

record CdbAuthInvalidationRequest =
  ai_scope :: auth_scope
  ai_scopeId :: string
  ai_epoch :: int
  ai_recoveryGeneration :: int

record CdbAuthInvalidationResult = CdbAuthInvalidationRequest +
  ai_registrations :: nat
  ai_changeSeq :: int

type_synonym auth_tables = "auth_epoch_row list \<times> live_tables"

definition auth_key :: "auth_epoch_row \<Rightarrow> auth_scope \<times> string" where
  "auth_key r = (ae_scope r, ae_scope_id r)"

definition auth_check :: "auth_epoch_row \<Rightarrow> bool" where
  "auth_check r \<longleftrightarrow> 0 < ae_epoch r \<and> 0 \<le> ae_change_seq r \<and> 0 \<le> ae_updated_at r"

section \<open>Operations\<close>

text \<open>The pattern \<open>/^[^\0]+$/\<close>.\<close>

definition SCOPE_ID :: "string \<Rightarrow> bool" where
  "SCOPE_ID s \<longleftrightarrow> s \<noteq> [] \<and> CHR 0x00 \<notin> set s"

definition auth_invalid :: js_error where "auth_invalid = Cdb CDB_INVALID_ARGS"

definition auth_validate :: "CdbAuthInvalidationRequest \<Rightarrow> unit res" where
  "auth_validate q =
     rbind (ensure (SCOPE_ID (ai_scopeId q) \<and> length (utf8 (ai_scopeId q)) \<le> SCOPE_ID_MAX_BYTES \<and>
       (ai_scope q = Scope_global \<longrightarrow> ai_scopeId q = ''global'')) auth_invalid) (\<lambda>_.
     rbind (ensure (safe_integer (ai_epoch q) \<and> 1 \<le> ai_epoch q) auth_invalid) (\<lambda>_.
     ensure (safe_integer (ai_recoveryGeneration q) \<and> 0 \<le> ai_recoveryGeneration q) auth_invalid))"

definition auth_read :: "auth_scope \<Rightarrow> string \<Rightarrow> auth_epoch_row list \<Rightarrow> auth_epoch_row option" where
  "auth_read scope scopeId E = sql_one (\<lambda>r. auth_key r = (scope, scopeId)) E"

definition pruneInactiveScopes :: "live_tables \<Rightarrow> auth_epoch_row list \<Rightarrow> auth_epoch_row list" where
  "pruneInactiveScopes L E =
     (let E1 = sql_delete (\<lambda>r. ae_scope r = Scope_tenant \<and> \<not> (\<exists>s \<in> set (active_rows L). sb_organization_id s = Some (ae_scope_id r))) E in
      sql_delete (\<lambda>r. ae_scope r = Scope_principal \<and> \<not> (\<exists>s \<in> set (active_rows L). sb_principal_id s = Some (ae_scope_id r))) E1)"

definition store_epoch :: "auth_epoch_row \<Rightarrow> auth_epoch_row list \<Rightarrow> auth_epoch_row list res" where
  "store_epoch new E =
     (if auth_read (ae_scope new) (ae_scope_id new) E = None then sql_insert auth_key auth_check new E
      else sql_update_checked auth_check (\<lambda>r. auth_key r = auth_key new \<and> ae_epoch r < ae_epoch new)
        (\<lambda>r. r\<lparr>ae_epoch := ae_epoch new, ae_change_seq := ae_change_seq new, ae_registrations := ae_registrations new,
               ae_updated_at := ae_updated_at new\<rparr>) E)"

definition auth_result :: "CdbAuthInvalidationRequest \<Rightarrow> int \<Rightarrow> nat \<Rightarrow> int \<Rightarrow> CdbAuthInvalidationResult" where
  "auth_result q epoch registrations changeSeq = \<lparr> ai_scope = ai_scope q, ai_scopeId = ai_scopeId q, ai_epoch = epoch,
     ai_recoveryGeneration = ai_recoveryGeneration q, ai_registrations = registrations, ai_changeSeq = changeSeq \<rparr>"

definition new_epoch_row :: "CdbAuthInvalidationRequest \<Rightarrow> nat \<Rightarrow> int \<Rightarrow> int \<Rightarrow> auth_epoch_row" where
  "new_epoch_row q registrations changeSeq nowMs = \<lparr> ae_scope = ai_scope q, ae_scope_id = ai_scopeId q, ae_epoch = ai_epoch q,
     ae_change_seq = changeSeq, ae_registrations = registrations, ae_updated_at = nowMs \<rparr>"

definition scope_room :: "auth_epoch_row option \<Rightarrow> auth_epoch_row list \<Rightarrow> unit res" where
  "scope_room existing E =
     (if existing = None
      then rbind (ensure (safe_integer (int (length E))) (Cdb CDB_INVARIANT)) (\<lambda>_.
        ensure (length E < CDB_AUTH_INVALIDATION_SCOPE_LIMIT) (Cdb CDB_RATE_LIMITED))
      else Inr ())"

definition project_epoch :: "CdbAuthInvalidationRequest \<Rightarrow> int \<Rightarrow> auth_epoch_row option \<Rightarrow> auth_tables \<Rightarrow>
    (CdbAuthInvalidationResult \<times> auth_tables) res" where
  "project_epoch q nowMs existing s =
     (let E1 = pruneInactiveScopes (snd s) (fst s) in
      rbind (scope_room existing E1) (\<lambda>_.
      rbind (enqueueAuthScopeInvalidations (ai_scope q) (ai_scopeId q) (snd s)) (\<lambda>(registrations, changeSeq, L1).
      rbind (store_epoch (new_epoch_row q registrations changeSeq nowMs) E1) (\<lambda>E2.
      Inr (auth_result q (ai_epoch q) registrations changeSeq, E2, L1)))))"

definition auth_apply :: "CdbAuthInvalidationRequest \<Rightarrow> int \<Rightarrow> auth_tables \<Rightarrow> (CdbAuthInvalidationResult \<times> auth_tables) res" where
  "auth_apply q nowMs s =
     rbind (auth_validate q) (\<lambda>_.
     rbind (ensure (safe_integer nowMs \<and> 0 \<le> nowMs) auth_invalid) (\<lambda>_.
     let existing = auth_read (ai_scope q) (ai_scopeId q) (fst s) in
     case existing of
       None \<Rightarrow> project_epoch q nowMs existing s
     | Some r \<Rightarrow> if ai_epoch q \<le> ae_epoch r then Inr (auth_result q (ae_epoch r) (ae_registrations r) (ae_change_seq r), s)
         else project_epoch q nowMs existing s))"

lemma auth_result_simps [simp]:
  "ai_epoch (auth_result q e c n) = e" "ai_registrations (auth_result q e c n) = c" "ai_changeSeq (auth_result q e c n) = n"
  by (simp_all add: auth_result_def)

section \<open>The invariant\<close>

inductive auth_run :: "auth_tables \<Rightarrow> bool" where
  auth_run_init: "auth_run ([], CDB_LIVE_STORE_DDL)"
| auth_run_live: "auth_run (E, L) \<Longrightarrow> live_step L e L' \<Longrightarrow> auth_run (E, L')"
| auth_run_apply: "auth_run s \<Longrightarrow> auth_apply q nowMs s = Inr (res, s') \<Longrightarrow> auth_run s'"

definition auth_inv :: "auth_epoch_row list \<Rightarrow> bool" where
  "auth_inv E \<longleftrightarrow> distinct (map auth_key E) \<and> (\<forall>r \<in> set E. auth_check r \<and> (ae_scope r = Scope_global \<longrightarrow> ae_scope_id r = ''global'')) \<and>
     length E \<le> CDB_AUTH_INVALIDATION_SCOPE_LIMIT"

definition kept_scope :: "live_tables \<Rightarrow> auth_epoch_row \<Rightarrow> bool" where
  "kept_scope L r \<longleftrightarrow> (case ae_scope r of
       Scope_global \<Rightarrow> True
     | Scope_tenant \<Rightarrow> \<exists>s \<in> set (active_rows L). sb_organization_id s = Some (ae_scope_id r)
     | Scope_principal \<Rightarrow> \<exists>s \<in> set (active_rows L). sb_principal_id s = Some (ae_scope_id r))"

lemma prune_filter: "pruneInactiveScopes L E = filter (kept_scope L) E"
  unfolding pruneInactiveScopes_def Let_def sql_delete_def filter_filter
  by (rule filter_cong) (auto simp: kept_scope_def split: auth_scope.splits)

lemma auth_read_iff: "distinct (map auth_key E) \<Longrightarrow> auth_read sc i E = Some r \<longleftrightarrow> r \<in> set E \<and> auth_key r = (sc, i)"
  using sql_one_unique [where key = auth_key and t = E] sql_one_SomeD unfolding auth_read_def by fastforce

lemma auth_read_None: "auth_read sc i E = None \<longleftrightarrow> (\<forall>r \<in> set E. auth_key r \<noteq> (sc, i))"
  by (simp add: auth_read_def sql_one_None_iff)

lemma new_epoch_key [simp]: "auth_key (new_epoch_row q n c t) = (ai_scope q, ai_scopeId q)"
  by (simp add: auth_key_def new_epoch_row_def)

section \<open>Capacity\<close>

text \<open>The scopes that can be kept: the global one and those of active registrations. There are at most 8193.\<close>

definition scope_universe :: "live_tables \<Rightarrow> (auth_scope \<times> string) set" where
  "scope_universe L = insert (Scope_global, ''global'') ((\<lambda>r. (Scope_tenant, the (sb_organization_id r))) ` set (active_rows L) \<union>
     (\<lambda>r. (Scope_principal, the (sb_principal_id r))) ` set (active_rows L))"

lemma card_scope_universe:
  assumes "live_inv L"
  shows "finite (scope_universe L)" "card (scope_universe L) \<le> CDB_AUTH_INVALIDATION_SCOPE_LIMIT"
proof -
  let ?A = "set (active_rows L)"
  show "finite (scope_universe L)" by (simp add: scope_universe_def)
  have "card ?A \<le> 4096"
    using assms card_length [of "active_rows L"]
    by (simp add: live_inv_def registry_inv_def CDB_MAX_ACTIVE_LIVE_REGISTRATIONS_def)
  then have "card ((\<lambda>r. (Scope_tenant, the (sb_organization_id r))) ` ?A) \<le> 4096" "card ((\<lambda>r. (Scope_principal, the (sb_principal_id r))) ` ?A) \<le> 4096"
    by (meson card_image_le finite_set order_trans)+
  then have "card ((\<lambda>r. (Scope_tenant, the (sb_organization_id r))) ` ?A \<union> (\<lambda>r. (Scope_principal, the (sb_principal_id r))) ` ?A) \<le> 8192"
    using card_Un_le [of "(\<lambda>r. (Scope_tenant, the (sb_organization_id r))) ` ?A" "(\<lambda>r. (Scope_principal, the (sb_principal_id r))) ` ?A"] by linarith
  then show "card (scope_universe L) \<le> CDB_AUTH_INVALIDATION_SCOPE_LIMIT"
    by (simp add: scope_universe_def card_insert_if CDB_AUTH_INVALIDATION_SCOPE_LIMIT_def)
qed

lemma kept_in_universe:
  assumes "auth_inv E" and "r \<in> set (pruneInactiveScopes L E)"
  shows "auth_key r \<in> scope_universe L"
  using assms by (cases "ae_scope r") (force simp: prune_filter kept_scope_def auth_inv_def scope_universe_def auth_key_def)+

lemma prune_inv:
  assumes "auth_inv E"
  shows "distinct (map auth_key (pruneInactiveScopes L E))" "\<forall>r \<in> set (pruneInactiveScopes L E). r \<in> set E"
    "length (pruneInactiveScopes L E) \<le> length E"
  using assms by (simp_all add: prune_filter auth_inv_def distinct_keys_filter)

lemma length_pruned: "auth_inv E \<Longrightarrow> length (pruneInactiveScopes L E) = card (auth_key ` set (pruneInactiveScopes L E))"
  by (metis distinct_card length_map list.set_map prune_inv(1))

text \<open>A scope of an active registration always finds room.\<close>

lemma scope_room_ok:
  assumes "live_inv L" and "auth_inv E" and "k \<in> scope_universe L" and "\<forall>r \<in> set (pruneInactiveScopes L E). auth_key r \<noteq> k"
  shows "length (pruneInactiveScopes L E) < CDB_AUTH_INVALIDATION_SCOPE_LIMIT"
proof -
  have "auth_key ` set (pruneInactiveScopes L E) \<subseteq> scope_universe L" using kept_in_universe [OF assms(2)] by (rule image_subsetI)
  moreover have "k \<notin> auth_key ` set (pruneInactiveScopes L E)" using assms(4) by auto
  ultimately have "auth_key ` set (pruneInactiveScopes L E) \<subset> scope_universe L" using assms(3) by blast
  then have "card (auth_key ` set (pruneInactiveScopes L E)) < card (scope_universe L)"
    by (rule psubset_card_mono [OF card_scope_universe(1) [OF assms(1)]])
  then show ?thesis using length_pruned [OF assms(2)] card_scope_universe(2) [OF assms(1)] by simp
qed

section \<open>What one projection does\<close>

lemma enqueue_auth_Inr:
  assumes "live_inv L" and "enqueueAuthScopeInvalidations sc i L = Inr (c, n, L')"
  shows "enqueued (active_subset (in_scope sc i) L) False L (Inr (n, L'))" "c = card (active_subset (in_scope sc i) L)" "0 \<le> n"
proof -
  show en: "enqueued (active_subset (in_scope sc i) L) False L (Inr (n, L'))" and "c = card (active_subset (in_scope sc i) L)"
    using counted_enqueued [OF assms(1)] assms(2) by (simp_all add: enqueueAuthScopeInvalidations_def)
  have "n = clock_of L \<or> n = clock_of L + 1" using en by (auto simp: enqueued_def split: if_splits)
  then show "0 \<le> n" using live_invD(4) [OF assms(1)] by auto
qed

lemma enqueue_auth_total:
  assumes "live_inv L" and "clock_of L < MAX_CHANGE_SEQ"
  obtains c n L' where "enqueueAuthScopeInvalidations sc i L = Inr (c, n, L')"
proof -
  obtain r where r: "counted_enqueue (active_where (in_scope sc i) L) L = with_count (card (active_subset (in_scope sc i) L)) r"
    "enqueued (active_subset (in_scope sc i) L) False L r"
    using enqueued_active [OF assms(1), of "in_scope sc i"] unfolding active_subset_def by blast
  then have "\<exists>n L'. r = Inr (n, L')" using assms(2) by (auto simp: enqueued_def split: if_splits)
  then show thesis using r(1) that by (auto simp: enqueueAuthScopeInvalidations_def with_count_def)
qed

lemma store_epoch_spec:
  assumes "distinct (map auth_key E)" and "\<forall>r \<in> set E. auth_check r" and "auth_check new"
    and "\<And>r. r \<in> set E \<Longrightarrow> auth_key r = auth_key new \<Longrightarrow> ae_epoch r < ae_epoch new"
  shows "\<exists>E'. store_epoch new E = Inr E' \<and> distinct (map auth_key E') \<and> (\<forall>r \<in> set E'. r = new \<or> r \<in> set E) \<and>
    auth_read (ae_scope new) (ae_scope_id new) E' = Some new \<and>
    length E' = length E + (if auth_read (ae_scope new) (ae_scope_id new) E = None then 1 else 0)"
proof (cases "auth_read (ae_scope new) (ae_scope_id new) E")
  case None
  then have fresh: "\<forall>r \<in> set E. auth_key r \<noteq> auth_key new" by (simp add: auth_read_None auth_key_def [of new])
  then have "store_epoch new E = Inr (E @ [new])" using None assms(3) by (simp add: store_epoch_def sql_insert_def)
  moreover have "distinct (map auth_key (E @ [new]))" using assms(1) fresh by auto
  moreover from this have "auth_read (ae_scope new) (ae_scope_id new) (E @ [new]) = Some new"
    by (simp add: auth_read_iff auth_key_def del: map_append)
  ultimately show ?thesis using None by auto
next
  case (Some r0)
  let ?p = "\<lambda>r. auth_key r = auth_key new \<and> ae_epoch r < ae_epoch new"
  let ?f = "\<lambda>r. r\<lparr>ae_epoch := ae_epoch new, ae_change_seq := ae_change_seq new, ae_registrations := ae_registrations new, ae_updated_at := ae_updated_at new\<rparr>"
  have r0: "r0 \<in> set E" "auth_key r0 = auth_key new" using Some assms(1) by (simp_all add: auth_read_iff auth_key_def)
  have f: "?f r = new" if "auth_key r = auth_key new" for r using that by (cases r; cases new) (simp add: auth_key_def)
  have "store_epoch new E = Inr (sql_update ?p ?f E)"
    using Some f assms(3) by (auto simp: store_epoch_def sql_update_checked_def)
  moreover have d: "distinct (map auth_key (sql_update ?p ?f E))" by (rule distinct_keys_sql_update [OF assms(1)]) (simp add: auth_key_def)
  moreover have "\<forall>r \<in> set (sql_update ?p ?f E). r = new \<or> r \<in> set E" using f by (auto simp: table_simps)
  moreover have "new \<in> set (sql_update ?p ?f E)" using r0 assms(4) [OF r0] f [OF r0(2)] by (force simp: table_simps)
  then have "auth_read (ae_scope new) (ae_scope_id new) (sql_update ?p ?f E) = Some new"
    unfolding auth_read_iff [OF d] by (rule conjI) (simp add: auth_key_def)
  ultimately show ?thesis using Some by auto
qed

lemma validated:
  assumes "auth_validate q = Inr ()"
  shows "1 \<le> ai_epoch q" "ai_scope q = Scope_global \<Longrightarrow> ai_scopeId q = ''global''"
  using assms by (auto simp: auth_validate_def result_simps)

lemma project_epoch_Inr:
  assumes "live_inv L" and "auth_inv E" and "auth_validate q = Inr ()" and "0 \<le> nowMs"
    and "project_epoch q nowMs (auth_read (ai_scope q) (ai_scopeId q) E) (E, L) = Inr (res, E', L')"
    and "\<And>r. auth_read (ai_scope q) (ai_scopeId q) E = Some r \<Longrightarrow> ae_epoch r < ai_epoch q"
  shows "enqueued (active_subset (in_scope (ai_scope q) (ai_scopeId q)) L) False L (Inr (ai_changeSeq res, L'))"
    "res = auth_result q (ai_epoch q) (card (active_subset (in_scope (ai_scope q) (ai_scopeId q)) L)) (ai_changeSeq res)"
    "auth_read (ai_scope q) (ai_scopeId q) E' = Some (new_epoch_row q (ai_registrations res) (ai_changeSeq res) nowMs)"
    "auth_inv E'"
    "\<And>r. r \<in> set E' \<Longrightarrow> auth_key r \<noteq> (ai_scope q, ai_scopeId q) \<Longrightarrow> r \<in> set E"
proof -
  let ?E1 = "pruneInactiveScopes L E" and ?x = "auth_read (ai_scope q) (ai_scopeId q) E"
  obtain c n E2 L1 where room: "scope_room ?x ?E1 = Inr ()" and enq: "enqueueAuthScopeInvalidations (ai_scope q) (ai_scopeId q) L = Inr (c, n, L1)"
    and store: "store_epoch (new_epoch_row q c n nowMs) ?E1 = Inr E2" and out: "res = auth_result q (ai_epoch q) c n" "E' = E2" "L' = L1"
    using assms(5) by (auto simp: project_epoch_def Let_def rbind_eq_Inr)
  note En = enqueue_auth_Inr [OF assms(1) enq]
  note P = prune_inv [OF assms(2), of L]
  let ?new = "new_epoch_row q c n nowMs"
  have d: "distinct (map auth_key E)" using assms(2) by (simp add: auth_inv_def)
  have key: "ae_scope ?new = ai_scope q" "ae_scope_id ?new = ai_scopeId q" "ae_epoch ?new = ai_epoch q" by (simp_all add: new_epoch_row_def)
  have "auth_check ?new" using validated(1) [OF assms(3)] En(3) assms(4) by (simp add: auth_check_def new_epoch_row_def)
  moreover have "\<forall>r \<in> set ?E1. auth_check r" using P(2) assms(2) by (auto simp: auth_inv_def)
  moreover have "ae_epoch r < ae_epoch ?new" if "r \<in> set ?E1" "auth_key r = auth_key ?new" for r
    using that P(2) assms(6) [of r] auth_read_iff [OF d] key(3) by (metis new_epoch_key)
  ultimately obtain E3 where E3: "store_epoch ?new ?E1 = Inr E3" "distinct (map auth_key E3)" "\<forall>r \<in> set E3. r = ?new \<or> r \<in> set ?E1"
      "auth_read (ai_scope q) (ai_scopeId q) E3 = Some ?new"
      "length E3 = length ?E1 + (if auth_read (ai_scope q) (ai_scopeId q) ?E1 = None then 1 else 0)"
    using store_epoch_spec [OF P(1), of ?new] unfolding key by blast
  have E': "E' = E3" using store E3(1) out(2) by simp
  show "enqueued (active_subset (in_scope (ai_scope q) (ai_scopeId q)) L) False L (Inr (ai_changeSeq res, L'))"
    "res = auth_result q (ai_epoch q) (card (active_subset (in_scope (ai_scope q) (ai_scopeId q)) L)) (ai_changeSeq res)"
    "auth_read (ai_scope q) (ai_scopeId q) E' = Some (new_epoch_row q (ai_registrations res) (ai_changeSeq res) nowMs)"
    using En out E' E3(4) by (simp_all add: auth_result_def)
  have "length E3 \<le> CDB_AUTH_INVALIDATION_SCOPE_LIMIT"
  proof (cases ?x)
    case None
    then have "length ?E1 < CDB_AUTH_INVALIDATION_SCOPE_LIMIT" using room by (simp add: scope_room_def result_simps)
    then show ?thesis using E3(5) by simp
  next
    case (Some r)
    show ?thesis
    proof (cases "auth_read (ai_scope q) (ai_scopeId q) ?E1")
      case None
      then have "r \<notin> set ?E1" using Some auth_read_iff [OF d] by (auto simp: auth_read_None)
      then have "set ?E1 \<subset> set E" using Some auth_read_iff [OF d] P(2) by blast
      then have "length ?E1 < length E"
        using distinct_card [of E] distinct_card [of ?E1] P(1) d psubset_card_mono [of "set E" "set ?E1"] by (simp add: distinct_map)
      then show ?thesis using E3(5) assms(2) by (simp add: auth_inv_def)
    next
      case (Some r')
      then show ?thesis using E3(5) P(3) assms(2) by (simp add: auth_inv_def)
    qed
  qed
  moreover have "auth_check ?new \<and> (ae_scope ?new = Scope_global \<longrightarrow> ae_scope_id ?new = ''global'')"
    using \<open>auth_check ?new\<close> validated(2) [OF assms(3)] key by simp
  then have "auth_check r \<and> (ae_scope r = Scope_global \<longrightarrow> ae_scope_id r = ''global'')" if "r \<in> set E3" for r
  proof (cases "r = ?new")
    case False
    then have "r \<in> set E" using E3(3) P(2) that by metis
    then show ?thesis using assms(2) by (simp add: auth_inv_def)
  qed simp
  ultimately show "auth_inv E'" using E3(2) unfolding auth_inv_def E' by simp
  show "r \<in> set E" if "r \<in> set E'" "auth_key r \<noteq> (ai_scope q, ai_scopeId q)" for r
    using that E3(3) P(2) unfolding E' by auto
qed

lemma auth_apply_cases:
  assumes "auth_apply q nowMs (E, L) = Inr (res, E', L')"
  obtains (stored) r where "auth_read (ai_scope q) (ai_scopeId q) E = Some r" "ai_epoch q \<le> ae_epoch r" "(E', L') = (E, L)"
      "res = auth_result q (ae_epoch r) (ae_registrations r) (ae_change_seq r)"
    | (newer) "project_epoch q nowMs (auth_read (ai_scope q) (ai_scopeId q) E) (E, L) = Inr (res, E', L')"
      "\<And>r. auth_read (ai_scope q) (ai_scopeId q) E = Some r \<Longrightarrow> ae_epoch r < ai_epoch q"
proof (cases "auth_read (ai_scope q) (ai_scopeId q) E")
  case None
  then show ?thesis using assms newer by (simp add: auth_apply_def result_simps)
next
  case (Some r)
  show ?thesis
  proof (cases "ai_epoch q \<le> ae_epoch r")
    case True
    then show ?thesis using assms Some stored [OF Some True] by (auto simp: auth_apply_def result_simps)
  next
    case False
    then show ?thesis using assms Some newer by (simp add: auth_apply_def result_simps)
  qed
qed

lemma apply_valid: "auth_apply q nowMs s = Inr r \<Longrightarrow> auth_validate q = Inr () \<and> 0 \<le> nowMs"
  by (auto simp: auth_apply_def result_simps)

lemma apply_keeps:
  assumes "live_inv L" and "auth_inv E" and "auth_apply q nowMs (E, L) = Inr (res, E', L')"
  shows "live_inv L' \<and> auth_inv E'"
  using assms(3)
proof (cases rule: auth_apply_cases)
  case (stored r)
  then show ?thesis using assms(1,2) by simp
next
  case newer
  note P = project_epoch_Inr [OF assms(1,2) _ _ newer]
  show ?thesis using P(1,4) enqueued_step [OF assms(1)] apply_valid [OF assms(3)] by blast
qed

lemma auth_run_inv: "auth_run s \<Longrightarrow> auth_inv (fst s) \<and> live_inv (snd s)"
proof (induction rule: auth_run.induct)
  case auth_run_init
  then show ?case using live_inv_DDL by (simp add: auth_inv_def)
next
  case (auth_run_live E L e L')
  then show ?case using live_queue.keeps_inv by auto
next
  case (auth_run_apply s q nowMs res s')
  then show ?case using apply_keeps [of "snd s" "fst s" q nowMs res "fst s'" "snd s'"] by simp
qed

section \<open>Properties\<close>





definition sample_auth :: CdbAuthInvalidationRequest where
  "sample_auth = \<lparr> ai_scope = Scope_tenant, ai_scopeId = ''o'', ai_epoch = 3, ai_recoveryGeneration = 0 \<rparr>"

lemma sample_auth_valid: "auth_validate sample_auth = Inr ()"
  by (simp add: auth_validate_def sample_auth_def SCOPE_ID_def ensure_def safe_integer_def utf8_ascii SCOPE_ID_MAX_BYTES_def)

text \<open>
  The history of scopes is bounded and never in the way. At most 8193 scopes are kept, each once; and since that is one
  for every organization and every principal of the at most 4096 active registrations and one for all, a valid request for
  the global scope or for a scope some active registration belongs to is never refused for lack of room: as long as the
  change clock has numbers left it is accepted.
\<close>
theorem auth_scope_capacity:
  assumes "auth_run (E, L)" and "auth_validate q = Inr ()" and "safe_integer nowMs" and "0 \<le> nowMs" and "clock_of L < MAX_CHANGE_SEQ"
    and "ai_scope q = Scope_global \<or> active_subset (in_scope (ai_scope q) (ai_scopeId q)) L \<noteq> {}"
  shows "length E \<le> CDB_AUTH_INVALIDATION_SCOPE_LIMIT \<and> distinct (map auth_key E) \<and>
    (\<exists>res E' L'. auth_apply q nowMs (E, L) = Inr (res, E', L') \<and> ai_epoch q \<le> ai_epoch res)"
proof -
  have inv: "live_inv L" "auth_inv E" using auth_run_inv [OF assms(1)] by simp_all
  have mem: "(ai_scope q, ai_scopeId q) \<in> scope_universe L"
  proof (cases "ai_scope q")
    case Scope_global
    then show ?thesis using validated(2) [OF assms(2)] by (simp add: scope_universe_def)
  qed (use assms(6) in \<open>force simp: scope_universe_def active_subset_def in_scope_def\<close>)+
  have "\<exists>res E' L'. auth_apply q nowMs (E, L) = Inr (res, E', L') \<and> ai_epoch q \<le> ai_epoch res"
  proof (cases "\<exists>r. auth_read (ai_scope q) (ai_scopeId q) E = Some r \<and> ai_epoch q \<le> ae_epoch r")
    case True
    then show ?thesis using assms(2-4) by (auto simp: auth_apply_def ensure_def auth_result_def)
  next
    case False
    let ?E1 = "pruneInactiveScopes L E"
    have d: "distinct (map auth_key E)" using inv(2) by (simp add: auth_inv_def)
    have "length ?E1 < CDB_AUTH_INVALIDATION_SCOPE_LIMIT" if "auth_read (ai_scope q) (ai_scopeId q) E = None"
    proof (rule scope_room_ok [OF inv mem])
      show "\<forall>r \<in> set ?E1. auth_key r \<noteq> (ai_scope q, ai_scopeId q)" using that prune_inv(2) [OF inv(2)] by (auto simp: auth_read_None)
    qed
    then have room: "scope_room (auth_read (ai_scope q) (ai_scopeId q) E) ?E1 = Inr ()"
      by (cases "auth_read (ai_scope q) (ai_scopeId q) E")
        (simp_all add: scope_room_def ensure_def safe_integer_def CDB_AUTH_INVALIDATION_SCOPE_LIMIT_def)
    obtain c n L1 where enq: "enqueueAuthScopeInvalidations (ai_scope q) (ai_scopeId q) L = Inr (c, n, L1)"
      using enqueue_auth_total [OF inv(1) assms(5)] by metis
    let ?new = "new_epoch_row q c n nowMs"
    have "ae_epoch r < ae_epoch ?new" if "r \<in> set ?E1" "auth_key r = auth_key ?new" for r
    proof -
      have "auth_read (ai_scope q) (ai_scopeId q) E = Some r" using that prune_inv(2) [OF inv(2)] auth_read_iff [OF d] by simp
      then show ?thesis using False by (simp add: new_epoch_row_def not_le)
    qed
    moreover have "auth_check ?new"
      using validated(1) [OF assms(2)] enqueue_auth_Inr(3) [OF inv(1) enq] assms(4) by (simp add: auth_check_def new_epoch_row_def)
    moreover have "\<forall>r \<in> set ?E1. auth_check r" using prune_inv(2) [OF inv(2)] inv(2) by (auto simp: auth_inv_def)
    ultimately obtain E2 where "store_epoch ?new ?E1 = Inr E2"
      using store_epoch_spec [OF prune_inv(1) [OF inv(2)], where new = ?new] by blast
    then have "project_epoch q nowMs (auth_read (ai_scope q) (ai_scopeId q) E) (E, L) = Inr (auth_result q (ai_epoch q) c n, E2, L1)"
      using room enq by (simp add: project_epoch_def)
    then have "auth_apply q nowMs (E, L) = Inr (auth_result q (ai_epoch q) c n, E2, L1)"
      using False assms(2-4) unfolding auth_apply_def Let_def by (cases "auth_read (ai_scope q) (ai_scopeId q) E") (simp_all add: ensure_def)
    then show ?thesis by (simp add: auth_result_def)
  qed
  then show ?thesis using inv(2) by (simp add: auth_inv_def)
qed

lemma sample_auth_scope: "active_subset (in_scope Scope_tenant ''o'') sample_changed = {(''g'', ''r'')}"
  by (auto simp: active_subset_def active_rows_def in_scope_def sample_changed_def sample_registered_def registered_in_def CDB_LIVE_STORE_DDL_def
      stored_row_def sub_key_def sample_live_request_def sample_live_id_def)

lemma sample_auth_run: "auth_run ([], sample_changed)"
proof -
  have "runs live_step q es L \<Longrightarrow> auth_run ([], q) \<Longrightarrow> auth_run ([], L)" for q es L
    by (induction rule: runs.induct) (auto intro: auth_run_live)
  then show ?thesis using sample_live_reachable(2) auth_run_init unfolding live_reachable_def by blast
qed

lemma auth_scope_capacity_witness:
  "\<exists>res E' L'. auth_apply sample_auth 9 ([], sample_changed) = Inr (res, E', L') \<and> 3 \<le> ai_epoch res"
proof -
  have "ai_scope sample_auth = Scope_tenant" "ai_scopeId sample_auth = ''o''" "ai_epoch sample_auth = 3" by (simp_all add: sample_auth_def)
  moreover have "clock_of sample_changed < MAX_CHANGE_SEQ" by (simp add: clock_of_def sample_changed_def MAX_CHANGE_SEQ_def)
  moreover have "safe_integer 9" by (simp add: safe_integer_def)
  ultimately show ?thesis
    using auth_scope_capacity [OF sample_auth_run sample_auth_valid, of 9] sample_auth_scope by simp
qed



end
