(* ===== verification/Cdb_Admission.thy ===== *)
theory Cdb_Admission
  imports Routing_Fence Oplog_Retention "HOL-Library.Product_Lexorder"
begin

text \<open>
  Which requests a shard accepts while ranges move, \<^verbatim>\<open>src/src/server/do/cdb-reshard-runtime.ts\<close>: the checks read the rows of
  \<open>_chardb_split_state\<close> (one per migration the shard takes part in) and the routing fences of \<open>Routing_Fence\<close>.
  Background work is admitted once in TypeScript and once in SQL
  (\<^verbatim>\<open>src/src/server/do/cdb-background-delivery-ownership-sql.ts\<close>); the theory shows that the two agree.
\<close>

section \<open>Reads\<close>

text \<open>The CHECK constraints of the columns the checks read.\<close>

definition split_check :: "split_state_row \<Rightarrow> bool" where
  "split_check r \<longleftrightarrow> (\<forall>g. ss_destination_generation r = Some g \<longrightarrow> 0 < g) \<and> ss_destination_serving r \<in> {0, 1} \<and> ss_abort_started r \<in> {0, 1}"

definition dest_at :: "int \<Rightarrow> split_state_row \<Rightarrow> bool" where
  "dest_at v r \<longleftrightarrow> ss_role r = Role_dest \<and> ss_range_lo r \<le> v \<and> v \<le> ss_range_hi r"

text \<open>\<open>ORDER BY destination_generation DESC, destination_serving DESC, mig_id\<close>; NULL is the smallest value.\<close>

definition destination_order :: "split_state_row \<Rightarrow> bool \<times> int \<times> int \<times> string" where
  "destination_order r = (ss_destination_generation r = None, - (case ss_destination_generation r of None \<Rightarrow> 0 | Some g \<Rightarrow> g),
     - ss_destination_serving r, ss_mig_id r)"

definition destinations :: "int \<Rightarrow> split_state_row list \<Rightarrow> split_state_row list" where
  "destinations v ss = take 3 (sort_key destination_order (filter (dest_at v) ss))"

definition staleOwnership :: js_error where "staleOwnership = Cdb CDB_STALE_EPOCH"

text \<open>The generation of the first row, if it is one, and the rows of that generation.\<close>

definition latest_destinations :: "split_state_row list \<Rightarrow> (int \<times> split_state_row list) res" where
  "latest_destinations ds = (case ds of
       [] \<Rightarrow> Inl staleOwnership
     | d # _ \<Rightarrow> (case ss_destination_generation d of
         None \<Rightarrow> Inl staleOwnership
       | Some g \<Rightarrow> rbind (ensure (safe_integer g \<and> 1 \<le> g) staleOwnership) (\<lambda>_.
           Inr (g, filter (\<lambda>r. ss_destination_generation r = Some g) ds))))"

section \<open>Checks\<close>

definition assertFreshDestinationProvisioningAllowed :: "string \<Rightarrow> split_state_row list \<Rightarrow> unit res" where
  "assertFreshDestinationProvisioningAllowed migId ss =
     (case sql_one (\<lambda>r. ss_mig_id r = migId) ss of
        None \<Rightarrow> Inl (Cdb CDB_RESHARD_PHASE_MISMATCH)
      | Some r \<Rightarrow> ensure (\<not> (ss_role r \<noteq> Role_dest \<or> ss_drained r = 1 \<or> ss_abort_started r = 1 \<or>
          ss_destination_generation r = None \<or> ss_destination_serving r \<noteq> 0)) (Cdb CDB_RESHARD_PHASE_MISMATCH))"

definition destination_admission :: "int \<Rightarrow> int \<Rightarrow> split_state_row list \<Rightarrow> unit res" where
  "destination_admission schemaEpoch v ss =
     (let ds = destinations v ss in
      if ds = [] then Inr ()
      else rbind (latest_destinations ds) (\<lambda>(generation, latest).
        let serving = filter (\<lambda>r. ss_destination_serving r = 1) latest in
        rbind (ensure (\<not> (1 < length serving \<or> (\<exists>r \<in> set latest. ss_destination_serving r \<noteq> 0 \<and> ss_destination_serving r \<noteq> 1)))
          (Cdb CDB_INVARIANT)) (\<lambda>_.
        ensure (\<not> (length serving \<noteq> 1 \<or> schemaEpoch < generation)) staleOwnership)))"

definition assertRoutingAdmission :: "int \<Rightarrow> int \<Rightarrow> split_state_row list \<Rightarrow> fences \<Rightarrow> unit res" where
  "assertRoutingAdmission schemaEpoch v ss t =
     rbind (ensure (sql_one (\<lambda>r. dest_at v r \<and> ss_destination_generation r = None) ss = None) staleOwnership) (\<lambda>_.
     rbind (destination_admission schemaEpoch v ss) (\<lambda>_.
     assertMutationAdmission schemaEpoch v t))"

definition assertBackgroundDeliveryAdmission :: "int \<Rightarrow> split_state_row list \<Rightarrow> fences \<Rightarrow> unit res" where
  "assertBackgroundDeliveryAdmission v ss t =
     rbind (ensure (safe_integer v \<and> 0 \<le> v \<and> v < 16384) (Cdb CDB_INVARIANT)) (\<lambda>_.
     rbind (activeSourceFence v t) (\<lambda>f.
     rbind (ensure (f = None) staleOwnership) (\<lambda>_.
     let ds = destinations v ss in
     if ds = [] then Inr ()
     else rbind (latest_destinations ds) (\<lambda>(generation, latest).
       case latest of
         [r] \<Rightarrow> ensure (ss_destination_serving r = 1 \<and> ss_drained r = 1) staleOwnership
       | _ \<Rightarrow> Inl staleOwnership))))"

definition assertUnplacedRoutingAdmission :: "split_state_row list \<Rightarrow> fences \<Rightarrow> unit res" where
  "assertUnplacedRoutingAdmission ss t =
     ensure (sql_one (\<lambda>r. ss_role r = Role_dest) ss = None \<and> sql_one (\<lambda>f. status f \<noteq> Superseded) t = None) staleOwnership"

definition assertNoActiveReshard :: "split_state_row list \<Rightarrow> unit res" where
  "assertNoActiveReshard ss = ensure (sql_one (\<lambda>r. ss_drained r = 0) ss = None) staleOwnership"

section \<open>The SQL predicate\<close>

text \<open>\<open>a = b\<close> holds in SQL only between values; \<open>MAX\<close> ignores NULL and is NULL when nothing is left.\<close>

definition sql_eq :: "'a option \<Rightarrow> 'a option \<Rightarrow> bool" where
  "sql_eq a b \<longleftrightarrow> a \<noteq> None \<and> a = b"

definition sql_max :: "int option list \<Rightarrow> int option" where
  "sql_max xs = (let vs = List.map_filter (\<lambda>x. x) xs in if vs = [] then None else Some (Max (set vs)))"

definition CDB_BACKGROUND_DELIVERY_OWNERSHIP_SQL :: "int \<Rightarrow> split_state_row list \<Rightarrow> fences \<Rightarrow> bool" where
  "CDB_BACKGROUND_DELIVERY_OWNERSHIP_SQL placement_vshard ss t \<longleftrightarrow>
     \<not> (\<exists>f \<in> set t. rangeLo f \<le> placement_vshard \<and> placement_vshard \<le> rangeHi f \<and> (status f = Active \<or> status f = Cleaned)) \<and>
     (let latest = sql_max (map ss_destination_generation (filter (dest_at placement_vshard) ss)) in
      \<not> (\<exists>d \<in> set ss. dest_at placement_vshard d) \<or>
      length (filter (\<lambda>d. dest_at placement_vshard d \<and> sql_eq (ss_destination_generation d) latest \<and>
        ss_destination_serving d = 1 \<and> ss_drained d = 1) ss) = 1 \<and>
      length (filter (\<lambda>d. dest_at placement_vshard d \<and> sql_eq (ss_destination_generation d) latest) ss) = 1)"

section \<open>Rows in order\<close>

text \<open>When the rows with \<open>p\<close> come first in the order, a limit cuts them like it cuts the whole.\<close>

lemma sorted_prefix:
  assumes "sorted (map f xs)" and "\<And>x y. x \<in> set xs \<Longrightarrow> y \<in> set xs \<Longrightarrow> p x \<Longrightarrow> \<not> p y \<Longrightarrow> f x < f y"
  shows "filter p (take n xs) = take n (filter p xs)"
  using assms
proof (induction xs arbitrary: n)
  case (Cons x xs)
  show ?case
  proof (cases "p x")
    case True
    then show ?thesis using Cons by (cases n) auto
  next
    case False
    have no: "\<not> p y" if "y \<in> set xs" for y using Cons.prems(1) Cons.prems(2) [of y x] that False by force
    then have "filter p (x # xs) = []" using False by (simp add: filter_empty_conv)
    moreover have "filter p (take n (x # xs)) = []"
      using no False by (cases n) (auto simp: filter_empty_conv dest: in_set_takeD)
    ultimately show ?thesis by (simp only: take_Nil)
  qed
qed simp

abbreviation at_generation :: "int \<Rightarrow> split_state_row \<Rightarrow> bool" where
  "at_generation g r \<equiv> ss_destination_generation r = Some g"

text \<open>The first row has the latest generation, and the rows of that generation are a prefix.\<close>

lemma first_destination:
  assumes "sort_key destination_order D = d # ds" and "r \<in> set D" and "ss_destination_generation r = Some h"
  shows "\<exists>g. ss_destination_generation d = Some g \<and> h \<le> g"
proof -
  have "destination_order d \<le> destination_order r"
    using sorted_sort_key [of destination_order D] assms(1,2) by (metis (no_types, lifting) list.set_intros(1) list.simps(9) set_ConsD set_sort sorted_simps(2) image_eqI list.set_map order_refl)
  then show ?thesis using assms(3) by (cases "ss_destination_generation d") (auto simp: destination_order_def less_eq_prod_def less_prod_def)
qed

lemma latest_prefix:
  assumes "sort_key destination_order D = d # ds" and "ss_destination_generation d = Some g"
  shows "filter (at_generation g) (take n (d # ds)) = take n (sort_key destination_order (filter (at_generation g) D))"
proof -
  have "destination_order x < destination_order y"
    if "y \<in> set D" "at_generation g x" "\<not> at_generation g y" for x y
  proof (cases "ss_destination_generation y")
    case None
    then show ?thesis using that by (simp add: destination_order_def less_prod_def)
  next
    case (Some h)
    then have "h < g" using first_destination [OF assms(1) that(1) Some] assms(2) that(3) by auto
    then show ?thesis using that Some by (simp add: destination_order_def less_prod_def)
  qed
  moreover have "set (d # ds) = set D" using assms(1) by (metis set_sort)
  moreover have "sorted (map destination_order (d # ds))" using assms(1) by (metis sorted_sort_key)
  ultimately have "filter (at_generation g) (take n (d # ds)) = take n (filter (at_generation g) (d # ds))"
    by (intro sorted_prefix [where f = destination_order]) blast+
  then show ?thesis unfolding assms(1) [symmetric] filter_sort .
qed

lemma sql_max_first:
  assumes "sort_key destination_order D = d # ds"
  shows "sql_max (map ss_destination_generation D) = ss_destination_generation d"
proof -
  have d: "d \<in> set D" using assms by (metis list.set_intros(1) set_sort)
  let ?vs = "List.map_filter (\<lambda>x. x) (map ss_destination_generation D)"
  have vs: "set ?vs = {h. \<exists>r \<in> set D. ss_destination_generation r = Some h}" by (force simp: List.map_filter_def)
  show ?thesis
  proof (cases "ss_destination_generation d")
    case None
    then have "set ?vs = {}" unfolding vs using first_destination [OF assms] by fastforce
    then show ?thesis using None by (simp add: sql_max_def)
  next
    case (Some g)
    then have "g \<in> set ?vs" unfolding vs using d by blast
    moreover have "h \<le> g" if "h \<in> set ?vs" for h using that first_destination [OF assms] Some unfolding vs by fastforce
    ultimately have "Max (set ?vs) = g" by (intro Max_eqI) auto
    then show ?thesis using \<open>g \<in> set ?vs\<close> Some by (auto simp: sql_max_def Let_def)
  qed
qed

lemma destinations_cases:
  obtains "filter (dest_at v) ss = []" "destinations v ss = []"
    | d ds where "sort_key destination_order (filter (dest_at v) ss) = d # ds" "destinations v ss = d # take 2 ds"
proof (cases "sort_key destination_order (filter (dest_at v) ss)")
  case Nil
  then have "filter (dest_at v) ss = []" by (metis length_0_conv length_sort)
  then show ?thesis using that(1) by (simp add: destinations_def)
next
  case (Cons d ds)
  then show ?thesis using that(2) by (simp add: destinations_def)
qed

lemma take_is_one: "length (take n xs) = 1 \<longleftrightarrow> length xs = 1" if "2 \<le> n"
  using that by auto

lemma sort_key_one: "sort_key f xs = [x] \<longleftrightarrow> xs = [x]"
proof
  assume eq: "sort_key f xs = [x]"
  then have "length xs = 1" by (metis One_nat_def length_Cons length_sort list.size(3))
  then obtain y where "xs = [y]" by (auto simp: length_Suc_conv)
  then show "xs = [x]" using eq by simp
qed simp

lemma ensure_Inr: "ensure b e = Inr () \<longleftrightarrow> b"
  by (simp add: ensure_def)

lemma single_case: "(case xs of [r] \<Rightarrow> ensure (p r) e | _ \<Rightarrow> Inl e) = Inr () \<longleftrightarrow> (\<exists>r. xs = [r] \<and> p r)"
  by (cases xs rule: remdups_adj.cases) (simp_all add: ensure_def)

section \<open>Background work\<close>

lemma activeSourceFence_None:
  assumes "0 \<le> v" and "v < 16384"
  shows "activeSourceFence v t = Inr None \<longleftrightarrow>
    \<not> (\<exists>f \<in> set t. rangeLo f \<le> v \<and> v \<le> rangeHi f \<and> (status f = Active \<or> status f = Cleaned))"
proof -
  let ?p = "\<lambda>r. rangeLo r \<le> v \<and> v \<le> rangeHi r \<and> (status r = Active \<or> status r = Cleaned)"
  have v: "fence_assertVshard v = Inr ()" using assms by (simp add: fence_assertVshard_def ensure_def safe_integer_def VSHARD_COUNT_def)
  have "latest_two ?p t = [] \<longleftrightarrow> filter ?p t = []"
    by (simp add: latest_two_def sort_key_Nil)
  moreover have "activeSourceFence v t = Inr None \<longleftrightarrow> latest_two ?p t = []"
    using v by (cases "latest_two ?p t") (auto simp: activeSourceFence_def Let_def result_simps)
  ultimately show ?thesis by (auto simp: filter_empty_conv)
qed

lemma background_destinations:
  assumes "\<forall>r \<in> set ss. \<forall>g. ss_destination_generation r = Some g \<longrightarrow> safe_integer g \<and> 1 \<le> g"
    and "sort_key destination_order (filter (dest_at v) ss) = d # ds" and "destinations v ss = d # take 2 ds"
  shows "rbind (latest_destinations (destinations v ss)) (\<lambda>(generation, latest).
      case latest of [r] \<Rightarrow> ensure (ss_destination_serving r = 1 \<and> ss_drained r = 1) staleOwnership | _ \<Rightarrow> Inl staleOwnership) = Inr () \<longleftrightarrow>
    (\<exists>g r. ss_destination_generation d = Some g \<and> filter (at_generation g) (filter (dest_at v) ss) = [r] \<and>
      ss_destination_serving r = 1 \<and> ss_drained r = 1)"
proof (cases "ss_destination_generation d")
  case None
  then show ?thesis unfolding assms(3) by (simp add: latest_destinations_def)
next
  case (Some g)
  let ?X = "sort_key destination_order (filter (at_generation g) (filter (dest_at v) ss))"
  have "d \<in> set (filter (dest_at v) ss)" using assms(2) by (metis list.set_intros(1) set_sort)
  then have "safe_integer g \<and> 1 \<le> g" using assms(1) Some by auto
  then have latest: "latest_destinations (destinations v ss) = Inr (g, take 3 ?X)"
    using latest_prefix [OF assms(2) Some, of 3] Some unfolding assms(3) by (simp add: latest_destinations_def ensure_def)
  have "take 3 ?X = [r] \<longleftrightarrow> filter (at_generation g) (filter (dest_at v) ss) = [r]" for r
  proof -
    have "take 3 X = [r] \<longleftrightarrow> X = [r]" for X by (cases X rule: remdups_adj.cases) auto
    then show ?thesis by (simp only: sort_key_one)
  qed
  then show ?thesis unfolding latest rbind.simps prod.case single_case using Some by simp
qed

lemma sql_latest_filter:
  assumes "sort_key destination_order (filter (dest_at v) ss) = d # ds" and "ss_destination_generation d = Some g"
  shows "filter (\<lambda>r. dest_at v r \<and> sql_eq (ss_destination_generation r) (sql_max (map ss_destination_generation (filter (dest_at v) ss))) \<and> q r) ss =
    filter q (filter (at_generation g) (filter (dest_at v) ss))"
  unfolding sql_max_first [OF assms(1)] assms(2) filter_filter by (rule filter_cong) (auto simp: sql_eq_def)

text \<open>
  C19. The SQL predicate says what the TypeScript check says. For every vshard and every content of the two tables whose
  routing generations are safe positive integers, background work for the vshard passes \<open>assertBackgroundDeliveryAdmission\<close>
  exactly when the rows of the vshard satisfy \<open>CDB_BACKGROUND_DELIVERY_OWNERSHIP_SQL\<close>, although one orders and limits the
  rows and the other counts and takes the maximum.
\<close>
theorem background_admission_sql:
  assumes "0 \<le> v" and "v < 16384"
    and "\<forall>r \<in> set ss. \<forall>g. ss_destination_generation r = Some g \<longrightarrow> safe_integer g \<and> 1 \<le> g"
  shows "assertBackgroundDeliveryAdmission v ss t = Inr () \<longleftrightarrow> CDB_BACKGROUND_DELIVERY_OWNERSHIP_SQL v ss t"
proof -
  let ?open = "\<not> (\<exists>f \<in> set t. rangeLo f \<le> v \<and> v \<le> rangeHi f \<and> (status f = Active \<or> status f = Cleaned))"
  let ?dest = "if destinations v ss = [] then Inr () else rbind (latest_destinations (destinations v ss)) (\<lambda>(generation, latest).
      case latest of [r] \<Rightarrow> ensure (ss_destination_serving r = 1 \<and> ss_drained r = 1) staleOwnership | _ \<Rightarrow> Inl staleOwnership)"
  have ts: "assertBackgroundDeliveryAdmission v ss t = Inr () \<longleftrightarrow> ?open \<and> ?dest = Inr ()"
    using assms(1,2) unfolding activeSourceFence_None [OF assms(1,2), symmetric]
    by (auto simp: assertBackgroundDeliveryAdmission_def safe_integer_def ensure_Inr rbind_eq_Inr Let_def)
  let ?m = "sql_max (map ss_destination_generation (filter (dest_at v) ss))"
  have "?dest = Inr () \<longleftrightarrow> (\<not> (\<exists>d \<in> set ss. dest_at v d) \<or>
      length (filter (\<lambda>d. dest_at v d \<and> sql_eq (ss_destination_generation d) ?m \<and> ss_destination_serving d = 1 \<and> ss_drained d = 1) ss) = 1 \<and>
      length (filter (\<lambda>d. dest_at v d \<and> sql_eq (ss_destination_generation d) ?m) ss) = 1)"
  proof (cases rule: destinations_cases [of v ss])
    case 1
    then show ?thesis by (auto simp: filter_empty_conv)
  next
    case (2 d ds)
    have "d \<in> set (filter (dest_at v) ss)" using 2(1) by (metis list.set_intros(1) set_sort)
    then have some: "\<exists>d \<in> set ss. dest_at v d" by auto
    show ?thesis
    proof (cases "ss_destination_generation d")
      case None
      then have "filter (\<lambda>d. dest_at v d \<and> sql_eq (ss_destination_generation d) ?m) ss = []"
        unfolding sql_max_first [OF 2(1)] None by (auto simp: sql_eq_def filter_empty_conv)
      then show ?thesis using background_destinations [OF assms(3) 2] None some 2(2) by simp
    next
      case (Some g)
      let ?X = "filter (at_generation g) (filter (dest_at v) ss)" and ?q = "\<lambda>r. ss_destination_serving r = 1 \<and> ss_drained r = 1"
      have sql: "filter (\<lambda>d. dest_at v d \<and> sql_eq (ss_destination_generation d) ?m \<and> ?q d) ss = filter ?q ?X"
        "filter (\<lambda>d. dest_at v d \<and> sql_eq (ss_destination_generation d) ?m) ss = ?X"
        using sql_latest_filter [OF 2(1) Some, of ?q] sql_latest_filter [OF 2(1) Some, of "\<lambda>_. True"] by simp_all
      have one: "(\<exists>r. X = [r] \<and> ?q r) \<longleftrightarrow> length (filter ?q X) = 1 \<and> length X = 1" for X
        by (cases X rule: remdups_adj.cases) auto
      show ?thesis
        unfolding sql one [symmetric] using background_destinations [OF assms(3) 2] Some some 2(2) by (simp del: filter_filter)
    qed
  qed
  then show ?thesis unfolding ts CDB_BACKGROUND_DELIVERY_OWNERSHIP_SQL_def Let_def by simp
qed

section \<open>Requests\<close>

lemma destination_admission_exact:
  assumes "\<forall>r \<in> set ss. split_check r" and "\<forall>r \<in> set ss. \<forall>g. ss_destination_generation r = Some g \<longrightarrow> safe_integer g"
  shows "destination_admission e v ss = Inr () \<longleftrightarrow> filter (dest_at v) ss = [] \<or>
    (\<exists>g \<le> e. (\<forall>r \<in> set (filter (dest_at v) ss). \<forall>h. ss_destination_generation r = Some h \<longrightarrow> h \<le> g) \<and>
      length (filter (\<lambda>r. dest_at v r \<and> at_generation g r \<and> ss_destination_serving r = 1) ss) = 1)"
proof (cases rule: destinations_cases [of v ss])
  case 1
  then show ?thesis by (simp add: destination_admission_def)
next
  case (2 d ds)
  let ?D = "filter (dest_at v) ss"
  have d: "d \<in> set ?D" using 2(1) by (metis list.set_intros(1) set_sort)
  have ne: "?D \<noteq> []" using d by (metis empty_iff empty_set)
  show ?thesis
  proof (cases "ss_destination_generation d")
    case None
    have "\<not> at_generation g r" if "r \<in> set ?D" for r g using first_destination [OF 2(1) that] None by auto
    then have no: "filter (\<lambda>r. dest_at v r \<and> at_generation g r \<and> ss_destination_serving r = 1) ss = []" for g by (auto simp: filter_empty_conv)
    have "destination_admission e v ss \<noteq> Inr ()" using None by (simp add: destination_admission_def 2(2) latest_destinations_def)
    then show ?thesis using ne no by simp
  next
    case (Some g)
    let ?X = "sort_key destination_order (filter (at_generation g) ?D)" and ?s = "\<lambda>r. ss_destination_serving r = 1"
    have "safe_integer g \<and> 1 \<le> g" using assms d Some by (fastforce simp: split_check_def)
    then have latest: "latest_destinations (destinations v ss) = Inr (g, take 3 ?X)"
      using latest_prefix [OF 2(1) Some, of 3] Some unfolding 2(2) by (simp add: latest_destinations_def ensure_def)
    have X: "x \<in> set ss \<and> ss_destination_generation x = Some g \<and> ss_destination_serving x \<in> {0, 1}" if "x \<in> set ?X" for x
      using that assms(1) by (auto simp: split_check_def)
    have "filter ?s (take 3 ?X) = take 3 (filter ?s ?X)"
    proof (rule sorted_prefix [OF sorted_sort_key])
      show "destination_order x < destination_order y" if "x \<in> set ?X" "y \<in> set ?X" "?s x" "\<not> ?s y" for x y
        using X [OF that(1)] X [OF that(2)] that(3,4) by (auto simp: destination_order_def less_prod_def)
    qed
    moreover have "length (filter ?s ?X) = length (filter (\<lambda>r. dest_at v r \<and> at_generation g r \<and> ?s r) ss)"
      unfolding filter_sort length_sort filter_filter by (simp add: conj_ac cong: filter_cong)
    ultimately have one: "length (filter ?s (take 3 ?X)) = min 3 (length (filter (\<lambda>r. dest_at v r \<and> at_generation g r \<and> ?s r) ss))"
      by simp
    have bits: "\<not> (\<exists>r \<in> set (take 3 ?X). ss_destination_serving r \<noteq> 0 \<and> ss_destination_serving r \<noteq> 1)"
      using X by (meson in_set_takeD insertE singletonD)
    have ts: "destination_admission e v ss = Inr () \<longleftrightarrow> length (filter (\<lambda>r. dest_at v r \<and> at_generation g r \<and> ?s r) ss) = 1 \<and> g \<le> e"
    proof -
      have "destination_admission e v ss = Inr () \<longleftrightarrow> \<not> 1 < length (filter ?s (take 3 ?X)) \<and> length (filter ?s (take 3 ?X)) = 1 \<and> \<not> e < g"
        using latest bits 2(2) by (simp add: destination_admission_def rbind_eq_Inr ensure_Inr Let_def)
      then show ?thesis unfolding one by auto
    qed
    have top: "\<forall>r \<in> set ?D. \<forall>h. ss_destination_generation r = Some h \<longrightarrow> h \<le> g"
      using first_destination [OF 2(1)] Some by fastforce
    have uniq: "g' = g" if above: "\<forall>r \<in> set ?D. \<forall>h. ss_destination_generation r = Some h \<longrightarrow> h \<le> g'"
      and single: "length (filter (\<lambda>r. dest_at v r \<and> at_generation g' r \<and> ?s r) ss) = 1" for g'
    proof -
      have "filter (\<lambda>r. dest_at v r \<and> at_generation g' r \<and> ?s r) ss \<noteq> []" using single by (metis list.size(3) zero_neq_one)
      then obtain r where "r \<in> set ss" "dest_at v r" "at_generation g' r" by (auto simp: filter_empty_conv)
      then have "g' \<le> g" using top by auto
      then show ?thesis using above d Some by fastforce
    qed
    show ?thesis
    proof
      assume "destination_admission e v ss = Inr ()"
      then show "?D = [] \<or> (\<exists>g \<le> e. (\<forall>r \<in> set ?D. \<forall>h. ss_destination_generation r = Some h \<longrightarrow> h \<le> g) \<and>
          length (filter (\<lambda>r. dest_at v r \<and> at_generation g r \<and> ?s r) ss) = 1)"
        using top unfolding ts by blast
    next
      assume "?D = [] \<or> (\<exists>g \<le> e. (\<forall>r \<in> set ?D. \<forall>h. ss_destination_generation r = Some h \<longrightarrow> h \<le> g) \<and>
          length (filter (\<lambda>r. dest_at v r \<and> at_generation g r \<and> ?s r) ss) = 1)"
      then show "destination_admission e v ss = Inr ()" using ne uniq unfolding ts by blast
    qed
  qed
qed

text \<open>
  Request admission is exact. A request with routing generation \<open>e\<close> passes for a vshard exactly when no destination row
  without a generation covers it; when destination rows cover it, exactly one row of the latest generation among them
  serves, and \<open>e\<close> is not older than that generation; and the fences of the shard admit \<open>e\<close>. The order and the limit of the
  query never hide a row that matters.
\<close>
theorem routing_admission_exact:
  assumes "\<forall>r \<in> set ss. split_check r" and "\<forall>r \<in> set ss. \<forall>g. ss_destination_generation r = Some g \<longrightarrow> safe_integer g"
  shows "assertRoutingAdmission e v ss t = Inr () \<longleftrightarrow>
    (\<forall>r \<in> set ss. dest_at v r \<longrightarrow> ss_destination_generation r \<noteq> None) \<and>
    ((\<forall>r \<in> set ss. \<not> dest_at v r) \<or>
     (\<exists>g \<le> e. (\<forall>r \<in> set ss. \<forall>h. dest_at v r \<and> ss_destination_generation r = Some h \<longrightarrow> h \<le> g) \<and>
       length (filter (\<lambda>r. dest_at v r \<and> ss_destination_generation r = Some g \<and> ss_destination_serving r = 1) ss) = 1)) \<and>
    assertMutationAdmission e v t = Inr ()"
proof -
  have "(\<forall>r \<in> set (filter (dest_at v) ss). \<forall>h. ss_destination_generation r = Some h \<longrightarrow> h \<le> g) \<longleftrightarrow>
      (\<forall>r \<in> set ss. \<forall>h. dest_at v r \<and> ss_destination_generation r = Some h \<longrightarrow> h \<le> g)" for g by auto
  note dest = destination_admission_exact [OF assms, of e v, unfolded this filter_empty_conv]
  have "assertRoutingAdmission e v ss t = Inr () \<longleftrightarrow> (\<forall>r \<in> set ss. dest_at v r \<longrightarrow> ss_destination_generation r \<noteq> None) \<and>
      destination_admission e v ss = Inr () \<and> assertMutationAdmission e v t = Inr ()"
    unfolding assertRoutingAdmission_def rbind_eq_Inr by (simp add: ensure_Inr sql_one_None_iff)
  then show ?thesis unfolding dest .
qed

definition sample_destination :: "string \<Rightarrow> int \<Rightarrow> int \<Rightarrow> split_state_row" where
  "sample_destination m g serving = \<lparr> ss_mig_id = m, ss_range_lo = 0, ss_range_hi = 19, ss_role = Role_dest, ss_capture = 0, ss_abort_started = 0,
     ss_destination_generation = Some g, ss_destination_serving = serving, ss_drained = 1 \<rparr>"

definition sample_destinations :: "split_state_row list" where
  "sample_destinations = [sample_destination ''m1'' 2 1, sample_destination ''m2'' 4 0, sample_destination ''m3'' 4 1]"

lemma sample_destinations_ok:
  "\<forall>r \<in> set sample_destinations. split_check r" "\<forall>r \<in> set sample_destinations. \<forall>g. ss_destination_generation r = Some g \<longrightarrow> safe_integer g \<and> 1 \<le> g"
  by (simp_all add: sample_destinations_def sample_destination_def split_check_def safe_integer_def)

lemma sample_admitted: "assertMutationAdmission 5 7 [] = Inr ()"
  by (simp add: assertMutationAdmission_def assertGeneration_def fence_assertVshard_def ensure_def safe_integer_def VSHARD_COUNT_def latest_two_def)

lemma routing_admission_exact_witness:
  "assertRoutingAdmission 5 7 sample_destinations [] = Inr () \<and> assertRoutingAdmission 3 7 sample_destinations [] \<noteq> Inr ()"
proof -
  have ok: "\<forall>r \<in> set sample_destinations. \<forall>g. ss_destination_generation r = Some g \<longrightarrow> safe_integer g" using sample_destinations_ok(2) by blast
  note exact = routing_admission_exact [OF sample_destinations_ok(1) ok]
  have gens: "(\<forall>r \<in> set sample_destinations. \<forall>h. dest_at 7 r \<and> ss_destination_generation r = Some h \<longrightarrow> h \<le> g) \<longleftrightarrow> 4 \<le> g" for g
    by (auto simp: sample_destinations_def sample_destination_def dest_at_def)
  have all: "\<forall>r \<in> set sample_destinations. dest_at 7 r \<and> ss_destination_generation r \<noteq> None"
    by (simp add: sample_destinations_def sample_destination_def dest_at_def)
  have "length (filter (\<lambda>r. dest_at 7 r \<and> ss_destination_generation r = Some 4 \<and> ss_destination_serving r = 1) sample_destinations) = 1"
    by (simp add: sample_destinations_def sample_destination_def dest_at_def)
  then have "assertRoutingAdmission 5 7 sample_destinations [] = Inr ()"
    unfolding exact gens using all sample_admitted by (intro conjI disjI2 exI [of _ 4]) simp_all
  moreover have "assertRoutingAdmission 3 7 sample_destinations [] \<noteq> Inr ()"
    unfolding exact gens using all by (auto simp: sample_destinations_def)
  ultimately show ?thesis by simp
qed

lemma background_admission_sql_witness:
  "\<not> CDB_BACKGROUND_DELIVERY_OWNERSHIP_SQL 7 sample_destinations [] \<and> assertBackgroundDeliveryAdmission 7 sample_destinations [] \<noteq> Inr ()"
proof -
  have "\<not> CDB_BACKGROUND_DELIVERY_OWNERSHIP_SQL 7 sample_destinations []"
    by (simp add: CDB_BACKGROUND_DELIVERY_OWNERSHIP_SQL_def sample_destinations_def sample_destination_def dest_at_def sql_max_def
        List.map_filter_def sql_eq_def)
  then show ?thesis using background_admission_sql [of 7 sample_destinations "[]"] sample_destinations_ok(2) by simp
qed

text \<open>
  No generation is served twice. While the source of a move keeps a fence that is not superseded over a vshard, and the
  destination has a row of the generation the fence hands over, no request generation is admitted by both shards for that
  vshard.
\<close>
theorem no_split_brain:
  assumes "fence_step\<^sup>*\<^sup>* [] source_fences" and "f \<in> set source_fences" and "status f \<noteq> Superseded" and "rangeLo f \<le> v" and "v \<le> rangeHi f"
    and "d \<in> set dest_splits" and "dest_at v d" and "ss_destination_generation d = Some (destinationGeneration f)"
    and "\<forall>r \<in> set dest_splits. split_check r" and "\<forall>r \<in> set dest_splits. \<forall>g. ss_destination_generation r = Some g \<longrightarrow> safe_integer g"
  shows "\<not> (assertRoutingAdmission e v source_splits source_fences = Inr () \<and> assertRoutingAdmission e v dest_splits dest_fences = Inr ())"
proof
  assume both: "assertRoutingAdmission e v source_splits source_fences = Inr () \<and> assertRoutingAdmission e v dest_splits dest_fences = Inr ()"
  have inv: "fence_inv source_fences" by (rule fences.reachable_inv [OF assms(1)])
  have src: "assertMutationAdmission e v source_fences = Inr ()" and dst: "destination_admission e v dest_splits = Inr ()"
    using both by (auto simp: assertRoutingAdmission_def rbind_eq_Inr)
  have range: "safe_integer e" "1 \<le> e" "0 \<le> v" "v < VSHARD_COUNT"
    using src by (auto simp: assertMutationAdmission_def assertGeneration_def fence_assertVshard_def rbind_eq_Inr ensure_Inr)
  have "sourceGeneration f = e"
    using src assms(2-5) unfolding admission_eq [OF inv range] by (auto simp: live_def fence_covers_def split: if_splits)
  moreover have "destinationGeneration f = sourceGeneration f + 1"
    using fence_inv_row [OF inv assms(2)] by (simp add: fence_row_ok_def fence_check_def)
  moreover have "filter (dest_at v) dest_splits \<noteq> []" using assms(6,7) by (auto simp: filter_empty_conv)
  then obtain g where "g \<le> e" "\<forall>r \<in> set (filter (dest_at v) dest_splits). \<forall>h. ss_destination_generation r = Some h \<longrightarrow> h \<le> g"
    using dst unfolding destination_admission_exact [OF assms(9,10)] by blast
  then have "destinationGeneration f \<le> e" using assms(6-8) by fastforce
  ultimately show False by simp
qed

lemma no_split_brain_witness:
  "\<not> (assertRoutingAdmission 3 15 [] [demo_prepared] = Inr () \<and> assertRoutingAdmission 3 15 sample_destinations [] = Inr ())"
proof (rule no_split_brain [OF demo_reachable(1), of demo_prepared 15 "sample_destination ''m3'' 4 1"])
  show "\<forall>r \<in> set sample_destinations. \<forall>g. ss_destination_generation r = Some g \<longrightarrow> safe_integer g" using sample_destinations_ok(2) by blast
qed (simp_all add: sample_destinations_ok(1) demo_defs new_fence_def sample_destinations_def sample_destination_def dest_at_def split_check_def)

end
