(* ===== verification/Schema_Journal.thy ===== *)
theory Schema_Journal
  imports Store Oplog
begin

text \<open>
  The migration journal packaged with a Worker, \<^verbatim>\<open>src/src/server/schema-migrations.ts\<close>: building and validating it, the
  suffix that is pending for a stored version, and the digest of the prefix that is active. Inputs have the shape their
  TypeScript type declares. A resource descriptor is a JSON value; the normalisation of a list of them (\<open>descriptors\<close>)
  (\<^verbatim>\<open>src/src/server/resource-descriptors.ts\<close>) and SHA-256 are arguments.
\<close>

section \<open>Data\<close>

definition MAX_MIGRATIONS :: nat where "MAX_MIGRATIONS = 1024"
definition MAX_MIGRATION_STATEMENTS :: int where "MAX_MIGRATION_STATEMENTS = 4096"
definition MAX_MIGRATION_STATEMENT_BYTES :: int where "MAX_MIGRATION_STATEMENT_BYTES = 1 * 1024 * 1024"
definition MAX_MIGRATION_JOURNAL_BYTES :: int where "MAX_MIGRATION_JOURNAL_BYTES = 16 * 1024 * 1024"

record ChardbMigrationInput =
  mi_version :: int
  mi_name :: string
  mi_statements :: "string list"
  mi_catalogStatements :: "string list option"
  mi_resources :: "json list option"

record ChardbMigration =
  mg_version :: int
  mg_name :: string
  mg_statements :: "string list"
  mg_catalogStatements :: "string list"
  mg_resources :: "json list"
  mg_digest :: string

record ChardbMigrationJournal =
  jn_version :: int
  jn_digest :: string
  jn_migrations :: "ChardbMigration list"

definition invalidJournal :: js_error where "invalidJournal = Cdb CDB_INVALID_ARGS"

text \<open>The pattern \<open>/^[a-z0-9][a-z0-9_-]{0,127}$/\<close>.\<close>

definition name_char :: "char \<Rightarrow> bool" where
  "name_char c \<longleftrightarrow> (let n = (of_char c :: nat) in 48 \<le> n \<and> n \<le> 57 \<or> 97 \<le> n \<and> n \<le> 122)"

definition MIGRATION_NAME :: "string \<Rightarrow> bool" where
  "MIGRATION_NAME s \<longleftrightarrow> (case s of [] \<Rightarrow> False | c # cs \<Rightarrow>
     name_char c \<and> length cs \<le> 127 \<and> list_all (\<lambda>x. name_char x \<or> x \<in> set ''_-'') cs)"

text \<open>\<open>s.trim().length === 0\<close>: the white space and line ends among the first 256 code units.\<close>

definition trim_space :: "char \<Rightarrow> bool" where
  "trim_space c \<longleftrightarrow> (of_char c :: nat) \<in> {9, 10, 11, 12, 13, 32, 160}"

definition blank :: "string \<Rightarrow> bool" where
  "blank s \<longleftrightarrow> list_all trim_space s"

section \<open>Building a journal\<close>

text \<open>The two counters the closures share: statements so far, bytes so far.\<close>

definition own_statement :: "string \<Rightarrow> int \<times> int \<Rightarrow> (int \<times> int) res" where
  "own_statement s acc =
     (let n = fst acc + 1; bytes = int (length (utf8 s)); total = snd acc + bytes in
      rbind (ensure (n \<le> MAX_MIGRATION_STATEMENTS) invalidJournal) (\<lambda>_.
      rbind (ensure (\<not> blank s) invalidJournal) (\<lambda>_.
      rbind (ensure (bytes \<le> MAX_MIGRATION_STATEMENT_BYTES) invalidJournal) (\<lambda>_.
      rbind (ensure (total \<le> MAX_MIGRATION_JOURNAL_BYTES) invalidJournal) (\<lambda>_. Inr (n, total))))))"

definition ownStatements :: "string list \<Rightarrow> int \<times> int \<Rightarrow> (int \<times> int) res" where
  "ownStatements ss acc = rfold own_statement ss acc"

definition statements_json :: "string list \<Rightarrow> json" where
  "statements_json ss = JArr (map JStr ss)"

definition migration_json :: "int \<Rightarrow> string \<Rightarrow> string list \<Rightarrow> string list \<Rightarrow> json list \<Rightarrow> json" where
  "migration_json version name statements catalogStatements resources = JArr
     ([JNum version, JStr name, statements_json statements, statements_json catalogStatements] @
      (if resources = [] then [] else [JArr resources]))"

definition define_migration :: "(json list \<Rightarrow> json list res) \<Rightarrow> (nat list \<Rightarrow> nat list) \<Rightarrow> int \<Rightarrow> ChardbMigrationInput \<Rightarrow> int \<times> int \<Rightarrow>
    (ChardbMigration \<times> int \<times> int) res" where
  "define_migration descriptors sha256 index raw acc =
     (let catalog = (case mi_catalogStatements raw of None \<Rightarrow> [] | Some ss \<Rightarrow> ss) in
      rbind (ensure (mi_version raw = index + 1) invalidJournal) (\<lambda>_.
      rbind (ensure (MIGRATION_NAME (mi_name raw)) invalidJournal) (\<lambda>_.
      rbind (ownStatements (mi_statements raw) acc) (\<lambda>acc1.
      rbind (ownStatements catalog acc1) (\<lambda>acc2.
      rbind (ensure (length (mi_statements raw) + length catalog \<noteq> 0) invalidJournal) (\<lambda>_.
      rbind (case mi_resources raw of None \<Rightarrow> Inr [] | Some rs \<Rightarrow> descriptors rs) (\<lambda>resources.
      Inr (\<lparr> mg_version = mi_version raw, mg_name = mi_name raw, mg_statements = mi_statements raw, mg_catalogStatements = catalog,
             mg_resources = resources,
             mg_digest = stableHashHex sha256 (migration_json (mi_version raw) (mi_name raw) (mi_statements raw) catalog resources) \<rparr>,
           acc2))))))))"

fun define_entries :: "(json list \<Rightarrow> json list res) \<Rightarrow> (nat list \<Rightarrow> nat list) \<Rightarrow> int \<Rightarrow> ChardbMigrationInput list \<Rightarrow> int \<times> int \<Rightarrow>
    ChardbMigration list res" where
  "define_entries descriptors sha256 index [] acc = Inr []"
| "define_entries descriptors sha256 index (raw # rest) acc =
     rbind (define_migration descriptors sha256 index raw acc) (\<lambda>(m, acc').
     rbind (define_entries descriptors sha256 (index + 1) rest acc') (\<lambda>ms. Inr (m # ms)))"

definition prefix_json :: "ChardbMigration list \<Rightarrow> json" where
  "prefix_json ms = JArr (map (\<lambda>m. JArr [JNum (mg_version m), JStr (mg_name m), JStr (mg_digest m)]) ms)"

definition defineMigrations :: "(json list \<Rightarrow> json list res) \<Rightarrow> (nat list \<Rightarrow> nat list) \<Rightarrow> ChardbMigrationInput list \<Rightarrow>
    ChardbMigrationJournal res" where
  "defineMigrations descriptors sha256 input =
     rbind (ensure (length input \<le> MAX_MIGRATIONS) invalidJournal) (\<lambda>_.
     rbind (define_entries descriptors sha256 0 input (0, 0)) (\<lambda>migrations.
     Inr \<lparr> jn_version = int (length migrations), jn_digest = stableHashHex sha256 (prefix_json migrations), jn_migrations = migrations \<rparr>))"

definition contract_changed :: js_error where "contract_changed = Cdb CDB_PARTITION_CONTRACT_CHANGED"

definition pendingMigrations :: "ChardbMigrationJournal \<Rightarrow> int \<Rightarrow> ChardbMigration list res" where
  "pendingMigrations J activeVersion =
     rbind (ensure (safe_integer activeVersion \<and> 0 \<le> activeVersion \<and> activeVersion \<le> jn_version J) contract_changed) (\<lambda>_.
     Inr (drop (nat activeVersion) (jn_migrations J)))"

definition migrationDigestAt :: "(nat list \<Rightarrow> nat list) \<Rightarrow> ChardbMigrationJournal \<Rightarrow> int \<Rightarrow> string res" where
  "migrationDigestAt sha256 J version =
     rbind (ensure (safe_integer version \<and> 0 \<le> version \<and> version \<le> jn_version J) contract_changed) (\<lambda>_.
     Inr (stableHashHex sha256 (prefix_json (take (nat version) (jn_migrations J)))))"

section \<open>Well-formed journals\<close>

definition journal_ok :: "ChardbMigrationJournal \<Rightarrow> bool" where
  "journal_ok J \<longleftrightarrow> jn_version J = int (length (jn_migrations J)) \<and> length (jn_migrations J) \<le> MAX_MIGRATIONS \<and>
     (\<forall>k < length (jn_migrations J). mg_version (jn_migrations J ! k) = int k + 1)"

definition all_statements :: "ChardbMigration list \<Rightarrow> string list" where
  "all_statements ms = concat (map (\<lambda>m. mg_statements m @ mg_catalogStatements m) ms)"

definition total_bytes :: "string list \<Rightarrow> int" where
  "total_bytes ss = sum_list (map (\<lambda>s. int (length (utf8 s))) ss)"

lemma total_bytes_append [simp]: "total_bytes (xs @ ys) = total_bytes xs + total_bytes ys"
  by (simp add: total_bytes_def)

text \<open>Counting on from counters within the limits keeps them within the limits.\<close>

definition within_limits :: "int \<times> int \<Rightarrow> bool" where
  "within_limits acc \<longleftrightarrow> fst acc \<le> MAX_MIGRATION_STATEMENTS \<and> snd acc \<le> MAX_MIGRATION_JOURNAL_BYTES"

definition count_on :: "string list \<Rightarrow> int \<times> int \<Rightarrow> int \<times> int" where
  "count_on ss acc = (fst acc + int (length ss), snd acc + total_bytes ss)"

lemma count_on_append: "count_on ys (count_on xs acc) = count_on (xs @ ys) acc"
  by (simp add: count_on_def)

lemma ownStatements_Inr: "ownStatements ss acc = Inr acc' \<Longrightarrow> within_limits acc \<Longrightarrow> acc' = count_on ss acc \<and> within_limits acc'"
  unfolding ownStatements_def
proof (induction ss arbitrary: acc)
  case Nil
  then show ?case by (cases acc) (simp add: count_on_def total_bytes_def)
next
  case (Cons s ss)
  have "rfold own_statement ss (count_on [s] acc) = Inr acc'" "within_limits (count_on [s] acc)"
    using Cons.prems by (simp_all add: rbind_eq_Inr own_statement_def [of s] Let_def ensure_eq_Inr count_on_def total_bytes_def within_limits_def)
  note Cons.IH [OF this]
  then show ?case unfolding count_on_append append_Cons append_Nil .
qed

lemma define_migration_Inr:
  assumes "define_migration descriptors sha256 index raw acc = Inr (m, acc')" and "within_limits acc"
  shows "mg_version m = index + 1" "mg_statements m = mi_statements raw"
    "acc' = count_on (mg_statements m @ mg_catalogStatements m) acc" "within_limits acc'"
proof -
  let ?catalog = "case mi_catalogStatements raw of None \<Rightarrow> [] | Some ss \<Rightarrow> ss"
  obtain acc1 where r: "ownStatements (mi_statements raw) acc = Inr acc1" "ownStatements ?catalog acc1 = Inr acc'" "mi_version raw = index + 1"
    and m: "mg_version m = mi_version raw" "mg_statements m = mi_statements raw" "mg_catalogStatements m = ?catalog"
    using assms(1) by (auto simp: define_migration_def Let_def rbind_eq_Inr ensure_eq_Inr)
  note S = ownStatements_Inr [OF r(1) assms(2)]
  note S' = ownStatements_Inr [OF r(2) conjunct2 [OF S]]
  show "mg_version m = index + 1" "mg_statements m = mi_statements raw" "within_limits acc'" using r(3) m conjunct2 [OF S'] by simp_all
  show "acc' = count_on (mg_statements m @ mg_catalogStatements m) acc" using S S' by (simp add: m count_on_append)
qed

lemma define_entries_Inr:
  "define_entries descriptors sha256 index raws acc = Inr ms \<Longrightarrow> within_limits acc \<Longrightarrow>
     length ms = length raws \<and> map mg_statements ms = map mi_statements raws \<and> (\<forall>k < length ms. mg_version (ms ! k) = index + int k + 1) \<and>
     within_limits (count_on (all_statements ms) acc)"
proof (induction raws arbitrary: index acc ms)
  case Nil
  then show ?case by (simp add: all_statements_def count_on_def total_bytes_def)
next
  case (Cons raw raws)
  obtain m acc' ms' where m: "define_migration descriptors sha256 index raw acc = Inr (m, acc')"
    and rest: "define_entries descriptors sha256 (index + 1) raws acc' = Inr ms'" and ms: "ms = m # ms'"
    using Cons.prems(1) by (auto simp: rbind_eq_Inr)
  note D = define_migration_Inr [OF m Cons.prems(2)]
  note IH = Cons.IH [OF rest D(4)]
  have "mg_version (ms ! k) = index + int k + 1" if "k < length ms" for k
    using that D(1) IH by (cases k) (auto simp: ms)
  moreover have "all_statements ms = (mg_statements m @ mg_catalogStatements m) @ all_statements ms'" by (simp add: ms all_statements_def)
  then have "within_limits (count_on (all_statements ms) acc)" using IH unfolding D(3) count_on_append by simp
  ultimately show ?case using IH D(2) by (simp add: ms)
qed

lemma defineMigrations_Inr:
  assumes "defineMigrations descriptors sha256 input = Inr J"
  shows "journal_ok J" "map mg_statements (jn_migrations J) = map mi_statements input" "migrationDigestAt sha256 J (jn_version J) = Inr (jn_digest J)"
    "int (length (all_statements (jn_migrations J))) \<le> MAX_MIGRATION_STATEMENTS" "total_bytes (all_statements (jn_migrations J)) \<le> MAX_MIGRATION_JOURNAL_BYTES"
proof -
  obtain ms where ms: "define_entries descriptors sha256 0 input (0, 0) = Inr ms" "length input \<le> MAX_MIGRATIONS"
    "J = \<lparr> jn_version = int (length ms), jn_digest = stableHashHex sha256 (prefix_json ms), jn_migrations = ms \<rparr>"
    using assms by (auto simp: defineMigrations_def rbind_eq_Inr ensure_eq_Inr)
  have "within_limits (0, 0)" by (simp add: within_limits_def MAX_MIGRATION_STATEMENTS_def MAX_MIGRATION_JOURNAL_BYTES_def)
  note D = define_entries_Inr [OF ms(1) this]
  show "journal_ok J" "map mg_statements (jn_migrations J) = map mi_statements input"
    "int (length (all_statements (jn_migrations J))) \<le> MAX_MIGRATION_STATEMENTS" "total_bytes (all_statements (jn_migrations J)) \<le> MAX_MIGRATION_JOURNAL_BYTES"
    using D ms(2,3) by (simp_all add: journal_ok_def within_limits_def count_on_def)
  have "safe_integer (int (length ms))" using D ms(2) by (simp add: safe_integer_def MAX_MIGRATIONS_def)
  then show "migrationDigestAt sha256 J (jn_version J) = Inr (jn_digest J)" by (simp add: migrationDigestAt_def ms(3) ensure_def)
qed

section \<open>The digest of a prefix\<close>

lemma journal_version:
  assumes "journal_ok J" and "0 \<le> v" and "v \<le> jn_version J"
  shows "safe_integer v" "nat v \<le> length (jn_migrations J)"
  using assms by (simp_all add: journal_ok_def safe_integer_def MAX_MIGRATIONS_def)

lemma digest_at: "journal_ok J \<Longrightarrow> 0 \<le> v \<Longrightarrow> v \<le> jn_version J \<Longrightarrow>
    migrationDigestAt sha256 J v = Inr (stableHashHex sha256 (prefix_json (take (nat v) (jn_migrations J))))"
  by (simp add: migrationDigestAt_def ensure_def journal_version)

lemma pending_at: "journal_ok J \<Longrightarrow> 0 \<le> v \<Longrightarrow> v \<le> jn_version J \<Longrightarrow> pendingMigrations J v = Inr (drop (nat v) (jn_migrations J))"
  by (simp add: pendingMigrations_def ensure_def journal_version)

lemma out_of_range:
  "\<not> (0 \<le> v \<and> v \<le> jn_version J) \<Longrightarrow> migrationDigestAt sha256 J v = Inl contract_changed"
  by (auto simp: migrationDigestAt_def ensure_def)

lemma filter_upto_target:
  assumes "journal_ok J" and "v \<le> t" and "t \<le> length (jn_migrations J)"
  shows "filter (\<lambda>m. mg_version m \<le> int t) (drop v (jn_migrations J)) = take (t - v) (drop v (jn_migrations J))"
proof -
  let ?ms = "jn_migrations J"
  have "drop v ?ms = take (t - v) (drop v ?ms) @ drop t ?ms" using assms(2) by (metis append_take_drop_id drop_drop le_add_diff_inverse2)
  moreover have version: "mg_version (?ms ! k) = int k + 1" if "k < length ?ms" for k using that assms(1) by (simp add: journal_ok_def)
  have "filter (\<lambda>m. mg_version m \<le> int t) (take (t - v) (drop v ?ms)) = take (t - v) (drop v ?ms)"
    using assms(2,3) version by (intro filter_True) (auto simp: in_set_conv_nth)
  moreover have "filter (\<lambda>m. mg_version m \<le> int t) (drop t ?ms) = []"
    using version by (auto simp: filter_empty_conv in_set_conv_nth)
  ultimately show ?thesis by (metis append_Nil2 filter_append)
qed

section \<open>What a packaged journal is\<close>

text \<open>
  A journal that \<open>defineMigrations\<close> accepts is numbered 1, 2, 3 and so on without gaps, carries exactly the statements it was
  given, holds at most 1,024 migrations, 4,096 statements and 16 MiB of them, and its digest is the digest of its whole prefix.
\<close>

theorem defineMigrations_ok:
  assumes "defineMigrations descriptors sha256 input = Inr J"
  shows "map mg_version (jn_migrations J) = map (\<lambda>k. int k + 1) [0..<length input] \<and> map mg_statements (jn_migrations J) = map mi_statements input \<and>
    length (jn_migrations J) \<le> 1024 \<and> length (all_statements (jn_migrations J)) \<le> 4096 \<and> total_bytes (all_statements (jn_migrations J)) \<le> 16777216 \<and>
    migrationDigestAt sha256 J (jn_version J) = Inr (jn_digest J)"
proof -
  note D = defineMigrations_Inr [OF assms]
  have "length (jn_migrations J) = length input" using D(2) by (metis length_map)
  then have "map mg_version (jn_migrations J) = map (\<lambda>k. int k + 1) [0..<length input]"
    using D(1) by (intro nth_equalityI) (simp_all add: journal_ok_def)
  then show ?thesis using D by (simp add: journal_ok_def MAX_MIGRATIONS_def MAX_MIGRATION_STATEMENTS_def MAX_MIGRATION_JOURNAL_BYTES_def)
qed

definition sample_migration_input :: ChardbMigrationInput where
  "sample_migration_input = \<lparr> mi_version = 1, mi_name = ''init'', mi_statements = [''CREATE''], mi_catalogStatements = None, mi_resources = None \<rparr>"

lemma sample_input_checks: "MIGRATION_NAME ''init''" "\<not> blank ''CREATE''" "length (utf8 ''CREATE'') = 6"
  by code_simp+

lemma defineMigrations_ok_witness:
  "\<exists>J. defineMigrations Inr (\<lambda>_. []) [sample_migration_input] = Inr J \<and> map mg_version (jn_migrations J) = [1]"
proof -
  have "\<exists>J. defineMigrations Inr (\<lambda>_. []) [sample_migration_input] = Inr J"
    by (simp add: defineMigrations_def define_migration_def ownStatements_def own_statement_def sample_migration_input_def sample_input_checks Let_def ensure_def
      MAX_MIGRATIONS_def MAX_MIGRATION_STATEMENTS_def MAX_MIGRATION_STATEMENT_BYTES_def MAX_MIGRATION_JOURNAL_BYTES_def)
  then obtain J where J: "defineMigrations Inr (\<lambda>_. []) [sample_migration_input] = Inr J" by blast
  with defineMigrations_ok [OF this] show ?thesis by simp
qed

end
