(* ===== verification/Schema_Store.thy ===== *)
theory Schema_Store
  imports Schema_Journal
begin

text \<open>
  The schema version of one shard and its migrations, \<^verbatim>\<open>src/src/server/do/cdb-schema-migration-store.ts\<close>. Every method is
  the whole method: the transaction and the state it returns. Executing one SQL statement on the application's tables
  (\<open>exec\<close>, the SQLite engine), the hooks around the statements of a step, and the recording of the domain schema are
  arguments; they act on the application's tables \<open>'d\<close>, not on the two tables of the store.
\<close>

section \<open>Data\<close>

datatype (plugins only: code) schema_status = Sch_active | Sch_migrating

record StoredCdbSchemaState =
  sc_active_version :: int
  sc_active_epoch :: int
  sc_active_digest :: string
  sc_last_migration_id :: "string option"
  sc_status :: schema_status
  sc_migration_id :: "string option"
  sc_target_version :: "int option"
  sc_target_epoch :: "int option"
  sc_target_digest :: "string option"

record schema_step_row =
  sp_migration_id :: string
  sp_version :: int
  sp_digest :: string
  sp_applied_at :: int

record 'd schema_tables =
  st_state :: "StoredCdbSchemaState option"
  st_steps :: "schema_step_row list"
  st_domain :: 'd

record CdbSchemaTargetRequest =
  sr_migrationId :: string
  sr_targetVersion :: int
  sr_targetEpoch :: int
  sr_targetDigest :: string

record CdbSchemaMigrationPrepareRequest = CdbSchemaTargetRequest +
  sr_activeVersion :: int
  sr_activeDigest :: string

definition schema_state_check :: "StoredCdbSchemaState \<Rightarrow> bool" where
  "schema_state_check s \<longleftrightarrow> 0 \<le> sc_active_version s \<and> 0 < sc_active_epoch s \<and>
     (case sc_status s of
        Sch_active \<Rightarrow> sc_migration_id s = None \<and> sc_target_version s = None \<and> sc_target_epoch s = None \<and> sc_target_digest s = None
      | Sch_migrating \<Rightarrow> sc_migration_id s \<noteq> None \<and> sc_target_version s \<noteq> None \<and> sc_target_epoch s \<noteq> None \<and> sc_target_digest s \<noteq> None)"

definition step_key :: "schema_step_row \<Rightarrow> string \<times> int" where
  "step_key r = (sp_migration_id r, sp_version r)"

definition step_check :: "schema_step_row \<Rightarrow> bool" where
  "step_check r \<longleftrightarrow> 0 < sp_version r \<and> 0 \<le> sp_applied_at r"

definition schema_invalid :: js_error where "schema_invalid = Cdb CDB_INVALID_ARGS"
definition schema_stale :: js_error where "schema_stale = Cdb CDB_STALE_EPOCH"

section \<open>Reading and writing the state\<close>

definition schema_state :: "'d schema_tables \<Rightarrow> StoredCdbSchemaState res" where
  "schema_state T = (case st_state T of None \<Rightarrow> Inl (Cdb CDB_INVARIANT) | Some s \<Rightarrow> Inr s)"

text \<open>\<open>UPDATE ... WHERE singleton = 1 AND p\<close> followed by the check that one row changed.\<close>

definition update_state :: "(StoredCdbSchemaState \<Rightarrow> bool) \<Rightarrow> (StoredCdbSchemaState \<Rightarrow> StoredCdbSchemaState) \<Rightarrow> js_error \<Rightarrow>
    'd schema_tables \<Rightarrow> 'd schema_tables res" where
  "update_state p f e T = (case st_state T of
       None \<Rightarrow> Inl e
     | Some s \<Rightarrow> if \<not> p s then Inl e
         else if schema_state_check (f s) then Inr (T\<lparr>st_state := Some (f s)\<rparr>) else Inl SqliteError)"

definition on_domain :: "('d \<Rightarrow> 'd res) \<Rightarrow> 'd schema_tables \<Rightarrow> 'd schema_tables res" where
  "on_domain f T = rbind (f (st_domain T)) (\<lambda>d. Inr (T\<lparr>st_domain := d\<rparr>))"

definition with_state :: "'d schema_tables \<Rightarrow> (StoredCdbSchemaState \<times> 'd schema_tables) res" where
  "with_state T = rbind (schema_state T) (\<lambda>s. Inr (s, T))"

definition at_target :: "StoredCdbSchemaState \<Rightarrow> string \<Rightarrow> int \<Rightarrow> int \<Rightarrow> string \<Rightarrow> bool" where
  "at_target s migrationId version epoch digest \<longleftrightarrow> sc_last_migration_id s = Some migrationId \<and> sc_active_version s = version \<and>
     sc_active_epoch s = epoch \<and> sc_active_digest s = digest"

section \<open>Boot and admission\<close>

definition assertPackagedSchemaState :: "(nat list \<Rightarrow> nat list) \<Rightarrow> StoredCdbSchemaState \<Rightarrow> ChardbMigrationJournal \<Rightarrow> unit res" where
  "assertPackagedSchemaState sha256 s J =
     rbind (ensure (sc_active_version s \<le> jn_version J) contract_changed) (\<lambda>_.
     rbind (migrationDigestAt sha256 J (sc_active_version s)) (\<lambda>digest.
     rbind (ensure (sc_active_digest s = digest) contract_changed) (\<lambda>_.
     if sc_status s = Sch_migrating
     then (case sc_target_version s of
         None \<Rightarrow> Inl contract_changed
       | Some t \<Rightarrow>
           rbind (ensure (sc_active_version s < t \<and> t \<le> jn_version J \<and> sc_target_epoch s = Some (sc_active_epoch s + 1)) contract_changed) (\<lambda>_.
           rbind (migrationDigestAt sha256 J t) (\<lambda>target. ensure (sc_target_digest s = Some target) contract_changed)))
     else Inr ())))"

text \<open>The flag \<open>ensureDomainTables\<close>, and the tables.\<close>

definition schema_initialize :: "(nat list \<Rightarrow> nat list) \<Rightarrow> ChardbMigrationJournal \<Rightarrow> 'd schema_tables \<Rightarrow> (bool \<times> 'd schema_tables) res" where
  "schema_initialize sha256 J T = (case st_state T of
       None \<Rightarrow>
         rbind (migrationDigestAt sha256 J 0) (\<lambda>digest.
         let s = \<lparr> sc_active_version = 0, sc_active_epoch = 1, sc_active_digest = digest, sc_last_migration_id = None,
             sc_status = Sch_active, sc_migration_id = None, sc_target_version = None, sc_target_epoch = None, sc_target_digest = None \<rparr> in
         Inr (jn_version J = 0, T\<lparr>st_state := Some s\<rparr>))
     | Some s \<Rightarrow>
         rbind (assertPackagedSchemaState sha256 s J) (\<lambda>_.
         Inr (sc_status s = Sch_active \<and> sc_active_version s = jn_version J, T)))"

definition assertActiveEpoch :: "int \<Rightarrow> ChardbMigrationJournal \<Rightarrow> 'd schema_tables \<Rightarrow> StoredCdbSchemaState res" where
  "assertActiveEpoch expectedEpoch J T =
     rbind (ensure (safe_integer expectedEpoch \<and> 1 \<le> expectedEpoch) schema_invalid) (\<lambda>_.
     rbind (schema_state T) (\<lambda>s.
     rbind (ensure (sc_status s = Sch_active \<and> sc_active_version s = jn_version J \<and> sc_active_epoch s = expectedEpoch) schema_stale) (\<lambda>_.
     Inr s)))"

section \<open>Adopting a version without steps\<close>

definition set_active :: "CdbSchemaTargetRequest \<Rightarrow> StoredCdbSchemaState \<Rightarrow> StoredCdbSchemaState" where
  "set_active a s = s\<lparr>sc_active_version := sr_targetVersion a, sc_active_epoch := sr_targetEpoch a,
     sc_active_digest := sr_targetDigest a, sc_last_migration_id := Some (sr_migrationId a)\<rparr>"

text \<open>\<open>afterBaseline\<close> is optional; leaving it out is passing \<open>Inr\<close>.\<close>

definition baseline :: "(nat list \<Rightarrow> nat list) \<Rightarrow> CdbSchemaTargetRequest \<Rightarrow> ChardbMigrationJournal \<Rightarrow> ('d \<Rightarrow> 'd res) \<Rightarrow> ('d \<Rightarrow> 'd res) \<Rightarrow>
    'd schema_tables \<Rightarrow> (StoredCdbSchemaState \<times> 'd schema_tables) res" where
  "baseline sha256 a J recordDomainSchema afterBaseline T =
     rbind (ensure (opaque_id (sr_migrationId a)) schema_invalid) (\<lambda>_.
     rbind (ensure (sr_targetVersion a = jn_version J \<and> 1 \<le> sr_targetVersion a \<and> safe_integer (sr_targetEpoch a) \<and>
       2 \<le> sr_targetEpoch a \<and> sr_targetDigest a = jn_digest J) schema_invalid) (\<lambda>_.
     rbind (schema_state T) (\<lambda>current.
     rbind (if sc_status current = Sch_active \<and> at_target current (sr_migrationId a) (sr_targetVersion a) (sr_targetEpoch a) (sr_targetDigest a)
        then Inr T
        else
          rbind (migrationDigestAt sha256 J 0) (\<lambda>digest0.
          rbind (ensure (sc_status current = Sch_active \<and> sc_active_version current = 0 \<and> sc_active_digest current = digest0 \<and>
            sr_targetEpoch a = sc_active_epoch current + 1) schema_stale) (\<lambda>_.
          rbind (on_domain recordDomainSchema T) (\<lambda>T1.
          rbind (on_domain afterBaseline T1) (\<lambda>T2.
          update_state (\<lambda>s. sc_status s = Sch_active \<and> sc_active_version s = 0 \<and> sc_active_epoch s = sc_active_epoch current)
            (set_active a) schema_stale T2))))) (\<lambda>T'.
     with_state T'))))"

definition step_row :: "string \<Rightarrow> ChardbMigration \<Rightarrow> int \<Rightarrow> schema_step_row" where
  "step_row migrationId m nowMs = \<lparr> sp_migration_id = migrationId, sp_version = mg_version m, sp_digest = mg_digest m, sp_applied_at = nowMs \<rparr>"

definition exec_statements :: "(string \<Rightarrow> 'd \<Rightarrow> 'd res) \<Rightarrow> ChardbMigration \<Rightarrow> 'd \<Rightarrow> 'd res" where
  "exec_statements exec m d = rfold exec (mg_statements m) d"

definition insert_step :: "string \<Rightarrow> int \<Rightarrow> ChardbMigration \<Rightarrow> 'd schema_tables \<Rightarrow> 'd schema_tables res" where
  "insert_step migrationId nowMs m T =
     rbind (sql_insert step_key step_check (step_row migrationId m nowMs) (st_steps T)) (\<lambda>steps. Inr (T\<lparr>st_steps := steps\<rparr>))"

definition replay_migration :: "(string \<Rightarrow> 'd \<Rightarrow> 'd res) \<Rightarrow> string \<Rightarrow> int \<Rightarrow> ChardbMigration \<Rightarrow> 'd schema_tables \<Rightarrow> 'd schema_tables res" where
  "replay_migration exec migrationId nowMs m T = rbind (on_domain (exec_statements exec m) T) (insert_step migrationId nowMs m)"

definition provisionFresh :: "(nat list \<Rightarrow> nat list) \<Rightarrow> (string \<Rightarrow> 'd \<Rightarrow> 'd res) \<Rightarrow> CdbSchemaTargetRequest \<Rightarrow> ChardbMigrationJournal \<Rightarrow>
    ('d \<Rightarrow> unit res) \<Rightarrow> ('d \<Rightarrow> 'd res) \<Rightarrow> ('d \<Rightarrow> 'd res) \<Rightarrow> int \<Rightarrow> 'd schema_tables \<Rightarrow> (StoredCdbSchemaState \<times> 'd schema_tables) res" where
  "provisionFresh sha256 exec a J assertFreshShard recordDomainSchema afterReplay nowMs T =
     rbind (ensure (opaque_id (sr_migrationId a)) schema_invalid) (\<lambda>_.
     rbind (ensure (safe_integer (sr_targetVersion a) \<and> 0 \<le> sr_targetVersion a \<and> sr_targetVersion a \<le> jn_version J \<and>
       safe_integer (sr_targetEpoch a) \<and> 1 \<le> sr_targetEpoch a \<and> (sr_targetVersion a = 0 \<longrightarrow> sr_targetEpoch a = 1) \<and>
       (0 < sr_targetVersion a \<longrightarrow> 2 \<le> sr_targetEpoch a)) schema_invalid) (\<lambda>_.
     rbind (migrationDigestAt sha256 J (sr_targetVersion a)) (\<lambda>digest.
     rbind (ensure (sr_targetDigest a = digest) schema_invalid) (\<lambda>_.
     rbind (schema_state T) (\<lambda>current.
     rbind (if sc_status current = Sch_active \<and> at_target current (sr_migrationId a) (sr_targetVersion a) (sr_targetEpoch a) (sr_targetDigest a)
        then Inr T
        else
          rbind (migrationDigestAt sha256 J 0) (\<lambda>digest0.
          rbind (ensure (sc_status current = Sch_active \<and> sc_active_version current = 0 \<and> sc_active_epoch current = 1 \<and>
            sc_active_digest current = digest0 \<and> sc_last_migration_id current = None) schema_stale) (\<lambda>_.
          rbind (ensure (st_steps T = []) contract_changed) (\<lambda>_.
          rbind (assertFreshShard (st_domain T)) (\<lambda>_.
          rbind (rfold (replay_migration exec (sr_migrationId a) nowMs) (take (nat (sr_targetVersion a)) (jn_migrations J)) T) (\<lambda>T1.
          rbind (on_domain afterReplay T1) (\<lambda>T2.
          rbind (on_domain recordDomainSchema T2) (\<lambda>T3.
          update_state (\<lambda>s. sc_status s = Sch_active \<and> sc_active_version s = 0 \<and> sc_active_epoch s = 1 \<and> sc_last_migration_id s = None)
            (set_active a) schema_stale T3)))))))) (\<lambda>T'.
     with_state T'))))))"

section \<open>Migrating step by step\<close>

definition schema_prepare :: "(nat list \<Rightarrow> nat list) \<Rightarrow> CdbSchemaMigrationPrepareRequest \<Rightarrow> ChardbMigrationJournal \<Rightarrow> 'd schema_tables \<Rightarrow>
    (StoredCdbSchemaState \<times> 'd schema_tables) res" where
  "schema_prepare sha256 a J T =
     rbind (ensure (opaque_id (sr_migrationId a)) schema_invalid) (\<lambda>_.
     rbind (ensure (safe_integer (sr_activeVersion a) \<and> 0 \<le> sr_activeVersion a \<and> safe_integer (sr_targetVersion a) \<and>
       sr_activeVersion a < sr_targetVersion a \<and> sr_targetVersion a = jn_version J \<and> safe_integer (sr_targetEpoch a) \<and>
       1 \<le> sr_targetEpoch a) schema_invalid) (\<lambda>_.
     rbind (migrationDigestAt sha256 J (sr_activeVersion a)) (\<lambda>activeDigest.
     rbind (ensure (sr_activeDigest a = activeDigest) schema_invalid) (\<lambda>_.
     rbind (migrationDigestAt sha256 J (sr_targetVersion a)) (\<lambda>targetDigest.
     rbind (ensure (sr_targetDigest a = targetDigest) schema_invalid) (\<lambda>_.
     rbind (schema_state T) (\<lambda>current.
     rbind (if sc_status current = Sch_migrating
        then rbind (ensure (sc_migration_id current = Some (sr_migrationId a) \<and> sc_active_version current = sr_activeVersion a \<and>
            sc_active_digest current = sr_activeDigest a \<and> sc_target_version current = Some (sr_targetVersion a) \<and>
            sc_target_epoch current = Some (sr_targetEpoch a) \<and> sc_target_digest current = Some (sr_targetDigest a)) schema_stale) (\<lambda>_. Inr T)
        else if at_target current (sr_migrationId a) (sr_targetVersion a) (sr_targetEpoch a) (sr_targetDigest a) then Inr T
        else rbind (ensure (sc_active_version current = sr_activeVersion a \<and> sc_active_digest current = sr_activeDigest a \<and>
            sr_targetEpoch a = sc_active_epoch current + 1) schema_stale) (\<lambda>_.
          update_state (\<lambda>s. sc_status s = Sch_active \<and> sc_active_version s = sr_activeVersion a \<and> sc_active_digest s = sr_activeDigest a)
            (\<lambda>s. s\<lparr>sc_status := Sch_migrating, sc_migration_id := Some (sr_migrationId a), sc_target_version := Some (sr_targetVersion a),
               sc_target_epoch := Some (sr_targetEpoch a), sc_target_digest := Some (sr_targetDigest a)\<rparr>) schema_stale T)) (\<lambda>T'.
     with_state T'))))))))"

text \<open>\<open>SELECT version, digest ... WHERE migration_id = ? ORDER BY version\<close>, and what the journal says they should be.\<close>

definition applied_steps :: "string \<Rightarrow> 'd schema_tables \<Rightarrow> (int \<times> string) list" where
  "applied_steps migrationId T = map (\<lambda>r. (sp_version r, sp_digest r)) (sort_key sp_version (filter (\<lambda>r. sp_migration_id r = migrationId) (st_steps T)))"

definition entry :: "ChardbMigration \<Rightarrow> int \<times> string" where
  "entry m = (mg_version m, mg_digest m)"

definition expected_steps :: "ChardbMigrationJournal \<Rightarrow> int \<Rightarrow> int \<Rightarrow> ChardbMigration list res" where
  "expected_steps J activeVersion targetVersion =
     rbind (pendingMigrations J activeVersion) (\<lambda>ms. Inr (filter (\<lambda>m. mg_version m \<le> targetVersion) ms))"

definition nth_migration :: "ChardbMigrationJournal \<Rightarrow> int \<Rightarrow> ChardbMigration option" where
  "nth_migration J i = (if 0 \<le> i \<and> nat i < length (jn_migrations J) then Some (jn_migrations J ! nat i) else None)"

text \<open>A step whose row is not there yet: the applied steps must be a prefix of the expected ones, and this step the next.\<close>

definition apply_new_step :: "(string \<Rightarrow> 'd \<Rightarrow> 'd res) \<Rightarrow> (int \<Rightarrow> 'd \<Rightarrow> 'd res) \<Rightarrow> (int \<Rightarrow> 'd \<Rightarrow> 'd res) \<Rightarrow> string \<Rightarrow> int \<Rightarrow> int \<Rightarrow>
    ChardbMigration list \<Rightarrow> ChardbMigration \<Rightarrow> 'd schema_tables \<Rightarrow> 'd schema_tables res" where
  "apply_new_step exec beforeStatements afterStatements migrationId version nowMs expected m T =
     (let applied = applied_steps migrationId T in
      rbind (ensure (length applied \<le> length expected \<and> applied = map entry (take (length applied) expected)) contract_changed) (\<lambda>_.
      rbind (ensure (length applied < length expected \<and> mg_version (expected ! length applied) = version) schema_invalid) (\<lambda>_.
      rbind (on_domain (beforeStatements (mg_version m)) T) (\<lambda>T1.
      rbind (on_domain (exec_statements exec m) T1) (\<lambda>T2.
      rbind (on_domain (afterStatements (mg_version m)) T2) (\<lambda>T3.
      insert_step migrationId nowMs m T3))))))"

definition schema_apply :: "(string \<Rightarrow> 'd \<Rightarrow> 'd res) \<Rightarrow> (int \<Rightarrow> 'd \<Rightarrow> 'd res) \<Rightarrow> (int \<Rightarrow> 'd \<Rightarrow> 'd res) \<Rightarrow> string \<Rightarrow> int \<Rightarrow>
    ChardbMigrationJournal \<Rightarrow> int \<Rightarrow> 'd schema_tables \<Rightarrow> (StoredCdbSchemaState \<times> 'd schema_tables) res" where
  "schema_apply exec beforeStatements afterStatements migrationId version J nowMs T =
     rbind (ensure (safe_integer version \<and> 1 \<le> version \<and> version \<le> jn_version J) schema_invalid) (\<lambda>_.
     rbind (schema_state T) (\<lambda>current.
     rbind (if sc_status current \<noteq> Sch_migrating \<or> sc_migration_id current \<noteq> Some migrationId
        then rbind (ensure (sc_status current = Sch_active \<and> sc_last_migration_id current = Some migrationId) schema_stale) (\<lambda>_. Inr T)
        else (case sc_target_version current of
            None \<Rightarrow> Inl schema_invalid
          | Some targetVersion \<Rightarrow>
              rbind (ensure (version \<le> targetVersion) schema_invalid) (\<lambda>_.
              case nth_migration J (version - 1) of
                None \<Rightarrow> Inl contract_changed
              | Some m \<Rightarrow>
                  rbind (ensure (mg_version m = version) contract_changed) (\<lambda>_.
                  case sql_one (\<lambda>r. step_key r = (migrationId, version)) (st_steps T) of
                    Some r \<Rightarrow> rbind (ensure (sp_digest r = mg_digest m) contract_changed) (\<lambda>_. Inr T)
                  | None \<Rightarrow>
                      rbind (expected_steps J (sc_active_version current) targetVersion) (\<lambda>expected.
                      apply_new_step exec beforeStatements afterStatements migrationId version nowMs expected m T))))) (\<lambda>T'.
     with_state T')))"

definition activate_state :: "StoredCdbSchemaState \<Rightarrow> StoredCdbSchemaState" where
  "activate_state s = (case (sc_target_version s, sc_target_epoch s, sc_target_digest s) of
       (Some v, Some e, Some d) \<Rightarrow> s\<lparr>sc_active_version := v, sc_active_epoch := e, sc_active_digest := d, sc_last_migration_id := sc_migration_id s,
         sc_status := Sch_active, sc_migration_id := None, sc_target_version := None, sc_target_epoch := None, sc_target_digest := None\<rparr>
     | _ \<Rightarrow> s)"

definition schema_activate :: "string \<Rightarrow> ChardbMigrationJournal \<Rightarrow> ('d \<Rightarrow> 'd res) \<Rightarrow> 'd schema_tables \<Rightarrow>
    (StoredCdbSchemaState \<times> 'd schema_tables) res" where
  "schema_activate migrationId J recordDomainSchema T =
     rbind (schema_state T) (\<lambda>current.
     rbind (if sc_status current = Sch_active
        then rbind (ensure (sc_last_migration_id current = Some migrationId) schema_stale) (\<lambda>_. Inr T)
        else (case (sc_migration_id current = Some migrationId, sc_target_version current) of
            (True, Some targetVersion) \<Rightarrow>
              rbind (expected_steps J (sc_active_version current) targetVersion) (\<lambda>expected.
              rbind (ensure (applied_steps migrationId T = map entry expected) schema_stale) (\<lambda>_.
              rbind (on_domain recordDomainSchema T) (\<lambda>T1.
              update_state (\<lambda>s. sc_status s = Sch_migrating \<and> sc_migration_id s = Some migrationId) activate_state (Cdb CDB_INVARIANT) T1)))
          | _ \<Rightarrow> Inl schema_stale)) (\<lambda>T'.
     with_state T'))"

end
