(* ===== verification/Schema_Properties.thy ===== *)
theory Schema_Properties
  imports Schema_Store
begin

text \<open>
  What the schema store guarantees over any sequence of its calls: every migration is executed exactly once and in order,
  an epoch identifies one schema, and an interrupted upgrade can always be finished.
\<close>

section \<open>The statements that ran\<close>

text \<open>
  \<open>executed H exec hooks d0 vs d\<close>: the application's tables \<open>d\<close> came from \<open>d0\<close> by executing the statements of the migrations
  \<open>vs\<close> of the history \<open>H\<close>, in this order, with any number of the hooks in between.
\<close>

inductive executed :: "ChardbMigration list \<Rightarrow> (string \<Rightarrow> 'd \<Rightarrow> 'd res) \<Rightarrow> ('d \<Rightarrow> 'd res) set \<Rightarrow> 'd \<Rightarrow> int list \<Rightarrow> 'd \<Rightarrow> bool"
  for H exec hooks d0 where
  executed_init: "executed H exec hooks d0 [] d0"
| executed_statements: "executed H exec hooks d0 vs d \<Longrightarrow> k < length H \<Longrightarrow> exec_statements exec (H ! k) d = Inr d' \<Longrightarrow>
    executed H exec hooks d0 (vs @ [int k + 1]) d'"
| executed_hook: "executed H exec hooks d0 vs d \<Longrightarrow> f \<in> hooks \<Longrightarrow> f d = Inr d' \<Longrightarrow> executed H exec hooks d0 vs d'"

text \<open>A Worker is packaged with a journal, a prefix of the history of all migrations ever written.\<close>

definition deployed :: "ChardbMigration list \<Rightarrow> ChardbMigrationJournal \<Rightarrow> bool" where
  "deployed H K \<longleftrightarrow> journal_ok K \<and> jn_migrations K = take (length (jn_migrations K)) H"

text \<open>One successful call, on the packaged journal and the tables: a boot, perhaps of another deployment, or a method.\<close>

inductive schema_step :: "(nat list \<Rightarrow> nat list) \<Rightarrow> ChardbMigration list \<Rightarrow> (string \<Rightarrow> 'd \<Rightarrow> 'd res) \<Rightarrow> ('d \<Rightarrow> 'd res) set \<Rightarrow>
    ChardbMigrationJournal \<times> 'd schema_tables \<Rightarrow> ChardbMigrationJournal \<times> 'd schema_tables \<Rightarrow> bool" for sha256 H exec hooks where
  step_boot: "deployed H K' \<Longrightarrow> schema_initialize sha256 K' T = Inr (b, T') \<Longrightarrow> schema_step sha256 H exec hooks (K, T) (K', T')"
| step_provision: "provisionFresh sha256 exec a K fresh rec replay now T = Inr (s, T') \<Longrightarrow> rec \<in> hooks \<Longrightarrow> replay \<in> hooks \<Longrightarrow>
    schema_step sha256 H exec hooks (K, T) (K, T')"
| step_prepare: "schema_prepare sha256 a K T = Inr (s, T') \<Longrightarrow> schema_step sha256 H exec hooks (K, T) (K, T')"
| step_apply: "schema_apply exec before after m v K now T = Inr (s, T') \<Longrightarrow> before v \<in> hooks \<Longrightarrow> after v \<in> hooks \<Longrightarrow>
    schema_step sha256 H exec hooks (K, T) (K, T')"
| step_activate: "schema_activate m K rec T = Inr (s, T') \<Longrightarrow> rec \<in> hooks \<Longrightarrow> schema_step sha256 H exec hooks (K, T) (K, T')"

definition new_schema_tables :: "'d \<Rightarrow> 'd schema_tables" where
  "new_schema_tables d0 = \<lparr> st_state = None, st_steps = [], st_domain = d0 \<rparr>"

section \<open>The invariant\<close>

definition steps_between :: "ChardbMigration list \<Rightarrow> int \<Rightarrow> int \<Rightarrow> ChardbMigration list" where
  "steps_between H v t = take (nat (t - v)) (drop (nat v) H)"

definition is_prefix :: "(int \<times> string) list \<Rightarrow> ChardbMigration list \<Rightarrow> bool" where
  "is_prefix A E \<longleftrightarrow> length A \<le> length E \<and> A = map entry (take (length A) E)"

text \<open>How many migrations have been executed.\<close>

definition executed_count :: "ChardbMigration list \<Rightarrow> StoredCdbSchemaState \<Rightarrow> 'd schema_tables \<Rightarrow> int" where
  "executed_count H s T = (case (sc_status s, sc_migration_id s, sc_target_version s) of
       (Sch_migrating, Some m, Some t) \<Rightarrow>
         (if is_prefix (applied_steps m T) (steps_between H (sc_active_version s) t)
          then sc_active_version s + int (length (applied_steps m T)) else sc_active_version s)
     | _ \<Rightarrow> sc_active_version s)"

definition state_inv :: "(nat list \<Rightarrow> nat list) \<Rightarrow> ChardbMigrationJournal \<Rightarrow> StoredCdbSchemaState \<Rightarrow> bool" where
  "state_inv sha256 K s \<longleftrightarrow> schema_state_check s \<and> sc_active_version s \<le> jn_version K \<and>
     migrationDigestAt sha256 K (sc_active_version s) = Inr (sc_active_digest s) \<and>
     (sc_status s = Sch_migrating \<longrightarrow> (\<exists>t d. sc_target_version s = Some t \<and> sc_active_version s < t \<and> t \<le> jn_version K \<and>
        sc_target_epoch s = Some (sc_active_epoch s + 1) \<and> sc_target_digest s = Some d \<and> migrationDigestAt sha256 K t = Inr d))"

definition steps_upto :: "int \<Rightarrow> 'd schema_tables \<Rightarrow> bool" where
  "steps_upto n T \<longleftrightarrow> (\<forall>r \<in> set (st_steps T). 1 \<le> sp_version r \<and> sp_version r \<le> n)"

definition schema_inv :: "(nat list \<Rightarrow> nat list) \<Rightarrow> ChardbMigration list \<Rightarrow> (string \<Rightarrow> 'd \<Rightarrow> 'd res) \<Rightarrow> ('d \<Rightarrow> 'd res) set \<Rightarrow> 'd \<Rightarrow>
    ChardbMigrationJournal \<times> 'd schema_tables \<Rightarrow> bool" where
  "schema_inv sha256 H exec hooks d0 = (\<lambda>(K, T). deployed H K \<and> (case st_state T of
       None \<Rightarrow> T = new_schema_tables d0
     | Some s \<Rightarrow> state_inv sha256 K s \<and> steps_upto (executed_count H s T) T \<and>
         executed H exec hooks d0 [1..executed_count H s T] (st_domain T)))"

lemma steps_between_deployed:
  assumes "deployed H K" and "0 \<le> v" and "v \<le> t" and "t \<le> jn_version K"
  shows "steps_between (jn_migrations K) v t = steps_between H v t"
proof -
  let ?n = "length (jn_migrations K)"
  have "nat v + nat (t - v) \<le> ?n" using assms by (simp add: deployed_def journal_ok_def)
  moreover have "steps_between (jn_migrations K) v t = take (nat (t - v)) (take (?n - nat v) (drop (nat v) H))"
    using assms(1) by (metis deployed_def drop_take steps_between_def)
  ultimately show ?thesis by (simp add: steps_between_def min_absorb1)
qed

lemma nth_deployed: "deployed H K \<Longrightarrow> k < length (jn_migrations K) \<Longrightarrow> jn_migrations K ! k = H ! k \<and> k < length H"
  by (metis deployed_def length_take min_less_iff_conj nth_take)

lemma length_steps_between:
  assumes "deployed H K" and "0 \<le> v" and "v \<le> t" and "t \<le> jn_version K"
  shows "length (steps_between H v t) = nat (t - v)"
proof -
  have "nat v + nat (t - v) \<le> length (jn_migrations K)" using assms by (simp add: deployed_def journal_ok_def)
  then have "length (steps_between (jn_migrations K) v t) = nat (t - v)" by (simp add: steps_between_def)
  then show ?thesis by (simp only: steps_between_deployed [OF assms])
qed

lemma nth_steps_between:
  assumes "deployed H K" and "0 \<le> v" and "v \<le> t" and "t \<le> jn_version K" and "k < nat (t - v)"
  shows "steps_between H v t ! k = H ! (nat v + k)" "nth_migration K (v + int k) = Some (steps_between H v t ! k)"
    "mg_version (steps_between H v t ! k) = v + int k + 1"
proof -
  have len: "nat v + k < length (jn_migrations K)" using assms by (simp add: deployed_def journal_ok_def)
  note N = nth_deployed [OF assms(1) len]
  show nth: "steps_between H v t ! k = H ! (nat v + k)" using assms(5) N by (simp add: steps_between_def)
  have "nat (v + int k) = nat v + k" using assms(2) by simp
  then show "nth_migration K (v + int k) = Some (steps_between H v t ! k)" using nth len N assms(2) by (simp add: nth_migration_def)
  have "mg_version (jn_migrations K ! (nat v + k)) = int (nat v + k) + 1" using len assms(1) by (simp add: deployed_def journal_ok_def)
  then show "mg_version (steps_between H v t ! k) = v + int k + 1" using nth N assms(2) by simp
qed

lemma expected_between:
  assumes "deployed H K" and "0 \<le> v" and "v \<le> t" and "t \<le> jn_version K"
  shows "expected_steps K v t = Inr (steps_between H v t)"
proof -
  have J: "journal_ok K" using assms(1) by (simp add: deployed_def)
  have "v \<le> jn_version K" using assms(3,4) by simp
  moreover have "nat v \<le> nat t" "nat t \<le> length (jn_migrations K)" "int (nat t) = t" "nat (t - v) = nat t - nat v"
    using assms by (simp_all add: deployed_def journal_ok_def nat_diff_distrib)
  ultimately have "expected_steps K v t = Inr (steps_between (jn_migrations K) v t)"
    using filter_upto_target [OF J, of "nat v" "nat t"] pending_at [OF J assms(2)] by (simp add: expected_steps_def steps_between_def)
  then show ?thesis by (simp only: steps_between_deployed [OF assms])
qed

lemma on_domain_Inr: "on_domain f T = Inr T' \<longleftrightarrow> (\<exists>d. f (st_domain T) = Inr d \<and> T' = T\<lparr>st_domain := d\<rparr>)"
  by (auto simp: on_domain_def rbind_eq_Inr)

lemma insert_step_Inr:
  "insert_step m now g T = Inr T' \<longleftrightarrow> (\<forall>r \<in> set (st_steps T). step_key r \<noteq> (m, mg_version g)) \<and> 0 < mg_version g \<and> 0 \<le> now \<and>
     T' = T\<lparr>st_steps := st_steps T @ [step_row m g now]\<rparr>"
  by (auto simp: insert_step_def rbind_eq_Inr sql_insert_Inr step_key_def step_row_def step_check_def)

lemma update_state_Inr:
  "update_state p f e T = Inr T' \<longleftrightarrow> (\<exists>s. st_state T = Some s \<and> p s \<and> schema_state_check (f s) \<and> T' = T\<lparr>st_state := Some (f s)\<rparr>)"
  by (auto simp: update_state_def split: option.splits)

lemma with_state_Inr: "with_state T = Inr (s, T') \<longleftrightarrow> T' = T \<and> st_state T = Some s"
  by (auto simp: with_state_def schema_state_def rbind_eq_Inr split: option.splits)

lemma schema_state_Inr: "schema_state T = Inr s \<longleftrightarrow> st_state T = Some s"
  by (auto simp: schema_state_def split: option.splits)

lemmas schema_Inr = on_domain_Inr insert_step_Inr update_state_Inr with_state_Inr schema_state_Inr rbind_eq_Inr ensure_eq_Inr

section \<open>What each call changed\<close>

lemma schema_prepare_cases:
  assumes "schema_prepare sha256 a K T = Inr (s, T')"
  obtains (same) "T' = T"
  | (prepared) s0 where "st_state T = Some s0" "sc_status s0 = Sch_active" "sc_active_version s0 < sr_targetVersion a"
      "sr_targetVersion a = jn_version K" "sr_targetEpoch a = sc_active_epoch s0 + 1"
      "migrationDigestAt sha256 K (sr_targetVersion a) = Inr (sr_targetDigest a)" "schema_state_check s"
      "s = s0\<lparr>sc_status := Sch_migrating, sc_migration_id := Some (sr_migrationId a), sc_target_version := Some (sr_targetVersion a),
         sc_target_epoch := Some (sr_targetEpoch a), sc_target_digest := Some (sr_targetDigest a)\<rparr>"
      "T' = T\<lparr>st_state := Some s\<rparr>"
proof (cases "T' = T")
  case True
  then show ?thesis by (rule same)
next
  case False
  from assms False show ?thesis
    by (auto simp: schema_prepare_def schema_Inr split: if_splits intro: prepared)
qed

lemma schema_apply_cases:
  assumes "schema_apply exec before after m v K now T = Inr (s, T')"
  obtains (same) "T' = T"
  | (applied) s0 t g expected where "st_state T = Some s0" "sc_status s0 = Sch_migrating" "sc_migration_id s0 = Some m"
      "sc_target_version s0 = Some t" "v \<le> t" "nth_migration K (v - 1) = Some g" "mg_version g = v"
      "\<forall>r \<in> set (st_steps T). step_key r \<noteq> (m, v)" "expected_steps K (sc_active_version s0) t = Inr expected"
      "apply_new_step exec before after m v now expected g T = Inr T'"
proof (cases "T' = T")
  case True
  then show ?thesis by (rule same)
next
  case False
  from assms obtain s0 where s0: "st_state T = Some s0" by (auto simp: schema_apply_def schema_Inr)
  show ?thesis using assms False
    by (auto simp: schema_apply_def schema_Inr s0 sql_one_None_iff split: if_splits option.splits intro: applied [OF s0])
qed

lemma schema_activate_cases:
  assumes "schema_activate m K rec T = Inr (s, T')"
  obtains (same) "T' = T" "st_state T = Some s" "sc_status s = Sch_active" "sc_last_migration_id s = Some m"
  | (activated) s0 t expected d where "st_state T = Some s0" "sc_status s0 = Sch_migrating" "sc_migration_id s0 = Some m"
      "sc_target_version s0 = Some t" "expected_steps K (sc_active_version s0) t = Inr expected" "applied_steps m T = map entry expected"
      "rec (st_domain T) = Inr d" "s = activate_state s0" "schema_state_check s" "T' = T\<lparr>st_domain := d, st_state := Some s\<rparr>"
proof -
  from assms obtain s0 where s0: "st_state T = Some s0" by (auto simp: schema_activate_def schema_Inr)
  show ?thesis
  proof (cases "sc_status s0")
    case Sch_active
    then have "T' = T" "s = s0" "sc_last_migration_id s0 = Some m" using assms s0 by (auto simp: schema_activate_def schema_Inr)
    then show ?thesis using s0 Sch_active by (intro same) simp_all
  next
    case Sch_migrating
    then show ?thesis using assms
      by (auto simp: schema_activate_def schema_Inr s0 split: option.splits bool.splits intro: activated [OF s0])
  qed
qed

lemma provision_cases:
  assumes "provisionFresh sha256 exec a K fresh rec replay now T = Inr (s, T')"
  obtains (same) "T' = T"
  | (provisioned) s0 T1 d2 d3 where "st_state T = Some s0" "sc_status s0 = Sch_active" "sc_active_version s0 = 0" "sc_active_epoch s0 = 1"
      "migrationDigestAt sha256 K 0 = Inr (sc_active_digest s0)" "st_steps T = []" "0 \<le> sr_targetVersion a"
      "sr_targetVersion a \<le> jn_version K" "sr_targetVersion a = 0 \<longrightarrow> sr_targetEpoch a = 1" "0 < sr_targetVersion a \<longrightarrow> 2 \<le> sr_targetEpoch a"
      "migrationDigestAt sha256 K (sr_targetVersion a) = Inr (sr_targetDigest a)"
      "rfold (replay_migration exec (sr_migrationId a) now) (take (nat (sr_targetVersion a)) (jn_migrations K)) T = Inr T1"
      "replay (st_domain T1) = Inr d2" "rec d2 = Inr d3" "st_state T1 = Some s0 \<longrightarrow> s = set_active a s0 \<and> schema_state_check s"
      "T' = T1\<lparr>st_domain := d3, st_state := Some s\<rparr>"
proof (cases "T' = T")
  case True
  then show ?thesis by (rule same)
next
  case False
  from assms obtain s0 where s0: "st_state T = Some s0" by (auto simp: provisionFresh_def schema_Inr)
  show ?thesis using assms False
    by (auto simp: provisionFresh_def schema_Inr s0 split: if_splits intro: provisioned [OF s0])
qed

lemma baseline_cases:
  assumes "baseline sha256 a K rec after T = Inr (s, T')"
  obtains (same) "T' = T" "st_state T = Some s" "sc_status s = Sch_active"
      "at_target s (sr_migrationId a) (sr_targetVersion a) (sr_targetEpoch a) (sr_targetDigest a)"
  | (adopted) s0 d where "st_state T = Some s0" "sc_status s0 = Sch_active" "sc_active_version s0 = 0"
      "sr_targetEpoch a = sc_active_epoch s0 + 1" "s = set_active a s0" "T' = T\<lparr>st_domain := d, st_state := Some s\<rparr>"
proof -
  from assms obtain s0 where s0: "st_state T = Some s0" by (auto simp: baseline_def schema_Inr)
  show ?thesis
  proof (cases "sc_status s0 = Sch_active \<and> at_target s0 (sr_migrationId a) (sr_targetVersion a) (sr_targetEpoch a) (sr_targetDigest a)")
    case True
    then have "T' = T" "s = s0" using assms s0 by (auto simp: baseline_def schema_Inr)
    then show ?thesis using s0 True by (intro same) simp_all
  next
    case False
    then show ?thesis using assms by (auto simp: baseline_def schema_Inr s0 split: if_splits intro: adopted [OF s0])
  qed
qed

lemma new_step_cases:
  assumes "apply_new_step exec before after m v now E g T = Inr T'"
  obtains d1 d2 d3 where "is_prefix (applied_steps m T) E" "length (applied_steps m T) < length E"
    "mg_version (E ! length (applied_steps m T)) = v" "before (mg_version g) (st_domain T) = Inr d1" "exec_statements exec g d1 = Inr d2"
    "after (mg_version g) d2 = Inr d3" "\<forall>r \<in> set (st_steps T). step_key r \<noteq> (m, mg_version g)"
    "T' = T\<lparr>st_domain := d3, st_steps := st_steps T @ [step_row m g now]\<rparr>"
  using assms that by (force simp: apply_new_step_def Let_def schema_Inr is_prefix_def)

section \<open>Rows in order\<close>

lemma insort_key_snoc: "f y \<le> f x \<Longrightarrow> insort_key f y (zs @ [x]) = insort_key f y zs @ [x]"
  by (induction zs) auto

lemma sort_key_snoc: "\<forall>y \<in> set xs. f y \<le> f x \<Longrightarrow> sort_key f (xs @ [x]) = sort_key f xs @ [x]"
  by (induction xs) (simp_all add: insort_key_snoc)

lemma applied_steps_new:
  assumes "\<forall>r \<in> set (st_steps T). sp_migration_id r = m \<longrightarrow> sp_version r \<le> n" and "n < mg_version g"
  shows "applied_steps m (T\<lparr>st_domain := d, st_steps := st_steps T @ [step_row m g now]\<rparr>) = applied_steps m T @ [entry g]"
proof -
  have "\<forall>y \<in> set (filter (\<lambda>r. sp_migration_id r = m) (st_steps T)). sp_version y \<le> sp_version (step_row m g now)"
    using assms by (force simp: step_row_def)
  from sort_key_snoc [OF this] show ?thesis by (simp add: applied_steps_def entry_def step_row_def)
qed

lemma applied_steps_empty: "applied_steps m T = [] \<longleftrightarrow> (\<forall>r \<in> set (st_steps T). sp_migration_id r \<noteq> m)"
proof -
  have E: "sort_key sp_version rs = [] \<longleftrightarrow> rs = []" for rs
    using set_sort [of sp_version rs] by (cases rs) (auto simp del: set_sort sort_key_simps)
  show ?thesis unfolding applied_steps_def map_is_Nil_conv E filter_empty_conv ..
qed

text \<open>Steps of an earlier upgrade are never taken for steps of this one.\<close>

lemma prefix_of_later:
  assumes "steps_upto v T" and "is_prefix (applied_steps m T) (steps_between H v t)"
    and "deployed H K" and "0 \<le> v" and "v \<le> t" and "t \<le> jn_version K"
  shows "applied_steps m T = []"
proof (rule ccontr)
  let ?A = "applied_steps m T" and ?E = "steps_between H v t"
  assume "?A \<noteq> []"
  then have "0 < length ?A" and "0 < length ?E" using assms(2) by (auto simp: is_prefix_def)
  have "?A = map entry (take (length ?A) ?E)" using assms(2) by (simp add: is_prefix_def)
  then have "?A ! 0 = entry (?E ! 0)" using \<open>0 < length ?A\<close> \<open>0 < length ?E\<close>
    by (metis length_map nth_map nth_take)
  moreover have "0 < nat (t - v)" using \<open>0 < length ?E\<close> length_steps_between [OF assms(3-6)] by simp
  ultimately have "fst (?A ! 0) = v + 1" using nth_steps_between(3) [OF assms(3-6), of 0] by (simp add: entry_def)
  moreover have "fst e \<le> v" if "e \<in> set ?A" for e using that assms(1) by (auto simp: applied_steps_def steps_upto_def)
  then have "fst (?A ! 0) \<le> v" using \<open>?A \<noteq> []\<close> by simp
  ultimately show False by simp
qed

section \<open>Every call keeps the invariant\<close>

lemma count_active: "sc_status s = Sch_active \<Longrightarrow> executed_count H s T = sc_active_version s"
  by (simp add: executed_count_def)

lemma count_migrating:
  "sc_status s = Sch_migrating \<Longrightarrow> sc_migration_id s = Some m \<Longrightarrow> sc_target_version s = Some t \<Longrightarrow>
     executed_count H s T = (if is_prefix (applied_steps m T) (steps_between H (sc_active_version s) t)
       then sc_active_version s + int (length (applied_steps m T)) else sc_active_version s)"
  by (simp add: executed_count_def)

lemma executed_snoc:
  assumes "executed H exec hooks d0 [1..n] d" and "0 \<le> n" and "nat n < length H" and "exec_statements exec (H ! nat n) d = Inr d'"
  shows "executed H exec hooks d0 [1..n + 1] d'"
proof -
  have "[1..n + 1] = [1..n] @ [int (nat n) + 1]" using assms(2) by (simp add: upto_rec2)
  then show ?thesis using executed_statements [OF assms(1,3,4)] by simp
qed

lemma assertPackaged_Inr:
  "assertPackagedSchemaState sha256 s K = Inr u \<Longrightarrow> schema_state_check s \<Longrightarrow> state_inv sha256 K s"
  by (auto simp: assertPackagedSchemaState_def schema_Inr state_inv_def ensure_def split: if_splits option.splits)

lemma replay_executed:
  assumes "deployed H K" and "t \<le> jn_version K" and "rfold (replay_migration exec m now) (steps_between H c t) T = Inr T'"
    and "0 \<le> c" "c \<le> t" "steps_upto c T" "executed H exec hooks d0 [1..c] (st_domain T)"
  shows "steps_upto t T' \<and> executed H exec hooks d0 [1..t] (st_domain T') \<and> st_state T' = st_state T"
  using assms(3-)
proof (induction "nat (t - c)" arbitrary: c T)
  case 0
  then have "c = t" by simp
  then show ?case using 0 by (simp add: steps_between_def)
next
  case (Suc n)
  then have c: "0 \<le> c" "c < t" "0 < nat (t - c)" by simp_all
  let ?g = "H ! nat c"
  note g = nth_steps_between [OF assms(1) c(1) order_less_imp_le [OF c(2)] assms(2) c(3)]
  have len: "nat c < length (jn_migrations K)" using c assms(1,2) by (simp add: deployed_def journal_ok_def)
  note N = nth_deployed [OF assms(1) len]
  have split: "steps_between H c t = ?g # steps_between H (c + 1) t"
    using N c by (simp add: steps_between_def nat_add_distrib nat_diff_distrib flip: Cons_nth_drop_Suc) (simp add: take_Cons')
  obtain T1 where T1: "replay_migration exec m now ?g T = Inr T1" and rest: "rfold (replay_migration exec m now) (steps_between H (c + 1) t) T1 = Inr T'"
    using Suc.prems(1) by (auto simp: split schema_Inr)
  obtain d where d: "exec_statements exec ?g (st_domain T) = Inr d" and T1': "T1 = T\<lparr>st_domain := d, st_steps := st_steps T @ [step_row m ?g now]\<rparr>"
    using T1 by (auto simp: replay_migration_def schema_Inr)
  have version: "mg_version ?g = c + 1" using g(1,3) by simp
  have "steps_upto (c + 1) T1" using Suc.prems(4) c version by (force simp: steps_upto_def T1' step_row_def)
  moreover have "executed H exec hooks d0 [1..c + 1] (st_domain T1)"
    using executed_snoc [OF Suc.prems(5) c(1) conjunct2 [OF N] d] by (simp add: T1')
  ultimately have "steps_upto t T' \<and> executed H exec hooks d0 [1..t] (st_domain T') \<and> st_state T' = st_state T1"
    using Suc.hyps c by (intro Suc.hyps(1) [OF _ rest]) simp_all
  then show ?case by (simp add: T1')
qed

lemma inv_boot:
  assumes "schema_inv sha256 H exec hooks d0 (K, T)" and "deployed H K'" and "schema_initialize sha256 K' T = Inr (b, T')"
  shows "schema_inv sha256 H exec hooks d0 (K', T')"
proof (cases "st_state T")
  case None
  then have "T = new_schema_tables d0" using assms(1) by (simp add: schema_inv_def)
  moreover obtain digest where "migrationDigestAt sha256 K' 0 = Inr digest" and "T' = T\<lparr>st_state := Some
      \<lparr> sc_active_version = 0, sc_active_epoch = 1, sc_active_digest = digest, sc_last_migration_id = None,
        sc_status = Sch_active, sc_migration_id = None, sc_target_version = None, sc_target_epoch = None, sc_target_digest = None \<rparr>\<rparr>"
    using assms(3) None by (auto simp: schema_initialize_def schema_Inr Let_def)
  moreover have "0 \<le> jn_version K'" using assms(2) by (simp add: deployed_def journal_ok_def)
  ultimately show ?thesis using assms(2)
    by (simp add: schema_inv_def state_inv_def schema_state_check_def count_active steps_upto_def new_schema_tables_def executed_init)
next
  case (Some s)
  then have "assertPackagedSchemaState sha256 s K' = Inr ()" and T': "T' = T"
    using assms(3) by (auto simp: schema_initialize_def schema_Inr)
  moreover have "schema_state_check s" using assms(1) Some by (simp add: schema_inv_def state_inv_def)
  ultimately have "state_inv sha256 K' s" by (blast intro: assertPackaged_Inr)
  then show ?thesis using assms(1,2) Some by (simp add: schema_inv_def T')
qed

lemma inv_state:
  assumes "schema_inv sha256 H exec hooks d0 (K, T)" and "st_state T = Some s"
  shows "deployed H K" "state_inv sha256 K s" "steps_upto (executed_count H s T) T" "executed H exec hooks d0 [1..executed_count H s T] (st_domain T)"
    "schema_state_check s" "0 \<le> sc_active_version s" "sc_active_version s \<le> jn_version K"
  using assms by (simp_all add: schema_inv_def state_inv_def schema_state_check_def)

lemma inv_migrating:
  assumes "schema_inv sha256 H exec hooks d0 (K, T)" and "st_state T = Some s" and "sc_status s = Sch_migrating"
  obtains m t d where "sc_migration_id s = Some m" "sc_target_version s = Some t" "sc_active_version s \<le> t" "sc_active_version s < t"
    "t \<le> jn_version K" "sc_target_epoch s = Some (sc_active_epoch s + 1)" "sc_target_digest s = Some d" "migrationDigestAt sha256 K t = Inr d"
proof -
  have "sc_migration_id s \<noteq> None" using assms inv_state(5) [OF assms(1,2)] by (simp add: schema_state_check_def)
  then obtain m where "sc_migration_id s = Some m" by blast
  with that assms(3) inv_state(2) [OF assms(1,2)] show ?thesis by (force simp: state_inv_def)
qed

lemma inv_prepare:
  assumes "schema_inv sha256 H exec hooks d0 (K, T)" and "schema_prepare sha256 a K T = Inr (s, T')"
  shows "schema_inv sha256 H exec hooks d0 (K, T')"
  using assms(2)
proof (cases rule: schema_prepare_cases)
  case same
  then show ?thesis using assms(1) by simp
next
  case (prepared s0)
  note I = inv_state [OF assms(1) prepared(1)] and v = prepared(3,4) and C = count_active [OF prepared(2)]
  let ?v = "sc_active_version s0" and ?t = "sr_targetVersion a" and ?m = "sr_migrationId a"
  have upto: "steps_upto ?v T'" using I(3) by (simp add: C prepared(9) steps_upto_def)
  have "executed_count H s T' = ?v"
    using prefix_of_later [OF upto _ I(1,6), of ?m ?t] v by (auto simp: prepared(8) executed_count_def)
  then have "steps_upto (executed_count H s T') T'" "executed H exec hooks d0 [1..executed_count H s T'] (st_domain T')"
    using upto I(4) by (simp_all add: C prepared(9))
  moreover have "state_inv sha256 K s"
    using I(2,7) prepared(3-8) by (simp add: state_inv_def)
  ultimately show ?thesis using I(1) by (simp add: schema_inv_def prepared(9))
qed

lemma inv_apply:
  assumes "schema_inv sha256 H exec hooks d0 (K, T)" and "schema_apply exec before after m v K now T = Inr (s, T')"
    and "before v \<in> hooks" and "after v \<in> hooks"
  shows "schema_inv sha256 H exec hooks d0 (K, T')"
  using assms(2)
proof (cases rule: schema_apply_cases)
  case same
  then show ?thesis using assms(1) by simp
next
  case (applied s0 t g E)
  note I = inv_state [OF assms(1) applied(1)]
  let ?a = "sc_active_version s0" and ?A = "applied_steps m T"
  let ?c = "?a + int (length ?A)"
  have t: "?a \<le> t" "t \<le> jn_version K"
    using inv_migrating [OF assms(1) applied(1,2)] applied(4) by (metis option.inject)+
  have E: "E = steps_between H ?a t" using applied(9) expected_between [OF I(1,6) t] by simp
  from applied(10) show ?thesis
  proof (cases rule: new_step_cases)
    case (1 d1 d2 d3)
    have A: "executed_count H s0 T = ?c" using 1(1) count_migrating [OF applied(2-4), of H T] by (simp add: E)
    have k: "length ?A < nat (t - ?a)" using 1(2) length_steps_between [OF I(1,6) t] by (simp add: E)
    note nth = nth_steps_between [OF I(1,6) t k]
    have v: "v = ?c + 1" using 1(3) nth(3) by (simp add: E)
    then have g: "g = E ! length ?A" using applied(6) nth(2) by (simp add: E)
    have gH: "g = H ! nat ?c" using nth(1) I(6) by (simp add: g E nat_add_distrib)
    have len: "nat ?c < length H"
    proof -
      have "nat ?c < length (jn_migrations K)" using k t I(1,6) by (simp add: deployed_def journal_ok_def)
      then show ?thesis using nth_deployed [OF I(1)] by blast
    qed
    have "executed H exec hooks d0 [1..?c] d1" using executed_hook [OF I(4)] assms(3) 1(4) applied(7) by (simp add: A)
    moreover have "0 \<le> ?c" using I(6) by simp
    ultimately have "executed H exec hooks d0 [1..?c + 1] d2" using len 1(5) [unfolded gH] by (rule executed_snoc)
    then have run: "executed H exec hooks d0 [1..?c + 1] d3" using executed_hook assms(4) 1(6) applied(7) by metis
    have new: "applied_steps m T' = ?A @ [entry g]" using applied_steps_new [of T m ?c g] I(3) v applied(7) by (simp add: A 1(8) steps_upto_def)
    have "take (Suc (length ?A)) E = take (length ?A) E @ [g]" using 1(2) by (simp add: g take_Suc_conv_app_nth)
    then have "is_prefix (?A @ [entry g]) E" using 1(1,2) by (simp add: is_prefix_def)
    then have C: "executed_count H s0 T' = ?c + 1" using count_migrating [OF applied(2-4), of H T'] by (simp add: new E)
    have "steps_upto (?c + 1) T'" using I(3,6) v applied(7) by (force simp: A steps_upto_def 1(8) step_row_def)
    moreover have "st_state T' = Some s0" "st_domain T' = d3" using applied(1) by (simp_all add: 1(8))
    ultimately show ?thesis using I(1,2) run by (simp add: schema_inv_def C)
  qed
qed

lemma inv_activate:
  assumes "schema_inv sha256 H exec hooks d0 (K, T)" and "schema_activate m K rec T = Inr (s, T')" and "rec \<in> hooks"
  shows "schema_inv sha256 H exec hooks d0 (K, T')"
  using assms(2)
proof (cases rule: schema_activate_cases)
  case same
  then show ?thesis using assms(1) by simp
next
  case (activated s0 t E d)
  note I = inv_state [OF assms(1) activated(1)]
  let ?a = "sc_active_version s0"
  obtain e td where t: "?a \<le> t" "t \<le> jn_version K" and td: "sc_target_epoch s0 = Some e" "sc_target_digest s0 = Some td" "migrationDigestAt sha256 K t = Inr td"
    using inv_migrating [OF assms(1) activated(1,2)] activated(4) by (metis option.inject)
  have E: "E = steps_between H ?a t" using activated(5) expected_between [OF I(1,6) t] by simp
  have "is_prefix (applied_steps m T) (steps_between H ?a t)" by (simp add: is_prefix_def activated(6) E)
  then have C: "executed_count H s0 T = t"
    using count_migrating [OF activated(2-4), of H T] length_steps_between [OF I(1,6) t] t by (simp add: activated(6) E)
  have s: "sc_active_version s = t" "sc_status s = Sch_active" "sc_active_digest s = td"
    by (simp_all add: activated(8) activate_state_def activated(4) td)
  have C': "executed_count H s T' = t" by (simp add: count_active s)
  have "executed H exec hooks d0 [1..t] d" using executed_hook [OF I(4)] assms(3) activated(7) by (simp add: C)
  moreover have "steps_upto t T'" using I(3) by (simp add: C steps_upto_def activated(10))
  moreover have "state_inv sha256 K s" using activated(9) td(3) t(2) by (simp add: state_inv_def s)
  ultimately show ?thesis using I(1) by (simp add: schema_inv_def activated(10) C' [unfolded activated(10)])
qed

lemma inv_provision:
  assumes "schema_inv sha256 H exec hooks d0 (K, T)" and "provisionFresh sha256 exec a K fresh rec replay now T = Inr (s, T')"
    and "rec \<in> hooks" and "replay \<in> hooks"
  shows "schema_inv sha256 H exec hooks d0 (K, T')"
  using assms(2)
proof (cases rule: provision_cases)
  case same
  then show ?thesis using assms(1) by simp
next
  case (provisioned s0 T1 d2 d3)
  note I = inv_state [OF assms(1) provisioned(1)] and C = count_active [OF provisioned(2), of H T, unfolded provisioned(3)]
  let ?t = "sr_targetVersion a"
  have "take (nat ?t) (jn_migrations K) = steps_between H 0 ?t"
    using steps_between_deployed [OF I(1) order.refl provisioned(7,8)] by (simp add: steps_between_def)
  then have "steps_upto ?t T1 \<and> executed H exec hooks d0 [1..?t] (st_domain T1) \<and> st_state T1 = st_state T"
    using provisioned(12) I(3,4) by (intro replay_executed [OF I(1) provisioned(8) _ order.refl provisioned(7)]) (simp_all add: C)
  then have R: "steps_upto ?t T1" "executed H exec hooks d0 [1..?t] (st_domain T1)" and "st_state T1 = Some s0"
    using provisioned(1) by simp_all
  from this(3) provisioned(15) have s: "s = set_active a s0" "schema_state_check s" by blast+
  have st: "sc_status s = Sch_active" "sc_active_version s = ?t" "sc_active_digest s = sr_targetDigest a" using provisioned(2) by (simp_all add: s set_active_def)
  have "executed H exec hooks d0 [1..?t] d3"
    using executed_hook [OF executed_hook [OF R(2) assms(4) provisioned(13)] assms(3) provisioned(14)] .
  moreover have "steps_upto ?t T'" using R(1) by (simp add: provisioned(16) steps_upto_def)
  moreover have "state_inv sha256 K s" using s(2) provisioned(8,11) by (simp add: state_inv_def st)
  moreover have C': "executed_count H s T' = ?t" by (simp add: count_active st)
  ultimately show ?thesis using I(1) by (simp add: schema_inv_def provisioned(16) C' [unfolded provisioned(16)])
qed

lemma schema_inv_step: "schema_step sha256 H exec hooks x y \<Longrightarrow> schema_inv sha256 H exec hooks d0 x \<Longrightarrow> schema_inv sha256 H exec hooks d0 y"
  by (induction rule: schema_step.induct) (blast intro: inv_boot inv_prepare inv_apply inv_activate inv_provision)+

lemma schema_inv_reachable:
  "(schema_step sha256 H exec hooks)\<^sup>*\<^sup>* (K0, new_schema_tables d0) (K, T) \<Longrightarrow> deployed H K0 \<Longrightarrow> schema_inv sha256 H exec hooks d0 (K, T)"
proof (induction "(K, T)" arbitrary: K T rule: rtranclp_induct)
  case base
  then show ?case by (simp add: schema_inv_def new_schema_tables_def)
next
  case (step y)
  then show ?case by (cases y) (blast intro: schema_inv_step)
qed

text \<open>
  C10. Migrations run exactly once and in order. Take any history of one shard: Workers boot with any prefix of the
  migration history, are replaced by later or earlier ones, and the shard is provisioned, prepared, stepped and activated
  by any calls, repeated and out of order as they come. Then the application's tables are the result of executing the
  statements of the migrations 1 to n, each once and in this order (with hooks between), where n is the active version
  when no upgrade runs and lies between the active and the target version while one does.
\<close>

theorem migrations_exactly_once:
  assumes "(schema_step sha256 H exec hooks)\<^sup>*\<^sup>* (K0, new_schema_tables d0) (K, T)" and "deployed H K0" and "st_state T = Some s"
  shows "\<exists>n. executed H exec hooks d0 [1..n] (st_domain T) \<and> sc_active_version s \<le> n \<and>
    (case sc_target_version s of None \<Rightarrow> n = sc_active_version s | Some t \<Rightarrow> n \<le> t)"
proof -
  note R = schema_inv_reachable [OF assms(1,2)]
  note I = inv_state [OF R assms(3)]
  have "sc_active_version s \<le> executed_count H s T \<and> (case sc_target_version s of None \<Rightarrow> executed_count H s T = sc_active_version s |
      Some t \<Rightarrow> executed_count H s T \<le> t)"
  proof (cases "sc_status s")
    case Sch_active
    then show ?thesis using I(5) by (simp add: count_active schema_state_check_def)
  next
    case Sch_migrating
    from inv_migrating [OF R assms(3) this] obtain m t where t: "sc_migration_id s = Some m" "sc_target_version s = Some t"
      "sc_active_version s \<le> t" "t \<le> jn_version K" by metis
    note L = length_steps_between [OF I(1,6) t(3,4)]
    have "is_prefix A E \<Longrightarrow> length A \<le> length E" for A E by (simp add: is_prefix_def)
    from this [of "applied_steps m T" "steps_between H (sc_active_version s) t"] show ?thesis
      using t(3) L by (simp add: count_migrating [OF Sch_migrating t(1,2)] t(2)) linarith
  qed
  then show ?thesis using I(4) by blast
qed

text \<open>A shard that boots empty, and upgrades when a Worker with one migration is deployed; statements append themselves to a log.\<close>

definition sample_migration :: "int \<Rightarrow> ChardbMigration" where
  "sample_migration v = \<lparr> mg_version = v, mg_name = ''n'', mg_statements = [''S''], mg_catalogStatements = [], mg_resources = [], mg_digest = ''D'' \<rparr>"

definition sample_journal :: "int \<Rightarrow> ChardbMigrationJournal" where
  "sample_journal n = \<lparr> jn_version = n, jn_digest = ''J'', jn_migrations = map sample_migration [1..n] \<rparr>"

definition sample_digest :: "int \<Rightarrow> string" where
  "sample_digest v = stableHashHex (\<lambda>_. []) (prefix_json (map sample_migration [1..v]))"

definition sample_run :: "string \<Rightarrow> string list \<Rightarrow> string list res" where
  "sample_run s d = Inr (d @ [s])"

definition sample_schema_state :: StoredCdbSchemaState where
  "sample_schema_state = \<lparr> sc_active_version = 0, sc_active_epoch = 1, sc_active_digest = sample_digest 0, sc_last_migration_id = None,
     sc_status = Sch_active, sc_migration_id = None, sc_target_version = None, sc_target_epoch = None, sc_target_digest = None \<rparr>"

definition sample_prepared :: StoredCdbSchemaState where
  "sample_prepared = sample_schema_state\<lparr>sc_status := Sch_migrating, sc_migration_id := Some ''m'', sc_target_version := Some 1,
     sc_target_epoch := Some 2, sc_target_digest := Some (sample_digest 1)\<rparr>"

definition sample_prepare :: CdbSchemaMigrationPrepareRequest where
  "sample_prepare = \<lparr> sr_migrationId = ''m'', sr_targetVersion = 1, sr_targetEpoch = 2, sr_targetDigest = sample_digest 1,
     sr_activeVersion = 0, sr_activeDigest = sample_digest 0 \<rparr>"

definition sample_schema_tables :: "StoredCdbSchemaState \<Rightarrow> schema_step_row list \<Rightarrow> string list \<Rightarrow> string list schema_tables" where
  "sample_schema_tables s rows d = \<lparr> st_state = Some s, st_steps = rows, st_domain = d \<rparr>"

lemma sample_upto: "[1..0::int] = []" "[1..1::int] = [1]"
  by (simp_all add: upto_rec1)

lemma sample_journal_ok: "journal_ok (sample_journal 0)" "journal_ok (sample_journal 1)"
  by (simp_all add: journal_ok_def sample_journal_def MAX_MIGRATIONS_def sample_upto sample_migration_def)

lemma sample_deployed: "deployed [sample_migration 1] (sample_journal 0)" "deployed [sample_migration 1] (sample_journal 1)"
  using sample_journal_ok by (simp_all add: deployed_def sample_journal_def sample_upto)

lemma sample_digest_at:
  "migrationDigestAt (\<lambda>_. []) (sample_journal 0) 0 = Inr (sample_digest 0)" "migrationDigestAt (\<lambda>_. []) (sample_journal 1) 0 = Inr (sample_digest 0)"
  "migrationDigestAt (\<lambda>_. []) (sample_journal 1) 1 = Inr (sample_digest 1)"
  by (simp_all add: migrationDigestAt_def ensure_def safe_integer_def sample_journal_def sample_digest_def sample_upto)

lemma sample_version: "jn_version (sample_journal n) = n"
  by (simp add: sample_journal_def)

lemma sample_id: "opaque_id ''m''"
  by code_simp

lemmas sample_schema = sample_version sample_id sample_schema_tables_def sample_schema_state_def sample_prepared_def sample_prepare_def sample_digest_at ensure_def safe_integer_def
  schema_state_def with_state_def update_state_def schema_state_check_def

lemma sample_boot: "schema_initialize (\<lambda>_. []) (sample_journal 0) (new_schema_tables []) = Inr (True, sample_schema_tables sample_schema_state [] [])"
  by (simp add: schema_initialize_def new_schema_tables_def sample_schema)

lemma sample_deploy:
  "schema_initialize (\<lambda>_. []) (sample_journal 1) (sample_schema_tables sample_schema_state [] []) = Inr (False, sample_schema_tables sample_schema_state [] [])"
  by (simp add: schema_initialize_def assertPackagedSchemaState_def sample_schema)

lemma sample_prepare_run:
  "schema_prepare (\<lambda>_. []) sample_prepare (sample_journal 1) (sample_schema_tables sample_schema_state [] []) =
     Inr (sample_prepared, sample_schema_tables sample_prepared [] [])"
  by (simp add: schema_prepare_def sample_schema at_target_def)

definition sample_step_rows :: "schema_step_row list" where
  "sample_step_rows = [\<lparr> sp_migration_id = ''m'', sp_version = 1, sp_digest = ''D'', sp_applied_at = 7 \<rparr>]"

lemma sample_expected: "expected_steps (sample_journal 1) 0 1 = Inr [sample_migration 1]"
  using expected_between [OF sample_deployed(2), of 0 1] by (simp add: steps_between_def sample_journal_def)

lemma sample_nth: "nth_migration (sample_journal 1) 0 = Some (sample_migration 1)"
  by (simp add: nth_migration_def sample_journal_def sample_upto)

lemma sample_apply_run:
  "schema_apply sample_run (\<lambda>_. Inr) (\<lambda>_. Inr) ''m'' 1 (sample_journal 1) 7 (sample_schema_tables sample_prepared [] []) =
     Inr (sample_prepared, sample_schema_tables sample_prepared sample_step_rows [''S''])"
  by (simp add: schema_apply_def sample_schema sample_expected sample_nth sample_migration_def sql_one_def apply_new_step_def applied_steps_def on_domain_def exec_statements_def sample_run_def insert_step_def sql_insert_def step_check_def
    step_row_def step_key_def sample_step_rows_def ensure_def)

lemma sample_reach:
  "(schema_step (\<lambda>_. []) [sample_migration 1] sample_run {Inr})\<^sup>*\<^sup>* (sample_journal 0, new_schema_tables [])
     (sample_journal 1, sample_schema_tables sample_prepared sample_step_rows [''S''])"
proof -
  have "schema_step (\<lambda>_. []) [sample_migration 1] sample_run {Inr} (sample_journal 0, new_schema_tables []) (sample_journal 0, sample_schema_tables sample_schema_state [] [])"
    using sample_deployed(1) sample_boot by (rule step_boot)
  moreover have "schema_step (\<lambda>_. []) [sample_migration 1] sample_run {Inr} (sample_journal 0, sample_schema_tables sample_schema_state [] [])
      (sample_journal 1, sample_schema_tables sample_schema_state [] [])"
    using sample_deployed(2) sample_deploy by (rule step_boot)
  moreover have "schema_step (\<lambda>_. []) [sample_migration 1] sample_run {Inr} (sample_journal 1, sample_schema_tables sample_schema_state [] [])
      (sample_journal 1, sample_schema_tables sample_prepared [] [])"
    using sample_prepare_run by (rule step_prepare)
  moreover have "schema_step (\<lambda>_. []) [sample_migration 1] sample_run {Inr} (sample_journal 1, sample_schema_tables sample_prepared [] [])
      (sample_journal 1, sample_schema_tables sample_prepared sample_step_rows [''S''])"
    by (rule step_apply [OF sample_apply_run]) simp_all
  ultimately show ?thesis by (meson converse_rtranclp_into_rtranclp r_into_rtranclp)
qed

lemma migrations_exactly_once_witness:
  "\<exists>n. executed [sample_migration 1] sample_run {Inr} [] [1..n] [''S''] \<and> 0 \<le> n \<and> n \<le> 1"
  using migrations_exactly_once [OF sample_reach sample_deployed(1)] by (simp add: sample_schema_tables_def sample_prepared_def sample_schema_state_def)

section \<open>Epochs\<close>

text \<open>Any successful call, with any journal and any hooks; nothing is assumed of the history.\<close>

inductive schema_call :: "(nat list \<Rightarrow> nat list) \<Rightarrow> (string \<Rightarrow> 'd \<Rightarrow> 'd res) \<Rightarrow> 'd schema_tables \<Rightarrow> 'd schema_tables \<Rightarrow> bool" for sha256 exec where
  call_initialize: "schema_initialize sha256 K T = Inr (b, T') \<Longrightarrow> schema_call sha256 exec T T'"
| call_baseline: "baseline sha256 a K rec after T = Inr (s, T') \<Longrightarrow> schema_call sha256 exec T T'"
| call_provision: "provisionFresh sha256 exec a K fresh rec replay now T = Inr (s, T') \<Longrightarrow> schema_call sha256 exec T T'"
| call_prepare: "schema_prepare sha256 p K T = Inr (s, T') \<Longrightarrow> schema_call sha256 exec T T'"
| call_apply: "schema_apply exec before after m v K now T = Inr (s, T') \<Longrightarrow> schema_call sha256 exec T T'"
| call_activate: "schema_activate m K rec T = Inr (s, T') \<Longrightarrow> schema_call sha256 exec T T'"

definition epoch_inv :: "'d schema_tables \<Rightarrow> bool" where
  "epoch_inv T \<longleftrightarrow> (\<forall>s. st_state T = Some s \<longrightarrow> sc_status s = Sch_migrating \<longrightarrow> sc_target_epoch s = Some (sc_active_epoch s + 1))"

definition same_schema :: "StoredCdbSchemaState \<Rightarrow> StoredCdbSchemaState \<Rightarrow> bool" where
  "same_schema s s' \<longleftrightarrow> sc_active_version s = sc_active_version s' \<and> sc_active_digest s = sc_active_digest s'"

definition epoch_later :: "StoredCdbSchemaState \<Rightarrow> 'd schema_tables \<Rightarrow> bool" where
  "epoch_later s T \<longleftrightarrow> (\<exists>s'. st_state T = Some s' \<and> sc_active_epoch s \<le> sc_active_epoch s' \<and>
     (sc_active_epoch s = sc_active_epoch s' \<longrightarrow> same_schema s s'))"

lemma epoch_laterI:
  "st_state T = Some s' \<Longrightarrow> sc_active_epoch s < sc_active_epoch s' \<or> sc_active_epoch s = sc_active_epoch s' \<and> same_schema s s' \<Longrightarrow> epoch_later s T"
  by (auto simp: epoch_later_def)

lemma epoch_later_trans:
  assumes "epoch_later s T" and "\<And>s'. st_state T = Some s' \<Longrightarrow> epoch_later s' T'"
  shows "epoch_later s T'"
  using assms by (fastforce simp: epoch_later_def same_schema_def)

lemma replay_state: "rfold (replay_migration exec m now) gs T = Inr T' \<Longrightarrow> st_state T' = st_state T"
  by (induction gs arbitrary: T) (auto simp: schema_Inr replay_migration_def)

lemma new_step_state: "apply_new_step exec before after m v now E g T = Inr T' \<Longrightarrow> st_state T' = st_state T"
  by (erule new_step_cases) simp

lemma call_effect:
  assumes "schema_call sha256 exec T T'" and "epoch_inv T" and "st_state T = Some s0"
  shows "epoch_inv T' \<and> epoch_later s0 T'"
  using assms(1)
proof cases
  case (call_initialize K b)
  then have "T' = T" using assms(3) by (auto simp: schema_initialize_def schema_Inr)
  then show ?thesis using assms(2,3) by (simp add: epoch_later_def same_schema_def)
next
  case (call_baseline a K rec after s)
  then show ?thesis
  proof (cases rule: baseline_cases)
    case same
    then show ?thesis using assms(2,3) by (simp add: epoch_later_def same_schema_def)
  next
    case (adopted s1 d)
    then show ?thesis using assms(3) by (auto simp: epoch_inv_def set_active_def intro!: epoch_laterI)
  qed
next
  case (call_provision a K fresh rec replay now s)
  then show ?thesis
  proof (cases rule: provision_cases)
    case same
    then show ?thesis using assms(2,3) by (simp add: epoch_later_def same_schema_def)
  next
    case (provisioned s1 T1 d2 d3)
    then have s: "s = set_active a s0" and s0: "s0 = s1" using assms(3) replay_state [OF provisioned(12)] by simp_all
    have "st_state T' = Some s" by (simp add: provisioned(16))
    moreover have "sc_status s = Sch_active" using provisioned(2) by (simp add: s s0 set_active_def)
    moreover have "sc_active_epoch s0 < sc_active_epoch s \<or> sc_active_epoch s0 = sc_active_epoch s \<and> same_schema s0 s"
    proof (cases "sr_targetVersion a = 0")
      case True
      then have "sr_targetDigest a = sc_active_digest s1" "sr_targetEpoch a = 1" using provisioned(5,9,11) by simp_all
      then show ?thesis using True provisioned(3,4) by (simp add: s s0 set_active_def same_schema_def)
    next
      case False
      then have "2 \<le> sr_targetEpoch a" using provisioned(7,10) by simp
      then show ?thesis using provisioned(4) by (simp add: s s0 set_active_def)
    qed
    ultimately show ?thesis by (simp add: epoch_inv_def) (rule epoch_laterI)
  qed
next
  case (call_prepare p K s)
  then show ?thesis
  proof (cases rule: schema_prepare_cases)
    case same
    then show ?thesis using assms(2,3) by (simp add: epoch_later_def same_schema_def)
  next
    case (prepared s1)
    then show ?thesis using assms(3) by (simp add: epoch_inv_def epoch_later_def same_schema_def)
  qed
next
  case (call_apply before after m v K now s)
  then have "st_state T' = st_state T"
    by (cases rule: schema_apply_cases) (simp_all add: new_step_state)
  then show ?thesis using assms(2,3) by (simp add: epoch_inv_def epoch_later_def same_schema_def)
next
  case (call_activate m K rec s)
  then show ?thesis
  proof (cases rule: schema_activate_cases)
    case same
    then show ?thesis using assms(2,3) by (simp add: epoch_later_def same_schema_def)
  next
    case (activated s1 t E d)
    then have s1: "s1 = s0" and e: "sc_target_epoch s0 = Some (sc_active_epoch s0 + 1)" using assms(2,3) by (simp_all add: epoch_inv_def)
    show ?thesis
    proof (cases "sc_target_digest s0")
      case None
      then have "s = s0" using activated(8) by (simp add: activate_state_def s1 split: option.splits)
      then show ?thesis using assms(2,3) by (simp add: activated(10) epoch_inv_def epoch_later_def same_schema_def)
    next
      case (Some td)
      then have "sc_status s = Sch_active" "sc_active_epoch s = sc_active_epoch s0 + 1"
        using activated(4,8) e by (simp_all add: activate_state_def s1)
      then show ?thesis by (simp add: activated(10) epoch_inv_def epoch_later_def)
    qed
  qed
qed

lemma call_new: "schema_call sha256 exec T T' \<Longrightarrow> st_state T = None \<Longrightarrow> epoch_inv T'"
  by (induction rule: schema_call.induct)
    (auto simp: schema_initialize_def baseline_def provisionFresh_def schema_prepare_def schema_apply_def schema_activate_def schema_Inr epoch_inv_def Let_def)

lemma calls_effect:
  assumes "(schema_call sha256 exec)\<^sup>*\<^sup>* T T'" and "epoch_inv T"
  shows "epoch_inv T' \<and> (\<forall>s. st_state T = Some s \<longrightarrow> epoch_later s T')"
  using assms(1)
proof (induction rule: rtranclp_induct)
  case base
  then show ?case using assms(2) by (simp add: epoch_later_def same_schema_def)
next
  case (step T1 T2)
  have "epoch_inv T2"
  proof (cases "st_state T1")
    case None
    then show ?thesis using call_new step.hyps(2) by blast
  next
    case (Some s1)
    then show ?thesis using call_effect [OF step.hyps(2)] step.IH by blast
  qed
  moreover have "epoch_later s T2" if "st_state T = Some s" for s
    using step.IH that call_effect [OF step.hyps(2)] by (blast intro: epoch_later_trans)
  ultimately show ?case by blast
qed

text \<open>
  C26. A schema epoch identifies one schema. After any calls on a new shard, with any journals and in any order
  (boots, adoptions without steps, upgrades, repeats), and any further calls, two requests that were admitted for the
  same epoch, each by the Worker then deployed, were admitted on the same active version and digest, and their Workers
  packaged the same journal version; and the epoch never goes back.
\<close>

theorem epoch_identifies_schema:
  assumes "(schema_call sha256 exec)\<^sup>*\<^sup>* (new_schema_tables d0) T" and "(schema_call sha256 exec)\<^sup>*\<^sup>* T T'"
    and "assertActiveEpoch e K T = Inr s" and "assertActiveEpoch e' K' T' = Inr s'"
  shows "e \<le> e' \<and> (e = e' \<longrightarrow> same_schema s s' \<and> jn_version K = jn_version K')"
proof -
  have "epoch_inv (new_schema_tables d0)" by (simp add: epoch_inv_def new_schema_tables_def)
  then have "epoch_inv T" using calls_effect [OF assms(1)] by blast
  moreover have s: "st_state T = Some s" "sc_active_version s = jn_version K" "sc_active_epoch s = e"
    and s': "st_state T' = Some s'" "sc_active_version s' = jn_version K'" "sc_active_epoch s' = e'"
    using assms(3,4) by (auto simp: assertActiveEpoch_def schema_Inr)
  ultimately have "epoch_later s T'" using calls_effect [OF assms(2)] by blast
  then show ?thesis using s s' by (auto simp: epoch_later_def same_schema_def)
qed

lemma sample_active:
  "(schema_call (\<lambda>_. []) sample_run)\<^sup>*\<^sup>* (new_schema_tables []) (sample_schema_tables sample_schema_state [] [])"
  using call_initialize [OF sample_boot] by (rule r_into_rtranclp)

lemma epoch_identifies_schema_witness: "same_schema sample_schema_state sample_schema_state \<and> sc_active_epoch sample_schema_state = 1"
proof -
  have "assertActiveEpoch 1 (sample_journal 0) (sample_schema_tables sample_schema_state [] []) = Inr sample_schema_state"
    by (simp add: assertActiveEpoch_def sample_schema)
  from epoch_identifies_schema [OF sample_active rtranclp.rtrancl_refl this this] show ?thesis by (simp add: sample_schema_state_def)
qed

end
