(* ===== verification/Recovery_Restore.thy ===== *)
theory Recovery_Restore
  imports Recovery_Admission
begin

text \<open>
  The point-in-time restore of one Durable Object, \<^verbatim>\<open>src/src/server/do/recovery.ts\<close>: the armed fence, its commit and
  cancellation. An \<open>async\<close> method is cut where it awaits the runtime: the part before the await, then the part that
  continues with the runtime's answer; between the two any other call may run.
\<close>

section \<open>Data\<close>

definition PITR_RETENTION_MS :: int where "PITR_RETENTION_MS = 30 * 24 * 60 * 60 * 1000"
definition RECOVERY_ACTIVATION_DELAY_MS :: int where "RECOVERY_ACTIVATION_DELAY_MS = 5000"

record ArmedRecoveryRestore =
  ar_targetBookmark :: string
  ar_undoBookmark :: string
  ar_armedAt :: int
  ar_commitAt :: "int option"
  ar_nativeScheduled :: bool

record 'x recovery_tables =
  rc_restore :: "ArmedRecoveryRestore option"
  rc_admission :: admission
  rc_rest :: 'x

text \<open>The pattern \<open>/^[A-Za-z0-9-]{1,512}$/\<close>.\<close>

definition BOOKMARK :: "string \<Rightarrow> bool" where
  "BOOKMARK s \<longleftrightarrow> 1 \<le> length s \<and> length s \<le> 512 \<and> list_all (\<lambda>c. (let n = (of_char c :: nat) in
     48 \<le> n \<and> n \<le> 57 \<or> 65 \<le> n \<and> n \<le> 90 \<or> 97 \<le> n \<and> n \<le> 122 \<or> n = 45)) s"

definition assertBookmark :: "string \<Rightarrow> unit res" where
  "assertBookmark b = ensure (BOOKMARK b) (Cdb CDB_INVALID_ARGS)"

definition restore_check :: "ArmedRecoveryRestore \<Rightarrow> bool" where
  "restore_check r \<longleftrightarrow> 0 \<le> ar_armedAt r \<and> (case ar_commitAt r of None \<Rightarrow> True | Some t \<Rightarrow> 0 \<le> t)"

abbreviation recovery_stale :: js_error where "recovery_stale \<equiv> Cdb CDB_STALE_EPOCH"

section \<open>The traffic fence\<close>

definition assertRecoveryAvailableFor :: "string option \<Rightarrow> 'x recovery_tables \<Rightarrow> unit res" where
  "assertRecoveryAvailableFor targetBookmark T = (case rc_restore T of
       None \<Rightarrow> Inr ()
     | Some armed \<Rightarrow> ensure (targetBookmark = Some (ar_targetBookmark armed)) recovery_stale)"

definition assertRecoveryAvailable :: "'x recovery_tables \<Rightarrow> unit res" where
  "assertRecoveryAvailable T = assertRecoveryAvailableFor None T"

text \<open>The alarm handler's first line: whether it returns at once, and whether it aborts the object first.\<close>

definition abortForArmedRecoveryRestore :: "'x recovery_tables \<Rightarrow> bool \<times> bool" where
  "abortForArmedRecoveryRestore T = (case rc_restore T of None \<Rightarrow> (False, False) | Some armed \<Rightarrow> (True, ar_nativeScheduled armed))"

section \<open>Methods\<close>

text \<open>\<open>bookmark\<close>: the instant asked for; \<open>lookup\<close> is the runtime's answer, for a past instant or the current state.\<close>

definition recovery_bookmark :: "int option \<Rightarrow> int \<Rightarrow> (int option \<Rightarrow> string) \<Rightarrow> (string \<times> int) res" where
  "recovery_bookmark atMs nowMs lookup = (case atMs of
       None \<Rightarrow> rbind (assertBookmark (lookup None)) (\<lambda>_. Inr (lookup None, nowMs))
     | Some t \<Rightarrow>
         rbind (ensure (safe_integer t \<and> nowMs - PITR_RETENTION_MS \<le> t \<and> t \<le> nowMs) (Cdb CDB_INVALID_ARGS)) (\<lambda>_.
         rbind (assertBookmark (lookup (Some t))) (\<lambda>_. Inr (lookup (Some t), t))))"

type_synonym recovery_admission_arg = "(string \<times> int) option"

definition arm_admission :: "recovery_admission_arg \<Rightarrow> 'x recovery_tables \<Rightarrow> 'x recovery_tables res" where
  "arm_admission admission T = (case admission of
       None \<Rightarrow> Inr T
     | Some (operationId, generation) \<Rightarrow>
         rbind (arm operationId generation (rc_admission T)) (\<lambda>(v, a). Inr (T\<lparr>rc_admission := a\<rparr>)))"

definition before :: "('x \<Rightarrow> 'x res) \<Rightarrow> 'x recovery_tables \<Rightarrow> 'x recovery_tables res" where
  "before hook T = rbind (hook (rc_rest T)) (\<lambda>x. Inr (T\<lparr>rc_rest := x\<rparr>))"

text \<open>\<open>arm\<close> up to the await: \<open>None\<close> when it goes on to wait for the current bookmark.\<close>

definition arm_begin :: "string \<Rightarrow> int \<Rightarrow> recovery_admission_arg \<Rightarrow> ('x \<Rightarrow> 'x res) \<Rightarrow> 'x recovery_tables \<Rightarrow>
    (ArmedRecoveryRestore option \<times> 'x recovery_tables) res" where
  "arm_begin target armedAt admission beforeArm T =
     rbind (assertBookmark target) (\<lambda>_.
     rbind (ensure (safe_integer armedAt \<and> 0 \<le> armedAt) (Cdb CDB_INVALID_ARGS)) (\<lambda>_.
     case rc_restore T of
       None \<Rightarrow> Inr (None, T)
     | Some existing \<Rightarrow>
         rbind (ensure (ar_targetBookmark existing = target) recovery_stale) (\<lambda>_.
         if admission = None then Inr (Some existing, T)
         else rbind (before beforeArm T) (\<lambda>T1. rbind (arm_admission admission T1) (\<lambda>T2. Inr (Some existing, T2))))))"

definition arm_end :: "string \<Rightarrow> int \<Rightarrow> recovery_admission_arg \<Rightarrow> ('x \<Rightarrow> 'x res) \<Rightarrow> string \<Rightarrow> 'x recovery_tables \<Rightarrow>
    (ArmedRecoveryRestore \<times> 'x recovery_tables) res" where
  "arm_end target armedAt admission beforeArm current T =
     (let r = \<lparr> ar_targetBookmark = target, ar_undoBookmark = current, ar_armedAt = armedAt, ar_commitAt = None, ar_nativeScheduled = False \<rparr> in
      rbind (assertBookmark current) (\<lambda>_.
      rbind (before beforeArm T) (\<lambda>T1.
      rbind (arm_admission admission T1) (\<lambda>T2.
      rbind (ensure (rc_restore T2 = None) recovery_stale) (\<lambda>_.
      rbind (ensure (restore_check r) SqliteError) (\<lambda>_. Inr (r, T2\<lparr>rc_restore := Some r\<rparr>)))))))"

definition recovery_release :: "string \<Rightarrow> int \<Rightarrow> ('x \<Rightarrow> 'x res) \<Rightarrow> 'x recovery_tables \<Rightarrow> 'x recovery_tables res" where
  "recovery_release operationId generation beforeRelease T =
     rbind (before beforeRelease T) (\<lambda>T1.
     rbind (adm_release operationId generation (rc_admission T1)) (\<lambda>(v, a). Inr (T1\<lparr>rc_admission := a\<rparr>)))"

definition recovery_cancel :: "string \<Rightarrow> 'x recovery_tables \<Rightarrow> (bool \<times> 'x recovery_tables) res" where
  "recovery_cancel target T =
     rbind (assertBookmark target) (\<lambda>_.
     case rc_restore T of
       None \<Rightarrow> Inr (False, T)
     | Some existing \<Rightarrow>
         rbind (ensure (ar_targetBookmark existing = target) recovery_stale) (\<lambda>_.
         rbind (ensure (ar_commitAt existing = None) recovery_stale) (\<lambda>_. Inr (True, T\<lparr>rc_restore := None\<rparr>))))"

definition recovery_status :: "string \<Rightarrow> 'x recovery_tables \<Rightarrow> bool res" where
  "recovery_status target T =
     rbind (assertBookmark target) (\<lambda>_.
     case rc_restore T of
       None \<Rightarrow> Inr False
     | Some armed \<Rightarrow> rbind (ensure (ar_targetBookmark armed = target) recovery_stale) (\<lambda>_. Inr True))"

definition update_restore :: "string \<Rightarrow> (ArmedRecoveryRestore \<Rightarrow> ArmedRecoveryRestore) \<Rightarrow> 'x recovery_tables \<Rightarrow> 'x recovery_tables res" where
  "update_restore target f T = (case rc_restore T of
       None \<Rightarrow> Inr T
     | Some r \<Rightarrow> if ar_targetBookmark r \<noteq> target then Inr T
         else rbind (ensure (restore_check (f r)) SqliteError) (\<lambda>_. Inr (T\<lparr>rc_restore := Some (f r)\<rparr>)))"

text \<open>
  \<open>commit\<close> up to the await: the deadline, and whether it asks the runtime to schedule the restore. It answers the retry
  of a scheduled commit without asking.
\<close>

definition commit_begin :: "string \<Rightarrow> int \<Rightarrow> 'x recovery_tables \<Rightarrow> ((int \<times> bool) \<times> 'x recovery_tables) res" where
  "commit_begin target now T =
     rbind (assertBookmark target) (\<lambda>_.
     case rc_restore T of
       None \<Rightarrow> Inl recovery_stale
     | Some existing \<Rightarrow>
         rbind (ensure (ar_targetBookmark existing = target) recovery_stale) (\<lambda>_.
         let proposed = now + RECOVERY_ACTIVATION_DELAY_MS in
         rbind (if ar_commitAt existing = None
            then update_restore target (\<lambda>r. r\<lparr>ar_commitAt := (case ar_commitAt r of None \<Rightarrow> Some proposed | Some t \<Rightarrow> Some t)\<rparr>) T
            else Inr T) (\<lambda>T1.
         let deadline = (case ar_commitAt existing of Some t \<Rightarrow> t
             | None \<Rightarrow> (case rc_restore T1 of None \<Rightarrow> proposed
                 | Some r \<Rightarrow> (case ar_commitAt r of None \<Rightarrow> proposed | Some t \<Rightarrow> t))) in
         case rc_restore T1 of
           None \<Rightarrow> Inl recovery_stale
         | Some committed \<Rightarrow>
             rbind (ensure (ar_targetBookmark committed = target) recovery_stale) (\<lambda>_.
             Inr ((deadline, \<not> ar_nativeScheduled committed), T1)))))"

definition commit_scheduled :: "string \<Rightarrow> string \<Rightarrow> 'x recovery_tables \<Rightarrow> 'x recovery_tables res" where
  "commit_scheduled target undoBookmark T =
     rbind (assertBookmark undoBookmark) (\<lambda>_.
     update_restore target (\<lambda>r. r\<lparr>ar_undoBookmark := undoBookmark, ar_nativeScheduled := True\<rparr>) T)"

text \<open>The instant the alarm is set to at the end of \<open>commit\<close>.\<close>

definition commit_alarm :: "int \<Rightarrow> int \<Rightarrow> int" where
  "commit_alarm deadline now = max deadline now"

section \<open>Calls and the runtime\<close>

text \<open>
  One object and the runtime: the restore the runtime was asked for (\<open>rt_native\<close>), the commits waiting for its answer, and
  the alarms set. A waiting call may continue at any later time, or never; that it may do so twice only allows more.
\<close>

datatype arm_wait = Arm_wait string int recovery_admission_arg

record 'x recovery_system =
  rt_tables :: "'x recovery_tables"
  rt_native :: "string option"
  rt_arms :: "arm_wait list"
  rt_commits :: "(string \<times> int) list"
  rt_alarms :: "int list"

inductive recovery_step :: "'x recovery_system \<Rightarrow> 'x recovery_system \<Rightarrow> bool" where
  rs_arm: "arm_begin target armedAt admission hook (rt_tables S) = Inr (Some r, T) \<Longrightarrow> recovery_step S (S\<lparr>rt_tables := T\<rparr>)"
| rs_arm_wait: "arm_begin target armedAt admission hook (rt_tables S) = Inr (None, T) \<Longrightarrow>
    recovery_step S (S\<lparr>rt_tables := T, rt_arms := Arm_wait target armedAt admission # rt_arms S\<rparr>)"
| rs_arm_resume: "Arm_wait target armedAt admission \<in> set (rt_arms S) \<Longrightarrow> arm_end target armedAt admission hook current (rt_tables S) = Inr (r, T) \<Longrightarrow>
    recovery_step S (S\<lparr>rt_tables := T\<rparr>)"
| rs_release: "recovery_release op g hook (rt_tables S) = Inr T \<Longrightarrow> recovery_step S (S\<lparr>rt_tables := T\<rparr>)"
| rs_cancel: "recovery_cancel target (rt_tables S) = Inr (b, T) \<Longrightarrow> recovery_step S (S\<lparr>rt_tables := T\<rparr>)"
| rs_commit: "commit_begin target now (rt_tables S) = Inr ((deadline, False), T) \<Longrightarrow>
    recovery_step S (S\<lparr>rt_tables := T, rt_alarms := commit_alarm deadline now' # rt_alarms S\<rparr>)"
| rs_commit_wait: "commit_begin target now (rt_tables S) = Inr ((deadline, True), T) \<Longrightarrow>
    recovery_step S (S\<lparr>rt_tables := T, rt_native := Some target, rt_commits := (target, deadline) # rt_commits S\<rparr>)"
| rs_commit_resume: "(target, deadline) \<in> set (rt_commits S) \<Longrightarrow> commit_scheduled target undo (rt_tables S) = Inr T \<Longrightarrow>
    recovery_step S (S\<lparr>rt_tables := T, rt_alarms := commit_alarm deadline now # rt_alarms S\<rparr>)"

definition new_recovery_system :: "admission \<Rightarrow> 'x \<Rightarrow> 'x recovery_system" where
  "new_recovery_system a x = \<lparr> rt_tables = \<lparr> rc_restore = None, rc_admission = a, rc_rest = x \<rparr>, rt_native = None, rt_arms = [], rt_commits = [], rt_alarms = [] \<rparr>"

section \<open>What a call does to the fence\<close>

lemma before_restore: "before hook T = Inr T' \<Longrightarrow> rc_restore T' = rc_restore T"
  by (auto simp: before_def result_simps)

lemma arm_admission_restore: "arm_admission admission T = Inr T' \<Longrightarrow> rc_restore T' = rc_restore T"
  by (cases admission) (auto simp: arm_admission_def result_simps)

lemma arm_begin_restore: "arm_begin target armedAt admission hook T = Inr (r, T') \<Longrightarrow> rc_restore T' = rc_restore T"
  by (auto simp: arm_begin_def result_simps ensure_eq_Inr split: option.splits if_splits dest!: before_restore arm_admission_restore)

lemma arm_end_restore:
  assumes "arm_end target armedAt admission hook current T = Inr (r, T')"
  shows "rc_restore T = None" "rc_restore T' = Some r" "ar_commitAt r = None" "\<not> ar_nativeScheduled r"
  using assms by (auto simp: arm_end_def Let_def result_simps ensure_eq_Inr dest!: before_restore arm_admission_restore)

lemma release_restore: "recovery_release op g hook T = Inr T' \<Longrightarrow> rc_restore T' = rc_restore T"
  by (auto simp: recovery_release_def result_simps dest!: before_restore)

lemma cancel_restore:
  "recovery_cancel target T = Inr (b, T') \<Longrightarrow> T' = T \<or> rc_restore T' = None \<and> (\<exists>r. rc_restore T = Some r \<and> ar_commitAt r = None)"
  by (auto simp: recovery_cancel_def result_simps ensure_eq_Inr split: option.splits)

lemma commit_begin_restore:
  assumes "commit_begin target now T = Inr ((deadline, ask), T')"
  obtains r r' where "rc_restore T = Some r" "rc_restore T' = Some r'" "ar_targetBookmark r = target" "ar_targetBookmark r' = target"
    "ar_commitAt r' = Some deadline" "ar_commitAt r = None \<or> ar_commitAt r = Some deadline" "ask = (\<not> ar_nativeScheduled r')"
    "ar_nativeScheduled r' = ar_nativeScheduled r" "ar_armedAt r' = ar_armedAt r"
proof -
  obtain r where r: "rc_restore T = Some r" "ar_targetBookmark r = target"
    using assms by (auto simp: commit_begin_def result_simps ensure_eq_Inr split: option.splits)
  show ?thesis
  proof (cases "ar_commitAt r")
    case None
    then show ?thesis using assms r
      by (auto simp: commit_begin_def update_restore_def Let_def result_simps ensure_eq_Inr intro: that)
  next
    case (Some t)
    then show ?thesis using assms r by (auto simp: commit_begin_def Let_def result_simps ensure_eq_Inr intro: that)
  qed
qed

lemma scheduled_restore:
  assumes "commit_scheduled target undo T = Inr T'" and "rc_restore T = Some r"
  obtains r' where "rc_restore T' = Some r'" "ar_targetBookmark r' = ar_targetBookmark r" "ar_commitAt r' = ar_commitAt r" "ar_armedAt r' = ar_armedAt r"
    "ar_nativeScheduled r' = (ar_nativeScheduled r \<or> ar_targetBookmark r = target)"
  using assms that by (auto simp: commit_scheduled_def update_restore_def result_simps ensure_eq_Inr split: if_splits)

section \<open>The restore and its commit\<close>

definition recovery_inv :: "'x recovery_system \<Rightarrow> bool" where
  "recovery_inv S \<longleftrightarrow>
     (case rc_restore (rt_tables S) of
        None \<Rightarrow> rt_native S = None \<and> rt_commits S = [] \<and> rt_alarms S = []
      | Some r \<Rightarrow> (case ar_commitAt r of
          None \<Rightarrow> rt_native S = None \<and> rt_commits S = [] \<and> rt_alarms S = [] \<and> \<not> ar_nativeScheduled r
        | Some t \<Rightarrow> (rt_native S = None \<longrightarrow> \<not> ar_nativeScheduled r) \<and> (\<forall>b. rt_native S = Some b \<longrightarrow> b = ar_targetBookmark r) \<and>
            (\<forall>c \<in> set (rt_commits S). c = (ar_targetBookmark r, t) \<and> rt_native S \<noteq> None) \<and> (\<forall>a \<in> set (rt_alarms S). t \<le> a)))"

lemma recovery_inv_same:
  "recovery_inv S \<Longrightarrow> rc_restore T = rc_restore (rt_tables S) \<Longrightarrow> recovery_inv (S\<lparr>rt_tables := T\<rparr>)"
  by (auto simp: recovery_inv_def split: option.splits)

lemma recovery_inv_step:
  assumes "recovery_step S S'" and "recovery_inv S"
  shows "recovery_inv S'"
  using assms(1)
proof cases
  case (rs_arm target armedAt admission hook r T)
  then show ?thesis using assms(2) arm_begin_restore by (blast intro: recovery_inv_same)
next
  case (rs_arm_wait target armedAt admission hook T)
  then show ?thesis using assms(2) arm_begin_restore [OF rs_arm_wait(2)] by (auto simp: recovery_inv_def split: option.splits)
next
  case (rs_arm_resume target armedAt admission hook current r T)
  then show ?thesis using assms(2) arm_end_restore [OF rs_arm_resume(3)] by (auto simp: recovery_inv_def split: option.splits)
next
  case (rs_release op g hook T)
  then show ?thesis using assms(2) release_restore by (blast intro: recovery_inv_same)
next
  case (rs_cancel target b T)
  then show ?thesis using assms(2) cancel_restore [OF rs_cancel(2)] by (auto simp: recovery_inv_def split: option.splits)
next
  case (rs_commit target now deadline T now')
  from rs_commit(2) show ?thesis
  proof (rule commit_begin_restore)
    fix r r' assume "rc_restore (rt_tables S) = Some r" "rc_restore T = Some r'" "ar_targetBookmark r = target" "ar_targetBookmark r' = target"
      "ar_commitAt r' = Some deadline" "ar_commitAt r = None \<or> ar_commitAt r = Some deadline" "False = (\<not> ar_nativeScheduled r')"
      "ar_nativeScheduled r' = ar_nativeScheduled r" "ar_armedAt r' = ar_armedAt r"
    then show ?thesis using assms(2) by (auto simp: rs_commit(1) recovery_inv_def commit_alarm_def split: option.splits)
  qed
next
  case (rs_commit_wait target now deadline T)
  from rs_commit_wait(2) show ?thesis
  proof (rule commit_begin_restore)
    fix r r' assume "rc_restore (rt_tables S) = Some r" "rc_restore T = Some r'" "ar_targetBookmark r = target" "ar_targetBookmark r' = target"
      "ar_commitAt r' = Some deadline" "ar_commitAt r = None \<or> ar_commitAt r = Some deadline" "True = (\<not> ar_nativeScheduled r')"
      "ar_nativeScheduled r' = ar_nativeScheduled r" "ar_armedAt r' = ar_armedAt r"
    then show ?thesis using assms(2) by (auto simp: rs_commit_wait(1) recovery_inv_def split: option.splits)
  qed
next
  case (rs_commit_resume target deadline undo T now)
  obtain r t where r: "rc_restore (rt_tables S) = Some r" "ar_commitAt r = Some t" "(target, deadline) = (ar_targetBookmark r, t)" "rt_native S \<noteq> None"
    using assms(2) rs_commit_resume(2) by (auto simp: recovery_inv_def split: option.splits)
  from rs_commit_resume(3) r(1) show ?thesis
  proof (rule scheduled_restore)
    fix r' assume "rc_restore T = Some r'" "ar_targetBookmark r' = ar_targetBookmark r" "ar_commitAt r' = ar_commitAt r"
    then show ?thesis using assms(2) r by (auto simp: rs_commit_resume(1) recovery_inv_def commit_alarm_def split: option.splits)
  qed
qed

lemma recovery_reachable: "recovery_step\<^sup>*\<^sup>* (new_recovery_system a x) S \<Longrightarrow> recovery_inv S"
  by (induction rule: rtranclp_induct) (simp add: recovery_inv_def new_recovery_system_def, blast intro: recovery_inv_step)

text \<open>
  C11. The runtime never rewinds an object that has not durably committed to it. With any calls interleaved at their awaits
  (arms, commits, cancellations, releases, lost answers and retries), once the runtime was asked to restore a bookmark the
  object holds a fence for that bookmark with a recorded deadline; the fence refuses all other traffic and cannot be cancelled,
  and no alarm was set before the deadline.
\<close>

theorem restore_only_after_commit:
  assumes "recovery_step\<^sup>*\<^sup>* (new_recovery_system a x) S" and "rt_native S = Some b"
  shows "\<exists>r t. rc_restore (rt_tables S) = Some r \<and> ar_targetBookmark r = b \<and> ar_commitAt r = Some t \<and> list_all (\<lambda>i. t \<le> i) (rt_alarms S) \<and>
    assertRecoveryAvailable (rt_tables S) = Inl recovery_stale \<and> (\<nexists>T. recovery_cancel b (rt_tables S) = Inr (True, T))"
proof -
  from recovery_reachable [OF assms(1)] assms(2) obtain r t where r: "rc_restore (rt_tables S) = Some r" "ar_targetBookmark r = b" "ar_commitAt r = Some t"
    and "\<forall>i \<in> set (rt_alarms S). t \<le> i"
    by (auto simp: recovery_inv_def split: option.splits)
  then show ?thesis by (auto simp: list_all_iff assertRecoveryAvailable_def assertRecoveryAvailableFor_def ensure_def recovery_cancel_def result_simps ensure_eq_Inr)
qed

definition same_restore :: "ArmedRecoveryRestore \<Rightarrow> ArmedRecoveryRestore \<Rightarrow> bool" where
  "same_restore r r' \<longleftrightarrow> ar_targetBookmark r' = ar_targetBookmark r \<and> ar_armedAt r' = ar_armedAt r \<and> ar_commitAt r' = ar_commitAt r \<and>
     (ar_nativeScheduled r \<longrightarrow> ar_nativeScheduled r')"

lemma committed_step:
  assumes "recovery_step S S'" and "rc_restore (rt_tables S) = Some r" and "ar_commitAt r = Some t"
  shows "\<exists>r'. rc_restore (rt_tables S') = Some r' \<and> same_restore r r'"
  using assms(1)
proof cases
  case (rs_arm target armedAt admission hook r' T)
  then show ?thesis using assms(2) arm_begin_restore [OF rs_arm(2)] by (simp add: same_restore_def)
next
  case (rs_arm_wait target armedAt admission hook T)
  then show ?thesis using assms(2) arm_begin_restore [OF rs_arm_wait(2)] by (simp add: same_restore_def)
next
  case (rs_arm_resume target armedAt admission hook current r' T)
  then show ?thesis using assms(2) arm_end_restore [OF rs_arm_resume(3)] by simp
next
  case (rs_release op g hook T)
  then show ?thesis using assms(2) release_restore [OF rs_release(2)] by (simp add: same_restore_def)
next
  case (rs_cancel target b T)
  then show ?thesis using assms(2,3) cancel_restore [OF rs_cancel(2)] by (auto simp: same_restore_def)
next
  case (rs_commit target now deadline T now')
  then show ?thesis using assms(2,3) by (auto simp: same_restore_def elim!: commit_begin_restore)
next
  case (rs_commit_wait target now deadline T)
  then show ?thesis using assms(2,3) by (auto simp: same_restore_def elim!: commit_begin_restore)
next
  case (rs_commit_resume target deadline undo T now)
  from rs_commit_resume(3) assms(2) show ?thesis
    by (rule scheduled_restore) (simp add: rs_commit_resume(1) same_restore_def)
qed

text \<open>
  A commit is irrevocable and its deadline does not slide: from any state, whatever calls follow, the restore that has a
  commit instant keeps its target, its arm instant and that instant, and once the runtime's acceptance is recorded it stays so.
\<close>

theorem commit_irrevocable:
  assumes "recovery_step\<^sup>*\<^sup>* S S'" and "rc_restore (rt_tables S) = Some r" and "ar_commitAt r = Some t"
  shows "\<exists>r'. rc_restore (rt_tables S') = Some r' \<and> same_restore r r'"
  using assms(1)
proof (induction rule: rtranclp_induct)
  case base
  then show ?case using assms(2) by (simp add: same_restore_def)
next
  case (step S1 S2)
  then obtain r1 where r1: "rc_restore (rt_tables S1) = Some r1" "same_restore r r1" by blast
  then have "ar_commitAt r1 = Some t" using assms(3) by (simp add: same_restore_def)
  then obtain r2 where "rc_restore (rt_tables S2) = Some r2" "same_restore r1 r2" using committed_step [OF step.hyps(2) r1(1)] by blast
  then show ?case using r1(2) by (auto simp: same_restore_def)
qed

section \<open>A run\<close>

definition sample_restore :: "int option \<Rightarrow> ArmedRecoveryRestore" where
  "sample_restore c = \<lparr> ar_targetBookmark = ''a'', ar_undoBookmark = ''b'', ar_armedAt = 1, ar_commitAt = c, ar_nativeScheduled = False \<rparr>"

definition sample_recovery :: "ArmedRecoveryRestore option \<Rightarrow> unit recovery_tables" where
  "sample_recovery r = \<lparr> rc_restore = r, rc_admission = None, rc_rest = () \<rparr>"

definition sample_system :: "ArmedRecoveryRestore option \<Rightarrow> string option \<Rightarrow> (string \<times> int) list \<Rightarrow> unit recovery_system" where
  "sample_system r n cs = \<lparr> rt_tables = sample_recovery r, rt_native = n, rt_arms = [Arm_wait ''a'' 1 None], rt_commits = cs, rt_alarms = [] \<rparr>"

lemma sample_bookmarks: "BOOKMARK ''a''" "BOOKMARK ''b''"
  by code_simp+

lemma sample_recovery_run: "recovery_step\<^sup>*\<^sup>* (new_recovery_system None ()) (sample_system (Some (sample_restore (Some 5010))) (Some ''a'') [(''a'', 5010)])"
proof -
  have "arm_begin ''a'' 1 None Inr (sample_recovery None) = Inr (None, sample_recovery None)"
    by (simp add: arm_begin_def sample_recovery_def sample_bookmarks assertBookmark_def ensure_def safe_integer_def)
  then have "recovery_step (new_recovery_system None ()) (sample_system None None [])"
    using rs_arm_wait [of "''a''" 1 None Inr "new_recovery_system None ()" "sample_recovery None"]
    by (simp add: new_recovery_system_def sample_system_def sample_recovery_def)
  moreover have "arm_end ''a'' 1 None Inr ''b'' (sample_recovery None) = Inr (sample_restore None, sample_recovery (Some (sample_restore None)))"
    by (simp add: arm_end_def sample_recovery_def sample_bookmarks assertBookmark_def ensure_def before_def arm_admission_def restore_check_def sample_restore_def Let_def)
  then have "recovery_step (sample_system None None []) (sample_system (Some (sample_restore None)) None [])"
    using rs_arm_resume [of "''a''" 1 None "sample_system None None []"] by (simp add: sample_system_def)
  moreover have "commit_begin ''a'' 10 (sample_recovery (Some (sample_restore None))) = Inr ((5010, True), sample_recovery (Some (sample_restore (Some 5010))))"
    by (simp add: commit_begin_def sample_recovery_def sample_bookmarks assertBookmark_def ensure_def update_restore_def restore_check_def sample_restore_def
      RECOVERY_ACTIVATION_DELAY_MS_def Let_def)
  then have "recovery_step (sample_system (Some (sample_restore None)) None []) (sample_system (Some (sample_restore (Some 5010))) (Some ''a'') [(''a'', 5010)])"
    using rs_commit_wait [of "''a''" 10 "sample_system (Some (sample_restore None)) None []"] by (simp add: sample_system_def)
  ultimately show ?thesis by (meson converse_rtranclp_into_rtranclp r_into_rtranclp)
qed

lemma restore_only_after_commit_witness:
  "assertRecoveryAvailable (rt_tables (sample_system (Some (sample_restore (Some 5010))) (Some ''a'') [(''a'', 5010)])) = Inl recovery_stale"
  using restore_only_after_commit [OF sample_recovery_run, of "''a''"] by (auto simp: sample_system_def)

lemma commit_irrevocable_witness:
  "\<exists>r'. rc_restore (sample_recovery (Some (sample_restore (Some 7)))) = Some r' \<and> same_restore (sample_restore (Some 7)) r'"
  using commit_irrevocable [of "sample_system (Some (sample_restore (Some 7))) None []" _ "sample_restore (Some 7)" 7, OF rtranclp.rtrancl_refl]
  by (simp add: sample_system_def sample_recovery_def sample_restore_def)

end
