(* ===== verification/Cdb_Mutation.thy ===== *)
theory Cdb_Mutation
  imports Atomic_Mutation Split_Oplog_Source Live_Properties Cdb_Admission Schema_Properties Recovery_Restore
begin

text \<open>
  One mutation on a shard, end to end: \<^verbatim>\<open>src/src/server/do/cdb-mutation-execution.ts\<close> and the methods \<open>mutate\<close>,
  \<open>subscribe\<close>, \<open>unsubscribe\<close> and \<open>finalizeUnsubscribe\<close> of \<^verbatim>\<open>src/src/server/do/cdb.ts\<close>. The theory composes the atomic
  mutation with the recovery fence, the schema epoch, the routing admission, the split op-log and the live outbox, all in one
  transaction on the tables of the shard. The handler, which user code provides, acts on the application's tables \<open>'app\<close>.
  What the extended context does (vector mutations) is among the handler's steps; its final check is an argument.
\<close>

section \<open>The shard\<close>

record 'app cdb_tables =
  cd_app :: 'app
  cd_split :: split_tables
  cd_fences :: fences
  cd_live :: live_tables
  cd_recovery :: "unit recovery_tables"
  cd_schema :: "unit schema_tables"
  cd_deleted :: "string list option"

datatype (plugins only: code) mutation_authority = Auth_organization | Auth_user | Auth_global

definition authority_name :: "mutation_authority \<Rightarrow> string" where
  "authority_name a = (case a of Auth_organization \<Rightarrow> ''organization'' | Auth_user \<Rightarrow> ''user'' | Auth_global \<Rightarrow> ''global'')"

record AuthEpochs =
  ae_global :: int
  ae_tenant :: int
  ae_principal :: int

record AuthCtx =
  au_userId :: string
  au_tenantId :: "string option"
  au_role :: "string option"
  au_roles :: "string list option"
  au_authEpochs :: "AuthEpochs option"
  au_activeTeamId :: "string option"
  au_claims :: props

text \<open>A request as it arrives, with the auth payload still a JSON value, and its snapshot.\<close>

record 'auth CdbMutationRequest =
  mr_principalId :: string
  mr_mutId :: string
  mr_ref :: string
  mr_args :: json
  mr_placement :: "CdbDbPlacement option"
  mr_auth :: 'auth
  mr_schemaEpoch :: int
  mr_recoveryGeneration :: int
  mr_domainSchemaEpoch :: int

text \<open>A partition key is a string, a number or a bigint; \<open>String(key)\<close> prints an integer in decimal.\<close>

datatype partition_scalar = Part_string string | Part_number int

definition partition_string :: "partition_scalar \<Rightarrow> string" where
  "partition_string p = (case p of Part_string s \<Rightarrow> s | Part_number n \<Rightarrow> decimal n)"

text \<open>A registered mutation: the code it was registered with. \<open>extractPartitionKey\<close> may be absent or throw.\<close>

record 'app MutationDescriptor =
  md_authority :: "mutation_authority option"
  md_extractPartitionKey :: "(json \<Rightarrow> partition_scalar option res) option"
  md_invokeValidated :: "AuthCtx \<Rightarrow> json \<Rightarrow> 'app mutation_handler"

record 'app cdb_worker =
  cw_sha256 :: "nat list \<Rightarrow> nat list"
  cw_manifest :: "string \<Rightarrow> 'app MutationDescriptor option"
  cw_journal :: ChardbMigrationJournal
  cw_assertDomainHeads :: "'app \<Rightarrow> unit res"

section \<open>Snapshots of the request\<close>

abbreviation malformedMutationAuth :: js_error where "malformedMutationAuth \<equiv> Cdb CDB_INVALID_ARGS"

text \<open>The own fields of the payload that \<open>snapshotMutationAuth\<close> projects, in its order; absent ones are left out.\<close>

definition projected_auth :: "props \<Rightarrow> props res" where
  "projected_auth ps =
     rbind (ensure (map_of ps ''userId'' \<noteq> None \<and> map_of ps ''claims'' \<noteq> None) malformedMutationAuth) (\<lambda>_.
     Inr (concat (map (\<lambda>k. case map_of ps k of None \<Rightarrow> [] | Some v \<Rightarrow> [(k, v)])
       [''userId'', ''tenantId'', ''role'', ''roles'', ''authEpochs'', ''activeTeamId'', ''claims''])))"

definition opt_string :: "json option \<Rightarrow> string option res" where
  "opt_string v = (case v of None \<Rightarrow> Inr None | Some (JStr s) \<Rightarrow> Inr (Some s) | Some _ \<Rightarrow> Inl malformedMutationAuth)"

definition auth_roles :: "json option \<Rightarrow> string list option res" where
  "auth_roles v = (case v of None \<Rightarrow> Inr None
     | Some (JArr vs) \<Rightarrow> rbind (rmap (\<lambda>x. case x of JStr s \<Rightarrow> Inr s | _ \<Rightarrow> Inl malformedMutationAuth) vs) (\<lambda>ss. Inr (Some ss))
     | Some _ \<Rightarrow> Inl malformedMutationAuth)"

definition auth_epoch :: "json option \<Rightarrow> int res" where
  "auth_epoch v = (case v of Some (JNum n) \<Rightarrow> if safe_integer n \<and> 0 \<le> n then Inr n else Inl malformedMutationAuth | _ \<Rightarrow> Inl malformedMutationAuth)"

definition auth_epochs :: "json option \<Rightarrow> AuthEpochs option res" where
  "auth_epochs v = (case v of None \<Rightarrow> Inr None
     | Some (JObj es) \<Rightarrow>
         rbind (auth_epoch (map_of es ''global'')) (\<lambda>g.
         rbind (auth_epoch (map_of es ''tenant'')) (\<lambda>t.
         rbind (auth_epoch (map_of es ''principal'')) (\<lambda>p. Inr (Some \<lparr> ae_global = g, ae_tenant = t, ae_principal = p \<rparr>))))
     | Some _ \<Rightarrow> Inl malformedMutationAuth)"

definition snapshotMutationAuth :: "json \<Rightarrow> AuthCtx res" where
  "snapshotMutationAuth input = (case input of
       JObj ps \<Rightarrow>
         rbind (projected_auth ps) (\<lambda>projected.
         rbind (snapshotCdbJsonByteLimit (JObj projected) CDB_ARGUMENT_MAX_BYTES CDB_INVALID_ARGS (Some argument_structure)) (\<lambda>snapshot.
         case snapshot of
           Some (JObj auth) \<Rightarrow>
             rbind (opt_string (map_of auth ''userId'')) (\<lambda>userId.
             rbind (opt_string (map_of auth ''tenantId'')) (\<lambda>tenantId.
             rbind (opt_string (map_of auth ''role'')) (\<lambda>role.
             rbind (opt_string (map_of auth ''activeTeamId'')) (\<lambda>activeTeamId.
             rbind (auth_roles (map_of auth ''roles'')) (\<lambda>roles.
             rbind (auth_epochs (map_of auth ''authEpochs'')) (\<lambda>epochs.
             case (userId, map_of auth ''claims'') of
               (Some u, Some (JObj claims)) \<Rightarrow> Inr \<lparr> au_userId = u, au_tenantId = tenantId, au_role = role, au_roles = roles,
                 au_authEpochs = epochs, au_activeTeamId = activeTeamId, au_claims = claims \<rparr>
             | _ \<Rightarrow> Inl malformedMutationAuth))))))
         | _ \<Rightarrow> Inl malformedMutationAuth))
     | _ \<Rightarrow> Inl malformedMutationAuth)"

definition snapshotMutationRequest :: "json CdbMutationRequest \<Rightarrow> AuthCtx CdbMutationRequest res" where
  "snapshotMutationRequest a =
     rbind (snapshotMutationAuth (mr_auth a)) (\<lambda>auth.
     rbind (snapshotCdbMutationArgs (mr_args a)) (\<lambda>args.
     case args of
       None \<Rightarrow> Inl (Cdb CDB_INVALID_ARGS)
     | Some args' \<Rightarrow> Inr \<lparr> mr_principalId = mr_principalId a, mr_mutId = mr_mutId a, mr_ref = mr_ref a, mr_args = args',
         mr_placement = mr_placement a, mr_auth = auth, mr_schemaEpoch = mr_schemaEpoch a,
         mr_recoveryGeneration = mr_recoveryGeneration a, mr_domainSchemaEpoch = mr_domainSchemaEpoch a \<rparr>))"

section \<open>Placement\<close>

definition mutationPlacementMismatch :: js_error where "mutationPlacementMismatch = Cdb CDB_INVARIANT"

text \<open>An absent string and the empty string are both falsy.\<close>

definition verified_partition :: "mutation_authority \<Rightarrow> AuthCtx \<Rightarrow> string option" where
  "verified_partition authority auth = (if authority = Auth_organization then au_tenantId auth else Some (au_userId auth))"

definition resolveMutationPlacement :: "AuthCtx CdbMutationRequest \<Rightarrow> mutation_authority option \<Rightarrow> partition_scalar option \<Rightarrow>
    CdbDbPlacement option res" where
  "resolveMutationPlacement request authority declaredPartition = (case authority of
       None \<Rightarrow> Inr None
     | Some a \<Rightarrow> (case declaredPartition of
         None \<Rightarrow> Inl mutationPlacementMismatch
       | Some p \<Rightarrow>
           (let partitionKey = partition_string p; verifiedPartition = verified_partition a (mr_auth request) in
            rbind (ensure (a = Auth_global \<or> verifiedPartition = Some partitionKey \<and> partitionKey \<noteq> []) mutationPlacementMismatch) (\<lambda>_.
            case mr_placement request of
              Some pl \<Rightarrow> rbind (ensure (pl_authority pl = authority_name a \<and> pl_partitionKey pl = partitionKey) mutationPlacementMismatch) (\<lambda>_. Inr (Some pl))
            | None \<Rightarrow> if a = Auth_global then Inr None
                else Inr (Some \<lparr> pl_authority = authority_name a, pl_partitionKey = partitionKey \<rparr>)))))"

section \<open>Admission\<close>

definition assertOrganizationActive :: "string \<Rightarrow> 'app cdb_tables \<Rightarrow> unit res" where
  "assertOrganizationActive organizationId D = (case cd_deleted D of
       None \<Rightarrow> Inr ()
     | Some rows \<Rightarrow> ensure (sql_one (\<lambda>r. r = organizationId) rows = None) (Cdb CDB_FORBIDDEN))"

definition assertActiveSchemaEpoch :: "'app cdb_worker \<Rightarrow> int \<Rightarrow> 'app cdb_tables \<Rightarrow> StoredCdbSchemaState res" where
  "assertActiveSchemaEpoch w expectedEpoch D =
     rbind (assertRecoveryAvailable (cd_recovery D)) (\<lambda>_. assertActiveEpoch expectedEpoch (cw_journal w) (cd_schema D))"

definition cdb_assertRecoveryGeneration :: "int \<Rightarrow> 'app cdb_tables \<Rightarrow> unit res" where
  "cdb_assertRecoveryGeneration expectedGeneration D = assertRequest expectedGeneration (rc_admission (cd_recovery D))"

text \<open>The callbacks that \<open>mutate\<close> passes.\<close>

definition mutation_schema_guard :: "'app cdb_worker \<Rightarrow> 'auth CdbMutationRequest \<Rightarrow> 'app cdb_tables \<Rightarrow> unit res" where
  "mutation_schema_guard w request D =
     rbind (assertActiveSchemaEpoch w (mr_domainSchemaEpoch request) D) (\<lambda>_. cdb_assertRecoveryGeneration (mr_recoveryGeneration request) D)"

definition placement_routing :: "int \<Rightarrow> CdbDbPlacement \<Rightarrow> 'app cdb_tables \<Rightarrow> unit res" where
  "placement_routing schemaEpoch pl D =
     rbind (vshardOf [KString (pl_partitionKey pl)]) (\<lambda>v. assertRoutingAdmission schemaEpoch v (split_state (cd_split D)) (cd_fences D))"

definition mutation_routing_guard :: "int \<Rightarrow> CdbDbPlacement option \<Rightarrow> 'app cdb_tables \<Rightarrow> unit res" where
  "mutation_routing_guard schemaEpoch placement D = (case placement of
       None \<Rightarrow> assertUnplacedRoutingAdmission (split_state (cd_split D)) (cd_fences D)
     | Some pl \<Rightarrow>
         rbind (placement_routing schemaEpoch pl D) (\<lambda>_.
         if pl_authority pl = ''organization'' then assertOrganizationActive (pl_partitionKey pl) D else Inr ()))"

definition capture_outcome :: "'app cdb_worker \<Rightarrow> 'auth CdbMutationRequest \<Rightarrow> CdbDbPlacement option \<Rightarrow> op_log \<Rightarrow> 'app cdb_tables \<Rightarrow>
    'app cdb_tables res" where
  "capture_outcome w request placement l D =
     rbind (cw_assertDomainHeads w (cd_app D)) (\<lambda>_.
     case placement of
       None \<Rightarrow> Inr D
     | Some pl \<Rightarrow>
         rbind (vshardOf [KString (pl_partitionKey pl)]) (\<lambda>v.
         rbind (captureSplitOpLogOutcome (mr_principalId request) (mr_mutId request) v l (cd_split D)) (\<lambda>(n, split).
         Inr (D\<lparr>cd_split := split\<rparr>))))"

section \<open>The mutation\<close>

text \<open>A handler on the application's tables, run on the tables of the shard.\<close>

primrec on_app :: "'app mutation_handler \<Rightarrow> 'app cdb_tables mutation_handler" where
  "on_app (Done r) = Done r"
| "on_app (Read k) = Read (\<lambda>D. (on_app \<circ> k) (cd_app D))"
| "on_app (Write tableName stmt k) = Write tableName (\<lambda>D. rbind (stmt (cd_app D)) (\<lambda>(n, app). Inr (n, D\<lparr>cd_app := app\<rparr>))) (on_app \<circ> k)"
| "on_app (Context f k) = Context (\<lambda>D. let (n, app) = f (cd_app D) in (n, D\<lparr>cd_app := app\<rparr>)) (on_app k)"
| "on_app (Nested h k) = Nested (on_app h) (on_app \<circ> k)"

text \<open>What the part before the alarm is armed has decided.\<close>

record 'app prepared_mutation =
  pm_request :: "AuthCtx CdbMutationRequest"
  pm_descriptor :: "'app MutationDescriptor"
  pm_placement :: "CdbDbPlacement option"
  pm_missing :: bool

definition executeCdbMutation_begin :: "'app cdb_worker \<Rightarrow> json CdbMutationRequest \<Rightarrow> 'app cdb_tables \<Rightarrow> 'app prepared_mutation res" where
  "executeCdbMutation_begin w input D =
     rbind (snapshotMutationRequest input) (\<lambda>snapshot.
     rbind (mutation_schema_guard w snapshot D) (\<lambda>_.
     case cw_manifest w (mr_ref snapshot) of
       None \<Rightarrow> Inl (Cdb CDB_REF_NOT_FOUND)
     | Some descriptor \<Rightarrow>
         rbind (case md_extractPartitionKey descriptor of None \<Rightarrow> Inr None | Some f \<Rightarrow> f (mr_args snapshot)) (\<lambda>declaredPartition.
         rbind (resolveMutationPlacement snapshot (md_authority descriptor) declaredPartition) (\<lambda>placement.
         let request = (case placement of None \<Rightarrow> snapshot | Some pl \<Rightarrow> snapshot\<lparr>mr_placement := Some pl\<rparr>) in
         rbind (ensure (\<not> (md_authority descriptor = None \<and> mr_placement snapshot \<noteq> None)) mutationPlacementMismatch) (\<lambda>_.
         Inr \<lparr> pm_request = request, pm_descriptor = descriptor, pm_placement = placement,
               pm_missing = (md_authority descriptor \<noteq> None \<and> placement = None) \<rparr>)))))"

definition mutation_before :: "'app cdb_worker \<Rightarrow> 'app prepared_mutation \<Rightarrow> 'app cdb_tables \<Rightarrow> 'app cdb_tables res" where
  "mutation_before w p D =
     rbind (mutation_schema_guard w (pm_request p) D) (\<lambda>_.
     rbind (mutation_routing_guard (mr_schemaEpoch (pm_request p)) (mr_placement (pm_request p)) D) (\<lambda>_.
     rbind (ensure (\<not> pm_missing p) mutationPlacementMismatch) (\<lambda>_. Inr D)))"

definition mutation_outcome :: "'app cdb_worker \<Rightarrow> 'app prepared_mutation \<Rightarrow> bool \<times> op_log \<Rightarrow> 'app cdb_tables \<Rightarrow> (js_value \<times> 'app cdb_tables) res" where
  "mutation_outcome w p x D = (if \<not> fst x then Inr (Js_json JNull, D)
     else rbind (capture_outcome w (pm_request p) (mr_placement (pm_request p)) (snd x) D) (\<lambda>D'. Inr (Js_json JNull, D')))"

definition mutation_write_set :: "string list \<Rightarrow> 'app cdb_tables \<Rightarrow> (js_value \<times> 'app cdb_tables) res" where
  "mutation_write_set touchedTables D =
     rbind (enqueueInvalidations touchedTables (cd_live D)) (\<lambda>(n, live). Inr (Js_json JNull, D\<lparr>cd_live := live\<rparr>))"

definition mutation_input :: "'app cdb_worker \<Rightarrow> 'app prepared_mutation \<Rightarrow> string \<Rightarrow> int \<Rightarrow> 'app cdb_tables ExecuteAtomicMutationInput" where
  "mutation_input w p cookie nowMs =
     (let request = pm_request p in
      \<lparr> in_principalId = mr_principalId request, in_mutId = mr_mutId request, in_ref = mr_ref request, in_args = mr_args request,
        in_schemaEpoch = mr_schemaEpoch request,
        in_handler = Sync_function (on_app (md_invokeValidated (pm_descriptor p) (mr_auth request) (mr_args request))),
        in_placement = mr_placement request, in_cookie = cookie, in_nowMs = nowMs, in_beforeRun = Some (mutation_before w p),
        in_onOutcome = Some (Sync_function (mutation_outcome w p)), in_onWriteSet = Some (Sync_function mutation_write_set) \<rparr>)"

text \<open>The rest, after \<open>setAlarm\<close>; when arming the alarm fails nothing more happens.\<close>

definition executeCdbMutation_end :: "'app cdb_worker \<Rightarrow> 'app prepared_mutation \<Rightarrow> bool \<Rightarrow> string \<Rightarrow> int \<Rightarrow> nat \<Rightarrow> op_log \<times> 'app cdb_tables \<Rightarrow>
    AtomicMutationResult res \<times> op_log \<times> 'app cdb_tables" where
  "executeCdbMutation_end w p alarmed cookie nowMs totalChanges s =
     (if \<not> alarmed then (Inl (Cdb CDB_SHARD_UNAVAILABLE), s)
      else executeAtomicMutation (cw_sha256 w) (mutation_input w p cookie nowMs) totalChanges s)"

section \<open>Subscriptions\<close>

text \<open>
  The query planner (\<^verbatim>\<open>routeValidatedQuery\<close>), the interval validation and the policy digest of a list of tables are arguments.
\<close>

record query_route =
  qr_authority :: string
  qr_partitionKey :: string
  qr_queryHash :: string
  qr_policyDigest :: string
  qr_vectorResourceId :: "string option"

record query_planner =
  qp_route :: "string \<Rightarrow> json \<Rightarrow> query_route res"
  qp_validateIntervals :: "json list \<Rightarrow> unit res"
  qp_policyDigest :: "string list \<Rightarrow> string"

definition subscribe_route :: "query_planner \<Rightarrow> CdbSubscriptionRequest \<Rightarrow> query_route option res" where
  "subscribe_route q a = (case rq_placement a of
       None \<Rightarrow> Inr None
     | Some pl \<Rightarrow>
         rbind (qp_route q (rq_ref a) (rq_args a)) (\<lambda>routed.
         rbind (ensure (qr_authority routed = cp_authority pl \<and> qr_partitionKey routed = cp_partitionKey pl \<and>
           rq_organizationId a = cp_partitionKey pl) subscriptionInvariant) (\<lambda>_. Inr (Some routed))))"

definition subscribe_transaction :: "'app cdb_worker \<Rightarrow> CdbSubscriptionRequest \<Rightarrow> string \<Rightarrow> string option \<Rightarrow> 'app cdb_tables \<Rightarrow>
    (CdbSubscriptionResponse \<times> 'app cdb_tables) res" where
  "subscribe_transaction w a policyDigest vectorResource D =
     rbind (cdb_assertRecoveryGeneration (rq_recoveryGeneration a) D) (\<lambda>_.
     rbind (assertActiveSchemaEpoch w (rq_domainSchemaEpoch a) D) (\<lambda>_.
     let existing = sql_one (\<lambda>r. sub_key r = id_key (rq_subscription a)) (subscriptions (cd_live D));
         admitted = rbind (assertRoutingAdmission (rq_schemaEpoch a) (rq_vshard a) (split_state (cd_split D)) (cd_fences D)) (\<lambda>_.
           assertOrganizationActive (rq_organizationId a) D) in
     case admitted of
       Inl e \<Rightarrow> if e = Cdb CDB_STALE_EPOCH \<and> existing = None then Inr (Sub_absent (rq_subscription a) e, D) else Inl e
     | Inr _ \<Rightarrow>
         rbind (case vectorResource of
             Some v \<Rightarrow> persistLiveSubscriptionWithVectorDependency (cw_sha256 w) a policyDigest v (cd_live D)
           | None \<Rightarrow> persistLiveSubscription (cw_sha256 w) a policyDigest (cd_live D)) (\<lambda>(response, live).
         Inr (response, D\<lparr>cd_live := live\<rparr>))))"

definition cdb_subscribe :: "'app cdb_worker \<Rightarrow> query_planner \<Rightarrow> CdbSubscriptionRequest \<Rightarrow> 'app cdb_tables \<Rightarrow>
    (CdbSubscriptionResponse \<times> 'app cdb_tables) res" where
  "cdb_subscribe w q input D =
     rbind (assertLiveSubscriptionIdentity (rq_subscription input)) (\<lambda>_.
     rbind (query_args (rq_args input)) (\<lambda>args.
     let a = input\<lparr>rq_args := args\<rparr> in
     rbind (assertActiveSchemaEpoch w (rq_domainSchemaEpoch a) D) (\<lambda>_.
     rbind (vshardOf [KString (rq_organizationId a)]) (\<lambda>v.
     rbind (ensure (v = rq_vshard a) subscriptionInvariant) (\<lambda>_.
     rbind (subscribe_route q a) (\<lambda>routed.
     rbind (qp_validateIntervals q (rq_intervals a)) (\<lambda>_.
     let policyDigest = qp_policyDigest q (rq_tables a) in
     if (case routed of None \<Rightarrow> False | Some r \<Rightarrow> qr_queryHash r \<noteq> rq_queryHash a \<or> qr_policyDigest r \<noteq> policyDigest)
     then Inr (Sub_absent (rq_subscription a) subscriptionInvariant, D)
     else subscribe_transaction w a policyDigest (case routed of None \<Rightarrow> None | Some r \<Rightarrow> qr_vectorResourceId r) D)))))))"

definition cdb_unsubscribe :: "LiveSubscriptionId \<Rightarrow> int \<Rightarrow> 'app cdb_tables \<Rightarrow> 'app cdb_tables res" where
  "cdb_unsubscribe subscription generation D =
     rbind (assertLiveSubscriptionIdentity subscription) (\<lambda>_.
     rbind (cdb_assertRecoveryGeneration generation D) (\<lambda>_.
     rbind (retireLiveSubscription subscription (cd_live D)) (\<lambda>live. Inr (D\<lparr>cd_live := live\<rparr>))))"

definition finalizeUnsubscribe :: "LiveSubscriptionId \<Rightarrow> int \<Rightarrow> 'app cdb_tables \<Rightarrow> 'app cdb_tables res" where
  "finalizeUnsubscribe subscription generation D =
     rbind (assertLiveSubscriptionIdentity subscription) (\<lambda>_.
     rbind (cdb_assertRecoveryGeneration generation D) (\<lambda>_.
     rbind (finalizeRetiredLiveSubscription subscription (cd_live D)) (\<lambda>live. Inr (D\<lparr>cd_live := live\<rparr>))))"

section \<open>The handler stays on its tables\<close>

definition app_connection :: "'app cdb_tables connection \<Rightarrow> 'app connection" where
  "app_connection c = \<lparr> conn_db = cd_app (conn_db c), conn_changes = conn_changes c, conn_total = conn_total c \<rparr>"

definition shard_connection :: "'app cdb_tables \<Rightarrow> 'app connection \<Rightarrow> 'app cdb_tables connection" where
  "shard_connection D c = \<lparr> conn_db = D\<lparr>cd_app := conn_db c\<rparr>, conn_changes = conn_changes c, conn_total = conn_total c \<rparr>"

lemma shard_connection_simps [simp]:
  "conn_db (shard_connection D c) = D\<lparr>cd_app := conn_db c\<rparr>" "conn_changes (shard_connection D c) = conn_changes c"
  "conn_total (shard_connection D c) = conn_total c"
  by (simp_all add: shard_connection_def)

lemma counted_shard: "counted n (D\<lparr>cd_app := a\<rparr>) (shard_connection D c) = shard_connection D (counted n a c)"
  by (simp add: counted_def shard_connection_def)

lemma write_run_app:
  "write_run True tableName (\<lambda>D. rbind (stmt (cd_app D)) (\<lambda>(n, app). Inr (n, D\<lparr>cd_app := app\<rparr>))) (v, shard_connection D c) =
     (case write_run True tableName stmt (v, c) of (r, v', c') \<Rightarrow> (r, v', shard_connection D c'))"
proof (cases "stmt (conn_db c)")
  case (Inl e)
  then show ?thesis by (simp add: write_run_def assertMutationTransactionActive_def ensure_def split: sum.splits prod.splits)
next
  case (Inr x)
  obtain n app where x: "x = (n, app)" by fastforce
  have up: "D\<lparr>cd_app := a, cd_app := b\<rparr> = D\<lparr>cd_app := b\<rparr>" for a b by simp
  show ?thesis using Inr
    by (simp add: x write_run_def assertMutationTransactionActive_def ensure_def counted_shard Let_def split: sum.splits prod.splits)
qed

lemma on_app_run:
  "run_handler (on_app h) (v, shard_connection D c) =
     (case run_handler h (v, c) of (r, v', c') \<Rightarrow> (r, v', shard_connection D c'))"
proof (induction h arbitrary: v c)
  case (Write tableName stmt k)
  then show ?case by (simp add: write_run_app split: prod.splits)
next
  case (Context f k)
  then show ?case by (simp add: counted_shard split: prod.splits)
next
  case (Nested h k)
  obtain r v1 c1 where r: "run_handler h (v, c) = (r, v1, c1)" by (cases "run_handler h (v, c)") auto
  have "after_nested r (D\<lparr>cd_app := conn_db c\<rparr>) (shard_connection D c1) = shard_connection D (after_nested r (conn_db c) c1)"
    by (cases r) (simp_all add: after_nested_def shard_connection_def)
  then show ?case using r Nested by (simp add: Let_def)
qed simp_all

lemma on_app_starting:
  "run_handler (on_app h) (starting t D) = (case run_handler h (starting t (cd_app D)) of (r, v, c) \<Rightarrow> (r, v, shard_connection D c))"
proof -
  have "starting t D = (fst (starting t (cd_app D)), shard_connection D (snd (starting t (cd_app D))))"
    by (simp add: starting_def shard_connection_def counted_def)
  then show ?thesis using on_app_run [of h _ D] by (metis prod.collapse)
qed

section \<open>What a mutation does\<close>

definition prepared_handler :: "'app prepared_mutation \<Rightarrow> 'app mutation_handler" where
  "prepared_handler p = md_invokeValidated (pm_descriptor p) (mr_auth (pm_request p)) (mr_args (pm_request p))"

lemma mutation_input_simps [simp]:
  "in_handler (mutation_input w p cookie now) = Sync_function (on_app (prepared_handler p))" "admitted (mutation_input w p cookie now) = mutation_before w p"
  "in_placement (mutation_input w p cookie now) = mr_placement (pm_request p)"
  "input_key (mutation_input w p cookie now) = (mr_principalId (pm_request p), mr_mutId (pm_request p))"
  by (auto simp: mutation_input_def prepared_handler_def admitted_def input_key_def Let_def)

lemma mutation_before_Inr: "mutation_before w p D = Inr D' \<longleftrightarrow> D' = D \<and> mutation_schema_guard w (pm_request p) D = Inr () \<and>
    mutation_routing_guard (mr_schemaEpoch (pm_request p)) (mr_placement (pm_request p)) D = Inr () \<and> \<not> pm_missing p"
  by (auto simp: mutation_before_def rbind_eq_Inr ensure_eq_Inr)

lemma hooks_not_run: "after_hooks (mutation_input w p cookie now) False [] l D = Inr D' \<longleftrightarrow> D' = D"
  by (auto simp: after_hooks_def mutation_input_def call_hook_def mutation_outcome_def Let_def isThenable_def)

lemma hooks_ran:
  "after_hooks (mutation_input w p cookie now) True tables l D = Inr D' \<longleftrightarrow>
     (\<exists>D1. capture_outcome w (pm_request p) (mr_placement (pm_request p)) l D = Inr D1 \<and>
       (if tables = [] then D' = D1 else \<exists>n live. enqueueInvalidations tables (cd_live D1) = Inr (n, live) \<and> D' = D1\<lparr>cd_live := live\<rparr>))"
  by (auto simp: after_hooks_def mutation_input_def call_hook_def mutation_outcome_def mutation_write_set_def Let_def isThenable_def rbind_eq_Inr rbind_assoc)

lemma capture_outcome_Inr:
  "capture_outcome w a pl l D = Inr D' \<longleftrightarrow> cw_assertDomainHeads w (cd_app D) = Inr () \<and> (case pl of
      None \<Rightarrow> D' = D
    | Some q \<Rightarrow> \<exists>v n split. vshardOf [KString (pl_partitionKey q)] = Inr v \<and>
        captureSplitOpLogOutcome (mr_principalId a) (mr_mutId a) v l (cd_split D) = Inr (n, split) \<and> D' = D\<lparr>cd_split := split\<rparr>)"
  by (auto simp: capture_outcome_def rbind_eq_Inr split: option.splits)

lemma well_behaved_app:
  assumes "handler_json (prepared_handler p)"
  shows "well_behaved (mutation_input w p cookie now)"
  using assms by (auto simp: well_behaved_def handler_json_def on_app_starting split: prod.splits)

text \<open>What the vshard's split keeps of the outcome: nothing for an unplaced mutation.\<close>

definition captured :: "AuthCtx CdbMutationRequest \<Rightarrow> op_log \<Rightarrow> split_tables \<Rightarrow> split_tables \<Rightarrow> bool" where
  "captured a l split split' \<longleftrightarrow> (case mr_placement a of
       None \<Rightarrow> split' = split
     | Some pl \<Rightarrow> \<exists>v n. vshardOf [KString (pl_partitionKey pl)] = Inr v \<and>
         captureSplitOpLogOutcome (mr_principalId a) (mr_mutId a) v l split = Inr (n, split'))"

lemma capture_outcome_only:
  "capture_outcome w a pl l D = Inr D' \<Longrightarrow> mr_placement a = pl \<Longrightarrow> D' = D\<lparr>cd_split := cd_split D'\<rparr> \<and> captured a l (cd_split D) (cd_split D')"
  by (auto simp: capture_outcome_Inr captured_def split: option.splits)

text \<open>
  C2. The whole effect of a mutation, in one commit. In every reachable state, a call that fails leaves the op-log and
  every table as they were. A call that replays a stored reply changes nothing. A call that ran was admitted; its handler
  returned the reported result and made exactly the reported application tables; the outcome was captured for the split that
  moves its vshard; the registrations that read a touched table, and no other, have an entry at the next change number; the op-log
  has the reply; and all other tables are untouched.
\<close>

theorem mutation_commit_complete:
  assumes "\<And>b. byte_list (cw_sha256 w b)" and "(atomic_step (cw_sha256 w) d)\<^sup>*\<^sup>* (empty_log, D0) (l, D)" and "live_reachable es (cd_live D)"
    and "handler_json (prepared_handler p)" and "executeCdbMutation_end w p alarmed cookie now t (l, D) = (r, l', D')"
  shows "case r of
      Inl e \<Rightarrow> l' = l \<and> D' = D
    | Inr res \<Rightarrow> mutation_before w p D = Inr D \<and>
        (if \<not> am_ran res then l' = l \<and> D' = D
         else \<exists>j v c. run_handler (prepared_handler p) (starting t (cd_app D)) = (Inr (Js_json j), v, c) \<and> am_result res = j \<and>
           D' = D\<lparr>cd_app := conn_db c, cd_split := cd_split D', cd_live := cd_live D'\<rparr> \<and>
           captured (pm_request p) l' (cd_split D) (cd_split D') \<and>
           (if am_touchedTables res = [] then cd_live D' = cd_live D
            else changed_to (readers (set (am_touchedTables res)) (cd_live D)) (cd_live D) (cd_live D')) \<and>
           logged l (mr_principalId (pm_request p), mr_mutId (pm_request p)) = None \<and>
           logged l' (mr_principalId (pm_request p), mr_mutId (pm_request p)) \<noteq> None)"
proof (cases alarmed)
  case False
  then show ?thesis using assms(5) by (auto simp: executeCdbMutation_end_def)
next
  case True
  let ?i = "mutation_input w p cookie now"
  have run: "executeAtomicMutation (cw_sha256 w) ?i t (l, D) = (r, l', D')" using assms(5) True by (simp add: executeCdbMutation_end_def)
  from run well_behaved_app [OF assms(4)] assms(1) atomic_reachable [OF assms(2,1)] show ?thesis
  proof (cases rule: execute_cases)
    case (failed e)
    then show ?thesis by simp
  next
    case (replied args j m n)
    then show ?thesis by (auto simp: rbind_eq_Inr mutation_before_Inr hooks_not_run)
  next
    case (executed h D1 pv j v c)
    have h: "h = on_app (prepared_handler p)" and D1: "D1 = D" "mutation_before w p D = Inr D" using executed(1,2) by (simp_all add: mutation_before_Inr)
    obtain v0 c0 where app: "run_handler (prepared_handler p) (starting t (cd_app D)) = (Inr (Js_json j), v0, c0)" and c: "c = shard_connection D c0"
      using executed(5) by (auto simp: h D1(1) on_app_starting split: prod.splits)
    let ?tables = "sort (vol_touched v)"
    obtain D2 where D2: "capture_outcome w (pm_request p) (mr_placement (pm_request p)) l' (D\<lparr>cd_app := conn_db c0\<rparr>) = Inr D2"
      and D': "if ?tables = [] then D' = D2 else \<exists>n live. enqueueInvalidations ?tables (cd_live D2) = Inr (n, live) \<and> D' = D2\<lparr>cd_live := live\<rparr>"
      using executed(11) by (auto simp: hooks_ran c)
    note cap = capture_outcome_only [OF D2 refl]
    have live: "cd_live D2 = cd_live D" using cap by (metis cdb_tables.select_convs(4) cdb_tables.surjective cdb_tables.update_convs(1,2))
    have enq: "enqueued (readers (set ?tables) (cd_live D)) True (cd_live D) (enqueueInvalidations ?tables (cd_live D))"
      by (rule enqueued_mutation [OF reachable_live_inv [OF assms(3)]])
    have changed: "if ?tables = [] then cd_live D' = cd_live D else changed_to (readers (set ?tables) (cd_live D)) (cd_live D) (cd_live D')"
    proof (cases "?tables = []")
      case True
      then show ?thesis using D' live by simp
    next
      case False
      then show ?thesis using D' enq by (auto simp: live enqueued_def split: if_splits)
    qed
    have split: "cd_split D' = cd_split D2" using D' by (auto split: if_splits)
    have "D' = D2\<lparr>cd_live := cd_live D'\<rparr>" using D' live by (auto split: if_splits)
    moreover have "D2 = D\<lparr>cd_app := conn_db c0, cd_split := cd_split D2\<rparr>" using cap by simp
    ultimately have "D' = D\<lparr>cd_app := conn_db c0, cd_split := cd_split D', cd_live := cd_live D'\<rparr>" unfolding split by (metis cdb_tables.update_convs(4))
    moreover have "captured (pm_request p) l' (cd_split D) (cd_split D')" using cap unfolding split by simp
    moreover have "logged l' (mr_principalId (pm_request p), mr_mutId (pm_request p)) \<noteq> None"
      using executed(10) by (auto simp: logged_None commit_log_def)
    ultimately show ?thesis using executed(4,7) D1(2) app changed by (cases "?tables = []") simp_all
  qed
qed

text \<open>
  C18. Nothing commits unless the shard admits it. A call that returns a result, whether it ran or replayed, found at that
  moment no point-in-time restore armed, the request's recovery generation open, the schema active at the request's epoch and the Worker's
  version, the routing generation admitted for the vshard of its placement, and the organization of the placement not deleted.
\<close>

theorem mutation_commits_only_admitted:
  assumes "executeCdbMutation_end w p alarmed cookie now t (l, D) = (Inr res, l', D')"
  shows "rc_restore (cd_recovery D) = None \<and> assertRequest (mr_recoveryGeneration (pm_request p)) (rc_admission (cd_recovery D)) = Inr () \<and>
    (\<exists>s. st_state (cd_schema D) = Some s \<and> sc_status s = Sch_active \<and> sc_active_version s = jn_version (cw_journal w) \<and>
       sc_active_epoch s = mr_domainSchemaEpoch (pm_request p)) \<and>
    (case mr_placement (pm_request p) of
       None \<Rightarrow> assertUnplacedRoutingAdmission (split_state (cd_split D)) (cd_fences D) = Inr ()
     | Some pl \<Rightarrow> placement_routing (mr_schemaEpoch (pm_request p)) pl D = Inr () \<and>
         (pl_authority pl = ''organization'' \<longrightarrow> (\<forall>rows. cd_deleted D = Some rows \<longrightarrow> pl_partitionKey pl \<notin> set rows)))"
proof -
  have "executeAtomicMutation (cw_sha256 w) (mutation_input w p cookie now) t (l, D) = (Inr res, l', D')"
    using assms by (auto simp: executeCdbMutation_end_def split: if_splits)
  then have "\<exists>D0. mutation_before w p D = Inr D0"
    by (auto simp: executeAtomicMutation_def mutation_transaction_def rbind_eq_Inr split: sum.splits)
  then have g: "mutation_schema_guard w (pm_request p) D = Inr ()" "mutation_routing_guard (mr_schemaEpoch (pm_request p)) (mr_placement (pm_request p)) D = Inr ()"
    by (auto simp: mutation_before_Inr)
  then show ?thesis
    by (auto simp: mutation_schema_guard_def assertActiveSchemaEpoch_def cdb_assertRecoveryGeneration_def assertActiveEpoch_def mutation_routing_guard_def
      assertRecoveryAvailable_def assertRecoveryAvailableFor_def assertOrganizationActive_def schema_Inr sql_one_None_iff split: option.splits if_splits)
qed

lemma begin_Inr:
  assumes "executeCdbMutation_begin w input D = Inr p"
  obtains snap desc dp plc where "snapshotMutationRequest input = Inr snap" and "mutation_schema_guard w snap D = Inr ()"
    and "cw_manifest w (mr_ref snap) = Some desc"
    and "(case md_extractPartitionKey desc of None \<Rightarrow> Inr None | Some f \<Rightarrow> f (mr_args snap)) = Inr dp"
    and "resolveMutationPlacement snap (md_authority desc) dp = Inr plc" and "md_authority desc = None \<longrightarrow> mr_placement snap = None"
    and "p = \<lparr> pm_request = case plc of None \<Rightarrow> snap | Some pl \<Rightarrow> snap\<lparr>mr_placement := Some pl\<rparr>, pm_descriptor = desc, pm_placement = plc,
      pm_missing = (md_authority desc \<noteq> None \<and> plc = None) \<rparr>"
proof -
  obtain snap where snap: "snapshotMutationRequest input = Inr snap" "mutation_schema_guard w snap D = Inr ()"
    using assms by (fastforce simp: executeCdbMutation_begin_def rbind_eq_Inr)
  obtain desc where desc: "cw_manifest w (mr_ref snap) = Some desc"
    using assms snap by (cases "cw_manifest w (mr_ref snap)") (auto simp: executeCdbMutation_begin_def)
  obtain dp where dp: "(case md_extractPartitionKey desc of None \<Rightarrow> Inr None | Some f \<Rightarrow> f (mr_args snap)) = Inr dp"
    using assms by (auto simp: executeCdbMutation_begin_def snap desc rbind_eq_Inr)
  obtain plc where plc: "resolveMutationPlacement snap (md_authority desc) dp = Inr plc"
    using assms by (auto simp: executeCdbMutation_begin_def snap desc dp rbind_eq_Inr)
  show thesis
    by (rule that [OF snap desc dp plc]) (use assms in \<open>auto simp: executeCdbMutation_begin_def snap desc dp plc Let_def rbind_eq_Inr ensure_eq_Inr\<close>)
qed

lemma resolve_placed:
  assumes "resolveMutationPlacement r authority dp = Inr (Some pl)"
  shows "\<exists>a k. authority = Some a \<and> dp = Some k \<and> pl_partitionKey pl = partition_string k \<and> pl_authority pl = authority_name a \<and>
    (a = Auth_global \<or> verified_partition a (mr_auth r) = Some (partition_string k) \<and> partition_string k \<noteq> [])"
  using assms
  by (cases authority; cases dp; cases "mr_placement r")
    (auto simp: resolveMutationPlacement_def rbind_eq_Inr ensure_eq_Inr Let_def split: if_split_asm)

lemma resolve_unplaced:
  "resolveMutationPlacement r authority dp = Inr None \<Longrightarrow> authority = None \<or> authority = Some Auth_global \<and> mr_placement r = None"
  by (cases authority; cases dp; cases "mr_placement r")
    (auto simp: resolveMutationPlacement_def rbind_eq_Inr ensure_eq_Inr Let_def split: if_split_asm)

lemma snapshot_fields:
  assumes "snapshotMutationRequest input = Inr snap"
  shows "snapshotMutationAuth (mr_auth input) = Inr (mr_auth snap)" and "snapshotCdbMutationArgs (mr_args input) = Inr (Some (mr_args snap))"
proof -
  obtain auth args where i: "snapshotMutationAuth (mr_auth input) = Inr auth" "snapshotCdbMutationArgs (mr_args input) = Inr args"
    using assms by (auto simp: snapshotMutationRequest_def rbind_eq_Inr)
  with assms show "snapshotMutationAuth (mr_auth input) = Inr (mr_auth snap)" "snapshotCdbMutationArgs (mr_args input) = Inr (Some (mr_args snap))"
    by (cases args; auto simp: snapshotMutationRequest_def)+
qed

text \<open>
  C17. A caller cannot choose its partition. When a request passes the checks before the commit with a placement, the placement is
  the one its registration declares for the arguments: for an organization it is the tenant of the verified auth payload, for a user the
  user of the payload, and it is not empty; and the executed arguments and auth are the bounded snapshots of the ones sent.
\<close>

theorem mutation_partition_verified:
  assumes "executeCdbMutation_begin w input D = Inr p" and "mr_placement (pm_request p) = Some pl"
  shows "\<exists>a f k. md_authority (pm_descriptor p) = Some a \<and> md_extractPartitionKey (pm_descriptor p) = Some f \<and>
    f (mr_args (pm_request p)) = Inr (Some k) \<and> pl_partitionKey pl = partition_string k \<and> pl_authority pl = authority_name a \<and>
    (a = Auth_organization \<longrightarrow> au_tenantId (mr_auth (pm_request p)) = Some (pl_partitionKey pl) \<and> pl_partitionKey pl \<noteq> []) \<and>
    (a = Auth_user \<longrightarrow> au_userId (mr_auth (pm_request p)) = pl_partitionKey pl \<and> pl_partitionKey pl \<noteq> []) \<and>
    snapshotMutationAuth (mr_auth input) = Inr (mr_auth (pm_request p)) \<and>
    snapshotCdbMutationArgs (mr_args input) = Inr (Some (mr_args (pm_request p)))"
proof -
  obtain snap desc dp plc where snap: "snapshotMutationRequest input = Inr snap"
    and dp: "(case md_extractPartitionKey desc of None \<Rightarrow> Inr None | Some f \<Rightarrow> f (mr_args snap)) = Inr dp"
    and plc: "resolveMutationPlacement snap (md_authority desc) dp = Inr plc" and no: "md_authority desc = None \<longrightarrow> mr_placement snap = None"
    and p: "p = \<lparr> pm_request = case plc of None \<Rightarrow> snap | Some pl \<Rightarrow> snap\<lparr>mr_placement := Some pl\<rparr>, pm_descriptor = desc, pm_placement = plc,
      pm_missing = (md_authority desc \<noteq> None \<and> plc = None) \<rparr>"
    by (rule begin_Inr [OF assms(1)])
  have some: "plc = Some pl"
    using assms(2) no resolve_unplaced [of snap "md_authority desc" dp] plc by (cases plc) (auto simp: p)
  have fields: "mr_auth (pm_request p) = mr_auth snap" "mr_args (pm_request p) = mr_args snap" "pm_descriptor p = desc" by (simp_all add: p some)
  obtain a k where a: "md_authority desc = Some a" "dp = Some k" "pl_partitionKey pl = partition_string k" "pl_authority pl = authority_name a"
    "a = Auth_global \<or> verified_partition a (mr_auth snap) = Some (partition_string k) \<and> partition_string k \<noteq> []"
    using resolve_placed [OF plc [unfolded some]] by auto
  obtain f where f: "md_extractPartitionKey desc = Some f" "f (mr_args snap) = Inr (Some k)"
    using dp by (cases "md_extractPartitionKey desc") (simp_all add: a)
  then show ?thesis unfolding fields
    by (intro exI [of _ a] exI [of _ f] exI [of _ k]) (use a snapshot_fields [OF snap] in \<open>auto simp: verified_partition_def\<close>)
qed

lemma refused:
  assumes "mutation_before w p D = Inl e"
  shows "\<exists>e. executeCdbMutation_end w p a c now t (l, D) = (Inl e, l, D)"
proof (cases a)
  case True
  have "\<not> mutation_transaction (cw_sha256 w) (mutation_input w p c now) h t (l, D) = Inr x" for h x
    using assms by (auto simp: mutation_transaction_def rbind_eq_Inr)
  then show ?thesis using True
    by (auto simp: executeCdbMutation_end_def executeAtomicMutation_def rbind_eq_Inr split: sum.splits)
qed (simp add: executeCdbMutation_end_def)

text \<open>
  C3. No request is served by both shards of a move. While the source keeps a fence that is not superseded over the vshard of a
  placed request, and the destination has a row of the generation the fence hands over, the same prepared request cannot
  return a result on both, whatever Worker, clock and op-log each of them has.
\<close>

theorem no_dual_commit:
  assumes "mr_placement (pm_request p) = Some pl" and "vshardOf [KString (pl_partitionKey pl)] = Inr v"
    and "fence_step\<^sup>*\<^sup>* [] (cd_fences S)" and "f \<in> set (cd_fences S)" and "status f \<noteq> Superseded" and "rangeLo f \<le> v" and "v \<le> rangeHi f"
    and "d \<in> set (split_state (cd_split D))" and "dest_at v d" and "ss_destination_generation d = Some (destinationGeneration f)"
    and "\<forall>r \<in> set (split_state (cd_split D)). split_check r"
    and "\<forall>r \<in> set (split_state (cd_split D)). \<forall>g. ss_destination_generation r = Some g \<longrightarrow> safe_integer g"
    and "executeCdbMutation_end w p a c now t (l, S) = (Inr res, s')"
  shows "\<exists>e. executeCdbMutation_end w2 p a2 c2 now2 t2 (l2, D) = (Inl e, l2, D)"
proof -
  let ?admitted = "\<lambda>X. assertRoutingAdmission (mr_schemaEpoch (pm_request p)) v (split_state (cd_split X)) (cd_fences X) = Inr ()"
  have admits: "?admitted X" if "mutation_before w' p X = Inr X'" for w' and X X' :: "'a cdb_tables"
    using that assms(1,2) by (auto simp: mutation_before_Inr mutation_routing_guard_def placement_routing_def rbind_eq_Inr)
  have "\<exists>D0. mutation_before w p S = Inr D0"
  proof (cases "mutation_before w p S")
    case (Inl e)
    from refused [OF this] obtain e' where "executeCdbMutation_end w p a c now t (l, S) = (Inl e', l, S)" by blast
    with assms(13) show ?thesis by simp
  qed simp
  then have "?admitted S" using admits by blast
  then have "\<not> ?admitted D" using no_split_brain [OF assms(3-12)] by blast
  then obtain e where "mutation_before w2 p D = Inl e" using admits by (cases "mutation_before w2 p D") auto
  then show ?thesis by (rule refused)
qed

section \<open>A run\<close>

text \<open>A user's mutation that writes one row of the table \<open>t\<close>, which one registration reads.\<close>

definition sample_writer :: "nat mutation_handler" where
  "sample_writer = Write ''t'' (\<lambda>n. Inr ((1, 1), n + 1)) (\<lambda>r. Done (Inr (Js_json (JBool True))))"

definition sample_descriptor :: "mutation_authority option \<Rightarrow> nat MutationDescriptor" where
  "sample_descriptor a = \<lparr> md_authority = a, md_extractPartitionKey = Some (\<lambda>args. Inr (Some (Part_string ''u''))),
     md_invokeValidated = (\<lambda>auth args. sample_writer) \<rparr>"

definition sample_worker :: "mutation_authority option \<Rightarrow> nat cdb_worker" where
  "sample_worker a = \<lparr> cw_sha256 = (\<lambda>_. []), cw_manifest = (\<lambda>r. if r = ''m#f'' then Some (sample_descriptor a) else None),
     cw_journal = sample_journal 0, cw_assertDomainHeads = (\<lambda>_. Inr ()) \<rparr>"

definition sample_shard :: "nat cdb_tables" where
  "sample_shard = \<lparr> cd_app = 7, cd_split = empty_split, cd_fences = [], cd_live = sample_registered, cd_recovery = (sample_recovery None)\<lparr>rc_admission := initial_admission\<rparr>,
     cd_schema = \<lparr> st_state = Some sample_schema_state, st_steps = [], st_domain = () \<rparr>, cd_deleted = Some [''gone''] \<rparr>"

definition sample_auth :: json where
  "sample_auth = JObj [(''userId'', JStr ''u''), (''claims'', JObj [])]"

definition sample_request :: "json CdbMutationRequest" where
  "sample_request = \<lparr> mr_principalId = ''u'', mr_mutId = ''m'', mr_ref = ''m#f'', mr_args = JObj [], mr_placement = None,
     mr_auth = sample_auth, mr_schemaEpoch = 1, mr_recoveryGeneration = 0, mr_domainSchemaEpoch = 1 \<rparr>"

definition sample_auth_ctx :: AuthCtx where
  "sample_auth_ctx = \<lparr> au_userId = ''u'', au_tenantId = None, au_role = None, au_roles = None, au_authEpochs = None, au_activeTeamId = None,
     au_claims = [] \<rparr>"

definition sample_snapshot :: "CdbDbPlacement option \<Rightarrow> AuthCtx CdbMutationRequest" where
  "sample_snapshot pl = \<lparr> mr_principalId = ''u'', mr_mutId = ''m'', mr_ref = ''m#f'', mr_args = JObj [], mr_placement = pl,
     mr_auth = sample_auth_ctx, mr_schemaEpoch = 1, mr_recoveryGeneration = 0, mr_domainSchemaEpoch = 1 \<rparr>"

definition sample_mutation :: "mutation_authority option \<Rightarrow> CdbDbPlacement option \<Rightarrow> nat prepared_mutation" where
  "sample_mutation a pl = \<lparr> pm_request = sample_snapshot pl, pm_descriptor = sample_descriptor a, pm_placement = pl, pm_missing = False \<rparr>"

lemma sample_snapshots: "snapshotMutationRequest sample_request = Inr (sample_snapshot None)"
  by code_simp

lemma sample_guard: "mutation_schema_guard (sample_worker a) (sample_snapshot pl) sample_shard = Inr ()"
  by (simp add: mutation_schema_guard_def assertActiveSchemaEpoch_def cdb_assertRecoveryGeneration_def assertActiveEpoch_def assertRequest_def
    assertRecoveryAvailable_def assertRecoveryAvailableFor_def sample_shard_def sample_worker_def sample_snapshot_def sample_recovery_def
    sample_schema adm_read_def initial_admission_def malformed_operation_def)

lemma sample_unplaced: "mutation_before (sample_worker a) (sample_mutation a None) sample_shard = Inr sample_shard"
  by (simp add: mutation_before_Inr sample_mutation_def sample_guard)
    (simp add: mutation_routing_guard_def assertUnplacedRoutingAdmission_def sample_shard_def sample_snapshot_def empty_split_def sql_one_def ensure_def)

lemma sample_begin_user:
  "executeCdbMutation_begin (sample_worker (Some Auth_user)) sample_request sample_shard =
     Inr (sample_mutation (Some Auth_user) (Some \<lparr> pl_authority = ''user'', pl_partitionKey = ''u'' \<rparr>))"
  by (simp add: executeCdbMutation_begin_def sample_snapshots sample_guard) (simp add: sample_worker_def sample_snapshot_def sample_descriptor_def
    resolveMutationPlacement_def verified_partition_def partition_string_def authority_name_def sample_auth_ctx_def sample_mutation_def ensure_def Let_def)

lemma mutation_partition_verified_witness:
  "mr_auth (pm_request (sample_mutation (Some Auth_user) (Some \<lparr> pl_authority = ''user'', pl_partitionKey = ''u'' \<rparr>))) = sample_auth_ctx \<and>
   snapshotMutationAuth sample_auth = Inr sample_auth_ctx"
  using mutation_partition_verified [OF sample_begin_user, of "\<lparr> pl_authority = ''user'', pl_partitionKey = ''u'' \<rparr>"]
  by (auto simp: sample_mutation_def sample_snapshot_def sample_request_def)

definition sample_result :: AtomicMutationResult where
  "sample_result = \<lparr> am_cookie = JStr ''c'', am_ran = True, am_result = JBool True, am_rowsAffected = JNum 1, am_touchedTables = [''t''] \<rparr>"

lemma sample_writes: "fst (executeCdbMutation_end (sample_worker None) (sample_mutation None None) True ''c'' 5 0 (empty_log, sample_shard)) = Inr sample_result"
  by code_simp

lemma sample_writer_json: "handler_json (prepared_handler (sample_mutation a pl))"
proof -
  have "j = JBool True \<and> conn_changes c \<le> 2" if "run_handler sample_writer (starting t db) = (Inr (Js_json j), v, c)" for t db j v c
    using that by (auto simp: sample_writer_def starting_def write_run_def assertMutationTransactionActive_def counted_def
        split: prod.splits sum.splits)
  then have "handler_json sample_writer" unfolding handler_json_def safe_integer_def by fastforce
  then show ?thesis by (simp add: prepared_handler_def sample_mutation_def sample_descriptor_def)
qed

lemma mutation_commit_complete_witness:
  "\<exists>l' D'. executeCdbMutation_end (sample_worker None) (sample_mutation None None) True ''c'' 5 0 (empty_log, sample_shard) = (Inr sample_result, l', D') \<and>
     changed_to (readers {''t''} sample_registered) sample_registered (cd_live D') \<and> cd_schema D' = cd_schema sample_shard"
proof -
  obtain l' D' where run: "executeCdbMutation_end (sample_worker None) (sample_mutation None None) True ''c'' 5 0 (empty_log, sample_shard) = (Inr sample_result, l', D')"
    using sample_writes by (metis prod.collapse)
  have live: "live_reachable [Quiet] (cd_live sample_shard)" using sample_live_reachable(1) by (simp add: sample_shard_def)
  have bytes: "byte_list (cw_sha256 (sample_worker None) b)" for b by (simp add: sample_worker_def byte_list_def)
  have live': "changed_to (readers {''t''} sample_registered) sample_registered (cd_live D')"
    and "\<exists>c :: nat connection. D' = sample_shard\<lparr>cd_app := conn_db c, cd_split := cd_split D', cd_live := cd_live D'\<rparr>"
    using mutation_commit_complete [OF bytes rtranclp.rtrancl_refl live sample_writer_json run] by (auto simp: sample_result_def) (simp add: sample_shard_def)
  then obtain c :: "nat connection" where D': "D' = sample_shard\<lparr>cd_app := conn_db c, cd_split := cd_split D', cd_live := cd_live D'\<rparr>" by blast
  have "cd_schema D' = cd_schema sample_shard" by (subst D') simp
  with live' have "changed_to (readers {''t''} sample_registered) sample_registered (cd_live D') \<and> cd_schema D' = cd_schema sample_shard" by blast
  then show ?thesis using run by blast
qed

lemma mutation_commits_only_admitted_witness:
  "\<exists>l' D'. executeCdbMutation_end (sample_worker None) (sample_mutation None None) True ''c'' 5 0 (empty_log, sample_shard) = (Inr sample_result, l', D') \<and>
     assertUnplacedRoutingAdmission (split_state (cd_split sample_shard)) (cd_fences sample_shard) = Inr ()"
proof -
  obtain l' D' where run: "executeCdbMutation_end (sample_worker None) (sample_mutation None None) True ''c'' 5 0 (empty_log, sample_shard) = (Inr sample_result, l', D')"
    using sample_writes by (metis prod.collapse)
  show ?thesis using mutation_commits_only_admitted [OF run] run by (auto simp: sample_mutation_def sample_snapshot_def)
qed

text \<open>The user's partition is on vshard 2032, which a move hands from generation 1 to generation 2.\<close>

definition sample_placement :: CdbDbPlacement where
  "sample_placement = \<lparr> pl_authority = ''user'', pl_partitionKey = ''u'' \<rparr>"

definition sample_move :: CdbRoutingFenceIdentity where
  "sample_move = \<lparr> migrationId = ''m1'', rangeLo = 2000, rangeHi = 2100, sourceGeneration = 1, destinationGeneration = 2, recoveryGeneration = 0 \<rparr>"

definition sample_source_shard :: "nat cdb_tables" where
  "sample_source_shard = sample_shard\<lparr>cd_fences := [new_fence sample_move 100]\<rparr>"

definition sample_destination_shard :: "nat cdb_tables" where
  "sample_destination_shard = sample_shard\<lparr>cd_split := empty_split\<lparr>split_state := [(sample_destination ''m1'' 2 1)\<lparr>ss_range_lo := 2000, ss_range_hi := 2100\<rparr>]\<rparr>\<rparr>"

abbreviation sample_user_mutation :: "nat prepared_mutation" where
  "sample_user_mutation \<equiv> sample_mutation (Some Auth_user) (Some sample_placement)"

lemma sample_placed:
  "fst (executeCdbMutation_end (sample_worker (Some Auth_user)) sample_user_mutation True ''c'' 5 0 (empty_log, sample_source_shard)) = Inr sample_result"
  by code_simp

lemma sample_vshard: "vshardOf [KString ''u''] = Inr 2032"
  by code_simp

lemma sample_prepare_move: "prepare sample_move 100 [] = Inr (new_fence sample_move 100, [new_fence sample_move 100])"
  by code_simp

lemma no_dual_commit_witness:
  "\<exists>e. executeCdbMutation_end (sample_worker (Some Auth_user)) sample_user_mutation True ''c'' 5 0 (empty_log, sample_destination_shard) =
     (Inl e, empty_log, sample_destination_shard)"
proof -
  obtain s' where run: "executeCdbMutation_end (sample_worker (Some Auth_user)) sample_user_mutation True ''c'' 5 0 (empty_log, sample_source_shard) = (Inr sample_result, s')"
    using sample_placed by (metis prod.collapse)
  let ?f = "new_fence sample_move 100" and ?d = "(sample_destination ''m1'' 2 1)\<lparr>ss_range_lo := 2000, ss_range_hi := 2100\<rparr>"
  have placed: "mr_placement (pm_request sample_user_mutation) = Some sample_placement"
    and v: "vshardOf [KString (pl_partitionKey sample_placement)] = Inr 2032"
    by (simp_all add: sample_mutation_def sample_snapshot_def sample_placement_def sample_vshard)
  have "fence_step [] [?f]" using sample_prepare_move by (rule fence_step.intros)
  then have reach: "fence_step\<^sup>*\<^sup>* [] (cd_fences sample_source_shard)" by (simp add: sample_source_shard_def)
  note defs = sample_source_shard_def sample_destination_shard_def sample_destination_def new_fence_def sample_move_def
    dest_at_def split_check_def safe_integer_def
  show ?thesis
    by (rule no_dual_commit [OF placed v reach _ _ _ _ _ _ _ _ _ run, of ?f ?d]) (simp_all add: defs)
qed

end
