(* ===== verification/Schema_Upgrade.thy ===== *)
theory Schema_Upgrade
  imports Schema_Properties Cdb_Admission Recovery_Admission
begin

text \<open>
  The upgrade of one shard as the Catalog drives it, \<^verbatim>\<open>Catalog.migrateSchemaShard\<close> in \<^verbatim>\<open>src/src/server/do/catalog.ts\<close>:
  prepare, every pending step, activate, each a method of the shard (\<^verbatim>\<open>src/src/server/do/cdb.ts\<close>) with a transaction of its own;
  and that the drive can be interrupted after any of its calls and repeated.
\<close>

section \<open>The methods of the shard\<close>

text \<open>
  A deployed Worker: its journal, the SQLite engine and the hooks (see \<open>Schema_Store\<close>), the normalization of declared resources to
  the ids of the vector resources among them (\<^verbatim>\<open>chardbResourceDescriptorsAt\<close>, its loop; a later declaration of a column replaces an
  earlier one), and what follows an activation outside its transaction, reading the next delivery time and arming the alarm.
\<close>

record 'd shard_worker =
  sw_sha256 :: "nat list \<Rightarrow> nat list"
  sw_journal :: ChardbMigrationJournal
  sw_exec :: "string \<Rightarrow> 'd \<Rightarrow> 'd res"
  sw_before :: "int \<Rightarrow> 'd \<Rightarrow> 'd res"
  sw_after :: "int \<Rightarrow> 'd \<Rightarrow> 'd res"
  sw_record :: "'d \<Rightarrow> 'd res"
  sw_vectors :: "json list \<Rightarrow> string list res"
  sw_alarm :: "'d \<Rightarrow> unit res"

text \<open>What else of the shard a call meets: its recovery admission, its migrations of ranges, and its clock.\<close>

record shard_env =
  se_admission :: admission
  se_splits :: "split_state_row list"
  se_now :: int

definition assertSchemaCall :: "int \<Rightarrow> shard_env \<Rightarrow> unit res" where
  "assertSchemaCall expectedGeneration e =
     rbind (assertRequest expectedGeneration (se_admission e)) (\<lambda>_. assertNoActiveReshard (se_splits e))"

definition vectorResourcesAt :: "'d shard_worker \<Rightarrow> int \<Rightarrow> string list res" where
  "vectorResourcesAt w version =
     rbind (ensure (safe_integer version \<and> 0 \<le> version \<and> version \<le> int (length (jn_migrations (sw_journal w)))) schema_invalid) (\<lambda>_.
     sw_vectors w (concat (map mg_resources (take (nat version) (jn_migrations (sw_journal w))))))"

definition assertVectorMigrationIdentity :: "string list \<Rightarrow> string list \<Rightarrow> unit res" where
  "assertVectorMigrationIdentity previous next_resources =
     ensure (list_all (\<lambda>r. r \<in> set next_resources) previous) (Cdb CDB_UNSUPPORTED_FEATURE)"

text \<open>At every boot of the object.\<close>

definition vector_transition :: "'d shard_worker \<Rightarrow> int \<Rightarrow> string list \<Rightarrow> string list res" where
  "vector_transition w version previous =
     rbind (vectorResourcesAt w version) (\<lambda>next_resources.
     rbind (assertVectorMigrationIdentity previous next_resources) (\<lambda>_. Inr next_resources))"

definition assertVectorJournalTransitions :: "'d shard_worker \<Rightarrow> unit res" where
  "assertVectorJournalTransitions w = rbind (rfold (vector_transition w) [1..jn_version (sw_journal w)] []) (\<lambda>_. Inr ())"

definition prepareSchemaMigration :: "'d shard_worker \<Rightarrow> int \<Rightarrow> shard_env \<Rightarrow> CdbSchemaMigrationPrepareRequest \<Rightarrow> 'd schema_tables \<Rightarrow>
    (StoredCdbSchemaState \<times> 'd schema_tables) res" where
  "prepareSchemaMigration w g e a T =
     rbind (assertSchemaCall g e) (\<lambda>_. schema_prepare (sw_sha256 w) a (sw_journal w) T)"

definition applySchemaMigration :: "'d shard_worker \<Rightarrow> int \<Rightarrow> shard_env \<Rightarrow> string \<Rightarrow> int \<Rightarrow> 'd schema_tables \<Rightarrow>
    (StoredCdbSchemaState \<times> 'd schema_tables) res" where
  "applySchemaMigration w g e m version T =
     rbind (assertSchemaCall g e) (\<lambda>_.
     rbind (vectorResourcesAt w (version - 1)) (\<lambda>previousResources.
     rbind (vectorResourcesAt w version) (\<lambda>nextResources.
     rbind (assertVectorMigrationIdentity previousResources nextResources) (\<lambda>_.
     schema_apply (sw_exec w) (sw_before w) (sw_after w) m version (sw_journal w) (se_now e) T))))"

text \<open>The answer and the tables: a failure of the alarm is answered after the activation is committed.\<close>

definition activateSchemaMigration :: "'d shard_worker \<Rightarrow> int \<Rightarrow> shard_env \<Rightarrow> string \<Rightarrow> 'd schema_tables \<Rightarrow>
    StoredCdbSchemaState res \<times> 'd schema_tables" where
  "activateSchemaMigration w g e m T =
     (case rbind (assertSchemaCall g e) (\<lambda>_. schema_activate m (sw_journal w) (sw_record w) T) of
        Inl err \<Rightarrow> (Inl err, T)
      | Inr (s, T') \<Rightarrow> (rbind (sw_alarm w (st_domain T')) (\<lambda>_. Inr s), T'))"

section \<open>The drive\<close>

definition call_step :: "'d shard_worker \<Rightarrow> int \<Rightarrow> string \<Rightarrow> shard_env \<times> int \<Rightarrow> 'd schema_tables \<Rightarrow> 'd schema_tables res" where
  "call_step w g m c T = rbind (applySchemaMigration w g (fst c) m (snd c) T) (\<lambda>(s, T'). Inr T')"

text \<open>The calls meet the environments of the list in turn: the prepare call the first, the step calls the next ones, activate its own.\<close>

definition migrate_cdb :: "'d shard_worker \<Rightarrow> int \<Rightarrow> (nat \<Rightarrow> shard_env) \<Rightarrow> CdbSchemaMigrationPrepareRequest \<Rightarrow> 'd schema_tables \<Rightarrow>
    (StoredCdbSchemaState \<times> 'd schema_tables) res" where
  "migrate_cdb w g es a T =
     rbind (prepareSchemaMigration w g (es 0) a T) (\<lambda>(s, T1).
     rbind (pendingMigrations (sw_journal w) (sr_activeVersion a)) (\<lambda>ms.
     let versions = map mg_version (takeWhile (\<lambda>m. mg_version m \<le> sr_targetVersion a) ms) in
     rbind (rfold (call_step w g (sr_migrationId a)) (map (\<lambda>(i, v). (es i, v)) (enumerate 1 versions)) T1) (\<lambda>T2.
     let (answer, T3) = activateSchemaMigration w g (es (length versions + 1)) (sr_migrationId a) T2 in
     rbind answer (\<lambda>s'. Inr (s', T3)))))"

text \<open>
  Any one call the drive makes, at any time, with any recovery generation and whatever the shard's other tables hold then; a repeated
  or concurrent drive makes more of them. Between the calls the shard may boot, and its application tables may be written.
\<close>

inductive drive_call :: "'d shard_worker \<Rightarrow> CdbSchemaMigrationPrepareRequest \<Rightarrow> 'd schema_tables \<Rightarrow> 'd schema_tables \<Rightarrow> bool" for w a where
  drive_prepare: "prepareSchemaMigration w g e a T = Inr (s, T') \<Longrightarrow> drive_call w a T T'"
| drive_apply: "applySchemaMigration w g e (sr_migrationId a) version T = Inr (s, T') \<Longrightarrow> drive_call w a T T'"
| drive_activate: "activateSchemaMigration w g e (sr_migrationId a) T = (answer, T') \<Longrightarrow> drive_call w a T T'"
| drive_boot: "schema_initialize (sw_sha256 w) (sw_journal w) T = Inr (b, T') \<Longrightarrow> drive_call w a T T'"
| drive_writes: "drive_call w a T (T\<lparr>st_domain := d\<rparr>)"

section \<open>A shard on the way\<close>

definition upgrade_request :: "'d shard_worker \<Rightarrow> CdbSchemaMigrationPrepareRequest \<Rightarrow> bool" where
  "upgrade_request w a \<longleftrightarrow> journal_ok (sw_journal w) \<and> opaque_id (sr_migrationId a) \<and> 0 \<le> sr_activeVersion a \<and>
     sr_activeVersion a < sr_targetVersion a \<and> sr_targetVersion a = jn_version (sw_journal w) \<and> safe_integer (sr_targetEpoch a) \<and>
     1 \<le> sr_targetEpoch a \<and> migrationDigestAt (sw_sha256 w) (sw_journal w) (sr_activeVersion a) = Inr (sr_activeDigest a) \<and>
     migrationDigestAt (sw_sha256 w) (sw_journal w) (sr_targetVersion a) = Inr (sr_targetDigest a)"

definition upgrade_steps :: "'d shard_worker \<Rightarrow> CdbSchemaMigrationPrepareRequest \<Rightarrow> ChardbMigration list" where
  "upgrade_steps w a = steps_between (jn_migrations (sw_journal w)) (sr_activeVersion a) (sr_targetVersion a)"

definition upgrade_fresh :: "CdbSchemaMigrationPrepareRequest \<Rightarrow> 'd schema_tables \<Rightarrow> bool" where
  "upgrade_fresh a T \<longleftrightarrow> (case st_state T of None \<Rightarrow> False | Some s \<Rightarrow> sc_status s = Sch_active \<and> schema_state_check s \<and>
     sc_active_version s = sr_activeVersion a \<and> sc_active_digest s = sr_activeDigest a \<and> sr_targetEpoch a = sc_active_epoch s + 1) \<and>
     (\<forall>r \<in> set (st_steps T). sp_migration_id r \<noteq> sr_migrationId a)"

definition upgrade_at :: "'d shard_worker \<Rightarrow> CdbSchemaMigrationPrepareRequest \<Rightarrow> nat \<Rightarrow> 'd schema_tables \<Rightarrow> bool" where
  "upgrade_at w a k T \<longleftrightarrow> (case st_state T of None \<Rightarrow> False | Some s \<Rightarrow> sc_status s = Sch_migrating \<and> sc_migration_id s = Some (sr_migrationId a) \<and>
     sc_active_version s = sr_activeVersion a \<and> sc_active_digest s = sr_activeDigest a \<and> sc_target_version s = Some (sr_targetVersion a) \<and>
     sc_target_epoch s = Some (sr_targetEpoch a) \<and> sc_target_digest s = Some (sr_targetDigest a) \<and> schema_state_check s) \<and>
     k \<le> length (upgrade_steps w a) \<and> applied_steps (sr_migrationId a) T = map entry (take k (upgrade_steps w a))"

definition upgraded :: "CdbSchemaMigrationPrepareRequest \<Rightarrow> 'd schema_tables \<Rightarrow> bool" where
  "upgraded a T \<longleftrightarrow> (case st_state T of None \<Rightarrow> False | Some s \<Rightarrow> sc_status s = Sch_active \<and>
     at_target s (sr_migrationId a) (sr_targetVersion a) (sr_targetEpoch a) (sr_targetDigest a))"

definition total_worker :: "'d shard_worker \<Rightarrow> bool" where
  "total_worker w \<longleftrightarrow> (\<forall>q d. \<exists>d'. sw_exec w q d = Inr d') \<and> (\<forall>v d. \<exists>d'. sw_before w v d = Inr d') \<and>
     (\<forall>v d. \<exists>d'. sw_after w v d = Inr d') \<and> (\<forall>d. \<exists>d'. sw_record w d = Inr d') \<and> (\<forall>d. sw_alarm w d = Inr ())"

text \<open>The Worker has booted: its journal keeps every vector resource from version to version.\<close>

definition booted_worker :: "'d shard_worker \<Rightarrow> bool" where
  "booted_worker w \<longleftrightarrow> sw_vectors w [] = Inr [] \<and> assertVectorJournalTransitions w = Inr ()"

text \<open>The shard is open at the generation of the attempt, and moves no range.\<close>

definition call_admitted :: "int \<Rightarrow> shard_env \<Rightarrow> bool" where
  "call_admitted g e \<longleftrightarrow> assertSchemaCall g e = Inr () \<and> 0 \<le> se_now e"

definition store_step :: "'d shard_worker \<Rightarrow> string \<Rightarrow> int \<Rightarrow> int \<Rightarrow> 'd schema_tables \<Rightarrow> 'd schema_tables res" where
  "store_step w m nowMs version T =
     rbind (schema_apply (sw_exec w) (sw_before w) (sw_after w) m version (sw_journal w) nowMs T) (\<lambda>(s, T'). Inr T')"

lemma exec_statements_total:
  assumes "total_worker w"
  shows "\<exists>d'. exec_statements (sw_exec w) g d = Inr d'"
proof -
  have "\<exists>d'. rfold (sw_exec w) qs d = Inr d'" for qs
  proof (induction qs arbitrary: d)
    case (Cons q qs)
    then show ?case using assms by (metis total_worker_def rfold.simps(2) rbind.simps(2))
  qed simp
  then show ?thesis by (simp add: exec_statements_def)
qed

lemma request_deployed:
  assumes "upgrade_request w a"
  shows "deployed (jn_migrations (sw_journal w)) (sw_journal w)" "0 \<le> sr_activeVersion a" "sr_activeVersion a \<le> sr_targetVersion a"
    "sr_targetVersion a \<le> jn_version (sw_journal w)" "length (upgrade_steps w a) = nat (sr_targetVersion a - sr_activeVersion a)"
proof -
  show D: "deployed (jn_migrations (sw_journal w)) (sw_journal w)" "0 \<le> sr_activeVersion a" "sr_activeVersion a \<le> sr_targetVersion a"
    "sr_targetVersion a \<le> jn_version (sw_journal w)"
    using assms by (simp_all add: upgrade_request_def deployed_def)
  show "length (upgrade_steps w a) = nat (sr_targetVersion a - sr_activeVersion a)"
    using length_steps_between [OF D] by (simp add: upgrade_steps_def)
qed

lemma nth_upgrade_steps:
  assumes "upgrade_request w a" and "k < length (upgrade_steps w a)"
  shows "mg_version (upgrade_steps w a ! k) = sr_activeVersion a + int k + 1"
    "nth_migration (sw_journal w) (sr_activeVersion a + int k) = Some (upgrade_steps w a ! k)"
  using nth_steps_between [OF request_deployed(1-4) [OF assms(1)], of k] assms(2) request_deployed(5) [OF assms(1)]
  by (simp_all add: upgrade_steps_def)

lemma upgrade_expected: "upgrade_request w a \<Longrightarrow> expected_steps (sw_journal w) (sr_activeVersion a) (sr_targetVersion a) = Inr (upgrade_steps w a)"
  using expected_between [OF request_deployed(1-4)] by (simp add: upgrade_steps_def)

lemma applied_row:
  "(v, d) \<in> set (applied_steps m T) \<longleftrightarrow> (\<exists>r \<in> set (st_steps T). step_key r = (m, v) \<and> sp_digest r = d)"
  by (auto simp: applied_steps_def step_key_def)

section \<open>The calls along the way\<close>

lemma request_checks:
  assumes "upgrade_request w a"
  shows "opaque_id (sr_migrationId a)" "safe_integer (sr_activeVersion a)" "0 \<le> sr_activeVersion a" "safe_integer (sr_targetVersion a)"
    "sr_activeVersion a < sr_targetVersion a" "sr_targetVersion a = jn_version (sw_journal w)" "safe_integer (sr_targetEpoch a)" "1 \<le> sr_targetEpoch a"
    "migrationDigestAt (sw_sha256 w) (sw_journal w) (sr_activeVersion a) = Inr (sr_activeDigest a)"
    "migrationDigestAt (sw_sha256 w) (sw_journal w) (sr_targetVersion a) = Inr (sr_targetDigest a)"
proof -
  have "journal_ok (sw_journal w)" using assms by (simp add: upgrade_request_def)
  note V = journal_version(1) [OF this]
  show "safe_integer (sr_activeVersion a)" "safe_integer (sr_targetVersion a)" using assms by (simp_all add: upgrade_request_def V)
qed (use assms in \<open>unfold upgrade_request_def, blast+\<close>)

lemma prepare_fresh:
  assumes "upgrade_request w a" and "upgrade_fresh a T"
  shows "\<exists>s T'. schema_prepare (sw_sha256 w) a (sw_journal w) T = Inr (s, T') \<and> upgrade_at w a 0 T'"
proof -
  obtain s where s: "st_state T = Some s" "sc_status s = Sch_active" "schema_state_check s" "sc_active_version s = sr_activeVersion a"
    "sc_active_digest s = sr_activeDigest a" "sr_targetEpoch a = sc_active_epoch s + 1" and none: "\<forall>r \<in> set (st_steps T). sp_migration_id r \<noteq> sr_migrationId a"
    using assms(2) by (auto simp: upgrade_fresh_def split: option.splits)
  let ?s = "s\<lparr>sc_status := Sch_migrating, sc_migration_id := Some (sr_migrationId a), sc_target_version := Some (sr_targetVersion a),
      sc_target_epoch := Some (sr_targetEpoch a), sc_target_digest := Some (sr_targetDigest a)\<rparr>"
  note r = request_checks [OF assms(1)]
  have check: "schema_state_check ?s" using s(3) by (simp add: schema_state_check_def)
  have "schema_prepare (sw_sha256 w) a (sw_journal w) T = Inr (?s, T\<lparr>st_state := Some ?s\<rparr>)"
    unfolding schema_prepare_def using r s check
    by (simp add: schema_state_def update_state_def with_state_def ensure_def at_target_def)
  moreover have "upgrade_at w a 0 (T\<lparr>st_state := Some ?s\<rparr>)"
    using s none check by (simp add: upgrade_at_def applied_steps_empty)
  ultimately show ?thesis by blast
qed

lemma prepare_at:
  assumes "upgrade_request w a" and "upgrade_at w a k T \<or> upgraded a T"
  shows "\<exists>s. schema_prepare (sw_sha256 w) a (sw_journal w) T = Inr (s, T)"
proof -
  note r = request_checks [OF assms(1)]
  from assms(2) show ?thesis unfolding schema_prepare_def using r
    by (auto simp: schema_state_def with_state_def ensure_def upgrade_at_def upgraded_def split: option.splits)
qed

lemma apply_upgraded:
  assumes "upgraded a T" and "safe_integer v" and "1 \<le> v" and "v \<le> jn_version (sw_journal w)"
  shows "store_step w (sr_migrationId a) now v T = Inr T"
  using assms
  by (auto simp: store_step_def schema_apply_def upgraded_def at_target_def schema_state_def with_state_def ensure_def split: option.splits)

lemma upgrade_at_D:
  assumes "upgrade_at w a k T"
  obtains s where "st_state T = Some s" "sc_status s = Sch_migrating" "sc_migration_id s = Some (sr_migrationId a)"
    "sc_active_version s = sr_activeVersion a" "sc_target_version s = Some (sr_targetVersion a)" "sc_target_epoch s = Some (sr_targetEpoch a)"
    "sc_target_digest s = Some (sr_targetDigest a)" "schema_state_check s"
    "k \<le> length (upgrade_steps w a)" "applied_steps (sr_migrationId a) T = map entry (take k (upgrade_steps w a))"
  using assms by (auto simp: upgrade_at_def split: option.splits)

text \<open>A step inserted after the applied ones.\<close>

lemma upgrade_at_step:
  assumes "upgrade_request w a" and "upgrade_at w a k T" and "k < length (upgrade_steps w a)" and "g = upgrade_steps w a ! k"
  shows "upgrade_at w a (Suc k) (T\<lparr>st_domain := d, st_steps := st_steps T @ [step_row (sr_migrationId a) g now]\<rparr>)"
proof -
  let ?m = "sr_migrationId a" and ?E = "upgrade_steps w a"
  have A: "applied_steps ?m T = map entry (take k ?E)" using assms(2) by (rule upgrade_at_D)
  have "sp_version r \<le> sr_activeVersion a + int k" if "r \<in> set (st_steps T)" "sp_migration_id r = ?m" for r
  proof -
    have "(sp_version r, sp_digest r) \<in> set (applied_steps ?m T)" using that by (auto simp: applied_row step_key_def)
    then obtain j where "j < k" "j < length ?E" "sp_version r = mg_version (?E ! j)"
      unfolding A by (auto simp: in_set_conv_nth entry_def)
    then show ?thesis using nth_upgrade_steps(1) [OF assms(1), of j] by simp
  qed
  then have "applied_steps ?m (T\<lparr>st_domain := d, st_steps := st_steps T @ [step_row ?m g now]\<rparr>) = applied_steps ?m T @ [entry g]"
    using nth_upgrade_steps(1) [OF assms(1,3)] by (intro applied_steps_new [where n = "sr_activeVersion a + int k"]) (simp_all add: assms(4))
  also have "\<dots> = map entry (take (Suc k) ?E)" using assms(3) by (simp add: A assms(4) take_Suc_conv_app_nth)
  finally have "applied_steps ?m (T\<lparr>st_domain := d, st_steps := st_steps T @ [step_row ?m g now]\<rparr>) = map entry (take (Suc k) ?E)" .
  then show ?thesis using assms(2,3) by (simp add: upgrade_at_def)
qed

lemma apply_at:
  assumes "upgrade_request w a" and "total_worker w" and "0 \<le> now" and "upgrade_at w a k T" and "j \<le> k" and "j < length (upgrade_steps w a)"
  shows "\<exists>T'. store_step w (sr_migrationId a) now (sr_activeVersion a + int j + 1) T = Inr T' \<and> upgrade_at w a (max k (Suc j)) T'"
proof -
  let ?m = "sr_migrationId a" and ?E = "upgrade_steps w a" and ?v = "sr_activeVersion a + int j + 1"
  let ?g = "?E ! j"
  obtain s where s: "st_state T = Some s" "sc_status s = Sch_migrating" "sc_migration_id s = Some ?m" "sc_active_version s = sr_activeVersion a"
      "sc_target_version s = Some (sr_targetVersion a)" and A: "applied_steps ?m T = map entry (take k ?E)"
    using assms(4) by (rule upgrade_at_D)
  note g = nth_upgrade_steps [OF assms(1,6)]
  have v: "1 \<le> ?v" "?v \<le> sr_targetVersion a" "?v \<le> jn_version (sw_journal w)"
    using assms(6) request_deployed [OF assms(1)] by simp_all
  have J: "journal_ok (sw_journal w)" using assms(1) by (simp add: upgrade_request_def)
  have safe: "safe_integer ?v" using journal_version(1) [OF J _ v(3)] v(1) by simp
  have nth: "nth_migration (sw_journal w) (?v - 1) = Some ?g" using g(2) by simp
  show ?thesis
  proof (cases "sql_one (\<lambda>r. step_key r = (?m, ?v)) (st_steps T)")
    case (Some r)
    then have "(?v, sp_digest r) \<in> set (applied_steps ?m T)" by (auto simp: applied_row dest: sql_one_SomeD)
    then obtain i where i: "i < k" "i < length ?E" "(?v, sp_digest r) = entry (?E ! i)" unfolding A by (auto simp: in_set_conv_nth)
    then have "i = j" using nth_upgrade_steps(1) [OF assms(1) i(2)] by (simp add: entry_def)
    then have "sp_digest r = mg_digest ?g" "max k (Suc j) = k" using i by (simp_all add: entry_def)
    moreover have "store_step w ?m now ?v T = Inr T"
      unfolding store_step_def schema_apply_def using s v safe nth g(1) Some calculation(1)
      by (simp add: schema_state_def with_state_def ensure_def)
    ultimately show ?thesis using assms(4) by simp
  next
    case None
    then have new: "\<forall>r \<in> set (st_steps T). step_key r \<noteq> (?m, mg_version ?g)" unfolding sql_one_None_iff g(1) .
    have "j = k"
    proof (rule ccontr)
      assume "j \<noteq> k"
      then have "entry ?g \<in> set (applied_steps ?m T)" using assms(5,6) unfolding A by (force simp: in_set_conv_nth)
      then show False using new by (auto simp: entry_def applied_row)
    qed
    then have len: "length (applied_steps ?m T) = j" using A assms(6) by simp
    obtain d1 d2 d3 where d: "sw_before w (mg_version ?g) (st_domain T) = Inr d1" "exec_statements (sw_exec w) ?g d1 = Inr d2"
      "sw_after w (mg_version ?g) d2 = Inr d3"
      using assms(2) exec_statements_total [OF assms(2)] by (metis total_worker_def)
    let ?T = "T\<lparr>st_domain := d3, st_steps := st_steps T @ [step_row ?m ?g now]\<rparr>"
    have ins: "insert_step ?m now ?g (T\<lparr>st_domain := d3\<rparr>) = Inr ?T" using new v(1) assms(3) g(1) by (simp add: insert_step_Inr)
    have "apply_new_step (sw_exec w) (sw_before w) (sw_after w) ?m ?v now ?E ?g T = Inr ?T"
      unfolding apply_new_step_def Let_def len using A d ins assms(6) g(1) \<open>j = k\<close> by (simp add: on_domain_def ensure_def)
    then have "store_step w ?m now ?v T = Inr ?T"
      unfolding store_step_def schema_apply_def using s v safe nth g(1) None upgrade_expected [OF assms(1)]
      by (simp add: schema_state_def with_state_def ensure_def)
    moreover have "upgrade_at w a (Suc k) ?T" using upgrade_at_step [OF assms(1,4)] assms(6) \<open>j = k\<close> by blast
    ultimately show ?thesis using \<open>j = k\<close> by auto
  qed
qed

lemma activate_at:
  assumes "upgrade_request w a" and "total_worker w" and "upgrade_at w a (length (upgrade_steps w a)) T"
  shows "\<exists>s T'. schema_activate (sr_migrationId a) (sw_journal w) (sw_record w) T = Inr (s, T') \<and> upgraded a T' \<and> st_state T' = Some s"
proof -
  obtain s where s: "st_state T = Some s" "sc_status s = Sch_migrating" "sc_migration_id s = Some (sr_migrationId a)" "sc_active_version s = sr_activeVersion a"
      "sc_target_version s = Some (sr_targetVersion a)" "sc_target_epoch s = Some (sr_targetEpoch a)" "sc_target_digest s = Some (sr_targetDigest a)"
      and A: "applied_steps (sr_migrationId a) T = map entry (upgrade_steps w a)"
    using assms(3) by (rule upgrade_at_D) simp
  obtain d where d: "sw_record w (st_domain T) = Inr d" using assms(2) by (metis total_worker_def)
  let ?s = "activate_state s"
  have S: "sc_status ?s = Sch_active" "at_target ?s (sr_migrationId a) (sr_targetVersion a) (sr_targetEpoch a) (sr_targetDigest a)" "schema_state_check ?s"
    using s request_checks(3,5,8) [OF assms(1)] by (simp_all add: activate_state_def at_target_def schema_state_check_def)
  have "schema_activate (sr_migrationId a) (sw_journal w) (sw_record w) T = Inr (?s, T\<lparr>st_domain := d, st_state := Some ?s\<rparr>)"
    unfolding schema_activate_def using s A d S(3) upgrade_expected [OF assms(1)]
    by (simp add: schema_state_def with_state_def ensure_def on_domain_def update_state_def)
  then show ?thesis using S by (force simp: upgraded_def)
qed

section \<open>Interrupted and repeated\<close>

definition upgrade_progress :: "'d shard_worker \<Rightarrow> CdbSchemaMigrationPrepareRequest \<Rightarrow> 'd schema_tables \<Rightarrow> bool" where
  "upgrade_progress w a T \<longleftrightarrow> upgrade_fresh a T \<or> (\<exists>k. upgrade_at w a k T) \<or> upgraded a T"

lemma progress_prepare:
  assumes "upgrade_request w a" and "upgrade_progress w a T" and "schema_prepare (sw_sha256 w) a (sw_journal w) T = Inr (s, T')"
  shows "upgrade_progress w a T'"
proof (cases "upgrade_fresh a T")
  case True
  with prepare_fresh [OF assms(1)] obtain s' T1 where "schema_prepare (sw_sha256 w) a (sw_journal w) T = Inr (s', T1)" "upgrade_at w a 0 T1" by blast
  then show ?thesis using assms(3) by (auto simp: upgrade_progress_def)
next
  case False
  then have "T' = T" using prepare_at [OF assms(1)] assms(2,3) by (fastforce simp: upgrade_progress_def)
  then show ?thesis using assms(2) by simp
qed

lemma progress_migrating:
  assumes "upgrade_progress w a T" and "st_state T = Some s" and "sc_status s = Sch_migrating"
  obtains k where "upgrade_at w a k T"
  using assms by (auto simp: upgrade_progress_def upgrade_fresh_def upgraded_def)

lemma progress_apply:
  assumes "upgrade_request w a" and "upgrade_progress w a T" and "applySchemaMigration w g e (sr_migrationId a) v T = Inr (s, T')"
  shows "upgrade_progress w a T'"
proof -
  have "schema_apply (sw_exec w) (sw_before w) (sw_after w) (sr_migrationId a) v (sw_journal w) (se_now e) T = Inr (s, T')"
    using assms(3) by (auto simp: applySchemaMigration_def rbind_eq_Inr)
  then show ?thesis
  proof (cases rule: schema_apply_cases)
    case same
    then show ?thesis using assms(2) by simp
  next
    case (applied s0 t mg E)
    obtain k where k: "upgrade_at w a k T" using progress_migrating [OF assms(2) applied(1,2)] .
    have s0: "sc_active_version s0 = sr_activeVersion a" "t = sr_targetVersion a" using k applied(1,4) by (simp_all add: upgrade_at_def)
    have A: "length (applied_steps (sr_migrationId a) T) = k" using k by (rule upgrade_at_D) simp
    have E: "E = upgrade_steps w a" using applied(9) s0 upgrade_expected [OF assms(1)] by simp
    from applied(10) show ?thesis
    proof (cases rule: new_step_cases)
      case (1 d1 d2 d3)
      have k': "k < length (upgrade_steps w a)" using 1(2) by (simp add: A E)
      have "v = sr_activeVersion a + int k + 1" using 1(3) nth_upgrade_steps(1) [OF assms(1) k'] by (simp add: A E)
      then have "mg = upgrade_steps w a ! k" using applied(6) nth_upgrade_steps(2) [OF assms(1) k'] by simp
      then have "upgrade_at w a (Suc k) T'" using upgrade_at_step [OF assms(1) k k'] by (simp add: 1(8))
      then show ?thesis by (auto simp: upgrade_progress_def)
    qed
  qed
qed

lemma progress_activate:
  assumes "upgrade_request w a" and "upgrade_progress w a T" and "schema_activate (sr_migrationId a) (sw_journal w) (sw_record w) T = Inr (s, T')"
  shows "upgrade_progress w a T'"
  using assms(3)
proof (cases rule: schema_activate_cases)
  case same
  then show ?thesis using assms(2) by simp
next
  case (activated s0 t E d)
  obtain k where k: "upgrade_at w a k T" using progress_migrating [OF assms(2) activated(1,2)] .
  then have "sc_target_version s0 = Some (sr_targetVersion a)" "sc_target_epoch s0 = Some (sr_targetEpoch a)" "sc_target_digest s0 = Some (sr_targetDigest a)"
    using k activated(1) by (simp_all add: upgrade_at_def)
  then have "upgraded a T'" by (simp add: activated(3,8,10) upgraded_def activate_state_def at_target_def)
  then show ?thesis by (simp add: upgrade_progress_def)
qed

lemma progress_domain: "upgrade_progress w a (T\<lparr>st_domain := d\<rparr>) \<longleftrightarrow> upgrade_progress w a T"
  by (simp add: upgrade_progress_def upgrade_fresh_def upgrade_at_def upgraded_def applied_steps_def)

lemma progress_boot:
  assumes "upgrade_progress w a T" and "schema_initialize sha256 K T = Inr (b, T')"
  shows "T' = T"
  using assms by (auto simp: upgrade_progress_def upgrade_fresh_def upgrade_at_def upgraded_def schema_initialize_def rbind_eq_Inr split: option.splits)

lemma progress_calls:
  assumes "(drive_call w a)\<^sup>*\<^sup>* T T'" and "upgrade_request w a" and "upgrade_progress w a T"
  shows "upgrade_progress w a T'"
  using assms(1)
proof (induction rule: rtranclp_induct)
  case base
  show ?case by (rule assms(3))
next
  case (step T1 T2)
  from step.hyps(2) show ?case
  proof cases
    case (drive_prepare g e s)
    then have "schema_prepare (sw_sha256 w) a (sw_journal w) T1 = Inr (s, T2)" by (auto simp: prepareSchemaMigration_def rbind_eq_Inr)
    then show ?thesis by (rule progress_prepare [OF assms(2) step.IH])
  next
    case (drive_apply g e version s)
    then show ?thesis by (rule progress_apply [OF assms(2) step.IH])
  next
    case (drive_activate g e answer)
    then consider "T2 = T1" | s where "schema_activate (sr_migrationId a) (sw_journal w) (sw_record w) T1 = Inr (s, T2)"
      by (auto simp: activateSchemaMigration_def rbind_eq_Inr split: sum.splits)
    then show ?thesis using step.IH progress_activate [OF assms(2) step.IH] by cases auto
  next
    case (drive_boot b)
    then show ?thesis using progress_boot [OF step.IH] step.IH by blast
  next
    case (drive_writes d)
    then show ?thesis using step.IH by (simp add: progress_domain)
  qed
qed

section \<open>Admitted calls\<close>

text \<open>The boot check, read as what every step call checks again.\<close>

lemma transitions_kept:
  assumes "rfold (vector_transition w) (map (\<lambda>i. k + 1 + int i) [0..<n]) p = Inr q" and "vectorResourcesAt w k = Inr p"
    and "k < v" and "v \<le> k + int n"
  shows "\<exists>p q. vectorResourcesAt w (v - 1) = Inr p \<and> vectorResourcesAt w v = Inr q \<and> assertVectorMigrationIdentity p q = Inr ()"
  using assms
proof (induction n arbitrary: k p)
  case (Suc n)
  have list: "map (\<lambda>i. k + 1 + int i) [0..<Suc n] = (k + 1) # map (\<lambda>i. (k + 1) + 1 + int i) [0..<n]"
    by (simp add: upt_conv_Cons map_Suc_upt [symmetric] del: upt_Suc)
  from Suc.prems(1) obtain r where tr: "vector_transition w (k + 1) p = Inr r"
    and rest: "rfold (vector_transition w) (map (\<lambda>i. (k + 1) + 1 + int i) [0..<n]) r = Inr q"
    unfolding list rfold.simps rbind_eq_Inr by blast
  have r: "vectorResourcesAt w (k + 1) = Inr r" "assertVectorMigrationIdentity p r = Inr ()"
    using tr by (auto simp: vector_transition_def rbind_eq_Inr)
  show ?case
  proof (cases "v = k + 1")
    case True
    then show ?thesis using r Suc.prems(2) by simp
  next
    case False
    then show ?thesis using Suc.IH [OF rest r(1)] Suc.prems(3,4) by simp
  qed
qed simp

lemma booted_vectors:
  assumes "booted_worker w" and "1 \<le> v" and "v \<le> jn_version (sw_journal w)"
  shows "\<exists>p q. vectorResourcesAt w (v - 1) = Inr p \<and> vectorResourcesAt w v = Inr q \<and> assertVectorMigrationIdentity p q = Inr ()"
proof -
  let ?n = "nat (jn_version (sw_journal w))"
  have "[1..jn_version (sw_journal w)] = map (\<lambda>i. 0 + 1 + int i) [0..<?n]"
    by (rule nth_equalityI) simp_all
  moreover obtain q where "rfold (vector_transition w) [1..jn_version (sw_journal w)] [] = Inr q"
    using assms(1) by (auto simp: booted_worker_def assertVectorJournalTransitions_def rbind_eq_Inr)
  moreover have "vectorResourcesAt w 0 = Inr []" using assms(1) by (simp add: vectorResourcesAt_def booted_worker_def ensure_def safe_integer_def)
  ultimately show ?thesis using transitions_kept [of w 0 ?n "[]" q v] assms(2,3) by simp
qed

lemma admitted_prepare: "call_admitted g e \<Longrightarrow> prepareSchemaMigration w g e a T = schema_prepare (sw_sha256 w) a (sw_journal w) T"
  by (simp add: prepareSchemaMigration_def call_admitted_def)

lemma admitted_apply:
  assumes "booted_worker w" and "call_admitted g e" and "1 \<le> v" and "v \<le> jn_version (sw_journal w)"
  shows "call_step w g m (e, v) T = store_step w m (se_now e) v T"
  using booted_vectors [OF assms(1,3,4)] assms(2)
  by (auto simp: call_step_def applySchemaMigration_def call_admitted_def store_step_def)

lemma admitted_activate:
  assumes "call_admitted g e" and "total_worker w" and "schema_activate m (sw_journal w) (sw_record w) T = Inr (s, T')"
  shows "activateSchemaMigration w g e m T = (Inr s, T')"
  using assms by (simp add: activateSchemaMigration_def call_admitted_def total_worker_def)

text \<open>The loop over the pending steps: those already applied are skipped, the others run.\<close>

abbreviation step_calls :: "(nat \<Rightarrow> shard_env) \<Rightarrow> nat \<Rightarrow> int list \<Rightarrow> (shard_env \<times> int) list" where
  "step_calls es n vs \<equiv> map (\<lambda>(i, v). (es i, v)) (enumerate n vs)"

lemma loop_upgraded:
  assumes "upgrade_request w a" and "booted_worker w" and "\<forall>i. call_admitted g (es i)" and "upgraded a T"
    and "set vs \<subseteq> {1..jn_version (sw_journal w)}"
  shows "rfold (call_step w g (sr_migrationId a)) (step_calls es n vs) T = Inr T"
  using assms(5)
proof (induction vs arbitrary: n)
  case (Cons v vs)
  have "safe_integer v" using Cons.prems journal_version(1) [of "sw_journal w" v] assms(1) by (simp add: upgrade_request_def)
  then show ?case using Cons apply_upgraded [OF assms(4), of v w] admitted_apply [OF assms(2)] assms(3) by simp
qed simp

lemma loop_at:
  assumes "upgrade_request w a" and "total_worker w" and "booted_worker w" and "\<forall>i. call_admitted g (es i)" and "upgrade_at w a k T" and "j \<le> k"
  shows "\<exists>T'. rfold (call_step w g (sr_migrationId a)) (step_calls es n (map mg_version (drop j (upgrade_steps w a)))) T = Inr T' \<and>
    upgrade_at w a (length (upgrade_steps w a)) T'"
  using assms(5,6)
proof (induction "length (upgrade_steps w a) - j" arbitrary: j k n T)
  case 0
  then have "k = length (upgrade_steps w a)" using upgrade_at_D [OF 0(2)] by (metis diff_is_0_eq order_antisym order_trans)
  then show ?case using 0 by simp
next
  case (Suc l)
  then have j: "j < length (upgrade_steps w a)" by simp
  let ?v = "sr_activeVersion a + int j + 1"
  have v: "1 \<le> ?v" "?v \<le> jn_version (sw_journal w)" using j request_deployed(2-5) [OF assms(1)] by simp_all
  have env: "0 \<le> se_now (es n)" "call_admitted g (es n)" using assms(4) by (simp_all add: call_admitted_def)
  obtain T1 where T1: "call_step w g (sr_migrationId a) (es n, ?v) T = Inr T1" "upgrade_at w a (max k (Suc j)) T1"
    using apply_at [OF assms(1,2) env(1) Suc.prems j] admitted_apply [OF assms(3) env(2) v] by auto
  have l: "l = length (upgrade_steps w a) - Suc j" using Suc.hyps(2) by simp
  have "map mg_version (drop j (upgrade_steps w a)) = ?v # map mg_version (drop (Suc j) (upgrade_steps w a))"
    using j nth_upgrade_steps(1) [OF assms(1) j] by (simp flip: Cons_nth_drop_Suc)
  then show ?case using Suc.hyps(1) [OF l T1(2), of "Suc n"] T1(1) by simp
qed

lemma drive_versions:
  assumes "upgrade_request w a"
  shows "\<exists>ms. pendingMigrations (sw_journal w) (sr_activeVersion a) = Inr ms \<and>
    takeWhile (\<lambda>m. mg_version m \<le> sr_targetVersion a) ms = upgrade_steps w a"
proof -
  note D = request_deployed [OF assms] and r = request_checks [OF assms]
  have J: "journal_ok (sw_journal w)" using assms by (simp add: upgrade_request_def)
  let ?ms = "drop (nat (sr_activeVersion a)) (jn_migrations (sw_journal w))"
  have all: "upgrade_steps w a = ?ms" using J r(3,5,6) by (simp add: upgrade_steps_def steps_between_def journal_ok_def)
  have "\<forall>m \<in> set ?ms. mg_version m \<le> sr_targetVersion a"
    using nth_upgrade_steps(1) [OF assms] D(5) r(5) unfolding all [symmetric] by (auto simp: in_set_conv_nth)
  then have "takeWhile (\<lambda>m. mg_version m \<le> sr_targetVersion a) ?ms = ?ms" by (simp add: takeWhile_eq_all_conv)
  moreover have "pendingMigrations (sw_journal w) (sr_activeVersion a) = Inr ?ms" using pending_at [OF J r(3)] r(5,6) by simp
  ultimately show ?thesis by (simp add: all)
qed

lemma drive_completes:
  assumes "upgrade_request w a" and "total_worker w" and "booted_worker w" and "\<forall>i. call_admitted g (es i)" and "upgrade_progress w a T"
  shows "\<exists>s T'. migrate_cdb w g es a T = Inr (s, T') \<and> upgraded a T'"
proof -
  let ?vs = "map mg_version (upgrade_steps w a)"
  obtain ms where ms: "pendingMigrations (sw_journal w) (sr_activeVersion a) = Inr ms"
    "takeWhile (\<lambda>m. mg_version m \<le> sr_targetVersion a) ms = upgrade_steps w a" using drive_versions [OF assms(1)] by blast
  have env: "call_admitted g (es i)" for i using assms(4) by simp
  obtain s1 T1 where T1: "prepareSchemaMigration w g (es 0) a T = Inr (s1, T1)" "upgraded a T1 \<or> (\<exists>k. upgrade_at w a k T1)"
    using assms(5) prepare_fresh [OF assms(1)] prepare_at [OF assms(1)] unfolding upgrade_progress_def admitted_prepare [OF env] by metis
  obtain s2 T2 T3 where T2: "rfold (call_step w g (sr_migrationId a)) (step_calls es 1 ?vs) T1 = Inr T2"
    "schema_activate (sr_migrationId a) (sw_journal w) (sw_record w) T2 = Inr (s2, T3)" "upgraded a T3"
  proof (cases "upgraded a T1")
    case True
    have "set ?vs \<subseteq> {1..jn_version (sw_journal w)}"
      using nth_upgrade_steps(1) [OF assms(1)] request_deployed(2-5) [OF assms(1)] by (auto simp: in_set_conv_nth)
    note L = loop_upgraded [OF assms(1,3,4) True this, of 1]
    obtain s2 where "schema_activate (sr_migrationId a) (sw_journal w) (sw_record w) T1 = Inr (s2, T1)"
      using True by (auto simp: upgraded_def schema_activate_def schema_state_def with_state_def ensure_def at_target_def split: option.splits)
    then show thesis by (rule that [OF L _ True])
  next
    case False
    then obtain k where "upgrade_at w a k T1" using T1(2) by blast
    then obtain T2 where T2: "rfold (call_step w g (sr_migrationId a)) (step_calls es 1 ?vs) T1 = Inr T2"
      "upgrade_at w a (length (upgrade_steps w a)) T2"
      using loop_at [OF assms(1-4), of k T1 0 1] by auto
    from activate_at [OF assms(1,2) T2(2)] show thesis using that [OF T2(1)] by blast
  qed
  have "migrate_cdb w g es a T = Inr (s2, T3)"
    using T1(1) ms T2(1) admitted_activate [OF env assms(2) T2(2)] by (simp add: migrate_cdb_def Let_def)
  then show ?thesis using T2(3) by blast
qed

lemma activate_answer:
  assumes "activateSchemaMigration w g e m T = (Inr s, T')"
  shows "st_state T' = Some s"
proof -
  have "schema_activate m (sw_journal w) (sw_record w) T = Inr (s, T')"
    using assms by (auto simp: activateSchemaMigration_def rbind_eq_Inr split: sum.splits)
  then show ?thesis by (auto simp: schema_activate_def rbind_eq_Inr with_state_Inr)
qed

lemma drive_answer:
  assumes "migrate_cdb w g es a T = Inr (s, T')"
  shows "st_state T' = Some s"
proof -
  obtain v T2 where "rbind (fst (activateSchemaMigration w g v (sr_migrationId a) T2)) (\<lambda>s'. Inr (s', snd (activateSchemaMigration w g v (sr_migrationId a) T2))) =
      Inr (s, T')"
    using assms by (auto simp: migrate_cdb_def rbind_eq_Inr Let_def case_prod_beta)
  then have "activateSchemaMigration w g v (sr_migrationId a) T2 = (Inr s, T')" by (auto simp: rbind_eq_Inr prod_eq_iff)
  then show ?thesis by (rule activate_answer)
qed

text \<open>
  C16. An interrupted upgrade can always be finished. Start from a shard that is active at the version the request names and has
  no steps of this upgrade, and let any of the shard methods the drive calls run on it, in any order, any number of times, at any
  recovery generation and beside any reshard (an attempt that stopped half way, two attempts at once), with boots of the shard and
  writes of its application tables between them; one Worker is deployed throughout, and it passed the boot check of its vector
  resources. If then each call of the Catalog's next attempt finds the shard open at the attempt's recovery generation and without
  an active reshard (the methods refuse otherwise), and the statements, the hooks and the arming of the alarm succeed, the
  attempt completes: it returns the shard's state, active at the target version, epoch and digest of the request.
\<close>

theorem interrupted_upgrade_completes:
  assumes "upgrade_request w a" and "total_worker w" and "booted_worker w" and "upgrade_fresh a T0" and "(drive_call w a)\<^sup>*\<^sup>* T0 T"
    and "\<forall>i. call_admitted g (es i)"
  shows "\<exists>s T'. migrate_cdb w g es a T = Inr (s, T') \<and> st_state T' = Some s \<and> sc_status s = Sch_active \<and>
    at_target s (sr_migrationId a) (sr_targetVersion a) (sr_targetEpoch a) (sr_targetDigest a)"
proof -
  have "upgrade_progress w a T0" using assms(4) by (simp add: upgrade_progress_def)
  from drive_completes [OF assms(1-3,6) progress_calls [OF assms(5,1) this]]
  obtain s T' where run: "migrate_cdb w g es a T = Inr (s, T')" and up: "upgraded a T'" by blast
  then show ?thesis using drive_answer [OF run] by (simp add: upgraded_def)
qed

definition sample_shard_worker :: "string list shard_worker" where
  "sample_shard_worker = \<lparr> sw_sha256 = \<lambda>_. [], sw_journal = sample_journal 1, sw_exec = Schema_Properties.sample_run, sw_before = \<lambda>_. Inr, sw_after = \<lambda>_. Inr,
     sw_record = Inr, sw_vectors = \<lambda>_. Inr [], sw_alarm = \<lambda>_. Inr () \<rparr>"

definition sample_shard_env :: "nat \<Rightarrow> shard_env" where
  "sample_shard_env i = \<lparr> se_admission = initial_admission, se_splits = [], se_now = 7 + int i \<rparr>"

lemma sample_env_admitted: "call_admitted 0 (sample_shard_env i)"
  by (simp add: call_admitted_def assertSchemaCall_def sample_shard_env_def assertRequest_def adm_read_def initial_admission_def
    malformed_operation_def assertNoActiveReshard_def sql_one_def ensure_def safe_integer_def)

lemma sample_worker_booted: "booted_worker sample_shard_worker"
  using sample_journal_ok(2)
  by (simp add: booted_worker_def sample_shard_worker_def assertVectorJournalTransitions_def vector_transition_def vectorResourcesAt_def
    assertVectorMigrationIdentity_def sample_schema ensure_def safe_integer_def journal_ok_def)

lemma interrupted_upgrade_completes_witness:
  "\<exists>s T'. migrate_cdb sample_shard_worker 0 sample_shard_env sample_prepare (sample_schema_tables sample_prepared sample_step_rows [''S'']) = Inr (s, T') \<and>
     sc_active_version s = 1 \<and> sc_active_epoch s = 2"
proof -
  have guard: "assertSchemaCall 0 (sample_shard_env i) = Inr ()" for i using sample_env_admitted by (simp add: call_admitted_def)
  have "upgrade_request sample_shard_worker sample_prepare"
    using sample_journal_ok(2) by (simp add: upgrade_request_def sample_shard_worker_def sample_schema)
  moreover have "total_worker sample_shard_worker" by (simp add: total_worker_def sample_shard_worker_def Schema_Properties.sample_run_def)
  moreover have "upgrade_fresh sample_prepare (sample_schema_tables sample_schema_state [] [])" by (simp add: upgrade_fresh_def sample_schema)
  moreover have "(drive_call sample_shard_worker sample_prepare)\<^sup>*\<^sup>* (sample_schema_tables sample_schema_state [] [])
      (sample_schema_tables sample_prepared sample_step_rows [''S''])"
  proof -
    have "drive_call sample_shard_worker sample_prepare (sample_schema_tables sample_schema_state [] []) (sample_schema_tables sample_prepared [] [])"
      using sample_prepare_run guard by (intro drive_prepare [of _ 0 "sample_shard_env 0"]) (simp add: sample_shard_worker_def prepareSchemaMigration_def)
    moreover have "drive_call sample_shard_worker sample_prepare (sample_schema_tables sample_prepared [] []) (sample_schema_tables sample_prepared sample_step_rows [''S''])"
      using sample_apply_run guard [of 0, unfolded sample_shard_env_def] sample_journal_ok(2)
      by (intro drive_apply [of _ 0 "sample_shard_env 0" _ 1])
        (simp add: applySchemaMigration_def sample_shard_worker_def sample_prepare_def vectorResourcesAt_def assertVectorMigrationIdentity_def
          sample_schema ensure_def safe_integer_def sample_shard_env_def journal_ok_def)
    ultimately show ?thesis by (meson converse_rtranclp_into_rtranclp r_into_rtranclp)
  qed
  ultimately show ?thesis
    using interrupted_upgrade_completes [of sample_shard_worker sample_prepare _ _ 0 sample_shard_env] sample_worker_booted sample_env_admitted
    by (simp add: at_target_def sample_prepare_def) blast
qed

end
