(* ===== verification/Catalog_Schema.thy ===== *)
theory Catalog_Schema
  imports Catalog_Routing Topology_Operations Recovery_Restore Schema_Properties
begin

text \<open>
  The schema version of the Catalog and the migrations it coordinates, \<^verbatim>\<open>src/src/server/do/catalog-schema-store.ts\<close> and
  the schema methods of \<^verbatim>\<open>src/src/server/do/catalog.ts\<close>. The state row and the step rows have the columns and the CHECKs
  of the shard's store and share its types. The tables of the other Catalog components a schema change reads are fields;
  executing a statement on the auth tables is an argument.
\<close>

section \<open>Data\<close>

datatype (plugins only: code) schema_shard_status = Shd_pending | Shd_active

record CatalogSchemaShardRow =
  cr_migrationId :: string
  cr_shardId :: string
  cr_status :: schema_shard_status
  cr_lastError :: "string option"
  cr_updatedAt :: int

record catalog_baseline_row =
  cb_migrationId :: string
  cb_target_version :: int
  cb_target_digest :: string
  cb_created_at :: int

record 'c catalog_schema =
  cs_state :: "StoredCdbSchemaState option"
  cs_shards :: "CatalogSchemaShardRow list"
  cs_steps :: "schema_step_row list"
  cs_baselines :: "catalog_baseline_row list"
  cs_auth :: 'c
  cs_routing :: catalog_routing
  cs_operations :: operations
  cs_recovery :: "unit recovery_tables"

definition shard_row_key :: "CatalogSchemaShardRow \<Rightarrow> string \<times> string" where
  "shard_row_key r = (cr_migrationId r, cr_shardId r)"

section \<open>The store\<close>

definition readCatalogSchemaState :: "'c catalog_schema \<Rightarrow> StoredCdbSchemaState res" where
  "readCatalogSchemaState C = (case cs_state C of None \<Rightarrow> Inl (Cdb CDB_INVARIANT) | Some s \<Rightarrow> Inr s)"

text \<open>The part of \<open>initializeCatalogStorage\<close> about the schema state; its checks are those of a shard's boot.\<close>

definition initializeCatalogStorage :: "(nat list \<Rightarrow> nat list) \<Rightarrow> ChardbMigrationJournal \<Rightarrow> 'c catalog_schema \<Rightarrow>
    (StoredCdbSchemaState \<times> 'c catalog_schema) res" where
  "initializeCatalogStorage sha256 J C =
     rbind (migrationDigestAt sha256 J 0) (\<lambda>digest.
     let initial = \<lparr> sc_active_version = 0, sc_active_epoch = 1, sc_active_digest = digest, sc_last_migration_id = None,
           sc_status = Sch_active, sc_migration_id = None, sc_target_version = None, sc_target_epoch = None, sc_target_digest = None \<rparr>;
         C' = (case cs_state C of None \<Rightarrow> C\<lparr>cs_state := Some initial\<rparr> | Some _ \<Rightarrow> C) in
     rbind (readCatalogSchemaState C') (\<lambda>s.
     rbind (assertPackagedSchemaState sha256 s J) (\<lambda>_. Inr (s, C'))))"

definition update_catalog_state :: "(StoredCdbSchemaState \<Rightarrow> bool) \<Rightarrow> (StoredCdbSchemaState \<Rightarrow> StoredCdbSchemaState) \<Rightarrow> 'c catalog_schema \<Rightarrow>
    'c catalog_schema res" where
  "update_catalog_state p f C = (case cs_state C of
       None \<Rightarrow> Inl (Cdb CDB_INVARIANT)
     | Some s \<Rightarrow> if \<not> p s then Inl (Cdb CDB_INVARIANT)
         else if schema_state_check (f s) then Inr (C\<lparr>cs_state := Some (f s)\<rparr>) else Inl SqliteError)"

definition pending_shard_row :: "string \<Rightarrow> int \<Rightarrow> string \<Rightarrow> CatalogSchemaShardRow" where
  "pending_shard_row migrationId nowMs shard =
     \<lparr> cr_migrationId = migrationId, cr_shardId = shard, cr_status = Shd_pending, cr_lastError = None, cr_updatedAt = nowMs \<rparr>"

definition insert_shards :: "string \<Rightarrow> int \<Rightarrow> 'c catalog_schema \<Rightarrow> 'c catalog_schema res" where
  "insert_shards migrationId nowMs C =
     rbind (rfold (sql_insert shard_row_key (\<lambda>r. 0 \<le> cr_updatedAt r)) (map (pending_shard_row migrationId nowMs) (listShardIds (cs_routing C))) (cs_shards C)) (\<lambda>t.
     Inr (C\<lparr>cs_shards := t\<rparr>))"

definition insert_baseline :: "string \<Rightarrow> int \<Rightarrow> string \<Rightarrow> int \<Rightarrow> 'c catalog_schema \<Rightarrow> 'c catalog_schema res" where
  "insert_baseline migrationId targetVersion digest nowMs C =
     rbind (sql_insert cb_migrationId (\<lambda>r. 0 < cb_target_version r \<and> 0 \<le> cb_created_at r)
       \<lparr> cb_migrationId = migrationId, cb_target_version = targetVersion, cb_target_digest = digest, cb_created_at = nowMs \<rparr> (cs_baselines C)) (\<lambda>t.
     Inr (C\<lparr>cs_baselines := t\<rparr>))"

definition start_migrating :: "string \<Rightarrow> int \<Rightarrow> string \<Rightarrow> StoredCdbSchemaState \<Rightarrow> StoredCdbSchemaState" where
  "start_migrating migrationId targetVersion digest s = s\<lparr>sc_status := Sch_migrating, sc_migration_id := Some migrationId,
     sc_target_version := Some targetVersion, sc_target_epoch := Some (sc_active_epoch s + 1), sc_target_digest := Some digest\<rparr>"

definition beginCatalogSchemaChange :: "(nat list \<Rightarrow> nat list) \<Rightarrow> ChardbMigrationJournal \<Rightarrow> string \<Rightarrow> int \<Rightarrow> bool \<Rightarrow> int \<Rightarrow> 'c catalog_schema \<Rightarrow>
    'c catalog_schema res" where
  "beginCatalogSchemaChange sha256 J migrationId targetVersion bl nowMs C =
     rbind (readCatalogSchemaState C) (\<lambda>current.
     if sc_status current = Sch_migrating
     then rbind (ensure (sc_migration_id current = Some migrationId \<and> sc_target_version current = Some targetVersion) schema_stale) (\<lambda>_. Inr C)
     else if sc_active_version current = targetVersion \<and> sc_last_migration_id current = Some migrationId then Inr C
     else
       rbind (ensure (sc_active_version current < targetVersion) schema_invalid) (\<lambda>_.
       rbind (ensure (\<not> (bl \<and> (sc_active_version current \<noteq> 0 \<or> targetVersion \<noteq> jn_version J))) schema_invalid) (\<lambda>_.
       rbind (migrationDigestAt sha256 J targetVersion) (\<lambda>digest.
       rbind (update_catalog_state (\<lambda>s. sc_status s = Sch_active) (start_migrating migrationId targetVersion digest) C) (\<lambda>C1.
       rbind (insert_shards migrationId nowMs C1) (\<lambda>C2.
       rbind (ensure (1 \<le> length (listShardIds (cs_routing C1))) (Cdb CDB_INVARIANT)) (\<lambda>_.
       if bl then insert_baseline migrationId targetVersion digest nowMs C2 else Inr C2)))))))"

definition readCatalogSchemaMigrationShards :: "string \<Rightarrow> 'c catalog_schema \<Rightarrow> CatalogSchemaShardRow list res" where
  "readCatalogSchemaMigrationShards migrationId C =
     rbind (readCatalogSchemaState C) (\<lambda>current.
     if sc_status current \<noteq> Sch_migrating \<or> sc_migration_id current \<noteq> Some migrationId
     then rbind (ensure (sc_status current = Sch_active \<and> sc_last_migration_id current = Some migrationId) schema_stale) (\<lambda>_. Inr [])
     else Inr (sort_key cr_shardId (filter (\<lambda>r. cr_migrationId r = migrationId) (cs_shards C))))"

definition catalogSchemaBaselineExists :: "string \<Rightarrow> 'c catalog_schema \<Rightarrow> bool" where
  "catalogSchemaBaselineExists migrationId C \<longleftrightarrow> sql_one (\<lambda>r. cb_migrationId r = migrationId) (cs_baselines C) \<noteq> None"

definition pending_schema_shard :: "string \<Rightarrow> string \<Rightarrow> CatalogSchemaShardRow \<Rightarrow> bool" where
  "pending_schema_shard migrationId shard r \<longleftrightarrow> shard_row_key r = (migrationId, shard) \<and> cr_status r = Shd_pending"

definition recordCatalogSchemaShardFailure :: "string \<Rightarrow> string \<Rightarrow> string \<Rightarrow> int \<Rightarrow> 'c catalog_schema \<Rightarrow> 'c catalog_schema res" where
  "recordCatalogSchemaShardFailure migrationId shard message nowMs C =
     rbind (sql_update_checked (\<lambda>r. 0 \<le> cr_updatedAt r) (pending_schema_shard migrationId shard)
       (\<lambda>r. r\<lparr>cr_lastError := Some message, cr_updatedAt := nowMs\<rparr>) (cs_shards C)) (\<lambda>t. Inr (C\<lparr>cs_shards := t\<rparr>))"

definition activateCatalogSchemaShard :: "string \<Rightarrow> string \<Rightarrow> int \<Rightarrow> 'c catalog_schema \<Rightarrow> 'c catalog_schema res" where
  "activateCatalogSchemaShard migrationId shard nowMs C =
     rbind (readCatalogSchemaState C) (\<lambda>owner.
     rbind (ensure (sc_status owner = Sch_migrating \<and> sc_migration_id owner = Some migrationId) schema_stale) (\<lambda>_.
     rbind (sql_update_checked (\<lambda>r. 0 \<le> cr_updatedAt r) (pending_schema_shard migrationId shard)
       (\<lambda>r. r\<lparr>cr_status := Shd_active, cr_lastError := None, cr_updatedAt := nowMs\<rparr>) (cs_shards C)) (\<lambda>t.
     rbind (ensure (sql_changes (pending_schema_shard migrationId shard) (cs_shards C) = 1 \<or>
         (case sql_one (\<lambda>r. shard_row_key r = (migrationId, shard)) t of None \<Rightarrow> False | Some r \<Rightarrow> cr_status r = Shd_active))
       (Cdb CDB_INVARIANT)) (\<lambda>_. Inr (C\<lparr>cs_shards := t\<rparr>)))))"

definition catalog_applied :: "string \<Rightarrow> 'c catalog_schema \<Rightarrow> (int \<times> string) list" where
  "catalog_applied migrationId C = map (\<lambda>r. (sp_version r, sp_digest r)) (sort_key sp_version (filter (\<lambda>r. sp_migration_id r = migrationId) (cs_steps C)))"

definition insert_catalog_step :: "string \<Rightarrow> ChardbMigration \<Rightarrow> int \<Rightarrow> 'c catalog_schema \<Rightarrow> 'c catalog_schema res" where
  "insert_catalog_step migrationId m nowMs C =
     rbind (sql_insert step_key step_check (step_row migrationId m nowMs) (cs_steps C)) (\<lambda>steps. Inr (C\<lparr>cs_steps := steps\<rparr>))"

definition catalog_new_step :: "(string \<Rightarrow> 'c \<Rightarrow> 'c res) \<Rightarrow> string \<Rightarrow> int \<Rightarrow> int \<Rightarrow> ChardbMigration list \<Rightarrow> ChardbMigration \<Rightarrow> 'c catalog_schema \<Rightarrow>
    'c catalog_schema res" where
  "catalog_new_step exec migrationId version nowMs expected m C =
     (let applied = catalog_applied migrationId C in
      rbind (ensure (length applied \<le> length expected \<and> applied = map entry (take (length applied) expected)) contract_changed) (\<lambda>_.
      rbind (ensure (length applied < length expected \<and> mg_version (expected ! length applied) = version) schema_invalid) (\<lambda>_.
      rbind (if catalogSchemaBaselineExists migrationId C then Inr (cs_auth C) else rfold exec (mg_catalogStatements m) (cs_auth C)) (\<lambda>auth.
      insert_catalog_step migrationId m nowMs (C\<lparr>cs_auth := auth\<rparr>)))))"

definition applyCatalogSchemaMigrationStep :: "(string \<Rightarrow> 'c \<Rightarrow> 'c res) \<Rightarrow> ChardbMigrationJournal \<Rightarrow> string \<Rightarrow> int \<Rightarrow> int \<Rightarrow> 'c catalog_schema \<Rightarrow>
    'c catalog_schema res" where
  "applyCatalogSchemaMigrationStep exec J migrationId version nowMs C =
     rbind (readCatalogSchemaState C) (\<lambda>current.
     if sc_status current \<noteq> Sch_migrating \<or> sc_migration_id current \<noteq> Some migrationId
     then rbind (ensure (sc_status current = Sch_active \<and> sc_last_migration_id current = Some migrationId) schema_stale) (\<lambda>_. Inr C)
     else (case sc_target_version current of
         None \<Rightarrow> Inl schema_invalid
       | Some targetVersion \<Rightarrow>
           rbind (ensure (version \<le> targetVersion) schema_invalid) (\<lambda>_.
           case nth_migration J (version - 1) of
             None \<Rightarrow> Inl contract_changed
           | Some m \<Rightarrow>
               rbind (ensure (mg_version m = version) contract_changed) (\<lambda>_.
               case sql_one (\<lambda>r. step_key r = (migrationId, version)) (cs_steps C) of
                 Some r \<Rightarrow> rbind (ensure (sp_digest r = mg_digest m) contract_changed) (\<lambda>_. Inr C)
               | None \<Rightarrow>
                   rbind (expected_steps J (sc_active_version current) targetVersion) (\<lambda>expected.
                   catalog_new_step exec migrationId version nowMs expected m C)))))"

definition clear_migration :: "string \<Rightarrow> 'c catalog_schema \<Rightarrow> 'c catalog_schema" where
  "clear_migration migrationId C = C\<lparr>cs_shards := sql_delete (\<lambda>r. cr_migrationId r = migrationId) (cs_shards C),
     cs_baselines := sql_delete (\<lambda>r. cb_migrationId r = migrationId) (cs_baselines C)\<rparr>"

definition completeCatalogSchemaMigration :: "ChardbMigrationJournal \<Rightarrow> string \<Rightarrow> ('c \<Rightarrow> 'c res) \<Rightarrow> 'c catalog_schema \<Rightarrow> 'c catalog_schema res" where
  "completeCatalogSchemaMigration J migrationId recordMigratedAuthSchema C =
     rbind (readCatalogSchemaState C) (\<lambda>current.
     if sc_status current = Sch_active
     then rbind (ensure (sc_last_migration_id current = Some migrationId) schema_stale) (\<lambda>_. Inr C)
     else
       rbind (ensure (sc_migration_id current = Some migrationId) schema_stale) (\<lambda>_.
       rbind (ensure (sql_changes (\<lambda>r. cr_migrationId r = migrationId \<and> cr_status r \<noteq> Shd_active) (cs_shards C) = 0) schema_stale) (\<lambda>_.
       case sc_target_version current of
         None \<Rightarrow> Inl (Cdb CDB_INVARIANT)
       | Some targetVersion \<Rightarrow>
           rbind (expected_steps J (sc_active_version current) targetVersion) (\<lambda>expected.
           rbind (ensure (catalog_applied migrationId C = map entry expected) schema_stale) (\<lambda>_.
           rbind (recordMigratedAuthSchema (cs_auth C)) (\<lambda>auth.
           update_catalog_state (\<lambda>s. sc_status s = Sch_migrating \<and> sc_migration_id s = Some migrationId) activate_state
             (clear_migration migrationId (C\<lparr>cs_auth := auth\<rparr>))))))))"

section \<open>Methods of the Catalog\<close>

definition catalog_assertRecoveryAvailable :: "'c catalog_schema \<Rightarrow> unit res" where
  "catalog_assertRecoveryAvailable C =
     rbind (assertRecoveryAvailable (cs_recovery C)) (\<lambda>_.
     rbind (adm_read (rc_admission (cs_recovery C))) (\<lambda>admission. ensure (adm_state admission \<noteq> Adm_blocked) recovery_stale))"

definition recoveryGeneration :: "'c catalog_schema \<Rightarrow> int res" where
  "recoveryGeneration C =
     rbind (catalog_assertRecoveryAvailable C) (\<lambda>_.
     rbind (adm_read (rc_admission (cs_recovery C))) (\<lambda>admission. Inr (adm_generation admission)))"

definition beginSchemaChange :: "(nat list \<Rightarrow> nat list) \<Rightarrow> ChardbMigrationJournal \<Rightarrow> string \<Rightarrow> int \<Rightarrow> bool \<Rightarrow> int \<Rightarrow> 'c catalog_schema \<Rightarrow>
    (StoredCdbSchemaState \<times> 'c catalog_schema) res" where
  "beginSchemaChange sha256 J migrationId targetVersion bl nowMs C =
     rbind (catalog_assertRecoveryAvailable C) (\<lambda>_.
     rbind (ensure (opaque_id migrationId) schema_invalid) (\<lambda>_.
     rbind (ensure (safe_integer targetVersion \<and> 1 \<le> targetVersion \<and> targetVersion = jn_version J) schema_invalid) (\<lambda>_.
     rbind (op_assertNoActive (cs_operations C)) (\<lambda>_.
     rbind (beginCatalogSchemaChange sha256 J migrationId targetVersion bl nowMs C) (\<lambda>C'.
     rbind (readCatalogSchemaState C') (\<lambda>s. Inr (s, C')))))))"

definition applyCatalogSchemaMigration :: "(string \<Rightarrow> 'c \<Rightarrow> 'c res) \<Rightarrow> ChardbMigrationJournal \<Rightarrow> string \<Rightarrow> int \<Rightarrow> int \<Rightarrow> 'c catalog_schema \<Rightarrow>
    (StoredCdbSchemaState \<times> 'c catalog_schema) res" where
  "applyCatalogSchemaMigration exec J migrationId version nowMs C =
     rbind (catalog_assertRecoveryAvailable C) (\<lambda>_.
     rbind (ensure (safe_integer version \<and> 1 \<le> version \<and> version \<le> jn_version J) schema_invalid) (\<lambda>_.
     rbind (applyCatalogSchemaMigrationStep exec J migrationId version nowMs C) (\<lambda>C'.
     rbind (readCatalogSchemaState C') (\<lambda>s. Inr (s, C')))))"

definition completeSchemaMigration :: "ChardbMigrationJournal \<Rightarrow> string \<Rightarrow> ('c \<Rightarrow> 'c res) \<Rightarrow> 'c catalog_schema \<Rightarrow>
    (StoredCdbSchemaState \<times> 'c catalog_schema) res" where
  "completeSchemaMigration J migrationId recordMigratedAuthSchema C =
     rbind (catalog_assertRecoveryAvailable C) (\<lambda>_.
     rbind (completeCatalogSchemaMigration J migrationId recordMigratedAuthSchema C) (\<lambda>C'.
     rbind (readCatalogSchemaState C') (\<lambda>s. Inr (s, C'))))"

text \<open>
  \<open>migrateSchemaShard\<close> awaits the shard: the part before its calls, which finds the shard done already or issues the request of a
  baseline or of a migration with the recovery generation it read; and what it does when the calls succeeded or failed.
\<close>

datatype (plugins only: code) shard_work = Work_done CatalogSchemaShardRow | Work_baseline int CdbSchemaMigrationPrepareRequest | Work_migrate int CdbSchemaMigrationPrepareRequest

definition migrate_request :: "string \<Rightarrow> StoredCdbSchemaState \<Rightarrow> CdbSchemaMigrationPrepareRequest option" where
  "migrate_request migrationId current = (case (sc_target_version current, sc_target_epoch current, sc_target_digest current) of
       (Some v, Some e, Some d) \<Rightarrow> Some \<lparr> sr_migrationId = migrationId, sr_targetVersion = v, sr_targetEpoch = e, sr_targetDigest = d,
          sr_activeVersion = sc_active_version current, sr_activeDigest = sc_active_digest current \<rparr>
     | _ \<Rightarrow> None)"

definition migrateSchemaShard_begin :: "string \<Rightarrow> string \<Rightarrow> 'c catalog_schema \<Rightarrow> shard_work res" where
  "migrateSchemaShard_begin migrationId shard C =
     rbind (recoveryGeneration C) (\<lambda>generation.
     rbind (readCatalogSchemaState C) (\<lambda>current.
     case (if sc_status current \<noteq> Sch_migrating \<or> sc_migration_id current \<noteq> Some migrationId then None else migrate_request migrationId current) of
       None \<Rightarrow> Inl schema_stale
     | Some a \<Rightarrow>
         rbind (readCatalogSchemaMigrationShards migrationId C) (\<lambda>shards.
         case List.find (\<lambda>r. cr_shardId r = shard) shards of
           None \<Rightarrow> Inl schema_invalid
         | Some stored \<Rightarrow>
             if cr_status stored = Shd_active then Inr (Work_done stored)
             else if catalogSchemaBaselineExists migrationId C then Inr (Work_baseline generation a)
             else Inr (Work_migrate generation a))))"

definition migrateSchemaShard_end :: "int \<Rightarrow> string \<Rightarrow> string \<Rightarrow> int \<Rightarrow> 'c catalog_schema \<Rightarrow> (CatalogSchemaShardRow \<times> 'c catalog_schema) res" where
  "migrateSchemaShard_end generation migrationId shard nowMs C =
     rbind (assertRequest generation (rc_admission (cs_recovery C))) (\<lambda>_.
     rbind (activateCatalogSchemaShard migrationId shard nowMs C) (\<lambda>C'.
     rbind (readCatalogSchemaMigrationShards migrationId C') (\<lambda>shards.
     case List.find (\<lambda>r. cr_shardId r = shard) shards of
       None \<Rightarrow> Inl (Cdb CDB_INVARIANT)
     | Some r \<Rightarrow> Inr (r, C'))))"

definition migrateSchemaShard_failed :: "string \<Rightarrow> string \<Rightarrow> string \<Rightarrow> int \<Rightarrow> 'c catalog_schema \<Rightarrow> 'c catalog_schema res" where
  "migrateSchemaShard_failed migrationId shard message nowMs C = recordCatalogSchemaShardFailure migrationId shard (take 512 message) nowMs C"

end
