(* ===== verification/Schema_Leases.thy ===== *)
theory Schema_Leases
  imports Catalog_Topology Schema_Store
begin

text \<open>
  The schema that range movements are bound to. A topology lease carries the version, epoch and digest the Catalog was active at;
  the driver in \<^verbatim>\<open>src/src/server/do/resharder.ts\<close> provisions the destination at them. The theory follows the leases through the
  topology methods of \<open>Catalog_Topology\<close>: an open lease always carries the active schema, and only an open lease adds a shard to
  the routing table.
\<close>

section \<open>Calls and requests\<close>

text \<open>A topology method of the Catalog other than the cutover, or the recording or cleaning of an organization deletion.\<close>

inductive topology_call :: "catalog \<Rightarrow> catalog \<Rightarrow> bool" where
  call_begin_derived: "beginDerivedTopologyOperation a1 now s = (r1, s') \<Longrightarrow> topology_call s s'"
| call_begin: "beginTopologyOperation a2 now s = (r2, s') \<Longrightarrow> topology_call s s'"
| call_barrier: "beginOrganizationDeletionBarrier a3 now s = (r3, s') \<Longrightarrow> topology_call s s'"
| call_complete: "completeTopologyOperation a2 now s = (r2, s') \<Longrightarrow> topology_call s s'"
| call_abort: "abortTopologyOperation a2 now s = (r2, s') \<Longrightarrow> topology_call s s'"
| call_record: "record_deleted_organization owner res now org (cat_barriers x, cat_deletions x) = Inr (t, d) \<Longrightarrow>
    topology_call (c, x) (c, x\<lparr>cat_barriers := t, cat_deletions := d\<rparr>)"
| call_cleanup: "deletion_step (cat_deletions x) d \<Longrightarrow> length (deletions d) = length (deletions (cat_deletions x)) \<Longrightarrow>
    topology_call (c, x) (c, x\<lparr>cat_deletions := d\<rparr>)"

definition destination_id :: "string \<Rightarrow> string" where
  "destination_id m = ''reshard-dest:'' @ m"

text \<open>What the driver asks of the destination in its first turn.\<close>

definition destination_request :: "CatalogTopologyOperation \<Rightarrow> CdbSchemaTargetRequest" where
  "destination_request r = \<lparr> sr_migrationId = destination_id (op_migrationId r), sr_targetVersion = op_schemaVersion r,
     sr_targetEpoch = op_schemaEpoch r, sr_targetDigest = op_schemaDigest r \<rparr>"

section \<open>The schema of a lease\<close>

text \<open>A lease of the current epoch has the Catalog's schema; an open lease is of the current epoch, and then no change runs.\<close>

definition lease_schema :: "CatalogSchemaState \<Rightarrow> CatalogTopologyOperation \<Rightarrow> bool" where
  "lease_schema sc r \<longleftrightarrow> op_schemaEpoch r \<le> activeEpoch sc \<and>
     (op_schemaEpoch r = activeEpoch sc \<longrightarrow> op_schemaVersion r = activeVersion sc \<and> op_schemaDigest r = activeDigest sc) \<and>
     (op_status r = Op_active \<longrightarrow> schema_active sc \<and> op_schemaEpoch r = activeEpoch sc)"

definition leases_schema :: "CatalogSchemaState \<Rightarrow> operations \<Rightarrow> bool" where
  "leases_schema sc t \<longleftrightarrow> (\<forall>r \<in> set t. lease_schema sc r)"

lemma new_operation_schema [simp]:
  "op_schemaVersion (new_operation i now) = op_schemaVersion i" "op_schemaEpoch (new_operation i now) = op_schemaEpoch i"
  "op_schemaDigest (new_operation i now) = op_schemaDigest i"
  by (simp_all add: new_operation_def CatalogTopologyOperationIdentity.defs)

lemma claims_schema:
  assumes "operations_inv t" and "leases_schema sc t" and "claims c sc t t'"
  shows "leases_schema sc t'"
proof (cases "t' = t")
  case False
  then obtain i now r where b: "op_begin i now t = Inr (r, t')" and i: "leased_schema sc i" using assms(3) by (auto simp: claims_def)
  have "distinct (map op_migrationId t)" using assms(1) by (simp add: operations_inv_def)
  then have "t' = t @ [new_operation i now]" using b False by (auto simp: op_begin_Inr)
  then show ?thesis using assms(2) i by (auto simp: leases_schema_def lease_schema_def leased_schema_def)
qed (use assms(2) in simp)

lemma ended_schema:
  assumes "leases_schema sc t"
    and "\<And>s. op_status (f s) \<noteq> Op_active \<and> op_schemaVersion (f s) = op_schemaVersion s \<and> op_schemaEpoch (f s) = op_schemaEpoch s \<and>
      op_schemaDigest (f s) = op_schemaDigest s"
  shows "leases_schema sc (sql_update p f t)"
  using assms by (auto simp: leases_schema_def lease_schema_def sql_update_def)

lemma complete_schema:
  assumes "operations_inv t" and "leases_schema sc t" and "op_complete i e now t = Inr (q, t')"
  shows "leases_schema sc t'"
  using assms(1,3) by (cases rule: op_complete_cases) (use assms(2) in \<open>auto intro: ended_schema\<close>)

lemma abort_schema:
  assumes "operations_inv t" and "leases_schema sc t" and "op_abort i now t = Inr (q, t')"
  shows "leases_schema sc t'"
  using assms(1,3) by (cases rule: op_abort_cases) (use assms(2) in \<open>auto intro: ended_schema\<close>)

lemma same_shards: "same_tables c c' \<Longrightarrow> listShardIds c' = listShardIds c"
  by (simp add: same_tables_def listShardIds_def)

lemma topology_call_step: "topology_call s s' \<Longrightarrow> catalog_step s s'"
  by (cases rule: topology_call.cases) (auto intro: catalog_step.intros)

lemma topology_call_keeps:
  assumes "topology_call (c, x) (c', x')" and "catalog_inv (c, x)" and "leases_schema (cat_schema x) (cat_operations x)"
  shows "catalog_inv (c', x') \<and> listShardIds c' = listShardIds c \<and> leases_schema (cat_schema x) (cat_operations x')"
proof -
  have inv: "routing_inv c" "operations_inv (cat_operations x)" "fenced_inv (cat_barriers x, cat_deletions x)"
    using assms(2) by (simp_all add: catalog_inv_def)
  note quietly = quietD [OF _ inv(1)]
  have "listShardIds c' = listShardIds c \<and> leases_schema (cat_schema x) (cat_operations x')" using assms(1)
  proof cases
    case (call_begin_derived a1 now r1)
    then show ?thesis using quietly [OF quiet_methods(1)] begin_derived_claims [OF inv(1)] claims_schema [OF inv(2) assms(3)] same_shards by blast
  next
    case (call_begin a2 now r2)
    then show ?thesis using quietly [OF quiet_methods(2)] begin_claims [OF inv(1)] claims_schema [OF inv(2) assms(3)] same_shards by blast
  next
    case (call_barrier a3 now r3)
    have "cat_operations x' = cat_operations x" using barrier_result [OF call_barrier] by auto
    then show ?thesis using quietly [OF quiet_methods(3) call_barrier] same_shards assms(3) by auto
  next
    case (call_complete a2 now r2)
    have "leases_schema (cat_schema x) (cat_operations x')"
      using complete_result [OF inv(1) call_complete] complete_schema [OF inv(2) assms(3)] assms(3) by auto
    then show ?thesis using quietly [OF quiet_methods(4) call_complete] same_shards by blast
  next
    case (call_abort a2 now r2)
    from abort_result [OF inv(1) call_abort] have "leases_schema (cat_schema x) (cat_operations x')"
    proof (elim disjE exE conjE)
      fix i q t assume h: "op_abort i now (cat_operations x) = Inr (q, t)" "abort_barrier a2 now (x\<lparr>cat_operations := t\<rparr>) = Inr x'"
      have "cat_operations x' = t" using abort_barrier_result [OF h(2)] inv(3) by simp
      then show ?thesis using abort_schema [OF inv(2) assms(3) h(1)] by simp
    qed (use assms(3) in simp)
    then show ?thesis using quietly [OF quiet_methods(5) call_abort] same_shards by blast
  qed (use assms(3) in simp_all)
  then show ?thesis using catalog_step_inv [OF topology_call_step [OF assms(1)] assms(2)] by blast
qed

section \<open>The shards of the routing table\<close>

lemma findIndex_nth: "findIndex p xs = Some i \<Longrightarrow> i < length xs"
  by (induction xs arbitrary: i) (auto split: if_splits)

lemma map_rows:
  assumes "new_VshardMap initial = Inr m"
  shows "set m \<subseteq> set initial"
proof -
  have "rfold insertSorted xs acc = Inr m' \<Longrightarrow> set m' \<subseteq> set xs \<union> set acc" for xs acc m'
  proof (induction xs arbitrary: acc)
    case (Cons r rs)
    then obtain acc1 where "insertSorted r acc = Inr acc1" "rfold insertSorted rs acc1 = Inr m'" by (auto simp: rbind_eq_Inr)
    then show ?case using Cons.IH [of acc1] insertSorted_ok by fastforce
  qed simp
  then show ?thesis using assms by (fastforce simp: new_VshardMap_def rbind_eq_Inr)
qed

lemma split_shards:
  assumes "split_map ranges l h toShard = Inr m"
  shows "shardId ` set m \<subseteq> insert toShard (shardId ` set ranges)"
proof -
  obtain idx where idx: "findIndex (\<lambda>r. lo r \<le> l \<and> h \<le> hi r) ranges = Some idx" using assms by (auto simp: split_map_def split: option.splits)
  then have t: "ranges ! idx \<in> set ranges" using findIndex_nth by (metis nth_mem)
  let ?rows = "take idx ranges @ (if lo (ranges ! idx) < l then [\<lparr> lo = lo (ranges ! idx), hi = l - 1, shardId = shardId (ranges ! idx) \<rparr>] else [])
              @ [\<lparr> lo = l, hi = h, shardId = toShard \<rparr>]
              @ (if h < hi (ranges ! idx) then [\<lparr> lo = h + 1, hi = hi (ranges ! idx), shardId = shardId (ranges ! idx) \<rparr>] else [])
              @ drop (Suc idx) ranges"
  have "new_VshardMap ?rows = Inr m"
    using assms idx by (simp add: split_map_def Let_def split: if_split_asm)
  then have "set m \<subseteq> set ?rows" by (rule map_rows)
  moreover have "shardId ` set ?rows \<subseteq> insert toShard (shardId ` set ranges)"
    using t by (auto dest: in_set_takeD in_set_dropD)
  ultimately show ?thesis by blast
qed

text \<open>A cutover adds at most the destination of an open lease, or it leaves the table.\<close>

lemma cutover_shards:
  assumes "catalog_cutover args e g now (c, x) = (q, c', x')" and "catalog_inv (c, x)"
  shows "catalog_inv (c', x') \<and> cat_operations x' = cat_operations x"
    and "listShardIds c' = listShardIds c \<or>
      set (listShardIds c') \<subseteq> insert (req_toShard args) (set (listShardIds c)) \<and>
      (\<exists>r. op_read (req_migId args) (cat_operations x) = Some r \<and> op_status r = Op_active \<and> op_destinationShard r = req_toShard args)"
proof -
  show "catalog_inv (c', x') \<and> cat_operations x' = cat_operations x" using catalog_cutover_inv [OF assms(2,1)] .
  have inv: "routing_inv c" "operations_inv (cat_operations x)" "leases_ok c (cat_operations x)"
    using assms(2) by (simp_all add: catalog_inv_def)
  from inv(1) assms(1) show "listShardIds c' = listShardIds c \<or>
      set (listShardIds c') \<subseteq> insert (req_toShard args) (set (listShardIds c)) \<and>
      (\<exists>r. op_read (req_migId args) (cat_operations x) = Some r \<and> op_status r = Op_active \<and> op_destinationShard r = req_toShard args)"
  proof (cases rule: catalog_cutover_cases)
    case (1 e)
    then show ?thesis by (simp add: same_shards)
  next
    case (2 r res)
    then show ?thesis by simp
  next
    case (3 r res m)
    have "\<not> cut_op c r" using 3(3,7) by (auto simp: cut_op_def cut_over_def)
    moreover have "lease_ok c r" using inv(3) 3(6) by (simp add: leases_ok_def)
    ultimately have "op_status r = Op_active" using 3(8) by (cases "op_status r") (auto simp: lease_ok_def)
    moreover have "op_read (req_migId args) (cat_operations x) = Some r"
      using sql_one_unique [of op_migrationId "cat_operations x" r] inv(2) 3(6,7) by (simp add: op_read_def operations_inv_def)
    moreover have "split_map (catalog_ranges c) (req_lo args) (req_hi args) (req_toShard args) = Inr m"
      using 3(4) by (auto simp: cutover_next_def rbind_eq_Inr)
    then have "set (listShardIds c') \<subseteq> insert (req_toShard args) (set (listShardIds c))"
      using split_shards by (auto simp: listShardIds_def 3(5) cut_state_def)
    ultimately show ?thesis using 3(9) by blast
  qed
qed

end
