(* ===== verification/Schema_Fleet.thy ===== *)
theory Schema_Fleet
  imports Catalog_Schema Schema_Leases
begin

text \<open>
  The Catalog and its shards during schema changes and range movements: the Catalog's schema methods (\<open>Catalog_Schema\<close>) and
  topology methods (\<open>Catalog_Topology\<close>), the calls on the shards and their answers, interleaved in any way. Messages may be
  delayed past the end of the change or movement they belong to, repeated, and lost.
\<close>

section \<open>Steps\<close>

text \<open>The requests of a change and the shards that answered, and the same for the provisioning of destinations.\<close>

record ('c, 'd) fleet =
  fl_catalog :: "'c catalog_schema"
  fl_rest :: catalog_rest
  fl_shards :: "string \<Rightarrow> 'd schema_tables"
  fl_requests :: "(string \<times> bool \<times> CdbSchemaMigrationPrepareRequest) list"
  fl_answers :: "(string \<times> string) list"
  fl_provisions :: "(string \<times> CdbSchemaTargetRequest) list"
  fl_provisioned :: "(string \<times> CdbSchemaTargetRequest) list"

definition on_shard :: "('c, 'd) fleet \<Rightarrow> string \<Rightarrow> 'd schema_tables \<Rightarrow> ('c, 'd) fleet" where
  "on_shard F s T = F\<lparr>fl_shards := (fl_shards F)(s := T)\<rparr>"

definition target_request :: "CdbSchemaMigrationPrepareRequest \<Rightarrow> CdbSchemaTargetRequest" where
  "target_request a = CdbSchemaTargetRequest.truncate a"

definition same_triple :: "StoredCdbSchemaState \<Rightarrow> StoredCdbSchemaState \<Rightarrow> bool" where
  "same_triple x y \<longleftrightarrow> sc_active_version y = sc_active_version x \<and> sc_active_epoch y = sc_active_epoch x \<and> sc_active_digest y = sc_active_digest x"

abbreviation fleet_ids :: "('c, 'd) fleet \<Rightarrow> string list" where
  "fleet_ids F \<equiv> listShardIds (cs_routing (fl_catalog F))"

text \<open>
  The topology methods read the schema state and the recovery admission that the schema methods keep; a call of one takes the
  tables of both.
\<close>

definition schema_view :: "StoredCdbSchemaState \<Rightarrow> CatalogSchemaState" where
  "schema_view x = \<lparr> schema_active = (sc_status x = Sch_active), activeVersion = sc_active_version x, activeEpoch = sc_active_epoch x,
     activeDigest = sc_active_digest x \<rparr>"

definition topology_view :: "StoredCdbSchemaState \<Rightarrow> ('c, 'd) fleet \<Rightarrow> catalog" where
  "topology_view x F = (cs_routing (fl_catalog F), (fl_rest F)\<lparr>cat_operations := cs_operations (fl_catalog F),
     cat_admission := rc_admission (cs_recovery (fl_catalog F)), cat_schema := schema_view x\<rparr>)"

definition with_topology :: "('c, 'd) fleet \<Rightarrow> catalog \<Rightarrow> ('c, 'd) fleet" where
  "with_topology F s = F\<lparr>fl_catalog := (fl_catalog F)\<lparr>cs_routing := fst s, cs_operations := cat_operations (snd s)\<rparr>, fl_rest := snd s\<rparr>"

text \<open>
  A change id that cannot be confused with another: it is not of the form of a provisioning id, no message of an earlier change
  with it is still on its way, and no shard that owns a range carries it as the last change it applied. The Catalog does not check
  this; the operator who chooses the id does.
\<close>

definition fresh_change :: "string \<Rightarrow> ('c, 'd) fleet \<Rightarrow> bool" where
  "fresh_change m F \<longleftrightarrow> take 13 m \<noteq> ''reshard-dest:'' \<and> list_all (\<lambda>(s, b, a). sr_migrationId a \<noteq> m) (fl_requests F) \<and>
     list_all (\<lambda>(m', s). m' \<noteq> m) (fl_answers F) \<and>
     list_all (\<lambda>s. case st_state (fl_shards F s) of None \<Rightarrow> True | Some y \<Rightarrow> sc_last_migration_id y \<noteq> Some m) (fleet_ids F)"

text \<open>
  The driver of a movement cuts over only after the turn in which it provisioned the destination, at the schema of the lease it holds.
\<close>

definition destination_provisioned :: "string \<Rightarrow> ('c, 'd) fleet \<Rightarrow> bool" where
  "destination_provisioned m F \<longleftrightarrow> (case op_read m (cs_operations (fl_catalog F)) of None \<Rightarrow> True
     | Some r \<Rightarrow> (op_destinationShard r, destination_request r) \<in> set (fl_provisioned F))"

text \<open>
  A schema method of the Catalog, a boot of a shard, a delivery of an issued request to its shard with whatever Worker runs there,
  the delivery of a shard's answer, a topology method of the Catalog, a provisioning request of a movement's driver and its delivery,
  a cutover, the loss of messages, or a change of the Catalog's recovery state or deployed journal. The guards of the shard's methods
  on recovery generation, active reshards and admitted destinations only refuse calls, and are left out: more calls run than in the code.
\<close>

inductive fleet_step :: "(nat list \<Rightarrow> nat list) \<Rightarrow> ('c, 'd) fleet \<Rightarrow> ('c, 'd) fleet \<Rightarrow> bool" for sha256 where
  fleet_boot: "schema_initialize sha256 K (fl_shards F s) = Inr (b, T) \<Longrightarrow> fleet_step sha256 F (on_shard F s T)"
| fleet_begin: "beginSchemaChange sha256 J m t bl now (fl_catalog F) = Inr (x, C) \<Longrightarrow> C = fl_catalog F \<or> fresh_change m F \<Longrightarrow>
    fleet_step sha256 F (F\<lparr>fl_catalog := C\<rparr>)"
| fleet_baseline_request: "migrateSchemaShard_begin m s (fl_catalog F) = Inr (Work_baseline g a) \<Longrightarrow>
    fleet_step sha256 F (F\<lparr>fl_requests := (s, True, a) # fl_requests F\<rparr>)"
| fleet_migrate_request: "migrateSchemaShard_begin m s (fl_catalog F) = Inr (Work_migrate g a) \<Longrightarrow>
    fleet_step sha256 F (F\<lparr>fl_requests := (s, False, a) # fl_requests F\<rparr>)"
| fleet_prepare: "(s, False, a) \<in> set (fl_requests F) \<Longrightarrow> schema_prepare sha256 a K (fl_shards F s) = Inr (y, T) \<Longrightarrow>
    fleet_step sha256 F (on_shard F s T)"
| fleet_apply: "(s, False, a) \<in> set (fl_requests F) \<Longrightarrow>
    schema_apply exec bef aft (sr_migrationId a) v K now (fl_shards F s) = Inr (y, T) \<Longrightarrow> fleet_step sha256 F (on_shard F s T)"
| fleet_activate: "(s, False, a) \<in> set (fl_requests F) \<Longrightarrow> schema_activate (sr_migrationId a) K rec (fl_shards F s) = Inr (y, T) \<Longrightarrow>
    fleet_step sha256 F ((on_shard F s T)\<lparr>fl_answers := (sr_migrationId a, s) # fl_answers F\<rparr>)"
| fleet_baseline: "(s, True, a) \<in> set (fl_requests F) \<Longrightarrow> baseline sha256 (target_request a) K rec aft (fl_shards F s) = Inr (y, T) \<Longrightarrow>
    fleet_step sha256 F ((on_shard F s T)\<lparr>fl_answers := (sr_migrationId a, s) # fl_answers F\<rparr>)"
| fleet_end: "(m, s) \<in> set (fl_answers F) \<Longrightarrow> migrateSchemaShard_end g m s now (fl_catalog F) = Inr (r, C) \<Longrightarrow>
    fleet_step sha256 F (F\<lparr>fl_catalog := C\<rparr>)"
| fleet_failed: "migrateSchemaShard_failed m s message now (fl_catalog F) = Inr C \<Longrightarrow> fleet_step sha256 F (F\<lparr>fl_catalog := C\<rparr>)"
| fleet_catalog_step: "applyCatalogSchemaMigration exec J m v now (fl_catalog F) = Inr (x, C) \<Longrightarrow> fleet_step sha256 F (F\<lparr>fl_catalog := C\<rparr>)"
| fleet_complete: "completeSchemaMigration J m rec (fl_catalog F) = Inr (x, C) \<Longrightarrow> fleet_step sha256 F (F\<lparr>fl_catalog := C\<rparr>)"
| fleet_topology: "cs_state (fl_catalog F) = Some x \<Longrightarrow> topology_call (topology_view x F) c \<Longrightarrow> fleet_step sha256 F (with_topology F c)"
| fleet_cutover: "cs_state (fl_catalog F) = Some x \<Longrightarrow> catalog_cutover args e g now (topology_view x F) = (q, c) \<Longrightarrow>
    destination_provisioned (req_migId args) F \<Longrightarrow> fleet_step sha256 F (with_topology F c)"
| fleet_provision_request: "op_read m (cs_operations (fl_catalog F)) = Some r \<Longrightarrow>
    fleet_step sha256 F (F\<lparr>fl_provisions := (op_destinationShard r, destination_request r) # fl_provisions F\<rparr>)"
| fleet_provision: "(s, p) \<in> set (fl_provisions F) \<Longrightarrow> provisionFresh sha256 exec p K fresh rec replay now (fl_shards F s) = Inr (y, T) \<Longrightarrow>
    fleet_step sha256 F ((on_shard F s T)\<lparr>fl_provisioned := (s, p) # fl_provisioned F\<rparr>)"
| fleet_lost: "set rs \<subseteq> set (fl_requests F) \<Longrightarrow> set as \<subseteq> set (fl_answers F) \<Longrightarrow> set ps \<subseteq> set (fl_provisions F) \<Longrightarrow>
    fleet_step sha256 F (F\<lparr>fl_requests := rs, fl_answers := as, fl_provisions := ps\<rparr>)"
| fleet_other: "fleet_step sha256 F (F\<lparr>fl_catalog := (fl_catalog F)\<lparr>cs_recovery := R\<rparr>, fl_rest := (fl_rest F)\<lparr>cat_journalVersion := n\<rparr>\<rparr>)"

text \<open>A Catalog that has just booted with nothing in its tables, and shards that never did.\<close>

definition new_catalog_schema :: "'c \<Rightarrow> catalog_routing \<Rightarrow> 'c catalog_schema" where
  "new_catalog_schema c R = \<lparr> cs_state = None, cs_shards = [], cs_steps = [], cs_baselines = [], cs_auth = c, cs_routing = R, cs_operations = [],
     cs_recovery = \<lparr> rc_restore = None, rc_admission = initial_admission, rc_rest = () \<rparr> \<rparr>"

definition new_fleet :: "'c catalog_schema \<Rightarrow> CatalogSchemaState \<Rightarrow> int \<Rightarrow> (string \<Rightarrow> 'd) \<Rightarrow> ('c, 'd) fleet" where
  "new_fleet C sc v d0 = \<lparr> fl_catalog = C, fl_rest = snd (initial_catalog sc v), fl_shards = (\<lambda>s. new_schema_tables (d0 s)), fl_requests = [],
     fl_answers = [], fl_provisions = [], fl_provisioned = [] \<rparr>"

section \<open>Where a shard can be\<close>

definition upgraded_to :: "StoredCdbSchemaState \<Rightarrow> StoredCdbSchemaState \<Rightarrow> bool" where
  "upgraded_to x y \<longleftrightarrow> sc_status y = Sch_active \<and> sc_last_migration_id y = sc_migration_id x \<and> sc_target_version x = Some (sc_active_version y) \<and>
     sc_target_epoch x = Some (sc_active_epoch y) \<and> sc_target_digest x = Some (sc_active_digest y)"

definition on_the_way :: "StoredCdbSchemaState \<Rightarrow> StoredCdbSchemaState \<Rightarrow> bool" where
  "on_the_way x y \<longleftrightarrow> sc_status y = Sch_migrating \<and> same_triple x y \<and> sc_migration_id y = sc_migration_id x \<and>
     sc_target_version y = sc_target_version x \<and> sc_target_epoch y = sc_target_epoch x \<and> sc_target_digest y = sc_target_digest x"

definition conforms :: "(nat list \<Rightarrow> nat list) \<Rightarrow> StoredCdbSchemaState \<Rightarrow> 'd schema_tables \<Rightarrow> bool" where
  "conforms sha256 x T \<longleftrightarrow> (case st_state T of
       None \<Rightarrow> sc_active_version x = 0 \<and> sc_active_epoch x = 1 \<and> sc_active_digest x = stableHashHex sha256 (prefix_json [])
     | Some y \<Rightarrow> sc_status y = Sch_active \<and> same_triple x y \<and> (sc_status x = Sch_migrating \<longrightarrow> sc_last_migration_id y \<noteq> sc_migration_id x) \<or>
         sc_status x = Sch_migrating \<and> (on_the_way x y \<or> upgraded_to x y))"

definition finished :: "StoredCdbSchemaState \<Rightarrow> 'd schema_tables \<Rightarrow> bool" where
  "finished x T \<longleftrightarrow> (case st_state T of None \<Rightarrow> False | Some y \<Rightarrow> upgraded_to x y)"

text \<open>A request of the change that runs names its target; a request of an earlier change asks for an epoch already reached.\<close>

definition current_request :: "StoredCdbSchemaState \<Rightarrow> CdbSchemaMigrationPrepareRequest \<Rightarrow> bool" where
  "current_request x a \<longleftrightarrow> sc_status x = Sch_migrating \<and> sc_migration_id x = Some (sr_migrationId a) \<and> sc_target_version x = Some (sr_targetVersion a) \<and>
     sc_target_epoch x = Some (sr_targetEpoch a) \<and> sc_target_digest x = Some (sr_targetDigest a)"

definition stale_request :: "StoredCdbSchemaState \<Rightarrow> CdbSchemaMigrationPrepareRequest \<Rightarrow> bool" where
  "stale_request x a \<longleftrightarrow> sc_migration_id x \<noteq> Some (sr_migrationId a) \<and> sr_targetEpoch a \<le> sc_active_epoch x"

definition catalog_state_ok :: "StoredCdbSchemaState \<Rightarrow> bool" where
  "catalog_state_ok x \<longleftrightarrow> schema_state_check x \<and> (sc_status x = Sch_migrating \<longrightarrow> sc_target_epoch x = Some (sc_active_epoch x + 1))"

lemma conforms_cases:
  assumes "conforms sha256 x T" and "st_state T = Some y"
  obtains (ready) "sc_status y = Sch_active" "same_triple x y" "sc_status x = Sch_migrating \<longrightarrow> sc_last_migration_id y \<noteq> sc_migration_id x"
  | (moving) "sc_status x = Sch_migrating" "on_the_way x y"
  | (arrived) "sc_status x = Sch_migrating" "upgraded_to x y"
  using assms by (auto simp: conforms_def)

lemma conforms_boot:
  assumes "conforms sha256 x T" and "catalog_state_ok x" and "schema_initialize sha256 K T = Inr (b, T')"
  shows "conforms sha256 x T' \<and> (finished x T \<longrightarrow> finished x T')"
proof (cases "st_state T")
  case None
  have "migrationDigestAt sha256 K 0 = Inr d \<Longrightarrow> d = stableHashHex sha256 (prefix_json [])" for d
    by (auto simp: migrationDigestAt_def rbind_eq_Inr)
  with assms None show ?thesis
    by (auto simp: schema_initialize_def schema_Inr Let_def conforms_def finished_def same_triple_def catalog_state_ok_def schema_state_check_def)
next
  case (Some y)
  with assms(3) have "T' = T" by (auto simp: schema_initialize_def schema_Inr)
  with assms(1) show ?thesis by simp
qed

lemma conforms_prepare:
  assumes "conforms sha256 x T" and "catalog_state_ok x" and "current_request x a \<or> stale_request x a" and "schema_prepare sha256 a K T = Inr (y, T')"
  shows "conforms sha256 x T' \<and> (finished x T \<longrightarrow> finished x T')"
  using assms(4)
proof (cases rule: schema_prepare_cases)
  case same
  then show ?thesis using assms(1) by simp
next
  case (prepared y0)
  from assms(1) prepared(1) show ?thesis
  proof (cases rule: conforms_cases)
    case ready
    then have "\<not> stale_request x a" using prepared(5) by (simp add: stale_request_def same_triple_def)
    then have "current_request x a" using assms(3) by simp
    then show ?thesis using ready prepared(1)
      by (simp add: conforms_def finished_def prepared(8,9) on_the_way_def same_triple_def current_request_def upgraded_to_def)
  next
    case moving
    then show ?thesis using prepared(2) by (simp add: on_the_way_def)
  next
    case arrived
    then have e: "sc_active_epoch y0 = sc_active_epoch x + 1" using assms(2) by (simp add: upgraded_to_def catalog_state_ok_def)
    then have False using assms(3) prepared(5) arrived assms(2) by (auto simp: stale_request_def current_request_def catalog_state_ok_def)
    then show ?thesis ..
  qed
qed

lemma target_somes:
  assumes "catalog_state_ok x" and "sc_status x = Sch_migrating"
  obtains v d where "sc_target_version x = Some v" "sc_target_epoch x = Some (sc_active_epoch x + 1)" "sc_target_digest x = Some d"
  using assms by (auto simp: catalog_state_ok_def schema_state_check_def)

lemma conforms_activate:
  assumes "conforms sha256 x T" and "catalog_state_ok x" and "schema_activate m K rec T = Inr (y, T')"
  shows "conforms sha256 x T' \<and> (finished x T \<longrightarrow> finished x T') \<and> (sc_status x = Sch_migrating \<longrightarrow> sc_migration_id x = Some m \<longrightarrow> finished x T')"
  using assms(3)
proof (cases rule: schema_activate_cases)
  case same
  from assms(1) same(2) show ?thesis
    by (cases rule: conforms_cases) (use same assms(1) in \<open>auto simp: finished_def on_the_way_def\<close>)
next
  case (activated y0 t E d)
  from assms(1) activated(1) show ?thesis
  proof (cases rule: conforms_cases)
    case moving
    from target_somes [OF assms(2) moving(1)] obtain v dg where x: "sc_target_version x = Some v"
      "sc_target_epoch x = Some (sc_active_epoch x + 1)" "sc_target_digest x = Some dg" .
    then have "upgraded_to x y" using moving(2) activated(3) by (simp add: activated(8) activate_state_def upgraded_to_def on_the_way_def)
    then show ?thesis using moving(1) by (simp add: conforms_def finished_def activated(10))
  qed (use activated in \<open>auto simp: upgraded_to_def\<close>)
qed

lemma conforms_baseline:
  assumes "conforms sha256 x T" and "catalog_state_ok x" and "current_request x a \<or> stale_request x a"
    and "baseline sha256 (target_request a) K rec aft T = Inr (y, T')"
  shows "conforms sha256 x T' \<and> (finished x T \<longrightarrow> finished x T') \<and> (sc_migration_id x = Some (sr_migrationId a) \<longrightarrow> finished x T')"
proof -
  have a: "sr_migrationId (target_request a) = sr_migrationId a" "sr_targetVersion (target_request a) = sr_targetVersion a"
    "sr_targetEpoch (target_request a) = sr_targetEpoch a" "sr_targetDigest (target_request a) = sr_targetDigest a"
    by (simp_all add: target_request_def CdbSchemaTargetRequest.truncate_def)
  from assms(4) show ?thesis
  proof (cases rule: baseline_cases)
    case same
    from assms(1) same(2) show ?thesis
      by (cases rule: conforms_cases) (use same assms in \<open>auto simp: finished_def on_the_way_def at_target_def a current_request_def stale_request_def\<close>)
  next
    case (adopted y0 d)
    from assms(1) adopted(1) show ?thesis
    proof (cases rule: conforms_cases)
      case ready
      then have "\<not> stale_request x a" using adopted(4) by (simp add: stale_request_def same_triple_def a)
      then have "current_request x a" using assms(3) by simp
      then have "sc_status x = Sch_migrating" "upgraded_to x y"
        using adopted(2) by (simp_all add: adopted(5) current_request_def upgraded_to_def set_active_def a)
      then show ?thesis by (simp add: conforms_def finished_def adopted(6))
    next
      case moving
      then show ?thesis using adopted(2) by (simp add: on_the_way_def)
    next
      case arrived
      then have False using assms(2,3) adopted(4) by (auto simp: stale_request_def current_request_def catalog_state_ok_def upgraded_to_def a)
      then show ?thesis ..
    qed
  qed
qed

lemma conforms_same_state: "st_state T' = st_state T \<Longrightarrow> conforms sha256 x T' = conforms sha256 x T \<and> finished x T' = finished x T"
  by (simp add: conforms_def finished_def)

lemma apply_state: "schema_apply exec bef aft m v K now T = Inr (y, T') \<Longrightarrow> st_state T' = st_state T"
  by (erule schema_apply_cases) (simp_all add: new_step_state)

section \<open>What a method of the Catalog changes\<close>

lemma update_catalog_Inr:
  "update_catalog_state p f C = Inr C' \<longleftrightarrow> (\<exists>x. cs_state C = Some x \<and> p x \<and> schema_state_check (f x) \<and> C' = C\<lparr>cs_state := Some (f x)\<rparr>)"
  by (auto simp: update_catalog_state_def split: option.splits)

lemma read_catalog_Inr: "readCatalogSchemaState C = Inr x \<longleftrightarrow> cs_state C = Some x"
  by (auto simp: readCatalogSchemaState_def split: option.splits)

lemmas catalog_Inr = update_catalog_Inr read_catalog_Inr rbind_eq_Inr ensure_eq_Inr

lemma insert_rows:
  assumes "rfold (sql_insert key check) rs t = Inr t'"
  shows "t' = t @ rs"
  using assms
proof (induction rs arbitrary: t)
  case (Cons r rs)
  then have "rfold (sql_insert key check) rs (t @ [r]) = Inr t'" by (auto simp: rbind_eq_Inr sql_insert_Inr)
  from Cons.IH [OF this] show ?case by simp
qed simp

definition same_topology :: "'c catalog_schema \<Rightarrow> 'c catalog_schema \<Rightarrow> bool" where
  "same_topology C C' \<longleftrightarrow> cs_routing C' = cs_routing C \<and> cs_operations C' = cs_operations C"

lemma begin_effect:
  assumes "beginSchemaChange sha256 J m t bl now C = Inr (s, C')" and "cs_state C = Some x"
  obtains (same) "C' = C"
  | (begun) d where "sc_status x = Sch_active" "cs_state C' = Some (start_migrating m t d x)" "schema_state_check (start_migrating m t d x)"
      "cs_shards C' = cs_shards C @ map (pending_shard_row m now) (listShardIds (cs_routing C))" "same_topology C C'"
      "\<forall>r \<in> set (cs_operations C). op_status r \<noteq> Op_active"
proof -
  have run: "beginCatalogSchemaChange sha256 J m t bl now C = Inr C'" using assms(1) by (auto simp: beginSchemaChange_def catalog_Inr)
  have idle: "\<forall>r \<in> set (cs_operations C). op_status r \<noteq> Op_active"
    using assms(1) by (auto simp: beginSchemaChange_def catalog_Inr op_assertNoActive_def op_active_def sql_one_None_iff)
  show ?thesis
  proof (cases "C' = C")
    case True
    then show ?thesis by (rule same)
  next
    case False
    then obtain d C1 C2 where C1: "sc_status x = Sch_active" "C1 = C\<lparr>cs_state := Some (start_migrating m t d x)\<rparr>" "schema_state_check (start_migrating m t d x)"
      and C2: "insert_shards m now C1 = Inr C2" and C': "C' = C2 \<or> insert_baseline m t d now C2 = Inr C'"
      using run by (auto simp: beginCatalogSchemaChange_def catalog_Inr assms(2) split: if_splits)
    have "C2 = C1\<lparr>cs_shards := cs_shards C @ map (pending_shard_row m now) (listShardIds (cs_routing C))\<rparr>"
      using C2 by (auto simp: insert_shards_def rbind_eq_Inr C1(2) dest!: insert_rows)
    then show ?thesis using C1 C' idle by (auto simp: insert_baseline_def rbind_eq_Inr same_topology_def intro!: begun)
  qed
qed

lemma activate_shard_effect:
  assumes "activateCatalogSchemaShard m s now C = Inr C'"
  shows "C' = C\<lparr>cs_shards := sql_update (pending_schema_shard m s) (\<lambda>r. r\<lparr>cr_status := Shd_active, cr_lastError := None, cr_updatedAt := now\<rparr>) (cs_shards C)\<rparr>"
  using assms by (auto simp: activateCatalogSchemaShard_def catalog_Inr sql_update_checked_def split: if_splits)

lemma end_effect:
  assumes "migrateSchemaShard_end g m s now C = Inr (r, C')"
  shows "C' = C\<lparr>cs_shards := sql_update (pending_schema_shard m s) (\<lambda>r. r\<lparr>cr_status := Shd_active, cr_lastError := None, cr_updatedAt := now\<rparr>) (cs_shards C)\<rparr>"
proof -
  have "activateCatalogSchemaShard m s now C = Inr C'"
    using assms by (auto simp: migrateSchemaShard_end_def rbind_eq_Inr split: option.splits)
  then show ?thesis by (rule activate_shard_effect)
qed

lemma failed_effect:
  assumes "migrateSchemaShard_failed m s message now C = Inr C'"
  obtains l where "C' = C\<lparr>cs_shards := sql_update (pending_schema_shard m s) (\<lambda>r. r\<lparr>cr_lastError := l, cr_updatedAt := now\<rparr>) (cs_shards C)\<rparr>"
  using assms by (auto simp: migrateSchemaShard_failed_def recordCatalogSchemaShardFailure_def rbind_eq_Inr sql_update_checked_def split: if_splits)

lemma step_effect:
  assumes "applyCatalogSchemaMigration exec J m v now C = Inr (x, C')"
  shows "cs_state C' = cs_state C \<and> cs_shards C' = cs_shards C \<and> same_topology C C'"
proof -
  have "catalog_new_step exec m v now E g C = Inr C' \<Longrightarrow> cs_state C' = cs_state C \<and> cs_shards C' = cs_shards C \<and> same_topology C C'" for E g
    by (auto simp: catalog_new_step_def Let_def insert_catalog_step_def catalog_Inr same_topology_def)
  moreover have "same_topology C C" by (simp add: same_topology_def)
  ultimately show ?thesis using assms
    by (auto simp: applyCatalogSchemaMigration_def applyCatalogSchemaMigrationStep_def catalog_Inr split: if_splits option.splits)
qed

lemma complete_effect:
  assumes "completeSchemaMigration J m rec C = Inr (s, C')" and "cs_state C = Some x"
  obtains (same) "C' = C"
  | (completed) "sc_status x = Sch_migrating" "sc_migration_id x = Some m" "\<forall>r \<in> set (cs_shards C). cr_migrationId r = m \<longrightarrow> cr_status r = Shd_active"
      "cs_state C' = Some (activate_state x)" "schema_state_check (activate_state x)"
      "cs_shards C' = sql_delete (\<lambda>r. cr_migrationId r = m) (cs_shards C)" "same_topology C C'"
proof -
  have run: "completeCatalogSchemaMigration J m rec C = Inr C'" using assms(1) by (auto simp: completeSchemaMigration_def catalog_Inr)
  show ?thesis
  proof (cases "sc_status x")
    case Sch_active
    then have "C' = C" using run by (auto simp: completeCatalogSchemaMigration_def catalog_Inr assms(2))
    then show ?thesis by (rule same)
  next
    case Sch_migrating
    then show ?thesis using run
      by (auto simp: completeCatalogSchemaMigration_def catalog_Inr assms(2) clear_migration_def sql_changes_def filter_empty_conv same_topology_def
        split: option.splits intro!: completed)
  qed
qed

lemma request_effect:
  assumes "migrateSchemaShard_begin m s C = Inr w" and "cs_state C = Some x" and "w = Work_baseline g a \<or> w = Work_migrate g a"
  shows "current_request x a" "sr_migrationId a = m" "sc_migration_id x = Some m" "\<exists>r \<in> set (cs_shards C). cr_migrationId r = m \<and> cr_shardId r = s"
proof -
  have x: "sc_status x = Sch_migrating" "sc_migration_id x = Some m"
    using assms(1,2) by (auto simp: migrateSchemaShard_begin_def catalog_Inr split: if_split_asm)
  then obtain a' where a': "migrate_request m x = Some a'"
    using assms(1,2) by (cases "migrate_request m x") (auto simp: migrateSchemaShard_begin_def catalog_Inr)
  obtain rows where rows: "readCatalogSchemaMigrationShards m C = Inr rows"
    using assms(1,2) x a' by (auto simp: migrateSchemaShard_begin_def catalog_Inr)
  then obtain r where r: "List.find (\<lambda>r. cr_shardId r = s) rows = Some r"
    using assms(1,2) x a' by (cases "List.find (\<lambda>r. cr_shardId r = s) rows") (auto simp: migrateSchemaShard_begin_def catalog_Inr)
  have "a = a'" using assms x a' rows r by (auto simp: migrateSchemaShard_begin_def catalog_Inr split: if_splits)
  note x = x a' [folded this] and rows = rows r
  show "current_request x a" "sr_migrationId a = m" "sc_migration_id x = Some m"
    using x by (auto simp: migrate_request_def current_request_def split: option.splits)
  have "rows = sort_key cr_shardId (filter (\<lambda>r. cr_migrationId r = m) (cs_shards C))"
    using rows(1) x by (auto simp: readCatalogSchemaMigrationShards_def catalog_Inr assms(2))
  then have "set rows = {r \<in> set (cs_shards C). cr_migrationId r = m}" by simp
  moreover have "r \<in> set rows \<and> cr_shardId r = s" using rows(2) by (auto simp: find_Some_iff)
  ultimately show "\<exists>r \<in> set (cs_shards C). cr_migrationId r = m \<and> cr_shardId r = s" by blast
qed

lemma provision_result:
  assumes "provisionFresh sha256 exec p K fresh rec replay now T = Inr (y, T')"
  shows "st_state T' = Some y \<and> sc_status y = Sch_active \<and> sc_active_version y = sr_targetVersion p \<and> sc_active_epoch y = sr_targetEpoch p \<and>
    sc_active_digest y = sr_targetDigest p"
proof -
  obtain s0 where s0: "st_state T = Some s0" using assms by (auto simp: provisionFresh_def rbind_eq_Inr schema_state_Inr)
  show ?thesis
  proof (cases "sc_status s0 = Sch_active \<and> at_target s0 (sr_migrationId p) (sr_targetVersion p) (sr_targetEpoch p) (sr_targetDigest p)")
    case True
    then have "T' = T" "st_state T' = Some y"
      using assms by (auto simp: provisionFresh_def rbind_eq_Inr ensure_eq_Inr schema_state_Inr with_state_Inr s0)
    then show ?thesis using s0 True by (auto simp: at_target_def)
  next
    case False
    then obtain T3 where "update_state (\<lambda>s. sc_status s = Sch_active \<and> sc_active_version s = 0 \<and> sc_active_epoch s = 1 \<and> sc_last_migration_id s = None)
            (set_active p) schema_stale T3 = Inr T'" "st_state T' = Some y"
      using assms by (auto simp: provisionFresh_def rbind_eq_Inr ensure_eq_Inr schema_state_Inr with_state_Inr s0)
    then show ?thesis by (auto simp: update_state_Inr set_active_def)
  qed
qed

section \<open>The invariant\<close>

definition rows_ok :: "StoredCdbSchemaState \<Rightarrow> ('c, 'd) fleet \<Rightarrow> bool" where
  "rows_ok x F \<longleftrightarrow> (\<forall>r \<in> set (cs_shards (fl_catalog F)). sc_migration_id x = Some (cr_migrationId r) \<and> cr_shardId r \<in> set (fleet_ids F) \<and>
       (cr_status r = Shd_active \<longrightarrow> finished x (fl_shards F (cr_shardId r)))) \<and>
     (sc_status x = Sch_migrating \<longrightarrow> set (fleet_ids F) \<subseteq> cr_shardId ` set (cs_shards (fl_catalog F)))"

definition requests_ok :: "StoredCdbSchemaState \<Rightarrow> ('c, 'd) fleet \<Rightarrow> bool" where
  "requests_ok x F \<longleftrightarrow> (\<forall>(s, b, a) \<in> set (fl_requests F). current_request x a \<and> s \<in> set (fleet_ids F) \<or> stale_request x a)"

definition answers_ok :: "StoredCdbSchemaState \<Rightarrow> ('c, 'd) fleet \<Rightarrow> bool" where
  "answers_ok x F \<longleftrightarrow> (\<forall>(m, s) \<in> set (fl_answers F). sc_migration_id x = Some m \<longrightarrow> finished x (fl_shards F s) \<and> s \<in> set (fleet_ids F))"

text \<open>A provisioning request names an epoch already reached, and at the Catalog's epoch its schema.\<close>

definition provision_ok :: "StoredCdbSchemaState \<Rightarrow> CdbSchemaTargetRequest \<Rightarrow> bool" where
  "provision_ok x p \<longleftrightarrow> take 13 (sr_migrationId p) = ''reshard-dest:'' \<and> sr_targetEpoch p \<le> sc_active_epoch x \<and>
     (sr_targetEpoch p = sc_active_epoch x \<longrightarrow> sr_targetVersion p = sc_active_version x \<and> sr_targetDigest p = sc_active_digest x)"

definition provisions_ok :: "StoredCdbSchemaState \<Rightarrow> ('c, 'd) fleet \<Rightarrow> bool" where
  "provisions_ok x F \<longleftrightarrow> (\<forall>(s, p) \<in> set (fl_provisions F) \<union> set (fl_provisioned F). provision_ok x p)"

text \<open>The shards that follow the Catalog: the owners of ranges, and, while no change runs, the destinations provisioned at this epoch.\<close>

definition follows :: "StoredCdbSchemaState \<Rightarrow> ('c, 'd) fleet \<Rightarrow> string \<Rightarrow> bool" where
  "follows x F s \<longleftrightarrow> s \<in> set (fleet_ids F) \<or>
     sc_status x = Sch_active \<and> (\<exists>p. (s, p) \<in> set (fl_provisioned F) \<and> sr_targetEpoch p = sc_active_epoch x)"

definition topology_ok :: "StoredCdbSchemaState \<Rightarrow> ('c, 'd) fleet \<Rightarrow> bool" where
  "topology_ok x F \<longleftrightarrow> catalog_inv (topology_view x F) \<and> leases_schema (schema_view x) (cs_operations (fl_catalog F))"

definition change_id_ok :: "StoredCdbSchemaState \<Rightarrow> bool" where
  "change_id_ok x \<longleftrightarrow> (\<forall>m. sc_migration_id x = Some m \<longrightarrow> take 13 m \<noteq> ''reshard-dest:'')"

definition fleet_ok :: "(nat list \<Rightarrow> nat list) \<Rightarrow> StoredCdbSchemaState \<Rightarrow> ('c, 'd) fleet \<Rightarrow> bool" where
  "fleet_ok sha256 x F \<longleftrightarrow> cs_state (fl_catalog F) = Some x \<and> catalog_state_ok x \<and> (\<forall>s. follows x F s \<longrightarrow> conforms sha256 x (fl_shards F s)) \<and>
     change_id_ok x \<and> topology_ok x F \<and> rows_ok x F \<and> requests_ok x F \<and> answers_ok x F \<and> provisions_ok x F"

definition fleet_inv :: "(nat list \<Rightarrow> nat list) \<Rightarrow> ('c, 'd) fleet \<Rightarrow> bool" where
  "fleet_inv sha256 F \<longleftrightarrow> (\<exists>x. fleet_ok sha256 x F)"

lemmas fleet_parts = fleet_ok_def rows_ok_def requests_ok_def answers_ok_def provisions_ok_def follows_def

lemma catalog_inv_rest:
  assumes "cat_operations y = cat_operations z" and "cat_barriers y = cat_barriers z" and "cat_deletions y = cat_deletions z"
  shows "catalog_inv (c, y) = catalog_inv (c, z)"
  by (simp add: catalog_inv_def assms)

text \<open>The topology part depends on the routing table, the leases and the rest of the Catalog's tables alone.\<close>

lemma topology_ok_same:
  assumes "same_topology (fl_catalog F) (fl_catalog F')" and "cat_barriers (fl_rest F') = cat_barriers (fl_rest F)"
    and "cat_deletions (fl_rest F') = cat_deletions (fl_rest F)" and "schema_view x' = schema_view x" and "topology_ok x F"
  shows "topology_ok x' F'"
  using assms by (simp add: topology_ok_def topology_view_def same_topology_def catalog_inv_def)

text \<open>A call on one shard keeps the invariant when the shard, if it follows the Catalog, conforms and stays finished.\<close>

lemma fleet_ok_on_shard:
  assumes "fleet_ok sha256 x F" and "follows x F s \<Longrightarrow> conforms sha256 x T \<and> (finished x (fl_shards F s) \<longrightarrow> finished x T)"
  shows "fleet_ok sha256 x (on_shard F s T)"
proof -
  have keep: "finished x (fl_shards F t) \<longrightarrow> finished x (((fl_shards F)(s := T)) t)" if "t \<in> set (fleet_ids F)" for t
    using that assms(2) by (auto simp: follows_def)
  have "conforms sha256 x (((fl_shards F)(s := T)) t)" if "follows x F t" for t
    using that assms by (auto simp: fleet_ok_def)
  moreover have "follows x (on_shard F s T) t = follows x F t" for t by (simp add: follows_def on_shard_def)
  moreover have "rows_ok x (on_shard F s T)" using assms(1) keep by (auto simp: fleet_ok_def rows_ok_def on_shard_def)
  moreover have "answers_ok x (on_shard F s T)"
    unfolding answers_ok_def on_shard_def using assms(1) keep by (fastforce simp: fleet_ok_def answers_ok_def)
  moreover have "topology_ok x (on_shard F s T)" using assms(1) by (simp add: fleet_ok_def topology_ok_def topology_view_def on_shard_def)
  ultimately show ?thesis using assms(1) by (simp add: fleet_ok_def on_shard_def requests_ok_def provisions_ok_def)
qed

lemma fleet_ok_answer:
  assumes "fleet_ok sha256 x F" and "sc_migration_id x = Some m \<Longrightarrow> finished x (fl_shards F s) \<and> s \<in> set (fleet_ids F)"
  shows "fleet_ok sha256 x (F\<lparr>fl_answers := (m, s) # fl_answers F\<rparr>)"
  using assms by (simp add: fleet_parts topology_ok_def topology_view_def)

lemma request_known:
  assumes "fleet_ok sha256 x F" and "(s, b, a) \<in> set (fl_requests F)"
  shows "current_request x a \<and> s \<in> set (fleet_ids F) \<or> stale_request x a"
    "sc_migration_id x = Some (sr_migrationId a) \<Longrightarrow> s \<in> set (fleet_ids F) \<and> current_request x a"
  using assms by (force simp: fleet_ok_def requests_ok_def stale_request_def)+

section \<open>Every step keeps it\<close>

lemma fleet_ok_call_steps:
  assumes "fleet_ok sha256 x F" and "(s, b, a) \<in> set (fl_requests F)"
  shows "schema_prepare sha256 a K (fl_shards F s) = Inr (y, T) \<Longrightarrow> fleet_ok sha256 x (on_shard F s T)"
    and "schema_apply exec bef aft m v K now (fl_shards F s) = Inr (y, T) \<Longrightarrow> fleet_ok sha256 x (on_shard F s T)"
    and "schema_activate (sr_migrationId a) K rec (fl_shards F s) = Inr (y, T) \<Longrightarrow>
      fleet_ok sha256 x ((on_shard F s T)\<lparr>fl_answers := (sr_migrationId a, s) # fl_answers F\<rparr>)"
    and "baseline sha256 (target_request a) K rec after (fl_shards F s) = Inr (y, T) \<Longrightarrow>
      fleet_ok sha256 x ((on_shard F s T)\<lparr>fl_answers := (sr_migrationId a, s) # fl_answers F\<rparr>)"
proof -
  note R = request_known [OF assms]
  have ok: "catalog_state_ok x" and conf: "follows x F s \<Longrightarrow> conforms sha256 x (fl_shards F s)" using assms(1) by (simp_all add: fleet_ok_def)
  have own: "s \<in> set (fleet_ids F) \<Longrightarrow> follows x F s" by (simp add: follows_def)
  have req: "current_request x a \<or> stale_request x a" using R(1) by blast
  have answers: "fl_answers (on_shard F s T) = fl_answers F" "fl_shards (on_shard F s T) s = T"
    "fleet_ids (on_shard F s T) = fleet_ids F" for T by (simp_all add: on_shard_def)
  show "fleet_ok sha256 x (on_shard F s T)" if run: "schema_prepare sha256 a K (fl_shards F s) = Inr (y, T)" for T y
    using conforms_prepare [OF conf ok req run] by (intro fleet_ok_on_shard [OF assms(1)]) blast
  show "fleet_ok sha256 x (on_shard F s T)" if run: "schema_apply exec bef aft m v K now (fl_shards F s) = Inr (y, T)" for T y
    using conforms_same_state [OF apply_state [OF run]] conf by (intro fleet_ok_on_shard [OF assms(1)]) simp_all
  show "fleet_ok sha256 x ((on_shard F s T)\<lparr>fl_answers := (sr_migrationId a, s) # fl_answers F\<rparr>)"
    if run: "schema_activate (sr_migrationId a) K rec (fl_shards F s) = Inr (y, T)" for T y
  proof -
    have "fleet_ok sha256 x (on_shard F s T)" using conforms_activate [OF conf ok run] by (intro fleet_ok_on_shard [OF assms(1)]) blast
    moreover have "finished x T \<and> s \<in> set (fleet_ids F)" if "sc_migration_id x = Some (sr_migrationId a)"
      using conforms_activate [OF conf ok run] R(2) [OF that] own that by (simp add: current_request_def)
    ultimately show ?thesis using fleet_ok_answer [of sha256 x "on_shard F s T"] by (simp only: answers)
  qed
  show "fleet_ok sha256 x ((on_shard F s T)\<lparr>fl_answers := (sr_migrationId a, s) # fl_answers F\<rparr>)"
    if run: "baseline sha256 (target_request a) K rec after (fl_shards F s) = Inr (y, T)" for T y
  proof -
    have "fleet_ok sha256 x (on_shard F s T)" using conforms_baseline [OF conf ok req run] by (intro fleet_ok_on_shard [OF assms(1)]) blast
    moreover have "finished x T \<and> s \<in> set (fleet_ids F)" if "sc_migration_id x = Some (sr_migrationId a)"
      using conforms_baseline [OF conf ok req run] R(2) [OF that] own that by blast
    ultimately show ?thesis using fleet_ok_answer [of sha256 x "on_shard F s T"] by (simp only: answers)
  qed
qed

text \<open>
  Provisioning runs on a shard that was never migrated, or it finds its own result. An owner of a range on which it runs
  is at the first epoch, and so is the request: the schema stays what it was.
\<close>

lemma conforms_provision:
  assumes "conforms sha256 x T" and "catalog_state_ok x" and "provision_ok x p" and "change_id_ok x"
    and "provisionFresh sha256 exec p K fresh rec replay now T = Inr (y, T')"
  shows "conforms sha256 x T' \<and> (finished x T \<longrightarrow> finished x T')"
  using assms(5)
proof (cases rule: provision_cases)
  case same
  then show ?thesis using assms(1) by simp
next
  case (provisioned s0 T1 d2 d3)
  have y: "y = set_active p s0" using provisioned(1,15) replay_state [OF provisioned(12)] by simp
  from assms(1) provisioned(1) show ?thesis
  proof (cases rule: conforms_cases)
    case ready
    then have x: "sc_active_version x = 0" "sc_active_epoch x = 1" using provisioned(3,4) by (simp_all add: same_triple_def)
    have "sr_targetVersion p = 0"
    proof (rule ccontr)
      assume "sr_targetVersion p \<noteq> 0"
      then have "2 \<le> sr_targetEpoch p" using provisioned(7,10) by simp
      then show False using assms(3) x by (simp add: provision_ok_def)
    qed
    then have "sr_targetEpoch p = 1" using provisioned(9) by simp
    then have "same_triple x y" using assms(3) x by (simp add: y set_active_def same_triple_def provision_ok_def)
    moreover have "sc_status y = Sch_active" "sc_last_migration_id y = Some (sr_migrationId p)" using provisioned(2) by (simp_all add: y set_active_def)
    moreover have "sc_migration_id x \<noteq> Some (sr_migrationId p)" using assms(3,4) by (auto simp: provision_ok_def change_id_ok_def)
    ultimately have "conforms sha256 x T'" by (simp add: conforms_def provisioned(16))
    moreover have "\<not> finished x T"
      using assms(2) ready by (auto simp: finished_def provisioned(1) upgraded_to_def same_triple_def catalog_state_ok_def schema_state_check_def
        split: schema_status.splits)
    ultimately show ?thesis by simp
  next
    case moving
    then show ?thesis using provisioned(2) by (simp add: on_the_way_def)
  next
    case arrived
    then have False using provisioned(4) assms(2) by (auto simp: upgraded_to_def catalog_state_ok_def schema_state_check_def)
    then show ?thesis ..
  qed
qed

lemma fleet_ok_provision:
  assumes "fleet_ok sha256 x F" and "(s, p) \<in> set (fl_provisions F)"
    and "provisionFresh sha256 exec p K fresh rec replay now (fl_shards F s) = Inr (y, T)"
  shows "fleet_ok sha256 x ((on_shard F s T)\<lparr>fl_provisioned := (s, p) # fl_provisioned F\<rparr>)" (is "fleet_ok sha256 x ?F")
proof -
  have ok: "catalog_state_ok x" "change_id_ok x" and p: "provision_ok x p" using assms(1,2) by (auto simp: fleet_ok_def provisions_ok_def)
  have conf: "follows x F s \<Longrightarrow> conforms sha256 x (fl_shards F s)" using assms(1) by (simp add: fleet_ok_def)
  have F: "fleet_ok sha256 x (on_shard F s T)"
    using conforms_provision [OF conf ok(1) p ok(2) assms(3)] by (intro fleet_ok_on_shard [OF assms(1)]) blast
  have "conforms sha256 x T" if "sc_status x = Sch_active" "sr_targetEpoch p = sc_active_epoch x"
    using provision_result [OF assms(3)] that p by (simp add: conforms_def same_triple_def provision_ok_def)
  moreover have "follows x ?F t \<longleftrightarrow> follows x (on_shard F s T) t \<or> t = s \<and> sc_status x = Sch_active \<and> sr_targetEpoch p = sc_active_epoch x" for t
    by (auto simp: follows_def on_shard_def)
  ultimately have "\<forall>t. follows x ?F t \<longrightarrow> conforms sha256 x (fl_shards ?F t)"
    using F by (auto simp: fleet_ok_def on_shard_def)
  moreover have "provisions_ok x ?F" using F p by (auto simp: fleet_ok_def provisions_ok_def on_shard_def)
  ultimately show ?thesis using F
    by (simp add: fleet_ok_def rows_ok_def requests_ok_def answers_ok_def topology_ok_def topology_view_def)
qed

text \<open>A change of the catalog's rows alone.\<close>

lemma fleet_ok_rows:
  assumes "fleet_ok sha256 x F" and "cs_state C = cs_state (fl_catalog F)" and "same_topology (fl_catalog F) C"
    and "rows_ok x (F\<lparr>fl_catalog := C\<rparr>)"
  shows "fleet_ok sha256 x (F\<lparr>fl_catalog := C\<rparr>)"
proof -
  have "topology_ok x (F\<lparr>fl_catalog := C\<rparr>)" using assms(1,3) topology_ok_same [of F "F\<lparr>fl_catalog := C\<rparr>" x x] by (simp add: fleet_ok_def)
  then show ?thesis using assms by (simp add: fleet_ok_def requests_ok_def answers_ok_def provisions_ok_def follows_def same_topology_def)
qed

lemma active_no_rows:
  assumes "fleet_ok sha256 x F" and "sc_status x = Sch_active"
  shows "sc_migration_id x = None" "cs_shards (fl_catalog F) = []"
proof -
  show none: "sc_migration_id x = None" using assms by (simp add: fleet_ok_def catalog_state_ok_def schema_state_check_def)
  have "r \<notin> set (cs_shards (fl_catalog F))" for r using assms(1) by (auto simp: fleet_ok_def rows_ok_def none)
  then show "cs_shards (fl_catalog F) = []" by (metis list.set_intros(1) neq_Nil_conv)
qed

lemma fleet_ok_begin:
  assumes "fleet_ok sha256 x F" and "fresh_change m F" and "sc_status x = Sch_active" and "cs_state C = Some (start_migrating m t d x)"
    and "schema_state_check (start_migrating m t d x)" and "cs_shards C = cs_shards (fl_catalog F) @ map (pending_shard_row m now) (fleet_ids F)"
    and "same_topology (fl_catalog F) C" and "\<forall>r \<in> set (cs_operations (fl_catalog F)). op_status r \<noteq> Op_active"
  shows "fleet_ok sha256 (start_migrating m t d x) (F\<lparr>fl_catalog := C\<rparr>)"
proof -
  let ?x = "start_migrating m t d x" and ?F = "F\<lparr>fl_catalog := C\<rparr>"
  note none = active_no_rows [OF assms(1,3)]
  have x: "sc_active_version ?x = sc_active_version x" "sc_active_epoch ?x = sc_active_epoch x" "sc_active_digest ?x = sc_active_digest x"
    "sc_status ?x = Sch_migrating" "sc_migration_id ?x = Some m" "sc_target_epoch ?x = Some (sc_active_epoch x + 1)"
    by (simp_all add: start_migrating_def)
  have R: "cs_routing C = cs_routing (fl_catalog F)" and O: "cs_operations C = cs_operations (fl_catalog F)"
    using assms(7) by (simp_all add: same_topology_def)
  have "conforms sha256 ?x (fl_shards F s)" if "s \<in> set (fleet_ids F)" for s
  proof (cases "st_state (fl_shards F s)")
    case None
    then show ?thesis using that assms(1) by (auto simp: fleet_ok_def follows_def conforms_def x)
  next
    case (Some y)
    have "conforms sha256 x (fl_shards F s)" using that assms(1) by (simp add: fleet_ok_def follows_def)
    then have "sc_status y = Sch_active" "same_triple x y" using Some assms(3) by (auto simp: conforms_def)
    moreover have "sc_last_migration_id y \<noteq> Some m" using Some that assms(2) by (force simp: fresh_change_def list_all_iff)
    ultimately show ?thesis by (simp add: conforms_def Some x same_triple_def)
  qed
  moreover have "rows_ok ?x ?F" using none by (auto simp: rows_ok_def x assms(6) R pending_shard_row_def image_image)
  moreover have "requests_ok ?x ?F"
    using assms(1,2,3) by (fastforce simp: requests_ok_def fleet_ok_def fresh_change_def list_all_iff x R stale_request_def current_request_def)
  moreover have "answers_ok ?x ?F" using assms(2) by (force simp: answers_ok_def fresh_change_def list_all_iff x)
  moreover have "topology_ok ?x ?F"
    using assms(1,8) by (auto simp: fleet_ok_def topology_ok_def topology_view_def R O leases_schema_def lease_schema_def schema_view_def x
      intro: catalog_inv_rest [THEN iffD1, rotated 3])
  moreover have "provisions_ok ?x ?F" using assms(1) by (simp add: fleet_ok_def provisions_ok_def provision_ok_def x)
  moreover have "change_id_ok ?x" using assms(2) by (simp add: change_id_ok_def x fresh_change_def)
  ultimately show ?thesis using assms(4,5) by (simp add: fleet_ok_def follows_def catalog_state_ok_def x R)
qed

lemma fleet_ok_complete:
  assumes "fleet_ok sha256 x F" and "sc_status x = Sch_migrating" and "sc_migration_id x = Some m"
    and "\<forall>r \<in> set (cs_shards (fl_catalog F)). cr_migrationId r = m \<longrightarrow> cr_status r = Shd_active"
    and "cs_state C = Some (activate_state x)" and "schema_state_check (activate_state x)"
    and "cs_shards C = sql_delete (\<lambda>r. cr_migrationId r = m) (cs_shards (fl_catalog F))" and "same_topology (fl_catalog F) C"
  shows "fleet_ok sha256 (activate_state x) (F\<lparr>fl_catalog := C\<rparr>)"
proof -
  have ok: "catalog_state_ok x" and rows: "rows_ok x F" using assms(1) by (simp_all add: fleet_ok_def)
  obtain v d where t: "sc_target_version x = Some v" "sc_target_epoch x = Some (sc_active_epoch x + 1)" "sc_target_digest x = Some d"
    using target_somes [OF ok assms(2)] .
  let ?x = "activate_state x" and ?F = "F\<lparr>fl_catalog := C\<rparr>"
  have x: "sc_active_version ?x = v" "sc_active_epoch ?x = sc_active_epoch x + 1" "sc_active_digest ?x = d" "sc_status ?x = Sch_active"
    "sc_migration_id ?x = None" by (simp_all add: activate_state_def t)
  have R: "cs_routing C = cs_routing (fl_catalog F)" and O: "cs_operations C = cs_operations (fl_catalog F)"
    using assms(8) by (simp_all add: same_topology_def)
  have "conforms sha256 ?x (fl_shards F s)" if "s \<in> set (fleet_ids F)" for s
  proof -
    have "s \<in> cr_shardId ` set (cs_shards (fl_catalog F))" using rows assms(2) that by (auto simp: rows_ok_def)
    then obtain r where r: "r \<in> set (cs_shards (fl_catalog F))" "cr_shardId r = s" by auto
    then have "finished x (fl_shards F s)" using rows assms(3,4) by (auto simp: rows_ok_def)
    then show ?thesis by (auto simp: finished_def conforms_def upgraded_to_def t x same_triple_def split: option.splits)
  qed
  moreover have old: "sr_targetEpoch p \<le> sc_active_epoch x" if "(s, p) \<in> set (fl_provisions F) \<union> set (fl_provisioned F)" for s p
    using assms(1) that by (auto simp: fleet_ok_def provisions_ok_def provision_ok_def)
  then have "follows ?x ?F s \<Longrightarrow> s \<in> set (fleet_ids F)" for s by (force simp: follows_def x R)
  moreover have "cs_shards C = []" using rows assms(3) by (auto simp: assms(7) sql_delete_def filter_empty_conv rows_ok_def)
  then have "rows_ok ?x ?F" by (simp add: rows_ok_def x)
  moreover have "requests_ok ?x ?F"
    using assms(1) by (fastforce simp: requests_ok_def fleet_ok_def x R stale_request_def current_request_def t)
  moreover have "answers_ok ?x ?F" by (auto simp: answers_ok_def x)
  moreover have "provisions_ok ?x ?F" using assms(1) old by (fastforce simp: fleet_ok_def provisions_ok_def provision_ok_def x)
  moreover have "leases_schema (schema_view ?x) (cs_operations (fl_catalog F))"
    using assms(1,2) by (fastforce simp: fleet_ok_def topology_ok_def leases_schema_def lease_schema_def schema_view_def x)
  then have "topology_ok ?x ?F" using assms(1)
    by (auto simp: fleet_ok_def topology_ok_def topology_view_def R O intro: catalog_inv_rest [THEN iffD1, rotated 3])
  ultimately show ?thesis using assms(5,6) by (simp add: fleet_ok_def catalog_state_ok_def change_id_ok_def x)
qed

section \<open>Movements\<close>

lemma view_rest [simp]:
  "fst (topology_view x F) = cs_routing (fl_catalog F)" "cat_operations (snd (topology_view x F)) = cs_operations (fl_catalog F)"
  "cat_schema (snd (topology_view x F)) = schema_view x"
  by (simp_all add: topology_view_def)

lemma view_with_topology: "catalog_inv c \<Longrightarrow> catalog_inv (topology_view x (with_topology F c))"
  by (cases c) (simp add: topology_view_def with_topology_def catalog_inv_def)

lemma fleet_ok_with_topology:
  assumes "fleet_ok sha256 x F" and "catalog_inv c" and "leases_schema (schema_view x) (cat_operations (snd c))"
    and "listShardIds (fst c) = fleet_ids F \<or>
      sc_status x = Sch_active \<and> (\<forall>s \<in> set (listShardIds (fst c)). s \<in> set (fleet_ids F) \<or> conforms sha256 x (fl_shards F s))"
  shows "fleet_ok sha256 x (with_topology F c)"
proof -
  let ?F = "with_topology F c"
  have F: "cs_state (fl_catalog ?F) = cs_state (fl_catalog F)" "cs_shards (fl_catalog ?F) = cs_shards (fl_catalog F)" "fl_shards ?F = fl_shards F"
    "fl_requests ?F = fl_requests F" "fl_answers ?F = fl_answers F" "fl_provisions ?F = fl_provisions F" "fl_provisioned ?F = fl_provisioned F"
    "fleet_ids ?F = listShardIds (fst c)" "cs_operations (fl_catalog ?F) = cat_operations (snd c)"
    by (simp_all add: with_topology_def)
  have top: "topology_ok x ?F" using view_with_topology [OF assms(2)] assms(3) by (simp add: topology_ok_def F)
  show ?thesis
  proof (cases "listShardIds (fst c) = fleet_ids F")
    case True
    then show ?thesis using assms(1) top by (simp add: fleet_parts F)
  next
    case False
    then have x: "sc_status x = Sch_active"
      and new: "\<And>s. s \<in> set (listShardIds (fst c)) \<Longrightarrow> s \<in> set (fleet_ids F) \<or> conforms sha256 x (fl_shards F s)" using assms(4) by blast+
    note none = active_no_rows [OF assms(1) x]
    have "conforms sha256 x (fl_shards F s)" if "follows x ?F s" for s
      using that assms(1) new by (auto simp: fleet_ok_def follows_def F)
    moreover have "rows_ok x ?F" by (simp add: rows_ok_def F none x)
    moreover have "requests_ok x ?F" using assms(1) x by (auto simp: fleet_ok_def requests_ok_def F current_request_def)
    moreover have "answers_ok x ?F" by (auto simp: answers_ok_def F none)
    moreover have "provisions_ok x ?F" using assms(1) by (simp add: fleet_ok_def provisions_ok_def F)
    ultimately show ?thesis using assms(1) top by (simp add: fleet_ok_def F)
  qed
qed

lemma lease_provision_ok: "lease_schema (schema_view x) r \<Longrightarrow> provision_ok x (destination_request r)"
  by (simp add: lease_schema_def schema_view_def provision_ok_def destination_request_def destination_id_def)

lemma fleet_ok_cutover:
  assumes "fleet_ok sha256 x F" and "catalog_cutover args e g now (topology_view x F) = (q, c)" and "destination_provisioned (req_migId args) F"
  shows "fleet_ok sha256 x (with_topology F c)"
proof -
  let ?v = "topology_view x F"
  have inv: "catalog_inv (fst ?v, snd ?v)" and leases: "leases_schema (schema_view x) (cs_operations (fl_catalog F))"
    using assms(1) by (simp_all add: fleet_ok_def topology_ok_def del: view_rest(1))
  have run: "catalog_cutover args e g now (fst ?v, snd ?v) = (q, fst c, snd c)" using assms(2) by (simp only: prod.collapse)
  note C = cutover_shards [OF run inv, unfolded view_rest]
  have "listShardIds (fst c) = fleet_ids F \<or>
      sc_status x = Sch_active \<and> (\<forall>s \<in> set (listShardIds (fst c)). s \<in> set (fleet_ids F) \<or> conforms sha256 x (fl_shards F s))"
  proof (cases "listShardIds (fst c) = fleet_ids F")
    case False
    then obtain r where sub: "set (listShardIds (fst c)) \<subseteq> insert (req_toShard args) (set (fleet_ids F))"
      and r: "op_read (req_migId args) (cs_operations (fl_catalog F)) = Some r" "op_status r = Op_active" "op_destinationShard r = req_toShard args"
      using C(2) by blast
    have "r \<in> set (cs_operations (fl_catalog F))" using r(1) by (auto simp: op_read_def dest: sql_one_SomeD)
    then have L: "lease_schema (schema_view x) r" using leases by (simp add: leases_schema_def)
    then have x: "sc_status x = Sch_active" "op_schemaEpoch r = sc_active_epoch x" using r(2) by (simp_all add: lease_schema_def schema_view_def)
    have "(req_toShard args, destination_request r) \<in> set (fl_provisioned F)" using assms(3) r by (simp add: destination_provisioned_def)
    then have "follows x F (req_toShard args)" using x by (auto simp: follows_def destination_request_def)
    then have "conforms sha256 x (fl_shards F (req_toShard args))" using assms(1) by (simp add: fleet_ok_def)
    then show ?thesis using sub x(1) by blast
  qed simp
  then show ?thesis using C(1) leases by (intro fleet_ok_with_topology [OF assms(1)]) simp_all
qed

lemma fleet_ok_topology:
  assumes "fleet_ok sha256 x F" and "topology_call (topology_view x F) c"
  shows "fleet_ok sha256 x (with_topology F c)"
proof -
  let ?v = "topology_view x F"
  have "topology_call (fst ?v, snd ?v) (fst c, snd c)" using assms(2) by (simp only: prod.collapse)
  moreover have "catalog_inv (fst ?v, snd ?v)" "leases_schema (cat_schema (snd ?v)) (cat_operations (snd ?v))"
    using assms(1) by (simp_all add: fleet_ok_def topology_ok_def del: view_rest(1))
  ultimately have "catalog_inv (fst c, snd c) \<and> listShardIds (fst c) = listShardIds (fst ?v) \<and>
      leases_schema (cat_schema (snd ?v)) (cat_operations (snd c))" by (rule topology_call_keeps)
  then show ?thesis by (intro fleet_ok_with_topology [OF assms(1)]) simp_all
qed

section \<open>Reachable fleets\<close>

lemma rows_ok_update:
  assumes "rows_ok x F" and "cs_routing C = cs_routing (fl_catalog F)" and "cs_shards C = sql_update p f (cs_shards (fl_catalog F))"
    and "\<And>r. cr_migrationId (f r) = cr_migrationId r \<and> cr_shardId (f r) = cr_shardId r"
    and "\<And>r. r \<in> set (cs_shards (fl_catalog F)) \<Longrightarrow> p r \<Longrightarrow> cr_status (f r) = Shd_active \<Longrightarrow> finished x (fl_shards F (cr_shardId r))"
  shows "rows_ok x (F\<lparr>fl_catalog := C\<rparr>)"
proof -
  have "map cr_shardId (sql_update p f t) = map cr_shardId t" for t using assms(4) by (simp add: sql_update_def)
  then have "cr_shardId ` set (sql_update p f t) = cr_shardId ` set t" for t by (metis list.set_map)
  moreover have "\<exists>r0 \<in> set (cs_shards (fl_catalog F)). cr_migrationId r = cr_migrationId r0 \<and> cr_shardId r = cr_shardId r0 \<and>
      (cr_status r = Shd_active \<longrightarrow> cr_status r0 = Shd_active \<or> finished x (fl_shards F (cr_shardId r0)))"
    if "r \<in> set (cs_shards C)" for r
    using that assms(4,5) by (auto simp: assms(3) sql_update_def split: if_splits)
  ultimately show ?thesis using assms(1) unfolding rows_ok_def by (fastforce simp: assms(2,3))
qed

lemma fleet_ok_messages:
  assumes "fleet_ok sha256 x F"
  shows "current_request x a \<Longrightarrow> s \<in> set (fleet_ids F) \<Longrightarrow> fleet_ok sha256 x (F\<lparr>fl_requests := (s, b, a) # fl_requests F\<rparr>)"
    and "provision_ok x p \<Longrightarrow> fleet_ok sha256 x (F\<lparr>fl_provisions := (s, p) # fl_provisions F\<rparr>)"
    and "set rs \<subseteq> set (fl_requests F) \<Longrightarrow> set as \<subseteq> set (fl_answers F) \<Longrightarrow> set ps \<subseteq> set (fl_provisions F) \<Longrightarrow>
      fleet_ok sha256 x (F\<lparr>fl_requests := rs, fl_answers := as, fl_provisions := ps\<rparr>)"
  using assms by (simp_all add: fleet_parts topology_ok_def topology_view_def) (blast | fastforce)+

lemma fleet_inv_step:
  assumes "fleet_step sha256 F F'" and "fleet_inv sha256 F"
  shows "fleet_inv sha256 F'"
proof -
  obtain x where ok: "fleet_ok sha256 x F" using assms(2) by (auto simp: fleet_inv_def)
  then have x: "cs_state (fl_catalog F) = Some x" "catalog_state_ok x" and rows: "rows_ok x F" by (simp_all add: fleet_ok_def)
  have conf: "conforms sha256 x (fl_shards F s)" if "follows x F s" for s using ok that by (simp add: fleet_ok_def)
  have "\<exists>x'. fleet_ok sha256 x' F'" using assms(1)
  proof cases
    case (fleet_boot K s b T)
    have "fleet_ok sha256 x (on_shard F s T)" using conforms_boot [OF conf x(2) fleet_boot(2)] by (rule fleet_ok_on_shard [OF ok])
    then show ?thesis using fleet_boot(1) by blast
  next
    case (fleet_begin J m t bl now xs C)
    from fleet_begin(2) x(1) show ?thesis
    proof (cases rule: begin_effect)
      case same
      then show ?thesis using ok by (auto simp: fleet_begin(1))
    next
      case (begun d)
      moreover have "sc_status (start_migrating m t d x) = Sch_migrating" by (simp add: start_migrating_def)
      ultimately have "C \<noteq> fl_catalog F" using x(1) begun(1) by force
      then have "fresh_change m F" using fleet_begin(3) by blast
      from fleet_ok_begin [OF ok this begun] show ?thesis using fleet_begin(1) by blast
    qed
  next
    case (fleet_baseline_request m s g a)
    note R = request_effect [OF fleet_baseline_request(2) x(1), of g a, simplified]
    have "s \<in> set (fleet_ids F)" using rows R(4) by (auto simp: rows_ok_def)
    then show ?thesis using fleet_ok_messages(1) [OF ok R(1)] fleet_baseline_request(1) by blast
  next
    case (fleet_migrate_request m s g a)
    note R = request_effect [OF fleet_migrate_request(2) x(1), of g a, simplified]
    have "s \<in> set (fleet_ids F)" using rows R(4) by (auto simp: rows_ok_def)
    then show ?thesis using fleet_ok_messages(1) [OF ok R(1)] fleet_migrate_request(1) by blast
  next
    case (fleet_prepare s a K y T)
    then show ?thesis using fleet_ok_call_steps(1) [OF ok] by blast
  next
    case (fleet_apply s a exec bef aft v K now y T)
    then show ?thesis using fleet_ok_call_steps(2) [OF ok] by blast
  next
    case (fleet_activate s a K rec y T)
    then show ?thesis using fleet_ok_call_steps(3) [OF ok] by blast
  next
    case (fleet_baseline s a K rec aft y T)
    then show ?thesis using fleet_ok_call_steps(4) [OF ok] by blast
  next
    case (fleet_end m s g now r C)
    note E = end_effect [OF fleet_end(3)]
    have "rows_ok x (F\<lparr>fl_catalog := C\<rparr>)"
    proof (rule rows_ok_update [OF rows, where p = "pending_schema_shard m s" and f = "\<lambda>r. r\<lparr>cr_status := Shd_active, cr_lastError := None, cr_updatedAt := now\<rparr>"])
      fix r assume "r \<in> set (cs_shards (fl_catalog F))" "pending_schema_shard m s r"
      then show "finished x (fl_shards F (cr_shardId r))" using ok rows fleet_end(2)
        by (auto simp: fleet_ok_def rows_ok_def answers_ok_def pending_schema_shard_def shard_row_key_def)
    qed (simp_all add: E)
    then have "fleet_ok sha256 x F'" using fleet_ok_rows [OF ok, of C] by (simp add: E fleet_end(1) same_topology_def)
    then show ?thesis by blast
  next
    case (fleet_failed m s message now C)
    then obtain l where E: "C = (fl_catalog F)\<lparr>cs_shards := sql_update (pending_schema_shard m s) (\<lambda>r. r\<lparr>cr_lastError := l, cr_updatedAt := now\<rparr>) (cs_shards (fl_catalog F))\<rparr>"
      by (blast elim: failed_effect)
    have "rows_ok x (F\<lparr>fl_catalog := C\<rparr>)"
      by (rule rows_ok_update [OF rows, where p = "pending_schema_shard m s" and f = "\<lambda>r. r\<lparr>cr_lastError := l, cr_updatedAt := now\<rparr>"])
        (simp_all add: E pending_schema_shard_def)
    then have "fleet_ok sha256 x F'" using fleet_ok_rows [OF ok, of C] by (simp add: E fleet_failed(1) same_topology_def)
    then show ?thesis by blast
  next
    case (fleet_catalog_step exec J m v now xs C)
    note E = step_effect [OF fleet_catalog_step(2)]
    have "fleet_ok sha256 x F'" using fleet_ok_rows [OF ok, of C] E rows by (simp add: fleet_catalog_step(1) rows_ok_def same_topology_def)
    then show ?thesis by blast
  next
    case (fleet_complete J m rec xs C)
    from fleet_complete(2) x(1) show ?thesis
    proof (cases rule: complete_effect)
      case same
      then have "F' = F" by (simp add: fleet_complete(1))
      then show ?thesis using ok by blast
    next
      case completed
      from fleet_ok_complete [OF ok completed] show ?thesis using fleet_complete(1) by blast
    qed
  next
    case (fleet_topology x' c)
    then have "fleet_ok sha256 x F'" using fleet_ok_topology [OF ok, of c] x(1) by simp
    then show ?thesis by blast
  next
    case (fleet_cutover x' args e g now q c)
    then have "fleet_ok sha256 x F'" using fleet_ok_cutover [OF ok, of args e g now q c] x(1) by simp
    then show ?thesis by blast
  next
    case (fleet_provision_request m r)
    have "r \<in> set (cs_operations (fl_catalog F))" using fleet_provision_request(2) by (auto simp: op_read_def dest: sql_one_SomeD)
    then have "provision_ok x (destination_request r)" using ok by (intro lease_provision_ok) (simp add: fleet_ok_def topology_ok_def leases_schema_def)
    then show ?thesis using fleet_ok_messages(2) [OF ok] fleet_provision_request(1) by blast
  next
    case (fleet_provision s p exec K fresh rec replay now y T)
    then show ?thesis using fleet_ok_provision [OF ok] by blast
  next
    case (fleet_lost rs as ps)
    then show ?thesis using fleet_ok_messages(3) [OF ok] by blast
  next
    case (fleet_other R n)
    have "topology_ok x F'" using ok topology_ok_same [of F F' x x] by (simp add: fleet_other fleet_ok_def same_topology_def)
    then have "fleet_ok sha256 x F'" using ok by (simp add: fleet_other fleet_parts)
    then show ?thesis by blast
  qed
  then show ?thesis by (simp add: fleet_inv_def)
qed

lemma fleet_inv_new:
  assumes "initializeCatalogStorage sha256 J (new_catalog_schema c initial_routing) = Inr (x, C)"
  shows "fleet_inv sha256 (new_fleet C sc v d0)"
proof -
  obtain d where d: "migrationDigestAt sha256 J 0 = Inr d" and C: "cs_state C = Some x" "cs_shards C = []" "sc_active_version x = 0" "sc_active_epoch x = 1"
    "sc_active_digest x = d" "sc_status x = Sch_active" "sc_migration_id x = None" "schema_state_check x" "cs_routing C = initial_routing" "cs_operations C = []"
    using assms by (auto simp: initializeCatalogStorage_def new_catalog_schema_def Let_def catalog_Inr schema_state_check_def)
  then have "d = stableHashHex sha256 (prefix_json [])" by (auto simp: migrationDigestAt_def rbind_eq_Inr)
  moreover have "topology_ok x (new_fleet C sc v d0)"
    using initial_catalog_inv [of sc v] C by (simp add: topology_ok_def topology_view_def new_fleet_def leases_schema_def initial_catalog_def catalog_inv_def)
  ultimately have "fleet_ok sha256 x (new_fleet C sc v d0)" using C
    by (simp add: fleet_ok_def follows_def new_fleet_def catalog_state_ok_def conforms_def new_schema_tables_def rows_ok_def requests_ok_def answers_ok_def
      provisions_ok_def change_id_ok_def)
  then show ?thesis by (auto simp: fleet_inv_def)
qed

lemma fleet_reachable:
  assumes "(fleet_step sha256)\<^sup>*\<^sup>* (new_fleet C0 sc v d0) F"
    and "initializeCatalogStorage sha256 J (new_catalog_schema c initial_routing) = Inr (x0, C0)"
  shows "fleet_inv sha256 F"
  using assms(1) by (induction rule: rtranclp_induct) (use fleet_inv_new [OF assms(2)] in \<open>blast intro: fleet_inv_step\<close>)+

section \<open>Agreement\<close>

text \<open>
  C1. The Catalog and its shards agree on the schema. Start from a Catalog that has booted for the first time and shards that have
  not, and let any of the steps follow: schema changes by migration or by baseline, begun, driven, retried, failed and completed;
  range movements through the Catalog's topology methods, with the destination provisioned by the movement's driver at the schema of
  its lease and the cutover of the routing table; the calls on the shards and their answers delayed, repeated and lost, past the end
  of their change or movement; Workers of any deployment on each side. Then a shard that owns a range is never at an
  earlier epoch than the Catalog and never more than one ahead, at the same epoch it has the same version and digest, and while no
  change runs every such shard is active at exactly the Catalog's version, epoch and digest. Two rules of the steps are not checks
  of the Catalog: a new change takes an id that cannot be confused with an earlier one (\<open>fresh_change\<close>: not of the form of a
  provisioning id, not the id of a message still on its way, not the last id of a shard that owns a range), and a cutover is asked
  for only after the destination answered the provisioning request of the lease, as the driver's program order has it
  (\<open>destination_provisioned\<close>). Point-in-time restores, which set the objects back, are not among the steps.
\<close>

theorem fleet_schema_agreement:
  assumes "(fleet_step sha256)\<^sup>*\<^sup>* (new_fleet C0 sc v d0) F"
    and "initializeCatalogStorage sha256 J (new_catalog_schema c initial_routing) = Inr (x0, C0)"
    and "cs_state (fl_catalog F) = Some x" and "s \<in> set (listShardIds (cs_routing (fl_catalog F)))" and "st_state (fl_shards F s) = Some y"
  shows "sc_active_epoch x \<le> sc_active_epoch y \<and> sc_active_epoch y \<le> sc_active_epoch x + 1 \<and>
    (sc_active_epoch y = sc_active_epoch x \<longrightarrow> same_triple x y) \<and> (sc_status x = Sch_active \<longrightarrow> sc_status y = Sch_active \<and> same_triple x y)"
proof -
  obtain x' where ok: "fleet_ok sha256 x' F" using fleet_reachable [OF assms(1,2)] by (auto simp: fleet_inv_def)
  then have "x' = x" using assms(3) by (simp add: fleet_ok_def)
  with ok assms(4) have conf: "conforms sha256 x (fl_shards F s)" and x: "catalog_state_ok x" by (simp_all add: fleet_ok_def follows_def)
  from conf assms(5) show ?thesis
  proof (cases rule: conforms_cases)
    case arrived
    then show ?thesis using x by (simp add: upgraded_to_def catalog_state_ok_def)
  qed (auto simp: on_the_way_def same_triple_def)
qed

text \<open>A range is moved to a new shard at the first version: boots, a lease, the provisioning of the destination and the cutover.\<close>

definition first_sha :: "nat list \<Rightarrow> nat list" where "first_sha = (\<lambda>_. replicate 32 170)"

definition first_journal :: ChardbMigrationJournal where
  "first_journal = \<lparr> jn_version = 0, jn_digest = replicate 64 (CHR ''a''), jn_migrations = [] \<rparr>"

definition first_state :: StoredCdbSchemaState where
  "first_state = \<lparr> sc_active_version = 0, sc_active_epoch = 1, sc_active_digest = replicate 64 (CHR ''a''), sc_last_migration_id = None,
     sc_status = Sch_active, sc_migration_id = None, sc_target_version = None, sc_target_epoch = None, sc_target_digest = None \<rparr>"

definition first_catalog :: "unit catalog_schema" where
  "first_catalog = (new_catalog_schema () initial_routing)\<lparr>cs_state := Some first_state\<rparr>"

definition first_tables :: "string option \<Rightarrow> string list schema_tables" where
  "first_tables lid = \<lparr> st_state = Some (first_state\<lparr>sc_last_migration_id := lid\<rparr>), st_steps = [], st_domain = [] \<rparr>"

definition first_request :: CdbSchemaTargetRequest where
  "first_request = \<lparr> sr_migrationId = ''reshard-dest:m1'', sr_targetVersion = 0, sr_targetEpoch = 1, sr_targetDigest = replicate 64 (CHR ''a'') \<rparr>"

definition first_cut :: catalog where
  "first_cut = snd (catalog_cutover demo_cutover None 0 20 claimed)"

lemma first_digest: "migrationDigestAt first_sha first_journal 0 = Inr (replicate 64 (CHR ''a''))"
  by code_simp

lemma first_boot:
  "initializeCatalogStorage first_sha first_journal (new_catalog_schema () initial_routing) = Inr (first_state, first_catalog)"
  "schema_initialize first_sha first_journal (new_schema_tables []) = Inr (True, first_tables None)"
  using first_digest
  by (simp_all add: initializeCatalogStorage_def schema_initialize_def new_schema_tables_def new_catalog_schema_def readCatalogSchemaState_def
    assertPackagedSchemaState_def first_journal_def first_catalog_def first_tables_def first_state_def Let_def ensure_def)

lemma first_provision:
  "provisionFresh first_sha (\<lambda>_. Inr) first_request first_journal (\<lambda>_. Inr ()) Inr Inr 15 (first_tables None) =
     Inr (first_state\<lparr>sc_last_migration_id := Some ''reshard-dest:m1''\<rparr>, first_tables (Some ''reshard-dest:m1''))"
  by code_simp

lemma first_lease:
  "case op_read ''m1'' (cat_operations (snd claimed)) of None \<Rightarrow> False | Some r \<Rightarrow> op_destinationShard r = ''s1'' \<and> destination_request r = first_request"
  "list_all (\<lambda>s. s \<in> set [''ShardDO_0'', ''s1'']) (listShardIds (fst first_cut)) \<and> ''s1'' \<in> set (listShardIds (fst first_cut))"
  "cat_admission (snd claimed) = initial_admission" "cat_schema (snd claimed) = demo_schema"
  by code_simp+

lemma fleet_schema_agreement_witness:
  "\<exists>F y. (fleet_step first_sha)\<^sup>*\<^sup>* (new_fleet first_catalog demo_schema 0 (\<lambda>_. [] :: string list)) F \<and> cs_state (fl_catalog F) = Some first_state \<and>
     ''s1'' \<in> set (listShardIds (cs_routing (fl_catalog F))) \<and> st_state (fl_shards F ''s1'') = Some y \<and> same_triple first_state y"
proof -
  let ?step = "fleet_step first_sha" and ?F0 = "new_fleet first_catalog demo_schema 0 (\<lambda>_. []) :: (unit, string list) fleet"
  let ?F1 = "on_shard ?F0 ''ShardDO_0'' (first_tables None)"
  let ?F2 = "on_shard ?F1 ''s1'' (first_tables None)"
  let ?F3 = "with_topology ?F2 claimed"
  let ?F4 = "?F3\<lparr>fl_provisions := [(''s1'', first_request)]\<rparr>"
  let ?F5 = "(on_shard ?F4 ''s1'' (first_tables (Some ''reshard-dest:m1'')))\<lparr>fl_provisioned := [(''s1'', first_request)]\<rparr>"
  let ?F6 = "with_topology ?F5 first_cut"
  have state: "schema_view first_state = demo_schema" by (simp add: schema_view_def first_state_def demo_schema_def)
  obtain r where r: "op_read ''m1'' (cat_operations (snd claimed)) = Some r" "op_destinationShard r = ''s1''" "destination_request r = first_request"
    using first_lease(1) by (auto split: option.splits)
  have "?step ?F0 ?F1" "?step ?F1 ?F2"
    using first_boot(2) by (intro fleet_boot; simp add: new_fleet_def on_shard_def)+
  moreover have "?step ?F2 ?F3"
  proof (rule fleet_topology)
    have "topology_view first_state ?F2 = initial_catalog demo_schema 0"
      by (simp add: topology_view_def on_shard_def new_fleet_def first_catalog_def new_catalog_schema_def initial_catalog_def state)
    then show "topology_call (topology_view first_state ?F2) claimed"
      unfolding claimed_def by (metis call_begin_derived prod.collapse)
  qed (simp add: on_shard_def new_fleet_def first_catalog_def)
  moreover have "?step ?F3 ?F4"
    using fleet_provision_request [of "''m1''" ?F3 r first_sha] r by (simp add: with_topology_def on_shard_def new_fleet_def)
  moreover have "?step ?F4 ?F5"
    using fleet_provision [of "''s1''" first_request ?F4 first_sha "\<lambda>_. Inr" first_journal "\<lambda>_. Inr ()" Inr Inr 15] first_provision
    by (simp add: with_topology_def on_shard_def new_fleet_def)
  moreover have "?step ?F5 ?F6"
  proof (rule fleet_cutover)
    have "topology_view first_state ?F5 = claimed"
      using first_lease(3,4)
      by (simp add: topology_view_def with_topology_def on_shard_def new_fleet_def first_catalog_def new_catalog_schema_def state prod_eq_iff)
    then show "catalog_cutover demo_cutover None 0 20 (topology_view first_state ?F5) = (fst (catalog_cutover demo_cutover None 0 20 claimed), first_cut)"
      by (simp add: first_cut_def)
    show "destination_provisioned (req_migId demo_cutover) ?F5"
      using r by (simp add: destination_provisioned_def demo_cutover_def with_topology_def on_shard_def)
  qed (simp add: with_topology_def on_shard_def new_fleet_def first_catalog_def)
  ultimately have reach: "?step\<^sup>*\<^sup>* ?F0 ?F6" by (meson converse_rtranclp_into_rtranclp r_into_rtranclp)
  have F: "cs_state (fl_catalog ?F6) = Some first_state" "''s1'' \<in> set (listShardIds (cs_routing (fl_catalog ?F6)))"
    "st_state (fl_shards ?F6 ''s1'') = Some (first_state\<lparr>sc_last_migration_id := Some ''reshard-dest:m1''\<rparr>)"
    using first_lease(2) by (simp_all add: with_topology_def on_shard_def new_fleet_def first_catalog_def first_tables_def)
  have "sc_status first_state = Sch_active" by (simp add: first_state_def)
  then have "same_triple first_state (first_state\<lparr>sc_last_migration_id := Some ''reshard-dest:m1''\<rparr>)"
    using fleet_schema_agreement [OF reach first_boot(1) F] by blast
  with reach F show ?thesis by blast
qed

end
