(* ===== verification/Recovery_Continuation.thy ===== *)
theory Recovery_Continuation
  imports Oplog Json_Limits Recovery_Restore
begin

text \<open>
  The cursor of a restore that spans many requests, \<^verbatim>\<open>src/src/server/recovery-continuation.ts\<close>: how it is printed, how a stored one
  is read back, and how the one that travels to the administrator is signed and verified. The request bodies are JSON
  values (\<open>exactAdminObject\<close> of \<^verbatim>\<open>src/src/server/admin-http.ts\<close> reads their own properties). HMAC is an argument.
\<close>

section \<open>Cursors\<close>

definition RECOVERY_CONTINUATION_FORMAT :: string where "RECOVERY_CONTINUATION_FORMAT = ''chardb-recovery-continuation/v1''"
definition MAX_RECOVERY_SHARDS :: int where "MAX_RECOVERY_SHARDS = 16384"
definition MAX_CURSOR_BYTES :: nat where "MAX_CURSOR_BYTES = 256"

datatype (plugins only: code) continuation_kind = Kind_restore | Kind_reconcile
datatype (plugins only: code) restore_phase = Rp_arm | Rp_quiescence | Rp_retention | Rp_vectors | Rp_files | Rp_commit
datatype (plugins only: code) reconcile_phase = Cp_files | Cp_vectors | Cp_settle

record RestoreCursor =
  rs_phase :: restore_phase
  rs_shardIndex :: int
  rs_afterRetainedFileId :: string
  rs_afterVectorId :: string
  rs_afterPhysicalVersion :: int
  rs_files :: int
  rs_filePages :: int
  rs_filesRetained :: int
  rs_retentionPages :: int
  rs_quiescenceTurns :: int
  rs_vectors :: int
  rs_vectorPages :: int
  rs_commitPolls :: int

record ReconcileCursor =
  cs_phase :: reconcile_phase
  cs_shardIndex :: int
  cs_afterFileId :: string
  cs_afterCreatedSeq :: int
  cs_filesRehydrated :: int
  cs_filePages :: int
  cs_vectorsRequeued :: int
  cs_vectorPages :: int
  cs_settleTurns :: int
  cs_nowMs :: int

definition restore_phase_name :: "restore_phase \<Rightarrow> string" where
  "restore_phase_name p = (case p of Rp_arm \<Rightarrow> ''arm'' | Rp_quiescence \<Rightarrow> ''quiescence'' | Rp_retention \<Rightarrow> ''retention''
     | Rp_vectors \<Rightarrow> ''vectors'' | Rp_files \<Rightarrow> ''files'' | Rp_commit \<Rightarrow> ''commit'')"

definition reconcile_phase_name :: "reconcile_phase \<Rightarrow> string" where
  "reconcile_phase_name p = (case p of Cp_files \<Rightarrow> ''files'' | Cp_vectors \<Rightarrow> ''vectors'' | Cp_settle \<Rightarrow> ''settle'')"

text \<open>A cursor as the JSON value it is, its properties in the order the code writes them.\<close>

definition restore_json :: "RestoreCursor \<Rightarrow> json" where
  "restore_json s = JObj [(''kind'', JStr ''restore''), (''phase'', JStr (restore_phase_name (rs_phase s))), (''shardIndex'', JNum (rs_shardIndex s)),
     (''afterRetainedFileId'', JStr (rs_afterRetainedFileId s)), (''afterVectorId'', JStr (rs_afterVectorId s)),
     (''afterPhysicalVersion'', JNum (rs_afterPhysicalVersion s)), (''files'', JNum (rs_files s)), (''filePages'', JNum (rs_filePages s)),
     (''filesRetained'', JNum (rs_filesRetained s)), (''retentionPages'', JNum (rs_retentionPages s)),
     (''quiescenceTurns'', JNum (rs_quiescenceTurns s)), (''vectors'', JNum (rs_vectors s)), (''vectorPages'', JNum (rs_vectorPages s)),
     (''commitPolls'', JNum (rs_commitPolls s))]"

definition reconcile_json :: "ReconcileCursor \<Rightarrow> json" where
  "reconcile_json s = JObj [(''kind'', JStr ''reconcile''), (''phase'', JStr (reconcile_phase_name (cs_phase s))), (''shardIndex'', JNum (cs_shardIndex s)),
     (''afterFileId'', JStr (cs_afterFileId s)), (''afterCreatedSeq'', JNum (cs_afterCreatedSeq s)),
     (''filesRehydrated'', JNum (cs_filesRehydrated s)), (''filePages'', JNum (cs_filePages s)), (''vectorsRequeued'', JNum (cs_vectorsRequeued s)),
     (''vectorPages'', JNum (cs_vectorPages s)), (''settleTurns'', JNum (cs_settleTurns s)), (''nowMs'', JNum (cs_nowMs s))]"

section \<open>Reading\<close>

text \<open>Exactly the given keys, projected in sorted order.\<close>

definition exactAdminObject :: "json \<Rightarrow> string list \<Rightarrow> props res" where
  "exactAdminObject v keys = (case v of
       JObj ps \<Rightarrow>
         (let actual = sort (map fst ps) in
          rbind (ensure (actual = sort keys) TypeError) (\<lambda>_. Inr (build_obj (map (\<lambda>k. (k, the (map_of ps k))) actual))))
     | _ \<Rightarrow> Inl TypeError)"

definition field :: "props \<Rightarrow> string \<Rightarrow> json" where
  "field ps k = (case map_of ps k of None \<Rightarrow> JNull | Some v \<Rightarrow> v)"

text \<open>\<open>String(value)\<close> of a JSON value; \<open>Array.prototype.join\<close> prints null as nothing.\<close>

fun comma_separated :: "string list \<Rightarrow> string" where
  "comma_separated [] = []"
| "comma_separated [s] = s"
| "comma_separated (s # ss) = s @ '','' @ comma_separated ss"

fun js_String :: "json \<Rightarrow> string" where
  "js_String JNull = ''null''"
| "js_String (JBool b) = (if b then ''true'' else ''false'')"
| "js_String (JNum n) = decimal n"
| "js_String (JStr s) = s"
| "js_String (JArr vs) = comma_separated (map (\<lambda>v. if v = JNull then [] else js_String v) vs)"
| "js_String (JObj ps) = ''[object Object]''"

definition validRecoveryIndex :: "json \<Rightarrow> bool" where
  "validRecoveryIndex v \<longleftrightarrow> (case v of JNum n \<Rightarrow> safe_integer n \<and> 0 \<le> n \<and> n \<le> MAX_RECOVERY_SHARDS | _ \<Rightarrow> False)"

definition validRecoveryCount :: "json \<Rightarrow> bool" where
  "validRecoveryCount v \<longleftrightarrow> (case v of JNum n \<Rightarrow> safe_integer n \<and> 0 \<le> n | _ \<Rightarrow> False)"

definition validCursor :: "json \<Rightarrow> bool" where
  "validCursor v \<longleftrightarrow> (case v of JStr s \<Rightarrow> length (utf8 s) \<le> MAX_CURSOR_BYTES | _ \<Rightarrow> False)"

definition parse_restore :: "json \<Rightarrow> props res" where
  "parse_restore v =
     rbind (exactAdminObject v [''afterRetainedFileId'', ''afterPhysicalVersion'', ''afterVectorId'', ''commitPolls'', ''files'', ''filePages'',
       ''filesRetained'', ''kind'', ''phase'', ''quiescenceTurns'', ''retentionPages'', ''shardIndex'', ''vectors'', ''vectorPages'']) (\<lambda>state.
     rbind (ensure (field state ''kind'' = JStr ''restore'' \<and>
       js_String (field state ''phase'') \<in> set [''arm'', ''quiescence'', ''retention'', ''vectors'', ''files'', ''commit''] \<and>
       validRecoveryIndex (field state ''shardIndex'') \<and>
       list_all (\<lambda>k. validCursor (field state k)) [''afterRetainedFileId'', ''afterVectorId''] \<and>
       list_all (\<lambda>k. validRecoveryCount (field state k)) [''afterPhysicalVersion'', ''commitPolls'', ''files'', ''filePages'', ''filesRetained'',
         ''quiescenceTurns'', ''retentionPages'', ''vectors'', ''vectorPages'']) TypeError) (\<lambda>_. Inr state))"

definition parse_reconcile :: "json \<Rightarrow> props res" where
  "parse_reconcile v =
     rbind (exactAdminObject v [''afterCreatedSeq'', ''afterFileId'', ''filesRehydrated'', ''filePages'', ''kind'', ''nowMs'', ''phase'', ''settleTurns'',
       ''shardIndex'', ''vectorsRequeued'', ''vectorPages'']) (\<lambda>state.
     rbind (ensure (field state ''kind'' = JStr ''reconcile'' \<and> js_String (field state ''phase'') \<in> set [''files'', ''vectors'', ''settle''] \<and>
       validRecoveryIndex (field state ''shardIndex'') \<and> validCursor (field state ''afterFileId'') \<and>
       list_all (\<lambda>k. validRecoveryCount (field state k)) [''afterCreatedSeq'', ''filesRehydrated'', ''filePages'', ''vectorsRequeued'', ''vectorPages'',
         ''settleTurns'', ''nowMs'']) TypeError) (\<lambda>_. Inr state))"

definition parseRecoveryContinuationState :: "json \<Rightarrow> continuation_kind \<Rightarrow> props res" where
  "parseRecoveryContinuationState v kind = (case kind of Kind_restore \<Rightarrow> parse_restore v | Kind_reconcile \<Rightarrow> parse_reconcile v)"

definition parseStoredRecoveryContinuationState :: "string \<Rightarrow> continuation_kind \<Rightarrow> props res" where
  "parseStoredRecoveryContinuationState value kind =
     rbind (ensure (2 \<le> length value \<and> length value \<le> 16384) TypeError) (\<lambda>_.
     rbind (JSON_parse value) (\<lambda>v. parseRecoveryContinuationState v kind))"

definition stableJson :: "json \<Rightarrow> string" where
  "stableJson v = stringify (canonicalize v)"

definition serializeRecoveryContinuationState :: "json \<Rightarrow> string" where
  "serializeRecoveryContinuationState state = stableJson state"

section \<open>Signing\<close>

record hmac =
  hm_sign :: "string \<Rightarrow> nat list \<Rightarrow> nat list"
  hm_verify :: "string \<Rightarrow> nat list \<Rightarrow> nat list \<Rightarrow> bool"

definition recoveryContinuationKey :: "string option \<Rightarrow> string res" where
  "recoveryContinuationKey token = (case token of None \<Rightarrow> Inl TypeError | Some t \<Rightarrow> rbind (ensure (t \<noteq> []) TypeError) (\<lambda>_. Inr t))"

definition unsigned_json :: "string \<Rightarrow> string \<Rightarrow> json \<Rightarrow> props" where
  "unsigned_json operationId digest state = [(''format'', JStr RECOVERY_CONTINUATION_FORMAT), (''operationId'', JStr operationId),
     (''recoveryPointDigest'', JStr digest), (''state'', state)]"

definition signRecoveryContinuation :: "hmac \<Rightarrow> string option \<Rightarrow> string \<Rightarrow> string \<Rightarrow> json \<Rightarrow> json res" where
  "signRecoveryContinuation h token operationId digest state =
     rbind (ensure (RECOVERY_OPERATION_ID operationId) TypeError) (\<lambda>_.
     rbind (recoveryContinuationKey token) (\<lambda>key.
     Inr (JObj (unsigned_json operationId digest state @
       [(''signature'', JStr (bytesToHex (hm_sign h key (utf8 (stableJson (JObj (unsigned_json operationId digest state)))))))]))))"

text \<open>\<open>Number.parseInt(value.slice(2 * i, 2 * i + 2), 16)\<close> of a text that matched \<open>DIGEST\<close>.\<close>

definition bytesFromHex :: "string \<Rightarrow> nat list" where
  "bytesFromHex value = hex_pairs value"

definition parseRecoveryContinuation :: "hmac \<Rightarrow> string option \<Rightarrow> string \<Rightarrow> string \<Rightarrow> json option \<Rightarrow> continuation_kind \<Rightarrow> props option res" where
  "parseRecoveryContinuation h token operationId digest value kind = (case value of
       None \<Rightarrow> Inr None
     | Some v \<Rightarrow>
         rbind (exactAdminObject v [''format'', ''operationId'', ''recoveryPointDigest'', ''signature'', ''state'']) (\<lambda>input.
         case field input ''signature'' of
           JStr signature \<Rightarrow>
             rbind (ensure (field input ''format'' = JStr RECOVERY_CONTINUATION_FORMAT \<and> field input ''operationId'' = JStr operationId \<and>
               field input ''recoveryPointDigest'' = JStr digest \<and> hex_digest signature) TypeError) (\<lambda>_.
             rbind (parseRecoveryContinuationState (field input ''state'') kind) (\<lambda>state.
             rbind (recoveryContinuationKey token) (\<lambda>key.
             rbind (ensure (hm_verify h key (bytesFromHex signature) (utf8 (stableJson (JObj (unsigned_json operationId digest (JObj state)))))) TypeError) (\<lambda>_.
             Inr (Some state)))))
         | _ \<Rightarrow> Inl TypeError))"

text \<open>The body of a request: the continuation is optional.\<close>

definition parseRecoveryOperationRequest :: "json \<Rightarrow> (string \<times> json \<times> json option) res" where
  "parseRecoveryOperationRequest v = (case v of
       JObj ps \<Rightarrow>
         (let hasContinuation = (''continuation'' \<in> fst ` set ps) in
          rbind (exactAdminObject v ((if hasContinuation then [''continuation''] else []) @ [''operationId'', ''recoveryPoint''])) (\<lambda>input.
          case field input ''operationId'' of
            JStr operationId \<Rightarrow>
              rbind (ensure (RECOVERY_OPERATION_ID operationId) TypeError) (\<lambda>_.
              Inr (operationId, field input ''recoveryPoint'', if hasContinuation then Some (field input ''continuation'') else None))
          | _ \<Rightarrow> Inl TypeError))
     | _ \<Rightarrow> Inl TypeError)"

section \<open>Printing a cursor\<close>

definition cursor_ok :: "string \<Rightarrow> bool" where
  "cursor_ok s \<longleftrightarrow> length (utf8 s) \<le> MAX_CURSOR_BYTES"

definition count_ok :: "int \<Rightarrow> bool" where
  "count_ok n \<longleftrightarrow> safe_integer n \<and> 0 \<le> n"

lemma valid_simps: "validRecoveryCount (JNum n) \<longleftrightarrow> count_ok n" "validCursor (JStr s) \<longleftrightarrow> cursor_ok s"
    "validRecoveryIndex (JNum n) \<longleftrightarrow> 0 \<le> n \<and> n \<le> MAX_RECOVERY_SHARDS"
  by (auto simp: validRecoveryCount_def count_ok_def validCursor_def cursor_ok_def validRecoveryIndex_def safe_integer_def MAX_RECOVERY_SHARDS_def)

definition restore_ok :: "RestoreCursor \<Rightarrow> bool" where
  "restore_ok s \<longleftrightarrow> 0 \<le> rs_shardIndex s \<and> rs_shardIndex s \<le> MAX_RECOVERY_SHARDS \<and> list_all cursor_ok [rs_afterRetainedFileId s, rs_afterVectorId s] \<and>
     list_all count_ok [rs_afterPhysicalVersion s, rs_files s, rs_filePages s, rs_filesRetained s, rs_retentionPages s, rs_quiescenceTurns s,
       rs_vectors s, rs_vectorPages s, rs_commitPolls s]"

definition reconcile_ok :: "ReconcileCursor \<Rightarrow> bool" where
  "reconcile_ok s \<longleftrightarrow> 0 \<le> cs_shardIndex s \<and> cs_shardIndex s \<le> MAX_RECOVERY_SHARDS \<and> cursor_ok (cs_afterFileId s) \<and>
     list_all count_ok [cs_afterCreatedSeq s, cs_filesRehydrated s, cs_filePages s, cs_vectorsRequeued s, cs_vectorPages s, cs_settleTurns s, cs_nowMs s]"

text \<open>The properties in sorted order, which is how they are printed.\<close>

definition restore_sorted :: "RestoreCursor \<Rightarrow> props" where
  "restore_sorted s = [(''afterPhysicalVersion'', JNum (rs_afterPhysicalVersion s)), (''afterRetainedFileId'', JStr (rs_afterRetainedFileId s)),
     (''afterVectorId'', JStr (rs_afterVectorId s)), (''commitPolls'', JNum (rs_commitPolls s)), (''filePages'', JNum (rs_filePages s)),
     (''files'', JNum (rs_files s)), (''filesRetained'', JNum (rs_filesRetained s)), (''kind'', JStr ''restore''),
     (''phase'', JStr (restore_phase_name (rs_phase s))), (''quiescenceTurns'', JNum (rs_quiescenceTurns s)),
     (''retentionPages'', JNum (rs_retentionPages s)), (''shardIndex'', JNum (rs_shardIndex s)), (''vectorPages'', JNum (rs_vectorPages s)),
     (''vectors'', JNum (rs_vectors s))]"

definition reconcile_sorted :: "ReconcileCursor \<Rightarrow> props" where
  "reconcile_sorted s = [(''afterCreatedSeq'', JNum (cs_afterCreatedSeq s)), (''afterFileId'', JStr (cs_afterFileId s)),
     (''filePages'', JNum (cs_filePages s)), (''filesRehydrated'', JNum (cs_filesRehydrated s)), (''kind'', JStr ''reconcile''),
     (''nowMs'', JNum (cs_nowMs s)), (''phase'', JStr (reconcile_phase_name (cs_phase s))), (''settleTurns'', JNum (cs_settleTurns s)),
     (''shardIndex'', JNum (cs_shardIndex s)), (''vectorPages'', JNum (cs_vectorPages s)), (''vectorsRequeued'', JNum (cs_vectorsRequeued s))]"

definition plain_members :: "string list \<Rightarrow> bool" where
  "plain_members ks \<longleftrightarrow> distinct ks \<and> list_all (\<lambda>k. array_index k = None) ks"

lemma plain_ordered: "plain_members (map fst ps) \<Longrightarrow> js_ordered ps"
proof -
  assume p: "plain_members (map fst ps)"
  have "sorted_wrt key_before ks" if "list_all (\<lambda>k. array_index k = None) ks" for ks
    using that by (induction ks) (auto simp: key_before_def list_all_iff)
  then show ?thesis using p by (simp add: plain_members_def js_ordered_def)
qed

lemma plain_keys: "plain_members (map fst (restore_sorted s))" "plain_members (map fst (reconcile_sorted r))"
  by (simp_all add: restore_sorted_def reconcile_sorted_def) code_simp+

lemma sorted_restore: "sort (map fst [(''kind'', a), (''phase'', b), (''shardIndex'', c), (''afterRetainedFileId'', d), (''afterVectorId'', e),
    (''afterPhysicalVersion'', f), (''files'', g), (''filePages'', h), (''filesRetained'', i), (''retentionPages'', j), (''quiescenceTurns'', k),
    (''vectors'', l), (''vectorPages'', m), (''commitPolls'', n)]) = map fst (restore_sorted s)"
  by (simp add: restore_sorted_def)

lemma sorted_reconcile: "sort (map fst [(''kind'', a), (''phase'', b), (''shardIndex'', c), (''afterFileId'', d), (''afterCreatedSeq'', e),
    (''filesRehydrated'', f), (''filePages'', g), (''vectorsRequeued'', h), (''vectorPages'', i), (''settleTurns'', j), (''nowMs'', k)]) =
    map fst (reconcile_sorted s)"
  by (simp add: reconcile_sorted_def)

lemma canonical_restore: "canonicalize (restore_json s) = JObj (restore_sorted s)"
proof -
  have "canonical_members (case restore_json s of JObj ps \<Rightarrow> ps) = restore_sorted s"
    unfolding canonical_members_def restore_json_def json.case sorted_restore [where s = s] by (simp add: restore_sorted_def)
  then show ?thesis using build_obj_ordered [OF plain_ordered [OF plain_keys(1)], of s] unfolding restore_json_def json.case canonicalize_obj by simp
qed

lemma canonical_reconcile: "canonicalize (reconcile_json s) = JObj (reconcile_sorted s)"
proof -
  have "canonical_members (case reconcile_json s of JObj ps \<Rightarrow> ps) = reconcile_sorted s"
    unfolding canonical_members_def reconcile_json_def json.case sorted_reconcile [where s = s] by (simp add: reconcile_sorted_def)
  then show ?thesis using build_obj_ordered [OF plain_ordered [OF plain_keys(2)], of s] unfolding reconcile_json_def json.case canonicalize_obj by simp
qed

lemma exact_sorted:
  assumes "sort (map fst ps) = map fst ps" and "plain_members (map fst ps)" and "sort keys = map fst ps"
  shows "exactAdminObject (JObj ps) keys = Inr ps"
proof -
  have "map (\<lambda>k. (k, the (map_of ps k))) (map fst ps) = ps"
    using assms(2) by (auto simp: plain_members_def intro!: map_idI)
  then show ?thesis using assms build_obj_ordered [OF plain_ordered [OF assms(2)]] by (simp add: exactAdminObject_def Let_def)
qed

lemma exact_restore:
  "exactAdminObject (JObj (restore_sorted s)) [''afterRetainedFileId'', ''afterPhysicalVersion'', ''afterVectorId'', ''commitPolls'', ''files'', ''filePages'',
       ''filesRetained'', ''kind'', ''phase'', ''quiescenceTurns'', ''retentionPages'', ''shardIndex'', ''vectors'', ''vectorPages''] = Inr (restore_sorted s)"
  by (rule exact_sorted [OF _ plain_keys(1)]) (simp_all add: restore_sorted_def)

lemma exact_reconcile:
  "exactAdminObject (JObj (reconcile_sorted s)) [''afterCreatedSeq'', ''afterFileId'', ''filesRehydrated'', ''filePages'', ''kind'', ''nowMs'', ''phase'',
       ''settleTurns'', ''shardIndex'', ''vectorsRequeued'', ''vectorPages''] = Inr (reconcile_sorted s)"
  by (rule exact_sorted [OF _ plain_keys(2)]) (simp_all add: reconcile_sorted_def)

lemma parse_restore_sorted: "restore_ok s \<Longrightarrow> parse_restore (JObj (restore_sorted s)) = Inr (restore_sorted s)"
  unfolding parse_restore_def exact_restore
  by (cases "rs_phase s") (simp_all add: restore_sorted_def field_def restore_ok_def valid_simps restore_phase_name_def)

lemma parse_reconcile_sorted: "reconcile_ok s \<Longrightarrow> parse_reconcile (JObj (reconcile_sorted s)) = Inr (reconcile_sorted s)"
  unfolding parse_reconcile_def exact_reconcile
  by (cases "cs_phase s") (simp_all add: reconcile_sorted_def field_def reconcile_ok_def valid_simps reconcile_phase_name_def)

section \<open>The printed cursor fits\<close>

lemma decimal_nat_length: "n < 10 ^ Suc k \<Longrightarrow> length (decimal_nat n) \<le> Suc k"
proof (induction k arbitrary: n)
  case 0
  then show ?case by (subst decimal_nat.simps) simp
next
  case (Suc k)
  have "n div 10 < 10 ^ Suc k" using Suc.prems by (simp add: less_mult_imp_div_less mult.commute)
  then have "length (decimal_nat (n div 10)) \<le> Suc k" by (rule Suc.IH)
  then show ?case by (subst decimal_nat.simps) simp
qed

lemma count_length: "count_ok n \<Longrightarrow> json_bytes (JNum n) \<le> 16"
proof -
  assume n: "count_ok n"
  then have "n < 10 ^ Suc 15" by (auto simp: count_ok_def safe_integer_def)
  then have "nat n < 10 ^ Suc 15" using n by (simp add: count_ok_def nat_less_iff)
  then show ?thesis using n decimal_nat_length [of "nat n" 15] by (simp add: count_ok_def decimal_def)
qed

lemma char_bytes_le: "1 \<le> char_bytes c" "char_bytes c \<le> 6"
  by (simp_all add: char_bytes_def Let_def split: if_splits)

lemma length_utf8: "length s \<le> length (utf8 s)"
proof (induction s)
  case (Cons c s)
  have "1 \<le> length (utf8_char c)" by (simp add: utf8_char_def Let_def)
  then show ?case using Cons by (simp add: utf8_Cons)
qed simp

lemma cursor_length: "cursor_ok s \<Longrightarrow> json_bytes (JStr s) \<le> 1538"
proof -
  have "sum_list (map char_bytes s) \<le> 6 * int (length s)" using char_bytes_le(2) by (induction s) (auto simp: algebra_simps intro: add_mono)
  moreover assume "cursor_ok s"
  ultimately show ?thesis using length_utf8 [of s] by (simp add: cursor_ok_def MAX_CURSOR_BYTES_def string_bytes_def)
qed

lemma length_stringify: "int (length (stringify v)) \<le> json_bytes v"
  using length_utf8 by (simp add: json_bytes_def)

lemma two_stringify: "2 \<le> length (stringify (JObj ps))"
  by simp

lemma constant_bytes: "char_bytes CHR ''a'' = 1" "json_bytes (JStr ''restore'') = 9" "json_bytes (JStr ''reconcile'') = 11"
    "json_bytes (JStr (restore_phase_name p)) \<le> 12" "json_bytes (JStr (reconcile_phase_name q)) \<le> 9"
  by (simp_all add: string_bytes_def char_bytes_def Let_def restore_phase_name_def reconcile_phase_name_def split: restore_phase.splits reconcile_phase.splits)

lemma restore_keys_bytes: "keys_bytes (map fst (restore_sorted s)) \<le> 400" "keys_bytes (map fst (reconcile_sorted r)) \<le> 400"
  by (simp_all add: restore_sorted_def reconcile_sorted_def keys_bytes_def string_bytes_def char_bytes_def Let_def)

lemma count_lengths: "list_all count_ok ns \<Longrightarrow> list_all (\<lambda>n. json_bytes (JNum n) \<le> 16) ns"
  using count_length by (simp add: list_all_iff del: json_bytes_num)

lemma cursor_lengths: "list_all cursor_ok ss \<Longrightarrow> list_all (\<lambda>s. json_bytes (JStr s) \<le> 1538) ss"
  using cursor_length by (simp add: list_all_iff del: json_bytes_simps)

lemma index_ok: "0 \<le> n \<Longrightarrow> n \<le> MAX_RECOVERY_SHARDS \<Longrightarrow> count_ok n"
  by (simp add: count_ok_def safe_integer_def MAX_RECOVERY_SHARDS_def)

lemma restore_bytes: "restore_ok s \<Longrightarrow> json_bytes (JObj (restore_sorted s)) \<le> 16384"
proof -
  assume ok: "restore_ok s"
  have index: "json_bytes (JNum (rs_shardIndex s)) \<le> 16" using ok count_length index_ok unfolding restore_ok_def by blast
  have counts: "list_all (\<lambda>n. json_bytes (JNum n) \<le> 16) [rs_afterPhysicalVersion s, rs_files s, rs_filePages s, rs_filesRetained s,
      rs_retentionPages s, rs_quiescenceTurns s, rs_vectors s, rs_vectorPages s, rs_commitPolls s]"
    using ok count_lengths unfolding restore_ok_def by blast
  have cursors: "list_all (\<lambda>s. json_bytes (JStr s) \<le> 1538) [rs_afterRetainedFileId s, rs_afterVectorId s]"
    using ok cursor_lengths unfolding restore_ok_def by blast
  have "sum_list (map (\<lambda>(k, v). json_bytes v) (restore_sorted s)) \<le> 10 * 16 + 2 * 1538 + 21"
    using index counts cursors constant_bytes(2) constant_bytes(4) [of "rs_phase s"]
    by (simp add: restore_sorted_def del: json_bytes_simps json_bytes_num)
  then show ?thesis using restore_keys_bytes(1) [of s] by (simp add: json_bytes_obj commas_def) (simp add: restore_sorted_def)
qed

lemma restore_length: "restore_ok s \<Longrightarrow> length (stringify (JObj (restore_sorted s))) \<le> 16384"
  using restore_bytes [of s] length_stringify [of "JObj (restore_sorted s)"] by linarith

lemma reconcile_bytes: "reconcile_ok s \<Longrightarrow> json_bytes (JObj (reconcile_sorted s)) \<le> 16384"
proof -
  assume ok: "reconcile_ok s"
  have index: "json_bytes (JNum (cs_shardIndex s)) \<le> 16" using ok count_length index_ok unfolding reconcile_ok_def by blast
  have counts: "list_all (\<lambda>n. json_bytes (JNum n) \<le> 16) [cs_afterCreatedSeq s, cs_filesRehydrated s, cs_filePages s, cs_vectorsRequeued s,
      cs_vectorPages s, cs_settleTurns s, cs_nowMs s]"
    using ok count_lengths unfolding reconcile_ok_def by blast
  have cursor: "json_bytes (JStr (cs_afterFileId s)) \<le> 1538" using ok cursor_length unfolding reconcile_ok_def by blast
  have "sum_list (map (\<lambda>(k, v). json_bytes v) (reconcile_sorted s)) \<le> 8 * 16 + 1538 + 20"
    using index counts cursor constant_bytes(3) constant_bytes(5) [of "cs_phase s"]
    by (simp add: reconcile_sorted_def del: json_bytes_simps json_bytes_num)
  then show ?thesis using restore_keys_bytes(2) [of s] by (simp add: json_bytes_obj commas_def) (simp add: reconcile_sorted_def)
qed

lemma reconcile_length: "reconcile_ok s \<Longrightarrow> length (stringify (JObj (reconcile_sorted s))) \<le> 16384"
  using reconcile_bytes [of s] length_stringify [of "JObj (reconcile_sorted s)"] by linarith

lemma sorted_json_ok: "restore_ok s \<Longrightarrow> json_ok (JObj (restore_sorted s))" "reconcile_ok r \<Longrightarrow> json_ok (JObj (reconcile_sorted r))"
  using plain_ordered [OF plain_keys(1) [of s]] plain_ordered [OF plain_keys(2) [of r]] index_ok
  by (auto simp: restore_ok_def reconcile_ok_def count_ok_def restore_sorted_def reconcile_sorted_def)

section \<open>Reading back what was stored\<close>

definition restore_of :: "props \<Rightarrow> RestoreCursor \<Rightarrow> bool" where
  "restore_of ps s \<longleftrightarrow> (\<forall>k v. (k, v) \<in> set ps \<longleftrightarrow> (k, v) \<in> set (case restore_json s of JObj qs \<Rightarrow> qs))"

definition reconcile_of :: "props \<Rightarrow> ReconcileCursor \<Rightarrow> bool" where
  "reconcile_of ps s \<longleftrightarrow> (\<forall>k v. (k, v) \<in> set ps \<longleftrightarrow> (k, v) \<in> set (case reconcile_json s of JObj qs \<Rightarrow> qs))"

lemma sorted_of: "restore_of (restore_sorted s) s" "reconcile_of (reconcile_sorted r) r"
  by (auto simp: restore_of_def restore_sorted_def restore_json_def reconcile_of_def reconcile_sorted_def reconcile_json_def)

lemma stored_cursors:
  shows "restore_ok s \<Longrightarrow> parseStoredRecoveryContinuationState (serializeRecoveryContinuationState (restore_json s)) Kind_restore = Inr (restore_sorted s)"
    and "reconcile_ok r \<Longrightarrow> parseStoredRecoveryContinuationState (serializeRecoveryContinuationState (reconcile_json r)) Kind_reconcile = Inr (reconcile_sorted r)"
proof -
  assume ok: "restore_ok s"
  show "parseStoredRecoveryContinuationState (serializeRecoveryContinuationState (restore_json s)) Kind_restore = Inr (restore_sorted s)"
    using restore_length [OF ok] two_stringify [of "restore_sorted s"] parse_stringify [OF sorted_json_ok(1) [OF ok]] parse_restore_sorted [OF ok]
    by (simp add: parseStoredRecoveryContinuationState_def serializeRecoveryContinuationState_def stableJson_def canonical_restore
        parseRecoveryContinuationState_def del: stringify.simps)
next
  assume ok: "reconcile_ok r"
  show "parseStoredRecoveryContinuationState (serializeRecoveryContinuationState (reconcile_json r)) Kind_reconcile = Inr (reconcile_sorted r)"
    using reconcile_length [OF ok] two_stringify [of "reconcile_sorted r"] parse_stringify [OF sorted_json_ok(2) [OF ok]] parse_reconcile_sorted [OF ok]
    by (simp add: parseStoredRecoveryContinuationState_def serializeRecoveryContinuationState_def stableJson_def canonical_reconcile
        parseRecoveryContinuationState_def del: stringify.simps)
qed

text \<open>
  C29. A stored cursor is read back as it was saved. Every restore or reconcile cursor whose index, counts and identifiers are
  within the bounds is printed in 2 to 16384 characters, so it passes the coordinator's length check, and parsing the text
  yields the same fields and values.
\<close>

theorem continuation_roundtrip:
  "(restore_ok s \<longrightarrow> (\<exists>ps. parseStoredRecoveryContinuationState (serializeRecoveryContinuationState (restore_json s)) Kind_restore = Inr ps \<and> restore_of ps s)) \<and>
   (reconcile_ok r \<longrightarrow> (\<exists>ps. parseStoredRecoveryContinuationState (serializeRecoveryContinuationState (reconcile_json r)) Kind_reconcile = Inr ps \<and>
      reconcile_of ps r))"
  using stored_cursors sorted_of by blast

definition sample_cursor :: RestoreCursor where
  "sample_cursor = \<lparr> rs_phase = Rp_vectors, rs_shardIndex = 16384, rs_afterRetainedFileId = ''f'', rs_afterVectorId = [], rs_afterPhysicalVersion = 3,
     rs_files = 0, rs_filePages = 0, rs_filesRetained = 9007199254740991, rs_retentionPages = 0, rs_quiescenceTurns = 1, rs_vectors = 0,
     rs_vectorPages = 0, rs_commitPolls = 0 \<rparr>"

lemma sample_cursor_ok: "restore_ok sample_cursor"
  by code_simp

lemma continuation_roundtrip_witness:
  "\<exists>ps. parseStoredRecoveryContinuationState (serializeRecoveryContinuationState (restore_json sample_cursor)) Kind_restore = Inr ps \<and> restore_of ps sample_cursor"
  using continuation_roundtrip sample_cursor_ok by blast

section \<open>The signed cursor\<close>

definition signed_json :: "string \<Rightarrow> string \<Rightarrow> json \<Rightarrow> string \<Rightarrow> props" where
  "signed_json operationId digest state signature = unsigned_json operationId digest state @ [(''signature'', JStr signature)]"

lemma exact_signed:
  "exactAdminObject (JObj (signed_json operationId digest state signature)) [''format'', ''operationId'', ''recoveryPointDigest'', ''signature'', ''state''] =
     Inr [(''format'', JStr RECOVERY_CONTINUATION_FORMAT), (''operationId'', JStr operationId), (''recoveryPointDigest'', JStr digest),
       (''signature'', JStr signature), (''state'', state)]"
proof -
  let ?ps = "[(''format'', JStr RECOVERY_CONTINUATION_FORMAT), (''operationId'', JStr operationId), (''recoveryPointDigest'', JStr digest),
       (''signature'', JStr signature), (''state'', state)]"
  have plain: "plain_members (map fst ?ps)" by simp code_simp
  have "sort (map fst (signed_json operationId digest state signature)) = map fst ?ps" by (simp add: signed_json_def unsigned_json_def)
  moreover have "map (\<lambda>k. (k, the (map_of (signed_json operationId digest state signature) k))) (map fst ?ps) = ?ps"
    by (simp add: signed_json_def unsigned_json_def)
  ultimately show ?thesis using build_obj_ordered [OF plain_ordered [OF plain]] by (simp add: exactAdminObject_def Let_def)
qed

lemma stable_state:
  assumes "canonicalize a = canonicalize b"
  shows "stableJson (JObj (unsigned_json operationId digest a)) = stableJson (JObj (unsigned_json operationId digest b))"
  using assms by (simp add: stableJson_def unsigned_json_def)

lemma canonical_idem:
  assumes "sort (map fst ps) = map fst ps" and "plain_members (map fst ps)" and "\<forall>(k, v) \<in> set ps. canonicalize v = v"
  shows "canonicalize (JObj ps) = JObj ps"
proof -
  have "map (\<lambda>(k', v). (k', canonicalize v)) ps = ps" using assms(3) by (auto intro!: map_idI)
  then have "canonical_members ps = ps"
    using assms(1,2) by (auto simp: canonical_members_def plain_members_def intro!: map_idI)
  then show ?thesis using build_obj_ordered [OF plain_ordered [OF assms(2)]] unfolding canonicalize_obj by simp
qed

lemma restore_idem: "canonicalize (JObj (restore_sorted s)) = JObj (restore_sorted s)"
  by (rule canonical_idem [OF _ plain_keys(1)]) (simp_all add: restore_sorted_def)

lemma reconcile_idem: "canonicalize (JObj (reconcile_sorted r)) = JObj (reconcile_sorted r)"
  by (rule canonical_idem [OF _ plain_keys(2)]) (simp_all add: reconcile_sorted_def)

lemma parse_restore_json: "restore_ok s \<Longrightarrow> parse_restore (restore_json s) = Inr (restore_sorted s)"
proof -
  assume ok: "restore_ok s"
  obtain ps where ps: "restore_json s = JObj ps" by (simp add: restore_json_def)
  have "exactAdminObject (restore_json s) ks = exactAdminObject (JObj (restore_sorted s)) ks" for ks
    using sorted_restore [where s = s] build_obj_ordered [OF plain_ordered [OF plain_keys(1)], of s]
    by (simp add: exactAdminObject_def restore_json_def restore_sorted_def Let_def)
  then have "parse_restore (restore_json s) = parse_restore (JObj (restore_sorted s))" by (simp add: parse_restore_def)
  then show ?thesis using parse_restore_sorted [OF ok] by simp
qed

lemma hex_digest_bytes: "byte_list b \<Longrightarrow> length b = 32 \<Longrightarrow> hex_digest (bytesToHex b)"
proof -
  have hex: "hex_char_of n \<in> set ''0123456789abcdef''" if "n < 16" for n
  proof -
    have "list_all (\<lambda>n. hex_char_of n \<in> set ''0123456789abcdef'') [0..<16]" by code_simp
    then show ?thesis using that by (auto simp: list_all_iff)
  qed
  have "length (bytesToHex b) = 2 * length b \<and> list_all (\<lambda>c. c \<in> set ''0123456789abcdef'') (bytesToHex b)" if "byte_list b" for b
    using that
  proof (induction b)
    case (Cons x b)
    then show ?case using hex [of "x div 16"] hex [of "x mod 16"] by (simp add: bytesToHex_def byte_list_def less_mult_imp_div_less)
  qed (simp add: bytesToHex_def)
  then show "byte_list b \<Longrightarrow> length b = 32 \<Longrightarrow> hex_digest (bytesToHex b)" by (simp add: hex_digest_def)
qed

lemma restore_json_ok: "restore_ok s \<Longrightarrow> json_ok (restore_json s)"
proof -
  assume ok: "restore_ok s"
  have plain: "plain_members (map fst (case restore_json s of JObj ps \<Rightarrow> ps))" by (simp add: restore_json_def) code_simp
  have "js_ordered (case restore_json s of JObj ps \<Rightarrow> ps)" by (rule plain_ordered [OF plain])
  then show ?thesis using ok index_ok by (auto simp: restore_json_def restore_ok_def count_ok_def)
qed

text \<open>
  A signed cursor is accepted back, and only for its own operation. Whatever HMAC with 32-byte tags verifies its own
  signatures, the restore cursor signed for an operation and a recovery point is accepted, after a passage through JSON text, with the
  same fields, and it is refused for any other operation or recovery point.
\<close>

theorem continuation_signature:
  assumes "\<forall>k d. hm_verify h k (hm_sign h k d) d" and "\<forall>k d. byte_list (hm_sign h k d) \<and> length (hm_sign h k d) = 32"
    and "restore_ok s" and "signRecoveryContinuation h token operationId digest (restore_json s) = Inr v"
  shows "\<exists>v'. JSON_parse (stringify v) = Inr v' \<and>
    parseRecoveryContinuation h token operationId digest (Some v') Kind_restore = Inr (Some (restore_sorted s)) \<and>
    ((operationId', digest') \<noteq> (operationId, digest) \<longrightarrow>
      parseRecoveryContinuation h token operationId' digest' (Some v') Kind_restore = Inl TypeError)"
proof -
  let ?u = "utf8 (stableJson (JObj (unsigned_json operationId digest (restore_json s))))"
  obtain key where key: "recoveryContinuationKey token = Inr key"
    and v: "v = JObj (signed_json operationId digest (restore_json s) (bytesToHex (hm_sign h key ?u)))"
    using assms(4) by (auto simp: signRecoveryContinuation_def rbind_eq_Inr signed_json_def)
  let ?sig = "bytesToHex (hm_sign h key ?u)"
  have unhex: "bytesFromHex ?sig = hm_sign h key ?u" using assms(2) by (simp add: bytesFromHex_def hex_pairs_bytes)
  have hex: "hex_digest ?sig" using assms(2) by (simp add: hex_digest_bytes)
  have same: "stableJson (JObj (unsigned_json operationId digest (JObj (restore_sorted s)))) = stableJson (JObj (unsigned_json operationId digest (restore_json s)))"
    by (rule stable_state) (simp only: restore_idem canonical_restore)
  have plain: "plain_members (map fst (signed_json operationId digest (restore_json s) ?sig))"
    by (simp add: signed_json_def unsigned_json_def) code_simp
  have ok: "json_ok v"
    using plain_ordered [OF plain] restore_json_ok [OF assms(3)] by (simp add: v signed_json_def unsigned_json_def)
  show ?thesis
  proof (intro exI [of _ v] conjI impI)
    show "JSON_parse (stringify v) = Inr v" by (rule parse_stringify [OF ok])
    show "parseRecoveryContinuation h token operationId digest (Some v) Kind_restore = Inr (Some (restore_sorted s))"
      using assms(1) by (simp add: parseRecoveryContinuation_def v exact_signed field_def hex parseRecoveryContinuationState_def
          parse_restore_json [OF assms(3)] key same unhex)
    show "parseRecoveryContinuation h token operationId' digest' (Some v) Kind_restore = Inl TypeError"
      if "(operationId', digest') \<noteq> (operationId, digest)"
      using that by (auto simp: parseRecoveryContinuation_def v exact_signed field_def ensure_def)
  qed
qed

definition sample_hmac :: hmac where
  "sample_hmac = \<lparr> hm_sign = (\<lambda>k d. replicate 32 (length d mod 256)), hm_verify = (\<lambda>k t d. t = replicate 32 (length d mod 256)) \<rparr>"

lemma continuation_signature_witness:
  "\<exists>v v'. signRecoveryContinuation sample_hmac (Some ''t'') sample_op ''d'' (restore_json sample_cursor) = Inr v \<and> JSON_parse (stringify v) = Inr v' \<and>
     parseRecoveryContinuation sample_hmac (Some ''t'') sample_op ''d'' (Some v') Kind_restore = Inr (Some (restore_sorted sample_cursor)) \<and>
     parseRecoveryContinuation sample_hmac (Some ''t'') sample_op ''e'' (Some v') Kind_restore = Inl TypeError"
proof -
  have id: "RECOVERY_OPERATION_ID sample_op" by code_simp
  then obtain v where v: "signRecoveryContinuation sample_hmac (Some ''t'') sample_op ''d'' (restore_json sample_cursor) = Inr v"
    by (simp add: signRecoveryContinuation_def recoveryContinuationKey_def ensure_def)
  have "\<forall>k d. hm_verify sample_hmac k (hm_sign sample_hmac k d) d"
    and "\<forall>k d. byte_list (hm_sign sample_hmac k d) \<and> length (hm_sign sample_hmac k d) = 32"
    by (simp_all add: sample_hmac_def byte_list_def)
  from continuation_signature [OF this sample_cursor_ok v, where operationId' = sample_op and digest' = "''e''"] v show ?thesis by auto
qed

end
