(* ===== verification/Recovery_Coordinator.thy ===== *)
theory Recovery_Coordinator
  imports Recovery_Continuation
begin

text \<open>
  The coordinator of point-in-time recoveries, \<^verbatim>\<open>src/src/server/do/recovery-coordinator.ts\<close>: a generation clock, one
  row per recovery operation and one row per object whose restore an operation commits. Every method runs in the Resharder's
  \<open>transactionSync\<close> on a store that was just constructed. Foreign keys cascade, as the table declares.
\<close>

section \<open>Data\<close>

datatype operation_phase = Ph_preparing | Ph_committing | Ph_reconciling | Ph_releasing | Ph_catalog | Ph_complete
datatype commit_status = Commit_intent | Commit_scheduled

record RecoveryProviderCounts =
  pc_files :: int
  pc_filesRetained :: int
  pc_vectors :: int

record RecoveryReconcileCounts =
  rr_filesRehydrated :: int
  rr_vectorsRequeued :: int

record RecoveryIdentity =
  ri_operationId :: string
  ri_digest :: string
  ri_generation :: int

datatype (plugins only: code) RecoveryCoordinatorState =
    St_new string
  | St_preparing RecoveryIdentity string
  | St_committing RecoveryIdentity RecoveryProviderCounts int
  | St_reconciling RecoveryIdentity RecoveryProviderCounts string
  | St_releasing RecoveryIdentity RecoveryProviderCounts RecoveryReconcileCounts int
  | St_catalog RecoveryIdentity RecoveryProviderCounts RecoveryReconcileCounts
  | St_complete RecoveryIdentity RecoveryProviderCounts RecoveryReconcileCounts

record StoredOperation =
  so_operation_id :: string
  so_digest :: string
  so_generation :: int
  so_phase :: operation_phase
  so_files :: int
  so_files_retained :: int
  so_vectors :: int
  so_commit_index :: int
  so_release_index :: int
  so_continuation_json :: "string option"
  so_files_rehydrated :: "int option"
  so_vectors_requeued :: "int option"

record StoredCommit =
  sc_operation_id :: string
  sc_object_id :: string
  sc_bookmark :: string
  sc_status :: commit_status

text \<open>
  The clock row (generation and active operation), the two tables, and the phases in the table of the version before, when it
  still exists.
\<close>

record coordinator =
  co_clock :: "(int \<times> string option) option"
  co_operations :: "StoredOperation list"
  co_commits :: "StoredCommit list"
  co_legacy :: "string list option"

text \<open>What the coordinator sees of the Resharder: the phases in \<open>migration_state\<close> and whether each start intent is still starting.\<close>

record reshard_tables =
  rt_migration_state :: "int list option"
  rt_migration_start_intent :: "bool list option"

definition operation_row_check :: "StoredOperation \<Rightarrow> bool" where
  "operation_row_check r \<longleftrightarrow> 0 < so_generation r \<and> 0 \<le> so_files r \<and> 0 \<le> so_files_retained r \<and> 0 \<le> so_vectors r \<and>
     0 \<le> so_commit_index r \<and> 0 \<le> so_release_index r"

definition commit_key :: "StoredCommit \<Rightarrow> string \<times> string" where
  "commit_key r = (sc_operation_id r, sc_object_id r)"

definition OBJECT_ID :: "string \<Rightarrow> bool" where
  "OBJECT_ID s \<longleftrightarrow> (case s of [] \<Rightarrow> False | c # cs \<Rightarrow>
     alnum_char c \<and> length cs \<le> 255 \<and> list_all (\<lambda>x. alnum_char x \<or> x \<in> set ''._:-'') cs)"

definition MAX_TERMINAL_OPERATIONS :: nat where "MAX_TERMINAL_OPERATIONS = 64"

abbreviation co_invalid :: js_error where "co_invalid \<equiv> Cdb CDB_INVALID_ARGS"

section \<open>Guards\<close>

text \<open>\<open>Number(null)\<close> is zero.\<close>

definition co_count :: "int option \<Rightarrow> int res" where
  "co_count v = (let projected = (case v of None \<Rightarrow> 0 | Some n \<Rightarrow> n) in
     rbind (ensure (safe_integer projected \<and> 0 \<le> projected) co_invalid) (\<lambda>_. Inr projected))"

definition assertOperation :: "string \<Rightarrow> unit res" where
  "assertOperation operationId = ensure (RECOVERY_OPERATION_ID operationId) co_invalid"

definition assertDigest :: "string \<Rightarrow> unit res" where
  "assertDigest digest = ensure (hex_digest digest) co_invalid"

definition assertProviderCounts :: "RecoveryProviderCounts \<Rightarrow> unit res" where
  "assertProviderCounts v = rfold (\<lambda>n _. rbind (co_count (Some n)) (\<lambda>_. Inr ())) [pc_files v, pc_filesRetained v, pc_vectors v] ()"

definition assertReconcileCounts :: "RecoveryReconcileCounts \<Rightarrow> unit res" where
  "assertReconcileCounts v = rfold (\<lambda>n _. rbind (co_count (Some n)) (\<lambda>_. Inr ())) [rr_filesRehydrated v, rr_vectorsRequeued v] ()"

definition checkContinuation :: "string \<Rightarrow> continuation_kind \<Rightarrow> unit res" where
  "checkContinuation value kind =
     rbind (ensure (length (utf8 value) \<le> 16384) co_invalid) (\<lambda>_.
     ensure (result_ok (parseStoredRecoveryContinuationState value kind)) co_invalid)"

section \<open>Reading\<close>

definition retireLegacyCoordinator :: "coordinator \<Rightarrow> coordinator res" where
  "retireLegacyCoordinator C = (case co_legacy C of
       None \<Rightarrow> Inr C
     | Some phases \<Rightarrow> rbind (ensure (\<not> (\<exists>p \<in> set phases. p \<noteq> ''complete'')) co_invalid) (\<lambda>_. Inr (C\<lparr>co_legacy := None\<rparr>)))"

definition open_coordinator :: "coordinator \<Rightarrow> coordinator res" where
  "open_coordinator C =
     retireLegacyCoordinator (C\<lparr>co_clock := (case co_clock C of None \<Rightarrow> Some (0, None) | Some c \<Rightarrow> Some c)\<rparr>)"

definition operation_row :: "string \<Rightarrow> coordinator \<Rightarrow> StoredOperation option" where
  "operation_row operationId C = sql_one (\<lambda>r. so_operation_id r = operationId) (co_operations C)"

definition admissionClock :: "coordinator \<Rightarrow> RecoveryAdmissionClock res" where
  "admissionClock C = (case co_clock C of
       None \<Rightarrow> Inl co_invalid
     | Some (stored, activeId) \<Rightarrow>
         rbind (co_count (Some stored)) (\<lambda>generation.
         case activeId of
           None \<Rightarrow> Inr \<lparr> clock_generation = generation, clock_activeOperationId = None, clock_activeDigest = None \<rparr>
         | Some op \<Rightarrow>
             (case operation_row op C of
                None \<Rightarrow> Inl co_invalid
              | Some active \<Rightarrow>
                  rbind (ensure (so_phase active \<noteq> Ph_complete) co_invalid) (\<lambda>_.
                  rbind (co_count (Some (so_generation active))) (\<lambda>g.
                  rbind (ensure (g = generation) co_invalid) (\<lambda>_.
                  Inr \<lparr> clock_generation = generation, clock_activeOperationId = Some (so_operation_id active),
                        clock_activeDigest = Some (so_digest active) \<rparr>))))))"

definition projectOperation :: "StoredOperation \<Rightarrow> RecoveryCoordinatorState res" where
  "projectOperation row =
     rbind (co_count (Some (so_generation row))) (\<lambda>generation.
     let identity = \<lparr> ri_operationId = so_operation_id row, ri_digest = so_digest row, ri_generation = generation \<rparr> in
     if so_phase row = Ph_preparing then
       (case so_continuation_json row of None \<Rightarrow> Inl co_invalid | Some c \<Rightarrow> Inr (St_preparing identity c))
     else
       rbind (co_count (Some (so_files row))) (\<lambda>files.
       rbind (co_count (Some (so_files_retained row))) (\<lambda>filesRetained.
       rbind (co_count (Some (so_vectors row))) (\<lambda>vectors.
       let provider = \<lparr> pc_files = files, pc_filesRetained = filesRetained, pc_vectors = vectors \<rparr> in
       if so_phase row = Ph_committing then
         rbind (co_count (Some (so_commit_index row))) (\<lambda>i. Inr (St_committing identity provider i))
       else if so_phase row = Ph_reconciling then
         (case so_continuation_json row of None \<Rightarrow> Inl co_invalid | Some c \<Rightarrow> Inr (St_reconciling identity provider c))
       else
         rbind (co_count (so_files_rehydrated row)) (\<lambda>filesRehydrated.
         rbind (co_count (so_vectors_requeued row)) (\<lambda>vectorsRequeued.
         let reconciled = \<lparr> rr_filesRehydrated = filesRehydrated, rr_vectorsRequeued = vectorsRequeued \<rparr> in
         if so_phase row = Ph_releasing then
           rbind (co_count (Some (so_release_index row))) (\<lambda>i. Inr (St_releasing identity provider reconciled i))
         else Inr (if so_phase row = Ph_catalog then St_catalog identity provider reconciled else St_complete identity provider reconciled)))))))"

definition readOperation :: "string \<Rightarrow> coordinator \<Rightarrow> RecoveryCoordinatorState res" where
  "readOperation operationId C =
     rbind (assertOperation operationId) (\<lambda>_.
     case operation_row operationId C of None \<Rightarrow> Inr (St_new operationId) | Some row \<Rightarrow> projectOperation row)"

definition activeForDigest :: "string \<Rightarrow> coordinator \<Rightarrow> RecoveryCoordinatorState option res" where
  "activeForDigest digest C =
     rbind (assertDigest digest) (\<lambda>_.
     rbind (admissionClock C) (\<lambda>clock.
     if clock_activeOperationId clock \<in> {None, Some []} then Inr None
     else rbind (ensure (clock_activeDigest clock = Some digest) co_invalid) (\<lambda>_.
       rbind (readOperation (the (clock_activeOperationId clock)) C) (\<lambda>s. Inr (Some s)))))"

definition hasActiveRecovery :: "coordinator \<Rightarrow> bool res" where
  "hasActiveRecovery C = rbind (admissionClock C) (\<lambda>clock. Inr (clock_activeOperationId clock \<noteq> None))"

definition assertNoReshard :: "reshard_tables \<Rightarrow> unit res" where
  "assertNoReshard M =
     rbind (ensure (\<not> (case rt_migration_state M of None \<Rightarrow> False | Some phases \<Rightarrow> \<exists>p \<in> set phases. p \<notin> {-1, 6})) co_invalid) (\<lambda>_.
     ensure (\<not> (case rt_migration_start_intent M of None \<Rightarrow> False | Some starting \<Rightarrow> \<exists>s \<in> set starting. s)) co_invalid)"

fun state_identity :: "RecoveryCoordinatorState \<Rightarrow> RecoveryIdentity option" where
  "state_identity (St_new op) = None"
| "state_identity (St_preparing i c) = Some i"
| "state_identity (St_committing i p n) = Some i"
| "state_identity (St_reconciling i p c) = Some i"
| "state_identity (St_releasing i p r n) = Some i"
| "state_identity (St_catalog i p r) = Some i"
| "state_identity (St_complete i p r) = Some i"

section \<open>Operations\<close>

text \<open>\<open>UPDATE\<close> of the operations, and a row that has just been claimed.\<close>

definition update_operations :: "(StoredOperation \<Rightarrow> bool) \<Rightarrow> (StoredOperation \<Rightarrow> StoredOperation) \<Rightarrow> coordinator \<Rightarrow> coordinator res" where
  "update_operations p f C =
     rbind (sql_update_checked operation_row_check p f (co_operations C)) (\<lambda>t. Inr (C\<lparr>co_operations := t\<rparr>))"

definition claimed_row :: "string \<Rightarrow> string \<Rightarrow> int \<Rightarrow> string \<Rightarrow> StoredOperation" where
  "claimed_row operationId digest generation continuationJson =
     \<lparr> so_operation_id = operationId, so_digest = digest, so_generation = generation, so_phase = Ph_preparing, so_files = 0,
       so_files_retained = 0, so_vectors = 0, so_commit_index = 0, so_release_index = 0, so_continuation_json = Some continuationJson,
       so_files_rehydrated = None, so_vectors_requeued = None \<rparr>"

definition claimPreparation :: "reshard_tables \<Rightarrow> string \<Rightarrow> string \<Rightarrow> string \<Rightarrow> coordinator \<Rightarrow> (RecoveryCoordinatorState \<times> coordinator) res" where
  "claimPreparation M operationId digest continuationJson C =
     rbind (assertOperation operationId) (\<lambda>_.
     rbind (assertDigest digest) (\<lambda>_.
     rbind (checkContinuation continuationJson Kind_restore) (\<lambda>_.
     rbind (readOperation operationId C) (\<lambda>existing.
     case state_identity existing of
       Some i \<Rightarrow> rbind (ensure (ri_digest i = digest) co_invalid) (\<lambda>_. Inr (existing, C))
     | None \<Rightarrow>
         rbind (admissionClock C) (\<lambda>active.
         if clock_activeOperationId active \<notin> {None, Some []} then
           rbind (ensure (clock_activeDigest active = Some digest) co_invalid) (\<lambda>_.
           rbind (readOperation (the (clock_activeOperationId active)) C) (\<lambda>v. Inr (v, C)))
         else
           rbind (assertNoReshard M) (\<lambda>_.
           rbind (ensure (clock_generation active < 9007199254740991) co_invalid) (\<lambda>_.
           let generation = clock_generation active + 1 in
           rbind (sql_insert so_operation_id operation_row_check (claimed_row operationId digest generation continuationJson) (co_operations C)) (\<lambda>t.
           Inr (St_preparing \<lparr> ri_operationId = operationId, ri_digest = digest, ri_generation = generation \<rparr> continuationJson,
             C\<lparr>co_operations := t, co_clock := map_option (\<lambda>_. (generation, Some operationId)) (co_clock C)\<rparr>)))))))))"

definition savePreparation :: "string \<Rightarrow> string \<Rightarrow> coordinator \<Rightarrow> (RecoveryCoordinatorState \<times> coordinator) res" where
  "savePreparation operationId continuationJson C =
     rbind (readOperation operationId C) (\<lambda>current. case current of
       St_preparing i c \<Rightarrow>
         rbind (checkContinuation continuationJson Kind_restore) (\<lambda>_.
         rbind (update_operations (\<lambda>r. so_operation_id r = operationId \<and> so_phase r = Ph_preparing)
           (\<lambda>r. r\<lparr>so_continuation_json := Some continuationJson\<rparr>) C) (\<lambda>C'.
         Inr (St_preparing i continuationJson, C')))
     | _ \<Rightarrow> Inr (current, C))"

text \<open>\<open>changes()\<close> counts the deleted operations, and their commits go with them.\<close>

definition cancelPreparation :: "string \<Rightarrow> coordinator \<Rightarrow> (RecoveryAdmissionClock \<times> coordinator) res" where
  "cancelPreparation operationId C =
     rbind (readOperation operationId C) (\<lambda>current. case current of
       St_preparing i c \<Rightarrow>
         rbind (admissionClock C) (\<lambda>clock.
         rbind (ensure (clock_activeOperationId clock = Some operationId) co_invalid) (\<lambda>_.
         let p = (\<lambda>r. so_operation_id r = operationId \<and> so_phase r = Ph_preparing) in
         rbind (ensure (sql_changes p (co_operations C) = 1) co_invalid) (\<lambda>_.
         case co_clock C of
           Some (g, Some op) \<Rightarrow>
             rbind (ensure (op = operationId) co_invalid) (\<lambda>_.
             Inr (\<lparr> clock_generation = clock_generation clock, clock_activeOperationId = None, clock_activeDigest = None \<rparr>,
               C\<lparr>co_operations := sql_delete p (co_operations C),
                 co_commits := sql_delete (\<lambda>s. \<exists>r \<in> set (co_operations C). p r \<and> so_operation_id r = sc_operation_id s) (co_commits C),
                 co_clock := Some (g, None)\<rparr>))
         | _ \<Rightarrow> Inl co_invalid)))
     | _ \<Rightarrow> Inl co_invalid)"

fun state_provider :: "RecoveryCoordinatorState \<Rightarrow> RecoveryProviderCounts option" where
  "state_provider (St_committing i p n) = Some p"
| "state_provider (St_reconciling i p c) = Some p"
| "state_provider (St_releasing i p r n) = Some p"
| "state_provider (St_catalog i p r) = Some p"
| "state_provider (St_complete i p r) = Some p"
| "state_provider (St_new op) = None"
| "state_provider (St_preparing i c) = None"

fun state_reconciled :: "RecoveryCoordinatorState \<Rightarrow> RecoveryReconcileCounts option" where
  "state_reconciled (St_releasing i p r n) = Some r"
| "state_reconciled (St_catalog i p r) = Some r"
| "state_reconciled (St_complete i p r) = Some r"
| "state_reconciled (St_new op) = None"
| "state_reconciled (St_preparing i c) = None"
| "state_reconciled (St_committing i p n) = None"
| "state_reconciled (St_reconciling i p c) = None"

text \<open>
  \<open>{ ...current, phase, ... }\<close> keeps the fields of \<open>current\<close>. Those that the new phase declares are its arguments; those that only the phase
  before had stay in the object too, and are carried beside it: the continuation, the commit index or the release index.
\<close>

record CarriedFields =
  cf_continuationJson :: "string option"
  cf_commitIndex :: "int option"
  cf_releaseIndex :: "int option"

definition no_carried :: CarriedFields where
  "no_carried = \<lparr> cf_continuationJson = None, cf_commitIndex = None, cf_releaseIndex = None \<rparr>"

fun carried_fields :: "RecoveryCoordinatorState \<Rightarrow> CarriedFields" where
  "carried_fields (St_new op) = no_carried"
| "carried_fields (St_preparing i c) = no_carried\<lparr>cf_continuationJson := Some c\<rparr>"
| "carried_fields (St_committing i p n) = no_carried\<lparr>cf_commitIndex := Some n\<rparr>"
| "carried_fields (St_reconciling i p c) = no_carried\<lparr>cf_continuationJson := Some c\<rparr>"
| "carried_fields (St_releasing i p r n) = no_carried\<lparr>cf_releaseIndex := Some n\<rparr>"
| "carried_fields (St_catalog i p r) = no_carried"
| "carried_fields (St_complete i p r) = no_carried"

type_synonym carrying_state = "RecoveryCoordinatorState \<times> CarriedFields"

definition beginCommits :: "string \<Rightarrow> RecoveryProviderCounts \<Rightarrow> coordinator \<Rightarrow> (carrying_state \<times> coordinator) res" where
  "beginCommits operationId counts C =
     rbind (assertProviderCounts counts) (\<lambda>_.
     rbind (readOperation operationId C) (\<lambda>current. case current of
       St_new op \<Rightarrow> Inl co_invalid
     | St_preparing i c \<Rightarrow>
         rbind (update_operations (\<lambda>r. so_operation_id r = operationId)
           (\<lambda>r. r\<lparr>so_phase := Ph_committing, so_files := pc_files counts, so_files_retained := pc_filesRetained counts,
              so_vectors := pc_vectors counts, so_continuation_json := None\<rparr>) C) (\<lambda>C'.
         Inr ((St_committing i counts 0, carried_fields current), C'))
     | _ \<Rightarrow> rbind (ensure (state_provider current = Some counts) co_invalid) (\<lambda>_. Inr ((current, no_carried), C))))"

definition finishShards :: "string \<Rightarrow> string \<Rightarrow> int \<Rightarrow> coordinator \<Rightarrow> (carrying_state \<times> coordinator) res" where
  "finishShards operationId continuationJson shardCount C =
     rbind (checkContinuation continuationJson Kind_reconcile) (\<lambda>_.
     rbind (readOperation operationId C) (\<lambda>current. case current of
       St_committing i p commitIndex \<Rightarrow>
         rbind (ensure (safe_integer shardCount \<and> 1 \<le> shardCount \<and> shardCount \<le> 16384) co_invalid) (\<lambda>_.
         rbind (ensure (commitIndex = shardCount) co_invalid) (\<lambda>_.
         rbind (update_operations (\<lambda>r. so_operation_id r = operationId)
           (\<lambda>r. r\<lparr>so_phase := Ph_reconciling, so_continuation_json := Some continuationJson\<rparr>) C) (\<lambda>C'.
         Inr ((St_reconciling i p continuationJson, carried_fields current), C'))))
     | _ \<Rightarrow> Inr ((current, no_carried), C)))"

definition commit_row :: "string \<Rightarrow> string \<Rightarrow> coordinator \<Rightarrow> StoredCommit option" where
  "commit_row operationId objectId C = sql_one (\<lambda>r. commit_key r = (operationId, objectId)) (co_commits C)"

definition advanceShard :: "string \<Rightarrow> int \<Rightarrow> string \<Rightarrow> coordinator \<Rightarrow> (RecoveryCoordinatorState \<times> coordinator) res" where
  "advanceShard operationId index objectId C =
     rbind (readOperation operationId C) (\<lambda>current. case current of
       St_committing i p commitIndex \<Rightarrow>
         rbind (ensure (\<not> (\<not> safe_integer index \<or> index < 0 \<or> commitIndex \<noteq> index \<or> \<not> OBJECT_ID objectId)) co_invalid) (\<lambda>_.
         rbind (ensure (map_option sc_status (commit_row operationId objectId C) = Some Commit_scheduled) co_invalid) (\<lambda>_.
         let q = (\<lambda>r. so_operation_id r = operationId \<and> so_phase r = Ph_committing \<and> so_commit_index r = index) in
         rbind (update_operations q (\<lambda>r. r\<lparr>so_commit_index := so_commit_index r + 1\<rparr>) C) (\<lambda>C'.
         rbind (ensure (sql_changes q (co_operations C) = 1) co_invalid) (\<lambda>_.
         Inr (St_committing i p (index + 1), C')))))
     | _ \<Rightarrow> Inr (current, C))"

definition saveReconcile :: "string \<Rightarrow> string \<Rightarrow> coordinator \<Rightarrow> (RecoveryCoordinatorState \<times> coordinator) res" where
  "saveReconcile operationId continuationJson C =
     rbind (checkContinuation continuationJson Kind_reconcile) (\<lambda>_.
     rbind (readOperation operationId C) (\<lambda>current. case current of
       St_reconciling i p c \<Rightarrow>
         rbind (update_operations (\<lambda>r. so_operation_id r = operationId \<and> so_phase r = Ph_reconciling)
           (\<lambda>r. r\<lparr>so_continuation_json := Some continuationJson\<rparr>) C) (\<lambda>C'.
         Inr (St_reconciling i p continuationJson, C'))
     | _ \<Rightarrow> Inr (current, C)))"

definition beginReleases :: "string \<Rightarrow> RecoveryReconcileCounts \<Rightarrow> coordinator \<Rightarrow> (carrying_state \<times> coordinator) res" where
  "beginReleases operationId counts C =
     rbind (assertReconcileCounts counts) (\<lambda>_.
     rbind (readOperation operationId C) (\<lambda>current. case current of
       St_new op \<Rightarrow> Inl co_invalid
     | St_preparing i c \<Rightarrow> Inl co_invalid
     | St_committing i p n \<Rightarrow> Inl co_invalid
     | St_reconciling i p c \<Rightarrow>
         rbind (update_operations (\<lambda>r. so_operation_id r = operationId)
           (\<lambda>r. r\<lparr>so_phase := Ph_releasing, so_files_rehydrated := Some (rr_filesRehydrated counts),
              so_vectors_requeued := Some (rr_vectorsRequeued counts), so_continuation_json := None\<rparr>) C) (\<lambda>C'.
         Inr ((St_releasing i p counts 0, carried_fields current), C'))
     | _ \<Rightarrow> rbind (ensure (state_reconciled current = Some counts) co_invalid) (\<lambda>_. Inr ((current, no_carried), C))))"

definition advanceRelease :: "string \<Rightarrow> int \<Rightarrow> coordinator \<Rightarrow> (RecoveryCoordinatorState \<times> coordinator) res" where
  "advanceRelease operationId index C =
     rbind (readOperation operationId C) (\<lambda>current. case current of
       St_releasing i p r releaseIndex \<Rightarrow>
         rbind (ensure (\<not> (\<not> safe_integer index \<or> index < 0 \<or> releaseIndex \<noteq> index)) co_invalid) (\<lambda>_.
         let q = (\<lambda>r. so_operation_id r = operationId \<and> so_phase r = Ph_releasing \<and> so_release_index r = index) in
         rbind (update_operations q (\<lambda>r. r\<lparr>so_release_index := so_release_index r + 1\<rparr>) C) (\<lambda>C'.
         rbind (ensure (sql_changes q (co_operations C) = 1) co_invalid) (\<lambda>_.
         Inr (St_releasing i p r (index + 1), C'))))
     | _ \<Rightarrow> Inr (current, C))"

definition beginCatalog :: "string \<Rightarrow> int \<Rightarrow> coordinator \<Rightarrow> (carrying_state \<times> coordinator) res" where
  "beginCatalog operationId shardCount C =
     rbind (readOperation operationId C) (\<lambda>current. case current of
       St_releasing i p r releaseIndex \<Rightarrow>
         rbind (ensure (\<not> (\<not> safe_integer shardCount \<or> shardCount < 1 \<or> releaseIndex \<noteq> shardCount)) co_invalid) (\<lambda>_.
         rbind (update_operations (\<lambda>r. so_operation_id r = operationId) (\<lambda>r. r\<lparr>so_phase := Ph_catalog\<rparr>) C) (\<lambda>C'.
         Inr ((St_catalog i p r, carried_fields current), C')))
     | _ \<Rightarrow> Inr ((current, no_carried), C))"

text \<open>The completed operations past the newest 64 (\<open>ORDER BY rowid DESC LIMIT -1 OFFSET 64\<close>) go, their commits first.\<close>

definition beyond_retention :: "StoredOperation list \<Rightarrow> string list" where
  "beyond_retention t = map so_operation_id (drop MAX_TERMINAL_OPERATIONS (rev (filter (\<lambda>r. so_phase r = Ph_complete) t)))"

definition retain_terminal :: "coordinator \<Rightarrow> coordinator" where
  "retain_terminal C =
     C\<lparr>co_commits := sql_delete (\<lambda>s. sc_operation_id s \<in> set (beyond_retention (co_operations C))) (co_commits C),
       co_operations := sql_delete (\<lambda>r. so_operation_id r \<in> set (beyond_retention (co_operations C))) (co_operations C)\<rparr>"

definition completeRecovery :: "string \<Rightarrow> coordinator \<Rightarrow> (RecoveryCoordinatorState \<times> coordinator) res" where
  "completeRecovery operationId C =
     rbind (readOperation operationId C) (\<lambda>current. case current of
       St_complete i p r \<Rightarrow> Inr (current, C)
     | St_catalog i p r \<Rightarrow>
         rbind (update_operations (\<lambda>r. so_operation_id r = operationId) (\<lambda>r. r\<lparr>so_phase := Ph_complete\<rparr>) C) (\<lambda>C1.
         case co_clock C1 of
           Some (g, Some op) \<Rightarrow>
             rbind (ensure (op = operationId) co_invalid) (\<lambda>_.
             Inr (St_complete i p r, retain_terminal (C1\<lparr>co_clock := Some (g, None)\<rparr>)))
         | _ \<Rightarrow> Inl co_invalid)
     | _ \<Rightarrow> Inl co_invalid)"

definition beginObject :: "string \<Rightarrow> string \<Rightarrow> string \<Rightarrow> coordinator \<Rightarrow> (commit_status \<times> coordinator) res" where
  "beginObject operationId objectId bookmark C =
     rbind (readOperation operationId C) (\<lambda>operation.
     rbind (ensure (state_identity operation \<noteq> None) co_invalid) (\<lambda>_.
     rbind (ensure (OBJECT_ID objectId \<and> BOOKMARK bookmark) co_invalid) (\<lambda>_.
     case commit_row operationId objectId C of
       Some current \<Rightarrow> rbind (ensure (sc_bookmark current = bookmark) co_invalid) (\<lambda>_. Inr (sc_status current, C))
     | None \<Rightarrow>
         rbind (sql_insert commit_key (\<lambda>_. True)
           \<lparr> sc_operation_id = operationId, sc_object_id = objectId, sc_bookmark = bookmark, sc_status = Commit_intent \<rparr> (co_commits C)) (\<lambda>t.
         Inr (Commit_intent, C\<lparr>co_commits := t\<rparr>)))))"

definition finishObject :: "string \<Rightarrow> string \<Rightarrow> string \<Rightarrow> coordinator \<Rightarrow> (commit_status \<times> coordinator) res" where
  "finishObject operationId objectId bookmark C =
     rbind (beginObject operationId objectId bookmark C) (\<lambda>(current, C1).
     Inr (Commit_scheduled, if current \<noteq> Commit_scheduled
       then C1\<lparr>co_commits := sql_update (\<lambda>r. commit_key r = (operationId, objectId) \<and> sc_bookmark r = bookmark)
         (\<lambda>r. r\<lparr>sc_status := Commit_scheduled\<rparr>) (co_commits C1)\<rparr>
       else C1))"

text \<open>One successful method call of the store; \<open>M\<close> are the Resharder's tables at that moment.\<close>

inductive coordinator_step :: "reshard_tables \<Rightarrow> coordinator \<Rightarrow> coordinator \<Rightarrow> bool" for M where
  step_open: "open_coordinator C = Inr C' \<Longrightarrow> coordinator_step M C C'"
| step_claim: "claimPreparation M op d c C = Inr (v, C') \<Longrightarrow> coordinator_step M C C'"
| step_save: "savePreparation op c C = Inr (v, C') \<Longrightarrow> coordinator_step M C C'"
| step_cancel: "cancelPreparation op C = Inr (clock, C') \<Longrightarrow> coordinator_step M C C'"
| step_begin: "beginCommits op counts C = Inr (v, C') \<Longrightarrow> coordinator_step M C C'"
| step_advance: "advanceShard op n obj C = Inr (v, C') \<Longrightarrow> coordinator_step M C C'"
| step_finish: "finishShards op c n C = Inr (v, C') \<Longrightarrow> coordinator_step M C C'"
| step_reconcile_cursor: "saveReconcile op c C = Inr (v, C') \<Longrightarrow> coordinator_step M C C'"
| step_releases: "beginReleases op rc C = Inr (v, C') \<Longrightarrow> coordinator_step M C C'"
| step_release: "advanceRelease op n C = Inr (v, C') \<Longrightarrow> coordinator_step M C C'"
| step_catalog: "beginCatalog op n C = Inr (v, C') \<Longrightarrow> coordinator_step M C C'"
| step_complete: "completeRecovery op C = Inr (v, C') \<Longrightarrow> coordinator_step M C C'"
| step_object: "beginObject op obj b C = Inr (st, C') \<Longrightarrow> coordinator_step M C C'"
| step_object_done: "finishObject op obj b C = Inr (st, C') \<Longrightarrow> coordinator_step M C C'"

section \<open>The invariant\<close>

definition phase_rank :: "operation_phase \<Rightarrow> nat" where
  "phase_rank p = (case p of Ph_preparing \<Rightarrow> 0 | Ph_committing \<Rightarrow> 1 | Ph_reconciling \<Rightarrow> 2 | Ph_releasing \<Rightarrow> 3 | Ph_catalog \<Rightarrow> 4 | Ph_complete \<Rightarrow> 5)"

definition counted_column :: "int \<Rightarrow> bool" where
  "counted_column n \<longleftrightarrow> safe_integer n \<and> 0 \<le> n"

definition row_ok :: "StoredOperation \<Rightarrow> bool" where
  "row_ok r \<longleftrightarrow> RECOVERY_OPERATION_ID (so_operation_id r) \<and> hex_digest (so_digest r) \<and> operation_row_check r \<and>
     list_all counted_column [so_generation r, so_files r, so_files_retained r, so_vectors r] \<and>
     (\<forall>n \<in> set_option (so_files_rehydrated r) \<union> set_option (so_vectors_requeued r). counted_column n) \<and>
     (so_phase r = Ph_preparing \<longrightarrow> so_commit_index r = 0 \<and>
        (\<exists>c. so_continuation_json r = Some c \<and> checkContinuation c Kind_restore = Inr ())) \<and>
     (phase_rank (so_phase r) < phase_rank Ph_releasing \<longrightarrow> so_release_index r = 0) \<and>
     (so_phase r = Ph_reconciling \<longrightarrow> (\<exists>c. so_continuation_json r = Some c \<and> checkContinuation c Kind_reconcile = Inr ()))"

text \<open>The active operation is the last row of the table and carries the clock's generation; all others are complete.\<close>

definition active_shape :: "int \<Rightarrow> string option \<Rightarrow> StoredOperation list \<Rightarrow> bool" where
  "active_shape g a t \<longleftrightarrow> (case a of
       None \<Rightarrow> \<forall>r \<in> set t. so_phase r = Ph_complete
     | Some op \<Rightarrow> t \<noteq> [] \<and> so_operation_id (last t) = op \<and> so_generation (last t) = g \<and> so_phase (last t) \<noteq> Ph_complete \<and>
         (\<forall>r \<in> set (butlast t). so_phase r = Ph_complete))"

definition operations_ok :: "int \<Rightarrow> StoredOperation list \<Rightarrow> bool" where
  "operations_ok g t \<longleftrightarrow> (\<forall>r \<in> set t. row_ok r \<and> so_generation r \<le> g) \<and> sorted_wrt (\<lambda>r s. so_generation r < so_generation s) t \<and>
     distinct (map so_operation_id t) \<and> length (filter (\<lambda>r. so_phase r = Ph_complete) t) \<le> MAX_TERMINAL_OPERATIONS"

definition commits_ok :: "StoredOperation list \<Rightarrow> StoredCommit list \<Rightarrow> bool" where
  "commits_ok t u \<longleftrightarrow> distinct (map commit_key u) \<and> sc_operation_id ` set u \<subseteq> so_operation_id ` set t"

definition coordinator_inv :: "coordinator \<Rightarrow> bool" where
  "coordinator_inv C \<longleftrightarrow> commits_ok (co_operations C) (co_commits C) \<and>
     (case co_clock C of
        None \<Rightarrow> co_operations C = []
      | Some (g, a) \<Rightarrow> counted_column g \<and> operations_ok g (co_operations C) \<and> active_shape g a (co_operations C))"

lemma co_count_Inr [result_simps]: "co_count v = Inr n \<longleftrightarrow> n = (case v of None \<Rightarrow> 0 | Some m \<Rightarrow> m) \<and> counted_column n"
  by (auto simp: co_count_def Let_def result_simps counted_column_def)

lemma check_unit: "checkContinuation c k = Inr u \<longleftrightarrow> checkContinuation c k = Inr ()"
  by simp

lemma assertProviderCounts_Inr: "assertProviderCounts v = Inr u \<longleftrightarrow> list_all counted_column [pc_files v, pc_filesRetained v, pc_vectors v]"
  by (auto simp: assertProviderCounts_def result_simps)

lemma assertReconcileCounts_Inr: "assertReconcileCounts v = Inr u \<longleftrightarrow> list_all counted_column [rr_filesRehydrated v, rr_vectorsRequeued v]"
  by (auto simp: assertReconcileCounts_def result_simps)

fun state_phase :: "RecoveryCoordinatorState \<Rightarrow> operation_phase option" where
  "state_phase (St_new op) = None"
| "state_phase (St_preparing i c) = Some Ph_preparing"
| "state_phase (St_committing i p n) = Some Ph_committing"
| "state_phase (St_reconciling i p c) = Some Ph_reconciling"
| "state_phase (St_releasing i p r n) = Some Ph_releasing"
| "state_phase (St_catalog i p r) = Some Ph_catalog"
| "state_phase (St_complete i p r) = Some Ph_complete"

definition row_identity :: "StoredOperation \<Rightarrow> RecoveryIdentity" where
  "row_identity r = \<lparr> ri_operationId = so_operation_id r, ri_digest = so_digest r, ri_generation = so_generation r \<rparr>"

definition row_provider :: "StoredOperation \<Rightarrow> RecoveryProviderCounts" where
  "row_provider r = \<lparr> pc_files = so_files r, pc_filesRetained = so_files_retained r, pc_vectors = so_vectors r \<rparr>"

definition row_reconciled :: "StoredOperation \<Rightarrow> RecoveryReconcileCounts" where
  "row_reconciled r = \<lparr> rr_filesRehydrated = (case so_files_rehydrated r of None \<Rightarrow> 0 | Some n \<Rightarrow> n),
     rr_vectorsRequeued = (case so_vectors_requeued r of None \<Rightarrow> 0 | Some n \<Rightarrow> n) \<rparr>"

lemmas row_parts = row_identity_def row_provider_def row_reconciled_def

text \<open>What a row reads as.\<close>

definition row_state :: "StoredOperation \<Rightarrow> RecoveryCoordinatorState" where
  "row_state r = (case so_phase r of
       Ph_preparing \<Rightarrow> St_preparing (row_identity r) (the (so_continuation_json r))
     | Ph_committing \<Rightarrow> St_committing (row_identity r) (row_provider r) (so_commit_index r)
     | Ph_reconciling \<Rightarrow> St_reconciling (row_identity r) (row_provider r) (the (so_continuation_json r))
     | Ph_releasing \<Rightarrow> St_releasing (row_identity r) (row_provider r) (row_reconciled r) (so_release_index r)
     | Ph_catalog \<Rightarrow> St_catalog (row_identity r) (row_provider r) (row_reconciled r)
     | Ph_complete \<Rightarrow> St_complete (row_identity r) (row_provider r) (row_reconciled r))"

lemma project_state: "projectOperation r = Inr v \<Longrightarrow> v = row_state r"
  by (cases "so_phase r") (auto simp: projectOperation_def Let_def result_simps row_state_def row_parts split: option.splits)

lemma co_count_ok: "counted_column (case v of None \<Rightarrow> 0 | Some n \<Rightarrow> n) \<Longrightarrow> co_count v = Inr (case v of None \<Rightarrow> 0 | Some n \<Rightarrow> n)"
  by (simp add: co_count_Inr)

definition index_safe :: "StoredOperation \<Rightarrow> bool" where
  "index_safe r \<longleftrightarrow> (so_phase r = Ph_committing \<longrightarrow> safe_integer (so_commit_index r)) \<and> (so_phase r = Ph_releasing \<longrightarrow> safe_integer (so_release_index r))"

lemma project_ok:
  assumes "row_ok r" and "index_safe r"
  shows "projectOperation r = Inr (row_state r)"
proof -
  have "counted_column 0" by (simp add: counted_column_def safe_integer_def)
  then have "counted_column (case so_files_rehydrated r of None \<Rightarrow> 0 | Some n \<Rightarrow> n)" "counted_column (case so_vectors_requeued r of None \<Rightarrow> 0 | Some n \<Rightarrow> n)"
    using assms(1) by (auto simp: row_ok_def split: option.splits)
  moreover have "so_phase r = Ph_committing \<longrightarrow> counted_column (so_commit_index r)" "so_phase r = Ph_releasing \<longrightarrow> counted_column (so_release_index r)"
    using assms by (auto simp: row_ok_def operation_row_check_def counted_column_def index_safe_def)
  ultimately show ?thesis using assms(1)
    by (cases "so_phase r") (auto simp: projectOperation_def row_state_def row_parts row_ok_def co_count_ok Let_def)
qed

lemma row_state_simps [simp]:
  "state_phase (row_state r) = Some (so_phase r)" "state_identity (row_state r) = Some (row_identity r)"
  "row_state r \<noteq> St_new op"
  by (cases "so_phase r"; simp add: row_state_def)+

lemma row_state_eq:
  "row_state r = St_preparing i c \<longleftrightarrow> so_phase r = Ph_preparing \<and> i = row_identity r \<and> c = the (so_continuation_json r)"
  "row_state r = St_committing i p n \<longleftrightarrow> so_phase r = Ph_committing \<and> i = row_identity r \<and> p = row_provider r \<and> n = so_commit_index r"
  "row_state r = St_reconciling i p c \<longleftrightarrow> so_phase r = Ph_reconciling \<and> i = row_identity r \<and> p = row_provider r \<and> c = the (so_continuation_json r)"
  "row_state r = St_releasing i p q n \<longleftrightarrow>
     so_phase r = Ph_releasing \<and> i = row_identity r \<and> p = row_provider r \<and> q = row_reconciled r \<and> n = so_release_index r"
  "row_state r = St_catalog i p q \<longleftrightarrow> so_phase r = Ph_catalog \<and> i = row_identity r \<and> p = row_provider r \<and> q = row_reconciled r"
  "row_state r = St_complete i p q \<longleftrightarrow> so_phase r = Ph_complete \<and> i = row_identity r \<and> p = row_provider r \<and> q = row_reconciled r"
  by (cases "so_phase r"; auto simp: row_state_def)+

lemma read_cases:
  assumes "readOperation op C = Inr v"
  shows "RECOVERY_OPERATION_ID op \<and>
    (v = St_new op \<and> op \<notin> so_operation_id ` set (co_operations C) \<or>
     (\<exists>r \<in> set (co_operations C). so_operation_id r = op \<and> v = row_state r))"
proof (cases "operation_row op C")
  case None
  then show ?thesis using assms sql_one_None_iff [of "\<lambda>r. so_operation_id r = op" "co_operations C"]
    by (auto simp: readOperation_def assertOperation_def operation_row_def result_simps)
next
  case (Some r)
  then have "r \<in> set (co_operations C)" "so_operation_id r = op"
    by (auto simp: operation_row_def dest!: sql_one_SomeD)
  then show ?thesis using assms Some project_state
    by (auto simp: readOperation_def assertOperation_def result_simps)
qed

lemma read_row:
  assumes "readOperation op C = Inr v" and "state_phase v = Some p"
  obtains r where "r \<in> set (co_operations C)" "so_operation_id r = op" "v = row_state r" "so_phase r = p"
  using read_cases [OF assms(1)] assms(2) by auto

text \<open>An operation that is not complete is the last row.\<close>

lemma active_split:
  assumes "coordinator_inv C" and "r \<in> set (co_operations C)" and "so_phase r \<noteq> Ph_complete"
  obtains rs g where "co_operations C = rs @ [r]" "co_clock C = Some (g, Some (so_operation_id r))" "so_generation r = g"
    "\<forall>s \<in> set rs. so_phase s = Ph_complete \<and> so_operation_id s \<noteq> so_operation_id r"
proof -
  obtain g a where clock: "co_clock C = Some (g, a)" using assms(1,2) by (auto simp: coordinator_inv_def split: option.splits)
  with assms(1) have inv: "operations_ok g (co_operations C)" "active_shape g a (co_operations C)" by (auto simp: coordinator_inv_def)
  obtain op where op: "a = Some op" using inv(2) assms(2,3) by (auto simp: active_shape_def split: option.splits)
  with inv(2) obtain rs s where t: "co_operations C = rs @ [s]" by (cases "co_operations C" rule: rev_cases) (auto simp: active_shape_def)
  have "s = r" using inv(2) assms(2,3) by (auto simp: op t active_shape_def)
  with t inv have "\<forall>u \<in> set rs. so_phase u = Ph_complete \<and> so_operation_id u \<noteq> so_operation_id r" "so_generation r = g" "op = so_operation_id r"
    by (auto simp: op active_shape_def operations_ok_def image_iff)
  with that [of rs g] t clock show thesis by (simp add: op \<open>s = r\<close>)
qed


section \<open>What a call changes\<close>

text \<open>
  The abstract coordinator. A successful call leaves the tables alone, rewrites the active operation (the last row) inside its life
  cycle, claims a new one, drops the active one while it prepares, completes it, or adds to the commits.
\<close>

definition evolves :: "StoredOperation \<Rightarrow> StoredOperation \<Rightarrow> bool" where
  "evolves r r' \<longleftrightarrow> row_identity r' = row_identity r \<and> phase_rank (so_phase r) \<le> phase_rank (so_phase r') \<and>
     (so_phase r \<noteq> Ph_preparing \<longrightarrow> row_provider r' = row_provider r) \<and>
     (phase_rank Ph_releasing \<le> phase_rank (so_phase r) \<longrightarrow> row_reconciled r' = row_reconciled r) \<and>
     so_commit_index r \<le> so_commit_index r' \<and> so_release_index r \<le> so_release_index r'"

definition commits_grow :: "StoredCommit list \<Rightarrow> StoredCommit list \<Rightarrow> bool" where
  "commits_grow u u' \<longleftrightarrow> (\<forall>s \<in> set u. \<exists>s' \<in> set u'. commit_key s' = commit_key s \<and> sc_bookmark s' = sc_bookmark s \<and>
     (sc_status s = Commit_scheduled \<longrightarrow> sc_status s' = Commit_scheduled))"

inductive coordinator_change :: "reshard_tables \<Rightarrow> coordinator \<Rightarrow> coordinator \<Rightarrow> bool" for M where
  unchanged: "coordinator_change M C C"
| opened: "co_clock C = None \<Longrightarrow> coordinator_change M C (C\<lparr>co_clock := Some (0, None)\<rparr>)"
| retired: "coordinator_change M C C' \<Longrightarrow> coordinator_change M C (C'\<lparr>co_legacy := l\<rparr>)"
| rewritten: "co_operations C = rs @ [r] \<Longrightarrow> so_phase r \<noteq> Ph_complete \<Longrightarrow> so_phase r' \<noteq> Ph_complete \<Longrightarrow> row_ok r' \<Longrightarrow> evolves r r' \<Longrightarrow>
    coordinator_change M C (C\<lparr>co_operations := rs @ [r']\<rparr>)"
| claimed: "co_clock C = Some (g, None) \<Longrightarrow> assertNoReshard M = Inr () \<Longrightarrow> row_ok r \<Longrightarrow> so_phase r = Ph_preparing \<Longrightarrow> so_generation r = g + 1 \<Longrightarrow>
    so_operation_id r \<notin> so_operation_id ` set (co_operations C) \<Longrightarrow>
    coordinator_change M C (C\<lparr>co_operations := co_operations C @ [r], co_clock := Some (g + 1, Some (so_operation_id r))\<rparr>)"
| cancelled: "co_operations C = rs @ [r] \<Longrightarrow> so_phase r = Ph_preparing \<Longrightarrow> co_clock C = Some (g, Some (so_operation_id r)) \<Longrightarrow>
    coordinator_change M C (C\<lparr>co_operations := rs, co_commits := sql_delete (\<lambda>s. sc_operation_id s = so_operation_id r) (co_commits C),
      co_clock := Some (g, None)\<rparr>)"
| finished: "co_operations C = rs @ [r] \<Longrightarrow> so_phase r = Ph_catalog \<Longrightarrow> co_clock C = Some (g, Some (so_operation_id r)) \<Longrightarrow>
    coordinator_change M C (retain_terminal (C\<lparr>co_operations := rs @ [r\<lparr>so_phase := Ph_complete\<rparr>], co_clock := Some (g, None)\<rparr>))"
| committed: "commits_grow (co_commits C) u \<Longrightarrow> commits_ok (co_operations C) u \<Longrightarrow> coordinator_change M C (C\<lparr>co_commits := u\<rparr>)"

lemma update_last:
  assumes "p r" and "\<forall>s \<in> set rs. \<not> p s" and "co_operations C = rs @ [r]"
    and "update_operations p f C = Inr C'"
  shows "C' = C\<lparr>co_operations := rs @ [f r]\<rparr> \<and> operation_row_check (f r)"
proof -
  have "sql_update p f rs = rs" using assms(2) by (intro sql_update_id) blast
  then have "sql_update p f (rs @ [r]) = rs @ [f r]" using assms(1) by (simp add: sql_update_def)
  then show ?thesis using assms by (auto simp: update_operations_def result_simps)
qed

text \<open>The rewrite of the active operation, found by its identifier and perhaps a guard that holds of it.\<close>

lemma rewrite_step:
  assumes "coordinator_inv C" and "r \<in> set (co_operations C)" and "so_phase r \<noteq> Ph_complete" and "p r"
    and "\<And>s. p s \<Longrightarrow> so_operation_id s = so_operation_id r" and "update_operations p f C = Inr C'"
    and "operation_row_check (f r) \<Longrightarrow> row_ok r \<Longrightarrow> row_ok (f r) \<and> so_phase (f r) \<noteq> Ph_complete \<and> evolves r (f r)"
  shows "coordinator_change M C C' \<and> (index_safe (f r) \<longrightarrow> readOperation (so_operation_id r) C' = Inr (row_state (f r)))"
proof -
  from assms(1-3) obtain rs g where t: "co_operations C = rs @ [r]" "\<forall>s \<in> set rs. so_operation_id s \<noteq> so_operation_id r"
    "co_clock C = Some (g, Some (so_operation_id r))"
    by (rule active_split) blast
  then have "\<forall>s \<in> set rs. \<not> p s" using assms(5) by metis
  with update_last [of p r rs C f C'] assms(4,6) t have C': "C' = C\<lparr>co_operations := rs @ [f r]\<rparr>" "operation_row_check (f r)" by auto
  have ok: "row_ok r" "RECOVERY_OPERATION_ID (so_operation_id r)" using assms(1) t by (auto simp: coordinator_inv_def operations_ok_def row_ok_def)
  have f: "row_ok (f r)" "so_phase (f r) \<noteq> Ph_complete" "evolves r (f r)" using assms(7) C'(2) ok(1) by auto
  have "sql_one (\<lambda>s. so_operation_id s = so_operation_id r) rs = None" using t(2) by (auto simp: sql_one_None_iff)
  then have "operation_row (so_operation_id r) C' = Some (f r)"
    using f(3) by (simp add: operation_row_def C'(1) sql_one_append_new evolves_def row_identity_def)
  then have "index_safe (f r) \<longrightarrow> readOperation (so_operation_id r) C' = Inr (row_state (f r))"
    using ok(2) project_ok [OF f(1)] by (simp add: readOperation_def assertOperation_def)
  moreover have "coordinator_change M C C'" unfolding C'(1) using assms(3) f t by (intro rewritten) auto
  ultimately show ?thesis by blast
qed

lemma open_change: "open_coordinator C = Inr C' \<Longrightarrow> coordinator_change M C C'"
proof -
  assume opens: "open_coordinator C = Inr C'"
  let ?C1 = "C\<lparr>co_clock := (case co_clock C of None \<Rightarrow> Some (0, None) | Some c \<Rightarrow> Some c)\<rparr>"
  have first: "coordinator_change M C ?C1"
  proof (cases "co_clock C")
    case None
    then show ?thesis using opened [of C M] by simp
  next
    case (Some c)
    then have "?C1 = C" by simp
    then show ?thesis using unchanged [of M C] by simp
  qed
  have "C' = ?C1 \<or> C' = ?C1\<lparr>co_legacy := None\<rparr>"
    using opens by (auto simp: open_coordinator_def retireLegacyCoordinator_def result_simps split: option.splits)
  then show ?thesis using first retired [OF first] by auto
qed

lemma clock_active:
  assumes "admissionClock C = Inr k"
  shows "\<exists>g a. co_clock C = Some (g, a) \<and> counted_column g \<and> clock_generation k = g \<and> clock_activeOperationId k = a \<and>
    (a = None \<longleftrightarrow> clock_activeDigest k = None)"
  using assms by (auto simp: admissionClock_def operation_row_def result_simps split: option.splits dest!: sql_one_SomeD)

lemma claim_change:
  assumes inv: "coordinator_inv C" and claim: "claimPreparation M op d c C = Inr (v, C')"
  shows "coordinator_change M C C'"
proof -
  obtain existing where op: "RECOVERY_OPERATION_ID op" "hex_digest d" "checkContinuation c Kind_restore = Inr ()"
    and e: "readOperation op C = Inr existing"
    using claim by (auto simp: claimPreparation_def assertOperation_def assertDigest_def result_simps)
  show ?thesis
  proof (cases "state_identity existing")
    case (Some i)
    then have "C' = C" using claim e op by (simp add: claimPreparation_def assertOperation_def assertDigest_def result_simps)
    then show ?thesis by (simp add: unchanged)
  next
    case None
    with e have new: "op \<notin> so_operation_id ` set (co_operations C)" using read_cases by fastforce
    obtain k where k: "admissionClock C = Inr k" using claim e op None
      by (auto simp: claimPreparation_def assertOperation_def assertDigest_def result_simps)
    show ?thesis
    proof (cases "clock_activeOperationId k \<in> {None, Some []}")
      case False
      then have "C' = C" using claim e op None k by (auto simp: claimPreparation_def assertOperation_def assertDigest_def result_simps)
      then show ?thesis by (simp add: unchanged)
    next
      case True
      from clock_active [OF k] obtain g a where g: "co_clock C = Some (g, a)" "counted_column g" "clock_generation k = g" "clock_activeOperationId k = a"
        by blast
      have "\<not> RECOVERY_OPERATION_ID []" by (simp add: RECOVERY_OPERATION_ID_def)
      then have "\<forall>r \<in> set (co_operations C). so_operation_id r \<noteq> []"
        using inv g(1) by (auto simp: coordinator_inv_def operations_ok_def row_ok_def)
      then have "\<not> active_shape g (Some []) (co_operations C)" by (auto simp: active_shape_def)
      with inv g True have a: "a = None" by (auto simp: coordinator_inv_def)
      let ?r = "claimed_row op d (g + 1) c"
      have free: "assertNoReshard M = Inr ()" "g < 9007199254740991" "operation_row_check ?r"
        and C': "C' = C\<lparr>co_operations := co_operations C @ [?r], co_clock := Some (g + 1, Some op)\<rparr>"
        using claim e op None k g True a
        by (auto simp: claimPreparation_def assertOperation_def assertDigest_def result_simps Let_def)
      have "row_ok ?r" using op free g
        by (auto simp: row_ok_def claimed_row_def counted_column_def safe_integer_def phase_rank_def)
      then show ?thesis using claimed [of C g M ?r] g a free new by (simp add: C' claimed_row_def)
    qed
  qed
qed


text \<open>
  Each method that rewrites the active operation, with the state it answers: the one the next read finds. Only the two cursors that count
  up can leave the safe integers.
\<close>

lemmas rewrite_simps = row_ok_def operation_row_check_def evolves_def row_parts counted_column_def phase_rank_def

lemmas answer_simps = row_state_def row_parts index_safe_def

text \<open>The fields carried beside an answer: those of the state read before, when the phase changed.\<close>

definition carried_by :: "string \<Rightarrow> coordinator \<Rightarrow> RecoveryCoordinatorState \<Rightarrow> CarriedFields \<Rightarrow> bool" where
  "carried_by op C v k \<longleftrightarrow> (\<exists>s. readOperation op C = Inr s \<and> k = (if state_phase s = state_phase v then no_carried else carried_fields s))"

lemma save_change:
  assumes inv: "coordinator_inv C" and call: "savePreparation op c C = Inr (v, C')"
  shows "coordinator_change M C C' \<and> readOperation op C' = Inr v"
proof -
  obtain s where s: "readOperation op C = Inr s"
    using call by (auto simp: savePreparation_def rbind_eq_Inr ensure_eq_Inr assertProviderCounts_Inr assertReconcileCounts_Inr)
  show ?thesis
  proof (cases "state_phase s = Some Ph_preparing")
    case True
    from read_row [OF s True] obtain r where r: "r \<in> set (co_operations C)" "so_operation_id r = op" "s = row_state r" "so_phase r = Ph_preparing" .
    obtain i c0 where st: "s = St_preparing i c0" using True by (cases s) auto
    note parts = st [unfolded r(3) row_state_eq]
    have u: "update_operations (\<lambda>r. so_operation_id r = op \<and> so_phase r = Ph_preparing) (\<lambda>r. r\<lparr>so_continuation_json := Some c\<rparr>) C = Inr C'" and v: "v = St_preparing i c" and k: "checkContinuation c Kind_restore = Inr ()"
      using call s st by (auto simp: savePreparation_def rbind_eq_Inr ensure_eq_Inr Let_def)
    have ok: "row_ok r" using inv r(1) by (auto simp: coordinator_inv_def operations_ok_def split: option.splits)
    have "coordinator_change M C C' \<and> (index_safe ((\<lambda>r. r\<lparr>so_continuation_json := Some c\<rparr>) r) \<longrightarrow> readOperation (so_operation_id r) C' = Inr (row_state ((\<lambda>r. r\<lparr>so_continuation_json := Some c\<rparr>) r)))"
      by (rule rewrite_step [OF inv r(1) _ _ _ u]) (use r parts k in \<open>auto simp: rewrite_simps\<close>)
    moreover have "row_state ((\<lambda>r. r\<lparr>so_continuation_json := Some c\<rparr>) r) = v" using ok r parts v k by (auto simp: answer_simps row_ok_def phase_rank_def)
    moreover have "index_safe ((\<lambda>r. r\<lparr>so_continuation_json := Some c\<rparr>) r)" using ok r parts v k by (auto simp: index_safe_def row_ok_def phase_rank_def safe_integer_def)
    ultimately show ?thesis by (simp add: r(2))
  next
    case False
    then have "C' = C \<and> v = s" using call s by (cases s) (auto simp: savePreparation_def rbind_eq_Inr ensure_eq_Inr)
    then show ?thesis using s by (simp add: unchanged)
  qed
qed

lemma begin_change:
  assumes inv: "coordinator_inv C" and call: "beginCommits op counts C = Inr ((v, k), C')"
  shows "coordinator_change M C C' \<and> readOperation op C' = Inr v \<and> carried_by op C v k"
proof -
  obtain s where counts: "list_all counted_column [pc_files counts, pc_filesRetained counts, pc_vectors counts]" and s: "readOperation op C = Inr s"
    using call by (auto simp: beginCommits_def rbind_eq_Inr ensure_eq_Inr assertProviderCounts_Inr assertReconcileCounts_Inr)
  have c: "assertProviderCounts counts = Inr ()" using counts by (simp add: assertProviderCounts_Inr)
  show ?thesis
  proof (cases "state_phase s = Some Ph_preparing")
    case True
    from read_row [OF s True] obtain r where r: "r \<in> set (co_operations C)" "so_operation_id r = op" "s = row_state r" "so_phase r = Ph_preparing" .
    obtain i c0 where st: "s = St_preparing i c0" using True by (cases s) auto
    note parts = st [unfolded r(3) row_state_eq]
    have u: "update_operations (\<lambda>r. so_operation_id r = op) (\<lambda>r. r\<lparr>so_phase := Ph_committing, so_files := pc_files counts, so_files_retained := pc_filesRetained counts, so_vectors := pc_vectors counts, so_continuation_json := None\<rparr>) C = Inr C'" and v: "k = carried_fields s" "v = St_committing i counts 0"
      using call s st c by (auto simp: beginCommits_def rbind_eq_Inr ensure_eq_Inr Let_def)
    have ok: "row_ok r" using inv r(1) by (auto simp: coordinator_inv_def operations_ok_def split: option.splits)
    have "coordinator_change M C C' \<and> (index_safe ((\<lambda>r. r\<lparr>so_phase := Ph_committing, so_files := pc_files counts, so_files_retained := pc_filesRetained counts, so_vectors := pc_vectors counts, so_continuation_json := None\<rparr>) r) \<longrightarrow> readOperation (so_operation_id r) C' = Inr (row_state ((\<lambda>r. r\<lparr>so_phase := Ph_committing, so_files := pc_files counts, so_files_retained := pc_filesRetained counts, so_vectors := pc_vectors counts, so_continuation_json := None\<rparr>) r)))"
      by (rule rewrite_step [OF inv r(1) _ _ _ u]) (use r parts counts in \<open>auto simp: rewrite_simps\<close>)
    moreover have "row_state ((\<lambda>r. r\<lparr>so_phase := Ph_committing, so_files := pc_files counts, so_files_retained := pc_filesRetained counts, so_vectors := pc_vectors counts, so_continuation_json := None\<rparr>) r) = v" using ok r parts v counts by (auto simp: answer_simps row_ok_def phase_rank_def)
    moreover have "index_safe ((\<lambda>r. r\<lparr>so_phase := Ph_committing, so_files := pc_files counts, so_files_retained := pc_filesRetained counts, so_vectors := pc_vectors counts, so_continuation_json := None\<rparr>) r)" using ok r parts v counts by (auto simp: index_safe_def row_ok_def phase_rank_def safe_integer_def)
    ultimately show ?thesis using v st s by (simp add: r(2) carried_by_def)
  next
    case False
    then have "C' = C \<and> v = s \<and> k = no_carried" using call s c by (cases s) (auto simp: beginCommits_def rbind_eq_Inr ensure_eq_Inr)
    then show ?thesis using s by (simp add: unchanged carried_by_def)
  qed
qed

lemma finish_change:
  assumes inv: "coordinator_inv C" and call: "finishShards op c n C = Inr ((v, k), C')"
  shows "coordinator_change M C C' \<and> readOperation op C' = Inr v \<and> carried_by op C v k"
proof -
  obtain s where c: "checkContinuation c Kind_reconcile = Inr ()" and s: "readOperation op C = Inr s"
    using call by (auto simp: finishShards_def rbind_eq_Inr ensure_eq_Inr assertProviderCounts_Inr assertReconcileCounts_Inr)
  show ?thesis
  proof (cases "state_phase s = Some Ph_committing")
    case True
    from read_row [OF s True] obtain r where r: "r \<in> set (co_operations C)" "so_operation_id r = op" "s = row_state r" "so_phase r = Ph_committing" .
    obtain i p m where st: "s = St_committing i p m" using True by (cases s) auto
    note parts = st [unfolded r(3) row_state_eq]
    have u: "update_operations (\<lambda>r. so_operation_id r = op) (\<lambda>r. r\<lparr>so_phase := Ph_reconciling, so_continuation_json := Some c\<rparr>) C = Inr C'" and v: "k = carried_fields s" "v = St_reconciling i p c"
      using call s st c by (auto simp: finishShards_def rbind_eq_Inr ensure_eq_Inr Let_def)
    have ok: "row_ok r" using inv r(1) by (auto simp: coordinator_inv_def operations_ok_def split: option.splits)
    have "coordinator_change M C C' \<and> (index_safe ((\<lambda>r. r\<lparr>so_phase := Ph_reconciling, so_continuation_json := Some c\<rparr>) r) \<longrightarrow> readOperation (so_operation_id r) C' = Inr (row_state ((\<lambda>r. r\<lparr>so_phase := Ph_reconciling, so_continuation_json := Some c\<rparr>) r)))"
      by (rule rewrite_step [OF inv r(1) _ _ _ u]) (use r parts c in \<open>auto simp: rewrite_simps\<close>)
    moreover have "row_state ((\<lambda>r. r\<lparr>so_phase := Ph_reconciling, so_continuation_json := Some c\<rparr>) r) = v" using ok r parts v c by (auto simp: answer_simps row_ok_def phase_rank_def)
    moreover have "index_safe ((\<lambda>r. r\<lparr>so_phase := Ph_reconciling, so_continuation_json := Some c\<rparr>) r)" using ok r parts v c by (auto simp: index_safe_def row_ok_def phase_rank_def safe_integer_def)
    ultimately show ?thesis using v st s by (simp add: r(2) carried_by_def)
  next
    case False
    then have "C' = C \<and> v = s \<and> k = no_carried" using call s c by (cases s) (auto simp: finishShards_def rbind_eq_Inr ensure_eq_Inr)
    then show ?thesis using s by (simp add: unchanged carried_by_def)
  qed
qed

lemma advance_change:
  assumes inv: "coordinator_inv C" and call: "advanceShard op n obj C = Inr (v, C')"
  shows "coordinator_change M C C' \<and> (safe_integer (n + 1) \<longrightarrow> readOperation op C' = Inr v)"
proof -
  obtain s where s: "readOperation op C = Inr s"
    using call by (auto simp: advanceShard_def rbind_eq_Inr ensure_eq_Inr assertProviderCounts_Inr assertReconcileCounts_Inr)
  show ?thesis
  proof (cases "state_phase s = Some Ph_committing")
    case True
    from read_row [OF s True] obtain r where r: "r \<in> set (co_operations C)" "so_operation_id r = op" "s = row_state r" "so_phase r = Ph_committing" .
    obtain i p m where st: "s = St_committing i p m" using True by (cases s) auto
    note parts = st [unfolded r(3) row_state_eq]
    have u: "update_operations (\<lambda>r. so_operation_id r = op \<and> so_phase r = Ph_committing \<and> so_commit_index r = n) (\<lambda>r. r\<lparr>so_commit_index := so_commit_index r + 1\<rparr>) C = Inr C'" and v: "v = St_committing i p (n + 1)" and n: "m = n"
      using call s st by (auto simp: advanceShard_def rbind_eq_Inr ensure_eq_Inr Let_def)
    have ok: "row_ok r" using inv r(1) by (auto simp: coordinator_inv_def operations_ok_def split: option.splits)
    have "coordinator_change M C C' \<and> (index_safe ((\<lambda>r. r\<lparr>so_commit_index := so_commit_index r + 1\<rparr>) r) \<longrightarrow> readOperation (so_operation_id r) C' = Inr (row_state ((\<lambda>r. r\<lparr>so_commit_index := so_commit_index r + 1\<rparr>) r)))"
      by (rule rewrite_step [OF inv r(1) _ _ _ u]) (use r parts n in \<open>auto simp: rewrite_simps\<close>)
    moreover have "row_state ((\<lambda>r. r\<lparr>so_commit_index := so_commit_index r + 1\<rparr>) r) = v" using ok r parts v n by (auto simp: answer_simps row_ok_def phase_rank_def)
    moreover have "safe_integer (n + 1) \<longrightarrow> index_safe ((\<lambda>r. r\<lparr>so_commit_index := so_commit_index r + 1\<rparr>) r)" using ok r parts v n by (auto simp: index_safe_def row_ok_def phase_rank_def safe_integer_def)
    ultimately show ?thesis by (simp add: r(2))
  next
    case False
    then have "C' = C \<and> v = s" using call s by (cases s) (auto simp: advanceShard_def rbind_eq_Inr ensure_eq_Inr)
    then show ?thesis using s by (simp add: unchanged)
  qed
qed

lemma save_reconcile_change:
  assumes inv: "coordinator_inv C" and call: "saveReconcile op c C = Inr (v, C')"
  shows "coordinator_change M C C' \<and> readOperation op C' = Inr v"
proof -
  obtain s where c: "checkContinuation c Kind_reconcile = Inr ()" and s: "readOperation op C = Inr s"
    using call by (auto simp: saveReconcile_def rbind_eq_Inr ensure_eq_Inr assertProviderCounts_Inr assertReconcileCounts_Inr)
  show ?thesis
  proof (cases "state_phase s = Some Ph_reconciling")
    case True
    from read_row [OF s True] obtain r where r: "r \<in> set (co_operations C)" "so_operation_id r = op" "s = row_state r" "so_phase r = Ph_reconciling" .
    obtain i p c0 where st: "s = St_reconciling i p c0" using True by (cases s) auto
    note parts = st [unfolded r(3) row_state_eq]
    have u: "update_operations (\<lambda>r. so_operation_id r = op \<and> so_phase r = Ph_reconciling) (\<lambda>r. r\<lparr>so_continuation_json := Some c\<rparr>) C = Inr C'" and v: "v = St_reconciling i p c"
      using call s st c by (auto simp: saveReconcile_def rbind_eq_Inr ensure_eq_Inr Let_def)
    have ok: "row_ok r" using inv r(1) by (auto simp: coordinator_inv_def operations_ok_def split: option.splits)
    have "coordinator_change M C C' \<and> (index_safe ((\<lambda>r. r\<lparr>so_continuation_json := Some c\<rparr>) r) \<longrightarrow> readOperation (so_operation_id r) C' = Inr (row_state ((\<lambda>r. r\<lparr>so_continuation_json := Some c\<rparr>) r)))"
      by (rule rewrite_step [OF inv r(1) _ _ _ u]) (use r parts c in \<open>auto simp: rewrite_simps\<close>)
    moreover have "row_state ((\<lambda>r. r\<lparr>so_continuation_json := Some c\<rparr>) r) = v" using ok r parts v c by (auto simp: answer_simps row_ok_def phase_rank_def)
    moreover have "index_safe ((\<lambda>r. r\<lparr>so_continuation_json := Some c\<rparr>) r)" using ok r parts v c by (auto simp: index_safe_def row_ok_def phase_rank_def safe_integer_def)
    ultimately show ?thesis by (simp add: r(2))
  next
    case False
    then have "C' = C \<and> v = s" using call s c by (cases s) (auto simp: saveReconcile_def rbind_eq_Inr ensure_eq_Inr)
    then show ?thesis using s by (simp add: unchanged)
  qed
qed

lemma releases_change:
  assumes inv: "coordinator_inv C" and call: "beginReleases op counts C = Inr ((v, k), C')"
  shows "coordinator_change M C C' \<and> readOperation op C' = Inr v \<and> carried_by op C v k"
proof -
  obtain s where counts: "list_all counted_column [rr_filesRehydrated counts, rr_vectorsRequeued counts]" and s: "readOperation op C = Inr s"
    using call by (auto simp: beginReleases_def rbind_eq_Inr ensure_eq_Inr assertProviderCounts_Inr assertReconcileCounts_Inr)
  have c: "assertReconcileCounts counts = Inr ()" using counts by (simp add: assertReconcileCounts_Inr)
  show ?thesis
  proof (cases "state_phase s = Some Ph_reconciling")
    case True
    from read_row [OF s True] obtain r where r: "r \<in> set (co_operations C)" "so_operation_id r = op" "s = row_state r" "so_phase r = Ph_reconciling" .
    obtain i p c0 where st: "s = St_reconciling i p c0" using True by (cases s) auto
    note parts = st [unfolded r(3) row_state_eq]
    have u: "update_operations (\<lambda>r. so_operation_id r = op) (\<lambda>r. r\<lparr>so_phase := Ph_releasing, so_files_rehydrated := Some (rr_filesRehydrated counts), so_vectors_requeued := Some (rr_vectorsRequeued counts), so_continuation_json := None\<rparr>) C = Inr C'" and v: "k = carried_fields s" "v = St_releasing i p counts 0"
      using call s st c by (auto simp: beginReleases_def rbind_eq_Inr ensure_eq_Inr Let_def)
    have ok: "row_ok r" using inv r(1) by (auto simp: coordinator_inv_def operations_ok_def split: option.splits)
    have "coordinator_change M C C' \<and> (index_safe ((\<lambda>r. r\<lparr>so_phase := Ph_releasing, so_files_rehydrated := Some (rr_filesRehydrated counts), so_vectors_requeued := Some (rr_vectorsRequeued counts), so_continuation_json := None\<rparr>) r) \<longrightarrow> readOperation (so_operation_id r) C' = Inr (row_state ((\<lambda>r. r\<lparr>so_phase := Ph_releasing, so_files_rehydrated := Some (rr_filesRehydrated counts), so_vectors_requeued := Some (rr_vectorsRequeued counts), so_continuation_json := None\<rparr>) r)))"
      by (rule rewrite_step [OF inv r(1) _ _ _ u]) (use r parts counts in \<open>auto simp: rewrite_simps\<close>)
    moreover have "row_state ((\<lambda>r. r\<lparr>so_phase := Ph_releasing, so_files_rehydrated := Some (rr_filesRehydrated counts), so_vectors_requeued := Some (rr_vectorsRequeued counts), so_continuation_json := None\<rparr>) r) = v" using ok r parts v counts by (auto simp: answer_simps row_ok_def phase_rank_def)
    moreover have "index_safe ((\<lambda>r. r\<lparr>so_phase := Ph_releasing, so_files_rehydrated := Some (rr_filesRehydrated counts), so_vectors_requeued := Some (rr_vectorsRequeued counts), so_continuation_json := None\<rparr>) r)" using ok r parts v counts by (auto simp: index_safe_def row_ok_def phase_rank_def safe_integer_def)
    ultimately show ?thesis using v st s by (simp add: r(2) carried_by_def)
  next
    case False
    then have "C' = C \<and> v = s \<and> k = no_carried" using call s c by (cases s) (auto simp: beginReleases_def rbind_eq_Inr ensure_eq_Inr)
    then show ?thesis using s by (simp add: unchanged carried_by_def)
  qed
qed

lemma release_change:
  assumes inv: "coordinator_inv C" and call: "advanceRelease op n C = Inr (v, C')"
  shows "coordinator_change M C C' \<and> (safe_integer (n + 1) \<longrightarrow> readOperation op C' = Inr v)"
proof -
  obtain s where s: "readOperation op C = Inr s"
    using call by (auto simp: advanceRelease_def rbind_eq_Inr ensure_eq_Inr assertProviderCounts_Inr assertReconcileCounts_Inr)
  show ?thesis
  proof (cases "state_phase s = Some Ph_releasing")
    case True
    from read_row [OF s True] obtain r where r: "r \<in> set (co_operations C)" "so_operation_id r = op" "s = row_state r" "so_phase r = Ph_releasing" .
    obtain i p q m where st: "s = St_releasing i p q m" using True by (cases s) auto
    note parts = st [unfolded r(3) row_state_eq]
    have u: "update_operations (\<lambda>r. so_operation_id r = op \<and> so_phase r = Ph_releasing \<and> so_release_index r = n) (\<lambda>r. r\<lparr>so_release_index := so_release_index r + 1\<rparr>) C = Inr C'" and v: "v = St_releasing i p q (n + 1)" and n: "m = n"
      using call s st by (auto simp: advanceRelease_def rbind_eq_Inr ensure_eq_Inr Let_def)
    have ok: "row_ok r" using inv r(1) by (auto simp: coordinator_inv_def operations_ok_def split: option.splits)
    have "coordinator_change M C C' \<and> (index_safe ((\<lambda>r. r\<lparr>so_release_index := so_release_index r + 1\<rparr>) r) \<longrightarrow> readOperation (so_operation_id r) C' = Inr (row_state ((\<lambda>r. r\<lparr>so_release_index := so_release_index r + 1\<rparr>) r)))"
      by (rule rewrite_step [OF inv r(1) _ _ _ u]) (use r parts n in \<open>auto simp: rewrite_simps\<close>)
    moreover have "row_state ((\<lambda>r. r\<lparr>so_release_index := so_release_index r + 1\<rparr>) r) = v" using ok r parts v n by (auto simp: answer_simps row_ok_def phase_rank_def)
    moreover have "safe_integer (n + 1) \<longrightarrow> index_safe ((\<lambda>r. r\<lparr>so_release_index := so_release_index r + 1\<rparr>) r)" using ok r parts v n by (auto simp: index_safe_def row_ok_def phase_rank_def safe_integer_def)
    ultimately show ?thesis by (simp add: r(2))
  next
    case False
    then have "C' = C \<and> v = s" using call s by (cases s) (auto simp: advanceRelease_def rbind_eq_Inr ensure_eq_Inr)
    then show ?thesis using s by (simp add: unchanged)
  qed
qed

lemma catalog_change:
  assumes inv: "coordinator_inv C" and call: "beginCatalog op n C = Inr ((v, k), C')"
  shows "coordinator_change M C C' \<and> readOperation op C' = Inr v \<and> carried_by op C v k"
proof -
  obtain s where s: "readOperation op C = Inr s"
    using call by (auto simp: beginCatalog_def rbind_eq_Inr ensure_eq_Inr assertProviderCounts_Inr assertReconcileCounts_Inr)
  show ?thesis
  proof (cases "state_phase s = Some Ph_releasing")
    case True
    from read_row [OF s True] obtain r where r: "r \<in> set (co_operations C)" "so_operation_id r = op" "s = row_state r" "so_phase r = Ph_releasing" .
    obtain i p q m where st: "s = St_releasing i p q m" using True by (cases s) auto
    note parts = st [unfolded r(3) row_state_eq]
    have u: "update_operations (\<lambda>r. so_operation_id r = op) (\<lambda>r. r\<lparr>so_phase := Ph_catalog\<rparr>) C = Inr C'" and v: "k = carried_fields s" "v = St_catalog i p q"
      using call s st by (auto simp: beginCatalog_def rbind_eq_Inr ensure_eq_Inr Let_def)
    have ok: "row_ok r" using inv r(1) by (auto simp: coordinator_inv_def operations_ok_def split: option.splits)
    have "coordinator_change M C C' \<and> (index_safe ((\<lambda>r. r\<lparr>so_phase := Ph_catalog\<rparr>) r) \<longrightarrow> readOperation (so_operation_id r) C' = Inr (row_state ((\<lambda>r. r\<lparr>so_phase := Ph_catalog\<rparr>) r)))"
      by (rule rewrite_step [OF inv r(1) _ _ _ u]) (use r parts in \<open>auto simp: rewrite_simps\<close>)
    moreover have "row_state ((\<lambda>r. r\<lparr>so_phase := Ph_catalog\<rparr>) r) = v" using ok r parts v by (auto simp: answer_simps row_ok_def phase_rank_def)
    moreover have "index_safe ((\<lambda>r. r\<lparr>so_phase := Ph_catalog\<rparr>) r)" using ok r parts v by (auto simp: index_safe_def row_ok_def phase_rank_def safe_integer_def)
    ultimately show ?thesis using v st s by (simp add: r(2) carried_by_def)
  next
    case False
    then have "C' = C \<and> v = s \<and> k = no_carried" using call s by (cases s) (auto simp: beginCatalog_def rbind_eq_Inr ensure_eq_Inr)
    then show ?thesis using s by (simp add: unchanged carried_by_def)
  qed
qed

lemma cancel_change:
  assumes inv: "coordinator_inv C" and call: "cancelPreparation op C = Inr (k, C')"
  shows "coordinator_change M C C'"
proof -
  obtain s where s: "readOperation op C = Inr s" using call by (auto simp: cancelPreparation_def result_simps)
  with call obtain i c where st: "s = St_preparing i c" by (cases s) (auto simp: cancelPreparation_def)
  then obtain r where r: "r \<in> set (co_operations C)" "so_operation_id r = op" "so_phase r = Ph_preparing"
    using read_row [OF s] by (metis state_phase.simps(2))
  from inv r(1) obtain rs g where t: "co_operations C = rs @ [r]" "co_clock C = Some (g, Some op)" "\<forall>s \<in> set rs. so_operation_id s \<noteq> op"
    by (rule active_split) (use r(2,3) in auto)
  have del: "sql_delete (\<lambda>r. so_operation_id r = op \<and> so_phase r = Ph_preparing) (co_operations C) = rs"
    using t r by (auto simp: sql_delete_def intro: filter_True)
  have own: "(\<lambda>s. \<exists>r \<in> set (co_operations C). so_operation_id r = op \<and> so_phase r = Ph_preparing \<and> so_operation_id r = sc_operation_id s) =
      (\<lambda>s. sc_operation_id s = op)"
    by (rule ext) (use r in auto)
  have "C' = C\<lparr>co_operations := rs, co_commits := sql_delete (\<lambda>s. sc_operation_id s = op) (co_commits C), co_clock := Some (g, None)\<rparr>"
    using call s st t(2) by (auto simp: cancelPreparation_def result_simps Let_def del own)
  then show ?thesis using cancelled [OF t(1) r(3), of g M] t(2) by (simp add: r(2))
qed

lemma complete_change:
  assumes inv: "coordinator_inv C" and call: "completeRecovery op C = Inr (v, C')"
  shows "coordinator_change M C C'"
proof -
  obtain s where s: "readOperation op C = Inr s" using call by (auto simp: completeRecovery_def result_simps)
  consider i p q where "s = St_complete i p q" | i p q where "s = St_catalog i p q"
    using call s by (cases s) (auto simp: completeRecovery_def)
  then show ?thesis
  proof cases
    case 1
    then have "C' = C" using call s by (simp add: completeRecovery_def)
    then show ?thesis by (simp add: unchanged)
  next
    case 2
    then obtain r where r: "r \<in> set (co_operations C)" "so_operation_id r = op" "so_phase r = Ph_catalog"
      using read_row [OF s] by (metis state_phase.simps(6))
    from inv r(1) obtain rs g where t: "co_operations C = rs @ [r]" "co_clock C = Some (g, Some op)" "\<forall>s \<in> set rs. so_operation_id s \<noteq> op"
      by (rule active_split) (use r(2,3) in auto)
    obtain C1 where u: "update_operations (\<lambda>r. so_operation_id r = op) (\<lambda>r. r\<lparr>so_phase := Ph_complete\<rparr>) C = Inr C1"
      using call s 2 by (auto simp: completeRecovery_def result_simps)
    have C1: "C1 = C\<lparr>co_operations := rs @ [r\<lparr>so_phase := Ph_complete\<rparr>]\<rparr>"
      using update_last [OF _ _ t(1) u] t(3) r(2) by blast
    have "C' = retain_terminal (C1\<lparr>co_clock := Some (g, None)\<rparr>)"
      using call s 2 u t(2) by (auto simp: completeRecovery_def result_simps C1)
    then show ?thesis using finished [OF t(1) r(3), of g M] t(2) by (simp add: r(2) C1)
  qed
qed

lemma commits_grow_refl [simp]: "commits_grow u u"
  by (auto simp: commits_grow_def)

lemma begin_object_cases:
  assumes inv: "coordinator_inv C" and call: "beginObject op obj b C = Inr (st, C')"
  shows "\<exists>u. C' = C\<lparr>co_commits := u\<rparr> \<and> commits_grow (co_commits C) u \<and> commits_ok (co_operations C) u \<and>
    (\<exists>s \<in> set u. commit_key s = (op, obj) \<and> sc_bookmark s = b \<and> sc_status s = st)"
proof -
  obtain s where s: "readOperation op C = Inr s" "state_identity s \<noteq> None" and ids: "OBJECT_ID obj" "BOOKMARK b"
    using call by (auto simp: beginObject_def result_simps)
  have owner: "op \<in> so_operation_id ` set (co_operations C)" using read_cases [OF s(1)] s(2) by auto
  have ok: "commits_ok (co_operations C) (co_commits C)" using inv by (simp add: coordinator_inv_def)
  show ?thesis
  proof (cases "commit_row op obj C")
    case None
    let ?r = "\<lparr> sc_operation_id = op, sc_object_id = obj, sc_bookmark = b, sc_status = Commit_intent \<rparr>"
    have new: "\<forall>s \<in> set (co_commits C). commit_key s \<noteq> commit_key ?r"
      using None by (auto simp: commit_row_def sql_one_None_iff commit_key_def)
    have "C' = C\<lparr>co_commits := co_commits C @ [?r]\<rparr>" "st = Commit_intent"
      using call s ids None by (auto simp: beginObject_def result_simps)
    then show ?thesis using new ok owner
      by (intro exI [of _ "co_commits C @ [?r]"]) (auto simp: commits_grow_def commits_ok_def commit_key_def)
  next
    case (Some r)
    then have "r \<in> set (co_commits C)" "commit_key r = (op, obj)" by (auto simp: commit_row_def dest!: sql_one_SomeD)
    moreover have "C' = C" "sc_bookmark r = b" "st = sc_status r"
      using call s ids Some by (auto simp: beginObject_def result_simps)
    ultimately show ?thesis using ok by (intro exI [of _ "co_commits C"]) auto
  qed
qed

lemma schedule_commits:
  assumes "commits_ok t u"
  shows "commits_ok t (sql_update p (\<lambda>r. r\<lparr>sc_status := Commit_scheduled\<rparr>) u)"
    and "commits_grow u (sql_update p (\<lambda>r. r\<lparr>sc_status := Commit_scheduled\<rparr>) u)"
proof -
  have "map commit_key (sql_update p (\<lambda>r. r\<lparr>sc_status := Commit_scheduled\<rparr>) u) = map commit_key u"
    by (simp add: sql_update_def commit_key_def)
  then show "commits_ok t (sql_update p (\<lambda>r. r\<lparr>sc_status := Commit_scheduled\<rparr>) u)"
    using assms by (auto simp: commits_ok_def table_simps)
  show "commits_grow u (sql_update p (\<lambda>r. r\<lparr>sc_status := Commit_scheduled\<rparr>) u)"
    unfolding commits_grow_def
  proof
    fix s assume "s \<in> set u"
    then show "\<exists>s' \<in> set (sql_update p (\<lambda>r. r\<lparr>sc_status := Commit_scheduled\<rparr>) u). commit_key s' = commit_key s \<and> sc_bookmark s' = sc_bookmark s \<and>
        (sc_status s = Commit_scheduled \<longrightarrow> sc_status s' = Commit_scheduled)"
      by (intro bexI [of _ "if p s then s\<lparr>sc_status := Commit_scheduled\<rparr> else s"] row_after_update) (simp_all add: commit_key_def)
  qed
qed

lemma commits_grow_trans: "commits_grow u v \<Longrightarrow> commits_grow v w \<Longrightarrow> commits_grow u w"
  unfolding commits_grow_def by metis

lemma object_change:
  assumes "coordinator_inv C" and "beginObject op obj b C = Inr (st, C')"
  shows "coordinator_change M C C'"
  using begin_object_cases [OF assms] committed by blast

lemma object_done_change:
  assumes inv: "coordinator_inv C" and call: "finishObject op obj b C = Inr (st, C')"
  shows "coordinator_change M C C'"
proof -
  obtain st1 C1 where one: "beginObject op obj b C = Inr (st1, C1)"
    and C': "C' = (if st1 \<noteq> Commit_scheduled then C1\<lparr>co_commits := sql_update (\<lambda>r. commit_key r = (op, obj) \<and> sc_bookmark r = b)
      (\<lambda>r. r\<lparr>sc_status := Commit_scheduled\<rparr>) (co_commits C1)\<rparr> else C1)"
    using call by (auto simp: finishObject_def result_simps)
  from begin_object_cases [OF inv one] obtain u where u: "C1 = C\<lparr>co_commits := u\<rparr>" "commits_grow (co_commits C) u" "commits_ok (co_operations C) u"
    by blast
  let ?w = "if st1 \<noteq> Commit_scheduled then sql_update (\<lambda>r. commit_key r = (op, obj) \<and> sc_bookmark r = b) (\<lambda>r. r\<lparr>sc_status := Commit_scheduled\<rparr>) u else u"
  have "commits_grow (co_commits C) ?w" "commits_ok (co_operations C) ?w"
    using u(2,3) schedule_commits [OF u(3)] commits_grow_trans by auto
  then have "coordinator_change M C (C\<lparr>co_commits := ?w\<rparr>)" by (rule committed)
  then show ?thesis by (auto simp: C' u(1) split: if_splits)
qed

lemmas method_changes = save_change [THEN conjunct1] begin_change [THEN conjunct1] advance_change [THEN conjunct1] finish_change [THEN conjunct1]
  save_reconcile_change [THEN conjunct1] releases_change [THEN conjunct1] release_change [THEN conjunct1] catalog_change [THEN conjunct1]

lemma step_change: "coordinator_inv C \<Longrightarrow> coordinator_step M C C' \<Longrightarrow> coordinator_change M C C'"
  by (erule coordinator_step.cases)
    (auto intro: open_change claim_change cancel_change complete_change object_change object_done_change method_changes)

section \<open>The invariant is kept\<close>

lemma drop_completed:
  fixes t :: "StoredOperation list"
  assumes "\<forall>r \<in> set t. so_phase r = Ph_complete" and "distinct (map so_operation_id t)"
  shows "sql_delete (\<lambda>r. so_operation_id r \<in> set (beyond_retention t)) t = drop (length t - MAX_TERMINAL_OPERATIONS) t"
proof -
  let ?n = "length t - MAX_TERMINAL_OPERATIONS"
  have "filter (\<lambda>r. so_phase r = Ph_complete) t = t" using assms(1) by (auto intro: filter_True)
  then have gone: "set (beyond_retention t) = so_operation_id ` set (take ?n t)"
    by (simp add: beyond_retention_def drop_rev)
  have "distinct (map so_operation_id (take ?n t @ drop ?n t))" using assms(2) by simp
  then have apart: "so_operation_id ` set (take ?n t) \<inter> so_operation_id ` set (drop ?n t) = {}"
    by (simp only: map_append distinct_append set_map)
  have "filter P (xs @ ys) = ys" if "\<forall>x \<in> set xs. \<not> P x" "\<forall>y \<in> set ys. P y" for P and xs ys :: "StoredOperation list"
    using that by simp
  from this [of "take ?n t" "\<lambda>r. so_operation_id r \<notin> set (beyond_retention t)" "drop ?n t"] apart
  show ?thesis by (auto simp: sql_delete_def gone)
qed

lemma rewritten_ok:
  assumes "operations_ok g (rs @ [r])" and "row_ok r'" and "row_identity r' = row_identity r" and "so_phase r' \<noteq> Ph_complete"
  shows "operations_ok g (rs @ [r'])"
  using assms by (auto simp: operations_ok_def sorted_wrt_append row_identity_def split: if_splits)

lemma rewritten_commits: "so_operation_id r' = so_operation_id r \<Longrightarrow> commits_ok (rs @ [r]) u \<Longrightarrow> commits_ok (rs @ [r']) u"
  by (simp add: commits_ok_def)

lemma retain_inv:
  assumes "\<forall>r \<in> set t. row_ok r \<and> so_generation r \<le> g \<and> so_phase r = Ph_complete"
    and "sorted_wrt (\<lambda>r s. so_generation r < so_generation s) t" and "distinct (map so_operation_id t)"
    and "commits_ok t (co_commits C)" and "counted_column g" and "co_operations C = t" and "co_clock C = Some (g, None)"
  shows "coordinator_inv (retain_terminal C)"
proof -
  let ?gone = "set (beyond_retention t)"
  let ?t = "drop (length t - MAX_TERMINAL_OPERATIONS) t"
  have all: "\<forall>r \<in> set t. so_phase r = Ph_complete" using assms(1) by blast
  have kept: "sql_delete (\<lambda>r. so_operation_id r \<in> ?gone) t = ?t" using drop_completed [OF all assms(3)] .
  have sub: "set ?t \<subseteq> set t" by (rule set_drop_subset)
  have ids: "so_operation_id ` set ?t = so_operation_id ` set t - ?gone"
    by (subst kept [symmetric]) (auto simp: table_simps)
  have "commits_ok ?t (sql_delete (\<lambda>s. sc_operation_id s \<in> ?gone) (co_commits C))"
    using assms(4) by (auto simp: commits_ok_def ids table_simps distinct_keys_sql_delete)
  moreover have "operations_ok g ?t"
  proof -
    have "length (filter (\<lambda>r. so_phase r = Ph_complete) ?t) \<le> length ?t" by (rule length_filter_le)
    also have "\<dots> \<le> MAX_TERMINAL_OPERATIONS" by simp
    finally show ?thesis using assms(1-3) sub by (auto simp: operations_ok_def sorted_wrt_drop drop_map [symmetric])
  qed
  moreover have "active_shape g None ?t" using all sub by (auto simp: active_shape_def)
  ultimately show ?thesis using assms(5-7) by (simp add: coordinator_inv_def retain_terminal_def kept)
qed

lemma change_inv:
  assumes "coordinator_change M C C'" and "coordinator_inv C"
  shows "coordinator_inv C'"
  using assms
proof (induction rule: coordinator_change.induct)
  case (opened C)
  then have "co_operations C = []" "commits_ok (co_operations C) (co_commits C)" by (auto simp: coordinator_inv_def)
  then show ?case by (simp add: coordinator_inv_def counted_column_def safe_integer_def operations_ok_def active_shape_def)
next
  case (retired C C' l)
  then show ?case by (auto simp: coordinator_inv_def split: option.splits)
next
  case (rewritten C rs r r')
  then obtain g a where g: "co_clock C = Some (g, a)" by (auto simp: coordinator_inv_def split: option.splits)
  have "operations_ok g (rs @ [r'])" "commits_ok (rs @ [r']) (co_commits C)"
    using rewritten g rewritten_ok [of g rs r r'] rewritten_commits [of r' r rs]
    by (auto simp: coordinator_inv_def evolves_def row_identity_def)
  moreover have "active_shape g a (rs @ [r'])"
    using rewritten g by (auto simp: coordinator_inv_def active_shape_def evolves_def row_identity_def split: option.splits)
  ultimately show ?case using rewritten g by (simp add: coordinator_inv_def)
next
  case (claimed C g r)
  then have inv: "counted_column g" "operations_ok g (co_operations C)" "active_shape g None (co_operations C)" "commits_ok (co_operations C) (co_commits C)"
    by (auto simp: coordinator_inv_def)
  have "counted_column (g + 1)" using claimed(3,5) by (simp add: row_ok_def)
  moreover have "operations_ok (g + 1) (co_operations C @ [r])"
    using inv(2) claimed(3-6) by (auto simp: operations_ok_def sorted_wrt_append intro: order_trans)
  moreover have "active_shape (g + 1) (Some (so_operation_id r)) (co_operations C @ [r])"
    using inv(3) claimed(4,5) by (auto simp: active_shape_def)
  moreover have "commits_ok (co_operations C @ [r]) (co_commits C)" using inv(4) by (auto simp: commits_ok_def)
  ultimately show ?case by (simp add: coordinator_inv_def)
next
  case (cancelled C rs r g)
  then have inv: "counted_column g" "operations_ok g (rs @ [r])" "active_shape g (Some (so_operation_id r)) (rs @ [r])" "commits_ok (rs @ [r]) (co_commits C)"
    by (auto simp: coordinator_inv_def)
  have "commits_ok rs (sql_delete (\<lambda>s. sc_operation_id s = so_operation_id r) (co_commits C))"
    using inv(4) by (auto simp: commits_ok_def table_simps distinct_keys_sql_delete)
  moreover have "operations_ok g rs" "active_shape g None rs"
    using inv(2,3) cancelled(2) by (auto simp: operations_ok_def active_shape_def sorted_wrt_append)
  ultimately show ?case using inv(1) by (simp add: coordinator_inv_def)
next
  case (finished C rs r g)
  let ?r = "r\<lparr>so_phase := Ph_complete\<rparr>"
  from finished have inv: "counted_column g" "operations_ok g (rs @ [r])" "active_shape g (Some (so_operation_id r)) (rs @ [r])" "commits_ok (rs @ [r]) (co_commits C)"
    by (auto simp: coordinator_inv_def)
  have "row_ok ?r" using inv(2) by (auto simp: operations_ok_def row_ok_def operation_row_check_def phase_rank_def)
  then show ?case using inv
    by (intro retain_inv [of "rs @ [?r]" g])
      (auto simp: operations_ok_def active_shape_def sorted_wrt_append commits_ok_def)
next
  case (committed C u)
  then show ?case by (auto simp: coordinator_inv_def split: option.splits)
qed

definition initial_coordinator :: "string list option \<Rightarrow> coordinator" where
  "initial_coordinator l = \<lparr> co_clock = None, co_operations = [], co_commits = [], co_legacy = l \<rparr>"

inductive coordinator_reachable :: "coordinator \<Rightarrow> bool" where
  start: "coordinator_reachable (initial_coordinator l)"
| step: "coordinator_reachable C \<Longrightarrow> coordinator_step M C C' \<Longrightarrow> coordinator_reachable C'"

lemma reachable_coordinator: "coordinator_reachable C \<Longrightarrow> coordinator_inv C"
proof (induction rule: coordinator_reachable.induct)
  case (start l)
  then show ?case by (simp add: initial_coordinator_def coordinator_inv_def commits_ok_def)
next
  case (step C M C')
  then show ?case using step_change change_inv by blast
qed


section \<open>Reading back\<close>

lemma inv_row_ok: "coordinator_inv C \<Longrightarrow> r \<in> set (co_operations C) \<Longrightarrow> row_ok r"
  by (auto simp: coordinator_inv_def operations_ok_def split: option.splits)

lemma inv_reads:
  assumes "coordinator_inv C" and "r \<in> set (co_operations C)" and "index_safe r"
  shows "readOperation (so_operation_id r) C = Inr (row_state r)"
proof -
  have "distinct (map so_operation_id (co_operations C))"
    using assms(1,2) by (auto simp: coordinator_inv_def operations_ok_def split: option.splits)
  then have "operation_row (so_operation_id r) C = Some r" using assms(2) by (simp add: operation_row_def sql_one_unique)
  then show ?thesis using inv_row_ok [OF assms(1,2)] project_ok [OF _ assms(3)]
    by (simp add: readOperation_def assertOperation_def row_ok_def)
qed

lemma read_again:
  assumes "readOperation op C = Inr v" and "state_identity v = Some i"
  shows "readOperation (ri_operationId i) C = Inr v"
  using read_cases [OF assms(1)] assms by (auto simp: row_identity_def)

lemma claim_reads:
  assumes inv: "coordinator_inv C" and claim: "claimPreparation M op d c C = Inr (v, C')"
  shows "\<exists>i. state_identity v = Some i \<and> ri_digest i = d \<and> readOperation (ri_operationId i) C' = Inr v"
proof -
  obtain existing where ok: "assertOperation op = Inr ()" "assertDigest d = Inr ()" "checkContinuation c Kind_restore = Inr ()"
    and e: "readOperation op C = Inr existing"
    using claim by (auto simp: claimPreparation_def result_simps)
  show ?thesis
  proof (cases "state_identity existing")
    case (Some i)
    then have "C' = C" "v = existing" "ri_digest i = d" using claim e ok by (auto simp: claimPreparation_def result_simps)
    then show ?thesis using read_again [OF e Some] Some by blast
  next
    case None
    obtain k where k: "admissionClock C = Inr k" using claim e ok None by (auto simp: claimPreparation_def result_simps)
    show ?thesis
    proof (cases "clock_activeOperationId k \<in> {None, Some []}")
      case False
      then obtain a where a: "clock_activeOperationId k = Some a" by auto
      have C': "C' = C" "readOperation a C = Inr v" "clock_activeDigest k = Some d"
        using claim e ok None k False a by (auto simp: claimPreparation_def result_simps)
      obtain r where r: "r \<in> set (co_operations C)" "so_operation_id r = a" "so_digest r = d"
        using k a C'(3) by (auto simp: admissionClock_def operation_row_def result_simps split: option.splits dest!: sql_one_SomeD)
      from read_cases [OF C'(2)] r(1,2) obtain r' where r': "r' \<in> set (co_operations C)" "so_operation_id r' = a" "v = row_state r'" by auto
      have "r' = r" using inv r r' unique_key_row [of so_operation_id "co_operations C" r' r]
        by (auto simp: coordinator_inv_def operations_ok_def split: option.splits)
      then show ?thesis using C' r r' by (simp add: row_identity_def)
    next
      case True
      from clock_active [OF k] obtain g a where g: "co_clock C = Some (g, a)" "clock_generation k = g" by blast
      let ?r = "claimed_row op d (g + 1) c"
      have v: "v = row_state ?r" and C': "C' = C\<lparr>co_operations := co_operations C @ [?r], co_clock := Some (g + 1, Some op)\<rparr>"
        using claim e ok None k g True
        by (auto simp: claimPreparation_def result_simps Let_def row_state_def claimed_row_def row_parts)
      have "coordinator_inv C'" using change_inv [OF claim_change [OF inv claim] inv] .
      then have "readOperation (so_operation_id ?r) C' = Inr (row_state ?r)"
        by (rule inv_reads) (simp_all add: C' index_safe_def claimed_row_def)
      then show ?thesis by (simp add: v row_identity_def claimed_row_def)
    qed
  qed
qed

lemma complete_reads:
  assumes inv: "coordinator_inv C" and call: "completeRecovery op C = Inr (v, C')"
  shows "readOperation op C' = Inr v"
proof -
  obtain s where s: "readOperation op C = Inr s" using call by (auto simp: completeRecovery_def result_simps)
  show ?thesis
  proof (cases "state_phase s = Some Ph_catalog")
    case True
    from read_row [OF s True] obtain r where r: "r \<in> set (co_operations C)" "so_operation_id r = op" "s = row_state r" "so_phase r = Ph_catalog" .
    let ?r = "r\<lparr>so_phase := Ph_complete\<rparr>"
    from inv r(1) obtain rs g where t: "co_operations C = rs @ [r]" "co_clock C = Some (g, Some op)"
      "\<forall>s \<in> set rs. so_phase s = Ph_complete \<and> so_operation_id s \<noteq> op"
      by (rule active_split) (use r(2,4) in auto)
    obtain C1 where u: "update_operations (\<lambda>r. so_operation_id r = op) (\<lambda>r. r\<lparr>so_phase := Ph_complete\<rparr>) C = Inr C1"
      using call s True by (cases s) (auto simp: completeRecovery_def result_simps)
    have C1: "C1 = C\<lparr>co_operations := rs @ [?r]\<rparr>" using update_last [OF _ _ t(1) u] t(3) r(2) by blast
    have C': "C' = retain_terminal (C1\<lparr>co_clock := Some (g, None)\<rparr>)" and v: "v = row_state ?r"
      using call s True u t(2) r(3,4) by (auto simp: completeRecovery_def result_simps C1 row_state_def row_parts)
    have "distinct (map so_operation_id (rs @ [?r]))"
      using inv t by (auto simp: coordinator_inv_def operations_ok_def)
    then have "co_operations C' = drop (length (rs @ [?r]) - MAX_TERMINAL_OPERATIONS) (rs @ [?r])"
      using drop_completed [of "rs @ [?r]"] t(3) by (simp add: C' C1 retain_terminal_def)
    then have "?r \<in> set (co_operations C')" by (simp add: MAX_TERMINAL_OPERATIONS_def)
    then have "readOperation (so_operation_id ?r) C' = Inr (row_state ?r)"
      using change_inv [OF complete_change [OF inv call] inv] by (intro inv_reads) (auto simp: index_safe_def)
    then show ?thesis by (simp add: v r(2))
  next
    case False
    then have "C' = C" "v = s" using call s by (cases s; simp add: completeRecovery_def)+
    then show ?thesis using s by simp
  qed
qed


section \<open>Operations over time\<close>

lemma evolves_refl [simp]: "evolves r r"
  by (simp add: evolves_def)

lemma evolves_self: "r \<in> A \<Longrightarrow> \<exists>s \<in> A. evolves s r"
  using evolves_refl by blast

lemma evolves_trans: "evolves r s \<Longrightarrow> evolves s u \<Longrightarrow> evolves r u"
  by (auto simp: evolves_def phase_rank_def split: operation_phase.splits)

text \<open>The clock never goes back, and a row of a generation the clock had reached comes from a row there was.\<close>

definition follows :: "coordinator \<Rightarrow> coordinator \<Rightarrow> bool" where
  "follows C C' \<longleftrightarrow> (\<forall>g a. co_clock C = Some (g, a) \<longrightarrow> (\<exists>g' a'. co_clock C' = Some (g', a') \<and> g \<le> g' \<and>
     (\<forall>r' \<in> set (co_operations C'). (\<exists>r \<in> set (co_operations C). evolves r r') \<or> g < so_generation r')))"

lemma followsI:
  assumes "\<And>g a. co_clock C = Some (g, a) \<Longrightarrow> \<exists>g' a'. co_clock C' = Some (g', a') \<and> g \<le> g'"
    and "\<And>r' g a. r' \<in> set (co_operations C') \<Longrightarrow> co_clock C = Some (g, a) \<Longrightarrow> (\<exists>r \<in> set (co_operations C). evolves r r') \<or> g < so_generation r'"
  shows "follows C C'"
  using assms unfolding follows_def by blast

lemma follows_same: "co_clock C' = co_clock C \<Longrightarrow> co_operations C' = co_operations C \<Longrightarrow> follows C C'"
  by (rule followsI) (auto intro: evolves_self)

lemma change_follows: "coordinator_change M C C' \<Longrightarrow> follows C C'"
proof (induction rule: coordinator_change.induct)
  case (opened C)
  then show ?case by (simp add: follows_def)
next
  case (retired C C' l)
  then show ?case by (simp add: follows_def)
next
  case (rewritten C rs r r')
  show ?case by (rule followsI) (use rewritten(1,5) in \<open>auto intro: evolves_self\<close>)
next
  case (claimed C g r)
  show ?case by (rule followsI) (use claimed(1,5) in \<open>auto intro: evolves_self\<close>)
next
  case (cancelled C rs r g)
  show ?case by (rule followsI) (use cancelled in \<open>auto intro: evolves_self\<close>)
next
  case (finished C rs r g)
  have "evolves r (r\<lparr>so_phase := Ph_complete\<rparr>)" using finished(2) by (simp add: evolves_def row_parts phase_rank_def)
  then show ?case
    by (intro followsI) (use finished in \<open>auto simp: retain_terminal_def table_simps intro: evolves_self\<close>)
qed (simp_all add: follows_same)

lemma follows_trans:
  assumes "follows C C'" and "follows C' C''"
  shows "follows C C''"
  unfolding follows_def
proof (intro allI impI)
  fix g a assume "co_clock C = Some (g, a)"
  then obtain g' a' where g': "co_clock C' = Some (g', a')" "g \<le> g'"
    "\<forall>r' \<in> set (co_operations C'). (\<exists>r \<in> set (co_operations C). evolves r r') \<or> g < so_generation r'"
    using assms(1) by (auto simp: follows_def)
  then obtain g'' a'' where g'': "co_clock C'' = Some (g'', a'')" "g' \<le> g''"
    "\<forall>r' \<in> set (co_operations C''). (\<exists>r \<in> set (co_operations C'). evolves r r') \<or> g' < so_generation r'"
    using assms(2) by (auto simp: follows_def)
  have "(\<exists>r \<in> set (co_operations C). evolves r r'') \<or> g < so_generation r''" if later: "r'' \<in> set (co_operations C'')" for r''
  proof (cases "g' < so_generation r''")
    case True
    then show ?thesis using g'(2) by simp
  next
    case False
    then obtain r' where r': "r' \<in> set (co_operations C')" "evolves r' r''" using bspec [OF g''(3) later] by auto
    then have gen: "so_generation r'' = so_generation r'" by (simp add: evolves_def row_identity_def)
    from bspec [OF g'(3) r'(1)] consider r where "r \<in> set (co_operations C)" "evolves r r'" | "g < so_generation r'" by auto
    then show ?thesis
    proof cases
      case 1
      then show ?thesis using evolves_trans [OF 1(2) r'(2)] by blast
    next
      case 2
      then show ?thesis by (simp add: gen)
    qed
  qed
  then show "\<exists>g' a'. co_clock C'' = Some (g', a') \<and> g \<le> g' \<and>
      (\<forall>r' \<in> set (co_operations C''). (\<exists>r \<in> set (co_operations C). evolves r r') \<or> g < so_generation r')"
    using g'(2) g''(1,2) by auto
qed

inductive coordinator_history :: "coordinator \<Rightarrow> coordinator \<Rightarrow> bool" where
  history_refl: "coordinator_history C C"
| history_step: "coordinator_history C C' \<Longrightarrow> coordinator_step M C' C'' \<Longrightarrow> coordinator_history C C''"

lemma history_follows:
  "coordinator_history C C' \<Longrightarrow> coordinator_inv C \<Longrightarrow> coordinator_inv C' \<and> follows C C'"
proof (induction rule: coordinator_history.induct)
  case (history_refl C)
  then show ?case by (simp add: follows_same)
next
  case (history_step C C' M C'')
  then show ?case using step_change change_inv change_follows follows_trans by blast
qed

lemma generations_distinct: "sorted_wrt (\<lambda>r s. so_generation r < so_generation s) t \<Longrightarrow> distinct (map so_generation t)"
  by (induction t) auto

lemma follows_evolves:
  assumes "coordinator_inv C" and "coordinator_inv C'" and "follows C C'"
    and "r \<in> set (co_operations C)" and "r' \<in> set (co_operations C')" and "so_generation r' = so_generation r"
  shows "evolves r r'"
proof -
  obtain g a where g: "co_clock C = Some (g, a)" using assms(1,4) by (auto simp: coordinator_inv_def split: option.splits)
  with assms(1) have inv: "operations_ok g (co_operations C)" by (auto simp: coordinator_inv_def)
  then have "so_generation r' \<le> g" using assms(4,6) by (auto simp: operations_ok_def)
  then obtain s where s: "s \<in> set (co_operations C)" "evolves s r'" using assms(3,5) g by (fastforce simp: follows_def)
  then have gen: "so_generation s = so_generation r" using assms(6) by (simp add: evolves_def row_identity_def)
  have "distinct (map so_generation (co_operations C))" using inv by (auto simp: operations_ok_def intro: generations_distinct)
  then have "s = r" using unique_key_row [of so_generation] s(1) assms(4) gen by blast
  then show ?thesis using s(2) by simp
qed

section \<open>Properties\<close>

text \<open>
  C12. One recovery at a time. In every reachable coordinator, an operation that is not complete is the one the clock names, carries the
  clock's generation, and every other operation is complete and of an older generation; at most 64 completed operations are
  kept, and every commit row belongs to an operation that is still there.
\<close>

theorem coordinator_one_active:
  assumes "coordinator_reachable C" and "r \<in> set (co_operations C)"
  shows "(so_phase r \<noteq> Ph_complete \<longrightarrow> co_clock C = Some (so_generation r, Some (so_operation_id r)) \<and>
      (\<forall>s \<in> set (co_operations C). s = r \<or> so_phase s = Ph_complete \<and> so_generation s < so_generation r)) \<and>
    length (filter (\<lambda>s. so_phase s = Ph_complete) (co_operations C)) \<le> 64 \<and>
    (\<forall>s \<in> set (co_commits C). \<exists>u \<in> set (co_operations C). so_operation_id u = sc_operation_id s)"
proof -
  have inv: "coordinator_inv C" using assms(1) by (rule reachable_coordinator)
  obtain g a where g: "co_clock C = Some (g, a)" using inv assms(2) by (auto simp: coordinator_inv_def split: option.splits)
  with inv have ok: "operations_ok g (co_operations C)" "commits_ok (co_operations C) (co_commits C)" by (auto simp: coordinator_inv_def)
  have "co_clock C = Some (so_generation r, Some (so_operation_id r)) \<and>
      (\<forall>s \<in> set (co_operations C). s = r \<or> so_phase s = Ph_complete \<and> so_generation s < so_generation r)" if "so_phase r \<noteq> Ph_complete"
  proof -
    from inv assms(2) that obtain rs where "co_operations C = rs @ [r]" "co_clock C = Some (so_generation r, Some (so_operation_id r))"
      "\<forall>s \<in> set rs. so_phase s = Ph_complete"
      by (rule active_split) auto
    then show ?thesis using ok(1) by (auto simp: operations_ok_def sorted_wrt_append)
  qed
  moreover have "\<exists>u \<in> set (co_operations C). so_operation_id u = sc_operation_id s" if "s \<in> set (co_commits C)" for s
  proof -
    have "sc_operation_id s \<in> so_operation_id ` set (co_operations C)" using ok(2) that by (auto simp: commits_ok_def)
    then show ?thesis by auto
  qed
  moreover have "length (filter (\<lambda>s. so_phase s = Ph_complete) (co_operations C)) \<le> 64"
    using ok(1) by (simp add: operations_ok_def MAX_TERMINAL_OPERATIONS_def)
  ultimately show ?thesis by blast
qed

text \<open>
  C13. An operation only moves forward. Whatever calls lie between, a row of the same generation is the same operation on the same
  recovery point; its phase and its cursors never go back, its provider counts are fixed once it commits and its
  reconciliation counts once it releases.
\<close>

theorem coordinator_operation_advances:
  assumes "coordinator_reachable C" and "coordinator_history C C'" and "r \<in> set (co_operations C)" and "r' \<in> set (co_operations C')"
    and "so_generation r' = so_generation r"
  shows "so_operation_id r' = so_operation_id r \<and> so_digest r' = so_digest r \<and> phase_rank (so_phase r) \<le> phase_rank (so_phase r') \<and>
    (so_phase r \<noteq> Ph_preparing \<longrightarrow> row_provider r' = row_provider r) \<and>
    (phase_rank Ph_releasing \<le> phase_rank (so_phase r) \<longrightarrow> row_reconciled r' = row_reconciled r) \<and>
    so_commit_index r \<le> so_commit_index r' \<and> so_release_index r \<le> so_release_index r'"
proof -
  have inv: "coordinator_inv C" using assms(1) by (rule reachable_coordinator)
  then have "evolves r r'" using history_follows [OF assms(2) inv] follows_evolves assms(3-5) by blast
  then show ?thesis by (simp add: evolves_def row_identity_def)
qed

text \<open>
  C14. The answer is what is stored. For every state reachable by the coordinator's calls: the state a call answers (the fields that its phase
  declares) is the state the next read of that operation returns, in every phase and whether or not the call changed anything; a claim may
  answer with the operation that is already active for the digest. The object of \<open>beginCommits\<close>, \<open>finishShards\<close>, \<open>beginReleases\<close> and
  \<open>beginCatalog\<close> has other fields besides only if the call changed the phase, and then exactly those that only the phase before had: the
  continuation of the preparation or the reconciliation, the commit index or the release index, as they were read before the call. For
  \<open>advanceShard\<close> and \<open>advanceRelease\<close> the premise is that the next index is a safe integer; past it the read refuses.
\<close>

theorem coordinator_returns_stored:
  assumes "coordinator_reachable C"
  shows "(claimPreparation M op d c C = Inr (v, C') \<longrightarrow> (\<exists>i. state_identity v = Some i \<and> ri_digest i = d \<and> readOperation (ri_operationId i) C' = Inr v)) \<and>
    (savePreparation op c C = Inr (v, C') \<or> saveReconcile op c C = Inr (v, C') \<or> completeRecovery op C = Inr (v, C') \<longrightarrow>
      readOperation op C' = Inr v) \<and>
    (beginCommits op pc C = Inr ((v, k), C') \<or> finishShards op c n C = Inr ((v, k), C') \<or> beginReleases op rc C = Inr ((v, k), C') \<or>
     beginCatalog op n C = Inr ((v, k), C') \<longrightarrow> readOperation op C' = Inr v \<and>
       (\<exists>s. readOperation op C = Inr s \<and> k = (if state_phase s = state_phase v then no_carried else carried_fields s))) \<and>
    (safe_integer (n + 1) \<and> (advanceShard op n obj C = Inr (v, C') \<or> advanceRelease op n C = Inr (v, C')) \<longrightarrow> readOperation op C' = Inr v)"
proof -
  have inv: "coordinator_inv C" using assms by (rule reachable_coordinator)
  show ?thesis unfolding carried_by_def [symmetric]
    by (intro conjI impI; (elim disjE conjE)?)
      (auto dest: claim_reads [OF inv] save_change [OF inv] begin_change [OF inv] finish_change [OF inv] save_reconcile_change [OF inv]
        releases_change [OF inv] catalog_change [OF inv] complete_reads [OF inv] advance_change [OF inv] release_change [OF inv])
qed


subsection \<open>Witnesses\<close>

lemma saved_restore: "restore_ok s \<Longrightarrow> checkContinuation (serializeRecoveryContinuationState (restore_json s)) Kind_restore = Inr ()"
  using restore_bytes [of s] stored_cursors(1) [of s]
  by (simp add: checkContinuation_def serializeRecoveryContinuationState_def stableJson_def canonical_restore json_bytes_def del: stringify.simps)

definition sample_text :: string where
  "sample_text = serializeRecoveryContinuationState (restore_json sample_cursor)"

definition sample_point :: string where "sample_point = replicate 64 CHR ''a''"

definition idle_resharder :: reshard_tables where
  "idle_resharder = \<lparr> rt_migration_state = Some [6, -1], rt_migration_start_intent = Some [False] \<rparr>"

definition opened_sample :: coordinator where
  "opened_sample = \<lparr> co_clock = Some (0, None), co_operations = [], co_commits = [], co_legacy = None \<rparr>"

definition claimed_sample :: coordinator where
  "claimed_sample = \<lparr> co_clock = Some (1, Some sample_op), co_operations = [claimed_row sample_op sample_point 1 sample_text], co_commits = [],
     co_legacy = None \<rparr>"

definition sample_counts :: RecoveryProviderCounts where
  "sample_counts = \<lparr> pc_files = 1, pc_filesRetained = 2, pc_vectors = 3 \<rparr>"

definition committing_row :: StoredOperation where
  "committing_row = (claimed_row sample_op sample_point 1 sample_text)\<lparr>so_phase := Ph_committing, so_files := 1, so_files_retained := 2,
     so_vectors := 3, so_continuation_json := None\<rparr>"

definition sample_identity :: RecoveryIdentity where
  "sample_identity = \<lparr> ri_operationId = sample_op, ri_digest = sample_point, ri_generation = 1 \<rparr>"

lemma sample_ids: "RECOVERY_OPERATION_ID sample_op" "hex_digest sample_point" "sample_op \<noteq> []" "checkContinuation sample_text Kind_restore = Inr ()"
proof -
  show "RECOVERY_OPERATION_ID sample_op" by code_simp
  show "hex_digest sample_point" by code_simp
  show "sample_op \<noteq> []" by (simp add: sample_op_def)
  show "checkContinuation sample_text Kind_restore = Inr ()" using saved_restore [OF sample_cursor_ok] by (simp add: sample_text_def)
qed

lemma sample_open: "open_coordinator (initial_coordinator None) = Inr opened_sample"
  by (simp add: open_coordinator_def retireLegacyCoordinator_def initial_coordinator_def opened_sample_def)

lemma sample_claim: "claimPreparation idle_resharder sample_op sample_point sample_text opened_sample = Inr (St_preparing sample_identity sample_text, claimed_sample)"
  using sample_ids(1-4) unfolding claimed_sample_def
  by (simp add: claimPreparation_def assertOperation_def assertDigest_def readOperation_def operation_row_def sql_one_def opened_sample_def admissionClock_def
      co_count_def safe_integer_def assertNoReshard_def idle_resharder_def sql_insert_def operation_row_check_def claimed_row_def claimed_sample_def
      sample_identity_def Let_def)

lemma sample_read: "readOperation sample_op claimed_sample = Inr (St_preparing sample_identity sample_text)"
  using sample_ids
  by (simp add: readOperation_def assertOperation_def operation_row_def sql_one_def claimed_sample_def claimed_row_def projectOperation_def co_count_def
      safe_integer_def sample_identity_def Let_def)

lemma begin_sample_run: "beginCommits sample_op sample_counts claimed_sample =
    Inr ((St_committing sample_identity sample_counts 0, no_carried\<lparr>cf_continuationJson := Some sample_text\<rparr>), claimed_sample\<lparr>co_operations := [committing_row]\<rparr>)"
  unfolding beginCommits_def sample_read
  by (simp add: assertProviderCounts_def sample_counts_def co_count_def safe_integer_def update_operations_def sql_update_checked_def sql_update_def
      claimed_sample_def claimed_row_def committing_row_def operation_row_check_def Let_def)

lemma sample_reachable: "coordinator_reachable opened_sample" "coordinator_reachable claimed_sample"
proof -
  show opened: "coordinator_reachable opened_sample"
    by (rule coordinator_reachable.step [OF coordinator_reachable.start step_open [OF sample_open, of idle_resharder]])
  show "coordinator_reachable claimed_sample"
    by (rule coordinator_reachable.step [OF opened step_claim [OF sample_claim]])
qed

lemma coordinator_one_active_witness: "co_clock claimed_sample = Some (1, Some sample_op)"
  using coordinator_one_active [OF sample_reachable(2), of "claimed_row sample_op sample_point 1 sample_text"]
  by (simp add: claimed_sample_def claimed_row_def)

lemma coordinator_operation_advances_witness: "so_digest committing_row = sample_point \<and> phase_rank Ph_preparing \<le> phase_rank (so_phase committing_row)"
  using coordinator_operation_advances [OF sample_reachable(2) history_step [OF history_refl step_begin [OF begin_sample_run, of idle_resharder]],
      of "claimed_row sample_op sample_point 1 sample_text" committing_row]
  by (simp add: claimed_sample_def claimed_row_def committing_row_def)

lemma coordinator_returns_stored_witness:
  "readOperation sample_op (claimed_sample\<lparr>co_operations := [committing_row]\<rparr>) = Inr (St_committing sample_identity sample_counts 0)"
  using coordinator_returns_stored [OF sample_reachable(2)] begin_sample_run by blast

end
