(* ===== verification/Recovery_Fleet.thy ===== *)
theory Recovery_Fleet
  imports Recovery_Coordinator
begin

text \<open>
  A recovery as a whole: the coordinator of \<^verbatim>\<open>src/src/server/do/recovery-coordinator.ts\<close>, the admission gates of
  \<^verbatim>\<open>src/src/server/do/recovery-admission.ts\<close> in the shards and the Catalog, and between them the messages that the
  turns of \<^verbatim>\<open>src/src/server/recovery-admin.ts\<close> send. A message may arrive late, more than once or never. An object may
  restart at any moment with any state it had before, because a point-in-time restore rewinds its storage; it then asks
  for the recovery clock and reconciles before it serves again, and the answer may be old by the time it is used. While it
  serves it may reconcile with any clock that was ever read (\<open>prepareReshardDestOwnership\<close>, and \<open>provisionFreshReshardDestination\<close> with the
  clock its split was admitted at).
\<close>

section \<open>State and steps\<close>

datatype fleet_message = Arm_message string int | Release_message string int | Clock_message RecoveryAdmissionClock

datatype fleet_object =
    Serving admission
  | Booting admission "RecoveryAdmissionClock option"

text \<open>\<open>fl_pasts\<close> keeps every state an object has had.\<close>

record recovery_fleet =
  fl_coordinator :: coordinator
  fl_objects :: "string \<Rightarrow> fleet_object"
  fl_pasts :: "string \<Rightarrow> admission list"
  fl_messages :: "fleet_message list"

definition serve :: "string \<Rightarrow> admission \<Rightarrow> recovery_fleet \<Rightarrow> recovery_fleet" where
  "serve x a F = F\<lparr>fl_objects := (fl_objects F)(x := Serving a), fl_pasts := (fl_pasts F)(x := fl_pasts F x @ [a])\<rparr>"

inductive recovery_fleet_step :: "recovery_fleet \<Rightarrow> recovery_fleet \<Rightarrow> bool" where
  fleet_coordinator: "coordinator_step M (fl_coordinator F) C \<Longrightarrow> recovery_fleet_step F (F\<lparr>fl_coordinator := C\<rparr>)"
| fleet_send_arm: "readOperation op (fl_coordinator F) = Inr (St_preparing i c) \<Longrightarrow>
    recovery_fleet_step F (F\<lparr>fl_messages := Arm_message (ri_operationId i) (ri_generation i) # fl_messages F\<rparr>)"
| fleet_send_release: "readOperation op (fl_coordinator F) = Inr v \<Longrightarrow> state_phase v = Some Ph_releasing \<or> state_phase v = Some Ph_catalog \<Longrightarrow>
    state_identity v = Some i \<Longrightarrow> recovery_fleet_step F (F\<lparr>fl_messages := Release_message (ri_operationId i) (ri_generation i) # fl_messages F\<rparr>)"
| fleet_arm: "Arm_message op g \<in> set (fl_messages F) \<Longrightarrow> fl_objects F x = Serving a \<Longrightarrow> arm op g a = Inr (v, a') \<Longrightarrow> recovery_fleet_step F (serve x a' F)"
| fleet_release: "Release_message op g \<in> set (fl_messages F) \<Longrightarrow> fl_objects F x = Serving a \<Longrightarrow> adm_release op g a = Inr (v, a') \<Longrightarrow>
    recovery_fleet_step F (serve x a' F)"
| fleet_send_clock: "admissionClock (fl_coordinator F) = Inr k \<Longrightarrow> recovery_fleet_step F (F\<lparr>fl_messages := Clock_message k # fl_messages F\<rparr>)"
| fleet_clock: "Clock_message k \<in> set (fl_messages F) \<Longrightarrow> fl_objects F x = Serving a \<Longrightarrow> reconcile k a = Inr (v, a') \<Longrightarrow> recovery_fleet_step F (serve x a' F)"
| fleet_restart: "a \<in> set (fl_pasts F x) \<Longrightarrow> recovery_fleet_step F (F\<lparr>fl_objects := (fl_objects F)(x := Booting a None)\<rparr>)"
| fleet_fetch: "fl_objects F x = Booting a None \<Longrightarrow> admissionClock (fl_coordinator F) = Inr k \<Longrightarrow>
    recovery_fleet_step F (F\<lparr>fl_objects := (fl_objects F)(x := Booting a (Some k))\<rparr>)"
| fleet_boot: "fl_objects F x = Booting a (Some k) \<Longrightarrow> reconcile k a = Inr (v, a') \<Longrightarrow> recovery_fleet_step F (serve x a' F)"

definition initial_fleet :: recovery_fleet where
  "initial_fleet = \<lparr> fl_coordinator = opened_sample, fl_objects = (\<lambda>_. Booting initial_admission None), fl_pasts = (\<lambda>_. [initial_admission]),
     fl_messages = [] \<rparr>"

inductive recovery_fleet_reachable :: "recovery_fleet \<Rightarrow> bool" where
  fleet_start: "recovery_fleet_reachable initial_fleet"
| fleet_next: "recovery_fleet_reachable F \<Longrightarrow> recovery_fleet_step F F' \<Longrightarrow> recovery_fleet_reachable F'"

section \<open>What the coordinator has settled\<close>

text \<open>The clock has reached a generation, and the operation of that generation, if its row is still there, has a property.\<close>

definition settled :: "coordinator \<Rightarrow> int \<Rightarrow> (StoredOperation \<Rightarrow> bool) \<Rightarrow> bool" where
  "settled C g P \<longleftrightarrow> g \<le> fst (the (co_clock C)) \<and> (\<forall>r \<in> set (co_operations C). so_generation r = g \<longrightarrow> P r)"

definition clock_running :: "coordinator \<Rightarrow> bool" where
  "clock_running C \<longleftrightarrow> coordinator_inv C \<and> co_clock C \<noteq> None"

lemma running_step:
  assumes "clock_running C" and "coordinator_step M C C'"
  shows "clock_running C' \<and> follows C C'"
proof -
  have change: "coordinator_change M C C'" using assms step_change by (auto simp: clock_running_def)
  then have f: "follows C C'" by (rule change_follows)
  have "coordinator_inv C'" using change_inv [OF change] assms(1) by (simp add: clock_running_def)
  moreover have "co_clock C' \<noteq> None" using f assms(1) by (auto simp: clock_running_def follows_def)
  ultimately show ?thesis using f by (simp add: clock_running_def)
qed

lemma settled_follows:
  assumes "clock_running C" and "follows C C'" and "settled C g P" and "\<And>r r'. P r \<Longrightarrow> evolves r r' \<Longrightarrow> P r'"
  shows "settled C' g P"
proof -
  obtain G a where G: "co_clock C = Some (G, a)" using assms(1) by (auto simp: clock_running_def)
  with assms(2) obtain G' a' where G': "co_clock C' = Some (G', a')" "G \<le> G'"
    "\<forall>r' \<in> set (co_operations C'). (\<exists>r \<in> set (co_operations C). evolves r r') \<or> G < so_generation r'"
    by (auto simp: follows_def)
  have "P r'" if "r' \<in> set (co_operations C')" "so_generation r' = g" for r'
  proof -
    have "\<not> G < so_generation r'" using assms(3) that(2) by (simp add: settled_def G)
    moreover from G'(3) that(1) have "(\<exists>r \<in> set (co_operations C). evolves r r') \<or> G < so_generation r'" by (rule bspec)
    ultimately obtain r where "r \<in> set (co_operations C)" "evolves r r'" by auto
    then show ?thesis using assms(3,4) that(2) by (auto simp: settled_def evolves_def row_identity_def)
  qed
  then show ?thesis using assms(3) G G'(1,2) by (auto simp: settled_def)
qed

text \<open>
  What the gates rely on: whatever the coordinator's calls do, a fact it has settled about the operation of a generation stays settled
  if it survives the life cycle of an operation.
\<close>

locale generation_clock =
  fixes running :: "'c \<Rightarrow> bool" and call :: "'c \<Rightarrow> 'c \<Rightarrow> bool" and evolve :: "'o \<Rightarrow> 'o \<Rightarrow> bool" and sealed :: "'c \<Rightarrow> int \<Rightarrow> ('o \<Rightarrow> bool) \<Rightarrow> bool"
  assumes call_running: "running c \<Longrightarrow> call c c' \<Longrightarrow> running c'"
    and call_sealed: "running c \<Longrightarrow> call c c' \<Longrightarrow> sealed c g P \<Longrightarrow> (\<And>o1 o2. P o1 \<Longrightarrow> evolve o1 o2 \<Longrightarrow> P o2) \<Longrightarrow> sealed c' g P"
begin

lemma calls_running: "call\<^sup>*\<^sup>* c c' \<Longrightarrow> running c \<Longrightarrow> running c'"
  by (induction rule: rtranclp_induct) (auto intro: call_running)

lemma calls_sealed:
  assumes "call\<^sup>*\<^sup>* c c'" and "running c" and "sealed c g P" and "\<And>o1 o2. P o1 \<Longrightarrow> evolve o1 o2 \<Longrightarrow> P o2"
  shows "sealed c' g P"
  using assms(1-3)
proof (induction rule: rtranclp_induct)
  case (step d e)
  then show ?case using call_sealed [OF calls_running [OF step.hyps(1) step.prems(1)] step.hyps(2)] assms(4) by blast
qed

end

definition coordinator_calls :: "coordinator \<Rightarrow> coordinator \<Rightarrow> bool" where
  "coordinator_calls C C' \<longleftrightarrow> (\<exists>M. coordinator_step M C C')"

interpretation coordinator_clock: generation_clock clock_running coordinator_calls evolves settled
proof
  show "clock_running C \<Longrightarrow> coordinator_calls C C' \<Longrightarrow> clock_running C'" for C C'
    using running_step by (auto simp: coordinator_calls_def)
  show "settled C' g P" if "clock_running C" "coordinator_calls C C'" "settled C g P" "\<And>o1 o2. P o1 \<Longrightarrow> evolves o1 o2 \<Longrightarrow> P o2" for C C' g P
    using settled_follows [OF that(1) _ that(3,4)] running_step [OF that(1)] that(2) by (auto simp: coordinator_calls_def)
qed

text \<open>What a gate in each state presumes of the operation of its generation, and likewise a clock and a message on their way.\<close>

definition gate_presumes :: "admission_state \<Rightarrow> StoredOperation \<Rightarrow> bool" where
  "gate_presumes s r \<longleftrightarrow> (case s of Adm_blocked \<Rightarrow> True | Adm_released \<Rightarrow> phase_rank Ph_releasing \<le> phase_rank (so_phase r) | Adm_open \<Rightarrow> so_phase r = Ph_complete)"

definition gate_ok :: "coordinator \<Rightarrow> admission \<Rightarrow> bool" where
  "gate_ok C a \<longleftrightarrow> (case a of None \<Rightarrow> False | Some r \<Rightarrow> admission_ok r \<and> settled C (adm_generation r) (gate_presumes (adm_state r)))"

definition clock_ok :: "coordinator \<Rightarrow> RecoveryAdmissionClock \<Rightarrow> bool" where
  "clock_ok C k \<longleftrightarrow> settled C (clock_generation k) (\<lambda>r. clock_activeOperationId k = None \<longrightarrow> so_phase r = Ph_complete)"

definition message_ok :: "coordinator \<Rightarrow> fleet_message \<Rightarrow> bool" where
  "message_ok C m = (case m of
       Arm_message op g \<Rightarrow> settled C g (\<lambda>_. True)
     | Release_message op g \<Rightarrow> settled C g (\<lambda>r. phase_rank Ph_releasing \<le> phase_rank (so_phase r))
     | Clock_message k \<Rightarrow> clock_ok C k)"

lemma presumes_evolves: "gate_presumes s r \<Longrightarrow> evolves r r' \<Longrightarrow> gate_presumes s r'"
  by (auto simp: gate_presumes_def evolves_def phase_rank_def split: admission_state.splits operation_phase.splits)

lemma complete_evolves: "so_phase r = Ph_complete \<Longrightarrow> evolves r r' \<Longrightarrow> so_phase r' = Ph_complete"
  using presumes_evolves [of Adm_open] by (simp add: gate_presumes_def)

lemma facts_follow:
  assumes "clock_running C" and "coordinator_calls C C'"
  shows "gate_ok C a \<Longrightarrow> gate_ok C' a" and "clock_ok C k \<Longrightarrow> clock_ok C' k" and "message_ok C m \<Longrightarrow> message_ok C' m"
proof -
  show "gate_ok C a \<Longrightarrow> gate_ok C' a"
    using coordinator_clock.call_sealed [OF assms, of _ "gate_presumes s" for s] presumes_evolves by (auto simp: gate_ok_def split: option.splits)
  have clock: "clock_ok C k \<Longrightarrow> clock_ok C' k" for k
    unfolding clock_ok_def by (rule coordinator_clock.call_sealed [OF assms]) (use complete_evolves in blast)+
  then show "clock_ok C k \<Longrightarrow> clock_ok C' k" .
  have "settled C' g (gate_presumes s)" if "settled C g (gate_presumes s)" for g s
    using coordinator_clock.call_sealed [OF assms that] presumes_evolves by blast
  from this [of _ Adm_blocked] this [of _ Adm_released] clock show "message_ok C m \<Longrightarrow> message_ok C' m"
    unfolding message_ok_def gate_presumes_def by (cases m) auto
qed


section \<open>The invariant\<close>

definition known :: "admission \<Rightarrow> int" where
  "known a = (case a of None \<Rightarrow> 0 | Some r \<Rightarrow> adm_generation r)"

text \<open>A serving object, and the clock a booting object has fetched, are at the highest generation the object ever had.\<close>

definition object_ok :: "coordinator \<Rightarrow> admission list \<Rightarrow> fleet_object \<Rightarrow> bool" where
  "object_ok C ps ob \<longleftrightarrow> (case ob of
       Serving a \<Rightarrow> a \<in> set ps \<and> (\<forall>b \<in> set ps. known b \<le> known a)
     | Booting a k \<Rightarrow> a \<in> set ps \<and> (case k of None \<Rightarrow> True | Some c \<Rightarrow> clock_ok C c \<and> (\<forall>b \<in> set ps. known b \<le> clock_generation c)))"

definition recovery_fleet_inv :: "recovery_fleet \<Rightarrow> bool" where
  "recovery_fleet_inv F \<longleftrightarrow> clock_running (fl_coordinator F) \<and> (\<forall>m \<in> set (fl_messages F). message_ok (fl_coordinator F) m) \<and>
     (\<forall>x. object_ok (fl_coordinator F) (fl_pasts F x) (fl_objects F x) \<and> (\<forall>a \<in> set (fl_pasts F x). gate_ok (fl_coordinator F) a))"

lemma clock_read_ok:
  assumes "clock_running C" and "admissionClock C = Inr k"
  shows "clock_ok C k \<and> (\<forall>a. gate_ok C a \<longrightarrow> known a \<le> clock_generation k)"
proof -
  from clock_active [OF assms(2)] obtain g a where g: "co_clock C = Some (g, a)" "clock_generation k = g" "clock_activeOperationId k = a" by blast
  have "clock_ok C k" using assms(1) g by (auto simp: clock_ok_def settled_def clock_running_def coordinator_inv_def active_shape_def)
  then show ?thesis using g by (auto simp: gate_ok_def known_def settled_def split: option.splits)
qed

lemma arm_gate:
  assumes "arm op g a = Inr (v, a')" and "gate_ok C a" and "message_ok C (Arm_message op g)"
  shows "gate_ok C a' \<and> known a \<le> known a'"
  using assms
  by (auto simp: arm_def adm_read_Inr adm_write_def result_simps Let_def gate_ok_def known_def message_ok_def settled_def gate_presumes_def admission_ok_def
      split: if_splits)

lemma release_gate:
  assumes "adm_release op g a = Inr (v, a')" and "gate_ok C a" and "message_ok C (Release_message op g)"
  shows "gate_ok C a' \<and> known a \<le> known a'"
  using assms
  by (auto simp: adm_release_def adm_read_Inr adm_write_def result_simps Let_def gate_ok_def known_def message_ok_def settled_def gate_presumes_def admission_ok_def
      split: if_splits option.splits)

lemma reconcile_gate:
  assumes "reconcile k a = Inr (v, a')" and "gate_ok C a" and "clock_ok C k"
  shows "gate_ok C a' \<and> known a' = clock_generation k \<and> known a \<le> known a'"
  using assms
  by (auto simp: reconcile_def malformed_operation_def adm_read_Inr adm_write_def result_simps Let_def gate_ok_def known_def clock_ok_def settled_def
      gate_presumes_def admission_ok_def split: if_splits option.splits)

lemma serve_inv:
  assumes "recovery_fleet_inv F" and "gate_ok (fl_coordinator F) a'" and "\<And>b. b \<in> set (fl_pasts F x) \<Longrightarrow> known b \<le> known a'"
  shows "recovery_fleet_inv (serve x a' F)"
  using assms by (auto simp: recovery_fleet_inv_def serve_def object_ok_def)

lemma message_inv:
  "recovery_fleet_inv F \<Longrightarrow> message_ok (fl_coordinator F) m \<Longrightarrow> recovery_fleet_inv (F\<lparr>fl_messages := m # fl_messages F\<rparr>)"
  by (auto simp: recovery_fleet_inv_def)

lemma read_settled:
  assumes "clock_running C" and "readOperation op C = Inr v" and "state_identity v = Some i" and "state_phase v = Some p"
  shows "settled C (ri_generation i) (\<lambda>r. so_phase r = p)"
proof -
  from read_row [OF assms(2,4)] obtain r where r: "r \<in> set (co_operations C)" "v = row_state r" "so_phase r = p" by blast
  obtain g a where g: "co_clock C = Some (g, a)" "operations_ok g (co_operations C)"
    using assms(1) by (auto simp: clock_running_def coordinator_inv_def)
  have i: "ri_generation i = so_generation r" using assms(3) r(2) by (auto simp: row_identity_def)
  have "distinct (map so_generation (co_operations C))" using g(2) by (auto simp: operations_ok_def intro: generations_distinct)
  then have "s = r" if "s \<in> set (co_operations C)" "so_generation s = so_generation r" for s
    using unique_key_row [of so_generation] that r(1) by blast
  then show ?thesis using g r(1,3) i by (auto simp: settled_def operations_ok_def)
qed

lemma settled_mono: "settled C g P \<Longrightarrow> (\<And>r. P r \<Longrightarrow> Q r) \<Longrightarrow> settled C g Q"
  by (auto simp: settled_def)

lemma serving_gate: "recovery_fleet_inv F \<Longrightarrow> fl_objects F x = Serving a \<Longrightarrow> gate_ok (fl_coordinator F) a \<and> (\<forall>b \<in> set (fl_pasts F x). known b \<le> known a)"
  by (auto simp: recovery_fleet_inv_def object_ok_def split: fleet_object.splits dest: spec [of _ x])

lemma fleet_step_inv:
  assumes inv: "recovery_fleet_inv F" and step: "recovery_fleet_step F F'"
  shows "recovery_fleet_inv F'"
  using step
proof cases
  case (fleet_coordinator M C)
  have "clock_running (fl_coordinator F)" using inv by (simp add: recovery_fleet_inv_def)
  from running_step [OF this fleet_coordinator(2)] have C: "clock_running C" "coordinator_calls (fl_coordinator F) C"
    using fleet_coordinator(2) by (auto simp: coordinator_calls_def)
  note keep = facts_follow [OF \<open>clock_running (fl_coordinator F)\<close> C(2)]
  have "object_ok C ps ob" if "object_ok (fl_coordinator F) ps ob" for ps ob
    using that keep(2) by (auto simp: object_ok_def split: fleet_object.splits option.splits)
  then show ?thesis using inv keep C(1) by (simp add: recovery_fleet_inv_def fleet_coordinator(1))
next
  case (fleet_send_arm op i c)
  have "settled (fl_coordinator F) (ri_generation i) (\<lambda>r. so_phase r = Ph_preparing)"
    using inv fleet_send_arm(2) by (intro read_settled) (auto simp: recovery_fleet_inv_def)
  then have "message_ok (fl_coordinator F) (Arm_message (ri_operationId i) (ri_generation i))"
    by (auto simp: message_ok_def intro: settled_mono)
  then show ?thesis using message_inv [OF inv] fleet_send_arm(1) by simp
next
  case (fleet_send_release op v i)
  then obtain p where p: "state_phase v = Some p" "phase_rank Ph_releasing \<le> phase_rank p" by (auto simp: phase_rank_def)
  have "settled (fl_coordinator F) (ri_generation i) (\<lambda>r. so_phase r = p)"
    using inv fleet_send_release p(1) by (intro read_settled) (auto simp: recovery_fleet_inv_def)
  then have "message_ok (fl_coordinator F) (Release_message (ri_operationId i) (ri_generation i))"
    using p(2) by (auto simp: message_ok_def intro: settled_mono)
  then show ?thesis using message_inv [OF inv] fleet_send_release(1) by simp
next
  case (fleet_arm op g x a v a')
  have "message_ok (fl_coordinator F) (Arm_message op g)" using inv fleet_arm(2) by (auto simp: recovery_fleet_inv_def)
  with arm_gate [OF fleet_arm(4) _ this] serving_gate [OF inv fleet_arm(3)] show ?thesis
    unfolding fleet_arm(1) by (intro serve_inv [OF inv]) (auto intro: order_trans)
next
  case (fleet_release op g x a v a')
  have "message_ok (fl_coordinator F) (Release_message op g)" using inv fleet_release(2) by (auto simp: recovery_fleet_inv_def)
  with release_gate [OF fleet_release(4) _ this] serving_gate [OF inv fleet_release(3)] show ?thesis
    unfolding fleet_release(1) by (intro serve_inv [OF inv]) (auto intro: order_trans)
next
  case (fleet_send_clock k)
  then have "message_ok (fl_coordinator F) (Clock_message k)"
    using clock_read_ok inv by (auto simp: message_ok_def recovery_fleet_inv_def)
  then show ?thesis using message_inv [OF inv] fleet_send_clock(1) by simp
next
  case (fleet_clock k x a v a')
  have "message_ok (fl_coordinator F) (Clock_message k)" using inv fleet_clock(2) by (auto simp: recovery_fleet_inv_def)
  then have "clock_ok (fl_coordinator F) k" by (simp add: message_ok_def)
  with reconcile_gate [OF fleet_clock(4) _ this] serving_gate [OF inv fleet_clock(3)] show ?thesis
    unfolding fleet_clock(1) by (intro serve_inv [OF inv]) (auto intro: order_trans)
next
  case (fleet_restart a x)
  then show ?thesis using inv by (auto simp: recovery_fleet_inv_def object_ok_def)
next
  case (fleet_fetch x a k)
  have "clock_ok (fl_coordinator F) k \<and> (\<forall>a. gate_ok (fl_coordinator F) a \<longrightarrow> known a \<le> clock_generation k)"
    using clock_read_ok fleet_fetch(3) inv by (auto simp: recovery_fleet_inv_def)
  moreover have "a \<in> set (fl_pasts F x)" using inv fleet_fetch(2) by (auto simp: recovery_fleet_inv_def object_ok_def dest: spec [of _ x])
  ultimately show ?thesis using inv by (auto simp: recovery_fleet_inv_def object_ok_def fleet_fetch(1))
next
  case (fleet_boot x a k v a')
  have ob: "a \<in> set (fl_pasts F x)" "clock_ok (fl_coordinator F) k" "\<forall>b \<in> set (fl_pasts F x). known b \<le> clock_generation k"
    using inv fleet_boot(2) by (auto simp: recovery_fleet_inv_def object_ok_def dest: spec [of _ x])
  have "gate_ok (fl_coordinator F) a" using inv ob(1) by (auto simp: recovery_fleet_inv_def)
  from reconcile_gate [OF fleet_boot(3) this ob(2)] ob(3) show ?thesis
    unfolding fleet_boot(1) by (intro serve_inv [OF inv]) auto
qed


lemma initial_fleet_inv: "recovery_fleet_inv initial_fleet"
proof -
  have "clock_running opened_sample"
    using reachable_coordinator [OF sample_reachable(1)] by (simp add: clock_running_def opened_sample_def)
  moreover have "gate_ok opened_sample initial_admission"
    by (simp add: gate_ok_def initial_admission_def admission_ok_def safe_integer_def settled_def opened_sample_def)
  ultimately show ?thesis by (simp add: recovery_fleet_inv_def initial_fleet_def object_ok_def)
qed

lemma reachable_fleet: "recovery_fleet_reachable F \<Longrightarrow> recovery_fleet_inv F"
  by (induction rule: recovery_fleet_reachable.induct) (auto intro: initial_fleet_inv fleet_step_inv)

lemma step_pasts: "recovery_fleet_step F F' \<Longrightarrow> set (fl_pasts F x) \<subseteq> set (fl_pasts F' x)"
  by (induction rule: recovery_fleet_step.induct) (auto simp: serve_def)

lemma steps_fleet: "recovery_fleet_step\<^sup>*\<^sup>* F F' \<Longrightarrow> recovery_fleet_inv F \<Longrightarrow> recovery_fleet_inv F' \<and> set (fl_pasts F x) \<subseteq> set (fl_pasts F' x)"
proof (induction rule: rtranclp_induct)
  case (step G H)
  then show ?case using fleet_step_inv [OF _ step.hyps(2)] step_pasts [OF step.hyps(2), of x] by blast
qed simp

section \<open>Properties\<close>

text \<open>
  C7. No object serves a generation whose restore is under way. Whatever messages are lost, repeated or late and whatever objects restart from
  rewound storage, an object that serves admits a request only at a generation the clock has reached, and if the recovery
  operation of that generation is still recorded, it has at least begun to release.
\<close>

theorem fleet_admits_after_release:
  assumes "recovery_fleet_reachable F" and "fl_objects F x = Serving a" and "assertRequest g a = Inr ()"
  shows "\<exists>G active. co_clock (fl_coordinator F) = Some (G, active) \<and> g \<le> G \<and>
    (\<forall>r \<in> set (co_operations (fl_coordinator F)). so_generation r = g \<longrightarrow> so_phase r \<in> {Ph_releasing, Ph_catalog, Ph_complete})"
proof -
  have inv: "recovery_fleet_inv F" using assms(1) by (rule reachable_fleet)
  then obtain G active where G: "co_clock (fl_coordinator F) = Some (G, active)" by (auto simp: recovery_fleet_inv_def clock_running_def)
  have "gate_ok (fl_coordinator F) a" using serving_gate [OF inv assms(2)] by blast
  then obtain s where s: "a = Some s" "admission_ok s" "settled (fl_coordinator F) (adm_generation s) (gate_presumes (adm_state s))"
    by (auto simp: gate_ok_def split: option.splits)
  have g: "g = adm_generation s" "adm_state s \<noteq> Adm_blocked"
    using assms(3) s(1,2) by (auto simp: assertRequest_def adm_read_Inr result_simps)
  have "so_phase r \<in> {Ph_releasing, Ph_catalog, Ph_complete}" if "gate_presumes (adm_state s) r" for r
    using that g(2) by (cases "adm_state s"; cases "so_phase r") (auto simp: gate_presumes_def phase_rank_def)
  then show ?thesis using s(3) G g(1) by (auto simp: settled_def)
qed

text \<open>
  C5. An armed object stays shut until its release. Once an object has been at the generation of a recovery operation, then as long as that
  operation has not begun to release, the object refuses every request and runs no background work whenever it serves, even after
  its storage was rewound to a state from before the recovery.
\<close>

theorem armed_object_stays_shut:
  assumes "recovery_fleet_reachable F" and "fl_objects F x = Serving (Some s)" and "recovery_fleet_step\<^sup>*\<^sup>* F F'"
    and "r \<in> set (co_operations (fl_coordinator F'))" and "so_generation r = adm_generation s"
    and "so_phase r \<in> {Ph_preparing, Ph_committing, Ph_reconciling}" and "fl_objects F' x = Serving a"
  shows "blocksBackgroundWork a = Inr True \<and> (\<forall>n. assertRequest n a = Inl (Cdb CDB_STALE_EPOCH))"
proof -
  have inv: "recovery_fleet_inv F" using assms(1) by (rule reachable_fleet)
  then have past: "Some s \<in> set (fl_pasts F x)" using assms(2) by (auto simp: recovery_fleet_inv_def object_ok_def dest: spec [of _ x])
  from steps_fleet [OF assms(3) inv, of x] have inv': "recovery_fleet_inv F'" and past': "Some s \<in> set (fl_pasts F' x)" using past by auto
  from serving_gate [OF inv' assms(7)] past' have gate: "gate_ok (fl_coordinator F') a" "adm_generation s \<le> known a"
    by (auto simp: known_def)
  then obtain t where t: "a = Some t" "admission_ok t" "settled (fl_coordinator F') (adm_generation t) (gate_presumes (adm_state t))"
    by (auto simp: gate_ok_def split: option.splits)
  have "coordinator_inv (fl_coordinator F')" using inv' by (simp add: recovery_fleet_inv_def clock_running_def)
  then have "co_clock (fl_coordinator F') = Some (so_generation r, Some (so_operation_id r))"
    by (rule active_split [OF _ assms(4)]) (use assms(6) in auto)
  then have gen: "adm_generation t = so_generation r" using t(1,3) gate(2) assms(5) by (simp add: settled_def known_def)
  then have "gate_presumes (adm_state t) r" using t(3) assms(4) by (simp add: settled_def)
  then have "adm_state t = Adm_blocked"
    using assms(6) by (cases "adm_state t") (auto simp: gate_presumes_def phase_rank_def)
  moreover have "adm_read a = Inr t" using t(1,2) by (simp add: adm_read_Inr)
  ultimately show ?thesis by (simp add: blocksBackgroundWork_def assertRequest_def ensure_def)
qed

subsection \<open>Witnesses\<close>

definition claimed_fleet :: recovery_fleet where
  "claimed_fleet = initial_fleet\<lparr>fl_coordinator := claimed_sample\<rparr>"

definition fetched_fleet :: "RecoveryAdmissionClock \<Rightarrow> recovery_fleet \<Rightarrow> recovery_fleet" where
  "fetched_fleet k F = F\<lparr>fl_objects := (fl_objects F)(''s'' := Booting initial_admission (Some k))\<rparr>"

definition claimed_clock :: RecoveryAdmissionClock where
  "claimed_clock = \<lparr> clock_generation = 1, clock_activeOperationId = Some sample_op, clock_activeDigest = Some sample_point \<rparr>"

lemma claimed_admission: "admissionClock claimed_sample = Inr claimed_clock"
  by (simp add: admissionClock_def claimed_sample_def claimed_clock_def co_count_def safe_integer_def operation_row_def sql_one_def claimed_row_def)

lemma claimed_reconcile: "reconcile claimed_clock initial_admission = Inr (armed_gate, Some armed_gate)"
  using sample_ids(1)
  by (simp add: reconcile_def claimed_clock_def safe_integer_def malformed_operation_def initial_admission_def adm_read_def adm_write_def armed_gate_def Let_def)

lemma armed_fleet_reachable: "recovery_fleet_reachable (serve ''s'' (Some armed_gate) (fetched_fleet claimed_clock claimed_fleet))"
proof -
  have "recovery_fleet_step initial_fleet claimed_fleet"
    using fleet_coordinator [of idle_resharder initial_fleet claimed_sample] step_claim [OF sample_claim]
    by (simp add: initial_fleet_def claimed_fleet_def)
  moreover have "recovery_fleet_step claimed_fleet (fetched_fleet claimed_clock claimed_fleet)"
    using fleet_fetch [of claimed_fleet "''s''" initial_admission claimed_clock] claimed_admission
    by (simp add: claimed_fleet_def initial_fleet_def fetched_fleet_def)
  moreover have "recovery_fleet_step (fetched_fleet claimed_clock claimed_fleet) (serve ''s'' (Some armed_gate) (fetched_fleet claimed_clock claimed_fleet))"
    by (rule fleet_boot [OF _ claimed_reconcile]) (simp add: fetched_fleet_def)
  ultimately show ?thesis by (meson fleet_start fleet_next)
qed

lemma armed_object_stays_shut_witness: "assertRequest 0 (Some armed_gate) = Inl (Cdb CDB_STALE_EPOCH)"
  using armed_object_stays_shut [OF armed_fleet_reachable _ rtranclp.rtrancl_refl, of "''s''" armed_gate
      "claimed_row sample_op sample_point 1 sample_text" "Some armed_gate"]
  by (simp add: serve_def fetched_fleet_def claimed_fleet_def initial_fleet_def claimed_sample_def claimed_row_def armed_gate_def)

definition idle_clock :: RecoveryAdmissionClock where
  "idle_clock = \<lparr> clock_generation = 0, clock_activeOperationId = None, clock_activeDigest = None \<rparr>"

lemma idle_fleet_reachable: "recovery_fleet_reachable (serve ''s'' initial_admission (fetched_fleet idle_clock initial_fleet))"
proof -
  have "admissionClock opened_sample = Inr idle_clock"
    by (simp add: admissionClock_def opened_sample_def co_count_def safe_integer_def idle_clock_def)
  then have "recovery_fleet_step initial_fleet (fetched_fleet idle_clock initial_fleet)"
    using fleet_fetch [of initial_fleet "''s''" initial_admission idle_clock] by (simp add: initial_fleet_def fetched_fleet_def)
  moreover have "reconcile idle_clock initial_admission = Inr (the initial_admission, initial_admission)" by code_simp
  then have "recovery_fleet_step (fetched_fleet idle_clock initial_fleet) (serve ''s'' initial_admission (fetched_fleet idle_clock initial_fleet))"
    by (rule fleet_boot [rotated]) (simp add: fetched_fleet_def)
  ultimately show ?thesis by (meson fleet_start fleet_next)
qed

lemma fleet_admits_after_release_witness: "\<exists>G active. co_clock opened_sample = Some (G, active) \<and> 0 \<le> G"
proof -
  have "assertRequest 0 initial_admission = Inr ()" by code_simp
  then show ?thesis
    using fleet_admits_after_release [OF idle_fleet_reachable, of "''s''" initial_admission 0]
    by (auto simp: serve_def fetched_fleet_def initial_fleet_def)
qed

end
