(* ===== verification/Resharder_Phases.thy ===== *)
theory Resharder_Phases
  imports Recovery_Coordinator Start_Intent Topology_Operations
begin

text \<open>
  How \<^verbatim>\<open>src/src/server/do/resharder.ts\<close> starts a split and moves it through its phases, together with the recovery coordinator that lives
  in the same object: the transactions of \<open>startSplit\<close>, \<open>advance\<close>, \<open>abort\<close> and of the recovery of a legacy file movement. What the
  drivers do on the shards and the catalog between two transactions is not modelled here: any other call may run there; nor are the maps of
  running drivers, which only refuse more calls.
  \<open>canonicalSplitTables\<close> compares names by \<open>localeCompare\<close>, so it is an argument; the cursors of files and vectors are stores of their own, of
  which only the presence of a row is kept.
\<close>

section \<open>Data\<close>

definition INIT :: int where "INIT = 0"
definition TAIL_CAPTURE_ENABLED :: int where "TAIL_CAPTURE_ENABLED = 1"
definition BULK_COPY_DONE :: int where "BULK_COPY_DONE = 2"
definition TAIL_CAUGHT_UP :: int where "TAIL_CAUGHT_UP = 3"
definition DUAL_WRITE_OPEN :: int where "DUAL_WRITE_OPEN = 4"
definition CATALOG_CUT_OVER :: int where "CATALOG_CUT_OVER = 5"
definition SOURCE_DRAINED :: int where "SOURCE_DRAINED = 6"
definition ABORTING :: int where "ABORTING = 7"
definition ABORTED :: int where "ABORTED = -1"

lemmas phase_defs = INIT_def TAIL_CAPTURE_ENABLED_def BULK_COPY_DONE_def TAIL_CAUGHT_UP_def DUAL_WRITE_OPEN_def CATALOG_CUT_OVER_def
  SOURCE_DRAINED_def ABORTING_def ABORTED_def

record StartSplitArgs =
  sa_migId :: string
  sa_srcShard :: string
  sa_dstShard :: string
  sa_rangeLo :: int
  sa_rangeHi :: int
  sa_epochAtStart :: int
  sa_tables :: json

record MigrationRow =
  mg_mig_id :: string
  mg_src_shard :: string
  mg_dst_shard :: string
  mg_range_lo :: int
  mg_range_hi :: int
  mg_phase :: int
  mg_epoch_at_start :: int
  mg_recovery_generation :: int
  mg_tables_json :: string
  mg_bulk_cursor :: string
  mg_tail_cursor :: int
  mg_legacy_cutover_recovered :: bool
  mg_started_at :: int
  mg_updated_at :: int

record WorkCursorRow =
  wc_mig_id :: string
  wc_turn :: int
  wc_bulk_table_index :: int
  wc_updated_at :: int

record SchemaIdentityRow =
  mi_mig_id :: string
  mi_schema_version :: int
  mi_schema_epoch :: int
  mi_schema_digest :: string

text \<open>\<open>mt_oplog_cursor\<close> holds (migration, source LSN, time); the last two hold the migrations that have a row.\<close>

record migration_tables =
  mt_state :: "MigrationRow list"
  mt_oplog_cursor :: "(string \<times> int \<times> int) list"
  mt_work_cursor :: "WorkCursorRow list"
  mt_schema_identity :: "SchemaIdentityRow list"
  mt_file_cursor :: "string list"
  mt_vector_cursor :: "string list"

record resharder =
  rs_coordinator :: coordinator
  rs_intents :: start_intents
  rs_tables :: migration_tables

text \<open>What the Catalog answers to \<open>beginTopologyOperation\<close>.\<close>

record TopologyAnswer =
  tp_status :: CatalogTopologyOperationStatus
  tp_schemaVersion :: int
  tp_schemaEpoch :: int
  tp_schemaDigest :: string

record MigrationState =
  ms_row :: MigrationRow
  ms_schema :: SchemaIdentityRow
  ms_tables :: json
  ms_bulkCursor :: json
  ms_workTurn :: int
  ms_bulkTableIndex :: int

definition schema_identity_check :: "SchemaIdentityRow \<Rightarrow> bool" where
  "schema_identity_check r \<longleftrightarrow> 0 \<le> mi_schema_version r \<and> 0 < mi_schema_epoch r"

abbreviation reshard_mismatch :: js_error where "reshard_mismatch \<equiv> Cdb CDB_RESHARD_PHASE_MISMATCH"

section \<open>Starting a split\<close>

definition canonicalStartSplit :: "(json \<Rightarrow> string res) \<Rightarrow> StartSplitArgs \<Rightarrow> string res" where
  "canonicalStartSplit canonicalSplitTables args =
     rbind (ensure (MIGRATION_ID (sa_migId args)) (Cdb CDB_INVALID_ARGS)) (\<lambda>_.
     rbind (ensure (opaque_id (sa_srcShard args) \<and> opaque_id (sa_dstShard args)) (Cdb CDB_INVALID_ARGS)) (\<lambda>_.
     rbind (ensure (sa_srcShard args \<noteq> sa_dstShard args) (Cdb CDB_INVALID_ARGS)) (\<lambda>_.
     rbind (ensure (\<not> (\<not> safe_integer (sa_rangeLo args) \<or> \<not> safe_integer (sa_rangeHi args) \<or> sa_rangeLo args < 0 \<or>
       sa_rangeHi args < sa_rangeLo args \<or> VSHARD_COUNT \<le> sa_rangeHi args)) (Cdb CDB_INVALID_ARGS)) (\<lambda>_.
     rbind (ensure (safe_integer (sa_epochAtStart args) \<and> 1 \<le> sa_epochAtStart args) (Cdb CDB_INVALID_ARGS)) (\<lambda>_.
     canonicalSplitTables (sa_tables args))))))"

definition startIdentity :: "StartSplitArgs \<Rightarrow> string \<Rightarrow> int \<Rightarrow> ResharderStartIdentity" where
  "startIdentity args tablesJson recoveryGeneration =
     \<lparr> sid_migId = sa_migId args, sid_srcShard = sa_srcShard args, sid_dstShard = sa_dstShard args, sid_rangeLo = sa_rangeLo args,
       sid_rangeHi = sa_rangeHi args, sid_epochAtStart = sa_epochAtStart args, sid_recoveryGeneration = recoveryGeneration,
       sid_tablesJson = tablesJson \<rparr>"

text \<open>A store is constructed before each use.\<close>

definition recovery_clock :: "resharder \<Rightarrow> (RecoveryAdmissionClock \<times> resharder) res" where
  "recovery_clock R =
     rbind (open_coordinator (rs_coordinator R)) (\<lambda>C.
     rbind (admissionClock C) (\<lambda>clock. Inr (clock, R\<lparr>rs_coordinator := C\<rparr>)))"

text \<open>The first part of \<open>startSplit\<close>, which fixes the identity of the split.\<close>

definition startSplit :: "(json \<Rightarrow> string res) \<Rightarrow> StartSplitArgs \<Rightarrow> resharder \<Rightarrow> (ResharderStartIdentity \<times> resharder) res" where
  "startSplit canonicalSplitTables args R =
     rbind (canonicalStartSplit canonicalSplitTables args) (\<lambda>tablesJson.
     rbind (recovery_clock R) (\<lambda>(clock, R').
     rbind (ensure (clock_activeOperationId clock = None) reshard_mismatch) (\<lambda>_.
     Inr (startIdentity args tablesJson (clock_generation clock), R'))))"

definition readMigration :: "string \<Rightarrow> migration_tables \<Rightarrow> MigrationState option res" where
  "readMigration migId M = (case sql_one (\<lambda>r. mg_mig_id r = migId) (mt_state M) of
       None \<Rightarrow> Inr None
     | Some row \<Rightarrow>
         (case sql_one (\<lambda>r. mi_mig_id r = migId) (mt_schema_identity M) of
            None \<Rightarrow> Inl reshard_mismatch
          | Some i \<Rightarrow>
              rbind (ensure (\<not> (\<not> safe_integer (mi_schema_version i) \<or> mi_schema_version i < 0 \<or> \<not> safe_integer (mi_schema_epoch i) \<or>
                mi_schema_epoch i < 1 \<or> \<not> hex_digest (mi_schema_digest i))) reshard_mismatch) (\<lambda>_.
              rbind (JSON_parse (mg_tables_json row)) (\<lambda>tables.
              rbind (JSON_parse (mg_bulk_cursor row)) (\<lambda>bulkCursor.
              let w = sql_one (\<lambda>r. wc_mig_id r = migId) (mt_work_cursor M) in
              Inr (Some \<lparr> ms_row = row, ms_schema = i, ms_tables = tables, ms_bulkCursor = bulkCursor,
                ms_workTurn = (case w of None \<Rightarrow> 0 | Some c \<Rightarrow> wc_turn c),
                ms_bulkTableIndex = (case w of None \<Rightarrow> 0 | Some c \<Rightarrow> wc_bulk_table_index c) \<rparr>))))))"

text \<open>The row is that of another split; the tables are compared last.\<close>

definition assertSameSplit :: "(json \<Rightarrow> string res) \<Rightarrow> ResharderStartIdentity \<Rightarrow> MigrationRow \<Rightarrow> json res \<Rightarrow> unit res" where
  "assertSameSplit canonicalSplitTables identity row tables =
     rbind (ensure (\<not> (mg_src_shard row \<noteq> sid_srcShard identity \<or> mg_dst_shard row \<noteq> sid_dstShard identity \<or>
       mg_range_lo row \<noteq> sid_rangeLo identity \<or> mg_range_hi row \<noteq> sid_rangeHi identity \<or>
       mg_epoch_at_start row \<noteq> sid_epochAtStart identity \<or> mg_recovery_generation row \<noteq> sid_recoveryGeneration identity)) reshard_mismatch) (\<lambda>_.
     rbind tables (\<lambda>v. rbind (canonicalSplitTables v) (\<lambda>c. ensure (c = sid_tablesJson identity) reshard_mismatch)))"

text \<open>\<open>startSplitDriver\<close> up to the call of the Catalog: the intent is recorded under the clock the split was admitted at.\<close>

definition startSplit_intent :: "(json \<Rightarrow> string res) \<Rightarrow> ResharderStartIdentity \<Rightarrow> int \<Rightarrow> resharder \<Rightarrow> (MigrationState option \<times> resharder) res" where
  "startSplit_intent canonicalSplitTables identity nowMs R =
     rbind (readMigration (sid_migId identity) (rs_tables R)) (\<lambda>existing.
     rbind (case existing of None \<Rightarrow> Inr () | Some m \<Rightarrow> assertSameSplit canonicalSplitTables identity (ms_row m) (Inr (ms_tables m))) (\<lambda>_.
     rbind (recovery_clock R) (\<lambda>(clock, R').
     rbind (ensure (\<not> (clock_activeOperationId clock \<noteq> None \<or> clock_generation clock \<noteq> sid_recoveryGeneration identity)) reshard_mismatch) (\<lambda>_.
     rbind (start_begin identity nowMs (rs_intents R')) (\<lambda>(v, t). Inr (existing, R'\<lparr>rs_intents := t\<rparr>))))))"

text \<open>The Catalog's answer: an aborted operation cancels the intent (\<open>Inl\<close> after the tables were written), others are checked.\<close>

definition startSplit_answer :: "MigrationState option \<Rightarrow> TopologyAnswer \<Rightarrow> unit res" where
  "startSplit_answer existing topology =
     rbind (ensure (\<not> (tp_status topology = Op_completed \<and> existing = None)) reshard_mismatch) (\<lambda>_.
     rbind (ensure (\<not> (\<not> safe_integer (tp_schemaVersion topology) \<or> tp_schemaVersion topology < 0 \<or> \<not> safe_integer (tp_schemaEpoch topology) \<or>
       tp_schemaEpoch topology < 1 \<or> \<not> hex_digest (tp_schemaDigest topology))) (Cdb CDB_INVARIANT)) (\<lambda>_.
     case existing of
       None \<Rightarrow> Inr ()
     | Some m \<Rightarrow> ensure (\<not> (mi_schema_version (ms_schema m) \<noteq> tp_schemaVersion topology \<or> mi_schema_epoch (ms_schema m) \<noteq> tp_schemaEpoch topology \<or>
         mi_schema_digest (ms_schema m) \<noteq> tp_schemaDigest topology)) reshard_mismatch))"

definition startSplit_canceled :: "string \<Rightarrow> int \<Rightarrow> resharder \<Rightarrow> resharder res" where
  "startSplit_canceled migId nowMs R = rbind (requestAbort migId nowMs (rs_intents R)) (\<lambda>(v, t). Inr (R\<lparr>rs_intents := t\<rparr>))"

definition insert_cursor :: "('r \<Rightarrow> 'k) \<Rightarrow> 'r \<Rightarrow> 'r list \<Rightarrow> 'r list" where
  "insert_cursor key r t = (if \<exists>s \<in> set t. key s = key r then t else t @ [r])"

definition new_migration :: "ResharderStartIdentity \<Rightarrow> int \<Rightarrow> MigrationRow" where
  "new_migration identity now =
     \<lparr> mg_mig_id = sid_migId identity, mg_src_shard = sid_srcShard identity, mg_dst_shard = sid_dstShard identity,
       mg_range_lo = sid_rangeLo identity, mg_range_hi = sid_rangeHi identity, mg_phase = 0, mg_epoch_at_start = sid_epochAtStart identity,
       mg_recovery_generation = sid_recoveryGeneration identity, mg_tables_json = sid_tablesJson identity, mg_bulk_cursor = ''{}'',
       mg_tail_cursor = 0, mg_legacy_cutover_recovered = False, mg_started_at = now, mg_updated_at = now \<rparr>"

text \<open>The transaction after the Catalog answered: the migration and its cursors appear as the intent goes. True when it was canceled meanwhile.\<close>

definition startSplit_record :: "(json \<Rightarrow> string res) \<Rightarrow> ResharderStartIdentity \<Rightarrow> TopologyAnswer \<Rightarrow> int \<Rightarrow> resharder \<Rightarrow> (bool \<times> resharder) res" where
  "startSplit_record canonicalSplitTables identity topology now R =
     rbind (requireExact identity (rs_intents R)) (\<lambda>intent.
     if int_state intent = Abort_requested then Inr (True, R)
     else
       (let M = rs_tables R; migId = sid_migId identity in
        case sql_one (\<lambda>r. mg_mig_id r = migId) (mt_state M) of
          Some existing \<Rightarrow>
            rbind (assertSameSplit canonicalSplitTables identity existing (JSON_parse (mg_tables_json existing))) (\<lambda>_.
            rbind (clearStarted identity (rs_intents R)) (\<lambda>t. Inr (False, R\<lparr>rs_intents := t\<rparr>)))
        | None \<Rightarrow>
            rbind (sql_insert mg_mig_id (\<lambda>r. 0 \<le> mg_recovery_generation r) (new_migration identity now) (mt_state M)) (\<lambda>states.
            rbind (sql_insert mi_mig_id schema_identity_check
              \<lparr> mi_mig_id = migId, mi_schema_version = tp_schemaVersion topology, mi_schema_epoch = tp_schemaEpoch topology,
                mi_schema_digest = tp_schemaDigest topology \<rparr> (mt_schema_identity M)) (\<lambda>identities.
            rbind (clearStarted identity (rs_intents R)) (\<lambda>t.
            Inr (False, R\<lparr>rs_intents := t, rs_tables := M\<lparr>mt_state := states,
              mt_oplog_cursor := insert_cursor fst (migId, 0, now) (mt_oplog_cursor M),
              mt_work_cursor := insert_cursor wc_mig_id \<lparr> wc_mig_id = migId, wc_turn = 0, wc_bulk_table_index = 0, wc_updated_at = now \<rparr>
                (mt_work_cursor M),
              mt_schema_identity := identities,
              mt_file_cursor := insert_cursor id migId (mt_file_cursor M),
              mt_vector_cursor := insert_cursor id migId (mt_vector_cursor M)\<rparr>\<rparr>))))))"

section \<open>Phases\<close>

definition reset_work :: "string \<Rightarrow> int \<Rightarrow> migration_tables \<Rightarrow> migration_tables" where
  "reset_work migId now M = M\<lparr>mt_work_cursor := sql_update (\<lambda>r. wc_mig_id r = migId)
     (\<lambda>r. r\<lparr>wc_turn := 0, wc_bulk_table_index := 0, wc_updated_at := now\<rparr>) (mt_work_cursor M)\<rparr>"

definition advance :: "string \<Rightarrow> int option \<Rightarrow> int \<Rightarrow> migration_tables \<Rightarrow> (int \<times> migration_tables) res" where
  "advance migId expected now M = (case sql_one (\<lambda>r. mg_mig_id r = migId) (mt_state M) of
       None \<Rightarrow> Inr (ABORTED, M)
     | Some row \<Rightarrow>
         rbind (ensure (\<not> (mg_phase row = ABORTING \<or> mg_phase row = ABORTED)) reshard_mismatch) (\<lambda>_.
         rbind (ensure (case expected of None \<Rightarrow> True | Some p \<Rightarrow> mg_phase row = p) reshard_mismatch) (\<lambda>_.
         Inr (mg_phase row + 1, reset_work migId now (M\<lparr>mt_state := sql_update (\<lambda>r. mg_mig_id r = migId)
           (\<lambda>r. r\<lparr>mg_phase := mg_phase row + 1, mg_updated_at := now\<rparr>) (mt_state M)\<rparr>)))))"

text \<open>\<open>UPDATE migration_state SET phase = ... WHERE mig_id = ? AND phase = ?\<close>, which must change one row.\<close>

definition change_phase :: "string \<Rightarrow> int \<Rightarrow> (MigrationRow \<Rightarrow> MigrationRow) \<Rightarrow> migration_tables \<Rightarrow> migration_tables res" where
  "change_phase migId prior f M =
     rbind (ensure (sql_changes (\<lambda>r. mg_mig_id r = migId \<and> mg_phase r = prior) (mt_state M) = 1) reshard_mismatch) (\<lambda>_.
     Inr (M\<lparr>mt_state := sql_update (\<lambda>r. mg_mig_id r = migId \<and> mg_phase r = prior) f (mt_state M)\<rparr>))"

text \<open>\<open>abortDriver\<close> up to its first wait: without a migration the intent is canceled; past the source fence it refuses; otherwise the phase becomes \<open>ABORTING\<close>.\<close>

definition abortDriver :: "string \<Rightarrow> int \<Rightarrow> resharder \<Rightarrow> resharder res" where
  "abortDriver migId now R =
     rbind (readMigration migId (rs_tables R)) (\<lambda>migration. case migration of
       None \<Rightarrow> startSplit_canceled migId now R
     | Some m \<Rightarrow>
         (let phase = mg_phase (ms_row m) in
          if phase = ABORTED then Inr R
          else if phase \<noteq> ABORTING \<and> TAIL_CAUGHT_UP \<le> phase then Inl reshard_mismatch
          else if phase \<noteq> ABORTING then
            rbind (change_phase migId phase (\<lambda>r. r\<lparr>mg_phase := ABORTING, mg_updated_at := now\<rparr>) (rs_tables R)) (\<lambda>M. Inr (R\<lparr>rs_tables := M\<rparr>))
          else Inr R))"

text \<open>The last transaction of \<open>runAbortCleanup\<close>.\<close>

definition finishAbort :: "string \<Rightarrow> int \<Rightarrow> migration_tables \<Rightarrow> migration_tables res" where
  "finishAbort migId now M = change_phase migId ABORTING (\<lambda>r. r\<lparr>mg_phase := ABORTED, mg_updated_at := now\<rparr>) M"

text \<open>The two transactions of \<open>recoverLegacyFileMovementDriver\<close>.\<close>

definition resumeLegacy :: "string \<Rightarrow> int \<Rightarrow> migration_tables \<Rightarrow> migration_tables res" where
  "resumeLegacy migId now M =
     rbind (change_phase migId TAIL_CAUGHT_UP
       (\<lambda>r. r\<lparr>mg_phase := DUAL_WRITE_OPEN, mg_legacy_cutover_recovered := True, mg_updated_at := now\<rparr>) M) (\<lambda>M'.
     Inr (reset_work migId now M'))"

definition abortLegacy :: "string \<Rightarrow> int \<Rightarrow> migration_tables \<Rightarrow> migration_tables res" where
  "abortLegacy migId now M = change_phase migId TAIL_CAUGHT_UP (\<lambda>r. r\<lparr>mg_phase := ABORTING, mg_updated_at := now\<rparr>) M"

text \<open>What \<open>assertNoReshard\<close> sees.\<close>

definition reshard_view :: "resharder \<Rightarrow> reshard_tables" where
  "reshard_view R = \<lparr> rt_migration_state = Some (map mg_phase (mt_state (rs_tables R))),
     rt_migration_start_intent = Some (map (\<lambda>r. st_state r = Starting) (rs_intents R)) \<rparr>"

text \<open>
  One transaction of the object, each an atomic step. The drivers call \<open>advance\<close> with the phase they have just finished; the method takes any
  phase or none, and so does the step: without a phase, or with \<open>SOURCE_DRAINED\<close>, it takes a drained migration on to \<open>ABORTING\<close>. A step is
  labelled with the migrations it reopened in this way.
\<close>

definition reopened :: "string \<Rightarrow> int \<Rightarrow> string set" where
  "reopened migId q = (if q = ABORTING then {migId} else {})"

inductive resharder_step :: "(json \<Rightarrow> string res) \<Rightarrow> string set \<Rightarrow> resharder \<Rightarrow> resharder \<Rightarrow> bool" for canonicalSplitTables where
  rs_recovery: "coordinator_step (reshard_view R) (rs_coordinator R) C \<Longrightarrow> resharder_step canonicalSplitTables {} R (R\<lparr>rs_coordinator := C\<rparr>)"
| rs_start: "startSplit canonicalSplitTables args R = Inr (identity, R') \<Longrightarrow> resharder_step canonicalSplitTables {} R R'"
| rs_intent: "startSplit_intent canonicalSplitTables identity now R = Inr (existing, R') \<Longrightarrow> resharder_step canonicalSplitTables {} R R'"
| rs_canceled: "startSplit_canceled migId now R = Inr R' \<Longrightarrow> resharder_step canonicalSplitTables {} R R'"
| rs_record: "startSplit_record canonicalSplitTables identity topology now R = Inr (gone, R') \<Longrightarrow> resharder_step canonicalSplitTables {} R R'"
| rs_advance: "advance migId expected now (rs_tables R) = Inr (q, M) \<Longrightarrow>
    resharder_step canonicalSplitTables (reopened migId q) R (R\<lparr>rs_tables := M\<rparr>)"
| rs_abort: "abortDriver migId now R = Inr R' \<Longrightarrow> resharder_step canonicalSplitTables {} R R'"
| rs_aborted: "finishAbort migId now (rs_tables R) = Inr M \<Longrightarrow> resharder_step canonicalSplitTables {} R (R\<lparr>rs_tables := M\<rparr>)"
| rs_resume: "resumeLegacy migId now (rs_tables R) = Inr M \<Longrightarrow> resharder_step canonicalSplitTables {} R (R\<lparr>rs_tables := M\<rparr>)"
| rs_abort_legacy: "abortLegacy migId now (rs_tables R) = Inr M \<Longrightarrow> resharder_step canonicalSplitTables {} R (R\<lparr>rs_tables := M\<rparr>)"


section \<open>The phase graph\<close>

text \<open>\<open>reopen\<close> allows the edge of an unbounded \<open>advance\<close>, from \<open>SOURCE_DRAINED\<close> to \<open>ABORTING\<close>.\<close>

definition phase_edge :: "bool \<Rightarrow> int \<Rightarrow> int \<Rightarrow> bool" where
  "phase_edge reopen p q \<longleftrightarrow> q = p \<or> 0 \<le> p \<and> p \<le> CATALOG_CUT_OVER \<and> q = p + 1 \<or> 0 \<le> p \<and> p \<le> TAIL_CAUGHT_UP \<and> q = ABORTING \<or>
     p = ABORTING \<and> q = ABORTED \<or> reopen \<and> p = SOURCE_DRAINED \<and> q = ABORTING"

definition phase_ok :: "int \<Rightarrow> bool" where
  "phase_ok p \<longleftrightarrow> -1 \<le> p \<and> p \<le> 7"

definition closed :: "MigrationRow \<Rightarrow> bool" where
  "closed m \<longleftrightarrow> mg_phase m = ABORTED \<or> mg_phase m = SOURCE_DRAINED"

definition split_of :: "MigrationRow \<Rightarrow> ResharderStartIdentity" where
  "split_of m = \<lparr> sid_migId = mg_mig_id m, sid_srcShard = mg_src_shard m, sid_dstShard = mg_dst_shard m, sid_rangeLo = mg_range_lo m,
     sid_rangeHi = mg_range_hi m, sid_epochAtStart = mg_epoch_at_start m, sid_recoveryGeneration = mg_recovery_generation m,
     sid_tablesJson = mg_tables_json m \<rparr>"

lemma split_of_new [simp]: "split_of (new_migration identity now) = identity"
  by (simp add: split_of_def new_migration_def)

definition row_moves :: "string set \<Rightarrow> MigrationRow \<Rightarrow> MigrationRow \<Rightarrow> bool" where
  "row_moves S m m' \<longleftrightarrow> split_of m' = split_of m \<and> phase_edge (mg_mig_id m \<in> S) (mg_phase m) (mg_phase m')"

lemma row_moves_refl [simp]: "row_moves S m m"
  by (simp add: row_moves_def phase_edge_def)

lemma edge_ok: "phase_edge d p q \<Longrightarrow> phase_ok p \<Longrightarrow> phase_ok q"
  by (auto simp: phase_edge_def phase_ok_def phase_defs)

lemma edge_mono: "phase_edge d p q \<Longrightarrow> (d \<Longrightarrow> e) \<Longrightarrow> phase_edge e p q"
  by (auto simp: phase_edge_def)

lemma split_id: "split_of m' = split_of m \<Longrightarrow> mg_mig_id m' = mg_mig_id m \<and> mg_recovery_generation m' = mg_recovery_generation m"
  by (simp add: split_of_def)

text \<open>A closed migration stays closed, or is reopened; a reopened one can only be aborted.\<close>

definition aside :: "string set \<Rightarrow> MigrationRow \<Rightarrow> bool" where
  "aside S m \<longleftrightarrow> closed m \<or> mg_phase m = ABORTING \<and> mg_mig_id m \<in> S"

lemma aside_stays: "row_moves l m m' \<Longrightarrow> aside S m \<Longrightarrow> aside (S \<union> l) m'"
  by (auto simp: row_moves_def phase_edge_def aside_def closed_def phase_defs dest!: split_id)

lemma aside_mono: "aside S m \<Longrightarrow> aside (S \<union> l) m"
  by (auto simp: aside_def)

text \<open>A transaction that updates one migration.\<close>

definition tables_move :: "string set \<Rightarrow> migration_tables \<Rightarrow> migration_tables \<Rightarrow> bool" where
  "tables_move S M M' \<longleftrightarrow> (\<exists>f. mt_state M' = map f (mt_state M) \<and> (\<forall>m \<in> set (mt_state M). row_moves S m (f m)))"

lemma update_moves:
  assumes "mt_state M' = sql_update p f (mt_state M)" and "\<And>m. m \<in> set (mt_state M) \<Longrightarrow> p m \<Longrightarrow> row_moves S m (f m)"
  shows "tables_move S M M'"
  unfolding tables_move_def using assms by (intro exI [of _ "\<lambda>m. if p m then f m else m"]) (auto simp: sql_update_def)

lemma change_phase_moves:
  assumes "change_phase migId prior f M = Inr M'"
    and "\<And>m. mg_phase m = prior \<Longrightarrow> row_moves S m (f m)"
  shows "tables_move S M M'"
  using assms by (intro update_moves [of _ "\<lambda>r. mg_mig_id r = migId \<and> mg_phase r = prior" f]) (auto simp: change_phase_def result_simps)

lemma state_reset [simp]: "mt_state (reset_work migId now M) = mt_state M"
  by (simp add: reset_work_def)

lemma advance_moves:
  assumes "distinct (map mg_mig_id (mt_state M))" and "\<forall>m \<in> set (mt_state M). phase_ok (mg_phase m)" and "advance migId expected now M = Inr (q, M')"
  shows "tables_move (reopened migId q) M M'"
proof (cases "sql_one (\<lambda>r. mg_mig_id r = migId) (mt_state M)")
  case None
  then have "M' = M" using assms(3) by (simp add: advance_def)
  then show ?thesis by (intro update_moves [of _ "\<lambda>_. False" id]) simp_all
next
  case (Some row)
  have row: "row \<in> set (mt_state M)" "mg_mig_id row = migId" using Some by (auto dest!: sql_one_SomeD)
  have M': "mg_phase row \<noteq> ABORTING" "mg_phase row \<noteq> ABORTED" "q = mg_phase row + 1"
    "mt_state M' = sql_update (\<lambda>r. mg_mig_id r = migId) (\<lambda>r. r\<lparr>mg_phase := mg_phase row + 1, mg_updated_at := now\<rparr>) (mt_state M)"
    using assms(3) Some by (auto simp: advance_def result_simps)
  have "m = row" if "m \<in> set (mt_state M)" "mg_mig_id m = migId" for m
    using unique_key_row [OF assms(1) that(1) row(1)] that(2) row(2) by simp
  moreover have "phase_edge (migId \<in> reopened migId q) (mg_phase row) (mg_phase row + 1)"
    using M'(1-3) assms(2) row(1) by (auto simp: phase_edge_def reopened_def phase_ok_def phase_defs)
  ultimately show ?thesis
    using row(2) by (intro update_moves [OF M'(4)]) (auto simp: row_moves_def split_of_def)
qed

lemma legacy_moves:
  "finishAbort migId now M = Inr M' \<Longrightarrow> tables_move S M M'" "abortLegacy migId now M = Inr M' \<Longrightarrow> tables_move S M M'"
  "resumeLegacy migId now M = Inr M' \<Longrightarrow> tables_move S M M'"
proof -
  show "finishAbort migId now M = Inr M' \<Longrightarrow> tables_move S M M'" "abortLegacy migId now M = Inr M' \<Longrightarrow> tables_move S M M'"
    unfolding finishAbort_def abortLegacy_def
    by (erule change_phase_moves, simp add: row_moves_def split_of_def phase_edge_def phase_defs)+
  assume "resumeLegacy migId now M = Inr M'"
  then obtain M1 where M1: "change_phase migId TAIL_CAUGHT_UP (\<lambda>r. r\<lparr>mg_phase := DUAL_WRITE_OPEN, mg_legacy_cutover_recovered := True, mg_updated_at := now\<rparr>) M = Inr M1"
    and M': "M' = reset_work migId now M1"
    by (auto simp: resumeLegacy_def result_simps)
  have "tables_move S M M1" using M1 by (rule change_phase_moves) (simp add: row_moves_def split_of_def phase_edge_def phase_defs)
  then show "tables_move S M M'" by (simp add: M' tables_move_def)
qed

lemma read_migration_row:
  "readMigration migId M = Inr (Some m) \<Longrightarrow> ms_row m \<in> set (mt_state M) \<and> mg_mig_id (ms_row m) = migId"
  by (auto simp: readMigration_def result_simps Let_def split: option.splits dest!: sql_one_SomeD)

lemma abort_cases:
  assumes "\<forall>m \<in> set (mt_state (rs_tables R)). phase_ok (mg_phase m)" and "abortDriver migId now R = Inr R'"
  shows "R' = R \<or> startSplit_canceled migId now R = Inr R' \<or> (\<exists>M. R' = R\<lparr>rs_tables := M\<rparr> \<and> tables_move S (rs_tables R) M)"
proof -
  obtain migration where m: "readMigration migId (rs_tables R) = Inr migration" using assms(2) by (auto simp: abortDriver_def result_simps)
  show ?thesis
  proof (cases migration)
    case None
    then show ?thesis using assms(2) m by (simp add: abortDriver_def)
  next
    case (Some s)
    let ?p = "mg_phase (ms_row s)"
    have range: "phase_ok ?p" using read_migration_row [of migId "rs_tables R" s] m Some assms(1) by auto
    show ?thesis
    proof (cases "?p = ABORTED \<or> ?p = ABORTING")
      case True
      then have "R' = R" using assms(2) m Some by (auto simp: abortDriver_def Let_def phase_defs)
      then show ?thesis by simp
    next
      case False
      then obtain M where M: "change_phase migId ?p (\<lambda>r. r\<lparr>mg_phase := ABORTING, mg_updated_at := now\<rparr>) (rs_tables R) = Inr M"
        "R' = R\<lparr>rs_tables := M\<rparr>" "?p < TAIL_CAUGHT_UP"
        using assms(2) m Some by (auto simp: abortDriver_def Let_def result_simps split: if_splits)
      have "0 \<le> ?p" using range False by (auto simp: phase_ok_def phase_defs)
      then have "tables_move S (rs_tables R) M"
        using M(1) by (rule_tac change_phase_moves) (use M(3) in \<open>auto simp: row_moves_def split_of_def phase_edge_def\<close>)
      then show ?thesis using M(2) by blast
    qed
  qed
qed

section \<open>The fence between recoveries and splits\<close>

definition clock_row :: "coordinator \<Rightarrow> int \<times> string option" where
  "clock_row C = (case co_clock C of None \<Rightarrow> (0, None) | Some c \<Rightarrow> c)"

definition fenced :: "string set \<Rightarrow> int \<times> string option \<Rightarrow> start_intents \<Rightarrow> MigrationRow list \<Rightarrow> bool" where
  "fenced S k t ms \<longleftrightarrow> (\<forall>m \<in> set ms. aside S m \<or> snd k = None \<and> mg_recovery_generation m = fst k) \<and>
     (\<forall>i \<in> set t. st_state i = Starting \<longrightarrow> snd k = None \<and> st_recovery_generation i = Some (fst k))"

definition resharder_inv :: "string set \<Rightarrow> resharder \<Rightarrow> bool" where
  "resharder_inv S R \<longleftrightarrow> coordinator_inv (rs_coordinator R) \<and> start_inv (rs_intents R) \<and> distinct (map mg_mig_id (mt_state (rs_tables R))) \<and>
     (\<forall>m \<in> set (mt_state (rs_tables R)). phase_ok (mg_phase m)) \<and>
     fenced S (clock_row (rs_coordinator R)) (rs_intents R) (mt_state (rs_tables R))"

lemma change_clock:
  "coordinator_change M C C' \<Longrightarrow> clock_row C' = clock_row C \<or> snd (clock_row C) \<noteq> None \<or> assertNoReshard M = Inr ()"
  by (induction rule: coordinator_change.induct) (auto simp: clock_row_def retain_terminal_def)

lemma no_reshard:
  assumes "assertNoReshard (reshard_view R) = Inr ()"
  shows "\<forall>m \<in> set (mt_state (rs_tables R)). closed m" and "\<forall>i \<in> set (rs_intents R). st_state i \<noteq> Starting"
  using assms by (auto simp: assertNoReshard_def reshard_view_def result_simps closed_def phase_defs)

lemma tables_move_inv:
  assumes "tables_move l M M'" and "distinct (map mg_mig_id (mt_state M))" and "\<forall>m \<in> set (mt_state M). phase_ok (mg_phase m)"
    and "fenced S k t (mt_state M)"
  shows "distinct (map mg_mig_id (mt_state M')) \<and> (\<forall>m \<in> set (mt_state M'). phase_ok (mg_phase m)) \<and> fenced (S \<union> l) k t (mt_state M')"
proof -
  obtain f where f: "mt_state M' = map f (mt_state M)" "\<And>m. m \<in> set (mt_state M) \<Longrightarrow> row_moves l m (f m)"
    using assms(1) by (auto simp: tables_move_def)
  have same: "mg_mig_id (f m) = mg_mig_id m \<and> mg_recovery_generation (f m) = mg_recovery_generation m" if "m \<in> set (mt_state M)" for m
    using f(2) [OF that] by (simp add: row_moves_def split_of_def)
  then have ids: "map mg_mig_id (mt_state M') = map mg_mig_id (mt_state M)" by (simp add: f(1))
  have "distinct (map mg_mig_id (mt_state M'))" unfolding ids by (rule assms(2))
  moreover have "phase_ok (mg_phase (f m))" if "m \<in> set (mt_state M)" for m
    using f(2) [OF that] assms(3) that edge_ok by (auto simp: row_moves_def)
  moreover have "aside (S \<union> l) (f m)" if "m \<in> set (mt_state M)" "aside S m" for m
    using aside_stays [OF f(2) [OF that(1)] that(2)] .
  ultimately show ?thesis using assms(4) same f(1) by (auto simp: fenced_def)
qed

lemma recovery_clock_cases:
  assumes "coordinator_inv (rs_coordinator R)" and "recovery_clock R = Inr (k, R')"
  shows "\<exists>C. R' = R\<lparr>rs_coordinator := C\<rparr> \<and> coordinator_inv C \<and> clock_row C = clock_row (rs_coordinator R) \<and>
    clock_row C = (clock_generation k, clock_activeOperationId k)"
proof -
  obtain C where C: "open_coordinator (rs_coordinator R) = Inr C" "admissionClock C = Inr k" "R' = R\<lparr>rs_coordinator := C\<rparr>"
    using assms(2) by (auto simp: recovery_clock_def result_simps)
  have "clock_row C = clock_row (rs_coordinator R)"
    using C(1) by (auto simp: open_coordinator_def retireLegacyCoordinator_def clock_row_def result_simps split: option.splits)
  moreover have "coordinator_inv C" using change_inv [OF open_change [OF C(1)] assms(1)] .
  ultimately show ?thesis using clock_active [OF C(2)] C(3) by (auto simp: clock_row_def)
qed

lemma fenced_insert:
  "fenced S k t ms \<Longrightarrow> snd k = None \<Longrightarrow> st_recovery_generation i = Some (fst k) \<Longrightarrow> fenced S k (t @ [i]) ms"
  by (auto simp: fenced_def)

lemma canceled_fenced:
  assumes "requestAbort m now t = Inr (v, t')" and "fenced S k t ms"
  shows "fenced S k t' ms"
  using requestAbort_cases [OF assms(1)] assms(2)
  by (auto simp: fenced_def canceled_row_def result_simps table_simps)

lemma fenced_mono: "fenced S k t ms \<Longrightarrow> fenced (S \<union> l) k t ms"
  by (auto simp: fenced_def aside_mono)

lemma cleared_fenced: "clearStarted identity t = Inr t' \<Longrightarrow> fenced S k t ms \<Longrightarrow> fenced S k t' ms"
  by (drule clearStarted_cases) (auto simp: fenced_def table_simps)


lemma record_cases:
  assumes "startSplit_record canonicalSplitTables identity topology now R = Inr (b, R')"
  shows "R' = R \<or> (\<exists>t. clearStarted identity (rs_intents R) = Inr t \<and> R' = R\<lparr>rs_intents := t\<rparr>) \<or>
    (\<exists>t M. clearStarted identity (rs_intents R) = Inr t \<and> R' = R\<lparr>rs_intents := t, rs_tables := M\<rparr> \<and>
      mt_state M = mt_state (rs_tables R) @ [new_migration identity now] \<and>
      (\<forall>m \<in> set (mt_state (rs_tables R)). mg_mig_id m \<noteq> sid_migId identity))"
proof -
  obtain intent where i: "requireExact identity (rs_intents R) = Inr intent" using assms by (auto simp: startSplit_record_def result_simps)
  show ?thesis
  proof (cases "int_state intent = Abort_requested")
    case True
    then show ?thesis using assms i by (simp add: startSplit_record_def)
  next
    case False
    show ?thesis
    proof (cases "sql_one (\<lambda>r. mg_mig_id r = sid_migId identity) (mt_state (rs_tables R))")
      case None
      then have "\<forall>m \<in> set (mt_state (rs_tables R)). mg_mig_id m \<noteq> sid_migId identity" by (simp add: sql_one_None_iff)
      moreover obtain t where "clearStarted identity (rs_intents R) = Inr t" "R' = R\<lparr>rs_intents := t, rs_tables := rs_tables R'\<rparr>"
          "mt_state (rs_tables R') = mt_state (rs_tables R) @ [new_migration identity now]"
        using assms i False None by (auto simp: startSplit_record_def Let_def rbind_eq_Inr sql_insert_Inr)
      ultimately show ?thesis by blast
    next
      case (Some m)
      then show ?thesis using assms i False by (auto simp: startSplit_record_def Let_def rbind_eq_Inr)
    qed
  qed
qed

text \<open>An intent that can be cleared is starting, under the identity of its row.\<close>

lemma cleared_intent:
  assumes "clearStarted identity t = Inr t'"
  shows "\<exists>i \<in> set t. st_state i = Starting \<and> st_recovery_generation i = Some (sid_recoveryGeneration identity)"
proof -
  obtain intent where i: "requireExact identity t = Inr intent" "int_state intent = Starting"
    using assms by (auto simp: clearStarted_def result_simps split: if_splits intro: start_state.exhaust)
  then have r: "start_read (sid_migId identity) t = Inr (Some intent)" "int_identity intent = Some identity"
    by (auto simp: requireExact_def start_required_def result_simps sameStartIdentity_eq split: option.splits if_splits)
  from r(1) obtain row where row: "row \<in> set t" "start_project row = Inr intent" by (rule start_read_Some)
  then have "st_state row = Starting" "st_recovery_generation row = Some (sid_recoveryGeneration identity)"
    using i(2) r(2) by (auto simp: start_project_def result_simps all_present_def split: if_splits)
  then show ?thesis using row(1) by blast
qed

lemma resharder_step_inv:
  assumes inv: "resharder_inv S R" and step: "resharder_step canonicalSplitTables l R R'"
  shows "resharder_inv (S \<union> l) R'"
proof -
  let ?k = "clock_row (rs_coordinator R)"
  let ?ms = "mt_state (rs_tables R)"
  from inv have c: "coordinator_inv (rs_coordinator R)" and t: "start_inv (rs_intents R)" and d: "distinct (map mg_mig_id ?ms)"
    and ok: "\<forall>m \<in> set ?ms. phase_ok (mg_phase m)" and fence: "fenced S ?k (rs_intents R) ?ms"
    by (simp_all add: resharder_inv_def)
  have moved: "resharder_inv (S \<union> l) (R\<lparr>rs_tables := M\<rparr>)" if "tables_move l (rs_tables R) M" for l M
    using tables_move_inv [OF that d ok fence] c t by (simp add: resharder_inv_def)
  have cancel: "resharder_inv S R1" if canceled: "startSplit_canceled migId now R = Inr R1" for migId now R1
  proof -
    obtain v t' where t': "requestAbort migId now (rs_intents R) = Inr (v, t')" "R1 = R\<lparr>rs_intents := t'\<rparr>"
      using canceled by (auto simp: startSplit_canceled_def result_simps)
    then show ?thesis using canceled_fenced [OF t'(1) fence] start_step_inv [OF t step_requestAbort [OF t'(1)]] c d ok
      by (simp add: resharder_inv_def)
  qed
  show ?thesis using step
  proof cases
    case (rs_recovery C)
    have change: "coordinator_change (reshard_view R) (rs_coordinator R) C" using step_change [OF c rs_recovery(3)] .
    consider "clock_row C = ?k" | "snd ?k \<noteq> None" | "assertNoReshard (reshard_view R) = Inr ()" using change_clock [OF change] by blast
    then have "fenced S (clock_row C) (rs_intents R) ?ms"
    proof cases
      case 2
      then show ?thesis using fence by (auto simp: fenced_def)
    next
      case 3
      then show ?thesis using no_reshard [OF 3] by (simp add: fenced_def aside_def)
    qed (use fence in simp)
    then show ?thesis using rs_recovery(1,2) change_inv [OF change c] t d ok by (simp add: resharder_inv_def)
  next
    case (rs_start args identity)
    then obtain k where "recovery_clock R = Inr (k, R')" by (auto simp: startSplit_def result_simps)
    from recovery_clock_cases [OF c this] show ?thesis using inv rs_start(1) by (auto simp: resharder_inv_def)
  next
    case (rs_intent identity now existing)
    then obtain k R1 v t' where k: "recovery_clock R = Inr (k, R1)" "clock_activeOperationId k = None" "clock_generation k = sid_recoveryGeneration identity"
      and b: "start_begin identity now (rs_intents R1) = Inr (v, t')" "R' = R1\<lparr>rs_intents := t'\<rparr>"
      by (auto simp: startSplit_intent_def result_simps)
    from recovery_clock_cases [OF c k(1)] obtain C where C: "R1 = R\<lparr>rs_coordinator := C\<rparr>" "coordinator_inv C" "clock_row C = ?k"
      and now: "clock_row C = (clock_generation k, clock_activeOperationId k)"
      by blast
    have k0: "?k = (sid_recoveryGeneration identity, None)" using now k(2,3) C(3) by simp
    have b': "start_begin identity now (rs_intents R) = Inr (v, t')" using b(1) C(1) by simp
    have "st_recovery_generation (starting_row identity now) = Some (fst ?k)" by (simp add: k0 starting_row_def)
    then have "fenced S ?k (rs_intents R @ [starting_row identity now]) ?ms" using fenced_insert [OF fence] k0 by simp
    then have "fenced S ?k t' ?ms" using start_begin_cases [OF b'] fence by auto
    then show ?thesis using rs_intent(1) b(2) C(1-3) start_step_inv [OF t step_start_begin [OF b']] d ok by (simp add: resharder_inv_def)
  next
    case (rs_canceled migId now)
    then show ?thesis using cancel by simp
  next
    case (rs_record identity topology now gone)
    have l: "l = {}" by (rule rs_record(1))
    from record_cases [OF rs_record(2)] consider "R' = R"
      | t' where "clearStarted identity (rs_intents R) = Inr t'" "R' = R\<lparr>rs_intents := t'\<rparr>"
      | t' M where "clearStarted identity (rs_intents R) = Inr t'" "R' = R\<lparr>rs_intents := t', rs_tables := M\<rparr>"
        "mt_state M = ?ms @ [new_migration identity now]" "\<forall>m \<in> set ?ms. mg_mig_id m \<noteq> sid_migId identity"
      by blast
    then show ?thesis
    proof cases
      case 1
      then show ?thesis using inv l by simp
    next
      case 2
      then show ?thesis using l cleared_fenced [OF 2(1) fence] start_step_inv [OF t step_clearStarted [OF 2(1)]] c d ok
        by (simp add: resharder_inv_def)
    next
      case 3
      have "snd ?k = None \<and> sid_recoveryGeneration identity = fst ?k" using cleared_intent [OF 3(1)] fence by (auto simp: fenced_def)
      then have "fenced S ?k t' (?ms @ [new_migration identity now])"
        using cleared_fenced [OF 3(1) fence] by (auto simp: fenced_def new_migration_def)
      then show ?thesis using l 3(2-4) start_step_inv [OF t step_clearStarted [OF 3(1)]] c d ok
        by (auto simp: resharder_inv_def new_migration_def phase_ok_def)
    qed
  next
    case (rs_advance p migId now q M)
    then show ?thesis using advance_moves [OF d ok rs_advance(3)] moved by simp
  next
    case (rs_abort migId now)
    from abort_cases [OF ok this(2), of "{}"] show ?thesis using rs_abort(1) inv cancel moved [of "{}"] by auto
  next
    case (rs_aborted migId now M)
    then show ?thesis using legacy_moves(1) [OF rs_aborted(3), of "{}"] moved [of "{}"] by simp
  next
    case (rs_resume migId now M)
    then show ?thesis using legacy_moves(3) [OF rs_resume(3), of "{}"] moved [of "{}"] by simp
  next
    case (rs_abort_legacy migId now M)
    then show ?thesis using legacy_moves(2) [OF rs_abort_legacy(3), of "{}"] moved [of "{}"] by simp
  qed
qed


text \<open>The states the object reaches, with the migrations that were reopened on the way, and what follows a state.\<close>

inductive resharder_reachable :: "(json \<Rightarrow> string res) \<Rightarrow> string set \<Rightarrow> resharder \<Rightarrow> bool" for canonicalSplitTables where
  rs_initial: "resharder_reachable canonicalSplitTables {} \<lparr> rs_coordinator = initial_coordinator l, rs_intents = [],
     rs_tables = \<lparr> mt_state = [], mt_oplog_cursor = [], mt_work_cursor = [], mt_schema_identity = [], mt_file_cursor = [], mt_vector_cursor = [] \<rparr> \<rparr>"
| rs_next: "resharder_reachable canonicalSplitTables S R \<Longrightarrow> resharder_step canonicalSplitTables l R R' \<Longrightarrow>
    resharder_reachable canonicalSplitTables (S \<union> l) R'"

inductive resharder_run :: "(json \<Rightarrow> string res) \<Rightarrow> string set \<Rightarrow> resharder \<Rightarrow> resharder \<Rightarrow> bool" for canonicalSplitTables where
  rs_stop: "resharder_run canonicalSplitTables {} R R"
| rs_then: "resharder_run canonicalSplitTables S R R' \<Longrightarrow> resharder_step canonicalSplitTables l R' R'' \<Longrightarrow>
    resharder_run canonicalSplitTables (S \<union> l) R R''"

lemma reachable_resharder: "resharder_reachable canonicalSplitTables S R \<Longrightarrow> resharder_inv S R"
proof (induction rule: resharder_reachable.induct)
  case (rs_initial l)
  then show ?case using reachable_coordinator [OF coordinator_reachable.start, of l]
    by (simp add: resharder_inv_def start_inv_def fenced_def VSHARD_COUNT_def)
next
  case (rs_next S R l R')
  then show ?case using resharder_step_inv by blast
qed

text \<open>No migration is ever lost, and each moves along the phase graph.\<close>

lemma step_row:
  assumes inv: "resharder_inv S R" and step: "resharder_step canonicalSplitTables l R R'" and m: "m \<in> set (mt_state (rs_tables R))"
  shows "\<exists>m' \<in> set (mt_state (rs_tables R')). row_moves l m m'"
proof -
  have same: ?thesis if "mt_state (rs_tables R') = mt_state (rs_tables R)" using that m row_moves_refl by metis
  have moved: ?thesis if "R' = R\<lparr>rs_tables := M\<rparr>" "tables_move l (rs_tables R) M" for M
    using that m by (auto simp: tables_move_def)
  have cancel: "mt_state (rs_tables R1) = mt_state (rs_tables R)" if "startSplit_canceled migId now R = Inr R1" for migId now R1
    using that by (auto simp: startSplit_canceled_def result_simps)
  have clock: "rs_tables R1 = rs_tables R" if "recovery_clock R = Inr (k, R1)" for k R1
    using that by (auto simp: recovery_clock_def result_simps)
  from step show ?thesis
  proof cases
    case (rs_recovery C)
    then show ?thesis using same by simp
  next
    case (rs_start args identity)
    then obtain k where "recovery_clock R = Inr (k, R')" by (auto simp: startSplit_def result_simps)
    then show ?thesis using clock same by simp
  next
    case (rs_intent identity now existing)
    then obtain k R1 t' where "recovery_clock R = Inr (k, R1)" "R' = R1\<lparr>rs_intents := t'\<rparr>"
      by (auto simp: startSplit_intent_def result_simps)
    then show ?thesis using clock same by simp
  next
    case (rs_canceled migId now)
    then show ?thesis using cancel same by blast
  next
    case (rs_record identity topology now gone)
    then have "set (mt_state (rs_tables R)) \<subseteq> set (mt_state (rs_tables R'))" using record_cases by fastforce
    then show ?thesis using m row_moves_refl by blast
  next
    case (rs_advance migId expected now q M)
    then show ?thesis using advance_moves [OF _ _ rs_advance(3)] inv moved by (auto simp: resharder_inv_def)
  next
    case (rs_abort migId now)
    have "\<forall>m \<in> set (mt_state (rs_tables R)). phase_ok (mg_phase m)" using inv by (simp add: resharder_inv_def)
    from abort_cases [OF this rs_abort(2), of l] show ?thesis using m row_moves_refl cancel same moved by blast
  next
    case (rs_aborted migId now M)
    then show ?thesis using legacy_moves(1) moved by blast
  next
    case (rs_resume migId now M)
    then show ?thesis using legacy_moves(3) moved by blast
  next
    case (rs_abort_legacy migId now M)
    then show ?thesis using legacy_moves(2) moved by blast
  qed
qed

text \<open>What the edges allow, once the destination is open for writes and once the split has ended.\<close>

definition phase_follows :: "bool \<Rightarrow> int \<Rightarrow> int \<Rightarrow> bool" where
  "phase_follows reopen p q \<longleftrightarrow> (p = ABORTED \<longrightarrow> q = ABORTED) \<and> (p = ABORTING \<longrightarrow> q \<in> {ABORTING, ABORTED}) \<and>
     (DUAL_WRITE_OPEN \<le> p \<and> p \<le> SOURCE_DRAINED \<longrightarrow> p \<le> q \<and> q \<le> SOURCE_DRAINED \<or> reopen \<and> q \<in> {ABORTING, ABORTED}) \<and>
     (0 \<le> p \<longrightarrow> p \<le> q \<or> q = ABORTED)"

lemma follows_refl: "phase_follows d p p"
  by (simp add: phase_follows_def)

lemma follows_edge:
  assumes follows: "phase_follows d p q" and edge: "phase_edge e q r"
  shows "phase_follows (d \<or> e) p r"
proof -
  from edge consider "r = q" | "0 \<le> q" "q \<le> 5" "r = q + 1" | "0 \<le> q" "q \<le> 3" "r = 7" | "q = 7" "r = -1" | "e" "q = 6" "r = 7"
    unfolding phase_edge_def phase_defs by blast
  then show ?thesis using follows by cases (auto simp: phase_follows_def phase_defs)
qed

lemma run_row:
  assumes "resharder_run canonicalSplitTables S R R'" and "resharder_inv S0 R" and "m \<in> set (mt_state (rs_tables R))"
  shows "resharder_inv (S0 \<union> S) R' \<and>
    (\<exists>m' \<in> set (mt_state (rs_tables R')). split_of m' = split_of m \<and> phase_follows (mg_mig_id m \<in> S) (mg_phase m) (mg_phase m'))"
  using assms
proof (induction rule: resharder_run.induct)
  case (rs_stop R)
  then show ?case using follows_refl by auto
next
  case (rs_then S R S1 l S2)
  then obtain s where s: "resharder_inv (S0 \<union> S) S1" "s \<in> set (mt_state (rs_tables S1))" "split_of s = split_of m"
    "phase_follows (mg_mig_id m \<in> S) (mg_phase m) (mg_phase s)"
    by blast
  from step_row [OF s(1) rs_then.hyps(2) s(2)] obtain s' where s': "s' \<in> set (mt_state (rs_tables S2))" "row_moves l s s'" by blast
  then have "split_of s' = split_of m" "phase_follows (mg_mig_id m \<in> S \<union> l) (mg_phase m) (mg_phase s')"
    using s(3,4) split_id [OF s(3)] follows_edge [OF s(4)] by (auto simp: row_moves_def)
  then show ?case using resharder_step_inv [OF s(1) rs_then.hyps(2)] s'(1) by (auto simp: Un_assoc)
qed

section \<open>Properties\<close>

text \<open>
  C6. Recoveries and splits exclude each other. In every state the object reaches, whatever phase or none the calls of \<open>advance\<close> name: while a
  recovery operation is active no split is open and none is about to start; and whenever a split is open or starting, it carries the
  generation the recovery clock shows, whatever recoveries came before it. The code leaves one exception, and the statement names it: \<open>S\<close>
  collects the migrations that were already drained when an \<open>advance\<close> without a phase (or naming \<open>SOURCE_DRAINED\<close>) took them on
  to \<open>ABORTING\<close>; such a migration, while it is \<open>ABORTING\<close>, may have an older generation and may stand beside an active recovery.
\<close>

theorem recovery_excludes_resharding:
  assumes "resharder_reachable canonicalSplitTables S R" and "recovery_clock R = Inr (clock, R')"
  shows "(\<forall>m \<in> set (mt_state (rs_tables R)). mg_phase m \<in> {ABORTED, SOURCE_DRAINED} \<or> mg_phase m = ABORTING \<and> mg_mig_id m \<in> S \<or>
      clock_activeOperationId clock = None \<and> mg_recovery_generation m = clock_generation clock) \<and>
    (\<forall>i \<in> set (rs_intents R). st_state i = Abort_requested \<or>
      clock_activeOperationId clock = None \<and> st_recovery_generation i = Some (clock_generation clock))"
proof -
  have inv: "resharder_inv S R" using assms(1) by (rule reachable_resharder)
  then have "clock_row (rs_coordinator R) = (clock_generation clock, clock_activeOperationId clock)"
    using recovery_clock_cases [OF _ assms(2)] by (auto simp: resharder_inv_def)
  moreover have "fenced S (clock_row (rs_coordinator R)) (rs_intents R) (mt_state (rs_tables R))" using inv by (simp add: resharder_inv_def)
  moreover have "st_state i = Starting \<or> st_state i = Abort_requested" for i by (cases "st_state i") simp_all
  ultimately show ?thesis by (auto simp: fenced_def aside_def closed_def)
qed

text \<open>
  C15. How far a split can go, whatever transactions follow, a call of \<open>advance\<close> with any phase or none among them. A migration keeps its
  row and its identity. An aborted one stays aborted, and an abort ends in \<open>ABORTED\<close> or goes on. Once the destination is open for writes, the
  migration only goes on towards \<open>SOURCE_DRAINED\<close>, never back and never into an abort, and a drained one stays drained, unless it is among
  the migrations \<open>S\<close> that a later \<open>advance\<close> without a phase (or naming \<open>SOURCE_DRAINED\<close>) took on from \<open>SOURCE_DRAINED\<close> to
  \<open>ABORTING\<close>, as the method allows; those are \<open>ABORTING\<close> or \<open>ABORTED\<close>. In every case the phase does not decrease but to \<open>ABORTED\<close>.
\<close>

theorem migration_phases_final:
  assumes "resharder_reachable canonicalSplitTables S0 R" and "resharder_run canonicalSplitTables S R R'" and "m \<in> set (mt_state (rs_tables R))"
  shows "\<exists>m' \<in> set (mt_state (rs_tables R')). split_of m' = split_of m \<and>
    (mg_phase m = ABORTED \<longrightarrow> mg_phase m' = ABORTED) \<and>
    (mg_phase m = ABORTING \<longrightarrow> mg_phase m' \<in> {ABORTING, ABORTED}) \<and>
    (DUAL_WRITE_OPEN \<le> mg_phase m \<and> mg_phase m \<le> SOURCE_DRAINED \<longrightarrow>
      (if mg_phase m' \<in> {ABORTING, ABORTED} then mg_mig_id m \<in> S else mg_phase m \<le> mg_phase m' \<and> mg_phase m' \<le> SOURCE_DRAINED)) \<and>
    (mg_phase m \<le> mg_phase m' \<or> mg_phase m' = ABORTED)"
proof -
  from run_row [OF assms(2) reachable_resharder [OF assms(1)] assms(3)] obtain m' where m': "m' \<in> set (mt_state (rs_tables R'))"
    "split_of m' = split_of m" "phase_follows (mg_mig_id m \<in> S) (mg_phase m) (mg_phase m')" by blast
  moreover have "phase_ok (mg_phase m)" using reachable_resharder [OF assms(1)] assms(3) by (simp add: resharder_inv_def)
  ultimately show ?thesis by (intro bexI [of _ m']) (auto simp: phase_follows_def phase_ok_def phase_defs)
qed

text \<open>The exception is real: a drained migration is taken on to \<open>ABORTING\<close> when no phase is named.\<close>

lemma drained_advance_reopens:
  assumes "sql_one (\<lambda>r. mg_mig_id r = migId) (mt_state M) = Some row" and "mg_phase row = SOURCE_DRAINED"
  shows "\<exists>M'. advance migId None now M = Inr (ABORTING, M') \<and>
    mt_state M' = sql_update (\<lambda>r. mg_mig_id r = migId) (\<lambda>r. r\<lparr>mg_phase := ABORTING, mg_updated_at := now\<rparr>) (mt_state M)"
  using assms by (simp add: advance_def phase_defs ensure_def)


subsection \<open>Witnesses\<close>

definition empty_tables :: migration_tables where
  "empty_tables = \<lparr> mt_state = [], mt_oplog_cursor = [], mt_work_cursor = [], mt_schema_identity = [], mt_file_cursor = [], mt_vector_cursor = [] \<rparr>"

definition fresh_resharder :: resharder where
  "fresh_resharder = \<lparr> rs_coordinator = initial_coordinator None, rs_intents = [], rs_tables = empty_tables \<rparr>"

definition intent_resharder :: resharder where
  "intent_resharder = \<lparr> rs_coordinator = opened_sample, rs_intents = [starting_row sample_start 5], rs_tables = empty_tables \<rparr>"

definition sample_topology :: TopologyAnswer where
  "sample_topology = \<lparr> tp_status = Op_active, tp_schemaVersion = 0, tp_schemaEpoch = 1, tp_schemaDigest = sample_point \<rparr>"

definition recorded_tables :: migration_tables where
  "recorded_tables = \<lparr> mt_state = [new_migration sample_start 6], mt_oplog_cursor = [(''mig-1'', 0, 6)],
     mt_work_cursor = [\<lparr> wc_mig_id = ''mig-1'', wc_turn = 0, wc_bulk_table_index = 0, wc_updated_at = 6 \<rparr>],
     mt_schema_identity = [\<lparr> mi_mig_id = ''mig-1'', mi_schema_version = 0, mi_schema_epoch = 1, mi_schema_digest = sample_point \<rparr>],
     mt_file_cursor = [''mig-1''], mt_vector_cursor = [''mig-1''] \<rparr>"

definition recorded_resharder :: resharder where
  "recorded_resharder = intent_resharder\<lparr>rs_intents := [], rs_tables := recorded_tables\<rparr>"

definition compact_tables :: "json \<Rightarrow> string res" where
  "compact_tables v = Inr (stringify v)"

lemma opened_clock: "admissionClock opened_sample = Inr \<lparr> clock_generation = 0, clock_activeOperationId = None, clock_activeDigest = None \<rparr>"
  by (simp add: admissionClock_def opened_sample_def co_count_def safe_integer_def)

lemma sample_clock:
  "recovery_clock fresh_resharder = Inr (\<lparr> clock_generation = 0, clock_activeOperationId = None, clock_activeDigest = None \<rparr>,
     fresh_resharder\<lparr>rs_coordinator := opened_sample\<rparr>)"
  "recovery_clock intent_resharder = Inr (\<lparr> clock_generation = 0, clock_activeOperationId = None, clock_activeDigest = None \<rparr>, intent_resharder)"
  using sample_open opened_clock
  by (simp_all add: recovery_clock_def fresh_resharder_def intent_resharder_def open_coordinator_def retireLegacyCoordinator_def opened_sample_def)

lemma sample_intent_step: "startSplit_intent compact_tables sample_start 5 fresh_resharder = Inr (None, intent_resharder)"
proof -
  have "readMigration (sid_migId sample_start) empty_tables = Inr None" by (simp add: readMigration_def empty_tables_def sql_one_def)
  then show ?thesis using sample_clock(1) sample_start_begin
    by (simp add: startSplit_intent_def fresh_resharder_def intent_resharder_def sample_start_def ensure_def)
qed

lemma sample_record_step: "startSplit_record compact_tables sample_start sample_topology 6 intent_resharder = Inr (False, recorded_resharder)"
proof -
  have "requireExact sample_start [starting_row sample_start 5] = Inr sample_intent" by code_simp
  moreover have "clearStarted sample_start [starting_row sample_start 5] = Inr []" by code_simp
  ultimately show ?thesis
    by (simp add: startSplit_record_def intent_resharder_def sample_intent_def Let_def empty_tables_def sql_one_def sql_insert_def new_migration_def
        sample_start_def sample_topology_def schema_identity_check_def insert_cursor_def recorded_resharder_def recorded_tables_def)
qed

lemma sample_intent_reachable: "resharder_reachable compact_tables {} intent_resharder"
  using rs_next [OF rs_initial [of compact_tables None] rs_intent] sample_intent_step by (simp add: fresh_resharder_def empty_tables_def)

lemma recovery_excludes_resharding_witness: "st_recovery_generation (starting_row sample_start 5) = Some 0"
  using recovery_excludes_resharding [OF sample_intent_reachable sample_clock(2)]
  by (simp add: intent_resharder_def starting_row_def)

lemma sample_split_reachable: "resharder_reachable compact_tables {} recorded_resharder"
  using rs_next [OF sample_intent_reachable rs_record [OF sample_record_step]] by simp

lemma migration_phases_final_witness:
  "\<exists>m' \<in> set (mt_state (rs_tables recorded_resharder)). split_of m' = sample_start"
  using migration_phases_final [OF sample_split_reachable rs_stop, of "new_migration sample_start 6"]
  by (auto simp: recorded_resharder_def recorded_tables_def)

end
