(* ===== verification/Catalog_Auth.thy ===== *)
theory Catalog_Auth
  imports Auth_Invalidation Catalog_Routing Topology_Operations
begin

text \<open>
  The Catalog's outbox of authentication epochs, \<^verbatim>\<open>src/src/server/do/catalog-auth-invalidation-store.ts\<close>, the epoch counters
  of \<^verbatim>\<open>src/src/server/do/catalog-authority-store.ts\<close>, and the contract of the outbox as a queue. An epoch of an organization is
  queued for the shards that own it; an epoch of a principal or of everybody is broadcast, as one row whose cursor walks
  through all shards in the order of their names. Every function runs in a transaction of the caller: an error means
  that the tables stay as they were.
\<close>

section \<open>Data\<close>

definition CATALOG_AUTH_INVALIDATION_BATCH_SIZE :: int where "CATALOG_AUTH_INVALIDATION_BATCH_SIZE = 32"
definition CATALOG_AUTH_INVALIDATION_TARGET_LIMIT :: int where "CATALOG_AUTH_INVALIDATION_TARGET_LIMIT = VSHARD_COUNT * 2"
definition CATALOG_AUTH_INVALIDATION_RETRY_INITIAL_MS :: int where "CATALOG_AUTH_INVALIDATION_RETRY_INITIAL_MS = 1000"
definition CATALOG_AUTH_INVALIDATION_RETRY_MAX_MS :: int where "CATALOG_AUTH_INVALIDATION_RETRY_MAX_MS = 60000"

record StoredTarget =
  st_scope :: auth_scope
  st_scope_id :: string
  st_shard_id :: string
  st_epoch :: int
  st_attempts :: int
  st_next_attempt_at :: int
  st_created_at :: int
  st_updated_at :: int
  st_last_error :: "string option"

record StoredGlobal =
  sg_epoch :: int
  sg_cursor_shard_id :: "string option"
  sg_attempts :: int
  sg_next_attempt_at :: int
  sg_created_at :: int
  sg_updated_at :: int
  sg_last_error :: "string option"

record StoredPrincipal = StoredGlobal +
  sg_scope_id :: string

record auth_outbox =
  ob_targets :: "StoredTarget list"
  ob_global :: "StoredGlobal list"
  ob_principals :: "StoredPrincipal list"

definition empty_outbox :: auth_outbox where
  "empty_outbox = \<lparr> ob_targets = [], ob_global = [], ob_principals = [] \<rparr>"

definition target_key :: "StoredTarget \<Rightarrow> auth_scope \<times> string \<times> string" where
  "target_key r = (st_scope r, st_scope_id r, st_shard_id r)"

text \<open>The one row of the global table has the constant key \<open>singleton = 1\<close>.\<close>

definition singleton_key :: "StoredGlobal \<Rightarrow> unit" where "singleton_key r = ()"

definition target_check :: "StoredTarget \<Rightarrow> bool" where
  "target_check r \<longleftrightarrow> st_scope r \<noteq> Scope_global \<and> 0 < st_epoch r \<and> 0 \<le> st_attempts r \<and> 0 \<le> st_next_attempt_at r \<and>
     0 \<le> st_created_at r \<and> st_created_at r \<le> st_updated_at r"

definition broadcast_check :: "'a StoredGlobal_scheme \<Rightarrow> bool" where
  "broadcast_check r \<longleftrightarrow> 0 < sg_epoch r \<and> 0 \<le> sg_attempts r \<and> 0 \<le> sg_next_attempt_at r \<and> 0 \<le> sg_created_at r \<and>
     sg_created_at r \<le> sg_updated_at r"

section \<open>Checks of the arguments\<close>

definition outbox_invalid :: js_error where "outbox_invalid = Cdb CDB_INVALID_ARGS"

definition outbox_time :: "int \<Rightarrow> unit res" where
  "outbox_time nowMs = ensure (safe_integer nowMs \<and> 0 \<le> nowMs) outbox_invalid"

definition safeEpoch :: "int \<Rightarrow> unit res" where
  "safeEpoch e = ensure (safe_integer e \<and> 1 \<le> e) outbox_invalid"

definition boundedScopeId :: "string \<Rightarrow> unit res" where
  "boundedScopeId s = ensure (SCOPE_ID s \<and> length (utf8 s) \<le> SCOPE_ID_MAX_BYTES) outbox_invalid"

definition boundedShardId :: "string \<Rightarrow> unit res" where
  "boundedShardId s = ensure (opaque_id s) outbox_invalid"

definition retryDelay :: "int \<Rightarrow> int" where
  "retryDelay attempts = min CATALOG_AUTH_INVALIDATION_RETRY_MAX_MS
     (CATALOG_AUTH_INVALIDATION_RETRY_INITIAL_MS * 2 ^ nat (min (max 0 (attempts - 1)) 16))"

text \<open>The message of an error, cut to 512 characters.\<close>

definition stored_error :: "string \<Rightarrow> string option" where
  "stored_error message = Some (take 512 message)"

section \<open>Rows of shards\<close>

definition new_target :: "auth_scope \<Rightarrow> string \<Rightarrow> int \<Rightarrow> int \<Rightarrow> string \<Rightarrow> StoredTarget" where
  "new_target scope scopeId epoch nowMs shard = \<lparr> st_scope = scope, st_scope_id = scopeId, st_shard_id = shard, st_epoch = epoch,
     st_attempts = 0, st_next_attempt_at = nowMs, st_created_at = nowMs, st_updated_at = nowMs, st_last_error = None \<rparr>"

definition raise_target :: "StoredTarget \<Rightarrow> StoredTarget \<Rightarrow> StoredTarget" where
  "raise_target new r = (if st_epoch new > st_epoch r
     then r\<lparr>st_epoch := st_epoch new, st_attempts := 0, st_next_attempt_at := st_next_attempt_at new,
            st_updated_at := st_updated_at new, st_last_error := None\<rparr>
     else r)"

definition target_upsert :: "StoredTarget \<Rightarrow> StoredTarget list \<Rightarrow> StoredTarget list res" where
  "target_upsert new t =
     (if \<exists>r \<in> set t. target_key r = target_key new
      then sql_update_checked target_check (\<lambda>r. target_key r = target_key new) (raise_target new) t
      else sql_insert target_key target_check new t)"

definition targets :: "auth_scope \<Rightarrow> string \<Rightarrow> StoredTarget list \<Rightarrow> StoredTarget list" where
  "targets scope scopeId t = sort_key st_shard_id (filter (\<lambda>r. st_scope r = scope \<and> st_scope_id r = scopeId) t)"

definition projected_count :: "auth_scope \<Rightarrow> string \<Rightarrow> string list \<Rightarrow> StoredTarget list \<Rightarrow> int" where
  "projected_count scope scopeId shards t =
     int (length t) + int (length (filter (\<lambda>s. sql_one (\<lambda>r. target_key r = (scope, scopeId, s)) t = None) shards))"

definition enqueueTargets :: "auth_scope \<Rightarrow> string \<Rightarrow> int \<Rightarrow> string list \<Rightarrow> int \<Rightarrow> StoredTarget list \<Rightarrow>
    (StoredTarget list \<times> StoredTarget list) res" where
  "enqueueTargets scope scopeId epoch shardIds nowMs t =
     rbind (ensure (scope \<noteq> Scope_global) outbox_invalid) (\<lambda>_.
     rbind (boundedScopeId scopeId) (\<lambda>_.
     rbind (safeEpoch epoch) (\<lambda>_.
     rbind (outbox_time nowMs) (\<lambda>_.
     rbind (ensure (\<forall>s \<in> set shardIds. boundedShardId s = Inr ()) outbox_invalid) (\<lambda>_.
     let shards = sort (remdups shardIds) in
     rbind (ensure (1 \<le> length shards \<and> length shards \<le> 3) outbox_invalid) (\<lambda>_.
     rbind (ensure (safe_integer (int (length t))) (Cdb CDB_INVARIANT)) (\<lambda>_.
     rbind (ensure (projected_count scope scopeId shards t \<le> CATALOG_AUTH_INVALIDATION_TARGET_LIMIT) (Cdb CDB_RATE_LIMITED)) (\<lambda>_.
     rbind (rfold (\<lambda>s. target_upsert (new_target scope scopeId epoch nowMs s)) shards t) (\<lambda>t'.
     Inr (targets scope scopeId t', t'))))))))))"

definition dueTargets :: "int \<Rightarrow> int \<Rightarrow> StoredTarget list \<Rightarrow> StoredTarget list res" where
  "dueTargets nowMs limit t =
     rbind (outbox_time nowMs) (\<lambda>_.
     rbind (ensure (safe_integer limit \<and> 1 \<le> limit \<and> limit \<le> CATALOG_AUTH_INVALIDATION_BATCH_SIZE) outbox_invalid) (\<lambda>_.
     Inr (take (nat limit) (sort_key st_next_attempt_at (sort_key st_shard_id (sort_key (\<lambda>r. st_scope r = Scope_tenant)
       (sort_key st_scope_id (filter (\<lambda>r. st_next_attempt_at r \<le> nowMs) t))))))))"

definition same_target :: "StoredTarget \<Rightarrow> StoredTarget \<Rightarrow> bool" where
  "same_target target r \<longleftrightarrow> target_key r = target_key target \<and> st_epoch r = st_epoch target"

definition completeTarget :: "StoredTarget \<Rightarrow> StoredTarget list \<Rightarrow> StoredTarget list" where
  "completeTarget target t = sql_delete (same_target target) t"

definition deferTarget :: "StoredTarget \<Rightarrow> int \<Rightarrow> string \<Rightarrow> StoredTarget list \<Rightarrow> StoredTarget list res" where
  "deferTarget target nowMs message t =
     rbind (outbox_time nowMs) (\<lambda>_.
     case sql_one (same_target target) t of
       None \<Rightarrow> Inr t
     | Some current \<Rightarrow>
         let attempts = min (st_attempts current + 1) 31 in
         sql_update_checked target_check (same_target target)
           (\<lambda>r. r\<lparr>st_attempts := attempts, st_next_attempt_at := nowMs + retryDelay attempts, st_updated_at := nowMs,
                  st_last_error := stored_error message\<rparr>) t)"

section \<open>Rows with a cursor\<close>

text \<open>
  The statements of the two broadcast tables differ only in the key: the constant \<open>singleton\<close> and \<open>scope_id\<close>.
\<close>

definition new_global :: "int \<Rightarrow> int \<Rightarrow> StoredGlobal" where
  "new_global epoch nowMs = \<lparr> sg_epoch = epoch, sg_cursor_shard_id = None, sg_attempts = 0, sg_next_attempt_at = nowMs,
     sg_created_at = nowMs, sg_updated_at = nowMs, sg_last_error = None \<rparr>"

definition new_principal :: "string \<Rightarrow> int \<Rightarrow> int \<Rightarrow> StoredPrincipal" where
  "new_principal scopeId epoch nowMs = StoredGlobal.extend (new_global epoch nowMs) \<lparr> sg_scope_id = scopeId \<rparr>"

definition raise_cursor :: "int \<Rightarrow> int \<Rightarrow> 'a StoredGlobal_scheme \<Rightarrow> 'a StoredGlobal_scheme" where
  "raise_cursor epoch nowMs r = (if epoch > sg_epoch r
     then r\<lparr>sg_epoch := epoch, sg_cursor_shard_id := None, sg_attempts := 0, sg_next_attempt_at := nowMs,
            sg_updated_at := nowMs, sg_last_error := None\<rparr>
     else r)"

definition cursor_upsert :: "('a StoredGlobal_scheme \<Rightarrow> 'k) \<Rightarrow> 'a StoredGlobal_scheme \<Rightarrow> 'a StoredGlobal_scheme list \<Rightarrow>
    'a StoredGlobal_scheme list res" where
  "cursor_upsert key new t =
     (if \<exists>r \<in> set t. key r = key new
      then sql_update_checked broadcast_check (\<lambda>r. key r = key new) (raise_cursor (sg_epoch new) (sg_updated_at new)) t
      else sql_insert key broadcast_check new t)"

definition at_epoch :: "('a StoredGlobal_scheme \<Rightarrow> 'k) \<Rightarrow> 'k \<Rightarrow> int \<Rightarrow> 'a StoredGlobal_scheme \<Rightarrow> bool" where
  "at_epoch key k epoch r \<longleftrightarrow> key r = k \<and> sg_epoch r = epoch"

definition cursor_advance :: "('a StoredGlobal_scheme \<Rightarrow> 'k) \<Rightarrow> 'k \<Rightarrow> int \<Rightarrow> string \<Rightarrow> int \<Rightarrow> int \<Rightarrow>
    'a StoredGlobal_scheme list \<Rightarrow> 'a StoredGlobal_scheme list res" where
  "cursor_advance key k epoch cursorShardId nextAt nowMs t =
     sql_update_checked broadcast_check (at_epoch key k epoch)
       (\<lambda>r. r\<lparr>sg_cursor_shard_id := Some cursorShardId, sg_attempts := 0, sg_next_attempt_at := nextAt,
              sg_updated_at := nowMs, sg_last_error := None\<rparr>) t"

definition cursor_defer :: "('a StoredGlobal_scheme \<Rightarrow> 'k) \<Rightarrow> 'k \<Rightarrow> int \<Rightarrow> int \<Rightarrow> string \<Rightarrow>
    'a StoredGlobal_scheme list \<Rightarrow> 'a StoredGlobal_scheme list res" where
  "cursor_defer key k epoch nowMs message t =
     (case sql_one (at_epoch key k epoch) t of
       None \<Rightarrow> Inr t
     | Some current \<Rightarrow>
         let attempts = min (sg_attempts current + 1) 31 in
         sql_update_checked broadcast_check (at_epoch key k epoch)
           (\<lambda>r. r\<lparr>sg_attempts := attempts, sg_next_attempt_at := nowMs + retryDelay attempts, sg_updated_at := nowMs,
                  sg_last_error := stored_error message\<rparr>) t)"

definition stored_global :: "StoredGlobal list \<Rightarrow> StoredGlobal option" where
  "stored_global t = sql_one (\<lambda>_. True) t"

definition enqueueGlobal :: "int \<Rightarrow> int \<Rightarrow> StoredGlobal list \<Rightarrow> (StoredGlobal \<times> StoredGlobal list) res" where
  "enqueueGlobal epoch nowMs t =
     rbind (safeEpoch epoch) (\<lambda>_.
     rbind (outbox_time nowMs) (\<lambda>_.
     rbind (cursor_upsert singleton_key (new_global epoch nowMs) t) (\<lambda>t'.
     case stored_global t' of None \<Rightarrow> Inl (Cdb CDB_INVARIANT) | Some r \<Rightarrow> Inr (r, t'))))"

definition principal :: "string \<Rightarrow> StoredPrincipal list \<Rightarrow> StoredPrincipal option" where
  "principal scopeId t = sql_one (\<lambda>r. sg_scope_id r = scopeId) t"

definition enqueuePrincipal :: "string \<Rightarrow> int \<Rightarrow> int \<Rightarrow> StoredPrincipal list \<Rightarrow> (StoredPrincipal \<times> StoredPrincipal list) res" where
  "enqueuePrincipal scopeId epoch nowMs t =
     rbind (boundedScopeId scopeId) (\<lambda>_.
     rbind (safeEpoch epoch) (\<lambda>_.
     rbind (outbox_time nowMs) (\<lambda>_.
     rbind (ensure (principal scopeId t \<noteq> None \<or> int (length t) < CATALOG_AUTH_INVALIDATION_TARGET_LIMIT) (Cdb CDB_RATE_LIMITED)) (\<lambda>_.
     rbind (cursor_upsert sg_scope_id (new_principal scopeId epoch nowMs) t) (\<lambda>t'.
     case principal scopeId t' of None \<Rightarrow> Inl (Cdb CDB_INVARIANT) | Some r \<Rightarrow> Inr (r, t'))))))"

definition duePrincipal :: "int \<Rightarrow> StoredPrincipal list \<Rightarrow> StoredPrincipal option res" where
  "duePrincipal nowMs t =
     rbind (outbox_time nowMs) (\<lambda>_.
     Inr (case sort_key sg_next_attempt_at (sort_key sg_scope_id (filter (\<lambda>r. sg_next_attempt_at r \<le> nowMs) t)) of
       [] \<Rightarrow> None | r # _ \<Rightarrow> Some r))"

definition advancePrincipal :: "string \<Rightarrow> int \<Rightarrow> string \<Rightarrow> int \<Rightarrow> StoredPrincipal list \<Rightarrow> StoredPrincipal list res" where
  "advancePrincipal scopeId epoch cursorShardId nowMs t =
     rbind (boundedScopeId scopeId) (\<lambda>_. rbind (safeEpoch epoch) (\<lambda>_. rbind (boundedShardId cursorShardId) (\<lambda>_.
     rbind (outbox_time nowMs) (\<lambda>_.
     cursor_advance sg_scope_id scopeId epoch cursorShardId (nowMs + 1) nowMs t))))"

definition completePrincipal :: "string \<Rightarrow> int \<Rightarrow> StoredPrincipal list \<Rightarrow> StoredPrincipal list res" where
  "completePrincipal scopeId epoch t =
     rbind (boundedScopeId scopeId) (\<lambda>_. rbind (safeEpoch epoch) (\<lambda>_.
     Inr (sql_delete (at_epoch sg_scope_id scopeId epoch) t)))"

definition deferPrincipal :: "string \<Rightarrow> int \<Rightarrow> int \<Rightarrow> string \<Rightarrow> StoredPrincipal list \<Rightarrow> StoredPrincipal list res" where
  "deferPrincipal scopeId epoch nowMs message t =
     rbind (boundedScopeId scopeId) (\<lambda>_. rbind (safeEpoch epoch) (\<lambda>_. rbind (outbox_time nowMs) (\<lambda>_.
     cursor_defer sg_scope_id scopeId epoch nowMs message t)))"

definition dueGlobal :: "int \<Rightarrow> StoredGlobal list \<Rightarrow> StoredGlobal option res" where
  "dueGlobal nowMs t = rbind (outbox_time nowMs) (\<lambda>_. Inr (sql_one (\<lambda>r. sg_next_attempt_at r \<le> nowMs) t))"

definition advanceGlobal :: "int \<Rightarrow> string \<Rightarrow> int \<Rightarrow> StoredGlobal list \<Rightarrow> StoredGlobal list res" where
  "advanceGlobal epoch cursorShardId nowMs t =
     rbind (safeEpoch epoch) (\<lambda>_. rbind (boundedShardId cursorShardId) (\<lambda>_. rbind (outbox_time nowMs) (\<lambda>_.
     cursor_advance singleton_key () epoch cursorShardId nowMs nowMs t)))"

definition completeGlobal :: "int \<Rightarrow> StoredGlobal list \<Rightarrow> StoredGlobal list res" where
  "completeGlobal epoch t = rbind (safeEpoch epoch) (\<lambda>_. Inr (sql_delete (at_epoch singleton_key () epoch) t))"

definition deferGlobal :: "int \<Rightarrow> int \<Rightarrow> string \<Rightarrow> StoredGlobal list \<Rightarrow> StoredGlobal list res" where
  "deferGlobal epoch nowMs message t =
     rbind (safeEpoch epoch) (\<lambda>_. rbind (outbox_time nowMs) (\<lambda>_. cursor_defer singleton_key () epoch nowMs message t))"

definition next_pending_at :: "auth_outbox \<Rightarrow> int option" where
  "next_pending_at o' = (case map st_next_attempt_at (ob_targets o') @ map sg_next_attempt_at (ob_global o') @
       map sg_next_attempt_at (ob_principals o') of
     [] \<Rightarrow> None | x # xs \<Rightarrow> Some (foldr min xs x))"

section \<open>The epoch counters\<close>

record catalog_epoch_row =
  ep_scope :: string
  ep_scope_id :: string
  ep_epoch :: int

definition dbScope :: "auth_scope \<Rightarrow> string" where
  "dbScope scope = (case scope of Scope_global \<Rightarrow> ''auth_global'' | Scope_tenant \<Rightarrow> ''auth_tenant'' | Scope_principal \<Rightarrow> ''auth_principal'')"

definition readCatalogEpoch :: "string \<Rightarrow> string \<Rightarrow> catalog_epoch_row list \<Rightarrow> int" where
  "readCatalogEpoch scope scopeId t =
     (case sql_one (\<lambda>r. (ep_scope r, ep_scope_id r) = (scope, scopeId)) t of None \<Rightarrow> 0 | Some r \<Rightarrow> ep_epoch r)"

definition bumpCatalogAuthEpoch :: "auth_scope \<Rightarrow> string \<Rightarrow> catalog_epoch_row list \<Rightarrow> int \<times> catalog_epoch_row list" where
  "bumpCatalogAuthEpoch scope scopeId t =
     (let k = (dbScope scope, scopeId);
          t1 = (if \<exists>r \<in> set t. (ep_scope r, ep_scope_id r) = k then t else t @ [\<lparr> ep_scope = fst k, ep_scope_id = snd k, ep_epoch = 0 \<rparr>]);
          t2 = sql_update (\<lambda>r. (ep_scope r, ep_scope_id r) = k) (\<lambda>r. r\<lparr>ep_epoch := ep_epoch r + 1\<rparr>) t1 in
      ((case sql_one (\<lambda>r. (ep_scope r, ep_scope_id r) = k) t2 of None \<Rightarrow> 1 | Some r \<Rightarrow> ep_epoch r), t2))"

record CatalogAuthEpochs =
  cae_global :: int
  cae_tenant :: int
  cae_principal :: int

definition readCatalogAuthEpoch :: "string option \<Rightarrow> string option \<Rightarrow> catalog_epoch_row list \<Rightarrow> CatalogAuthEpochs" where
  "readCatalogAuthEpoch tenantId principalId t = \<lparr> cae_global = readCatalogEpoch ''auth_global'' ''global'' t,
     cae_tenant = (case tenantId of Some i \<Rightarrow> if i = '''' then 0 else readCatalogEpoch ''auth_tenant'' i t | None \<Rightarrow> 0),
     cae_principal = (case principalId of Some i \<Rightarrow> if i = '''' then 0 else readCatalogEpoch ''auth_principal'' i t | None \<Rightarrow> 0) \<rparr>"

section \<open>The contract\<close>

text \<open>
  What a key still has to be told: the epoch of its row and how far the row's cursor has come. \<open>passed c k\<close> says that a
  cursor at \<open>c\<close> is beyond \<open>k\<close>.
\<close>

datatype 'k epoch_event = Raised "'k set" int | Cleared "'k set" int | Moved "'k set" int string | Kept

type_synonym 'k waiting = "'k \<Rightarrow> (int \<times> string option) option"

fun epoch_effect :: "'k epoch_event \<Rightarrow> 'k waiting \<Rightarrow> 'k waiting" where
  "epoch_effect (Raised K e) f = (\<lambda>k. if k \<in> K
     then (case f k of None \<Rightarrow> Some (e, None) | Some (e0, c) \<Rightarrow> if e > e0 then Some (e, None) else Some (e0, c)) else f k)"
| "epoch_effect (Cleared K e) f = (\<lambda>k. if k \<in> K \<and> map_option fst (f k) = Some e then None else f k)"
| "epoch_effect (Moved K e c) f = (\<lambda>k. if k \<in> K \<and> map_option fst (f k) = Some e then Some (e, Some c) else f k)"
| "epoch_effect Kept f = f"

definition awaits :: "(string \<Rightarrow> 'k \<Rightarrow> bool) \<Rightarrow> 'k waiting \<Rightarrow> 'k \<Rightarrow> int \<Rightarrow> bool" where
  "awaits passed f k e \<longleftrightarrow> (\<exists>e' c. f k = Some (e', c) \<and> e \<le> e' \<and> (\<forall>x. c = Some x \<longrightarrow> \<not> passed x k))"

text \<open>The event lets \<open>k\<close> go, for an epoch not older than \<open>e\<close>.\<close>

fun lets_go :: "(string \<Rightarrow> 'k \<Rightarrow> bool) \<Rightarrow> 'k epoch_event \<Rightarrow> 'k \<Rightarrow> int \<Rightarrow> bool" where
  "lets_go passed (Cleared K e') k e \<longleftrightarrow> k \<in> K \<and> e \<le> e'"
| "lets_go passed (Moved K e' c) k e \<longleftrightarrow> k \<in> K \<and> e \<le> e' \<and> passed c k"
| "lets_go passed _ k e \<longleftrightarrow> False"

locale epoch_queue =
  fixes q_inv :: "'q \<Rightarrow> bool" and q_step :: "'q \<Rightarrow> 'k epoch_event \<Rightarrow> 'q \<Rightarrow> bool" and waiting :: "'q \<Rightarrow> 'k waiting"
    and passed :: "string \<Rightarrow> 'k \<Rightarrow> bool"
  assumes keeps_inv: "q_inv q \<Longrightarrow> q_step q ev q' \<Longrightarrow> q_inv q'"
    and keeps_waiting: "q_inv q \<Longrightarrow> q_step q ev q' \<Longrightarrow> waiting q' = epoch_effect ev (waiting q)"
begin

lemma still_awaits:
  assumes "q_inv q" and "q_step q ev q'" and "awaits passed (waiting q) k e" and "\<not> lets_go passed ev k e"
  shows "awaits passed (waiting q') k e"
  using assms(3,4) unfolding keeps_waiting [OF assms(1,2)]
  by (cases ev) (auto simp: awaits_def)

lemma raised_awaits:
  assumes "q_inv q" and "q_step q (Raised K e) q'" and "k \<in> K" and "\<And>e0 c. waiting q k = Some (e0, c) \<Longrightarrow> e0 < e"
  shows "awaits passed (waiting q') k e"
  using assms(3,4) unfolding keeps_waiting [OF assms(1,2)]
  by (cases "waiting q k") (auto simp: awaits_def)

lemma epoch_bound:
  assumes "q_inv q" and "q_step q ev q'" and "waiting q' k = Some (e, c)" and "\<And>e0 c0. waiting q k = Some (e0, c0) \<Longrightarrow> e0 \<le> n"
    and "\<And>K e1. ev = Raised K e1 \<Longrightarrow> k \<in> K \<Longrightarrow> e1 \<le> n"
  shows "e \<le> n"
  using assms(3-5) unfolding keeps_waiting [OF assms(1,2)]
  by (cases ev; cases "waiting q k") (auto split: if_splits)

end

section \<open>Tables with a cursor\<close>

definition cursor_rows :: "('a StoredGlobal_scheme \<Rightarrow> 'k) \<Rightarrow> 'a StoredGlobal_scheme list \<Rightarrow> bool" where
  "cursor_rows key t \<longleftrightarrow> distinct (map key t) \<and> (\<forall>r \<in> set t. broadcast_check r \<and> sg_created_at r \<le> sg_next_attempt_at r)"

definition cursor_at :: "('a StoredGlobal_scheme \<Rightarrow> 'k) \<Rightarrow> 'a StoredGlobal_scheme list \<Rightarrow> 'k waiting" where
  "cursor_at key t k = map_option (\<lambda>r. (sg_epoch r, sg_cursor_shard_id r)) (sql_one (\<lambda>r. key r = k) t)"

lemma retryDelay_pos: "0 < retryDelay n"
  by (simp add: retryDelay_def CATALOG_AUTH_INVALIDATION_RETRY_MAX_MS_def CATALOG_AUTH_INVALIDATION_RETRY_INITIAL_MS_def)

lemma cursor_rows_update:
  assumes "cursor_rows key t" and "\<And>r. r \<in> set t \<Longrightarrow> p r \<Longrightarrow> key (f r) = key r"
    and "\<And>r. r \<in> set t \<Longrightarrow> p r \<Longrightarrow> broadcast_check (f r) \<and> sg_created_at (f r) \<le> sg_next_attempt_at (f r)"
  shows "cursor_rows key (sql_update p f t)"
proof -
  have "map key (sql_update p f t) = map key t" using assms(2) by (simp add: sql_update_def)
  then show ?thesis using assms(1,3) by (auto simp: cursor_rows_def table_simps)
qed

lemma sql_one_map:
  assumes "\<And>r. r \<in> set t \<Longrightarrow> key (g r) = key r"
  shows "sql_one (\<lambda>r. key r = k) (map g t) = map_option g (sql_one (\<lambda>r. key r = k) t)"
  using assms by (induction t) (auto simp: sql_one_def)

lemma cursor_at_update:
  assumes "\<And>r. r \<in> set t \<Longrightarrow> p r \<Longrightarrow> key (f r) = key r"
  shows "cursor_at key (sql_update p f t) k =
    map_option (\<lambda>r. if p r then (sg_epoch (f r), sg_cursor_shard_id (f r)) else (sg_epoch r, sg_cursor_shard_id r)) (sql_one (\<lambda>r. key r = k) t)"
  unfolding cursor_at_def sql_update_def using assms
  by (subst sql_one_map) (auto simp: option.map_comp o_def if_distrib [of sg_epoch] if_distrib [of sg_cursor_shard_id] split: if_splits intro!: option.map_cong)

lemma cursor_at_Some: "cursor_at key t k = Some (e, c) \<longleftrightarrow> (\<exists>r. sql_one (\<lambda>r. key r = k) t = Some r \<and> sg_epoch r = e \<and> sg_cursor_shard_id r = c)"
  by (auto simp: cursor_at_def)

locale cursor_table =
  fixes key :: "'a StoredGlobal_scheme \<Rightarrow> 'k"
  assumes stable: "key (sg_epoch_update f1 r) = key r" "key (sg_cursor_shard_id_update f2 r) = key r" "key (sg_attempts_update f3 r) = key r"
    "key (sg_next_attempt_at_update f4 r) = key r" "key (sg_updated_at_update f5 r) = key r" "key (sg_last_error_update f6 r) = key r"
begin

lemma raise_key: "key (raise_cursor e n r) = key r"
  by (simp add: raise_cursor_def stable)

lemma upserted:
  assumes "cursor_rows key t" and "cursor_upsert key new t = Inr t'" and "sg_cursor_shard_id new = None"
    and "sg_next_attempt_at new = sg_updated_at new" and "sg_created_at new \<le> sg_next_attempt_at new"
  shows "cursor_rows key t'" "cursor_at key t' = epoch_effect (Raised {key new} (sg_epoch new)) (cursor_at key t)"
    "length t' \<le> length t + (if \<exists>r \<in> set t. key r = key new then 0 else 1)"
proof -
  let ?p = "\<lambda>r. key r = key new" and ?f = "raise_cursor (sg_epoch new) (sg_updated_at new)"
  have "cursor_rows key t' \<and> cursor_at key t' = epoch_effect (Raised {key new} (sg_epoch new)) (cursor_at key t) \<and>
      length t' \<le> length t + (if \<exists>r \<in> set t. key r = key new then 0 else 1)"
  proof (cases "\<exists>r \<in> set t. key r = key new")
    case True
    then have t': "t' = sql_update ?p ?f t" and chk: "\<forall>r \<in> set t. ?p r \<longrightarrow> broadcast_check (?f r)"
      using assms(2) by (auto simp: cursor_upsert_def result_simps)
    have "cursor_rows key t'" unfolding t'
    proof (rule cursor_rows_update [where p = ?p and f = ?f, OF assms(1) raise_key])
      fix r assume "r \<in> set t" "?p r"
      then show "broadcast_check (?f r) \<and> sg_created_at (?f r) \<le> sg_next_attempt_at (?f r)"
        using chk assms(1) by (auto simp: cursor_rows_def raise_cursor_def broadcast_check_def)
    qed
    moreover have "cursor_at key t' k = epoch_effect (Raised {key new} (sg_epoch new)) (cursor_at key t) k" for k
    proof (cases "sql_one (\<lambda>r. key r = k) t")
      case None
      moreover from this have "k \<noteq> key new" using True by (auto simp: sql_one_None_iff)
      ultimately show ?thesis by (simp add: t' cursor_at_update raise_key, simp add: cursor_at_def)
    next
      case (Some r)
      moreover from this have "key r = k" by (auto dest: sql_one_SomeD)
      ultimately show ?thesis unfolding t' by (subst cursor_at_update) (auto simp: stable cursor_at_def raise_cursor_def)
    qed
    ultimately show ?thesis using True t' by auto
  next
    case False
    then have t': "t' = t @ [new]" and new: "broadcast_check new" using assms(2) by (auto simp: cursor_upsert_def result_simps)
    have none: "sql_one (\<lambda>r. key r = key new) t = None" using False by (simp add: sql_one_None_iff)
    have "cursor_at key t' k = epoch_effect (Raised {key new} (sg_epoch new)) (cursor_at key t) k" for k
      using sql_one_append_new [OF none] sql_one_append_other [of "\<lambda>r. key r = k" new t] none assms(3)
      by (cases "k = key new") (simp_all add: t' cursor_at_def)
    then show ?thesis using False new assms(1,5) by (auto simp: t' cursor_rows_def)
  qed
  then show "cursor_rows key t'" "cursor_at key t' = epoch_effect (Raised {key new} (sg_epoch new)) (cursor_at key t)"
    "length t' \<le> length t + (if \<exists>r \<in> set t. key r = key new then 0 else 1)" by simp_all
qed

lemma advanced:
  assumes "cursor_rows key t" and "cursor_advance key k e c nextAt nowMs t = Inr t'" and "nowMs \<le> nextAt"
  shows "cursor_rows key t'" "cursor_at key t' = epoch_effect (Moved {k} e c) (cursor_at key t)" "length t' = length t"
proof -
  let ?f = "\<lambda>r. r\<lparr>sg_cursor_shard_id := Some c, sg_attempts := 0, sg_next_attempt_at := nextAt, sg_updated_at := nowMs, sg_last_error := None\<rparr>"
  have t': "t' = sql_update (at_epoch key k e) ?f t" and chk: "\<forall>r \<in> set t. at_epoch key k e r \<longrightarrow> broadcast_check (?f r)"
    using assms(2) by (auto simp: cursor_advance_def result_simps)
  show "cursor_rows key t'" unfolding t'
    by (rule cursor_rows_update [where p = "at_epoch key k e" and f = ?f, OF assms(1)]) (use chk assms(3) in \<open>auto simp: stable broadcast_check_def\<close>)
  show "cursor_at key t' = epoch_effect (Moved {k} e c) (cursor_at key t)"
  proof
    fix k'
    show "cursor_at key t' k' = epoch_effect (Moved {k} e c) (cursor_at key t) k'"
    proof (cases "sql_one (\<lambda>r. key r = k') t")
      case (Some r)
      moreover from this have "key r = k'" by (auto dest: sql_one_SomeD)
      ultimately show ?thesis unfolding t' by (subst cursor_at_update) (auto simp: stable cursor_at_def at_epoch_def)
    qed (simp add: t' cursor_at_update stable, auto simp: cursor_at_def)
  qed
  show "length t' = length t" by (simp add: t')
qed

lemma completed:
  assumes "cursor_rows key t"
  shows "cursor_rows key (sql_delete (at_epoch key k e) t)"
    "cursor_at key (sql_delete (at_epoch key k e) t) = epoch_effect (Cleared {k} e) (cursor_at key t)"
    "length (sql_delete (at_epoch key k e) t) \<le> length t"
proof -
  show "cursor_rows key (sql_delete (at_epoch key k e) t)"
    using assms by (auto simp: cursor_rows_def distinct_keys_sql_delete table_simps)
  show "length (sql_delete (at_epoch key k e) t) \<le> length t" by (simp add: sql_delete_def)
  have d: "distinct (map key t)" using assms by (simp add: cursor_rows_def)
  then show "cursor_at key (sql_delete (at_epoch key k e) t) = epoch_effect (Cleared {k} e) (cursor_at key t)"
  proof (intro ext)
    fix k'
    show "cursor_at key (sql_delete (at_epoch key k e) t) k' = epoch_effect (Cleared {k} e) (cursor_at key t) k'"
      using d by (induction t) (auto simp: cursor_at_def sql_delete_def sql_one_def at_epoch_def find_None_iff image_iff filter_empty_conv
          split: option.splits if_splits)
  qed
qed

lemma deferred:
  assumes "cursor_rows key t" and "cursor_defer key k e nowMs message t = Inr t'"
  shows "cursor_rows key t'" "cursor_at key t' = cursor_at key t" "length t' = length t"
proof -
  have "cursor_rows key t' \<and> cursor_at key t' = cursor_at key t \<and> length t' = length t"
  proof (cases "sql_one (at_epoch key k e) t")
    case None
    then show ?thesis using assms by (simp add: cursor_defer_def)
  next
    case (Some r0)
    define n where "n = min (sg_attempts r0 + 1) 31"
    let ?f = "\<lambda>r. r\<lparr>sg_attempts := n, sg_next_attempt_at := nowMs + retryDelay n, sg_updated_at := nowMs, sg_last_error := stored_error message\<rparr>"
    have t': "t' = sql_update (at_epoch key k e) ?f t" and chk: "\<forall>r \<in> set t. at_epoch key k e r \<longrightarrow> broadcast_check (?f r)"
      using assms(2) Some by (simp_all add: cursor_defer_def Let_def result_simps n_def)
    have "cursor_rows key t'" unfolding t'
      by (rule cursor_rows_update [where p = "at_epoch key k e" and f = ?f, OF assms(1)]) (use chk retryDelay_pos [of n] in \<open>auto simp: stable broadcast_check_def\<close>)
    moreover have "cursor_at key t' k' = cursor_at key t k'" for k'
      unfolding t' by (subst cursor_at_update) (auto simp: stable cursor_at_def intro!: option.map_cong0)
    ultimately show ?thesis by (auto simp: t')
  qed
  then show "cursor_rows key t'" "cursor_at key t' = cursor_at key t" "length t' = length t" by simp_all
qed

end

interpretation global_rows: cursor_table singleton_key
  by unfold_locales (simp_all add: singleton_key_def)

interpretation principal_rows: cursor_table sg_scope_id
  by unfold_locales simp_all

section \<open>Rows of shards as a queue\<close>

definition target_rows :: "StoredTarget list \<Rightarrow> bool" where
  "target_rows t \<longleftrightarrow> distinct (map target_key t) \<and> (\<forall>r \<in> set t. target_check r \<and> st_created_at r \<le> st_next_attempt_at r)"

definition target_at :: "StoredTarget list \<Rightarrow> (auth_scope \<times> string \<times> string) waiting" where
  "target_at t k = map_option (\<lambda>r. (st_epoch r, None)) (sql_one (\<lambda>r. target_key r = k) t)"

lemma target_key_stable [simp]: "target_key (r\<lparr>st_epoch := a\<rparr>) = target_key r" "target_key (r\<lparr>st_attempts := b\<rparr>) = target_key r"
    "target_key (r\<lparr>st_next_attempt_at := c\<rparr>) = target_key r" "target_key (r\<lparr>st_updated_at := d\<rparr>) = target_key r"
    "target_key (r\<lparr>st_last_error := m\<rparr>) = target_key r"
  by (simp_all add: target_key_def)

lemma raise_target_key [simp]: "target_key (raise_target new r) = target_key r"
  by (simp add: raise_target_def)

lemma new_target_simps [simp]: "target_key (new_target sc i e n s) = (sc, i, s)" "st_epoch (new_target sc i e n s) = e"
    "st_next_attempt_at (new_target sc i e n s) = n" "st_created_at (new_target sc i e n s) = n" "st_updated_at (new_target sc i e n s) = n"
  by (simp_all add: new_target_def target_key_def)

lemma target_rows_update:
  assumes "target_rows t" and "\<And>r. r \<in> set t \<Longrightarrow> p r \<Longrightarrow> target_key (f r) = target_key r"
    and "\<And>r. r \<in> set t \<Longrightarrow> p r \<Longrightarrow> target_check (f r) \<and> st_created_at (f r) \<le> st_next_attempt_at (f r)"
  shows "target_rows (sql_update p f t)"
proof -
  have "map target_key (sql_update p f t) = map target_key t" using assms(2) by (simp add: sql_update_def)
  then show ?thesis using assms(1,3) by (auto simp: target_rows_def table_simps)
qed

lemma target_at_update:
  assumes "\<And>r. r \<in> set t \<Longrightarrow> p r \<Longrightarrow> target_key (f r) = target_key r"
  shows "target_at (sql_update p f t) k = map_option (\<lambda>r. (if p r then st_epoch (f r) else st_epoch r, None)) (sql_one (\<lambda>r. target_key r = k) t)"
  unfolding target_at_def sql_update_def using assms
  by (subst sql_one_map) (auto simp: option.map_comp o_def if_distrib [of st_epoch] split: if_splits intro!: option.map_cong)

lemma target_upserted:
  assumes "target_rows t" and "target_upsert (new_target sc i e n s) t = Inr t'"
  shows "target_rows t'" "target_at t' = epoch_effect (Raised {(sc, i, s)} e) (target_at t)"
    "target_key ` set t' = insert (sc, i, s) (target_key ` set t)"
proof -
  let ?k = "(sc, i, s)" and ?new = "new_target sc i e n s"
  let ?p = "\<lambda>r. target_key r = ?k" and ?f = "raise_target ?new"
  have "target_rows t' \<and> target_at t' = epoch_effect (Raised {?k} e) (target_at t) \<and> target_key ` set t' = insert ?k (target_key ` set t)"
  proof (cases "\<exists>r \<in> set t. target_key r = ?k")
    case True
    then have t': "t' = sql_update ?p ?f t" and chk: "\<forall>r \<in> set t. ?p r \<longrightarrow> target_check (?f r)"
      using assms(2) by (auto simp: target_upsert_def result_simps)
    have "target_rows t'" unfolding t'
    proof (rule target_rows_update [where p = ?p and f = ?f, OF assms(1) raise_target_key])
      fix r assume "r \<in> set t" "?p r"
      then show "target_check (?f r) \<and> st_created_at (?f r) \<le> st_next_attempt_at (?f r)"
        using chk assms(1) by (auto simp: target_rows_def raise_target_def target_check_def)
    qed
    moreover have "target_at t' k = epoch_effect (Raised {?k} e) (target_at t) k" for k
    proof (cases "sql_one (\<lambda>r. target_key r = k) t")
      case None
      moreover from this have "k \<noteq> ?k" using True by (auto simp: sql_one_None_iff)
      ultimately show ?thesis by (simp add: t' target_at_update, simp add: target_at_def)
    next
      case (Some r)
      moreover from this have "target_key r = k" by (auto dest: sql_one_SomeD)
      ultimately show ?thesis unfolding t' by (subst target_at_update) (auto simp: target_at_def raise_target_def)
    qed
    moreover have "map target_key t' = map target_key t" unfolding t' by (simp add: sql_update_def)
    then have "target_key ` set t' = target_key ` set t" by (metis list.set_map)
    then have "target_key ` set t' = insert ?k (target_key ` set t)" using True by (metis image_eqI insert_absorb)
    ultimately show ?thesis by blast
  next
    case False
    then have t': "t' = t @ [?new]" and new: "target_check ?new" using assms(2) by (auto simp: target_upsert_def result_simps)
    have none: "sql_one (\<lambda>r. target_key r = ?k) t = None" using False by (simp add: sql_one_None_iff)
    have "target_at t' k = epoch_effect (Raised {?k} e) (target_at t) k" for k
      using sql_one_append_new [OF none, of ?new] sql_one_append_other [of "\<lambda>r. target_key r = k" ?new t] none
      by (cases "k = ?k") (simp_all add: t' target_at_def)
    then show ?thesis using False new assms(1) by (auto simp: t' target_rows_def)
  qed
  then show "target_rows t'" "target_at t' = epoch_effect (Raised {(sc, i, s)} e) (target_at t)"
    "target_key ` set t' = insert (sc, i, s) (target_key ` set t)" by simp_all
qed

lemma raised_twice: "epoch_effect (Raised B e) (epoch_effect (Raised A e) f) = epoch_effect (Raised (A \<union> B) e) f"
  by (auto split: option.splits)

lemma targets_upserted:
  "rfold (\<lambda>s. target_upsert (new_target sc i e n s)) shards t = Inr t' \<Longrightarrow> target_rows t \<Longrightarrow>
    target_rows t' \<and> target_at t' = epoch_effect (Raised {(sc, i, s) |s. s \<in> set shards} e) (target_at t) \<and>
    target_key ` set t' = target_key ` set t \<union> {(sc, i, s) |s. s \<in> set shards}"
proof (induction shards arbitrary: t)
  case (Cons s shards)
  then obtain t1 where t1: "target_upsert (new_target sc i e n s) t = Inr t1"
    and rest: "rfold (\<lambda>s. target_upsert (new_target sc i e n s)) shards t1 = Inr t'" by (auto simp: result_simps)
  note U = target_upserted [OF Cons.prems(2) t1]
  have "{(sc, i, s)} \<union> {(sc, i, s') |s'. s' \<in> set shards} = {(sc, i, s') |s'. s' \<in> set (s # shards)}" by auto
  then show ?case using Cons.IH [OF rest U(1)] unfolding U(2,3) raised_twice by (auto simp del: epoch_effect.simps)
qed (auto simp: fun_eq_iff)

lemma enqueued_targets:
  assumes "target_rows t" and "enqueueTargets sc i e shards n t = Inr (rs, t')"
  shows "target_rows t'" "target_at t' = epoch_effect (Raised {(sc, i, s) |s. s \<in> set shards} e) (target_at t)"
    "int (length t') \<le> CATALOG_AUTH_INVALIDATION_TARGET_LIMIT" "sc \<noteq> Scope_global"
proof -
  let ?S = "sort (remdups shards)" and ?new = "{(sc, i, s) |s. s \<in> set shards}"
  have fold: "rfold (\<lambda>s. target_upsert (new_target sc i e n s)) ?S t = Inr t'"
    and cnt: "projected_count sc i ?S t \<le> CATALOG_AUTH_INVALIDATION_TARGET_LIMIT" and "sc \<noteq> Scope_global"
    using assms(2) by (auto simp: enqueueTargets_def Let_def rbind_eq_Inr ensure_def split: if_splits)
  then show "sc \<noteq> Scope_global" by simp
  note U = targets_upserted [OF fold assms(1), unfolded set_sort set_remdups]
  then show "target_rows t'" "target_at t' = epoch_effect (Raised ?new e) (target_at t)" by simp_all
  let ?missing = "filter (\<lambda>s. sql_one (\<lambda>r. target_key r = (sc, i, s)) t = None) ?S"
  let ?old = "target_key ` set t" and ?add = "(\<lambda>s. (sc, i, s)) ` set ?missing"
  have "?new \<subseteq> ?old \<union> ?add"
  proof
    fix k assume "k \<in> ?new"
    then obtain s where s: "k = (sc, i, s)" "s \<in> set shards" by blast
    show "k \<in> ?old \<union> ?add"
    proof (cases "sql_one (\<lambda>r. target_key r = k) t")
      case (Some r)
      then show ?thesis using sql_one_SomeD [OF Some] by blast
    qed (use s in simp)
  qed
  then have "target_key ` set t' \<subseteq> ?old \<union> ?add" unfolding U [THEN conjunct2, THEN conjunct2] by (rule Un_least [OF Un_upper1])
  then have "card (target_key ` set t') \<le> card (?old \<union> ?add)" by (simp add: card_mono)
  also have "\<dots> \<le> card ?old + card ?add" by (rule card_Un_le)
  also have "card ?add \<le> length ?missing" by (meson card_image_le card_length finite_set order_trans)
  finally have "card (target_key ` set t') \<le> card ?old + length ?missing" by simp
  moreover have "card (target_key ` set u) = length u" if "target_rows u" for u
    using that unfolding target_rows_def by (metis distinct_card length_map list.set_map)
  note this [OF assms(1)] this [OF U [THEN conjunct1]]
  ultimately show "int (length t') \<le> CATALOG_AUTH_INVALIDATION_TARGET_LIMIT" using cnt by (simp add: projected_count_def)
qed

lemma completed_target:
  assumes "target_rows t"
  shows "target_rows (completeTarget x t)" "target_at (completeTarget x t) = epoch_effect (Cleared {target_key x} (st_epoch x)) (target_at t)"
    "length (completeTarget x t) \<le> length t"
proof -
  show "target_rows (completeTarget x t)"
    using assms by (auto simp: completeTarget_def target_rows_def distinct_keys_sql_delete table_simps)
  show "length (completeTarget x t) \<le> length t" by (simp add: completeTarget_def sql_delete_def)
  have d: "distinct (map target_key t)" using assms by (simp add: target_rows_def)
  show "target_at (completeTarget x t) = epoch_effect (Cleared {target_key x} (st_epoch x)) (target_at t)"
  proof
    fix k
    show "target_at (completeTarget x t) k = epoch_effect (Cleared {target_key x} (st_epoch x)) (target_at t) k"
      using d by (induction t) (auto simp: target_at_def completeTarget_def sql_delete_def sql_one_def same_target_def find_None_iff image_iff
          filter_empty_conv split: option.splits if_splits)
  qed
qed

lemma deferred_target:
  assumes "target_rows t" and "deferTarget x n message t = Inr t'"
  shows "target_rows t'" "target_at t' = target_at t" "length t' = length t"
proof -
  have "target_rows t' \<and> target_at t' = target_at t \<and> length t' = length t"
  proof (cases "sql_one (same_target x) t")
    case None
    then show ?thesis using assms by (auto simp: deferTarget_def rbind_eq_Inr)
  next
    case (Some r0)
    define a where "a = min (st_attempts r0 + 1) 31"
    let ?f = "\<lambda>r. r\<lparr>st_attempts := a, st_next_attempt_at := n + retryDelay a, st_updated_at := n, st_last_error := stored_error message\<rparr>"
    have t': "t' = sql_update (same_target x) ?f t" and chk: "\<forall>r \<in> set t. same_target x r \<longrightarrow> target_check (?f r)"
      using assms(2) Some by (simp_all add: deferTarget_def Let_def result_simps a_def)
    have "target_rows t'" unfolding t'
      by (rule target_rows_update [where p = "same_target x" and f = ?f, OF assms(1)])
        (use chk retryDelay_pos [of a] in \<open>auto simp: target_check_def\<close>)
    moreover have "target_at t' k = target_at t k" for k
      unfolding t' by (subst target_at_update) (auto simp: target_at_def intro!: option.map_cong0)
    ultimately show ?thesis by (auto simp: t')
  qed
  then show "target_rows t'" "target_at t' = target_at t" "length t' = length t" by simp_all
qed

section \<open>The outbox\<close>

definition outbox_tables :: "auth_outbox \<Rightarrow> bool" where
  "outbox_tables ob \<longleftrightarrow> target_rows (ob_targets ob) \<and> cursor_rows singleton_key (ob_global ob) \<and> cursor_rows sg_scope_id (ob_principals ob) \<and>
     int (length (ob_targets ob)) \<le> CATALOG_AUTH_INVALIDATION_TARGET_LIMIT \<and>
     int (length (ob_principals ob)) \<le> CATALOG_AUTH_INVALIDATION_TARGET_LIMIT"

text \<open>What the arguments of every operation on a stored row have to satisfy.\<close>

definition outbox_values :: "auth_outbox \<Rightarrow> bool" where
  "outbox_values ob \<longleftrightarrow> (\<forall>r \<in> set (ob_global ob). safe_integer (sg_epoch r)) \<and>
     (\<forall>r \<in> set (ob_principals ob). safe_integer (sg_epoch r) \<and> boundedScopeId (sg_scope_id r) = Inr ())"

definition auth_outbox_inv :: "auth_outbox \<Rightarrow> bool" where
  "auth_outbox_inv ob \<longleftrightarrow> outbox_tables ob \<and> outbox_values ob"

type_synonym auth_key3 = "auth_scope \<times> string \<times> string"

text \<open>What a shard still has to be told of a scope. A row with a cursor concerns every shard.\<close>

fun outbox_waiting :: "auth_outbox \<Rightarrow> auth_key3 waiting" where
  "outbox_waiting ob (Scope_global, i, s) = (if i = ''global'' then cursor_at singleton_key (ob_global ob) () else None)"
| "outbox_waiting ob (Scope_principal, i, s) = cursor_at sg_scope_id (ob_principals ob) i"
| "outbox_waiting ob (Scope_tenant, i, s) = target_at (ob_targets ob) (Scope_tenant, i, s)"

definition cursor_passed :: "string \<Rightarrow> auth_key3 \<Rightarrow> bool" where
  "cursor_passed c k \<longleftrightarrow> snd (snd k) \<le> c"

definition every_shard :: "auth_scope \<Rightarrow> string \<Rightarrow> auth_key3 set" where
  "every_shard sc i = {(sc, i, s) |s. True}"

inductive auth_outbox_step :: "auth_outbox \<Rightarrow> auth_key3 epoch_event \<Rightarrow> auth_outbox \<Rightarrow> bool" where
  step_enqueueTargets: "enqueueTargets Scope_tenant i e shards n (ob_targets ob) = Inr (rs, t) \<Longrightarrow>
    auth_outbox_step ob (Raised {(Scope_tenant, i, s) |s. s \<in> set shards} e) (ob\<lparr>ob_targets := t\<rparr>)"
| step_enqueueGlobal: "enqueueGlobal e n (ob_global ob) = Inr (g, t) \<Longrightarrow>
    auth_outbox_step ob (Raised (every_shard Scope_global ''global'') e) (ob\<lparr>ob_global := t\<rparr>)"
| step_enqueuePrincipal: "enqueuePrincipal i e n (ob_principals ob) = Inr (g, t) \<Longrightarrow>
    auth_outbox_step ob (Raised (every_shard Scope_principal i) e) (ob\<lparr>ob_principals := t\<rparr>)"
| step_completeTarget: "st_scope x = Scope_tenant \<Longrightarrow>
    auth_outbox_step ob (Cleared {target_key x} (st_epoch x)) (ob\<lparr>ob_targets := completeTarget x (ob_targets ob)\<rparr>)"
| step_completeOther: "st_scope x \<noteq> Scope_tenant \<Longrightarrow> auth_outbox_step ob Kept (ob\<lparr>ob_targets := completeTarget x (ob_targets ob)\<rparr>)"
| step_deferTarget: "deferTarget x n m (ob_targets ob) = Inr t \<Longrightarrow> auth_outbox_step ob Kept (ob\<lparr>ob_targets := t\<rparr>)"
| step_advanceGlobal: "advanceGlobal e c n (ob_global ob) = Inr t \<Longrightarrow>
    auth_outbox_step ob (Moved (every_shard Scope_global ''global'') e c) (ob\<lparr>ob_global := t\<rparr>)"
| step_completeGlobal: "completeGlobal e (ob_global ob) = Inr t \<Longrightarrow>
    auth_outbox_step ob (Cleared (every_shard Scope_global ''global'') e) (ob\<lparr>ob_global := t\<rparr>)"
| step_deferGlobal: "deferGlobal e n m (ob_global ob) = Inr t \<Longrightarrow> auth_outbox_step ob Kept (ob\<lparr>ob_global := t\<rparr>)"
| step_advancePrincipal: "advancePrincipal i e c n (ob_principals ob) = Inr t \<Longrightarrow>
    auth_outbox_step ob (Moved (every_shard Scope_principal i) e c) (ob\<lparr>ob_principals := t\<rparr>)"
| step_completePrincipal: "completePrincipal i e (ob_principals ob) = Inr t \<Longrightarrow>
    auth_outbox_step ob (Cleared (every_shard Scope_principal i) e) (ob\<lparr>ob_principals := t\<rparr>)"
| step_deferPrincipal: "deferPrincipal i e n m (ob_principals ob) = Inr t \<Longrightarrow> auth_outbox_step ob Kept (ob\<lparr>ob_principals := t\<rparr>)"

lemma new_global_simps [simp]: "sg_epoch (new_global e n) = e" "sg_cursor_shard_id (new_global e n) = None"
    "sg_next_attempt_at (new_global e n) = n" "sg_created_at (new_global e n) = n" "sg_updated_at (new_global e n) = n"
  by (simp_all add: new_global_def)

lemma new_principal_simps [simp]: "sg_epoch (new_principal i e n) = e" "sg_cursor_shard_id (new_principal i e n) = None"
    "sg_next_attempt_at (new_principal i e n) = n" "sg_created_at (new_principal i e n) = n" "sg_updated_at (new_principal i e n) = n"
    "sg_scope_id (new_principal i e n) = i"
  by (simp_all add: new_principal_def new_global_def StoredGlobal.defs)

lemma cursor_at_singleton: "cursor_at singleton_key t () = map_option (\<lambda>r. (sg_epoch r, sg_cursor_shard_id r)) (stored_global t)"
  by (simp add: cursor_at_def stored_global_def)

lemma enqueueGlobal_upsert: "enqueueGlobal e n t = Inr (g, t') \<Longrightarrow> cursor_upsert singleton_key (new_global e n) t = Inr t' \<and> stored_global t' = Some g"
  by (auto simp: enqueueGlobal_def rbind_eq_Inr split: option.splits)

lemma enqueuePrincipal_upsert: "enqueuePrincipal i e n t = Inr (g, t') \<Longrightarrow>
    cursor_upsert sg_scope_id (new_principal i e n) t = Inr t' \<and> principal i t' = Some g \<and>
    (principal i t \<noteq> None \<or> int (length t) < CATALOG_AUTH_INVALIDATION_TARGET_LIMIT)"
  by (auto simp: enqueuePrincipal_def rbind_eq_Inr ensure_def split: option.splits if_splits)

lemma other_tables [simp]:
  "outbox_waiting (ob\<lparr>ob_targets := t\<rparr>) (Scope_global, i, s) = outbox_waiting ob (Scope_global, i, s)"
  "outbox_waiting (ob\<lparr>ob_targets := t\<rparr>) (Scope_principal, i, s) = outbox_waiting ob (Scope_principal, i, s)"
  "outbox_waiting (ob\<lparr>ob_global := g\<rparr>) (Scope_principal, i, s) = outbox_waiting ob (Scope_principal, i, s)"
  "outbox_waiting (ob\<lparr>ob_global := g\<rparr>) (Scope_tenant, i, s) = outbox_waiting ob (Scope_tenant, i, s)"
  "outbox_waiting (ob\<lparr>ob_principals := p\<rparr>) (Scope_global, i, s) = outbox_waiting ob (Scope_global, i, s)"
  "outbox_waiting (ob\<lparr>ob_principals := p\<rparr>) (Scope_tenant, i, s) = outbox_waiting ob (Scope_tenant, i, s)"
  by simp_all

text \<open>An event of one table, seen by all keys.\<close>

lemma waiting_targets:
  assumes "target_at t = epoch_effect ev (target_at (ob_targets ob))" and "\<And>sc i s f. sc \<noteq> Scope_tenant \<Longrightarrow> epoch_effect ev f (sc, i, s) = f (sc, i, s)"
  shows "outbox_waiting (ob\<lparr>ob_targets := t\<rparr>) = epoch_effect ev (outbox_waiting ob)"
proof
  fix k :: auth_key3
  obtain sc i s where k: "k = (sc, i, s)" by (cases k)
  have same: "epoch_effect ev (outbox_waiting ob) (Scope_tenant, i, s) = epoch_effect ev (target_at (ob_targets ob)) (Scope_tenant, i, s)"
    by (cases ev) auto
  show "outbox_waiting (ob\<lparr>ob_targets := t\<rparr>) k = epoch_effect ev (outbox_waiting ob) k"
    using assms(2) [of sc "outbox_waiting ob"] same by (cases sc) (simp_all add: k assms(1))
qed

lemma waiting_global:
  assumes "cursor_at singleton_key g = epoch_effect ev (cursor_at singleton_key (ob_global ob))"
    and "(ev, ev') \<in> {(Raised {()} e, Raised (every_shard Scope_global ''global'') e), (Moved {()} e c, Moved (every_shard Scope_global ''global'') e c),
      (Cleared {()} e, Cleared (every_shard Scope_global ''global'') e), (Kept, Kept)}"
  shows "outbox_waiting (ob\<lparr>ob_global := g\<rparr>) = epoch_effect ev' (outbox_waiting ob)"
proof
  fix k :: auth_key3
  obtain sc i s where k: "k = (sc, i, s)" by (cases k)
  show "outbox_waiting (ob\<lparr>ob_global := g\<rparr>) k = epoch_effect ev' (outbox_waiting ob) k"
    using assms by (cases sc) (auto simp: k every_shard_def)
qed

lemma waiting_principals:
  assumes "cursor_at sg_scope_id p = epoch_effect ev (cursor_at sg_scope_id (ob_principals ob))"
    and "(ev, ev') \<in> {(Raised {i} e, Raised (every_shard Scope_principal i) e), (Moved {i} e c, Moved (every_shard Scope_principal i) e c),
      (Cleared {i} e, Cleared (every_shard Scope_principal i) e), (Kept, Kept)}"
  shows "outbox_waiting (ob\<lparr>ob_principals := p\<rparr>) = epoch_effect ev' (outbox_waiting ob)"
proof
  fix k :: auth_key3
  obtain sc j s where k: "k = (sc, j, s)" by (cases k)
  show "outbox_waiting (ob\<lparr>ob_principals := p\<rparr>) k = epoch_effect ev' (outbox_waiting ob) k"
    using assms by (cases sc) (auto simp: k every_shard_def)
qed

lemma outbox_tablesD:
  assumes "outbox_tables ob"
  shows "target_rows (ob_targets ob)" "cursor_rows singleton_key (ob_global ob)" "cursor_rows sg_scope_id (ob_principals ob)"
    "int (length (ob_targets ob)) \<le> CATALOG_AUTH_INVALIDATION_TARGET_LIMIT" "int (length (ob_principals ob)) \<le> CATALOG_AUTH_INVALIDATION_TARGET_LIMIT"
  using assms by (simp_all add: outbox_tables_def)

lemma advanceGlobal_Inr: "advanceGlobal e c n t = Inr t' \<Longrightarrow> cursor_advance singleton_key () e c n n t = Inr t'"
  by (auto simp: advanceGlobal_def rbind_eq_Inr)

lemma advancePrincipal_Inr: "advancePrincipal i e c n t = Inr t' \<Longrightarrow> cursor_advance sg_scope_id i e c (n + 1) n t = Inr t'"
  by (auto simp: advancePrincipal_def rbind_eq_Inr)

lemma deferGlobal_Inr: "deferGlobal e n m t = Inr t' \<Longrightarrow> cursor_defer singleton_key () e n m t = Inr t'"
  by (auto simp: deferGlobal_def rbind_eq_Inr)

lemma deferPrincipal_Inr: "deferPrincipal i e n m t = Inr t' \<Longrightarrow> cursor_defer sg_scope_id i e n m t = Inr t'"
  by (auto simp: deferPrincipal_def rbind_eq_Inr)

lemma completeGlobal_Inr: "completeGlobal e t = Inr t' \<Longrightarrow> t' = sql_delete (at_epoch singleton_key () e) t"
  by (auto simp: completeGlobal_def rbind_eq_Inr)

lemma completePrincipal_Inr: "completePrincipal i e t = Inr t' \<Longrightarrow> t' = sql_delete (at_epoch sg_scope_id i e) t"
  by (auto simp: completePrincipal_def rbind_eq_Inr)

lemma outbox_tables_step:
  assumes "outbox_tables ob" and "auth_outbox_step ob ev ob'"
  shows "outbox_tables ob' \<and> outbox_waiting ob' = epoch_effect ev (outbox_waiting ob)"
  using assms(2)
proof cases
  case (step_enqueueTargets i e shards n rs t)
  note E = enqueued_targets [OF outbox_tablesD(1) [OF assms(1)] step_enqueueTargets(3)]
  show ?thesis unfolding step_enqueueTargets(1,2)
    by (rule conjI [OF _ waiting_targets [OF E(2)]]) (use E(1,3) assms(1) in \<open>auto simp: outbox_tables_def\<close>)
next
  case (step_enqueueGlobal e n g t)
  note E = global_rows.upserted [OF outbox_tablesD(2) [OF assms(1)] enqueueGlobal_upsert [OF step_enqueueGlobal(3), THEN conjunct1], simplified]
  show ?thesis unfolding step_enqueueGlobal(1,2) using E(1) assms(1)
    by (intro conjI waiting_global [where ev = "Raised {()} e" and c = c]) (simp_all add: outbox_tables_def E(2) singleton_key_def)
next
  case (step_enqueuePrincipal i e n g t)
  note U = enqueuePrincipal_upsert [OF step_enqueuePrincipal(3)]
  note E = principal_rows.upserted [OF outbox_tablesD(3) [OF assms(1)] U [THEN conjunct1], simplified]
  have "int (length t) \<le> CATALOG_AUTH_INVALIDATION_TARGET_LIMIT"
    using E(3) U outbox_tablesD(5) [OF assms(1)] by (auto simp: principal_def sql_one_None_iff split: if_splits)
  then show ?thesis unfolding step_enqueuePrincipal(1,2) using E(1) assms(1)
    by (intro conjI waiting_principals [where ev = "Raised {i} e" and c = c]) (simp_all add: outbox_tables_def E(2))
next
  case (step_completeTarget x)
  note E = completed_target [OF outbox_tablesD(1) [OF assms(1)], of x]
  have "outbox_waiting ob' = epoch_effect ev (outbox_waiting ob)" unfolding step_completeTarget(1,2)
    by (rule waiting_targets [OF E(2)]) (use step_completeTarget(3) in \<open>auto simp: target_key_def\<close>)
  then show ?thesis using E(1,3) assms(1) step_completeTarget by (auto simp: outbox_tables_def)
next
  case (step_completeOther x)
  note E = completed_target [OF outbox_tablesD(1) [OF assms(1)], of x]
  have "(Scope_tenant, i, s) \<noteq> target_key x" for i s using step_completeOther(3) by (auto simp: target_key_def)
  then have "outbox_waiting ob' (sc, i, s) = outbox_waiting ob (sc, i, s)" for sc i s
    unfolding step_completeOther(2) by (cases sc) (auto simp: E(2))
  then have "outbox_waiting ob' = epoch_effect ev (outbox_waiting ob)" by (simp add: fun_eq_iff step_completeOther(1))
  then show ?thesis using E(1,3) assms(1) step_completeOther by (auto simp: outbox_tables_def)
next
  case (step_deferTarget x n m t)
  note E = deferred_target [OF outbox_tablesD(1) [OF assms(1)] step_deferTarget(3)]
  have "outbox_waiting ob' = epoch_effect ev (outbox_waiting ob)" unfolding step_deferTarget(1,2)
    by (rule waiting_targets) (simp_all add: E(2))
  then show ?thesis using E(1,3) assms(1) step_deferTarget by (simp add: outbox_tables_def)
next
  case (step_advanceGlobal e c n t)
  note E = global_rows.advanced [OF outbox_tablesD(2) [OF assms(1)] advanceGlobal_Inr [OF step_advanceGlobal(3)] order_refl]
  show ?thesis unfolding step_advanceGlobal(1,2) using E(1) assms(1)
    by (intro conjI waiting_global [where ev = "Moved {()} e c" and c = c]) (simp_all add: outbox_tables_def E(2))
next
  case (step_completeGlobal e t)
  note E = global_rows.completed [OF outbox_tablesD(2) [OF assms(1)], of "()" e, folded completeGlobal_Inr [OF step_completeGlobal(3)]]
  show ?thesis unfolding step_completeGlobal(1,2) using E(1) assms(1)
    by (intro conjI waiting_global [where ev = "Cleared {()} e" and c = c]) (simp_all add: outbox_tables_def E(2))
next
  case (step_deferGlobal e n m t)
  note E = global_rows.deferred [OF outbox_tablesD(2) [OF assms(1)] deferGlobal_Inr [OF step_deferGlobal(3)]]
  show ?thesis unfolding step_deferGlobal(1,2) using E(1) assms(1)
    by (intro conjI waiting_global [where ev = Kept and c = c]) (simp_all add: outbox_tables_def E(2))
next
  case (step_advancePrincipal i e c n t)
  note E = principal_rows.advanced [OF outbox_tablesD(3) [OF assms(1)] advancePrincipal_Inr [OF step_advancePrincipal(3)]]
  show ?thesis unfolding step_advancePrincipal(1,2) using E(1,3) assms(1)
    by (intro conjI waiting_principals [where ev = "Moved {i} e c" and c = c]) (simp_all add: outbox_tables_def E(2))
next
  case (step_completePrincipal i e t)
  note E = principal_rows.completed [OF outbox_tablesD(3) [OF assms(1)], of i e, folded completePrincipal_Inr [OF step_completePrincipal(3)]]
  show ?thesis unfolding step_completePrincipal(1,2) using E(1,3) assms(1)
    by (intro conjI waiting_principals [where ev = "Cleared {i} e" and c = c]) (simp_all add: outbox_tables_def E(2))
next
  case (step_deferPrincipal i e n m t)
  note E = principal_rows.deferred [OF outbox_tablesD(3) [OF assms(1)] deferPrincipal_Inr [OF step_deferPrincipal(3)]]
  show ?thesis unfolding step_deferPrincipal(1,2) using E(1,3) assms(1)
    by (intro conjI waiting_principals [where ev = Kept and c = c]) (simp_all add: outbox_tables_def E(2))
qed

lemma cursor_upsert_rows: "cursor_upsert key new t = Inr t' \<Longrightarrow> r \<in> set t' \<Longrightarrow>
    r = new \<or> r \<in> set t \<or> (\<exists>x \<in> set t. key x = key new \<and> r = raise_cursor (sg_epoch new) (sg_updated_at new) x)"
  by (auto simp: cursor_upsert_def result_simps table_simps split: if_splits)

lemma cursor_advance_rows: "cursor_advance key k e c a n t = Inr t' \<Longrightarrow> r \<in> set t' \<Longrightarrow> r \<in> set t \<or> (\<exists>x \<in> set t. at_epoch key k e x \<and>
    r = x\<lparr>sg_cursor_shard_id := Some c, sg_attempts := 0, sg_next_attempt_at := a, sg_updated_at := n, sg_last_error := None\<rparr>)"
  by (auto simp: cursor_advance_def result_simps table_simps)

lemma cursor_defer_rows: "cursor_defer key k e n m t = Inr t' \<Longrightarrow> r \<in> set t' \<Longrightarrow> r \<in> set t \<or> (\<exists>x \<in> set t. \<exists>a b. at_epoch key k e x \<and>
    r = x\<lparr>sg_attempts := a, sg_next_attempt_at := b, sg_updated_at := n, sg_last_error := stored_error m\<rparr>)"
  by (auto simp: cursor_defer_def Let_def result_simps table_simps split: option.splits)

lemma raised_epoch: "sg_epoch (raise_cursor e n r) = e \<or> sg_epoch (raise_cursor e n r) = sg_epoch r"
  by (simp add: raise_cursor_def)

lemma outbox_values_step:
  assumes "outbox_values ob" and "auth_outbox_step ob ev ob'"
  shows "outbox_values ob'"
  using assms(2)
proof cases
  case (step_enqueueGlobal e n g t)
  note U = enqueueGlobal_upsert [OF step_enqueueGlobal(3), THEN conjunct1]
  have "safe_integer e" using step_enqueueGlobal(3) by (auto simp: enqueueGlobal_def safeEpoch_def result_simps)
  then have "safe_integer (sg_epoch r)" if "r \<in> set t" for r
    using cursor_upsert_rows [OF U that]
  proof (elim disjE bexE conjE)
    fix x assume "x \<in> set (ob_global ob)" and "r = raise_cursor (sg_epoch (new_global e n)) (sg_updated_at (new_global e n)) x"
    then show ?thesis using \<open>safe_integer e\<close> assms(1) by (auto simp: outbox_values_def raise_cursor_def)
  qed (use \<open>safe_integer e\<close> assms(1) in \<open>auto simp: outbox_values_def\<close>)
  then show ?thesis using assms(1) step_enqueueGlobal by (simp add: outbox_values_def)
next
  case (step_enqueuePrincipal i e n g t)
  note U = enqueuePrincipal_upsert [OF step_enqueuePrincipal(3), THEN conjunct1]
  have e: "safe_integer e" "boundedScopeId i = Inr ()" using step_enqueuePrincipal(3) by (auto simp: enqueuePrincipal_def safeEpoch_def result_simps)
  have "safe_integer (sg_epoch r) \<and> boundedScopeId (sg_scope_id r) = Inr ()" if "r \<in> set t" for r
    using cursor_upsert_rows [OF U that]
  proof (elim disjE bexE conjE)
    fix x assume "x \<in> set (ob_principals ob)" and "r = raise_cursor (sg_epoch (new_principal i e n)) (sg_updated_at (new_principal i e n)) x"
    then show ?thesis using e assms(1) raised_epoch [of e n x] principal_rows.raise_key [of e n x] by (auto simp: outbox_values_def)
  qed (use e assms(1) in \<open>auto simp: outbox_values_def\<close>)
  then show ?thesis using assms(1) step_enqueuePrincipal by (simp add: outbox_values_def)
next
  case (step_advanceGlobal e c n t)
  then show ?thesis using assms(1) cursor_advance_rows [OF advanceGlobal_Inr [OF step_advanceGlobal(3)]] by (fastforce simp: outbox_values_def)
next
  case (step_deferGlobal e n m t)
  then show ?thesis using assms(1) cursor_defer_rows [OF deferGlobal_Inr [OF step_deferGlobal(3)]] by (fastforce simp: outbox_values_def)
next
  case (step_advancePrincipal i e c n t)
  then show ?thesis using assms(1) cursor_advance_rows [OF advancePrincipal_Inr [OF step_advancePrincipal(3)]] by (fastforce simp: outbox_values_def)
next
  case (step_deferPrincipal i e n m t)
  then show ?thesis using assms(1) cursor_defer_rows [OF deferPrincipal_Inr [OF step_deferPrincipal(3)]] by (fastforce simp: outbox_values_def)
next
  case (step_completeGlobal e t)
  then show ?thesis using assms(1) completeGlobal_Inr [OF step_completeGlobal(3)] by (simp add: outbox_values_def table_simps)
next
  case (step_completePrincipal i e t)
  then show ?thesis using assms(1) completePrincipal_Inr [OF step_completePrincipal(3)] by (simp add: outbox_values_def table_simps)
qed (use assms(1) in \<open>simp_all add: outbox_values_def\<close>)

interpretation auth_queue: epoch_queue auth_outbox_inv auth_outbox_step outbox_waiting cursor_passed
  by unfold_locales (auto simp: auth_outbox_inv_def outbox_tables_step outbox_values_step)

section \<open>A clock behind the outbox\<close>

text \<open>
  \<open>updated_at\<close> is written without a lower bound, under the constraint \<open>updated_at >= created_at\<close>: a newer epoch cannot be queued over a pending
  row that was created at a later time of the clock.
\<close>

lemma late_clock_refused:
  assumes "safeEpoch e = Inr ()" and "outbox_time n = Inr ()" and "r \<in> set t" and "sg_epoch r < e" and "n < sg_created_at r"
  shows "enqueueGlobal e n t = Inl SqliteError"
proof -
  have "\<not> broadcast_check (raise_cursor e n r)" using assms(4,5) by (simp add: raise_cursor_def broadcast_check_def)
  then have "cursor_upsert singleton_key (new_global e n) t = Inl SqliteError"
    using assms(3) by (auto simp: cursor_upsert_def sql_update_checked_def singleton_key_def)
  then show ?thesis using assms(1,2) by (simp add: enqueueGlobal_def)
qed

end
