(* ===== verification/Auth_Delivery.thy ===== *)
theory Auth_Delivery
  imports Catalog_Auth Recovery_Admission
begin

text \<open>
  How an authentication epoch travels: the Catalog counts and queues it in one transaction and delivers it from its alarm
  (\<open>enqueueAuthInvalidations\<close>, \<open>deliverAuthInvalidations\<close> and their helpers in \<^verbatim>\<open>src/src/server/do/catalog.ts\<close>), a
  shard projects it onto its registrations (\<open>invalidateAuthScope\<close> in \<^verbatim>\<open>src/src/server/do/cdb.ts\<close>). The calls of a delivery
  suspend it between the transaction that reads the outbox and the one that writes it, so the theory also has the Catalog
  and its shards as a system in which these steps interleave.
\<close>

section \<open>Queueing\<close>

record CatalogAuthEpochChange =
  ac_scope :: auth_scope
  ac_scopeId :: string
  ac_epoch :: int

text \<open>The shards of an organization: the owner of its vshard, and both sides of a move that covers it.\<close>

definition tenant_shards :: "string \<Rightarrow> operations \<Rightarrow> catalog_routing \<Rightarrow> string list res \<times> catalog_routing" where
  "tenant_shards scopeId ops =
     sbind (slift (vshardOf [KString scopeId])) (\<lambda>v.
     sbind (route v) (\<lambda>(shard, _). slift (Inr (shard # (case op_active ops of
         Some op \<Rightarrow> if op_rangeLo op \<le> v \<and> v \<le> op_rangeHi op then [op_sourceShard op, op_destinationShard op] else []
       | None \<Rightarrow> [])))))"

type_synonym auth_store = "catalog_routing \<times> catalog_epoch_row list \<times> auth_outbox"

definition on_outbox :: "(auth_outbox \<Rightarrow> auth_outbox res) \<Rightarrow> auth_store \<Rightarrow> unit res \<times> auth_store" where
  "on_outbox f = on_rest (\<lambda>(E, ob). rbind (f ob) (\<lambda>ob'. Inr (E, ob')))"

definition enqueue_change :: "operations \<Rightarrow> int \<Rightarrow> CatalogAuthEpochChange \<Rightarrow> auth_store \<Rightarrow> unit res \<times> auth_store" where
  "enqueue_change ops nowMs ch = (case ac_scope ch of
       Scope_global \<Rightarrow> on_outbox (\<lambda>ob. rbind (enqueueGlobal (ac_epoch ch) nowMs (ob_global ob)) (\<lambda>(_, t). Inr (ob\<lparr>ob_global := t\<rparr>)))
     | Scope_principal \<Rightarrow> on_outbox (\<lambda>ob. rbind (enqueuePrincipal (ac_scopeId ch) (ac_epoch ch) nowMs (ob_principals ob))
         (\<lambda>(_, t). Inr (ob\<lparr>ob_principals := t\<rparr>)))
     | Scope_tenant \<Rightarrow> sbind (on_routing (tenant_shards (ac_scopeId ch) ops)) (\<lambda>shards.
         on_outbox (\<lambda>ob. rbind (enqueueTargets Scope_tenant (ac_scopeId ch) (ac_epoch ch) (remdups shards) nowMs (ob_targets ob))
           (\<lambda>(_, t). Inr (ob\<lparr>ob_targets := t\<rparr>)))))"

fun enqueueAuthInvalidations :: "operations \<Rightarrow> int \<Rightarrow> CatalogAuthEpochChange list \<Rightarrow> auth_store \<Rightarrow> unit res \<times> auth_store" where
  "enqueueAuthInvalidations ops nowMs [] = slift (Inr ())"
| "enqueueAuthInvalidations ops nowMs (ch # chs) = sbind (enqueue_change ops nowMs ch) (\<lambda>_. enqueueAuthInvalidations ops nowMs chs)"

fun bump_scopes :: "(auth_scope \<times> string) list \<Rightarrow> catalog_epoch_row list \<Rightarrow> CatalogAuthEpochChange list \<times> catalog_epoch_row list" where
  "bump_scopes [] E = ([], E)"
| "bump_scopes ((sc, i) # ks) E = (let (e, E1) = bumpCatalogAuthEpoch sc i E; (chs, E2) = bump_scopes ks E1 in
     (\<lparr> ac_scope = sc, ac_scopeId = i, ac_epoch = e \<rparr> # chs, E2))"

text \<open>
  The epochs of one transaction: \<open>mutateAuth\<close> and \<open>incrementAuth\<close> count every scope that their rows belong to and queue the new
  epochs, \<open>bumpAuthEpoch\<close> does it for one scope.
\<close>

definition record_epochs :: "operations \<Rightarrow> int \<Rightarrow> (auth_scope \<times> string) list \<Rightarrow> auth_store \<Rightarrow> CatalogAuthEpochChange list res \<times> auth_store" where
  "record_epochs ops nowMs scopes = transactionSync (\<lambda>(c, E, ob).
     let (chs, E') = bump_scopes scopes E in
     sbind (enqueueAuthInvalidations ops nowMs chs) (\<lambda>_. slift (Inr chs)) (c, E', ob))"

definition bumpAuthEpoch :: "operations \<Rightarrow> int \<Rightarrow> auth_scope \<Rightarrow> string \<Rightarrow> auth_store \<Rightarrow> int res \<times> auth_store" where
  "bumpAuthEpoch ops nowMs scope scopeId =
     sbind (record_epochs ops nowMs [(scope, scopeId)]) (\<lambda>chs. slift (Inr (ac_epoch (hd chs))))"

section \<open>Delivery\<close>

definition globalAuthInvalidationShardPage :: "string option \<Rightarrow> catalog_routing \<Rightarrow> operations \<Rightarrow> string list res" where
  "globalAuthInvalidationShardPage afterExclusive c ops =
     rbind (listShardIdsPage afterExclusive CATALOG_AUTH_INVALIDATION_BATCH_SIZE c) (\<lambda>shardIds.
     let participants = (case op_active ops of None \<Rightarrow> [] | Some op \<Rightarrow> [op_sourceShard op, op_destinationShard op]) in
     Inr (take (nat CATALOG_AUTH_INVALIDATION_BATCH_SIZE) (sort (remdups (shardIds @
       filter (\<lambda>p. case afterExclusive of None \<Rightarrow> True | Some a \<Rightarrow> a < p) participants)))))"

definition assertAuthInvalidationResult :: "CdbAuthInvalidationResult \<Rightarrow> CdbAuthInvalidationRequest \<Rightarrow> unit res" where
  "assertAuthInvalidationResult result request = ensure
     (ai_scope result = ai_scope request \<and> ai_scopeId result = ai_scopeId request \<and> safe_integer (ai_epoch result) \<and>
      ai_epoch request \<le> ai_epoch result \<and> ai_recoveryGeneration result = ai_recoveryGeneration request \<and>
      safe_integer (int (ai_registrations result)) \<and> safe_integer (ai_changeSeq result) \<and> 0 \<le> ai_changeSeq result) (Cdb CDB_INVARIANT)"

text \<open>The outcome of a call: no failure, or the message of the error. The call either raises or answers.\<close>

type_synonym auth_answer = "string + CdbAuthInvalidationResult"

definition call_failure :: "CdbAuthInvalidationRequest \<Rightarrow> auth_answer \<Rightarrow> string option" where
  "call_failure request answer = (case answer of
       Inl message \<Rightarrow> Some message
     | Inr result \<Rightarrow> (case assertAuthInvalidationResult result request of
         Inl _ \<Rightarrow> Some ''Cdb auth invalidation response is invalid'' | Inr _ \<Rightarrow> None))"

definition auth_request :: "auth_scope \<Rightarrow> string \<Rightarrow> int \<Rightarrow> int \<Rightarrow> CdbAuthInvalidationRequest" where
  "auth_request scope scopeId epoch generation =
     \<lparr> ai_scope = scope, ai_scopeId = scopeId, ai_epoch = epoch, ai_recoveryGeneration = generation \<rparr>"

text \<open>A delivery between its two transactions: the rows it read and the shards it calls.\<close>

datatype auth_flight =
    Target_flight int "StoredTarget list"
  | Principal_flight int StoredPrincipal "string list"
  | Global_flight int StoredGlobal "string list"

fun flight_calls :: "auth_flight \<Rightarrow> (string \<times> CdbAuthInvalidationRequest) list" where
  "flight_calls (Target_flight g rs) = map (\<lambda>r. (st_shard_id r, auth_request (st_scope r) (st_scope_id r) (st_epoch r) g)) rs"
| "flight_calls (Principal_flight g r page) = map (\<lambda>s. (s, auth_request Scope_principal (sg_scope_id r) (sg_epoch r) g)) page"
| "flight_calls (Global_flight g r page) = map (\<lambda>s. (s, auth_request Scope_global ''global'' (sg_epoch r) g)) page"

definition begin_targets :: "int \<Rightarrow> int \<Rightarrow> auth_outbox \<Rightarrow> auth_flight res" where
  "begin_targets generation nowMs ob =
     rbind (dueTargets nowMs CATALOG_AUTH_INVALIDATION_BATCH_SIZE (ob_targets ob)) (\<lambda>rs. Inr (Target_flight generation rs))"

definition begin_principal :: "int \<Rightarrow> int \<Rightarrow> catalog_routing \<Rightarrow> operations \<Rightarrow> auth_outbox \<Rightarrow> (auth_flight option \<times> auth_outbox) res" where
  "begin_principal generation nowMs c ops ob =
     rbind (duePrincipal nowMs (ob_principals ob)) (\<lambda>due. case due of
       None \<Rightarrow> Inr (None, ob)
     | Some r \<Rightarrow> rbind (globalAuthInvalidationShardPage (sg_cursor_shard_id r) c ops) (\<lambda>page.
         if page = [] then rbind (completePrincipal (sg_scope_id r) (sg_epoch r) (ob_principals ob)) (\<lambda>t. Inr (None, ob\<lparr>ob_principals := t\<rparr>))
         else Inr (Some (Principal_flight generation r page), ob)))"

definition begin_global :: "int \<Rightarrow> int \<Rightarrow> catalog_routing \<Rightarrow> operations \<Rightarrow> auth_outbox \<Rightarrow> (auth_flight option \<times> auth_outbox) res" where
  "begin_global generation nowMs c ops ob =
     rbind (dueGlobal nowMs (ob_global ob)) (\<lambda>due. case due of
       None \<Rightarrow> Inr (None, ob)
     | Some r \<Rightarrow> rbind (globalAuthInvalidationShardPage (sg_cursor_shard_id r) c ops) (\<lambda>page.
         if page = [] then rbind (completeGlobal (sg_epoch r) (ob_global ob)) (\<lambda>t. Inr (None, ob\<lparr>ob_global := t\<rparr>))
         else Inr (Some (Global_flight generation r page), ob)))"

definition first_failure :: "string option list \<Rightarrow> string option" where
  "first_failure fs = (case filter (\<lambda>f. f \<noteq> None) fs of [] \<Rightarrow> None | f # _ \<Rightarrow> f)"

definition settle_target :: "int \<Rightarrow> StoredTarget \<times> string option \<Rightarrow> StoredTarget list \<Rightarrow> StoredTarget list res" where
  "settle_target nowMs outcome t = (case snd outcome of
       None \<Rightarrow> Inr (completeTarget (fst outcome) t)
     | Some message \<Rightarrow> deferTarget (fst outcome) nowMs message t)"

fun settle_flight :: "int \<Rightarrow> string option list \<Rightarrow> auth_flight \<Rightarrow> auth_outbox \<Rightarrow> auth_outbox res" where
  "settle_flight nowMs failures (Target_flight g rs) ob =
     rbind (rfold (settle_target nowMs) (zip rs failures) (ob_targets ob)) (\<lambda>t. Inr (ob\<lparr>ob_targets := t\<rparr>))"
| "settle_flight nowMs failures (Principal_flight g r page) ob =
     rbind (case first_failure failures of
         Some message \<Rightarrow> deferPrincipal (sg_scope_id r) (sg_epoch r) nowMs message (ob_principals ob)
       | None \<Rightarrow> advancePrincipal (sg_scope_id r) (sg_epoch r) (last page) nowMs (ob_principals ob)) (\<lambda>t. Inr (ob\<lparr>ob_principals := t\<rparr>))"
| "settle_flight nowMs failures (Global_flight g r page) ob =
     rbind (case first_failure failures of
         Some message \<Rightarrow> deferGlobal (sg_epoch r) nowMs message (ob_global ob)
       | None \<Rightarrow> advanceGlobal (sg_epoch r) (last page) nowMs (ob_global ob)) (\<lambda>t. Inr (ob\<lparr>ob_global := t\<rparr>))"

text \<open>
  One delivery with nothing in between, the answers of the calls given by a function. An error is one that the alarm raises; what
  was committed before it stays.
\<close>

definition flight_failures :: "(string \<Rightarrow> CdbAuthInvalidationRequest \<Rightarrow> auth_answer) \<Rightarrow> auth_flight \<Rightarrow> string option list" where
  "flight_failures answer fl = map (\<lambda>(s, q). call_failure q (answer s q)) (flight_calls fl)"

definition complete_flight :: "(string \<Rightarrow> CdbAuthInvalidationRequest \<Rightarrow> auth_answer) \<Rightarrow> int \<Rightarrow> auth_flight option \<times> auth_outbox \<Rightarrow> auth_outbox res" where
  "complete_flight answer nowMs s = (case s of
       (None, ob) \<Rightarrow> Inr ob
     | (Some fl, ob) \<Rightarrow> settle_flight nowMs (flight_failures answer fl) fl ob)"

definition deliverAuthInvalidations :: "int \<Rightarrow> (string \<Rightarrow> CdbAuthInvalidationRequest \<Rightarrow> auth_answer) \<Rightarrow> catalog_routing \<Rightarrow> operations \<Rightarrow>
    int \<Rightarrow> auth_outbox \<Rightarrow> auth_outbox res" where
  "deliverAuthInvalidations generation answer c ops nowMs ob =
     rbind (begin_targets generation nowMs ob) (\<lambda>fl.
     rbind (complete_flight answer nowMs (Some fl, ob)) (\<lambda>ob1.
     rbind (begin_principal generation nowMs c ops ob1) (\<lambda>s.
     rbind (complete_flight answer nowMs s) (\<lambda>ob2.
     rbind (begin_global generation nowMs c ops ob2) (\<lambda>s.
     complete_flight answer nowMs s)))))"

section \<open>The shard\<close>

definition invalidateAuthScope :: "CdbAuthInvalidationRequest \<Rightarrow> int \<Rightarrow> admission \<times> auth_tables \<Rightarrow>
    (CdbAuthInvalidationResult \<times> admission \<times> auth_tables) res" where
  "invalidateAuthScope args nowMs s =
     rbind (assertRequest (ai_recoveryGeneration args) (fst s)) (\<lambda>_.
     rbind (auth_apply args nowMs (snd s)) (\<lambda>(result, t). Inr (result, fst s, t)))"

section \<open>The pages of a broadcast\<close>

definition inventory :: "catalog_routing \<Rightarrow> operations \<Rightarrow> string set" where
  "inventory c ops = shardId ` set (catalog_ranges c) \<union>
     (case op_active ops of None \<Rightarrow> {} | Some op \<Rightarrow> {op_sourceShard op, op_destinationShard op})"

definition beyond :: "string option \<Rightarrow> string set \<Rightarrow> string set" where
  "beyond a I = {s \<in> I. case a of None \<Rightarrow> True | Some x \<Rightarrow> x < s}"

lemma finite_inventory [simp]: "finite (inventory c ops)"
  by (simp add: inventory_def split: option.splits)

lemma finite_beyond [simp]: "finite I \<Longrightarrow> finite (beyond a I)"
  by (simp add: beyond_def)

text \<open>The first \<open>n\<close> of a sorted list are those with fewer than \<open>n\<close> below them.\<close>

lemma in_take_sorted:
  fixes xs :: "'a :: linorder list"
  assumes "sorted xs" and "distinct xs"
  shows "x \<in> set (take n xs) \<longleftrightarrow> x \<in> set xs \<and> card {y \<in> set xs. y < x} < n"
  using assms
proof (induction xs arbitrary: n)
  case (Cons a xs)
  show ?case
  proof (cases n)
    case (Suc m)
    have lt: "a < y" if "y \<in> set xs" for y using Cons.prems that by (auto simp: order.strict_iff_order)
    have "{y \<in> set (a # xs). y < x} = insert a {y \<in> set xs. y < x}" if "x \<in> set xs" using lt [OF that] by auto
    then have "card {y \<in> set (a # xs). y < x} = Suc (card {y \<in> set xs. y < x})" if "x \<in> set xs"
      using that Cons.prems(2) by simp
    moreover have "{y \<in> set (a # xs). y < a} = {}" using lt by (auto dest: less_asym)
    then have "card {y \<in> set (a # xs). y < a} = 0" by (simp only: card.empty)
    ultimately show ?thesis using Cons.IH [of m] Cons.prems Suc by (cases "x = a") (simp_all del: card_eq_0_iff card_0_eq, auto)
  qed simp
qed simp

lemma take_sorted_union:
  fixes A B :: "'a :: linorder set"
  assumes "finite A" and "finite B"
  shows "take n (sorted_list_of_set (set (take n (sorted_list_of_set A)) \<union> B)) = take n (sorted_list_of_set (A \<union> B))"
    (is "take n (sorted_list_of_set ?X) = take n (sorted_list_of_set ?Y)")
proof (rule sorted_distinct_set_unique)
  have fin: "finite ?X" "finite ?Y" and sub: "?X \<subseteq> ?Y" using assms by (auto dest: in_set_takeD)
  have below: "card {y \<in> ?X. y < x} \<le> card {y \<in> ?Y. y < x}" for x using sub fin by (intro card_mono) auto
  show "set (take n (sorted_list_of_set ?X)) = set (take n (sorted_list_of_set ?Y))"
  proof (rule set_eqI)
    fix x
    have "x \<in> ?X \<and> card {y \<in> ?X. y < x} < n \<longleftrightarrow> x \<in> ?Y \<and> card {y \<in> ?Y. y < x} < n"
    proof (intro iffI conjI; elim conjE)
      assume x: "x \<in> ?X" "card {y \<in> ?X. y < x} < n"
      then show "x \<in> ?Y" using sub by blast
      show "card {y \<in> ?Y. y < x} < n"
      proof (cases "{y \<in> ?Y. y < x} \<subseteq> ?X")
        case True
        then have "{y \<in> ?Y. y < x} = {y \<in> ?X. y < x}" using sub by auto
        then show ?thesis using x(2) by simp
      next
        case False
        then obtain y where y: "y \<in> A" "y < x" "y \<notin> set (take n (sorted_list_of_set A))" by auto
        then have many: "n \<le> card {z \<in> A. z < y}" using assms(1) by (simp add: in_take_sorted)
        have "z < x" if "z \<in> set (take n (sorted_list_of_set A))" for z
        proof (rule ccontr)
          assume "\<not> z < x"
          then have "{w \<in> A. w < y} \<subseteq> {w \<in> A. w < z}" using y(2) by auto
          moreover have "finite {w \<in> A. w < z}" using assms(1) by simp
          ultimately have "n \<le> card {w \<in> A. w < z}" using many card_mono order_trans by blast
          then show False using that assms(1) by (simp add: in_take_sorted)
        qed
        then have "set (take n (sorted_list_of_set A)) \<subseteq> {y \<in> ?X. y < x}" by auto
        then have "card (set (take n (sorted_list_of_set A))) \<le> card {y \<in> ?X. y < x}" using fin(1) by (intro card_mono) auto
        moreover have "n \<le> card A" using many card_mono [OF assms(1), of "{z \<in> A. z < y}"] by auto
        then have "card (set (take n (sorted_list_of_set A))) = n" using distinct_card [OF distinct_take, of "sorted_list_of_set A" n] assms(1) by simp
        ultimately show ?thesis using x(2) by simp
      qed
    next
      assume x: "x \<in> ?Y" "card {y \<in> ?Y. y < x} < n"
      show "card {y \<in> ?X. y < x} < n" using below [of x] x(2) by simp
      show "x \<in> ?X"
      proof (cases "x \<in> A")
        case True
        have "card {y \<in> A. y < x} \<le> card {y \<in> ?Y. y < x}" using fin(2) by (intro card_mono) auto
        then show ?thesis using x(2) True assms(1) by (simp add: in_take_sorted)
      qed (use x(1) in simp)
    qed
    then show "x \<in> set (take n (sorted_list_of_set ?X)) \<longleftrightarrow> x \<in> set (take n (sorted_list_of_set ?Y))"
      using fin by (simp only: in_take_sorted sorted_list_of_set.sorted_sorted_key_list_of_set sorted_list_of_set.distinct_sorted_key_list_of_set
          set_sorted_list_of_set)
  qed
qed (auto intro: sorted_wrt_take)

lemma sort_remdups_set: "sort (remdups xs) = sorted_list_of_set (set xs)"
  by (simp add: sorted_list_of_set_sort_remdups)

text \<open>A page is the next 32 shards of the inventory.\<close>

lemma shard_page:
  "globalAuthInvalidationShardPage a c ops = Inr (take 32 (sorted_list_of_set (beyond a (inventory c ops))))"
proof -
  let ?after = "\<lambda>s. case a of None \<Rightarrow> True | Some x \<Rightarrow> x < s"
  let ?A = "set (filter ?after (map shardId (catalog_ranges c)))"
  let ?P = "case op_active ops of None \<Rightarrow> [] | Some op \<Rightarrow> [op_sourceShard op, op_destinationShard op]"
  let ?B = "set (filter ?after ?P)"
  have "?A \<union> ?B = beyond a (inventory c ops)"
    by (auto simp: beyond_def inventory_def split: option.splits)
  then have eq: "take 32 (sorted_list_of_set (set (take 32 (sorted_list_of_set ?A)) \<union> ?B)) = take 32 (sorted_list_of_set (beyond a (inventory c ops)))"
    using take_sorted_union [where A = ?A and B = ?B and n = 32, OF List.finite_set List.finite_set] by (simp only:)
  have "globalAuthInvalidationShardPage a c ops =
      Inr (take 32 (sort (remdups (take 32 (sort (remdups (filter ?after (map shardId (catalog_ranges c))))) @ filter ?after ?P))))"
    by (simp add: globalAuthInvalidationShardPage_def listShardIdsPage_def CATALOG_AUTH_INVALIDATION_BATCH_SIZE_def safe_integer_def
        ensure_def Let_def)
  then show ?thesis unfolding sort_remdups_set set_append eq .
qed

lemma page_reaches:
  assumes "finite I" and "s \<in> beyond a I" and "pg = take n (sorted_list_of_set (beyond a I))" and "0 < n"
  shows "pg \<noteq> [] \<and> (s \<in> set pg \<or> last pg < s)"
proof -
  let ?xs = "sorted_list_of_set (beyond a I)"
  have s: "s \<in> set ?xs" using assms(1,2) by simp
  then have ne: "pg \<noteq> []" using assms(3,4) by (cases ?xs) (auto simp: gr0_conv_Suc)
  moreover have "s \<in> set pg \<or> s \<in> set (drop n ?xs)" using s unfolding assms(3) by (metis Un_iff append_take_drop_id set_append)
  moreover have "last pg < s" if "s \<in> set (drop n ?xs)" "s \<notin> set pg"
  proof -
    have "sorted (pg @ drop n ?xs)" unfolding assms(3) append_take_drop_id by simp
    then have "last pg \<le> s" using that(1) ne by (simp add: sorted_append)
    moreover have "last pg \<noteq> s" using that(2) ne last_in_set by blast
    ultimately show ?thesis by simp
  qed
  ultimately show ?thesis by blast
qed

end
