(* ===== verification/Auth_Fleet.thy ===== *)
theory Auth_Fleet
  imports Auth_Delivery
begin

text \<open>
  The Catalog and its shards together. Deliveries of the Catalog suspend while their calls run, so they interleave with each
  other, with new epochs and with changes of the topology; calls and answers may be lost or late. The theory shows that no
  epoch is lost on the way, and that a broadcast ends when the shards answer.
\<close>

section \<open>The system\<close>

text \<open>
  \<open>af_flights\<close> are the deliveries ever begun, of which any may still write its outcome; \<open>af_answers\<close> are the answers ever given by a shard.
  \<open>af_owed\<close> lists who has to be told: the shards an epoch of an organization was queued for, and for a broadcast the
  shards of the inventory, as long as they stay in it.
\<close>

record auth_fleet =
  af_epochs :: "catalog_epoch_row list"
  af_outbox :: auth_outbox
  af_routing :: catalog_routing
  af_operations :: operations
  af_shards :: "string \<Rightarrow> admission \<times> auth_tables"
  af_flights :: "auth_flight set"
  af_answers :: "(string \<times> CdbAuthInvalidationRequest \<times> CdbAuthInvalidationResult) set"
  af_owed :: "(auth_scope \<times> string \<times> string \<times> int) set"

definition change_shards :: "operations \<Rightarrow> catalog_routing \<Rightarrow> CatalogAuthEpochChange \<Rightarrow> string set" where
  "change_shards ops c ch = (if ac_scope ch = Scope_tenant
     then (case fst (tenant_shards (ac_scopeId ch) ops c) of Inl _ \<Rightarrow> {} | Inr l \<Rightarrow> set l) else inventory c ops)"

definition change_owed :: "operations \<Rightarrow> catalog_routing \<Rightarrow> CatalogAuthEpochChange \<Rightarrow> (auth_scope \<times> string \<times> string \<times> int) set" where
  "change_owed ops c ch = (\<lambda>s. (ac_scope ch, ac_scopeId ch, s, ac_epoch ch)) ` change_shards ops c ch"

definition still_owed :: "string set \<Rightarrow> (auth_scope \<times> string \<times> string \<times> int) set \<Rightarrow> (auth_scope \<times> string \<times> string \<times> int) set" where
  "still_owed I owed = {(sc, i, s, e) \<in> owed. sc = Scope_tenant \<or> s \<in> I}"

definition answered :: "auth_fleet \<Rightarrow> string \<times> CdbAuthInvalidationRequest \<Rightarrow> string option \<Rightarrow> bool" where
  "answered F call failure \<longleftrightarrow> (failure = None \<longrightarrow>
     (\<exists>result. (fst call, snd call, result) \<in> af_answers F \<and> assertAuthInvalidationResult result (snd call) = Inr ()))"

inductive auth_fleet_step :: "auth_fleet \<Rightarrow> auth_fleet \<Rightarrow> bool" where
  fleet_record: "record_epochs (af_operations F) nowMs scopes (af_routing F, af_epochs F, af_outbox F) = (Inr chs, c, E, ob) \<Longrightarrow>
    distinct scopes \<Longrightarrow> \<forall>i. (Scope_global, i) \<in> set scopes \<longrightarrow> i = ''global'' \<Longrightarrow>
    auth_fleet_step F (F\<lparr>af_routing := c, af_epochs := E, af_outbox := ob,
      af_owed := af_owed F \<union> (\<Union>ch \<in> set chs. change_owed (af_operations F) (af_routing F) ch)\<rparr>)"
| fleet_topology: "auth_fleet_step F (F\<lparr>af_routing := c, af_operations := ops, af_owed := still_owed (inventory c ops) (af_owed F)\<rparr>)"
| fleet_targets: "begin_targets g nowMs (af_outbox F) = Inr fl \<Longrightarrow> auth_fleet_step F (F\<lparr>af_flights := insert fl (af_flights F)\<rparr>)"
| fleet_principal: "begin_principal g nowMs (af_routing F) (af_operations F) (af_outbox F) = Inr (fl, ob) \<Longrightarrow>
    auth_fleet_step F (F\<lparr>af_outbox := ob, af_flights := set_option fl \<union> af_flights F\<rparr>)"
| fleet_global: "begin_global g nowMs (af_routing F) (af_operations F) (af_outbox F) = Inr (fl, ob) \<Longrightarrow>
    auth_fleet_step F (F\<lparr>af_outbox := ob, af_flights := set_option fl \<union> af_flights F\<rparr>)"
| fleet_call: "fl \<in> af_flights F \<Longrightarrow> (s, q) \<in> set (flight_calls fl) \<Longrightarrow> invalidateAuthScope q nowMs (af_shards F s) = Inr (result, st) \<Longrightarrow>
    auth_fleet_step F (F\<lparr>af_shards := (af_shards F)(s := st), af_answers := insert (s, q, result) (af_answers F)\<rparr>)"
| fleet_settle: "fl \<in> af_flights F \<Longrightarrow> list_all2 (answered F) (flight_calls fl) failures \<Longrightarrow>
    settle_flight nowMs failures fl (af_outbox F) = Inr ob \<Longrightarrow> auth_fleet_step F (F\<lparr>af_outbox := ob\<rparr>)"
| fleet_live: "af_shards F s = (a, E, L) \<Longrightarrow> live_step L ev L' \<Longrightarrow> auth_fleet_step F (F\<lparr>af_shards := (af_shards F)(s := (a, E, L'))\<rparr>)"
| fleet_gate: "auth_fleet_step F (F\<lparr>af_shards := (af_shards F)(s := (a, snd (af_shards F s)))\<rparr>)"

definition initial_auth_fleet :: "catalog_routing \<Rightarrow> operations \<Rightarrow> auth_fleet" where
  "initial_auth_fleet c ops = \<lparr> af_epochs = [], af_outbox = empty_outbox, af_routing = c, af_operations = ops,
     af_shards = (\<lambda>_. (initial_admission, [], CDB_LIVE_STORE_DDL)), af_flights = {}, af_answers = {}, af_owed = {} \<rparr>"

inductive auth_fleet_reachable :: "auth_fleet \<Rightarrow> bool" where
  auth_fleet_start: "auth_fleet_reachable (initial_auth_fleet c ops)"
| auth_fleet_next: "auth_fleet_reachable F \<Longrightarrow> auth_fleet_step F F' \<Longrightarrow> auth_fleet_reachable F'"

section \<open>Counters\<close>

definition epoch_count :: "catalog_epoch_row list \<Rightarrow> auth_scope \<times> string \<Rightarrow> int" where
  "epoch_count E k = readCatalogEpoch (dbScope (fst k)) (snd k) E"

lemma dbScope_inj [simp]: "dbScope a = dbScope b \<longleftrightarrow> a = b"
  by (cases a; cases b) (simp_all add: dbScope_def)

lemma bump_counts:
  assumes "bumpCatalogAuthEpoch sc i E = (e, E')"
  shows "e = epoch_count E (sc, i) + 1" "epoch_count E' k = (if k = (sc, i) then e else epoch_count E k)"
proof -
  let ?key = "\<lambda>r. (ep_scope r, ep_scope_id r)" and ?k = "(dbScope sc, i)"
  let ?f = "\<lambda>r. r\<lparr>ep_epoch := ep_epoch r + 1\<rparr>"
  define E1 where "E1 = (if \<exists>r \<in> set E. ?key r = ?k then E else E @ [\<lparr> ep_scope = dbScope sc, ep_scope_id = i, ep_epoch = 0 \<rparr>])"
  have E': "E' = sql_update (\<lambda>r. ?key r = ?k) ?f E1" and e: "e = (case sql_one (\<lambda>r. ?key r = ?k) E' of None \<Rightarrow> 1 | Some r \<Rightarrow> ep_epoch r)"
    using assms by (auto simp: bumpCatalogAuthEpoch_def Let_def E1_def)
  have same: "epoch_count E1 k = epoch_count E k" for k
  proof (cases "\<exists>r \<in> set E. ?key r = ?k")
    case False
    then have none: "sql_one (\<lambda>r. ?key r = ?k) E = None" by (simp add: sql_one_None_iff)
    show ?thesis
    proof (cases "k = (sc, i)")
      case True
      then show ?thesis using False none sql_one_append_new [of ?key ?k E "\<lparr> ep_scope = dbScope sc, ep_scope_id = i, ep_epoch = 0 \<rparr>"]
        by (simp add: epoch_count_def readCatalogEpoch_def E1_def)
    next
      case other: False
      have "sql_one (\<lambda>r. ?key r = (dbScope (fst k), snd k)) (E @ [x]) = sql_one (\<lambda>r. ?key r = (dbScope (fst k), snd k)) E"
        if "?key x = ?k" for x
        by (rule sql_one_append_other) (use that other in \<open>auto simp: prod_eq_iff\<close>)
      then show ?thesis by (simp add: epoch_count_def readCatalogEpoch_def E1_def)
    qed
  qed (simp add: E1_def)
  have row: "sql_one (\<lambda>r. ?key r = (a, b)) E' = map_option (\<lambda>r. if ?key r = ?k then ?f r else r) (sql_one (\<lambda>r. ?key r = (a, b)) E1)" for a b
    unfolding E' sql_update_def by (rule sql_one_map) simp
  have "\<exists>r \<in> set E1. ?key r = ?k" by (auto simp: E1_def)
  then obtain r where r: "sql_one (\<lambda>r. ?key r = ?k) E1 = Some r" "?key r = ?k"
    using sql_one_None_iff [of "\<lambda>r. ?key r = ?k" E1] sql_one_SomeD by fastforce
  show e1: "e = epoch_count E (sc, i) + 1"
    unfolding same [symmetric] using r row [of "dbScope sc" i] by (simp add: e epoch_count_def readCatalogEpoch_def)
  show "epoch_count E' k = (if k = (sc, i) then e else epoch_count E k)"
  proof (cases "k = (sc, i)")
    case True
    then show ?thesis using r row [of "dbScope sc" i] by (simp add: e epoch_count_def readCatalogEpoch_def)
  next
    case False
    have "epoch_count E' k = epoch_count E1 k"
      using row [of "dbScope (fst k)" "snd k"] False
      by (cases "sql_one (\<lambda>r. ?key r = (dbScope (fst k), snd k)) E1") (auto simp: epoch_count_def readCatalogEpoch_def prod_eq_iff dest!: sql_one_SomeD)
    then show ?thesis using False same by simp
  qed
qed

abbreviation change_key :: "CatalogAuthEpochChange \<Rightarrow> auth_scope \<times> string" where
  "change_key ch \<equiv> (ac_scope ch, ac_scopeId ch)"

lemma bump_scopes_counts:
  "bump_scopes scopes E = (chs, E') \<Longrightarrow> distinct scopes \<Longrightarrow>
    map change_key chs = scopes \<and> (\<forall>ch \<in> set chs. ac_epoch ch = epoch_count E (change_key ch) + 1) \<and>
    (\<forall>k. epoch_count E' k = epoch_count E k + (if k \<in> set scopes then 1 else 0))"
proof (induction scopes E arbitrary: chs E' rule: bump_scopes.induct)
  case (2 sc i ks E)
  obtain e E1 where b: "bumpCatalogAuthEpoch sc i E = (e, E1)" by fastforce
  obtain cs where r: "bump_scopes ks E1 = (cs, E')" and chs: "chs = \<lparr> ac_scope = sc, ac_scopeId = i, ac_epoch = e \<rparr> # cs"
    using 2(2) b by (auto split: prod.splits)
  note B = bump_counts [OF b]
  have IH: "map change_key cs = ks" "\<forall>ch \<in> set cs. ac_epoch ch = epoch_count E1 (change_key ch) + 1"
      "\<forall>k. epoch_count E' k = epoch_count E1 k + (if k \<in> set ks then 1 else 0)"
    using 2(1) [OF b [symmetric] refl r] 2(3) by simp_all
  have "change_key ch \<noteq> (sc, i)" if "ch \<in> set cs" for ch using that IH(1) 2(3) by force
  then show ?case using IH B 2(3) by (auto simp: chs)
qed simp

section \<open>One transaction of epochs\<close>

text \<open>Whoever an epoch is owed to has accepted it (\<open>told\<close>), or is still waited for.\<close>

definition covered :: "(auth_scope \<Rightarrow> string \<Rightarrow> string \<Rightarrow> int \<Rightarrow> bool) \<Rightarrow> (auth_scope \<times> string \<times> string \<times> int) set \<Rightarrow> auth_outbox \<Rightarrow> bool" where
  "covered told owed ob \<longleftrightarrow> auth_outbox_inv ob \<and>
     (\<forall>(sc, i, s, e) \<in> owed. told sc i s e \<or> awaits cursor_passed (outbox_waiting ob) (sc, i, s) e)"

definition bounded_by :: "(auth_scope \<times> string \<Rightarrow> int) \<Rightarrow> auth_outbox \<Rightarrow> bool" where
  "bounded_by n ob \<longleftrightarrow> (\<forall>sc i s e c. outbox_waiting ob (sc, i, s) = Some (e, c) \<longrightarrow> e \<le> n (sc, i))"

lemma coveredD:
  "covered told owed ob \<Longrightarrow> (sc, i, s, e) \<in> owed \<Longrightarrow> told sc i s e \<or> awaits cursor_passed (outbox_waiting ob) (sc, i, s) e"
  by (auto simp: covered_def)

lemma bounded_byD: "bounded_by n ob \<Longrightarrow> outbox_waiting ob (sc, i, s) = Some (e, c) \<Longrightarrow> e \<le> n (sc, i)"
  unfolding bounded_by_def by blast

lemma step_covered:
  assumes "covered told owed ob" and "auth_outbox_step ob ev ob'"
    and "\<And>sc i s e. (sc, i, s, e) \<in> owed \<Longrightarrow> lets_go cursor_passed ev (sc, i, s) e \<Longrightarrow> told sc i s e"
  shows "covered told owed ob'"
proof -
  have inv: "auth_outbox_inv ob" using assms(1) by (simp add: covered_def)
  have "told sc i s e \<or> awaits cursor_passed (outbox_waiting ob') (sc, i, s) e" if "(sc, i, s, e) \<in> owed" for sc i s e
    using coveredD [OF assms(1) that] auth_queue.still_awaits [OF inv assms(2), of "(sc, i, s)" e] assms(3) [OF that] by blast
  then show ?thesis using auth_queue.keeps_inv [OF inv assms(2)] by (auto simp: covered_def)
qed

lemma step_bounded:
  assumes "auth_outbox_inv ob" and "bounded_by n ob" and "auth_outbox_step ob ev ob'"
    and "\<And>K e sc i s. ev = Raised K e \<Longrightarrow> (sc, i, s) \<in> K \<Longrightarrow> e \<le> n (sc, i)"
  shows "bounded_by n ob'"
  unfolding bounded_by_def
proof (intro allI impI)
  fix sc i s e c
  assume "outbox_waiting ob' (sc, i, s) = Some (e, c)"
  then show "e \<le> n (sc, i)"
    by (rule auth_queue.epoch_bound [OF assms(1,3)]) (use bounded_byD [OF assms(2)] assms(4) in auto)
qed

definition same_routing :: "operations \<Rightarrow> catalog_routing \<Rightarrow> catalog_routing \<Rightarrow> bool" where
  "same_routing ops c c' \<longleftrightarrow> catalog_ranges c' = catalog_ranges c \<and> (\<forall>i. fst (tenant_shards i ops c') = fst (tenant_shards i ops c))"

lemma same_routing_simps:
  "same_routing ops c c" "same_routing ops c c' \<Longrightarrow> same_routing ops c' c'' \<Longrightarrow> same_routing ops c c''"
  "same_routing ops c c' \<Longrightarrow> change_shards ops c' ch = change_shards ops c ch"
  "same_routing ops c c' \<Longrightarrow> inventory c' ops = inventory c ops"
  by (simp_all add: same_routing_def change_shards_def inventory_def)

text \<open>Reading a route fills the cache and changes nothing else.\<close>

lemma map_cached: "catalog_ranges (snd (catalog_map c)) = catalog_ranges c" "fst (catalog_map (snd (catalog_map c))) = fst (catalog_map c)"
    "readSchemaEpoch (snd (catalog_map c)) = readSchemaEpoch c"
  by (auto simp: catalog_map_def readSchemaEpoch_def split: option.splits sum.splits)

lemma route_read: "fst (route v c) = rbind (fst (catalog_map c)) (\<lambda>m. rbind (routeVshard m v) (\<lambda>s. Inr (s, readSchemaEpoch (snd (catalog_map c)))))"
    "snd (route v c) = snd (catalog_map c)"
  by (auto simp: route_def sbind_def slift_def split: prod.splits sum.splits)

lemma tenant_shards_cached: "snd (tenant_shards i ops c) = c \<or> snd (tenant_shards i ops c) = snd (catalog_map c)"
  using route_read(2) by (auto simp: tenant_shards_def sbind_def slift_def split: prod.splits sum.splits) (metis snd_conv)+

lemma tenant_shards_result: "fst (tenant_shards i ops c) = rbind (vshardOf [KString i]) (\<lambda>v. rbind (fst (route v c)) (\<lambda>(shard, _).
    Inr (shard # (case op_active ops of Some op \<Rightarrow> if op_rangeLo op \<le> v \<and> v \<le> op_rangeHi op then [op_sourceShard op, op_destinationShard op] else []
       | None \<Rightarrow> []))))"
  by (auto simp: tenant_shards_def sbind_def slift_def split: prod.splits sum.splits)

lemma tenant_shards_same: "same_routing ops c (snd (tenant_shards i ops c))"
proof -
  have "fst (route v (snd (catalog_map c))) = rbind (fst (catalog_map c)) (\<lambda>m. rbind (routeVshard m v) (\<lambda>s. Inr (s, readSchemaEpoch (snd (catalog_map (snd (catalog_map c)))))))" for v
    by (simp add: route_read map_cached(2))
  then have "fst (route v (snd (catalog_map c))) = fst (route v c)" for v by (simp add: route_read map_cached(3))
  then have "same_routing ops c (snd (catalog_map c))" by (simp add: same_routing_def tenant_shards_result map_cached(1))
  then show ?thesis using tenant_shards_cached [of i ops c] same_routing_simps(1) by auto
qed

lemma enqueue_change_raises:
  assumes "enqueue_change ops nowMs ch (c, E, ob) = (Inr u, c', E', ob')" and "ac_scope ch = Scope_global \<longrightarrow> ac_scopeId ch = ''global''"
  shows "E' = E \<and> same_routing ops c c' \<and> (\<exists>K. auth_outbox_step ob (Raised K (ac_epoch ch)) ob' \<and>
    (\<forall>k \<in> K. fst k = ac_scope ch \<and> fst (snd k) = ac_scopeId ch) \<and> (\<forall>s \<in> change_shards ops c ch. (ac_scope ch, ac_scopeId ch, s) \<in> K))"
proof (cases "ac_scope ch")
  case Scope_global
  then obtain g t where "enqueueGlobal (ac_epoch ch) nowMs (ob_global ob) = Inr (g, t)" "ob' = ob\<lparr>ob_global := t\<rparr>" "E' = E" "c' = c"
    using assms(1) by (auto simp: enqueue_change_def on_outbox_def on_rest_def rbind_eq_Inr split: sum.splits)
  then show ?thesis using Scope_global assms(2) same_routing_simps(1) step_enqueueGlobal by (fastforce simp: every_shard_def)
next
  case Scope_principal
  then obtain g t where "enqueuePrincipal (ac_scopeId ch) (ac_epoch ch) nowMs (ob_principals ob) = Inr (g, t)" "ob' = ob\<lparr>ob_principals := t\<rparr>"
      "E' = E" "c' = c"
    using assms(1) by (auto simp: enqueue_change_def on_outbox_def on_rest_def rbind_eq_Inr split: sum.splits)
  then show ?thesis using Scope_principal same_routing_simps(1) step_enqueuePrincipal by (fastforce simp: every_shard_def)
next
  case Scope_tenant
  then obtain l rs t where l: "tenant_shards (ac_scopeId ch) ops c = (Inr l, c')"
    and t: "enqueueTargets Scope_tenant (ac_scopeId ch) (ac_epoch ch) (remdups l) nowMs (ob_targets ob) = Inr (rs, t)"
    and out: "ob' = ob\<lparr>ob_targets := t\<rparr>" "E' = E"
    using assms(1) by (auto simp: enqueue_change_def on_outbox_def on_rest_def on_routing_def sbind_def rbind_eq_Inr split: sum.splits prod.splits)
  have "same_routing ops c c'" using tenant_shards_same [of ops c "ac_scopeId ch"] l by simp
  moreover have "change_shards ops c ch = set l" using Scope_tenant l by (simp add: change_shards_def)
  ultimately show ?thesis using step_enqueueTargets [OF t] out Scope_tenant by (auto simp del: set_remdups) auto
qed

lemma enqueue_changes:
  assumes "enqueueAuthInvalidations ops nowMs chs (c, E, ob) = (Inr u, c', E', ob')" and "distinct (map change_key chs)"
    and "\<forall>ch \<in> set chs. ac_scope ch = Scope_global \<longrightarrow> ac_scopeId ch = ''global''"
    and "covered told owed ob" and "bounded_by n ob" and "\<forall>ch \<in> set chs. ac_epoch ch = n (change_key ch) + 1"
  shows "E' = E \<and> same_routing ops c c' \<and> covered told (owed \<union> (\<Union>ch \<in> set chs. change_owed ops c ch)) ob' \<and>
    bounded_by (\<lambda>k. n k + (if k \<in> change_key ` set chs then 1 else 0)) ob'"
  using assms
proof (induction chs arbitrary: c ob owed n)
  case Nil
  then show ?case by (simp add: slift_def same_routing_simps(1))
next
  case (Cons ch chs)
  obtain c1 E1 ob1 where one: "enqueue_change ops nowMs ch (c, E, ob) = (Inr (), c1, E1, ob1)"
    and rest: "enqueueAuthInvalidations ops nowMs chs (c1, E1, ob1) = (Inr u, c', E', ob')"
    using Cons.prems(1) by (auto simp: sbind_def split: sum.splits prod.splits)
  obtain K where E1: "E1 = E" and c1: "same_routing ops c c1" and K: "auth_outbox_step ob (Raised K (ac_epoch ch)) ob1"
      "\<forall>k \<in> K. fst k = ac_scope ch \<and> fst (snd k) = ac_scopeId ch" "\<forall>s \<in> change_shards ops c ch. (ac_scope ch, ac_scopeId ch, s) \<in> K"
    using enqueue_change_raises [OF one] Cons.prems(3) by auto
  have inv: "auth_outbox_inv ob" using Cons.prems(4) by (simp add: covered_def)
  define n1 where "n1 = (\<lambda>k. n k + (if k = change_key ch then 1 else 0))"
  have e: "ac_epoch ch = n (change_key ch) + 1" using Cons.prems(6) by simp
  have "covered told owed ob1" by (rule step_covered [OF Cons.prems(4) K(1)]) simp
  moreover have "awaits cursor_passed (outbox_waiting ob1) (ac_scope ch, ac_scopeId ch, s) (ac_epoch ch)" if "s \<in> change_shards ops c ch" for s
    by (rule auth_queue.raised_awaits [OF inv K(1)]) (use K(3) that bounded_byD [OF Cons.prems(5)] e in force)+
  ultimately have cov: "covered told (owed \<union> change_owed ops c ch) ob1" by (auto simp: covered_def change_owed_def)
  have "bounded_by n1 ob" using Cons.prems(5) by (fastforce simp: bounded_by_def n1_def)
  then have bnd: "bounded_by n1 ob1" by (rule step_bounded [OF inv _ K(1)]) (use K(2) e in \<open>auto simp: n1_def\<close>)
  have "\<forall>x \<in> set chs. ac_epoch x = n1 (change_key x) + 1"
    using Cons.prems(2,6) by (auto simp: n1_def rev_image_eqI)
  then have IH: "E' = E \<and> same_routing ops c1 c' \<and> covered told ((owed \<union> change_owed ops c ch) \<union> (\<Union>x \<in> set chs. change_owed ops c1 x)) ob' \<and>
      bounded_by (\<lambda>k. n1 k + (if k \<in> change_key ` set chs then 1 else 0)) ob'"
    using Cons.IH [OF rest [unfolded E1] _ _ cov bnd] Cons.prems(2,3) by simp
  have "change_owed ops c1 x = change_owed ops c x" for x using same_routing_simps(3) [OF c1] by (simp add: change_owed_def)
  then have "(owed \<union> change_owed ops c ch) \<union> (\<Union>x \<in> set chs. change_owed ops c1 x) = owed \<union> (\<Union>x \<in> set (ch # chs). change_owed ops c x)" by auto
  moreover have "(\<lambda>k. n1 k + (if k \<in> change_key ` set chs then 1 else 0)) = (\<lambda>k. n k + (if k \<in> change_key ` set (ch # chs) then 1 else 0))"
    using Cons.prems(2) by (auto simp: n1_def fun_eq_iff)
  ultimately show ?case using IH same_routing_simps(2) [OF c1] by simp
qed

lemma record_epochs_Inr:
  assumes "record_epochs ops nowMs scopes (c, E, ob) = (Inr chs, c', E', ob')"
  shows "bump_scopes scopes E = (chs, snd (bump_scopes scopes E)) \<and>
    enqueueAuthInvalidations ops nowMs chs (c, snd (bump_scopes scopes E), ob) = (Inr (), c', E', ob')"
  using assms by (auto simp: record_epochs_def transactionSync_def sbind_def slift_def split: prod.splits sum.splits)

lemma recorded:
  assumes "record_epochs ops nowMs scopes (c, E, ob) = (Inr chs, c', E', ob')" and "distinct scopes"
    and "\<forall>i. (Scope_global, i) \<in> set scopes \<longrightarrow> i = ''global''" and "covered told owed ob" and "bounded_by (epoch_count E) ob"
  shows "same_routing ops c c'" "covered told (owed \<union> (\<Union>ch \<in> set chs. change_owed ops c ch)) ob'" "bounded_by (epoch_count E') ob'"
    "epoch_count E k \<le> epoch_count E' k" "\<forall>ch \<in> set chs. ac_epoch ch = epoch_count E (change_key ch) + 1 \<and> ac_epoch ch = epoch_count E' (change_key ch)"
proof -
  define E1 where "E1 = snd (bump_scopes scopes E)"
  have b: "bump_scopes scopes E = (chs, E1)" and enq: "enqueueAuthInvalidations ops nowMs chs (c, E1, ob) = (Inr (), c', E', ob')"
    using record_epochs_Inr [OF assms(1)] by (simp_all add: E1_def)
  note B = bump_scopes_counts [OF b assms(2)]
  have keys: "change_key ` set chs = set scopes" using B by (metis list.set_map)
  have "\<forall>ch \<in> set chs. ac_scope ch = Scope_global \<longrightarrow> ac_scopeId ch = ''global''"
    using assms(3) keys by force
  note R = enqueue_changes [OF enq _ this assms(4,5)]
  have R': "E' = E1 \<and> same_routing ops c c' \<and> covered told (owed \<union> (\<Union>ch \<in> set chs. change_owed ops c ch)) ob' \<and>
      bounded_by (\<lambda>k. epoch_count E k + (if k \<in> change_key ` set chs then 1 else 0)) ob'"
    by (rule R) (use B assms(2) in simp_all)
  have count: "epoch_count E' k = epoch_count E k + (if k \<in> set scopes then 1 else 0)" for k using B R' by (cases k) simp
  show "same_routing ops c c'" "covered told (owed \<union> (\<Union>ch \<in> set chs. change_owed ops c ch)) ob'" using R' by simp_all
  have "(\<lambda>k. epoch_count E k + (if k \<in> change_key ` set chs then 1 else 0)) = epoch_count E'"
    by (rule ext) (simp only: keys count)
  then show "bounded_by (epoch_count E') ob'" using R' by metis
  show "epoch_count E k \<le> epoch_count E' k" by (simp add: count)
  show "\<forall>ch \<in> set chs. ac_epoch ch = epoch_count E (change_key ch) + 1 \<and> ac_epoch ch = epoch_count E' (change_key ch)"
    using B keys by (auto simp: count)
qed

section \<open>The invariant\<close>

definition accepted :: "auth_fleet \<Rightarrow> auth_scope \<Rightarrow> string \<Rightarrow> string \<Rightarrow> int \<Rightarrow> bool" where
  "accepted F sc i s e \<longleftrightarrow> (\<exists>q result. (s, q, result) \<in> af_answers F \<and> ai_scope q = sc \<and> ai_scopeId q = i \<and> e \<le> ai_epoch q)"

definition projected :: "CdbAuthInvalidationRequest \<Rightarrow> CdbAuthInvalidationResult \<Rightarrow> bool" where
  "projected q result \<longleftrightarrow> (\<exists>t nowMs t'. auth_run t \<and> auth_apply q nowMs t = Inr (result, t'))"

definition fleet_count :: "auth_fleet \<Rightarrow> auth_scope \<times> string \<Rightarrow> int" where
  "fleet_count F = epoch_count (af_epochs F)"

lemma fleet_count_frame [simp]: "fleet_count (F\<lparr>af_outbox := a\<rparr>) = fleet_count F" "fleet_count (F\<lparr>af_routing := b\<rparr>) = fleet_count F"
    "fleet_count (F\<lparr>af_operations := c\<rparr>) = fleet_count F" "fleet_count (F\<lparr>af_shards := d\<rparr>) = fleet_count F"
    "fleet_count (F\<lparr>af_flights := x\<rparr>) = fleet_count F" "fleet_count (F\<lparr>af_answers := y\<rparr>) = fleet_count F" "fleet_count (F\<lparr>af_owed := z\<rparr>) = fleet_count F"
    "fleet_count (F\<lparr>af_epochs := u\<rparr>) = epoch_count u"
  by (simp_all add: fleet_count_def)

lemma accepted_frame [simp]: "accepted (F\<lparr>af_outbox := a\<rparr>) = accepted F" "accepted (F\<lparr>af_routing := b\<rparr>) = accepted F"
    "accepted (F\<lparr>af_operations := c\<rparr>) = accepted F" "accepted (F\<lparr>af_shards := d\<rparr>) = accepted F" "accepted (F\<lparr>af_flights := x\<rparr>) = accepted F"
    "accepted (F\<lparr>af_epochs := y\<rparr>) = accepted F" "accepted (F\<lparr>af_owed := z\<rparr>) = accepted F"
  by (simp_all add: accepted_def fun_eq_iff)

text \<open>A broadcast in flight: whoever is owed an epoch it carries has accepted it, is on the page, or comes after the page.\<close>

definition page_ok :: "auth_fleet \<Rightarrow> auth_scope \<Rightarrow> string \<Rightarrow> int \<Rightarrow> string list \<Rightarrow> bool" where
  "page_ok F sc i epoch page \<longleftrightarrow> page \<noteq> [] \<and> epoch \<le> fleet_count F (sc, i) \<and>
     (\<forall>s e. (sc, i, s, e) \<in> af_owed F \<longrightarrow> e \<le> epoch \<longrightarrow> accepted F sc i s e \<or> s \<in> set page \<or> last page < s)"

fun flight_ok :: "auth_fleet \<Rightarrow> auth_flight \<Rightarrow> bool" where
  "flight_ok F (Target_flight g rs) = True"
| "flight_ok F (Principal_flight g r page) = page_ok F Scope_principal (sg_scope_id r) (sg_epoch r) page"
| "flight_ok F (Global_flight g r page) = page_ok F Scope_global ''global'' (sg_epoch r) page"

definition auth_fleet_inv :: "auth_fleet \<Rightarrow> bool" where
  "auth_fleet_inv F \<longleftrightarrow> covered (accepted F) (af_owed F) (af_outbox F) \<and> bounded_by (fleet_count F) (af_outbox F) \<and>
     (\<forall>(sc, i, s, e) \<in> af_owed F. e \<le> fleet_count F (sc, i) \<and> (sc \<noteq> Scope_tenant \<longrightarrow> s \<in> inventory (af_routing F) (af_operations F))) \<and>
     (\<forall>fl \<in> af_flights F. flight_ok F fl) \<and> (\<forall>s. auth_run (snd (af_shards F s))) \<and> (\<forall>(s, q, result) \<in> af_answers F. projected q result)"

lemma auth_fleet_invD:
  assumes "auth_fleet_inv F"
  shows "covered (accepted F) (af_owed F) (af_outbox F)" "bounded_by (fleet_count F) (af_outbox F)" "auth_outbox_inv (af_outbox F)"
    "(sc, i, s, e) \<in> af_owed F \<Longrightarrow> e \<le> fleet_count F (sc, i)"
    "(sc, i, s, e) \<in> af_owed F \<Longrightarrow> sc \<noteq> Scope_tenant \<Longrightarrow> s \<in> inventory (af_routing F) (af_operations F)"
    "fl \<in> af_flights F \<Longrightarrow> flight_ok F fl" "auth_run (snd (af_shards F x))" "(x, q, result) \<in> af_answers F \<Longrightarrow> projected q result"
  using assms by (auto simp: auth_fleet_inv_def covered_def)

text \<open>What is in flight stays in order when answers come in, counters grow and the obligations shrink or are newer.\<close>

lemma flight_kept:
  assumes "flight_ok F fl" and "\<And>sc i s e. accepted F sc i s e \<Longrightarrow> accepted F' sc i s e" and "\<And>k. fleet_count F k \<le> fleet_count F' k"
    and "\<And>sc i s e. (sc, i, s, e) \<in> af_owed F' \<Longrightarrow> (sc, i, s, e) \<in> af_owed F \<or> fleet_count F (sc, i) < e"
  shows "flight_ok F' fl"
proof -
  have "page_ok F' sc i epoch page" if ok: "page_ok F sc i epoch page" for sc i epoch page
    unfolding page_ok_def
  proof (intro conjI allI impI)
    show "page \<noteq> []" "epoch \<le> fleet_count F' (sc, i)" using ok assms(3) [of "(sc, i)"] by (auto simp: page_ok_def)
    fix s e assume "(sc, i, s, e) \<in> af_owed F'" "e \<le> epoch"
    then have "(sc, i, s, e) \<in> af_owed F" using assms(4) ok by (fastforce simp: page_ok_def)
    then have "accepted F sc i s e \<or> s \<in> set page \<or> last page < s" using ok \<open>e \<le> epoch\<close> by (simp add: page_ok_def)
    then show "accepted F' sc i s e \<or> s \<in> set page \<or> last page < s" using assms(2) by blast
  qed
  then show ?thesis using assms(1) by (cases fl) simp_all
qed

lemma covered_mono: "covered told owed ob \<Longrightarrow> (\<And>sc i s e. told sc i s e \<Longrightarrow> told' sc i s e) \<Longrightarrow> owed' \<subseteq> owed \<Longrightarrow> covered told' owed' ob"
  unfolding covered_def by blast

text \<open>The obligations do not change: only the outbox moves, by one step.\<close>

lemma inv_outbox_step:
  assumes "auth_fleet_inv F" and "auth_outbox_step (af_outbox F) ev ob" and "\<And>K e. ev \<noteq> Raised K e"
    and "\<And>sc i s e. (sc, i, s, e) \<in> af_owed F \<Longrightarrow> lets_go cursor_passed ev (sc, i, s) e \<Longrightarrow> accepted F sc i s e"
  shows "auth_fleet_inv (F\<lparr>af_outbox := ob\<rparr>)"
proof -
  let ?F = "F\<lparr>af_outbox := ob\<rparr>"
  have "covered (accepted F) (af_owed F) ob" by (rule step_covered [OF auth_fleet_invD(1) [OF assms(1)] assms(2,4)])
  moreover have "bounded_by (fleet_count F) ob"
    by (rule step_bounded [OF auth_fleet_invD(3,2) [OF assms(1)] assms(2)]) (use assms(3) in blast)
  moreover have "flight_ok ?F fl" if "fl \<in> af_flights F" for fl
    by (rule flight_kept [OF auth_fleet_invD(6) [OF assms(1) that]]) simp_all
  ultimately show ?thesis using assms(1) by (simp add: auth_fleet_inv_def)
qed

text \<open>A row that is read, and what the cursor of it has not passed.\<close>

lemma cursor_row_waiting:
  "distinct (map key t) \<Longrightarrow> r \<in> set t \<Longrightarrow> cursor_at key t (key r) = Some (sg_epoch r, sg_cursor_shard_id r)"
  by (simp add: cursor_at_def sql_one_unique)

lemma duePrincipal_row: "duePrincipal n t = Inr (Some r) \<Longrightarrow> r \<in> set t \<and> sg_next_attempt_at r \<le> n"
proof -
  assume "duePrincipal n t = Inr (Some r)"
  then obtain rs where "sort_key sg_next_attempt_at (sort_key sg_scope_id (filter (\<lambda>r. sg_next_attempt_at r \<le> n) t)) = r # rs"
    by (auto simp: duePrincipal_def rbind_eq_Inr split: list.splits)
  then have "r \<in> set (sort_key sg_next_attempt_at (sort_key sg_scope_id (filter (\<lambda>r. sg_next_attempt_at r \<le> n) t)))" by simp
  then show ?thesis by simp
qed

lemma dueGlobal_row: "dueGlobal n t = Inr (Some r) \<Longrightarrow> r \<in> set t \<and> sg_next_attempt_at r \<le> n"
  by (auto simp: dueGlobal_def rbind_eq_Inr dest: sql_one_SomeD)

lemma begun_page:
  assumes "auth_fleet_inv F" and "sc \<noteq> Scope_tenant" and "\<And>s. outbox_waiting (af_outbox F) (sc, i, s) = Some (epoch, cursor)"
    and "globalAuthInvalidationShardPage cursor (af_routing F) (af_operations F) = Inr page"
  shows "if page = [] then (\<forall>s e. (sc, i, s, e) \<in> af_owed F \<longrightarrow> e \<le> epoch \<longrightarrow> accepted F sc i s e) else page_ok F sc i epoch page"
proof -
  let ?I = "inventory (af_routing F) (af_operations F)"
  have page: "page = take 32 (sorted_list_of_set (beyond cursor ?I))" using assms(4) by (simp add: shard_page)
  have reach: "accepted F sc i s e \<or> page \<noteq> [] \<and> (s \<in> set page \<or> last page < s)" if s: "(sc, i, s, e) \<in> af_owed F" "e \<le> epoch" for s e
  proof (cases "accepted F sc i s e")
    case False
    then have "awaits cursor_passed (outbox_waiting (af_outbox F)) (sc, i, s) e" using coveredD [OF auth_fleet_invD(1) [OF assms(1)] s(1)] by simp
    then have "s \<in> beyond cursor ?I"
      using assms(3) auth_fleet_invD(5) [OF assms(1) s(1) assms(2)] by (auto simp: awaits_def beyond_def cursor_passed_def split: option.splits)
    then show ?thesis using page_reaches [OF finite_inventory _ page] by simp
  qed simp
  have "epoch \<le> fleet_count F (sc, i)" using bounded_byD [OF auth_fleet_invD(2) [OF assms(1)] assms(3)] by simp
  then show ?thesis using reach by (auto simp: page_ok_def)
qed

section \<open>Preservation\<close>

lemma inv_flight:
  assumes "auth_fleet_inv F" and "flight_ok F fl"
  shows "auth_fleet_inv (F\<lparr>af_flights := insert fl (af_flights F)\<rparr>)"
proof -
  let ?F = "F\<lparr>af_flights := insert fl (af_flights F)\<rparr>"
  have "flight_ok ?F x" if "flight_ok F x" for x by (rule flight_kept [OF that]) simp_all
  then show ?thesis using assms by (simp add: auth_fleet_inv_def)
qed

lemma inv_record:
  assumes "auth_fleet_inv F" and "record_epochs (af_operations F) nowMs scopes (af_routing F, af_epochs F, af_outbox F) = (Inr chs, c, E, ob)"
    and "distinct scopes" and "\<forall>i. (Scope_global, i) \<in> set scopes \<longrightarrow> i = ''global''"
  shows "auth_fleet_inv (F\<lparr>af_routing := c, af_epochs := E, af_outbox := ob,
    af_owed := af_owed F \<union> (\<Union>ch \<in> set chs. change_owed (af_operations F) (af_routing F) ch)\<rparr>)" (is "auth_fleet_inv ?F")
proof -
  note R = recorded [OF assms(2-4) auth_fleet_invD(1) [OF assms(1)] auth_fleet_invD(2) [OF assms(1), unfolded fleet_count_def]]
  have mono: "fleet_count F k \<le> epoch_count E k" for k using R(4) by (simp add: fleet_count_def)
  have inv: "inventory c (af_operations F) = inventory (af_routing F) (af_operations F)" by (rule same_routing_simps(4) [OF R(1)])
  have new: "fleet_count F (sc, i) < e \<and> e \<le> epoch_count E (sc, i) \<and> (sc \<noteq> Scope_tenant \<longrightarrow> s \<in> inventory c (af_operations F))"
    if "ch \<in> set chs" "(sc, i, s, e) \<in> change_owed (af_operations F) (af_routing F) ch" for ch sc i s e
    using that R(5) unfolding inv by (auto simp: change_owed_def change_shards_def fleet_count_def split: if_splits)
  have owed: "e \<le> epoch_count E (sc, i) \<and> (sc \<noteq> Scope_tenant \<longrightarrow> s \<in> inventory c (af_operations F))" if "(sc, i, s, e) \<in> af_owed ?F" for sc i s e
    using that new auth_fleet_invD(4,5) [OF assms(1), of sc i s e] mono [of "(sc, i)"] unfolding inv by fastforce
  have "flight_ok ?F fl" if "fl \<in> af_flights F" for fl
    by (rule flight_kept [OF auth_fleet_invD(6) [OF assms(1) that]]) (use mono new in auto)
  moreover have "\<forall>(sc, i, s, e) \<in> af_owed ?F. e \<le> epoch_count E (sc, i) \<and> (sc \<noteq> Scope_tenant \<longrightarrow> s \<in> inventory c (af_operations F))"
    using owed by blast
  ultimately show ?thesis using assms(1) R(2,3) by (simp add: auth_fleet_inv_def)
qed

lemma inv_topology:
  assumes "auth_fleet_inv F"
  shows "auth_fleet_inv (F\<lparr>af_routing := c, af_operations := ops, af_owed := still_owed (inventory c ops) (af_owed F)\<rparr>)" (is "auth_fleet_inv ?F")
proof -
  have sub: "still_owed (inventory c ops) (af_owed F) \<subseteq> af_owed F" by (auto simp: still_owed_def)
  have "flight_ok ?F fl" if "fl \<in> af_flights F" for fl
    by (rule flight_kept [OF auth_fleet_invD(6) [OF assms that]]) (use sub in auto)
  moreover have "covered (accepted F) (still_owed (inventory c ops) (af_owed F)) (af_outbox F)"
    by (rule covered_mono [OF auth_fleet_invD(1) [OF assms] _ sub])
  moreover have "e \<le> fleet_count F (sc, i) \<and> (sc \<noteq> Scope_tenant \<longrightarrow> s \<in> inventory c ops)"
    if "(sc, i, s, e) \<in> still_owed (inventory c ops) (af_owed F)" for sc i s e
    using that auth_fleet_invD(4) [OF assms] by (auto simp: still_owed_def)
  ultimately show ?thesis using assms by (auto simp: auth_fleet_inv_def)
qed

lemma inv_call:
  assumes "auth_fleet_inv F" and "invalidateAuthScope q nowMs (af_shards F s) = Inr (result, st)"
  shows "auth_fleet_inv (F\<lparr>af_shards := (af_shards F)(s := st), af_answers := insert (s, q, result) (af_answers F)\<rparr>)" (is "auth_fleet_inv ?F")
proof -
  obtain t where t: "auth_apply q nowMs (snd (af_shards F s)) = Inr (result, t)" and st: "st = (fst (af_shards F s), t)"
    using assms(2) by (auto simp: invalidateAuthScope_def rbind_eq_Inr)
  have run: "auth_run (snd (af_shards F s))" by (rule auth_fleet_invD(7) [OF assms(1)])
  have more: "accepted ?F sc i x e" if "accepted F sc i x e" for sc i x e using that by (auto simp: accepted_def)
  have "flight_ok ?F fl" if "fl \<in> af_flights F" for fl
    by (rule flight_kept [OF auth_fleet_invD(6) [OF assms(1) that] more]) simp_all
  moreover have "covered (accepted ?F) (af_owed F) (af_outbox F)"
    by (rule covered_mono [OF auth_fleet_invD(1) [OF assms(1)] more]) simp_all
  moreover have "projected q result" unfolding projected_def using run t by blast
  moreover have "auth_run t" using run t by (rule auth_run_apply)
  ultimately show ?thesis using assms(1) st by (auto simp: auth_fleet_inv_def)
qed

lemma inv_shard:
  assumes "auth_fleet_inv F" and "auth_run (snd st)"
  shows "auth_fleet_inv (F\<lparr>af_shards := (af_shards F)(s := st)\<rparr>)" (is "auth_fleet_inv ?F")
proof -
  have "flight_ok ?F fl" if "fl \<in> af_flights F" for fl
    by (rule flight_kept [OF auth_fleet_invD(6) [OF assms(1) that]]) simp_all
  then show ?thesis using assms by (simp add: auth_fleet_inv_def)
qed

text \<open>What a delivery that reports no failure has been told.\<close>

lemma answered_accepted:
  assumes "list_all2 (answered F) calls failures" and "(s, q) \<in> set calls" and "first_failure failures = None"
  shows "accepted F (ai_scope q) (ai_scopeId q) s e \<or> ai_epoch q < e"
proof -
  have none: "\<forall>f \<in> set failures. f = None"
  proof (cases "filter (\<lambda>f. f \<noteq> None) failures")
    case Nil
    then show ?thesis by (simp add: filter_empty_conv)
  next
    case (Cons f fs)
    then have "f \<in> set (filter (\<lambda>f. f \<noteq> None) failures)" by simp
    then show ?thesis using assms(3) Cons by (simp add: first_failure_def)
  qed
  obtain n where n: "n < length calls" "calls ! n = (s, q)" using assms(2) by (auto simp: in_set_conv_nth)
  then have "answered F (s, q) (failures ! n)" using assms(1) by (auto simp: list_all2_conv_all_nth)
  moreover have "failures ! n = None" using none n assms(1) by (auto simp: list_all2_conv_all_nth)
  ultimately show ?thesis by (auto simp: answered_def accepted_def)
qed

lemma page_lets_go:
  assumes "page_ok F sc i epoch page" and "list_all2 (answered F) (map (\<lambda>s. (s, auth_request sc i epoch g)) page) failures"
    and "first_failure failures = None" and "(sc, i, s, e) \<in> af_owed F" and "e \<le> epoch" and "s \<le> last page"
  shows "accepted F sc i s e"
proof -
  have "accepted F sc i s e \<or> s \<in> set page \<or> last page < s" using assms(1,4,5) by (simp add: page_ok_def)
  then have "accepted F sc i s e \<or> s \<in> set page" using assms(6) by auto
  moreover have "accepted F sc i s e" if "s \<in> set page"
    using answered_accepted [OF assms(2) _ assms(3), of s "auth_request sc i epoch g" e] that assms(5) by (auto simp: auth_request_def)
  ultimately show ?thesis by blast
qed

lemma inv_settle_targets:
  assumes "auth_fleet_inv F" and "list_all2 (answered F) (flight_calls (Target_flight g rs)) failures"
    and "rfold (settle_target nowMs) (zip rs failures) (ob_targets (af_outbox F)) = Inr t"
  shows "auth_fleet_inv (F\<lparr>af_outbox := (af_outbox F)\<lparr>ob_targets := t\<rparr>\<rparr>)"
proof (rule rfold_invariant [where P = "\<lambda>t. auth_fleet_inv (F\<lparr>af_outbox := (af_outbox F)\<lparr>ob_targets := t\<rparr>\<rparr>)", OF assms(3)])
  show "auth_fleet_inv (F\<lparr>af_outbox := (af_outbox F)\<lparr>ob_targets := ob_targets (af_outbox F)\<rparr>\<rparr>)" using assms(1) by simp
next
  fix x u u'
  assume x: "x \<in> set (zip rs failures)" and u: "auth_fleet_inv (F\<lparr>af_outbox := (af_outbox F)\<lparr>ob_targets := u\<rparr>\<rparr>)" (is "auth_fleet_inv ?F")
    and step: "settle_target nowMs x u = Inr u'"
  have goal: "auth_fleet_inv (?F\<lparr>af_outbox := (af_outbox ?F)\<lparr>ob_targets := u'\<rparr>\<rparr>) \<Longrightarrow> auth_fleet_inv (F\<lparr>af_outbox := (af_outbox F)\<lparr>ob_targets := u'\<rparr>\<rparr>)" by simp
  show "auth_fleet_inv (F\<lparr>af_outbox := (af_outbox F)\<lparr>ob_targets := u'\<rparr>\<rparr>)"
  proof (rule goal, cases "snd x")
    case (Some message)
    then have "auth_outbox_step (af_outbox ?F) Kept ((af_outbox ?F)\<lparr>ob_targets := u'\<rparr>)"
      using step step_deferTarget [of "fst x" nowMs message "af_outbox ?F" u'] by (simp add: settle_target_def)
    then show "auth_fleet_inv (?F\<lparr>af_outbox := (af_outbox ?F)\<lparr>ob_targets := u'\<rparr>\<rparr>)" by (rule inv_outbox_step [OF u]) simp_all
  next
    case None
    then have u': "u' = completeTarget (fst x) u" using step by (simp add: settle_target_def)
    let ?r = "fst x"
    obtain n where n: "n < length rs" "rs ! n = ?r" "failures ! n = None" "n < length failures"
      using x None by (metis in_set_zip)
    then have "answered F (st_shard_id ?r, auth_request (st_scope ?r) (st_scope_id ?r) (st_epoch ?r) g) None"
      using assms(2) by (auto simp: list_all2_conv_all_nth)
    then have told: "accepted F (st_scope ?r) (st_scope_id ?r) (st_shard_id ?r) e" if "e \<le> st_epoch ?r" for e
      using that by (auto simp: answered_def accepted_def auth_request_def)
    show "auth_fleet_inv (?F\<lparr>af_outbox := (af_outbox ?F)\<lparr>ob_targets := u'\<rparr>\<rparr>)"
    proof (cases "st_scope ?r = Scope_tenant")
      case True
      have "auth_outbox_step (af_outbox ?F) (Cleared {target_key ?r} (st_epoch ?r)) ((af_outbox ?F)\<lparr>ob_targets := u'\<rparr>)"
        using step_completeTarget [OF True, of "af_outbox ?F"] by (simp add: u')
      then show ?thesis by (rule inv_outbox_step [OF u]) (use told in \<open>auto simp: target_key_def\<close>)
    next
      case False
      have "auth_outbox_step (af_outbox ?F) Kept ((af_outbox ?F)\<lparr>ob_targets := u'\<rparr>)"
        using step_completeOther [OF False, of "af_outbox ?F"] by (simp add: u')
      then show ?thesis by (rule inv_outbox_step [OF u]) simp_all
    qed
  qed
qed

lemma inv_settle:
  assumes "auth_fleet_inv F" and "fl \<in> af_flights F" and "list_all2 (answered F) (flight_calls fl) failures"
    and "settle_flight nowMs failures fl (af_outbox F) = Inr ob"
  shows "auth_fleet_inv (F\<lparr>af_outbox := ob\<rparr>)"
proof (cases fl)
  case (Target_flight g rs)
  then show ?thesis using inv_settle_targets [OF assms(1)] assms(3,4) by (auto simp: rbind_eq_Inr)
next
  case (Principal_flight g r page)
  have ok: "page_ok F Scope_principal (sg_scope_id r) (sg_epoch r) page" using auth_fleet_invD(6) [OF assms(1,2)] Principal_flight by simp
  note calls = assms(3) [unfolded Principal_flight flight_calls.simps]
  show ?thesis
  proof (cases "first_failure failures")
    case None
    then obtain t where "advancePrincipal (sg_scope_id r) (sg_epoch r) (last page) nowMs (ob_principals (af_outbox F)) = Inr t"
        "ob = (af_outbox F)\<lparr>ob_principals := t\<rparr>"
      using assms(4) Principal_flight by (auto simp: rbind_eq_Inr)
    then have "auth_outbox_step (af_outbox F) (Moved (every_shard Scope_principal (sg_scope_id r)) (sg_epoch r) (last page)) ob"
      using step_advancePrincipal by simp
    then show ?thesis
      by (rule inv_outbox_step [OF assms(1)]) (use page_lets_go [OF ok calls None] in \<open>auto simp: every_shard_def cursor_passed_def\<close>)
  next
    case (Some message)
    then obtain t where "deferPrincipal (sg_scope_id r) (sg_epoch r) nowMs message (ob_principals (af_outbox F)) = Inr t"
        "ob = (af_outbox F)\<lparr>ob_principals := t\<rparr>"
      using assms(4) Principal_flight by (auto simp: rbind_eq_Inr)
    then have "auth_outbox_step (af_outbox F) Kept ob" using step_deferPrincipal by simp
    then show ?thesis by (rule inv_outbox_step [OF assms(1)]) simp_all
  qed
next
  case (Global_flight g r page)
  have ok: "page_ok F Scope_global ''global'' (sg_epoch r) page" using auth_fleet_invD(6) [OF assms(1,2)] Global_flight by simp
  note calls = assms(3) [unfolded Global_flight flight_calls.simps]
  show ?thesis
  proof (cases "first_failure failures")
    case None
    then obtain t where "advanceGlobal (sg_epoch r) (last page) nowMs (ob_global (af_outbox F)) = Inr t" "ob = (af_outbox F)\<lparr>ob_global := t\<rparr>"
      using assms(4) Global_flight by (auto simp: rbind_eq_Inr)
    then have "auth_outbox_step (af_outbox F) (Moved (every_shard Scope_global ''global'') (sg_epoch r) (last page)) ob"
      using step_advanceGlobal by simp
    then show ?thesis
      by (rule inv_outbox_step [OF assms(1)]) (use page_lets_go [OF ok calls None] in \<open>auto simp: every_shard_def cursor_passed_def\<close>)
  next
    case (Some message)
    then obtain t where "deferGlobal (sg_epoch r) nowMs message (ob_global (af_outbox F)) = Inr t" "ob = (af_outbox F)\<lparr>ob_global := t\<rparr>"
      using assms(4) Global_flight by (auto simp: rbind_eq_Inr)
    then have "auth_outbox_step (af_outbox F) Kept ob" using step_deferGlobal by simp
    then show ?thesis by (rule inv_outbox_step [OF assms(1)]) simp_all
  qed
qed

lemma inv_begin_principal:
  assumes "auth_fleet_inv F" and "begin_principal g nowMs (af_routing F) (af_operations F) (af_outbox F) = Inr (fl, ob)"
  shows "auth_fleet_inv (F\<lparr>af_outbox := ob, af_flights := set_option fl \<union> af_flights F\<rparr>)"
proof (cases "duePrincipal nowMs (ob_principals (af_outbox F))")
  case (Inr due)
  show ?thesis
  proof (cases due)
    case None
    then have "fl = None" "ob = af_outbox F" using assms(2) Inr by (simp_all add: begin_principal_def)
    then show ?thesis using assms(1) by simp
  next
    case (Some r)
    let ?key = "sg_scope_id r"
    have r: "r \<in> set (ob_principals (af_outbox F))" using duePrincipal_row Inr Some by blast
    have d: "distinct (map sg_scope_id (ob_principals (af_outbox F)))"
      using auth_fleet_invD(3) [OF assms(1)] by (simp add: auth_outbox_inv_def outbox_tables_def cursor_rows_def)
    have w: "outbox_waiting (af_outbox F) (Scope_principal, ?key, s) = Some (sg_epoch r, sg_cursor_shard_id r)" for s
      using cursor_row_waiting [OF d r] by simp
    obtain page where page: "globalAuthInvalidationShardPage (sg_cursor_shard_id r) (af_routing F) (af_operations F) = Inr page"
      by (simp add: shard_page)
    note P = begun_page [OF assms(1) _ w page, simplified]
    show ?thesis
    proof (cases "page = []")
      case True
      then obtain t where t: "completePrincipal ?key (sg_epoch r) (ob_principals (af_outbox F)) = Inr t" and out: "fl = None" "ob = (af_outbox F)\<lparr>ob_principals := t\<rparr>"
        using assms(2) Inr Some page by (auto simp: begin_principal_def rbind_eq_Inr)
      have "auth_fleet_inv (F\<lparr>af_outbox := ob\<rparr>)" unfolding out
        by (rule inv_outbox_step [OF assms(1) step_completePrincipal [OF t]]) (use P True in \<open>auto simp: every_shard_def\<close>)
      then show ?thesis by (simp add: out)
    next
      case False
      then have "fl = Some (Principal_flight g r page)" "ob = af_outbox F" using assms(2) Inr Some page by (auto simp: begin_principal_def)
      then show ?thesis using inv_flight [OF assms(1), of "Principal_flight g r page"] P False by simp
    qed
  qed
qed (use assms(2) in \<open>simp add: begin_principal_def\<close>)

lemma inv_begin_global:
  assumes "auth_fleet_inv F" and "begin_global g nowMs (af_routing F) (af_operations F) (af_outbox F) = Inr (fl, ob)"
  shows "auth_fleet_inv (F\<lparr>af_outbox := ob, af_flights := set_option fl \<union> af_flights F\<rparr>)"
proof (cases "dueGlobal nowMs (ob_global (af_outbox F))")
  case (Inr due)
  show ?thesis
  proof (cases due)
    case None
    then have "fl = None" "ob = af_outbox F" using assms(2) Inr by (simp_all add: begin_global_def)
    then show ?thesis using assms(1) by simp
  next
    case (Some r)
    have r: "r \<in> set (ob_global (af_outbox F))" using dueGlobal_row Inr Some by blast
    have d: "distinct (map singleton_key (ob_global (af_outbox F)))"
      using auth_fleet_invD(3) [OF assms(1)] by (simp add: auth_outbox_inv_def outbox_tables_def cursor_rows_def)
    have w: "outbox_waiting (af_outbox F) (Scope_global, ''global'', s) = Some (sg_epoch r, sg_cursor_shard_id r)" for s
      using cursor_row_waiting [OF d r] by (simp add: singleton_key_def)
    obtain page where page: "globalAuthInvalidationShardPage (sg_cursor_shard_id r) (af_routing F) (af_operations F) = Inr page"
      by (simp add: shard_page)
    note P = begun_page [OF assms(1) _ w page, simplified]
    show ?thesis
    proof (cases "page = []")
      case True
      then obtain t where t: "completeGlobal (sg_epoch r) (ob_global (af_outbox F)) = Inr t" and out: "fl = None" "ob = (af_outbox F)\<lparr>ob_global := t\<rparr>"
        using assms(2) Inr Some page by (auto simp: begin_global_def rbind_eq_Inr)
      have "auth_fleet_inv (F\<lparr>af_outbox := ob\<rparr>)" unfolding out
        by (rule inv_outbox_step [OF assms(1) step_completeGlobal [OF t]]) (use P True in \<open>auto simp: every_shard_def\<close>)
      then show ?thesis by (simp add: out)
    next
      case False
      then have "fl = Some (Global_flight g r page)" "ob = af_outbox F" using assms(2) Inr Some page by (auto simp: begin_global_def)
      then show ?thesis using inv_flight [OF assms(1), of "Global_flight g r page"] P False by simp
    qed
  qed
qed (use assms(2) in \<open>simp add: begin_global_def\<close>)

lemma auth_fleet_step_inv: "auth_fleet_step F F' \<Longrightarrow> auth_fleet_inv F \<Longrightarrow> auth_fleet_inv F'"
proof (induction rule: auth_fleet_step.induct)
  case (fleet_record F nowMs scopes chs c E ob)
  then show ?case by (rule inv_record [rotated])
next
  case (fleet_topology F c ops)
  then show ?case by (rule inv_topology)
next
  case (fleet_targets g nowMs F fl)
  then have "flight_ok F fl" by (auto simp: begin_targets_def rbind_eq_Inr)
  then show ?case using inv_flight fleet_targets by blast
next
  case (fleet_principal g nowMs F fl ob)
  then show ?case using inv_begin_principal by blast
next
  case (fleet_global g nowMs F fl ob)
  then show ?case using inv_begin_global by blast
next
  case (fleet_call fl F s q nowMs result st)
  then show ?case using inv_call by blast
next
  case (fleet_settle fl F failures nowMs ob)
  then show ?case using inv_settle by blast
next
  case (fleet_live F s a E L ev L')
  then have "auth_run (E, L)" using auth_fleet_invD(7) [of F s] by simp
  then show ?case using inv_shard [of F "(a, E, L')" s] fleet_live auth_run_live by simp
next
  case (fleet_gate F s a)
  then show ?case using inv_shard [of F "(a, snd (af_shards F s))" s] auth_fleet_invD(7) [of F s] by simp
qed

lemma empty_waiting: "outbox_waiting empty_outbox k = None"
proof -
  obtain sc i s where "k = (sc, i, s)" by (cases k)
  then show ?thesis by (cases sc) (simp_all add: empty_outbox_def cursor_at_def target_at_def sql_one_def)
qed

lemma auth_fleet_reachable_inv: "auth_fleet_reachable F \<Longrightarrow> auth_fleet_inv F"
proof (induction rule: auth_fleet_reachable.induct)
  case (auth_fleet_start c ops)
  have "auth_outbox_inv empty_outbox"
    by (simp add: auth_outbox_inv_def outbox_tables_def outbox_values_def empty_outbox_def target_rows_def cursor_rows_def CATALOG_AUTH_INVALIDATION_TARGET_LIMIT_def VSHARD_COUNT_def)
  then show ?case using auth_run_init
    by (simp add: auth_fleet_inv_def initial_auth_fleet_def covered_def bounded_by_def empty_waiting)
next
  case (auth_fleet_next F F')
  then show ?case using auth_fleet_step_inv by blast
qed

section \<open>No epoch is lost\<close>

text \<open>
  C9. No authentication epoch is lost on its way to a shard. Whatever was queued for a shard (an epoch of an organization for
  the shards of its range, an epoch of a principal or of everybody for every shard that has stayed in the inventory since) is, at
  any later moment, accepted or still queued: either the shard has answered a request of that scope with that epoch or a
  newer one, by a successful transaction that projects it onto its registrations, or a row of the outbox carries such an epoch and its
  cursor has not passed the shard. This holds however deliveries overlap, calls fail, answers get lost, newer epochs replace
  the rows under way and ranges move.
\<close>
theorem auth_epoch_reaches_shards:
  assumes "auth_fleet_reachable F" and "(sc, i, s, e) \<in> af_owed F"
  shows "(\<exists>q result t nowMs t'. (s, q, result) \<in> af_answers F \<and> ai_scope q = sc \<and> ai_scopeId q = i \<and> e \<le> ai_epoch q \<and>
      auth_run t \<and> auth_apply q nowMs t = Inr (result, t')) \<or>
    (\<exists>e' cursor. outbox_waiting (af_outbox F) (sc, i, s) = Some (e', cursor) \<and> e \<le> e' \<and> (\<forall>x. cursor = Some x \<longrightarrow> x < s))"
proof -
  note inv = auth_fleet_reachable_inv [OF assms(1)]
  consider "accepted F sc i s e" | "awaits cursor_passed (outbox_waiting (af_outbox F)) (sc, i, s) e"
    using coveredD [OF auth_fleet_invD(1) [OF inv] assms(2)] by blast
  then show ?thesis
  proof cases
    case 1
    then obtain q result where q: "(s, q, result) \<in> af_answers F" "ai_scope q = sc" "ai_scopeId q = i" "e \<le> ai_epoch q"
      by (auto simp: accepted_def)
    then show ?thesis using auth_fleet_invD(8) [OF inv q(1)] unfolding projected_def by blast
  next
    case 2
    then show ?thesis by (auto simp: awaits_def cursor_passed_def not_le)
  qed
qed

definition sample_auth_fleet :: auth_fleet where
  "sample_auth_fleet = initial_auth_fleet initial_routing []"

definition sample_change :: CatalogAuthEpochChange where
  "sample_change = \<lparr> ac_scope = Scope_principal, ac_scopeId = ''p'', ac_epoch = 1 \<rparr>"

definition sample_recorded :: auth_fleet where
  "sample_recorded = sample_auth_fleet\<lparr>af_routing := initial_routing, af_epochs := [\<lparr> ep_scope = ''auth_principal'', ep_scope_id = ''p'', ep_epoch = 1 \<rparr>],
     af_outbox := empty_outbox\<lparr>ob_principals := [new_principal ''p'' 1 0]\<rparr>, af_owed := change_owed [] initial_routing sample_change\<rparr>"

lemma sample_recorded_reachable: "auth_fleet_reachable sample_recorded"
proof -
  have "record_epochs [] 0 [(Scope_principal, ''p'')] (initial_routing, [], empty_outbox) =
      (Inr [sample_change], initial_routing, [\<lparr> ep_scope = ''auth_principal'', ep_scope_id = ''p'', ep_epoch = 1 \<rparr>],
       empty_outbox\<lparr>ob_principals := [new_principal ''p'' 1 0]\<rparr>)"
    by code_simp
  then have "auth_fleet_step sample_auth_fleet sample_recorded"
    using fleet_record [of sample_auth_fleet 0 "[(Scope_principal, ''p'')]"]
    by (simp add: sample_auth_fleet_def initial_auth_fleet_def sample_recorded_def)
  then show ?thesis unfolding sample_auth_fleet_def by (rule auth_fleet_next [OF auth_fleet_start])
qed

lemma auth_epoch_reaches_shards_witness:
  "\<exists>e' cursor. outbox_waiting (af_outbox sample_recorded) (Scope_principal, ''p'', ''ShardDO_0'') = Some (e', cursor) \<and> 1 \<le> e'"
proof -
  have "inventory initial_routing [] = {''ShardDO_0''}"
    by (simp add: inventory_def initial_routing_def initial_ranges_def op_active_def sql_one_def)
  then have "(Scope_principal, ''p'', ''ShardDO_0'', 1) \<in> af_owed sample_recorded"
    by (simp add: sample_recorded_def change_owed_def change_shards_def sample_change_def)
  then show ?thesis using auth_epoch_reaches_shards [OF sample_recorded_reachable]
    by (fastforce simp: sample_recorded_def sample_auth_fleet_def initial_auth_fleet_def)
qed

end
