(* ===== verification/Auth_Broadcast.thy ===== *)
theory Auth_Broadcast
  imports Auth_Fleet
begin

text \<open>
  The alarms of the Catalog, one after the other: a delivery never raises on a reachable outbox, whatever the shards answer, and
  a broadcast that the shards accept ends after one alarm for each page of 32 shards and one more.
\<close>

section \<open>A delivery does not raise\<close>

definition timely :: "int \<Rightarrow> StoredTarget list \<Rightarrow> StoredTarget list \<Rightarrow> bool" where
  "timely nowMs rs t \<longleftrightarrow> (\<forall>x \<in> set rs. \<forall>r \<in> set t. same_target x r \<longrightarrow> st_created_at r \<le> nowMs)"

lemma settle_target_ok:
  assumes "target_rows t" and "outbox_time nowMs = Inr ()" and "timely nowMs rs t" and "x \<in> set rs"
  shows "\<exists>t'. settle_target nowMs (x, f) t = Inr t' \<and> target_rows t' \<and> timely nowMs rs t'"
proof (cases f)
  case None
  have "timely nowMs rs (completeTarget x t)" using assms(3) by (auto simp: timely_def completeTarget_def table_simps)
  then show ?thesis using None completed_target(1) [OF assms(1)] by (simp add: settle_target_def)
next
  case (Some m)
  show ?thesis
  proof (cases "sql_one (same_target x) t")
    case None
    then show ?thesis using Some assms by (simp add: settle_target_def deferTarget_def)
  next
    case (Some r0)
    define a where "a = min (st_attempts r0 + 1) 31"
    let ?f = "\<lambda>r. r\<lparr>st_attempts := a, st_next_attempt_at := nowMs + retryDelay a, st_updated_at := nowMs, st_last_error := stored_error m\<rparr>"
    have n: "0 \<le> nowMs" using assms(2) by (simp add: outbox_time_def result_simps)
    have "0 \<le> a" using sql_one_SomeD [OF Some] assms(1) by (auto simp: a_def target_rows_def target_check_def)
    moreover have "target_check r \<and> st_created_at r \<le> nowMs" if "r \<in> set t" "same_target x r" for r
      using that assms(1,3,4) by (auto simp: target_rows_def timely_def)
    ultimately have "\<forall>r \<in> set t. same_target x r \<longrightarrow> target_check (?f r)"
      using n retryDelay_pos [of a] by (fastforce simp: target_check_def)
    then have d: "deferTarget x nowMs m t = Inr (sql_update (same_target x) ?f t)"
      using assms(2) Some by (simp add: deferTarget_def Let_def a_def sql_update_checked_def)
    have same: "same_target y (?f r) = same_target y r" for y r by (simp add: same_target_def)
    have "timely nowMs rs (sql_update (same_target x) ?f t)"
      using assms(3) by (auto simp: timely_def table_simps same)
    then show ?thesis using \<open>f = Some m\<close> d deferred_target(1) [OF assms(1) d] by (simp add: settle_target_def)
  qed
qed

lemma settle_targets_ok:
  assumes "target_rows t" and "outbox_time nowMs = Inr ()" and "timely nowMs rs t" and "fst ` set os \<subseteq> set rs"
  shows "\<exists>t'. rfold (settle_target nowMs) os t = Inr t'"
  using assms(1,3,4)
proof (induction os arbitrary: t)
  case (Cons o' os)
  then obtain t1 where "settle_target nowMs o' t = Inr t1" "target_rows t1" "timely nowMs rs t1"
    using settle_target_ok [OF Cons.prems(1) assms(2) Cons.prems(2), of "fst o'" "snd o'"] by auto
  then show ?case using Cons.IH [of t1] Cons.prems(3) by auto
qed simp

lemma cursor_advance_ok:
  assumes "cursor_rows key t" and "r \<in> set t" and "sg_next_attempt_at r \<le> nowMs" and "outbox_time nowMs = Inr ()" and "nowMs \<le> nextAt"
  shows "cursor_advance key (key r) (sg_epoch r) c nextAt nowMs t = Inr (sql_update (at_epoch key (key r) (sg_epoch r))
    (\<lambda>r. r\<lparr>sg_cursor_shard_id := Some c, sg_attempts := 0, sg_next_attempt_at := nextAt, sg_updated_at := nowMs, sg_last_error := None\<rparr>) t)"
proof -
  have "x = r" if "x \<in> set t" "at_epoch key (key r) (sg_epoch r) x" for x
    using that assms(1,2) unique_key_row [of key t x r] by (simp add: cursor_rows_def at_epoch_def)
  moreover have "0 \<le> nowMs" using assms(4) by (simp add: outbox_time_def result_simps)
  moreover have "broadcast_check r" "sg_created_at r \<le> nowMs" using assms(1-3) by (auto simp: cursor_rows_def)
  ultimately have "\<forall>x \<in> set t. at_epoch key (key r) (sg_epoch r) x \<longrightarrow> broadcast_check (x\<lparr>sg_cursor_shard_id := Some c, sg_attempts := 0,
      sg_next_attempt_at := nextAt, sg_updated_at := nowMs, sg_last_error := None\<rparr>)"
    using assms(5) by (auto simp: broadcast_check_def)
  then show ?thesis by (simp add: cursor_advance_def sql_update_checked_def)
qed

lemma cursor_defer_ok:
  assumes "cursor_rows key t" and "r \<in> set t" and "sg_next_attempt_at r \<le> nowMs" and "outbox_time nowMs = Inr ()"
  shows "\<exists>t'. cursor_defer key (key r) (sg_epoch r) nowMs m t = Inr t'"
proof (cases "sql_one (at_epoch key (key r) (sg_epoch r)) t")
  case (Some r0)
  have only: "x = r" if "x \<in> set t" "at_epoch key (key r) (sg_epoch r) x" for x
    using that assms(1,2) unique_key_row [of key t x r] by (simp add: cursor_rows_def at_epoch_def)
  then have "r0 = r" using sql_one_SomeD [OF Some] by blast
  moreover have "0 \<le> nowMs" using assms(4) by (simp add: outbox_time_def result_simps)
  moreover have "broadcast_check r" "sg_created_at r \<le> nowMs" using assms(1-3) by (auto simp: cursor_rows_def)
  moreover define a where "a = min (sg_attempts r0 + 1) 31"
  ultimately have "\<forall>x \<in> set t. at_epoch key (key r) (sg_epoch r) x \<longrightarrow> broadcast_check (x\<lparr>sg_attempts := a,
      sg_next_attempt_at := nowMs + retryDelay a, sg_updated_at := nowMs, sg_last_error := stored_error m\<rparr>)"
    using only retryDelay_pos [of a] by (auto simp: broadcast_check_def)
  then show ?thesis using Some by (simp add: cursor_defer_def Let_def sql_update_checked_def flip: a_def)
qed (simp add: cursor_defer_def)

lemma row_epoch_ok: "broadcast_check r \<Longrightarrow> safe_integer (sg_epoch r) \<Longrightarrow> safeEpoch (sg_epoch r) = Inr ()"
  by (simp add: safeEpoch_def broadcast_check_def ensure_def)

definition shards_named :: "catalog_routing \<Rightarrow> operations \<Rightarrow> bool" where
  "shards_named c ops \<longleftrightarrow> (\<forall>s \<in> inventory c ops. opaque_id s)"

lemma page_named:
  assumes "shards_named c ops" and "globalAuthInvalidationShardPage cursor c ops = Inr page" and "page \<noteq> []"
  shows "boundedShardId (last page) = Inr ()"
proof -
  have "last page \<in> set (sorted_list_of_set (beyond cursor (inventory c ops)))"
    using assms(2) last_in_set [OF assms(3)] by (simp only: shard_page sum.inject) (metis in_set_takeD)
  then show ?thesis using assms(1) by (auto simp: boundedShardId_def ensure_def shards_named_def beyond_def)
qed

lemma targets_pass:
  assumes "auth_outbox_inv ob" and "outbox_time nowMs = Inr ()"
  obtains fl ob1 where "begin_targets g nowMs ob = Inr fl" and "complete_flight answer nowMs (Some fl, ob) = Inr ob1"
    and "auth_outbox_inv ob1" and "ob_global ob1 = ob_global ob" and "ob_principals ob1 = ob_principals ob"
proof -
  let ?due = "sort_key st_next_attempt_at (sort_key st_shard_id (sort_key (\<lambda>r. st_scope r = Scope_tenant)
    (sort_key st_scope_id (filter (\<lambda>r. st_next_attempt_at r \<le> nowMs) (ob_targets ob)))))"
  define rs where "rs = take 32 ?due"
  have due: "begin_targets g nowMs ob = Inr (Target_flight g rs)"
    using assms(2) by (simp add: begin_targets_def dueTargets_def CATALOG_AUTH_INVALIDATION_BATCH_SIZE_def safe_integer_def ensure_def rs_def)
  have rows: "target_rows (ob_targets ob)" using assms(1) by (simp add: auth_outbox_inv_def outbox_tables_def)
  have rs: "x \<in> set (ob_targets ob) \<and> st_next_attempt_at x \<le> nowMs" if "x \<in> set rs" for x
  proof -
    have "x \<in> set ?due" using that in_set_takeD unfolding rs_def by fast
    then show ?thesis by simp
  qed
  have "timely nowMs rs (ob_targets ob)"
    unfolding timely_def
  proof (intro ballI impI)
    fix x r assume x: "x \<in> set rs" "r \<in> set (ob_targets ob)" "same_target x r"
    then have "r = x" using rs [OF x(1)] rows unique_key_row [of target_key "ob_targets ob" r x] by (simp add: target_rows_def same_target_def)
    then show "st_created_at r \<le> nowMs" using rs [OF x(1)] rows by (auto simp: target_rows_def)
  qed
  moreover define os where "os = zip rs (flight_failures answer (Target_flight g rs))"
  moreover from this have "fst ` set os \<subseteq> set rs" by (auto dest: set_zip_leftD)
  ultimately obtain t where t: "rfold (settle_target nowMs) os (ob_targets ob) = Inr t"
    using settle_targets_ok [OF rows assms(2), of rs os] by blast
  have inv: "auth_outbox_inv (ob\<lparr>ob_targets := t\<rparr>)"
  proof (rule rfold_invariant [where P = "\<lambda>t. auth_outbox_inv (ob\<lparr>ob_targets := t\<rparr>)", OF t])
    show "auth_outbox_inv (ob\<lparr>ob_targets := ob_targets ob\<rparr>)" using assms(1) by simp
    fix x u u' assume u: "auth_outbox_inv (ob\<lparr>ob_targets := u\<rparr>)" and s: "settle_target nowMs x u = Inr u'"
    have "\<exists>ev. auth_outbox_step (ob\<lparr>ob_targets := u\<rparr>) ev ((ob\<lparr>ob_targets := u\<rparr>)\<lparr>ob_targets := u'\<rparr>)"
    proof (cases "snd x")
      case None
      then show ?thesis using s step_completeTarget [of "fst x" "ob\<lparr>ob_targets := u\<rparr>"] step_completeOther [of "fst x" "ob\<lparr>ob_targets := u\<rparr>"]
        by (cases "st_scope (fst x) = Scope_tenant") (auto simp: settle_target_def)
    next
      case (Some m)
      then show ?thesis using s step_deferTarget [of "fst x" nowMs m "ob\<lparr>ob_targets := u\<rparr>" u'] by (auto simp: settle_target_def)
    qed
    then show "auth_outbox_inv (ob\<lparr>ob_targets := u'\<rparr>)" using auth_queue.keeps_inv [OF u] by auto
  qed
  show thesis
    by (rule that [OF due _ inv]) (simp_all add: complete_flight_def t [unfolded os_def])
qed

lemma principal_pass:
  assumes "auth_outbox_inv ob" and "outbox_time nowMs = Inr ()" and "shards_named c ops"
  obtains s ob2 where "begin_principal g nowMs c ops ob = Inr s" and "complete_flight answer nowMs s = Inr ob2"
    and "auth_outbox_inv ob2" and "ob_global ob2 = ob_global ob"
proof -
  let ?P = "ob_principals ob"
  obtain due where due: "duePrincipal nowMs ?P = Inr due" using assms(2) by (simp add: duePrincipal_def)
  show thesis
  proof (cases due)
    case None
    then show thesis using due assms(1) by (intro that [of "(None, ob)" ob]) (simp_all add: begin_principal_def complete_flight_def)
  next
    case (Some r)
    then have r: "r \<in> set ?P" "sg_next_attempt_at r \<le> nowMs" using duePrincipal_row due by blast+
    have rows: "cursor_rows sg_scope_id ?P" using assms(1) by (simp add: auth_outbox_inv_def outbox_tables_def)
    then have "broadcast_check r" using r(1) by (simp add: cursor_rows_def)
    then have ok: "safeEpoch (sg_epoch r) = Inr ()" "boundedScopeId (sg_scope_id r) = Inr ()"
      using assms(1) r(1) row_epoch_ok by (auto simp: auth_outbox_inv_def outbox_values_def)
    obtain page where page: "globalAuthInvalidationShardPage (sg_cursor_shard_id r) c ops = Inr page" by (simp add: shard_page)
    show thesis
    proof (cases "page = []")
      case True
      define t where "t = sql_delete (at_epoch sg_scope_id (sg_scope_id r) (sg_epoch r)) ?P"
      have t: "completePrincipal (sg_scope_id r) (sg_epoch r) ?P = Inr t" by (simp add: completePrincipal_def ok t_def)
      have "auth_outbox_inv (ob\<lparr>ob_principals := t\<rparr>)" by (rule auth_queue.keeps_inv [OF assms(1) step_completePrincipal [OF t]])
      then show thesis using due Some page True t
        by (intro that [of "(None, ob\<lparr>ob_principals := t\<rparr>)" "ob\<lparr>ob_principals := t\<rparr>"]) (simp_all add: begin_principal_def complete_flight_def)
    next
      case False
      let ?fl = "Principal_flight g r page"
      have started: "begin_principal g nowMs c ops ob = Inr (Some ?fl, ob)" using due Some page False by (simp add: begin_principal_def)
      show thesis
      proof (cases "first_failure (flight_failures answer ?fl)")
        case None
        then obtain t where t: "advancePrincipal (sg_scope_id r) (sg_epoch r) (last page) nowMs ?P = Inr t"
          using cursor_advance_ok [OF rows r assms(2), of "nowMs + 1"] ok assms(2) page_named [OF assms(3) page False] by (simp add: advancePrincipal_def)
        have "auth_outbox_inv (ob\<lparr>ob_principals := t\<rparr>)" by (rule auth_queue.keeps_inv [OF assms(1) step_advancePrincipal [OF t]])
        then show thesis using t None by (intro that [OF started, of "ob\<lparr>ob_principals := t\<rparr>"]) (simp_all add: complete_flight_def)
      next
        case (Some m)
        then obtain t where t: "deferPrincipal (sg_scope_id r) (sg_epoch r) nowMs m ?P = Inr t"
          using cursor_defer_ok [OF rows r assms(2)] ok assms(2) by (auto simp: deferPrincipal_def)
        have "auth_outbox_inv (ob\<lparr>ob_principals := t\<rparr>)" by (rule auth_queue.keeps_inv [OF assms(1) step_deferPrincipal [OF t]])
        then show thesis using t Some by (intro that [OF started, of "ob\<lparr>ob_principals := t\<rparr>"]) (simp_all add: complete_flight_def)
      qed
    qed
  qed
qed

section \<open>A broadcast ends\<close>

text \<open>The alarms that a broadcast still needs: one for each page and one that finds no page.\<close>

definition passes_left :: "string set \<Rightarrow> auth_outbox \<Rightarrow> nat" where
  "passes_left I ob = (case ob_global ob of [] \<Rightarrow> 0 | r # _ \<Rightarrow> (card (beyond (sg_cursor_shard_id r) I) + 31) div 32 + 1)"

lemma beyond_last:
  assumes "finite I" and "pg = take 32 (sorted_list_of_set (beyond a I))" and "pg \<noteq> []"
  shows "card (beyond (Some (last pg)) I) = card (beyond a I) - 32"
proof -
  let ?xs = "sorted_list_of_set (beyond a I)"
  have split: "pg @ drop 32 ?xs = ?xs" by (simp add: assms(2))
  have sd: "sorted (pg @ drop 32 ?xs)" "distinct (pg @ drop 32 ?xs)" unfolding split using assms(1) by simp_all
  have "sorted (butlast pg @ [last pg])" using sd(1) assms(3) by (simp add: sorted_append)
  then have "x \<le> last pg" if "x \<in> set (butlast pg)" for x using that by (simp add: sorted_append)
  then have low: "x \<le> last pg" if "x \<in> set pg" for x using that assms(3) by (metis append_butlast_last_id in_set_butlastD order_refl rotate1.simps(2) set_ConsD set_rotate1)
  have high: "last pg < x" if "x \<in> set (drop 32 ?xs)" for x
  proof -
    have "last pg \<le> x" using sd(1) that assms(3) by (simp add: sorted_append)
    moreover have "set pg \<inter> set (drop 32 ?xs) = {}" using sd(2) by simp
    then have "last pg \<noteq> x" using that last_in_set [OF assms(3)] by blast
    ultimately show ?thesis by simp
  qed
  have "last pg \<in> beyond a I" using last_in_set [OF assms(3)] assms(1) split by (metis Un_iff finite_beyond set_append set_sorted_list_of_set)
  then have "beyond (Some (last pg)) I = {x \<in> beyond a I. last pg < x}" by (auto simp: beyond_def split: option.splits)
  also have "\<dots> = {x \<in> set (pg @ drop 32 ?xs). last pg < x}" unfolding split using assms(1) by simp
  also have "\<dots> = set (drop 32 ?xs)" using low high by (auto dest: leD)
  finally show ?thesis using sd(2) distinct_card [of "drop 32 ?xs"] assms(1) by (simp add: distinct_card)
qed

definition accepts_broadcast :: "(string \<Rightarrow> CdbAuthInvalidationRequest \<Rightarrow> auth_answer) \<Rightarrow> string set \<Rightarrow> bool" where
  "accepts_broadcast answer I \<longleftrightarrow> (\<forall>s \<in> I. \<forall>q. ai_scope q = Scope_global \<longrightarrow> safe_integer (ai_epoch q) \<longrightarrow> call_failure q (answer s q) = None)"

lemma global_single:
  assumes "auth_outbox_inv ob" and "r \<in> set (ob_global ob)"
  shows "ob_global ob = [r]"
proof -
  have "distinct (map singleton_key (ob_global ob))" using assms(1) by (simp add: auth_outbox_inv_def outbox_tables_def cursor_rows_def)
  then show ?thesis using assms(2) by (cases "ob_global ob"; cases "tl (ob_global ob)") (auto simp: singleton_key_def)
qed

lemma one_page_less:
  fixes n :: nat
  assumes "0 < n"
  shows "(n - 32 + 31) div 32 + 1 = (n + 31) div 32"
proof (cases "32 \<le> n")
  case True
  then obtain m where "n = m + 32" by (metis add.commute le_Suc_ex)
  then show ?thesis using div_add_self2 [of 32 "m + 31"] by (simp add: add.commute add.left_commute)
next
  case False
  then have "(n + 31) div 32 = 1" using assms by (intro div_nat_eqI) auto
  then show ?thesis using False by simp
qed

lemma global_pass:
  assumes "auth_outbox_inv ob" and "outbox_time nowMs = Inr ()" and "shards_named c ops" and "accepts_broadcast answer (inventory c ops)"
    and "\<forall>r \<in> set (ob_global ob). sg_next_attempt_at r \<le> nowMs"
  obtains s ob' where "begin_global g nowMs c ops ob = Inr s" and "complete_flight answer nowMs s = Inr ob'" and "auth_outbox_inv ob'"
    and "passes_left (inventory c ops) ob' = passes_left (inventory c ops) ob - 1" and "\<forall>r \<in> set (ob_global ob'). sg_next_attempt_at r \<le> nowMs"
proof (cases "ob_global ob")
  case Nil
  then show thesis using assms(1,2)
    by (intro that [of "(None, ob)" ob]) (simp_all add: begin_global_def dueGlobal_def sql_one_def complete_flight_def passes_left_def)
next
  case (Cons r rest)
  let ?I = "inventory c ops"
  have G: "ob_global ob = [r]" using global_single [OF assms(1), of r] Cons by simp
  have rows: "cursor_rows singleton_key (ob_global ob)" using assms(1) by (simp add: auth_outbox_inv_def outbox_tables_def)
  have r: "r \<in> set (ob_global ob)" "sg_next_attempt_at r \<le> nowMs" using G assms(5) by simp_all
  have due: "dueGlobal nowMs (ob_global ob) = Inr (Some r)" using assms(2) r(2) by (simp add: dueGlobal_def G sql_one_def)
  have ok: "safeEpoch (sg_epoch r) = Inr ()"
    using assms(1) r(1) rows row_epoch_ok by (auto simp: auth_outbox_inv_def outbox_values_def cursor_rows_def)
  obtain page where page: "globalAuthInvalidationShardPage (sg_cursor_shard_id r) c ops = Inr page"
      "page = take 32 (sorted_list_of_set (beyond (sg_cursor_shard_id r) ?I))" by (simp add: shard_page)
  show thesis
  proof (cases "page = []")
    case True
    have t: "completeGlobal (sg_epoch r) (ob_global ob) = Inr []" by (simp add: completeGlobal_def ok G sql_delete_def at_epoch_def)
    have inv: "auth_outbox_inv (ob\<lparr>ob_global := []\<rparr>)" by (rule auth_queue.keeps_inv [OF assms(1) step_completeGlobal [OF t]])
    have "beyond (sg_cursor_shard_id r) ?I = {}" using True page(2) by simp
    then show thesis using due page t True inv
      by (intro that [of "(None, ob\<lparr>ob_global := []\<rparr>)" "ob\<lparr>ob_global := []\<rparr>"]) (simp_all add: begin_global_def complete_flight_def passes_left_def G)
  next
    case False
    let ?fl = "Global_flight g r page"
    let ?r = "r\<lparr>sg_cursor_shard_id := Some (last page), sg_attempts := 0, sg_next_attempt_at := nowMs, sg_updated_at := nowMs, sg_last_error := None\<rparr>"
    have started: "begin_global g nowMs c ops ob = Inr (Some ?fl, ob)" using due page False by (simp add: begin_global_def)
    have "safe_integer (sg_epoch r)" using assms(1) r(1) by (simp add: auth_outbox_inv_def outbox_values_def)
    moreover have "call_failure q (answer s q) = None" if "s \<in> set page" "ai_scope q = Scope_global" "safe_integer (ai_epoch q)" for s q
      using that assms(4) page(2) by (auto simp: accepts_broadcast_def beyond_def dest: in_set_takeD)
    ultimately have none: "first_failure (flight_failures answer ?fl) = None"
      by (auto simp: first_failure_def flight_failures_def auth_request_def filter_empty_conv o_def split: list.splits dest: filter_eq_ConsD)
    have t: "advanceGlobal (sg_epoch r) (last page) nowMs (ob_global ob) = Inr [?r]"
      unfolding advanceGlobal_def ok page_named [OF assms(3) page(1) False] assms(2) rbind.simps
      using cursor_advance_ok [OF rows r assms(2) order_refl, of "last page"] unfolding G
      by (simp add: sql_update_def at_epoch_def singleton_key_def)
    have inv: "auth_outbox_inv (ob\<lparr>ob_global := [?r]\<rparr>)" by (rule auth_queue.keeps_inv [OF assms(1) step_advanceGlobal [OF t]])
    have "beyond (sg_cursor_shard_id r) ?I \<noteq> {}" using False page(2) by auto
    then have "0 < card (beyond (sg_cursor_shard_id r) ?I)" by (simp add: card_gt_0_iff)
    then have "(card (beyond (sg_cursor_shard_id r) ?I) - 32 + 31) div 32 + 1 = (card (beyond (sg_cursor_shard_id r) ?I) + 31) div 32" by (rule one_page_less)
    then have "passes_left ?I (ob\<lparr>ob_global := [?r]\<rparr>) = passes_left ?I ob - 1"
      using beyond_last [OF finite_inventory page(2) False] by (simp add: passes_left_def G)
    then show thesis using t none inv by (intro that [OF started, of "ob\<lparr>ob_global := [?r]\<rparr>"]) (simp_all add: complete_flight_def)
  qed
qed

lemma delivery_pass:
  assumes "auth_outbox_inv ob" and "outbox_time nowMs = Inr ()" and "shards_named c ops" and "accepts_broadcast answer (inventory c ops)"
    and "\<forall>r \<in> set (ob_global ob). sg_next_attempt_at r \<le> nowMs"
  obtains ob' where "deliverAuthInvalidations g answer c ops nowMs ob = Inr ob'" and "auth_outbox_inv ob'"
    and "passes_left (inventory c ops) ob' = passes_left (inventory c ops) ob - 1" and "\<forall>r \<in> set (ob_global ob'). sg_next_attempt_at r \<le> nowMs"
proof -
  obtain fl ob1 where 1: "begin_targets g nowMs ob = Inr fl" "complete_flight answer nowMs (Some fl, ob) = Inr ob1" "auth_outbox_inv ob1"
      "ob_global ob1 = ob_global ob"
    using targets_pass [OF assms(1,2)] by metis
  obtain s ob2 where 2: "begin_principal g nowMs c ops ob1 = Inr s" "complete_flight answer nowMs s = Inr ob2" "auth_outbox_inv ob2"
      "ob_global ob2 = ob_global ob"
    using principal_pass [OF 1(3) assms(2,3)] 1(4) by metis
  have due: "\<forall>r \<in> set (ob_global ob2). sg_next_attempt_at r \<le> nowMs" using assms(5) 2(4) by simp
  obtain s' ob' where 3: "begin_global g nowMs c ops ob2 = Inr s'" "complete_flight answer nowMs s' = Inr ob'" "auth_outbox_inv ob'"
      "passes_left (inventory c ops) ob' = passes_left (inventory c ops) ob2 - 1" "\<forall>r \<in> set (ob_global ob'). sg_next_attempt_at r \<le> nowMs"
    using global_pass [OF 2(3) assms(2-4) due] by metis
  have "passes_left (inventory c ops) ob2 = passes_left (inventory c ops) ob" by (simp add: passes_left_def 2(4))
  then show thesis using 1 2 3 by (intro that [of ob']) (simp_all add: deliverAuthInvalidations_def)
qed

text \<open>
  C34. A broadcast to everybody ends. Take any reachable outbox with a pending global epoch, a topology that does not change meanwhile,
  and alarms at times from when the row is due on. If the shards accept the broadcast, every alarm completes its delivery, whatever the
  shards answer to the other scopes, and after one alarm for each page of 32 shards and one more the row is gone.
\<close>
theorem global_broadcast_completes:
  assumes "auth_fleet_reachable F" and "shards_named (af_routing F) (af_operations F)"
    and "accepts_broadcast answer (inventory (af_routing F) (af_operations F))"
    and "sorted alarms" and "\<forall>n \<in> set alarms. outbox_time n = Inr ()"
    and "\<forall>n \<in> set alarms. \<forall>r \<in> set (ob_global (af_outbox F)). sg_next_attempt_at r \<le> n"
    and "(card (inventory (af_routing F) (af_operations F)) + 31) div 32 + 1 \<le> length alarms"
  shows "\<exists>ob. rfold (deliverAuthInvalidations g answer (af_routing F) (af_operations F)) alarms (af_outbox F) = Inr ob \<and> ob_global ob = []"
proof -
  let ?c = "af_routing F" and ?ops = "af_operations F"
  let ?I = "inventory ?c ?ops"
  have run: "\<exists>ob'. rfold (deliverAuthInvalidations g answer ?c ?ops) ts ob = Inr ob' \<and> ob_global ob' = []"
    if "auth_outbox_inv ob" "passes_left ?I ob \<le> length ts" "sorted ts" "\<forall>n \<in> set ts. outbox_time n = Inr ()"
      "\<forall>n \<in> set ts. \<forall>r \<in> set (ob_global ob). sg_next_attempt_at r \<le> n" for ts ob
    using that
  proof (induction ts arbitrary: ob)
    case Nil
    then show ?case by (cases "ob_global ob") (simp_all add: passes_left_def)
  next
    case (Cons n ts)
    have pre: "outbox_time n = Inr ()" "\<forall>r \<in> set (ob_global ob). sg_next_attempt_at r \<le> n" using Cons.prems(4,5) by simp_all
    obtain ob1 where ob1: "deliverAuthInvalidations g answer ?c ?ops n ob = Inr ob1" "auth_outbox_inv ob1"
        "passes_left ?I ob1 = passes_left ?I ob - 1" "\<forall>r \<in> set (ob_global ob1). sg_next_attempt_at r \<le> n"
      by (rule delivery_pass [OF Cons.prems(1) pre(1) assms(2,3) pre(2)])
    have "\<forall>m \<in> set ts. \<forall>r \<in> set (ob_global ob1). sg_next_attempt_at r \<le> m" using ob1(4) Cons.prems(3) by fastforce
    then show ?case using Cons.IH [OF ob1(2)] ob1(1,3) Cons.prems(2-4) by simp
  qed
  have inv: "auth_outbox_inv (af_outbox F)" by (rule auth_fleet_invD(3) [OF auth_fleet_reachable_inv [OF assms(1)]])
  have "card (beyond a ?I) \<le> card ?I" for a by (rule card_mono) (auto simp: beyond_def)
  then have "(card (beyond a ?I) + 31) div 32 + 1 \<le> length alarms" for a using assms(7) by (meson add_le_mono div_le_mono le_refl le_trans)
  then have "passes_left ?I (af_outbox F) \<le> length alarms" by (simp add: passes_left_def split: list.splits)
  then show ?thesis using run [OF inv _ assms(4,5,6)] by blast
qed

definition sample_broadcast :: auth_fleet where
  "sample_broadcast = sample_auth_fleet\<lparr>af_routing := initial_routing, af_epochs := [\<lparr> ep_scope = ''auth_global'', ep_scope_id = ''global'', ep_epoch = 1 \<rparr>],
     af_outbox := empty_outbox\<lparr>ob_global := [new_global 1 0]\<rparr>,
     af_owed := change_owed [] initial_routing \<lparr> ac_scope = Scope_global, ac_scopeId = ''global'', ac_epoch = 1 \<rparr>\<rparr>"

lemma sample_broadcast_reachable: "auth_fleet_reachable sample_broadcast"
proof -
  have "record_epochs [] 0 [(Scope_global, ''global'')] (initial_routing, [], empty_outbox) =
      (Inr [\<lparr> ac_scope = Scope_global, ac_scopeId = ''global'', ac_epoch = 1 \<rparr>], initial_routing,
       [\<lparr> ep_scope = ''auth_global'', ep_scope_id = ''global'', ep_epoch = 1 \<rparr>], empty_outbox\<lparr>ob_global := [new_global 1 0]\<rparr>)"
    by code_simp
  then have "auth_fleet_step sample_auth_fleet sample_broadcast"
    using fleet_record [of sample_auth_fleet 0 "[(Scope_global, ''global'')]"]
    by (simp add: sample_auth_fleet_def initial_auth_fleet_def sample_broadcast_def)
  then show ?thesis unfolding sample_auth_fleet_def by (rule auth_fleet_next [OF auth_fleet_start])
qed

definition sample_answer :: "string \<Rightarrow> CdbAuthInvalidationRequest \<Rightarrow> auth_answer" where
  "sample_answer s q = Inr (auth_result q (ai_epoch q) 0 0)"

lemma global_broadcast_completes_witness:
  "\<exists>ob. rfold (deliverAuthInvalidations 0 sample_answer initial_routing []) [0, 1] (empty_outbox\<lparr>ob_global := [new_global 1 0]\<rparr>) = Inr ob \<and>
     ob_global ob = []"
proof -
  have f: "af_routing sample_broadcast = initial_routing" "af_operations sample_broadcast = []"
      "af_outbox sample_broadcast = empty_outbox\<lparr>ob_global := [new_global 1 0]\<rparr>"
    by (simp_all add: sample_broadcast_def sample_auth_fleet_def initial_auth_fleet_def)
  have I: "inventory initial_routing [] = {''ShardDO_0''}"
    by (simp add: inventory_def initial_routing_def initial_ranges_def op_active_def sql_one_def)
  have "shards_named initial_routing []" unfolding shards_named_def I by code_simp
  moreover have "accepts_broadcast sample_answer (inventory initial_routing [])"
    by (simp add: accepts_broadcast_def call_failure_def sample_answer_def assertAuthInvalidationResult_def auth_result_def ensure_def safe_integer_def)
  moreover have "outbox_time 0 = Inr ()" "outbox_time 1 = Inr ()" by (simp_all add: outbox_time_def ensure_def safe_integer_def)
  ultimately show ?thesis
    using global_broadcast_completes [OF sample_broadcast_reachable, of sample_answer "[0, 1]" 0] unfolding f by (simp add: I)
qed

end
