(* ===== verification/Spec2Isabelle.thy ===== *)
theory Spec2Isabelle
  imports Catalog_Topology Routing_Fence Intervals_Wire Start_Intent Atomic_Mutation Split_Oplog_Source Auth_Invalidation Cdb_Mutation Schema_Upgrade
    Schema_Fleet Recovery_Fleet Resharder_Phases Auth_Broadcast
begin

text \<open>
  \<^bold>\<open>CharDB: routing, resharding, deletion, exactly-once mutations, live queries, schema migrations and recovery.\<close>

  CharDB (\<^verbatim>\<open>src/src\<close>) is a sharded SQLite database on Cloudflare Durable Objects. A row belongs to a virtual
  shard (vshard), the xxHash64 of its partition key modulo 16384; the \<^emph>\<open>Catalog\<close> object keeps the table that
  assigns ranges of vshards to physical shards, and each \<^emph>\<open>shard\<close> object (\<open>Cdb\<close>) runs queries and mutations on
  its own SQLite storage. A \<^emph>\<open>Resharder\<close> object moves a range from one shard to another: it takes a lease in the
  Catalog, copies rows and recorded replies, installs a fence on the source so that mutations routed with the old
  generation are refused, cuts the routing table over, and completes or aborts the lease. Clients subscribe to queries
  through a \<^emph>\<open>Gateway\<close>; a mutation queues an invalidation for every subscription that reads a table it wrote, in
  the same transaction. The Catalog also drives schema migrations, shard by shard. Deletions of organizations and
  point-in-time restores run beside all this and are kept apart from it by barriers and by the recovery gate.

  \<^bold>\<open>Theories and sources.\<close> (Paths are under \<^verbatim>\<open>src/src\<close>; stores are under \<^verbatim>\<open>server/do\<close>.)

  \<^item> \<open>Prelude\<close>: the exception monad \<open>rbind\<close>, safe integers, strings and decimal numerals, list lemmas, the
    collections of simplification rules. \<open>Store\<close>: SQL statements on tables as lists of rows (insert, update and
    delete with their change counts and constraints), and the locales \<open>lifecycle_store\<close>, \<open>tombstone_store\<close> and
    \<open>final_store\<close>: what a durable store promises about its reachable tables, its surviving rows and its final
    rows. The routing, topology, deletion, recovery and start-intent stores interpret them on their own step relations.
  \<^item> \<open>Errors\<close> (\<^verbatim>\<open>errors.ts\<close>): the codes, retry polarity, and the text encoding of errors across Workers RPC with
    its decoder. \<open>Base64\<close>: the encoding the wire formats share, with its round trip.
  \<^item> \<open>Xxhash64\<close> (\<^verbatim>\<open>hash/xxhash64.ts\<close>): the BigInt code operation by operation, equal to the algorithm on 64-bit
    words. \<open>Vshard\<close> (\<^verbatim>\<open>vshard.ts\<close>, \<^verbatim>\<open>reshard/range.ts\<close>): key encoding, the range map, binary search, splitting; the
    locale \<open>partition_router\<close>.
  \<^item> \<open>Catalog_Routing\<close> (\<^verbatim>\<open>catalog-routing-store.ts\<close>), \<open>Topology_Operations\<close>
    (\<^verbatim>\<open>catalog-topology-operation-store.ts\<close>), \<open>Organization_Deletion\<close>, \<open>Deletion_Barrier\<close>
    (\<^verbatim>\<open>catalog-organization-deletion-store.ts\<close>, \<^verbatim>\<open>-barrier-store.ts\<close>): the Catalog's tables, every method.
    \<open>Catalog_Topology\<close> (\<^verbatim>\<open>catalog.ts\<close>): the Catalog's methods that compose them; its step relation
    \<open>catalog_step\<close> has all of these methods, in any order and with any arguments.
  \<^item> \<open>Routing_Fence\<close> (\<^verbatim>\<open>cdb-routing-fence-store.ts\<close>), \<open>Recovery_Admission\<close> (\<^verbatim>\<open>recovery-admission.ts\<close>): the
    gates a shard puts in front of mutations. \<open>Cdb_Admission\<close> (\<^verbatim>\<open>cdb-reshard-runtime.ts\<close>,
    \<^verbatim>\<open>cdb-background-delivery-ownership-sql.ts\<close>): what a shard that takes part in moves admits, in TypeScript and in SQL.
    \<open>Start_Intent\<close> (\<^verbatim>\<open>resharder-start-intent-store.ts\<close>): the record that lets an abort arrive before the start it cancels.
  \<^item> \<open>Json\<close>: \<open>JSON.stringify\<close>, \<open>JSON.parse\<close> and canonical requests (\<^verbatim>\<open>oplog/wrapper.ts\<close>). \<open>Json_Limits\<close>
    (\<^verbatim>\<open>server/result_limits.ts\<close>): the explicit-stack size check; what a string adds is modelled over UTF-16 code units, surrogates
    included. \<open>Oplog\<close> (\<^verbatim>\<open>oplog/wrapper.ts\<close>, \<^verbatim>\<open>envelope.ts\<close>,
    \<^verbatim>\<open>schema.ts\<close>, \<^verbatim>\<open>util/canonical.ts\<close>) and \<open>Oplog_Retention\<close> (\<^verbatim>\<open>cdb-oplog-retention-store.ts\<close>): the wrapper that makes
    a mutation run at most once, over the locale \<open>payload_codec\<close>, and the cleanup of its log. \<open>Atomic_Mutation\<close> (\<^verbatim>\<open>server/atomic-mutation.ts\<close>): the
    transaction around it; a handler is the tree of its statements. \<open>Split_Oplog\<close>, \<open>Split_Oplog_Source\<close>
    (\<^verbatim>\<open>cdb-split-oplog-store.ts\<close>): how recorded replies follow their vshard to another shard.
  \<^item> \<open>Live_Store\<close>, \<open>Live_Outbox\<close> (\<^verbatim>\<open>cdb-live-store.ts\<close>, and the delivery loop of \<^verbatim>\<open>cdb.ts\<close>): registrations of live queries
    and the outbox of invalidations. \<open>Live_Queue\<close> has the abstract queue of changes: the locale \<open>change_queue\<close> says how
    every call must act on it and what then holds of every run. \<open>Live_Registry\<close> and \<open>Live_Delivery\<close> show that the
    calls do so and interpret the locale; \<open>Live_Properties\<close> draws the conclusions. \<open>Auth_Invalidation\<close>
    (\<^verbatim>\<open>cdb-auth-invalidation-store.ts\<close>) turns a new authentication epoch into invalidations of the scope.
  \<^item> \<open>Catalog_Auth\<close> (\<^verbatim>\<open>catalog-auth-invalidation-store.ts\<close>, the counters of \<^verbatim>\<open>catalog-authority-store.ts\<close>): the Catalog's outbox of
    authentication epochs, with the locale \<open>epoch_queue\<close> as its contract and \<open>cursor_table\<close> for the two tables with a cursor. \<open>Auth_Delivery\<close>
    (\<^verbatim>\<open>catalog.ts\<close>, \<^verbatim>\<open>cdb.ts\<close>): queueing, and a delivery cut at its calls. \<open>Auth_Fleet\<close>: the Catalog and its shards while deliveries, new
    epochs and moves interleave. \<open>Auth_Broadcast\<close>: the alarms one after the other.
  \<^item> \<open>Schema_Journal\<close> (\<^verbatim>\<open>server/schema-migrations.ts\<close>), \<open>Schema_Store\<close> (\<^verbatim>\<open>cdb-schema-migration-store.ts\<close>), \<open>Catalog_Schema\<close>
    (\<^verbatim>\<open>catalog-schema-store.ts\<close> and the migration methods of \<^verbatim>\<open>catalog.ts\<close>): the packaged journal, the state of one shard, the
    state of the Catalog. \<open>Schema_Properties\<close> has one shard under any deployed journals, \<open>Schema_Upgrade\<close> the shard's methods
    (\<^verbatim>\<open>cdb.ts\<close>) with their guards on recovery, active reshards and vector resources, and the driver that upgrades it.
    \<open>Schema_Leases\<close> follows the schema a topology lease carries and the provisioning request \<^verbatim>\<open>resharder.ts\<close> makes of it;
    \<open>Schema_Fleet\<close> is the Catalog with its schema and topology methods and all its shards, with calls that arrive late, twice or never.
  \<^item> \<open>Recovery_Restore\<close> (\<^verbatim>\<open>recovery.ts\<close>): arming, cancelling and committing a point-in-time restore, cut at the awaits.
    \<open>Recovery_Continuation\<close> (\<^verbatim>\<open>server/recovery-continuation.ts\<close>): the cursors of a restore that spans many requests.
    \<open>Recovery_Coordinator\<close> (\<^verbatim>\<open>recovery-coordinator.ts\<close>): the clock and the operations, every method; \<open>coordinator_change\<close> is its
    abstract specification, and each method is shown to be one of its changes. Four of them answer an object that still has fields
    of the phase before; these are the \<open>CarriedFields\<close> beside the answer. \<open>Recovery_Fleet\<close>: the coordinator, the gates of
    \<open>Recovery_Admission\<close> in all objects, and messages and restarts between them (sent as \<^verbatim>\<open>server/recovery-admin.ts\<close> sends them); the
    locale \<open>generation_clock\<close> is what the gates rely on.
  \<^item> \<open>Resharder_Phases\<close> (\<^verbatim>\<open>resharder.ts\<close>): the transactions that start a split and move it through its phases, in one object with
    \<open>Recovery_Coordinator\<close> and \<open>Start_Intent\<close>. A call of \<open>advance\<close> may name any phase or none; its steps are labelled with
    the drained migrations that it reopened, and the properties say what holds of the others and of these.
  \<^item> \<open>Cdb_Mutation\<close> (\<^verbatim>\<open>cdb-mutation-execution.ts\<close>, \<open>mutate\<close> and \<open>subscribe\<close> of \<^verbatim>\<open>cdb.ts\<close>): one record with all the tables of a
    shard, and a mutation from the request to its commit. It composes \<open>Atomic_Mutation\<close>, \<open>Split_Oplog\<close>, \<open>Live_Outbox\<close>,
    \<open>Cdb_Admission\<close>, \<open>Schema_Store\<close>, \<open>Recovery_Restore\<close> and the deletion barrier as the code does.
  \<^item> \<open>Intervals\<close> (\<^verbatim>\<open>intervals.ts\<close>), \<open>Intervals_Wire\<close> (\<^verbatim>\<open>intervals_wire.ts\<close>): the index of live-query subscriptions, with
    the locale \<open>subscription_index\<close>.

  \<^bold>\<open>Conventions.\<close> A JavaScript number that the code uses as an integer is an \<open>int\<close>, with \<open>safe_integer\<close> where the
  code tests it; a string is a list of characters below 256. A function that may throw returns \<open>'a res\<close>, the error
  at the left. Inside \<open>transactionSync\<close> an exception rolls back, so the new tables exist only at the right; where
  something outside the transaction survives (the Catalog's cached map) the state is returned beside the result.
  An asynchronous method is cut at its awaits into a part before and a part after, and other calls may run in between.
  Clock readings, SHA-256, the payload codec, the runtime and the user's closures are arguments. Reachability is the
  reflexive transitive closure of a step relation whose steps are the calls with arbitrary arguments; failed calls leave
  the state as the code leaves it.

  \<^bold>\<open>What is shown.\<close> Routing: tables stay valid partitions, the search terminates and returns the owner, a split
  moves exactly its range, a cutover is atomic and happens once, abort and cutover exclude each other; no request is
  committed by both shards of a move. Leases, fences, barriers, deletions, start intents: at most one active, history is
  permanent and statuses only advance, each gate admits exactly what its contract says, cleanup makes progress.
  Mutations: at most once within the retention window, all effects in one commit and only when admitted, the partition is
  the verified one, replies survive a move, limits hold. Live queries: no invalidation is lost between the mutation
  and the acknowledgement of its number, the alarm is exact, a failed delivery is retried, the outbox refines a queue. An
  authentication epoch is queued until every shard it concerns has projected it, and a broadcast that the shards accept ends.
  Schemas: migrations run exactly once and in order, an interrupted upgrade can be finished, an epoch identifies one
  schema, and the Catalog and its shards agree on it while changes and range movements interleave. Recovery: generations only grow, older requests are refused, the
  runtime is never asked for a restore that was not durably committed, one recovery runs at a time and never beside a
  split, an armed object stays shut until its release whatever is rewound, late or lost. Splits: once the destination
  takes writes a split can only finish, finished and aborted ones stay as they are (but for a drained one that an advance without a
  phase reopens). Encodings: round trips, and the inputs for which
  they fail; the size walk equals the size of the text.

  \<^bold>\<open>Bounds and fuel.\<close> \<open>JSON_parse\<close> takes twice the length of the text plus one as fuel, which
  \<open>JSON_parse_fuel\<close> shows to be enough for every text. All other recursion is structural or has a measure. Table
  limits (\<open>CDB_ROUTING_FENCE_MAX_ROWS\<close> and the like) are the source's constants.

  \<^bold>\<open>Not modelled.\<close> The Durable Object classes as network endpoints (\<^verbatim>\<open>gateway*.ts\<close>, the remaining RPCs and the alarm
  pump of \<^verbatim>\<open>cdb.ts\<close>, what the drivers of \<^verbatim>\<open>resharder.ts\<close> and \<^verbatim>\<open>recovery-admin.ts\<close> do between two transactions): they sequence
  asynchronous RPC and WebSocket calls around the stores above. Row copying (\<^verbatim>\<open>cdb-reshard-relational.ts\<close>, the triggers and most of \<^verbatim>\<open>cdb-reshard-runtime.ts\<close>), which
  generates SQL for user tables. The vector and file subsystems (\<^verbatim>\<open>cdb-vector-*.ts\<close>, \<^verbatim>\<open>cdb-file-*.ts\<close>, over Vectorize
  and R2), authentication (\<^verbatim>\<open>src/src/auth\<close> and the user tables of \<^verbatim>\<open>catalog-authority-store.ts\<close>, over Better Auth), query planning and policies and the rendering of baselines
  (over Drizzle), the browser, React and binding clients, the command line, the build scripts, benchmarks and the landing
  page.
\<close>

end
